(* ===== verification/NachosPrelude.thy ===== *)
theory NachosPrelude
  imports Main "HOL-Library.Word" "HOL-Library.Signed_Division" "HOL-Library.Multiset"
begin

text \<open>
  Shared material of the Nachos development: the failures a Nachos run can end in, the
  result type in which every fallible operation returns, counted loops over it, the
  C division macros of \<^verbatim>\<open>threads/utility.h\<close>, and the lemmas on lists and
  results that the component theories use.
\<close>

section \<open>Failures as values\<close>

text \<open>
  \<^verbatim>\<open>ASSERT\<close> (threads/utility.h) prints a message and aborts the simulation;
  it is the value \<open>AssertFail\<close>. The other constructors are the undefined behaviours of
  C++ that the model makes explicit instead of ignoring: dereferencing the null pointer,
  using an object after it was deleted, and indexing outside an array. \<open>Halted\<close> is the
  orderly end of the simulation through \<^verbatim>\<open>Interrupt::Halt\<close>. \<open>Suspended\<close> ends an
  operation that is followed on one thread when the scheduler switches to another one.
\<close>

datatype nachos_error = AssertFail | NullDeref | DanglingPointer | OutOfBounds | OutOfFuel | Halted | Suspended

type_synonym 'a res = "nachos_error + 'a"

type_synonym byte = "8 word"

named_theorems res_simps \<open>rewriting of the result type\<close>
named_theorems inv_intros \<open>invariants kept by the operations\<close>

definition bindE :: "'a res \<Rightarrow> ('a \<Rightarrow> 'b res) \<Rightarrow> 'b res" where
  "bindE m f = (case m of Inl e \<Rightarrow> Inl e | Inr x \<Rightarrow> f x)"

definition assertE :: "bool \<Rightarrow> unit res" where
  "assertE b = (if b then Inr () else Inl AssertFail)"

fun foldE :: "('x \<Rightarrow> 's \<Rightarrow> 's res) \<Rightarrow> 'x list \<Rightarrow> 's \<Rightarrow> 's res" where
  "foldE f [] s = Inr s"
| "foldE f (x # xs) s = bindE (f x s) (foldE f xs)"

text \<open>Reading and writing a C array held as a list; an index outside it is a failure.\<close>

definition arr_get :: "'a list \<Rightarrow> nat \<Rightarrow> 'a res" where
  "arr_get xs i = (if i < length xs then Inr (xs ! i) else Inl OutOfBounds)"

definition arr_set :: "'a list \<Rightarrow> nat \<Rightarrow> 'a \<Rightarrow> 'a list res" where
  "arr_set xs i v = (if i < length xs then Inr (xs[i := v]) else Inl OutOfBounds)"

lemma bindE_Inr [simp, res_simps]: "bindE (Inr x) f = f x"
  by (simp add: bindE_def)

lemma bindE_Inl [simp, res_simps]: "bindE (Inl e) f = Inl e"
  by (simp add: bindE_def)

lemma bindE_eq_Inr [res_simps]: "bindE m f = Inr y \<longleftrightarrow> (\<exists>x. m = Inr x \<and> f x = Inr y)"
  by (cases m) auto

lemma bindE_eq_Inl: "bindE m f = Inl e \<longleftrightarrow> m = Inl e \<or> (\<exists>x. m = Inr x \<and> f x = Inl e)"
  by (cases m) auto

lemma bindE_assoc: "bindE (bindE m f) g = bindE m (\<lambda>x. bindE (f x) g)"
  by (cases m) auto

lemma assertE_True [simp]: "assertE True = Inr ()"
  by (simp add: assertE_def)

lemma assertE_False [simp]: "assertE False = Inl AssertFail"
  by (simp add: assertE_def)

lemma assertE_eq_Inr [res_simps]: "assertE b = Inr u \<longleftrightarrow> b"
  by (simp add: assertE_def)

lemma arr_get_ok [simp]: "i < length xs \<Longrightarrow> arr_get xs i = Inr (xs ! i)"
  by (simp add: arr_get_def)

lemma arr_set_ok [simp]: "i < length xs \<Longrightarrow> arr_set xs i v = Inr (xs[i := v])"
  by (simp add: arr_set_def)

lemma arr_get_eq_Inr [res_simps]: "arr_get xs i = Inr v \<longleftrightarrow> i < length xs \<and> v = xs ! i"
  by (auto simp: arr_get_def)

lemma arr_set_eq_Inr [res_simps]: "arr_set xs i v = Inr ys \<longleftrightarrow> i < length xs \<and> ys = xs[i := v]"
  by (auto simp: arr_set_def)

lemma foldE_append: "foldE f (xs @ ys) s = bindE (foldE f xs s) (foldE f ys)"
proof (induction xs arbitrary: s)
  case (Cons x xs)
  then show ?case by (cases "f x s") auto
qed simp

text \<open>
  The rule for a counted loop \<^verbatim>\<open>for (i = 0; i < n; i++)\<close>: an invariant indexed
  by the counter that the body establishes for the next counter value holds at the end, and
  no iteration fails.
\<close>

lemma foldE_upt_induct:
  assumes "P 0 s"
    and "\<And>i t. i < n \<Longrightarrow> P i t \<Longrightarrow> \<exists>t'. f i t = Inr t' \<and> P (Suc i) t'"
  shows "\<exists>t. foldE f [0..<n] s = Inr t \<and> P n t"
  using assms
proof (induction n)
  case 0
  then show ?case by simp
next
  case (Suc n)
  then obtain t where "foldE f [0..<n] s = Inr t" "P n t" by auto
  moreover obtain t' where "f n t = Inr t'" "P (Suc n) t'"
    using Suc.prems(2) [of n t] \<open>P n t\<close> by auto
  ultimately show ?case by (simp add: foldE_append)
qed

section \<open>Division macros\<close>

text \<open>
  \<^verbatim>\<open>divRoundDown\<close> and \<^verbatim>\<open>divRoundUp\<close> of threads/utility.h. C's
  division truncates towards zero: \<open>sdiv\<close> and \<open>smod\<close> on \<open>int\<close>.
\<close>

definition divRoundDown :: "int \<Rightarrow> int \<Rightarrow> int" where
  "divRoundDown n s = n sdiv s"

definition divRoundUp :: "int \<Rightarrow> int \<Rightarrow> int" where
  "divRoundUp n s = n sdiv s + (if n smod s > 0 then 1 else 0)"

lemma sdiv_nonneg: "0 \<le> n \<Longrightarrow> 0 < s \<Longrightarrow> (n::int) sdiv s = n div s"
  by (cases "n = 0") (auto simp: signed_divide_int_def)

lemma smod_nonneg: "0 \<le> n \<Longrightarrow> 0 < s \<Longrightarrow> (n::int) smod s = n mod s"
  by (cases "n = 0") (auto simp: signed_modulo_int_def sdiv_nonneg minus_div_mult_eq_mod)

lemma divRoundDown_nonneg [simp]: "0 \<le> n \<Longrightarrow> 0 < s \<Longrightarrow> divRoundDown n s = n div s"
  by (simp add: divRoundDown_def sdiv_nonneg)

lemma divRoundUp_nonneg:
  "0 \<le> n \<Longrightarrow> 0 < s \<Longrightarrow> divRoundUp n s = n div s + (if n mod s > 0 then 1 else 0)"
  by (simp add: divRoundUp_def sdiv_nonneg smod_nonneg)

text \<open>The macro computes the least multiple count that covers \<open>n\<close>.\<close>

lemma divRoundUp_covers:
  assumes "0 \<le> n" "0 < s"
  shows "n \<le> divRoundUp n s * s" and "divRoundUp n s * s < n + s" and "0 \<le> divRoundUp n s"
proof -
  let ?q = "n div s" and ?r = "n mod s"
  have n: "s * ?q + ?r = n" by simp
  have r: "0 \<le> ?r" "?r < s" using assms by auto
  have q: "0 \<le> ?q" using assms by (simp add: pos_imp_zdiv_nonneg_iff)
  have e: "divRoundUp n s * s = s * ?q + (if ?r > 0 then s else 0)"
    by (simp add: divRoundUp_nonneg [OF assms] algebra_simps)
  show "n \<le> divRoundUp n s * s"
  proof (cases "?r > 0")
    case True
    show ?thesis using True n r unfolding e if_P [OF True] by linarith
  next
    case False
    show ?thesis using False n r unfolding e if_not_P [OF False] by linarith
  qed
  show "divRoundUp n s * s < n + s"
  proof (cases "?r > 0")
    case True
    show ?thesis using True n r unfolding e if_P [OF True] by linarith
  next
    case False
    show ?thesis using False n r assms unfolding e if_not_P [OF False] by linarith
  qed
  show "0 \<le> divRoundUp n s"
    using q by (simp add: divRoundUp_nonneg [OF assms])
qed

lemma div_less_divRoundUp:
  assumes "0 \<le> i" "i < n" "0 < s"
  shows "i div s < divRoundUp n s"
proof -
  have "i < divRoundUp n s * s"
    using assms divRoundUp_covers(1) [of n s] by linarith
  moreover have "i div s * s \<le> i"
    using assms by (simp add: div_times_less_eq_dividend minus_mod_eq_div_mult [symmetric])
  ultimately have "i div s * s < divRoundUp n s * s" by linarith
  then show ?thesis
    using assms by simp
qed

section \<open>Lists\<close>

lemma distinct_subset_length:
  assumes "distinct xs" "set xs \<subseteq> {..<n}"
  shows "length xs \<le> n"
proof -
  have "card (set xs) \<le> card {..<n}"
    using assms(2) by (intro card_mono) auto
  then show ?thesis using assms(1) by (simp add: distinct_card)
qed

lemma butlast_last_Cons: "xs \<noteq> [] \<Longrightarrow> butlast xs @ last xs # zs = xs @ zs"
  by (induction xs) auto

section \<open>Signed reading of 32-bit words\<close>

lemma bit31_uint: "bit w 31 \<longleftrightarrow> 0x80000000 \<le> uint w" for w :: "32 word"
proof -
  have b: "bit w 31 \<longleftrightarrow> odd (uint w div 2 ^ 31)"
    using bit_uint_iff [of w 31] bit_iff_odd [of "uint w" 31] by simp
  have "0 \<le> uint w" "uint w < 0x100000000" using uint_lt2p [of w] by simp_all
  then have "uint w div 2 ^ 31 = (if 0x80000000 \<le> uint w then 1 else 0)"
    by (simp add: div_pos_geq)
  then show ?thesis using b by simp
qed

lemma sint_uint32: "sint a = uint a - (if bit a 31 then 0x100000000 else 0)" for a :: "32 word"
proof -
  have "take_bit 32 (uint a) = uint a"
    using take_bit_int_eq_self [of "uint a" 32] uint_lt2p [of a] by simp
  then show ?thesis
    by (simp add: sint_uint signed_take_bit_eq_take_bit_minus bit_uint_iff)
qed

lemma sless_0_iff: "a <s 0 \<longleftrightarrow> bit a 31" for a :: "32 word"
  using uint_lt2p [of a] by (simp add: word_sless_alt sint_uint32)

lemma sint_nonneg: "\<not> w <s 0 \<Longrightarrow> sint w = int (unat w)" for w :: "32 word"
  by (simp add: sless_0_iff sint_uint32)

lemma foldE_keeps:
  assumes "foldE f xs s = Inr s'" "\<And>x t t'. f x t = Inr t' \<Longrightarrow> g t' = g t"
  shows "g s' = g s"
  using assms
proof (induction xs arbitrary: s)
  case (Cons x xs)
  then show ?case by (auto simp: bindE_eq_Inr)
qed simp

text \<open>Taking one element off a list of pending interrupts.\<close>

lemma count_remove1: "count_list (remove1 x xs) y = count_list xs y - of_bool (x = y \<and> x \<in> set xs)"
proof (induction xs)
  case (Cons z zs)
  have "x \<in> set zs \<Longrightarrow> 0 < count_list zs x" by (metis count_list_0_iff gr0I)
  then show ?case using Cons by auto
qed simp

end
