(* ===== verification/NachosList.thy ===== *)
theory NachosList
  imports NachosPrelude
begin

text \<open>
  The singly linked list of \<^verbatim>\<open>threads/list.cc\<close>, at the level of its
  pointers. A list owns its \<^verbatim>\<open>ListElement\<close>s, so a list value carries its own
  store of cells: address \<open>a\<close> is the \<open>a\<close>-th element the list ever allocated, and a
  cell that was \<^verbatim>\<open>delete\<close>d reads as \<open>None\<close>. Dereferencing the null
  pointer or a deleted cell is a failure. \<open>List_elems\<close> is the abstraction to the
  sequence of (key, item) pairs, \<open>List_inv\<close> the invariant that \<open>first\<close> reaches the
  elements and \<open>last\<close> is the last of them.
\<close>

section \<open>Cells and lists\<close>

record 'a ListElement =
  le_next :: "nat option"
  le_key :: int
  le_item :: 'a

record 'a nlist =
  l_cells :: "'a ListElement option list"
  l_first :: "nat option"
  l_last :: "nat option"

definition ListElement_new :: "'a \<Rightarrow> int \<Rightarrow> 'a ListElement" where
  "ListElement_new itemPtr sortKey = \<lparr>le_next = None, le_key = sortKey, le_item = itemPtr\<rparr>"

definition List_new :: "'a nlist" where
  "List_new = \<lparr>l_cells = [], l_first = None, l_last = None\<rparr>"

definition cell_at :: "'a ListElement option list \<Rightarrow> nat \<Rightarrow> 'a ListElement option" where
  "cell_at cs a = (if a < length cs then cs ! a else None)"

definition deref :: "'a ListElement option list \<Rightarrow> nat option \<Rightarrow> 'a ListElement res" where
  "deref cs p = (case p of None \<Rightarrow> Inl NullDeref
     | Some a \<Rightarrow> (case cell_at cs a of None \<Rightarrow> Inl DanglingPointer | Some e \<Rightarrow> Inr e))"

text \<open>\<^verbatim>\<open>p->next = q\<close>.\<close>

definition set_next :: "'a ListElement option list \<Rightarrow> nat option \<Rightarrow> nat option
    \<Rightarrow> 'a ListElement option list res" where
  "set_next cs p q = bindE (deref cs p) (\<lambda>e. Inr (cs[the p := Some (e\<lparr>le_next := q\<rparr>)]))"

definition free_cell :: "'a ListElement option list \<Rightarrow> nat option \<Rightarrow> 'a ListElement option list res" where
  "free_cell cs p = bindE (deref cs p) (\<lambda>_. Inr (cs[the p := None]))"

section \<open>The operations of list.cc\<close>

definition List_IsEmpty :: "'a nlist \<Rightarrow> bool" where
  "List_IsEmpty l = (if l_first l = None then True else False)"

definition List_Append :: "'a \<Rightarrow> 'a nlist \<Rightarrow> 'a nlist res" where
  "List_Append item l =
     (let element = Some (length (l_cells l));
          cs = l_cells l @ [Some (ListElement_new item 0)]
      in if List_IsEmpty l
         then Inr \<lparr>l_cells = cs, l_first = element, l_last = element\<rparr>
         else bindE (set_next cs (l_last l) element)
                (\<lambda>cs'. Inr \<lparr>l_cells = cs', l_first = l_first l, l_last = element\<rparr>))"

definition List_Prepend :: "'a \<Rightarrow> 'a nlist \<Rightarrow> 'a nlist res" where
  "List_Prepend item l =
     (let element = Some (length (l_cells l));
          cs = l_cells l @ [Some (ListElement_new item 0)]
      in if List_IsEmpty l
         then Inr \<lparr>l_cells = cs, l_first = element, l_last = element\<rparr>
         else bindE (set_next cs element (l_first l))
                (\<lambda>cs'. Inr \<lparr>l_cells = cs', l_first = element, l_last = l_last l\<rparr>))"

text \<open>
  \<^verbatim>\<open>SortedRemove\<close> returns the item and, through \<^verbatim>\<open>keyPtr\<close>, its key;
  \<open>None\<close> is the \<^verbatim>\<open>NULL\<close> of the empty list.
\<close>

definition List_SortedRemove :: "'a nlist \<Rightarrow> ((int \<times> 'a) option \<times> 'a nlist) res" where
  "List_SortedRemove l =
     (if List_IsEmpty l then Inr (None, l)
      else bindE (deref (l_cells l) (l_first l)) (\<lambda>e.
             let l' = (if l_first l = l_last l then l\<lparr>l_first := None, l_last := None\<rparr>
                       else l\<lparr>l_first := le_next e\<rparr>)
             in bindE (free_cell (l_cells l) (l_first l)) (\<lambda>cs.
                  Inr (Some (le_key e, le_item e), l'\<lparr>l_cells := cs\<rparr>))))"

definition List_Remove :: "'a nlist \<Rightarrow> ('a option \<times> 'a nlist) res" where
  "List_Remove l = bindE (List_SortedRemove l) (\<lambda>(r, l'). Inr (map_option snd r, l'))"

text \<open>
  The walking loops take a fuel argument; the number of cells ever allocated is enough
  (\<open>chain_length\<close>), and running out of it is the failure \<open>OutOfFuel\<close>.
\<close>

fun RemoveElement_loop :: "nat \<Rightarrow> 'a \<Rightarrow> 'a ListElement option list \<Rightarrow> nat option \<Rightarrow> nat option
    \<Rightarrow> (nat option \<times> nat option) res" where
  "RemoveElement_loop 0 item cs previous current = Inl OutOfFuel"
| "RemoveElement_loop (Suc n) item cs previous current =
     (if current = None then Inr (previous, current)
      else bindE (deref cs current) (\<lambda>e.
             if le_item e \<noteq> item then RemoveElement_loop n item cs current (le_next e)
             else Inr (previous, current)))"

definition List_RemoveElement :: "'a \<Rightarrow> 'a nlist \<Rightarrow> ('a option \<times> 'a nlist) res" where
  "List_RemoveElement item l =
     (let cs = l_cells l in
      bindE (if l_first l = None then Inr None else bindE (deref cs (l_first l)) (\<lambda>e. Inr (Some e))) (\<lambda>c.
      if (case c of None \<Rightarrow> False | Some e \<Rightarrow> le_item e = item)
      then bindE (free_cell cs (l_first l)) (\<lambda>cs'.
             Inr (Some (le_item (the c)), l\<lparr>l_cells := cs', l_first := le_next (the c)\<rparr>))
      else bindE (RemoveElement_loop (Suc (length cs)) item cs None (l_first l)) (\<lambda>(previous, current).
             if current = None then Inr (None, l)
             else bindE (deref cs current) (\<lambda>e.
                  bindE (set_next cs previous (le_next e)) (\<lambda>cs'.
                  bindE (free_cell cs' current) (\<lambda>cs''.
                  Inr (Some (le_item e), l\<lparr>l_cells := cs''\<rparr>)))))))"

fun Search_loop :: "nat \<Rightarrow> 'a \<Rightarrow> 'a ListElement option list \<Rightarrow> nat option \<Rightarrow> bool res" where
  "Search_loop 0 item cs current = Inl OutOfFuel"
| "Search_loop (Suc n) item cs current =
     (if current = None then Inr False
      else bindE (deref cs current) (\<lambda>e.
             if le_item e = item then Inr True else Search_loop n item cs (le_next e)))"

definition List_Search :: "'a \<Rightarrow> 'a nlist \<Rightarrow> bool res" where
  "List_Search item l = Search_loop (Suc (length (l_cells l))) item (l_cells l) (l_first l)"

text \<open>
  \<^verbatim>\<open>Mapcar\<close> calls \<^verbatim>\<open>func\<close> on every item; its effects are a
  state transformer.
\<close>

fun Mapcar_loop :: "nat \<Rightarrow> ('a \<Rightarrow> 's \<Rightarrow> 's res) \<Rightarrow> 'a ListElement option list \<Rightarrow> nat option \<Rightarrow> 's \<Rightarrow> 's res" where
  "Mapcar_loop 0 func cs ptr s = Inl OutOfFuel"
| "Mapcar_loop (Suc n) func cs ptr s =
     (if ptr = None then Inr s
      else bindE (deref cs ptr) (\<lambda>e.
           bindE (func (le_item e) s) (\<lambda>s'. Mapcar_loop n func cs (le_next e) s')))"

definition List_Mapcar :: "('a \<Rightarrow> 's \<Rightarrow> 's res) \<Rightarrow> 'a nlist \<Rightarrow> 's \<Rightarrow> 's res" where
  "List_Mapcar func l s = Mapcar_loop (Suc (length (l_cells l))) func (l_cells l) (l_first l) s"

text \<open>
  The loop of \<^verbatim>\<open>SortedInsert\<close>: the predecessor to insert after (\<open>Some\<close>), or
  \<open>None\<close> when the loop runs off the end and the element goes after \<^verbatim>\<open>last\<close>.
\<close>

fun SortedInsert_loop :: "nat \<Rightarrow> int \<Rightarrow> 'a ListElement option list \<Rightarrow> nat option \<Rightarrow> nat option res" where
  "SortedInsert_loop 0 sortKey cs ptr = Inl OutOfFuel"
| "SortedInsert_loop (Suc n) sortKey cs ptr =
     bindE (deref cs ptr) (\<lambda>e.
       if le_next e = None then Inr None
       else bindE (deref cs (le_next e)) (\<lambda>e'.
              if sortKey < le_key e' then Inr ptr
              else SortedInsert_loop n sortKey cs (le_next e)))"

definition List_SortedInsert :: "'a \<Rightarrow> int \<Rightarrow> 'a nlist \<Rightarrow> 'a nlist res" where
  "List_SortedInsert item sortKey l =
     (let element = Some (length (l_cells l));
          cs = l_cells l @ [Some (ListElement_new item sortKey)]
      in if List_IsEmpty l
         then Inr \<lparr>l_cells = cs, l_first = element, l_last = element\<rparr>
         else bindE (deref cs (l_first l)) (\<lambda>f.
           if sortKey < le_key f
           then bindE (set_next cs element (l_first l)) (\<lambda>cs'.
                  Inr \<lparr>l_cells = cs', l_first = element, l_last = l_last l\<rparr>)
           else bindE (SortedInsert_loop (length cs) sortKey cs (l_first l)) (\<lambda>r.
                  case r of
                    Some ptr \<Rightarrow>
                      bindE (deref cs (Some ptr)) (\<lambda>p.
                      bindE (set_next cs element (le_next p)) (\<lambda>cs'.
                      bindE (set_next cs' (Some ptr) element) (\<lambda>cs''.
                      Inr (l\<lparr>l_cells := cs''\<rparr>))))
                  | None \<Rightarrow>
                      bindE (set_next cs (l_last l) element) (\<lambda>cs'.
                      Inr \<lparr>l_cells = cs', l_first = l_first l, l_last = element\<rparr>))))"

text \<open>\<^verbatim>\<open>~List\<close>: remove elements until nothing is left.\<close>

fun List_destroy_loop :: "nat \<Rightarrow> 'a nlist \<Rightarrow> 'a nlist res" where
  "List_destroy_loop 0 l = Inl OutOfFuel"
| "List_destroy_loop (Suc n) l =
     bindE (List_Remove l) (\<lambda>(r, l'). if r = None then Inr l' else List_destroy_loop n l')"

definition List_destroy :: "'a nlist \<Rightarrow> 'a nlist res" where
  "List_destroy l = List_destroy_loop (Suc (length (l_cells l))) l"

section \<open>Abstraction and invariant\<close>

fun chain :: "'a ListElement option list \<Rightarrow> nat option \<Rightarrow> nat list \<Rightarrow> bool" where
  "chain cs p [] = (p = None)"
| "chain cs p (a # as) =
     (p = Some a \<and> (case cell_at cs a of None \<Rightarrow> False | Some e \<Rightarrow> chain cs (le_next e) as))"

fun addrs_from :: "nat \<Rightarrow> 'a ListElement option list \<Rightarrow> nat option \<Rightarrow> nat list" where
  "addrs_from 0 cs p = []"
| "addrs_from (Suc n) cs p =
     (case p of None \<Rightarrow> []
      | Some a \<Rightarrow> (case cell_at cs a of None \<Rightarrow> [] | Some e \<Rightarrow> a # addrs_from n cs (le_next e)))"

definition elem_of :: "'a ListElement option list \<Rightarrow> nat \<Rightarrow> int \<times> 'a" where
  "elem_of cs a = (case cell_at cs a of Some e \<Rightarrow> (le_key e, le_item e))"

definition List_addrs :: "'a nlist \<Rightarrow> nat list" where
  "List_addrs l = addrs_from (length (l_cells l)) (l_cells l) (l_first l)"

definition List_elems :: "'a nlist \<Rightarrow> (int \<times> 'a) list" where
  "List_elems l = map (elem_of (l_cells l)) (List_addrs l)"

definition List_items :: "'a nlist \<Rightarrow> 'a list" where
  "List_items l = map snd (List_elems l)"

text \<open>
  \<open>List_chain\<close> is what every operation keeps; \<open>List_inv\<close> adds that \<open>last\<close> points to
  the last element, which \<^verbatim>\<open>RemoveElement\<close> can break.
\<close>

definition List_chain :: "'a nlist \<Rightarrow> bool" where
  "List_chain l \<longleftrightarrow> chain (l_cells l) (l_first l) (List_addrs l)"

definition List_inv :: "'a nlist \<Rightarrow> bool" where
  "List_inv l \<longleftrightarrow> List_chain l \<and> (List_addrs l \<noteq> [] \<longrightarrow> l_last l = Some (last (List_addrs l)))"

subsection \<open>Cells\<close>

lemma cell_at_extend: "a < length cs \<Longrightarrow> cell_at (cs @ xs) a = cell_at cs a"
  by (simp add: cell_at_def nth_append)

lemma cell_at_extend_Some: "cell_at cs a = Some e \<Longrightarrow> cell_at (cs @ xs) a = Some e"
  by (auto simp: cell_at_def nth_append split: if_splits)

lemma cell_at_new [simp]: "cell_at (cs @ [v]) (length cs) = v"
  by (simp add: cell_at_def)

lemma cell_at_upd:
  "a < length cs \<Longrightarrow> cell_at (cs[a := v]) b = (if a = b then v else cell_at cs b)"
  by (simp add: cell_at_def)

lemma cell_at_upd_other: "a \<noteq> b \<Longrightarrow> cell_at (cs[a := v]) b = cell_at cs b"
  by (simp add: cell_at_def)

lemma cell_at_SomeD: "cell_at cs a = Some e \<Longrightarrow> a < length cs"
  by (simp add: cell_at_def split: if_splits)

lemma cell_at_upd_same: "cell_at cs a = Some e \<Longrightarrow> cell_at (cs[a := v]) a = v"
  by (simp add: cell_at_def split: if_splits)

lemma deref_Some [simp]: "cell_at cs a = Some e \<Longrightarrow> deref cs (Some a) = Inr e"
  by (simp add: deref_def)

lemma deref_freed: "cell_at cs a = None \<Longrightarrow> deref cs (Some a) = Inl DanglingPointer"
  by (simp add: deref_def)

lemma set_next_Some [simp]:
  "cell_at cs a = Some e \<Longrightarrow> set_next cs (Some a) q = Inr (cs[a := Some (e\<lparr>le_next := q\<rparr>)])"
  by (simp add: set_next_def)

lemma free_cell_Some [simp]: "cell_at cs a = Some e \<Longrightarrow> free_cell cs (Some a) = Inr (cs[a := None])"
  by (simp add: free_cell_def)

subsection \<open>Chains\<close>

lemma chain_None [simp]: "chain cs None as = (as = [])"
  by (cases as) auto

lemma chain_Some_conv:
  "chain cs (Some a) as \<longleftrightarrow>
     (\<exists>e bs. as = a # bs \<and> cell_at cs a = Some e \<and> chain cs (le_next e) bs)"
  by (cases as) (auto split: option.splits)

lemma chain_unique: "chain cs p as \<Longrightarrow> chain cs p bs \<Longrightarrow> as = bs"
proof (induction as arbitrary: p bs)
  case (Cons a as)
  then show ?case by (auto simp: chain_Some_conv split: option.splits)
qed simp

lemma chain_suffix: "chain cs p (as @ b # bs) \<Longrightarrow> chain cs (Some b) (b # bs)"
proof (induction as arbitrary: p)
  case (Cons a as)
  then show ?case by (cases "cell_at cs a") (auto simp del: chain.simps(2) simp: chain.simps(2) [of cs p a])
qed simp

lemma chain_distinct: "chain cs p as \<Longrightarrow> distinct as"
proof (induction as arbitrary: p)
  case (Cons a as)
  have "a \<notin> set as"
  proof
    assume "a \<in> set as"
    then obtain xs ys where as: "as = xs @ a # ys" by (auto simp: in_set_conv_decomp)
    have "chain cs (Some a) (a # ys)"
      using chain_suffix [of cs p "a # xs" a ys] Cons.prems as by simp
    moreover have "chain cs (Some a) (a # as)" using Cons.prems by simp
    ultimately have "a # ys = a # as" by (rule chain_unique)
    then show False using as by simp
  qed
  then show ?case using Cons by (auto split: option.splits)
qed simp

lemma chain_allocated: "chain cs p as \<Longrightarrow> a \<in> set as \<Longrightarrow> \<exists>e. cell_at cs a = Some e"
  by (induction as arbitrary: p) (auto split: option.splits)

lemma chain_bound: "chain cs p as \<Longrightarrow> a \<in> set as \<Longrightarrow> a < length cs"
  by (auto dest: chain_allocated cell_at_SomeD)

lemma chain_length: "chain cs p as \<Longrightarrow> length as \<le> length cs"
  by (rule distinct_subset_length) (auto dest: chain_distinct chain_bound)

lemma chain_cong:
  assumes "chain cs p as" "\<And>a. a \<in> set as \<Longrightarrow> cell_at ds a = cell_at cs a"
  shows "chain ds p as"
  using assms by (induction as arbitrary: p) (auto split: option.splits)

lemma chain_extend: "chain cs p as \<Longrightarrow> chain (cs @ xs) p as"
  by (rule chain_cong [of cs]) (auto simp: cell_at_extend dest: chain_bound)

lemma chain_upd: "chain cs p as \<Longrightarrow> a \<notin> set as \<Longrightarrow> chain (cs[a := v]) p as"
  by (erule chain_cong) (metis cell_at_upd_other)

lemma chain_relink:
  assumes "chain cs p (as @ b # bs)" "cell_at cs b = Some e" "chain cs q ds" "b \<notin> set ds"
  shows "chain (cs[b := Some (e\<lparr>le_next := q\<rparr>)]) p (as @ b # ds)"
  using assms
proof (induction as arbitrary: p)
  case Nil
  then show ?case
    by (auto simp: cell_at_upd_same intro: chain_upd split: option.splits)
next
  case (Cons a as)
  then have "distinct (a # as @ b # bs)" using chain_distinct [of cs p "a # as @ b # bs"] by simp
  then have "a \<noteq> b" by auto
  with Cons show ?case by (auto simp: cell_at_upd_other split: option.splits)
qed

lemma addrs_from_chain: "chain cs p as \<Longrightarrow> length as \<le> n \<Longrightarrow> addrs_from n cs p = as"
proof (induction n arbitrary: p as)
  case (Suc n)
  then show ?case by (cases as) (auto split: option.splits)
qed simp

lemma List_addrs_eq: "chain (l_cells l) (l_first l) as \<Longrightarrow> List_addrs l = as"
  unfolding List_addrs_def by (rule addrs_from_chain) (auto dest: chain_length)

lemma List_chainI: "chain (l_cells l) (l_first l) as \<Longrightarrow> List_chain l \<and> List_addrs l = as"
  using List_addrs_eq [of l as] by (simp add: List_chain_def)

lemma List_invI:
  assumes "chain (l_cells l) (l_first l) as" "as \<noteq> [] \<Longrightarrow> l_last l = Some (last as)"
  shows "List_inv l \<and> List_addrs l = as"
  using List_chainI [OF assms(1)] assms(2) by (simp add: List_inv_def)

lemma List_empty_iff: "List_chain l \<Longrightarrow> List_IsEmpty l \<longleftrightarrow> List_addrs l = []"
  by (cases "List_addrs l") (auto simp: List_chain_def List_IsEmpty_def)

subsection \<open>Contents\<close>

lemma elem_of_cell: "cell_at cs a = Some e \<Longrightarrow> elem_of cs a = (le_key e, le_item e)"
  by (simp add: elem_of_def)

lemma elem_of_cong: "cell_at ds a = cell_at cs a \<Longrightarrow> elem_of ds a = elem_of cs a"
  by (simp add: elem_of_def)

lemma elem_of_relink:
  "cell_at cs b = Some e \<Longrightarrow> elem_of (cs[b := Some (e\<lparr>le_next := q\<rparr>)]) a = elem_of cs a"
  by (cases "a = b") (auto simp: elem_of_def cell_at_upd_same cell_at_upd_other)

lemma elem_of_extend: "a < length cs \<Longrightarrow> elem_of (cs @ xs) a = elem_of cs a"
  by (simp add: elem_of_def cell_at_extend)

lemma elem_of_new: "elem_of (cs @ [Some (ListElement_new x k)]) (length cs) = (k, x)"
  by (simp add: elem_of_def ListElement_new_def)

lemma map_elem_of_extend:
  "chain cs p as \<Longrightarrow> map (elem_of (cs @ xs)) as = map (elem_of cs) as"
  by (auto dest: chain_bound simp: elem_of_extend)

lemma map_elem_of_free:
  "a \<notin> set as \<Longrightarrow> map (elem_of (cs[a := None])) as = map (elem_of cs) as"
  by (rule map_cong [OF refl], rule elem_of_cong) (metis cell_at_upd_other)

lemmas elem_simps = elem_of_relink elem_of_new map_elem_of_extend map_elem_of_free

section \<open>Functional behaviour of the operations\<close>

text \<open>
  The specification level: \<open>sorted_ins\<close> puts a pair before the first one with a larger
  key, \<open>remove_item\<close> drops the first pair with the given item.
\<close>

definition sorted_ins :: "int \<Rightarrow> 'a \<Rightarrow> (int \<times> 'a) list \<Rightarrow> (int \<times> 'a) list" where
  "sorted_ins k x es = takeWhile (\<lambda>e. fst e \<le> k) es @ (k, x) # dropWhile (\<lambda>e. fst e \<le> k) es"

fun remove_item :: "'a \<Rightarrow> (int \<times> 'a) list \<Rightarrow> (int \<times> 'a) list" where
  "remove_item x [] = []"
| "remove_item x (e # es) = (if snd e = x then es else e # remove_item x es)"

lemma List_new_ok [simp]: "List_inv List_new" "List_elems List_new = []"
  by (auto simp: List_inv_def List_chain_def List_elems_def List_addrs_def List_new_def)

lemma List_elems_Nil_iff: "List_elems l = [] \<longleftrightarrow> List_addrs l = []"
  by (simp add: List_elems_def)

lemma List_IsEmpty_iff: "List_inv l \<Longrightarrow> List_IsEmpty l \<longleftrightarrow> List_elems l = []"
  by (simp add: List_inv_def List_empty_iff List_elems_Nil_iff)

lemma List_elemsI:
  "chain (l_cells l) (l_first l) as \<Longrightarrow> List_elems l = map (elem_of (l_cells l)) as"
  by (simp add: List_elems_def List_addrs_eq)

text \<open>A one-element list, as the three inserting operations build it on an empty one.\<close>

lemma List_singleton:
  assumes "l' = \<lparr>l_cells = cs @ [Some (ListElement_new x k)], l_first = Some (length cs),
                 l_last = Some (length cs)\<rparr>"
  shows "List_inv l' \<and> List_elems l' = [(k, x)]"
proof -
  have c: "chain (l_cells l') (l_first l') [length cs]"
    by (simp add: assms ListElement_new_def)
  show ?thesis
    using List_invI [OF c] List_elemsI [OF c] by (simp add: assms elem_of_new)
qed

text \<open>Linking a fresh element behind the last one.\<close>

lemma List_link_last:
  assumes "List_inv l" "List_addrs l \<noteq> []"
  shows "\<exists>cs'. set_next (l_cells l @ [Some (ListElement_new x k)]) (l_last l) (Some (length (l_cells l))) = Inr cs'
     \<and> List_inv \<lparr>l_cells = cs', l_first = l_first l, l_last = Some (length (l_cells l))\<rparr>
     \<and> List_elems \<lparr>l_cells = cs', l_first = l_first l, l_last = Some (length (l_cells l))\<rparr>
         = List_elems l @ [(k, x)]"
proof -
  define cs n where "cs = l_cells l @ [Some (ListElement_new x k)]" and "n = length (l_cells l)"
  define as b where "as = butlast (List_addrs l)" and "b = last (List_addrs l)"
  have ab: "List_addrs l = as @ [b]" using assms(2) by (simp add: as_def b_def)
  have c: "chain (l_cells l) (l_first l) (as @ [b])"
    using assms(1) ab by (simp add: List_inv_def List_chain_def)
  have lst: "l_last l = Some b" using assms by (simp add: List_inv_def b_def)
  have c': "chain cs (l_first l) (as @ [b])" using chain_extend [OF c] by (simp add: cs_def)
  obtain e where e: "cell_at cs b = Some e" using chain_allocated [OF c', of b] by auto
  have bn: "b \<noteq> n" using chain_bound [OF c, of b] by (simp add: n_def)
  have nn: "chain cs (Some n) [n]" by (simp add: cs_def n_def ListElement_new_def)
  define cs' where "cs' = cs[b := Some (e\<lparr>le_next := Some n\<rparr>)]"
  have c2: "chain cs' (l_first l) (as @ [b, n])"
    using chain_relink [OF _ e nn, of "l_first l" as "[]"] c' bn by (simp add: cs'_def)
  let ?l' = "\<lparr>l_cells = cs', l_first = l_first l, l_last = Some n\<rparr>"
  have "List_inv ?l'" using List_invI [of ?l' "as @ [b, n]"] c2 by simp
  moreover have "List_elems ?l' = List_elems l @ [(k, x)]"
  proof -
    have "List_elems ?l' = map (elem_of cs) (as @ [b, n])"
      using List_elemsI [of ?l'] c2 by (simp add: cs'_def elem_of_relink [OF e])
    also have "\<dots> = List_elems l @ [(k, x)]"
      using map_elem_of_extend [OF c] List_elemsI [OF c] elem_of_new [of "l_cells l" x k]
      by (simp add: cs_def n_def)
    finally show ?thesis .
  qed
  moreover have "set_next cs (l_last l) (Some n) = Inr cs'" by (simp add: lst e cs'_def)
  ultimately show ?thesis by (auto simp: cs_def n_def)
qed

text \<open>Linking a fresh element in front.\<close>

lemma List_link_first:
  assumes "List_inv l" "List_addrs l \<noteq> []"
  shows "\<exists>cs'. set_next (l_cells l @ [Some (ListElement_new x k)]) (Some (length (l_cells l))) (l_first l) = Inr cs'
     \<and> List_inv \<lparr>l_cells = cs', l_first = Some (length (l_cells l)), l_last = l_last l\<rparr>
     \<and> List_elems \<lparr>l_cells = cs', l_first = Some (length (l_cells l)), l_last = l_last l\<rparr>
         = (k, x) # List_elems l"
proof -
  define cs n where "cs = l_cells l @ [Some (ListElement_new x k)]" and "n = length (l_cells l)"
  have c: "chain (l_cells l) (l_first l) (List_addrs l)"
    using assms(1) by (simp add: List_inv_def List_chain_def)
  have c': "chain cs (l_first l) (List_addrs l)" using chain_extend [OF c] by (simp add: cs_def)
  have e: "cell_at cs n = Some (ListElement_new x k)" by (simp add: cs_def n_def)
  have nn: "chain cs (Some n) [n]" by (simp add: cs_def n_def ListElement_new_def)
  have nin: "n \<notin> set (List_addrs l)" using chain_bound [OF c] by (auto simp: n_def)
  define cs' where "cs' = cs[n := Some ((ListElement_new x k)\<lparr>le_next := l_first l\<rparr>)]"
  have c2: "chain cs' (Some n) (n # List_addrs l)"
    using chain_relink [OF _ e c' nin, of "Some n" "[]" "[]"] nn by (simp add: cs'_def)
  let ?l' = "\<lparr>l_cells = cs', l_first = Some n, l_last = l_last l\<rparr>"
  have "List_inv ?l'"
    using List_invI [of ?l' "n # List_addrs l"] c2 assms by (simp add: List_inv_def)
  moreover have "List_elems ?l' = (k, x) # List_elems l"
  proof -
    have "List_elems ?l' = map (elem_of cs') (n # List_addrs l)"
      by (rule List_elemsI [of ?l', simplified]) (rule c2)
    also have "\<dots> = map (elem_of cs) (n # List_addrs l)"
      by (simp add: cs'_def elem_of_relink [OF e])
    also have "\<dots> = (k, x) # List_elems l"
      using map_elem_of_extend [OF c] elem_of_new [of "l_cells l" x k]
      by (simp add: cs_def n_def List_elems_def)
    finally show ?thesis .
  qed
  moreover have "set_next cs (Some n) (l_first l) = Inr cs'" by (simp add: e cs'_def)
  ultimately show ?thesis by (auto simp: cs_def n_def)
qed

lemma List_Append_spec:
  assumes "List_inv l"
  shows "\<exists>l'. List_Append x l = Inr l' \<and> List_inv l' \<and> List_elems l' = List_elems l @ [(0, x)]"
proof (cases "List_addrs l = []")
  case True
  then have "List_IsEmpty l" using assms by (simp add: List_inv_def List_empty_iff)
  then show ?thesis
    using List_singleton [OF refl, of "l_cells l" x 0] True
    by (simp add: List_Append_def Let_def List_elems_Nil_iff [THEN iffD2])
next
  case False
  then have "\<not> List_IsEmpty l" using assms by (simp add: List_inv_def List_empty_iff)
  then show ?thesis
    using List_link_last [OF assms False, of x 0] by (auto simp: List_Append_def Let_def)
qed

lemma List_Prepend_spec:
  assumes "List_inv l"
  shows "\<exists>l'. List_Prepend x l = Inr l' \<and> List_inv l' \<and> List_elems l' = (0, x) # List_elems l"
proof (cases "List_addrs l = []")
  case True
  then have "List_IsEmpty l" using assms by (simp add: List_inv_def List_empty_iff)
  then show ?thesis
    using List_singleton [OF refl, of "l_cells l" x 0] True
    by (simp add: List_Prepend_def Let_def List_elems_Nil_iff [THEN iffD2])
next
  case False
  then have "\<not> List_IsEmpty l" using assms by (simp add: List_inv_def List_empty_iff)
  then show ?thesis
    using List_link_first [OF assms False, of x 0] by (auto simp: List_Prepend_def Let_def)
qed

lemma List_SortedRemove_spec:
  assumes "List_inv l"
  shows "\<exists>l'. List_inv l' \<and>
     (case List_elems l of
        [] \<Rightarrow> List_SortedRemove l = Inr (None, l') \<and> l' = l
      | e # es \<Rightarrow> List_SortedRemove l = Inr (Some e, l') \<and> List_elems l' = es)"
proof (cases "List_addrs l")
  case Nil
  then have "List_IsEmpty l" using assms by (simp add: List_inv_def List_empty_iff)
  then show ?thesis using Nil assms by (auto simp: List_SortedRemove_def List_elems_def)
next
  case (Cons a as)
  then have ne: "\<not> List_IsEmpty l" using assms by (simp add: List_inv_def List_empty_iff)
  have c: "chain (l_cells l) (l_first l) (a # as)" and lst: "l_last l = Some (last (a # as))"
    using assms Cons by (auto simp: List_inv_def List_chain_def)
  from c obtain e where f: "l_first l = Some a" and e: "cell_at (l_cells l) a = Some e"
    and tl: "chain (l_cells l) (le_next e) as" by (auto split: option.splits)
  have nin: "a \<notin> set as" using chain_distinct [OF c] by simp
  define l' where "l' = (if l_first l = l_last l then l\<lparr>l_first := None, l_last := None\<rparr>
                       else l\<lparr>l_first := le_next e\<rparr>)\<lparr>l_cells := (l_cells l)[a := None]\<rparr>"
  have one: "l_first l = l_last l \<longleftrightarrow> as = []"
    using f lst nin by (auto split: if_splits)
  have c2: "chain (l_cells l') (l_first l') as"
    using tl nin one by (auto simp: l'_def intro: chain_upd)
  have inv: "List_inv l' \<and> List_addrs l' = as"
    using c2 by (rule List_invI) (use one lst in \<open>auto simp: l'_def\<close>)
  have el: "List_elems l = (le_key e, le_item e) # map (elem_of (l_cells l)) as"
    using List_elemsI [OF c] e by (simp add: elem_of_cell)
  have "List_elems l' = map (elem_of (l_cells l)) as"
    using List_elemsI [OF c2] map_elem_of_free [OF nin] by (simp add: l'_def)
  moreover have "List_SortedRemove l = Inr (Some (le_key e, le_item e), l')"
    using ne f e by (simp add: List_SortedRemove_def l'_def Let_def)
  ultimately show ?thesis using inv el by auto
qed

lemma List_Remove_spec:
  assumes "List_inv l"
  shows "\<exists>l'. List_inv l' \<and>
     (case List_elems l of
        [] \<Rightarrow> List_Remove l = Inr (None, l') \<and> l' = l
      | e # es \<Rightarrow> List_Remove l = Inr (Some (snd e), l') \<and> List_elems l' = es)"
  using List_SortedRemove_spec [OF assms] by (auto simp: List_Remove_def split: list.splits)

lemma Search_loop_spec:
  "chain cs p as \<Longrightarrow> length as < n \<Longrightarrow>
     Search_loop n x cs p = Inr (x \<in> snd ` set (map (elem_of cs) as))"
proof (induction as arbitrary: p n)
  case Nil
  then show ?case by (cases n) auto
next
  case (Cons a as)
  then obtain m e where "n = Suc m" "p = Some a" "cell_at cs a = Some e" "chain cs (le_next e) as"
    by (cases n) (auto split: option.splits)
  with Cons.IH [of "le_next e" m] Cons.prems show ?case by (auto simp: elem_of_cell)
qed

lemma List_Search_spec:
  assumes "List_chain l"
  shows "List_Search x l = Inr (x \<in> set (List_items l))"
proof -
  have c: "chain (l_cells l) (l_first l) (List_addrs l)" using assms by (simp add: List_chain_def)
  show ?thesis
    using Search_loop_spec [OF c, of "Suc (length (l_cells l))" x] chain_length [OF c]
    by (simp add: List_Search_def List_items_def List_elems_def image_image)
qed

lemma Mapcar_loop_spec:
  "chain cs p as \<Longrightarrow> length as < n \<Longrightarrow>
     Mapcar_loop n func cs p s = foldE func (map (snd \<circ> elem_of cs) as) s"
proof (induction as arbitrary: p n s)
  case Nil
  then show ?case by (cases n) auto
next
  case (Cons a as)
  then obtain m e where "n = Suc m" "p = Some a" "cell_at cs a = Some e" "chain cs (le_next e) as"
    by (cases n) (auto split: option.splits)
  with Cons.IH [of "le_next e" m] Cons.prems show ?case
    by (cases "func (le_item e) s") (auto simp: elem_of_cell)
qed

lemma List_Mapcar_spec:
  assumes "List_chain l"
  shows "List_Mapcar func l s = foldE func (List_items l) s"
proof -
  have c: "chain (l_cells l) (l_first l) (List_addrs l)" using assms by (simp add: List_chain_def)
  show ?thesis
    using Mapcar_loop_spec [OF c, of "Suc (length (l_cells l))" func s] chain_length [OF c]
    by (simp add: List_Mapcar_def List_items_def List_elems_def)
qed

lemma List_destroy_loop_spec:
  "List_inv l \<Longrightarrow> length (List_elems l) < n \<Longrightarrow>
     \<exists>l'. List_destroy_loop n l = Inr l' \<and> List_inv l' \<and> List_elems l' = []"
proof (induction n arbitrary: l)
  case (Suc n)
  show ?case
    using List_Remove_spec [OF Suc.prems(1)] Suc.IH Suc.prems by (cases "List_elems l") auto
qed simp

text \<open>Deleting a list terminates: enough fuel is the number of cells.\<close>

lemma List_destroy_spec:
  assumes "List_inv l"
  shows "\<exists>l'. List_destroy l = Inr l' \<and> List_inv l' \<and> List_elems l' = []"
proof -
  have "length (List_elems l) \<le> length (l_cells l)"
    using assms chain_length by (auto simp: List_elems_def List_inv_def List_chain_def)
  then show ?thesis
    using List_destroy_loop_spec [OF assms, of "Suc (length (l_cells l))"]
    by (simp add: List_destroy_def del: List_destroy_loop.simps)
qed

subsection \<open>Removing an element by value\<close>

lemma RemoveElement_loop_found:
  assumes "chain cs p (pre @ b # post)" "\<forall>a\<in>set pre. snd (elem_of cs a) \<noteq> x"
    "snd (elem_of cs b) = x" "length pre < n"
  shows "RemoveElement_loop n x cs q p = Inr (if pre = [] then q else Some (last pre), Some b)"
  using assms
proof (induction pre arbitrary: p q n)
  case Nil
  then show ?case by (cases n) (auto simp: elem_of_cell split: option.splits)
next
  case (Cons a pre)
  then obtain m e where "n = Suc m" "p = Some a" "cell_at cs a = Some e" "chain cs (le_next e) (pre @ b # post)"
    by (cases n) (auto split: option.splits)
  with Cons.IH [of "le_next e" m "Some a"] Cons.prems show ?case by (auto simp: elem_of_cell)
qed

lemma RemoveElement_loop_missing:
  "chain cs p as \<Longrightarrow> \<forall>a\<in>set as. snd (elem_of cs a) \<noteq> x \<Longrightarrow> length as < n \<Longrightarrow>
     \<exists>r. RemoveElement_loop n x cs q p = Inr (r, None)"
proof (induction as arbitrary: p q n)
  case Nil
  then show ?case by (cases n) auto
next
  case (Cons a as)
  then obtain m e where "n = Suc m" "p = Some a" "cell_at cs a = Some e" "chain cs (le_next e) as"
    by (cases n) (auto split: option.splits)
  with Cons.IH [of "le_next e" m "Some a"] Cons.prems show ?case by (auto simp: elem_of_cell)
qed

lemma remove_item_split:
  "\<forall>e\<in>set es. snd e \<noteq> x \<Longrightarrow> snd e' = x \<Longrightarrow> remove_item x (es @ e' # fs) = es @ fs"
  by (induction es) auto

lemma remove_item_missing: "x \<notin> snd ` set es \<Longrightarrow> remove_item x es = es"
  by (induction es) auto

lemma List_items_addrs: "List_items l = map (snd \<circ> elem_of (l_cells l)) (List_addrs l)"
  by (simp add: List_items_def List_elems_def)

lemma List_RemoveElement_missing:
  assumes "List_chain l" "x \<notin> set (List_items l)"
  shows "List_RemoveElement x l = Inr (None, l)"
proof -
  have c: "chain (l_cells l) (l_first l) (List_addrs l)" using assms(1) by (simp add: List_chain_def)
  have ne: "\<forall>a\<in>set (List_addrs l). snd (elem_of (l_cells l) a) \<noteq> x"
    using assms(2) by (auto simp: List_items_addrs)
  obtain r where r: "RemoveElement_loop (Suc (length (l_cells l))) x (l_cells l) None (l_first l) = Inr (r, None)"
    using RemoveElement_loop_missing [OF c ne, of "Suc (length (l_cells l))" None] chain_length [OF c]
    by auto
  show ?thesis
  proof (cases "List_addrs l")
    case Nil
    then show ?thesis using c r
      by (simp add: List_RemoveElement_def Let_def del: RemoveElement_loop.simps)
  next
    case (Cons a as)
    then obtain e where "l_first l = Some a" "cell_at (l_cells l) a = Some e"
      using c by (auto split: option.splits)
    then show ?thesis using r ne Cons
      by (simp add: List_RemoveElement_def Let_def elem_of_cell del: RemoveElement_loop.simps)
  qed
qed

text \<open>
  When the item is on the list, the first cell that holds it is unlinked and freed;
  \<open>last\<close> is left as it was.
\<close>

lemma List_RemoveElement_found:
  assumes "List_chain l" "List_addrs l = pre @ b # post"
    "\<forall>a\<in>set pre. snd (elem_of (l_cells l) a) \<noteq> x" "snd (elem_of (l_cells l) b) = x"
  shows "\<exists>l'. List_RemoveElement x l = Inr (Some x, l') \<and> List_chain l' \<and> List_addrs l' = pre @ post
     \<and> l_last l' = l_last l \<and> cell_at (l_cells l') b = None
     \<and> List_elems l' = map (elem_of (l_cells l)) (pre @ post) \<and> length (l_cells l') = length (l_cells l)"
proof -
  let ?cs = "l_cells l"
  have c: "chain ?cs (l_first l) (pre @ b # post)" using assms(1,2) by (simp add: List_chain_def)
  have d: "distinct (pre @ b # post)" using chain_distinct [OF c] .
  obtain e where e: "cell_at ?cs b = Some e" and post: "chain ?cs (le_next e) post"
    using chain_suffix [OF c] by (auto split: option.splits)
  have item: "le_item e = x" using assms(4) e by (simp add: elem_of_cell)
  show ?thesis
  proof (cases "pre = []")
    case True
    then have f: "l_first l = Some b" using c by simp
    define l' where "l' = l\<lparr>l_cells := ?cs[b := None], l_first := le_next e\<rparr>"
    have "List_RemoveElement x l = Inr (Some x, l')"
      using f e item by (simp add: List_RemoveElement_def l'_def Let_def)
    moreover have c2: "chain (l_cells l') (l_first l') post"
      using post d by (auto simp: l'_def intro: chain_upd)
    moreover have "List_elems l' = map (elem_of ?cs) post"
      using List_elemsI [OF c2] d map_elem_of_free [of b post ?cs] by (simp add: l'_def)
    ultimately show ?thesis
      using List_chainI [OF c2] True e by (auto simp: l'_def cell_at_upd_same)
  next
    case False
    define a where "a = last pre"
    have pre: "\<And>zs. butlast pre @ a # zs = pre @ zs" using butlast_last_Cons [OF False] by (simp add: a_def)
    have a: "a \<in> set pre" using False by (simp add: a_def)
    obtain f where f: "l_first l = Some (hd pre)" and hd: "\<exists>e0. cell_at ?cs (hd pre) = Some e0 \<and> le_item e0 \<noteq> x"
      using c False assms(3) by (cases pre) (auto simp: elem_of_cell split: option.splits)
    have cur: "RemoveElement_loop (Suc (length ?cs)) x ?cs None (l_first l) = Inr (Some a, Some b)"
      using RemoveElement_loop_found [OF c assms(3,4), of "Suc (length ?cs)" None] chain_length [OF c] False
      by (simp add: a_def del: RemoveElement_loop.simps)
    obtain ea where ea: "cell_at ?cs a = Some ea" using chain_allocated [OF c, of a] a by auto
    define cs1 where "cs1 = ?cs[a := Some (ea\<lparr>le_next := le_next e\<rparr>)]"
    have ab: "a \<noteq> b" "a \<notin> set post" using a d by auto
    have e1: "cell_at cs1 b = Some e" using e ab by (simp add: cs1_def cell_at_upd_other)
    have c1: "chain cs1 (l_first l) (pre @ post)"
      using chain_relink [of ?cs "l_first l" "butlast pre" a "b # post" ea "le_next e" post] c ea post ab pre
      by (simp add: cs1_def)
    define l' where "l' = l\<lparr>l_cells := cs1[b := None]\<rparr>"
    have c2: "chain (l_cells l') (l_first l') (pre @ post)"
      using c1 d by (auto simp: l'_def intro: chain_upd)
    have "List_RemoveElement x l = Inr (Some x, l')"
      using f hd cur e ea e1 item
      by (auto simp: List_RemoveElement_def l'_def cs1_def Let_def simp del: RemoveElement_loop.simps)
    moreover have "List_elems l' = map (elem_of ?cs) (pre @ post)"
      using List_elemsI [OF c2] d map_elem_of_free [of b "pre @ post" cs1]
      by (simp add: l'_def cs1_def elem_of_relink [OF ea])
    ultimately show ?thesis
      using List_chainI [OF c2] e1 by (auto simp: l'_def cs1_def cell_at_upd_same)
  qed
qed

lemma List_found_split:
  assumes "x \<in> set (List_items l)"
  obtains pre b post where "List_addrs l = pre @ b # post"
    "\<forall>a\<in>set pre. snd (elem_of (l_cells l) a) \<noteq> x" "snd (elem_of (l_cells l) b) = x"
  using assms split_list_first_prop [of "List_addrs l" "\<lambda>a. snd (elem_of (l_cells l) a) = x"]
  by (auto simp: List_items_addrs)

lemma List_RemoveElement_spec:
  assumes "List_chain l"
  shows "\<exists>l'. List_RemoveElement x l = Inr (if x \<in> set (List_items l) then Some x else None, l')
     \<and> List_chain l' \<and> List_elems l' = remove_item x (List_elems l)"
proof (cases "x \<in> set (List_items l)")
  case True
  then obtain pre b post where s: "List_addrs l = pre @ b # post"
    "\<forall>a\<in>set pre. snd (elem_of (l_cells l) a) \<noteq> x" "snd (elem_of (l_cells l) b) = x"
    by (rule List_found_split)
  have "remove_item x (List_elems l) = map (elem_of (l_cells l)) (pre @ post)"
    using s by (simp add: List_elems_def remove_item_split)
  then show ?thesis using List_RemoveElement_found [OF assms s] True by auto
next
  case False
  then have "remove_item x (List_elems l) = List_elems l"
    by (intro remove_item_missing) (auto simp: List_items_def)
  then show ?thesis using List_RemoveElement_missing [OF assms False] False assms by simp
qed

subsection \<open>Inserting in key order\<close>

lemma SortedInsert_loop_mid:
  assumes "chain cs p (pre @ c # post)" "pre \<noteq> []" "\<forall>a\<in>set (tl pre). fst (elem_of cs a) \<le> k"
    "k < fst (elem_of cs c)" "length pre \<le> n"
  shows "SortedInsert_loop n k cs p = Inr (Some (last pre))"
  using assms
proof (induction pre arbitrary: p n)
  case (Cons a pre)
  then obtain m e where m: "n = Suc m" "p = Some a" "cell_at cs a = Some e" "chain cs (le_next e) (pre @ c # post)"
    by (cases n) (auto split: option.splits)
  show ?case
  proof (cases pre)
    case Nil
    with m Cons.prems show ?thesis by (auto simp: elem_of_cell split: option.splits)
  next
    case (Cons b pre')
    then obtain e' where e': "le_next e = Some b" "cell_at cs b = Some e'"
      using m by (auto split: option.splits)
    then have "le_key e' \<le> k" using Cons.prems(3) local.Cons by (simp add: elem_of_cell)
    then show ?thesis
      using m e' Cons.IH [of "le_next e" m] Cons.prems local.Cons by (simp add: elem_of_cell)
  qed
qed simp

lemma SortedInsert_loop_end:
  assumes "chain cs p as" "as \<noteq> []" "\<forall>a\<in>set (tl as). fst (elem_of cs a) \<le> k" "length as \<le> n"
  shows "SortedInsert_loop n k cs p = Inr None"
  using assms
proof (induction as arbitrary: p n)
  case (Cons a as)
  then obtain m e where m: "n = Suc m" "p = Some a" "cell_at cs a = Some e" "chain cs (le_next e) as"
    by (cases n) (auto split: option.splits)
  show ?case
  proof (cases as)
    case Nil
    with m show ?thesis by auto
  next
    case (Cons b as')
    then obtain e' where e': "le_next e = Some b" "cell_at cs b = Some e'"
      using m by (auto split: option.splits)
    then have "le_key e' \<le> k" using Cons.prems(3) local.Cons by (simp add: elem_of_cell)
    then show ?thesis
      using m e' Cons.IH [of "le_next e" m] Cons.prems local.Cons by (simp add: elem_of_cell)
  qed
qed simp

text \<open>Linking a fresh element between two others.\<close>

lemma List_link_mid:
  fixes x :: 'a and k :: int
  assumes "List_inv l" "List_addrs l = pre @ c # post" "pre \<noteq> []"
  defines "cs \<equiv> l_cells l @ [Some (ListElement_new x k)]" and "n \<equiv> length (l_cells l)"
  shows "\<exists>p cs' cs''. deref cs (Some (last pre)) = Inr p
     \<and> set_next cs (Some n) (le_next p) = Inr cs' \<and> set_next cs' (Some (last pre)) (Some n) = Inr cs''
     \<and> List_inv (l\<lparr>l_cells := cs''\<rparr>)
     \<and> List_elems (l\<lparr>l_cells := cs''\<rparr>)
         = map (elem_of (l_cells l)) pre @ (k, x) # map (elem_of (l_cells l)) (c # post)"
proof -
  define a where "a = last pre"
  have c0: "chain (l_cells l) (l_first l) (pre @ c # post)"
    using assms(1,2) by (simp add: List_inv_def List_chain_def)
  have c: "chain cs (l_first l) (pre @ c # post)" using chain_extend [OF c0] by (simp add: cs_def)
  have c': "chain cs (l_first l) (butlast pre @ a # c # post)" using c by (simp add: a_def butlast_last_Cons [OF assms(3)])
  have a: "a \<in> set pre" using assms(3) by (simp add: a_def)
  obtain p where p: "cell_at cs a = Some p" and nxt: "chain cs (le_next p) (c # post)"
    using chain_suffix [OF c'] by (auto simp: chain.simps(2) [of cs "Some a"] split: option.splits)
  have en: "cell_at cs n = Some (ListElement_new x k)" by (simp add: cs_def n_def)
  have nn: "chain cs (Some n) [n]" by (simp add: en ListElement_new_def)
  have nin: "n \<notin> set (pre @ c # post)" using chain_bound [OF c0] by (auto simp: n_def)
  define cs1 where "cs1 = cs[n := Some ((ListElement_new x k)\<lparr>le_next := le_next p\<rparr>)]"
  have n1: "chain cs1 (Some n) (n # c # post)"
    using chain_relink [OF _ en nxt, of "Some n" "[]" "[]"] nn nin by (simp add: cs1_def del: chain.simps)
  have an: "a \<noteq> n" using a nin by auto
  have p1: "cell_at cs1 a = Some p" using p an by (simp add: cs1_def cell_at_upd_other)
  have c1: "chain cs1 (l_first l) (butlast pre @ a # c # post)"
    using c' nin unfolding cs1_def by (intro chain_upd) (auto dest: in_set_butlastD simp: an [symmetric])
  have d: "distinct (pre @ c # post)" by (rule chain_distinct [OF c])
  define cs2 where "cs2 = cs1[a := Some (p\<lparr>le_next := Some n\<rparr>)]"
  have "chain cs2 (l_first l) (butlast pre @ a # n # c # post)"
    using chain_relink [OF c1 p1 n1] d a an unfolding cs2_def by auto
  then have c2: "chain cs2 (l_first l) (pre @ n # c # post)"
    by (simp add: a_def butlast_last_Cons [OF assms(3)])
  have lst: "l_last l = Some (last (c # post))" using assms(1,2) by (simp add: List_inv_def)
  have "List_inv (l\<lparr>l_cells := cs2\<rparr>) \<and> List_addrs (l\<lparr>l_cells := cs2\<rparr>) = pre @ n # c # post"
    by (rule List_invI) (simp_all add: c2 lst del: chain.simps)
  then have inv: "List_inv (l\<lparr>l_cells := cs2\<rparr>)" ..
  have "List_elems (l\<lparr>l_cells := cs2\<rparr>) = map (elem_of cs) (pre @ n # c # post)"
  proof -
    have "List_elems (l\<lparr>l_cells := cs2\<rparr>) = map (elem_of cs2) (pre @ n # c # post)"
      by (rule List_elemsI [of "l\<lparr>l_cells := cs2\<rparr>", simplified]) (rule c2)
    moreover have "elem_of cs2 b = elem_of cs b" for b
      using elem_of_relink [OF p1, of "Some n" b] elem_of_relink [OF en, of "le_next p" b]
      by (simp add: cs2_def cs1_def)
    ultimately show ?thesis by simp
  qed
  also have "\<dots> = map (elem_of (l_cells l)) pre @ (k, x) # map (elem_of (l_cells l)) (c # post)"
    using map_elem_of_extend [OF c0, of "[Some (ListElement_new x k)]"] elem_of_new [of "l_cells l" x k]
    by (simp add: cs_def n_def)
  finally show ?thesis using inv p en p1 by (auto simp: a_def [symmetric] cs1_def cs2_def)
qed

lemma sorted_ins_split:
  "\<forall>e\<in>set es. fst e \<le> k \<Longrightarrow> k < fst f \<Longrightarrow> sorted_ins k x (es @ f # fs) = es @ (k, x) # f # fs"
  by (simp add: sorted_ins_def)

lemma sorted_ins_end: "\<forall>e\<in>set es. fst e \<le> k \<Longrightarrow> sorted_ins k x es = es @ [(k, x)]"
  by (simp add: sorted_ins_def)

lemma List_SortedInsert_spec:
  assumes "List_inv l"
  shows "\<exists>l'. List_SortedInsert x k l = Inr l' \<and> List_inv l' \<and> List_elems l' = sorted_ins k x (List_elems l)"
proof (cases "List_addrs l")
  case Nil
  then have "List_IsEmpty l" using assms by (simp add: List_inv_def List_empty_iff)
  then show ?thesis
    using List_singleton [OF refl, of "l_cells l" x k] Nil
    by (simp add: List_SortedInsert_def Let_def List_elems_def sorted_ins_def)
next
  case (Cons a as)
  let ?cs = "l_cells l" and ?cs' = "l_cells l @ [Some (ListElement_new x k)]"
  have ne: "\<not> List_IsEmpty l" "List_addrs l \<noteq> []" using assms Cons by (auto simp: List_inv_def List_empty_iff)
  have c: "chain ?cs (l_first l) (a # as)" using assms Cons by (simp add: List_inv_def List_chain_def)
  have c': "chain ?cs' (l_first l) (a # as)" by (rule chain_extend [OF c])
  have len: "length (a # as) \<le> length ?cs'" using chain_length [OF c'] .
  have el: "\<And>b. b \<in> set (a # as) \<Longrightarrow> elem_of ?cs' b = elem_of ?cs b"
    using chain_bound [OF c] by (simp add: elem_of_extend)
  obtain f where f: "l_first l = Some a" "cell_at ?cs' a = Some f"
    using c' by (auto split: option.splits)
  have fk: "fst (elem_of ?cs a) = le_key f" using el [of a] elem_of_cell [OF f(2)] by (metis fst_conv list.set_intros(1))
  note unf = List_SortedInsert_def Let_def
  show ?thesis
  proof (cases "\<exists>b\<in>set (a # as). k < fst (elem_of ?cs b)")
    case True
    then obtain pre c post where s: "a # as = pre @ c # post" "k < fst (elem_of ?cs c)"
      "\<forall>b\<in>set pre. fst (elem_of ?cs b) \<le> k"
      using split_list_first_prop [of "a # as" "\<lambda>b. k < fst (elem_of ?cs b)"] by (auto simp: not_less)
    have ins: "sorted_ins k x (List_elems l)
        = map (elem_of ?cs) pre @ (k, x) # map (elem_of ?cs) (c # post)"
      using s Cons by (simp add: List_elems_def sorted_ins_split)
    show ?thesis
    proof (cases "pre = []")
      case True
      then have "k < le_key f" using s fk by simp
      then show ?thesis
        using List_link_first [OF assms ne(2), of x k] ne f ins True s Cons
        by (auto simp: unf List_elems_def)
    next
      case False
      then have le: "\<not> k < le_key f" using s fk by (cases pre) auto
      have lp: "SortedInsert_loop (length ?cs') k ?cs' (l_first l) = Inr (Some (last pre))"
      proof (rule SortedInsert_loop_mid [of ?cs' "l_first l" pre c post])
        show "\<forall>b\<in>set (tl pre). fst (elem_of ?cs' b) \<le> k"
          using s el False by (metis UnCI list.set_sel(2) set_append)
      qed (use c' s False len el in auto)
      from List_link_mid [OF assms _ False, of c post x k] s Cons
      show ?thesis using ne f le lp ins by (auto simp: unf simp del: SortedInsert_loop.simps)
    qed
  next
    case False
    then have all: "\<forall>b\<in>set (a # as). fst (elem_of ?cs b) \<le> k" by auto
    then have le: "\<not> k < le_key f" using fk by simp
    have lp: "SortedInsert_loop (length ?cs') k ?cs' (l_first l) = Inr None"
      using SortedInsert_loop_end [OF c', of k] len all el by (simp del: SortedInsert_loop.simps)
    have "sorted_ins k x (List_elems l) = List_elems l @ [(k, x)]"
      using all Cons by (intro sorted_ins_end) (auto simp: List_elems_def)
    then show ?thesis
      using List_link_last [OF assms ne(2), of x k] ne f le lp
      by (auto simp: unf simp del: SortedInsert_loop.simps)
  qed
qed

section \<open>Interfaces the clients use\<close>

text \<open>
  Most clients (the ready list, the queues of semaphores, locks and conditions, mailboxes)
  use a list as a first-in first-out queue. The contract of that use:
\<close>

fun deq_n :: "('q \<Rightarrow> ('a option \<times> 'q) res) \<Rightarrow> nat \<Rightarrow> 'q \<Rightarrow> ('a option list \<times> 'q) res" where
  "deq_n deq 0 q = Inr ([], q)"
| "deq_n deq (Suc n) q =
     bindE (deq q) (\<lambda>(x, q'). bindE (deq_n deq n q') (\<lambda>(xs, q''). Inr (x # xs, q'')))"

locale fifo_queue =
  fixes enq :: "'a \<Rightarrow> 'q \<Rightarrow> 'q res"
    and deq :: "'q \<Rightarrow> ('a option \<times> 'q) res"
    and contents :: "'q \<Rightarrow> 'a list"
    and qinv :: "'q \<Rightarrow> bool"
  assumes enq_ok: "qinv q \<Longrightarrow> \<exists>q'. enq x q = Inr q' \<and> qinv q' \<and> contents q' = contents q @ [x]"
    and deq_empty: "qinv q \<Longrightarrow> contents q = [] \<Longrightarrow> deq q = Inr (None, q)"
    and deq_ok: "qinv q \<Longrightarrow> contents q = x # xs \<Longrightarrow>
           \<exists>q'. deq q = Inr (Some x, q') \<and> qinv q' \<and> contents q' = xs"
begin

lemma enq_all:
  "qinv q \<Longrightarrow> \<exists>q'. foldE enq xs q = Inr q' \<and> qinv q' \<and> contents q' = contents q @ xs"
proof (induction xs arbitrary: q)
  case (Cons x xs)
  from enq_ok [OF Cons.prems, of x] obtain q1
    where "enq x q = Inr q1" "qinv q1" "contents q1 = contents q @ [x]" by auto
  with Cons.IH [of q1] show ?case by auto
qed simp

lemma deq_all:
  "qinv q \<Longrightarrow> contents q = xs @ ys \<Longrightarrow>
     \<exists>q'. deq_n deq (length xs) q = Inr (map Some xs, q') \<and> qinv q' \<and> contents q' = ys"
proof (induction xs arbitrary: q)
  case (Cons x xs)
  from deq_ok [OF Cons.prems(1), of x "xs @ ys"] Cons.prems(2) obtain q1
    where "deq q = Inr (Some x, q1)" "qinv q1" "contents q1 = xs @ ys" by auto
  with Cons.IH [of q1] show ?case by auto
qed simp

lemma fifo_order:
  assumes "qinv q" "contents q = []"
  shows "\<exists>q' q''. foldE enq xs q = Inr q' \<and> deq_n deq (length xs) q' = Inr (map Some xs, q'')
     \<and> contents q'' = []"
  using enq_all [OF assms(1), of xs] deq_all [of _ xs "[]"] assms(2) by force

end

text \<open>
  The interrupt simulation uses a list as a queue ordered by key. Its contract: inserting
  keeps the keys sorted and puts an item behind those with the same key.
\<close>

locale sorted_queue =
  fixes ins :: "'a \<Rightarrow> int \<Rightarrow> 'q \<Rightarrow> 'q res"
    and rem :: "'q \<Rightarrow> ((int \<times> 'a) option \<times> 'q) res"
    and elems :: "'q \<Rightarrow> (int \<times> 'a) list"
    and qinv :: "'q \<Rightarrow> bool"
  assumes ins_ok: "qinv q \<Longrightarrow> \<exists>q'. ins x k q = Inr q' \<and> qinv q' \<and> elems q' = sorted_ins k x (elems q)"
    and rem_empty: "qinv q \<Longrightarrow> elems q = [] \<Longrightarrow> rem q = Inr (None, q)"
    and rem_ok: "qinv q \<Longrightarrow> elems q = e # es \<Longrightarrow> \<exists>q'. rem q = Inr (Some e, q') \<and> qinv q' \<and> elems q' = es"
begin

lemma ins_all:
  "qinv q \<Longrightarrow> \<exists>q'. foldE (\<lambda>(k, x). ins x k) es q = Inr q' \<and> qinv q'
     \<and> elems q' = fold (\<lambda>(k, x). sorted_ins k x) es (elems q)"
proof (induction es arbitrary: q)
  case (Cons e es)
  obtain k x where e: "e = (k, x)" by (cases e)
  from ins_ok [OF Cons.prems, of x k] obtain q1
    where "ins x k q = Inr q1" "qinv q1" "elems q1 = sorted_ins k x (elems q)" by auto
  with Cons.IH [of q1] show ?case by (auto simp: e)
qed simp

end

lemma List_items_Nil_iff: "List_items l = [] \<longleftrightarrow> List_elems l = []"
  by (simp add: List_items_def)

interpretation list_fifo: fifo_queue List_Append List_Remove List_items List_inv
proof
  fix q :: "'a nlist" and x :: 'a and xs
  assume q: "List_inv q"
  show "\<exists>q'. List_Append x q = Inr q' \<and> List_inv q' \<and> List_items q' = List_items q @ [x]"
    using List_Append_spec [OF q, of x] by (auto simp: List_items_def)
  show "List_Remove q = Inr (None, q)" if "List_items q = []"
    using List_Remove_spec [OF q] that by (simp add: List_items_Nil_iff)
  show "\<exists>q'. List_Remove q = Inr (Some x, q') \<and> List_inv q' \<and> List_items q' = xs" if "List_items q = x # xs"
    using List_Remove_spec [OF q] that by (cases "List_elems q") (auto simp: List_items_def)
qed

interpretation list_sorted: sorted_queue List_SortedInsert List_SortedRemove List_elems List_inv
proof
  fix q :: "'a nlist" and x :: 'a and k e es
  assume q: "List_inv q"
  show "\<exists>q'. List_SortedInsert x k q = Inr q' \<and> List_inv q' \<and> List_elems q' = sorted_ins k x (List_elems q)"
    by (rule List_SortedInsert_spec [OF q])
  show "List_SortedRemove q = Inr (None, q)" if "List_elems q = []"
    using List_SortedRemove_spec [OF q] that by simp
  show "\<exists>q'. List_SortedRemove q = Inr (Some e, q') \<and> List_inv q' \<and> List_elems q' = es" if "List_elems q = e # es"
    using List_SortedRemove_spec [OF q] that by auto
qed

section \<open>Sortedness and stability\<close>

lemma sorted_dropWhile_le:
  fixes es :: "(int \<times> 'a) list"
  assumes "sorted (map fst es)" "e \<in> set (dropWhile (\<lambda>e. fst e \<le> k) es)"
  shows "k < fst e"
  using assms by (induction es) (auto split: if_splits)

lemma sorted_sorted_ins: "sorted (map fst es) \<Longrightarrow> sorted (map fst (sorted_ins k x es))"
proof (induction es)
  case (Cons e es)
  then show ?case by (auto simp: sorted_ins_def dest!: set_takeWhileD set_dropWhileD split: if_splits)
qed (simp add: sorted_ins_def)

lemma mset_sorted_ins: "mset (sorted_ins k x es) = add_mset (k, x) (mset es)"
  unfolding sorted_ins_def by (metis mset.simps(2) mset_append takeWhile_dropWhile_id union_mset_add_mset_right)

lemma sorted_ins_stable:
  assumes "sorted (map fst es)"
  shows "filter (\<lambda>e. fst e = k) (sorted_ins k x es) = filter (\<lambda>e. fst e = k) es @ [(k, x)]"
proof -
  have "filter (\<lambda>e. fst e = k) (dropWhile (\<lambda>e. fst e \<le> k) es) = []"
    using sorted_dropWhile_le [OF assms] by (auto simp: filter_empty_conv)
  moreover from this have "filter (\<lambda>e. fst e = k) es
      = filter (\<lambda>e. fst e = k) (takeWhile (\<lambda>e. fst e \<le> k) es)"
    by (metis append.right_neutral filter_append takeWhile_dropWhile_id)
  ultimately show ?thesis by (simp add: sorted_ins_def)
qed

lemma sorted_fold_ins:
  "sorted (map fst es0) \<Longrightarrow> sorted (map fst (fold (\<lambda>(k, x). sorted_ins k x) es es0))"
  by (induction es arbitrary: es0) (auto simp: sorted_sorted_ins)

lemma sorted_ins_other:
  "k' \<noteq> k \<Longrightarrow> filter (\<lambda>e. fst e = k') (sorted_ins k x es) = filter (\<lambda>e. fst e = k') es"
  unfolding sorted_ins_def
  by (metis (mono_tags, lifting) filter.simps(2) filter_append fst_conv takeWhile_dropWhile_id)

lemma fold_sorted_ins_contents:
  "sorted (map fst es0) \<Longrightarrow>
     mset (fold (\<lambda>(k, x). sorted_ins k x) es es0) = mset es + mset es0 \<and>
     filter (\<lambda>e. fst e = k) (fold (\<lambda>(k, x). sorted_ins k x) es es0)
       = filter (\<lambda>e. fst e = k) es0 @ filter (\<lambda>e. fst e = k) es"
proof (induction es arbitrary: es0)
  case (Cons e es)
  obtain k0 x where e: "e = (k0, x)" by (cases e)
  have "filter (\<lambda>e. fst e = k) (sorted_ins k0 x es0) @ filter (\<lambda>e. fst e = k) es
      = filter (\<lambda>e. fst e = k) es0 @ filter (\<lambda>e. fst e = k) (e # es)"
    using sorted_ins_stable [OF Cons.prems, of k x] sorted_ins_other [of k k0 x es0] e by auto
  then show ?case
    using Cons.IH [OF sorted_sorted_ins [OF Cons.prems, of k0 x]] by (simp add: e mset_sorted_ins)
qed simp

lemma List_RemoveElement_last:
  assumes "List_inv l" "x \<in> set (List_items l)"
  shows "\<exists>l'. List_RemoveElement x l = Inr (Some x, l') \<and>
     (List_inv l' \<longleftrightarrow> \<not> (1 < length (List_items l) \<and> x \<notin> set (butlast (List_items l)))) \<and>
     (\<not> List_inv l' \<longrightarrow> (\<forall>y. List_Append y l' = Inl DanglingPointer))"
proof -
  obtain pre b post where s: "List_addrs l = pre @ b # post"
    "\<forall>a\<in>set pre. snd (elem_of (l_cells l) a) \<noteq> x" "snd (elem_of (l_cells l) b) = x"
    using assms(2) by (rule List_found_split)
  have ch: "List_chain l" and lst: "l_last l = Some (last (b # post))"
    using assms(1) s(1) by (auto simp: List_inv_def)
  obtain l' where l': "List_RemoveElement x l = Inr (Some x, l')" "List_chain l'" "List_addrs l' = pre @ post"
    "l_last l' = l_last l" "cell_at (l_cells l') b = None" "length (l_cells l') = length (l_cells l)"
    using List_RemoveElement_found [OF ch s] by auto
  have bad: "\<not> List_inv l' \<longleftrightarrow> post = [] \<and> pre \<noteq> []"
  proof (cases "post = []")
    case True
    have "distinct (pre @ b # post)" using ch s(1) chain_distinct by (metis List_chain_def)
    then show ?thesis using l' lst True last_in_set [of pre] by (auto simp: List_inv_def)
  next
    case False
    then show ?thesis using l' lst by (simp add: List_inv_def)
  qed
  have items: "List_items l = map (snd \<circ> elem_of (l_cells l)) (pre @ b # post)"
    using s(1) by (simp add: List_items_addrs)
  have pos: "post = [] \<and> pre \<noteq> [] \<longleftrightarrow> 1 < length (List_items l) \<and> x \<notin> set (butlast (List_items l))"
    using s(2,3) by (cases "post = []") (auto simp: items butlast_append map_butlast)
  have "List_Append y l' = Inl DanglingPointer" if "\<not> List_inv l'" for y
  proof -
    have "l_last l' = Some b" "List_addrs l' \<noteq> []" using that bad l' lst by auto
    moreover have "b < length (l_cells l')"
      using chain_bound [of "l_cells l" "l_first l" "List_addrs l" b] ch s(1) l'(6) by (simp add: List_chain_def)
    ultimately show ?thesis
      using l'(2,5) by (simp add: List_Append_def Let_def List_empty_iff set_next_def deref_def cell_at_extend)
  qed
  then show ?thesis using l'(1) bad pos by blast
qed

section \<open>Properties\<close>

text \<open>C19: A list used through Append and Remove is a first-in first-out queue: after any items
  are appended to a fresh list, removing as many returns exactly these items in the order in
  which they were appended and leaves the list empty; no operation fails.\<close>

theorem List_fifo:
  "\<exists>q q'. foldE List_Append xs List_new = Inr q \<and> deq_n List_Remove (length xs) q = Inr (map Some xs, q')
     \<and> List_items q' = []"
  by (rule list_fifo.fifo_order) (simp_all add: List_items_def)

text \<open>C33: SortedInsert is a stable insertion sort: inserting any sequence of (key, item) pairs into
  a fresh list succeeds and leaves the same pairs sorted by key, with the pairs of equal key in
  the order of their insertion.\<close>

theorem List_SortedInsert_sorts:
  "\<exists>l. foldE (\<lambda>(k, x). List_SortedInsert x k) es List_new = Inr l \<and> List_inv l
     \<and> sorted (map fst (List_elems l)) \<and> mset (List_elems l) = mset es
     \<and> (\<forall>k. filter (\<lambda>e. fst e = k) (List_elems l) = filter (\<lambda>e. fst e = k) es)"
  using list_sorted.ins_all [of List_new es] sorted_fold_ins [of "[]" es] fold_sorted_ins_contents [of "[]" es]
  by auto

text \<open>RemoveElement unlinks the first element that holds the given item and no other: it
  returns the item when it was on the list and NULL otherwise, never fails on a list whose
  elements are linked, and keeps the elements linked.\<close>

theorem List_RemoveElement_removes_first:
  assumes "List_chain l"
  shows "\<exists>l'. List_RemoveElement x l = Inr (if x \<in> set (List_items l) then Some x else None, l')
     \<and> List_chain l' \<and> List_elems l' = remove_item x (List_elems l)"
  by (rule List_RemoveElement_spec [OF assms])

theorem List_RemoveElement_removes_first_witness:
  "\<exists>l l'. foldE List_Append [3, 5, 3::nat] List_new = Inr l \<and> List_RemoveElement 5 l = Inr (Some 5, l')
     \<and> List_items l' = [3, 3]"
proof -
  obtain l where l: "foldE List_Append [3, 5, 3::nat] List_new = Inr l" "List_inv l" "List_items l = [3, 5, 3]"
    using list_fifo.enq_all [of List_new "[3, 5, 3::nat]"] by (auto simp: List_items_def)
  then have "List_chain l" by (simp add: List_inv_def)
  from List_RemoveElement_removes_first [OF this, of 5] l(3)
  obtain l' where "List_RemoveElement 5 l = Inr (Some 5, l')" "List_elems l' = remove_item 5 (List_elems l)"
    by auto
  moreover have "map snd (remove_item 5 (List_elems l)) = [3, 3]"
    using l(3) by (auto simp: List_items_def map_eq_Cons_conv)
  ultimately show ?thesis using l(1) by (auto simp: List_items_def)
qed

text \<open>C37: RemoveElement does not update the last pointer. Removing an item whose first occurrence is
  the last element of a list of two or more elements leaves last pointing to the deleted
  element, and the next Append dereferences it; in every other case the list invariant is kept.\<close>

theorem List_RemoveElement_dangling_last:
  assumes "List_inv l" "x \<in> set (List_items l)"
  shows "\<exists>l'. List_RemoveElement x l = Inr (Some x, l') \<and>
     (if 1 < length (List_items l) \<and> x \<notin> set (butlast (List_items l))
      then \<not> List_inv l' \<and> (\<forall>y. List_Append y l' = Inl DanglingPointer)
      else List_inv l')"
  using List_RemoveElement_last [OF assms] by auto

theorem List_RemoveElement_dangling_last_witness:
  "\<exists>l l'. foldE List_Append [1, 2::nat] List_new = Inr l \<and> List_RemoveElement 2 l = Inr (Some 2, l')
     \<and> List_Append 3 l' = Inl DanglingPointer"
proof -
  obtain l where l: "foldE List_Append [1, 2::nat] List_new = Inr l" "List_inv l" "List_items l = [1, 2]"
    using list_fifo.enq_all [of List_new "[1, 2::nat]"] by (auto simp: List_items_def)
  with List_RemoveElement_dangling_last [OF l(2), of 2] show ?thesis by auto
qed

end
