(* ===== verification/Bitmap.thy ===== *)
theory Bitmap
  imports NachosPrelude
begin

text \<open>
  The bitmap of \<^verbatim>\<open>userprog/bitmap.cc\<close>: an array of 32-bit words in which bit
  \<open>i\<close> records whether element \<open>i\<close> (a page frame, a process id, a disk sector) is in
  use. \<open>BitMap_bits\<close> is the set of marked elements. The locale \<open>bit_allocator\<close> is
  the contract the memory manager, the process manager and the file system rely on; it is
  interpreted on the operations below.
\<close>

unbundle bit_operations_syntax

section \<open>Operations\<close>

definition BitsInWord :: int where
  "BitsInWord = 32"

record BitMap =
  numBits :: int
  numWords :: int
  bm_map :: "32 word list"

text \<open>The test \<^verbatim>\<open>ASSERT(which >= 0 && which < numBits)\<close> that opens
  Mark, Clear and Test, and the word and bit position of an element.\<close>

definition BitMap_Mark :: "int \<Rightarrow> BitMap \<Rightarrow> BitMap res" where
  "BitMap_Mark which b =
     bindE (assertE (which \<ge> 0 \<and> which < numBits b)) (\<lambda>_.
     let i = nat (which div BitsInWord); k = nat (which mod BitsInWord) in
     bindE (arr_get (bm_map b) i) (\<lambda>w.
     bindE (arr_set (bm_map b) i (w OR push_bit k 1)) (\<lambda>m. Inr (b\<lparr>bm_map := m\<rparr>))))"

definition BitMap_Clear :: "int \<Rightarrow> BitMap \<Rightarrow> BitMap res" where
  "BitMap_Clear which b =
     bindE (assertE (which \<ge> 0 \<and> which < numBits b)) (\<lambda>_.
     let i = nat (which div BitsInWord); k = nat (which mod BitsInWord) in
     bindE (arr_get (bm_map b) i) (\<lambda>w.
     bindE (arr_set (bm_map b) i (w AND NOT (push_bit k 1))) (\<lambda>m. Inr (b\<lparr>bm_map := m\<rparr>))))"

definition BitMap_Test :: "int \<Rightarrow> BitMap \<Rightarrow> bool res" where
  "BitMap_Test which b =
     bindE (assertE (which \<ge> 0 \<and> which < numBits b)) (\<lambda>_.
     let i = nat (which div BitsInWord); k = nat (which mod BitsInWord) in
     bindE (arr_get (bm_map b) i) (\<lambda>w.
     if w AND push_bit k 1 \<noteq> 0 then Inr True else Inr False))"

text \<open>
  The constructor allocates the words uninitialised (\<open>garbage\<close>) and clears every bit.
\<close>

definition BitMap_new :: "(nat \<Rightarrow> 32 word) \<Rightarrow> int \<Rightarrow> BitMap res" where
  "BitMap_new garbage nitems =
     (let nw = divRoundUp nitems BitsInWord;
          b = \<lparr>numBits = nitems, numWords = nw, bm_map = map garbage [0..<nat nw]\<rparr>
      in foldE (\<lambda>i. BitMap_Clear (int i)) [0..<nat nitems] b)"

fun BitMap_Find_loop :: "nat list \<Rightarrow> BitMap \<Rightarrow> (int \<times> BitMap) res" where
  "BitMap_Find_loop [] b = Inr (-1, b)"
| "BitMap_Find_loop (i # is) b =
     bindE (BitMap_Test (int i) b) (\<lambda>t.
       if \<not> t then bindE (BitMap_Mark (int i) b) (\<lambda>b'. Inr (int i, b'))
       else BitMap_Find_loop is b)"

definition BitMap_Find :: "BitMap \<Rightarrow> (int \<times> BitMap) res" where
  "BitMap_Find b = BitMap_Find_loop [0..<nat (numBits b)] b"

definition BitMap_NumClear :: "BitMap \<Rightarrow> int res" where
  "BitMap_NumClear b =
     foldE (\<lambda>i count. bindE (BitMap_Test (int i) b) (\<lambda>t. Inr (if \<not> t then count + 1 else count)))
       [0..<nat (numBits b)] 0"

text \<open>\<^verbatim>\<open>Print\<close> lists the numbers of the marked bits; the model returns them.\<close>

definition BitMap_Print :: "BitMap \<Rightarrow> int list res" where
  "BitMap_Print b =
     foldE (\<lambda>i out. bindE (BitMap_Test (int i) b) (\<lambda>t. Inr (if t then out @ [int i] else out)))
       [0..<nat (numBits b)] []"

section \<open>Abstraction and invariant\<close>

definition BitMap_bits :: "BitMap \<Rightarrow> nat set" where
  "BitMap_bits b = {i. i < nat (numBits b) \<and> bit (bm_map b ! (i div 32)) (i mod 32)}"

definition BitMap_size :: "BitMap \<Rightarrow> nat" where
  "BitMap_size b = nat (numBits b)"

definition BitMap_inv :: "BitMap \<Rightarrow> bool" where
  "BitMap_inv b \<longleftrightarrow> 0 \<le> numBits b \<and> numWords b = divRoundUp (numBits b) BitsInWord
     \<and> length (bm_map b) = nat (numWords b)"

lemma BitMap_index:
  assumes "BitMap_inv b" "i < nat (numBits b)"
  shows "i div 32 < length (bm_map b)"
proof -
  have "int i div 32 < divRoundUp (numBits b) 32"
    using assms by (intro div_less_divRoundUp) (auto simp: BitMap_inv_def)
  then have "int (i div 32) < int (length (bm_map b))"
    using assms(1) by (simp add: BitMap_inv_def BitsInWord_def zdiv_int)
  then show ?thesis by simp
qed

lemma nat_of_which:
  "0 \<le> w \<Longrightarrow> nat (w div BitsInWord) = nat w div 32 \<and> nat (w mod BitsInWord) = nat w mod 32"
  by (simp add: BitsInWord_def nat_div_distrib nat_mod_distrib)

lemma div_mod_32_eq: "(i::nat) div 32 = j div 32 \<Longrightarrow> i mod 32 = j mod 32 \<Longrightarrow> i = j"
  by (metis div_mult_mod_eq)

lemma BitMap_bits_upd:
  assumes "BitMap_inv b" "j < nat (numBits b)"
  shows "BitMap_bits (b\<lparr>bm_map := (bm_map b)[j div 32 := v]\<rparr>) =
    {i. i < nat (numBits b) \<and> bit (if i div 32 = j div 32 then v else bm_map b ! (i div 32)) (i mod 32)}"
  using BitMap_index [OF assms] by (auto simp: BitMap_bits_def nth_list_update)

lemma BitMap_inv_upd [simp]: "BitMap_inv (b\<lparr>bm_map := (bm_map b)[k := v]\<rparr>) = BitMap_inv b"
  by (simp add: BitMap_inv_def)

lemma BitMap_Test_spec:
  assumes "BitMap_inv b"
  shows "BitMap_Test w b = (if 0 \<le> w \<and> w < int (BitMap_size b) then Inr (nat w \<in> BitMap_bits b)
     else Inl AssertFail)"
proof (cases "0 \<le> w \<and> w < numBits b")
  case True
  then have "nat w div 32 < length (bm_map b)" using BitMap_index [OF assms, of "nat w"] by simp
  then show ?thesis using True nat_of_which [of w]
    by (auto simp: BitMap_Test_def BitMap_bits_def BitMap_size_def Let_def bit_iff_and_push_bit_not_eq_0)
next
  case False
  then show ?thesis using assms by (auto simp: BitMap_Test_def BitMap_size_def BitMap_inv_def)
qed

lemma BitMap_Mark_spec:
  assumes "BitMap_inv b" "0 \<le> w" "w < int (BitMap_size b)"
  shows "\<exists>b'. BitMap_Mark w b = Inr b' \<and> BitMap_inv b' \<and> BitMap_size b' = BitMap_size b
     \<and> BitMap_bits b' = insert (nat w) (BitMap_bits b)"
proof -
  have r: "w < numBits b" "nat w < nat (numBits b)" using assms by (auto simp: BitMap_size_def split: if_splits)
  let ?b' = "b\<lparr>bm_map := (bm_map b)[nat w div 32 := bm_map b ! (nat w div 32) OR push_bit (nat w mod 32) 1]\<rparr>"
  have "BitMap_Mark w b = Inr ?b'"
    using assms r BitMap_index [OF assms(1) r(2)] nat_of_which [of w] by (simp add: BitMap_Mark_def Let_def)
  moreover have "BitMap_bits ?b' = insert (nat w) (BitMap_bits b)"
    unfolding BitMap_bits_upd [OF assms(1) r(2)]
    using r by (auto simp: BitMap_bits_def bit_simps dest: div_mod_32_eq)
  ultimately show ?thesis using assms(1) by (auto simp: BitMap_size_def)
qed

lemma BitMap_Clear_spec:
  assumes "BitMap_inv b" "0 \<le> w" "w < int (BitMap_size b)"
  shows "\<exists>b'. BitMap_Clear w b = Inr b' \<and> BitMap_inv b' \<and> BitMap_size b' = BitMap_size b
     \<and> BitMap_bits b' = BitMap_bits b - {nat w}"
proof -
  have r: "w < numBits b" "nat w < nat (numBits b)" using assms by (auto simp: BitMap_size_def split: if_splits)
  let ?b' = "b\<lparr>bm_map := (bm_map b)[nat w div 32 := bm_map b ! (nat w div 32) AND NOT (push_bit (nat w mod 32) 1)]\<rparr>"
  have "BitMap_Clear w b = Inr ?b'"
    using assms r BitMap_index [OF assms(1) r(2)] nat_of_which [of w] by (simp add: BitMap_Clear_def Let_def)
  moreover have "BitMap_bits ?b' = BitMap_bits b - {nat w}"
    unfolding BitMap_bits_upd [OF assms(1) r(2)]
    using r by (auto simp: BitMap_bits_def bit_simps dest: div_mod_32_eq split: if_splits)
  ultimately show ?thesis using assms(1) by (auto simp: BitMap_size_def)
qed

lemma BitMap_bits_subset: "BitMap_bits b \<subseteq> {..<BitMap_size b}"
  by (auto simp: BitMap_bits_def BitMap_size_def)

lemma BitMap_Find_loop_full:
  assumes "BitMap_inv b" "set is \<subseteq> BitMap_bits b"
  shows "BitMap_Find_loop is b = Inr (-1, b)"
  using assms(2) BitMap_bits_subset [of b]
  by (induction "is") (auto simp: BitMap_Test_spec [OF assms(1)] subset_eq)

lemma BitMap_Find_loop_free:
  assumes "BitMap_inv b" "set ys \<subseteq> BitMap_bits b" "j \<notin> BitMap_bits b" "j < BitMap_size b"
    "BitMap_Mark (int j) b = Inr b'"
  shows "BitMap_Find_loop (ys @ j # zs) b = Inr (int j, b')"
  using assms(2) BitMap_bits_subset [of b] assms(3-5)
  by (induction ys) (auto simp: BitMap_Test_spec [OF assms(1)] subset_eq)

lemma BitMap_Find_full:
  assumes "BitMap_inv b" "BitMap_bits b = {..<BitMap_size b}"
  shows "BitMap_Find b = Inr (-1, b)"
proof -
  have "set [0..<nat (numBits b)] \<subseteq> BitMap_bits b" by (auto simp: assms(2) BitMap_size_def)
  then show ?thesis unfolding BitMap_Find_def by (rule BitMap_Find_loop_full [OF assms(1)])
qed

lemma upt_split: "j < n \<Longrightarrow> [0..<n] = [0..<j] @ j # [Suc j..<n]"
  by (metis le_add_diff_inverse less_imp_le upt_add_eq_append upt_conv_Cons zero_le)

lemma BitMap_Find_free:
  assumes "BitMap_inv b" "BitMap_bits b \<noteq> {..<BitMap_size b}"
  defines "j \<equiv> LEAST i. i \<notin> BitMap_bits b"
  shows "\<exists>b'. BitMap_Find b = Inr (int j, b') \<and> BitMap_inv b' \<and> BitMap_size b' = BitMap_size b
     \<and> j < BitMap_size b \<and> j \<notin> BitMap_bits b \<and> BitMap_bits b' = insert j (BitMap_bits b)"
proof -
  obtain i where i: "i < BitMap_size b" "i \<notin> BitMap_bits b"
    using assms(2) BitMap_bits_subset [of b] by auto
  have j: "j \<notin> BitMap_bits b" "j \<le> i"
    unfolding j_def by (rule LeastI [of _ i], rule i(2), rule Least_le, rule i(2))
  have below: "set [0..<j] \<subseteq> BitMap_bits b"
  proof
    fix i assume "i \<in> set [0..<j]"
    then have "i < (LEAST i. i \<notin> BitMap_bits b)" by (simp add: j_def)
    then show "i \<in> BitMap_bits b" by (metis not_less_Least)
  qed
  have jn: "j < BitMap_size b" using i j by simp
  obtain b' where b': "BitMap_Mark (int j) b = Inr b'" "BitMap_inv b'" "BitMap_size b' = BitMap_size b"
    "BitMap_bits b' = insert j (BitMap_bits b)"
    using BitMap_Mark_spec [OF assms(1), of "int j"] jn by auto
  have "[0..<nat (numBits b)] = [0..<j] @ j # [Suc j..<nat (numBits b)]"
    using jn by (intro upt_split) (simp add: BitMap_size_def)
  then have "BitMap_Find b = Inr (int j, b')"
    using BitMap_Find_loop_free [OF assms(1) below j(1) jn b'(1)] by (simp add: BitMap_Find_def)
  with b' jn j(1) show ?thesis by auto
qed

lemma count_loop:
  assumes "\<And>i. i < n \<Longrightarrow> t i = Inr (i \<in> S)"
  shows "foldE (\<lambda>i count. bindE (t i) (\<lambda>x. Inr (if \<not> x then count + 1 else count))) [0..<n] (0::int)
     = Inr (int (card ({..<n} - S)))"
  using assms
proof (induction n)
  case (Suc n)
  have "{..<Suc n} - S = (if n \<in> S then {..<n} - S else insert n ({..<n} - S))"
    by (auto simp: less_Suc_eq)
  then show ?case using Suc by (auto simp: foldE_append)
qed simp

lemma BitMap_NumClear_spec:
  assumes "BitMap_inv b"
  shows "BitMap_NumClear b = Inr (int (BitMap_size b - card (BitMap_bits b)))"
proof -
  have "BitMap_NumClear b = Inr (int (card ({..<BitMap_size b} - BitMap_bits b)))"
    unfolding BitMap_NumClear_def BitMap_size_def
    by (rule count_loop) (use assms in \<open>auto simp: BitMap_Test_spec BitMap_size_def BitMap_inv_def\<close>)
  also have "card ({..<BitMap_size b} - BitMap_bits b) = BitMap_size b - card (BitMap_bits b)"
    using BitMap_bits_subset [of b] finite_subset by (subst card_Diff_subset) auto
  finally show ?thesis .
qed

lemma BitMap_new_spec:
  assumes "0 \<le> n"
  shows "\<exists>b. BitMap_new garbage n = Inr b \<and> BitMap_inv b \<and> BitMap_size b = nat n \<and> BitMap_bits b = {}"
proof -
  define b where "b = \<lparr>numBits = n, numWords = divRoundUp n BitsInWord,
      bm_map = map garbage [0..<nat (divRoundUp n BitsInWord)]\<rparr>"
  have b: "BitMap_inv b" "BitMap_size b = nat n" using assms by (auto simp: b_def BitMap_inv_def BitMap_size_def)
  have "\<exists>c. foldE (\<lambda>i. BitMap_Clear (int i)) [0..<nat n] b = Inr c
     \<and> BitMap_inv c \<and> BitMap_size c = nat n \<and> BitMap_bits c \<subseteq> {nat n..}"
  proof (rule foldE_upt_induct [where P = "\<lambda>i c. BitMap_inv c \<and> BitMap_size c = nat n \<and> BitMap_bits c \<subseteq> {i..}"])
    fix i c
    assume "i < nat n" "BitMap_inv c \<and> BitMap_size c = nat n \<and> BitMap_bits c \<subseteq> {i..}"
    moreover have "int i < int (nat n)" using \<open>i < nat n\<close> by (rule of_nat_less_iff [THEN iffD2])
    ultimately obtain c' where "BitMap_Clear (int i) c = Inr c'"
      "BitMap_inv c'" "BitMap_size c' = nat n" "BitMap_bits c' = BitMap_bits c - {i}"
      using BitMap_Clear_spec [of c "int i"] by (metis nat_int of_nat_0_le_iff)
    moreover have "BitMap_bits c - {i} \<subseteq> {Suc i..}"
      using \<open>BitMap_inv c \<and> _ \<and> _\<close> by (auto simp: Suc_le_eq le_neq_implies_less subset_eq)
    ultimately show "\<exists>c'. BitMap_Clear (int i) c = Inr c' \<and> BitMap_inv c' \<and> BitMap_size c' = nat n \<and> BitMap_bits c' \<subseteq> {Suc i..}"
      by simp
  qed (use b in auto)
  then obtain c where c: "foldE (\<lambda>i. BitMap_Clear (int i)) [0..<nat n] b = Inr c"
    "BitMap_inv c" "BitMap_size c = nat n" "BitMap_bits c \<subseteq> {nat n..}" by blast
  moreover have "BitMap_bits c = {}"
    using c(3,4) BitMap_bits_subset [of c] by fastforce
  ultimately show ?thesis by (auto simp: BitMap_new_def b_def Let_def)
qed

section \<open>The allocator interface\<close>

fun alloc_n :: "('b \<Rightarrow> (int \<times> 'b) res) \<Rightarrow> nat \<Rightarrow> 'b \<Rightarrow> (int list \<times> 'b) res" where
  "alloc_n findb 0 b = Inr ([], b)"
| "alloc_n findb (Suc n) b =
     bindE (findb b) (\<lambda>(i, b'). bindE (alloc_n findb n b') (\<lambda>(is, b''). Inr (i # is, b'')))"

locale bit_allocator =
  fixes test :: "int \<Rightarrow> 'b \<Rightarrow> bool res"
    and mark :: "int \<Rightarrow> 'b \<Rightarrow> 'b res"
    and clear :: "int \<Rightarrow> 'b \<Rightarrow> 'b res"
    and findb :: "'b \<Rightarrow> (int \<times> 'b) res"
    and numClear :: "'b \<Rightarrow> int res"
    and bits :: "'b \<Rightarrow> nat set"
    and cap :: "'b \<Rightarrow> nat"
    and binv :: "'b \<Rightarrow> bool"
  assumes bits_subset: "binv b \<Longrightarrow> bits b \<subseteq> {..<cap b}"
    and test_ok: "binv b \<Longrightarrow> test w b =
          (if 0 \<le> w \<and> w < int (cap b) then Inr (nat w \<in> bits b) else Inl AssertFail)"
    and mark_ok: "binv b \<Longrightarrow> 0 \<le> w \<Longrightarrow> w < int (cap b) \<Longrightarrow>
          \<exists>b'. mark w b = Inr b' \<and> binv b' \<and> cap b' = cap b \<and> bits b' = insert (nat w) (bits b)"
    and clear_ok: "binv b \<Longrightarrow> 0 \<le> w \<Longrightarrow> w < int (cap b) \<Longrightarrow>
          \<exists>b'. clear w b = Inr b' \<and> binv b' \<and> cap b' = cap b \<and> bits b' = bits b - {nat w}"
    and find_full: "binv b \<Longrightarrow> bits b = {..<cap b} \<Longrightarrow> findb b = Inr (-1, b)"
    and find_free: "binv b \<Longrightarrow> bits b \<noteq> {..<cap b} \<Longrightarrow> \<exists>b'. findb b = Inr (int (LEAST i. i \<notin> bits b), b')
          \<and> binv b' \<and> cap b' = cap b \<and> (LEAST i. i \<notin> bits b) < cap b
          \<and> (LEAST i. i \<notin> bits b) \<notin> bits b \<and> bits b' = insert (LEAST i. i \<notin> bits b) (bits b)"
    and numClear_ok: "binv b \<Longrightarrow> numClear b = Inr (int (cap b - card (bits b)))"
begin

lemma finite_bits: "binv b \<Longrightarrow> finite (bits b)"
  using bits_subset finite_subset by blast

lemma card_bits: "binv b \<Longrightarrow> card (bits b) \<le> cap b"
  using bits_subset card_mono [of "{..<cap b}" "bits b"] by simp

lemma find_step:
  assumes "binv b" "card (bits b) < cap b"
  obtains j b' where "findb b = Inr (int j, b')" "binv b'" "cap b' = cap b" "j < cap b" "j \<notin> bits b"
    "bits b' = insert j (bits b)" "card (bits b') = Suc (card (bits b))"
proof -
  have "bits b \<noteq> {..<cap b}" using assms(2) by (metis card_lessThan less_irrefl)
  define j where "j = (LEAST i. i \<notin> bits b)"
  from find_free [OF assms(1) \<open>bits b \<noteq> {..<cap b}\<close>, folded j_def]
  obtain b' where b': "findb b = Inr (int j, b')" "binv b'" "cap b' = cap b" "j < cap b" "j \<notin> bits b"
    "bits b' = insert j (bits b)" by blast
  moreover have "card (bits b') = Suc (card (bits b))"
    unfolding b'(6) by (rule card_insert_disjoint [OF finite_bits [OF assms(1)] b'(5)])
  ultimately show thesis by (rule that)
qed

text \<open>Allocating at most as many elements as are free yields distinct elements that were free.\<close>

lemma alloc_n_ok:
  assumes "binv b" "n \<le> cap b - card (bits b)"
  shows "\<exists>is b'. alloc_n findb n b = Inr (map int is, b') \<and> length is = n \<and> distinct is
     \<and> set is \<inter> bits b = {} \<and> set is \<subseteq> {..<cap b} \<and> binv b' \<and> cap b' = cap b \<and> bits b' = bits b \<union> set is"
  using assms
proof (induction n arbitrary: b)
  case (Suc n)
  then have "card (bits b) < cap b" by simp
  then obtain j b1 where j: "findb b = Inr (int j, b1)" "binv b1" "cap b1 = cap b" "j < cap b" "j \<notin> bits b"
    "bits b1 = insert j (bits b)" "card (bits b1) = Suc (card (bits b))"
    using find_step [OF Suc.prems(1)] by metis
  then obtain "is" b2 where "alloc_n findb n b1 = Inr (map int is, b2)" "length is = n" "distinct is"
    "set is \<inter> bits b1 = {}" "set is \<subseteq> {..<cap b}" "binv b2" "cap b2 = cap b" "bits b2 = bits b1 \<union> set is"
  proof -
    have "n \<le> cap b1 - card (bits b1)" using j(3,7) Suc.prems(2) by linarith
    from Suc.IH [OF j(2) this] show thesis using that j(3) by auto
  qed
  with j show ?case by (intro exI [of _ "j # is"] exI [of _ b2]) auto
qed simp

lemma clear_all:
  assumes "binv b" "set is \<subseteq> {..<cap b}"
  shows "\<exists>b'. foldE clear (map int is) b = Inr b' \<and> binv b' \<and> cap b' = cap b \<and> bits b' = bits b - set is"
  using assms
proof (induction "is" arbitrary: b)
  case (Cons i "is")
  from clear_ok [OF Cons.prems(1), of "int i"] Cons.prems(2) obtain b1
    where "clear (int i) b = Inr b1" "binv b1" "cap b1 = cap b" "bits b1 = bits b - {i}" by auto
  with Cons.IH [of b1] Cons.prems(2) show ?case by auto
qed simp

text \<open>Freeing what was allocated restores the bitmap's contents.\<close>

lemma alloc_clear_roundtrip:
  assumes "binv b" "n \<le> cap b - card (bits b)"
  shows "\<exists>is b' b''. alloc_n findb n b = Inr (is, b') \<and> foldE clear is b' = Inr b'' \<and> bits b'' = bits b"
proof -
  obtain "is" b' where "alloc_n findb n b = Inr (map int is, b')" "set is \<inter> bits b = {}"
    "set is \<subseteq> {..<cap b}" "binv b'" "cap b' = cap b" "bits b' = bits b \<union> set is"
    using alloc_n_ok [OF assms] by auto
  with clear_all [of b' "is"] show ?thesis by fastforce
qed

end

interpretation bitmap: bit_allocator BitMap_Test BitMap_Mark BitMap_Clear BitMap_Find BitMap_NumClear
  BitMap_bits BitMap_size BitMap_inv
  using BitMap_bits_subset BitMap_Test_spec BitMap_Mark_spec BitMap_Clear_spec BitMap_Find_full
    BitMap_Find_free BitMap_NumClear_spec
  by unfold_locales metis+

section \<open>Properties\<close>

text \<open>Find returns the number of the least clear bit and marks exactly that bit; when every bit is
  marked it returns -1 and changes nothing. It never fails on a well-formed bitmap.\<close>

theorem BitMap_Find_least:
  assumes "BitMap_inv b"
  shows "\<exists>r b'. BitMap_Find b = Inr (r, b') \<and> BitMap_inv b' \<and>
     (if BitMap_bits b = {..<BitMap_size b} then r = -1 \<and> b' = b
      else r = int (LEAST i. i \<notin> BitMap_bits b) \<and> nat r < BitMap_size b
        \<and> BitMap_bits b' = insert (nat r) (BitMap_bits b))"
proof (cases "BitMap_bits b = {..<BitMap_size b}")
  case True
  with bitmap.find_full [OF assms] assms show ?thesis by simp
next
  case False
  with bitmap.find_free [OF assms False] show ?thesis by auto
qed

theorem BitMap_Find_least_witness:
  "\<exists>b r b'. BitMap_new (\<lambda>_. -1) 40 = Inr b \<and> BitMap_Find b = Inr (r, b') \<and> r = 0 \<and> BitMap_bits b' = {0}"
proof -
  obtain b where b: "BitMap_new (\<lambda>_. -1) 40 = Inr b" "BitMap_inv b" "BitMap_size b = 40" "BitMap_bits b = {}"
    using BitMap_new_spec [of 40 "\<lambda>_. -1"] by auto
  have "0 \<in> {..<40::nat}" by simp
  then have "{} \<noteq> {..<40::nat}" by blast
  with BitMap_Find_least [OF b(2)] b show ?thesis by auto
qed

text \<open>Allocating n elements with Find, where at least n are free, returns n different elements, all
  of them free before; clearing the returned elements gives back the original contents.\<close>

theorem BitMap_alloc_free_roundtrip:
  assumes "BitMap_inv b" "BitMap_NumClear b = Inr c" "int n \<le> c"
  shows "\<exists>is b' b''. alloc_n BitMap_Find n b = Inr (map int is, b') \<and> length is = n \<and> distinct is
     \<and> set is \<inter> BitMap_bits b = {} \<and> BitMap_bits b' = BitMap_bits b \<union> set is
     \<and> foldE BitMap_Clear (map int is) b' = Inr b'' \<and> BitMap_bits b'' = BitMap_bits b"
proof -
  have n: "n \<le> BitMap_size b - card (BitMap_bits b)"
    using assms(2,3) by (simp add: bitmap.numClear_ok [OF assms(1)])
  obtain "is" b' where *: "alloc_n BitMap_Find n b = Inr (map int is, b')" "length is = n" "distinct is"
    "set is \<inter> BitMap_bits b = {}" "set is \<subseteq> {..<BitMap_size b}" "BitMap_inv b'" "BitMap_size b' = BitMap_size b"
    "BitMap_bits b' = BitMap_bits b \<union> set is"
    using bitmap.alloc_n_ok [OF assms(1) n] by auto
  moreover obtain b'' where "foldE BitMap_Clear (map int is) b' = Inr b''" "BitMap_bits b'' = BitMap_bits b' - set is"
    using bitmap.clear_all [OF *(6), of "is"] * by auto
  ultimately show ?thesis by (intro exI [of _ "is"] exI [of _ b'] exI [of _ b'']) auto
qed

theorem BitMap_alloc_free_roundtrip_witness:
  "\<exists>b is b'. BitMap_new (\<lambda>_. 7) 32 = Inr b \<and> alloc_n BitMap_Find 32 b = Inr (map int is, b')
     \<and> length is = 32 \<and> distinct is"
proof -
  obtain b where b: "BitMap_new (\<lambda>_. 7) 32 = Inr b" "BitMap_inv b" "BitMap_size b = 32" "BitMap_bits b = {}"
    using BitMap_new_spec [of 32 "\<lambda>_. 7"] by auto
  with BitMap_alloc_free_roundtrip [OF b(2), of 32 32] show ?thesis
    by (auto simp: bitmap.numClear_ok [OF b(2)])
qed

end
