(* ===== verification/Machine.thy ===== *)
theory Machine
  imports NachosPrelude
begin

text \<open>
  The simulated hardware of \<^verbatim>\<open>machine/machine.cc\<close> and
  \<^verbatim>\<open>machine/translate.cc\<close>: registers, main memory, and the translation of
  virtual addresses through a page table or a TLB. Translation tables are C arrays that the
  machine and the address spaces of the kernel share through pointers, so they live in a
  store \<open>te_heap\<close> indexed by their address; a deleted table is absent from it. A trap to
  the kernel is a value: the exception and the bad virtual address, after which the simulator
  returns to its main loop.
\<close>

unbundle bit_operations_syntax

section \<open>Constants and data of machine.h and translate.h\<close>

definition SectorSize :: nat where "SectorSize = 128"
definition PageSize :: nat where "PageSize = SectorSize"
definition NumPhysPages :: nat where "NumPhysPages = 32"
definition MemorySize :: nat where "MemorySize = NumPhysPages * PageSize"
definition TLBSize :: nat where "TLBSize = 4"

definition StackReg :: nat where "StackReg = 29"
definition RetAddrReg :: nat where "RetAddrReg = 31"
definition NumGPRegs :: nat where "NumGPRegs = 32"
definition HiReg :: nat where "HiReg = 32"
definition LoReg :: nat where "LoReg = 33"
definition PCReg :: nat where "PCReg = 34"
definition NextPCReg :: nat where "NextPCReg = 35"
definition PrevPCReg :: nat where "PrevPCReg = 36"
definition LoadReg :: nat where "LoadReg = 37"
definition LoadValueReg :: nat where "LoadValueReg = 38"
definition BadVAddrReg :: nat where "BadVAddrReg = 39"
definition NumTotalRegs :: nat where "NumTotalRegs = 40"

lemmas size_defs = SectorSize_def PageSize_def NumPhysPages_def MemorySize_def TLBSize_def
lemmas reg_defs = StackReg_def RetAddrReg_def NumGPRegs_def HiReg_def LoReg_def PCReg_def NextPCReg_def
  PrevPCReg_def LoadReg_def LoadValueReg_def BadVAddrReg_def NumTotalRegs_def

datatype ExceptionType = NoException | SyscallException | PageFaultException | ReadOnlyException
  | BusErrorException | AddressErrorException | OverflowException | IllegalInstrException

record TranslationEntry =
  virtualPage :: "32 word"
  physicalPage :: "32 word"
  valid :: bool
  readOnly :: bool
  use_bit :: bool
  dirty :: bool

text \<open>\<open>hostBigEndian\<close> is the compile-time \<^verbatim>\<open>HOST_IS_BIG_ENDIAN\<close>.\<close>

record Machine =
  registers :: "nat \<Rightarrow> 32 word"
  mainMemory :: "nat \<Rightarrow> byte"
  te_heap :: "nat \<Rightarrow> TranslationEntry list option"
  tlb :: "nat option"
  pageTable :: "nat option"
  pageTableSize :: "32 word"
  hostBigEndian :: bool

type_synonym trap = "ExceptionType \<times> 32 word"

section \<open>Byte order\<close>

definition swap_word :: "32 word \<Rightarrow> 32 word" where
  "swap_word w = (drop_bit 24 w AND 0x000000ff) OR (drop_bit 8 w AND 0x0000ff00)
     OR (push_bit 8 w AND 0x00ff0000) OR (push_bit 24 w AND 0xff000000)"

definition WordToHost :: "bool \<Rightarrow> 32 word \<Rightarrow> 32 word" where
  "WordToHost big w = (if big then swap_word w else w)"

definition swap_short :: "16 word \<Rightarrow> 16 word" where
  "swap_short w = (push_bit 8 w AND 0xff00) OR (drop_bit 8 w AND 0x00ff)"

definition ShortToHost :: "bool \<Rightarrow> 16 word \<Rightarrow> 16 word" where
  "ShortToHost big w = (if big then swap_short w else w)"

definition WordToMachine :: "bool \<Rightarrow> 32 word \<Rightarrow> 32 word" where
  "WordToMachine big w = WordToHost big w"

definition ShortToMachine :: "bool \<Rightarrow> 16 word \<Rightarrow> 16 word" where
  "ShortToMachine big w = ShortToHost big w"

text \<open>
  How the host reads and writes \<^verbatim>\<open>*(unsigned int *) &mainMemory[p]\<close> and
  \<^verbatim>\<open>*(unsigned short *) &mainMemory[p]\<close>.
\<close>

definition join4 :: "byte \<Rightarrow> byte \<Rightarrow> byte \<Rightarrow> byte \<Rightarrow> 32 word" where
  "join4 b0 b1 b2 b3 = ucast b0 OR push_bit 8 (ucast b1) OR push_bit 16 (ucast b2) OR push_bit 24 (ucast b3)"

definition join2 :: "byte \<Rightarrow> byte \<Rightarrow> 16 word" where
  "join2 b0 b1 = ucast b0 OR push_bit 8 (ucast b1)"

definition byte_of :: "'a::len word \<Rightarrow> nat \<Rightarrow> byte" where
  "byte_of w k = ucast (drop_bit (8 * k) w)"

definition host_read4 :: "bool \<Rightarrow> (nat \<Rightarrow> byte) \<Rightarrow> nat \<Rightarrow> 32 word" where
  "host_read4 big m p = (if big then join4 (m (p + 3)) (m (p + 2)) (m (p + 1)) (m p)
     else join4 (m p) (m (p + 1)) (m (p + 2)) (m (p + 3)))"

definition host_write4 :: "bool \<Rightarrow> (nat \<Rightarrow> byte) \<Rightarrow> nat \<Rightarrow> 32 word \<Rightarrow> nat \<Rightarrow> byte" where
  "host_write4 big m p w = (if big
     then m(p := byte_of w 3, p + 1 := byte_of w 2, p + 2 := byte_of w 1, p + 3 := byte_of w 0)
     else m(p := byte_of w 0, p + 1 := byte_of w 1, p + 2 := byte_of w 2, p + 3 := byte_of w 3))"

definition host_read2 :: "bool \<Rightarrow> (nat \<Rightarrow> byte) \<Rightarrow> nat \<Rightarrow> 16 word" where
  "host_read2 big m p = (if big then join2 (m (p + 1)) (m p) else join2 (m p) (m (p + 1)))"

definition host_write2 :: "bool \<Rightarrow> (nat \<Rightarrow> byte) \<Rightarrow> nat \<Rightarrow> 16 word \<Rightarrow> nat \<Rightarrow> byte" where
  "host_write2 big m p w = (if big then m(p := byte_of w 1, p + 1 := byte_of w 0)
     else m(p := byte_of w 0, p + 1 := byte_of w 1))"

text \<open>\<^verbatim>\<open>CheckEndian\<close>: the bytes 1, 2, 3, 4 read as a word on this host.\<close>

definition CheckEndian :: "bool \<Rightarrow> unit res" where
  "CheckEndian big =
     (let intword = host_read4 big ((\<lambda>_. 0)(0 := 1, 1 := 2, 2 := 3, 3 := 4)) 0
      in assertE (if big then intword = 0x01020304 else intword = 0x04030201))"

section \<open>Construction and register access\<close>

text \<open>
  The constructor without \<^verbatim>\<open>USE_TLB\<close> (\<open>use_tlb = False\<close>) and with it, when it
  allocates a TLB of invalid entries; their other fields are uninitialised.
\<close>

definition Machine_new :: "bool \<Rightarrow> bool \<Rightarrow> (nat \<Rightarrow> TranslationEntry) \<Rightarrow> Machine res" where
  "Machine_new big use_tlb garbage =
     bindE (CheckEndian big) (\<lambda>_.
     Inr \<lparr>registers = (\<lambda>_. 0), mainMemory = (\<lambda>_. 0),
          te_heap = (if use_tlb then [0 \<mapsto> map (\<lambda>i. (garbage i)\<lparr>valid := False\<rparr>) [0..<TLBSize]] else Map.empty),
          tlb = (if use_tlb then Some 0 else None), pageTable = None, pageTableSize = 0,
          hostBigEndian = big\<rparr>)"

definition ReadRegister :: "int \<Rightarrow> Machine \<Rightarrow> (32 word) res" where
  "ReadRegister num m = bindE (assertE (num \<ge> 0 \<and> num < int NumTotalRegs)) (\<lambda>_. Inr (registers m (nat num)))"

definition WriteRegister :: "int \<Rightarrow> 32 word \<Rightarrow> Machine \<Rightarrow> Machine res" where
  "WriteRegister num v m = bindE (assertE (num \<ge> 0 \<and> num < int NumTotalRegs)) (\<lambda>_.
     Inr (m\<lparr>registers := (registers m)(nat num := v)\<rparr>))"

text \<open>
  \<^verbatim>\<open>DelayedLoad\<close> uses the contents of \<open>LoadReg\<close> as an array index; an index
  outside the register file is a failure.
\<close>

definition DelayedLoad :: "32 word \<Rightarrow> 32 word \<Rightarrow> Machine \<Rightarrow> Machine res" where
  "DelayedLoad nextReg nextValue m =
     (let r = unat (registers m LoadReg) in
      if r < NumTotalRegs then
        let regs = (registers m)(r := registers m LoadValueReg);
            regs = regs(LoadReg := nextReg);
            regs = regs(LoadValueReg := nextValue);
            regs = regs(0 := 0)
        in Inr (m\<lparr>registers := regs\<rparr>)
      else Inl OutOfBounds)"

text \<open>The machine's part of \<^verbatim>\<open>RaiseException\<close>, before the kernel's handler runs.\<close>

definition RaiseException :: "trap \<Rightarrow> Machine \<Rightarrow> Machine res" where
  "RaiseException t m =
     DelayedLoad 0 0 (m\<lparr>registers := (registers m)(BadVAddrReg := snd t)\<rparr>)"

section \<open>Address translation\<close>

definition read_table :: "Machine \<Rightarrow> nat \<Rightarrow> (TranslationEntry list) res" where
  "read_table m a = (case te_heap m a of None \<Rightarrow> Inl DanglingPointer | Some t \<Rightarrow> Inr t)"

text \<open>The entry that translates \<open>vpn\<close>: table address and index, or the exception.\<close>

fun tlb_search :: "TranslationEntry list \<Rightarrow> 32 word \<Rightarrow> nat list \<Rightarrow> (nat option) res" where
  "tlb_search t vpn [] = Inr None"
| "tlb_search t vpn (i # is) =
     bindE (arr_get t i) (\<lambda>e. if valid e \<and> virtualPage e = vpn then Inr (Some i) else tlb_search t vpn is)"

definition find_entry :: "32 word \<Rightarrow> Machine \<Rightarrow> (ExceptionType + (nat \<times> nat)) res" where
  "find_entry vpn m =
     (case (tlb m, pageTable m) of
        (None, Some pt) \<Rightarrow>
          if vpn \<ge> pageTableSize m then Inr (Inl AddressErrorException)
          else bindE (read_table m pt) (\<lambda>t. bindE (arr_get t (unat vpn)) (\<lambda>e.
            if \<not> valid e then Inr (Inl PageFaultException) else Inr (Inr (pt, unat vpn))))
      | (Some tb, None) \<Rightarrow>
          bindE (read_table m tb) (\<lambda>t. bindE (tlb_search t vpn [0..<TLBSize]) (\<lambda>r.
            case r of None \<Rightarrow> Inr (Inl PageFaultException) | Some i \<Rightarrow> Inr (Inr (tb, i))))
      | _ \<Rightarrow> Inl AssertFail)"

definition misaligned :: "nat \<Rightarrow> 32 word \<Rightarrow> bool" where
  "misaligned sz a \<longleftrightarrow> (sz = 4 \<and> a AND 3 \<noteq> 0) \<or> (sz = 2 \<and> a AND 1 \<noteq> 0)"

definition Machine_Translate :: "32 word \<Rightarrow> nat \<Rightarrow> bool \<Rightarrow> Machine \<Rightarrow> ((ExceptionType + nat) \<times> Machine) res" where
  "Machine_Translate virtAddr sz writing m =
     (if misaligned sz virtAddr then Inr (Inl AddressErrorException, m)
      else
        let vpn = virtAddr div of_nat PageSize; offset = virtAddr mod of_nat PageSize in
        bindE (find_entry vpn m) (\<lambda>r. case r of
          Inl e \<Rightarrow> Inr (Inl e, m)
        | Inr (a, i) \<Rightarrow>
            bindE (read_table m a) (\<lambda>t. bindE (arr_get t i) (\<lambda>entry.
            if readOnly entry \<and> writing then Inr (Inl ReadOnlyException, m)
            else let pageFrame = physicalPage entry in
              if pageFrame \<ge> of_nat NumPhysPages then Inr (Inl BusErrorException, m)
              else
                let entry' = entry\<lparr>use_bit := True, dirty := (if writing then True else dirty entry)\<rparr>;
                    m' = m\<lparr>te_heap := (te_heap m)(a \<mapsto> t[i := entry'])\<rparr>;
                    physAddr = unat (pageFrame * of_nat PageSize + offset)
                in bindE (assertE (physAddr + sz \<le> MemorySize)) (\<lambda>_. Inr (Inr physAddr, m'))))))"

section \<open>Reading and writing memory\<close>

text \<open>A \<^verbatim>\<open>char\<close> read is sign-extended when it is assigned to an \<^verbatim>\<open>int\<close>.\<close>

definition ReadMem :: "32 word \<Rightarrow> nat \<Rightarrow> Machine \<Rightarrow> ((trap + 32 word) \<times> Machine) res" where
  "ReadMem addr sz m =
     bindE (Machine_Translate addr sz False m) (\<lambda>(r, m'). case r of
       Inl e \<Rightarrow> Inr (Inl (e, addr), m')
     | Inr p \<Rightarrow>
         if sz = 1 then Inr (Inr (scast (mainMemory m' p)), m')
         else if sz = 2 then
           Inr (Inr (ucast (ShortToHost (hostBigEndian m') (host_read2 (hostBigEndian m') (mainMemory m') p))), m')
         else if sz = 4 then
           Inr (Inr (WordToHost (hostBigEndian m') (host_read4 (hostBigEndian m') (mainMemory m') p)), m')
         else Inl AssertFail)"

definition WriteMem :: "32 word \<Rightarrow> nat \<Rightarrow> 32 word \<Rightarrow> Machine \<Rightarrow> ((trap + unit) \<times> Machine) res" where
  "WriteMem addr sz v m =
     bindE (Machine_Translate addr sz True m) (\<lambda>(r, m'). case r of
       Inl e \<Rightarrow> Inr (Inl (e, addr), m')
     | Inr p \<Rightarrow>
         if sz = 1 then Inr (Inr (), m'\<lparr>mainMemory := (mainMemory m')(p := ucast (v AND 0xff))\<rparr>)
         else if sz = 2 then Inr (Inr (), m'\<lparr>mainMemory :=
           host_write2 (hostBigEndian m') (mainMemory m') p (ShortToMachine (hostBigEndian m') (ucast (v AND 0xffff)))\<rparr>)
         else if sz = 4 then Inr (Inr (), m'\<lparr>mainMemory :=
           host_write4 (hostBigEndian m') (mainMemory m') p (WordToMachine (hostBigEndian m') v)\<rparr>)
         else Inl AssertFail)"

section \<open>Bytes and words\<close>

lemma byte_bit_bound: "bit (b :: byte) k \<Longrightarrow> k < 8"
  by (auto dest: bit_imp_le_length)

lemma byte_index_cases:
  assumes "n < (32::nat)"
  obtains k where "k < 8" "n = k" | k where "k < 8" "n = k + 8" | k where "k < 8" "n = k + 16" | k where "k < 8" "n = k + 24"
proof -
  consider "n < 8" | "8 \<le> n" "n < 16" | "16 \<le> n" "n < 24" | "24 \<le> n" using assms by linarith
  then show thesis
    using that(1) [of n] that(2) [of "n - 8"] that(3) [of "n - 16"] that(4) [of "n - 24"] assms by cases simp_all
qed

lemma bit_join4: "bit (join4 a b c d) n \<longleftrightarrow>
    (if n < 8 then bit a n else if n < 16 then bit b (n - 8) else if n < 24 then bit c (n - 16) else bit d (n - 24))"
  using byte_bit_bound [of a n] byte_bit_bound [of b "n - 8"] byte_bit_bound [of c "n - 16"] byte_bit_bound [of d "n - 24"]
  unfolding join4_def by (simp add: bit_simps) linarith

lemma bit_join2: "bit (join2 a b) n \<longleftrightarrow> (if n < 8 then bit a n else bit b (n - 8))"
  using byte_bit_bound [of a n] byte_bit_bound [of b "n - 8"] 
  unfolding join2_def by (simp add: bit_simps) linarith

lemma swap_word_masks: "(0x000000ff :: 32 word) = mask 8" "(0x0000ff00 :: 32 word) = push_bit 8 (mask 8)"
    "(0x00ff0000 :: 32 word) = push_bit 16 (mask 8)" "(0xff000000 :: 32 word) = push_bit 24 (mask 8)"
    by (simp_all add: mask_eq_exp_minus_1 push_bit_eq_mult)

lemma swap_word_join4: "swap_word (join4 a b c d) = join4 d c b a"
proof (rule bit_word_eqI)
  fix n assume "n < LENGTH(32)"
  then have "n < 32" by simp
  then show "bit (swap_word (join4 a b c d)) n = bit (join4 d c b a) n"
    unfolding swap_word_def swap_word_masks
    by (cases n rule: byte_index_cases) (simp_all add: bit_simps bit_join4 byte_bit_bound)
qed

lemma swap_short_join2: "swap_short (join2 a b) = join2 b a"
proof -
  have m: "(0x00ff :: 16 word) = mask 8" "(0xff00 :: 16 word) = push_bit 8 (mask 8)"
    by (simp_all add: mask_eq_exp_minus_1 push_bit_eq_mult)
  show ?thesis unfolding swap_short_def m join2_def
    by (rule bit_word_eqI) (auto simp: bit_simps dest: bit_imp_le_length)
qed

lemma join4_byte_of: "join4 (byte_of w 0) (byte_of w 1) (byte_of w 2) (byte_of w 3) = w"
proof (rule bit_word_eqI)
  fix n assume "n < LENGTH(32)"
  then have "n < 32" by simp
  then show "bit (join4 (byte_of w 0) (byte_of w 1) (byte_of w 2) (byte_of w 3)) n = bit w n"
    by (cases n rule: byte_index_cases) (simp_all add: bit_join4 byte_of_def bit_simps add.commute)
qed

lemma join2_byte_of: "join2 (byte_of w 0) (byte_of w 1) = w"
proof (rule bit_word_eqI)
  fix n assume "n < LENGTH(16)"
  then show "bit (join2 (byte_of w 0) (byte_of w 1)) n = bit w n"
    by (cases "n < 8") (simp_all add: bit_join2 byte_of_def bit_simps less_diff_conv2)
qed

lemma byte_of_join4: "byte_of (join4 a b c d) 0 = a" "byte_of (join4 a b c d) 1 = b"
   "byte_of (join4 a b c d) 2 = c" "byte_of (join4 a b c d) 3 = d"
  by (rule bit_word_eqI, simp add: byte_of_def bit_simps bit_join4)+

lemma byte_of_join2: "byte_of (join2 a b) 0 = a" "byte_of (join2 a b) 1 = b"
  by (rule bit_word_eqI, simp add: byte_of_def bit_simps bit_join2)+

section \<open>Byte order: what the guest sees does not depend on the host\<close>

text \<open>
  Guest memory is little endian. The conversions undo the host's byte order, so a word read
  by the guest is the same combination of bytes on every host.
\<close>

lemma WordToHost_read4 [simp]:
  "WordToHost big (host_read4 big mm p) = join4 (mm p) (mm (p + 1)) (mm (p + 2)) (mm (p + 3))"
  by (simp add: WordToHost_def host_read4_def swap_word_join4)

lemma ShortToHost_read2 [simp]:
  "ShortToHost big (host_read2 big mm p) = join2 (mm p) (mm (p + 1))"
  by (simp add: ShortToHost_def host_read2_def swap_short_join2)

lemma byte_of_swap_word:
  "byte_of (swap_word w) 0 = byte_of w 3" "byte_of (swap_word w) 1 = byte_of w 2"
  "byte_of (swap_word w) 2 = byte_of w 1" "byte_of (swap_word w) 3 = byte_of w 0"
  using swap_word_join4 [of "byte_of w 0" "byte_of w 1" "byte_of w 2" "byte_of w 3"]
  by (simp_all only: join4_byte_of byte_of_join4)

lemma byte_of_swap_short:
  "byte_of (swap_short w) 0 = byte_of w 1" "byte_of (swap_short w) 1 = byte_of w 0"
  using swap_short_join2 [of "byte_of w 0" "byte_of w 1"]
  by (simp_all only: join2_byte_of byte_of_join2)

lemma write4_WordToMachine [simp]:
  "host_write4 big mm p (WordToMachine big w) =
     mm(p := byte_of w 0, p + 1 := byte_of w 1, p + 2 := byte_of w 2, p + 3 := byte_of w 3)"
  by (simp only: host_write4_def WordToMachine_def WordToHost_def byte_of_swap_word if_cancel split: if_splits) simp

lemma write2_ShortToMachine [simp]:
  "host_write2 big mm p (ShortToMachine big w) = mm(p := byte_of w 0, p + 1 := byte_of w 1)"
  by (simp only: host_write2_def ShortToMachine_def ShortToHost_def byte_of_swap_short split: if_splits) simp

lemma WordToMachine_WordToHost: "WordToHost big (WordToMachine big w) = w"
proof -
  have "swap_word (swap_word (join4 a b c d)) = join4 a b c d" for a b c d
    by (simp add: swap_word_join4)
  from this [of "byte_of w 0" "byte_of w 1" "byte_of w 2" "byte_of w 3"]
  show ?thesis by (simp add: WordToHost_def WordToMachine_def join4_byte_of del: One_nat_def)
qed

lemma CheckEndian_ok [simp]: "CheckEndian big = Inr ()"
  by (cases big) (simp_all add: CheckEndian_def host_read4_def join4_def assertE_def push_bit_eq_mult)

section \<open>Well-formed translation state\<close>

text \<open>
  The machine has a TLB or a page table but not both, and the array it points to exists and
  has the length the hardware reads.
\<close>

definition tables_ok :: "Machine \<Rightarrow> bool" where
  "tables_ok m = (case (tlb m, pageTable m) of
      (None, Some pt) \<Rightarrow> (case te_heap m pt of Some t \<Rightarrow> length t = unat (pageTableSize m) | None \<Rightarrow> False)
    | (Some tb, None) \<Rightarrow> (case te_heap m tb of Some t \<Rightarrow> length t = TLBSize | None \<Rightarrow> False)
    | _ \<Rightarrow> False)"

text \<open>The part of an entry that decides a translation, without the use and dirty bits.\<close>

definition te_core :: "TranslationEntry \<Rightarrow> 32 word \<times> 32 word \<times> bool \<times> bool" where
  "te_core e = (virtualPage e, physicalPage e, valid e, readOnly e)"

definition same_map :: "Machine \<Rightarrow> Machine \<Rightarrow> bool" where
  "same_map m m' \<longleftrightarrow> tlb m' = tlb m \<and> pageTable m' = pageTable m \<and> pageTableSize m' = pageTableSize m
     \<and> (\<forall>a. map_option (map te_core) (te_heap m' a) = map_option (map te_core) (te_heap m a))"

lemma same_map_refl [simp]: "same_map m m"
  by (simp add: same_map_def)

lemma same_map_trans: "same_map m m' \<Longrightarrow> same_map m' m'' \<Longrightarrow> same_map m m''"
  by (simp add: same_map_def)

lemma same_map_sym: "same_map m m' \<Longrightarrow> same_map m' m"
  by (simp add: same_map_def)

lemma map_te_core_nth:
  assumes "map te_core t' = map te_core t" "i < length t"
  shows "i < length t'" "virtualPage (t' ! i) = virtualPage (t ! i)" "physicalPage (t' ! i) = physicalPage (t ! i)"
    "valid (t' ! i) = valid (t ! i)" "readOnly (t' ! i) = readOnly (t ! i)"
proof -
  show l: "i < length t'" using assms by (metis length_map)
  have "te_core (t' ! i) = te_core (t ! i)"
    using assms l by (metis nth_map)
  then show "virtualPage (t' ! i) = virtualPage (t ! i)" "physicalPage (t' ! i) = physicalPage (t ! i)"
    "valid (t' ! i) = valid (t ! i)" "readOnly (t' ! i) = readOnly (t ! i)"
    by (simp_all add: te_core_def)
qed

lemma map_te_core_length: "map te_core t' = map te_core t \<Longrightarrow> length t' = length t"
  by (metis length_map)

lemma same_map_heap:
  assumes "same_map m m'" "te_heap m a = Some t"
  obtains t' where "te_heap m' a = Some t'" "map te_core t' = map te_core t"
proof -
  have "map_option (map te_core) (te_heap m' a) = Some (map te_core t)"
    using assms by (simp add: same_map_def)
  then show thesis using that by auto
qed

lemma same_map_tables_ok: "same_map m m' \<Longrightarrow> tables_ok m \<Longrightarrow> tables_ok m'"
  by (auto simp: tables_ok_def same_map_def split: option.splits)
     (metis map_te_core_length option.map_sel option.sel option.simps(3) option.simps(8) option.simps(9))+

lemma same_map_set_bits:
  assumes "te_heap m a = Some t" "i < length t" "te_core e = te_core (t ! i)"
  shows "same_map m (m\<lparr>te_heap := (te_heap m)(a \<mapsto> t[i := e])\<rparr>)"
  using assms by (auto simp: same_map_def map_update list_update_same_conv)

lemma tlb_search_core:
  "map te_core t' = map te_core t \<Longrightarrow> tlb_search t' vpn is = tlb_search t vpn is"
proof (induction "is")
  case (Cons i "is")
  then show ?case
    using map_te_core_nth [OF Cons.prems, of i] map_te_core_length [OF Cons.prems]
    by (cases "i < length t") (auto simp: arr_get_def)
qed simp

lemma tlb_search_result:
  "tlb_search t vpn is = Inr (Some i) \<Longrightarrow> i < length t \<and> valid (t ! i) \<and> virtualPage (t ! i) = vpn"
  by (induction "is") (auto simp: res_simps split: if_splits)

lemma tlb_search_total: "set is \<subseteq> {..<length t} \<Longrightarrow> \<exists>r. tlb_search t vpn is = Inr r"
  by (induction "is") auto

lemma find_entry_total:
  assumes "tables_ok m"
  obtains e where "find_entry vpn m = Inr (Inl e)"
  | a i t where "find_entry vpn m = Inr (Inr (a, i))" "te_heap m a = Some t" "i < length t" "valid (t ! i)"
proof (cases "tlb m")
  case None
  with assms obtain pt t where t: "pageTable m = Some pt" "te_heap m pt = Some t" "length t = unat (pageTableSize m)"
    by (auto simp: tables_ok_def split: option.splits)
  have "find_entry vpn m = (if vpn \<ge> pageTableSize m then Inr (Inl AddressErrorException)
      else if \<not> valid (t ! unat vpn) then Inr (Inl PageFaultException) else Inr (Inr (pt, unat vpn)))"
    using None t by (simp add: find_entry_def read_table_def word_le_nat_alt)
  then show thesis
    using that(1) that(2) [of pt "unat vpn" t] t by (metis not_le word_less_nat_alt)
next
  case (Some tb)
  with assms obtain t where t: "pageTable m = None" "te_heap m tb = Some t" "length t = TLBSize"
    by (auto simp: tables_ok_def split: option.splits)
  obtain r where r: "tlb_search t vpn [0..<TLBSize] = Inr r"
    using tlb_search_total [of "[0..<TLBSize]" t] t by (auto simp: atLeast0LessThan)
  show thesis
    using that(1) that(2) [of tb "the r" t] Some t r tlb_search_result [of t vpn "[0..<TLBSize]" "the r"]
    by (cases r) (auto simp: find_entry_def read_table_def)
qed

lemma find_entry_same_map:
  assumes "same_map m m'" "tables_ok m"
  shows "find_entry vpn m' = find_entry vpn m"
proof (cases "tlb m")
  case None
  with assms obtain pt t where t: "pageTable m = Some pt" "te_heap m pt = Some t" "length t = unat (pageTableSize m)"
    by (auto simp: tables_ok_def split: option.splits)
  obtain t' where t': "te_heap m' pt = Some t'" "map te_core t' = map te_core t"
    using same_map_heap [OF assms(1) t(2)] .
  have p: "tlb m' = None" "pageTable m' = Some pt" "pageTableSize m' = pageTableSize m"
    using assms(1) None t by (auto simp: same_map_def)
  show ?thesis
    using None t t' p map_te_core_nth [OF t'(2), of "unat vpn"] map_te_core_length [OF t'(2)]
    by (cases "vpn \<ge> pageTableSize m") (auto simp: find_entry_def read_table_def not_le word_less_nat_alt)
next
  case (Some tb)
  with assms obtain t where t: "pageTable m = None" "te_heap m tb = Some t"
    by (auto simp: tables_ok_def split: option.splits)
  obtain t' where t': "te_heap m' tb = Some t'" "map te_core t' = map te_core t"
    using same_map_heap [OF assms(1) t(2)] .
  have "tlb m' = Some tb" "pageTable m' = None"
    using assms(1) Some t by (auto simp: same_map_def)
  then show ?thesis
    using Some t t' tlb_search_core [OF t'(2)] by (simp add: find_entry_def read_table_def)
qed

section \<open>Translation\<close>

lemma low_bits_mod: "w AND 3 = w mod 4" "w AND 1 = w mod 2" for w :: "32 word"
proof -
  show "w AND 3 = w mod 4" using take_bit_eq_mask [of 2 w] by (simp add: take_bit_eq_mod mask_eq_exp_minus_1)
  show "w AND 1 = w mod 2" using take_bit_eq_mask [of 1 w] by (simp add: take_bit_eq_mod mask_eq_exp_minus_1)
qed

lemma page_offset_aligned:
  assumes "sz \<in> {1, 2, 4}" "\<not> misaligned sz va"
  shows "unat (va mod of_nat PageSize) + sz \<le> PageSize"
proof -
  have sz: "sz dvd 128" using assms(1) by auto
  have "unat va mod sz = 0"
    using assms by (auto simp: misaligned_def low_bits_mod unat_mod_distrib unat_eq_0 simp flip: unat_0_iff)
  then have "sz dvd unat va mod 128" using sz by (simp add: dvd_eq_mod_eq_0 mod_mod_cancel)
  then obtain k where k: "unat va mod 128 = sz * k" by auto
  obtain j where j: "128 = sz * j" using sz by (rule dvdE)
  have "unat va mod 128 < 128" by simp
  then have "k < j" using k j by (metis mult_less_cancel1)
  then have "sz * (k + 1) \<le> sz * j" by (intro mult_le_mono2) simp
  then show ?thesis using k j by (simp add: size_defs unat_mod_distrib)
qed

lemma frame_address:
  fixes pf :: "32 word"
  assumes "pf < of_nat NumPhysPages"
  shows "unat (pf * of_nat PageSize + va mod of_nat PageSize) = unat pf * PageSize + unat (va mod of_nat PageSize)"
proof -
  have pf: "unat pf < 32" using assms by (simp add: word_less_nat_alt size_defs)
  have o: "unat (va mod 128 :: 32 word) < 128" by (simp add: unat_mod_distrib)
  have m: "unat (pf * 128) = unat pf * 128"
    using pf by (subst unat_mult_lem [THEN iffD1]) simp_all
  show ?thesis
    using pf o m by (simp add: size_defs unat_add_lem [THEN iffD1])
qed

text \<open>
  Everything a translation can do: it never fails an assertion, a refused access leaves the
  machine alone, and a granted one yields an address inside the frame of the entry that maps
  the page, with room for the whole access, and only sets use and dirty bits.
\<close>

definition granted :: "32 word \<Rightarrow> nat \<Rightarrow> bool \<Rightarrow> Machine \<Rightarrow> nat \<Rightarrow> nat \<Rightarrow> nat \<Rightarrow> bool" where
  "granted va sz writing m a i p \<longleftrightarrow> find_entry (va div of_nat PageSize) m = Inr (Inr (a, i)) \<and> \<not> misaligned sz va \<and>
     (case te_heap m a of None \<Rightarrow> False | Some t \<Rightarrow> i < length t \<and> valid (t ! i) \<and> \<not> (readOnly (t ! i) \<and> writing)
        \<and> physicalPage (t ! i) < of_nat NumPhysPages
        \<and> p = unat (physicalPage (t ! i)) * PageSize + unat (va mod of_nat PageSize))"

lemma Machine_Translate_cases:
  assumes ok: "tables_ok m" and sz: "sz \<in> {1, 2, 4}"
  obtains e where "Machine_Translate va sz writing m = Inr (Inl e, m)"
  | p a i m' where "Machine_Translate va sz writing m = Inr (Inr p, m')" "granted va sz writing m a i p"
      "p + sz \<le> MemorySize" "same_map m m'" "\<exists>h. m' = m\<lparr>te_heap := h\<rparr>"
proof (cases "misaligned sz va")
  case True
  then show thesis using that(1) by (simp add: Machine_Translate_def)
next
  case al: False
  show thesis
  proof (rule find_entry_total [OF ok, of "va div of_nat PageSize"])
    fix e assume "find_entry (va div of_nat PageSize) m = Inr (Inl e)"
    then show thesis using that(1) al by (simp add: Machine_Translate_def)
  next
    fix a i t assume fe: "find_entry (va div of_nat PageSize) m = Inr (Inr (a, i))"
      and t: "te_heap m a = Some t" "i < length t" "valid (t ! i)"
    let ?e = "t ! i"
    let ?e' = "?e\<lparr>use_bit := True, dirty := (if writing then True else dirty ?e)\<rparr>"
    let ?m' = "m\<lparr>te_heap := (te_heap m)(a \<mapsto> t[i := ?e'])\<rparr>"
    show thesis
    proof (cases "(readOnly ?e \<and> writing) \<or> physicalPage ?e \<ge> of_nat NumPhysPages")
      case True
      then have "Machine_Translate va sz writing m =
          Inr (Inl (if readOnly ?e \<and> writing then ReadOnlyException else BusErrorException), m)"
        using al fe t by (auto simp: Machine_Translate_def read_table_def Let_def)
      then show thesis by (rule that(1))
    next
      case False
      let ?p = "unat (physicalPage ?e) * PageSize + unat (va mod of_nat PageSize)"
      have pf: "physicalPage ?e < of_nat NumPhysPages" using False by (simp add: not_le)
      then have "unat (physicalPage ?e) < 32" by (simp add: word_less_nat_alt size_defs)
      then have fits: "?p + sz \<le> MemorySize"
        using page_offset_aligned [OF sz al] by (simp add: size_defs)
      have "same_map m ?m'" using t by (intro same_map_set_bits) (simp_all add: te_core_def)
      moreover have "Machine_Translate va sz writing m = Inr (Inr ?p, ?m')"
        using al fe t False fits
        by (simp add: Machine_Translate_def read_table_def Let_def frame_address [OF pf])
      ultimately show thesis
        using that(2) [of ?p ?m' a i] fits fe al t pf False by (auto simp: granted_def)
    qed
  qed
qed

lemma Machine_Translate_granted:
  assumes "tables_ok m" "sz \<in> {1, 2, 4}" "granted va sz writing m a i p"
  obtains m' where "Machine_Translate va sz writing m = Inr (Inr p, m')" "p + sz \<le> MemorySize"
    "same_map m m'" "\<exists>h. m' = m\<lparr>te_heap := h\<rparr>"
proof (rule Machine_Translate_cases [OF assms(1,2), of va writing])
  fix e assume "Machine_Translate va sz writing m = Inr (Inl e, m)"
  with assms(3) show thesis
    by (auto simp: granted_def Machine_Translate_def read_table_def Let_def res_simps split: option.splits if_splits)
next
  fix p' a' i' m' assume *: "Machine_Translate va sz writing m = Inr (Inr p', m')" "granted va sz writing m a' i' p'"
    "p' + sz \<le> MemorySize" "same_map m m'" "\<exists>h. m' = m\<lparr>te_heap := h\<rparr>"
  have "p' = p" using *(2) assms(3) by (auto simp: granted_def split: option.splits)
  with * show thesis using that by blast
qed

lemma granted_same_map:
  assumes "same_map m m'" "tables_ok m" "granted va sz writing m a i p"
  shows "granted va sz writing m' a i p"
proof -
  obtain t where t: "te_heap m a = Some t" "i < length t"
    using assms(3) by (auto simp: granted_def split: option.splits)
  obtain t' where t': "te_heap m' a = Some t'" "map te_core t' = map te_core t"
    using same_map_heap [OF assms(1) t(1)] .
  show ?thesis
    using assms(3) t t' map_te_core_nth [OF t'(2) t(2)] find_entry_same_map [OF assms(1,2)]
    by (simp add: granted_def)
qed

lemma granted_write_read: "granted va sz True m a i p \<Longrightarrow> granted va sz False m a i p"
  by (auto simp: granted_def split: option.splits)

lemma same_map_memory [simp]: "same_map m (m'\<lparr>mainMemory := mm\<rparr>) = same_map m m'"
  by (simp add: same_map_def)

section \<open>Memory access\<close>

text \<open>What a read of \<open>sz\<close> bytes at \<open>p\<close> gives, and the bytes a write leaves.\<close>

definition load_bytes :: "(nat \<Rightarrow> byte) \<Rightarrow> nat \<Rightarrow> nat \<Rightarrow> 32 word" where
  "load_bytes mm p sz = (if sz = 1 then scast (mm p) else if sz = 2 then ucast (join2 (mm p) (mm (p + 1)))
     else join4 (mm p) (mm (p + 1)) (mm (p + 2)) (mm (p + 3)))"

definition store_bytes :: "(nat \<Rightarrow> byte) \<Rightarrow> nat \<Rightarrow> nat \<Rightarrow> 32 word \<Rightarrow> nat \<Rightarrow> byte" where
  "store_bytes mm p sz v = (\<lambda>q. if p \<le> q \<and> q < p + sz then byte_of v (q - p) else mm q)"

lemma byte_of_ucast: "k < 2 \<Longrightarrow> byte_of (ucast (v :: 32 word) :: 16 word) k = byte_of v k"
  by (rule bit_word_eqI) (auto simp: byte_of_def bit_simps)

lemma ucast_and_mask: "(ucast (v AND 0xff) :: byte) = ucast (v :: 32 word)"
  "(ucast (v AND 0xffff) :: 16 word) = ucast (v :: 32 word)"
proof -
  have m: "(0xff :: 32 word) = mask 8" "(0xffff :: 32 word) = mask 16"
    by (simp_all add: mask_eq_exp_minus_1)
  show "(ucast (v AND 0xff) :: byte) = ucast v" "(ucast (v AND 0xffff) :: 16 word) = ucast v"
    unfolding m by (auto intro!: bit_word_eqI simp: bit_simps)
qed

lemma store_bytes_word: "store_bytes mm p 4 v = mm(p := byte_of v 0, p + 1 := byte_of v 1, p + 2 := byte_of v 2, p + 3 := byte_of v 3)"
proof
  fix q
  consider "q < p" | "q = p" | "q = p + 1" | "q = p + 2" | "q = p + 3" | "q \<ge> p + 4" by linarith
  then show "store_bytes mm p 4 v q = (mm(p := byte_of v 0, p + 1 := byte_of v 1, p + 2 := byte_of v 2, p + 3 := byte_of v 3)) q"
    by cases (simp_all add: store_bytes_def)
qed

lemma store_bytes_short: "store_bytes mm p 2 v = mm(p := byte_of v 0, p + 1 := byte_of v 1)"
  by (rule ext) (auto simp: store_bytes_def le_Suc_eq less_Suc_eq)

lemma store_bytes_byte: "store_bytes mm p 1 v = mm(p := ucast v)"
  by (rule ext) (auto simp: store_bytes_def byte_of_def)

lemma load_store_bytes:
  assumes "sz \<in> {1, 2, 4}"
  shows "load_bytes (store_bytes mm p sz v) p sz =
    (if sz = 1 then scast (ucast v :: byte) else if sz = 2 then ucast (ucast v :: 16 word) else v)"
proof -
  have "join2 (byte_of v 0) (byte_of v 1) = ucast v"
    using join2_byte_of [of "ucast v"] by (simp add: byte_of_ucast)
  then show ?thesis
    using assms join4_byte_of [of v]
    by (auto simp: load_bytes_def store_bytes_word store_bytes_short store_bytes_byte simp del: One_nat_def)
qed

lemma load_bytes_cong:
  assumes "sz \<in> {1, 2, 4}" "\<And>q. p \<le> q \<Longrightarrow> q < p + sz \<Longrightarrow> mm q = mm' q"
  shows "load_bytes mm p sz = load_bytes mm' p sz"
  using assms(1) assms(2) [of p] assms(2) [of "p + 1"] assms(2) [of "p + 2"] assms(2) [of "p + 3"]
  by (auto simp: load_bytes_def)

lemma ReadMem_eq:
  "sz \<in> {1, 2, 4} \<Longrightarrow> ReadMem va sz m = bindE (Machine_Translate va sz False m) (\<lambda>(r, m').
     Inr (case r of Inl e \<Rightarrow> Inl (e, va) | Inr p \<Rightarrow> Inr (load_bytes (mainMemory m') p sz), m'))"
  by (cases "Machine_Translate va sz False m") (auto simp: ReadMem_def load_bytes_def split: sum.splits)

lemma WriteMem_eq:
  "sz \<in> {1, 2, 4} \<Longrightarrow> WriteMem va sz v m = bindE (Machine_Translate va sz True m) (\<lambda>(r, m').
     Inr (case r of Inl e \<Rightarrow> (Inl (e, va), m') | Inr p \<Rightarrow> (Inr (), m'\<lparr>mainMemory := store_bytes (mainMemory m') p sz v\<rparr>)))"
  by (cases "Machine_Translate va sz True m")
     (auto simp: WriteMem_def store_bytes_word store_bytes_short store_bytes_byte ucast_and_mask byte_of_ucast
      simp del: One_nat_def split: sum.splits)

lemma ReadMem_cases:
  assumes "tables_ok m" "sz \<in> {1, 2, 4}"
  obtains e where "ReadMem va sz m = Inr (Inl (e, va), m)"
  | p a i m' where "ReadMem va sz m = Inr (Inr (load_bytes (mainMemory m) p sz), m')" "granted va sz False m a i p"
      "p + sz \<le> MemorySize" "same_map m m'" "mainMemory m' = mainMemory m" "registers m' = registers m"
proof (rule Machine_Translate_cases [OF assms, of va False])
  fix e assume "Machine_Translate va sz False m = Inr (Inl e, m)"
  then show thesis using assms that(1) by (simp add: ReadMem_eq)
next
  fix p a i m' assume *: "Machine_Translate va sz False m = Inr (Inr p, m')" "granted va sz False m a i p"
    "p + sz \<le> MemorySize" "same_map m m'" "\<exists>h. m' = m\<lparr>te_heap := h\<rparr>"
  then have "mainMemory m' = mainMemory m" "registers m' = registers m" by auto
  then show thesis
    using that(2) [of p m' a i] * assms by (simp add: ReadMem_eq)
qed

text \<open>On any machine with a well-formed page table or TLB, an access of 1, 2 or 4 bytes
  never fails one of the simulator's assertions: it either raises an exception and leaves
  the machine unchanged, or reads bytes that lie inside physical memory, in the frame of
  the valid entry that maps the page, and changes nothing but use and dirty bits.\<close>

theorem ReadMem_safe:
  assumes "tables_ok m" "sz \<in> {1, 2, 4}"
  shows "(\<exists>e. ReadMem va sz m = Inr (Inl (e, va), m)) \<or>
    (\<exists>p a i m'. ReadMem va sz m = Inr (Inr (load_bytes (mainMemory m) p sz), m')
       \<and> granted va sz False m a i p \<and> p + sz \<le> MemorySize \<and> same_map m m' \<and> mainMemory m' = mainMemory m
       \<and> registers m' = registers m)"
  by (rule ReadMem_cases [OF assms, of va]) blast+

text \<open>A write that is granted: where it goes and what it leaves.\<close>

lemma WriteMem_cases:
  assumes "tables_ok m" "sz \<in> {1, 2, 4}"
  obtains e where "WriteMem va sz v m = Inr (Inl (e, va), m)"
  | p a i m' where "WriteMem va sz v m = Inr (Inr (), m')" "granted va sz True m a i p" "p + sz \<le> MemorySize"
      "same_map m m'" "mainMemory m' = store_bytes (mainMemory m) p sz v" "registers m' = registers m"
proof (rule Machine_Translate_cases [OF assms, of va True])
  fix e assume "Machine_Translate va sz True m = Inr (Inl e, m)"
  then show thesis using assms that(1) by (simp add: WriteMem_eq)
next
  fix p a i m' assume *: "Machine_Translate va sz True m = Inr (Inr p, m')" "granted va sz True m a i p"
    "p + sz \<le> MemorySize" "same_map m m'" "\<exists>h. m' = m\<lparr>te_heap := h\<rparr>"
  then have "mainMemory m' = mainMemory m" "registers m' = registers m" by auto
  then show thesis
    using that(2) [of "m'\<lparr>mainMemory := store_bytes (mainMemory m') p sz v\<rparr>" a i p] * assms
    by (simp add: WriteMem_eq)
qed

text \<open>C25: A value stored by \<open>WriteMem\<close> is read back by \<open>ReadMem\<close> at the same virtual
  address: exactly for words, zero-extended for 16-bit values and sign-extended for bytes, on
  hosts of either byte order and with a page table or a TLB.\<close>

theorem WriteMem_ReadMem_roundtrip:
  assumes "tables_ok m" "sz \<in> {1, 2, 4}" "WriteMem va sz v m = Inr (Inr (), m')"
  shows "\<exists>m''. ReadMem va sz m' = Inr (Inr (if sz = 1 then scast (ucast v :: byte)
           else if sz = 2 then ucast (ucast v :: 16 word) else v), m'')"
proof -
  obtain p a i where w: "granted va sz True m a i p" "same_map m m'" "mainMemory m' = store_bytes (mainMemory m) p sz v"
    using WriteMem_cases [OF assms(1,2), of va v] assms(3) by (metis Inr_inject prod.inject sum.distinct(1))
  have "tables_ok m'" using same_map_tables_ok [OF w(2) assms(1)] .
  moreover have "granted va sz False m' a i p"
    using granted_same_map [OF w(2) assms(1) w(1)] by (rule granted_write_read)
  ultimately obtain m'' where "Machine_Translate va sz False m' = Inr (Inr p, m'')" "\<exists>h. m'' = m'\<lparr>te_heap := h\<rparr>"
    using Machine_Translate_granted [OF _ assms(2)] by blast
  then show ?thesis
    using assms(2) w(3) load_store_bytes [OF assms(2)] by (auto simp: ReadMem_eq)
qed

text \<open>A machine whose page table maps page 0 to frame 3, for the concrete instances.\<close>

definition example_entry :: TranslationEntry where
  "example_entry = \<lparr>virtualPage = 0, physicalPage = 3, valid = True, readOnly = False, use_bit = False, dirty = False\<rparr>"

definition example_machine :: Machine where
  "example_machine = \<lparr>registers = (\<lambda>_. 0), mainMemory = (\<lambda>_. 0), te_heap = [0 \<mapsto> [example_entry]], tlb = None,
     pageTable = Some 0, pageTableSize = 1, hostBigEndian = False\<rparr>"

lemma example_tables_ok: "tables_ok example_machine"
  by (simp add: tables_ok_def example_machine_def)

lemma example_write: "\<exists>m'. WriteMem 8 4 0x12345678 example_machine = Inr (Inr (), m')"
  by (simp add: WriteMem_def Machine_Translate_def misaligned_def find_entry_def read_table_def
      example_machine_def example_entry_def size_defs Let_def)

theorem ReadMem_safe_witness:
  "(\<exists>e. ReadMem 8 4 example_machine = Inr (Inl (e, 8), example_machine)) \<or>
    (\<exists>p a i m'. ReadMem 8 4 example_machine = Inr (Inr (load_bytes (mainMemory example_machine) p 4), m')
       \<and> granted 8 4 False example_machine a i p \<and> p + 4 \<le> MemorySize \<and> same_map example_machine m'
       \<and> mainMemory m' = mainMemory example_machine \<and> registers m' = registers example_machine)"
  using ReadMem_safe [OF example_tables_ok, of 4 8] by simp

theorem WriteMem_ReadMem_roundtrip_witness:
  "\<exists>m' m''. WriteMem 8 4 0x12345678 example_machine = Inr (Inr (), m') \<and> ReadMem 8 4 m' = Inr (Inr 0x12345678, m'')"
proof -
  obtain m' where m': "WriteMem 8 4 0x12345678 example_machine = Inr (Inr (), m')"
    using example_write by blast
  show ?thesis
    using WriteMem_ReadMem_roundtrip [OF example_tables_ok _ m'] m' by simp
qed

section \<open>Confinement\<close>

text \<open>The frames a translation table gives access to.\<close>

definition table_frames :: "TranslationEntry list \<Rightarrow> nat set" where
  "table_frames t = {unat (physicalPage e) | e. e \<in> set t \<and> valid e}"

lemma granted_frame:
  assumes "granted va sz writing m a i p" "te_heap m a = Some t" "sz \<in> {1, 2, 4}" "p \<le> q" "q < p + sz"
  shows "q div PageSize \<in> table_frames t"
proof -
  let ?f = "unat (physicalPage (t ! i))" and ?o = "unat (va mod of_nat PageSize)"
  have g: "i < length t" "valid (t ! i)" "p = ?f * PageSize + ?o" "\<not> misaligned sz va"
    using assms(1,2) by (auto simp: granted_def)
  have "q < ?f * PageSize + PageSize" "?f * PageSize \<le> q"
    using page_offset_aligned [OF assms(3) g(4)] assms(4,5) g(3) by linarith+
  then have "q div PageSize = ?f"
    by (intro div_nat_eqI) (simp_all add: mult.commute)
  then show ?thesis
    using g by (auto simp: table_frames_def in_set_conv_nth)
qed

lemma find_entry_table: "find_entry vpn m = Inr (Inr (a, i)) \<Longrightarrow> pageTable m = Some a \<or> tlb m = Some a"
  by (auto simp: find_entry_def res_simps split: option.splits if_splits)

lemma WriteMem_confined:
  assumes "tables_ok m" "sz \<in> {1, 2, 4}" "WriteMem va sz v m = Inr (r, m')"
    "pageTable m = Some pt" "te_heap m pt = Some t" "q div PageSize \<notin> table_frames t"
  shows "mainMemory m' q = mainMemory m q"
proof (rule WriteMem_cases [OF assms(1,2), of va v])
  fix e assume "WriteMem va sz v m = Inr (Inl (e, va), m)"
  then show ?thesis using assms(3) by simp
next
  fix p a i m'' assume *: "WriteMem va sz v m = Inr (Inr (), m'')" "granted va sz True m a i p"
    "mainMemory m'' = store_bytes (mainMemory m) p sz v"
  have "tlb m = None" using assms(1,4) by (auto simp: tables_ok_def split: option.splits)
  then have "a = pt"
    using *(2) find_entry_table assms(4) by (fastforce simp: granted_def)
  then have "\<not> (p \<le> q \<and> q < p + sz)"
    using granted_frame [OF *(2) _ assms(2)] assms(5,6) by blast
  then show ?thesis using * assms(3) by (auto simp: store_bytes_def)
qed

end
