(* ===== verification/Mipssim.thy ===== *)
theory Mipssim
  imports Machine
begin

text \<open>
  The MIPS R2/3000 simulator of \<^verbatim>\<open>machine/mipssim.cc\<close>: decoding, the
  shift-and-add multiplication, and the execution of one user instruction on the machine of
  theory \<open>Machine\<close>, followed by its correctness: products, overflow detection, what a
  user instruction may change, and which instructions can be restarted after a trap.
  Registers are \<^verbatim>\<open>unsigned int\<close> in the source, so comparisons, divisions and
  right shifts of register operands are unsigned here too.
\<close>

section \<open>Opcodes and decoding tables\<close>

datatype (plugins only: code) opcode = OP_ADD | OP_ADDI | OP_ADDIU | OP_ADDU | OP_AND | OP_ANDI | OP_BEQ | OP_BGEZ | OP_BGEZAL
  | OP_BGTZ | OP_BLEZ | OP_BLTZ | OP_BLTZAL | OP_BNE | OP_DIV | OP_DIVU | OP_J | OP_JAL | OP_JALR | OP_JR
  | OP_LB | OP_LBU | OP_LH | OP_LHU | OP_LUI | OP_LW | OP_LWL | OP_LWR | OP_MFHI | OP_MFLO | OP_MTHI
  | OP_MTLO | OP_MULT | OP_MULTU | OP_NOR | OP_OR | OP_ORI | OP_RFE | OP_SB | OP_SH | OP_SLL | OP_SLLV
  | OP_SLT | OP_SLTI | OP_SLTIU | OP_SLTU | OP_SRA | OP_SRAV | OP_SRL | OP_SRLV | OP_SUB | OP_SUBU | OP_SW
  | OP_SWL | OP_SWR | OP_XOR | OP_XORI | OP_SYSCALL | OP_UNIMP | OP_RES | SPECIAL | BCOND

datatype format = IFMT | JFMT | RFMT

definition opTable :: "(opcode \<times> format) list" where
  "opTable = [
    (SPECIAL, RFMT), (BCOND, IFMT), (OP_J, JFMT), (OP_JAL, JFMT),
    (OP_BEQ, IFMT), (OP_BNE, IFMT), (OP_BLEZ, IFMT), (OP_BGTZ, IFMT),
    (OP_ADDI, IFMT), (OP_ADDIU, IFMT), (OP_SLTI, IFMT), (OP_SLTIU, IFMT),
    (OP_ANDI, IFMT), (OP_ORI, IFMT), (OP_XORI, IFMT), (OP_LUI, IFMT),
    (OP_UNIMP, IFMT), (OP_UNIMP, IFMT), (OP_UNIMP, IFMT), (OP_UNIMP, IFMT),
    (OP_RES, IFMT), (OP_RES, IFMT), (OP_RES, IFMT), (OP_RES, IFMT),
    (OP_RES, IFMT), (OP_RES, IFMT), (OP_RES, IFMT), (OP_RES, IFMT),
    (OP_RES, IFMT), (OP_RES, IFMT), (OP_RES, IFMT), (OP_RES, IFMT),
    (OP_LB, IFMT), (OP_LH, IFMT), (OP_LWL, IFMT), (OP_LW, IFMT),
    (OP_LBU, IFMT), (OP_LHU, IFMT), (OP_LWR, IFMT), (OP_RES, IFMT),
    (OP_SB, IFMT), (OP_SH, IFMT), (OP_SWL, IFMT), (OP_SW, IFMT),
    (OP_RES, IFMT), (OP_RES, IFMT), (OP_SWR, IFMT), (OP_RES, IFMT),
    (OP_UNIMP, IFMT), (OP_UNIMP, IFMT), (OP_UNIMP, IFMT), (OP_UNIMP, IFMT),
    (OP_RES, IFMT), (OP_RES, IFMT), (OP_RES, IFMT), (OP_RES, IFMT),
    (OP_UNIMP, IFMT), (OP_UNIMP, IFMT), (OP_UNIMP, IFMT), (OP_UNIMP, IFMT),
    (OP_RES, IFMT), (OP_RES, IFMT), (OP_RES, IFMT), (OP_RES, IFMT)]"

definition specialTable :: "opcode list" where
  "specialTable = [
    OP_SLL, OP_RES, OP_SRL, OP_SRA, OP_SLLV, OP_RES, OP_SRLV, OP_SRAV,
    OP_JR, OP_JALR, OP_RES, OP_RES, OP_SYSCALL, OP_UNIMP, OP_RES, OP_RES,
    OP_MFHI, OP_MTHI, OP_MFLO, OP_MTLO, OP_RES, OP_RES, OP_RES, OP_RES,
    OP_MULT, OP_MULTU, OP_DIV, OP_DIVU, OP_RES, OP_RES, OP_RES, OP_RES,
    OP_ADD, OP_ADDU, OP_SUB, OP_SUBU, OP_AND, OP_OR, OP_XOR, OP_NOR,
    OP_RES, OP_RES, OP_SLT, OP_SLTU, OP_RES, OP_RES, OP_RES, OP_RES,
    OP_RES, OP_RES, OP_RES, OP_RES, OP_RES, OP_RES, OP_RES, OP_RES,
    OP_RES, OP_RES, OP_RES, OP_RES, OP_RES, OP_RES, OP_RES, OP_RES]"

record Instruction =
  opCode :: opcode
  rs :: nat
  rt :: nat
  rd :: nat
  extra :: "32 word"

definition SIGN_BIT :: "32 word" where "SIGN_BIT = 0x80000000"
definition R31 :: nat where "R31 = 31"

definition IndexToAddr :: "32 word \<Rightarrow> 32 word" where "IndexToAddr x = push_bit 2 x"

definition Instruction_Decode :: "32 word \<Rightarrow> Instruction res" where
  "Instruction_Decode v =
     bindE (arr_get opTable (unat (drop_bit 26 v AND 0x3f))) (\<lambda>(opc, fmt).
     let ex = (case fmt of
           IFMT \<Rightarrow> let e = v AND 0xffff in if e AND 0x8000 \<noteq> 0 then e OR 0xffff0000 else e
         | RFMT \<Rightarrow> drop_bit 6 v AND 0x1f
         | JFMT \<Rightarrow> v AND 0x3ffffff)
     in bindE (if opc = SPECIAL then arr_get specialTable (unat (v AND 0x3f))
               else if opc = BCOND then
                 let i = v AND 0x1f0000 in
                 Inr (if i = 0 then OP_BLTZ else if i = 0x10000 then OP_BGEZ
                      else if i = 0x100000 then OP_BLTZAL else if i = 0x110000 then OP_BGEZAL
                      else OP_UNIMP)
               else Inr opc) (\<lambda>opc'.
        Inr \<lparr>opCode = opc', rs = unat (drop_bit 21 v AND 0x1f), rt = unat (drop_bit 16 v AND 0x1f),
             rd = unat (drop_bit 11 v AND 0x1f), extra = ex\<rparr>))"

datatype RegType = NONE | RS | RT | RD | EXTRA

definition TypeToReg :: "RegType \<Rightarrow> Instruction \<Rightarrow> 32 word" where
  "TypeToReg reg instr = (case reg of
     RS \<Rightarrow> of_nat (rs instr) | RT \<Rightarrow> of_nat (rt instr) | RD \<Rightarrow> of_nat (rd instr) | EXTRA \<Rightarrow> extra instr | NONE \<Rightarrow> - 1)"

section \<open>Multiplication\<close>

text \<open>
  One iteration of the loop of \<^verbatim>\<open>Mult\<close>; the counter \<open>k\<close> is the number of
  iterations left. \<^verbatim>\<open>a\<close> is a signed \<^verbatim>\<open>int\<close>, so the shift of \<open>a\<close>
  copies its sign bit.
\<close>

fun Mult_loop :: "nat \<Rightarrow> 32 word \<Rightarrow> 32 word \<Rightarrow> 32 word \<Rightarrow> 32 word \<Rightarrow> 32 word \<Rightarrow> 32 word \<times> 32 word" where
  "Mult_loop 0 a bHi bLo hi lo = (hi, lo)"
| "Mult_loop (Suc k) a bHi bLo hi lo =
     (let odd_a = a AND 1 \<noteq> 0;
          lo' = (if odd_a then lo + bLo else lo);
          hi' = (if odd_a then (if lo' < bLo then hi + 1 else hi) + bHi else hi) in
      if odd_a \<and> a AND 0xfffffffe = 0 then (hi', lo')
      else Mult_loop k (signed_drop_bit 1 a)
             (if bLo AND 0x80000000 \<noteq> 0 then push_bit 1 bHi OR 1 else push_bit 1 bHi) (push_bit 1 bLo) hi' lo')"

definition Mult :: "32 word \<Rightarrow> 32 word \<Rightarrow> bool \<Rightarrow> 32 word \<times> 32 word" where
  "Mult a b signedArith =
     (if a = 0 \<or> b = 0 then (0, 0)
      else
        let negative = (signedArith \<and> (a <s 0) \<noteq> (b <s 0));
            a' = (if signedArith \<and> a <s 0 then - a else a);
            b' = (if signedArith \<and> b <s 0 then - b else b);
            (hi, lo) = Mult_loop 32 a' 0 b' 0 0
        in if negative then
             let hi' = NOT hi; lo' = NOT lo + 1 in (if lo' = 0 then hi' + 1 else hi', lo')
           else (hi, lo))"

section \<open>Execution of one instruction\<close>

text \<open>
  How the \<^verbatim>\<open>switch\<close> of \<^verbatim>\<open>OneInstruction\<close> ends: \<open>Done\<close> falls out
  of the switch with the next program counter and the delayed load to install; \<open>Raise\<close>
  returns after \<^verbatim>\<open>RaiseException\<close>.
\<close>

datatype exec = Done "32 word" "32 word" "32 word" | Raise trap

definition upd :: "nat \<Rightarrow> 32 word \<Rightarrow> Machine \<Rightarrow> Machine" where
  "upd r v m = m\<lparr>registers := (registers m)(r := v)\<rparr>"

abbreviation next_pc :: "Machine \<Rightarrow> 32 word" where
  "next_pc m \<equiv> registers m NextPCReg + 4"

abbreviation branch_target :: "Instruction \<Rightarrow> Machine \<Rightarrow> 32 word" where
  "branch_target i m \<equiv> registers m NextPCReg + IndexToAddr (extra i)"

definition set_reg :: "nat \<Rightarrow> 32 word \<Rightarrow> Machine \<Rightarrow> (exec \<times> Machine) res" where
  "set_reg r v m = Inr (Done (next_pc m) 0 0, upd r v m)"

definition branch_if :: "bool \<Rightarrow> Instruction \<Rightarrow> Machine \<Rightarrow> (exec \<times> Machine) res" where
  "branch_if c i m = Inr (Done (if c then branch_target i m else next_pc m) 0 0, m)"

definition raise :: "ExceptionType \<Rightarrow> 32 word \<Rightarrow> Machine \<Rightarrow> (exec \<times> Machine) res" where
  "raise e a m = Inr (Raise (e, a), m)"

text \<open>Lines 125 to 193: additions, logical and, conditional branches.\<close>

definition exec_add_branch :: "Instruction \<Rightarrow> Machine \<Rightarrow> (exec \<times> Machine) res option" where
  "exec_add_branch i m =
     (let R = registers m; a = R (rs i); b = R (rt i); ex = extra i in
      case opCode i of
        OP_ADD \<Rightarrow> Some (let s = a + b in
          if (a XOR b) AND SIGN_BIT = 0 \<and> (a XOR s) AND SIGN_BIT \<noteq> 0 then raise OverflowException 0 m
          else set_reg (rd i) s m)
      | OP_ADDI \<Rightarrow> Some (let s = a + ex in
          if (a XOR ex) AND SIGN_BIT = 0 \<and> (ex XOR s) AND SIGN_BIT \<noteq> 0 then raise OverflowException 0 m
          else set_reg (rt i) s m)
      | OP_ADDIU \<Rightarrow> Some (set_reg (rt i) (a + ex) m)
      | OP_ADDU \<Rightarrow> Some (set_reg (rd i) (a + b) m)
      | OP_AND \<Rightarrow> Some (set_reg (rd i) (a AND b) m)
      | OP_ANDI \<Rightarrow> Some (set_reg (rt i) (a AND (ex AND 0xffff)) m)
      | OP_BEQ \<Rightarrow> Some (branch_if (a = b) i m)
      | OP_BGEZAL \<Rightarrow> Some (let m' = upd R31 (next_pc m) m in
          branch_if (registers m' (rs i) AND SIGN_BIT = 0) i m')
      | OP_BGEZ \<Rightarrow> Some (branch_if (a AND SIGN_BIT = 0) i m)
      | OP_BGTZ \<Rightarrow> Some (branch_if (a > 0) i m)
      | OP_BLEZ \<Rightarrow> Some (branch_if (a \<le> 0) i m)
      | OP_BLTZAL \<Rightarrow> Some (let m' = upd R31 (next_pc m) m in
          branch_if (registers m' (rs i) AND SIGN_BIT \<noteq> 0) i m')
      | OP_BLTZ \<Rightarrow> Some (branch_if (a AND SIGN_BIT \<noteq> 0) i m)
      | OP_BNE \<Rightarrow> Some (branch_if (a \<noteq> b) i m)
      | _ \<Rightarrow> None)"

text \<open>Lines 195 to 229: divisions and jumps.\<close>

definition exec_div_jump :: "Instruction \<Rightarrow> Machine \<Rightarrow> (exec \<times> Machine) res option" where
  "exec_div_jump i m =
     (let R = registers m; a = R (rs i); b = R (rt i) in
      case opCode i of
        OP_DIV \<Rightarrow> Some (if b = 0 then set_reg HiReg 0 (upd LoReg 0 m)
          else let m' = upd LoReg (a div b) m in
            set_reg HiReg (registers m' (rs i) mod registers m' (rt i)) m')
      | OP_DIVU \<Rightarrow> Some (if b = 0 then set_reg HiReg 0 (upd LoReg 0 m)
          else set_reg HiReg (a mod b) (upd LoReg (a div b) m))
      | OP_JAL \<Rightarrow> Some (Inr (Done (next_pc m AND 0xf0000000 OR IndexToAddr (extra i)) 0 0, upd R31 (next_pc m) m))
      | OP_J \<Rightarrow> Some (Inr (Done (next_pc m AND 0xf0000000 OR IndexToAddr (extra i)) 0 0, m))
      | OP_JALR \<Rightarrow> Some (let m' = upd (rd i) (next_pc m) m in Inr (Done (registers m' (rs i)) 0 0, m'))
      | OP_JR \<Rightarrow> Some (Inr (Done a 0 0, m))
      | _ \<Rightarrow> None)"

text \<open>Lines 231 to 343: loads. A load fills the delay slot instead of its target register.\<close>

definition load_then :: "32 word \<Rightarrow> nat \<Rightarrow> Machine \<Rightarrow> (32 word \<Rightarrow> Machine \<Rightarrow> (exec \<times> Machine) res) \<Rightarrow> (exec \<times> Machine) res" where
  "load_then a sz m k = bindE (ReadMem a sz m) (\<lambda>(r, m'). case r of
     Inl t \<Rightarrow> Inr (Raise t, m') | Inr v \<Rightarrow> k v m')"

definition pending_value :: "Instruction \<Rightarrow> Machine \<Rightarrow> 32 word" where
  "pending_value i m = (if registers m LoadReg = of_nat (rt i) then registers m LoadValueReg else registers m (rt i))"

definition delayed :: "Instruction \<Rightarrow> 32 word \<Rightarrow> Machine \<Rightarrow> (exec \<times> Machine) res" where
  "delayed i v m = Inr (Done (next_pc m) (of_nat (rt i)) v, m)"

definition exec_load :: "Instruction \<Rightarrow> Machine \<Rightarrow> (exec \<times> Machine) res option" where
  "exec_load i m =
     (let tmp = registers m (rs i) + extra i in
      case opCode i of
        OP_LB \<Rightarrow> Some (load_then tmp 1 m (\<lambda>v. delayed i (if v AND 0x80 \<noteq> 0 then v OR 0xffffff00 else v AND 0xff)))
      | OP_LBU \<Rightarrow> Some (load_then tmp 1 m (\<lambda>v. delayed i (v AND 0xff)))
      | OP_LH \<Rightarrow> Some (if tmp AND 1 \<noteq> 0 then raise AddressErrorException tmp m
          else load_then tmp 2 m (\<lambda>v. delayed i (if v AND 0x8000 \<noteq> 0 then v OR 0xffff0000 else v AND 0xffff)))
      | OP_LHU \<Rightarrow> Some (if tmp AND 1 \<noteq> 0 then raise AddressErrorException tmp m
          else load_then tmp 2 m (\<lambda>v. delayed i (v AND 0xffff)))
      | OP_LUI \<Rightarrow> Some (set_reg (rt i) (push_bit 16 (extra i)) m)
      | OP_LW \<Rightarrow> Some (if tmp AND 3 \<noteq> 0 then raise AddressErrorException tmp m
          else load_then tmp 4 m (delayed i))
      | _ \<Rightarrow> None)"

definition exec_load_part :: "Instruction \<Rightarrow> Machine \<Rightarrow> (exec \<times> Machine) res option" where
  "exec_load_part i m =
     (let tmp = registers m (rs i) + extra i in
      case opCode i of
        OP_LWL \<Rightarrow> Some (bindE (assertE (tmp AND 3 = 0)) (\<lambda>_. load_then tmp 4 m (\<lambda>v m'.
          let n = pending_value i m'; k = tmp AND 3 in
          delayed i (if k = 0 then v else if k = 1 then n AND 0xff OR push_bit 8 v
            else if k = 2 then n AND 0xffff OR push_bit 16 v else n AND 0xffffff OR push_bit 24 v) m')))
      | OP_LWR \<Rightarrow> Some (bindE (assertE (tmp AND 3 = 0)) (\<lambda>_. load_then tmp 4 m (\<lambda>v m'.
          let n = pending_value i m'; k = tmp AND 3 in
          delayed i (if k = 0 then n AND 0xffffff00 OR (signed_drop_bit 24 v AND 0xff)
            else if k = 1 then n AND 0xffff0000 OR (signed_drop_bit 16 v AND 0xffff)
            else if k = 2 then n AND 0xff000000 OR (signed_drop_bit 8 v AND 0xffffff) else v) m')))
      | _ \<Rightarrow> None)"

text \<open>Lines 345 to 381: moves, multiplication, logical or.\<close>

definition exec_mult_or :: "Instruction \<Rightarrow> Machine \<Rightarrow> (exec \<times> Machine) res option" where
  "exec_mult_or i m =
     (let R = registers m; a = R (rs i); b = R (rt i) in
      case opCode i of
        OP_MFHI \<Rightarrow> Some (set_reg (rd i) (R HiReg) m)
      | OP_MFLO \<Rightarrow> Some (set_reg (rd i) (R LoReg) m)
      | OP_MTHI \<Rightarrow> Some (set_reg HiReg a m)
      | OP_MTLO \<Rightarrow> Some (set_reg LoReg a m)
      | OP_MULT \<Rightarrow> Some (let (hi, lo) = Mult a b True in set_reg LoReg lo (upd HiReg hi m))
      | OP_MULTU \<Rightarrow> Some (let (hi, lo) = Mult a b False in set_reg LoReg lo (upd HiReg hi m))
      | OP_NOR \<Rightarrow> Some (set_reg (rd i) (NOT (a OR b)) m)
      | OP_OR \<Rightarrow> Some (set_reg (rd i) (a OR a) m)
      | OP_ORI \<Rightarrow> Some (set_reg (rt i) (a OR (extra i AND 0xffff)) m)
      | _ \<Rightarrow> None)"

text \<open>Lines 383 to 475: stores, shifts, comparisons, subtractions.\<close>

definition store_then :: "32 word \<Rightarrow> nat \<Rightarrow> 32 word \<Rightarrow> Machine \<Rightarrow> (exec \<times> Machine) res" where
  "store_then a sz v m = bindE (WriteMem a sz v m) (\<lambda>(r, m'). case r of
     Inl t \<Rightarrow> Inr (Raise t, m') | Inr _ \<Rightarrow> Inr (Done (next_pc m') 0 0, m'))"

definition exec_store_shift :: "Instruction \<Rightarrow> Machine \<Rightarrow> (exec \<times> Machine) res option" where
  "exec_store_shift i m =
     (let R = registers m; a = R (rs i); b = R (rt i); ex = extra i; flag = (\<lambda>c. if c then 1 else 0) in
      case opCode i of
        OP_SB \<Rightarrow> Some (store_then (a + ex) 1 b m)
      | OP_SH \<Rightarrow> Some (store_then (a + ex) 2 b m)
      | OP_SLL \<Rightarrow> Some (set_reg (rd i) (push_bit (unat ex) b) m)
      | OP_SLLV \<Rightarrow> Some (set_reg (rd i) (push_bit (unat (a AND 0x1f)) b) m)
      | OP_SLT \<Rightarrow> Some (set_reg (rd i) (flag (a < b)) m)
      | OP_SLTI \<Rightarrow> Some (set_reg (rt i) (flag (a < ex)) m)
      | OP_SLTIU \<Rightarrow> Some (set_reg (rt i) (flag (a < ex)) m)
      | OP_SLTU \<Rightarrow> Some (set_reg (rd i) (flag (a < b)) m)
      | OP_SRA \<Rightarrow> Some (set_reg (rd i) (drop_bit (unat ex) b) m)
      | OP_SRAV \<Rightarrow> Some (set_reg (rd i) (drop_bit (unat (a AND 0x1f)) b) m)
      | OP_SRL \<Rightarrow> Some (set_reg (rd i) (signed_drop_bit (unat ex) b) m)
      | OP_SRLV \<Rightarrow> Some (set_reg (rd i) (signed_drop_bit (unat (a AND 0x1f)) b) m)
      | OP_SUB \<Rightarrow> Some (let d = a - b in
          if (a XOR b) AND SIGN_BIT \<noteq> 0 \<and> (a XOR d) AND SIGN_BIT \<noteq> 0 then raise OverflowException 0 m
          else set_reg (rd i) d m)
      | OP_SUBU \<Rightarrow> Some (set_reg (rd i) (a - b) m)
      | OP_SW \<Rightarrow> Some (store_then (a + ex) 4 b m)
      | _ \<Rightarrow> None)"

text \<open>Lines 477 to 552: partial stores, traps, exclusive or.\<close>

definition exec_store_part :: "Instruction \<Rightarrow> Machine \<Rightarrow> (exec \<times> Machine) res option" where
  "exec_store_part i m =
     (let R = registers m; a = R (rs i); b = R (rt i); tmp = a + extra i; k = tmp AND 3 in
      case opCode i of
        OP_SWL \<Rightarrow> Some (bindE (assertE (tmp AND 3 = 0)) (\<lambda>_. load_then (tmp AND NOT 3) 4 m (\<lambda>v m'.
          store_then (tmp AND NOT 3) 4
            (if k = 0 then b else if k = 1 then v AND 0xff000000 OR (drop_bit 8 b AND 0xffffff)
             else if k = 2 then v AND 0xffff0000 OR (drop_bit 16 b AND 0xffff)
             else v AND 0xffffff00 OR (drop_bit 24 b AND 0xff)) m')))
      | OP_SWR \<Rightarrow> Some (bindE (assertE (tmp AND 3 = 0)) (\<lambda>_. load_then (tmp AND NOT 3) 4 m (\<lambda>v m'.
          store_then (tmp AND NOT 3) 4
            (if k = 0 then v AND 0xffffff OR push_bit 24 b else if k = 1 then v AND 0xffff OR push_bit 16 b
             else if k = 2 then v AND 0xff OR push_bit 8 b else b) m')))
      | OP_SYSCALL \<Rightarrow> Some (raise SyscallException 0 m)
      | OP_XOR \<Rightarrow> Some (set_reg (rd i) (a XOR b) m)
      | OP_XORI \<Rightarrow> Some (set_reg (rt i) (a XOR (extra i AND 0xffff)) m)
      | OP_RES \<Rightarrow> Some (raise IllegalInstrException 0 m)
      | OP_UNIMP \<Rightarrow> Some (raise IllegalInstrException 0 m)
      | _ \<Rightarrow> None)"

definition or_else :: "'a option \<Rightarrow> 'a option \<Rightarrow> 'a option" where
  "or_else x y = (case x of Some v \<Rightarrow> Some v | None \<Rightarrow> y)"

text \<open>The whole switch, its groups in source order; the default case is an assertion failure.\<close>

definition exec_switch :: "Instruction \<Rightarrow> Machine \<Rightarrow> (exec \<times> Machine) res" where
  "exec_switch i m =
     (case or_else (exec_add_branch i m) (or_else (exec_div_jump i m) (or_else (exec_load i m)
        (or_else (exec_load_part i m) (or_else (exec_mult_or i m) (or_else (exec_store_shift i m) (exec_store_part i m)))))) of
        Some r \<Rightarrow> r | None \<Rightarrow> Inl AssertFail)"

definition advance_pc :: "32 word \<Rightarrow> Machine \<Rightarrow> Machine" where
  "advance_pc pcAfter m =
     (let m = upd PrevPCReg (registers m PCReg) m; m = upd PCReg (registers m NextPCReg) m
      in upd NextPCReg pcAfter m)"

text \<open>
  The result carries the trap that was raised, if any, after the machine's part of
  \<^verbatim>\<open>RaiseException\<close>; the kernel's handler runs next on that machine.
\<close>

definition OneInstruction :: "Machine \<Rightarrow> (trap option \<times> Machine) res" where
  "OneInstruction m =
     bindE (ReadMem (registers m PCReg) 4 m) (\<lambda>(r, m1). case r of
       Inl t \<Rightarrow> bindE (RaiseException t m1) (\<lambda>m2. Inr (Some t, m2))
     | Inr raw \<Rightarrow>
         bindE (Instruction_Decode raw) (\<lambda>i.
         bindE (exec_switch i m1) (\<lambda>(x, m2). case x of
           Raise t \<Rightarrow> bindE (RaiseException t m2) (\<lambda>m3. Inr (Some t, m3))
         | Done pcAfter nextLoadReg nextLoadValue \<Rightarrow>
             bindE (DelayedLoad nextLoadReg nextLoadValue m2) (\<lambda>m3. Inr (None, advance_pc pcAfter m3)))))"

text \<open>
  \<^verbatim>\<open>Machine::Run\<close> loops forever over one instruction and one clock tick; its first
  \<open>n\<close> iterations, with the kernel's exception handler and \<^verbatim>\<open>OneTick\<close> as
  parameters on a state that holds the machine.
\<close>

definition Run_step :: "('s \<Rightarrow> Machine) \<Rightarrow> (Machine \<Rightarrow> 's \<Rightarrow> 's) \<Rightarrow> (ExceptionType \<Rightarrow> 's \<Rightarrow> 's res) \<Rightarrow> ('s \<Rightarrow> 's res) \<Rightarrow> 's \<Rightarrow> 's res" where
  "Run_step get_m put_m handler tick s =
     bindE (OneInstruction (get_m s)) (\<lambda>(t, m).
     bindE (case t of None \<Rightarrow> Inr (put_m m s) | Some (e, _) \<Rightarrow> handler e (put_m m s)) tick)"

fun Run_n :: "nat \<Rightarrow> ('s \<Rightarrow> Machine) \<Rightarrow> (Machine \<Rightarrow> 's \<Rightarrow> 's) \<Rightarrow> (ExceptionType \<Rightarrow> 's \<Rightarrow> 's res) \<Rightarrow> ('s \<Rightarrow> 's res) \<Rightarrow> 's \<Rightarrow> 's res" where
  "Run_n 0 get_m put_m handler tick s = Inr s"
| "Run_n (Suc n) get_m put_m handler tick s =
     bindE (Run_step get_m put_m handler tick s) (Run_n n get_m put_m handler tick)"

section \<open>The multiplication computes the 64-bit product\<close>

text \<open>The pair of result words as one 64-bit word; \<open>two32\<close> is \<open>2 ^ 32\<close> there.\<close>

definition two32 :: "64 word" where "two32 = 0x100000000"

definition dword :: "32 word \<times> 32 word \<Rightarrow> 64 word" where
  "dword p = ucast (fst p) * two32 + ucast (snd p)"

lemma two32_square: "two32 * two32 = 0"
  unfolding two32_def by transfer (simp add: take_bit_eq_mod)

lemma two32_of_int: "two32 = of_int 0x100000000"
  by (simp add: two32_def)

lemma uint_add_carry:
  "uint (lo + b) = uint lo + uint b - (if lo + b < b then 0x100000000 else 0)" for lo b :: "32 word"
proof -
  have l: "uint lo < 0x100000000" "uint b < 0x100000000" "0 \<le> uint lo"
    using uint_lt2p [of lo] uint_lt2p [of b] by simp_all
  have "uint (lo + b) = (if uint lo + uint b < 0x100000000 then uint lo + uint b else uint lo + uint b - 0x100000000)"
    by (simp add: uint_plus_if')
  then show ?thesis using l by (simp add: word_less_def)
qed

lemma ucast_add64: "(ucast (lo + b) :: 64 word) = ucast lo + ucast b - (if lo + b < b then two32 else 0)"
  for lo b :: "32 word"
proof -
  have "(of_int (uint (lo + b)) :: 64 word) = of_int (uint lo + uint b - (if lo + b < b then 0x100000000 else 0))"
    by (rule arg_cong [OF uint_add_carry])
  then show ?thesis
    by (cases "lo + b < b") (simp_all only: ucast_eq if_True if_False of_int_add of_int_diff two32_of_int of_int_0 diff_0_right)
qed

lemma ucast_high_add: "(ucast (x + y) :: 64 word) * two32 = (ucast x + ucast y) * two32" for x y :: "32 word"
  by (simp add: ucast_add64 algebra_simps two32_square)

lemma dword_add:
  "dword ((if lo + bLo < bLo then hi + 1 else hi) + bHi, lo + bLo) = dword (hi, lo) + dword (bHi, bLo)"
proof -
  have one: "(ucast (hi + 1) :: 64 word) * two32 = ucast hi * two32 + two32"
    using ucast_high_add [of hi 1] by (simp add: algebra_simps)
  show ?thesis
    unfolding dword_def fst_conv snd_conv ucast_high_add ucast_add64 [of lo]
    using one by (simp add: algebra_simps)
qed

lemma top_bit: "(w AND 0x80000000 = 0) \<longleftrightarrow> \<not> bit w 31" for w :: "32 word"
proof -
  have "(0x80000000 :: 32 word) = 2 ^ 31" by simp
  then show ?thesis by (simp only: and_exp_eq_0_iff_not_bit)
qed

lemma double_carry: "w + w < w \<longleftrightarrow> bit w 31" for w :: "32 word"
proof -
  have b: "0 \<le> uint (w + w)" "uint (w + w) < 0x100000000" using uint_lt2p [of "w + w"] by simp_all
  have "w + w < w \<Longrightarrow> uint (w + w) = uint w + uint w - 0x100000000" "\<not> w + w < w \<Longrightarrow> uint (w + w) = uint w + uint w"
    using uint_add_carry [of w w] by simp_all
  with b show ?thesis unfolding bit31_uint by linarith
qed

lemma dword_shift:
  "dword (if bLo AND 0x80000000 \<noteq> 0 then push_bit 1 bHi OR 1 else push_bit 1 bHi, push_bit 1 bLo) = 2 * dword (bHi, bLo)"
proof -
  have o: "(bHi + bHi) OR 1 = bHi + 1 + bHi"
    by (simp add: or_one_eq)
  have p: "push_bit 1 w = w + w" for w :: "32 word" by (simp add: push_bit_eq_mult)
  have "dword ((if bit bLo 31 then bHi + 1 else bHi) + bHi, bLo + bLo) = 2 * dword (bHi, bLo)"
    using dword_add [of bLo bLo bHi bHi] unfolding double_carry by simp
  then show ?thesis unfolding top_bit p o not_not by (cases "bit bLo 31") simp_all
qed

lemma take_bit_uint_step:
  assumes "k \<le> 31"
  shows "take_bit (Suc k) (uint (a :: 32 word)) = (if a AND 1 \<noteq> 0 then 1 else 0) + 2 * take_bit k (uint (signed_drop_bit 1 a))"
proof -
  have d: "take_bit k (uint (signed_drop_bit 1 a)) = take_bit k (uint a div 2)"
  proof (rule bit_eqI)
    fix n show "bit (take_bit k (uint (signed_drop_bit 1 a))) n = bit (take_bit k (uint a div 2)) n"
      using assms by (auto simp: bit_take_bit_iff bit_uint_iff bit_signed_drop_bit_iff simp flip: bit_Suc)
  qed
  have "(a AND 1 \<noteq> 0) \<longleftrightarrow> odd (uint a)"
    using bit_uint_iff [of a 0] by (simp add: and_one_eq bit_0 odd_iff_mod_2_eq_one)
  then show ?thesis
    unfolding take_bit_Suc d by (simp add: odd_iff_mod_2_eq_one)
qed

lemma only_low_bit:
  assumes "a AND 1 \<noteq> 0" "a AND 0xfffffffe = (0 :: 32 word)"
  shows "a = 1"
proof (rule bit_word_eqI)
  fix n
  have o: "bit a 0" using assms(1) by (simp add: and_one_eq odd_iff_mod_2_eq_one bit_0)
  have e: "(0xfffffffe :: 32 word) = NOT 1" by simp
  have "\<not> bit (a AND NOT 1) n" using assms(2) unfolding e by simp
  then show "n < LENGTH(32) \<Longrightarrow> bit a n = bit 1 n" using o by (cases n) (auto simp: bit_simps)
qed

lemma Mult_loop_product:
  assumes "k \<le> 32"
  shows "dword (Mult_loop k a bHi bLo hi lo) = dword (hi, lo) + dword (bHi, bLo) * of_int (take_bit k (uint a))"
  using assms
proof (induction k arbitrary: a bHi bLo hi lo)
  case 0
  then show ?case by simp
next
  case (Suc k)
  let ?o = "a AND 1 \<noteq> 0"
  let ?lo = "if ?o then lo + bLo else lo"
  let ?hi = "if ?o then (if ?lo < bLo then hi + 1 else hi) + bHi else hi"
  have acc: "dword (?hi, ?lo) = dword (hi, lo) + (if ?o then dword (bHi, bLo) else 0)"
    using dword_add [of lo bLo hi bHi] by simp
  show ?case
  proof (cases "?o \<and> a AND 0xfffffffe = 0")
    case True
    then have "a = 1" using only_low_bit by blast
    then have "take_bit (Suc k) (uint a) = 1" by (simp add: take_bit_Suc)
    then show ?thesis using True acc by (simp add: Let_def)
  next
    case False
    have "Mult_loop (Suc k) a bHi bLo hi lo = Mult_loop k (signed_drop_bit 1 a)
        (if bLo AND 0x80000000 \<noteq> 0 then push_bit 1 bHi OR 1 else push_bit 1 bHi) (push_bit 1 bLo) ?hi ?lo"
      using False by (simp only: Mult_loop.simps Let_def if_False)
    also have "dword \<dots> = dword (?hi, ?lo) + 2 * dword (bHi, bLo) * of_int (take_bit k (uint (signed_drop_bit 1 a)))"
      using Suc.prems by (subst Suc.IH) (simp_all only: dword_shift)
    also have "\<dots> = dword (hi, lo) + dword (bHi, bLo) * of_int (take_bit (Suc k) (uint a))"
      using Suc.prems unfolding acc take_bit_uint_step [of k a, OF Suc.prems [simplified]]
      by (simp add: algebra_simps)
    finally show ?thesis .
  qed
qed

lemma Mult_loop_32: "dword (Mult_loop 32 a 0 b 0 0) = ucast b * ucast a"
proof -
  have "take_bit 32 (uint a) = uint a"
    using take_bit_int_eq_self [of "uint a" 32] uint_lt2p [of a] by simp
  moreover have "dword (0, 0) = 0" "dword (0, b) = ucast b" by (simp_all add: dword_def)
  moreover have "of_int (uint a) = (ucast a :: 64 word)" by (rule ucast_eq [symmetric])
  ultimately show ?thesis
    using Mult_loop_product [of 32 a 0 b 0 0] by simp
qed

lemma dword_negate: "dword (if NOT lo + 1 = 0 then NOT hi + 1 else NOT hi, NOT lo + 1) = - dword (hi, lo)"
proof -
  have n: "NOT w = - w - 1" for w :: "32 word" by (rule not_eq_complement)
  have l: "NOT lo + 1 = - lo" by (simp add: n)
  have "dword (if lo = 0 then - hi else - hi - 1, - lo) + dword (hi, lo) = 0"
    using dword_add [of "- lo" lo "if lo = 0 then - hi else - hi - 1" hi]
    by (cases "lo = 0") (simp_all add: word_gt_0 dword_def)
  then show ?thesis unfolding l by (simp add: n add_eq_0_iff2 split: if_splits)
qed

lemma ucast_abs: "(ucast (if a <s 0 then - a else a) :: 64 word) = (if a <s 0 then - scast a else scast a)"
  for a :: "32 word"
proof (cases "a <s 0")
  case True
  then have "0x80000000 \<le> uint a" "uint a < 0x100000000"
    using uint_lt2p [of a] by (simp_all add: sless_0_iff bit31_uint)
  then have "uint (- a) = 0x100000000 - uint a"
    by (simp add: uint_word_ariths zmod_zminus1_eq_if mod_pos_pos_trivial)
  then have "uint (- a) = - sint a" using True by (simp add: sint_uint32 sless_0_iff)
  then show ?thesis by (simp only: ucast_eq scast_eq if_P [OF True] of_int_minus)
next
  case False
  then have "uint a = sint a" by (simp add: sint_uint32 sless_0_iff)
  then show ?thesis by (simp only: ucast_eq scast_eq if_not_P [OF False])
qed

text \<open>C23: The shift-and-add loop of \<open>Mult\<close>, with its early exit, carry handling and
  final negation, leaves in the two result words the 64-bit product of the operands: the
  signed product for MULT, for every pair of operands including the most negative number,
  and the unsigned product for MULTU.\<close>

theorem Mult_product:
  "dword (Mult a b signedArith) = (if signedArith then scast a * scast b else ucast a * ucast b)"
proof -
  let ?a = "if a <s 0 then - a else a" and ?b = "if b <s 0 then - b else b"
  have u: "dword (Mult a b False) = ucast a * ucast b"
    using Mult_loop_32 [of a b] by (auto simp: Mult_def Let_def dword_def mult.commute split: prod.splits)
  obtain hi lo where l: "Mult_loop 32 ?a 0 ?b 0 0 = (hi, lo)" by fastforce
  have p: "dword (hi, lo) = ucast ?b * ucast ?a" using Mult_loop_32 [of ?a ?b] l by simp
  have m: "a \<noteq> 0 \<Longrightarrow> b \<noteq> 0 \<Longrightarrow> Mult a b True = (if (a <s 0) \<noteq> (b <s 0)
      then (if NOT lo + 1 = 0 then NOT hi + 1 else NOT hi, NOT lo + 1) else (hi, lo))"
    unfolding Mult_def Let_def using l by simp
  have "dword (Mult a b True) = scast a * scast b"
  proof (cases "a = 0 \<or> b = 0")
    case True
    then show ?thesis by (auto simp: Mult_def dword_def)
  next
    case False
    then show ?thesis using p unfolding ucast_abs
      by (cases "a <s 0"; cases "b <s 0") (simp_all add: m dword_negate mult.commute)
  qed
  with u show ?thesis by simp
qed

section \<open>What a user instruction may do\<close>

text \<open>
  The part of the machine an instruction must keep: the registers outside the user-visible
  ones, the translation state up to use and dirty bits, and the memory outside the frames of
  the current page table.
\<close>

definition confined :: "Machine \<Rightarrow> Machine \<Rightarrow> bool" where
  "confined m m' \<longleftrightarrow> same_map m m' \<and> (\<forall>q pt t. pageTable m = Some pt \<longrightarrow> te_heap m pt = Some t \<longrightarrow>
     q div PageSize \<notin> table_frames t \<longrightarrow> mainMemory m' q = mainMemory m q)"

lemma confined_refl [simp]: "confined m m"
  by (simp add: confined_def)

lemma table_frames_core: "map te_core t' = map te_core t \<Longrightarrow> table_frames t' = table_frames t"
proof -
  have f: "table_frames t = (\<lambda>(v, p, ok, r). unat p) ` {c \<in> set (map te_core t). case c of (v, p, ok, r) \<Rightarrow> ok}" for t
    by (auto simp: table_frames_def te_core_def image_iff) (metis)
  show "map te_core t' = map te_core t \<Longrightarrow> ?thesis" by (simp only: f)
qed

lemma confined_trans:
  assumes "confined m m'" "confined m' m''"
  shows "confined m m''"
proof -
  have sm: "same_map m m'" "same_map m' m''" using assms by (auto simp: confined_def)
  have "mainMemory m'' q = mainMemory m q"
    if p: "pageTable m = Some pt" "te_heap m pt = Some t" "q div PageSize \<notin> table_frames t" for q pt t
  proof -
    obtain t' where t': "te_heap m' pt = Some t'" "map te_core t' = map te_core t"
      using same_map_heap [OF sm(1) p(2)] .
    have "pageTable m' = Some pt" using sm(1) p(1) by (simp add: same_map_def)
    then show ?thesis
      using assms p t' table_frames_core [OF t'(2)] by (auto simp: confined_def)
  qed
  then show ?thesis using same_map_trans [OF sm] by (simp add: confined_def)
qed

lemma same_map_registers [simp]: "same_map m (m'\<lparr>registers := R\<rparr>) = same_map m m'"
  by (simp add: same_map_def)

lemma confined_registers [simp]: "confined m (m'\<lparr>registers := R\<rparr>) = confined m m'"
  by (simp add: confined_def)

text \<open>
  The postcondition of the switch. \<open>Done\<close> installs a load into a general register only;
  \<open>Raise\<close> has changed neither registers nor memory.
\<close>

definition exec_post :: "Machine \<Rightarrow> exec \<times> Machine \<Rightarrow> bool" where
  "exec_post m xm \<longleftrightarrow> confined m (snd xm) \<and>
     (\<forall>r \<ge> PCReg. registers (snd xm) r = registers m r) \<and>
     (case fst xm of
        Raise t \<Rightarrow> registers (snd xm) = registers m \<and> mainMemory (snd xm) = mainMemory m
      | Done p r v \<Rightarrow> unat r < NumGPRegs)"

definition exec_good :: "Instruction \<Rightarrow> Machine \<Rightarrow> (exec \<times> Machine) res \<Rightarrow> bool" where
  "exec_good i m r \<longleftrightarrow> (case r of
      Inl e \<Rightarrow> e = AssertFail \<and> opCode i \<in> {OP_LWL, OP_LWR, OP_SWL, OP_SWR} \<and> (registers m (rs i) + extra i) AND 3 \<noteq> 0
    | Inr xm \<Rightarrow> exec_post m xm)"

definition instr_ok :: "Instruction \<Rightarrow> bool" where
  "instr_ok i \<longleftrightarrow> rs i < NumGPRegs \<and> rt i < NumGPRegs \<and> rd i < NumGPRegs"

lemma NumGPRegs_pos [simp]: "0 < NumGPRegs"
  by (simp add: reg_defs)

lemma set_reg_good: "r < PCReg \<Longrightarrow> exec_good i m (set_reg r v m)"
  by (simp add: exec_good_def exec_post_def set_reg_def upd_def)

lemma set_reg2_good: "r < PCReg \<Longrightarrow> r' < PCReg \<Longrightarrow> exec_good i m (set_reg r v (upd r' v' m))"
  by (simp add: exec_good_def exec_post_def set_reg_def upd_def)

lemma branch_if_good: "exec_good i m (branch_if c i' m)" "r < PCReg \<Longrightarrow> exec_good i m (branch_if c i' (upd r v m))"
  by (simp_all add: exec_good_def exec_post_def branch_if_def upd_def)

lemma raise_good: "exec_good i m (raise e a m)"
  by (simp add: exec_good_def exec_post_def raise_def)

lemma jump_good: "exec_good i m (Inr (Done p 0 0, m))" "r < PCReg \<Longrightarrow> exec_good i m (Inr (Done p 0 0, upd r v m))"
  by (simp_all add: exec_good_def exec_post_def upd_def)

lemma ReadMem_outcome:
  assumes "tables_ok m" "sz \<in> {1, 2, 4}"
  obtains r m' where "ReadMem a sz m = Inr (r, m')" "confined m m'" "registers m' = registers m" "mainMemory m' = mainMemory m"
  by (rule ReadMem_cases [OF assms, of a]; rule that; (assumption | simp add: confined_def)?)

lemma WriteMem_outcome:
  assumes "tables_ok m" "sz \<in> {1, 2, 4}"
  obtains r m' where "WriteMem a sz v m = Inr (r, m')" "confined m m'" "registers m' = registers m"
    "(\<exists>t. r = Inl t) \<longrightarrow> mainMemory m' = mainMemory m"
proof (rule WriteMem_cases [OF assms, of a v])
  fix e assume "WriteMem a sz v m = Inr (Inl (e, a), m)"
  then show thesis by (rule that) simp_all
next
  fix p b i m' assume w: "WriteMem a sz v m = Inr (Inr (), m')" "same_map m m'" "registers m' = registers m"
  have "confined m m'"
    using w(2) WriteMem_confined [OF assms w(1)] by (simp add: confined_def)
  with w show thesis by (intro that [of "Inr ()" m']) simp_all
qed

lemma confined_tables_ok: "confined m m' \<Longrightarrow> tables_ok m \<Longrightarrow> tables_ok m'"
  by (auto simp: confined_def dest: same_map_tables_ok)

lemma exec_good_after:
  assumes "confined m m'" "registers m' = registers m" "exec_good i m' r"
    "\<And>t m''. r = Inr (Raise t, m'') \<Longrightarrow> mainMemory m' = mainMemory m"
  shows "exec_good i m r"
  using assms confined_trans [OF assms(1)]
  by (auto simp: exec_good_def exec_post_def split: sum.splits exec.splits)

lemma load_then_good:
  assumes "tables_ok m" "sz \<in> {1, 2, 4}"
    and "\<And>v m'. tables_ok m' \<Longrightarrow> registers m' = registers m \<Longrightarrow> exec_good i m' (k v m')"
  shows "exec_good i m (load_then a sz m k)"
proof (rule ReadMem_outcome [OF assms(1,2), of a])
  fix r m' assume r: "ReadMem a sz m = Inr (r, m')" "confined m m'" "registers m' = registers m" "mainMemory m' = mainMemory m"
  show ?thesis
  proof (cases r)
    case (Inl t)
    with r show ?thesis by (simp add: load_then_def exec_good_def exec_post_def)
  next
    case (Inr v)
    then show ?thesis
      using r exec_good_after [OF r(2,3) assms(3) [OF confined_tables_ok [OF r(2) assms(1)] r(3)]]
      by (simp add: load_then_def)
  qed
qed

lemma delayed_good: "instr_ok i \<Longrightarrow> exec_good j m (delayed i v m)"
  by (simp add: delayed_def exec_good_def exec_post_def instr_ok_def unat_of_nat reg_defs)

lemma store_then_good:
  assumes "tables_ok m" "sz \<in> {1, 2, 4}"
  shows "exec_good i m (store_then a sz v m)"
  by (rule WriteMem_outcome [OF assms, of a v])
     (auto simp: store_then_def exec_good_def exec_post_def split: sum.splits)

lemmas exec_goods = set_reg_good set_reg2_good branch_if_good raise_good jump_good delayed_good store_then_good

lemma assert_good:
  assumes "opCode i \<in> {OP_LWL, OP_LWR, OP_SWL, OP_SWR}"
    "(registers m (rs i) + extra i) AND 3 = 0 \<Longrightarrow> exec_good i m (k ())"
  shows "exec_good i m (bindE (assertE ((registers m (rs i) + extra i) AND 3 = 0)) k)"
  using assms by (cases "(registers m (rs i) + extra i) AND 3 = 0") (simp_all add: exec_good_def)

lemma user_regs: "instr_ok i \<Longrightarrow> rs i < PCReg" "instr_ok i \<Longrightarrow> rt i < PCReg" "instr_ok i \<Longrightarrow> rd i < PCReg"
  "HiReg < PCReg" "LoReg < PCReg" "R31 < PCReg"
  by (simp_all add: instr_ok_def reg_defs R31_def)

lemma exec_add_branch_good: "tables_ok m \<Longrightarrow> instr_ok i \<Longrightarrow> exec_add_branch i m = Some r \<Longrightarrow> exec_good i m r"
  unfolding exec_add_branch_def Let_def
  by (cases "opCode i"; simp) (auto simp: exec_goods user_regs)

lemma exec_div_jump_good: "tables_ok m \<Longrightarrow> instr_ok i \<Longrightarrow> exec_div_jump i m = Some r \<Longrightarrow> exec_good i m r"
  unfolding exec_div_jump_def Let_def
  by (cases "opCode i"; simp) (auto simp: exec_goods user_regs)

lemma exec_load_good: "tables_ok m \<Longrightarrow> instr_ok i \<Longrightarrow> exec_load i m = Some r \<Longrightarrow> exec_good i m r"
  unfolding exec_load_def Let_def
  by (cases "opCode i"; simp) (auto simp: exec_goods user_regs intro!: load_then_good)

lemma exec_load_part_good: "tables_ok m \<Longrightarrow> instr_ok i \<Longrightarrow> exec_load_part i m = Some r \<Longrightarrow> exec_good i m r"
  unfolding exec_load_part_def Let_def
  by (cases "opCode i"; simp) (auto simp: exec_goods user_regs intro!: assert_good load_then_good)

lemma exec_mult_or_good: "tables_ok m \<Longrightarrow> instr_ok i \<Longrightarrow> exec_mult_or i m = Some r \<Longrightarrow> exec_good i m r"
  unfolding exec_mult_or_def Let_def
  by (cases "opCode i"; simp add: split_beta) (auto simp: exec_goods user_regs)

lemma exec_store_shift_good: "tables_ok m \<Longrightarrow> instr_ok i \<Longrightarrow> exec_store_shift i m = Some r \<Longrightarrow> exec_good i m r"
  unfolding exec_store_shift_def Let_def
  by (cases "opCode i"; simp) (auto simp: exec_goods user_regs)

lemma exec_store_part_good: "tables_ok m \<Longrightarrow> instr_ok i \<Longrightarrow> exec_store_part i m = Some r \<Longrightarrow> exec_good i m r"
  unfolding exec_store_part_def Let_def
  by (cases "opCode i"; simp) (auto simp: exec_goods user_regs intro!: assert_good load_then_good)

text \<open>Which opcodes the decoder can produce.\<close>

definition executable_op :: "opcode \<Rightarrow> bool" where
  "executable_op opc \<longleftrightarrow> opc \<noteq> OP_RFE \<and> opc \<noteq> SPECIAL \<and> opc \<noteq> BCOND"

lemma exec_switch_good:
  assumes "tables_ok m" "instr_ok i" "executable_op (opCode i)"
  shows "exec_good i m (exec_switch i m)"
proof -
  have "exec_add_branch i m \<noteq> None \<or> exec_div_jump i m \<noteq> None \<or> exec_load i m \<noteq> None \<or> exec_load_part i m \<noteq> None
    \<or> exec_mult_or i m \<noteq> None \<or> exec_store_shift i m \<noteq> None \<or> exec_store_part i m \<noteq> None"
    using assms(3)
    unfolding exec_add_branch_def exec_div_jump_def exec_load_def exec_load_part_def exec_mult_or_def
      exec_store_shift_def exec_store_part_def Let_def executable_op_def
    by (cases "opCode i") simp_all
  then show ?thesis
    using assms(1,2) exec_add_branch_good exec_div_jump_good exec_load_good exec_load_part_good exec_mult_or_good
      exec_store_shift_good exec_store_part_good
    unfolding exec_switch_def or_else_def by (auto split: option.splits)
qed

lemma opTable_length: "length opTable = 64" "length specialTable = 64"
  by (simp_all add: opTable_def specialTable_def)

lemma opTable_ops: "(opc, fmt) \<in> set opTable \<Longrightarrow> opc \<noteq> OP_RFE"
  "opc \<in> set specialTable \<Longrightarrow> executable_op opc"
  by (auto simp: opTable_def specialTable_def executable_op_def)

lemma unat_and_less: "unat (w AND 0x3f) < 64" "unat (w AND 0x1f) < 32" for w :: "32 word"
proof -
  have "(0x3f :: 32 word) = mask 6" "(0x1f :: 32 word) = mask 5" by (simp_all add: mask_eq_exp_minus_1)
  then show "unat (w AND 0x3f) < 64" "unat (w AND 0x1f) < 32"
    by (simp_all only: take_bit_eq_mask [symmetric] unsigned_take_bit_eq) (simp_all add: take_bit_eq_mod)
qed

lemma Instruction_Decode_ok:
  obtains i where "Instruction_Decode v = Inr i" "instr_ok i" "executable_op (opCode i)"
proof -
  let ?k = "unat (drop_bit 26 v AND 0x3f)" and ?s = "unat (v AND 0x3f)"
  have k: "?k < length opTable" "?s < length specialTable"
    using unat_and_less(1) by (simp_all add: opTable_length)
  obtain opc fmt where e: "opTable ! ?k = (opc, fmt)" by fastforce
  have "opc \<noteq> OP_RFE" using opTable_ops(1) [of opc fmt] nth_mem [OF k(1)] e by simp
  moreover have "executable_op (specialTable ! ?s)" by (rule opTable_ops(2) [OF nth_mem [OF k(2)]])
  ultimately show thesis
    using that k e unat_and_less(2)
    by (cases "opc = SPECIAL"; cases "opc = BCOND")
       (fastforce simp: Instruction_Decode_def Let_def instr_ok_def executable_op_def NumGPRegs_def)+
qed

section \<open>One instruction\<close>

lemma tables_ok_registers [simp]: "tables_ok (m\<lparr>registers := R\<rparr>) = tables_ok m"
  by (simp add: tables_ok_def cong: option.case_cong)

definition cpu_inv :: "Machine \<Rightarrow> bool" where
  "cpu_inv m \<longleftrightarrow> tables_ok m \<and> unat (registers m LoadReg) < NumGPRegs"

text \<open>The instruction at the program counter, when it can be fetched.\<close>

definition fetched :: "Machine \<Rightarrow> Instruction option" where
  "fetched m = (case ReadMem (registers m PCReg) 4 m of
     Inr (Inr raw, _) \<Rightarrow> (case Instruction_Decode raw of Inr i \<Rightarrow> Some i | Inl _ \<Rightarrow> None) | _ \<Rightarrow> None)"

lemma DelayedLoad_ok:
  assumes "unat (registers m LoadReg) < NumGPRegs"
  shows "DelayedLoad r v m = Inr (m\<lparr>registers :=
    (registers m)(unat (registers m LoadReg) := registers m LoadValueReg, LoadReg := r, LoadValueReg := v, 0 := 0)\<rparr>)"
proof -
  have "unat (registers m LoadReg) < NumTotalRegs" "unat (registers m LoadReg) \<noteq> LoadValueReg"
    using assms by (simp_all add: reg_defs)
  then show ?thesis by (simp add: DelayedLoad_def Let_def)
qed

lemma RaiseException_ok:
  assumes "unat (registers m LoadReg) < NumGPRegs"
  shows "RaiseException t m = Inr (m\<lparr>registers :=
    (registers m)(BadVAddrReg := snd t, unat (registers m LoadReg) := registers m LoadValueReg,
      LoadReg := 0, LoadValueReg := 0, 0 := 0)\<rparr>)"
  using assms DelayedLoad_ok [of "m\<lparr>registers := (registers m)(BadVAddrReg := snd t)\<rparr>" 0 0]
  by (simp add: RaiseException_def reg_defs)

lemma advance_pc_eq: "advance_pc pc m = m\<lparr>registers := (registers m)(PrevPCReg := registers m PCReg,
    PCReg := registers m NextPCReg, NextPCReg := pc)\<rparr>"
  by (simp add: advance_pc_def upd_def Let_def reg_defs)

text \<open>The three ways an instruction ends.\<close>

lemma OneInstruction_cases:
  assumes "cpu_inv m"
  obtains (assert_fails) i where "OneInstruction m = Inl AssertFail" "fetched m = Some i"
      "opCode i \<in> {OP_LWL, OP_LWR, OP_SWL, OP_SWR}" "(registers m (rs i) + extra i) AND 3 \<noteq> 0"
  | (traps) t m1 where "OneInstruction m = bindE (RaiseException t m1) (\<lambda>m2. Inr (Some t, m2))" "confined m m1"
      "registers m1 = registers m" "mainMemory m1 = mainMemory m"
  | (completes) i m1 m2 pc r v where "fetched m = Some i" "confined m m1" "registers m1 = registers m"
      "exec_switch i m1 = Inr (Done pc r v, m2)" "exec_post m1 (Done pc r v, m2)"
      "OneInstruction m = bindE (DelayedLoad r v m2) (\<lambda>m3. Inr (None, advance_pc pc m3))"
proof -
  have ok: "tables_ok m" using assms by (simp add: cpu_inv_def)
  show thesis
  proof (rule ReadMem_outcome [OF ok, of 4 "registers m PCReg"])
    fix r1 m1 assume r1: "ReadMem (registers m PCReg) 4 m = Inr (r1, m1)" "confined m m1" "registers m1 = registers m"
      "mainMemory m1 = mainMemory m"
    show thesis
    proof (cases r1)
      case (Inl t)
      then show thesis using r1 traps by (simp add: OneInstruction_def)
    next
      case (Inr raw)
      obtain i where i: "Instruction_Decode raw = Inr i" "instr_ok i" "executable_op (opCode i)"
        by (rule Instruction_Decode_ok)
      have f: "fetched m = Some i" using r1 Inr i by (simp add: fetched_def)
      have g: "exec_good i m1 (exec_switch i m1)"
        by (rule exec_switch_good [OF confined_tables_ok [OF r1(2) ok] i(2,3)])
      have O: "OneInstruction m = bindE (exec_switch i m1) (\<lambda>(x, m2). case x of
           Raise t \<Rightarrow> bindE (RaiseException t m2) (\<lambda>m3. Inr (Some t, m3))
         | Done pc r v \<Rightarrow> bindE (DelayedLoad r v m2) (\<lambda>m3. Inr (None, advance_pc pc m3)))"
        using r1 Inr i by (simp add: OneInstruction_def)
      show thesis
      proof (cases "exec_switch i m1")
        case (Inl e)
        then show thesis using g O f assert_fails r1(3) by (simp add: exec_good_def)
      next
        case xm: (Inr xm)
        obtain x m2 where [simp]: "xm = (x, m2)" by fastforce
        have post: "exec_post m1 (x, m2)" using g xm by (simp add: exec_good_def)
        show thesis
        proof (cases x)
          case (Raise t)
          then show thesis
            using traps [of t m2] O xm post r1 confined_trans [OF r1(2)] by (simp add: exec_post_def)
        next
          case (Done pc r v)
          then show thesis using completes [of i m1 pc r v m2] f O xm post r1 by simp
        qed
      qed
    qed
  qed simp
qed

lemma OneInstruction_outcome:
  assumes "cpu_inv m"
  shows "case OneInstruction m of
      Inr (t, m') \<Rightarrow> cpu_inv m' \<and> confined m m' \<and> registers m' 0 = 0
    | Inl e \<Rightarrow> e = AssertFail \<and> (\<exists>i. fetched m = Some i \<and> opCode i \<in> {OP_LWL, OP_LWR, OP_SWL, OP_SWR}
        \<and> (registers m (rs i) + extra i) AND 3 \<noteq> 0)"
  using assms
proof (cases rule: OneInstruction_cases)
  case (assert_fails i)
  then show ?thesis by auto
next
  case (traps t m1)
  then have "unat (registers m1 LoadReg) < NumGPRegs" "tables_ok m1"
    using assms confined_tables_ok by (auto simp: cpu_inv_def)
  then show ?thesis
    using traps by (simp add: RaiseException_ok cpu_inv_def reg_defs)
next
  case (completes i m1 m2 pc r v)
  have c: "confined m m2" using completes confined_trans by (auto simp: exec_post_def)
  have l: "registers m2 LoadReg = registers m LoadReg" "unat r < NumGPRegs"
    using completes(3,5) by (auto simp: exec_post_def reg_defs)
  then have "unat (registers m2 LoadReg) < NumGPRegs" "tables_ok m2"
    using assms confined_tables_ok [OF c] by (auto simp: cpu_inv_def)
  then show ?thesis
    using completes(6) c l by (simp add: DelayedLoad_ok advance_pc_eq cpu_inv_def reg_defs)
qed

text \<open>C10: A user instruction executed on a well-formed machine stays inside its address
  space. It keeps the translation tables up to use and dirty bits, changes only memory in
  frames that its page table maps, leaves register 0 zero and the pending load aimed at a
  general register; the only assertion it can fail is the alignment assertion of the four
  unaligned-access instructions.\<close>

theorem OneInstruction_confined:
  assumes "cpu_inv m"
  shows "case OneInstruction m of
      Inr (t, m') \<Rightarrow> cpu_inv m' \<and> confined m m' \<and> registers m' 0 = 0
    | Inl e \<Rightarrow> e = AssertFail \<and> (\<exists>i. fetched m = Some i \<and> opCode i \<in> {OP_LWL, OP_LWR, OP_SWL, OP_SWR}
        \<and> (registers m (rs i) + extra i) AND 3 \<noteq> 0)"
  by (rule OneInstruction_outcome [OF assms])

text \<open>C34: An instruction that traps can be restarted. Both program counters and memory are
  as before, the bad address register holds the reported address, and the user registers
  differ only by the load that was already pending.\<close>

theorem OneInstruction_restartable:
  assumes "cpu_inv m" "OneInstruction m = Inr (Some t, m')"
  shows "mainMemory m' = mainMemory m \<and> registers m' PCReg = registers m PCReg
    \<and> registers m' NextPCReg = registers m NextPCReg \<and> registers m' BadVAddrReg = snd t
    \<and> (\<forall>r < PCReg. registers m' r = (if r = 0 then 0
         else if r = unat (registers m LoadReg) then registers m LoadValueReg else registers m r))"
  using assms(1)
proof (cases rule: OneInstruction_cases)
  case (assert_fails i)
  then show ?thesis using assms by simp
next
  case (traps t' m1)
  then have "unat (registers m1 LoadReg) < NumGPRegs" using assms(1) by (simp add: cpu_inv_def)
  then show ?thesis
    using traps assms by (auto simp: RaiseException_ok reg_defs)
next
  case (completes i m1 m2 pc r v)
  then have False using assms(2) by (cases "DelayedLoad r v m2") simp_all
  then show ?thesis ..
qed

section \<open>Overflow detection\<close>

lemma sign_xor: "(a XOR b) AND SIGN_BIT = 0 \<longleftrightarrow> bit a 31 = bit b 31"
  using top_bit [of "a XOR b"] by (auto simp: SIGN_BIT_def bit_xor_iff)

definition signed_range :: "int \<Rightarrow> bool" where
  "signed_range x \<longleftrightarrow> - 0x80000000 \<le> x \<and> x < 0x80000000"

lemma uint_range32: "0 \<le> uint w" "uint w < 0x100000000" for w :: "32 word"
  using uint_lt2p [of w] by simp_all

lemma add_overflow:
  "(bit a 31 = bit b 31 \<and> bit a 31 \<noteq> bit (a + b) 31) \<longleftrightarrow> \<not> signed_range (sint a + sint b)" for a b :: "32 word"
  using uint_range32 [of a] uint_range32 [of b] uint_range32 [of "a + b"] uint_add_carry [of a b]
  unfolding signed_range_def sint_uint32 bit31_uint
  by (cases "a + b < b"; cases "0x80000000 \<le> uint a"; cases "0x80000000 \<le> uint b"; cases "0x80000000 \<le> uint (a + b)")
     (simp_all only: if_True if_False simp_thms, linarith+)

lemma sub_overflow:
  "(bit a 31 \<noteq> bit b 31 \<and> bit a 31 \<noteq> bit (a - b) 31) \<longleftrightarrow> \<not> signed_range (sint a - sint b)" for a b :: "32 word"
proof -
  have "a - b + b = a" by simp
  then show ?thesis
    using uint_range32 [of a] uint_range32 [of b] uint_range32 [of "a - b"] uint_add_carry [of "a - b" b]
    unfolding signed_range_def sint_uint32 bit31_uint
    by (cases "a < b"; cases "0x80000000 \<le> uint a"; cases "0x80000000 \<le> uint b"; cases "0x80000000 \<le> uint (a - b)")
       (simp_all only: if_True if_False simp_thms, linarith+)
qed

text \<open>C35: ADD, ADDI and SUB raise the overflow exception exactly when the exact signed result
  does not fit in 32 bits, and otherwise store the exact result; the sign-bit tests of the
  source are equivalent to that.\<close>

theorem overflow_detection:
  "exec_switch (i\<lparr>opCode := OP_ADD\<rparr>) m =
     (let s = sint (registers m (rs i)) + sint (registers m (rt i)) in
      if signed_range s then set_reg (rd i) (of_int s) m else raise OverflowException 0 m)
   \<and> exec_switch (i\<lparr>opCode := OP_ADDI\<rparr>) m =
     (let s = sint (registers m (rs i)) + sint (extra i) in
      if signed_range s then set_reg (rt i) (of_int s) m else raise OverflowException 0 m)
   \<and> exec_switch (i\<lparr>opCode := OP_SUB\<rparr>) m =
     (let s = sint (registers m (rs i)) - sint (registers m (rt i)) in
      if signed_range s then set_reg (rd i) (of_int s) m else raise OverflowException 0 m)"
proof (intro conjI)
  let ?a = "registers m (rs i)" and ?b = "registers m (rt i)"
  show "exec_switch (i\<lparr>opCode := OP_ADD\<rparr>) m = (let s = sint ?a + sint ?b in
      if signed_range s then set_reg (rd i) (of_int s) m else raise OverflowException 0 m)"
    using add_overflow [of ?a ?b] by (auto simp: exec_switch_def or_else_def exec_add_branch_def Let_def sign_xor)
  show "exec_switch (i\<lparr>opCode := OP_ADDI\<rparr>) m = (let s = sint ?a + sint (extra i) in
      if signed_range s then set_reg (rt i) (of_int s) m else raise OverflowException 0 m)"
    using add_overflow [of ?a "extra i"] by (auto simp: exec_switch_def or_else_def exec_add_branch_def Let_def sign_xor)
  show "exec_switch (i\<lparr>opCode := OP_SUB\<rparr>) m = (let s = sint ?a - sint ?b in
      if signed_range s then set_reg (rd i) (of_int s) m else raise OverflowException 0 m)"
    using sub_overflow [of ?a ?b]
    by (auto simp: exec_switch_def or_else_def exec_add_branch_def exec_div_jump_def exec_load_def exec_load_part_def
        exec_mult_or_def exec_store_shift_def Let_def sign_xor)
qed

section \<open>Where the simulator departs from the MIPS architecture\<close>

lemma OP_OR_ignores_rt:
  "opCode i = OP_OR \<Longrightarrow> exec_switch i m = set_reg (rd i) (registers m (rs i)) m"
  by (simp add: exec_switch_def or_else_def exec_add_branch_def exec_div_jump_def exec_load_def exec_load_part_def
      exec_mult_or_def Let_def)

lemma OP_SRA_shifts_in_zeros:
  assumes "opCode i = OP_SRA" "0 < unat (extra i)" "unat (extra i) < 32"
  shows "\<exists>v. exec_switch i m = set_reg (rd i) v m \<and> \<not> bit v 31"
proof -
  let ?v = "drop_bit (unat (extra i)) (registers m (rt i))"
  have "\<not> bit ?v 31" using assms(2) by (auto simp: bit_drop_bit_eq dest: bit_imp_le_length)
  moreover have "exec_switch i m = set_reg (rd i) ?v m"
    using assms(1) by (simp add: exec_switch_def or_else_def exec_add_branch_def exec_div_jump_def exec_load_def
      exec_load_part_def exec_mult_or_def exec_store_shift_def Let_def)
  ultimately show ?thesis by blast
qed

lemma OP_SLT_compares_unsigned:
  assumes "opCode i = OP_SLT" "registers m (rs i) = - 1" "registers m (rt i) = 0"
  shows "exec_switch i m = set_reg (rd i) 0 m"
  using assms
  by (simp add: exec_switch_def or_else_def exec_add_branch_def exec_div_jump_def exec_load_def exec_load_part_def
      exec_mult_or_def exec_store_shift_def Let_def)

lemma OP_BGTZ_taken_on_negative:
  assumes "opCode i = OP_BGTZ" "registers m (rs i) <s 0"
  shows "exec_switch i m = branch_if True i m"
proof -
  have "registers m (rs i) \<noteq> 0" using assms(2) by auto
  then show ?thesis
    using assms(1) by (simp add: exec_switch_def or_else_def exec_add_branch_def Let_def word_gt_0)
qed

text \<open>Concrete instances.\<close>

definition syscall_machine :: Machine where
  "syscall_machine = example_machine\<lparr>mainMemory := (\<lambda>_. 0)(3 * 128 := 12), registers := (\<lambda>_. 0)(LoadReg := 5, LoadValueReg := 7)\<rparr>"

lemma syscall_machine_inv: "cpu_inv syscall_machine"
  by (simp add: cpu_inv_def syscall_machine_def tables_ok_def example_machine_def reg_defs)

lemma syscall_machine_traps: "case OneInstruction syscall_machine of
    Inr (Some t, _) \<Rightarrow> t = (SyscallException, 0) | _ \<Rightarrow> False"
  by code_simp

theorem OneInstruction_confined_witness:
  "case OneInstruction syscall_machine of
      Inr (t, m') \<Rightarrow> cpu_inv m' \<and> confined syscall_machine m' \<and> registers m' 0 = 0
    | Inl e \<Rightarrow> e = AssertFail \<and> (\<exists>i. fetched syscall_machine = Some i \<and> opCode i \<in> {OP_LWL, OP_LWR, OP_SWL, OP_SWR}
        \<and> (registers syscall_machine (rs i) + extra i) AND 3 \<noteq> 0)"
  by (rule OneInstruction_confined [OF syscall_machine_inv])

theorem OneInstruction_restartable_witness:
  "\<exists>m'. OneInstruction syscall_machine = Inr (Some (SyscallException, 0), m') \<and> registers m' PCReg = 0 \<and> registers m' 5 = 7"
proof -
  obtain m' where m': "OneInstruction syscall_machine = Inr (Some (SyscallException, 0), m')"
    using syscall_machine_traps by (auto split: sum.splits option.splits)
  show ?thesis
    using OneInstruction_restartable [OF syscall_machine_inv m'] m'
    by (auto simp: syscall_machine_def reg_defs)
qed

section \<open>System call instructions\<close>

lemma fetched_same:
  assumes "fetched m = Some i" "tables_ok m" "same_map m m'" "mainMemory m' = mainMemory m" "registers m' PCReg = registers m PCReg"
  shows "fetched m' = Some i"
proof -
  let ?pc = "registers m PCReg"
  have ok': "tables_ok m'" using same_map_tables_ok [OF assms(3,2)] .
  show ?thesis
  proof (rule ReadMem_cases [OF assms(2), of 4 ?pc])
    fix e assume "ReadMem ?pc 4 m = Inr (Inl (e, ?pc), m)"
    then show ?thesis using assms(1) by (simp add: fetched_def)
  next
    fix p a j m1 assume r: "ReadMem ?pc 4 m = Inr (Inr (load_bytes (mainMemory m) p 4), m1)" "granted ?pc 4 False m a j p"
    obtain m2 where "ReadMem ?pc 4 m' = Inr (Inr (load_bytes (mainMemory m') p 4), m2)"
    proof (rule Machine_Translate_granted [OF ok' _ granted_same_map [OF assms(3,2) r(2)]])
      fix m2 assume "Machine_Translate ?pc 4 False m' = Inr (Inr p, m2)" "\<exists>h. m2 = m'\<lparr>te_heap := h\<rparr>"
      then show thesis using that by (auto simp: ReadMem_eq)
    qed simp
    then show ?thesis using assms r(1) by (simp add: fetched_def)
  qed simp
qed

lemma syscall_traps:
  assumes "cpu_inv m" "fetched m = Some i" "opCode i = OP_SYSCALL" "registers m LoadReg = 0"
  obtains m' where "OneInstruction m = Inr (Some (SyscallException, 0), m')" "cpu_inv m'" "fetched m' = Some i"
    "registers m' LoadReg = 0" "registers m' PCReg = registers m PCReg" "registers m' 2 = registers m 2" "mainMemory m' = mainMemory m"
proof -
  obtain raw m1 where r: "ReadMem (registers m PCReg) 4 m = Inr (Inr raw, m1)" "Instruction_Decode raw = Inr i"
    using assms(2) by (auto simp: fetched_def split: sum.splits prod.splits)
  have ok: "tables_ok m" using assms(1) by (simp add: cpu_inv_def)
  have m1: "same_map m m1" "mainMemory m1 = mainMemory m" "registers m1 = registers m"
    using r(1) by (auto intro: ReadMem_cases [OF ok, of 4 "registers m PCReg"])
  define m' where "m' = m1\<lparr>registers := (registers m)(BadVAddrReg := 0, 0 := 0, LoadReg := 0, LoadValueReg := 0)\<rparr>"
  have "RaiseException (SyscallException, 0) m1 = Inr m'"
    using m1(3) assms(4) by (simp add: RaiseException_def DelayedLoad_ok m'_def reg_defs fun_upd_twist)
  then have "OneInstruction m = Inr (Some (SyscallException, 0), m')"
    using r assms(3) by (simp add: OneInstruction_def exec_switch_def exec_add_branch_def exec_div_jump_def exec_load_def exec_load_part_def
        exec_mult_or_def exec_store_shift_def exec_store_part_def or_else_def raise_def)
  moreover have sm: "same_map m m'" using m1(1) by (simp add: m'_def same_map_def)
  moreover have "fetched m' = Some i"
    using m1(2) by (intro fetched_same [OF assms(2) ok sm]) (simp_all add: m'_def reg_defs)
  ultimately show thesis
    using that same_map_tables_ok [OF sm ok] m1(2) by (simp add: cpu_inv_def m'_def reg_defs)
qed

end
