(* ===== verification/Managers.thy ===== *)
theory Managers
  imports NachosList Bitmap
begin

text \<open>
  The kernel's managers of physical pages and process identifiers
  (\<^verbatim>\<open>userprog/memorymanager.cc\<close>, \<^verbatim>\<open>userprog/processmanager.cc\<close>) and the
  process control block (\<^verbatim>\<open>userprog/pcb.cc\<close>). The three classes guard their
  operations with a \<^verbatim>\<open>Lock\<close>; in this build the lock operations are empty
  (\<^verbatim>\<open>threads/synch.cc\<close> without \<^verbatim>\<open>THREADS\<close>), so a guarded section is the
  operation inside it. PCBs are named by their address.
\<close>

section \<open>Memory manager\<close>

record MemoryManager =
  virtMem :: BitMap

definition MemoryManager_new :: "(nat \<Rightarrow> 32 word) \<Rightarrow> int \<Rightarrow> MemoryManager res" where
  "MemoryManager_new garbage numTotalPages =
     bindE (BitMap_new garbage numTotalPages) (\<lambda>b. Inr \<lparr>virtMem = b\<rparr>)"

definition getPage :: "MemoryManager \<Rightarrow> (int \<times> MemoryManager) res" where
  "getPage mm = bindE (BitMap_Find (virtMem mm)) (\<lambda>(pageNum, b). Inr (pageNum, mm\<lparr>virtMem := b\<rparr>))"

definition clearPage :: "int \<Rightarrow> MemoryManager \<Rightarrow> MemoryManager res" where
  "clearPage pageId mm = bindE (BitMap_Clear pageId (virtMem mm)) (\<lambda>b. Inr (mm\<lparr>virtMem := b\<rparr>))"

definition MemoryManager_getFree :: "MemoryManager \<Rightarrow> (32 word) res" where
  "MemoryManager_getFree mm = bindE (BitMap_NumClear (virtMem mm)) (\<lambda>n. Inr (of_int n))"

section \<open>Process control blocks\<close>

text \<open>
  \<open>processThread\<close> is the address of the thread, \<open>parent_process\<close> that of the parent's
  PCB; a child list holds PCB pointers. The constructor leaves the identifier, the parent and the exit value uninitialised.
\<close>

record PCB =
  processThread :: nat
  processID :: int
  parent_process :: "nat option"
  pcb_children :: "nat option nlist"
  childExitValue :: int

definition PCB_new :: "int \<Rightarrow> nat option \<Rightarrow> int \<Rightarrow> nat \<Rightarrow> PCB" where
  "PCB_new junkID junkParent junkExit input =
     \<lparr>processThread = input, processID = junkID, parent_process = junkParent, pcb_children = List_new,
      childExitValue = junkExit\<rparr>"

definition PCB_destroy :: "PCB \<Rightarrow> unit res" where
  "PCB_destroy p = bindE (List_destroy (pcb_children p)) (\<lambda>_. Inr ())"

definition PCB_getID :: "PCB \<Rightarrow> int" where "PCB_getID p = processID p"
definition PCB_getCode :: "PCB \<Rightarrow> int" where "PCB_getCode p = childExitValue p"
definition PCB_getThread :: "PCB \<Rightarrow> nat" where "PCB_getThread p = processThread p"
definition PCB_getParent :: "PCB \<Rightarrow> nat option" where "PCB_getParent p = parent_process p"
definition PCB_getChildren :: "PCB \<Rightarrow> nat option nlist" where "PCB_getChildren p = pcb_children p"

definition PCB_set :: "int \<Rightarrow> nat option \<Rightarrow> PCB \<Rightarrow> PCB" where
  "PCB_set pid parent p = p\<lparr>processID := pid, parent_process := parent\<rparr>"

definition PCB_setExit :: "int \<Rightarrow> PCB \<Rightarrow> PCB" where
  "PCB_setExit code p = p\<lparr>childExitValue := code\<rparr>"

definition PCB_addChild :: "nat option \<Rightarrow> PCB \<Rightarrow> (bool \<times> PCB) res" where
  "PCB_addChild childId p =
     bindE (List_Append childId (pcb_children p)) (\<lambda>l. Inr (True, p\<lparr>pcb_children := l\<rparr>))"

definition PCB_removeChild :: "nat option \<Rightarrow> PCB \<Rightarrow> (bool \<times> PCB) res" where
  "PCB_removeChild childId p =
     bindE (List_RemoveElement childId (pcb_children p)) (\<lambda>(child, l). Inr (child \<noteq> None, p\<lparr>pcb_children := l\<rparr>))"

definition PCB_isChild :: "nat option \<Rightarrow> PCB \<Rightarrow> bool res" where
  "PCB_isChild childId p = List_Search childId (pcb_children p)"

section \<open>Process manager\<close>

text \<open>The table is an array of PCB pointers that the constructor does not initialise.\<close>

record ProcessManager =
  pm_map :: BitMap
  pcbTable :: "nat option list"

definition ProcessManager_new :: "(nat \<Rightarrow> 32 word) \<Rightarrow> (nat \<Rightarrow> nat option) \<Rightarrow> int \<Rightarrow> ProcessManager res" where
  "ProcessManager_new garbage junk sz =
     bindE (BitMap_new garbage sz) (\<lambda>b. Inr \<lparr>pm_map = b, pcbTable = map junk [0..<nat sz]\<rparr>)"

definition getPID :: "ProcessManager \<Rightarrow> (int \<times> ProcessManager) res" where
  "getPID pm = bindE (BitMap_Find (pm_map pm)) (\<lambda>(pid, b). Inr (pid, pm\<lparr>pm_map := b\<rparr>))"

definition table_set :: "int \<Rightarrow> nat option \<Rightarrow> ProcessManager \<Rightarrow> ProcessManager res" where
  "table_set pid v pm = (if pid < 0 then Inl OutOfBounds
     else bindE (arr_set (pcbTable pm) (nat pid) v) (\<lambda>t. Inr (pm\<lparr>pcbTable := t\<rparr>)))"

definition clearPID :: "int \<Rightarrow> ProcessManager \<Rightarrow> ProcessManager res" where
  "clearPID pid pm =
     bindE (BitMap_Clear pid (pm_map pm)) (\<lambda>b. table_set pid None (pm\<lparr>pm_map := b\<rparr>))"

definition ProcessManager_getFree :: "ProcessManager \<Rightarrow> int res" where
  "ProcessManager_getFree pm = BitMap_NumClear (pm_map pm)"

definition addPCB :: "nat \<Rightarrow> PCB \<Rightarrow> ProcessManager \<Rightarrow> ProcessManager res" where
  "addPCB p pcb pm = table_set (PCB_getID pcb) (Some p) pm"

definition removePCB :: "int \<Rightarrow> ProcessManager \<Rightarrow> ProcessManager res" where
  "removePCB pid pm = table_set pid None pm"

definition getProcess :: "int \<Rightarrow> ProcessManager \<Rightarrow> (nat option) res" where
  "getProcess pid pm =
     bindE (BitMap_Test pid (pm_map pm)) (\<lambda>used.
       if used then (if pid < 0 then Inl OutOfBounds else arr_get (pcbTable pm) (nat pid)) else Inr None)"

section \<open>Memory manager: behaviour\<close>

definition mm_used :: "MemoryManager \<Rightarrow> nat set" where
  "mm_used mm = BitMap_bits (virtMem mm)"

definition mm_size :: "MemoryManager \<Rightarrow> nat" where
  "mm_size mm = BitMap_size (virtMem mm)"

text \<open>The manager fits the 32-bit counters of its clients.\<close>

definition mm_inv :: "MemoryManager \<Rightarrow> bool" where
  "mm_inv mm \<longleftrightarrow> BitMap_inv (virtMem mm) \<and> mm_size mm < 2 ^ 32"

lemmas mm_defs = mm_used_def mm_size_def mm_inv_def

definition mm_free :: "MemoryManager \<Rightarrow> nat" where
  "mm_free mm = mm_size mm - card (mm_used mm)"

lemma mm_used_bounds: "mm_inv mm \<Longrightarrow> mm_used mm \<subseteq> {..<mm_size mm}"
  using BitMap_bits_subset by (simp add: mm_defs)

lemma mm_used_finite: "mm_inv mm \<Longrightarrow> finite (mm_used mm)"
  using mm_used_bounds finite_subset by blast

lemma MemoryManager_new_spec:
  assumes "0 \<le> n" "n < 2 ^ 32"
  shows "\<exists>mm. MemoryManager_new garbage n = Inr mm \<and> mm_inv mm \<and> mm_size mm = nat n \<and> mm_used mm = {}"
proof -
  have "nat n < 2 ^ 32" using assms by (simp add: nat_less_iff)
  then show ?thesis
    using BitMap_new_spec [OF assms(1), of garbage] by (auto simp: MemoryManager_new_def mm_defs)
qed

lemma getPage_spec:
  assumes "mm_inv mm" "0 < mm_free mm"
  obtains f mm' where "getPage mm = Inr (int f, mm')" "mm_inv mm'" "mm_size mm' = mm_size mm" "f < mm_size mm"
    "f \<notin> mm_used mm" "mm_used mm' = insert f (mm_used mm)" "mm_free mm = Suc (mm_free mm')"
proof -
  have b: "BitMap_inv (virtMem mm)" "card (BitMap_bits (virtMem mm)) < BitMap_size (virtMem mm)"
    using assms by (simp_all add: mm_defs mm_free_def)
  show thesis
  proof (rule bitmap.find_step [OF b])
    fix j b' assume f: "BitMap_Find (virtMem mm) = Inr (int j, b')" "BitMap_inv b'"
      "BitMap_size b' = BitMap_size (virtMem mm)" "j < BitMap_size (virtMem mm)" "j \<notin> BitMap_bits (virtMem mm)"
      "BitMap_bits b' = insert j (BitMap_bits (virtMem mm))" "card (BitMap_bits b') = Suc (card (BitMap_bits (virtMem mm)))"
    show thesis
      using assms f b(2) by (intro that [of j "mm\<lparr>virtMem := b'\<rparr>"]) (auto simp: getPage_def mm_defs mm_free_def)
  qed
qed

lemma clearPage_spec:
  assumes "mm_inv mm" "f < mm_size mm"
  shows "\<exists>mm'. clearPage (int f) mm = Inr mm' \<and> mm_inv mm' \<and> mm_size mm' = mm_size mm \<and> mm_used mm' = mm_used mm - {f}"
  using BitMap_Clear_spec [of "virtMem mm" "int f"] assms by (auto simp: clearPage_def mm_defs)

lemma MemoryManager_getFree_spec: "mm_inv mm \<Longrightarrow> MemoryManager_getFree mm = Inr (of_nat (mm_free mm))"
  by (simp add: MemoryManager_getFree_def mm_defs mm_free_def BitMap_NumClear_spec)

lemma mm_free_bound: "mm_inv mm \<Longrightarrow> mm_free mm < 2 ^ 32"
  unfolding mm_inv_def mm_free_def by linarith

lemma unat_mm_free: "mm_inv mm \<Longrightarrow> unat (of_nat (mm_free mm) :: 32 word) = mm_free mm"
  using mm_free_bound by (simp add: unat_of_nat)

section \<open>Process manager: behaviour\<close>

text \<open>
  The live processes: identifiers in use, with the PCB stored for them. A reserved identifier
  without a PCB yet has the value that was left in the table.
\<close>

definition pm_inv :: "ProcessManager \<Rightarrow> bool" where
  "pm_inv pm \<longleftrightarrow> BitMap_inv (pm_map pm) \<and> length (pcbTable pm) = BitMap_size (pm_map pm)"

definition pm_live :: "ProcessManager \<Rightarrow> int \<rightharpoonup> nat" where
  "pm_live pm pid = (if 0 \<le> pid \<and> nat pid \<in> BitMap_bits (pm_map pm) then pcbTable pm ! nat pid else None)"

lemma getProcess_spec:
  assumes "pm_inv pm"
  shows "getProcess pid pm = (if 0 \<le> pid \<and> pid < int (length (pcbTable pm)) then Inr (pm_live pm pid) else Inl AssertFail)"
  using assms by (auto simp: getProcess_def pm_inv_def pm_live_def BitMap_Test_spec)

lemma table_set_spec:
  assumes "pm_inv pm" "0 \<le> pid" "pid < int (length (pcbTable pm))"
  shows "table_set pid v pm = Inr (pm\<lparr>pcbTable := (pcbTable pm)[nat pid := v]\<rparr>)"
  using assms by (simp add: table_set_def nat_less_iff)

lemma getPID_spec:
  assumes "pm_inv pm" "getPID pm = Inr (pid, pm1)" "pid \<ge> 0"
  obtains j b where "BitMap_inv b" "BitMap_size b = BitMap_size (pm_map pm)" "j < BitMap_size (pm_map pm)"
    "j \<notin> BitMap_bits (pm_map pm)" "BitMap_bits b = insert j (BitMap_bits (pm_map pm))"
    "pid = int j" "pm1 = pm\<lparr>pm_map := b\<rparr>"
proof -
  let ?b = "pm_map pm"
  have inv: "BitMap_inv ?b" using assms(1) by (simp add: pm_inv_def)
  have "card (BitMap_bits ?b) < BitMap_size ?b"
  proof (rule ccontr)
    assume "\<not> card (BitMap_bits ?b) < BitMap_size ?b"
    then have "BitMap_bits ?b = {..<BitMap_size ?b}"
      by (intro card_seteq) (simp_all add: BitMap_bits_subset)
    then show False using assms(2,3) BitMap_Find_full [OF inv] by (simp add: getPID_def)
  qed
  then show thesis
  proof (rule bitmap.find_step [OF inv])
    fix j b' assume "BitMap_Find ?b = Inr (int j, b')" "BitMap_inv b'" "BitMap_size b' = BitMap_size ?b"
      "j < BitMap_size ?b" "j \<notin> BitMap_bits ?b" "BitMap_bits b' = insert j (BitMap_bits ?b)"
    then show thesis using assms(2) that [of b' j] by (auto simp: getPID_def)
  qed
qed

text \<open>The process table behaves like a finite map. After an unused identifier is taken and a
  PCB is added under it, looking it up returns that PCB and every other process is found as
  before; after the identifier is cleared, looking it up returns the null pointer and every
  other process is still found.\<close>

theorem process_table_map:
  assumes "pm_inv pm" "getPID pm = Inr (pid, pm1)" "pid \<ge> 0" "PCB_getID pcb = pid"
  shows "\<exists>pm2 pm3. addPCB p pcb pm1 = Inr pm2 \<and> clearPID pid pm2 = Inr pm3 \<and> pm_inv pm2 \<and> pm_inv pm3
    \<and> pm_live pm2 = (pm_live pm)(pid \<mapsto> p) \<and> pm_live pm3 = pm_live pm
    \<and> (\<forall>q. 0 \<le> q \<and> q < int (length (pcbTable pm)) \<longrightarrow>
         getProcess q pm2 = Inr (((pm_live pm)(pid \<mapsto> p)) q) \<and> getProcess q pm3 = Inr (pm_live pm q))"
proof -
  have inv: "BitMap_inv (pm_map pm)" and len: "length (pcbTable pm) = BitMap_size (pm_map pm)"
    using assms(1) by (auto simp: pm_inv_def)
  obtain j b1 where f: "BitMap_inv b1" "BitMap_size b1 = BitMap_size (pm_map pm)" "j < BitMap_size (pm_map pm)"
      "j \<notin> BitMap_bits (pm_map pm)" "BitMap_bits b1 = insert j (BitMap_bits (pm_map pm))"
    and pid: "pid = int j" and pm1: "pm1 = pm\<lparr>pm_map := b1\<rparr>"
    by (rule getPID_spec [OF assms(1-3)])
  define pm2 where "pm2 = pm1\<lparr>pcbTable := (pcbTable pm)[j := Some p]\<rparr>"
  have add: "addPCB p pcb pm1 = Inr pm2"
    using f len assms(4) by (simp add: addPCB_def table_set_def pm2_def pm1 pid)
  have inv2: "pm_inv pm2" using f len by (simp add: pm_inv_def pm2_def pm1)
  have live2: "pm_live pm2 = (pm_live pm)(pid \<mapsto> p)"
    using f len by (auto simp: pm_live_def pm2_def pm1 pid fun_eq_iff nth_list_update)
  obtain b3 where c: "BitMap_Clear (int j) b1 = Inr b3" "BitMap_inv b3" "BitMap_size b3 = BitMap_size b1"
      "BitMap_bits b3 = BitMap_bits b1 - {j}"
    using BitMap_Clear_spec [OF f(1), of "int j"] f(2,3) by auto
  define pm3 where "pm3 = pm2\<lparr>pm_map := b3, pcbTable := (pcbTable pm)[j := None]\<rparr>"
  have clr: "clearPID pid pm2 = Inr pm3"
    using c f len by (simp add: clearPID_def table_set_def pm3_def pm2_def pm1 pid)
  have inv3: "pm_inv pm3" using c f len by (simp add: pm_inv_def pm3_def)
  have live3: "pm_live pm3 = pm_live pm"
    using c f len by (auto simp: pm_live_def pm3_def fun_eq_iff nth_list_update)
  have "\<forall>q. 0 \<le> q \<and> q < int (length (pcbTable pm)) \<longrightarrow>
         getProcess q pm2 = Inr (((pm_live pm)(pid \<mapsto> p)) q) \<and> getProcess q pm3 = Inr (pm_live pm q)"
    using getProcess_spec [OF inv2] getProcess_spec [OF inv3] live2 live3 by (simp add: pm2_def pm3_def)
  with add clr inv2 inv3 live2 live3 show ?thesis by blast
qed

theorem process_table_map_witness:
  "\<exists>pm pm1 pm2. ProcessManager_new (\<lambda>_. 0) (\<lambda>_. Some 99) 10 = Inr pm \<and> getPID pm = Inr (0, pm1)
     \<and> addPCB 7 (PCB_set 0 None (PCB_new 0 None 0 0)) pm1 = Inr pm2 \<and> getProcess 0 pm2 = Inr (Some 7)
     \<and> getProcess 3 pm2 = Inr None"
proof -
  obtain b where b: "BitMap_new (\<lambda>_. 0) 10 = Inr b" "BitMap_inv b" "BitMap_size b = 10" "BitMap_bits b = {}"
    using BitMap_new_spec [of 10 "\<lambda>_. 0"] by auto
  define pm where "pm = \<lparr>pm_map = b, pcbTable = map (\<lambda>_. Some 99) [0..<10]\<rparr>"
  have new: "ProcessManager_new (\<lambda>_. 0) (\<lambda>_. Some 99) 10 = Inr pm"
    using b by (simp add: ProcessManager_new_def pm_def)
  have inv: "pm_inv pm" using b by (simp add: pm_inv_def pm_def)
  have "0 \<in> {..<BitMap_size b}" "0 \<notin> BitMap_bits b" using b(3,4) by simp_all
  then have ne: "BitMap_bits b \<noteq> {..<BitMap_size b}" by blast
  have "(LEAST i. i \<notin> BitMap_bits b) = 0" using b(4) by simp
  then obtain b1 where "BitMap_Find b = Inr (0, b1)"
    using BitMap_Find_free [OF b(2) ne] by auto
  then have g: "getPID pm = Inr (0, pm\<lparr>pm_map := b1\<rparr>)" by (simp add: getPID_def pm_def)
  have "pm_live pm = (\<lambda>_. None)" using b(4) by (auto simp: pm_live_def pm_def)
  then obtain pm2 where "addPCB 7 (PCB_set 0 None (PCB_new 0 None 0 0)) (pm\<lparr>pm_map := b1\<rparr>) = Inr pm2"
      "getProcess 0 pm2 = Inr (Some 7)" "getProcess 3 pm2 = Inr None"
    using process_table_map [OF inv g, of "PCB_set 0 None (PCB_new 0 None 0 0)" 7]
    by (auto simp: PCB_set_def PCB_getID_def pm_def)
  then show ?thesis using new g by blast
qed

section \<open>Taking identifiers\<close>

lemma getPID_free:
  assumes "pm_inv pm" "BitMap_bits (pm_map pm) \<noteq> {..<BitMap_size (pm_map pm)}"
  obtains pid pm1 where "getPID pm = Inr (pid, pm1)" "pid \<ge> 0"
  using BitMap_Find_free [of "pm_map pm"] assms by (auto simp: getPID_def pm_inv_def)

lemma getPID_full:
  assumes "pm_inv pm" "BitMap_bits (pm_map pm) = {..<BitMap_size (pm_map pm)}"
  shows "getPID pm = Inr (-1, pm)"
  using BitMap_Find_full [of "pm_map pm"] assms by (simp add: getPID_def pm_inv_def)

lemma addPCB_after_getPID:
  assumes "pm_inv pm" "getPID pm = Inr (pid, pm1)" "pid \<ge> 0" "PCB_getID b = pid"
  obtains pm2 where "addPCB p b pm1 = Inr pm2" "pm_inv pm2" "pm_live pm2 = (pm_live pm)(pid \<mapsto> p)"
proof -
  obtain j m where f: "BitMap_inv m" "BitMap_size m = BitMap_size (pm_map pm)" "j < BitMap_size (pm_map pm)"
    "BitMap_bits m = insert j (BitMap_bits (pm_map pm))" "pid = int j" "pm1 = pm\<lparr>pm_map := m\<rparr>"
    by (rule getPID_spec [OF assms(1-3)])
  define pm2 where "pm2 = pm1\<lparr>pcbTable := (pcbTable pm)[j := Some p]\<rparr>"
  show thesis
  proof (rule that [of pm2])
    show "addPCB p b pm1 = Inr pm2" using f assms(1,4) by (simp add: addPCB_def table_set_def pm2_def pm_inv_def)
    show "pm_inv pm2" using f assms(1) by (simp add: pm_inv_def pm2_def)
    show "pm_live pm2 = (pm_live pm)(pid \<mapsto> p)"
      using f assms(1) by (auto simp: pm_live_def pm2_def pm_inv_def fun_eq_iff nth_list_update)
  qed
qed

end
