(* ===== verification/AddrSpace.thy ===== *)
theory AddrSpace
  imports Managers Machine
begin

text \<open>
  User address spaces, \<^verbatim>\<open>userprog/addrspace.cc\<close> as built with
  \<^verbatim>\<open>CHANGED\<close>: allocation of physical pages through the memory manager, loading of
  NOFF executables, replacing and copying an address space. The state is the machine, the
  memory manager and the address the next page table gets; \<open>km_junk\<close> and \<open>km_junkb\<close> are the
  contents of uninitialised entries and buffers. Executables are host files
  (\<^verbatim>\<open>FILESYS_STUB\<close>), that is byte lists; opening a file by name is a parameter.
\<close>

unbundle bit_operations_syntax

section \<open>State and memory blocks\<close>

record KMem =
  km_machine :: Machine
  km_mm :: MemoryManager
  km_next :: nat
  km_junk :: "nat \<Rightarrow> TranslationEntry"
  km_junkb :: "nat \<Rightarrow> byte"

text \<open>The field \<^verbatim>\<open>pcb\<close> of an address space is not initialised by its constructors; the callers set it before it is read, and it is \<open>None\<close> until then.\<close>

record AddrSpace =
  as_pageTable :: nat
  numPages :: "32 word"
  as_pcb :: "nat option"

definition UserStackSize :: "32 word" where "UserStackSize = 1024"

text \<open>\<^verbatim>\<open>bzero\<close> and \<^verbatim>\<open>bcopy\<close> on the simulated memory, an array of
  \<open>MemorySize\<close> bytes.\<close>

definition bzero :: "nat \<Rightarrow> nat \<Rightarrow> Machine \<Rightarrow> Machine res" where
  "bzero p n m = (if p + n \<le> MemorySize
     then Inr (m\<lparr>mainMemory := (\<lambda>q. if p \<le> q \<and> q < p + n then 0 else mainMemory m q)\<rparr>) else Inl OutOfBounds)"

definition bcopy :: "nat \<Rightarrow> nat \<Rightarrow> nat \<Rightarrow> Machine \<Rightarrow> Machine res" where
  "bcopy src dst n m = (if src + n \<le> MemorySize \<and> dst + n \<le> MemorySize
     then Inr (m\<lparr>mainMemory := (\<lambda>q. if dst \<le> q \<and> q < dst + n then mainMemory m (src + (q - dst)) else mainMemory m q)\<rparr>)
     else Inl OutOfBounds)"

definition bcopy_in :: "byte list \<Rightarrow> nat \<Rightarrow> nat \<Rightarrow> nat \<Rightarrow> Machine \<Rightarrow> Machine res" where
  "bcopy_in buffer off dst n m = (if off + n \<le> length buffer \<and> dst + n \<le> MemorySize
     then Inr (m\<lparr>mainMemory := (\<lambda>q. if dst \<le> q \<and> q < dst + n then buffer ! (off + (q - dst)) else mainMemory m q)\<rparr>)
     else Inl OutOfBounds)"

definition set_entry :: "nat \<Rightarrow> nat \<Rightarrow> TranslationEntry \<Rightarrow> Machine \<Rightarrow> Machine res" where
  "set_entry pt i e m = bindE (read_table m pt) (\<lambda>t. bindE (arr_set t i e) (\<lambda>t'.
     Inr (m\<lparr>te_heap := (te_heap m)(pt \<mapsto> t')\<rparr>)))"

definition get_entry :: "nat \<Rightarrow> nat \<Rightarrow> Machine \<Rightarrow> TranslationEntry res" where
  "get_entry pt i m = bindE (read_table m pt) (\<lambda>t. arr_get t i)"

text \<open>\<^verbatim>\<open>new TranslationEntry[n]\<close> and \<^verbatim>\<open>delete\<close>.\<close>

definition new_table :: "nat \<Rightarrow> KMem \<Rightarrow> nat \<times> KMem" where
  "new_table n km = (km_next km, km\<lparr>km_next := Suc (km_next km),
     km_machine := (km_machine km)\<lparr>te_heap := (te_heap (km_machine km))(km_next km \<mapsto> map (km_junk km) [0..<n])\<rparr>\<rparr>)"

definition delete_table :: "nat \<Rightarrow> KMem \<Rightarrow> KMem res" where
  "delete_table pt km = bindE (read_table (km_machine km) pt) (\<lambda>_.
     Inr (km\<lparr>km_machine := (km_machine km)\<lparr>te_heap := (te_heap (km_machine km))(pt := None)\<rparr>\<rparr>))"

section \<open>Executables\<close>

record Segment =
  virtualAddr :: "32 word"
  inFileAddr :: "32 word"
  seg_size :: "32 word"

record NoffHeader =
  noffMagic :: "32 word"
  code_seg :: Segment
  initData :: Segment
  uninitData :: Segment

definition NOFFMAGIC :: "32 word" where "NOFFMAGIC = 0xbadfad"

text \<open>
  \<^verbatim>\<open>OpenFile::ReadAt\<close> of the host file system: seeking to a negative position fails
  its assertion; what lies beyond the end of the file leaves the buffer as it was.
\<close>

definition stub_ReadAt :: "(nat \<Rightarrow> byte) \<Rightarrow> byte list \<Rightarrow> nat \<Rightarrow> 32 word \<Rightarrow> (byte list) res" where
  "stub_ReadAt junk file n position =
     (if position <s 0 then Inl AssertFail
      else Inr (map (\<lambda>k. if unat position + k < length file then file ! (unat position + k) else junk k) [0..<n]))"

definition read_Segment :: "bool \<Rightarrow> byte list \<Rightarrow> nat \<Rightarrow> Segment" where
  "read_Segment big buf k = \<lparr>virtualAddr = host_read4 big ((!) buf) k,
     inFileAddr = host_read4 big ((!) buf) (k + 4), seg_size = host_read4 big ((!) buf) (k + 8)\<rparr>"

definition read_NoffHeader :: "bool \<Rightarrow> byte list \<Rightarrow> NoffHeader" where
  "read_NoffHeader big buf = \<lparr>noffMagic = host_read4 big ((!) buf) 0, code_seg = read_Segment big buf 4,
     initData = read_Segment big buf 16, uninitData = read_Segment big buf 28\<rparr>"

definition SwapSegment :: "bool \<Rightarrow> Segment \<Rightarrow> Segment" where
  "SwapSegment big s = \<lparr>virtualAddr = WordToHost big (virtualAddr s), inFileAddr = WordToHost big (inFileAddr s),
     seg_size = WordToHost big (seg_size s)\<rparr>"

definition SwapHeader :: "bool \<Rightarrow> NoffHeader \<Rightarrow> NoffHeader" where
  "SwapHeader big h = \<lparr>noffMagic = WordToHost big (noffMagic h), code_seg = SwapSegment big (code_seg h),
     initData = SwapSegment big (initData h), uninitData = SwapSegment big (uninitData h)\<rparr>"

definition load_header :: "byte list \<Rightarrow> KMem \<Rightarrow> NoffHeader res" where
  "load_header file km =
     (let big = hostBigEndian (km_machine km) in
      bindE (stub_ReadAt (km_junkb km) file 40 0) (\<lambda>buf.
      let h = read_NoffHeader big buf;
          h = (if noffMagic h \<noteq> NOFFMAGIC \<and> WordToHost big (noffMagic h) = NOFFMAGIC then SwapHeader big h else h)
      in bindE (assertE (noffMagic h = NOFFMAGIC)) (\<lambda>_. Inr h)))"

text \<open>The page count: unsigned arithmetic of C, with the macro \<^verbatim>\<open>divRoundUp\<close> on
  unsigned operands.\<close>

definition pages_of :: "NoffHeader \<Rightarrow> 32 word" where
  "pages_of h = (let sz = seg_size (code_seg h) + seg_size (initData h) + seg_size (uninitData h) + UserStackSize
     in sz div of_nat PageSize + (if sz mod of_nat PageSize > 0 then 1 else 0))"

section \<open>The operations of addrspace.cc\<close>

definition AddrSpace_RestoreState :: "AddrSpace \<Rightarrow> Machine \<Rightarrow> Machine" where
  "AddrSpace_RestoreState a m = m\<lparr>pageTable := Some (as_pageTable a), pageTableSize := numPages a\<rparr>"

definition AddrSpace_InitRegisters :: "AddrSpace \<Rightarrow> Machine \<Rightarrow> Machine res" where
  "AddrSpace_InitRegisters a m =
     bindE (foldE (\<lambda>i. WriteRegister (int i) 0) [0..<NumTotalRegs] m) (\<lambda>m.
     bindE (WriteRegister (int PCReg) 0 m) (\<lambda>m.
     bindE (WriteRegister (int NextPCReg) 4 m) (\<lambda>m.
     WriteRegister (int StackReg) (numPages a * of_nat PageSize - 16) m)))"

text \<open>
  One iteration of the two loops that give every page of a table a physical page:
  \<open>mk\<close> computes the entry from the page number and the new frame, \<open>fill\<close> sets the frame's
  contents.
\<close>

definition page_step :: "nat \<Rightarrow> (nat \<Rightarrow> 32 word \<Rightarrow> Machine \<Rightarrow> TranslationEntry res)
    \<Rightarrow> (nat \<Rightarrow> 32 word \<Rightarrow> Machine \<Rightarrow> Machine res) \<Rightarrow> nat \<Rightarrow> KMem \<Rightarrow> KMem res" where
  "page_step pt mk fill i km =
     bindE (getPage (km_mm km)) (\<lambda>(pg, mm).
     let f = of_int pg in
     bindE (mk i f (km_machine km)) (\<lambda>e.
     bindE (set_entry pt i e (km_machine km)) (\<lambda>m.
     bindE (fill i f m) (\<lambda>m'. Inr (km\<lparr>km_machine := m', km_mm := mm\<rparr>)))))"

definition InitializePageTable :: "AddrSpace \<Rightarrow> KMem \<Rightarrow> KMem res" where
  "InitializePageTable a km = foldE (page_step (as_pageTable a)
     (\<lambda>i f m. Inr \<lparr>virtualPage = of_nat i, physicalPage = f, valid = True, readOnly = False, use_bit = False, dirty = False\<rparr>)
     (\<lambda>i f. bzero (unat (f * of_nat PageSize)) PageSize)) [0..<unat (numPages a)] km"

definition ReleasePhysicalMemory :: "AddrSpace \<Rightarrow> KMem \<Rightarrow> KMem res" where
  "ReleasePhysicalMemory a km = foldE (\<lambda>i km.
     bindE (get_entry (as_pageTable a) i (km_machine km)) (\<lambda>e.
     bindE (clearPage (sint (physicalPage e)) (km_mm km)) (\<lambda>mm. Inr (km\<lparr>km_mm := mm\<rparr>)))) [0..<unat (numPages a)] km"

definition AddrSpace_Translate :: "int \<Rightarrow> AddrSpace \<Rightarrow> Machine \<Rightarrow> (int \<times> Machine) res" where
  "AddrSpace_Translate virtualAddress a m =
     (if virtualAddress < 0 then Inr (-1, m)
      else
        let pageNumber = nat (virtualAddress div int PageSize);
            memoryOffset = virtualAddress mod int PageSize in
        if pageNumber \<ge> unat (numPages a) then Inr (-1, m)
        else bindE (get_entry (as_pageTable a) pageNumber m) (\<lambda>e.
          if \<not> valid e then Inr (-1, m)
          else
            let physicalAddress = sint (physicalPage e) * int PageSize + memoryOffset in
            bindE (set_entry (as_pageTable a) pageNumber (e\<lparr>use_bit := True\<rparr>) m) (\<lambda>m'.
            Inr (physicalAddress, m'))))"

text \<open>
  The loop of \<^verbatim>\<open>ReadFile\<close> runs at most once per byte; the fuel \<open>Suc size\<close> is enough.
\<close>

fun ReadFile_loop :: "nat \<Rightarrow> byte list \<Rightarrow> AddrSpace \<Rightarrow> int \<Rightarrow> nat \<Rightarrow> int \<Rightarrow> Machine \<Rightarrow> (nat \<times> Machine) res" where
  "ReadFile_loop 0 buffer a virtAddr numBytesRead numBytesLeft m = Inl OutOfFuel"
| "ReadFile_loop (Suc n) buffer a virtAddr numBytesRead numBytesLeft m =
     (if numBytesLeft > 0 then
        let readSize = (if numBytesLeft < int PageSize then numBytesLeft else int PageSize - virtAddr smod int PageSize) in
        bindE (AddrSpace_Translate virtAddr a m) (\<lambda>(physAddr, m1).
        bindE (assertE (physAddr \<ge> 0)) (\<lambda>_.
        bindE (bcopy_in buffer numBytesRead (nat physAddr) (nat readSize) m1) (\<lambda>m2.
        ReadFile_loop n buffer a (virtAddr + readSize) (numBytesRead + nat readSize) (numBytesLeft - readSize) m2)))
      else Inr (numBytesRead, m))"

definition AddrSpace_ReadFile :: "32 word \<Rightarrow> byte list \<Rightarrow> 32 word \<Rightarrow> 32 word \<Rightarrow> AddrSpace \<Rightarrow> KMem \<Rightarrow> (nat \<times> KMem) res" where
  "AddrSpace_ReadFile virtAddr file sz fileAddr a km =
     bindE (stub_ReadAt (km_junkb km) file (nat (sint sz)) fileAddr) (\<lambda>buffer.
     bindE (ReadFile_loop (Suc (nat (sint sz))) buffer a (sint virtAddr) 0 (sint sz) (km_machine km)) (\<lambda>(n, m).
     Inr (n, km\<lparr>km_machine := m\<rparr>)))"

definition load_segment :: "Segment \<Rightarrow> byte list \<Rightarrow> AddrSpace \<Rightarrow> KMem \<Rightarrow> KMem res" where
  "load_segment s file a km =
     (if 0 <s seg_size s
      then bindE (AddrSpace_ReadFile (virtualAddr s) file (seg_size s) (inFileAddr s) a km) (\<lambda>(_, km'). Inr km')
      else Inr km)"

text \<open>The constructor that loads an executable.\<close>

definition AddrSpace_load :: "byte list \<Rightarrow> KMem \<Rightarrow> (AddrSpace \<times> KMem) res" where
  "AddrSpace_load executable km =
     bindE (load_header executable km) (\<lambda>h.
     let n = pages_of h in
     bindE (MemoryManager_getFree (km_mm km)) (\<lambda>free.
     bindE (assertE (n \<le> free)) (\<lambda>_.
     let (pt, km1) = new_table (unat n) km; a = \<lparr>as_pageTable = pt, numPages = n, as_pcb = None\<rparr> in
     bindE (InitializePageTable a km1) (\<lambda>km2.
     bindE (load_segment (code_seg h) executable a km2) (\<lambda>km3.
     bindE (load_segment (initData h) executable a km3) (\<lambda>km4.
     Inr (a, km4)))))))"

text \<open>The constructor that only allocates a table.\<close>

definition AddrSpace_new :: "32 word \<Rightarrow> KMem \<Rightarrow> AddrSpace \<times> KMem" where
  "AddrSpace_new num km = (let (pt, km') = new_table (unat num) km
     in (\<lparr>as_pageTable = pt, numPages = num, as_pcb = None\<rparr>, km'))"

definition AddrSpace_destroy :: "AddrSpace \<Rightarrow> KMem \<Rightarrow> KMem res" where
  "AddrSpace_destroy a km = delete_table (as_pageTable a) km"

text \<open>
  \<^verbatim>\<open>ReadFileName\<close>: the value returned and the characters written to the buffer.
\<close>

fun ReadFileName_loop :: "nat \<Rightarrow> int \<Rightarrow> AddrSpace \<Rightarrow> byte list \<Rightarrow> Machine \<Rightarrow> (int \<times> byte list \<times> Machine) res" where
  "ReadFileName_loop 0 virtualAddress a name m = Inr (int (length name), name, m)"
| "ReadFileName_loop (Suc n) virtualAddress a name m =
     bindE (AddrSpace_Translate virtualAddress a m) (\<lambda>(physicalAddress, m').
     if physicalAddress < 0 then Inr (-1, name, m')
     else if physicalAddress \<ge> int MemorySize then Inl OutOfBounds
     else let character = mainMemory m' (nat physicalAddress) in
       if character \<noteq> 0 then ReadFileName_loop n (virtualAddress + 1) a (name @ [character]) m'
       else Inr (int (Suc (length name)), name @ [character], m'))"

definition ReadFileName :: "int \<Rightarrow> nat \<Rightarrow> AddrSpace \<Rightarrow> Machine \<Rightarrow> (int \<times> byte list \<times> Machine) res" where
  "ReadFileName virtualAddress sz a m = ReadFileName_loop sz virtualAddress a [] m"

text \<open>The string a buffer of the given size holds when \<open>name\<close> was written to its front: it
  must be terminated inside the buffer.\<close>

definition c_string :: "nat \<Rightarrow> (nat \<Rightarrow> byte) \<Rightarrow> byte list \<Rightarrow> (byte list) res" where
  "c_string bufferSize junk name =
     (let buf = name @ map junk [length name..<bufferSize] in
      if 0 \<in> set buf then Inr (takeWhile (\<lambda>c. c \<noteq> 0) buf) else Inl OutOfBounds)"

definition AddrSpace_Replace :: "(byte list \<Rightarrow> byte list option) \<Rightarrow> int \<Rightarrow> AddrSpace \<Rightarrow> KMem \<Rightarrow> (bool \<times> AddrSpace \<times> KMem) res" where
  "AddrSpace_Replace fs_Open virtualAddress a km =
     bindE (ReadFileName virtualAddress 128 a (km_machine km)) (\<lambda>(_, name, m).
     let km = km\<lparr>km_machine := m\<rparr> in
     bindE (c_string 128 (km_junkb km) name) (\<lambda>fileName.
     case fs_Open fileName of
       None \<Rightarrow> Inr (False, a, km)
     | Some executable \<Rightarrow>
         bindE (load_header executable km) (\<lambda>h.
         let newNumPages = pages_of h in
         bindE (MemoryManager_getFree (km_mm km)) (\<lambda>free.
         if newNumPages - numPages a > free then Inr (False, a, km)
         else
           bindE (ReleasePhysicalMemory a km) (\<lambda>km1.
           bindE (delete_table (as_pageTable a) km1) (\<lambda>km2.
           let (pt, km3) = new_table (unat newNumPages) km2;
               a' = a\<lparr>numPages := newNumPages, as_pageTable := pt\<rparr> in
           bindE (InitializePageTable a' km3) (\<lambda>km4.
           bindE (load_segment (code_seg h) executable a' km4) (\<lambda>km5.
           bindE (load_segment (initData h) executable a' km5) (\<lambda>km6.
           bindE (AddrSpace_InitRegisters a' (km_machine km6)) (\<lambda>m7.
           Inr (True, a', km6\<lparr>km_machine := AddrSpace_RestoreState a' m7\<rparr>)))))))))))"

definition AddrSpace_copy :: "AddrSpace \<Rightarrow> KMem \<Rightarrow> (AddrSpace option \<times> KMem) res" where
  "AddrSpace_copy a km =
     bindE (MemoryManager_getFree (km_mm km)) (\<lambda>free.
     if numPages a > free then Inr (None, km)
     else
       let (b, km1) = AddrSpace_new (numPages a) km in
       bindE (foldE (page_step (as_pageTable b)
           (\<lambda>i f m. bindE (get_entry (as_pageTable a) i m) (\<lambda>e. Inr (e\<lparr>physicalPage := f\<rparr>)))
           (\<lambda>i f m. bindE (get_entry (as_pageTable a) i m) (\<lambda>e.
              bcopy (unat (physicalPage e * of_nat PageSize)) (unat (f * of_nat PageSize)) PageSize m)))
         [0..<unat (numPages a)] km1) (\<lambda>km2. Inr (Some b, km2)))"

definition AddrSpace_getPages :: "AddrSpace \<Rightarrow> 32 word" where
  "AddrSpace_getPages a = numPages a"

section \<open>Invariants of kernel memory\<close>

definition km_ok :: "KMem \<Rightarrow> bool" where
  "km_ok km \<longleftrightarrow> mm_inv (km_mm km) \<and> mm_size (km_mm km) = NumPhysPages
     \<and> (\<forall>a \<ge> km_next km. te_heap (km_machine km) a = None)"

definition table_of :: "KMem \<Rightarrow> AddrSpace \<Rightarrow> TranslationEntry list option" where
  "table_of km a = te_heap (km_machine km) (as_pageTable a)"

definition frames_of :: "TranslationEntry list \<Rightarrow> nat list" where
  "frames_of t = map (\<lambda>e. unat (physicalPage e)) t"

text \<open>A live address space: its table exists, every page is valid and has a frame of its own
  that the memory manager holds.\<close>

definition as_ok :: "KMem \<Rightarrow> AddrSpace \<Rightarrow> bool" where
  "as_ok km a = (case table_of km a of None \<Rightarrow> False | Some t \<Rightarrow>
     length t = unat (numPages a) \<and> (\<forall>e \<in> set t. valid e) \<and> distinct (frames_of t)
     \<and> set (frames_of t) \<subseteq> mm_used (km_mm km))"

definition as_frames :: "KMem \<Rightarrow> AddrSpace \<Rightarrow> nat set" where
  "as_frames km a = (case table_of km a of None \<Rightarrow> {} | Some t \<Rightarrow> set (frames_of t))"

text \<open>The byte an address space has at an offset of a virtual page.\<close>

definition as_byte :: "KMem \<Rightarrow> AddrSpace \<Rightarrow> nat \<Rightarrow> nat \<Rightarrow> byte" where
  "as_byte km a i off = (case table_of km a of None \<Rightarrow> 0
     | Some t \<Rightarrow> mainMemory (km_machine km) (unat (physicalPage (t ! i)) * PageSize + off))"

lemma as_okE:
  assumes "as_ok km a"
  obtains t where "table_of km a = Some t" "length t = unat (numPages a)" "\<forall>e \<in> set t. valid e"
    "distinct (frames_of t)" "set (frames_of t) \<subseteq> mm_used (km_mm km)"
  using assms by (auto simp: as_ok_def split: option.splits)

lemma km_frame_bound: "km_ok km \<Longrightarrow> f \<in> mm_used (km_mm km) \<Longrightarrow> f < NumPhysPages"
  using mm_used_bounds [of "km_mm km"] by (auto simp: km_ok_def)

lemma PageSize_pos [simp]: "0 < PageSize"
  by (simp add: size_defs)

lemma frame_fits: "f < NumPhysPages \<Longrightarrow> f * PageSize + PageSize \<le> MemorySize"
  by (simp add: size_defs)

lemma frame_word: "f < NumPhysPages \<Longrightarrow> unat (of_nat f :: 32 word) = f" "f < NumPhysPages \<Longrightarrow> sint (of_nat f :: 32 word) = int f"
  by (simp_all add: size_defs unat_of_nat signed_of_nat signed_take_bit_int_eq_self)

lemma frame_address_unat: "f < NumPhysPages \<Longrightarrow> unat (of_nat f * of_nat PageSize :: 32 word) = f * PageSize"
  using frame_word(1) [of f] unat_mult_lem [of "of_nat f :: 32 word" "of_nat PageSize"] by (simp add: size_defs)

lemma in_frame_iff: "f * PageSize \<le> q \<and> q < f * PageSize + PageSize \<longleftrightarrow> q div PageSize = f"
proof
  assume *: "f * PageSize \<le> q \<and> q < f * PageSize + PageSize"
  then show "q div PageSize = f" by (intro div_nat_eqI) (simp_all add: mult.commute)
next
  assume "q div PageSize = f"
  then show "f * PageSize \<le> q \<and> q < f * PageSize + PageSize"
    using dividend_less_div_times [of PageSize q] by auto
qed

lemma frame_offset: "q div PageSize = f \<Longrightarrow> q - f * PageSize = q mod PageSize"
  by (simp add: modulo_nat_def)

section \<open>The page allocation loops\<close>

text \<open>
  Memory after frames \<open>fs\<close> were filled, the \<open>j\<close>-th with the contents \<open>C j\<close>.
\<close>

definition page_map :: "nat list \<Rightarrow> nat \<rightharpoonup> nat" where
  "page_map fs = map_of (zip fs [0..<length fs])"

definition fill_frames :: "(nat \<Rightarrow> nat \<Rightarrow> byte) \<Rightarrow> nat list \<Rightarrow> (nat \<Rightarrow> byte) \<Rightarrow> nat \<Rightarrow> byte" where
  "fill_frames C fs mm q = (case page_map fs (q div PageSize) of None \<Rightarrow> mm q | Some j \<Rightarrow> C j (q mod PageSize))"

lemma page_map_snoc: "f \<notin> set fs \<Longrightarrow> page_map (fs @ [f]) = (page_map fs)(f \<mapsto> length fs)"
proof -
  assume f: "f \<notin> set fs"
  have "[f \<mapsto> length fs] ++ map_of (zip fs [0..<length fs]) = (map_of (zip fs [0..<length fs]))(f \<mapsto> length fs)"
    using f by (subst map_add_upd_left) (simp_all add: dom_map_of_zip)
  then show ?thesis by (simp add: page_map_def)
qed

lemma page_map_nth: "distinct fs \<Longrightarrow> j < length fs \<Longrightarrow> page_map fs (fs ! j) = Some j"
  unfolding page_map_def by (simp add: map_of_zip_nth)

lemma page_map_None: "f \<notin> set fs \<Longrightarrow> page_map fs f = None"
  by (simp add: page_map_def map_of_zip_is_None)

lemma fill_frames_other: "q div PageSize \<notin> set fs \<Longrightarrow> fill_frames C fs mm q = mm q"
  by (simp add: fill_frames_def page_map_None)

lemma fill_frames_page:
  assumes "distinct fs" "j < length fs" "off < PageSize"
  shows "fill_frames C fs mm (fs ! j * PageSize + off) = C j off"
proof -
  have "(fs ! j * PageSize + off) div PageSize = fs ! j" "(fs ! j * PageSize + off) mod PageSize = off"
    using assms(3) by simp_all
  then show ?thesis using page_map_nth [OF assms(1,2)] by (simp add: fill_frames_def)
qed

text \<open>What one iteration must do for the loop lemma to apply.\<close>

definition page_body_ok :: "KMem \<Rightarrow> nat \<Rightarrow> nat \<Rightarrow> (nat \<Rightarrow> 32 word \<Rightarrow> Machine \<Rightarrow> TranslationEntry res)
    \<Rightarrow> (nat \<Rightarrow> 32 word \<Rightarrow> Machine \<Rightarrow> Machine res) \<Rightarrow> (nat \<Rightarrow> nat \<Rightarrow> TranslationEntry) \<Rightarrow> (nat \<Rightarrow> nat \<Rightarrow> byte) \<Rightarrow> bool" where
  "page_body_ok km pt n mk fill E C \<longleftrightarrow> (\<forall>i f m. i < n \<longrightarrow> f < NumPhysPages \<longrightarrow>
     (\<forall>a. a \<noteq> pt \<longrightarrow> te_heap m a = te_heap (km_machine km) a) \<longrightarrow>
     (\<forall>q. q div PageSize \<in> mm_used (km_mm km) \<longrightarrow> mainMemory m q = mainMemory (km_machine km) q) \<longrightarrow>
     mk i (of_nat f) m = Inr (E i f) \<and>
     fill i (of_nat f) m = Inr (m\<lparr>mainMemory := (\<lambda>q. if q div PageSize = f then C i (q mod PageSize) else mainMemory m q)\<rparr>))"

definition after_pages :: "KMem \<Rightarrow> nat \<Rightarrow> (nat \<Rightarrow> nat \<Rightarrow> TranslationEntry) \<Rightarrow> (nat \<Rightarrow> nat \<Rightarrow> byte) \<Rightarrow> TranslationEntry list
    \<Rightarrow> nat list \<Rightarrow> MemoryManager \<Rightarrow> KMem" where
  "after_pages km pt E C t fs mm = km\<lparr>km_mm := mm, km_machine := (km_machine km)\<lparr>
     te_heap := (te_heap (km_machine km))(pt \<mapsto> map (\<lambda>j. E j (fs ! j)) [0..<length fs] @ drop (length fs) t),
     mainMemory := fill_frames C fs (mainMemory (km_machine km))\<rparr>\<rparr>"

definition pages_given :: "KMem \<Rightarrow> nat list \<Rightarrow> MemoryManager \<Rightarrow> bool" where
  "pages_given km fs mm \<longleftrightarrow> distinct fs \<and> set fs \<inter> mm_used (km_mm km) = {} \<and> set fs \<subseteq> {..<NumPhysPages} \<and> mm_inv mm
     \<and> mm_size mm = NumPhysPages \<and> mm_used mm = mm_used (km_mm km) \<union> set fs
     \<and> mm_free (km_mm km) = mm_free mm + length fs"

lemma page_step_ok:
  assumes ok: "page_body_ok km pt n mk fill E C" "i < n" "length t = n"
    and given: "pages_given km fs mm" "length fs = i" "0 < mm_free mm"
  shows "\<exists>f mm'. page_step pt mk fill i (after_pages km pt E C t fs mm) = Inr (after_pages km pt E C t (fs @ [f]) mm')
     \<and> pages_given km (fs @ [f]) mm'"
proof -
  let ?s = "after_pages km pt E C t fs mm" and ?m = "km_machine km"
  have inv: "mm_inv mm" "mm_size mm = NumPhysPages" using given(1) by (auto simp: pages_given_def)
  obtain f mm' where f: "getPage mm = Inr (int f, mm')" "mm_inv mm'" "mm_size mm' = mm_size mm" "f < mm_size mm"
      "f \<notin> mm_used mm" "mm_used mm' = insert f (mm_used mm)" "mm_free mm = Suc (mm_free mm')"
    by (rule getPage_spec [OF inv(1) given(3)])
  have fn: "f \<notin> set fs" "f < NumPhysPages" using f given(1) inv by (auto simp: pages_given_def)
  have heap: "\<And>a. a \<noteq> pt \<Longrightarrow> te_heap (km_machine ?s) a = te_heap ?m a" by (simp add: after_pages_def)
  have mem: "\<And>q. q div PageSize \<in> mm_used (km_mm km) \<Longrightarrow> mainMemory (km_machine ?s) q = mainMemory ?m q"
    using given(1) by (auto simp: after_pages_def pages_given_def intro!: fill_frames_other)
  have mk: "mk i (of_nat f) (km_machine ?s) = Inr (E i f)"
    using ok(1,2) fn(2) heap mem by (auto simp: page_body_ok_def)
  define T where "T = (map (\<lambda>j. E j (fs ! j)) [0..<length fs] @ drop (length fs) t)[i := E i f]"
  define m1 where "m1 = (km_machine ?s)\<lparr>te_heap := (te_heap ?m)(pt \<mapsto> T)\<rparr>"
  have set: "set_entry pt i (E i f) (km_machine ?s) = Inr m1"
    using ok(2,3) given(2) by (simp add: set_entry_def read_table_def after_pages_def m1_def T_def)
  have "\<forall>a. a \<noteq> pt \<longrightarrow> te_heap m1 a = te_heap ?m a" "\<forall>q. q div PageSize \<in> mm_used (km_mm km) \<longrightarrow> mainMemory m1 q = mainMemory ?m q"
    using mem by (simp_all add: m1_def)
  then have fill: "fill i (of_nat f) m1 = Inr (m1\<lparr>mainMemory := (\<lambda>q. if q div PageSize = f then C i (q mod PageSize) else mainMemory m1 q)\<rparr>)"
    using ok(1,2) fn(2) by (auto simp: page_body_ok_def)
  have T': "T = map (\<lambda>j. E j ((fs @ [f]) ! j)) [0..<Suc (length fs)] @ drop (Suc (length fs)) t"
    using ok(2,3) given(2) by (auto simp: T_def nth_append list_eq_iff_nth_eq nth_list_update)
  have M: "(\<lambda>q. if q div PageSize = f then C i (q mod PageSize) else mainMemory m1 q) = fill_frames C (fs @ [f]) (mainMemory ?m)"
    using given(2) page_map_snoc [OF fn(1)] by (auto simp: fun_eq_iff fill_frames_def m1_def after_pages_def)
  have "page_step pt mk fill i ?s = Inr (after_pages km pt E C t (fs @ [f]) mm')"
    using f(1) mk set fill M
    by (simp add: page_step_def after_pages_def m1_def T' Let_def)
  moreover have "pages_given km (fs @ [f]) mm'"
    using given(1) f fn inv by (auto simp: pages_given_def)
  ultimately show ?thesis by blast
qed

lemma page_loop_ok:
  assumes ok: "page_body_ok km pt n mk fill E C" and heap: "te_heap (km_machine km) pt = Some t" "length t = n"
    and km: "km_ok km" and free: "n \<le> mm_free (km_mm km)"
  obtains fs mm where "foldE (page_step pt mk fill) [0..<n] km = Inr (after_pages km pt E C t fs mm)"
    "pages_given km fs mm" "length fs = n"
proof -
  let ?P = "\<lambda>i s. \<exists>fs mm. s = after_pages km pt E C t fs mm \<and> pages_given km fs mm \<and> length fs = i"
  have s0: "after_pages km pt E C t [] (km_mm km) = km"
  proof -
    have "fill_frames C [] mm = mm" for mm by (rule ext) (simp add: fill_frames_other)
    then show ?thesis using heap(1) by (simp add: after_pages_def fun_upd_idem)
  qed
  have "?P 0 km"
    using km s0 [symmetric] by (intro exI [of _ "[]"] exI [of _ "km_mm km"]) (simp add: pages_given_def km_ok_def)
  moreover have "\<exists>s'. page_step pt mk fill i s = Inr s' \<and> ?P (Suc i) s'" if "i < n" "?P i s" for i s
  proof -
    obtain fs mm where s: "s = after_pages km pt E C t fs mm" "pages_given km fs mm" "length fs = i" using \<open>?P i s\<close> by blast
    have "0 < mm_free mm" using s(2,3) free \<open>i < n\<close> by (simp add: pages_given_def)
    then show ?thesis using page_step_ok [OF ok \<open>i < n\<close> heap(2) s(2,3)] s(1,3) by fastforce
  qed
  ultimately have "\<exists>s. foldE (page_step pt mk fill) [0..<n] km = Inr s \<and> ?P n s"
    by (rule foldE_upt_induct)
  then show thesis using that by blast
qed

section \<open>Creating, copying and releasing address spaces\<close>

definition fresh_entry :: "nat \<Rightarrow> nat \<Rightarrow> TranslationEntry" where
  "fresh_entry i f = \<lparr>virtualPage = of_nat i, physicalPage = of_nat f, valid = True, readOnly = False, use_bit = False, dirty = False\<rparr>"

lemma bzero_frame:
  assumes "f < NumPhysPages"
  shows "bzero (unat (of_nat f * of_nat PageSize :: 32 word)) PageSize m =
    Inr (m\<lparr>mainMemory := (\<lambda>q. if q div PageSize = f then 0 else mainMemory m q)\<rparr>)"
  using frame_fits [OF assms] by (simp add: bzero_def frame_address_unat [OF assms] in_frame_iff)

lemma bcopy_frame:
  assumes "f < NumPhysPages" "g < NumPhysPages"
  shows "bcopy (g * PageSize) (f * PageSize) PageSize m =
    Inr (m\<lparr>mainMemory := (\<lambda>q. if q div PageSize = f then mainMemory m (g * PageSize + q mod PageSize) else mainMemory m q)\<rparr>)"
  using frame_fits [OF assms(1)] frame_fits [OF assms(2)]
  by (auto simp: bcopy_def in_frame_iff frame_offset intro!: arg_cong [where f = "\<lambda>x. m\<lparr>mainMemory := x\<rparr>"])

lemma InitializePageTable_spec:
  assumes "km_ok km" "table_of km a = Some t" "length t = unat (numPages a)" "unat (numPages a) \<le> mm_free (km_mm km)"
  obtains fs mm where "InitializePageTable a km = Inr (after_pages km (as_pageTable a) fresh_entry (\<lambda>_ _. 0) t fs mm)"
    "pages_given km fs mm" "length fs = unat (numPages a)"
proof -
  have "page_body_ok km (as_pageTable a) (unat (numPages a))
     (\<lambda>i f m. Inr \<lparr>virtualPage = of_nat i, physicalPage = f, valid = True, readOnly = False, use_bit = False, dirty = False\<rparr>)
     (\<lambda>i f. bzero (unat (f * of_nat PageSize)) PageSize) fresh_entry (\<lambda>_ _. 0)"
    by (simp add: page_body_ok_def fresh_entry_def bzero_frame)
  from page_loop_ok [OF this _ assms(3,1,4)] assms(2) that show thesis
    unfolding InitializePageTable_def table_of_def by blast
qed

text \<open>The state right after the table was allocated.\<close>

lemma new_table_ok:
  assumes "km_ok km" "new_table n km = (pt, km')"
  shows "km_ok km'" "te_heap (km_machine km') pt = Some (map (km_junk km) [0..<n])" "pt = km_next km"
    "km_mm km' = km_mm km" "mainMemory (km_machine km') = mainMemory (km_machine km)"
    "\<And>a. a \<noteq> pt \<Longrightarrow> te_heap (km_machine km') a = te_heap (km_machine km) a"
  using assms by (auto simp: new_table_def km_ok_def)

lemma table_not_next:
  assumes "km_ok km" "table_of km a = Some t"
  shows "as_pageTable a \<noteq> km_next km"
  using assms by (auto simp: km_ok_def table_of_def)

lemma copy_body_ok:
  assumes "km_ok km" "as_ok km a" "table_of km a = Some t" "pt \<noteq> as_pageTable a"
  shows "page_body_ok km pt (unat (numPages a))
     (\<lambda>i f m. bindE (get_entry (as_pageTable a) i m) (\<lambda>e. Inr (e\<lparr>physicalPage := f\<rparr>)))
     (\<lambda>i f m. bindE (get_entry (as_pageTable a) i m) (\<lambda>e.
        bcopy (unat (physicalPage e * of_nat PageSize)) (unat (f * of_nat PageSize)) PageSize m))
     (\<lambda>i f. (t ! i)\<lparr>physicalPage := of_nat f\<rparr>) (\<lambda>i off. as_byte km a i off)"
  unfolding page_body_ok_def
proof (intro allI impI conjI)
  fix i f and m :: Machine
  assume i: "i < unat (numPages a)" and f: "f < NumPhysPages"
    and heap: "\<forall>a. a \<noteq> pt \<longrightarrow> te_heap m a = te_heap (km_machine km) a"
    and mem: "\<forall>q. q div PageSize \<in> mm_used (km_mm km) \<longrightarrow> mainMemory m q = mainMemory (km_machine km) q"
  have t: "length t = unat (numPages a)" "set (frames_of t) \<subseteq> mm_used (km_mm km)"
    using assms(2,3) by (auto simp: as_ok_def)
  have "te_heap m (as_pageTable a) = Some t" using heap assms(3,4) by (simp add: table_of_def)
  then have g: "get_entry (as_pageTable a) i m = Inr (t ! i)" using i t by (simp add: get_entry_def read_table_def)
  then show "bindE (get_entry (as_pageTable a) i m) (\<lambda>e. Inr (e\<lparr>physicalPage := of_nat f\<rparr>)) = Inr ((t ! i)\<lparr>physicalPage := of_nat f\<rparr>)"
    by simp
  let ?g = "unat (physicalPage (t ! i))"
  have u: "?g \<in> mm_used (km_mm km)" using t i by (auto simp: frames_of_def)
  then have gb: "?g < NumPhysPages" using km_frame_bound [OF assms(1)] by blast
  have src: "unat (physicalPage (t ! i) * of_nat PageSize) = ?g * PageSize"
    using frame_address_unat [OF gb] by simp
  have "mainMemory m (?g * PageSize + q mod PageSize) = as_byte km a i (q mod PageSize)" for q
    using mem u by (simp add: as_byte_def assms(3))
  then show "bindE (get_entry (as_pageTable a) i m) (\<lambda>e.
        bcopy (unat (physicalPage e * of_nat PageSize)) (unat (of_nat f * of_nat PageSize :: 32 word)) PageSize m) =
      Inr (m\<lparr>mainMemory := (\<lambda>q. if q div PageSize = f then as_byte km a i (q mod PageSize) else mainMemory m q)\<rparr>)"
    using g bcopy_frame [OF f gb, of m] by (simp add: src frame_address_unat [OF f] cong: if_cong)
qed

text \<open>How the loop's final state looks to the new space and to all others.\<close>

lemma after_pages_new:
  assumes "pages_given km fs mm" "length fs = length t" "km_ok km" "as_pageTable b = pt" "unat (numPages b) = length fs"
    and E: "\<And>i f. i < length fs \<Longrightarrow> valid (E i f) \<and> physicalPage (E i f) = of_nat f"
    and "pt < km_next km" and km'_def: "km' = after_pages km pt E C t fs mm"
  shows "km_ok km'" "as_ok km' b" "as_frames km' b = set fs"
    "\<And>i off. i < length fs \<Longrightarrow> off < PageSize \<Longrightarrow> as_byte km' b i off = C i off"
proof -
  have T: "table_of km' b = Some (map (\<lambda>j. E j (fs ! j)) [0..<length fs])"
    using assms(2,4) by (simp add: table_of_def km'_def after_pages_def)
  have fb: "\<And>f. f \<in> set fs \<Longrightarrow> f < NumPhysPages" using assms(1) by (auto simp: pages_given_def)
  have fr: "frames_of (map (\<lambda>j. E j (fs ! j)) [0..<length fs]) = fs"
  proof (rule nth_equalityI)
    fix i assume "i < length (frames_of (map (\<lambda>j. E j (fs ! j)) [0..<length fs]))"
    then have i: "i < length fs" by (simp add: frames_of_def)
    then have "unat (physicalPage (E i (fs ! i))) = fs ! i"
      using E [OF i, of "fs ! i"] frame_word(1) [OF fb [OF nth_mem [OF i]]] by simp
    then show "frames_of (map (\<lambda>j. E j (fs ! j)) [0..<length fs]) ! i = fs ! i" using i by (simp add: frames_of_def)
  qed (simp add: frames_of_def)
  show "km_ok km'" using assms(1,3,7) by (auto simp: km_ok_def km'_def after_pages_def pages_given_def)
  show "as_ok km' b"
    using T fr E assms(1,5) by (auto simp: as_ok_def km'_def after_pages_def pages_given_def)
  show "as_frames km' b = set fs" using T fr by (simp add: as_frames_def)
  fix i off assume i: "i < length fs" "off < PageSize"
  have "unat (physicalPage (E i (fs ! i))) = fs ! i" using E [OF i(1)] frame_word(1) fb i(1) by simp
  then show "as_byte km' b i off = C i off"
    using T i fill_frames_page [of fs i off C "mainMemory (km_machine km)"] assms(1)
    by (simp add: as_byte_def km'_def after_pages_def pages_given_def)
qed

definition as_same :: "KMem \<Rightarrow> KMem \<Rightarrow> AddrSpace \<Rightarrow> bool" where
  "as_same km km' a \<longleftrightarrow> as_ok km' a \<and> as_frames km' a = as_frames km a
     \<and> (\<forall>i off. i < unat (numPages a) \<longrightarrow> off < PageSize \<longrightarrow> as_byte km' a i off = as_byte km a i off)"

lemma after_pages_others:
  assumes "pages_given km fs mm" "as_ok km a" "as_pageTable a \<noteq> pt"
  shows "as_same km (after_pages km pt E C t fs mm) a" "as_frames km a \<inter> set fs = {}"
proof -
  obtain ta where ta: "table_of km a = Some ta" "length ta = unat (numPages a)" "\<forall>e \<in> set ta. valid e"
      "distinct (frames_of ta)" "set (frames_of ta) \<subseteq> mm_used (km_mm km)"
    by (rule as_okE [OF assms(2)])
  have T: "table_of (after_pages km pt E C t fs mm) a = Some ta"
    using ta(1) assms(3) by (simp add: table_of_def after_pages_def)
  have disj: "set (frames_of ta) \<inter> set fs = {}" using ta(5) assms(1) by (auto simp: pages_given_def)
  then show "as_frames km a \<inter> set fs = {}" by (simp add: as_frames_def ta)
  have "fill_frames C fs (mainMemory (km_machine km)) (unat (physicalPage (ta ! i)) * PageSize + off)
      = mainMemory (km_machine km) (unat (physicalPage (ta ! i)) * PageSize + off)"
    if i: "i < length ta" "off < PageSize" for i off
  proof -
    have "unat (physicalPage (ta ! i)) \<in> set (frames_of ta)" using i by (auto simp: frames_of_def)
    then show ?thesis using disj i by (intro fill_frames_other) auto
  qed
  then show "as_same km (after_pages km pt E C t fs mm) a"
    using ta T assms(1) by (auto simp: as_same_def as_ok_def as_frames_def as_byte_def after_pages_def pages_given_def)
qed

lemma AddrSpace_copy_refused:
  assumes "km_ok km" "unat (numPages a) > mm_free (km_mm km)"
  shows "AddrSpace_copy a km = Inr (None, km)"
proof -
  have mm: "mm_inv (km_mm km)" using assms(1) by (simp add: km_ok_def)
  have "numPages a > of_nat (mm_free (km_mm km))"
    using assms(2) unat_mm_free [OF mm] by (simp add: word_less_nat_alt)
  then show ?thesis by (simp add: AddrSpace_copy_def MemoryManager_getFree_spec [OF mm])
qed

lemma AddrSpace_copy_granted:
  assumes "km_ok km" "as_ok km a" "unat (numPages a) \<le> mm_free (km_mm km)"
  obtains b km' where "AddrSpace_copy a km = Inr (Some b, km')" "km_ok km'" "as_ok km' b" "numPages b = numPages a"
    "as_pageTable b = km_next km" "as_frames km' b \<inter> mm_used (km_mm km) = {}"
    "mm_used (km_mm km') = mm_used (km_mm km) \<union> as_frames km' b"
    "\<And>i off. i < unat (numPages a) \<Longrightarrow> off < PageSize \<Longrightarrow> as_byte km' b i off = as_byte km a i off"
    "\<And>c. as_ok km c \<Longrightarrow> as_same km km' c"
proof -
  have mm: "mm_inv (km_mm km)" using assms(1) by (simp add: km_ok_def)
  obtain t where t: "table_of km a = Some t" "length t = unat (numPages a)" "\<forall>e \<in> set t. valid e"
    using as_okE [OF assms(2)] by metis
  obtain pt km1 where nt: "new_table (unat (numPages a)) km = (pt, km1)" by fastforce
  note nt_ok = new_table_ok [OF assms(1) nt]
  define b where "b = \<lparr>as_pageTable = pt, numPages = numPages a, as_pcb = None\<rparr>"
  have same1: "as_same km km1 c" "as_pageTable c \<noteq> pt" if okc: "as_ok km c" for c
  proof -
    obtain tc where tc: "table_of km c = Some tc" using as_okE [OF okc] by metis
    show ne: "as_pageTable c \<noteq> pt" using table_not_next [OF assms(1) tc] nt_ok(3) by simp
    show "as_same km km1 c"
      using okc tc nt_ok(4,5) nt_ok(6) [OF ne] by (simp add: as_same_def as_ok_def as_frames_def as_byte_def table_of_def)
  qed
  have a1: "as_ok km1 a" "table_of km1 a = Some t"
    using same1 [OF assms(2)] t(1) nt_ok(6) by (auto simp: as_same_def table_of_def)
  note body = copy_body_ok [OF nt_ok(1) a1 same1(2) [OF assms(2), symmetric]]
  obtain fs m2 where loop: "foldE (page_step pt
           (\<lambda>i f m. bindE (get_entry (as_pageTable a) i m) (\<lambda>e. Inr (e\<lparr>physicalPage := f\<rparr>)))
           (\<lambda>i f m. bindE (get_entry (as_pageTable a) i m) (\<lambda>e.
              bcopy (unat (physicalPage e * of_nat PageSize)) (unat (f * of_nat PageSize)) PageSize m)))
         [0..<unat (numPages a)] km1 = Inr (after_pages km1 pt (\<lambda>i f. (t ! i)\<lparr>physicalPage := of_nat f\<rparr>)
           (\<lambda>i off. as_byte km1 a i off) (map (km_junk km) [0..<unat (numPages a)]) fs m2)"
      and given: "pages_given km1 fs m2" "length fs = unat (numPages a)"
    using page_loop_ok [OF body nt_ok(2) _ nt_ok(1)] assms(3) nt_ok(4) by auto
  define km' where "km' = after_pages km1 pt (\<lambda>i f. (t ! i)\<lparr>physicalPage := of_nat f\<rparr>)
           (\<lambda>i off. as_byte km1 a i off) (map (km_junk km) [0..<unat (numPages a)]) fs m2"
  have next1: "pt < km_next km1" using nt by (auto simp: new_table_def)
  have new: "km_ok km'" "as_ok km' b" "as_frames km' b = set fs"
    "\<And>i off. i < length fs \<Longrightarrow> off < PageSize \<Longrightarrow> as_byte km' b i off = as_byte km1 a i off"
    using after_pages_new [OF given(1) _ nt_ok(1) _ _ _ next1 km'_def, of b] given(2) t by (simp_all add: b_def)
  have "AddrSpace_copy a km = Inr (Some b, km')"
    using assms(3) nt loop unat_mm_free [OF mm]
    by (simp add: AddrSpace_copy_def MemoryManager_getFree_spec [OF mm] AddrSpace_new_def word_less_nat_alt b_def km'_def)
  moreover have "as_same km km' c" if "as_ok km c" for c
    using after_pages_others(1) [OF given(1) _ same1(2) [OF that]] same1(1) [OF that]
    unfolding km'_def by (fastforce simp: as_same_def)
  moreover have "as_byte km1 a i off = as_byte km a i off" if "i < unat (numPages a)" "off < PageSize" for i off
    using same1(1) [OF assms(2)] that by (simp add: as_same_def)
  ultimately show thesis
    using that [of b km'] new given nt_ok(3,4) by (auto simp: b_def km'_def after_pages_def pages_given_def)
qed

lemma ReleasePhysicalMemory_spec:
  assumes "km_ok km" "as_ok km a"
  obtains mm where "ReleasePhysicalMemory a km = Inr (km\<lparr>km_mm := mm\<rparr>)" "mm_inv mm" "mm_size mm = NumPhysPages"
    "mm_used mm = mm_used (km_mm km) - as_frames km a"
proof -
  obtain t where t: "table_of km a = Some t" "length t = unat (numPages a)" "set (frames_of t) \<subseteq> mm_used (km_mm km)"
    using as_okE [OF assms(2)] by metis
  let ?P = "\<lambda>i s. \<exists>mm. s = km\<lparr>km_mm := mm\<rparr> \<and> mm_inv mm \<and> mm_size mm = NumPhysPages
      \<and> mm_used mm = mm_used (km_mm km) - set (take i (frames_of t))"
  let ?f = "\<lambda>i km. bindE (get_entry (as_pageTable a) i (km_machine km)) (\<lambda>e.
     bindE (clearPage (sint (physicalPage e)) (km_mm km)) (\<lambda>mm. Inr (km\<lparr>km_mm := mm\<rparr>)))"
  have "?P 0 km" using assms(1) by (auto simp: km_ok_def intro!: exI [of _ "km_mm km"])
  moreover have "\<exists>s'. ?f i s = Inr s' \<and> ?P (Suc i) s'" if i: "i < unat (numPages a)" "?P i s" for i s
  proof -
    obtain mm where s: "s = km\<lparr>km_mm := mm\<rparr>" "mm_inv mm" "mm_size mm = NumPhysPages"
      "mm_used mm = mm_used (km_mm km) - set (take i (frames_of t))" using i(2) by blast
    let ?g = "unat (physicalPage (t ! i))"
    have g: "frames_of t ! i = ?g" "?g \<in> mm_used (km_mm km)" using i(1) t by (auto simp: frames_of_def)
    then have gb: "?g < NumPhysPages" using km_frame_bound [OF assms(1)] by blast
    obtain mm' where c: "clearPage (int ?g) mm = Inr mm'" "mm_inv mm'" "mm_size mm' = mm_size mm" "mm_used mm' = mm_used mm - {?g}"
      using clearPage_spec [OF s(2), of ?g] gb s(3) by auto
    have e: "get_entry (as_pageTable a) i (km_machine s) = Inr (t ! i)" "sint (physicalPage (t ! i)) = int ?g"
      using t i(1) s(1) frame_word(2) [OF gb] by (simp_all add: get_entry_def read_table_def table_of_def)
    have "set (take (Suc i) (frames_of t)) = insert ?g (set (take i (frames_of t)))"
      using i(1) t(2) g(1) by (simp add: take_Suc_conv_app_nth frames_of_def)
    then show ?thesis using e c s by (auto intro!: exI [of _ mm'])
  qed
  ultimately have "\<exists>s. foldE ?f [0..<unat (numPages a)] km = Inr s \<and> ?P (unat (numPages a)) s"
    by (rule foldE_upt_induct)
  then show thesis using that t by (auto simp: ReleasePhysicalMemory_def as_frames_def frames_of_def)
qed

text \<open>C26: Copying an address space. When too few frames are free the copy is refused and
  nothing changes. Otherwise the copy is a live address space with the same number of
  pages and the same bytes in every page, its frames were all free before, so it shares no
  frame with any live address space, and every live address space, the original included,
  keeps its pages and their contents.\<close>

theorem AddrSpace_copy_isolated:
  assumes "km_ok km" "as_ok km a"
  shows "if unat (numPages a) > mm_free (km_mm km) then AddrSpace_copy a km = Inr (None, km)
    else \<exists>b km'. AddrSpace_copy a km = Inr (Some b, km') \<and> km_ok km' \<and> as_ok km' b \<and> numPages b = numPages a
      \<and> (\<forall>i off. i < unat (numPages a) \<longrightarrow> off < PageSize \<longrightarrow> as_byte km' b i off = as_byte km a i off)
      \<and> mm_used (km_mm km') = mm_used (km_mm km) \<union> as_frames km' b
      \<and> (\<forall>c. as_ok km c \<longrightarrow> as_same km km' c \<and> as_frames km' b \<inter> as_frames km' c = {})"
proof (cases "unat (numPages a) > mm_free (km_mm km)")
  case True
  then show ?thesis using AddrSpace_copy_refused [OF assms(1)] by simp
next
  case False
  then have "unat (numPages a) \<le> mm_free (km_mm km)" by simp
  then obtain b km' where c: "AddrSpace_copy a km = Inr (Some b, km')" "km_ok km'" "as_ok km' b" "numPages b = numPages a"
    "as_pageTable b = km_next km" "as_frames km' b \<inter> mm_used (km_mm km) = {}"
    "mm_used (km_mm km') = mm_used (km_mm km) \<union> as_frames km' b"
    "\<And>i off. i < unat (numPages a) \<Longrightarrow> off < PageSize \<Longrightarrow> as_byte km' b i off = as_byte km a i off"
    "\<And>c. as_ok km c \<Longrightarrow> as_same km km' c"
    using AddrSpace_copy_granted [OF assms] by metis
  have "as_frames km' b \<inter> as_frames km' d = {}" if "as_ok km d" for d
  proof -
    have "as_frames km d \<subseteq> mm_used (km_mm km)" using that by (auto simp: as_ok_def as_frames_def split: option.splits)
    then show ?thesis using c(6) c(9) [OF that] by (auto simp: as_same_def)
  qed
  with False c show ?thesis by auto
qed

text \<open>Releasing the memory of a copy gives back exactly the frames the copy took: the set of
  used frames is the one before the copy was made.\<close>

theorem copy_release_roundtrip:
  assumes "km_ok km" "as_ok km a" "AddrSpace_copy a km = Inr (Some b, km')"
  shows "\<exists>km''. ReleasePhysicalMemory b km' = Inr km'' \<and> km_ok km'' \<and> mm_used (km_mm km'') = mm_used (km_mm km)"
proof -
  have "unat (numPages a) \<le> mm_free (km_mm km)"
    using AddrSpace_copy_refused [OF assms(1)] assms(3) by (metis Inr_inject not_le option.distinct(1) prod.inject)
  then have c: "km_ok km'" "as_ok km' b" "as_frames km' b \<inter> mm_used (km_mm km) = {}"
    "mm_used (km_mm km') = mm_used (km_mm km) \<union> as_frames km' b"
    using AddrSpace_copy_granted [OF assms(1,2)] assms(3) by (metis Inr_inject option.inject prod.inject)+
  obtain mm where "ReleasePhysicalMemory b km' = Inr (km'\<lparr>km_mm := mm\<rparr>)" "mm_inv mm" "mm_size mm = NumPhysPages"
    "mm_used mm = mm_used (km_mm km') - as_frames km' b"
    by (rule ReleasePhysicalMemory_spec [OF c(1,2)])
  moreover have "mm_used (km_mm km') - as_frames km' b = mm_used (km_mm km)" using c(3,4) by blast
  ultimately show ?thesis using c(1) by (auto simp: km_ok_def)
qed

section \<open>Loading segments\<close>

text \<open>The physical address of a virtual one.\<close>

definition phys_of :: "TranslationEntry list \<Rightarrow> nat \<Rightarrow> nat" where
  "phys_of t v = unat (physicalPage (t ! (v div PageSize))) * PageSize + v mod PageSize"

definition table_good :: "TranslationEntry list \<Rightarrow> bool" where
  "table_good t \<longleftrightarrow> (\<forall>e \<in> set t. valid e \<and> unat (physicalPage e) < NumPhysPages) \<and> distinct (frames_of t)"

lemma page_index: "v < length t * PageSize \<Longrightarrow> v div PageSize < length t"
  by (simp add: div_less_iff_less_mult)

lemma phys_of_inj:
  assumes "table_good t" "v < length t * PageSize" "w < length t * PageSize" "phys_of t v = phys_of t w"
  shows "v = w"
proof -
  let ?i = "v div PageSize" and ?j = "w div PageSize"
  have "unat (physicalPage (t ! ?i)) = phys_of t v div PageSize" "unat (physicalPage (t ! ?j)) = phys_of t w div PageSize"
    "v mod PageSize = phys_of t v mod PageSize" "w mod PageSize = phys_of t w mod PageSize"
    by (simp_all add: phys_of_def)
  then have "frames_of t ! ?i = frames_of t ! ?j" and o: "v mod PageSize = w mod PageSize"
    using assms(4) page_index [OF assms(2)] page_index [OF assms(3)] by (simp_all add: frames_of_def)
  then have "?i = ?j"
    using assms(1) page_index [OF assms(2)] page_index [OF assms(3)] nth_eq_iff_index_eq [of "frames_of t" ?i ?j]
    by (simp add: table_good_def frames_of_def)
  with o show ?thesis by (metis div_mult_mod_eq)
qed

lemma table_good_core: "map te_core t' = map te_core t \<Longrightarrow> table_good t' = table_good t"
proof -
  assume c: "map te_core t' = map te_core t"
  have l: "length t' = length t" by (rule map_te_core_length [OF c])
  have "frames_of t' = frames_of t"
    using map_te_core_nth(3) [OF c] l by (auto simp: frames_of_def list_eq_iff_nth_eq)
  moreover have "(\<forall>e \<in> set t'. valid e \<and> unat (physicalPage e) < NumPhysPages) \<longleftrightarrow> (\<forall>e \<in> set t. valid e \<and> unat (physicalPage e) < NumPhysPages)"
    using map_te_core_nth(3,4) [OF c] l by (simp add: all_set_conv_all_nth)
  ultimately show ?thesis by (simp add: table_good_def)
qed

lemma phys_of_core: "map te_core t' = map te_core t \<Longrightarrow> v < length t * PageSize \<Longrightarrow> phys_of t' v = phys_of t v"
  using map_te_core_nth(3) page_index by (fastforce simp: phys_of_def)

lemma AddrSpace_Translate_ok:
  assumes "te_heap m (as_pageTable a) = Some t" "length t = unat (numPages a)" "table_good t" "v < length t * PageSize"
  obtains t' where "AddrSpace_Translate (int v) a m = Inr (int (phys_of t v), m\<lparr>te_heap := (te_heap m)(as_pageTable a \<mapsto> t')\<rparr>)"
    "map te_core t' = map te_core t"
proof -
  let ?i = "v div PageSize"
  have i: "?i < length t" by (rule page_index [OF assms(4)])
  have e: "valid (t ! ?i)" "unat (physicalPage (t ! ?i)) < NumPhysPages" using assms(3) i by (auto simp: table_good_def)
  define t' where "t' = t[?i := (t ! ?i)\<lparr>use_bit := True\<rparr>]"
  have n: "nat (int v div int PageSize) = ?i" by (simp flip: zdiv_int)
  have s: "sint (physicalPage (t ! ?i)) = int (unat (physicalPage (t ! ?i)))"
    using frame_word(2) [OF e(2)] by simp
  have "AddrSpace_Translate (int v) a m = Inr (int (phys_of t v), m\<lparr>te_heap := (te_heap m)(as_pageTable a \<mapsto> t')\<rparr>)"
    using assms(1,2) i e(1) n s
    by (simp add: AddrSpace_Translate_def get_entry_def set_entry_def read_table_def t'_def phys_of_def Let_def zmod_int)
  moreover have "map te_core t' = map te_core t"
    unfolding t'_def map_update by (simp add: te_core_def list_update_same_conv i)
  ultimately show thesis using that by blast
qed

text \<open>What loading \<open>n\<close> bytes of a buffer from position \<open>k\<close> to virtual address \<open>v\<close> should do.\<close>

definition loaded :: "TranslationEntry list \<Rightarrow> byte list \<Rightarrow> nat \<Rightarrow> nat \<Rightarrow> nat \<Rightarrow> (nat \<Rightarrow> byte) \<Rightarrow> (nat \<Rightarrow> byte) \<Rightarrow> bool" where
  "loaded t buffer k v n M M' \<longleftrightarrow>
     (\<forall>w < length t * PageSize. M' (phys_of t w) = (if v \<le> w \<and> w < v + n then buffer ! (k + (w - v)) else M (phys_of t w)))
     \<and> (\<forall>q. q div PageSize \<notin> set (frames_of t) \<longrightarrow> M' q = M q)"

lemma loaded_trans:
  assumes "loaded t buffer k v n M M'" "loaded t buffer (k + n) (v + n) n' M' M''"
  shows "loaded t buffer k v (n + n') M M''"
  unfolding loaded_def
proof (intro conjI allI impI)
  fix w assume w: "w < length t * PageSize"
  consider "w < v" | "v \<le> w" "w < v + n" | "v + n \<le> w" "w < v + (n + n')" | "v + (n + n') \<le> w" by linarith
  then show "M'' (phys_of t w) = (if v \<le> w \<and> w < v + (n + n') then buffer ! (k + (w - v)) else M (phys_of t w))"
  proof cases
    case 3
    then have "k + n + (w - (v + n)) = k + (w - v)" by linarith
    then show ?thesis using 3 assms w by (simp add: loaded_def add.assoc)
  qed (use assms w in \<open>simp_all add: loaded_def add.assoc\<close>)
qed (use assms in \<open>simp add: loaded_def\<close>)

lemma same_page:
  assumes "v mod PageSize + n \<le> PageSize" "u < n" "v < length t * PageSize"
  shows "phys_of t (v + u) = phys_of t v + u" "v + u < length t * PageSize"
proof -
  have "v mod PageSize + u < PageSize" using assms by linarith
  have e: "v div PageSize * PageSize + (v mod PageSize + u) = v + u" by (metis add.assoc div_mult_mod_eq)
  have "(i * PageSize + x) div PageSize = i" "(i * PageSize + x) mod PageSize = x" if "x < PageSize" for i x
    using that by simp_all
  from this [OF \<open>v mod PageSize + u < PageSize\<close>, of "v div PageSize"]
  have d: "(v + u) div PageSize = v div PageSize" "(v + u) mod PageSize = v mod PageSize + u" unfolding e by simp_all
  then show "phys_of t (v + u) = phys_of t v + u" by (simp add: phys_of_def)
  show "v + u < length t * PageSize" using d(1) page_index [OF assms(3)] by (metis div_less_iff_less_mult PageSize_pos)
qed

lemma bcopy_in_page:
  assumes "table_good t" "v < length t * PageSize" "v mod PageSize + n \<le> PageSize" "k + n \<le> length buffer"
  obtains M where "bcopy_in buffer k (phys_of t v) n m = Inr (m\<lparr>mainMemory := M\<rparr>)" "loaded t buffer k v n (mainMemory m) M"
proof -
  let ?i = "v div PageSize" and ?p = "phys_of t v"
  define M where "M = (\<lambda>q. if ?p \<le> q \<and> q < ?p + n then buffer ! (k + (q - ?p)) else mainMemory m q)"
  note sp = same_page [OF assms(3) _ assms(2)]
  have i: "?i < length t" by (rule page_index [OF assms(2)])
  have f: "unat (physicalPage (t ! ?i)) < NumPhysPages" using assms(1) i by (auto simp: table_good_def)
  have "?p + n \<le> MemorySize" using frame_fits [OF f] assms(3) by (simp add: phys_of_def)
  then have "bcopy_in buffer k ?p n m = Inr (m\<lparr>mainMemory := M\<rparr>)" using assms(4) by (simp add: bcopy_in_def M_def)
  moreover have "M (phys_of t w) = (if v \<le> w \<and> w < v + n then buffer ! (k + (w - v)) else mainMemory m (phys_of t w))"
    if w: "w < length t * PageSize" for w
  proof (cases "v \<le> w \<and> w < v + n")
    case True
    then show ?thesis using sp(1) [of "w - v"] by (auto simp: M_def)
  next
    case False
    have "\<not> (?p \<le> phys_of t w \<and> phys_of t w < ?p + n)"
    proof
      assume *: "?p \<le> phys_of t w \<and> phys_of t w < ?p + n"
      define u where "u = phys_of t w - ?p"
      have "u < n" "phys_of t (v + u) = phys_of t w" using * sp(1) [of u] by (auto simp: u_def)
      then have "v + u = w" using phys_of_inj [OF assms(1) sp(2) w] by blast
      then show False using False \<open>u < n\<close> by simp
    qed
    then show ?thesis using False by (auto simp: M_def)
  qed
  moreover have "M q = mainMemory m q" if q: "q div PageSize \<notin> set (frames_of t)" for q
  proof -
    have "\<not> (?p \<le> q \<and> q < ?p + n)"
    proof
      assume *: "?p \<le> q \<and> q < ?p + n"
      define w where "w = v + (q - ?p)"
      have w: "q = phys_of t w" "w div PageSize < length t"
        using * sp [of "q - ?p"] page_index [of w t] by (auto simp: w_def)
      have "q div PageSize = unat (physicalPage (t ! (w div PageSize)))" unfolding w(1) by (simp add: phys_of_def)
      then have "q div PageSize \<in> set (frames_of t)" using w(2) by (simp add: frames_of_def)
      then show False using q by simp
    qed
    then show ?thesis by (auto simp: M_def)
  qed
  ultimately show thesis using that by (simp add: loaded_def)
qed

lemma table_good_of: "km_ok km \<Longrightarrow> as_ok km a \<Longrightarrow> table_of km a = Some t \<Longrightarrow> table_good t"
  using km_frame_bound by (fastforce simp: as_ok_def table_good_def frames_of_def)

lemma loaded_core: "map te_core t' = map te_core t \<Longrightarrow> loaded t' b k v n M M' = loaded t b k v n M M'"
proof -
  assume c: "map te_core t' = map te_core t"
  have "frames_of t' = frames_of t"
    using map_te_core_nth(3) [OF c] map_te_core_length [OF c] by (auto simp: frames_of_def list_eq_iff_nth_eq)
  then show ?thesis
    using phys_of_core [OF c] map_te_core_length [OF c] by (auto simp: loaded_def)
qed

text \<open>The sizes for which no chunk crosses a page boundary.\<close>

definition chunk_safe :: "nat \<Rightarrow> nat \<Rightarrow> bool" where
  "chunk_safe v n \<longleftrightarrow> PageSize \<le> n \<or> v mod PageSize + n \<le> PageSize"

lemma ReadFile_loop_ok:
  assumes "n < fuel" "te_heap m (as_pageTable a) = Some t" "length t = unat (numPages a)" "table_good t"
    "v + n \<le> length t * PageSize" "chunk_safe v n" "k + n = length buffer"
  shows "\<exists>t' M. ReadFile_loop fuel buffer a (int v) k (int n) m =
      Inr (length buffer, m\<lparr>te_heap := (te_heap m)(as_pageTable a \<mapsto> t'), mainMemory := M\<rparr>)
    \<and> map te_core t' = map te_core t \<and> loaded t buffer k v n (mainMemory m) M"
  using assms
proof (induction fuel arbitrary: n v k m t)
  case (Suc fuel)
  show ?case
  proof (cases "n = 0")
    case True
    then show ?thesis
      using Suc.prems(2,7) by (intro exI [of _ t] exI [of _ "mainMemory m"]) (auto simp: loaded_def fun_upd_idem)
  next
    case False
    define rs where "rs = (if n < PageSize then n else PageSize - v mod PageSize)"
    have rs: "0 < rs" "rs \<le> n" "v mod PageSize + rs \<le> PageSize" "v < length t * PageSize"
      using False Suc.prems(5,6) mod_less_divisor [OF PageSize_pos, of v] by (auto simp: rs_def chunk_safe_def)
    have size: "(if int n < int PageSize then int n else int PageSize - int v smod int PageSize) = int rs"
      using mod_less_divisor [OF PageSize_pos, of v] by (simp add: rs_def smod_nonneg zmod_int of_nat_diff less_imp_le)
    obtain t1 where tr: "AddrSpace_Translate (int v) a m = Inr (int (phys_of t v), m\<lparr>te_heap := (te_heap m)(as_pageTable a \<mapsto> t1)\<rparr>)"
      and c1: "map te_core t1 = map te_core t"
      by (rule AddrSpace_Translate_ok [OF Suc.prems(2,3,4) rs(4)])
    let ?m1 = "m\<lparr>te_heap := (te_heap m)(as_pageTable a \<mapsto> t1)\<rparr>"
    obtain M1 where cp: "bcopy_in buffer k (phys_of t v) rs ?m1 = Inr (?m1\<lparr>mainMemory := M1\<rparr>)"
      and l1: "loaded t buffer k v rs (mainMemory m) M1"
      using bcopy_in_page [OF Suc.prems(4) rs(4,3), of k buffer ?m1] Suc.prems(7) rs(2) by auto
    let ?m2 = "?m1\<lparr>mainMemory := M1\<rparr>"
    have step: "ReadFile_loop (Suc fuel) buffer a (int v) k (int n) m
        = ReadFile_loop fuel buffer a (int (v + rs)) (k + rs) (int (n - rs)) ?m2"
      unfolding ReadFile_loop.simps Let_def size using False rs(2) cp by (simp add: tr of_nat_diff)
    have safe: "chunk_safe (v + rs) (n - rs)"
    proof (cases "n < PageSize")
      case True
      then show ?thesis using mod_less_divisor [OF PageSize_pos, of "v + rs"] by (simp add: chunk_safe_def rs_def less_imp_le)
    next
      case False
      then have "v + rs = v div PageSize * PageSize + PageSize"
        using div_mult_mod_eq [of v PageSize] mod_less_divisor [OF PageSize_pos, of v]
        unfolding rs_def if_not_P [OF False] by linarith
      then have "(v + rs) mod PageSize = 0" by simp
      then show ?thesis by (auto simp: chunk_safe_def)
    qed
    have "\<exists>t' M. ReadFile_loop fuel buffer a (int (v + rs)) (k + rs) (int (n - rs)) ?m2 =
        Inr (length buffer, ?m2\<lparr>te_heap := (te_heap ?m2)(as_pageTable a \<mapsto> t'), mainMemory := M\<rparr>)
      \<and> map te_core t' = map te_core t1 \<and> loaded t1 buffer (k + rs) (v + rs) (n - rs) (mainMemory ?m2) M"
      by (rule Suc.IH) (use Suc.prems rs safe map_te_core_length [OF c1] table_good_core [OF c1] in simp_all)
    then obtain t' M where r: "ReadFile_loop fuel buffer a (int (v + rs)) (k + rs) (int (n - rs)) ?m2 =
        Inr (length buffer, m\<lparr>te_heap := (te_heap m)(as_pageTable a \<mapsto> t'), mainMemory := M\<rparr>)"
      "map te_core t' = map te_core t" "loaded t buffer (k + rs) (v + rs) (n - rs) M1 M"
      using c1 loaded_core [OF c1] by auto
    have "loaded t buffer k v n (mainMemory m) M" using loaded_trans [OF l1 r(3)] rs(2) by simp
    then show ?thesis using step r(1,2) by metis
  qed
qed simp

text \<open>C36: Loading a segment. If the segment lies inside the address space, its first chunk does
  not cross a page boundary and its file position is not negative, then \<open>ReadFile\<close> returns,
  having put the bytes of the file at exactly the virtual addresses of the segment; all
  other bytes of the space, all memory outside its frames and the page table (up to use
  bits) are unchanged.\<close>

theorem ReadFile_loads:
  assumes "km_ok km" "as_ok km a" "table_of km a = Some t" "\<not> sz <s 0" "\<not> virtAddr <s 0" "\<not> fileAddr <s 0"
    "unat virtAddr + unat sz \<le> unat (numPages a) * PageSize" "chunk_safe (unat virtAddr) (unat sz)"
  shows "\<exists>km' buffer. AddrSpace_ReadFile virtAddr file sz fileAddr a km = Inr (unat sz, km')
    \<and> buffer = map (\<lambda>k. if unat fileAddr + k < length file then file ! (unat fileAddr + k) else km_junkb km k) [0..<unat sz]
    \<and> loaded t buffer 0 (unat virtAddr) (unat sz) (mainMemory (km_machine km)) (mainMemory (km_machine km'))
    \<and> same_map (km_machine km) (km_machine km')"
proof -
  have len: "length t = unat (numPages a)" using assms(2,3) by (simp add: as_ok_def)
  let ?buf = "map (\<lambda>k. if unat fileAddr + k < length file then file ! (unat fileAddr + k) else km_junkb km k) [0..<unat sz]"
  have heap: "te_heap (km_machine km) (as_pageTable a) = Some t" using assms(3) by (simp add: table_of_def)
  have "\<exists>t' M. ReadFile_loop (Suc (unat sz)) ?buf a (int (unat virtAddr)) 0 (int (unat sz)) (km_machine km) =
      Inr (length ?buf, (km_machine km)\<lparr>te_heap := (te_heap (km_machine km))(as_pageTable a \<mapsto> t'), mainMemory := M\<rparr>)
    \<and> map te_core t' = map te_core t \<and> loaded t ?buf 0 (unat virtAddr) (unat sz) (mainMemory (km_machine km)) M"
    using assms(7,8) len table_good_of [OF assms(1-3)] by (intro ReadFile_loop_ok heap) simp_all
  then obtain t' M where r: "ReadFile_loop (Suc (unat sz)) ?buf a (int (unat virtAddr)) 0 (int (unat sz)) (km_machine km) =
      Inr (length ?buf, (km_machine km)\<lparr>te_heap := (te_heap (km_machine km))(as_pageTable a \<mapsto> t'), mainMemory := M\<rparr>)"
    "map te_core t' = map te_core t" "loaded t ?buf 0 (unat virtAddr) (unat sz) (mainMemory (km_machine km)) M"
    by blast
  let ?km' = "km\<lparr>km_machine := (km_machine km)\<lparr>te_heap := (te_heap (km_machine km))(as_pageTable a \<mapsto> t'), mainMemory := M\<rparr>\<rparr>"
  have "AddrSpace_ReadFile virtAddr file sz fileAddr a km = Inr (unat sz, ?km')"
    using r(1) assms(6) by (simp add: AddrSpace_ReadFile_def stub_ReadAt_def sint_nonneg assms(4,5))
  moreover have "same_map (km_machine km) (km_machine ?km')"
    using heap r(2) by (simp add: same_map_def)
  ultimately show ?thesis using r(3) by fastforce
qed

lemma ReadFile_loop_single:
  assumes "0 < n" "n < PageSize" "AddrSpace_Translate v a m = Inr (int p, m1)" "bcopy_in buffer k p n m1 = Inr m2"
  shows "ReadFile_loop (Suc (Suc fuel)) buffer a v k (int n) m = Inr (k + n, m2)"
  using assms by simp

text \<open>The last chunk of a segment is not split at page boundaries. A segment shorter than a
  page that crosses a page boundary is copied to consecutive physical memory: its bytes
  past the boundary go to the physical frame that follows the first page's frame, whoever
  owns it, and the segment's second virtual page keeps its old contents when it has another
  frame.\<close>

theorem ReadFile_spills:
  assumes "km_ok km" "as_ok km a" "table_of km a = Some t" "\<not> sz <s 0" "\<not> virtAddr <s 0" "\<not> fileAddr <s 0"
    "unat virtAddr + unat sz \<le> unat (numPages a) * PageSize" "unat sz < PageSize"
    "unat virtAddr mod PageSize + unat sz > PageSize" "f = unat (physicalPage (t ! (unat virtAddr div PageSize)))"
    "Suc f < NumPhysPages" "g = unat (physicalPage (t ! Suc (unat virtAddr div PageSize)))" "g \<noteq> f" "g \<noteq> Suc f"
    "length file \<ge> unat fileAddr + unat sz"
  shows "\<exists>km'. AddrSpace_ReadFile virtAddr file sz fileAddr a km = Inr (unat sz, km')
    \<and> mainMemory (km_machine km') (Suc f * PageSize) = file ! (unat fileAddr + (PageSize - unat virtAddr mod PageSize))
    \<and> (\<forall>off < PageSize. mainMemory (km_machine km') (g * PageSize + off) = mainMemory (km_machine km) (g * PageSize + off))"
proof -
  let ?v = "unat virtAddr" and ?n = "unat sz" and ?m = "km_machine km"
  let ?buf = "map (\<lambda>k. if unat fileAddr + k < length file then file ! (unat fileAddr + k) else km_junkb km k) [0..<?n]"
  have len: "length t = unat (numPages a)" using assms(2,3) by (simp add: as_ok_def)
  have heap: "te_heap ?m (as_pageTable a) = Some t" using assms(3) by (simp add: table_of_def)
  have "0 < ?n" using assms(9) mod_less_divisor [OF PageSize_pos, of ?v] by linarith
  then have v: "?v < length t * PageSize" using assms(7) len by simp
  obtain t1 where tr: "AddrSpace_Translate (int ?v) a ?m = Inr (int (phys_of t ?v), ?m\<lparr>te_heap := (te_heap ?m)(as_pageTable a \<mapsto> t1)\<rparr>)"
    by (rule AddrSpace_Translate_ok [OF heap len table_good_of [OF assms(1-3)] v])
  let ?p = "phys_of t ?v" and ?m1 = "?m\<lparr>te_heap := (te_heap ?m)(as_pageTable a \<mapsto> t1)\<rparr>"
  define M where "M = (\<lambda>q. if ?p \<le> q \<and> q < ?p + ?n then ?buf ! (0 + (q - ?p)) else mainMemory ?m q)"
  have p: "?p = f * PageSize + ?v mod PageSize" by (simp add: phys_of_def assms(10))
  have "?p + ?n \<le> MemorySize"
    using frame_fits [OF assms(11), unfolded mult_Suc] assms(8) mod_less_divisor [OF PageSize_pos, of ?v]
    unfolding p by linarith
  then have cp: "bcopy_in ?buf 0 ?p ?n ?m1 = Inr (?m1\<lparr>mainMemory := M\<rparr>)" by (simp add: bcopy_in_def M_def cong: if_cong)
  obtain k where k: "?n = Suc k" using assms(9) mod_less_divisor [OF PageSize_pos, of ?v] by (cases ?n) auto
  have "ReadFile_loop (Suc ?n) ?buf a (int ?v) 0 (int ?n) ?m = Inr (?n, ?m1\<lparr>mainMemory := M\<rparr>)"
    using ReadFile_loop_single [OF _ assms(8) tr cp, of k] k by simp
  then have "AddrSpace_ReadFile virtAddr file sz fileAddr a km = Inr (?n, km\<lparr>km_machine := ?m1\<lparr>mainMemory := M\<rparr>\<rparr>)"
    using assms(6) by (simp add: AddrSpace_ReadFile_def stub_ReadAt_def sint_nonneg assms(4,5))
  moreover have "M (Suc f * PageSize) = file ! (unat fileAddr + (PageSize - ?v mod PageSize))"
  proof -
    define d where "d = PageSize - ?v mod PageSize"
    have "?p \<le> Suc f * PageSize" "Suc f * PageSize < ?p + ?n" "Suc f * PageSize - ?p = d" "d < ?n"
      using assms(9) mod_less_divisor [OF PageSize_pos, of ?v] unfolding p mult_Suc d_def by linarith+
    then have "M (Suc f * PageSize) = ?buf ! d" "d < ?n" by (simp_all add: M_def)
    moreover have "unat fileAddr + d < length file" using assms(15) \<open>d < ?n\<close> by linarith
    ultimately show ?thesis unfolding d_def [symmetric] by simp
  qed
  moreover have "M (g * PageSize + off) = mainMemory ?m (g * PageSize + off)" if "off < PageSize" for off
  proof -
    have "g * PageSize + off < ?p \<or> ?p + ?n \<le> g * PageSize + off"
    proof (cases "g < f")
      case True
      then have "Suc g * PageSize \<le> f * PageSize" by (intro mult_le_mono1) simp
      then show ?thesis using that p by simp
    next
      case False
      then have "Suc (Suc f) * PageSize \<le> g * PageSize" using assms(13,14) by (intro mult_le_mono1) simp
      then show ?thesis
        using assms(8) mod_less_divisor [OF PageSize_pos, of ?v] unfolding p mult_Suc by linarith
    qed
    then show ?thesis by (auto simp: M_def)
  qed
  ultimately show ?thesis by simp
qed

text \<open>Concrete instances: a space with two pages in frames 3 and 9, and another in frame 4.\<close>

definition example_kmem :: KMem where
  "example_kmem = \<lparr>km_machine = \<lparr>registers = (\<lambda>_. 0), mainMemory = (\<lambda>q. of_nat q), te_heap = [0 \<mapsto> [fresh_entry 0 3, fresh_entry 1 9],
       1 \<mapsto> [fresh_entry 0 4]], tlb = None, pageTable = Some 0, pageTableSize = 2, hostBigEndian = False\<rparr>,
     km_mm = \<lparr>virtMem = \<lparr>numBits = 32, numWords = 1, bm_map = [0x218]\<rparr>\<rparr>, km_next = 2, km_junk = (\<lambda>_. fresh_entry 0 0), km_junkb = (\<lambda>_. 0)\<rparr>"

definition example_space :: AddrSpace where
  "example_space = \<lparr>as_pageTable = 0, numPages = 2, as_pcb = None\<rparr>"

lemma example_bits: "mm_used (km_mm example_kmem) = {3, 4, 9}"
proof -
  have "mm_used (km_mm example_kmem) = {i. i < 32 \<and> bit (0x218 :: 32 word) i}"
    by (auto simp: mm_used_def BitMap_bits_def example_kmem_def)
  also have "\<dots> = set (filter (\<lambda>i. bit (0x218 :: 32 word) i) [0..<32])" by auto
  also have "\<dots> = {3, 4, 9}" by code_simp
  finally show ?thesis .
qed

lemma example_kmem_ok: "km_ok example_kmem"
  by (simp add: km_ok_def mm_inv_def mm_size_def BitMap_inv_def BitMap_size_def BitsInWord_def divRoundUp_nonneg
      example_kmem_def NumPhysPages_def)

lemma example_space_ok: "as_ok example_kmem example_space"
proof -
  have "set (frames_of [fresh_entry 0 3, fresh_entry 1 9]) \<subseteq> mm_used (km_mm example_kmem)"
    unfolding example_bits by (simp add: frames_of_def fresh_entry_def)
  then show ?thesis
    by (simp add: as_ok_def table_of_def example_space_def frames_of_def fresh_entry_def example_kmem_def)
qed

lemma example_free: "mm_free (km_mm example_kmem) = 29"
  unfolding mm_free_def example_bits by (simp add: mm_size_def BitMap_size_def example_kmem_def)

theorem AddrSpace_copy_isolated_witness:
  "\<exists>b km'. AddrSpace_copy example_space example_kmem = Inr (Some b, km') \<and> as_byte km' b 1 5 = as_byte example_kmem example_space 1 5"
  using AddrSpace_copy_isolated [OF example_kmem_ok example_space_ok] example_free
  by (auto simp: example_space_def size_defs split: if_splits)

theorem copy_release_roundtrip_witness:
  "\<exists>b km' km''. AddrSpace_copy example_space example_kmem = Inr (Some b, km') \<and> ReleasePhysicalMemory b km' = Inr km''
     \<and> mm_used (km_mm km'') = {3, 4, 9}"
proof -
  have n: "unat (numPages example_space) \<le> mm_free (km_mm example_kmem)"
    by (simp add: example_free example_space_def)
  obtain b km' where c: "AddrSpace_copy example_space example_kmem = Inr (Some b, km')"
    by (rule AddrSpace_copy_granted [OF example_kmem_ok example_space_ok n])
  show ?thesis
    using copy_release_roundtrip [OF example_kmem_ok example_space_ok c] c example_bits by auto
qed

lemma example_table: "table_of example_kmem example_space = Some [fresh_entry 0 3, fresh_entry 1 9]"
  by (simp add: table_of_def example_kmem_def example_space_def)

lemma example_signs: "\<not> (3 :: 32 word) <s 0" "\<not> (4 :: 32 word) <s 0" "\<not> (64 :: 32 word) <s 0" "\<not> (126 :: 32 word) <s 0" "\<not> (0 :: 32 word) <s 0"
  by code_simp+

theorem ReadFile_loads_witness:
  "\<exists>km'. AddrSpace_ReadFile 64 [1, 2, 3] 3 0 example_space example_kmem = Inr (3, km')
     \<and> mainMemory (km_machine km') (3 * PageSize + 65) = 2"
proof -
  have "\<exists>km' buffer. AddrSpace_ReadFile 64 [1, 2, 3] 3 0 example_space example_kmem = Inr (unat (3 :: 32 word), km')
    \<and> buffer = map (\<lambda>k. if unat (0 :: 32 word) + k < length [1, 2, 3 :: byte] then [1, 2, 3] ! (unat (0 :: 32 word) + k)
        else km_junkb example_kmem k) [0..<unat (3 :: 32 word)]
    \<and> loaded [fresh_entry 0 3, fresh_entry 1 9] buffer 0 (unat (64 :: 32 word)) (unat (3 :: 32 word))
        (mainMemory (km_machine example_kmem)) (mainMemory (km_machine km'))
    \<and> same_map (km_machine example_kmem) (km_machine km')"
    using example_signs
    by (intro ReadFile_loads [OF example_kmem_ok example_space_ok example_table])
       (simp_all add: example_space_def chunk_safe_def size_defs)
  moreover have "map (\<lambda>k. if unat (0 :: 32 word) + k < length [1, 2, 3 :: byte] then [1, 2, 3] ! (unat (0 :: 32 word) + k)
        else km_junkb example_kmem k) [0..<unat (3 :: 32 word)] = [1, 2, 3]" by code_simp
  ultimately obtain km' where "AddrSpace_ReadFile 64 [1, 2, 3] 3 0 example_space example_kmem = Inr (3, km')"
    and "loaded [fresh_entry 0 3, fresh_entry 1 9] [1, 2, 3] 0 64 3 (mainMemory (km_machine example_kmem)) (mainMemory (km_machine km'))"
    by (auto simp del: upt_rec_numeral)
  moreover have "phys_of [fresh_entry 0 3, fresh_entry 1 9] 65 = 3 * PageSize + 65"
    by (simp add: phys_of_def fresh_entry_def size_defs)
  ultimately show ?thesis by (auto simp: loaded_def size_defs dest!: spec [of _ 65])
qed

theorem ReadFile_spills_witness:
  "\<exists>km'. AddrSpace_ReadFile 126 [10, 20, 30, 40] 4 0 example_space example_kmem = Inr (4, km')
     \<and> mainMemory (km_machine km') (4 * PageSize) = 30"
proof -
  have "\<exists>km'. AddrSpace_ReadFile 126 [10, 20, 30, 40] 4 0 example_space example_kmem = Inr (unat (4 :: 32 word), km')
    \<and> mainMemory (km_machine km') (Suc 3 * PageSize) = [10, 20, 30, 40] ! (unat (0 :: 32 word) + (PageSize - unat (126 :: 32 word) mod PageSize))
    \<and> (\<forall>off < PageSize. mainMemory (km_machine km') (9 * PageSize + off) = mainMemory (km_machine example_kmem) (9 * PageSize + off))"
    using example_signs
    by (intro ReadFile_spills [OF example_kmem_ok example_space_ok example_table])
       (simp_all add: example_space_def size_defs fresh_entry_def)
  then show ?thesis by (auto simp: size_defs)
qed

section \<open>Replacing an address space\<close>

lemma word_diff_wraps: "p < n \<Longrightarrow> unat n \<le> 32 \<Longrightarrow> 2 ^ 31 < unat (p - n)" for p n :: "32 word"
proof -
  assume a: "p < n" "unat n \<le> 32"
  have "unat (p - n) = unat p + 2 ^ 32 - unat n"
    using a by (subst unat_sub_if') (simp add: word_less_nat_alt)
  then show ?thesis using a(2) by simp
qed

text \<open>Exec of a program that needs fewer pages than the running one always fails. The page
  difference is computed in unsigned arithmetic and wraps around, so the test for enough
  free memory refuses the program although it would fit; nothing is replaced.\<close>

theorem Replace_smaller_refused:
  assumes "km_ok km" "unat (numPages a) \<le> NumPhysPages"
    "ReadFileName virtualAddress 128 a (km_machine km) = Inr (r, name, m)"
    "c_string 128 (km_junkb km) name = Inr fileName" "fs_Open fileName = Some executable"
    "load_header executable (km\<lparr>km_machine := m\<rparr>) = Inr h" "pages_of h < numPages a"
  shows "AddrSpace_Replace fs_Open virtualAddress a km = Inr (False, a, km\<lparr>km_machine := m\<rparr>)"
proof -
  have mm: "mm_inv (km_mm km)" "mm_size (km_mm km) = NumPhysPages" using assms(1) by (auto simp: km_ok_def)
  have f: "mm_free (km_mm km) \<le> 32" using mm by (simp add: mm_free_def NumPhysPages_def)
  have "2 ^ 31 < unat (pages_of h - numPages a)"
    using assms(2,7) by (intro word_diff_wraps) (simp_all add: NumPhysPages_def)
  then have "pages_of h - numPages a > of_nat (mm_free (km_mm km))"
    using f unat_mm_free [OF mm(1)] by (simp add: word_less_nat_alt)
  then show ?thesis
    using assms by (simp add: AddrSpace_Replace_def MemoryManager_getFree_spec [OF mm(1)] Let_def)
qed

definition big_kmem :: KMem where
  "big_kmem = example_kmem\<lparr>km_machine := (km_machine example_kmem)\<lparr>te_heap := [0 \<mapsto> map (\<lambda>i. fresh_entry i i) [0..<10]]\<rparr>,
     km_mm := \<lparr>virtMem = \<lparr>numBits = 32, numWords = 1, bm_map = [0x3ff]\<rparr>\<rparr>\<rparr>"

definition big_space :: AddrSpace where
  "big_space = \<lparr>as_pageTable = 0, numPages = 10, as_pcb = None\<rparr>"

definition empty_executable :: "byte list" where
  "empty_executable = [0xad, 0xdf, 0xba, 0] @ replicate 36 0"

theorem Replace_smaller_refused_witness:
  "\<exists>m. AddrSpace_Replace (\<lambda>_. Some empty_executable) 0 big_space big_kmem = Inr (False, big_space, big_kmem\<lparr>km_machine := m\<rparr>)"
proof -
  have ok: "km_ok big_kmem"
    by (simp add: km_ok_def mm_inv_def mm_size_def BitMap_inv_def BitMap_size_def BitsInWord_def divRoundUp_nonneg
      example_kmem_def big_kmem_def NumPhysPages_def)
  have "case ReadFileName 0 128 big_space (km_machine big_kmem) of Inr (r, name, m) \<Rightarrow> r = 1 \<and> name = [0] \<and> \<not> hostBigEndian m | Inl _ \<Rightarrow> False"
    by code_simp
  then obtain m where r: "ReadFileName 0 128 big_space (km_machine big_kmem) = Inr (1, [0], m)" "\<not> hostBigEndian m"
    by (auto split: sum.splits)
  have c: "c_string 128 (km_junkb big_kmem) [0] = Inr []" by code_simp
  have "case load_header empty_executable big_kmem of Inr h \<Rightarrow> pages_of h = 8 | Inl _ \<Rightarrow> False" by code_simp
  moreover have "load_header empty_executable (big_kmem\<lparr>km_machine := m\<rparr>) = load_header empty_executable big_kmem"
    using r(2) by (simp add: load_header_def big_kmem_def example_kmem_def)
  ultimately obtain h where h: "load_header empty_executable (big_kmem\<lparr>km_machine := m\<rparr>) = Inr h" "pages_of h = 8"
    by (auto split: sum.splits)
  show ?thesis
    using Replace_smaller_refused [OF ok _ r(1) c _ h(1)] h(2) by (auto simp: big_space_def NumPhysPages_def)
qed

section \<open>Further facts on copying and replacing\<close>

lemma AddrSpace_copy_registers:
  assumes "AddrSpace_copy a km = Inr (r, km')"
  shows "registers (km_machine km') = registers (km_machine km)"
proof -
  let ?g = "\<lambda>km. registers (km_machine km)"
  have step: "?g t' = ?g t" if "page_step pt mk (\<lambda>i f m. bindE (get_entry q i m) (\<lambda>e. bcopy (u e) (v f) n m)) i t = Inr t'" for pt mk q u v n i t t'
    using that by (auto simp: page_step_def bindE_eq_Inr set_entry_def bcopy_def Let_def split: if_splits option.splits)
  have new: "?g (snd (AddrSpace_new k km)) = ?g km" for k
    by (simp add: AddrSpace_new_def new_table_def Let_def)
  show ?thesis
    using assms new [of "numPages a"]
    by (auto simp: AddrSpace_copy_def bindE_eq_Inr Let_def split: if_splits prod.splits dest!: foldE_keeps [where g = ?g, OF _ step])
qed

lemma as_pcb_irrelevant [simp]:
  "as_ok km (a\<lparr>as_pcb := p\<rparr>) = as_ok km a" "as_frames km (a\<lparr>as_pcb := p\<rparr>) = as_frames km a"
  "as_byte km (a\<lparr>as_pcb := p\<rparr>) i off = as_byte km a i off"
  by (simp_all add: as_ok_def as_frames_def as_byte_def table_of_def cong: option.case_cong)

lemma as_frames_card: "as_ok km a \<Longrightarrow> card (as_frames km a) = unat (numPages a)"
  using distinct_card [of "frames_of (the (table_of km a))"]
  by (auto simp: as_ok_def as_frames_def frames_of_def split: option.splits)

lemma InitRegisters_spec:
  "AddrSpace_InitRegisters a m = Inr (m\<lparr>registers := (\<lambda>i. if i < NumTotalRegs then 0 else registers m i)
     (PCReg := 0, NextPCReg := 4, StackReg := numPages a * of_nat PageSize - 16)\<rparr>)"
proof -
  have "\<exists>s. foldE (\<lambda>i. WriteRegister (int i) 0) [0..<NumTotalRegs] m = Inr s
      \<and> s = m\<lparr>registers := (\<lambda>i. if i < NumTotalRegs then 0 else registers m i)\<rparr>"
  proof (rule foldE_upt_induct [where P = "\<lambda>n s. s = m\<lparr>registers := (\<lambda>i. if i < n then 0 else registers m i)\<rparr>"])
    show "\<exists>t'. WriteRegister (int i) 0 t = Inr t' \<and> t' = m\<lparr>registers := (\<lambda>j. if j < Suc i then 0 else registers m j)\<rparr>"
      if "i < NumTotalRegs" "t = m\<lparr>registers := (\<lambda>j. if j < i then 0 else registers m j)\<rparr>" for i t
    proof -
      have "(\<lambda>j. if j < i then 0 else registers m j)(i := 0) = (\<lambda>j. if j < Suc i then 0 else registers m j)"
        by (auto simp: fun_eq_iff less_Suc_eq)
      then show ?thesis using that by (simp add: WriteRegister_def)
    qed
  qed simp
  then show ?thesis by (simp add: AddrSpace_InitRegisters_def WriteRegister_def reg_defs)
qed

lemma Replace_success:
  assumes "AddrSpace_Replace fs_Open v a km = Inr (True, a', km')"
  shows "registers (km_machine km') PCReg = 0" "registers (km_machine km') NextPCReg = 4"
    "pageTable (km_machine km') = Some (as_pageTable a')" "pageTableSize (km_machine km') = numPages a'"
  using assms
  by (auto simp: AddrSpace_Replace_def bindE_eq_Inr InitRegisters_spec AddrSpace_RestoreState_def new_table_def Let_def reg_defs
      split: option.splits if_splits prod.splits)

lemma Replace_pages:
  assumes km: "km_ok km" and a: "as_ok km a" and n: "unat n \<le> mm_free (km_mm km) + unat (numPages a)"
    and a': "a' = a\<lparr>numPages := n, as_pageTable := km_next km\<rparr>"
  obtains km1 km2 km3 km4 where "ReleasePhysicalMemory a km = Inr km1" "delete_table (as_pageTable a) km1 = Inr km2"
    "new_table (unat n) km2 = (km_next km, km3)" "InitializePageTable a' km3 = Inr km4"
proof -
  obtain mm where rel: "ReleasePhysicalMemory a km = Inr (km\<lparr>km_mm := mm\<rparr>)" (is "_ = Inr ?km1") "mm_inv mm" "mm_size mm = NumPhysPages"
      "mm_used mm = mm_used (km_mm km) - as_frames km a"
    by (rule ReleasePhysicalMemory_spec [OF km a])
  obtain t where t: "table_of km a = Some t" "set (frames_of t) \<subseteq> mm_used (km_mm km)" using as_okE [OF a] by metis
  define km2 where "km2 = ?km1\<lparr>km_machine := (km_machine km)\<lparr>te_heap := (te_heap (km_machine km))(as_pageTable a := None)\<rparr>\<rparr>"
  have del: "delete_table (as_pageTable a) ?km1 = Inr km2"
    using t(1) by (simp add: delete_table_def read_table_def table_of_def km2_def)
  have ok2: "km_ok km2" "km_next km2 = km_next km" using km rel(2,3) by (auto simp: km_ok_def km2_def)
  have mm: "mm_inv (km_mm km)" "mm_size (km_mm km) = NumPhysPages" using km by (auto simp: km_ok_def)
  have sub: "as_frames km a \<subseteq> mm_used (km_mm km)" using t by (simp add: as_frames_def)
  have "card (mm_used mm) = card (mm_used (km_mm km)) - unat (numPages a)"
    using sub rel(4) as_frames_card [OF a] mm_used_finite [OF mm(1)] by (simp add: card_Diff_subset finite_subset)
  moreover have "card (as_frames km a) \<le> card (mm_used (km_mm km))"
    by (rule card_mono [OF mm_used_finite [OF mm(1)] sub])
  moreover have "card (mm_used (km_mm km)) \<le> NumPhysPages"
    using card_mono [OF _ mm_used_bounds [OF mm(1)]] mm(2) by simp
  ultimately have free: "unat n \<le> mm_free (km_mm km2)"
    using n mm(2) rel(3) as_frames_card [OF a] by (simp add: mm_free_def km2_def)
  obtain km3 where nt: "new_table (unat n) km2 = (km_next km, km3)" using ok2(2) by (simp add: new_table_def)
  note ok3 = new_table_ok [OF ok2(1) nt]
  have "table_of km3 a' = Some (map (km_junk km2) [0..<unat n])" using ok3(2) by (simp add: table_of_def a')
  then obtain km4 where "InitializePageTable a' km3 = Inr km4"
    by (rule InitializePageTable_spec [OF ok3(1)]) (use free ok3(4) a' in simp_all)
  then show thesis using that rel(1) del nt by blast
qed

end
