(* ===== verification/Threads.thy ===== *)
theory Threads
  imports AddrSpace
begin

text \<open>
  Threads and the scheduler: \<^verbatim>\<open>threads/thread.cc\<close> and
  \<^verbatim>\<open>threads/scheduler.cc\<close>, with \<^verbatim>\<open>USER_PROGRAM\<close>. Threads, address spaces
  and PCBs are objects in stores indexed by their address; a deleted object is absent.

  A context switch leaves the old thread inside \<^verbatim>\<open>SWITCH\<close> and continues the new one
  where it was. The place where a thread continues is the value \<open>th_cont\<close> of a type the
  client chooses: an operation that may switch takes the continuation of its caller as an
  argument, and after it the next thing to happen is the continuation of the current
  thread. \<open>th_fresh\<close> is true of a thread that has not run yet, which starts in
  \<^verbatim>\<open>ThreadRoot\<close> and so does not return from \<^verbatim>\<open>SWITCH\<close>. \<open>th_levels\<close> holds
  the local variables \<^verbatim>\<open>oldLevel\<close> of the thread's unfinished operations. An
  interrupt that becomes due when interrupts are enabled again is a separate event, not
  part of the operation that enables them.
\<close>

section \<open>Data\<close>

datatype ThreadStatus = JUST_CREATED | RUNNING | READY | BLOCKED

datatype IntStatus = IntOff | IntOn

definition STACK_FENCEPOST :: int where "STACK_FENCEPOST = 0xdeadbeef"

record 'c Thread =
  th_name :: string
  th_stack :: "int option"
  th_status :: ThreadStatus
  userRegisters :: "nat \<Rightarrow> 32 word"
  th_space :: "nat option"
  th_cont :: 'c
  th_fresh :: bool
  th_levels :: "IntStatus list"

record 'c Nachos =
  kmem :: KMem
  threads :: "nat \<Rightarrow> 'c Thread option"
  readyList :: "nat nlist"
  currentThread :: nat
  threadToBeDestroyed :: "nat option"
  level :: IntStatus
  spaces :: "nat \<Rightarrow> AddrSpace option"
  pcbs :: "nat \<Rightarrow> PCB option"
  processManager :: ProcessManager
  next_obj :: nat

definition get_thread :: "nat \<Rightarrow> ('c, 'z) Nachos_scheme \<Rightarrow> ('c Thread) res" where
  "get_thread t st = (case threads st t of None \<Rightarrow> Inl DanglingPointer | Some th \<Rightarrow> Inr th)"

definition upd_thread :: "nat \<Rightarrow> ('c Thread \<Rightarrow> 'c Thread) \<Rightarrow> ('c, 'z) Nachos_scheme \<Rightarrow> (('c, 'z) Nachos_scheme) res" where
  "upd_thread t f st = bindE (get_thread t st) (\<lambda>th. Inr (st\<lparr>threads := (threads st)(t \<mapsto> f th)\<rparr>))"

definition get_space :: "nat option \<Rightarrow> ('c, 'z) Nachos_scheme \<Rightarrow> AddrSpace res" where
  "get_space p st = (case p of None \<Rightarrow> Inl NullDeref
     | Some a \<Rightarrow> (case spaces st a of None \<Rightarrow> Inl DanglingPointer | Some s \<Rightarrow> Inr s))"

text \<open>\<^verbatim>\<open>interrupt->SetLevel(IntOff)\<close> with the old level kept, and the matching
  \<^verbatim>\<open>interrupt->SetLevel(oldLevel)\<close>, both by the current thread.\<close>

definition disable :: "('c, 'z) Nachos_scheme \<Rightarrow> (('c, 'z) Nachos_scheme) res" where
  "disable st = bindE (upd_thread (currentThread st) (\<lambda>th. th\<lparr>th_levels := level st # th_levels th\<rparr>) st) (\<lambda>st.
     Inr (st\<lparr>level := IntOff\<rparr>))"

definition restore :: "('c, 'z) Nachos_scheme \<Rightarrow> (('c, 'z) Nachos_scheme) res" where
  "restore st = bindE (get_thread (currentThread st) st) (\<lambda>th. case th_levels th of
     [] \<Rightarrow> Inl AssertFail
   | l # ls \<Rightarrow> bindE (upd_thread (currentThread st) (\<lambda>th. th\<lparr>th_levels := ls\<rparr>) st) (\<lambda>st. Inr (st\<lparr>level := l\<rparr>)))"

definition set_cont :: "'c \<Rightarrow> ('c, 'z) Nachos_scheme \<Rightarrow> (('c, 'z) Nachos_scheme) res" where
  "set_cont k st = upd_thread (currentThread st) (\<lambda>th. th\<lparr>th_cont := k\<rparr>) st"

section \<open>thread.cc and scheduler.cc\<close>

definition Thread_new :: "(nat \<Rightarrow> 32 word) \<Rightarrow> 'c \<Rightarrow> string \<Rightarrow> ('c, 'z) Nachos_scheme \<Rightarrow> nat \<times> ('c, 'z) Nachos_scheme" where
  "Thread_new junk k threadName st = (next_obj st, st\<lparr>next_obj := Suc (next_obj st), threads := (threads st)(next_obj st \<mapsto>
     \<lparr>th_name = threadName, th_stack = None, th_status = JUST_CREATED, userRegisters = junk, th_space = None,
      th_cont = k, th_fresh = False, th_levels = []\<rparr>)\<rparr>)"

definition Thread_delete :: "nat \<Rightarrow> ('c, 'z) Nachos_scheme \<Rightarrow> (('c, 'z) Nachos_scheme) res" where
  "Thread_delete t st = bindE (get_thread t st) (\<lambda>_. bindE (assertE (t \<noteq> currentThread st)) (\<lambda>_.
     Inr (st\<lparr>threads := (threads st)(t := None)\<rparr>)))"

definition setStatus :: "nat \<Rightarrow> ThreadStatus \<Rightarrow> ('c, 'z) Nachos_scheme \<Rightarrow> (('c, 'z) Nachos_scheme) res" where
  "setStatus t s st = upd_thread t (\<lambda>th. th\<lparr>th_status := s\<rparr>) st"

definition ReadyToRun :: "nat \<Rightarrow> ('c, 'z) Nachos_scheme \<Rightarrow> (('c, 'z) Nachos_scheme) res" where
  "ReadyToRun t st = bindE (setStatus t READY st) (\<lambda>st.
     bindE (List_Append t (readyList st)) (\<lambda>l. Inr (st\<lparr>readyList := l\<rparr>)))"

definition FindNextToRun :: "('c, 'z) Nachos_scheme \<Rightarrow> (nat option \<times> ('c, 'z) Nachos_scheme) res" where
  "FindNextToRun st = bindE (List_Remove (readyList st)) (\<lambda>(r, l). Inr (r, st\<lparr>readyList := l\<rparr>))"

definition StackAllocate :: "nat \<Rightarrow> 'c \<Rightarrow> ('c, 'z) Nachos_scheme \<Rightarrow> (('c, 'z) Nachos_scheme) res" where
  "StackAllocate t k st = upd_thread t (\<lambda>th. th\<lparr>th_stack := Some STACK_FENCEPOST, th_cont := k, th_fresh := True\<rparr>) st"

definition Thread_Fork :: "nat \<Rightarrow> 'c \<Rightarrow> ('c, 'z) Nachos_scheme \<Rightarrow> (('c, 'z) Nachos_scheme) res" where
  "Thread_Fork t k st = bindE (StackAllocate t k st) (\<lambda>st. bindE (disable st) (\<lambda>st.
     bindE (ReadyToRun t st) restore))"

definition CheckOverflow :: "nat \<Rightarrow> ('c, 'z) Nachos_scheme \<Rightarrow> unit res" where
  "CheckOverflow t st = bindE (get_thread t st) (\<lambda>th. case th_stack th of
     None \<Rightarrow> Inr () | Some w \<Rightarrow> assertE (w = STACK_FENCEPOST))"

definition SaveUserState :: "nat \<Rightarrow> ('c, 'z) Nachos_scheme \<Rightarrow> (('c, 'z) Nachos_scheme) res" where
  "SaveUserState t st = foldE (\<lambda>i st. bindE (ReadRegister (int i) (km_machine (kmem st))) (\<lambda>v.
     upd_thread t (\<lambda>th. th\<lparr>userRegisters := (userRegisters th)(i := v)\<rparr>) st)) [0..<NumTotalRegs] st"

definition RestoreUserState :: "nat \<Rightarrow> ('c, 'z) Nachos_scheme \<Rightarrow> (('c, 'z) Nachos_scheme) res" where
  "RestoreUserState t st = foldE (\<lambda>i st. bindE (get_thread t st) (\<lambda>th.
     bindE (WriteRegister (int i) (userRegisters th i) (km_machine (kmem st))) (\<lambda>m.
     Inr (st\<lparr>kmem := (kmem st)\<lparr>km_machine := m\<rparr>\<rparr>)))) [0..<NumTotalRegs] st"

text \<open>
  \<^verbatim>\<open>Scheduler::Run\<close> up to \<^verbatim>\<open>SWITCH\<close>, which the old thread executes, and what the
  thread that is switched to executes: the rest of \<^verbatim>\<open>Scheduler::Run\<close>, or the entry
  of \<^verbatim>\<open>ThreadRoot\<close>, which enables interrupts. \<^verbatim>\<open>AddrSpace::SaveState\<close> has an empty body: it takes the pointer
  \<^verbatim>\<open>space\<close>, which is dangling after \<^verbatim>\<open>Exit\<close> has deleted the space, and reads nothing through it.
\<close>

definition AddrSpace_SaveState :: "nat option \<Rightarrow> ('c, 'z) Nachos_scheme \<Rightarrow> (('c, 'z) Nachos_scheme) res" where
  [simp]: "AddrSpace_SaveState this st = Inr st"

definition run_before_switch :: "nat \<Rightarrow> ('c, 'z) Nachos_scheme \<Rightarrow> (('c, 'z) Nachos_scheme) res" where
  "run_before_switch nextThread st =
     (let oldThread = currentThread st in
      bindE (get_thread oldThread st) (\<lambda>th.
      bindE (if th_space th \<noteq> None then bindE (SaveUserState oldThread st) (AddrSpace_SaveState (th_space th)) else Inr st) (\<lambda>st.
      bindE (CheckOverflow oldThread st) (\<lambda>_.
      setStatus nextThread RUNNING (st\<lparr>currentThread := nextThread\<rparr>)))))"

definition run_after_switch :: "('c, 'z) Nachos_scheme \<Rightarrow> (('c, 'z) Nachos_scheme) res" where
  "run_after_switch st =
     bindE (get_thread (currentThread st) st) (\<lambda>th.
     if th_fresh th then
       bindE (upd_thread (currentThread st) (\<lambda>th. th\<lparr>th_fresh := False\<rparr>) st) (\<lambda>st. Inr (st\<lparr>level := IntOn\<rparr>))
     else
       bindE (case threadToBeDestroyed st of None \<Rightarrow> Inr st
              | Some d \<Rightarrow> bindE (Thread_delete d st) (\<lambda>st. Inr (st\<lparr>threadToBeDestroyed := None\<rparr>))) (\<lambda>st.
       if th_space th \<noteq> None then
         bindE (RestoreUserState (currentThread st) st) (\<lambda>st.
         bindE (get_space (th_space th) st) (\<lambda>s.
         Inr (st\<lparr>kmem := (kmem st)\<lparr>km_machine := AddrSpace_RestoreState s (km_machine (kmem st))\<rparr>\<rparr>)))
       else Inr st))"

definition Scheduler_Run :: "nat \<Rightarrow> ('c, 'z) Nachos_scheme \<Rightarrow> (('c, 'z) Nachos_scheme) res" where
  "Scheduler_Run nextThread st = bindE (run_before_switch nextThread st) run_after_switch"

text \<open>
  The continuation \<open>k\<close> of \<^verbatim>\<open>Yield\<close> starts with the restoring
  \<^verbatim>\<open>SetLevel(oldLevel)\<close>, whether or not another thread ran meanwhile.
\<close>

definition Thread_Yield :: "'c \<Rightarrow> ('c, 'z) Nachos_scheme \<Rightarrow> (('c, 'z) Nachos_scheme) res" where
  "Thread_Yield k st =
     bindE (disable st) (\<lambda>st.
     bindE (set_cont k st) (\<lambda>st.
     bindE (FindNextToRun st) (\<lambda>(r, st). case r of
       None \<Rightarrow> Inr st
     | Some n \<Rightarrow> bindE (ReadyToRun (currentThread st) st) (Scheduler_Run n))))"

text \<open>
  \<^verbatim>\<open>Sleep\<close> asks \<^verbatim>\<open>Interrupt::Idle\<close> for an interrupt while no thread is
  ready; \<open>idle\<close> is that operation, and \<open>fuel\<close> bounds the number of interrupts waited for.
\<close>

fun Sleep_loop :: "nat \<Rightarrow> (('c, 'z) Nachos_scheme \<Rightarrow> (('c, 'z) Nachos_scheme) res) \<Rightarrow> ('c, 'z) Nachos_scheme \<Rightarrow> (('c, 'z) Nachos_scheme) res" where
  "Sleep_loop 0 idle st = Inl OutOfFuel"
| "Sleep_loop (Suc fuel) idle st = bindE (FindNextToRun st) (\<lambda>(r, st). case r of
     None \<Rightarrow> bindE (idle st) (Sleep_loop fuel idle)
   | Some n \<Rightarrow> Scheduler_Run n st)"

definition Thread_Sleep :: "nat \<Rightarrow> (('c, 'z) Nachos_scheme \<Rightarrow> (('c, 'z) Nachos_scheme) res) \<Rightarrow> 'c \<Rightarrow> ('c, 'z) Nachos_scheme \<Rightarrow> (('c, 'z) Nachos_scheme) res" where
  "Thread_Sleep fuel idle k st =
     bindE (assertE (level st = IntOff)) (\<lambda>_.
     bindE (setStatus (currentThread st) BLOCKED st) (\<lambda>st.
     bindE (set_cont k st) (Sleep_loop fuel idle)))"

definition Thread_Finish :: "nat \<Rightarrow> (('c, 'z) Nachos_scheme \<Rightarrow> (('c, 'z) Nachos_scheme) res) \<Rightarrow> 'c \<Rightarrow> ('c, 'z) Nachos_scheme \<Rightarrow> (('c, 'z) Nachos_scheme) res" where
  "Thread_Finish fuel idle k st =
     bindE (disable st) (\<lambda>st. Thread_Sleep fuel idle k (st\<lparr>threadToBeDestroyed := Some (currentThread st)\<rparr>))"

definition Scheduler_Remove :: "nat \<Rightarrow> ('c, 'z) Nachos_scheme \<Rightarrow> (('c, 'z) Nachos_scheme) res" where
  "Scheduler_Remove t st = bindE (List_RemoveElement t (readyList st)) (\<lambda>(_, l).
     Inr (st\<lparr>readyList := l, threadToBeDestroyed := Some t\<rparr>))"

definition Scheduler_Print :: "('c, 'z) Nachos_scheme \<Rightarrow> (string list) res" where
  "Scheduler_Print st = List_Mapcar (\<lambda>t out. bindE (get_thread t st) (\<lambda>th. Inr (out @ [th_name th]))) (readyList st) []"

section \<open>Saving and restoring user registers\<close>

abbreviation mach :: "('c, 'z) Nachos_scheme \<Rightarrow> Machine" where
  "mach st \<equiv> km_machine (kmem st)"

lemma upd_thread_Some [simp]: "threads st t = Some th \<Longrightarrow> upd_thread t f st = Inr (st\<lparr>threads := (threads st)(t \<mapsto> f th)\<rparr>)"
  by (simp add: upd_thread_def get_thread_def)

lemma get_thread_Some [simp]: "threads st t = Some th \<Longrightarrow> get_thread t st = Inr th"
  by (simp add: get_thread_def)

lemma SaveUserState_spec:
  assumes "threads st t = Some th"
  shows "SaveUserState t st = Inr (st\<lparr>threads := (threads st)(t \<mapsto>
     th\<lparr>userRegisters := (\<lambda>i. if i < NumTotalRegs then registers (mach st) i else userRegisters th i)\<rparr>)\<rparr>)"
proof -
  define R where "R n = (\<lambda>i. if i < n then registers (mach st) i else userRegisters th i)" for n
  let ?f = "\<lambda>i st. bindE (ReadRegister (int i) (km_machine (kmem st))) (\<lambda>v.
     upd_thread t (\<lambda>th. th\<lparr>userRegisters := (userRegisters th)(i := v)\<rparr>) st)"
  let ?P = "\<lambda>n s. s = st\<lparr>threads := (threads st)(t \<mapsto> th\<lparr>userRegisters := R n\<rparr>)\<rparr>"
  have "?P 0 st" using assms by (simp add: R_def fun_upd_idem)
  moreover have "\<exists>s'. ?f i s = Inr s' \<and> ?P (Suc i) s'" if "i < NumTotalRegs" "?P i s" for i s
  proof -
    have "(R i)(i := registers (mach st) i) = R (Suc i)" by (auto simp: R_def fun_eq_iff less_Suc_eq)
    then show ?thesis using that by (simp add: ReadRegister_def assertE_def)
  qed
  ultimately have "\<exists>s. foldE ?f [0..<NumTotalRegs] st = Inr s \<and> ?P NumTotalRegs s"
    by (rule foldE_upt_induct)
  then show ?thesis by (simp add: SaveUserState_def R_def)
qed

lemma RestoreUserState_spec:
  assumes "threads st t = Some th"
  shows "RestoreUserState t st = Inr (st\<lparr>kmem := (kmem st)\<lparr>km_machine := (mach st)\<lparr>registers :=
     (\<lambda>i. if i < NumTotalRegs then userRegisters th i else registers (mach st) i)\<rparr>\<rparr>\<rparr>)"
proof -
  define R where "R n = (\<lambda>i. if i < n then userRegisters th i else registers (mach st) i)" for n
  let ?f = "\<lambda>i st. bindE (get_thread t st) (\<lambda>th.
     bindE (WriteRegister (int i) (userRegisters th i) (km_machine (kmem st))) (\<lambda>m.
     Inr (st\<lparr>kmem := (kmem st)\<lparr>km_machine := m\<rparr>\<rparr>)))"
  let ?P = "\<lambda>n s. s = st\<lparr>kmem := (kmem st)\<lparr>km_machine := (mach st)\<lparr>registers := R n\<rparr>\<rparr>\<rparr>"
  have "?P 0 st" by (simp add: R_def)
  moreover have "\<exists>s'. ?f i s = Inr s' \<and> ?P (Suc i) s'" if "i < NumTotalRegs" "?P i s" for i s
  proof -
    have "(R i)(i := userRegisters th i) = R (Suc i)" by (auto simp: R_def fun_eq_iff less_Suc_eq)
    then show ?thesis using that assms by (simp add: WriteRegister_def assertE_def)
  qed
  ultimately have "\<exists>s. foldE ?f [0..<NumTotalRegs] st = Inr s \<and> ?P NumTotalRegs s"
    by (rule foldE_upt_induct)
  then show ?thesis by (simp add: RestoreUserState_def R_def)
qed

section \<open>The scheduling invariant\<close>

definition ready :: "('c, 'z) Nachos_scheme \<Rightarrow> nat list" where
  "ready st = List_items (readyList st)"

text \<open>
  Threads that can run: the current thread and those on the ready list, all distinct, with
  the status that belongs to their place, an intact stack and a live address space if they
  have one. A thread waiting to be destroyed is none of them.
\<close>

definition runnable_ok :: "('c, 'z) Nachos_scheme \<Rightarrow> nat \<Rightarrow> ThreadStatus \<Rightarrow> bool" where
  "runnable_ok st t s = (case threads st t of None \<Rightarrow> False | Some th \<Rightarrow>
     th_status th = s \<and> th_stack th \<in> {None, Some STACK_FENCEPOST}
     \<and> (case th_space th of None \<Rightarrow> True | Some a \<Rightarrow> spaces st a \<noteq> None))"

definition sched_ok :: "('c, 'z) Nachos_scheme \<Rightarrow> bool" where
  "sched_ok st \<longleftrightarrow> List_inv (readyList st) \<and> distinct (currentThread st # ready st)
     \<and> runnable_ok st (currentThread st) RUNNING \<and> (\<forall>t \<in> set (ready st). runnable_ok st t READY)
     \<and> (case threadToBeDestroyed st of None \<Rightarrow> True
        | Some d \<Rightarrow> d \<notin> set (currentThread st # ready st) \<and> threads st d \<noteq> None)"

lemma FindNextToRun_spec:
  assumes "List_inv (readyList st)"
  shows "\<exists>l. List_inv l \<and> FindNextToRun st =
    (case ready st of [] \<Rightarrow> Inr (None, st) | t # ts \<Rightarrow> Inr (Some t, st\<lparr>readyList := l\<rparr>))
    \<and> (ready st \<noteq> [] \<longrightarrow> List_items l = tl (ready st))"
  using List_Remove_spec [OF assms]
  by (auto simp: FindNextToRun_def ready_def List_items_def split: list.splits)

lemma ReadyToRun_spec:
  assumes "List_inv (readyList st)" "threads st t = Some th"
  obtains l where "ReadyToRun t st = Inr (st\<lparr>threads := (threads st)(t \<mapsto> th\<lparr>th_status := READY\<rparr>), readyList := l\<rparr>)"
    "List_inv l" "List_items l = ready st @ [t]"
  using List_Append_spec [OF assms(1), of t] assms(2)
  by (auto simp: ReadyToRun_def setStatus_def ready_def List_items_def)

text \<open>What a context switch leaves, when the thread switched to is not the old one.\<close>

definition saved :: "('c, 'z) Nachos_scheme \<Rightarrow> 'c Thread \<Rightarrow> 'c Thread" where
  "saved st th = (if th_space th \<noteq> None
     then th\<lparr>userRegisters := (\<lambda>i. if i < NumTotalRegs then registers (mach st) i else userRegisters th i)\<rparr> else th)"

lemma run_before_switch_spec:
  assumes "threads st (currentThread st) = Some th" "th_stack th \<in> {None, Some STACK_FENCEPOST}"
    "threads st n = Some nt" "n \<noteq> currentThread st"
  shows "run_before_switch n st = Inr (st\<lparr>currentThread := n,
     threads := (threads st)(currentThread st \<mapsto> saved st th, n \<mapsto> nt\<lparr>th_status := RUNNING\<rparr>)\<rparr>)"
  using assms
  by (auto simp: run_before_switch_def SaveUserState_spec saved_def CheckOverflow_def setStatus_def assertE_def Let_def fun_upd_idem)

definition resumed_machine :: "'c Thread \<Rightarrow> AddrSpace \<Rightarrow> Machine \<Rightarrow> Machine" where
  "resumed_machine th s m = AddrSpace_RestoreState s (m\<lparr>registers :=
     (\<lambda>i. if i < NumTotalRegs then userRegisters th i else registers m i)\<rparr>)"

definition switch_threads :: "('c, 'z) Nachos_scheme \<Rightarrow> 'c Thread \<Rightarrow> nat \<Rightarrow> 'c Thread \<Rightarrow> nat \<Rightarrow> 'c Thread option" where
  "switch_threads st th n nt = (let T = (threads st)(currentThread st \<mapsto> saved st th, n \<mapsto> nt\<lparr>th_status := RUNNING, th_fresh := False\<rparr>)
     in if th_fresh nt then T else case threadToBeDestroyed st of None \<Rightarrow> T | Some d \<Rightarrow> T(d := None))"

definition switch_kmem :: "('c, 'z) Nachos_scheme \<Rightarrow> 'c Thread \<Rightarrow> KMem" where
  "switch_kmem st nt = (if th_fresh nt then kmem st else case th_space nt of None \<Rightarrow> kmem st
     | Some a \<Rightarrow> (kmem st)\<lparr>km_machine := resumed_machine nt (the (spaces st a)) (mach st)\<rparr>)"

lemma switch_threads_old:
  "n \<noteq> currentThread st \<Longrightarrow> threadToBeDestroyed st \<noteq> Some (currentThread st) \<Longrightarrow>
     switch_threads st th n nt (currentThread st) = Some (saved st th)"
  by (auto simp: switch_threads_def Let_def split: option.splits)

lemma switch_threads_new:
  "threadToBeDestroyed st \<noteq> Some n \<Longrightarrow>
     switch_threads st th n nt n = Some (nt\<lparr>th_status := RUNNING, th_fresh := False\<rparr>)"
  by (auto simp: switch_threads_def Let_def split: option.splits)

lemma switch_threads_other:
  "t \<noteq> n \<Longrightarrow> t \<noteq> currentThread st \<Longrightarrow> th_fresh nt \<or> threadToBeDestroyed st \<noteq> Some t \<Longrightarrow>
     switch_threads st th n nt t = threads st t"
  by (auto simp: switch_threads_def Let_def split: option.splits)

lemma Scheduler_Run_spec:
  assumes "threads st (currentThread st) = Some th" "th_stack th \<in> {None, Some STACK_FENCEPOST}"
    "threads st n = Some nt" "n \<noteq> currentThread st" "\<And>a. th_space nt = Some a \<Longrightarrow> spaces st a \<noteq> None"
    "\<And>d. threadToBeDestroyed st = Some d \<Longrightarrow> d \<noteq> n \<and> threads st d \<noteq> None"
  shows "Scheduler_Run n st = Inr (st\<lparr>currentThread := n, threads := switch_threads st th n nt, kmem := switch_kmem st nt,
     threadToBeDestroyed := (if th_fresh nt then threadToBeDestroyed st else None),
     level := (if th_fresh nt then IntOn else level st)\<rparr>)"
proof (cases "th_fresh nt")
  case True
  then show ?thesis
    using run_before_switch_spec [OF assms(1-4)]
    by (simp add: Scheduler_Run_def run_after_switch_def switch_threads_def switch_kmem_def)
next
  case False
  define st1 where "st1 = st\<lparr>currentThread := n, threads := (threads st)(currentThread st \<mapsto> saved st th, n \<mapsto> nt\<lparr>th_status := RUNNING\<rparr>)\<rparr>"
  have b: "run_before_switch n st = Inr st1" using run_before_switch_spec [OF assms(1-4)] by (simp add: st1_def)
  have cur: "threads st1 n = Some (nt\<lparr>th_status := RUNNING\<rparr>)" "currentThread st1 = n" by (simp_all add: st1_def)
  have fr: "nt\<lparr>th_status := RUNNING, th_fresh := False\<rparr> = nt\<lparr>th_status := RUNNING\<rparr>" using False by simp
  define st2 where "st2 = (case threadToBeDestroyed st of None \<Rightarrow> st1
     | Some d \<Rightarrow> st1\<lparr>threads := (threads st1)(d := None), threadToBeDestroyed := None\<rparr>)"
  have d: "(case threadToBeDestroyed st1 of None \<Rightarrow> Inr st1
      | Some d \<Rightarrow> bindE (Thread_delete d st1) (\<lambda>st. Inr (st\<lparr>threadToBeDestroyed := None\<rparr>))) = Inr st2"
    using assms(6) by (auto simp: st2_def st1_def Thread_delete_def get_thread_def split: option.splits)
  have cur2: "threads st2 n = Some (nt\<lparr>th_status := RUNNING\<rparr>)" "currentThread st2 = n" "spaces st2 = spaces st" "mach st2 = mach st"
      "kmem st2 = kmem st" "threadToBeDestroyed st2 = None" "threads st2 = switch_threads st th n nt" "level st2 = level st"
    using assms(6) False fr by (auto simp: st2_def st1_def switch_threads_def split: option.splits)
  have "run_after_switch st1 = (if th_space nt \<noteq> None then
         bindE (RestoreUserState n st2) (\<lambda>st. bindE (get_space (th_space nt) st) (\<lambda>s.
         Inr (st\<lparr>kmem := (kmem st)\<lparr>km_machine := AddrSpace_RestoreState s (km_machine (kmem st))\<rparr>\<rparr>)))
       else Inr st2)"
    using False d cur cur2(2) by (simp add: run_after_switch_def)
  also have "\<dots> = Inr (st2\<lparr>kmem := switch_kmem st nt\<rparr>)"
    using False assms(5) cur2
    by (cases "th_space nt") (auto simp: RestoreUserState_spec [OF cur2(1)] get_space_def switch_kmem_def resumed_machine_def cong: if_cong)
  also have "st2\<lparr>kmem := switch_kmem st nt\<rparr> = st\<lparr>currentThread := n, threads := switch_threads st th n nt, kmem := switch_kmem st nt,
     threadToBeDestroyed := None\<rparr>"
    using cur2 by (auto simp: st2_def st1_def split: option.splits)
  finally show ?thesis using b False by (simp add: Scheduler_Run_def)
qed

section \<open>Yield rotates the ready list\<close>

lemma runnable_okE:
  assumes "runnable_ok st t s"
  obtains th where "threads st t = Some th" "th_status th = s" "th_stack th \<in> {None, Some STACK_FENCEPOST}"
    "\<forall>a. th_space th = Some a \<longrightarrow> spaces st a \<noteq> None"
  using assms by (auto simp: runnable_ok_def split: option.splits)

definition yielding :: "'c \<Rightarrow> ('c, 'z) Nachos_scheme \<Rightarrow> 'c Thread \<Rightarrow> 'c Thread" where
  "yielding k st th = th\<lparr>th_levels := level st # th_levels th, th_cont := k\<rparr>"

lemma Thread_Yield_alone:
  assumes "sched_ok st" "ready st = []" "threads st (currentThread st) = Some th"
  shows "Thread_Yield k st = Inr (st\<lparr>threads := (threads st)(currentThread st \<mapsto> yielding k st th), level := IntOff\<rparr>)"
proof -
  have l: "List_inv (readyList st)" using assms(1) by (simp add: sched_ok_def)
  then have "FindNextToRun s = Inr (None, s)" if "readyList s = readyList st" for s :: "('a, 'b) Nachos_scheme"
    using FindNextToRun_spec [of s] that assms(2) by (simp add: ready_def)
  then show ?thesis
    using assms(3) by (simp add: Thread_Yield_def disable_def set_cont_def yielding_def)
qed

lemma Thread_Yield_switch:
  assumes ok: "sched_ok st" and r: "ready st = n # ts" and th: "threads st (currentThread st) = Some th" and nt: "threads st n = Some nt"
  obtains l s1 where "Thread_Yield k st = Scheduler_Run n s1" "List_inv l" "List_items l = ts @ [currentThread st]"
    "s1 = st\<lparr>threads := (threads st)(currentThread st \<mapsto> (yielding k st th)\<lparr>th_status := READY\<rparr>), level := IntOff, readyList := l\<rparr>"
proof -
  let ?c = "currentThread st"
  define s0 where "s0 = st\<lparr>threads := (threads st)(?c \<mapsto> yielding k st th), level := IntOff\<rparr>"
  have l: "List_inv (readyList st)" using ok by (simp add: sched_ok_def)
  have "List_inv (readyList s0)" "ready s0 = n # ts" using l r by (simp_all add: s0_def ready_def)
  then obtain l1 where f: "List_inv l1" "FindNextToRun s0 = Inr (Some n, s0\<lparr>readyList := l1\<rparr>)" "List_items l1 = ts"
    using FindNextToRun_spec [of s0] by auto
  have c: "threads (s0\<lparr>readyList := l1\<rparr>) ?c = Some (yielding k st th)" by (simp add: s0_def)
  obtain l where l: "ReadyToRun ?c (s0\<lparr>readyList := l1\<rparr>) = Inr (s0\<lparr>threads := (threads s0)(?c \<mapsto> (yielding k st th)\<lparr>th_status := READY\<rparr>), readyList := l\<rparr>)"
      "List_inv l" "List_items l = ts @ [?c]"
    using ReadyToRun_spec [of "s0\<lparr>readyList := l1\<rparr>" ?c "yielding k st th"] f c by (auto simp: ready_def)
  have "bindE (disable st) (set_cont k) = Inr s0"
    using th by (simp add: disable_def set_cont_def s0_def yielding_def)
  then have "Thread_Yield k st = bindE (FindNextToRun s0) (\<lambda>(r, st). case r of None \<Rightarrow> Inr st
     | Some n \<Rightarrow> bindE (ReadyToRun (currentThread st) st) (Scheduler_Run n))"
    unfolding Thread_Yield_def bindE_assoc [symmetric] by simp
  then have "Thread_Yield k st = Scheduler_Run n (s0\<lparr>threads := (threads s0)(?c \<mapsto> (yielding k st th)\<lparr>th_status := READY\<rparr>), readyList := l\<rparr>)"
    using f(2) l(1) by (simp add: s0_def)
  moreover have "s0\<lparr>threads := (threads s0)(?c \<mapsto> (yielding k st th)\<lparr>th_status := READY\<rparr>), readyList := l\<rparr>
      = st\<lparr>threads := (threads st)(?c \<mapsto> (yielding k st th)\<lparr>th_status := READY\<rparr>), level := IntOff, readyList := l\<rparr>"
    by (cases st) (simp add: s0_def)
  ultimately show thesis using that l(2,3) by metis
qed

lemma Thread_Yield_ok:
  assumes "sched_ok st"
  shows "\<exists>st'. Thread_Yield k st = Inr st' \<and> sched_ok st' \<and> spaces st' = spaces st
    \<and> currentThread st' # ready st' = rotate1 (currentThread st # ready st)"
proof -
  let ?c = "currentThread st"
  obtain th where th: "threads st ?c = Some th" "th_status th = RUNNING" "th_stack th \<in> {None, Some STACK_FENCEPOST}"
      "\<forall>a. th_space th = Some a \<longrightarrow> spaces st a \<noteq> None"
    using assms runnable_okE [of st ?c RUNNING] by (auto simp: sched_ok_def)
  show ?thesis
  proof (cases "ready st")
    case Nil
    then show ?thesis
      using Thread_Yield_alone [OF assms Nil th(1), of k] assms th
      by (auto simp: sched_ok_def ready_def runnable_ok_def yielding_def split: option.splits)
  next
    case (Cons n ts)
    have dist: "distinct (?c # n # ts)" and rdy: "\<And>t. t \<in> set (n # ts) \<Longrightarrow> runnable_ok st t READY"
      and dest: "\<And>d. threadToBeDestroyed st = Some d \<Longrightarrow> d \<notin> set (?c # n # ts) \<and> threads st d \<noteq> None"
      using assms Cons by (auto simp: sched_ok_def split: option.splits)
    obtain nt where nt: "threads st n = Some nt" "th_stack nt \<in> {None, Some STACK_FENCEPOST}" "\<forall>a. th_space nt = Some a \<longrightarrow> spaces st a \<noteq> None"
      using runnable_okE [OF rdy [of n]] by (metis list.set_intros(1))
    obtain l s1 where y: "Thread_Yield k st = Scheduler_Run n s1" "List_inv l" "List_items l = ts @ [?c]"
      "s1 = st\<lparr>threads := (threads st)(?c \<mapsto> (yielding k st th)\<lparr>th_status := READY\<rparr>), level := IntOff, readyList := l\<rparr>"
      by (rule Thread_Yield_switch [OF assms Cons th(1) nt(1)])
    define c' where "c' = (yielding k st th)\<lparr>th_status := READY\<rparr>"
    have run: "Scheduler_Run n s1 = Inr (s1\<lparr>currentThread := n, threads := switch_threads s1 c' n nt, kmem := switch_kmem s1 nt,
       threadToBeDestroyed := (if th_fresh nt then threadToBeDestroyed s1 else None),
       level := (if th_fresh nt then IntOn else level s1)\<rparr>)" (is "_ = Inr ?s2")
      using th nt dist dest by (intro Scheduler_Run_spec) (auto simp: y(4) c'_def yielding_def)
    have d1: "\<And>t. threadToBeDestroyed s1 = Some t \<Longrightarrow> t \<notin> set (?c # n # ts) \<and> threads st t \<noteq> None" using dest by (simp add: y(4))
    have cur1: "currentThread s1 = ?c" "spaces s1 = spaces st" by (simp_all add: y(4))
    have at_n: "switch_threads s1 c' n nt n = Some (nt\<lparr>th_status := RUNNING, th_fresh := False\<rparr>)"
      using d1 by (intro switch_threads_new) auto
    have at_c: "switch_threads s1 c' n nt ?c = Some (saved s1 c')"
      using switch_threads_old [of n s1 c' nt] d1 dist cur1 by auto
    have at_t: "switch_threads s1 c' n nt t = threads st t" if "t \<notin> {?c, n}" "th_fresh nt \<or> threadToBeDestroyed s1 \<noteq> Some t" for t
      using that switch_threads_other [of t n s1 nt c'] cur1 by (simp add: y(4))
    have "runnable_ok ?s2 n RUNNING"
      using nt at_n cur1 by (auto simp: runnable_ok_def split: option.splits)
    moreover have "runnable_ok ?s2 t READY" if t: "t \<in> set (ts @ [?c])" for t
    proof (cases "t = ?c")
      case True
      then show ?thesis using th at_c cur1
        by (auto simp: runnable_ok_def c'_def yielding_def saved_def split: option.splits)
    next
      case False
      then have "runnable_ok st t READY" "t \<notin> {?c, n}" "threadToBeDestroyed s1 \<noteq> Some t" using t rdy dist d1 by auto
      then show ?thesis using at_t [of t] cur1 by (auto simp: runnable_ok_def split: option.splits)
    qed
    moreover have "\<And>d. threadToBeDestroyed ?s2 = Some d \<Longrightarrow> d \<notin> set (?c # n # ts) \<and> threads ?s2 d \<noteq> None"
      using d1 at_t by (auto split: if_splits)
    ultimately have "sched_ok ?s2"
      using y(2,3) dist by (auto simp: sched_ok_def ready_def y(4) split: option.splits)
    then show ?thesis using run y(1,3) Cons by (simp add: ready_def y(4))
  qed
qed

text \<open>Threads that do nothing but yield.\<close>

fun yield_n :: "nat \<Rightarrow> 'c \<Rightarrow> ('c, 'z) Nachos_scheme \<Rightarrow> (('c, 'z) Nachos_scheme) res" where
  "yield_n 0 k st = Inr st"
| "yield_n (Suc n) k st = bindE (Thread_Yield k st) (yield_n n k)"

text \<open>C29: Yield is round-robin and starves no thread. Starting from a well-formed scheduler,
  \<open>n\<close> successive yields never fail, keep the scheduling invariant (no thread is on the ready
  list twice, ready threads have status READY, the running one RUNNING) and rotate the
  sequence of the running thread and the ready list by \<open>n\<close>; so the thread at position \<open>i\<close>
  of the ready list runs after \<open>i + 1\<close> yields.\<close>

theorem Yield_round_robin:
  assumes "sched_ok st"
  shows "\<exists>st'. yield_n n k st = Inr st' \<and> sched_ok st'
    \<and> currentThread st' # ready st' = rotate n (currentThread st # ready st)"
  using assms
proof (induction n arbitrary: st)
  case (Suc n)
  obtain s1 where s1: "Thread_Yield k st = Inr s1" "sched_ok s1" "currentThread s1 # ready s1 = rotate1 (currentThread st # ready st)"
    using Thread_Yield_ok [OF Suc.prems, of k] by blast
  from Suc.IH [OF s1(2)] s1(1,3) show ?case by (auto simp: rotate1_rotate_swap)
qed simp

text \<open>A thread is left in the middle of \<^verbatim>\<open>Scheduler::Run\<close>, called by its \<^verbatim>\<open>Yield\<close> or \<^verbatim>\<open>Sleep\<close>, and resumed by the
  \<^verbatim>\<open>Scheduler::Run\<close> of another thread.\<close>

lemma Scheduler_Run_leaves:
  assumes "threads st (currentThread st) = Some th" "th_space th = Some a" "n \<noteq> currentThread st" "Scheduler_Run n st = Inr st1"
    and "threadToBeDestroyed st \<noteq> Some (currentThread st)"
  shows "threads st1 (currentThread st) = Some (saved st th)"
proof -
  obtain s0 where b: "run_before_switch n st = Inr s0" "run_after_switch s0 = Inr st1"
    using assms(4) by (auto simp: Scheduler_Run_def bindE_def split: sum.splits)
  have s0: "threads s0 (currentThread st) = Some (saved st th)" "currentThread s0 = n" "threadToBeDestroyed s0 \<noteq> Some (currentThread st)"
    using b(1) assms(1-3,5)
    by (auto simp: Let_def run_before_switch_def SaveUserState_spec saved_def CheckOverflow_def setStatus_def upd_thread_def get_thread_def assertE_def
        split: option.splits if_splits)
  obtain nt where nt: "threads s0 n = Some nt" using b(2) s0(2) by (auto simp: run_after_switch_def get_thread_def split: option.splits)
  show ?thesis
  proof (cases "th_fresh nt")
    case True
    then show ?thesis using b(2) s0 nt assms(3) by (auto simp: run_after_switch_def)
  next
    case False
    define s1 where "s1 = (case threadToBeDestroyed s0 of None \<Rightarrow> s0 | Some d \<Rightarrow> s0\<lparr>threads := (threads s0)(d := None), threadToBeDestroyed := None\<rparr>)"
    have d: "(case threadToBeDestroyed s0 of None \<Rightarrow> Inr s0
        | Some d \<Rightarrow> bindE (Thread_delete d s0) (\<lambda>st. Inr (st\<lparr>threadToBeDestroyed := None\<rparr>))) = Inr s1"
      and n: "threadToBeDestroyed s0 \<noteq> Some n"
      using b(2) s0(2) nt False by (auto simp: s1_def run_after_switch_def Thread_delete_def get_thread_def assertE_def split: option.splits if_splits)
    have s1: "threads s1 (currentThread st) = Some (saved st th)" "currentThread s1 = n" "threads s1 n = Some nt"
      using s0 n nt by (auto simp: s1_def split: option.splits)
    have "run_after_switch s0 = (if th_space nt \<noteq> None then
         bindE (RestoreUserState n s1) (\<lambda>st. bindE (get_space (th_space nt) st) (\<lambda>s.
         Inr (st\<lparr>kmem := (kmem st)\<lparr>km_machine := AddrSpace_RestoreState s (km_machine (kmem st))\<rparr>\<rparr>))) else Inr s1)"
      using d False nt s0(2) s1(2) by (simp add: run_after_switch_def)
    then show ?thesis using b(2) s1
      by (auto simp: RestoreUserState_spec [OF s1(3)] bindE_def split: if_splits sum.splits)
  qed
qed

lemma Scheduler_Run_resumes:
  assumes "threads st t = Some u" "\<not> th_fresh u" "th_space u = Some a" "spaces st a = Some s" "t \<noteq> currentThread st" "Scheduler_Run t st = Inr st'"
  shows "currentThread st' = t" "mach st' = resumed_machine u s (mach st)"
proof -
  obtain s0 where b: "run_before_switch t st = Inr s0" "run_after_switch s0 = Inr st'"
    using assms(6) by (auto simp: Scheduler_Run_def bindE_def split: sum.splits)
  obtain th where th: "threads st (currentThread st) = Some th" using b(1) by (auto simp: run_before_switch_def get_thread_def Let_def split: option.splits)
  have s0: "threads s0 t = Some (u\<lparr>th_status := RUNNING\<rparr>)" "currentThread s0 = t" "spaces s0 = spaces st" "mach s0 = mach st"
    using b(1) assms(1,5) th
    by (auto simp: Let_def run_before_switch_def SaveUserState_spec CheckOverflow_def setStatus_def upd_thread_def get_thread_def assertE_def
        split: option.splits if_splits)
  define s1 where "s1 = (case threadToBeDestroyed s0 of None \<Rightarrow> s0 | Some d \<Rightarrow> s0\<lparr>threads := (threads s0)(d := None), threadToBeDestroyed := None\<rparr>)"
  have d: "(case threadToBeDestroyed s0 of None \<Rightarrow> Inr s0
      | Some d \<Rightarrow> bindE (Thread_delete d s0) (\<lambda>st. Inr (st\<lparr>threadToBeDestroyed := None\<rparr>))) = Inr s1"
    and n: "threadToBeDestroyed s0 \<noteq> Some t"
    using b(2) s0(1,2) assms(2) by (auto simp: s1_def run_after_switch_def Thread_delete_def get_thread_def assertE_def split: option.splits if_splits)
  have s1: "threads s1 t = Some (u\<lparr>th_status := RUNNING\<rparr>)" "currentThread s1 = t" "spaces s1 a = Some s" "mach s1 = mach st"
    using s0 n assms(4) by (auto simp: s1_def split: option.splits)
  have "Inr st' = bindE (RestoreUserState t s1) (\<lambda>st. bindE (get_space (th_space u) st) (\<lambda>s.
      Inr (st\<lparr>kmem := (kmem st)\<lparr>km_machine := AddrSpace_RestoreState s (km_machine (kmem st))\<rparr>\<rparr>)))"
    using b(2) d assms(2,3) s0(1,2) s1(2) by (simp add: run_after_switch_def)
  then show "currentThread st' = t" "mach st' = resumed_machine u s (mach st)"
    using s1 assms(3) by (simp_all add: RestoreUserState_spec [OF s1(1)] get_space_def resumed_machine_def cong: if_cong)
qed

text \<open>The thread that gives up the processor while another one is ready: \<open>Scheduler_Run\<close> is called with the machine
  and the spaces as they are, and nobody's death is due to the caller.\<close>

lemma give_up_runs:
  assumes "sched_ok st" "threads st (currentThread st) = Some th" "ready st = n # ts"
    and "Thread_Yield k st = Inr st1 \<or> Thread_Sleep fuel idle k st = Inr st1"
  obtains s1 th1 where "Scheduler_Run n s1 = Inr st1" "currentThread s1 = currentThread st" "threads s1 (currentThread st) = Some th1"
    "mach s1 = mach st" "userRegisters th1 = userRegisters th" "th_space th1 = th_space th" "th_fresh th1 = th_fresh th"
    "threadToBeDestroyed s1 = threadToBeDestroyed st"
  using assms(4)
proof
  assume y: "Thread_Yield k st = Inr st1"
  obtain nt where "threads st n = Some nt" using assms(1,3) by (auto simp: sched_ok_def elim: runnable_okE)
  then obtain l s1 where "Thread_Yield k st = Scheduler_Run n s1"
    "s1 = st\<lparr>threads := (threads st)(currentThread st \<mapsto> (yielding k st th)\<lparr>th_status := READY\<rparr>), level := IntOff, readyList := l\<rparr>"
    by (rule Thread_Yield_switch [OF assms(1,3,2)])
  then show thesis using y that [of s1 "(yielding k st th)\<lparr>th_status := READY\<rparr>"] by (simp add: yielding_def)
next
  assume z: "Thread_Sleep fuel idle k st = Inr st1"
  define s0 where "s0 = st\<lparr>threads := (threads st)(currentThread st \<mapsto> th\<lparr>th_status := BLOCKED, th_cont := k\<rparr>)\<rparr>"
  have loop: "Sleep_loop fuel idle s0 = Inr st1"
    using z assms(2) by (auto simp: Thread_Sleep_def setStatus_def set_cont_def s0_def assertE_def split: if_splits)
  then obtain f where f: "fuel = Suc f" by (cases fuel) auto
  have "List_inv (readyList s0)" "ready s0 = n # ts" using assms(1,3) by (simp_all add: s0_def sched_ok_def ready_def)
  then obtain l where "FindNextToRun s0 = Inr (Some n, s0\<lparr>readyList := l\<rparr>)" using FindNextToRun_spec [of s0] by auto
  then have "Scheduler_Run n (s0\<lparr>readyList := l\<rparr>) = Inr st1" using loop f by simp
  then show thesis using that [of "s0\<lparr>readyList := l\<rparr>" "th\<lparr>th_status := BLOCKED, th_cont := k\<rparr>"] by (simp add: s0_def)
qed

text \<open>C30: A context switch preserves the user program. When a thread runs in its address space and yields or sleeps
  while another thread is ready, and is scheduled again later by the \<^verbatim>\<open>Scheduler::Run\<close> in which another thread's Yield, Sleep or Finish ends,
  from any state in which its saved registers and its address space are as they were left, then every
  user register, the page table register and its size have the value they had when it gave up the processor, whatever ran in between.\<close>

theorem context_switch_roundtrip:
  assumes "sched_ok st" "threads st (currentThread st) = Some th" "\<not> th_fresh th" "th_space th = Some a" "spaces st a = Some s"
    and "pageTable (mach st) = Some (as_pageTable s)" "pageTableSize (mach st) = numPages s"
    and "ready st = n # ts" "Thread_Yield k st = Inr st1 \<or> Thread_Sleep fuel idle k st = Inr st1"
    and "threads st1 (currentThread st) = Some v" "threads st2 (currentThread st) = Some u"
    and "userRegisters u = userRegisters v" "th_space u = th_space v" "th_fresh u = th_fresh v" "spaces st2 a = spaces st a"
    and "currentThread st2 \<noteq> currentThread st" "Scheduler_Run (currentThread st) st2 = Inr st3"
  shows "currentThread st3 = currentThread st \<and> (\<forall>i < NumTotalRegs. registers (mach st3) i = registers (mach st) i)
    \<and> pageTable (mach st3) = pageTable (mach st) \<and> pageTableSize (mach st3) = pageTableSize (mach st)"
proof -
  let ?c = "currentThread st"
  obtain s1 th1 where s1: "Scheduler_Run n s1 = Inr st1" "currentThread s1 = ?c" "threads s1 ?c = Some th1" "mach s1 = mach st"
      "userRegisters th1 = userRegisters th" "th_space th1 = th_space th" "th_fresh th1 = th_fresh th" "threadToBeDestroyed s1 = threadToBeDestroyed st"
    by (rule give_up_runs [OF assms(1,2,8,9)])
  have ne: "n \<noteq> ?c" "threadToBeDestroyed st \<noteq> Some ?c" using assms(1,8) by (auto simp: sched_ok_def split: option.splits)
  have "v = saved s1 th1"
    using Scheduler_Run_leaves [of s1 th1 a n st1] s1 ne assms(4,10) by simp
  then have u: "th_space u = Some a" "\<not> th_fresh u" "\<And>i. i < NumTotalRegs \<Longrightarrow> userRegisters u i = registers (mach st) i"
    using assms(3,4,12-14) s1 by (simp_all add: saved_def)
  show ?thesis
    using Scheduler_Run_resumes [OF assms(11) u(2,1), of s st3] assms(5-7,15-17) u(3) by (auto simp: resumed_machine_def AddrSpace_RestoreState_def)
qed

text \<open>Concrete instances: thread 0 runs a user program, thread 1 is ready.\<close>

definition example_thread :: "ThreadStatus \<Rightarrow> nat option \<Rightarrow> nat Thread" where
  "example_thread s a = \<lparr>th_name = ''t'', th_stack = Some STACK_FENCEPOST, th_status = s, userRegisters = (\<lambda>_. 0), th_space = a,
     th_cont = 0, th_fresh = False, th_levels = []\<rparr>"

definition example_nachos :: "nat Nachos" where
  "example_nachos = \<lparr>kmem = example_kmem\<lparr>km_machine := (km_machine example_kmem)\<lparr>registers := (\<lambda>i. of_nat i)\<rparr>\<rparr>,
     threads = [0 \<mapsto> example_thread RUNNING (Some 0), 1 \<mapsto> example_thread READY None],
     readyList = \<lparr>l_cells = [Some \<lparr>le_next = None, le_key = 0, le_item = 1\<rparr>], l_first = Some 0, l_last = Some 0\<rparr>,
     currentThread = 0, threadToBeDestroyed = None, level = IntOn, spaces = [0 \<mapsto> example_space], pcbs = Map.empty,
     processManager = \<lparr>pm_map = \<lparr>numBits = 0, numWords = 0, bm_map = []\<rparr>, pcbTable = []\<rparr>, next_obj = 2\<rparr>"

lemma example_nachos_ready: "List_inv (readyList example_nachos)" "ready example_nachos = [1]"
  by (simp_all add: example_nachos_def ready_def List_inv_def List_chain_def List_addrs_def List_items_def List_elems_def
      cell_at_def elem_of_def)

lemma example_nachos_ok: "sched_ok example_nachos"
  using example_nachos_ready
  by (simp add: sched_ok_def runnable_ok_def) (simp add: example_nachos_def example_thread_def)

theorem Yield_round_robin_witness: "\<exists>st'. yield_n 3 5 example_nachos = Inr st' \<and> currentThread st' = 1"
  using Yield_round_robin [OF example_nachos_ok, of 3 5] example_nachos_ready(2)
  by (auto simp: example_nachos_def rotate_def numeral_3_eq_3)

theorem context_switch_roundtrip_witness:
  "\<exists>st1 s2 st3. Thread_Yield 5 example_nachos = Inr st1 \<and> Thread_Yield 6 st1 = Scheduler_Run 0 s2 \<and> Scheduler_Run 0 s2 = Inr st3
     \<and> registers (mach st3) 7 = 7 \<and> pageTable (mach st3) = Some 0"
proof -
  obtain st1 where s1: "Thread_Yield 5 example_nachos = Inr st1" "sched_ok st1" "spaces st1 = spaces example_nachos"
    "currentThread st1 # ready st1 = rotate1 (currentThread example_nachos # ready example_nachos)"
    using Thread_Yield_ok [OF example_nachos_ok, of 5] by blast
  have c: "currentThread example_nachos = 0" "threads example_nachos 0 = Some (example_thread RUNNING (Some 0))"
    "spaces example_nachos 0 = Some example_space" "registers (mach example_nachos) 7 = 7"
    "pageTable (mach example_nachos) = Some (as_pageTable example_space)" "pageTableSize (mach example_nachos) = numPages example_space"
    by (simp_all add: example_nachos_def example_kmem_def example_space_def)
  have r1: "ready st1 = [0]" "currentThread st1 \<noteq> 0" using s1(4) c(1) example_nachos_ready(2) by simp_all
  obtain v th1 where v: "threads st1 0 = Some v" "threads st1 (currentThread st1) = Some th1" using s1(2) r1 by (auto simp: sched_ok_def runnable_ok_def split: option.splits)
  obtain l s2 where y: "Thread_Yield 6 st1 = Scheduler_Run 0 s2"
    "s2 = st1\<lparr>threads := (threads st1)(currentThread st1 \<mapsto> (yielding 6 st1 th1)\<lparr>th_status := READY\<rparr>), level := IntOff, readyList := l\<rparr>"
    by (rule Thread_Yield_switch [OF s1(2) r1(1) v(2,1)])
  then have s2: "threads s2 0 = Some v" "spaces s2 = spaces st1" "currentThread s2 = currentThread st1" using r1(2) v(1) by simp_all
  obtain st3 where s3: "Thread_Yield 6 st1 = Inr st3" using Thread_Yield_ok [OF s1(2), of 6] by blast
  have "registers (mach st3) 7 = registers (mach example_nachos) 7 \<and> pageTable (mach st3) = pageTable (mach example_nachos)"
    using context_switch_roundtrip [OF example_nachos_ok, of "example_thread RUNNING (Some 0)" 0 example_space 1 "[]" 5 st1 0 Inr v s2 v st3]
      s1(1,3) s2 s3 c r1(2) y(1) v example_nachos_ready(2) by (simp add: example_thread_def NumTotalRegs_def)
  then show ?thesis using s1(1) y(1) s3 c(4,5) by (intro exI [of _ st1] exI [of _ s2] exI [of _ st3]) (simp add: example_space_def)
qed

section \<open>Forking and finishing threads\<close>

lemma Thread_Fork_spec:
  assumes "List_inv (readyList st)" "threads st t = Some th" "threads st (currentThread st) = Some ct" "t \<noteq> currentThread st"
  obtains l where "Thread_Fork t k st = Inr (st\<lparr>threads := (threads st)(t \<mapsto>
      th\<lparr>th_stack := Some STACK_FENCEPOST, th_cont := k, th_fresh := True, th_status := READY\<rparr>), readyList := l\<rparr>)"
    "List_inv l" "List_items l = ready st @ [t]"
proof -
  define s1 where "s1 = st\<lparr>threads := (threads st)(t \<mapsto> th\<lparr>th_stack := Some STACK_FENCEPOST, th_cont := k, th_fresh := True\<rparr>,
     currentThread st \<mapsto> ct\<lparr>th_levels := level st # th_levels ct\<rparr>), level := IntOff\<rparr>"
  have 1: "bindE (StackAllocate t k st) disable = Inr s1"
    using assms by (simp add: StackAllocate_def disable_def s1_def)
  have t: "threads s1 t = Some (th\<lparr>th_stack := Some STACK_FENCEPOST, th_cont := k, th_fresh := True\<rparr>)" "List_inv (readyList s1)"
    "ready s1 = ready st" using assms by (simp_all add: s1_def ready_def)
  obtain l where l: "ReadyToRun t s1 = Inr (s1\<lparr>threads := (threads s1)(t \<mapsto>
      th\<lparr>th_stack := Some STACK_FENCEPOST, th_cont := k, th_fresh := True, th_status := READY\<rparr>), readyList := l\<rparr>)"
    "List_inv l" "List_items l = ready st @ [t]"
    using ReadyToRun_spec [OF t(2,1)] t(3) by (metis Thread.select_convs(1))
  have "Thread_Fork t k st = bindE (ReadyToRun t s1) restore"
    using 1 by (simp add: Thread_Fork_def bindE_assoc [symmetric])
  also have "\<dots> = Inr (st\<lparr>threads := (threads st)(t \<mapsto>
      th\<lparr>th_stack := Some STACK_FENCEPOST, th_cont := k, th_fresh := True, th_status := READY\<rparr>), readyList := l\<rparr>)"
    using assms l(1) by (simp add: restore_def s1_def fun_upd_twist fun_upd_idem)
  finally show thesis using that l(2,3) by blast
qed

definition finishing :: "'c \<Rightarrow> ('c, 'z) Nachos_scheme \<Rightarrow> 'c Thread \<Rightarrow> 'c Thread" where
  "finishing k st th = th\<lparr>th_levels := level st # th_levels th, th_status := BLOCKED, th_cont := k\<rparr>"

text \<open>The thread that finishes hands the processor to the first ready thread.\<close>

lemma Thread_Finish_spec:
  assumes rl: "List_inv (readyList st)" "ready st = n # ts" and c: "threads st (currentThread st) = Some th" "th_stack th \<in> {None, Some STACK_FENCEPOST}"
    and n: "threads st n = Some nt" "n \<noteq> currentThread st" "\<forall>a. th_space nt = Some a \<longrightarrow> spaces st a \<noteq> None"
  obtains s1 l where "Thread_Finish (Suc fuel) idle k st = Inr (s1\<lparr>currentThread := n, threads := switch_threads s1 (the (threads s1 (currentThread st))) n nt,
      kmem := switch_kmem s1 nt, threadToBeDestroyed := (if th_fresh nt then Some (currentThread st) else None),
      level := (if th_fresh nt then IntOn else IntOff)\<rparr>)"
    "s1 = st\<lparr>level := IntOff, threadToBeDestroyed := Some (currentThread st),
        threads := (threads st)(currentThread st \<mapsto> finishing k st th), readyList := l\<rparr>" "List_inv l" "List_items l = ts"
proof -
  let ?c = "currentThread st"
  define s0 where "s0 = st\<lparr>level := IntOff, threadToBeDestroyed := Some ?c, threads := (threads st)(?c \<mapsto> finishing k st th)\<rparr>"
  have 1: "Thread_Finish (Suc fuel) idle k st = Sleep_loop (Suc fuel) idle s0"
    using c by (simp add: Thread_Finish_def Thread_Sleep_def disable_def setStatus_def set_cont_def s0_def finishing_def)
  have "List_inv (readyList s0)" "ready s0 = n # ts" using rl by (simp_all add: s0_def ready_def)
  then obtain l where l: "List_inv l" "FindNextToRun s0 = Inr (Some n, s0\<lparr>readyList := l\<rparr>)" "List_items l = ts"
    using FindNextToRun_spec [of s0] by auto
  define s1 where "s1 = s0\<lparr>readyList := l\<rparr>"
  have s1: "threads s1 ?c = Some (finishing k st th)" "currentThread s1 = ?c" "threads s1 n = Some nt"
      "spaces s1 = spaces st" "threadToBeDestroyed s1 = Some ?c" "level s1 = IntOff"
    using n by (simp_all add: s1_def s0_def)
  have "Scheduler_Run n s1 = Inr (s1\<lparr>currentThread := n, threads := switch_threads s1 (the (threads s1 ?c)) n nt,
      kmem := switch_kmem s1 nt, threadToBeDestroyed := (if th_fresh nt then threadToBeDestroyed s1 else None),
      level := (if th_fresh nt then IntOn else level s1)\<rparr>)"
    using c(2) n s1 by (intro Scheduler_Run_spec) (auto simp: finishing_def)
  then have "Thread_Finish (Suc fuel) idle k st = Inr (s1\<lparr>currentThread := n, threads := switch_threads s1 (the (threads s1 ?c)) n nt,
      kmem := switch_kmem s1 nt, threadToBeDestroyed := (if th_fresh nt then Some ?c else None),
      level := (if th_fresh nt then IntOn else IntOff)\<rparr>)"
    unfolding 1 using l(2) s1(5,6) by (simp add: s1_def)
  moreover have "s1 = st\<lparr>level := IntOff, threadToBeDestroyed := Some ?c, threads := (threads st)(?c \<mapsto> finishing k st th), readyList := l\<rparr>" by (simp add: s1_def s0_def)
  ultimately show thesis using that l(1,3) by blast
qed

end
