(* ===== verification/ThreadInterface.thy ===== *)
theory ThreadInterface
  imports Threads
begin

text \<open>
  What the synchronization primitives rely on of threads and the scheduler, as the locale
  \<^verbatim>\<open>thread_scheduler\<close>: who runs, who is ready, who sleeps and what waking and blocking do to
  them. The interpretation \<^verbatim>\<open>nachos_threads\<close> discharges its laws for \<^verbatim>\<open>Scheduler::ReadyToRun\<close> and
  \<^verbatim>\<open>Thread::Sleep\<close> (threads/scheduler.cc, threads/thread.cc); the lemmas that follow give the
  effect of \<^verbatim>\<open>Interrupt::SetLevel\<close> and \<^verbatim>\<open>Thread::Yield\<close> in the same terms.
\<close>

section \<open>The interface of the scheduler\<close>

text \<open>
  What the synchronization primitives use of the scheduler: putting a blocked thread back on the
  ready list, blocking the running thread, and yielding. \<open>view\<close> gives the continuation of a
  thread, its saved interrupt levels and whether it has not started yet; \<open>asleep\<close> says that a
  thread is blocked and can be woken.
\<close>

locale thread_scheduler =
  fixes running :: "'s \<Rightarrow> nat" and queue :: "'s \<Rightarrow> nat list" and view :: "'s \<Rightarrow> nat \<Rightarrow> ('c \<times> IntStatus list \<times> bool) option"
    and lev :: "'s \<Rightarrow> IntStatus" and inv :: "'s \<Rightarrow> bool" and asleep :: "'s \<Rightarrow> nat \<Rightarrow> bool"
    and wake :: "nat \<Rightarrow> 's \<Rightarrow> 's res" and block :: "'c \<Rightarrow> 's \<Rightarrow> 's res"
  assumes asleep_idle: "inv s \<Longrightarrow> asleep s t \<Longrightarrow> t \<noteq> running s \<and> t \<notin> set (queue s)"
    and inv_distinct: "inv s \<Longrightarrow> distinct (running s # queue s)"
    and inv_view: "inv s \<Longrightarrow> t \<in> set (running s # queue s) \<Longrightarrow> view s t \<noteq> None"
    and wake_ok: "inv s \<Longrightarrow> asleep s t \<Longrightarrow> \<exists>s'. wake t s = Inr s' \<and> inv s' \<and> running s' = running s \<and> queue s' = queue s @ [t]
        \<and> view s' = view s \<and> lev s' = lev s \<and> (\<forall>u. u \<noteq> t \<longrightarrow> asleep s' u = asleep s u)"
    and block_ok: "inv s \<Longrightarrow> lev s = IntOff \<Longrightarrow> queue s = n # ts \<Longrightarrow> view s (running s) = Some (k0, ls, f) \<Longrightarrow> view s n = Some (kn, lsn, fn) \<Longrightarrow>
        \<exists>s'. block k s = Inr s' \<and> inv s' \<and> running s' = n \<and> queue s' = ts
        \<and> view s' = (view s)(running s \<mapsto> (k, ls, f), n \<mapsto> (kn, lsn, False)) \<and> lev s' = (if fn then IntOn else IntOff)
        \<and> asleep s' (running s) \<and> (\<forall>u. asleep s u \<longrightarrow> asleep s' u)"
begin

text \<open>Waking several threads one after the other.\<close>

lemma wake_all:
  assumes "inv s" "\<forall>t \<in> set ts. asleep s t" "distinct ts"
  shows "\<exists>s'. foldE wake ts s = Inr s' \<and> inv s' \<and> running s' = running s \<and> queue s' = queue s @ ts \<and> view s' = view s \<and> lev s' = lev s
    \<and> (\<forall>u. u \<notin> set ts \<longrightarrow> asleep s' u = asleep s u)"
  using assms
proof (induction ts arbitrary: s)
  case (Cons t ts)
  obtain s1 where s1: "wake t s = Inr s1" "inv s1" "running s1 = running s" "queue s1 = queue s @ [t]" "view s1 = view s"
      "lev s1 = lev s" "\<forall>u. u \<noteq> t \<longrightarrow> asleep s1 u = asleep s u"
    using wake_ok [OF Cons.prems(1), of t] Cons.prems(2) by auto
  have "\<forall>u \<in> set ts. asleep s1 u" using Cons.prems(2,3) s1(7) by auto
  then show ?case using Cons.IH [OF s1(2)] Cons.prems(3) s1 by auto
qed simp

end

text \<open>The provider: the kernel state without a thread waiting to be destroyed.\<close>

definition tview :: "('c, 'z) Nachos_scheme \<Rightarrow> nat \<Rightarrow> ('c \<times> IntStatus list \<times> bool) option" where
  "tview st t = map_option (\<lambda>th. (th_cont th, th_levels th, th_fresh th)) (threads st t)"

definition sys_ok :: "('c, 'z) Nachos_scheme \<Rightarrow> bool" where
  "sys_ok st \<longleftrightarrow> sched_ok st \<and> threadToBeDestroyed st = None"

definition sleeping :: "('c, 'z) Nachos_scheme \<Rightarrow> nat \<Rightarrow> bool" where
  "sleeping st t = runnable_ok st t BLOCKED"

lemma runnable_status:
  "runnable_ok st t s \<Longrightarrow> runnable_ok st t s' \<Longrightarrow> s = s'"
  by (auto simp: runnable_ok_def split: option.splits)

lemma sleeping_idle:
  assumes "sys_ok st" "sleeping st t"
  shows "t \<noteq> currentThread st \<and> t \<notin> set (ready st)"
proof -
  have "runnable_ok st (currentThread st) RUNNING" "\<forall>u \<in> set (ready st). runnable_ok st u READY" "runnable_ok st t BLOCKED"
    using assms by (auto simp: sys_ok_def sched_ok_def sleeping_def)
  then show ?thesis using runnable_status by blast
qed

text \<open>A thread whose record and address space are untouched is as runnable as before.\<close>

lemma runnable_ok_cong:
  "threads st' t = threads st t \<Longrightarrow> spaces st' = spaces st \<Longrightarrow> runnable_ok st' t s = runnable_ok st t s"
  by (simp add: runnable_ok_def cong: option.case_cong)

lemma ReadyToRun_wakes:
  assumes "sys_ok st" "sleeping st t"
  shows "\<exists>st'. ReadyToRun t st = Inr st' \<and> sys_ok st' \<and> currentThread st' = currentThread st \<and> ready st' = ready st @ [t]
    \<and> tview st' = tview st \<and> level st' = level st \<and> (\<forall>u. u \<noteq> t \<longrightarrow> sleeping st' u = sleeping st u)"
proof -
  have sch: "List_inv (readyList st)" "distinct (currentThread st # ready st)" "runnable_ok st (currentThread st) RUNNING"
      "\<forall>u \<in> set (ready st). runnable_ok st u READY" "threadToBeDestroyed st = None"
    using assms(1) by (simp_all add: sys_ok_def sched_ok_def)
  obtain th where th: "threads st t = Some th" "th_stack th \<in> {None, Some STACK_FENCEPOST}" "\<forall>a. th_space th = Some a \<longrightarrow> spaces st a \<noteq> None"
    using assms(2) by (auto simp: sleeping_def elim: runnable_okE)
  obtain l where l: "ReadyToRun t st = Inr (st\<lparr>threads := (threads st)(t \<mapsto> th\<lparr>th_status := READY\<rparr>), readyList := l\<rparr>)" (is "_ = Inr ?s")
      "List_inv l" "List_items l = ready st @ [t]"
    by (rule ReadyToRun_spec [OF sch(1) th(1)])
  have new: "runnable_ok ?s t READY" using th by (auto simp: runnable_ok_def split: option.splits)
  have old: "runnable_ok ?s u x = runnable_ok st u x" if "u \<noteq> t" for u x
    using that by (intro runnable_ok_cong) simp_all
  note idle = sleeping_idle [OF assms]
  have "runnable_ok ?s (currentThread st) RUNNING" "\<forall>u \<in> set (ready st). runnable_ok ?s u READY"
    using old idle sch(3,4) by metis+
  then have "sched_ok ?s"
    using sch(2,5) l(2,3) new idle by (simp add: sched_ok_def) (auto simp: ready_def)
  then show ?thesis
    using l old th(1) sch(5) by (auto simp: sys_ok_def ready_def tview_def sleeping_def fun_eq_iff)
qed

lemma Thread_Sleep_blocks:
  assumes "sys_ok st" "level st = IntOff" "ready st = n # ts" "tview st (currentThread st) = Some (k0, ls, f)" "tview st n = Some (kn, lsn, fn)"
  shows "\<exists>st'. Thread_Sleep (Suc fuel) idle k st = Inr st' \<and> sys_ok st' \<and> currentThread st' = n \<and> ready st' = ts
    \<and> tview st' = (tview st)(currentThread st \<mapsto> (k, ls, f), n \<mapsto> (kn, lsn, False)) \<and> level st' = (if fn then IntOn else IntOff)
    \<and> sleeping st' (currentThread st) \<and> (\<forall>u. sleeping st u \<longrightarrow> sleeping st' u)"
proof -
  let ?c = "currentThread st"
  have sch: "List_inv (readyList st)" "distinct (?c # n # ts)" "runnable_ok st ?c RUNNING"
      "\<forall>u \<in> set (n # ts). runnable_ok st u READY" "threadToBeDestroyed st = None"
    using assms(1,3) by (simp_all add: sys_ok_def sched_ok_def)
  obtain th where th: "threads st ?c = Some th" "th_stack th \<in> {None, Some STACK_FENCEPOST}" "\<forall>a. th_space th = Some a \<longrightarrow> spaces st a \<noteq> None"
    by (rule runnable_okE [OF sch(3)])
  obtain nt where nt: "threads st n = Some nt" "th_stack nt \<in> {None, Some STACK_FENCEPOST}" "\<forall>a. th_space nt = Some a \<longrightarrow> spaces st a \<noteq> None"
    using sch(4) runnable_okE [of st n READY] by (metis list.set_intros(1))
  define c' where "c' = th\<lparr>th_status := BLOCKED, th_cont := k\<rparr>"
  obtain l where l: "List_inv l" "FindNextToRun (st\<lparr>threads := (threads st)(?c \<mapsto> c')\<rparr>) = Inr (Some n, st\<lparr>threads := (threads st)(?c \<mapsto> c'), readyList := l\<rparr>)"
      "List_items l = ts"
    using FindNextToRun_spec [of "st\<lparr>threads := (threads st)(?c \<mapsto> c')\<rparr>"] sch(1) assms(3) by (auto simp: ready_def)
  define s1 where "s1 = st\<lparr>threads := (threads st)(?c \<mapsto> c'), readyList := l\<rparr>"
  have "Thread_Sleep (Suc fuel) idle k st = Scheduler_Run n s1"
    using th(1) assms(2) l(2) by (simp add: Thread_Sleep_def setStatus_def set_cont_def c'_def s1_def)
  also have "\<dots> = Inr (s1\<lparr>currentThread := n, threads := switch_threads s1 c' n nt, kmem := switch_kmem s1 nt,
     threadToBeDestroyed := (if th_fresh nt then threadToBeDestroyed s1 else None), level := (if th_fresh nt then IntOn else level s1)\<rparr>)"
    (is "_ = Inr ?s")
    using th nt sch(2,5) by (intro Scheduler_Run_spec) (auto simp: s1_def c'_def)
  finally have run: "Thread_Sleep (Suc fuel) idle k st = Inr ?s" .
  define s2 where "s2 = ?s"
  have T: "threads s2 = (threads st)(?c \<mapsto> saved s1 c', n \<mapsto> nt\<lparr>th_status := RUNNING, th_fresh := False\<rparr>)"
    using sch(5) by (simp add: s2_def switch_threads_def s1_def Let_def)
  have sel: "spaces s2 = spaces st" "currentThread s2 = n" "ready s2 = ts" "readyList s2 = l" "threadToBeDestroyed s2 = None"
    using l(3) sch(5) by (simp_all add: s2_def s1_def ready_def)
  have sv: "th_status (saved s1 c') = BLOCKED" "th_stack (saved s1 c') = th_stack th" "th_space (saved s1 c') = th_space th"
      "th_cont (saved s1 c') = k" "th_levels (saved s1 c') = th_levels th" "th_fresh (saved s1 c') = th_fresh th"
    by (simp_all add: saved_def c'_def)
  have old: "runnable_ok s2 u x = runnable_ok st u x" if "u \<notin> {?c, n}" for u x
    using that T sel(1) by (intro runnable_ok_cong) simp_all
  have run_n: "runnable_ok s2 n RUNNING" unfolding runnable_ok_def T sel using nt sch(2) by (auto split: option.splits)
  have slp: "sleeping s2 ?c"
    unfolding sleeping_def runnable_ok_def T sel using th sch(2) sv by (auto split: option.splits)
  have "\<forall>u \<in> set ts. runnable_ok s2 u READY"
  proof
    fix u assume "u \<in> set ts"
    then have "u \<notin> {?c, n}" "runnable_ok st u READY" using sch(2,4) by auto
    then show "runnable_ok s2 u READY" using old by blast
  qed
  then have "sched_ok s2"
    unfolding sched_ok_def sel using l(1) sch(2) run_n by simp
  moreover have "tview s2 = (tview st)(?c \<mapsto> (k, ls, f), n \<mapsto> (kn, lsn, False))"
    using assms(4,5) th(1) nt(1) sv unfolding tview_def T by (auto simp: fun_eq_iff)
  moreover have "sleeping s2 u" if "sleeping st u" for u
    using that sleeping_idle [OF assms(1) that] old [of u BLOCKED] assms(3) by (auto simp: sleeping_def)
  moreover have "th_fresh nt = fn" using assms(5) nt(1) by (simp add: tview_def)
  moreover have "level s2 = (if th_fresh nt then IntOn else IntOff)" using assms(2) by (simp add: s2_def s1_def)
  ultimately show ?thesis unfolding run s2_def [symmetric] using sel slp by (auto simp: sys_ok_def)
qed

interpretation nachos_threads: thread_scheduler currentThread ready tview level sys_ok sleeping ReadyToRun "Thread_Sleep (Suc fuel) idle"
proof
  show "sys_ok s \<Longrightarrow> t \<in> set (currentThread s # ready s) \<Longrightarrow> tview s t \<noteq> None" for s :: "('a, 'b) Nachos_scheme" and t
    by (auto simp: sys_ok_def sched_ok_def tview_def runnable_ok_def split: option.splits)
qed (simp_all add: sleeping_idle ReadyToRun_wakes Thread_Sleep_blocks, simp add: sys_ok_def sched_ok_def)

text \<open>Operations of the running thread on its own record leave the schedule alone.\<close>

definition same_schedule :: "('c, 'z) Nachos_scheme \<Rightarrow> ('c, 'z) Nachos_scheme \<Rightarrow> bool" where
  "same_schedule st st' \<longleftrightarrow> sys_ok st' = sys_ok st \<and> currentThread st' = currentThread st \<and> ready st' = ready st \<and> sleeping st' = sleeping st"

lemma same_schedule_trans: "same_schedule a b \<Longrightarrow> same_schedule b c \<Longrightarrow> same_schedule a c"
  by (simp add: same_schedule_def)

lemma own_update:
  assumes "threads st (currentThread st) = Some th" "th_status (f th) = th_status th" "th_stack (f th) = th_stack th" "th_space (f th) = th_space th"
  shows "same_schedule st (st\<lparr>threads := (threads st)(currentThread st \<mapsto> f th), level := l\<rparr>)" (is "same_schedule st ?s")
proof -
  have "runnable_ok ?s t x = runnable_ok st t x" for t x
    using assms by (auto simp: runnable_ok_def split: option.splits)
  then show ?thesis
    using assms(1) by (auto simp: same_schedule_def sys_ok_def sched_ok_def ready_def sleeping_def fun_eq_iff split: option.splits)
qed

lemma tview_SomeE:
  assumes "tview st t = Some (k, ls, f)"
  obtains th where "threads st t = Some th" "th_cont th = k" "th_levels th = ls" "th_fresh th = f"
  using assms by (auto simp: tview_def)

lemma disable_view:
  assumes "tview st (currentThread st) = Some (k, ls, f)"
  obtains st' where "disable st = Inr st'" "same_schedule st st'" "level st' = IntOff"
    "tview st' = (tview st)(currentThread st \<mapsto> (k, level st # ls, f))"
proof -
  obtain th where th: "threads st (currentThread st) = Some th" "th_cont th = k" "th_levels th = ls" "th_fresh th = f"
    by (rule tview_SomeE [OF assms])
  let ?f = "\<lambda>th. th\<lparr>th_levels := level st # th_levels th\<rparr>"
  show thesis
    using that [of "st\<lparr>threads := (threads st)(currentThread st \<mapsto> ?f th), level := IntOff\<rparr>"] th own_update [of st th ?f IntOff]
    by (simp add: disable_def tview_def fun_eq_iff)
qed

lemma restore_view:
  assumes "tview st (currentThread st) = Some (k, l # ls, f)"
  obtains st' where "restore st = Inr st'" "same_schedule st st'" "level st' = l"
    "tview st' = (tview st)(currentThread st \<mapsto> (k, ls, f))"
proof -
  obtain th where th: "threads st (currentThread st) = Some th" "th_cont th = k" "th_levels th = l # ls" "th_fresh th = f"
    by (rule tview_SomeE [OF assms])
  let ?f = "\<lambda>th. th\<lparr>th_levels := ls\<rparr>"
  show thesis
    using that [of "st\<lparr>threads := (threads st)(currentThread st \<mapsto> ?f th), level := l\<rparr>"] th own_update [of st th ?f l]
    by (simp add: restore_def tview_def fun_eq_iff)
qed

lemma set_cont_view:
  assumes "tview st (currentThread st) = Some (k, ls, f)"
  obtains st' where "set_cont k' st = Inr st'" "same_schedule st st'" "level st' = level st"
    "tview st' = (tview st)(currentThread st \<mapsto> (k', ls, f))"
proof -
  obtain th where th: "threads st (currentThread st) = Some th" "th_cont th = k" "th_levels th = ls" "th_fresh th = f"
    by (rule tview_SomeE [OF assms])
  let ?f = "\<lambda>th. th\<lparr>th_cont := k'\<rparr>"
  have "st\<lparr>threads := (threads st)(currentThread st \<mapsto> ?f th), level := level st\<rparr> = st\<lparr>threads := (threads st)(currentThread st \<mapsto> ?f th)\<rparr>" by simp
  then show thesis
    using that [of "st\<lparr>threads := (threads st)(currentThread st \<mapsto> ?f th)\<rparr>"] th own_update [of st th ?f "level st"]
    by (simp add: set_cont_def tview_def fun_eq_iff)
qed

lemma Thread_Yield_view:
  assumes "sys_ok st" "tview st (currentThread st) = Some (k0, ls, f)"
  shows "\<exists>st'. Thread_Yield k st = Inr st' \<and> sys_ok st' \<and> currentThread st' # ready st' = rotate1 (currentThread st # ready st)
    \<and> tview st' = (case ready st of [] \<Rightarrow> (tview st)(currentThread st \<mapsto> (k, level st # ls, f))
        | n # _ \<Rightarrow> (tview st)(currentThread st \<mapsto> (k, level st # ls, f), n \<mapsto> (\<lambda>(kn, lsn, fn). (kn, lsn, False)) (the (tview st n))))
    \<and> level st' = (case ready st of [] \<Rightarrow> IntOff | n # _ \<Rightarrow> (\<lambda>(kn, lsn, fn). if fn then IntOn else IntOff) (the (tview st n)))
    \<and> (\<forall>u. sleeping st u \<longrightarrow> sleeping st' u)"
proof -
  let ?c = "currentThread st"
  have ok: "sched_ok st" "threadToBeDestroyed st = None" using assms(1) by (simp_all add: sys_ok_def)
  obtain st' where y: "Thread_Yield k st = Inr st'" "sched_ok st'" "spaces st' = spaces st" "currentThread st' # ready st' = rotate1 (?c # ready st)"
    using Thread_Yield_ok [OF ok(1), of k] by blast
  obtain th where th: "threads st ?c = Some th" "th_cont th = k0" "th_levels th = ls" "th_fresh th = f" by (rule tview_SomeE [OF assms(2)])
  have stk: "th_stack th \<in> {None, Some STACK_FENCEPOST}" using ok(1) th(1) by (auto simp: sched_ok_def runnable_ok_def)
  have slp: "sleeping st' u" if "sleeping st u" "threads st' u = threads st u" for u
    using that y(3) runnable_ok_cong [of st' u st] by (simp add: sleeping_def)
  show ?thesis
  proof (cases "ready st")
    case Nil
    then show ?thesis
      using y Thread_Yield_alone [OF ok(1) Nil th(1), of k] ok(2) th slp sleeping_idle [OF assms(1)]
      by (auto simp: sys_ok_def tview_def yielding_def fun_eq_iff)
  next
    case (Cons n ts)
    obtain nt where nt: "threads st n = Some nt" "th_stack nt \<in> {None, Some STACK_FENCEPOST}" "\<forall>a. th_space nt = Some a \<longrightarrow> spaces st a \<noteq> None"
      using ok(1) Cons runnable_okE [of st n READY] unfolding sched_ok_def by (metis list.set_intros(1))
    have ne: "n \<noteq> ?c" using ok(1) Cons by (auto simp: sched_ok_def)
    obtain l s1 where r: "Thread_Yield k st = Scheduler_Run n s1"
      "s1 = st\<lparr>threads := (threads st)(?c \<mapsto> (yielding k st th)\<lparr>th_status := READY\<rparr>), level := IntOff, readyList := l\<rparr>"
      by (rule Thread_Yield_switch [OF ok(1) Cons th(1) nt(1)])
    define c' where "c' = (yielding k st th)\<lparr>th_status := READY\<rparr>"
    have "Scheduler_Run n s1 = Inr (s1\<lparr>currentThread := n, threads := switch_threads s1 c' n nt, kmem := switch_kmem s1 nt,
       threadToBeDestroyed := (if th_fresh nt then threadToBeDestroyed s1 else None),
       level := (if th_fresh nt then IntOn else level s1)\<rparr>)"
      using th(1) stk nt ne ok(2) by (intro Scheduler_Run_spec) (auto simp: r(2) c'_def yielding_def)
    then have st': "st' = s1\<lparr>currentThread := n, threads := switch_threads s1 c' n nt, kmem := switch_kmem s1 nt,
       threadToBeDestroyed := (if th_fresh nt then threadToBeDestroyed s1 else None),
       level := (if th_fresh nt then IntOn else level s1)\<rparr>" using y(1) r(1) by simp
    have T: "threads st' = (threads st)(?c \<mapsto> saved s1 c', n \<mapsto> nt\<lparr>th_status := RUNNING, th_fresh := False\<rparr>)"
      using ok(2) by (simp add: st' switch_threads_def r(2) Let_def)
    have sv: "th_cont (saved s1 c') = k" "th_levels (saved s1 c') = level st # ls" "th_fresh (saved s1 c') = f"
      using th by (simp_all add: saved_def c'_def yielding_def)
    have tv: "tview st' = (tview st)(?c \<mapsto> (k, level st # ls, f), n \<mapsto> (\<lambda>(kn, lsn, fn). (kn, lsn, False)) (the (tview st n)))"
      using nt(1) sv ne by (auto simp: tview_def T fun_eq_iff)
    have "sleeping st' u" if "sleeping st u" for u
      using slp [OF that] sleeping_idle [OF assms(1) that] Cons by (auto simp: T)
    then show ?thesis
      using y(1,2,4) tv Cons ok(2) nt(1) by (auto simp: sys_ok_def st' r(2) tview_def)
  qed
qed

end
