(* ===== verification/Synch.thy ===== *)
theory Synch
  imports ThreadInterface
begin

text \<open>
  The synchronization primitives of threads/synch.h and threads/synch.cc: semaphores, locks and
  condition variables, each a record with a queue of sleeping threads, and their operations on
  the state of the thread system. The second half runs a pool of threads through one primitive
  by the step relations \<^verbatim>\<open>sem_step\<close> and \<^verbatim>\<open>lock_step\<close> and proves what the primitives promise
  for every interleaving.
\<close>

section \<open>Semaphores\<close>

text \<open>
  An operation that may sleep takes the continuation \<open>wait\<close> of the thread while it sleeps and
  \<open>k\<close>, the continuation of its caller, which the thread has when the operation returns. A
  thread that runs with continuation \<open>wait\<close> continues with the loop. The counter is an
  unbounded integer: it would take \<open>2 ^ 31\<close> calls of V to leave the range of \<^verbatim>\<open>int\<close>.
\<close>

record Semaphore =
  sem_name :: string
  sem_value :: int
  sem_queue :: "nat nlist"

definition Semaphore_new :: "string \<Rightarrow> int \<Rightarrow> Semaphore" where
  "Semaphore_new debugName initialValue = \<lparr>sem_name = debugName, sem_value = initialValue, sem_queue = List_new\<rparr>"

definition Semaphore_destroy :: "Semaphore \<Rightarrow> unit res" where
  "Semaphore_destroy s = bindE (List_destroy (sem_queue s)) (\<lambda>_. Inr ())"

definition Semaphore_P_loop :: "nat \<Rightarrow> (('c, 'z) Nachos_scheme \<Rightarrow> (('c, 'z) Nachos_scheme) res) \<Rightarrow> 'c \<Rightarrow> 'c \<Rightarrow> Semaphore \<Rightarrow> ('c, 'z) Nachos_scheme \<Rightarrow> (Semaphore \<times> ('c, 'z) Nachos_scheme) res" where
  "Semaphore_P_loop fuel idle wait k s st =
     (if sem_value s = 0 then
        bindE (List_Append (currentThread st) (sem_queue s)) (\<lambda>q.
        bindE (Thread_Sleep fuel idle wait st) (\<lambda>st. Inr (s\<lparr>sem_queue := q\<rparr>, st)))
      else
        bindE (restore st) (\<lambda>st. bindE (set_cont k st) (\<lambda>st. Inr (s\<lparr>sem_value := sem_value s - 1\<rparr>, st))))"

definition Semaphore_P :: "nat \<Rightarrow> (('c, 'z) Nachos_scheme \<Rightarrow> (('c, 'z) Nachos_scheme) res) \<Rightarrow> 'c \<Rightarrow> 'c \<Rightarrow> Semaphore \<Rightarrow> ('c, 'z) Nachos_scheme \<Rightarrow> (Semaphore \<times> ('c, 'z) Nachos_scheme) res" where
  "Semaphore_P fuel idle wait k s st = bindE (disable st) (Semaphore_P_loop fuel idle wait k s)"

text \<open>The step that \<^verbatim>\<open>V\<close>, \<^verbatim>\<open>Release\<close> and \<^verbatim>\<open>Signal\<close> share: make the
  removed thread ready unless the queue was empty.\<close>

definition wake_removed :: "nat option \<Rightarrow> ('c, 'z) Nachos_scheme \<Rightarrow> (('c, 'z) Nachos_scheme) res" where
  "wake_removed thread st = (case thread of None \<Rightarrow> Inr st | Some t \<Rightarrow> ReadyToRun t st)"

definition Semaphore_V :: "Semaphore \<Rightarrow> ('c, 'z) Nachos_scheme \<Rightarrow> (Semaphore \<times> ('c, 'z) Nachos_scheme) res" where
  "Semaphore_V s st =
     bindE (disable st) (\<lambda>st.
     bindE (List_Remove (sem_queue s)) (\<lambda>(thread, q).
     bindE (wake_removed thread st) (\<lambda>st.
     bindE (restore st) (\<lambda>st. Inr (s\<lparr>sem_queue := q, sem_value := sem_value s + 1\<rparr>, st)))))"

section \<open>Locks and condition variables\<close>

text \<open>These are the implementations built with \<^verbatim>\<open>THREADS\<close> and \<^verbatim>\<open>CHANGED\<close>. The
  constructor leaves the holder uninitialised.\<close>

record Lock =
  lock_name :: string
  lock_free :: bool
  lock_queue :: "nat nlist"
  lock_holder :: "nat option"

definition Lock_new :: "nat option \<Rightarrow> string \<Rightarrow> Lock" where
  "Lock_new junk debugName = \<lparr>lock_name = debugName, lock_free = True, lock_queue = List_new, lock_holder = junk\<rparr>"

definition Lock_destroy :: "Lock \<Rightarrow> unit res" where
  "Lock_destroy l = bindE (List_destroy (lock_queue l)) (\<lambda>_. Inr ())"

definition Lock_Acquire_loop :: "nat \<Rightarrow> (('c, 'z) Nachos_scheme \<Rightarrow> (('c, 'z) Nachos_scheme) res) \<Rightarrow> 'c \<Rightarrow> 'c \<Rightarrow> Lock \<Rightarrow> ('c, 'z) Nachos_scheme \<Rightarrow> (Lock \<times> ('c, 'z) Nachos_scheme) res" where
  "Lock_Acquire_loop fuel idle wait k l st =
     (if \<not> lock_free l then
        bindE (List_Append (currentThread st) (lock_queue l)) (\<lambda>q.
        bindE (Thread_Sleep fuel idle wait st) (\<lambda>st. Inr (l\<lparr>lock_queue := q\<rparr>, st)))
      else
        bindE (restore st) (\<lambda>st'. bindE (set_cont k st') (\<lambda>st'.
        Inr (l\<lparr>lock_free := False, lock_holder := Some (currentThread st)\<rparr>, st'))))"

definition Lock_Acquire :: "nat \<Rightarrow> (('c, 'z) Nachos_scheme \<Rightarrow> (('c, 'z) Nachos_scheme) res) \<Rightarrow> 'c \<Rightarrow> 'c \<Rightarrow> Lock \<Rightarrow> ('c, 'z) Nachos_scheme \<Rightarrow> (Lock \<times> ('c, 'z) Nachos_scheme) res" where
  "Lock_Acquire fuel idle wait k l st = bindE (disable st) (Lock_Acquire_loop fuel idle wait k l)"

definition Lock_Release :: "Lock \<Rightarrow> ('c, 'z) Nachos_scheme \<Rightarrow> (Lock \<times> ('c, 'z) Nachos_scheme) res" where
  "Lock_Release l st =
     bindE (disable st) (\<lambda>st.
     bindE (List_Remove (lock_queue l)) (\<lambda>(thread, q).
     bindE (if lock_holder l = Some (currentThread st)
            then bindE (wake_removed thread st) (\<lambda>st. Inr (l\<lparr>lock_queue := q, lock_free := True\<rparr>, st))
            else Inr (l\<lparr>lock_queue := q\<rparr>, st)) (\<lambda>(l, st).
     bindE (restore st) (\<lambda>st. Inr (l, st)))))"

record Condition =
  cond_name :: string
  cond_queue :: "nat nlist"

definition Condition_new :: "string \<Rightarrow> Condition" where
  "Condition_new debugName = \<lparr>cond_name = debugName, cond_queue = List_new\<rparr>"

definition Condition_destroy :: "Condition \<Rightarrow> unit res" where
  "Condition_destroy c = bindE (List_destroy (cond_queue c)) (\<lambda>_. Inr ())"

text \<open>
  \<^verbatim>\<open>Wait\<close> up to the sleep; a woken thread, with continuation \<open>woken\<close>, continues in
  \<open>Condition_Wait_acquire\<close>, whose \<^verbatim>\<open>Acquire\<close> may sleep with continuation \<open>wait\<close>, and
  after that restores the interrupt level in \<open>Condition_Wait_return\<close>.
\<close>

definition Condition_Wait :: "nat \<Rightarrow> (('c, 'z) Nachos_scheme \<Rightarrow> (('c, 'z) Nachos_scheme) res) \<Rightarrow> 'c \<Rightarrow> Condition \<Rightarrow> Lock \<Rightarrow> ('c, 'z) Nachos_scheme \<Rightarrow> (Condition \<times> Lock \<times> ('c, 'z) Nachos_scheme) res" where
  "Condition_Wait fuel idle woken c l st =
     bindE (disable st) (\<lambda>st.
     bindE (Lock_Release l st) (\<lambda>(l, st).
     bindE (List_Append (currentThread st) (cond_queue c)) (\<lambda>q.
     bindE (Thread_Sleep fuel idle woken st) (\<lambda>st. Inr (c\<lparr>cond_queue := q\<rparr>, l, st)))))"

definition Condition_Wait_acquire :: "nat \<Rightarrow> (('c, 'z) Nachos_scheme \<Rightarrow> (('c, 'z) Nachos_scheme) res) \<Rightarrow> 'c \<Rightarrow> 'c \<Rightarrow> Lock \<Rightarrow> ('c, 'z) Nachos_scheme \<Rightarrow> (Lock \<times> ('c, 'z) Nachos_scheme) res" where
  "Condition_Wait_acquire fuel idle wait ret l st = Lock_Acquire fuel idle wait ret l st"

definition Condition_Wait_return :: "'c \<Rightarrow> ('c, 'z) Nachos_scheme \<Rightarrow> (('c, 'z) Nachos_scheme) res" where
  "Condition_Wait_return k st = bindE (restore st) (set_cont k)"

definition Condition_Signal :: "Condition \<Rightarrow> ('c, 'z) Nachos_scheme \<Rightarrow> (Condition \<times> ('c, 'z) Nachos_scheme) res" where
  "Condition_Signal c st =
     bindE (disable st) (\<lambda>st.
     bindE (List_Remove (cond_queue c)) (\<lambda>(thread, q).
     bindE (wake_removed thread st) (\<lambda>st.
     bindE (restore st) (\<lambda>st. Inr (c\<lparr>cond_queue := q\<rparr>, st)))))"

text \<open>The loop of \<^verbatim>\<open>Broadcast\<close> runs once per waiting thread and once more.\<close>

fun Broadcast_loop :: "nat \<Rightarrow> nat nlist \<Rightarrow> ('c, 'z) Nachos_scheme \<Rightarrow> (nat nlist \<times> ('c, 'z) Nachos_scheme) res" where
  "Broadcast_loop 0 q st = Inl OutOfFuel"
| "Broadcast_loop (Suc n) q st =
     bindE (List_Remove q) (\<lambda>(thread, q).
     bindE (wake_removed thread st) (\<lambda>st.
     if thread \<noteq> None then Broadcast_loop n q st else Inr (q, st)))"

definition Condition_Broadcast :: "Condition \<Rightarrow> ('c, 'z) Nachos_scheme \<Rightarrow> (Condition \<times> ('c, 'z) Nachos_scheme) res" where
  "Condition_Broadcast c st =
     bindE (disable st) (\<lambda>st.
     bindE (Broadcast_loop (Suc (length (l_cells (cond_queue c)))) (cond_queue c) st) (\<lambda>(q, st).
     bindE (restore st) (\<lambda>st. Inr (c\<lparr>cond_queue := q\<rparr>, st))))"

section \<open>A queue of sleeping threads\<close>

text \<open>What a queue of a primitive promises: its threads are distinct, asleep, and continue with
  \<open>wait\<close>, each with a saved interrupt level.\<close>

definition waiters_ok :: "'c \<Rightarrow> nat nlist \<Rightarrow> ('c, 'z) Nachos_scheme \<Rightarrow> bool" where
  "waiters_ok wait q st \<longleftrightarrow> List_inv q \<and> distinct (List_items q)
     \<and> (\<forall>t \<in> set (List_items q). sleeping st t \<and> (\<exists>ls. tview st t = Some (wait, ls, False) \<and> ls \<noteq> []))"

text \<open>The running thread blocks on the queue.\<close>

lemma sleep_on_queue:
  assumes ok: "sys_ok st" "level st = IntOff" "waiters_ok wait q st" and r: "ready st = n # ts"
    and c: "tview st (currentThread st) = Some (k0, ls, False)" "ls \<noteq> []" and n: "tview st n = Some (kn, lsn, fn)"
  obtains q' st' where "List_Append (currentThread st) q = Inr q'" "List_items q' = List_items q @ [currentThread st]"
    "Thread_Sleep (Suc fuel) idle wait st = Inr st'" "sys_ok st'" "currentThread st' = n" "ready st' = ts"
    "tview st' = (tview st)(currentThread st \<mapsto> (wait, ls, False), n \<mapsto> (kn, lsn, False))" "level st' = (if fn then IntOn else IntOff)"
    "waiters_ok wait q' st'" "\<forall>u. sleeping st u \<longrightarrow> sleeping st' u"
proof -
  let ?c = "currentThread st"
  have qi: "List_inv q" "distinct (List_items q)" using ok(3) by (simp_all add: waiters_ok_def)
  obtain q' where q': "List_Append ?c q = Inr q'" "List_inv q'" "List_items q' = List_items q @ [?c]"
    using list_fifo.enq_ok [OF qi(1)] by blast
  obtain st' where s: "Thread_Sleep (Suc fuel) idle wait st = Inr st'" "sys_ok st'" "currentThread st' = n" "ready st' = ts"
      "tview st' = (tview st)(?c \<mapsto> (wait, ls, False), n \<mapsto> (kn, lsn, False))" "level st' = (if fn then IntOn else IntOff)"
      "sleeping st' ?c" "\<forall>u. sleeping st u \<longrightarrow> sleeping st' u"
    using nachos_threads.block_ok [OF ok(1,2) r c(1) n, where k = wait] by blast
  have w: "u \<noteq> ?c" "u \<noteq> n" "sleeping st' u" "\<exists>ls. tview st u = Some (wait, ls, False) \<and> ls \<noteq> []" if "u \<in> set (List_items q)" for u
    using that ok(3) sleeping_idle [OF ok(1)] r s(8) by (auto simp: waiters_ok_def)
  have "n \<noteq> ?c" using nachos_threads.inv_distinct [OF ok(1)] r by auto
  then have "waiters_ok wait q' st'"
    using q'(2,3) qi(2) w s(5,7) c(2) unfolding waiters_ok_def by fastforce
  then show thesis using that q' s by blast
qed

text \<open>The first thread of the queue, if any, becomes ready.\<close>

lemma wake_from_queue:
  assumes ok: "sys_ok st" "waiters_ok wait q st"
  obtains r q' st' where "List_Remove q = Inr (r, q')" "List_items q' = tl (List_items q)" "wake_removed r st = Inr st'" "sys_ok st'"
    "currentThread st' = currentThread st" "ready st' = ready st @ take 1 (List_items q)" "tview st' = tview st" "level st' = level st"
    "waiters_ok wait q' st'" "\<forall>u. u \<notin> set (List_items q) \<longrightarrow> sleeping st' u = sleeping st u" "r = (case List_items q of [] \<Rightarrow> None | t # _ \<Rightarrow> Some t)"
proof (cases "List_items q")
  case Nil
  have "List_Remove q = Inr (None, q)" using list_fifo.deq_empty [OF _ Nil] ok(2) by (simp add: waiters_ok_def)
  then show thesis using that [of None q st] Nil ok by (simp add: wake_removed_def)
next
  case (Cons t ts)
  have q: "List_inv q" "sleeping st t" "t \<notin> set ts" using ok(2) Cons by (auto simp: waiters_ok_def)
  obtain q' where q': "List_Remove q = Inr (Some t, q')" "List_inv q'" "List_items q' = ts"
    using list_fifo.deq_ok [OF q(1) Cons] by blast
  obtain st' where s: "ReadyToRun t st = Inr st'" "sys_ok st'" "currentThread st' = currentThread st" "ready st' = ready st @ [t]"
      "tview st' = tview st" "level st' = level st" "\<forall>u. u \<noteq> t \<longrightarrow> sleeping st' u = sleeping st u"
    using nachos_threads.wake_ok [OF ok(1) q(2)] by blast
  have w: "\<forall>u \<in> set ts. u \<noteq> t \<and> sleeping st u \<and> (\<exists>ls. tview st u = Some (wait, ls, False) \<and> ls \<noteq> [])" "distinct ts"
    using ok(2) Cons q(3) by (auto simp: waiters_ok_def)
  then have "waiters_ok wait q' st'" using q'(2,3) s(5,7) by (simp add: waiters_ok_def)
  moreover have "\<forall>u. u \<notin> set (List_items q) \<longrightarrow> sleeping st' u = sleeping st u" using s(7) Cons by auto
  moreover have "wake_removed (Some t) st = Inr st'" using s(1) by (simp add: wake_removed_def)
  moreover have "ready st' = ready st @ take 1 (List_items q)" "List_items q' = tl (List_items q)"
      "Some t = (case List_items q of [] \<Rightarrow> None | t # _ \<Rightarrow> Some t)"
    using s(4) q'(3) Cons by simp_all
  ultimately show thesis using that q'(1) s(2,3,5,6) by blast
qed

section \<open>Threads that share a primitive\<close>

text \<open>
  A system of threads that use one semaphore or lock and otherwise yield, voluntarily or because
  the timer preempts them: the places where such a thread can be. \<open>Inside\<close> is the
  critical section of a lock; \<open>Yielded b\<close> remembers whether the thread was inside.
\<close>

datatype place = Outside | Inside | Waiting | Yielded bool

definition in_op :: "place \<Rightarrow> bool" where
  "in_op k = (case k of Waiting \<Rightarrow> True | Yielded _ \<Rightarrow> True | _ \<Rightarrow> False)"

text \<open>The place where a thread yields, inside or outside its critical section.\<close>

definition place_of :: "bool \<Rightarrow> place" where
  "place_of b = (if b then Inside else Outside)"

lemma place_of_not_in_op [simp]: "\<not> in_op (place_of b)"
  by (simp add: place_of_def in_op_def)

definition at :: "place Nachos \<Rightarrow> nat \<Rightarrow> place \<Rightarrow> bool" where
  "at st t k \<longleftrightarrow> (\<exists>ls f. tview st t = Some (k, ls, f))"

definition runnable :: "place Nachos \<Rightarrow> nat list" where
  "runnable st = currentThread st # ready st"

text \<open>Every runnable thread that is in the middle of an operation has a saved interrupt level,
  the running one has interrupts disabled then, and the queue is as it should be.\<close>

definition pool_ok :: "nat nlist \<Rightarrow> place Nachos \<Rightarrow> bool" where
  "pool_ok q st \<longleftrightarrow> sys_ok st \<and> waiters_ok Waiting q st
     \<and> (\<forall>t \<in> set (runnable st). \<exists>k ls f. tview st t = Some (k, ls, f) \<and> (in_op k \<longrightarrow> ls \<noteq> [] \<and> \<not> f))
     \<and> (\<forall>k ls f. tview st (currentThread st) = Some (k, ls, f) \<longrightarrow> \<not> f \<and> (in_op k \<longrightarrow> level st = IntOff))"

lemma pool_okE:
  assumes "pool_ok q st"
  obtains k ls where "sys_ok st" "waiters_ok Waiting q st" "tview st (currentThread st) = Some (k, ls, False)" "in_op k \<longrightarrow> ls \<noteq> [] \<and> level st = IntOff"
  using assms by (fastforce simp: pool_ok_def runnable_def)

text \<open>The running thread in the middle of an operation, with interrupts disabled.\<close>

definition in_kernel :: "nat nlist \<Rightarrow> place Nachos \<Rightarrow> place \<Rightarrow> IntStatus list \<Rightarrow> bool" where
  "in_kernel q st k ls \<longleftrightarrow> sys_ok st \<and> waiters_ok Waiting q st \<and> level st = IntOff \<and> ls \<noteq> [] \<and> tview st (currentThread st) = Some (k, ls, False)
     \<and> (\<forall>t \<in> set (ready st). \<exists>k ls f. tview st t = Some (k, ls, f) \<and> (in_op k \<longrightarrow> ls \<noteq> [] \<and> \<not> f))"

lemma waiters_same_schedule:
  assumes "same_schedule st st'" "sys_ok st" "waiters_ok w q st" "\<forall>t. t \<noteq> currentThread st \<longrightarrow> tview st' t = tview st t"
  shows "waiters_ok w q st'"
  using assms sleeping_idle [OF assms(2)] by (auto simp: waiters_ok_def same_schedule_def)

lemma enter_kernel:
  assumes "pool_ok q st"
  obtains st' k ls where "disable st = Inr st'" "in_kernel q st' k ls" "same_schedule st st'" "tview st (currentThread st) = Some (k, tl ls, False)"
    "\<forall>t. t \<noteq> currentThread st \<longrightarrow> tview st' t = tview st t"
proof -
  obtain k ls where p: "sys_ok st" "waiters_ok Waiting q st" "tview st (currentThread st) = Some (k, ls, False)"
    by (rule pool_okE [OF assms])
  obtain st' where d: "disable st = Inr st'" "same_schedule st st'" "level st' = IntOff" "tview st' = (tview st)(currentThread st \<mapsto> (k, level st # ls, False))"
    by (rule disable_view [OF p(3)])
  have "in_kernel q st' k (level st # ls)"
    using d(2-4) p assms waiters_same_schedule [OF d(2) p(1,2)] nachos_threads.inv_distinct [OF p(1)]
    by (auto simp: in_kernel_def same_schedule_def pool_ok_def runnable_def)
  then show thesis using that d p(3) by simp
qed

lemma resume_kernel:
  assumes "pool_ok q st" "at st (currentThread st) k" "in_op k"
  obtains ls where "in_kernel q st k ls"
proof -
  obtain k2 ls where p: "sys_ok st" "waiters_ok Waiting q st" "tview st (currentThread st) = Some (k2, ls, False)" "in_op k2 \<longrightarrow> ls \<noteq> [] \<and> level st = IntOff"
    by (rule pool_okE [OF assms(1)])
  have "k2 = k" using p(3) assms(2) by (simp add: at_def)
  then have "in_kernel q st k ls" using p assms(1,3) by (auto simp: in_kernel_def pool_ok_def runnable_def)
  then show thesis by (rule that)
qed

text \<open>Leaving the kernel to a place outside every operation.\<close>

lemma outside_pool:
  assumes "in_kernel q st k ls" "same_schedule st st2" "tview st2 = (tview st)(currentThread st \<mapsto> (k', ls', False))" "\<not> in_op k'"
  shows "pool_ok q st2"
proof -
  have i: "sys_ok st" "waiters_ok Waiting q st" using assms(1) by (simp_all add: in_kernel_def)
  have "waiters_ok Waiting q st2" by (rule waiters_same_schedule [OF assms(2) i]) (simp add: assms(3))
  moreover have "\<forall>t \<in> set (ready st2). \<exists>k ls f. tview st2 t = Some (k, ls, f) \<and> (in_op k \<longrightarrow> ls \<noteq> [] \<and> \<not> f)"
    using assms by (auto simp: in_kernel_def same_schedule_def)
  ultimately show ?thesis using assms i(1) by (auto simp: pool_ok_def same_schedule_def runnable_def)
qed

lemma restore_kernel:
  assumes "in_kernel q st k ls"
  obtains st1 where "restore st = Inr st1" "same_schedule st st1" "tview st1 = (tview st)(currentThread st \<mapsto> (k, tl ls, False))"
    "\<not> in_op k \<longrightarrow> pool_ok q st1"
proof -
  have i: "tview st (currentThread st) = Some (k, ls, False)" "ls \<noteq> []" using assms by (simp_all add: in_kernel_def)
  then obtain l ls' where ls: "ls = l # ls'" by (cases ls) auto
  obtain st1 where r: "restore st = Inr st1" "same_schedule st st1" "tview st1 = (tview st)(currentThread st \<mapsto> (k, ls', False))"
    using restore_view [of st k l ls' False] i(1) ls by metis
  then show thesis using that outside_pool [OF assms r(2,3)] ls by auto
qed

lemma leave_kernel:
  assumes "in_kernel q st k ls" "\<not> in_op k'"
  obtains st1 st2 where "restore st = Inr st1" "set_cont k' st1 = Inr st2" "pool_ok q st2" "same_schedule st st2"
    "at st2 (currentThread st) k'" "\<forall>t. t \<noteq> currentThread st \<longrightarrow> tview st2 t = tview st t"
proof -
  obtain st1 where r: "restore st = Inr st1" "same_schedule st st1" "tview st1 = (tview st)(currentThread st \<mapsto> (k, tl ls, False))"
    by (rule restore_kernel [OF assms(1)])
  have c1: "currentThread st1 = currentThread st" using r(2) by (simp add: same_schedule_def)
  obtain st2 where s: "set_cont k' st1 = Inr st2" "same_schedule st1 st2" "tview st2 = (tview st1)(currentThread st \<mapsto> (k', tl ls, False))"
    using set_cont_view [of st1 k "tl ls" False k'] r(3) c1 by auto
  have ss: "same_schedule st st2" by (rule same_schedule_trans [OF r(2) s(2)])
  have tv: "tview st2 = (tview st)(currentThread st \<mapsto> (k', tl ls, False))" using r(3) s(3) by simp
  have "pool_ok q st2" by (rule outside_pool [OF assms(1) ss tv assms(2)])
  moreover have "at st2 (currentThread st) k'" "\<forall>t. t \<noteq> currentThread st \<longrightarrow> tview st2 t = tview st t" using tv by (auto simp: at_def)
  ultimately show thesis using that r(1) s(1) ss by blast
qed

text \<open>The running thread blocks; the first ready thread runs.\<close>

lemma block_pool:
  assumes "in_kernel q st k ls" "ready st = n # ts"
  obtains q' st' where "List_Append (currentThread st) q = Inr q'" "List_items q' = List_items q @ [currentThread st]"
    "Thread_Sleep (Suc fuel) idle Waiting st = Inr st'" "pool_ok q' st'" "runnable st' = n # ts" "at st' (currentThread st) Waiting"
    "\<forall>t k'. t \<noteq> currentThread st \<longrightarrow> at st' t k' = at st t k'"
proof -
  have i: "sys_ok st" "level st = IntOff" "waiters_ok Waiting q st" "tview st (currentThread st) = Some (k, ls, False)" "ls \<noteq> []"
    using assms(1) by (simp_all add: in_kernel_def)
  obtain kn lsn fn where n: "tview st n = Some (kn, lsn, fn)" "in_op kn \<longrightarrow> lsn \<noteq> [] \<and> \<not> fn"
    using assms by (auto simp: in_kernel_def)
  obtain q' st' where s: "List_Append (currentThread st) q = Inr q'" "List_items q' = List_items q @ [currentThread st]"
    "Thread_Sleep (Suc fuel) idle Waiting st = Inr st'" "sys_ok st'" "currentThread st' = n" "ready st' = ts"
    "tview st' = (tview st)(currentThread st \<mapsto> (Waiting, ls, False), n \<mapsto> (kn, lsn, False))" "level st' = (if fn then IntOn else IntOff)"
    "waiters_ok Waiting q' st'"
    by (rule sleep_on_queue [OF i(1,2,3) assms(2) i(4,5) n(1)])
  have d: "distinct (currentThread st # n # ts)" using nachos_threads.inv_distinct [OF i(1)] assms(2) by simp
  have "\<forall>t \<in> set ts. \<exists>k ls f. tview st' t = Some (k, ls, f) \<and> (in_op k \<longrightarrow> ls \<noteq> [] \<and> \<not> f)"
    using assms d s(7) by (auto simp: in_kernel_def)
  then have "pool_ok q' st'"
    using s(4,5,6,7,8,9) n(2) by (auto simp: pool_ok_def runnable_def)
  moreover have "at st' (currentThread st) Waiting" "\<forall>t k'. t \<noteq> currentThread st \<longrightarrow> at st' t k' = at st t k'"
    using s(7) d n(1) by (auto simp: at_def)
  ultimately show thesis using that s(1-3,5,6) by (simp add: runnable_def)
qed

text \<open>The running thread wakes the first thread of the queue.\<close>

lemma wake_pool:
  assumes "in_kernel q st k ls"
  obtains r q' st' where "List_Remove q = Inr (r, q')" "List_items q' = tl (List_items q)" "wake_removed r st = Inr st'"
    "in_kernel q' st' k ls" "currentThread st' = currentThread st" "ready st' = ready st @ take 1 (List_items q)" "tview st' = tview st"
proof -
  have i: "sys_ok st" "waiters_ok Waiting q st" using assms(1) by (simp_all add: in_kernel_def)
  obtain r q' st' where w: "List_Remove q = Inr (r, q')" "List_items q' = tl (List_items q)" "wake_removed r st = Inr st'" "sys_ok st'"
    "currentThread st' = currentThread st" "ready st' = ready st @ take 1 (List_items q)" "tview st' = tview st" "level st' = level st"
    "waiters_ok Waiting q' st'"
    by (rule wake_from_queue [OF i])
  have "\<forall>t \<in> set (take 1 (List_items q)). \<exists>k ls f. tview st t = Some (k, ls, f) \<and> (in_op k \<longrightarrow> ls \<noteq> [] \<and> \<not> f)"
    using i(2) by (cases "List_items q") (auto simp: waiters_ok_def)
  then have "in_kernel q' st' k ls"
    using assms w(4-9) by (auto simp: in_kernel_def)
  then show thesis using that w by blast
qed

lemma yield_pool:
  assumes "pool_ok q st" "at st (currentThread st) (place_of b)"
  obtains st' where "Thread_Yield (Yielded b) st = Inr st'" "pool_ok q st'" "runnable st' = rotate1 (runnable st)"
    "at st' (currentThread st) (Yielded b)" "\<forall>t k'. t \<noteq> currentThread st \<longrightarrow> at st' t k' = at st t k'"
proof -
  let ?c = "currentThread st"
  obtain k ls where p: "sys_ok st" "waiters_ok Waiting q st" "tview st ?c = Some (k, ls, False)"
    by (rule pool_okE [OF assms(1)])
  have d: "distinct (runnable st)" using nachos_threads.inv_distinct [OF p(1)] by (simp add: runnable_def)
  have all: "\<exists>k ls f. tview st t = Some (k, ls, f) \<and> (in_op k \<longrightarrow> ls \<noteq> [] \<and> \<not> f)" if "t \<in> set (runnable st)" for t
    using that assms(1) by (simp add: pool_ok_def)
  obtain st' where y: "Thread_Yield (Yielded b) st = Inr st'" "sys_ok st'" "runnable st' = rotate1 (runnable st)"
    "tview st' = (case ready st of [] \<Rightarrow> (tview st)(?c \<mapsto> (Yielded b, level st # ls, False))
        | n # _ \<Rightarrow> (tview st)(?c \<mapsto> (Yielded b, level st # ls, False), n \<mapsto> (\<lambda>(kn, lsn, fn). (kn, lsn, False)) (the (tview st n))))"
    "level st' = (case ready st of [] \<Rightarrow> IntOff | n # _ \<Rightarrow> (\<lambda>(kn, lsn, fn). if fn then IntOn else IntOff) (the (tview st n)))"
    "\<forall>u. sleeping st u \<longrightarrow> sleeping st' u"
    using Thread_Yield_view [OF p(1,3), of "Yielded b"] by (auto simp: runnable_def)
  have other: "tview st' t = tview st t" if "t \<notin> set (runnable st)" for t
    using that y(4) by (cases "ready st") (auto simp: runnable_def)
  have w: "waiters_ok Waiting q st'"
    unfolding waiters_ok_def
  proof (intro conjI ballI)
    show "List_inv q" "distinct (List_items q)" using p(2) by (simp_all add: waiters_ok_def)
    fix t assume "t \<in> set (List_items q)"
    then have "sleeping st t" "\<exists>ls. tview st t = Some (Waiting, ls, False) \<and> ls \<noteq> []" using p(2) by (auto simp: waiters_ok_def)
    then show "sleeping st' t" "\<exists>ls. tview st' t = Some (Waiting, ls, False) \<and> ls \<noteq> []"
      using y(6) other [of t] sleeping_idle [OF p(1), of t] by (auto simp: runnable_def)
  qed
  have cur: "\<exists>k ls. tview st' (currentThread st') = Some (k, ls, False) \<and> (in_op k \<longrightarrow> level st' = IntOff)"
  proof (cases "ready st")
    case Nil
    then show ?thesis using y(3,4,5) by (simp add: runnable_def)
  next
    case (Cons n ts)
    obtain kn lsn fn where n: "tview st n = Some (kn, lsn, fn)" "in_op kn \<longrightarrow> \<not> fn" using all [of n] Cons by (auto simp: runnable_def)
    have "currentThread st' = n" using y(3) Cons by (simp add: runnable_def)
    then show ?thesis using y(4,5) Cons n by simp
  qed
  have tv: "tview st' t = (if t = ?c then Some (Yielded b, level st # ls, False)
      else if t \<in> set (take 1 (ready st)) then map_option (\<lambda>(k, ls, f). (k, ls, False)) (tview st t) else tview st t)" for t
  proof (cases "ready st")
    case (Cons n ts)
    then obtain kn lsn fn where "tview st n = Some (kn, lsn, fn)" using all [of n] by (auto simp: runnable_def)
    then show ?thesis using y(4) Cons d by (simp add: runnable_def)
  qed (use y(4) in simp)
  have "\<exists>k ls f. tview st' t = Some (k, ls, f) \<and> (in_op k \<longrightarrow> ls \<noteq> [] \<and> \<not> f)" if t: "t \<in> set (runnable st')" for t
  proof -
    obtain k2 ls2 f2 where "tview st t = Some (k2, ls2, f2)" "in_op k2 \<longrightarrow> ls2 \<noteq> [] \<and> \<not> f2" using all [of t] t y(3) by auto
    then show ?thesis unfolding tv by auto
  qed
  then have "pool_ok q st'" using y(2) w cur by (auto simp: pool_ok_def)
  moreover have "at st' ?c (Yielded b)" by (simp add: at_def tv) blast
  moreover have "at st' t k' = at st t k'" if "t \<noteq> ?c" for t k'
    using that by (auto simp: at_def tv)
  ultimately show thesis using that y(1,3) by blast
qed

lemma yield_resume_pool:
  assumes "pool_ok q st" "at st (currentThread st) (Yielded b)"
  obtains st1 st2 where "restore st = Inr st1" "set_cont (place_of b) st1 = Inr st2" "pool_ok q st2" "runnable st2 = runnable st"
    "at st2 (currentThread st) (place_of b)" "\<forall>t k'. t \<noteq> currentThread st \<longrightarrow> at st2 t k' = at st t k'"
proof -
  obtain ls where k: "in_kernel q st (Yielded b) ls" by (rule resume_kernel [OF assms]) (simp add: in_op_def)
  obtain st1 st2 where "restore st = Inr st1" "set_cont (place_of b) st1 = Inr st2" "pool_ok q st2" "same_schedule st st2"
    "at st2 (currentThread st) (place_of b)" "\<forall>t. t \<noteq> currentThread st \<longrightarrow> tview st2 t = tview st t"
    by (rule leave_kernel [OF k place_of_not_in_op])
  then show thesis using that by (auto simp: same_schedule_def runnable_def at_def)
qed

section \<open>Semaphores count\<close>

text \<open>
  The transitions of a system of threads around one semaphore. The state has the semaphore, the
  kernel, and two ghost counters: how often P has returned and V was called. With no
  pending interrupt \<^verbatim>\<open>Interrupt::Idle\<close> halts the machine.
\<close>

definition halt :: "('c, 'z) Nachos_scheme \<Rightarrow> (('c, 'z) Nachos_scheme) res" where
  "halt st = Inl Halted"

inductive sem_step :: "Semaphore \<times> place Nachos \<times> nat \<times> nat \<Rightarrow> Semaphore \<times> place Nachos \<times> nat \<times> nat \<Rightarrow> bool" where
  P: "at st (currentThread st) Outside \<Longrightarrow> Semaphore_P 1 halt Waiting Outside s st = Inr (s', st') \<Longrightarrow>
    sem_step (s, st, p, v) (s', st', if at st' (currentThread st) Outside then Suc p else p, v)"
| P_resume: "at st (currentThread st) Waiting \<Longrightarrow> Semaphore_P_loop 1 halt Waiting Outside s st = Inr (s', st') \<Longrightarrow>
    sem_step (s, st, p, v) (s', st', if at st' (currentThread st) Outside then Suc p else p, v)"
| V: "at st (currentThread st) Outside \<Longrightarrow> Semaphore_V s st = Inr (s', st') \<Longrightarrow> sem_step (s, st, p, v) (s', st', p, Suc v)"
| yield: "at st (currentThread st) Outside \<Longrightarrow> Thread_Yield (Yielded False) st = Inr st' \<Longrightarrow> sem_step (s, st, p, v) (s, st', p, v)"
| yield_resume: "at st (currentThread st) (Yielded False) \<Longrightarrow> restore st = Inr st1 \<Longrightarrow> set_cont Outside st1 = Inr st' \<Longrightarrow>
    sem_step (s, st, p, v) (s, st', p, v)"

definition woken :: "place Nachos \<Rightarrow> nat" where
  "woken st = length (filter (\<lambda>t. at st t Waiting) (runnable st))"

definition sem_inv :: "int \<Rightarrow> Semaphore \<times> place Nachos \<times> nat \<times> nat \<Rightarrow> bool" where
  "sem_inv n = (\<lambda>(s, st, p, v). pool_ok (sem_queue s) st \<and> sem_value s \<ge> 0 \<and> sem_value s = n + int v - int p
     \<and> (List_items (sem_queue s) \<noteq> [] \<longrightarrow> sem_value s \<le> int (woken st)))"

lemma length_filter_rotate1: "length (filter P (rotate1 xs)) = length (filter P xs)"
  by (cases xs) auto

lemma at_unique: "at st t k \<Longrightarrow> at st t k' \<Longrightarrow> k' = k"
  by (auto simp: at_def)

text \<open>With nothing ready, sleeping halts the machine.\<close>

lemma sleep_halts:
  assumes "in_kernel q st k ls" "ready st = []"
  shows "Thread_Sleep (Suc 0) halt Waiting st = Inl Halted"
proof -
  have c: "tview st (currentThread st) = Some (k, ls, False)" "level st = IntOff" "List_inv (readyList st)"
    using assms(1) by (auto simp: in_kernel_def sys_ok_def sched_ok_def)
  obtain th where th: "threads st (currentThread st) = Some th" using c(1) by (auto simp: tview_def)
  have "FindNextToRun s' = Inr (None, s')" if "readyList s' = readyList st" for s' :: "place Nachos"
    using FindNextToRun_spec [of s'] that c(3) assms(2) by (simp add: ready_def)
  then show ?thesis using c(2) th by (simp add: Thread_Sleep_def setStatus_def set_cont_def halt_def)
qed

text \<open>One pass of the loop of P: the thread takes the semaphore, or sleeps, or, when no thread is
  ready, the machine halts.\<close>

lemma P_loop_spec:
  assumes k: "in_kernel (sem_queue s) st k ls" and v: "sem_value s \<ge> 0"
  obtains (takes) st' where "Semaphore_P_loop 1 halt Waiting Outside s st = Inr (s\<lparr>sem_value := sem_value s - 1\<rparr>, st')" "sem_value s > 0"
      "pool_ok (sem_queue s) st'" "runnable st' = runnable st" "at st' (currentThread st) Outside"
      "\<forall>t k'. t \<noteq> currentThread st \<longrightarrow> at st' t k' = at st t k'"
  | (sleeps) q' st' where "Semaphore_P_loop 1 halt Waiting Outside s st = Inr (s\<lparr>sem_queue := q'\<rparr>, st')" "sem_value s = 0"
      "pool_ok q' st'" "at st' (currentThread st) Waiting"
  | (halts) "Semaphore_P_loop 1 halt Waiting Outside s st = Inl Halted" "sem_value s = 0" "ready st = []"
proof (cases "sem_value s = 0")
  case False
  obtain st1 st2 where l: "restore st = Inr st1" "set_cont Outside st1 = Inr st2" "pool_ok (sem_queue s) st2" "same_schedule st st2"
    "at st2 (currentThread st) Outside" "\<forall>t. t \<noteq> currentThread st \<longrightarrow> tview st2 t = tview st t"
    by (rule leave_kernel [OF k, of Outside]) (simp add: in_op_def)
  then show thesis using takes [of st2] False v by (simp add: Semaphore_P_loop_def same_schedule_def runnable_def at_def)
next
  case True
  show thesis
  proof (cases "ready st")
    case Nil
    have li: "List_inv (sem_queue s)" using k by (simp add: in_kernel_def waiters_ok_def)
    obtain q' where "List_Append (currentThread st) (sem_queue s) = Inr q'" using list_fifo.enq_ok [OF li] by blast
    then have "Semaphore_P_loop 1 halt Waiting Outside s st = Inl Halted"
      using True sleep_halts [OF k Nil] by (simp add: Semaphore_P_loop_def)
    then show thesis using halts True Nil by blast
  next
    case (Cons n ts)
    obtain q' st' where "List_Append (currentThread st) (sem_queue s) = Inr q'" "Thread_Sleep (Suc 0) halt Waiting st = Inr st'" "pool_ok q' st'"
      "at st' (currentThread st) Waiting"
      using block_pool [OF k Cons] by metis
    then show thesis using sleeps [of q' st'] True by (simp add: Semaphore_P_loop_def)
  qed
qed

lemma woken_after_take:
  assumes "runnable st' = runnable st" "distinct (runnable st)" "at st' (currentThread st) Outside"
    "\<forall>t k'. t \<noteq> currentThread st \<longrightarrow> at st' t k' = at st t k'"
  shows "woken st \<le> Suc (woken st')"
proof -
  have "filter (\<lambda>t. at st' t Waiting) (ready st) = filter (\<lambda>t. at st t Waiting) (ready st)"
  proof (rule filter_cong)
    fix t assume "t \<in> set (ready st)"
    then have "t \<noteq> currentThread st" using assms(2) by (auto simp: runnable_def)
    then show "at st' t Waiting = at st t Waiting" using assms(4) by blast
  qed simp
  then show ?thesis using assms(1) by (simp add: woken_def runnable_def)
qed

lemma sem_take_inv:
  assumes "in_kernel (sem_queue s) st k ls" "sem_value s \<ge> 0" "sem_value s = n + int v - int p"
    "List_items (sem_queue s) \<noteq> [] \<longrightarrow> sem_value s \<le> int (woken st)" "Semaphore_P_loop 1 halt Waiting Outside s st = Inr (s', st')"
  shows "sem_inv n (s', st', if at st' (currentThread st) Outside then Suc p else p, v)"
proof (rule P_loop_spec [OF assms(1,2)])
  fix st2 assume t: "Semaphore_P_loop 1 halt Waiting Outside s st = Inr (s\<lparr>sem_value := sem_value s - 1\<rparr>, st2)" "sem_value s > 0"
      "pool_ok (sem_queue s) st2" "runnable st2 = runnable st" "at st2 (currentThread st) Outside"
      "\<forall>t k'. t \<noteq> currentThread st \<longrightarrow> at st2 t k' = at st t k'"
  have "distinct (runnable st)" using assms(1) nachos_threads.inv_distinct by (auto simp: in_kernel_def runnable_def)
  then have "woken st \<le> Suc (woken st2)" by (rule woken_after_take [OF t(4) _ t(5,6)])
  moreover have "st' = st2" "s' = s\<lparr>sem_value := sem_value s - 1\<rparr>" using t(1) assms(5) by simp_all
  ultimately show ?thesis using t assms(3,4) by (auto simp: sem_inv_def)
next
  fix q' st2 assume t: "Semaphore_P_loop 1 halt Waiting Outside s st = Inr (s\<lparr>sem_queue := q'\<rparr>, st2)" "sem_value s = 0"
      "pool_ok q' st2" "at st2 (currentThread st) Waiting"
  then have "st' = st2" "s' = s\<lparr>sem_queue := q'\<rparr>" "\<not> at st2 (currentThread st) Outside" using assms(5) at_unique by auto
  then show ?thesis using t assms(3) by (simp add: sem_inv_def)
qed (use assms(5) in simp)

lemma V_spec:
  assumes "pool_ok (sem_queue s) st" "at st (currentThread st) Outside"
  obtains q' st' where "Semaphore_V s st = Inr (s\<lparr>sem_queue := q', sem_value := sem_value s + 1\<rparr>, st')" "pool_ok q' st'"
    "runnable st' = runnable st @ take 1 (List_items (sem_queue s))" "List_items q' = tl (List_items (sem_queue s))"
    "\<forall>t k. at st' t k = at st t k"
proof -
  obtain st1 k ls where d: "disable st = Inr st1" "in_kernel (sem_queue s) st1 k ls" "same_schedule st st1" "tview st (currentThread st) = Some (k, tl ls, False)"
    "\<forall>t. t \<noteq> currentThread st \<longrightarrow> tview st1 t = tview st t"
    by (rule enter_kernel [OF assms(1)])
  obtain r q' st2 where w: "List_Remove (sem_queue s) = Inr (r, q')" "List_items q' = tl (List_items (sem_queue s))" "wake_removed r st1 = Inr st2"
    "in_kernel q' st2 k ls" "currentThread st2 = currentThread st1" "ready st2 = ready st1 @ take 1 (List_items (sem_queue s))" "tview st2 = tview st1"
    by (rule wake_pool [OF d(2)])
  have k: "k = Outside" using assms(2) d(4) by (simp add: at_def)
  obtain st3 where l: "restore st2 = Inr st3" "same_schedule st2 st3" "tview st3 = (tview st2)(currentThread st2 \<mapsto> (k, tl ls, False))" "\<not> in_op k \<longrightarrow> pool_ok q' st3"
    by (rule restore_kernel [OF w(4)])
  have "tview st3 = tview st" using l(3) w(5,7) d(3-5) by (auto simp: same_schedule_def fun_eq_iff)
  moreover have "runnable st3 = runnable st @ take 1 (List_items (sem_queue s))"
    using l(2) w(5,6) d(3) by (simp add: same_schedule_def runnable_def)
  moreover have "Semaphore_V s st = Inr (s\<lparr>sem_queue := q', sem_value := sem_value s + 1\<rparr>, st3)"
    using d(1) w(1,3) l(1) by (simp add: Semaphore_V_def)
  ultimately show thesis using that l(4) w(2) k by (simp add: at_def in_op_def)
qed

lemma sem_step_inv: "sem_step \<sigma> \<sigma>' \<Longrightarrow> sem_inv n \<sigma> \<Longrightarrow> sem_inv n \<sigma>'"
proof (induction rule: sem_step.induct)
  case (P st s s' st' p v)
  then have pool: "pool_ok (sem_queue s) st" by (simp add: sem_inv_def)
  obtain st1 k ls where d: "disable st = Inr st1" "in_kernel (sem_queue s) st1 k ls" "same_schedule st st1" "tview st (currentThread st) = Some (k, tl ls, False)"
    "\<forall>t. t \<noteq> currentThread st \<longrightarrow> tview st1 t = tview st t"
    by (rule enter_kernel [OF pool])
  have "at st1 t Waiting = at st t Waiting" for t
    using d(2-5) by (cases "t = currentThread st") (auto simp: at_def in_kernel_def same_schedule_def)
  then have "woken st1 = woken st" using d(3) by (simp add: woken_def runnable_def same_schedule_def)
  then have "sem_inv n (s', st', if at st' (currentThread st1) Outside then Suc p else p, v)"
    using P d(1) by (intro sem_take_inv [OF d(2)]) (auto simp: sem_inv_def Semaphore_P_def)
  then show ?case using d(3) by (simp add: same_schedule_def)
next
  case (P_resume st s s' st' p v)
  then have pool: "pool_ok (sem_queue s) st" by (simp add: sem_inv_def)
  obtain ls where "in_kernel (sem_queue s) st Waiting ls" by (rule resume_kernel [OF pool P_resume.hyps(1)]) (simp add: in_op_def)
  then show ?case using P_resume by (intro sem_take_inv) (auto simp: sem_inv_def)
next
  case (V st s s' st' p v)
  then have pool: "pool_ok (sem_queue s) st" by (simp add: sem_inv_def)
  obtain q' st2 where r: "Semaphore_V s st = Inr (s\<lparr>sem_queue := q', sem_value := sem_value s + 1\<rparr>, st2)" "pool_ok q' st2"
    "runnable st2 = runnable st @ take 1 (List_items (sem_queue s))" "List_items q' = tl (List_items (sem_queue s))"
    "\<forall>t k. at st2 t k = at st t k"
    by (rule V_spec [OF pool V.hyps(1)])
  have w: "\<forall>t \<in> set (List_items (sem_queue s)). at st t Waiting"
    using pool unfolding pool_ok_def waiters_ok_def at_def by blast
  have "woken st2 = woken st + length (take 1 (List_items (sem_queue s)))"
    using r(3,5) w by (cases "List_items (sem_queue s)") (simp_all add: woken_def)
  then show ?case using V r by (cases "List_items (sem_queue s)") (auto simp: sem_inv_def)
next
  case (yield st st' s p v)
  then have pool: "pool_ok (sem_queue s) st" "at st (currentThread st) (place_of False)" by (simp_all add: sem_inv_def place_of_def)
  obtain st2 where y: "Thread_Yield (Yielded False) st = Inr st2" "pool_ok (sem_queue s) st2" "runnable st2 = rotate1 (runnable st)"
    "at st2 (currentThread st) (Yielded False)" "\<forall>t k'. t \<noteq> currentThread st \<longrightarrow> at st2 t k' = at st t k'"
    by (rule yield_pool [OF pool])
  have "at st2 t Waiting = at st t Waiting" for t
    using y(4,5) yield.hyps(1) by (cases "t = currentThread st") (auto dest: at_unique)
  then have "woken st2 = woken st" unfolding woken_def y(3) by (simp add: length_filter_rotate1)
  then show ?case using yield y(1,2) by (auto simp: sem_inv_def)
next
  case (yield_resume st st1 st' s p v)
  then have pool: "pool_ok (sem_queue s) st" by (simp add: sem_inv_def)
  obtain st1' st2 where y0: "restore st = Inr st1'" "set_cont (place_of False) st1' = Inr st2" and y: "pool_ok (sem_queue s) st2"
    "runnable st2 = runnable st" "at st2 (currentThread st) (place_of False)" "\<forall>t k'. t \<noteq> currentThread st \<longrightarrow> at st2 t k' = at st t k'"
    by (rule yield_resume_pool [OF pool yield_resume.hyps(1)])
  have e: "st2 = st'" using y0 yield_resume.hyps(2,3) by (simp add: place_of_def)
  have "at st2 t Waiting = at st t Waiting" for t
    using y(3,4) yield_resume.hyps(1) by (cases "t = currentThread st") (auto dest: at_unique simp: place_of_def)
  then have "woken st2 = woken st" by (simp add: woken_def y(2))
  then show ?case using yield_resume y(1) e by (auto simp: sem_inv_def)
qed

lemma sem_reachable_inv:
  assumes "sem_step\<^sup>*\<^sup>* \<sigma> \<sigma>'" "sem_inv n \<sigma>"
  shows "sem_inv n \<sigma>'"
  using assms by (induction rule: rtranclp_induct) (auto intro: sem_step_inv)

lemma P_outcome:
  assumes "pool_ok (sem_queue s) st" "sem_value s \<ge> 0"
  shows "case Semaphore_P 1 halt Waiting Outside s st of Inr (s', st') \<Rightarrow> at st' (currentThread st) Outside \<or> at st' (currentThread st) Waiting
    | Inl e \<Rightarrow> e = Halted \<and> sem_value s = 0 \<and> ready st = []"
proof -
  obtain st1 k ls where d: "disable st = Inr st1" "in_kernel (sem_queue s) st1 k ls" "same_schedule st st1"
    by (rule enter_kernel [OF assms(1)])
  show ?thesis
    by (rule P_loop_spec [OF d(2) assms(2)]) (use d(1,3) in \<open>simp_all add: Semaphore_P_def same_schedule_def\<close>)
qed

text \<open>C22: Semaphores count. Threads share a semaphore with initial value \<open>n\<close>, calling P and V in any
  order and yielding at any time. In every state they can reach, the value is \<open>n\<close> plus the
  number of calls of V minus the number of calls of P that have returned, and it is not
  negative: P never returns more often than \<open>n\<close> plus the number of Vs. No wakeup is lost: while
  threads are queued and the value is positive, at least as many threads as the value
  have been woken and are about to try again. A call of P returns or sleeps, and fails only
  when it must sleep and no thread is ready, where the machine halts.\<close>

theorem semaphore_counts:
  assumes "n \<ge> 0" "pool_ok List_new st0" "sem_step\<^sup>*\<^sup>* (Semaphore_new name n, st0, 0, 0) (s, st, p, v)"
  shows "sem_value s = n + int v - int p \<and> int p \<le> n + int v
    \<and> (List_items (sem_queue s) \<noteq> [] \<longrightarrow> sem_value s \<le> int (woken st))
    \<and> (case Semaphore_P 1 halt Waiting Outside s st of Inr (s', st') \<Rightarrow> at st' (currentThread st) Outside \<or> at st' (currentThread st) Waiting
       | Inl e \<Rightarrow> e = Halted \<and> sem_value s = 0 \<and> ready st = [])"
proof -
  have "sem_inv n (Semaphore_new name n, st0, 0, 0)"
    using assms(1,2) by (simp add: sem_inv_def Semaphore_new_def List_items_def)
  then have inv: "sem_inv n (s, st, p, v)" by (rule sem_reachable_inv [OF assms(3)])
  then show ?thesis using P_outcome [of s st] by (auto simp: sem_inv_def)
qed

text \<open>Two threads, one running and one that has not started.\<close>

definition pool_thread :: "ThreadStatus \<Rightarrow> bool \<Rightarrow> place Thread" where
  "pool_thread s f = \<lparr>th_name = ''t'', th_stack = Some STACK_FENCEPOST, th_status = s, userRegisters = (\<lambda>_. 0), th_space = None,
     th_cont = Outside, th_fresh = f, th_levels = []\<rparr>"

definition example_pool :: "place Nachos" where
  "example_pool = \<lparr>kmem = example_kmem, threads = [0 \<mapsto> pool_thread RUNNING False, 1 \<mapsto> pool_thread READY True],
     readyList = \<lparr>l_cells = [Some \<lparr>le_next = None, le_key = 0, le_item = 1\<rparr>], l_first = Some 0, l_last = Some 0\<rparr>,
     currentThread = 0, threadToBeDestroyed = None, level = IntOn, spaces = Map.empty, pcbs = Map.empty,
     processManager = \<lparr>pm_map = \<lparr>numBits = 0, numWords = 0, bm_map = []\<rparr>, pcbTable = []\<rparr>, next_obj = 2\<rparr>"

lemma example_pool_ready: "List_inv (readyList example_pool)" "ready example_pool = [1]"
  by (simp_all add: example_pool_def ready_def List_inv_def List_chain_def List_addrs_def List_items_def List_elems_def
      cell_at_def elem_of_def)

lemma example_pool_view: "tview example_pool 0 = Some (Outside, [], False)" "tview example_pool 1 = Some (Outside, [], True)"
    "currentThread example_pool = 0"
  by (simp_all add: tview_def example_pool_def pool_thread_def)

lemma example_pool_ok: "pool_ok List_new example_pool"
proof -
  have "sched_ok example_pool"
    using example_pool_ready by (simp add: sched_ok_def runnable_ok_def) (simp add: example_pool_def pool_thread_def)
  then have "sys_ok example_pool" by (simp add: sys_ok_def example_pool_def)
  then show ?thesis
    using example_pool_view example_pool_ready(2)
    by (auto simp: pool_ok_def waiters_ok_def runnable_def List_items_def in_op_def)
qed

theorem semaphore_counts_witness:
  "\<exists>s st. sem_step\<^sup>*\<^sup>* (Semaphore_new ''mutex'' 1, example_pool, 0, 0) (s, st, 1, 0) \<and> sem_value s = 0"
proof -
  let ?s = "Semaphore_new ''mutex'' 1"
  have pool: "pool_ok (sem_queue ?s) example_pool" using example_pool_ok by (simp add: Semaphore_new_def)
  obtain st1 k ls where d: "disable example_pool = Inr st1" "in_kernel (sem_queue ?s) st1 k ls" "same_schedule example_pool st1"
    by (rule enter_kernel [OF pool])
  obtain st' where t: "Semaphore_P_loop 1 halt Waiting Outside ?s st1 = Inr (?s\<lparr>sem_value := 0\<rparr>, st')" "at st' (currentThread st1) Outside"
    by (rule P_loop_spec [OF d(2)]) (simp_all add: Semaphore_new_def)
  have "sem_step (?s, example_pool, 0, 0) (?s\<lparr>sem_value := 0\<rparr>, st', if at st' (currentThread example_pool) Outside then Suc 0 else 0, 0)"
    using t(1) d(1) example_pool_view by (intro sem_step.P) (auto simp: Semaphore_P_def at_def)
  then have r: "sem_step\<^sup>*\<^sup>* (?s, example_pool, 0, 0) (?s\<lparr>sem_value := 0\<rparr>, st', 1, 0)"
    using t(2) d(3) by (auto simp: same_schedule_def)
  show ?thesis using semaphore_counts [OF _ example_pool_ok r] r by auto
qed

section \<open>Locks exclude\<close>

inductive lock_step :: "Lock \<times> place Nachos \<Rightarrow> Lock \<times> place Nachos \<Rightarrow> bool" where
  acquire: "at st (currentThread st) Outside \<Longrightarrow> Lock_Acquire 1 halt Waiting Inside l st = Inr (l', st') \<Longrightarrow> lock_step (l, st) (l', st')"
| acquire_resume: "at st (currentThread st) Waiting \<Longrightarrow> Lock_Acquire_loop 1 halt Waiting Inside l st = Inr (l', st') \<Longrightarrow> lock_step (l, st) (l', st')"
| release: "at st (currentThread st) Inside \<Longrightarrow> Lock_Release l st = Inr (l', st1) \<Longrightarrow> set_cont Outside st1 = Inr st' \<Longrightarrow> lock_step (l, st) (l', st')"
| yield: "at st (currentThread st) (place_of b) \<Longrightarrow> Thread_Yield (Yielded b) st = Inr st' \<Longrightarrow> lock_step (l, st) (l, st')"
| yield_resume: "at st (currentThread st) (Yielded b) \<Longrightarrow> restore st = Inr st1 \<Longrightarrow> set_cont (place_of b) st1 = Inr st' \<Longrightarrow> lock_step (l, st) (l, st')"

text \<open>A thread is in its critical section, running or preempted.\<close>

definition holding :: "place Nachos \<Rightarrow> nat \<Rightarrow> bool" where
  "holding st t \<longleftrightarrow> at st t Inside \<or> at st t (Yielded True)"

definition lock_inv :: "Lock \<times> place Nachos \<Rightarrow> bool" where
  "lock_inv = (\<lambda>(l, st). pool_ok (lock_queue l) st
     \<and> (\<forall>t. holding st t \<longleftrightarrow> \<not> lock_free l \<and> lock_holder l = Some t)
     \<and> (List_items (lock_queue l) \<noteq> [] \<longrightarrow> lock_free l \<longrightarrow> woken st > 0))"

lemma Acquire_loop_spec:
  assumes k: "in_kernel (lock_queue l) st k ls"
  obtains (takes) st' where "Lock_Acquire_loop 1 halt Waiting Inside l st = Inr (l\<lparr>lock_free := False, lock_holder := Some (currentThread st)\<rparr>, st')"
      "lock_free l" "pool_ok (lock_queue l) st'" "at st' (currentThread st) Inside" "\<forall>t k'. t \<noteq> currentThread st \<longrightarrow> at st' t k' = at st t k'"
  | (sleeps) q' st' where "Lock_Acquire_loop 1 halt Waiting Inside l st = Inr (l\<lparr>lock_queue := q'\<rparr>, st')" "\<not> lock_free l"
      "pool_ok q' st'" "at st' (currentThread st) Waiting" "\<forall>t k'. t \<noteq> currentThread st \<longrightarrow> at st' t k' = at st t k'"
  | (halts) "Lock_Acquire_loop 1 halt Waiting Inside l st = Inl Halted" "\<not> lock_free l" "ready st = []"
proof (cases "lock_free l")
  case True
  obtain st1 st2 where "restore st = Inr st1" "set_cont Inside st1 = Inr st2" "pool_ok (lock_queue l) st2"
    "at st2 (currentThread st) Inside" "\<forall>t. t \<noteq> currentThread st \<longrightarrow> tview st2 t = tview st t"
    by (rule leave_kernel [OF k, of Inside]) (simp add: in_op_def)
  then show thesis using takes [of st2] True by (simp add: Lock_Acquire_loop_def at_def)
next
  case False
  show thesis
  proof (cases "ready st")
    case Nil
    have li: "List_inv (lock_queue l)" using k by (simp add: in_kernel_def waiters_ok_def)
    obtain q' where "List_Append (currentThread st) (lock_queue l) = Inr q'" using list_fifo.enq_ok [OF li] by blast
    then have "Lock_Acquire_loop 1 halt Waiting Inside l st = Inl Halted"
      using False sleep_halts [OF k Nil] by (simp add: Lock_Acquire_loop_def)
    then show thesis using halts False Nil by blast
  next
    case (Cons n ts)
    obtain q' st' where "List_Append (currentThread st) (lock_queue l) = Inr q'" "Thread_Sleep (Suc 0) halt Waiting st = Inr st'" "pool_ok q' st'"
      "at st' (currentThread st) Waiting" "\<forall>t k'. t \<noteq> currentThread st \<longrightarrow> at st' t k' = at st t k'"
      using block_pool [OF k Cons] by metis
    then show thesis using sleeps [of q' st'] False by (simp add: Lock_Acquire_loop_def)
  qed
qed

lemma lock_acquire_inv:
  assumes k: "in_kernel (lock_queue l) st k ls" "\<not> holding st (currentThread st)"
    and inv: "\<forall>t. holding st t \<longleftrightarrow> \<not> lock_free l \<and> lock_holder l = Some t"
    and a: "Lock_Acquire_loop 1 halt Waiting Inside l st = Inr (l', st')"
  shows "lock_inv (l', st')"
proof (rule Acquire_loop_spec [OF k(1)])
  fix st2 assume t: "Lock_Acquire_loop 1 halt Waiting Inside l st = Inr (l\<lparr>lock_free := False, lock_holder := Some (currentThread st)\<rparr>, st2)"
      "lock_free l" "pool_ok (lock_queue l) st2" "at st2 (currentThread st) Inside" "\<forall>t k'. t \<noteq> currentThread st \<longrightarrow> at st2 t k' = at st t k'"
  have "holding st2 t \<longleftrightarrow> t = currentThread st" for t
  proof (cases "t = currentThread st")
    case False
    then have "holding st2 t = holding st t" using t(5) by (simp add: holding_def)
    then show ?thesis using False t(2) inv by simp
  qed (use t(4) in \<open>simp add: holding_def\<close>)
  moreover have "l' = l\<lparr>lock_free := False, lock_holder := Some (currentThread st)\<rparr>" "st' = st2" using t(1) a by simp_all
  ultimately show ?thesis using t(3) by (simp add: lock_inv_def) blast
next
  fix q' st2 assume t: "Lock_Acquire_loop 1 halt Waiting Inside l st = Inr (l\<lparr>lock_queue := q'\<rparr>, st2)" "\<not> lock_free l"
      "pool_ok q' st2" "at st2 (currentThread st) Waiting" "\<forall>t k'. t \<noteq> currentThread st \<longrightarrow> at st2 t k' = at st t k'"
  have "holding st2 t \<longleftrightarrow> holding st t" for t
  proof (cases "t = currentThread st")
    case True
    then show ?thesis using t(4) k(2) at_unique [OF t(4)] by (auto simp: holding_def)
  qed (use t(5) in \<open>simp add: holding_def\<close>)
  moreover have "l' = l\<lparr>lock_queue := q'\<rparr>" "st' = st2" using t(1) a by simp_all
  ultimately show ?thesis using t(2,3) inv by (simp add: lock_inv_def)
qed (use a in simp)

lemma Release_general:
  assumes ok: "sys_ok st" "waiters_ok w (lock_queue l) st" and c: "tview st (currentThread st) = Some (k, ls, f)"
    and h: "lock_holder l = Some (currentThread st)"
  obtains q' st' where "Lock_Release l st = Inr (l\<lparr>lock_queue := q', lock_free := True\<rparr>, st')" "sys_ok st'" "currentThread st' = currentThread st"
    "ready st' = ready st @ take 1 (List_items (lock_queue l))" "tview st' = tview st" "level st' = level st" "waiters_ok w q' st'"
    "List_items q' = tl (List_items (lock_queue l))" "\<forall>u. u \<notin> set (List_items (lock_queue l)) \<longrightarrow> sleeping st' u = sleeping st u"
proof -
  obtain st1 where d: "disable st = Inr st1" "same_schedule st st1" "level st1 = IntOff" "tview st1 = (tview st)(currentThread st \<mapsto> (k, level st # ls, f))"
    by (rule disable_view [OF c])
  have ok1: "sys_ok st1" "currentThread st1 = currentThread st" "ready st1 = ready st" "sleeping st1 = sleeping st"
    using ok(1) d(2) by (simp_all add: same_schedule_def)
  have "waiters_ok w (lock_queue l) st1" by (rule waiters_same_schedule [OF d(2) ok]) (simp add: d(4))
  then obtain r q' st2 where wk: "List_Remove (lock_queue l) = Inr (r, q')" "List_items q' = tl (List_items (lock_queue l))"
    "wake_removed r st1 = Inr st2" "sys_ok st2" "currentThread st2 = currentThread st1" "ready st2 = ready st1 @ take 1 (List_items (lock_queue l))"
    "tview st2 = tview st1" "level st2 = level st1" "waiters_ok w q' st2"
    "\<forall>u. u \<notin> set (List_items (lock_queue l)) \<longrightarrow> sleeping st2 u = sleeping st1 u"
    by (rule wake_from_queue [OF ok1(1)])
  have "tview st2 (currentThread st2) = Some (k, level st # ls, f)" using d(4) wk(5,7) ok1(2) by simp
  then obtain st3 where r: "restore st2 = Inr st3" "same_schedule st2 st3" "level st3 = level st" "tview st3 = (tview st2)(currentThread st2 \<mapsto> (k, ls, f))"
    by (rule restore_view)
  show thesis
  proof (rule that [of q' st3])
    show "Lock_Release l st = Inr (l\<lparr>lock_queue := q', lock_free := True\<rparr>, st3)"
      using d(1) wk(1,3) r(1) h ok1(2) by (simp add: Lock_Release_def)
    show "tview st3 = tview st" using r(4) wk(5,7) d(4) ok1(2) c by (auto simp: fun_eq_iff)
    show "waiters_ok w q' st3" by (rule waiters_same_schedule [OF r(2) wk(4,9)]) (simp add: r(4))
  qed (use r(2,3) wk ok1 in \<open>simp_all add: same_schedule_def\<close>)
qed

lemma Release_spec:
  assumes "pool_ok (lock_queue l) st" "at st (currentThread st) k" "\<not> in_op k" "lock_holder l = Some (currentThread st)"
  obtains q' st' where "Lock_Release l st = Inr (l\<lparr>lock_queue := q', lock_free := True\<rparr>, st')" "pool_ok q' st'"
    "runnable st' = runnable st @ take 1 (List_items (lock_queue l))" "List_items q' = tl (List_items (lock_queue l))" "tview st' = tview st"
proof -
  obtain k1 ls where p: "sys_ok st" "waiters_ok Waiting (lock_queue l) st" "tview st (currentThread st) = Some (k1, ls, False)"
    by (rule pool_okE [OF assms(1)])
  obtain q' st' where r: "Lock_Release l st = Inr (l\<lparr>lock_queue := q', lock_free := True\<rparr>, st')" "sys_ok st'" "currentThread st' = currentThread st"
    "ready st' = ready st @ take 1 (List_items (lock_queue l))" "tview st' = tview st" "level st' = level st" "waiters_ok Waiting q' st'"
    "List_items q' = tl (List_items (lock_queue l))"
    by (rule Release_general [OF p assms(4)])
  have "\<forall>t \<in> set (take 1 (List_items (lock_queue l))). \<exists>k ls f. tview st t = Some (k, ls, f) \<and> (in_op k \<longrightarrow> ls \<noteq> [] \<and> \<not> f)"
    using p(2) by (cases "List_items (lock_queue l)") (auto simp: waiters_ok_def)
  then have "pool_ok q' st'"
    using assms(1) r(2-7) by (auto simp: pool_ok_def runnable_def)
  then show thesis using that r by (simp add: runnable_def)
qed

lemma set_cont_pool:
  assumes "pool_ok q st" "at st (currentThread st) k" "\<not> in_op k'"
  obtains st' where "set_cont k' st = Inr st'" "pool_ok q st'" "runnable st' = runnable st" "at st' (currentThread st) k'"
    "\<forall>t k2. t \<noteq> currentThread st \<longrightarrow> at st' t k2 = at st t k2"
proof -
  obtain k1 ls where p: "sys_ok st" "waiters_ok Waiting q st" "tview st (currentThread st) = Some (k1, ls, False)" by (rule pool_okE [OF assms(1)])
  obtain st' where s: "set_cont k' st = Inr st'" "same_schedule st st'" "level st' = level st" "tview st' = (tview st)(currentThread st \<mapsto> (k', ls, False))"
    by (rule set_cont_view [OF p(3)])
  have "waiters_ok Waiting q st'" by (rule waiters_same_schedule [OF s(2) p(1,2)]) (simp add: s(4))
  then have "pool_ok q st'"
    using assms(1,3) s(2,4) p(1) by (auto simp: pool_ok_def same_schedule_def runnable_def)
  then show thesis using that s(1,2,4) by (auto simp: same_schedule_def runnable_def at_def)
qed

lemma at_iff: "at st t k \<Longrightarrow> at st t k' \<longleftrightarrow> k' = k"
  using at_unique by blast

text \<open>Yielding and coming back change neither who waits nor who holds.\<close>

lemma yielded_same:
  assumes "at s1 c (place_of b)" "at s2 c (Yielded b)" "\<forall>t k. t \<noteq> c \<longrightarrow> at s2 t k = at s1 t k"
  shows "at s2 t Waiting = at s1 t Waiting" "holding s2 t = holding s1 t"
proof -
  note c = at_iff [OF assms(1)] at_iff [OF assms(2)]
  show "at s2 t Waiting = at s1 t Waiting"
    using c assms(3) by (cases "t = c") (simp_all add: place_of_def)
  show "holding s2 t = holding s1 t"
    using c assms(3) by (cases "t = c") (simp_all add: holding_def place_of_def)
qed

lemma lock_step_inv: "lock_step \<sigma> \<sigma>' \<Longrightarrow> lock_inv \<sigma> \<Longrightarrow> lock_inv \<sigma>'"
proof (induction rule: lock_step.induct)
  case (acquire st l l' st')
  then have pool: "pool_ok (lock_queue l) st" and inv: "\<forall>t. holding st t \<longleftrightarrow> \<not> lock_free l \<and> lock_holder l = Some t"
    by (simp_all add: lock_inv_def)
  obtain st1 k ls where d: "disable st = Inr st1" "in_kernel (lock_queue l) st1 k ls" "same_schedule st st1" "tview st (currentThread st) = Some (k, tl ls, False)"
    "\<forall>t. t \<noteq> currentThread st \<longrightarrow> tview st1 t = tview st t"
    by (rule enter_kernel [OF pool])
  have "at st1 t k' = at st t k'" for t k'
    using d(2-5) by (cases "t = currentThread st") (auto simp: at_def in_kernel_def same_schedule_def)
  then have h: "holding st1 t = holding st t" for t by (simp add: holding_def)
  have "\<not> holding st (currentThread st)" using at_unique [OF acquire.hyps(1)] by (auto simp: holding_def)
  then have "\<not> holding st1 (currentThread st1)" using h d(3) by (simp add: same_schedule_def)
  then show ?case
    using acquire.hyps(2) d(1) inv h by (intro lock_acquire_inv [OF d(2)]) (simp_all add: Lock_Acquire_def)
next
  case (acquire_resume st l l' st')
  then have pool: "pool_ok (lock_queue l) st" and inv: "\<forall>t. holding st t \<longleftrightarrow> \<not> lock_free l \<and> lock_holder l = Some t"
    by (simp_all add: lock_inv_def)
  obtain ls where k: "in_kernel (lock_queue l) st Waiting ls" by (rule resume_kernel [OF pool acquire_resume.hyps(1)]) (simp add: in_op_def)
  have "\<not> holding st (currentThread st)" using at_unique [OF acquire_resume.hyps(1)] by (auto simp: holding_def)
  then show ?case using acquire_resume.hyps(2) inv by (intro lock_acquire_inv [OF k]) simp_all
next
  case (release st l l' st1 st')
  then have pool: "pool_ok (lock_queue l) st" and inv: "\<forall>t. holding st t \<longleftrightarrow> \<not> lock_free l \<and> lock_holder l = Some t"
    by (simp_all add: lock_inv_def)
  have "holding st (currentThread st)" using release.hyps(1) by (simp add: holding_def)
  then have h: "lock_holder l = Some (currentThread st)" using inv by blast
  obtain q' st2 where r: "Lock_Release l st = Inr (l\<lparr>lock_queue := q', lock_free := True\<rparr>, st2)" "pool_ok q' st2"
    "runnable st2 = runnable st @ take 1 (List_items (lock_queue l))" "List_items q' = tl (List_items (lock_queue l))" "tview st2 = tview st"
    by (rule Release_spec [OF pool release.hyps(1) _ h]) (simp add: in_op_def)
  have e: "st1 = st2" "l' = l\<lparr>lock_queue := q', lock_free := True\<rparr>" using r(1) release.hyps(2) by simp_all
  have c: "currentThread st2 = currentThread st" using r(3) by (simp add: runnable_def)
  have at2: "at st2 (currentThread st2) Inside" using release.hyps(1) r(5) c by (simp add: at_def)
  obtain st3 where s: "set_cont Outside st2 = Inr st3" "pool_ok q' st3" "runnable st3 = runnable st2" "at st3 (currentThread st2) Outside"
    "\<forall>t k2. t \<noteq> currentThread st2 \<longrightarrow> at st3 t k2 = at st2 t k2"
    by (rule set_cont_pool [OF r(2) at2, of Outside]) (simp add: in_op_def)
  have e3: "st' = st3" using s(1) release.hyps(3) e(1) by simp
  have nh: "\<not> holding st3 t" for t
  proof (cases "t = currentThread st")
    case True
    then show ?thesis using at_unique [OF s(4)] c by (auto simp: holding_def)
  next
    case False
    then have "holding st3 t = holding st t" using s(5) c r(5) by (simp add: holding_def at_def)
    then show ?thesis using False inv h by simp
  qed
  have "woken st3 > 0" if ne: "List_items q' \<noteq> []"
  proof -
    obtain u us where u: "List_items (lock_queue l) = u # us" using ne r(4) by (cases "List_items (lock_queue l)") auto
    then have "at st u Waiting" "sleeping st u" using pool by (auto simp: pool_ok_def waiters_ok_def at_def)
    then have "u \<noteq> currentThread st2" using sleeping_idle [of st u] pool c by (simp add: pool_ok_def)
    then have "at st3 u Waiting" "u \<in> set (runnable st3)"
      using s(3,5) r(3,5) u \<open>at st u Waiting\<close> by (simp_all add: at_def)
    then have "u \<in> set (filter (\<lambda>t. at st3 t Waiting) (runnable st3))" by simp
    then show ?thesis unfolding woken_def by (metis length_pos_if_in_set)
  qed
  then show ?case using s(2) nh e e3 by (simp add: lock_inv_def)
next
  case (yield st b st' l)
  then have pool: "pool_ok (lock_queue l) st" by (simp add: lock_inv_def)
  obtain st2 where y: "Thread_Yield (Yielded b) st = Inr st2" "pool_ok (lock_queue l) st2" "runnable st2 = rotate1 (runnable st)"
    "at st2 (currentThread st) (Yielded b)" "\<forall>t k'. t \<noteq> currentThread st \<longrightarrow> at st2 t k' = at st t k'"
    by (rule yield_pool [OF pool yield.hyps(1)])
  note same = yielded_same [OF yield.hyps(1) y(4,5)]
  have "woken st2 = woken st" unfolding woken_def y(3) by (simp add: length_filter_rotate1 same(1))
  then show ?case using yield y(1,2) same(2) by (simp add: lock_inv_def)
next
  case (yield_resume st b st1 st' l)
  then have pool: "pool_ok (lock_queue l) st" by (simp add: lock_inv_def)
  obtain st1' st2 where y0: "restore st = Inr st1'" "set_cont (place_of b) st1' = Inr st2" and y: "pool_ok (lock_queue l) st2"
    "runnable st2 = runnable st" "at st2 (currentThread st) (place_of b)" "\<forall>t k'. t \<noteq> currentThread st \<longrightarrow> at st2 t k' = at st t k'"
    by (rule yield_resume_pool [OF pool yield_resume.hyps(1)])
  have e: "st2 = st'" using y0 yield_resume.hyps(2,3) by simp
  have "\<forall>t k. t \<noteq> currentThread st \<longrightarrow> at st t k = at st2 t k" using y(4) by simp
  note same = yielded_same [OF y(3) yield_resume.hyps(1) this]
  have "woken st2 = woken st" unfolding woken_def y(2) by (simp add: same(1))
  then show ?case using yield_resume y(1) e same(2) by (simp add: lock_inv_def)
qed

text \<open>C4: Locks exclude. Threads share a lock; each acquires it, works in its critical section and
  releases it, and may be preempted at any time. In every state they can reach, at most one thread is
  in its critical section, the lock is busy exactly then, and its holder is that thread.
  When the lock is free while threads are queued, a woken thread is about to take it. The
  owner's Release always succeeds, frees the lock and wakes the first waiter.\<close>

theorem lock_mutual_exclusion:
  assumes "pool_ok List_new st0" "\<forall>t. \<not> holding st0 t" "lock_step\<^sup>*\<^sup>* (Lock_new junk name, st0) (l, st)"
  shows "(\<forall>t. holding st t \<longleftrightarrow> \<not> lock_free l \<and> lock_holder l = Some t)
    \<and> (List_items (lock_queue l) \<noteq> [] \<longrightarrow> lock_free l \<longrightarrow> (\<exists>t \<in> set (runnable st). at st t Waiting))
    \<and> (at st (currentThread st) Inside \<longrightarrow> (\<exists>l' st'. Lock_Release l st = Inr (l', st') \<and> lock_free l'
         \<and> runnable st' = runnable st @ take 1 (List_items (lock_queue l))))"
proof -
  have "lock_inv (Lock_new junk name, st0)" using assms(1,2) by (simp add: lock_inv_def Lock_new_def List_items_def)
  with assms(3) have inv: "lock_inv (l, st)" by (induction rule: rtranclp_induct) (auto intro: lock_step_inv)
  then have h: "\<forall>t. holding st t \<longleftrightarrow> \<not> lock_free l \<and> lock_holder l = Some t" and pool: "pool_ok (lock_queue l) st"
    by (simp_all add: lock_inv_def)
  have "\<exists>t \<in> set (runnable st). at st t Waiting" if "List_items (lock_queue l) \<noteq> []" "lock_free l"
    using inv that by (auto simp: lock_inv_def woken_def filter_empty_conv)
  moreover have "\<exists>l' st'. Lock_Release l st = Inr (l', st') \<and> lock_free l' \<and> runnable st' = runnable st @ take 1 (List_items (lock_queue l))"
    if i: "at st (currentThread st) Inside"
  proof -
    have "lock_holder l = Some (currentThread st)" using h i unfolding holding_def by blast
    moreover have "\<not> in_op Inside" by (simp add: in_op_def)
    ultimately obtain q' st' where "Lock_Release l st = Inr (l\<lparr>lock_queue := q', lock_free := True\<rparr>, st')"
        "runnable st' = runnable st @ take 1 (List_items (lock_queue l))"
      using Release_spec [OF pool i] by metis
    then show ?thesis by simp
  qed
  ultimately show ?thesis using h by blast
qed

text \<open>Release by a thread that does not hold the lock loses a waiter. The lock stays as it is, but
  the first waiting thread is removed from the queue without being made ready: it sleeps,
  and no queue has it any more.\<close>

theorem release_by_other_loses_waiter:
  assumes "pool_ok (lock_queue l) st" "at st (currentThread st) k" "\<not> in_op k" "lock_holder l \<noteq> Some (currentThread st)"
    "List_items (lock_queue l) = t # ts"
  shows "\<exists>l' st'. Lock_Release l st = Inr (l', st') \<and> lock_free l' = lock_free l \<and> lock_holder l' = lock_holder l
    \<and> List_items (lock_queue l') = ts \<and> t \<notin> set ts \<and> sleeping st' t \<and> t \<notin> set (runnable st')"
proof -
  obtain st1 k1 ls where d: "disable st = Inr st1" "in_kernel (lock_queue l) st1 k1 ls" "same_schedule st st1"
    by (rule enter_kernel [OF assms(1)])
  have q: "List_inv (lock_queue l)" "sleeping st t" "t \<notin> set ts" "sys_ok st" using assms(1,5) by (auto simp: pool_ok_def waiters_ok_def)
  obtain q' where q': "List_Remove (lock_queue l) = Inr (Some t, q')" "List_items q' = ts"
    using list_fifo.deq_ok [OF q(1) assms(5)] by blast
  obtain st2 where r: "restore st1 = Inr st2" "same_schedule st1 st2" by (rule restore_kernel [OF d(2)])
  have "same_schedule st st2" by (rule same_schedule_trans [OF d(3) r(2)])
  then have "sleeping st2 t" "runnable st2 = runnable st" using q(2) by (simp_all add: same_schedule_def runnable_def)
  moreover have "Lock_Release l st = Inr (l\<lparr>lock_queue := q'\<rparr>, st2)"
    using d(1,3) q'(1) r(1) assms(4) by (simp add: Lock_Release_def same_schedule_def)
  ultimately show ?thesis using q' q(3) sleeping_idle [OF q(4,2)] by (simp add: runnable_def)
qed

section \<open>Condition variables\<close>

lemma Broadcast_loop_spec:
  assumes "List_inv q" "length (List_items q) < n"
  shows "\<exists>q'. List_inv q' \<and> List_items q' = [] \<and> Broadcast_loop n q st = bindE (foldE ReadyToRun (List_items q) st) (\<lambda>st. Inr (q', st))"
  using assms
proof (induction n arbitrary: q st)
  case (Suc n)
  show ?case
  proof (cases "List_items q")
    case Nil
    then show ?thesis using list_fifo.deq_empty [OF Suc.prems(1) Nil] Suc.prems(1) by (auto simp: wake_removed_def)
  next
    case (Cons t ts)
    obtain q1 where q1: "List_Remove q = Inr (Some t, q1)" "List_inv q1" "List_items q1 = ts"
      using list_fifo.deq_ok [OF Suc.prems(1) Cons] by blast
    have lt: "length (List_items q1) < n" using Suc.prems(2) Cons q1(3) by simp
    have step: "Broadcast_loop (Suc n) q st = bindE (ReadyToRun t st) (Broadcast_loop n q1)"
      using q1(1) by (simp add: wake_removed_def)
    show ?thesis
    proof (cases "ReadyToRun t st")
      case (Inl e)
      then show ?thesis unfolding step Cons by (auto intro!: exI [of _ List_new] simp: List_items_def)
    next
      case (Inr s)
      then show ?thesis unfolding step Cons using Suc.IH [OF q1(2) lt, of s] q1(3) by auto
    qed
  qed
qed simp

text \<open>Broadcast wakes every waiting thread. All threads waiting on the condition variable are put at the end of the ready list in the order
  in which they began to wait; the queue is empty afterwards, and the caller goes on with
  its interrupt level unchanged.\<close>

theorem broadcast_wakes_all:
  assumes "sys_ok st" "waiters_ok w (cond_queue c) st" "tview st (currentThread st) = Some (k, ls, f)"
  shows "\<exists>c' st'. Condition_Broadcast c st = Inr (c', st') \<and> List_items (cond_queue c') = [] \<and> sys_ok st' \<and> currentThread st' = currentThread st
    \<and> ready st' = ready st @ List_items (cond_queue c) \<and> tview st' = tview st \<and> level st' = level st"
proof -
  let ?q = "cond_queue c"
  obtain st1 where d: "disable st = Inr st1" "same_schedule st st1" "level st1 = IntOff" "tview st1 = (tview st)(currentThread st \<mapsto> (k, level st # ls, f))"
    by (rule disable_view [OF assms(3)])
  have q: "List_inv ?q" "distinct (List_items ?q)" "\<forall>t \<in> set (List_items ?q). sleeping st1 t"
    using assms(2) d(2) by (auto simp: waiters_ok_def same_schedule_def)
  have "length (List_items ?q) \<le> length (l_cells ?q)"
    using q(1) chain_length by (auto simp: List_items_def List_elems_def List_inv_def List_chain_def)
  then obtain q' where b: "List_items q' = []" "Broadcast_loop (Suc (length (l_cells ?q))) ?q st1 = bindE (foldE ReadyToRun (List_items ?q) st1) (\<lambda>st. Inr (q', st))"
    using Broadcast_loop_spec [OF q(1), of "Suc (length (l_cells ?q))" st1] by auto
  have "sys_ok st1" using assms(1) d(2) by (simp add: same_schedule_def)
  then obtain st2 where w: "foldE ReadyToRun (List_items ?q) st1 = Inr st2" "sys_ok st2" "currentThread st2 = currentThread st1"
      "ready st2 = ready st1 @ List_items ?q" "tview st2 = tview st1" "level st2 = level st1"
    using nachos_threads.wake_all [OF _ q(3,2)] by blast
  have c2: "currentThread st2 = currentThread st" using w(3) d(2) by (simp add: same_schedule_def)
  then have "tview st2 (currentThread st2) = Some (k, level st # ls, f)" using w(5) d(4) by simp
  then obtain st3 where r: "restore st2 = Inr st3" "same_schedule st2 st3" "level st3 = level st" "tview st3 = (tview st2)(currentThread st2 \<mapsto> (k, ls, f))"
    by (rule restore_view)
  have "tview st3 = tview st" using r(4) w(5) d(4) c2 assms(3) by (auto simp: fun_eq_iff)
  then show ?thesis
    using d(1,2) b w r c2 by (simp add: Condition_Broadcast_def same_schedule_def)
qed

text \<open>Wait is atomic. When the holder of the lock waits on the condition variable and some thread
  can run afterwards, the lock is free, its first waiter, if any, is ready, the caller sleeps at the
  end of the condition's queue, and the first ready thread runs; both queues are in order.\<close>

theorem wait_releases_and_sleeps:
  assumes "sys_ok st" "lock_holder l = Some (currentThread st)" "waiters_ok wl (lock_queue l) st" "waiters_ok wc (cond_queue c) st"
    "set (List_items (lock_queue l)) \<inter> set (List_items (cond_queue c)) = {}" "tview st (currentThread st) = Some (k, ls, False)"
    "ready st @ take 1 (List_items (lock_queue l)) = n # ts"
  shows "\<exists>c' l' st'. Condition_Wait (Suc fuel) idle wc c l st = Inr (c', l', st') \<and> lock_free l' \<and> currentThread st' = n \<and> ready st' = ts
    \<and> List_items (lock_queue l') = tl (List_items (lock_queue l)) \<and> List_items (cond_queue c') = List_items (cond_queue c) @ [currentThread st]
    \<and> sys_ok st' \<and> waiters_ok wc (cond_queue c') st' \<and> waiters_ok wl (lock_queue l') st'"
proof -
  let ?c = "currentThread st"
  obtain st1 where d: "disable st = Inr st1" "same_schedule st st1" "level st1 = IntOff" "tview st1 = (tview st)(?c \<mapsto> (k, level st # ls, False))"
    by (rule disable_view [OF assms(6)])
  have ok1: "sys_ok st1" "currentThread st1 = ?c" "ready st1 = ready st" "sleeping st1 = sleeping st"
    using assms(1) d(2) by (simp_all add: same_schedule_def)
  have w1: "waiters_ok wl (lock_queue l) st1" "waiters_ok wc (cond_queue c) st1"
    using waiters_same_schedule [OF d(2) assms(1)] assms(3,4) d(4) by auto
  have c1: "tview st1 (currentThread st1) = Some (k, level st # ls, False)" "lock_holder l = Some (currentThread st1)"
    using d(4) ok1(2) assms(2) by simp_all
  obtain ql st2 where r: "Lock_Release l st1 = Inr (l\<lparr>lock_queue := ql, lock_free := True\<rparr>, st2)" "sys_ok st2" "currentThread st2 = currentThread st1"
    "ready st2 = ready st1 @ take 1 (List_items (lock_queue l))" "tview st2 = tview st1" "level st2 = level st1" "waiters_ok wl ql st2"
    "List_items ql = tl (List_items (lock_queue l))" "\<forall>u. u \<notin> set (List_items (lock_queue l)) \<longrightarrow> sleeping st2 u = sleeping st1 u"
    by (rule Release_general [OF ok1(1) w1(1) c1])
  have w2: "waiters_ok wc (cond_queue c) st2"
    using w1(2) assms(5) r(5,9) unfolding waiters_ok_def by (metis disjoint_iff)
  have r2: "ready st2 = n # ts" using r(4) ok1(3) assms(7) by simp
  obtain kn lsn fn where nv: "tview st2 n = Some (kn, lsn, fn)"
    using nachos_threads.inv_view [OF r(2), of n] r2 by auto
  have lev: "level st2 = IntOff" using r(6) d(3) by simp
  have cur: "tview st2 (currentThread st2) = Some (k, level st # ls, False)" using r(3,5) c1(1) by simp
  obtain qc st3 where s: "List_Append (currentThread st2) (cond_queue c) = Inr qc" "List_items qc = List_items (cond_queue c) @ [currentThread st2]"
    "Thread_Sleep (Suc fuel) idle wc st2 = Inr st3" "sys_ok st3" "currentThread st3 = n" "ready st3 = ts"
    "tview st3 = (tview st2)(currentThread st2 \<mapsto> (wc, level st # ls, False), n \<mapsto> (kn, lsn, False))" "waiters_ok wc qc st3"
    "\<forall>u. sleeping st2 u \<longrightarrow> sleeping st3 u"
    by (rule sleep_on_queue [OF r(2) lev w2 r2 cur _ nv]) simp
  have "waiters_ok wl ql st3"
    unfolding waiters_ok_def
  proof (intro conjI ballI)
    show "List_inv ql" "distinct (List_items ql)" using r(7) by (simp_all add: waiters_ok_def)
    fix t assume "t \<in> set (List_items ql)"
    then have t: "sleeping st2 t" "\<exists>ls. tview st2 t = Some (wl, ls, False) \<and> ls \<noteq> []" using r(7) by (auto simp: waiters_ok_def)
    then show "sleeping st3 t" "\<exists>ls. tview st3 t = Some (wl, ls, False) \<and> ls \<noteq> []"
      using s(7,9) sleeping_idle [OF r(2) t(1)] r2 by auto
  qed
  then show ?thesis
    using d(1) r(1,3,8) s ok1(2) by (simp add: Condition_Wait_def)
qed

theorem lock_mutual_exclusion_witness:
  "\<exists>l st. lock_step\<^sup>*\<^sup>* (Lock_new None ''lock'', example_pool) (l, st) \<and> holding st 0 \<and> \<not> holding st 1"
proof -
  let ?l = "Lock_new None ''lock''"
  have pool: "pool_ok (lock_queue ?l) example_pool" using example_pool_ok by (simp add: Lock_new_def)
  obtain st1 k ls where d: "disable example_pool = Inr st1" "in_kernel (lock_queue ?l) st1 k ls" "same_schedule example_pool st1"
    by (rule enter_kernel [OF pool])
  obtain st' where t: "Lock_Acquire_loop 1 halt Waiting Inside ?l st1 = Inr (?l\<lparr>lock_free := False, lock_holder := Some (currentThread st1)\<rparr>, st')"
      "at st' (currentThread st1) Inside"
    by (rule Acquire_loop_spec [OF d(2)]) (simp_all add: Lock_new_def)
  have c: "currentThread st1 = 0" using d(3) example_pool_view(3) by (simp add: same_schedule_def)
  have out: "at example_pool 0 Outside" using example_pool_view(1) by (auto simp: at_def)
  have r: "lock_step\<^sup>*\<^sup>* (?l, example_pool) (?l\<lparr>lock_free := False, lock_holder := Some 0\<rparr>, st')"
    using t(1) d(1) c out example_pool_view(3) by (intro r_into_rtranclp lock_step.acquire) (simp_all add: Lock_Acquire_def)
  have free: "\<forall>t. \<not> holding example_pool t"
  proof
    fix t
    show "\<not> holding example_pool t"
      by (cases "t = 0"; cases "t = 1"; simp add: holding_def at_def tview_def example_pool_def pool_thread_def)
  qed
  show ?thesis
    using lock_mutual_exclusion [OF example_pool_ok free r] r by auto
qed

text \<open>Thread 1 waits in a queue, thread 0 runs.\<close>

definition waiting_pool :: "place Nachos" where
  "waiting_pool = example_pool\<lparr>threads := [0 \<mapsto> pool_thread RUNNING False, 1 \<mapsto> (pool_thread BLOCKED False)\<lparr>th_cont := Waiting, th_levels := [IntOn]\<rparr>],
     readyList := List_new\<rparr>"

definition one_waiter :: "nat nlist" where
  "one_waiter = \<lparr>l_cells = [Some \<lparr>le_next = None, le_key = 0, le_item = 1\<rparr>], l_first = Some 0, l_last = Some 0\<rparr>"

lemma one_waiter_ok: "List_inv one_waiter" "List_items one_waiter = [1]"
  by (simp_all add: one_waiter_def List_inv_def List_chain_def List_addrs_def List_items_def List_elems_def cell_at_def elem_of_def)

lemma waiting_pool_ok: "sys_ok waiting_pool" "waiters_ok Waiting one_waiter waiting_pool" "tview waiting_pool 0 = Some (Outside, [], False)"
    "currentThread waiting_pool = 0" "ready waiting_pool = []"
proof -
  show r: "ready waiting_pool = []" by (simp add: ready_def waiting_pool_def List_items_def)
  show "currentThread waiting_pool = 0" by (simp add: waiting_pool_def example_pool_def)
  show v: "tview waiting_pool 0 = Some (Outside, [], False)" by (simp add: tview_def waiting_pool_def pool_thread_def)
  have "sched_ok waiting_pool"
    unfolding sched_ok_def r by (simp add: runnable_ok_def) (simp add: waiting_pool_def example_pool_def pool_thread_def)
  then show "sys_ok waiting_pool" by (simp add: sys_ok_def waiting_pool_def example_pool_def)
  show "waiters_ok Waiting one_waiter waiting_pool"
    using one_waiter_ok by (simp add: waiters_ok_def sleeping_def runnable_ok_def tview_def waiting_pool_def pool_thread_def example_pool_def)
qed

theorem release_by_other_loses_waiter_witness:
  "\<exists>l' st'. Lock_Release (Lock_new (Some 7) ''lock''\<lparr>lock_queue := one_waiter\<rparr>) waiting_pool = Inr (l', st')
     \<and> List_items (lock_queue l') = [] \<and> sleeping st' 1"
proof -
  let ?l = "Lock_new (Some 7) ''lock''\<lparr>lock_queue := one_waiter\<rparr>"
  have "pool_ok (lock_queue ?l) waiting_pool"
    using waiting_pool_ok by (auto simp: pool_ok_def runnable_def in_op_def)
  moreover have "at waiting_pool (currentThread waiting_pool) Outside" using waiting_pool_ok(3,4) by (auto simp: at_def)
  moreover have "lock_holder ?l \<noteq> Some (currentThread waiting_pool)" using waiting_pool_ok(4) by (simp add: Lock_new_def)
  ultimately show ?thesis
    using release_by_other_loses_waiter [of ?l waiting_pool Outside 1 "[]"] one_waiter_ok(2) by (auto simp: in_op_def)
qed

theorem broadcast_wakes_all_witness:
  "\<exists>c' st'. Condition_Broadcast \<lparr>cond_name = ''c'', cond_queue = one_waiter\<rparr> waiting_pool = Inr (c', st') \<and> ready st' = [1]"
  using broadcast_wakes_all [OF waiting_pool_ok(1), of Waiting "\<lparr>cond_name = ''c'', cond_queue = one_waiter\<rparr>" Outside "[]" False]
    waiting_pool_ok one_waiter_ok(2) by auto

theorem wait_releases_and_sleeps_witness:
  "\<exists>c' l' st'. Condition_Wait 1 halt Waiting (Condition_new ''c'') (Lock_new (Some 0) ''lock'') example_pool = Inr (c', l', st')
     \<and> currentThread st' = 1 \<and> List_items (cond_queue c') = [0]"
proof -
  have "sys_ok example_pool" using example_pool_ok by (simp add: pool_ok_def)
  moreover have "waiters_ok Waiting (lock_queue (Lock_new (Some 0) ''lock'')) example_pool" "waiters_ok Waiting (cond_queue (Condition_new ''c'')) example_pool"
    by (simp_all add: waiters_ok_def Lock_new_def Condition_new_def List_items_def)
  ultimately show ?thesis
    using wait_releases_and_sleeps [of example_pool "Lock_new (Some 0) ''lock''" Waiting Waiting "Condition_new ''c''" Outside "[]" 1 "[]" 0 halt]
      example_pool_view example_pool_ready(2) by (auto simp: Lock_new_def Condition_new_def List_items_def)
qed

end
