(* ===== verification/Syscalls.thy ===== *)
theory Syscalls
  imports Threads Mipssim
begin

text \<open>
  The system calls of \<^verbatim>\<open>userprog/exception.cc\<close> on the kernel state of theory
  \<open>Threads\<close>: Fork, Yield, Exec, Join, Exit, Kill, the exception handler, and the step of the
  running thread, which either executes a user instruction or continues a system call that
  was interrupted by a context switch. Parameters: \<open>fs_Open\<close> finds a host file by name,
  \<open>idle\<close> is \<^verbatim>\<open>Interrupt::Idle\<close> with \<open>fuel\<close> the number of interrupts it may wait for.
\<close>

section \<open>Continuations and access\<close>

text \<open>
  Where a user thread continues: in user code, after the \<^verbatim>\<open>Yield\<close> of the system call
  Yield, after the \<^verbatim>\<open>Yield\<close> in the loop of Join, in \<^verbatim>\<open>dummy\<close>, nowhere
  because it is finished, or after the \<^verbatim>\<open>Yield\<close> with which \<^verbatim>\<open>Interrupt::OneTick\<close> interrupts
  user code for the timer.
\<close>

datatype ucont = User | AfterYield | JoinLoop int | Dummy | Finished | Preempted

type_synonym kst = "ucont Nachos"

definition SC_Halt :: int where "SC_Halt = 0"
definition SC_Exit :: int where "SC_Exit = 1"
definition SC_Exec :: int where "SC_Exec = 2"
definition SC_Join :: int where "SC_Join = 3"
definition SC_Create :: int where "SC_Create = 4"
definition SC_Open :: int where "SC_Open = 5"
definition SC_Read :: int where "SC_Read = 6"
definition SC_Write :: int where "SC_Write = 7"
definition SC_Close :: int where "SC_Close = 8"
definition SC_Fork :: int where "SC_Fork = 9"
definition SC_Yield :: int where "SC_Yield = 10"
definition SC_Kill :: int where "SC_Kill = 11"

lemmas sc_defs = SC_Halt_def SC_Exit_def SC_Exec_def SC_Join_def SC_Create_def SC_Open_def SC_Read_def SC_Write_def
  SC_Close_def SC_Fork_def SC_Yield_def SC_Kill_def

definition put_machine :: "Machine \<Rightarrow> ('c, 'z) Nachos_scheme \<Rightarrow> ('c, 'z) Nachos_scheme" where
  "put_machine m st = st\<lparr>kmem := (kmem st)\<lparr>km_machine := m\<rparr>\<rparr>"

definition read_reg :: "nat \<Rightarrow> ('c, 'z) Nachos_scheme \<Rightarrow> (32 word) res" where
  "read_reg r st = ReadRegister (int r) (mach st)"

definition write_reg :: "nat \<Rightarrow> 32 word \<Rightarrow> ('c, 'z) Nachos_scheme \<Rightarrow> (('c, 'z) Nachos_scheme) res" where
  "write_reg r v st = bindE (WriteRegister (int r) v (mach st)) (\<lambda>m. Inr (put_machine m st))"

definition cur_space :: "('c, 'z) Nachos_scheme \<Rightarrow> (nat \<times> AddrSpace) res" where
  "cur_space st = bindE (get_thread (currentThread st) st) (\<lambda>th. bindE (get_space (th_space th) st) (\<lambda>s.
     Inr (the (th_space th), s)))"

definition get_pcb :: "nat option \<Rightarrow> ('c, 'z) Nachos_scheme \<Rightarrow> PCB res" where
  "get_pcb p st = (case p of None \<Rightarrow> Inl NullDeref
     | Some a \<Rightarrow> (case pcbs st a of None \<Rightarrow> Inl DanglingPointer | Some b \<Rightarrow> Inr b))"

definition put_pcb :: "nat \<Rightarrow> PCB \<Rightarrow> ('c, 'z) Nachos_scheme \<Rightarrow> ('c, 'z) Nachos_scheme" where
  "put_pcb p b st = st\<lparr>pcbs := (pcbs st)(p \<mapsto> b)\<rparr>"

text \<open>\<^verbatim>\<open>currentThread->space->pcb\<close>: its address and its value.\<close>

definition cur_pcb :: "('c, 'z) Nachos_scheme \<Rightarrow> (nat \<times> PCB) res" where
  "cur_pcb st = bindE (cur_space st) (\<lambda>(_, s). bindE (get_pcb (as_pcb s) st) (\<lambda>b. Inr (the (as_pcb s), b)))"

section \<open>The system calls\<close>

definition update :: "('c, 'z) Nachos_scheme \<Rightarrow> (('c, 'z) Nachos_scheme) res" where
  "update st =
     bindE (read_reg PCReg st) (\<lambda>v. bindE (write_reg PCReg (v + 4) st) (\<lambda>st.
     bindE (read_reg NextPCReg st) (\<lambda>v. bindE (write_reg NextPCReg (v + 4) st) (\<lambda>st.
     bindE (read_reg PrevPCReg st) (\<lambda>v. write_reg PrevPCReg (v + 4) st)))))"

definition return_value :: "32 word \<Rightarrow> ('c, 'z) Nachos_scheme \<Rightarrow> (('c, 'z) Nachos_scheme) res" where
  "return_value v st = bindE (write_reg 2 v st) update"

definition dummy :: "kst \<Rightarrow> kst res" where
  "dummy st =
     bindE (RestoreUserState (currentThread st) st) (\<lambda>st.
     bindE (cur_space st) (\<lambda>(_, s).
     set_cont User (put_machine (AddrSpace_RestoreState s (mach st)) st)))"

text \<open>
  \<^verbatim>\<open>fork\<close>. New objects get fresh addresses; \<open>junk\<close> is the contents of their
  uninitialised fields.
\<close>

definition new_space :: "AddrSpace \<Rightarrow> ('c, 'z) Nachos_scheme \<Rightarrow> nat \<times> ('c, 'z) Nachos_scheme" where
  "new_space s st = (next_obj st, st\<lparr>next_obj := Suc (next_obj st), spaces := (spaces st)(next_obj st \<mapsto> s)\<rparr>)"

definition new_pcb :: "PCB \<Rightarrow> ('c, 'z) Nachos_scheme \<Rightarrow> nat \<times> ('c, 'z) Nachos_scheme" where
  "new_pcb b st = (next_obj st, st\<lparr>next_obj := Suc (next_obj st), pcbs := (pcbs st)(next_obj st \<mapsto> b)\<rparr>)"

definition fork_registers :: "nat \<Rightarrow> ('c, 'z) Nachos_scheme \<Rightarrow> (('c, 'z) Nachos_scheme) res" where
  "fork_registers t st =
     bindE (read_reg 4 st) (\<lambda>f.
     bindE (write_reg PCReg f st) (\<lambda>st. bindE (write_reg NextPCReg (f + 4) st) (\<lambda>st.
     bindE (write_reg PrevPCReg (f - 4) st) (SaveUserState t))))"

definition sys_fork :: "(nat \<Rightarrow> 32 word) \<Rightarrow> kst \<Rightarrow> kst res" where
  "sys_fork junk st =
     bindE (cur_pcb st) (\<lambda>_.
     bindE (SaveUserState (currentThread st) st) (\<lambda>st.
     bindE (cur_space st) (\<lambda>(_, s).
     bindE (AddrSpace_copy s (kmem st)) (\<lambda>(r, km).
     let st = st\<lparr>kmem := km\<rparr> in
     case r of
       None \<Rightarrow> return_value (-1) st
     | Some b \<Rightarrow>
         let (sp, st) = new_space b st;
             (t, st) = Thread_new junk Finished ''New Thread'' st in
         bindE (upd_thread t (\<lambda>th. th\<lparr>th_space := Some sp\<rparr>) st) (\<lambda>st.
         bindE (getPID (processManager st)) (\<lambda>(pid, pm).
         let st = st\<lparr>processManager := pm\<rparr> in
         if pid < 0 then return_value (-1) st
         else
           let (p, st) = new_pcb (PCB_new (sint (junk 0)) None (sint (junk 1)) t) st;
               st = st\<lparr>spaces := (spaces st)(sp \<mapsto> b\<lparr>as_pcb := Some p\<rparr>)\<rparr> in
           bindE (cur_pcb st) (\<lambda>(cp, _).
           bindE (get_pcb (Some p) st) (\<lambda>np.
           let np = PCB_set pid (Some cp) np; st = put_pcb p np st in
           bindE (get_pcb (Some cp) st) (\<lambda>cur.
           bindE (PCB_addChild (Some p) cur) (\<lambda>(_, cur).
           let st = put_pcb cp cur st in
           bindE (addPCB p np (processManager st)) (\<lambda>pm.
           bindE (fork_registers t (st\<lparr>processManager := pm\<rparr>)) (\<lambda>st.
           bindE (Thread_Fork t Dummy st) (\<lambda>st.
           bindE (RestoreUserState (currentThread st) st) (\<lambda>st.
           return_value (of_int pid) st))))))))))))))"

definition sys_yield :: "kst \<Rightarrow> kst res" where
  "sys_yield st = bindE (cur_pcb st) (\<lambda>_. Thread_Yield AfterYield st)"

definition after_yield :: "kst \<Rightarrow> kst res" where
  "after_yield st = bindE (restore st) (\<lambda>st. bindE (update st) (set_cont User))"

definition nullParent :: "nat option \<Rightarrow> ('c, 'z) Nachos_scheme \<Rightarrow> (('c, 'z) Nachos_scheme) res" where
  "nullParent p st = bindE (get_pcb p st) (\<lambda>b. Inr (put_pcb (the p) (PCB_set (PCB_getID b) None b) st))"

definition orphan_children :: "PCB \<Rightarrow> ('c, 'z) Nachos_scheme \<Rightarrow> (('c, 'z) Nachos_scheme) res" where
  "orphan_children b st = (let children = PCB_getChildren b in
     if \<not> List_IsEmpty children then List_Mapcar nullParent children st else Inr st)"

definition drop_pid :: "int \<Rightarrow> ('c, 'z) Nachos_scheme \<Rightarrow> (('c, 'z) Nachos_scheme) res" where
  "drop_pid pid st = bindE (removePCB pid (processManager st)) (\<lambda>pm. bindE (clearPID pid pm) (\<lambda>pm.
     Inr (st\<lparr>processManager := pm\<rparr>)))"

definition delete_pcb :: "nat option \<Rightarrow> ('c, 'z) Nachos_scheme \<Rightarrow> (('c, 'z) Nachos_scheme) res" where
  "delete_pcb p st = bindE (get_pcb p st) (\<lambda>b. bindE (PCB_destroy b) (\<lambda>_. Inr (st\<lparr>pcbs := (pcbs st)(the p := None)\<rparr>)))"

definition delete_space :: "nat option \<Rightarrow> ('c, 'z) Nachos_scheme \<Rightarrow> (('c, 'z) Nachos_scheme) res" where
  "delete_space p st = bindE (get_space p st) (\<lambda>s. bindE (AddrSpace_destroy s (kmem st)) (\<lambda>km.
     Inr (st\<lparr>kmem := km, spaces := (spaces st)(the p := None)\<rparr>)))"

definition release_space :: "nat option \<Rightarrow> ('c, 'z) Nachos_scheme \<Rightarrow> (('c, 'z) Nachos_scheme) res" where
  "release_space p st = bindE (get_space p st) (\<lambda>s. bindE (ReleasePhysicalMemory s (kmem st)) (\<lambda>km. Inr (st\<lparr>kmem := km\<rparr>)))"

definition sys_exit :: "nat \<Rightarrow> (kst \<Rightarrow> kst res) \<Rightarrow> kst \<Rightarrow> kst res" where
  "sys_exit fuel idle st =
     bindE (cur_pcb st) (\<lambda>(cp, b).
     bindE (cur_space st) (\<lambda>(sp, _).
     let pid = PCB_getID b in
     bindE (read_reg 4 st) (\<lambda>code.
     bindE (orphan_children b st) (\<lambda>st.
     bindE (get_pcb (Some cp) st) (\<lambda>b.
     bindE (case PCB_getParent b of None \<Rightarrow> Inr st
            | Some par \<Rightarrow> bindE (get_pcb (Some par) st) (\<lambda>pb. bindE (PCB_removeChild (Some cp) pb) (\<lambda>(_, pb).
                Inr (put_pcb par (PCB_setExit (sint code) pb) st)))) (\<lambda>st.
     bindE (drop_pid pid st) (\<lambda>st.
     bindE (release_space (Some sp) st) (\<lambda>st.
     bindE (delete_pcb (Some cp) st) (\<lambda>st.
     bindE (delete_space (Some sp) st) (\<lambda>st.
     Thread_Finish fuel idle Finished st))))))))))"

text \<open>One pass of the loop of Join: finish when the process is gone, yield otherwise.\<close>

definition join_test :: "int \<Rightarrow> kst \<Rightarrow> kst res" where
  "join_test pid st = bindE (getProcess pid (processManager st)) (\<lambda>p.
     if p \<noteq> None then Thread_Yield (JoinLoop pid) st
     else bindE (cur_pcb st) (\<lambda>(_, b). bindE (return_value (of_int (PCB_getCode b)) st) (set_cont User)))"

definition sys_join :: "kst \<Rightarrow> kst res" where
  "sys_join st =
     bindE (cur_pcb st) (\<lambda>(_, b).
     bindE (read_reg 4 st) (\<lambda>r4.
     let pid = sint r4 in
     if pid < 0 then return_value (-1) st
     else bindE (getProcess pid (processManager st)) (\<lambda>p.
       bindE (PCB_isChild p b) (\<lambda>c.
       if \<not> c then return_value (-1) st else join_test pid st))))"

definition join_loop :: "int \<Rightarrow> kst \<Rightarrow> kst res" where
  "join_loop pid st = bindE (restore st) (join_test pid)"

definition sys_kill :: "nat \<Rightarrow> (kst \<Rightarrow> kst res) \<Rightarrow> kst \<Rightarrow> kst res" where
  "sys_kill fuel idle st =
     bindE (cur_pcb st) (\<lambda>(_, b).
     let pid = PCB_getID b in
     bindE (read_reg 4 st) (\<lambda>r4.
     let killID = sint r4 in
     bindE (getProcess killID (processManager st)) (\<lambda>kp.
     if kp = None then return_value (-1) st
     else if killID = pid then sys_exit fuel idle st
     else
       bindE (get_pcb kp st) (\<lambda>kb.
       bindE (orphan_children kb st) (\<lambda>st.
       bindE (get_pcb kp st) (\<lambda>kb.
       bindE (case PCB_getParent kb of None \<Rightarrow> Inr st
              | Some par \<Rightarrow> bindE (get_pcb (Some par) st) (\<lambda>pb. bindE (PCB_removeChild kp pb) (\<lambda>(_, pb).
                  Inr (put_pcb par pb st)))) (\<lambda>st.
       bindE (drop_pid killID st) (\<lambda>st.
       let t = PCB_getThread kb in
       bindE (get_thread t st) (\<lambda>th.
       bindE (release_space (th_space th) st) (\<lambda>st.
       bindE (delete_pcb kp st) (\<lambda>st.
       bindE (delete_space (th_space th) st) (\<lambda>st.
       bindE (Scheduler_Remove t st) (\<lambda>st.
       return_value 0 st)))))))))))))"

definition sys_exec :: "(byte list \<Rightarrow> byte list option) \<Rightarrow> kst \<Rightarrow> kst res" where
  "sys_exec fs_Open st =
     bindE (cur_pcb st) (\<lambda>_.
     bindE (read_reg 4 st) (\<lambda>address.
     bindE (cur_space st) (\<lambda>(sp, s).
     bindE (AddrSpace_Replace fs_Open (sint address) s (kmem st)) (\<lambda>(success, s', km).
     let st = st\<lparr>kmem := km, spaces := (spaces st)(sp \<mapsto> s')\<rparr> in
     bindE (write_reg 2 (if success then 1 else -1) st) update))))"

section \<open>The exception handler\<close>

definition ExceptionHandler :: "(nat \<Rightarrow> 32 word) \<Rightarrow> (byte list \<Rightarrow> byte list option) \<Rightarrow> nat \<Rightarrow> (kst \<Rightarrow> kst res)
    \<Rightarrow> ExceptionType \<Rightarrow> kst \<Rightarrow> kst res" where
  "ExceptionHandler junk fs_Open fuel idle which st =
     bindE (read_reg 2 st) (\<lambda>r2.
     let type = sint r2 in
     if which = SyscallException then
       if type = SC_Open \<or> type = SC_Read \<or> type = SC_Write \<or> type = SC_Close \<or> type = SC_Create then Inr st
       else if type = SC_Fork then sys_fork junk st
       else if type = SC_Yield then sys_yield st
       else if type = SC_Exec then sys_exec fs_Open st
       else if type = SC_Join then sys_join st
       else if type = SC_Exit then sys_exit fuel idle st
       else if type = SC_Kill then sys_kill fuel idle st
       else Inl Halted
     else Inl AssertFail)"

text \<open>One step of the thread that has the processor.\<close>

definition thread_step :: "(nat \<Rightarrow> 32 word) \<Rightarrow> (byte list \<Rightarrow> byte list option) \<Rightarrow> nat \<Rightarrow> (kst \<Rightarrow> kst res) \<Rightarrow> kst \<Rightarrow> kst res" where
  "thread_step junk fs_Open fuel idle st =
     bindE (get_thread (currentThread st) st) (\<lambda>th. case th_cont th of
       User \<Rightarrow> Run_step mach put_machine (ExceptionHandler junk fs_Open fuel idle) Inr st
     | AfterYield \<Rightarrow> after_yield st
     | JoinLoop pid \<Rightarrow> join_loop pid st
     | Dummy \<Rightarrow> dummy st
     | Finished \<Rightarrow> Inl AssertFail
     | Preempted \<Rightarrow> bindE (restore st) (set_cont User))"

text \<open>\<^verbatim>\<open>StartProcess\<close> of \<^verbatim>\<open>userprog/progtest.cc\<close>, up to \<^verbatim>\<open>machine->Run()\<close>.\<close>

definition StartProcess :: "(nat \<Rightarrow> 32 word) \<Rightarrow> (byte list \<Rightarrow> byte list option) \<Rightarrow> byte list \<Rightarrow> kst \<Rightarrow> kst res" where
  "StartProcess junk fs_Open filename st =
     (case fs_Open filename of
        None \<Rightarrow> Inr st
      | Some executable \<Rightarrow>
          bindE (getPID (processManager st)) (\<lambda>(pid, pm).
          let st = st\<lparr>processManager := pm\<rparr> in
          if pid < 0 then Inr st
          else
            let (p, st) = new_pcb (PCB_set pid None (PCB_new (sint (junk 0)) None (sint (junk 1)) (currentThread st))) st in
            bindE (get_pcb (Some p) st) (\<lambda>b.
            bindE (addPCB p b (processManager st)) (\<lambda>pm.
            bindE (AddrSpace_load executable (kmem st)) (\<lambda>(s, km).
            let s = s\<lparr>as_pcb := Some p\<rparr>;
                (sp, st) = new_space s (st\<lparr>processManager := pm, kmem := km\<rparr>) in
            bindE (upd_thread (currentThread st) (\<lambda>th. th\<lparr>th_space := Some sp\<rparr>) st) (\<lambda>st.
            bindE (AddrSpace_InitRegisters s (mach st)) (\<lambda>m.
            set_cont User (put_machine (AddrSpace_RestoreState s m) st))))))))"

section \<open>Registers of the machine in the kernel state\<close>

definition put_regs :: "(nat \<Rightarrow> 32 word) \<Rightarrow> ('c, 'z) Nachos_scheme \<Rightarrow> ('c, 'z) Nachos_scheme" where
  "put_regs R st = put_machine ((mach st)\<lparr>registers := R\<rparr>) st"

lemma put_machine_sel [simp]:
  "mach (put_machine m st) = m" "threads (put_machine m st) = threads st" "spaces (put_machine m st) = spaces st"
  "currentThread (put_machine m st) = currentThread st" "pcbs (put_machine m st) = pcbs st"
  "processManager (put_machine m st) = processManager st" "readyList (put_machine m st) = readyList st"
  "level (put_machine m st) = level st" "next_obj (put_machine m st) = next_obj st"
  "threadToBeDestroyed (put_machine m st) = threadToBeDestroyed st" "km_mm (kmem (put_machine m st)) = km_mm (kmem st)"
  by (simp_all add: put_machine_def)

lemma put_regs_sel [simp]:
  "registers (mach (put_regs R st)) = R" "threads (put_regs R st) = threads st" "spaces (put_regs R st) = spaces st"
  "currentThread (put_regs R st) = currentThread st" "pcbs (put_regs R st) = pcbs st"
  "processManager (put_regs R st) = processManager st" "readyList (put_regs R st) = readyList st"
  "level (put_regs R st) = level st" "next_obj (put_regs R st) = next_obj st"
  "threadToBeDestroyed (put_regs R st) = threadToBeDestroyed st" "km_mm (kmem (put_regs R st)) = km_mm (kmem st)"
  by (simp_all add: put_regs_def)

lemma put_regs_put_regs [simp]: "put_regs R (put_regs R' st) = put_regs R st"
  by (simp add: put_regs_def put_machine_def)

lemma put_regs_same [simp]: "put_regs (registers (mach st)) st = st"
  by (simp add: put_regs_def put_machine_def)

lemma read_reg_ok [simp]: "r < NumTotalRegs \<Longrightarrow> read_reg r st = Inr (registers (mach st) r)"
  by (simp add: read_reg_def ReadRegister_def)

lemma write_reg_ok [simp]: "r < NumTotalRegs \<Longrightarrow> write_reg r v st = Inr (put_regs ((registers (mach st))(r := v)) st)"
  by (simp add: write_reg_def WriteRegister_def put_regs_def)

lemma reg_bounds [simp]: "PCReg < NumTotalRegs" "NextPCReg < NumTotalRegs" "PrevPCReg < NumTotalRegs" "2 < NumTotalRegs" "4 < NumTotalRegs"
  by (simp_all add: reg_defs)

lemma pc_distinct [simp]: "PCReg \<noteq> NextPCReg" "PCReg \<noteq> PrevPCReg" "NextPCReg \<noteq> PrevPCReg" "NextPCReg \<noteq> PCReg" "PrevPCReg \<noteq> PCReg"
  "PrevPCReg \<noteq> NextPCReg" "2 \<noteq> PCReg" "2 \<noteq> NextPCReg" "2 \<noteq> PrevPCReg" "4 \<noteq> PCReg" "4 \<noteq> NextPCReg" "4 \<noteq> PrevPCReg"
  "PCReg \<noteq> 2" "NextPCReg \<noteq> 2" "PrevPCReg \<noteq> 2" "PCReg \<noteq> 4" "NextPCReg \<noteq> 4" "PrevPCReg \<noteq> 4"
  by (simp_all add: reg_defs)

text \<open>The registers after the program counters have moved past the system call.\<close>

definition advanced :: "(nat \<Rightarrow> 32 word) \<Rightarrow> nat \<Rightarrow> 32 word" where
  "advanced R = R(PCReg := R PCReg + 4, NextPCReg := R NextPCReg + 4, PrevPCReg := R PrevPCReg + 4)"

lemma update_spec: "update st = Inr (put_regs (advanced (registers (mach st))) st)"
  by (simp add: update_def advanced_def)

lemma return_value_spec: "return_value v st = Inr (put_regs (advanced ((registers (mach st))(2 := v))) st)"
  by (simp add: return_value_def update_spec)

section \<open>The kernel invariant\<close>

text \<open>
  The state in which a user process makes a system call: the scheduler is well formed, the
  memory manager and the process table too, object addresses are allocated in order, and the
  running thread has a live address space whose PCB exists.
\<close>

definition objects_ok :: "('c, 'z) Nachos_scheme \<Rightarrow> bool" where
  "objects_ok st \<longleftrightarrow> (\<forall>x \<ge> next_obj st. threads st x = None \<and> spaces st x = None \<and> pcbs st x = None)"

definition kernel_ok :: "('c, 'z) Nachos_scheme \<Rightarrow> bool" where
  "kernel_ok st \<longleftrightarrow> sched_ok st \<and> km_ok (kmem st) \<and> pm_inv (processManager st) \<and> objects_ok st"

definition in_process :: "('c, 'z) Nachos_scheme \<Rightarrow> nat \<Rightarrow> AddrSpace \<Rightarrow> nat \<Rightarrow> PCB \<Rightarrow> bool" where
  "in_process st sp a cp b \<longleftrightarrow> (\<exists>th. threads st (currentThread st) = Some th \<and> th_space th = Some sp) \<and> spaces st sp = Some a
     \<and> as_ok (kmem st) a \<and> as_pcb a = Some cp \<and> pcbs st cp = Some b \<and> List_inv (pcb_children b)"

lemma objects_lt:
  assumes "objects_ok st"
  shows "threads st x = Some th \<Longrightarrow> x < next_obj st" "spaces st x = Some s \<Longrightarrow> x < next_obj st"
    "pcbs st x = Some b \<Longrightarrow> x < next_obj st"
  using assms unfolding objects_ok_def by (metis not_le option.distinct(1))+

lemma in_processE:
  assumes "in_process st sp a cp b"
  obtains th where "threads st (currentThread st) = Some th" "th_space th = Some sp" "spaces st sp = Some a"
    "as_ok (kmem st) a" "as_pcb a = Some cp" "pcbs st cp = Some b" "List_inv (pcb_children b)"
  using assms by (auto simp: in_process_def)

lemma cur_space_ok: "in_process st sp a cp b \<Longrightarrow> cur_space st = Inr (sp, a)"
  by (auto simp: in_process_def cur_space_def get_space_def)

lemma cur_pcb_ok: "in_process st sp a cp b \<Longrightarrow> cur_pcb st = Inr (cp, b)"
  by (auto simp: cur_pcb_def cur_space_ok get_pcb_def in_process_def cur_space_def get_space_def)

section \<open>Fork\<close>

text \<open>The registers Fork gives the child.\<close>

definition child_regs :: "(nat \<Rightarrow> 32 word) \<Rightarrow> nat \<Rightarrow> 32 word" where
  "child_regs R = R(PCReg := R 4, NextPCReg := R 4 + 4, PrevPCReg := R 4 - 4)"

lemma fork_registers_spec:
  assumes "threads st t = Some th"
  shows "fork_registers t st = Inr ((put_regs (child_regs (registers (mach st))) st)\<lparr>threads := (threads st)(t \<mapsto>
     th\<lparr>userRegisters := (\<lambda>i. if i < NumTotalRegs then child_regs (registers (mach st)) i else userRegisters th i)\<rparr>)\<rparr>)"
  using assms by (simp add: fork_registers_def child_regs_def SaveUserState_spec cong: if_cong)

text \<open>The state when the child's PCB is in the process table, before its registers are set.\<close>

definition forked_thread :: "(nat \<Rightarrow> 32 word) \<Rightarrow> nat \<Rightarrow> ucont Thread" where
  "forked_thread R sp = \<lparr>th_name = ''New Thread'', th_stack = None, th_status = JUST_CREATED, userRegisters = R, th_space = Some sp,
     th_cont = Finished, th_fresh = False, th_levels = []\<rparr>"

definition saved_regs :: "('c, 'z) Nachos_scheme \<Rightarrow> 'c Thread \<Rightarrow> 'c Thread" where
  "saved_regs st th = th\<lparr>userRegisters := (\<lambda>i. if i < NumTotalRegs then registers (mach st) i else userRegisters th i)\<rparr>"

definition fork_pcb :: "(nat \<Rightarrow> 32 word) \<Rightarrow> int \<Rightarrow> nat \<Rightarrow> nat \<Rightarrow> PCB" where
  "fork_pcb junk pid cp t = PCB_set pid (Some cp) (PCB_new (sint (junk 0)) None (sint (junk 1)) t)"

definition forked :: "(nat \<Rightarrow> 32 word) \<Rightarrow> kst \<Rightarrow> ucont Thread \<Rightarrow> AddrSpace \<Rightarrow> KMem \<Rightarrow> int \<Rightarrow> ProcessManager \<Rightarrow> nat \<Rightarrow> PCB \<Rightarrow> kst" where
  "forked junk st th a' km' pid pm2 cp b' = (let n = next_obj st in
     st\<lparr>kmem := km', next_obj := n + 3, threads := (threads st)(currentThread st \<mapsto> saved_regs st th, Suc n \<mapsto> forked_thread junk n),
        spaces := (spaces st)(n \<mapsto> a'\<lparr>as_pcb := Some (n + 2)\<rparr>), pcbs := (pcbs st)(n + 2 \<mapsto> fork_pcb junk pid cp (Suc n), cp \<mapsto> b'),
        processManager := pm2\<rparr>)"

lemma sys_fork_prefix:
  assumes ip: "in_process st sp a cp b" and ob: "objects_ok st" and th: "threads st (currentThread st) = Some th"
    and copy: "AddrSpace_copy a (kmem st) = Inr (Some a', km')" and pid: "getPID (processManager st) = Inr (pid, pm1)" "pid \<ge> 0"
    and ch: "PCB_addChild (Some (next_obj st + 2)) b = Inr (True, b')"
    and add: "addPCB (next_obj st + 2) (fork_pcb junk pid cp (Suc (next_obj st))) pm1 = Inr pm2"
  shows "sys_fork junk st = bindE (fork_registers (Suc (next_obj st)) (forked junk st th a' km' pid pm2 cp b')) (\<lambda>s1.
     bindE (Thread_Fork (Suc (next_obj st)) Dummy s1) (\<lambda>s2.
     bindE (RestoreUserState (currentThread s2) s2) (return_value (of_int pid))))"
proof -
  have p: "th_space th = Some sp" "spaces st sp = Some a" "as_pcb a = Some cp" "pcbs st cp = Some b"
    using in_processE [OF ip] th by auto
  have lt: "currentThread st < next_obj st" "sp < next_obj st" "cp < next_obj st"
    using objects_lt [OF ob] th p by blast+
  have b: "get_pcb (Some cp) st = Inr b" using p by (simp add: get_pcb_def)
  show ?thesis
    using lt th p ch add pid copy cur_pcb_ok [OF ip]
    by (simp add: sys_fork_def SaveUserState_spec [OF th] cur_space_def get_space_def new_space_def Thread_new_def new_pcb_def
      cur_pcb_def get_pcb_def put_pcb_def Let_def fork_pcb_def forked_def saved_regs_def forked_thread_def
      numeral_2_eq_2 numeral_3_eq_3)
      (intro arg_cong2 [where f = bindE] arg_cong2 [where f = fork_registers] refl, cases st, simp)
qed

lemma put_regs_memory [simp]:
  "km_ok (kmem (put_regs R st)) = km_ok (kmem st)" "as_ok (kmem (put_regs R st)) a = as_ok (kmem st) a"
  "as_frames (kmem (put_regs R st)) a = as_frames (kmem st) a" "as_byte (kmem (put_regs R st)) a i off = as_byte (kmem st) a i off"
  by (simp_all add: put_regs_def put_machine_def km_ok_def as_ok_def as_frames_def as_byte_def table_of_def cong: option.case_cong)

text \<open>The state Fork ends in.\<close>

definition fork_result :: "(nat \<Rightarrow> 32 word) \<Rightarrow> kst \<Rightarrow> ucont Thread \<Rightarrow> AddrSpace \<Rightarrow> KMem \<Rightarrow> int \<Rightarrow> ProcessManager \<Rightarrow> nat \<Rightarrow> PCB \<Rightarrow> nat nlist \<Rightarrow> kst" where
  "fork_result junk st th a' km' pid pm2 cp b' l = (let n = next_obj st in
     put_regs (advanced ((registers (mach st))(2 := of_int pid)))
       ((forked junk st th a' km' pid pm2 cp b')\<lparr>threads := (threads st)(currentThread st \<mapsto> saved_regs st th,
          Suc n \<mapsto> (forked_thread (\<lambda>i. if i < NumTotalRegs then child_regs (registers (mach st)) i else junk i) n)
             \<lparr>th_stack := Some STACK_FENCEPOST, th_cont := Dummy, th_fresh := True, th_status := READY\<rparr>),
          readyList := l\<rparr>))"

lemma sys_fork_spec:
  assumes ip: "in_process st sp a cp b" and ob: "objects_ok st" and th: "threads st (currentThread st) = Some th"
    and copy: "AddrSpace_copy a (kmem st) = Inr (Some a', km')" and pid: "getPID (processManager st) = Inr (pid, pm1)" "pid \<ge> 0"
    and ch: "PCB_addChild (Some (next_obj st + 2)) b = Inr (True, b')"
    and add: "addPCB (next_obj st + 2) (fork_pcb junk pid cp (Suc (next_obj st))) pm1 = Inr pm2" and rl: "List_inv (readyList st)"
  obtains l where "sys_fork junk st = Inr (fork_result junk st th a' km' pid pm2 cp b' l)" "List_inv l"
    "List_items l = ready st @ [Suc (next_obj st)]"
proof -
  let ?n = "next_obj st" and ?c = "currentThread st" and ?R = "registers (mach st)"
  have R: "registers (km_machine km') = ?R" using AddrSpace_copy_registers [OF copy] .
  have c: "?c < ?n" using objects_lt(1) [OF ob th] .
  define s0 where "s0 = forked junk st th a' km' pid pm2 cp b'"
  have s0: "threads s0 (Suc ?n) = Some (forked_thread junk ?n)" "registers (mach s0) = ?R" "currentThread s0 = ?c"
    "threads s0 ?c = Some (saved_regs st th)" "readyList s0 = readyList st" "threads s0 = (threads st)(?c \<mapsto> saved_regs st th, Suc ?n \<mapsto> forked_thread junk ?n)"
    using c R by (simp_all add: s0_def forked_def Let_def)
  define ch where "ch = forked_thread (\<lambda>i. if i < NumTotalRegs then child_regs ?R i else junk i) ?n"
  define s1 where "s1 = (put_regs (child_regs ?R) s0)\<lparr>threads := (threads s0)(Suc ?n \<mapsto> ch)\<rparr>"
  have 1: "fork_registers (Suc ?n) s0 = Inr s1"
    unfolding fork_registers_spec [OF s0(1)] s1_def ch_def s0(2) by (simp add: forked_thread_def cong: if_cong)
  have s1: "List_inv (readyList s1)" "threads s1 (Suc ?n) = Some ch" "threads s1 (currentThread s1) = Some (saved_regs st th)"
    "Suc ?n \<noteq> currentThread s1" "ready s1 = ready st" using rl c s0 by (simp_all add: s1_def ready_def)
  obtain l where l: "Thread_Fork (Suc ?n) Dummy s1 = Inr (s1\<lparr>threads := (threads s1)(Suc ?n \<mapsto>
      ch\<lparr>th_stack := Some STACK_FENCEPOST, th_cont := Dummy, th_fresh := True, th_status := READY\<rparr>), readyList := l\<rparr>)" (is "_ = Inr ?s2")
    "List_inv l" "List_items l = ready st @ [Suc ?n]"
    using Thread_Fork_spec [OF s1(1-4)] s1(5) by metis
  have c2: "threads ?s2 ?c = Some (saved_regs st th)" using c s0 by (simp add: s1_def)
  have 3: "RestoreUserState ?c ?s2 = Inr (put_regs (\<lambda>i. if i < NumTotalRegs then ?R i else child_regs ?R i) ?s2)"
    unfolding RestoreUserState_spec [OF c2] by (simp add: put_regs_def put_machine_def saved_regs_def s1_def cong: if_cong)
  have out: "(\<lambda>i. if i < NumTotalRegs then ?R i else child_regs ?R i) = ?R"
    by (auto simp: child_regs_def reg_defs)
  have "sys_fork junk st = bindE (RestoreUserState ?c ?s2) (return_value (of_int pid))"
    using sys_fork_prefix [OF ip ob th copy pid assms(7) add] 1 l(1) s0(3) by (simp add: s0_def s1_def)
  also have "\<dots> = Inr (fork_result junk st th a' km' pid pm2 cp b' l)"
    unfolding 3 out by (simp add: return_value_spec fork_result_def Let_def put_regs_def put_machine_def s1_def s0(6) ch_def s0_def [symmetric])
  finally show thesis using that l(2,3) by blast
qed

lemma fork_pcb_id: "PCB_getID (fork_pcb junk pid cp t) = pid"
  by (simp add: fork_pcb_def PCB_getID_def PCB_set_def)

lemma fork_result_kernel_ok:
  assumes k: "kernel_ok st" and th: "threads st (currentThread st) = Some th" and sp: "th_space th = Some sp" "spaces st sp \<noteq> None"
    and l: "List_inv l" "List_items l = ready st @ [Suc (next_obj st)]" and m: "km_ok km'" "pm_inv pm2" and cp: "cp < next_obj st"
  shows "kernel_ok (fork_result junk st th a' km' pid pm2 cp b' l)" (is "kernel_ok ?s")
proof -
  let ?n = "next_obj st" and ?c = "currentThread st"
  have sch: "sched_ok st" and ob: "objects_ok st" using k by (simp_all add: kernel_ok_def)
  have new: "threads st (Suc ?n) = None" "spaces st ?n = None" using ob by (simp_all add: objects_ok_def)
  have old: "runnable_ok ?s t s" if "runnable_ok st t s" for t s
  proof -
    have "t \<noteq> Suc ?n" using that new by (auto simp: runnable_ok_def)
    then show ?thesis
      using that th new by (auto simp: runnable_ok_def fork_result_def forked_def Let_def saved_regs_def split: option.splits)
  qed
  have child: "runnable_ok ?s (Suc ?n) READY"
    by (simp add: runnable_ok_def fork_result_def forked_def Let_def forked_thread_def)
  have live: "t < ?n" if "runnable_ok st t s" for t s
    using that objects_lt(1) [OF ob, of t] by (auto simp: runnable_ok_def split: option.splits)
  have sel: "currentThread ?s = ?c" "readyList ?s = l" "threadToBeDestroyed ?s = threadToBeDestroyed st" "next_obj ?s = ?n + 3"
    by (simp_all add: fork_result_def forked_def Let_def)
  have "distinct (?c # ready st @ [Suc ?n])"
    using sch live by (fastforce simp: sched_ok_def)
  moreover have "threads ?s d \<noteq> None" "d \<noteq> Suc ?n" if "threads st d \<noteq> None" for d
    using that new by (auto simp: fork_result_def forked_def Let_def)
  ultimately have "sched_ok ?s"
    using sch old child l unfolding sched_ok_def sel ready_def by (auto split: option.splits)
  moreover have "objects_ok ?s"
    using ob objects_lt(1) [OF ob th] cp unfolding objects_ok_def sel
    by (auto simp: fork_result_def forked_def Let_def)
  moreover have "km_ok (kmem ?s)" "pm_inv (processManager ?s)"
    using m by (simp_all add: fork_result_def forked_def Let_def)
  ultimately show ?thesis by (simp add: kernel_ok_def)
qed

text \<open>Fork is followed here as one step: the registers of the parent are those it restores when no timer interrupt makes it yield inside
  \<^verbatim>\<open>Thread::Fork\<close>, which turns interrupts on again while the machine registers hold the program counter of the child. A yield at that point
  saves the registers of the child as those of the parent.\<close>

lemma fork_preempted:
  assumes "fork_registers t st = Inr s1" "Thread_Fork t k s1 = Inr s2" "sched_ok s2" "threads s2 (currentThread s2) = Some th" "th_space th = Some a"
    and "ready s2 = n # ts" "Thread_Yield c s2 = Inr s3" "threads st t = Some ch"
  shows "\<exists>u. threads s3 (currentThread s2) = Some u \<and> (\<forall>i < NumTotalRegs. userRegisters u i = child_regs (registers (mach st)) i)"
proof -
  let ?c = "currentThread s2"
  have "registers (mach s1) = child_regs (registers (mach st))"
    using assms(1) fork_registers_spec [OF assms(8)] by auto
  moreover have "mach s2 = mach s1"
    using assms(2) by (auto simp: Thread_Fork_def StackAllocate_def ReadyToRun_def setStatus_def disable_def restore_def upd_thread_def get_thread_def bindE_def
        split: sum.splits option.splits list.splits)
  ultimately have regs: "registers (mach s2) = child_regs (registers (mach st))" by simp
  obtain r th1 where r: "Scheduler_Run n r = Inr s3" "currentThread r = ?c" "threads r ?c = Some th1" "mach r = mach s2" "th_space th1 = th_space th"
      "threadToBeDestroyed r = threadToBeDestroyed s2"
    using give_up_runs [OF assms(3,4,6), of c s3] assms(7) by metis
  have "n \<noteq> ?c" "threadToBeDestroyed s2 \<noteq> Some ?c" using assms(3,6) by (auto simp: sched_ok_def split: option.splits)
  then have "threads s3 ?c = Some (saved r th1)" using Scheduler_Run_leaves [of r th1 a n s3] r assms(5) by simp
  then show ?thesis using regs r(4,5) assms(5) by (simp add: saved_def)
qed

text \<open>C3: Fork creates an isolated child. When a process with a live address space calls Fork, no timer interrupt is taken inside \<^verbatim>\<open>Thread::Fork\<close>, enough
  frames are free and a process identifier is unused, the system call returns to the parent
  with the new identifier in register 2 and the program counters past the call, all other
  registers unchanged. The child is a new thread at the end of the ready list that will
  start at the address the parent gave in register 4 with the parent's other registers. Its address space
  has the parent's contents in frames that were free, so that it shares no frame with any
  live address space, and every live address space keeps its contents. The identifier was
  unused and now names the child's PCB, which is the last of the parent's children. The
  kernel invariant holds again.\<close>

theorem fork_creates_child:
  assumes "kernel_ok st" "in_process st sp a cp b" "unat (numPages a) \<le> mm_free (km_mm (kmem st))"
    "BitMap_bits (pm_map (processManager st)) \<noteq> {..<BitMap_size (pm_map (processManager st))}"
  shows "\<exists>st' pid t ct a' p b'. sys_fork junk st = Inr st' \<and> kernel_ok st'
    \<and> currentThread st' = currentThread st \<and> registers (mach st') = advanced ((registers (mach st))(2 := of_int pid))
    \<and> threads st t = None \<and> ready st' = ready st @ [t] \<and> threads st' t = Some ct \<and> th_cont ct = Dummy
    \<and> (\<forall>i < NumTotalRegs. userRegisters ct i = child_regs (registers (mach st)) i)
    \<and> get_space (th_space ct) st' = Inr a' \<and> as_ok (kmem st') a' \<and> numPages a' = numPages a
    \<and> (\<forall>i off. i < unat (numPages a) \<longrightarrow> off < PageSize \<longrightarrow> as_byte (kmem st') a' i off = as_byte (kmem st) a i off)
    \<and> (\<forall>c. as_ok (kmem st) c \<longrightarrow> as_same (kmem st) (kmem st') c \<and> as_frames (kmem st') a' \<inter> as_frames (kmem st') c = {})
    \<and> pm_live (processManager st) pid = None \<and> pm_live (processManager st') = (pm_live (processManager st))(pid \<mapsto> p)
    \<and> as_pcb a' = Some p \<and> in_process st' sp a cp b' \<and> List_items (pcb_children b') = List_items (pcb_children b) @ [Some p]"
proof -
  let ?n = "next_obj st" and ?pm = "processManager st" and ?km = "kmem st"
  have inv: "sched_ok st" "km_ok ?km" "pm_inv ?pm" "objects_ok st" using assms(1) by (simp_all add: kernel_ok_def)
  obtain th where th: "threads st (currentThread st) = Some th" "th_space th = Some sp" "spaces st sp = Some a" "as_ok ?km a"
      "as_pcb a = Some cp" "pcbs st cp = Some b" "List_inv (pcb_children b)"
    by (rule in_processE [OF assms(2)])
  obtain a' km' where copy: "AddrSpace_copy a ?km = Inr (Some a', km')" "km_ok km'" "as_ok km' a'" "numPages a' = numPages a"
      "as_frames km' a' \<inter> mm_used (km_mm ?km) = {}"
      "\<forall>i off. i < unat (numPages a) \<longrightarrow> off < PageSize \<longrightarrow> as_byte km' a' i off = as_byte ?km a i off"
      "\<forall>c. as_ok ?km c \<longrightarrow> as_same ?km km' c"
    using AddrSpace_copy_granted [OF inv(2) th(4) assms(3)] by metis
  obtain pid pm1 where pid: "getPID ?pm = Inr (pid, pm1)" "pid \<ge> 0"
    by (rule getPID_free [OF inv(3) assms(4)])
  have unused: "pm_live ?pm pid = None"
    by (rule getPID_spec [OF inv(3) pid]) (simp add: pm_live_def)
  obtain pm2 where add: "addPCB (?n + 2) (fork_pcb junk pid cp (Suc ?n)) pm1 = Inr pm2" "pm_inv pm2" "pm_live pm2 = (pm_live ?pm)(pid \<mapsto> ?n + 2)"
    by (rule addPCB_after_getPID [OF inv(3) pid fork_pcb_id])
  obtain kids where kids: "List_Append (Some (?n + 2)) (pcb_children b) = Inr kids" "List_inv kids"
      "List_items kids = List_items (pcb_children b) @ [Some (?n + 2)]"
    using List_Append_spec [OF th(7), of "Some (?n + 2)"] by (auto simp: List_items_def)
  define b' where "b' = b\<lparr>pcb_children := kids\<rparr>"
  have ch: "PCB_addChild (Some (?n + 2)) b = Inr (True, b')" using kids(1) by (simp add: PCB_addChild_def b'_def)
  have rl: "List_inv (readyList st)" using inv(1) by (simp add: sched_ok_def)
  obtain l where l: "sys_fork junk st = Inr (fork_result junk st th a' km' pid pm2 cp b' l)" "List_inv l"
      "List_items l = ready st @ [Suc ?n]"
    by (rule sys_fork_spec [OF assms(2) inv(4) th(1) copy(1) pid ch add(1) rl])
  define s where "s = fork_result junk st th a' km' pid pm2 cp b' l"
  have ok: "kernel_ok s"
    unfolding s_def using th l(2,3) copy(2) add(2) objects_lt(3) [OF inv(4) th(6)]
    by (intro fork_result_kernel_ok [OF assms(1)]) auto
  have lt: "currentThread st < ?n" "sp < ?n" "cp < ?n" using objects_lt [OF inv(4)] th by blast+
  have sel: "currentThread s = currentThread st" "registers (mach s) = advanced ((registers (mach st))(2 := of_int pid))"
    "processManager s = pm2" "ready s = ready st @ [Suc ?n]" "spaces s ?n = Some (a'\<lparr>as_pcb := Some (?n + 2)\<rparr>)" "spaces s sp = Some a"
    "pcbs s cp = Some b'" "\<exists>th'. threads s (currentThread st) = Some th' \<and> th_space th' = Some sp"
    using l(3) lt th by (simp_all add: s_def fork_result_def forked_def Let_def ready_def saved_regs_def)
  have mem: "as_ok (kmem s) c = as_ok km' c" "as_frames (kmem s) c = as_frames km' c" "as_byte (kmem s) c i off = as_byte km' c i off"
    "as_same ?km (kmem s) c = as_same ?km km' c" for c i off
    by (simp_all add: s_def fork_result_def forked_def Let_def as_same_def)
  have same: "as_same ?km km' c \<and> as_frames km' a' \<inter> as_frames km' c = {}" if "as_ok ?km c" for c
  proof -
    have "as_frames km' c = as_frames ?km c" "as_frames ?km c \<subseteq> mm_used (km_mm ?km)"
      using that copy(7) by (auto simp: as_same_def as_ok_def as_frames_def split: option.splits)
    then show ?thesis using that copy(5,7) by blast
  qed
  have "as_ok km' a" using copy(7) th(4) by (simp add: as_same_def)
  then have ip: "in_process s sp a cp b'"
    using sel th kids(2) mem(1) by (simp add: in_process_def b'_def)
  obtain ct where ct: "threads s (Suc ?n) = Some ct" "th_cont ct = Dummy" "th_space ct = Some ?n"
      "\<forall>i < NumTotalRegs. userRegisters ct i = child_regs (registers (mach st)) i"
    by (simp add: s_def fork_result_def forked_thread_def Let_def)
  have new: "threads st (Suc ?n) = None" using inv(4) by (simp add: objects_ok_def)
  have gs: "get_space (th_space ct) s = Inr (a'\<lparr>as_pcb := Some (?n + 2)\<rparr>)" using ct(3) sel(5) by (simp add: get_space_def)
  have kb: "List_items (pcb_children b') = List_items (pcb_children b) @ [Some (?n + 2)]" using kids(3) by (simp add: b'_def)
  show ?thesis
    unfolding l(1) s_def [symmetric]
    by (intro exI [of _ s] exI [of _ pid] exI [of _ "Suc ?n"] exI [of _ ct]
          exI [of _ "a'\<lparr>as_pcb := Some (?n + 2)\<rparr>"] exI [of _ "?n + 2"] exI [of _ b'])
       (simp add: ok sel(1-4) new ct(1,2,4) gs mem copy(3,4,6) same unused add(3) ip kb del: One_nat_def add_2_eq_Suc')
qed

text \<open>A concrete kernel: thread 0 runs a process with identifier 0 and PCB 3, thread 1 is a ready
  kernel thread; \<open>n\<close> process identifiers exist.\<close>

definition example_kernel :: "nat \<Rightarrow> kst" where
  "example_kernel n = \<lparr>kmem = example_kmem,
     threads = [0 \<mapsto> \<lparr>th_name = ''main'', th_stack = None, th_status = RUNNING, userRegisters = (\<lambda>_. 0), th_space = Some 2,
         th_cont = User, th_fresh = False, th_levels = []\<rparr>,
       1 \<mapsto> \<lparr>th_name = ''other'', th_stack = Some STACK_FENCEPOST, th_status = READY, userRegisters = (\<lambda>_. 0), th_space = None,
         th_cont = AfterYield, th_fresh = False, th_levels = [IntOn]\<rparr>],
     readyList = \<lparr>l_cells = [Some \<lparr>le_next = None, le_key = 0, le_item = 1\<rparr>], l_first = Some 0, l_last = Some 0\<rparr>,
     currentThread = 0, threadToBeDestroyed = None, level = IntOn, spaces = [2 \<mapsto> example_space\<lparr>as_pcb := Some 3\<rparr>],
     pcbs = [3 \<mapsto> PCB_set 0 None (PCB_new 0 None 0 0)],
     processManager = \<lparr>pm_map = \<lparr>numBits = int n, numWords = 1, bm_map = [1]\<rparr>, pcbTable = Some 3 # replicate (n - 1) None\<rparr>, next_obj = 4\<rparr>"

lemma example_kernel_ready: "List_inv (readyList (example_kernel n))" "ready (example_kernel n) = [1]"
  by (simp_all add: example_kernel_def ready_def List_inv_def List_chain_def List_addrs_def List_items_def List_elems_def
      cell_at_def elem_of_def)

lemma example_kernel_sel [simp]: "kmem (example_kernel n) = example_kmem" "BitMap_size (pm_map (processManager (example_kernel n))) = n"
  by (simp_all add: example_kernel_def BitMap_size_def)

lemma example_kernel_bits:
  assumes "0 < n" "n < 32"
  shows "BitMap_bits (pm_map (processManager (example_kernel n))) = {0}"
proof -
  have "x div 32 = 0" "x mod 32 = x" if "x < n" for x using that assms by auto
  then show ?thesis using assms(1) by (auto simp: example_kernel_def BitMap_bits_def bit_1_iff)
qed

lemma example_kernel_ok:
  assumes "0 < n" "n < 32"
  shows "kernel_ok (example_kernel n)"
proof -
  have "sched_ok (example_kernel n)"
    using example_kernel_ready [of n] by (simp add: sched_ok_def runnable_ok_def) (simp add: example_kernel_def)
  moreover have "pm_inv (processManager (example_kernel n))"
  proof -
    have "divRoundUp (int n) BitsInWord = 1" using assms by (simp add: divRoundUp_nonneg BitsInWord_def)
    then show ?thesis using assms(1) by (simp add: pm_inv_def BitMap_inv_def BitMap_size_def example_kernel_def)
  qed
  ultimately show ?thesis
    using example_kmem_ok by (simp add: kernel_ok_def objects_ok_def example_kernel_def)
qed

lemma example_kernel_process:
  "in_process (example_kernel n) 2 (example_space\<lparr>as_pcb := Some 3\<rparr>) 3 (PCB_set 0 None (PCB_new 0 None 0 0))"
proof -
  have "List_inv (pcb_children (PCB_set 0 None (PCB_new 0 None 0 0)))"
    by (simp add: PCB_set_def PCB_new_def)
  then show ?thesis using example_space_ok by (simp add: in_process_def example_kernel_def)
qed

lemma example_kernel_room:
  "unat (numPages (example_space\<lparr>as_pcb := Some 3\<rparr>)) \<le> mm_free (km_mm (kmem (example_kernel n)))"
  using example_free by (simp add: example_space_def)

theorem fork_creates_child_witness:
  "\<exists>st' t ct. sys_fork (\<lambda>_. 7) (example_kernel 10) = Inr st' \<and> ready st' = [1, t] \<and> threads st' t = Some ct \<and> userRegisters ct NextPCReg = 4"
proof -
  have "9 \<in> {..<BitMap_size (pm_map (processManager (example_kernel 10)))}" by simp
  then have p: "BitMap_bits (pm_map (processManager (example_kernel 10))) \<noteq> {..<BitMap_size (pm_map (processManager (example_kernel 10)))}"
    using example_kernel_bits [of 10] by force
  have ok: "kernel_ok (example_kernel 10)" by (rule example_kernel_ok) simp_all
  obtain st' t ct where f: "sys_fork (\<lambda>_. 7) (example_kernel 10) = Inr st'" "ready st' = ready (example_kernel 10) @ [t]"
      "threads st' t = Some ct" "\<forall>i < NumTotalRegs. userRegisters ct i = child_regs (registers (mach (example_kernel 10))) i"
    using fork_creates_child [OF ok example_kernel_process example_kernel_room p, of "\<lambda>_. 7"] by blast
  have "child_regs (registers (mach (example_kernel 10))) NextPCReg = 4"
    by (simp add: child_regs_def example_kmem_def reg_defs)
  then show ?thesis using f example_kernel_ready(2) [of 10] reg_bounds(2) by auto
qed

text \<open>C39: A Fork that finds no unused process identifier leaks memory. It has copied the address space by
  then; it returns -1 to the caller and leaves the scheduler, the process table and the PCBs
  as they were, but the frames of the copy, as many as the process has pages, stay
  allocated.\<close>

theorem fork_without_pid_leaks:
  assumes "kernel_ok st" "in_process st sp a cp b" "unat (numPages a) \<le> mm_free (km_mm (kmem st))"
    "BitMap_bits (pm_map (processManager st)) = {..<BitMap_size (pm_map (processManager st))}"
  shows "\<exists>st'. sys_fork junk st = Inr st' \<and> registers (mach st') = advanced ((registers (mach st))(2 := -1))
    \<and> ready st' = ready st \<and> processManager st' = processManager st \<and> pcbs st' = pcbs st
    \<and> mm_used (km_mm (kmem st)) \<subseteq> mm_used (km_mm (kmem st'))
    \<and> card (mm_used (km_mm (kmem st')) - mm_used (km_mm (kmem st))) = unat (numPages a)"
proof -
  let ?km = "kmem st"
  have inv: "km_ok ?km" "pm_inv (processManager st)" "objects_ok st" using assms(1) by (simp_all add: kernel_ok_def)
  obtain th where th: "threads st (currentThread st) = Some th" "th_space th = Some sp" "spaces st sp = Some a" "as_ok ?km a"
    by (rule in_processE [OF assms(2)])
  obtain a' km' where copy: "AddrSpace_copy a ?km = Inr (Some a', km')" "as_ok km' a'" "numPages a' = numPages a"
      "as_frames km' a' \<inter> mm_used (km_mm ?km) = {}" "mm_used (km_mm km') = mm_used (km_mm ?km) \<union> as_frames km' a'"
    using AddrSpace_copy_granted [OF inv(1) th(4) assms(3)] by metis
  have "mm_used (km_mm km') - mm_used (km_mm ?km) = as_frames km' a'" using copy(4,5) by blast
  then have card: "card (mm_used (km_mm km') - mm_used (km_mm ?km)) = unat (numPages a)"
    using as_frames_card [OF copy(2)] copy(3) by simp
  have lt: "currentThread st < next_obj st" "sp < next_obj st" using objects_lt [OF inv(3)] th by blast+
  note R = AddrSpace_copy_registers [OF copy(1)]
  have "\<exists>st'. sys_fork junk st = Inr st' \<and> registers (mach st') = advanced ((registers (mach st))(2 := -1))
    \<and> ready st' = ready st \<and> processManager st' = processManager st \<and> pcbs st' = pcbs st \<and> km_mm (kmem st') = km_mm km'"
    using lt th copy(1) R cur_pcb_ok [OF assms(2)] getPID_full [OF inv(2) assms(4)]
    by (simp add: sys_fork_def SaveUserState_spec [OF th(1)] cur_space_def get_space_def new_space_def Thread_new_def Let_def
        return_value_spec ready_def)
  then show ?thesis using card copy(5) by auto
qed

text \<open>C40: A process can abort the whole simulation. Kill with an identifier outside the process
  table, or Join with one past its end, fails the bitmap's range assertion instead of
  returning -1.\<close>

theorem bad_pid_aborts_kernel:
  assumes "pm_inv (processManager st)" "in_process st sp a cp b" "pid = sint (registers (mach st) 4)"
    "pid < 0 \<or> int (length (pcbTable (processManager st))) \<le> pid" "sint (registers (mach st) 2) \<in> {SC_Kill, SC_Join}"
  shows "ExceptionHandler junk fs_Open fuel idle SyscallException st =
    (if sint (registers (mach st) 2) = SC_Join \<and> pid < 0 then Inr (put_regs (advanced ((registers (mach st))(2 := -1))) st)
     else Inl AssertFail)"
proof -
  have "getProcess pid (processManager st) = Inl AssertFail"
    using getProcess_spec [OF assms(1)] assms(4) by auto
  then show ?thesis
    using assms(3,5) cur_pcb_ok [OF assms(2)]
    by (auto simp: ExceptionHandler_def sc_defs sys_kill_def sys_join_def Let_def return_value_spec)
qed

section \<open>Exec\<close>

text \<open>Exec skips the first instruction of the new program. Replacing the address space sets
  the program counters to 0 and 4, and the handler then advances them past the system call
  of the old program: the new program starts at address 4, after the call of its main
  function.\<close>

theorem exec_skips_first_instruction:
  assumes "sys_exec fs_Open st = Inr st'" "registers (mach st') 2 = 1"
  shows "registers (mach st') PCReg = 4 \<and> registers (mach st') NextPCReg = 8"
proof -
  obtain sp a ok a' km' where r: "AddrSpace_Replace fs_Open (sint (registers (mach st) 4)) a (kmem st) = Inr (ok, a', km')"
    and st': "st' = put_regs (advanced ((registers (km_machine km'))(2 := if ok then 1 else -1))) (st\<lparr>kmem := km', spaces := (spaces st)(sp \<mapsto> a')\<rparr>)"
    using assms(1) by (auto simp: sys_exec_def bindE_eq_Inr Let_def update_spec)
  have "ok" using assms(2) by (auto simp: st' advanced_def split: if_splits)
  then show ?thesis using Replace_success [of fs_Open _ a "kmem st" a' km'] r by (auto simp: st' advanced_def)
qed

theorem fork_without_pid_leaks_witness:
  "\<exists>st'. sys_fork (\<lambda>_. 0) (example_kernel 1) = Inr st' \<and> registers (mach st') 2 = -1
     \<and> card (mm_used (km_mm (kmem st')) - {3, 4, 9}) = 2"
proof -
  have "kernel_ok (example_kernel 1)" by (rule example_kernel_ok) simp_all
  moreover have "BitMap_bits (pm_map (processManager (example_kernel 1))) = {..<BitMap_size (pm_map (processManager (example_kernel 1)))}"
    using example_kernel_bits [of 1] by auto
  ultimately obtain st' where "sys_fork (\<lambda>_. 0) (example_kernel 1) = Inr st'"
      "registers (mach st') = advanced ((registers (mach (example_kernel 1)))(2 := -1))"
      "card (mm_used (km_mm (kmem st')) - mm_used (km_mm (kmem (example_kernel 1)))) = unat (numPages (example_space\<lparr>as_pcb := Some 3\<rparr>))"
    using fork_without_pid_leaks [OF _ example_kernel_process example_kernel_room, of 1 "\<lambda>_. 0"] by blast
  then show ?thesis by (simp add: advanced_def example_bits example_space_def)
qed

definition kill_50 :: kst where
  "kill_50 = put_regs ((\<lambda>_. 0)(2 := 11, 4 := 50)) (example_kernel 10)"

theorem bad_pid_aborts_kernel_witness:
  "ExceptionHandler (\<lambda>_. 0) (\<lambda>_. None) 0 Inr SyscallException kill_50 = Inl AssertFail"
proof -
  have "pm_inv (processManager kill_50)" using example_kernel_ok [of 10] by (simp add: kernel_ok_def kill_50_def)
  moreover have "in_process kill_50 2 (example_space\<lparr>as_pcb := Some 3\<rparr>) 3 (PCB_set 0 None (PCB_new 0 None 0 0))"
    using example_kernel_process [of 10] example_space_ok put_regs_memory(2) [of _ "example_kernel 10"]
    by (simp add: in_process_def kill_50_def)
  moreover have "int (length (pcbTable (processManager kill_50))) \<le> 50" by (simp add: kill_50_def example_kernel_def)
  ultimately show ?thesis
    using bad_pid_aborts_kernel [of kill_50 2 _ 3 _ 50] by (simp add: kill_50_def sc_defs)
qed

definition exec_kernel :: kst where
  "exec_kernel = (example_kernel 10)\<lparr>kmem := example_kmem\<lparr>km_machine := (km_machine example_kmem)\<lparr>
     mainMemory := (\<lambda>_. 0)\<rparr>\<rparr>\<rparr>"

lemma exec_kernel_succeeds:
  defines "a \<equiv> example_space\<lparr>as_pcb := Some 3\<rparr>"
  shows "\<exists>a' km'. AddrSpace_Replace (\<lambda>_. Some empty_executable) 0 a (kmem exec_kernel) = Inr (True, a', km')"
proof -
  let ?km = "kmem exec_kernel"
  define m where "m = (km_machine ?km)\<lparr>te_heap := (te_heap (km_machine ?km))(0 \<mapsto> [(fresh_entry 0 3)\<lparr>use_bit := True\<rparr>, fresh_entry 1 9])\<rparr>"
  define km where "km = ?km\<lparr>km_machine := m\<rparr>"
  have "ReadFileName_loop (Suc n) 0 a [] (km_machine ?km) = Inr (1, [0], m)" for n
    by (simp add: a_def m_def exec_kernel_def example_space_def example_kmem_def AddrSpace_Translate_def get_entry_def set_entry_def
        read_table_def fresh_entry_def size_defs Let_def fun_upd_twist)
  from this [of 127] have r: "ReadFileName 0 128 a (km_machine ?km) = Inr (1, [0], m)" by (simp add: ReadFileName_def)
  have c: "c_string 128 (km_junkb km) [0] = Inr []" unfolding km_def m_def by code_simp
  have "case load_header empty_executable km of Inr h \<Rightarrow> pages_of h = 8 \<and> \<not> 0 <s seg_size (code_seg h) \<and> \<not> 0 <s seg_size (initData h)
      | Inl _ \<Rightarrow> False"
    unfolding km_def m_def by code_simp
  then obtain h where h: "load_header empty_executable km = Inr h" "pages_of h = 8" "\<not> 0 <s seg_size (code_seg h)" "\<not> 0 <s seg_size (initData h)"
    by (auto split: sum.splits)
  have ok: "km_ok km" using example_kmem_ok by (auto simp: km_ok_def km_def m_def exec_kernel_def example_kmem_def)
  have free: "mm_free (km_mm km) = 29" "mm_inv (km_mm km)" "mm_used (km_mm km) = {3, 4, 9}"
    using example_free example_bits example_kmem_ok by (simp_all add: km_def exec_kernel_def km_ok_def)
  have ok_a: "as_ok km a"
    using free(3) by (simp add: as_ok_def table_of_def a_def example_space_def km_def m_def frames_of_def fresh_entry_def)
  have n: "unat (8 :: 32 word) \<le> mm_free (km_mm km) + unat (numPages a)" using free(1) by simp
  obtain km1 km2 km3 km4 where p: "ReleasePhysicalMemory a km = Inr km1" "delete_table (as_pageTable a) km1 = Inr km2"
    "new_table (unat (8 :: 32 word)) km2 = (km_next km, km3)" "InitializePageTable (a\<lparr>numPages := 8, as_pageTable := km_next km\<rparr>) km3 = Inr km4"
    by (rule Replace_pages [OF ok ok_a n refl])
  have "\<not> (29 :: 32 word) < 8 - numPages a" by (simp add: a_def example_space_def)
  then show ?thesis
    using r c h p MemoryManager_getFree_spec [OF free(2)] free(1) unfolding km_def
    by (simp add: AddrSpace_Replace_def load_segment_def InitRegisters_spec Let_def)
qed

theorem exec_skips_first_instruction_witness:
  "\<exists>st'. sys_exec (\<lambda>_. Some empty_executable) exec_kernel = Inr st' \<and> registers (mach st') PCReg = 4"
proof -
  have "in_process exec_kernel 2 (example_space\<lparr>as_pcb := Some 3\<rparr>) 3 (PCB_set 0 None (PCB_new 0 None 0 0))"
    using example_kernel_process [of 10]
    by (simp add: in_process_def exec_kernel_def as_ok_def table_of_def cong: option.case_cong)
  then have c: "cur_pcb exec_kernel = Inr (3, PCB_set 0 None (PCB_new 0 None 0 0))" "cur_space exec_kernel = Inr (2, example_space\<lparr>as_pcb := Some 3\<rparr>)"
    using cur_pcb_ok cur_space_ok by blast+
  have z: "registers (mach exec_kernel) 4 = 0" by (simp add: exec_kernel_def example_kmem_def)
  obtain st' where "sys_exec (\<lambda>_. Some empty_executable) exec_kernel = Inr st'" "registers (mach st') 2 = 1"
    using exec_kernel_succeeds c z by (auto simp: sys_exec_def Let_def update_spec advanced_def)
  then show ?thesis using exec_skips_first_instruction by blast
qed

section \<open>Exit\<close>

text \<open>The PCBs after the parent pointers of the given children were cleared.\<close>

definition orphaned :: "nat option list \<Rightarrow> (nat \<Rightarrow> PCB option) \<Rightarrow> nat \<Rightarrow> PCB option" where
  "orphaned kids P q = (if Some q \<in> set kids then map_option (\<lambda>b. b\<lparr>parent_process := None\<rparr>) (P q) else P q)"

lemma nullParent_all:
  assumes "\<forall>q \<in> set kids. \<exists>c. q = Some c \<and> pcbs st c \<noteq> None"
  shows "foldE nullParent kids st = Inr (st\<lparr>pcbs := orphaned kids (pcbs st)\<rparr>)"
  using assms
proof (induction kids arbitrary: st)
  case Nil
  have "orphaned [] (pcbs st) = pcbs st" by (simp add: orphaned_def fun_eq_iff)
  then show ?case by simp
next
  case (Cons q kids)
  obtain c b where c: "q = Some c" "pcbs st c = Some b" using Cons.prems by auto
  let ?s = "st\<lparr>pcbs := (pcbs st)(c \<mapsto> b\<lparr>parent_process := None\<rparr>)\<rparr>"
  have "nullParent q st = Inr ?s"
    using c by (simp add: nullParent_def get_pcb_def put_pcb_def PCB_set_def PCB_getID_def)
  moreover have "foldE nullParent kids ?s = Inr (?s\<lparr>pcbs := orphaned kids (pcbs ?s)\<rparr>)"
    using Cons.prems c by (intro Cons.IH) fastforce
  moreover have "orphaned kids (pcbs ?s) = orphaned (q # kids) (pcbs st)"
    using c by (auto simp: orphaned_def fun_eq_iff)
  ultimately show ?case by simp
qed

lemma orphan_children_spec:
  assumes "List_inv (pcb_children b)" "\<forall>q \<in> set (List_items (pcb_children b)). \<exists>c. q = Some c \<and> pcbs st c \<noteq> None"
  shows "orphan_children b st = Inr (st\<lparr>pcbs := orphaned (List_items (pcb_children b)) (pcbs st)\<rparr>)"
proof -
  have ch: "List_chain (pcb_children b)" using assms(1) by (simp add: List_inv_def)
  have "foldE nullParent (List_items (pcb_children b)) st = Inr (st\<lparr>pcbs := orphaned (List_items (pcb_children b)) (pcbs st)\<rparr>)"
    by (rule nullParent_all [OF assms(2)])
  then show ?thesis
    using List_Mapcar_spec [OF ch, of nullParent st] List_empty_iff [OF ch]
    by (auto simp: orphan_children_def PCB_getChildren_def Let_def List_items_addrs)
qed

lemma drop_pid_spec:
  assumes "pm_inv (processManager st)" "pm_live (processManager st) pid = Some p"
  obtains pm where "drop_pid pid st = Inr (st\<lparr>processManager := pm\<rparr>)" "pm_inv pm" "pm_live pm = (pm_live (processManager st))(pid := None)"
    "length (pcbTable pm) = length (pcbTable (processManager st))"
proof -
  let ?pm = "processManager st" and ?b = "pm_map (processManager st)"
  have inv: "BitMap_inv ?b" "length (pcbTable ?pm) = BitMap_size ?b" using assms(1) by (simp_all add: pm_inv_def)
  have pid: "0 \<le> pid" "nat pid \<in> BitMap_bits ?b" using assms(2) by (auto simp: pm_live_def split: if_splits)
  then have lt: "nat pid < BitMap_size ?b" using BitMap_bits_subset by blast
  obtain b' where b': "BitMap_Clear pid ?b = Inr b'" "BitMap_inv b'" "BitMap_size b' = BitMap_size ?b" "BitMap_bits b' = BitMap_bits ?b - {nat pid}"
    using BitMap_Clear_spec [OF inv(1), of pid] pid lt by (auto simp: nat_less_iff)
  define pm where "pm = ?pm\<lparr>pcbTable := (pcbTable ?pm)[nat pid := None], pm_map := b'\<rparr>"
  show thesis
  proof (rule that [of pm])
    show "drop_pid pid st = Inr (st\<lparr>processManager := pm\<rparr>)"
      using pid lt inv b' by (simp add: drop_pid_def removePCB_def clearPID_def table_set_def pm_def)
    show "pm_inv pm" using b' inv by (simp add: pm_inv_def pm_def)
    show "length (pcbTable pm) = length (pcbTable ?pm)" by (simp add: pm_def)
    show "pm_live pm = (pm_live ?pm)(pid := None)"
    proof
      fix q
      have "nat q \<noteq> nat pid" if "q \<noteq> pid" "0 \<le> q" using that pid(1) by simp
      then show "pm_live pm q = ((pm_live ?pm)(pid := None)) q"
        using b'(4) pid(2) by (cases "q = pid") (auto simp: pm_live_def pm_def)
    qed
  qed
qed

text \<open>
  The family of a process is in order: its children have PCBs of their own, and its parent, if
  it has one, is another process with a well-formed list of children.
\<close>

definition family_ok :: "('c, 'z) Nachos_scheme \<Rightarrow> nat \<Rightarrow> PCB \<Rightarrow> bool" where
  "family_ok st cp b \<longleftrightarrow> (\<forall>q \<in> set (List_items (pcb_children b)). \<exists>c. q = Some c \<and> c \<noteq> cp \<and> pcbs st c \<noteq> None)
     \<and> (\<forall>par. parent_process b = Some par \<longrightarrow> par \<noteq> cp \<and> (\<exists>pb. pcbs st par = Some pb \<and> List_chain (pcb_children pb)))"

text \<open>What leaving does to the PCBs of the family; \<open>code\<close> gives the exit value that the parent is left with.\<close>

definition left_family :: "nat \<Rightarrow> (PCB \<Rightarrow> int) \<Rightarrow> PCB \<Rightarrow> (nat \<Rightarrow> PCB option) \<Rightarrow> (nat \<Rightarrow> PCB option) \<Rightarrow> bool" where
  "left_family cp code b P P' \<longleftrightarrow> P' cp = None
     \<and> (\<forall>q. q \<noteq> cp \<longrightarrow> parent_process b \<noteq> Some q \<longrightarrow> P' q = orphaned (List_items (pcb_children b)) P q)
     \<and> (\<forall>par. parent_process b = Some par \<longrightarrow> (\<exists>pb l. orphaned (List_items (pcb_children b)) P par = Some pb
          \<and> P' par = Some (pb\<lparr>pcb_children := l, childExitValue := code pb\<rparr>)
          \<and> List_chain l \<and> List_elems l = remove_item (Some cp) (List_elems (pcb_children pb))))"

lemma tell_parent:
  assumes "family_ok st cp b" and P1: "P1 = orphaned (List_items (pcb_children b)) (pcbs st)" and s: "pcbs s = P1"
    and g: "\<And>pb. g pb = pb\<lparr>childExitValue := code pb\<rparr>" and code: "\<And>pb l. code (pb\<lparr>pcb_children := l\<rparr>) = code pb"
  obtains P2 where "(case PCB_getParent b of None \<Rightarrow> Inr s
            | Some par \<Rightarrow> bindE (get_pcb (Some par) s) (\<lambda>pb. bindE (PCB_removeChild (Some cp) pb) (\<lambda>(_, pb).
                Inr (put_pcb par (g pb) s)))) = Inr (s\<lparr>pcbs := P2\<rparr>)"
    "P2 cp = P1 cp" "left_family cp code b (pcbs st) (P2(cp := None))"
proof (cases "parent_process b")
  case None
  then show thesis using that [of P1] s P1 by (simp add: PCB_getParent_def left_family_def)
next
  case (Some par)
  obtain pb where pb: "pcbs st par = Some pb" "List_chain (pcb_children pb)" "par \<noteq> cp"
    using assms(1) Some by (auto simp: family_ok_def)
  obtain pb1 where pb1: "P1 par = Some pb1" "pcb_children pb1 = pcb_children pb" using pb(1) by (cases "Some par \<in> set (List_items (pcb_children b))") (auto simp: P1 orphaned_def)
  obtain r l where l: "List_RemoveElement (Some cp) (pcb_children pb) = Inr (r, l)" "List_elems l = remove_item (Some cp) (List_elems (pcb_children pb))" "List_chain l"
    using List_RemoveElement_spec [OF pb(2), of "Some cp"] by blast
  define pb2 where "pb2 = pb1\<lparr>pcb_children := l, childExitValue := code pb1\<rparr>"
  show thesis
  proof (rule that [of "P1(par \<mapsto> pb2)"])
    show "(case PCB_getParent b of None \<Rightarrow> Inr s
            | Some par \<Rightarrow> bindE (get_pcb (Some par) s) (\<lambda>pb. bindE (PCB_removeChild (Some cp) pb) (\<lambda>(_, pb).
                Inr (put_pcb par (g pb) s)))) = Inr (s\<lparr>pcbs := P1(par \<mapsto> pb2)\<rparr>)"
      using Some pb1 l s by (simp add: PCB_getParent_def get_pcb_def PCB_removeChild_def put_pcb_def pb2_def g code)
    show "(P1(par \<mapsto> pb2)) cp = P1 cp" using pb(3) by simp
    show "left_family cp code b (pcbs st) ((P1(par \<mapsto> pb2))(cp := None))"
      using Some pb(3) pb1 l P1 by (auto simp: left_family_def pb2_def)
  qed
qed

text \<open>Memory without an address space: its frames are released and its table is deleted.\<close>

definition left_memory :: "KMem \<Rightarrow> AddrSpace \<Rightarrow> MemoryManager \<Rightarrow> KMem" where
  "left_memory km a mm = km\<lparr>km_mm := mm, km_machine := (km_machine km)\<lparr>te_heap := (te_heap (km_machine km))(as_pageTable a := None)\<rparr>\<rparr>"

lemma release_delete_space:
  assumes "km_ok (kmem st)" "as_ok (kmem st) a" "spaces st sp = Some a"
  obtains mm where "release_space (Some sp) st = Inr (st\<lparr>kmem := (kmem st)\<lparr>km_mm := mm\<rparr>\<rparr>)"
    "\<And>s. kmem s = (kmem st)\<lparr>km_mm := mm\<rparr> \<Longrightarrow> spaces s = spaces st \<Longrightarrow>
       delete_space (Some sp) s = Inr (s\<lparr>kmem := left_memory (kmem st) a mm, spaces := (spaces st)(sp := None)\<rparr>)"
    "mm_inv mm" "mm_size mm = NumPhysPages" "mm_used mm = mm_used (km_mm (kmem st)) - as_frames (kmem st) a" "km_ok (left_memory (kmem st) a mm)"
proof -
  obtain mm where rel: "ReleasePhysicalMemory a (kmem st) = Inr ((kmem st)\<lparr>km_mm := mm\<rparr>)" "mm_inv mm" "mm_size mm = NumPhysPages"
      "mm_used mm = mm_used (km_mm (kmem st)) - as_frames (kmem st) a"
    by (rule ReleasePhysicalMemory_spec [OF assms(1,2)])
  obtain t where t: "te_heap (mach st) (as_pageTable a) = Some t" using as_okE [OF assms(2)] by (metis table_of_def)
  show thesis
  proof (rule that [of mm])
    show "delete_space (Some sp) s = Inr (s\<lparr>kmem := left_memory (kmem st) a mm, spaces := (spaces st)(sp := None)\<rparr>)"
      if "kmem s = (kmem st)\<lparr>km_mm := mm\<rparr>" "spaces s = spaces st" for s
      using that assms(3) t by (simp add: delete_space_def get_space_def AddrSpace_destroy_def delete_table_def read_table_def left_memory_def)
    show "km_ok (left_memory (kmem st) a mm)" using assms(1) rel(2,3) by (auto simp: km_ok_def left_memory_def)
  qed (use rel assms(3) in \<open>simp_all add: release_space_def get_space_def\<close>)
qed

lemma sys_exit_prefix:
  assumes k: "kernel_ok st" and ip: "in_process st sp a cp b" and fam: "family_ok st cp b"
    and live: "pm_live (processManager st) (PCB_getID b) = Some cp"
  obtains P pm mm where "sys_exit fuel idle st = Thread_Finish fuel idle Finished
       (st\<lparr>processManager := pm, pcbs := P, kmem := left_memory (kmem st) a mm, spaces := (spaces st)(sp := None)\<rparr>)"
    "left_family cp (\<lambda>_. sint (registers (mach st) 4)) b (pcbs st) P" "pm_inv pm"
    "pm_live pm = (pm_live (processManager st))(PCB_getID b := None)"
    "length (pcbTable pm) = length (pcbTable (processManager st))" "km_ok (left_memory (kmem st) a mm)" "mm_inv mm" "mm_size mm = NumPhysPages"
    "mm_used mm = mm_used (km_mm (kmem st)) - as_frames (kmem st) a"
proof -
  have inv: "km_ok (kmem st)" "pm_inv (processManager st)" using k by (simp_all add: kernel_ok_def)
  obtain th where th: "threads st (currentThread st) = Some th" "th_space th = Some sp" "spaces st sp = Some a" "as_ok (kmem st) a"
      "as_pcb a = Some cp" "pcbs st cp = Some b" "List_inv (pcb_children b)"
    by (rule in_processE [OF ip])
  define P1 where "P1 = orphaned (List_items (pcb_children b)) (pcbs st)"
  have "Some cp \<notin> set (List_items (pcb_children b))" using fam by (auto simp: family_ok_def)
  then have cp1: "P1 cp = Some b" using th(6) by (simp add: P1_def orphaned_def)
  have orph: "orphan_children b st = Inr (st\<lparr>pcbs := P1\<rparr>)"
    unfolding P1_def using fam by (intro orphan_children_spec [OF th(7)]) (auto simp: family_ok_def)
  obtain P2 where P2: "(case PCB_getParent b of None \<Rightarrow> Inr (st\<lparr>pcbs := P1\<rparr>)
            | Some par \<Rightarrow> bindE (get_pcb (Some par) (st\<lparr>pcbs := P1\<rparr>)) (\<lambda>pb. bindE (PCB_removeChild (Some cp) pb) (\<lambda>(_, pb).
                Inr (put_pcb par (PCB_setExit (sint (registers (mach st) 4)) pb) (st\<lparr>pcbs := P1\<rparr>))))) = Inr (st\<lparr>pcbs := P1, pcbs := P2\<rparr>)"
      "P2 cp = P1 cp" "left_family cp (\<lambda>_. sint (registers (mach st) 4)) b (pcbs st) (P2(cp := None))"
    by (rule tell_parent [OF fam P1_def, of "st\<lparr>pcbs := P1\<rparr>" "PCB_setExit (sint (registers (mach st) 4))" "\<lambda>_. sint (registers (mach st) 4)"]) (simp_all add: PCB_setExit_def)
  obtain pm where pm: "drop_pid (PCB_getID b) (st\<lparr>pcbs := P2\<rparr>) = Inr (st\<lparr>pcbs := P2, processManager := pm\<rparr>)" "pm_inv pm"
      "pm_live pm = (pm_live (processManager st))(PCB_getID b := None)" "length (pcbTable pm) = length (pcbTable (processManager st))"
    using drop_pid_spec [of "st\<lparr>pcbs := P2\<rparr>" "PCB_getID b" cp] inv(2) live by auto
  define s0 where "s0 = st\<lparr>pcbs := P2, processManager := pm\<rparr>"
  have s0: "kmem s0 = kmem st" "spaces s0 = spaces st" by (simp_all add: s0_def)
  obtain mm where rel: "release_space (Some sp) s0 = Inr (s0\<lparr>kmem := (kmem st)\<lparr>km_mm := mm\<rparr>\<rparr>)"
      "\<And>s :: kst. kmem s = (kmem st)\<lparr>km_mm := mm\<rparr> \<Longrightarrow> spaces s = spaces st \<Longrightarrow>
         delete_space (Some sp) s = Inr (s\<lparr>kmem := left_memory (kmem st) a mm, spaces := (spaces st)(sp := None)\<rparr>)"
      "mm_inv mm" "mm_size mm = NumPhysPages" "mm_used mm = mm_used (km_mm (kmem st)) - as_frames (kmem st) a" "km_ok (left_memory (kmem st) a mm)"
    using release_delete_space [of s0 a sp] inv(1) th(3,4) unfolding s0 by metis
  obtain kids where destr: "List_destroy (pcb_children b) = Inr kids" using List_destroy_spec [OF th(7)] by blast
  have "sys_exit fuel idle st = Thread_Finish fuel idle Finished
       (st\<lparr>processManager := pm, pcbs := P2(cp := None), kmem := left_memory (kmem st) a mm, spaces := (spaces st)(sp := None)\<rparr>)"
    using cur_pcb_ok [OF ip] cur_space_ok [OF ip] orph cp1 P2(1,2) pm(1) rel(1) destr
    by (simp add: sys_exit_def get_pcb_def Let_def s0_def delete_pcb_def PCB_destroy_def rel(2))
  then show thesis using that P2(3) pm(2-4) rel(3-6) by auto
qed

text \<open>C21: Exit gives back everything a process holds. When a process whose family is in order exits
  while another thread is ready, the system call succeeds whatever the fuel for waiting; the
  first ready thread runs and the scheduling invariant still holds. The process's frames
  are free again and no others, its identifier names no process any more and all others
  are unaffected, its PCB and address space are gone, its children have no parent, and its
  parent has the exit code and no longer lists it.\<close>

theorem exit_releases_process:
  assumes "kernel_ok st" "in_process st sp a cp b" "family_ok st cp b" "pm_live (processManager st) (PCB_getID b) = Some cp"
    "ready st = n # ts" "\<forall>t \<in> set (ready st). \<forall>th. threads st t = Some th \<longrightarrow> th_space th \<noteq> Some sp"
  shows "\<exists>st'. sys_exit (Suc fuel) idle st = Inr st' \<and> sched_ok st' \<and> currentThread st' = n \<and> ready st' = ts
    \<and> mm_used (km_mm (kmem st')) = mm_used (km_mm (kmem st)) - as_frames (kmem st) a
    \<and> pm_live (processManager st') = (pm_live (processManager st))(PCB_getID b := None) \<and> spaces st' = (spaces st)(sp := None)
    \<and> left_family cp (\<lambda>_. sint (registers (mach st) 4)) b (pcbs st) (pcbs st')"
proof -
  let ?c = "currentThread st"
  obtain P pm mm where e: "sys_exit (Suc fuel) idle st = Thread_Finish (Suc fuel) idle Finished
       (st\<lparr>processManager := pm, pcbs := P, kmem := left_memory (kmem st) a mm, spaces := (spaces st)(sp := None)\<rparr>)"
    "left_family cp (\<lambda>_. sint (registers (mach st) 4)) b (pcbs st) P" "pm_inv pm" "pm_live pm = (pm_live (processManager st))(PCB_getID b := None)"
    "mm_used mm = mm_used (km_mm (kmem st)) - as_frames (kmem st) a"
    by (rule sys_exit_prefix [OF assms(1-4), of "Suc fuel" idle]) blast
  define s where "s = st\<lparr>processManager := pm, pcbs := P, kmem := left_memory (kmem st) a mm, spaces := (spaces st)(sp := None)\<rparr>"
  have sch: "List_inv (readyList st)" "distinct (?c # n # ts)" "runnable_ok st ?c RUNNING" "\<forall>t \<in> set (n # ts). runnable_ok st t READY"
    using assms(1,5) by (auto simp: kernel_ok_def sched_ok_def)
  obtain th where th: "threads st ?c = Some th" "th_stack th \<in> {None, Some STACK_FENCEPOST}" by (rule runnable_okE [OF sch(3)])
  have rdy: "runnable_ok s t READY" if "t \<in> set (n # ts)" for t
    using that sch(4) assms(5,6) by (auto simp: runnable_ok_def s_def split: option.splits)
  obtain nt where nt: "threads s n = Some nt" "th_stack nt \<in> {None, Some STACK_FENCEPOST}" "\<forall>a. th_space nt = Some a \<longrightarrow> spaces s a \<noteq> None"
    using runnable_okE [OF rdy [of n]] by (metis list.set_intros(1))
  have s: "List_inv (readyList s)" "ready s = n # ts" "threads s (currentThread s) = Some th" "n \<noteq> currentThread s" "currentThread s = ?c"
    using sch(1,2) assms(5) th(1) by (auto simp: s_def ready_def)
  obtain s1 l where f: "Thread_Finish (Suc fuel) idle Finished s = Inr (s1\<lparr>currentThread := n,
      threads := switch_threads s1 (the (threads s1 (currentThread s))) n nt,
      kmem := switch_kmem s1 nt, threadToBeDestroyed := (if th_fresh nt then Some (currentThread s) else None),
      level := (if th_fresh nt then IntOn else IntOff)\<rparr>)" (is "_ = Inr ?s2")
    and s1: "s1 = s\<lparr>level := IntOff, threadToBeDestroyed := Some (currentThread s),
        threads := (threads s)(currentThread s \<mapsto> finishing Finished s th), readyList := l\<rparr>" and l: "List_inv l" "List_items l = ts"
    by (rule Thread_Finish_spec [OF s(1,2,3) th(2) nt(1) s(4) nt(3)])
  have at_t: "switch_threads s1 x n nt t = threads s t" if "t \<noteq> n" "t \<noteq> ?c" for t x
    using that switch_threads_other [of t n s1 nt x] by (simp add: s1 s(5))
  have at_n: "switch_threads s1 x n nt n = Some (nt\<lparr>th_status := RUNNING, th_fresh := False\<rparr>)" for x
    using s(4) by (intro switch_threads_new) (auto simp: s1)
  have at_c: "th_fresh nt \<Longrightarrow> switch_threads s1 x n nt ?c \<noteq> None" for x
    using s(4,5) by (simp add: switch_threads_def s1)
  have sel: "spaces ?s2 = spaces s" "currentThread ?s2 = n" "ready ?s2 = ts" "readyList ?s2 = l" using l(2) by (simp_all add: s1 ready_def)
  have run: "runnable_ok ?s2 n RUNNING"
    unfolding runnable_ok_def sel using nt at_n by (auto split: option.splits)
  have others: "runnable_ok ?s2 t READY" if "t \<in> set ts" for t
  proof -
    have "threads ?s2 t = threads s t" using that sch(2) at_t [of t] by auto
    then show ?thesis using rdy [of t] that unfolding runnable_ok_def sel by simp
  qed
  have "sched_ok ?s2"
    unfolding sched_ok_def sel using l(1) sch(2) run others at_c s(5) by auto
  moreover have "km_mm (switch_kmem s1 nt) = mm" by (simp add: switch_kmem_def s1 s_def left_memory_def split: option.splits)
  ultimately show ?thesis
    unfolding e(1) s_def [symmetric] f using e l by (auto simp: ready_def s1 s_def)
qed

theorem exit_releases_process_witness:
  "\<exists>st'. sys_exit 1 Inr (example_kernel 10) = Inr st' \<and> currentThread st' = 1 \<and> mm_used (km_mm (kmem st')) = {4}
     \<and> pm_live (processManager st') 0 = None"
proof -
  let ?b = "PCB_set 0 None (PCB_new 0 None 0 0)" and ?a = "example_space\<lparr>as_pcb := Some 3\<rparr>"
  have ok: "kernel_ok (example_kernel 10)" by (rule example_kernel_ok) simp_all
  have fam: "family_ok (example_kernel 10) 3 ?b"
    by (simp add: family_ok_def PCB_set_def PCB_new_def List_items_def)
  have live: "pm_live (processManager (example_kernel 10)) (PCB_getID ?b) = Some 3"
    using example_kernel_bits [of 10] by (simp add: pm_live_def PCB_getID_def PCB_set_def) (simp add: example_kernel_def)
  have alone: "\<forall>t \<in> set (ready (example_kernel 10)). \<forall>th. threads (example_kernel 10) t = Some th \<longrightarrow> th_space th \<noteq> Some 2"
    unfolding example_kernel_ready by (simp add: example_kernel_def)
  have "as_frames example_kmem ?a = {3, 9}"
    unfolding as_pcb_irrelevant by (simp add: as_frames_def example_table frames_of_def fresh_entry_def)
  then show ?thesis
    using exit_releases_process [OF ok example_kernel_process fam live example_kernel_ready(2) alone, of 0 Inr] example_bits
    by (auto simp: PCB_getID_def PCB_set_def)
qed

section \<open>System calls that are not implemented\<close>

fun thread_steps :: "nat \<Rightarrow> (nat \<Rightarrow> 32 word) \<Rightarrow> (byte list \<Rightarrow> byte list option) \<Rightarrow> nat \<Rightarrow> (kst \<Rightarrow> kst res) \<Rightarrow> kst \<Rightarrow> kst res" where
  "thread_steps 0 junk fs_Open fuel idle st = Inr st"
| "thread_steps (Suc n) junk fs_Open fuel idle st = bindE (thread_step junk fs_Open fuel idle st) (thread_steps n junk fs_Open fuel idle)"

text \<open>The handler does nothing for Create, Open, Read, Write and Close, and in particular does not
  advance the program counter: a process that makes one of these calls repeats it forever.
  After any number of steps it is at the same instruction, memory and ready list
  unchanged.\<close>

theorem unimplemented_syscall_repeats:
  assumes "threads st (currentThread st) = Some th" "th_cont th = User" "cpu_inv (mach st)" "fetched (mach st) = Some i"
    "opCode i = OP_SYSCALL" "registers (mach st) LoadReg = 0"
    "sint (registers (mach st) 2) \<in> {SC_Create, SC_Open, SC_Read, SC_Write, SC_Close}"
  shows "\<exists>st'. thread_steps n junk fs_Open fuel idle st = Inr st' \<and> currentThread st' = currentThread st \<and> ready st' = ready st
    \<and> registers (mach st') PCReg = registers (mach st) PCReg \<and> mainMemory (mach st') = mainMemory (mach st)"
  using assms
proof (induction n arbitrary: st)
  case (Suc n)
  obtain m' where m': "OneInstruction (mach st) = Inr (Some (SyscallException, 0), m')" "cpu_inv m'" "fetched m' = Some i"
    "registers m' LoadReg = 0" "registers m' PCReg = registers (mach st) PCReg" "registers m' 2 = registers (mach st) 2"
    "mainMemory m' = mainMemory (mach st)"
    by (rule syscall_traps [OF Suc.prems(3-6)])
  have "thread_step junk fs_Open fuel idle st = Inr (put_machine m' st)"
    using Suc.prems m'(1,6) by (auto simp: thread_step_def Run_step_def ExceptionHandler_def)
  then show ?case
    using Suc.IH [of "put_machine m' st"] Suc.prems m' by (simp add: ready_def)
qed simp

definition reading_kernel :: kst where
  "reading_kernel = put_machine (syscall_machine\<lparr>registers := (\<lambda>_. 0)(2 := 6)\<rparr>) (example_kernel 10)"

theorem unimplemented_syscall_repeats_witness:
  "\<exists>st'. thread_steps 1000 (\<lambda>_. 0) (\<lambda>_. None) 0 Inr reading_kernel = Inr st' \<and> registers (mach st') PCReg = 0"
proof -
  have "case fetched (mach reading_kernel) of Some i \<Rightarrow> opCode i = OP_SYSCALL | None \<Rightarrow> False" by code_simp
  then obtain i where "fetched (mach reading_kernel) = Some i" "opCode i = OP_SYSCALL" by (auto split: option.splits)
  moreover have "cpu_inv (mach reading_kernel)"
    by (simp add: reading_kernel_def cpu_inv_def tables_ok_def syscall_machine_def example_machine_def reg_defs)
  moreover have "threads reading_kernel (currentThread reading_kernel) = Some \<lparr>th_name = ''main'', th_stack = None, th_status = RUNNING,
      userRegisters = (\<lambda>_. 0), th_space = Some 2, th_cont = User, th_fresh = False, th_levels = []\<rparr>"
    by (simp add: reading_kernel_def example_kernel_def)
  moreover have "registers (mach reading_kernel) = (\<lambda>_. 0)(2 := 6)" by (simp add: reading_kernel_def)
  ultimately show ?thesis
    using unimplemented_syscall_repeats [of reading_kernel _ i 1000 "\<lambda>_. 0" "\<lambda>_. None" 0 Inr] by (auto simp: reg_defs sc_defs)
qed

end
