(* ===== verification/Interrupt.thy ===== *)
theory Interrupt
  imports ThreadInterface
begin

text \<open>
  The simulation of interrupts and of time: \<^verbatim>\<open>machine/interrupt.cc\<close>,
  \<^verbatim>\<open>machine/stats.cc\<close> and \<^verbatim>\<open>machine/timer.cc\<close>. The clock advances when
  interrupts are enabled, when a user instruction has been executed, and when the machine is
  idle; the pending interrupts are a list sorted by time. The locale
  \<^verbatim>\<open>interrupt_handlers\<close> is the contract of the handlers of the devices, under which the
  loops of the simulation end and fire each interrupt once and in time.
\<close>

section \<open>Statistics and interrupts\<close>

record Statistics =
  totalTicks :: int
  idleTicks :: int
  systemTicks :: int
  userTicks :: int
  numDiskReads :: int
  numDiskWrites :: int
  numConsoleCharsRead :: int
  numConsoleCharsWritten :: int
  numPageFaults :: int
  numPacketsSent :: int
  numPacketsRecvd :: int

definition Statistics_new :: Statistics where
  "Statistics_new = \<lparr>totalTicks = 0, idleTicks = 0, systemTicks = 0, userTicks = 0, numDiskReads = 0, numDiskWrites = 0,
     numConsoleCharsRead = 0, numConsoleCharsWritten = 0, numPageFaults = 0, numPacketsSent = 0, numPacketsRecvd = 0\<rparr>"

definition UserTick :: int where "UserTick = 1"
definition SystemTick :: int where "SystemTick = 10"
definition RotationTime :: int where "RotationTime = 500"
definition SeekTime :: int where "SeekTime = 500"
definition ConsoleTime :: int where "ConsoleTime = 100"
definition NetworkTime :: int where "NetworkTime = 100"
definition TimerTicks :: int where "TimerTicks = 100"

lemmas tick_defs = UserTick_def SystemTick_def RotationTime_def SeekTime_def ConsoleTime_def NetworkTime_def TimerTicks_def

datatype MachineStatus = IdleMode | SystemMode | UserMode

datatype IntType = TimerInt | DiskInt | ConsoleWriteInt | ConsoleReadInt | NetworkSendInt | NetworkRecvInt

record 'h PendingInterrupt =
  pi_handler :: 'h
  pi_arg :: int
  pi_when :: int
  pi_type :: IntType

definition PendingInterrupt_new :: "'h \<Rightarrow> int \<Rightarrow> int \<Rightarrow> IntType \<Rightarrow> 'h PendingInterrupt" where
  "PendingInterrupt_new func param t kind = \<lparr>pi_handler = func, pi_arg = param, pi_when = t, pi_type = kind\<rparr>"

text \<open>
  The simulated machine: the kernel state, whose field \<open>level\<close> is the interrupt level, with
  the other fields of \<^verbatim>\<open>Interrupt\<close> and the statistics, which hold the clock. A function
  pointer to a handler is a value of a type \<open>'h\<close>; the argument \<open>call\<close> of the operations below says
  what calling it does.
\<close>

record ('c, 'h) Sim = "'c Nachos" +
  pending :: "'h PendingInterrupt nlist"
  inHandler :: bool
  yieldOnReturn :: bool
  status :: MachineStatus
  stats :: Statistics

definition Interrupt_new :: "('c, 'h, 'z) Sim_scheme \<Rightarrow> ('c, 'h, 'z) Sim_scheme" where
  "Interrupt_new st = st\<lparr>level := IntOff, pending := List_new, inHandler := False, yieldOnReturn := False, status := SystemMode\<rparr>"

fun drop_pending :: "nat \<Rightarrow> 'h PendingInterrupt nlist \<Rightarrow> ('h PendingInterrupt nlist) res" where
  "drop_pending 0 l = Inl OutOfFuel"
| "drop_pending (Suc n) l = (if List_IsEmpty l then Inr l else bindE (List_Remove l) (\<lambda>(_, l). drop_pending n l))"

definition Interrupt_destroy :: "('c, 'h, 'z) Sim_scheme \<Rightarrow> unit res" where
  "Interrupt_destroy st = bindE (drop_pending (Suc (length (l_cells (pending st)))) (pending st)) (\<lambda>l.
     bindE (List_destroy l) (\<lambda>_. Inr ()))"

definition ChangeLevel :: "IntStatus \<Rightarrow> IntStatus \<Rightarrow> ('c, 'h, 'z) Sim_scheme \<Rightarrow> ('c, 'h, 'z) Sim_scheme" where
  "ChangeLevel old now st = st\<lparr>level := now\<rparr>"

text \<open>\<^verbatim>\<open>Schedule\<close> puts the interrupt on the list sorted by time.\<close>

definition Schedule :: "'h \<Rightarrow> int \<Rightarrow> int \<Rightarrow> IntType \<Rightarrow> ('c, 'h, 'z) Sim_scheme \<Rightarrow> (('c, 'h, 'z) Sim_scheme) res" where
  "Schedule handler arg fromNow type st =
     (let when = totalTicks (stats st) + fromNow;
          toOccur = PendingInterrupt_new handler arg when type in
      bindE (assertE (fromNow > 0)) (\<lambda>_.
      bindE (List_SortedInsert toOccur when (pending st)) (\<lambda>l. Inr (st\<lparr>pending := l\<rparr>))))"

text \<open>
  \<^verbatim>\<open>CheckIfDue\<close> takes the first pending interrupt, puts it back when it is not time yet,
  or when only the timer would keep an idle machine alive, and otherwise calls its handler. The
  call of \<^verbatim>\<open>DelayedLoad\<close> is that of the builds with \<^verbatim>\<open>USER_PROGRAM\<close>.
\<close>

definition put_back :: "'h PendingInterrupt \<Rightarrow> int \<Rightarrow> ('c, 'h, 'z) Sim_scheme \<Rightarrow> (bool \<times> ('c, 'h, 'z) Sim_scheme) res" where
  "put_back toOccur when st = bindE (List_SortedInsert toOccur when (pending st)) (\<lambda>l. Inr (False, st\<lparr>pending := l\<rparr>))"

definition invoke :: "('h \<Rightarrow> int \<Rightarrow> ('c, 'h, 'z) Sim_scheme \<Rightarrow> (('c, 'h, 'z) Sim_scheme) res) \<Rightarrow> 'h PendingInterrupt
    \<Rightarrow> ('c, 'h, 'z) Sim_scheme \<Rightarrow> (('c, 'h, 'z) Sim_scheme) res" where
  "invoke call toOccur st =
     (let old = status st in
      bindE (DelayedLoad 0 0 (mach st)) (\<lambda>m.
      bindE (call (pi_handler toOccur) (pi_arg toOccur)
          (st\<lparr>kmem := (kmem st)\<lparr>km_machine := m\<rparr>, inHandler := True, status := SystemMode\<rparr>)) (\<lambda>st.
      Inr (st\<lparr>inHandler := False, status := old\<rparr>))))"

definition CheckIfDue :: "('h \<Rightarrow> int \<Rightarrow> ('c, 'h, 'z) Sim_scheme \<Rightarrow> (('c, 'h, 'z) Sim_scheme) res) \<Rightarrow> bool
    \<Rightarrow> ('c, 'h, 'z) Sim_scheme \<Rightarrow> (bool \<times> ('c, 'h, 'z) Sim_scheme) res" where
  "CheckIfDue call advanceClock st =
     bindE (assertE (level st = IntOff)) (\<lambda>_.
     bindE (List_SortedRemove (pending st)) (\<lambda>(r, l).
     let st = st\<lparr>pending := l\<rparr>; now = totalTicks (stats st) in
     case r of
       None \<Rightarrow> Inr (False, st)
     | Some (when, toOccur) \<Rightarrow>
         if \<not> advanceClock \<and> when > now then put_back toOccur when st
         else
           let st = (if when > now
                     then st\<lparr>stats := (stats st)\<lparr>idleTicks := idleTicks (stats st) + (when - now), totalTicks := when\<rparr>\<rparr>
                     else st) in
           if status st = IdleMode \<and> pi_type toOccur = TimerInt \<and> List_IsEmpty (pending st) then put_back toOccur when st
           else bindE (invoke call toOccur st) (\<lambda>st. Inr (True, st))))"

fun due_loop :: "nat \<Rightarrow> ('h \<Rightarrow> int \<Rightarrow> ('c, 'h, 'z) Sim_scheme \<Rightarrow> (('c, 'h, 'z) Sim_scheme) res)
    \<Rightarrow> ('c, 'h, 'z) Sim_scheme \<Rightarrow> (('c, 'h, 'z) Sim_scheme) res" where
  "due_loop 0 call st = Inl OutOfFuel"
| "due_loop (Suc n) call st = bindE (CheckIfDue call False st) (\<lambda>(fired, st). if fired then due_loop n call st else Inr st)"

text \<open>
  \<^verbatim>\<open>OneTick\<close> ends in \<^verbatim>\<open>Yield\<close> when a handler asked for it; \<open>after\<close> gives the
  continuation of the thread, which resumes with \<open>OneTick_resume\<close>.
\<close>

definition advance_clock :: "('c, 'h, 'z) Sim_scheme \<Rightarrow> ('c, 'h, 'z) Sim_scheme" where
  "advance_clock st =
     (let s = stats st in
      if status st = SystemMode
      then st\<lparr>stats := s\<lparr>totalTicks := totalTicks s + SystemTick, systemTicks := systemTicks s + SystemTick\<rparr>\<rparr>
      else st\<lparr>stats := s\<lparr>totalTicks := totalTicks s + UserTick, userTicks := userTicks s + UserTick\<rparr>\<rparr>)"

definition OneTick :: "nat \<Rightarrow> ('h \<Rightarrow> int \<Rightarrow> ('c, 'h, 'z) Sim_scheme \<Rightarrow> (('c, 'h, 'z) Sim_scheme) res) \<Rightarrow> (MachineStatus \<Rightarrow> 'c)
    \<Rightarrow> ('c, 'h, 'z) Sim_scheme \<Rightarrow> (('c, 'h, 'z) Sim_scheme) res" where
  "OneTick fuel call after st =
     (let old = status st in
      bindE (due_loop fuel call (ChangeLevel IntOn IntOff (advance_clock st))) (\<lambda>st.
      let st = ChangeLevel IntOff IntOn st in
      if yieldOnReturn st then Thread_Yield (after old) (st\<lparr>yieldOnReturn := False, status := SystemMode\<rparr>) else Inr st))"

definition OneTick_resume :: "MachineStatus \<Rightarrow> 'c \<Rightarrow> ('c, 'h, 'z) Sim_scheme \<Rightarrow> (('c, 'h, 'z) Sim_scheme) res" where
  "OneTick_resume old k st = bindE (restore st) (\<lambda>st. set_cont k (st\<lparr>status := old\<rparr>))"

definition SetLevel :: "nat \<Rightarrow> ('h \<Rightarrow> int \<Rightarrow> ('c, 'h, 'z) Sim_scheme \<Rightarrow> (('c, 'h, 'z) Sim_scheme) res) \<Rightarrow> (MachineStatus \<Rightarrow> 'c)
    \<Rightarrow> IntStatus \<Rightarrow> ('c, 'h, 'z) Sim_scheme \<Rightarrow> (IntStatus \<times> ('c, 'h, 'z) Sim_scheme) res" where
  "SetLevel fuel call after now st =
     (let old = level st in
      bindE (assertE (now = IntOff \<or> \<not> inHandler st)) (\<lambda>_.
      let st = ChangeLevel old now st in
      bindE (if now = IntOn \<and> old = IntOff then OneTick fuel call after st else Inr st) (\<lambda>st. Inr (old, st))))"

definition Interrupt_Enable :: "nat \<Rightarrow> ('h \<Rightarrow> int \<Rightarrow> ('c, 'h, 'z) Sim_scheme \<Rightarrow> (('c, 'h, 'z) Sim_scheme) res) \<Rightarrow> (MachineStatus \<Rightarrow> 'c)
    \<Rightarrow> ('c, 'h, 'z) Sim_scheme \<Rightarrow> (('c, 'h, 'z) Sim_scheme) res" where
  "Interrupt_Enable fuel call after st = bindE (SetLevel fuel call after IntOn st) (\<lambda>(_, st). Inr st)"

definition YieldOnReturn :: "('c, 'h, 'z) Sim_scheme \<Rightarrow> (('c, 'h, 'z) Sim_scheme) res" where
  "YieldOnReturn st = bindE (assertE (inHandler st)) (\<lambda>_. Inr (st\<lparr>yieldOnReturn := True\<rparr>))"

definition Interrupt_Halt :: "('c, 'h, 'z) Sim_scheme \<Rightarrow> (('c, 'h, 'z) Sim_scheme) res" where
  "Interrupt_Halt st = Inl Halted"

definition Interrupt_Idle :: "nat \<Rightarrow> ('h \<Rightarrow> int \<Rightarrow> ('c, 'h, 'z) Sim_scheme \<Rightarrow> (('c, 'h, 'z) Sim_scheme) res)
    \<Rightarrow> ('c, 'h, 'z) Sim_scheme \<Rightarrow> (('c, 'h, 'z) Sim_scheme) res" where
  "Interrupt_Idle fuel call st =
     bindE (CheckIfDue call True (st\<lparr>status := IdleMode\<rparr>)) (\<lambda>(fired, st).
     if fired then bindE (due_loop fuel call st) (\<lambda>st. Inr (st\<lparr>yieldOnReturn := False, status := SystemMode\<rparr>))
     else Interrupt_Halt st)"

text \<open>What \<^verbatim>\<open>DumpState\<close> prints: the time, the interrupt level and the pending interrupts.\<close>

definition PrintPending :: "'h PendingInterrupt \<Rightarrow> (IntType \<times> int) list \<Rightarrow> ((IntType \<times> int) list) res" where
  "PrintPending pend out = Inr (out @ [(pi_type pend, pi_when pend)])"

definition Interrupt_DumpState :: "('c, 'h, 'z) Sim_scheme \<Rightarrow> (int \<times> IntStatus \<times> (IntType \<times> int) list) res" where
  "Interrupt_DumpState st = bindE (List_Mapcar PrintPending (pending st) []) (\<lambda>out. Inr (totalTicks (stats st), level st, out))"

section \<open>The timer device\<close>

text \<open>\<^verbatim>\<open>Random\<close> is the host's generator: its next value \<open>rnd\<close> is an argument.\<close>

record Timer =
  randomize :: bool

definition TimeOfNextInterrupt :: "int \<Rightarrow> Timer \<Rightarrow> int" where
  "TimeOfNextInterrupt rnd t = (if randomize t then 1 + rnd mod (TimerTicks * 2) else TimerTicks)"

definition Timer_new :: "'h \<Rightarrow> int \<Rightarrow> int \<Rightarrow> bool \<Rightarrow> ('c, 'h, 'z) Sim_scheme \<Rightarrow> (Timer \<times> ('c, 'h, 'z) Sim_scheme) res" where
  "Timer_new TimerHandler this rnd doRandom st =
     (let t = \<lparr>randomize = doRandom\<rparr> in
      bindE (Schedule TimerHandler this (TimeOfNextInterrupt rnd t) TimerInt st) (\<lambda>st. Inr (t, st)))"

definition TimerInterruptHandler :: "('c, 'h, 'z) Sim_scheme \<Rightarrow> (('c, 'h, 'z) Sim_scheme) res" where
  "TimerInterruptHandler st = (if status st \<noteq> IdleMode then YieldOnReturn st else Inr st)"

definition TimerExpired :: "'h \<Rightarrow> int \<Rightarrow> int \<Rightarrow> Timer \<Rightarrow> ('c, 'h, 'z) Sim_scheme \<Rightarrow> (('c, 'h, 'z) Sim_scheme) res" where
  "TimerExpired TimerHandler this rnd t st =
     bindE (Schedule TimerHandler this (TimeOfNextInterrupt rnd t) TimerInt st) TimerInterruptHandler"

section \<open>The pending list\<close>

text \<open>The pending interrupts in the order in which they fire, and those of them that are due.\<close>

abbreviation now :: "('c, 'h, 'z) Sim_scheme \<Rightarrow> int" where
  "now st \<equiv> totalTicks (stats st)"

definition due :: "('c, 'h, 'z) Sim_scheme \<Rightarrow> 'h PendingInterrupt list" where
  "due st = map snd (takeWhile (\<lambda>e. fst e \<le> now st) (List_elems (pending st)))"

text \<open>The list is sorted, its keys are the times of the interrupts, and \<^verbatim>\<open>DelayedLoad\<close> finds
  a register.\<close>

definition int_ok :: "('c, 'h, 'z) Sim_scheme \<Rightarrow> bool" where
  "int_ok st \<longleftrightarrow> List_inv (pending st) \<and> sorted (map fst (List_elems (pending st)))
     \<and> (\<forall>(k, p) \<in> set (List_elems (pending st)). k = pi_when p) \<and> unat (registers (mach st) LoadReg) < NumTotalRegs"

lemma sorted_ins_behind:
  assumes "\<forall>e \<in> set ds. fst e \<le> n" "n < k"
  shows "sorted_ins k x (ds @ rs) = ds @ sorted_ins k x rs"
proof -
  have "\<forall>e \<in> set ds. fst e \<le> k" using assms by fastforce
  then show ?thesis by (simp add: sorted_ins_def)
qed

lemma takeWhile_due:
  assumes "\<forall>e \<in> set new. n < fst e" "sorted (map fst es)"
  shows "takeWhile (\<lambda>e. fst e \<le> n) (fold (\<lambda>(k, x). sorted_ins k x) new es) = takeWhile (\<lambda>e. fst e \<le> n) es"
  using assms
proof (induction new arbitrary: es)
  case (Cons e new)
  obtain k x where e: "e = (k, x)" by (cases e)
  let ?ds = "takeWhile (\<lambda>e. fst e \<le> n) es" and ?rs = "dropWhile (\<lambda>e. fst e \<le> n) es"
  have ds: "\<forall>e \<in> set ?ds. fst e \<le> n" using set_takeWhileD by fast
  have rs: "\<forall>e \<in> set ?rs. n < fst e" using sorted_dropWhile_le [OF Cons.prems(2)] by blast
  have "sorted_ins k x es = ?ds @ sorted_ins k x ?rs"
    using sorted_ins_behind [OF ds, of k x ?rs] Cons.prems(1) e by simp
  moreover have "\<forall>e \<in> set (sorted_ins k x ?rs). n < fst e"
    using rs Cons.prems(1) e by (auto simp: sorted_ins_def dest: set_takeWhileD set_dropWhileD)
  then have "takeWhile (\<lambda>e. fst e \<le> n) (sorted_ins k x ?rs) = []"
    by (cases "sorted_ins k x ?rs") auto
  ultimately have "takeWhile (\<lambda>e. fst e \<le> n) (sorted_ins k x es) = ?ds"
    using ds by (simp add: takeWhile_append2)
  then show ?case
    using Cons.IH [of "sorted_ins k x es"] Cons.prems sorted_sorted_ins [OF Cons.prems(2), of k x] e by simp
qed simp

lemma due_Nil: "int_ok st \<Longrightarrow> due st = [] \<longleftrightarrow> (\<forall>(k, p) \<in> set (List_elems (pending st)). now st < k)"
  using sorted_dropWhile_le [of "List_elems (pending st)" _ "now st"]
  by (cases "List_elems (pending st)") (auto simp: due_def int_ok_def)

lemma Schedule_ok:
  assumes "int_ok st" "0 < fromNow"
  obtains l where "Schedule h a fromNow ty st = Inr (st\<lparr>pending := l\<rparr>)" "List_inv l"
    "List_elems l = sorted_ins (now st + fromNow) (PendingInterrupt_new h a (now st + fromNow) ty) (List_elems (pending st))"
proof -
  have "List_inv (pending st)" using assms(1) by (simp add: int_ok_def)
  from list_sorted.ins_ok [OF this, of "PendingInterrupt_new h a (now st + fromNow) ty" "now st + fromNow"] obtain l
    where "List_SortedInsert (PendingInterrupt_new h a (now st + fromNow) ty) (now st + fromNow) (pending st) = Inr l" "List_inv l"
      "List_elems l = sorted_ins (now st + fromNow) (PendingInterrupt_new h a (now st + fromNow) ty) (List_elems (pending st))" by blast
  then show thesis using that assms(2) by (simp add: Schedule_def Let_def)
qed

text \<open>Taking the first interrupt off the list, and calling its handler.\<close>

definition fire :: "('h \<Rightarrow> int \<Rightarrow> ('c, 'h, 'z) Sim_scheme \<Rightarrow> (('c, 'h, 'z) Sim_scheme) res) \<Rightarrow> 'h PendingInterrupt
    \<Rightarrow> ('c, 'h, 'z) Sim_scheme \<Rightarrow> (('c, 'h, 'z) Sim_scheme) res" where
  "fire call p st = bindE (List_SortedRemove (pending st)) (\<lambda>(_, l). invoke call p (st\<lparr>pending := l\<rparr>))"

text \<open>An idle machine does not fire a timer interrupt that is the only one.\<close>

definition lone_timer :: "('c, 'h, 'z) Sim_scheme \<Rightarrow> bool" where
  "lone_timer st \<longleftrightarrow> status st = IdleMode \<and> map (pi_type \<circ> snd) (List_elems (pending st)) = [TimerInt]"

lemma CheckIfDue_fires:
  assumes "int_ok st" "level st = IntOff" "\<not> lone_timer st" "due st = p # ps"
  shows "CheckIfDue call False st = bindE (fire call p st) (\<lambda>st. Inr (True, st))"
proof -
  obtain k es where es: "List_elems (pending st) = (k, p) # es" "k \<le> now st"
    using assms(4) by (cases "List_elems (pending st)") (auto simp: due_def split: if_splits)
  moreover obtain l where "List_SortedRemove (pending st) = Inr (Some (k, p), l)" "List_inv l" "List_elems l = es"
    using list_sorted.rem_ok [OF _ es(1)] assms(1) by (auto simp: int_ok_def)
  ultimately show ?thesis
    using assms(2,3) by (auto simp: CheckIfDue_def fire_def Let_def lone_timer_def List_IsEmpty_iff)
qed

lemma CheckIfDue_waits:
  assumes "int_ok st" "level st = IntOff" "due st = []"
  obtains l where "CheckIfDue call False st = Inr (False, st\<lparr>pending := l\<rparr>)" "int_ok (st\<lparr>pending := l\<rparr>)"
    "mset (List_elems l) = mset (List_elems (pending st))"
proof (cases "List_elems (pending st)")
  case Nil
  then have "List_SortedRemove (pending st) = Inr (None, pending st)"
    using list_sorted.rem_empty assms(1) by (auto simp: int_ok_def)
  then show thesis using that [of "pending st"] assms by (simp add: CheckIfDue_def)
next
  case (Cons e es)
  obtain k p where e: "e = (k, p)" by (cases e)
  have inv: "List_inv (pending st)" using assms(1) by (simp add: int_ok_def)
  obtain l1 where l1: "List_SortedRemove (pending st) = Inr (Some (k, p), l1)" "List_inv l1" "List_elems l1 = es"
    using list_sorted.rem_ok [OF inv Cons] e by auto
  obtain l where l: "List_SortedInsert p k l1 = Inr l" "List_inv l" "List_elems l = sorted_ins k p es"
    using list_sorted.ins_ok [OF l1(2)] l1(3) by auto
  have k: "now st < k" using assms(1,3) Cons e due_Nil by fastforce
  then have "CheckIfDue call False st = Inr (False, st\<lparr>pending := l\<rparr>)"
    using l1(1) l(1) assms(2) by (simp add: CheckIfDue_def put_back_def Let_def)
  moreover have m: "mset (List_elems l) = mset (List_elems (pending st))"
    using l(3) Cons e by (simp add: mset_sorted_ins)
  moreover have "sorted (map fst (List_elems l))"
    using l(3) assms(1) Cons sorted_sorted_ins by (fastforce simp: int_ok_def)
  then have "int_ok (st\<lparr>pending := l\<rparr>)"
    using assms(1) l(2) mset_eq_setD [OF m] by (simp add: int_ok_def)
  ultimately show thesis using that by blast
qed

lemma CheckIfDue_keeps_timer:
  assumes "int_ok st" "level st = IntOff" "lone_timer st" "adv \<or> due st \<noteq> []"
  obtains l x where "CheckIfDue call adv st = Inr (False, st\<lparr>pending := l, stats := x\<rparr>)" "int_ok (st\<lparr>pending := l, stats := x\<rparr>)"
    "\<not> adv \<longrightarrow> x = stats st" "List_elems l = List_elems (pending st)"
proof -
  obtain k p where e: "List_elems (pending st) = [(k, p)]" "pi_type p = TimerInt" "status st = IdleMode"
    using assms(3) by (auto simp: lone_timer_def)
  obtain l1 where l1: "List_SortedRemove (pending st) = Inr (Some (k, p), l1)" "List_inv l1" "List_elems l1 = []"
    using list_sorted.rem_ok [OF _ e(1)] assms(1) by (auto simp: int_ok_def)
  obtain l where l: "List_SortedInsert p k l1 = Inr l" "List_inv l" "List_elems l = [(k, p)]"
    using list_sorted.ins_ok [OF l1(2), of p k] l1(3) by (auto simp: sorted_ins_def)
  have E: "List_IsEmpty l1" using l1 by (simp add: List_IsEmpty_iff)
  define x where "x = (if k > now st then (stats st)\<lparr>idleTicks := idleTicks (stats st) + (k - now st), totalTicks := k\<rparr> else stats st)"
  have k: "k \<le> now st" if "\<not> adv" using assms(4) that e(1) by (auto simp: due_def split: if_splits)
  have "CheckIfDue call adv st = Inr (False, st\<lparr>pending := l, stats := x\<rparr>)"
  proof (cases "k > now st")
    case True
    then show ?thesis using k l1(1) l(1) E e(2,3) assms(2) by (auto simp: CheckIfDue_def put_back_def Let_def x_def)
  next
    case False
    then have "st\<lparr>pending := l, stats := x\<rparr> = st\<lparr>pending := l\<rparr>" by (simp add: x_def)
    then show ?thesis using False l1(1) l(1) E e(2,3) assms(2) by (simp add: CheckIfDue_def put_back_def Let_def)
  qed
  moreover have "int_ok (st\<lparr>pending := l, stats := x\<rparr>)" using assms(1) e(1) l by (simp add: int_ok_def)
  moreover have "x = stats st" if "\<not> adv" using k [OF that] by (simp add: x_def)
  ultimately show thesis using that e(1) l(3) by simp
qed

text \<open>The clock of an idle machine jumps to the time \<open>k\<close>, unless it is past it.\<close>

definition idle_until :: "int \<Rightarrow> ('c, 'h, 'z) Sim_scheme \<Rightarrow> ('c, 'h, 'z) Sim_scheme" where
  "idle_until k st = st\<lparr>status := IdleMode, stats := (if k > now st
     then (stats st)\<lparr>idleTicks := idleTicks (stats st) + (k - now st), totalTicks := k\<rparr> else stats st)\<rparr>"

section \<open>Handlers\<close>

text \<open>
  What the interrupt simulation relies on of the handlers of the devices: called with interrupts
  disabled from \<^verbatim>\<open>CheckIfDue\<close>, a handler succeeds, does not change the clock or enable
  interrupts, and schedules interrupts only in the future. \<open>hinv\<close> is what the handlers need of the kernel,
  and is independent of the interrupt hardware.
\<close>

locale interrupt_handlers =
  fixes call :: "'h \<Rightarrow> int \<Rightarrow> ('c, 'h, 'z) Sim_scheme \<Rightarrow> (('c, 'h, 'z) Sim_scheme) res" and hinv :: "('c, 'h, 'z) Sim_scheme \<Rightarrow> bool"
  assumes handler_ok: "int_ok st \<Longrightarrow> hinv st \<Longrightarrow> level st = IntOff \<Longrightarrow> inHandler st \<Longrightarrow> \<exists>st' new. call h a st = Inr st' \<and> hinv st'
      \<and> List_inv (pending st') \<and> List_elems (pending st') = fold (\<lambda>(k, x). sorted_ins k x) new (List_elems (pending st))
      \<and> (\<forall>(k, p) \<in> set new. now st < k \<and> k = pi_when p) \<and> now st' = now st \<and> level st' = IntOff
      \<and> registers (mach st') LoadReg = registers (mach st) LoadReg"
    and hinv_hw: "hinv (st\<lparr>kmem := km, level := lv, pending := l, inHandler := b, yieldOnReturn := y, status := s, stats := x\<rparr>) = hinv st"
begin

lemma hinv_upd:
  "hinv (st\<lparr>pending := l\<rparr>) = hinv st" "hinv (st\<lparr>level := lv\<rparr>) = hinv st" "hinv (st\<lparr>stats := x\<rparr>) = hinv st"
  "hinv (st\<lparr>yieldOnReturn := y, status := s\<rparr>) = hinv st" "hinv (st\<lparr>status := s\<rparr>) = hinv st"
  "hinv (st\<lparr>inHandler := b, status := s\<rparr>) = hinv st" "hinv (st\<lparr>kmem := km, inHandler := b, status := s\<rparr>) = hinv st"
  "hinv (st\<lparr>pending := l, stats := x\<rparr>) = hinv st"
  using hinv_hw [where st = st and km = "kmem st" and lv = "level st" and l = l and b = "inHandler st" and y = "yieldOnReturn st" and s = "status st" and x = "stats st"]
    hinv_hw [where st = st and km = "kmem st" and lv = lv and l = "pending st" and b = "inHandler st" and y = "yieldOnReturn st" and s = "status st" and x = "stats st"]
    hinv_hw [where st = st and km = "kmem st" and lv = "level st" and l = "pending st" and b = "inHandler st" and y = "yieldOnReturn st" and s = "status st" and x = x]
    hinv_hw [where st = st and km = "kmem st" and lv = "level st" and l = "pending st" and b = "inHandler st" and y = y and s = s and x = "stats st"]
    hinv_hw [where st = st and km = "kmem st" and lv = "level st" and l = "pending st" and b = "inHandler st" and y = "yieldOnReturn st" and s = s and x = "stats st"]
    hinv_hw [where st = st and km = "kmem st" and lv = "level st" and l = "pending st" and b = b and y = "yieldOnReturn st" and s = s and x = "stats st"]
    hinv_hw [where st = st and km = km and lv = "level st" and l = "pending st" and b = b and y = "yieldOnReturn st" and s = s and x = "stats st"]
    hinv_hw [where st = st and km = "kmem st" and lv = "level st" and l = l and b = "inHandler st" and y = "yieldOnReturn st" and s = "status st" and x = x]
  by simp_all

text \<open>Calling a handler keeps the invariants and adds only later interrupts.\<close>

lemma invoke_ok:
  assumes "int_ok st" "hinv st" "level st = IntOff"
  shows "\<exists>st' new. invoke call p st = Inr st' \<and> int_ok st' \<and> hinv st' \<and> now st' = now st \<and> level st' = IntOff \<and> status st' = status st
    \<and> \<not> inHandler st' \<and> List_elems (pending st') = fold (\<lambda>(k, x). sorted_ins k x) new (List_elems (pending st)) \<and> (\<forall>e \<in> set new. now st < fst e)"
proof -
  obtain m where m: "DelayedLoad 0 0 (mach st) = Inr m" "registers m LoadReg = 0"
    using assms(1) by (auto simp: int_ok_def DelayedLoad_def Let_def reg_defs)
  let ?s = "st\<lparr>kmem := (kmem st)\<lparr>km_machine := m\<rparr>, inHandler := True, status := SystemMode\<rparr>"
  have s: "int_ok ?s" "hinv ?s" using assms(1,2) m(2) hinv_upd by (simp_all add: int_ok_def NumTotalRegs_def)
  obtain st1 new where st1: "call (pi_handler p) (pi_arg p) ?s = Inr st1" "hinv st1" "List_inv (pending st1)"
      "List_elems (pending st1) = fold (\<lambda>(k, x). sorted_ins k x) new (List_elems (pending st))"
      "\<forall>(k, p) \<in> set new. now st < k \<and> k = pi_when p" "now st1 = now st" "level st1 = IntOff"
      "registers (mach st1) LoadReg = registers m LoadReg"
    using handler_ok [OF s, of "pi_handler p" "pi_arg p"] assms(3) by auto
  have srt: "sorted (map fst (List_elems (pending st)))" using assms(1) by (simp add: int_ok_def)
  have "set (List_elems (pending st1)) = set new \<union> set (List_elems (pending st))"
    using fold_sorted_ins_contents [OF srt, of new] st1(4) by (metis set_mset_mset set_mset_union)
  then have "int_ok (st1\<lparr>inHandler := False, status := status st\<rparr>)"
    using st1 assms(1) m(2) sorted_fold_ins [OF srt, of new] by (auto simp: int_ok_def NumTotalRegs_def)
  then show ?thesis
    using m(1) st1 hinv_upd(6) assms(3) by (fastforce simp: invoke_def Let_def)
qed

lemma fire_ok:
  assumes "int_ok st" "hinv st" "level st = IntOff" "due st = p # ps"
  shows "\<exists>st'. fire call p st = Inr st' \<and> int_ok st' \<and> hinv st' \<and> now st' = now st \<and> level st' = IntOff \<and> status st' = status st \<and> due st' = ps"
proof -
  obtain k es where es: "List_elems (pending st) = (k, p) # es" "k \<le> now st"
    using assms(4) by (cases "List_elems (pending st)") (auto simp: due_def split: if_splits)
  obtain l where l: "List_SortedRemove (pending st) = Inr (Some (k, p), l)" "List_inv l" "List_elems l = es"
    using list_sorted.rem_ok [OF _ es(1)] assms(1) by (auto simp: int_ok_def)
  let ?s = "st\<lparr>pending := l\<rparr>"
  have s: "int_ok ?s" "hinv ?s" "level ?s = IntOff" using assms(1-3) l es hinv_upd by (simp_all add: int_ok_def)
  obtain st' new where st': "invoke call p ?s = Inr st'" "int_ok st'" "hinv st'" "now st' = now st" "level st' = IntOff" "status st' = status st"
      "List_elems (pending st') = fold (\<lambda>(k, x). sorted_ins k x) new es" "\<forall>e \<in> set new. now st < fst e"
    using invoke_ok [OF s, of p] l(3) by auto
  have "sorted (map fst es)" using assms(1) es by (simp add: int_ok_def)
  then have "due st' = ps"
    using takeWhile_due [OF st'(8)] st'(4,7) assms(4) es by (simp add: due_def)
  then show ?thesis using l(1) st' by (simp add: fire_def)
qed

text \<open>
  The loop \<^verbatim>\<open>while (CheckIfDue(FALSE))\<close> ends, and its effect is that of firing the
  interrupts that are due when it starts, each once and in order of time. Afterwards none is due. The last
  check may reorder later interrupts that have the same time.
\<close>

lemma due_loop_fires:
  assumes "int_ok st" "hinv st" "level st = IntOff" "status st \<noteq> IdleMode" "length (due st) < fuel"
  shows "\<exists>st' l. foldE (fire call) (due st) st = Inr st' \<and> due_loop fuel call st = Inr (st'\<lparr>pending := l\<rparr>)
    \<and> int_ok (st'\<lparr>pending := l\<rparr>) \<and> hinv (st'\<lparr>pending := l\<rparr>) \<and> mset (List_elems l) = mset (List_elems (pending st')) \<and> due (st'\<lparr>pending := l\<rparr>) = []
    \<and> now st' = now st \<and> level st' = IntOff"
  using assms
proof (induction fuel arbitrary: st)
  case (Suc n)
  show ?case
  proof (cases "due st")
    case Nil
    obtain l where l: "CheckIfDue call False st = Inr (False, st\<lparr>pending := l\<rparr>)" "int_ok (st\<lparr>pending := l\<rparr>)"
        "mset (List_elems l) = mset (List_elems (pending st))"
      by (rule CheckIfDue_waits [OF Suc.prems(1,3) Nil])
    have "\<forall>(k, p) \<in> set (List_elems l). now st < k"
      using Nil due_Nil [OF Suc.prems(1)] mset_eq_setD [OF l(3)] by simp
    then have "due (st\<lparr>pending := l\<rparr>) = []" using due_Nil [OF l(2)] by simp
    moreover have "hinv (st\<lparr>pending := l\<rparr>)" using Suc.prems(2) hinv_upd(1) by simp
    ultimately show ?thesis using l Nil Suc.prems(3) by auto
  next
    case (Cons p ps)
    obtain st1 where st1: "fire call p st = Inr st1" "int_ok st1" "hinv st1" "now st1 = now st" "level st1 = IntOff"
        "status st1 = status st" "due st1 = ps"
      using fire_ok [OF Suc.prems(1-3) Cons] by auto
    have c: "CheckIfDue call False st = Inr (True, st1)"
      using CheckIfDue_fires [OF Suc.prems(1,3) _ Cons, of call] Suc.prems(4) st1(1) by (simp add: lone_timer_def)
    have "length (due st1) < n" using Suc.prems(5) Cons st1(7) by simp
    with Suc.IH [OF st1(2,3,5) _ this] Suc.prems(4) st1(6) show ?thesis
      using c st1(1,4,7) Cons by simp
  qed
qed simp

text \<open>On an idle machine the loop does the same, except that it leaves a last interrupt of the timer that is due when no other is pending.\<close>

lemma due_loop_idle:
  assumes "int_ok st" "hinv st" "level st = IntOff" "length (due st) < fuel"
  shows "\<exists>ps qs st' l. due st = ps @ qs \<and> foldE (fire call) ps st = Inr st' \<and> due_loop fuel call st = Inr (st'\<lparr>pending := l\<rparr>)
    \<and> int_ok (st'\<lparr>pending := l\<rparr>) \<and> hinv (st'\<lparr>pending := l\<rparr>) \<and> mset (List_elems l) = mset (List_elems (pending st'))
    \<and> due (st'\<lparr>pending := l\<rparr>) = qs \<and> (qs \<noteq> [] \<longrightarrow> map (pi_type \<circ> snd) (List_elems l) = [TimerInt]) \<and> now st' = now st \<and> level st' = IntOff"
  using assms
proof (induction fuel arbitrary: st)
  case (Suc n)
  show ?case
  proof (cases "due st")
    case Nil
    obtain l where l: "CheckIfDue call False st = Inr (False, st\<lparr>pending := l\<rparr>)" "int_ok (st\<lparr>pending := l\<rparr>)"
        "mset (List_elems l) = mset (List_elems (pending st))"
      by (rule CheckIfDue_waits [OF Suc.prems(1,3) Nil])
    have "\<forall>(k, p) \<in> set (List_elems l). now st < k"
      using Nil due_Nil [OF Suc.prems(1)] mset_eq_setD [OF l(3)] by simp
    then have "due (st\<lparr>pending := l\<rparr>) = []" using due_Nil [OF l(2)] by simp
    then show ?thesis using l Nil Suc.prems(2,3) hinv_upd(1) by (intro exI [of _ "[]"] exI [of _ st] exI [of _ l]) simp
  next
    case (Cons p ps)
    show ?thesis
    proof (cases "lone_timer st")
      case True
      obtain l x where "CheckIfDue call False st = Inr (False, st\<lparr>pending := l, stats := x\<rparr>)"
          "int_ok (st\<lparr>pending := l, stats := x\<rparr>)" "\<not> False \<longrightarrow> x = stats st" "List_elems l = List_elems (pending st)"
        by (rule CheckIfDue_keeps_timer [OF Suc.prems(1,3) True, of False call]) (use Cons in auto)
      then have l: "CheckIfDue call False st = Inr (False, st\<lparr>pending := l\<rparr>)" "int_ok (st\<lparr>pending := l\<rparr>)" "List_elems l = List_elems (pending st)"
        by simp_all
      then have "due (st\<lparr>pending := l\<rparr>) = due st" by (simp add: due_def)
      moreover have "map (pi_type \<circ> snd) (List_elems l) = [TimerInt]" using True l(3) by (simp add: lone_timer_def)
      ultimately show ?thesis using hinv_upd(1) Suc.prems(2,3) l by - (rule exI [of _ "[]"], rule exI [of _ "due st"], rule exI [of _ st], rule exI [of _ l], simp add: comp_def)
    next
      case False
      obtain st1 where st1: "fire call p st = Inr st1" "int_ok st1" "hinv st1" "now st1 = now st" "level st1 = IntOff" "due st1 = ps"
        using fire_ok [OF Suc.prems(1-3) Cons] by auto
      have c: "CheckIfDue call False st = Inr (True, st1)"
        using CheckIfDue_fires [OF Suc.prems(1,3) False Cons, of call] st1(1) by simp
      have "length (due st1) < n" using Suc.prems(4) Cons st1(6) by simp
      from Suc.IH [OF st1(2,3,5) this] obtain fs qs st' l where i: "due st1 = fs @ qs" "foldE (fire call) fs st1 = Inr st'" "due_loop n call st1 = Inr (st'\<lparr>pending := l\<rparr>)"
          "int_ok (st'\<lparr>pending := l\<rparr>)" "hinv (st'\<lparr>pending := l\<rparr>)" "mset (List_elems l) = mset (List_elems (pending st'))" "due (st'\<lparr>pending := l\<rparr>) = qs"
          "qs \<noteq> [] \<longrightarrow> map (pi_type \<circ> snd) (List_elems l) = [TimerInt]" "now st' = now st1" "level st' = IntOff"
        by (elim exE conjE) (rule that; assumption)
      then show ?thesis using c st1 Cons by - (rule exI [of _ "p # fs"], rule exI [of _ qs], rule exI [of _ st'], rule exI [of _ l], simp add: comp_def)
    qed
  qed
qed simp

end

context interrupt_handlers
begin

text \<open>\<^verbatim>\<open>Idle\<close> halts the machine when nothing, or only the timer, is pending.\<close>

lemma Idle_halts:
  assumes "int_ok st" "level st = IntOff" "map (pi_type \<circ> snd) (List_elems (pending st)) \<in> {[], [TimerInt]}"
  shows "Interrupt_Idle fuel call st = Inl Halted"
proof -
  let ?s = "st\<lparr>status := IdleMode\<rparr>"
  have s: "int_ok ?s" "level ?s = IntOff" using assms(1,2) by (simp_all add: int_ok_def)
  consider "List_elems (pending st) = []" | "lone_timer ?s" using assms(3) by (auto simp: lone_timer_def)
  then have "\<exists>st'. CheckIfDue call True ?s = Inr (False, st')"
  proof cases
    case 1
    then have "List_SortedRemove (pending st) = Inr (None, pending st)"
      using list_sorted.rem_empty assms(1) by (auto simp: int_ok_def)
    then show ?thesis using assms(2) by (simp add: CheckIfDue_def)
  next
    case 2
    show ?thesis by (rule CheckIfDue_keeps_timer [OF s 2, of True call]) auto
  qed
  then show ?thesis by (auto simp: Interrupt_Idle_def Interrupt_Halt_def)
qed

text \<open>Otherwise it moves the clock to the first pending interrupt and fires what is then due.\<close>

lemma Idle_fires:
  assumes "int_ok st" "hinv st" "level st = IntOff" "List_elems (pending st) = (k, p) # es" "es \<noteq> [] \<or> pi_type p \<noteq> TimerInt"
    "length es < fuel"
  shows "\<exists>ps qs st1 l. due (idle_until k st) = p # ps @ qs \<and> foldE (fire call) (p # ps) (idle_until k st) = Inr st1
    \<and> Interrupt_Idle fuel call st = Inr (st1\<lparr>pending := l, yieldOnReturn := False, status := SystemMode\<rparr>)
    \<and> mset (List_elems l) = mset (List_elems (pending st1)) \<and> (qs \<noteq> [] \<longrightarrow> map (pi_type \<circ> snd) (List_elems l) = [TimerInt])
    \<and> int_ok (st1\<lparr>pending := l, yieldOnReturn := False, status := SystemMode\<rparr>) \<and> hinv (st1\<lparr>pending := l, yieldOnReturn := False, status := SystemMode\<rparr>)
    \<and> now st1 = max (now st) k \<and> level st1 = IntOff"
proof -
  let ?s = "idle_until k st"
  have "int_ok ?s" using assms(1) by (simp add: idle_until_def int_ok_def)
  moreover have "hinv ?s" using assms(2) hinv_upd(3) [where st = "st\<lparr>status := IdleMode\<rparr>"] hinv_upd(5) by (simp add: idle_until_def)
  ultimately have s: "int_ok ?s" "hinv ?s" "level ?s = IntOff" "now ?s = max (now st) k" "List_elems (pending ?s) = (k, p) # es"
    using assms(3,4) by (simp_all add: idle_until_def)
  obtain l where l: "List_SortedRemove (pending st) = Inr (Some (k, p), l)" "List_inv l" "List_elems l = es"
    using list_sorted.rem_ok [OF _ assms(4)] assms(1) by (auto simp: int_ok_def)
  have c: "CheckIfDue call True (st\<lparr>status := IdleMode\<rparr>) = bindE (fire call p ?s) (\<lambda>st. Inr (True, st))"
    using l assms(3,5) by (cases st) (auto simp: CheckIfDue_def fire_def idle_until_def Let_def List_IsEmpty_iff)
  let ?ds = "map snd (takeWhile (\<lambda>e. fst e \<le> max (now st) k) es)"
  have d: "due ?s = p # ?ds" using s(4,5) by (simp add: due_def)
  obtain st1 where st1: "fire call p ?s = Inr st1" "int_ok st1" "hinv st1" "now st1 = max (now st) k" "level st1 = IntOff" "due st1 = ?ds"
    using fire_ok [OF s(1-3) d] s(4) by auto
  have "length (due st1) < fuel"
    using assms(6) length_takeWhile_le [of "\<lambda>e. fst e \<le> max (now st) k" es] st1(6) by simp
  from due_loop_idle [OF st1(2,3,5) this] obtain ps qs st2 l2 where i: "due st1 = ps @ qs" "foldE (fire call) ps st1 = Inr st2"
      "due_loop fuel call st1 = Inr (st2\<lparr>pending := l2\<rparr>)" "int_ok (st2\<lparr>pending := l2\<rparr>)" "hinv (st2\<lparr>pending := l2\<rparr>)"
      "mset (List_elems l2) = mset (List_elems (pending st2))" "qs \<noteq> [] \<longrightarrow> map (pi_type \<circ> snd) (List_elems l2) = [TimerInt]" "now st2 = now st1" "level st2 = IntOff"
    by (elim exE conjE) (rule that; assumption)
  have "hinv (st2\<lparr>pending := l2, yieldOnReturn := False, status := SystemMode\<rparr>)"
    using i(5) hinv_upd(4) [where st = "st2\<lparr>pending := l2\<rparr>" and y = False and s = SystemMode] by simp
  then show ?thesis
    using d c st1 i by - (rule exI [of _ ps], rule exI [of _ qs], rule exI [of _ st2], rule exI [of _ l2], simp add: Interrupt_Idle_def int_ok_def comp_def)
qed

end

end
