(* ===== verification/Disk.thy ===== *)
theory Disk
  imports Interrupt
begin

text \<open>
  The simulated disk, \<^verbatim>\<open>machine/disk.cc\<close>, on the host file that holds its sectors
  (the file functions of \<^verbatim>\<open>machine/sysdep.cc\<close>): requests, the completion interrupt and the
  computation of the latency with its track buffer.
\<close>

section \<open>Host files\<close>

text \<open>
  A UNIX file as the simulator uses it through machine/sysdep.cc: its bytes and the position of
  the descriptor. Writing beyond the end fills the gap with zero bytes.
\<close>

record UnixFile =
  uf_bytes :: "byte list"
  uf_pos :: nat

definition Lseek :: "int \<Rightarrow> int \<Rightarrow> UnixFile \<Rightarrow> UnixFile res" where
  "Lseek offset whence f =
     (let retVal = (if whence = 0 then offset else if whence = 1 then int (uf_pos f) + offset else int (length (uf_bytes f)) + offset) in
      bindE (assertE (retVal \<ge> 0)) (\<lambda>_. Inr (f\<lparr>uf_pos := nat retVal\<rparr>)))"

definition Tell :: "UnixFile \<Rightarrow> int" where
  "Tell f = int (uf_pos f)"

definition ReadPartial :: "nat \<Rightarrow> UnixFile \<Rightarrow> byte list \<times> UnixFile" where
  "ReadPartial nBytes f = (let bs = take nBytes (drop (uf_pos f) (uf_bytes f)) in (bs, f\<lparr>uf_pos := uf_pos f + length bs\<rparr>))"

definition Host_Read :: "nat \<Rightarrow> UnixFile \<Rightarrow> (byte list \<times> UnixFile) res" where
  "Host_Read nBytes f = (let (bs, f') = ReadPartial nBytes f in bindE (assertE (length bs = nBytes)) (\<lambda>_. Inr (bs, f')))"

definition overwrite :: "nat \<Rightarrow> byte list \<Rightarrow> byte list \<Rightarrow> byte list" where
  "overwrite p bs xs = take p (xs @ replicate (p - length xs) 0) @ bs @ drop (p + length bs) xs"

definition WriteFile :: "byte list \<Rightarrow> UnixFile \<Rightarrow> UnixFile" where
  "WriteFile buffer f = f\<lparr>uf_bytes := overwrite (uf_pos f) buffer (uf_bytes f), uf_pos := uf_pos f + length buffer\<rparr>"

text \<open>The bytes of an \<^verbatim>\<open>int\<close> in the host's memory.\<close>

definition int_bytes :: "bool \<Rightarrow> 32 word \<Rightarrow> byte list" where
  "int_bytes big w = (let bs = [byte_of w 0, byte_of w 1, byte_of w 2, byte_of w 3] in if big then rev bs else bs)"

definition bytes_int :: "bool \<Rightarrow> byte list \<Rightarrow> 32 word" where
  "bytes_int big bs = (let xs = (if big then rev bs else bs) in join4 (xs ! 0) (xs ! 1) (xs ! 2) (xs ! 3))"

section \<open>The disk\<close>

definition SectorsPerTrack :: int where "SectorsPerTrack = 32"
definition NumTracks :: int where "NumTracks = 32"
definition NumSectors :: int where "NumSectors = SectorsPerTrack * NumTracks"
definition MagicNumber :: "32 word" where "MagicNumber = 0x456789ab"
definition MagicSize :: nat where "MagicSize = 4"
definition DiskSize :: nat where "DiskSize = MagicSize + nat NumSectors * SectorSize"

lemmas disk_defs = SectorsPerTrack_def NumTracks_def NumSectors_def MagicSize_def DiskSize_def SectorSize_def

text \<open>The handler and its argument are \<^verbatim>\<open>DiskRequestDone\<close> and the synchronous disk.\<close>

record Disk =
  d_file :: UnixFile
  d_active :: bool
  d_lastSector :: int
  d_bufferInit :: int

text \<open>The constructor, with the bytes of the file that holds the disk if it exists. \<open>be\<close> is the host's
  byte order.\<close>

definition Disk_new :: "bool \<Rightarrow> byte list option \<Rightarrow> Disk res" where
  "Disk_new be existing =
     bindE (case existing of
         Some bs \<Rightarrow> bindE (Host_Read MagicSize \<lparr>uf_bytes = bs, uf_pos = 0\<rparr>) (\<lambda>(m, f).
           bindE (assertE (bytes_int be m = MagicNumber)) (\<lambda>_. Inr f))
       | None \<Rightarrow> bindE (Lseek (int DiskSize - 4) 0 (WriteFile (int_bytes be MagicNumber) \<lparr>uf_bytes = [], uf_pos = 0\<rparr>)) (\<lambda>f.
           Inr (WriteFile (int_bytes be 0) f)))
     (\<lambda>f. Inr \<lparr>d_file = f, d_active = False, d_lastSector = 0, d_bufferInit = 0\<rparr>)"

definition TimeToSeek :: "int \<Rightarrow> int \<Rightarrow> Disk \<Rightarrow> int \<times> int" where
  "TimeToSeek ticks newSector d =
     (let newTrack = newSector sdiv SectorsPerTrack;
          oldTrack = d_lastSector d sdiv SectorsPerTrack;
          seek = \<bar>newTrack - oldTrack\<bar> * SeekTime;
          over = (ticks + seek) smod RotationTime;
          rotation = (if over > 0 then RotationTime - over else 0)
      in (seek, rotation))"

definition ModuloDiff :: "int \<Rightarrow> int \<Rightarrow> int" where
  "ModuloDiff to from =
     (let toOffset = to smod SectorsPerTrack; fromOffset = from smod SectorsPerTrack
      in ((toOffset - fromOffset) + SectorsPerTrack) smod SectorsPerTrack)"

definition ComputeLatency :: "int \<Rightarrow> int \<Rightarrow> bool \<Rightarrow> Disk \<Rightarrow> int" where
  "ComputeLatency ticks newSector writing d =
     (let (seek, rotation) = TimeToSeek ticks newSector d;
          timeAfter = ticks + seek + rotation in
      if \<not> writing \<and> seek = 0 \<and> (timeAfter - d_bufferInit d) sdiv RotationTime > ModuloDiff newSector (d_bufferInit d sdiv RotationTime)
      then RotationTime
      else seek + (rotation + ModuloDiff newSector (timeAfter sdiv RotationTime) * RotationTime) + RotationTime)"

definition UpdateLast :: "int \<Rightarrow> int \<Rightarrow> Disk \<Rightarrow> Disk" where
  "UpdateLast ticks newSector d =
     (let (seek, rotate) = TimeToSeek ticks newSector d;
          d = (if seek \<noteq> 0 then d\<lparr>d_bufferInit := ticks + seek + rotate\<rparr> else d)
      in d\<lparr>d_lastSector := newSector\<rparr>)"

text \<open>
  A request transfers the sector at once and schedules the interrupt that reports completion.
  \<open>handler\<close> is the function \<^verbatim>\<open>DiskDone\<close> with the disk as its argument.
\<close>

definition ReadRequest :: "'h \<Rightarrow> int \<Rightarrow> int \<Rightarrow> Disk \<Rightarrow> ('c, 'h, 'z) Sim_scheme \<Rightarrow> (byte list \<times> Disk \<times> ('c, 'h, 'z) Sim_scheme) res" where
  "ReadRequest handler this sectorNumber d st =
     (let ticks = ComputeLatency (now st) sectorNumber False d in
      bindE (assertE (\<not> d_active d)) (\<lambda>_.
      bindE (assertE (sectorNumber \<ge> 0 \<and> sectorNumber < NumSectors)) (\<lambda>_.
      bindE (Lseek (int SectorSize * sectorNumber + int MagicSize) 0 (d_file d)) (\<lambda>f.
      bindE (Host_Read SectorSize f) (\<lambda>(bs, f).
      let d = UpdateLast (now st) sectorNumber (d\<lparr>d_file := f, d_active := True\<rparr>);
          st = st\<lparr>stats := (stats st)\<lparr>numDiskReads := numDiskReads (stats st) + 1\<rparr>\<rparr> in
      bindE (Schedule handler this ticks DiskInt st) (\<lambda>st. Inr (bs, d, st)))))))"

definition WriteRequest :: "'h \<Rightarrow> int \<Rightarrow> int \<Rightarrow> byte list \<Rightarrow> Disk \<Rightarrow> ('c, 'h, 'z) Sim_scheme \<Rightarrow> (Disk \<times> ('c, 'h, 'z) Sim_scheme) res" where
  "WriteRequest handler this sectorNumber bs d st =
     (let ticks = ComputeLatency (now st) sectorNumber True d in
      bindE (assertE (\<not> d_active d)) (\<lambda>_.
      bindE (assertE (sectorNumber \<ge> 0 \<and> sectorNumber < NumSectors)) (\<lambda>_.
      bindE (Lseek (int SectorSize * sectorNumber + int MagicSize) 0 (d_file d)) (\<lambda>f.
      if length bs < SectorSize then Inl OutOfBounds else
      let f = WriteFile (take SectorSize bs) f;
          d = UpdateLast (now st) sectorNumber (d\<lparr>d_file := f, d_active := True\<rparr>);
          st = st\<lparr>stats := (stats st)\<lparr>numDiskWrites := numDiskWrites (stats st) + 1\<rparr>\<rparr> in
      bindE (Schedule handler this ticks DiskInt st) (\<lambda>st. Inr (d, st))))))"

definition Disk_HandleInterrupt :: "Disk \<Rightarrow> Disk" where
  "Disk_HandleInterrupt d = d\<lparr>d_active := False\<rparr>"

section \<open>Sectors\<close>

text \<open>The contents of a sector, and a disk file of the right size.\<close>

definition sector :: "Disk \<Rightarrow> nat \<Rightarrow> byte list" where
  "sector d s = take SectorSize (drop (MagicSize + s * SectorSize) (uf_bytes (d_file d)))"

definition disk_ok :: "Disk \<Rightarrow> bool" where
  "disk_ok d \<longleftrightarrow> length (uf_bytes (d_file d)) \<ge> DiskSize \<and> 0 \<le> d_lastSector d \<and> d_lastSector d < NumSectors"

lemma sector_fits: "s < nat NumSectors \<Longrightarrow> MagicSize + Suc s * SectorSize \<le> DiskSize"
  by (simp add: disk_defs)

lemma length_sector: "disk_ok d \<Longrightarrow> s < nat NumSectors \<Longrightarrow> length (sector d s) = SectorSize"
  using sector_fits [of s] by (auto simp: sector_def disk_ok_def)

lemma length_int_bytes [simp]: "length (int_bytes be w) = 4"
  by (simp add: int_bytes_def Let_def)

lemma bytes_int_bytes [simp]: "bytes_int be (int_bytes be w) = w"
  using join4_byte_of [of w] by (simp add: int_bytes_def bytes_int_def Let_def numeral_2_eq_2 numeral_3_eq_3)

lemma overwrite_inside: "p + length bs \<le> length xs \<Longrightarrow> overwrite p bs xs = take p xs @ bs @ drop (p + length bs) xs"
  by (simp add: overwrite_def)

lemma length_overwrite: "p + length bs \<le> length xs \<Longrightarrow> length (overwrite p bs xs) = length xs"
  by (simp add: overwrite_inside)

lemma nth_overwrite:
  assumes "p + length bs \<le> length xs" "i < length xs"
  shows "overwrite p bs xs ! i = (if p \<le> i \<and> i < p + length bs then bs ! (i - p) else xs ! i)"
proof -
  consider "i < p" | "p \<le> i" "i < p + length bs" | "p + length bs \<le> i" by linarith
  then show ?thesis using assms by cases (auto simp: overwrite_inside nth_append)
qed

lemma sector_write:
  assumes "disk_ok d" "s < nat NumSectors" "t < nat NumSectors" "length bs = SectorSize"
  shows "sector (d\<lparr>d_file := WriteFile bs ((d_file d)\<lparr>uf_pos := MagicSize + s * SectorSize\<rparr>)\<rparr>) t = (if t = s then bs else sector d t)"
proof (rule nth_equalityI)
  let ?xs = "uf_bytes (d_file d)" and ?p = "MagicSize + s * SectorSize" and ?d = "d\<lparr>d_file := WriteFile bs ((d_file d)\<lparr>uf_pos := MagicSize + s * SectorSize\<rparr>)\<rparr>"
  have len: "?p + length bs \<le> length ?xs" using sector_fits [OF assms(2)] assms(1,4) by (simp add: disk_ok_def)
  have lt: "MagicSize + t * SectorSize + SectorSize \<le> length ?xs" using sector_fits [OF assms(3)] assms(1) by (simp add: disk_ok_def)
  have ok: "disk_ok ?d" using assms(1) length_overwrite [OF len] by (simp add: disk_ok_def WriteFile_def)
  show "length (sector ?d t) = length (if t = s then bs else sector d t)"
    using length_sector [OF ok assms(3)] length_sector [OF assms(1,3)] assms(4) by simp
  fix i assume "i < length (sector ?d t)"
  then have i: "i < SectorSize" using length_sector [OF ok assms(3)] by simp
  have "sector ?d t ! i = overwrite ?p bs ?xs ! (MagicSize + t * SectorSize + i)"
    using i lt length_overwrite [OF len] by (simp add: sector_def WriteFile_def)
  also have "\<dots> = (if t = s then bs else sector d t) ! i"
  proof (cases "t = s")
    case True
    then show ?thesis using i lt nth_overwrite [OF len] assms(4) by simp
  next
    case False
    have "\<not> (s * SectorSize \<le> t * SectorSize + i \<and> t * SectorSize + i < s * SectorSize + SectorSize)"
    proof (cases "t < s")
      case True
      then have "Suc t * SectorSize \<le> s * SectorSize" by (intro mult_le_mono1) simp
      then show ?thesis using i by simp
    next
      case f: False
      then have "Suc s * SectorSize \<le> t * SectorSize" using False by (intro mult_le_mono1) simp
      then show ?thesis by simp
    qed
    then show ?thesis using False i lt nth_overwrite [OF len, of "MagicSize + t * SectorSize + i"] assms(4) by (auto simp: sector_def)
  qed
  finally show "sector ?d t ! i = (if t = s then bs else sector d t) ! i" .
qed

section \<open>Latency\<close>

lemma ModuloDiff_nonneg:
  assumes "0 \<le> to" "0 \<le> from"
  shows "ModuloDiff to from = (to - from) mod SectorsPerTrack"
proof -
  have p: "(0::int) < SectorsPerTrack" by (simp add: SectorsPerTrack_def)
  have "0 \<le> to mod SectorsPerTrack - from mod SectorsPerTrack + SectorsPerTrack"
    using pos_mod_bound [OF p, of "from"] pos_mod_sign [OF p, of to] by linarith
  then have "ModuloDiff to from = (to mod SectorsPerTrack - from mod SectorsPerTrack + SectorsPerTrack) mod SectorsPerTrack"
    using assms p by (simp add: ModuloDiff_def Let_def smod_nonneg)
  also have "\<dots> = (to - from) mod SectorsPerTrack" by (simp add: mod_diff_eq)
  finally show ?thesis .
qed

text \<open>Rounding up to the next multiple of the rotation time.\<close>

lemma round_up:
  fixes a :: int
  assumes "0 < r"
  shows "\<exists>q. a + (if a mod r > 0 then r - a mod r else 0) = r * q \<and> a \<le> r * q \<and> r * q < a + r"
proof (cases "a mod r > 0")
  case True
  have "a + (r - a mod r) = r * (a div r + 1)" by (simp add: algebra_simps minus_mod_eq_mult_div)
  moreover have "a \<le> a + (r - a mod r)" "a + (r - a mod r) < a + r" using True pos_mod_bound [OF assms, of a] by linarith+
  ultimately show ?thesis using True by auto
next
  case False
  then have "a = r * (a div r)" using pos_mod_sign [OF assms, of a] mult_div_mod_eq [of r a] by linarith
  then show ?thesis using False assms by (metis add.right_neutral less_add_same_cancel1 order_refl)
qed

lemma track_range: "0 \<le> s \<Longrightarrow> s < NumSectors \<Longrightarrow> 0 \<le> s sdiv SectorsPerTrack \<and> s sdiv SectorsPerTrack < NumTracks"
  by (simp add: sdiv_nonneg disk_defs) linarith

lemma TimeToSeek_spec:
  assumes "0 \<le> ticks" "0 \<le> s" "s < NumSectors" "disk_ok d"
  obtains seek q where "TimeToSeek ticks s d = (seek, RotationTime * q - ticks - seek)" "0 \<le> seek" "seek \<le> (NumTracks - 1) * SeekTime"
    "ticks + seek \<le> RotationTime * q" "RotationTime * q < ticks + seek + RotationTime"
    "seek = 0 \<longleftrightarrow> s div SectorsPerTrack = d_lastSector d div SectorsPerTrack"
proof -
  define seek where "seek = \<bar>s sdiv SectorsPerTrack - d_lastSector d sdiv SectorsPerTrack\<bar> * SeekTime"
  have t: "0 \<le> s sdiv SectorsPerTrack" "s sdiv SectorsPerTrack < NumTracks"
      "0 \<le> d_lastSector d sdiv SectorsPerTrack" "d_lastSector d sdiv SectorsPerTrack < NumTracks"
    using track_range assms by (auto simp: disk_ok_def)
  have sk: "0 \<le> seek" by (simp add: seek_def SeekTime_def)
  have "\<bar>s sdiv SectorsPerTrack - d_lastSector d sdiv SectorsPerTrack\<bar> \<le> NumTracks - 1" using t by linarith
  then have ub: "seek \<le> (NumTracks - 1) * SeekTime" unfolding seek_def SeekTime_def by (rule mult_right_mono) simp
  obtain q where q: "ticks + seek + (if (ticks + seek) mod RotationTime > 0 then RotationTime - (ticks + seek) mod RotationTime else 0) = RotationTime * q"
      "ticks + seek \<le> RotationTime * q" "RotationTime * q < ticks + seek + RotationTime"
    using round_up [of RotationTime "ticks + seek"] by (auto simp: RotationTime_def)
  have z: "seek = 0 \<longleftrightarrow> s div SectorsPerTrack = d_lastSector d div SectorsPerTrack"
    using assms by (simp add: seek_def SeekTime_def sdiv_nonneg SectorsPerTrack_def disk_ok_def)
  have sm: "(ticks + seek) smod RotationTime = (ticks + seek) mod RotationTime"
    using assms(1) sk by (simp add: smod_nonneg RotationTime_def)
  have "TimeToSeek ticks s d = (seek, if (ticks + seek) mod RotationTime > 0 then RotationTime - (ticks + seek) mod RotationTime else 0)"
    unfolding TimeToSeek_def Let_def seek_def [symmetric] sm by simp
  also have "\<dots> = (seek, RotationTime * q - ticks - seek)" using q(1) by simp
  finally show thesis using that sk ub q(2,3) z by blast
qed

lemma ComputeLatency_spec:
  assumes "0 \<le> ticks" "0 \<le> s" "s < NumSectors" "disk_ok d"
  shows "RotationTime \<le> ComputeLatency ticks s writing d
    \<and> ComputeLatency ticks s writing d < (NumTracks - 1) * SeekTime + (SectorsPerTrack + 1) * RotationTime"
proof -
  obtain seek q where t: "TimeToSeek ticks s d = (seek, RotationTime * q - ticks - seek)" "0 \<le> seek" "seek \<le> (NumTracks - 1) * SeekTime"
    "ticks + seek \<le> RotationTime * q" "RotationTime * q < ticks + seek + RotationTime" "seek = 0 \<longleftrightarrow> s div SectorsPerTrack = d_lastSector d div SectorsPerTrack"
    by (rule TimeToSeek_spec [OF assms])
  define m where "m = (s - q) mod SectorsPerTrack"
  have q0: "0 \<le> q" using t(2,4) assms(1) by (simp add: RotationTime_def)
  have m: "0 \<le> m" "m < SectorsPerTrack" by (simp_all add: m_def SectorsPerTrack_def)
  have "ModuloDiff s ((ticks + seek + (RotationTime * q - ticks - seek)) sdiv RotationTime) = m"
    using q0 assms(2) by (simp add: m_def ModuloDiff_nonneg sdiv_nonneg RotationTime_def)
  then have L: "ComputeLatency ticks s writing d = (if \<not> writing \<and> seek = 0 \<and> (RotationTime * q - d_bufferInit d) sdiv RotationTime
      > ModuloDiff s (d_bufferInit d sdiv RotationTime) then RotationTime else RotationTime * q - ticks + m * RotationTime + RotationTime)"
    by (simp add: ComputeLatency_def t(1) Let_def)
  have "RotationTime \<le> ComputeLatency ticks s writing d"
    using m t(2,4) unfolding L by (simp add: RotationTime_def)
  moreover have "ComputeLatency ticks s writing d < (NumTracks - 1) * SeekTime + (SectorsPerTrack + 1) * RotationTime"
    using m t(3,5) unfolding L by (simp add: RotationTime_def SeekTime_def SectorsPerTrack_def NumTracks_def)
  ultimately show ?thesis by blast
qed

text \<open>
  The track buffer, from the time \<^verbatim>\<open>bufferInit\<close> on: \<^verbatim>\<open>n * RotationTime\<close> is the time at which sector \<open>n\<close> modulo the sectors of a track
  begins to pass under the head. A read of the current track is in the buffer when the sector has begun to pass
  between \<^verbatim>\<open>bufferInit\<close>, which is a sector boundary, and the time of the request.
\<close>

definition buffer_ok :: "Disk \<Rightarrow> bool" where
  "buffer_ok d \<longleftrightarrow> 0 \<le> d_bufferInit d \<and> RotationTime dvd d_bufferInit d"

definition in_track_buffer :: "int \<Rightarrow> int \<Rightarrow> Disk \<Rightarrow> bool" where
  "in_track_buffer ticks s d \<longleftrightarrow> s div SectorsPerTrack = d_lastSector d div SectorsPerTrack
     \<and> (\<exists>n. n mod SectorsPerTrack = s mod SectorsPerTrack \<and> d_bufferInit d \<le> n * RotationTime \<and> n * RotationTime < ticks)"

definition seek_ticks :: "int \<Rightarrow> Disk \<Rightarrow> int" where
  "seek_ticks s d = \<bar>s div SectorsPerTrack - d_lastSector d div SectorsPerTrack\<bar> * SeekTime"

lemma first_pass:
  fixes q s :: int
  assumes "0 < p" "n mod p = s mod p" "q \<le> n"
  shows "q + (s - q) mod p \<le> n"
proof -
  have "(s - q) mod p = (n - q) mod p" using assms(2) by (metis mod_diff_left_eq)
  also have "\<dots> \<le> n - q" using assms(1,3) by (simp add: zmod_le_nonneg_dividend)
  finally show ?thesis by linarith
qed

lemma sdiv_multiple: "0 < r \<Longrightarrow> (r * x :: int) sdiv r = x"
  by (simp add: signed_divide_int_def abs_mult sgn_mult sgn_mult_abs)

lemma latency_passes:
  assumes "0 \<le> ticks" "0 \<le> s" "s < NumSectors" "disk_ok d" "buffer_ok d"
  shows "if \<not> writing \<and> in_track_buffer ticks s d then ComputeLatency ticks s writing d = RotationTime
    else \<exists>n. ticks + ComputeLatency ticks s writing d = (n + 1) * RotationTime \<and> n mod SectorsPerTrack = s mod SectorsPerTrack
      \<and> ticks + seek_ticks s d \<le> n * RotationTime
      \<and> (\<forall>n'. n' mod SectorsPerTrack = s mod SectorsPerTrack \<and> ticks + seek_ticks s d \<le> n' * RotationTime \<longrightarrow> n \<le> n')"
proof -
  define seek where "seek = seek_ticks s d"
  have ls: "0 \<le> d_lastSector d" using assms(4) by (simp add: disk_ok_def)
  have sk: "0 \<le> seek" "seek = 0 \<longleftrightarrow> s div SectorsPerTrack = d_lastSector d div SectorsPerTrack"
    by (simp_all add: seek_def seek_ticks_def SeekTime_def)
  obtain q where q: "ticks + seek + (if (ticks + seek) mod RotationTime > 0 then RotationTime - (ticks + seek) mod RotationTime else 0) = RotationTime * q"
      "ticks + seek \<le> RotationTime * q" "RotationTime * q < ticks + seek + RotationTime"
    using round_up [of RotationTime "ticks + seek"] by (auto simp: RotationTime_def)
  obtain b where b: "d_bufferInit d = RotationTime * b" "0 \<le> b" using assms(5) by (auto simp: buffer_ok_def RotationTime_def zero_le_mult_iff)
  have q0: "0 \<le> q" using q(2) assms(1) sk(1) by (simp add: RotationTime_def)
  have sm: "(ticks + seek) smod RotationTime = (ticks + seek) mod RotationTime"
    using assms(1) sk(1) by (simp add: smod_nonneg RotationTime_def)
  have "\<bar>s sdiv SectorsPerTrack - d_lastSector d sdiv SectorsPerTrack\<bar> * SeekTime = seek"
    using assms(2) ls by (simp add: seek_def seek_ticks_def sdiv_nonneg SectorsPerTrack_def)
  then have "TimeToSeek ticks s d = (seek, if (ticks + seek) mod RotationTime > 0 then RotationTime - (ticks + seek) mod RotationTime else 0)"
    unfolding TimeToSeek_def Let_def by (simp add: sm)
  also have "\<dots> = (seek, RotationTime * q - ticks - seek)" using q(1) by simp
  finally have T: "TimeToSeek ticks s d = (seek, RotationTime * q - ticks - seek)" .
  have M: "ModuloDiff s q = (s - q) mod SectorsPerTrack" "ModuloDiff s b = (s - b) mod SectorsPerTrack"
    using assms(2) q0 b(2) by (simp_all add: ModuloDiff_nonneg)
  have R: "RotationTime * x sdiv RotationTime = x" for x by (rule sdiv_multiple) (simp add: RotationTime_def)
  have D: "(RotationTime * q - RotationTime * b) sdiv RotationTime = q - b" unfolding right_diff_distrib [symmetric] by (rule R)
  have "ticks + seek + (RotationTime * q - ticks - seek) = RotationTime * q" "seek + (RotationTime * q - ticks - seek + x) = RotationTime * q - ticks + x" for x
    by simp_all
  then have L: "ComputeLatency ticks s writing d = (if \<not> writing \<and> seek = 0 \<and> q - b > (s - b) mod SectorsPerTrack
      then RotationTime else RotationTime * q - ticks + (s - q) mod SectorsPerTrack * RotationTime + RotationTime)"
    unfolding ComputeLatency_def T Let_def prod.case b(1) by (simp only: D R M)
  have sp: "0 < SectorsPerTrack" by (simp add: SectorsPerTrack_def)
  have up: "ticks + seek \<le> n * RotationTime \<longleftrightarrow> q \<le> n" for n using q(2,3) by (auto simp: RotationTime_def)
  have B: "in_track_buffer ticks s d \<longleftrightarrow> seek = 0 \<and> q - b > (s - b) mod SectorsPerTrack"
  proof
    assume "in_track_buffer ticks s d"
    then obtain n where n: "seek = 0" "n mod SectorsPerTrack = s mod SectorsPerTrack" "b \<le> n" "n * RotationTime < ticks"
      using sk(2) by (auto simp: in_track_buffer_def b(1) RotationTime_def)
    have "n < q" using n(1,4) up [of n] by auto
    then show "seek = 0 \<and> q - b > (s - b) mod SectorsPerTrack" using first_pass [OF sp n(2,3)] n(1) by linarith
  next
    assume a: "seek = 0 \<and> q - b > (s - b) mod SectorsPerTrack"
    let ?n = "b + (s - b) mod SectorsPerTrack"
    have "?n mod SectorsPerTrack = s mod SectorsPerTrack" by (simp add: mod_add_right_eq)
    moreover have "d_bufferInit d \<le> ?n * RotationTime" using sp by (simp add: b(1) RotationTime_def)
    moreover have "?n * RotationTime < ticks" using a up [of ?n] by auto
    ultimately show "in_track_buffer ticks s d" using a sk(2) by (auto simp: in_track_buffer_def)
  qed
  show ?thesis
  proof (cases "\<not> writing \<and> in_track_buffer ticks s d")
    case True
    then show ?thesis using B L by simp
  next
    case False
    let ?n = "q + (s - q) mod SectorsPerTrack"
    have "ticks + ComputeLatency ticks s writing d = (?n + 1) * RotationTime" using False B L by (auto simp: algebra_simps)
    moreover have "?n mod SectorsPerTrack = s mod SectorsPerTrack" by (simp add: mod_add_right_eq)
    moreover have "ticks + seek \<le> ?n * RotationTime" using up [of ?n] sp by simp
    moreover have "?n \<le> n'" if "n' mod SectorsPerTrack = s mod SectorsPerTrack" "ticks + seek \<le> n' * RotationTime" for n'
      using first_pass [OF sp that(1)] up [of n'] that(2) by blast
    ultimately show ?thesis using False unfolding seek_def by auto
  qed
qed

lemma UpdateLast_buffer_ok:
  assumes "0 \<le> ticks" "0 \<le> s" "s < NumSectors" "disk_ok d" "buffer_ok d"
  shows "buffer_ok (UpdateLast ticks s d)"
proof -
  obtain seek q where t: "TimeToSeek ticks s d = (seek, RotationTime * q - ticks - seek)" "0 \<le> seek" "ticks + seek \<le> RotationTime * q"
    by (rule TimeToSeek_spec [OF assms(1-4)])
  then show ?thesis using assms(1,5) by (auto simp: UpdateLast_def Let_def buffer_ok_def)
qed
text \<open>C27: Every request takes a positive, bounded time: at least the transfer of one sector, at most a
  seek across the whole disk, the rest of a sector, one rotation and the transfer. A read of a sector of the current
  track that has passed under the head since the track buffer was started takes exactly the transfer of one sector. Every other request, which are the
  writes, the requests on another track and the reads of the current track whose sector is not yet in the buffer, is
  transferred exactly while the requested sector passes under the head for the first time after the seek. A request leaves the start of the track buffer at a sector
  boundary.\<close>

theorem disk_latency:
  assumes "0 \<le> ticks" "0 \<le> s" "s < NumSectors" "disk_ok d" "buffer_ok d"
  shows "RotationTime \<le> ComputeLatency ticks s writing d
    \<and> ComputeLatency ticks s writing d < (NumTracks - 1) * SeekTime + (SectorsPerTrack + 1) * RotationTime
    \<and> (if \<not> writing \<and> in_track_buffer ticks s d then ComputeLatency ticks s writing d = RotationTime
       else \<exists>n. ticks + ComputeLatency ticks s writing d = (n + 1) * RotationTime \<and> n mod SectorsPerTrack = s mod SectorsPerTrack
         \<and> ticks + seek_ticks s d \<le> n * RotationTime
         \<and> (\<forall>n'. n' mod SectorsPerTrack = s mod SectorsPerTrack \<and> ticks + seek_ticks s d \<le> n' * RotationTime \<longrightarrow> n \<le> n'))
    \<and> buffer_ok (UpdateLast ticks s d)"
  using ComputeLatency_spec [OF assms(1-4), of writing] latency_passes [OF assms, of writing] UpdateLast_buffer_ok [OF assms] by blast

theorem disk_latency_witness:
  "let d = \<lparr>d_file = \<lparr>uf_bytes = replicate DiskSize 0, uf_pos = 0\<rparr>, d_active = False, d_lastSector = 5, d_bufferInit = 0\<rparr> in
     RotationTime \<le> ComputeLatency 120 37 True d \<and> ComputeLatency 120 37 True d = 2880 \<and> \<not> in_track_buffer 120 7 d
     \<and> (\<exists>n. 120 + ComputeLatency 120 7 False d = (n + 1) * RotationTime \<and> n mod SectorsPerTrack = 7)"
proof -
  define d where "d = \<lparr>d_file = \<lparr>uf_bytes = replicate DiskSize 0, uf_pos = 0\<rparr>, d_active = False, d_lastSector = 5, d_bufferInit = 0\<rparr>"
  have ok: "disk_ok d" "buffer_ok d" by (simp_all add: d_def disk_ok_def buffer_ok_def NumSectors_def NumTracks_def SectorsPerTrack_def)
  have "n mod 32 \<noteq> 7" if "0 \<le> n * RotationTime" "n * RotationTime < 120" for n :: int
  proof -
    have "n = 0" using that by (simp add: RotationTime_def)
    then show ?thesis by simp
  qed
  then have b: "\<not> in_track_buffer 120 7 d" unfolding in_track_buffer_def d_def SectorsPerTrack_def by fastforce
  have "RotationTime \<le> ComputeLatency 120 37 True d"
    using disk_latency [of 120 37 d True] ok by (simp add: NumSectors_def NumTracks_def SectorsPerTrack_def)
  moreover have "\<exists>n. 120 + ComputeLatency 120 7 False d = (n + 1) * RotationTime \<and> n mod SectorsPerTrack = 7"
    using disk_latency [of 120 7 d False] ok b by (auto simp: NumSectors_def NumTracks_def SectorsPerTrack_def)
  moreover have "ComputeLatency 120 37 True d = 2880"
    by (simp add: d_def ComputeLatency_def TimeToSeek_def ModuloDiff_def RotationTime_def SectorsPerTrack_def SeekTime_def sdiv_nonneg smod_nonneg)
  ultimately show ?thesis using b unfolding d_def [symmetric] Let_def by blast
qed

section \<open>Requests\<close>

lemma UpdateLast_simps [simp]: "d_file (UpdateLast ticks s d) = d_file d" "d_active (UpdateLast ticks s d) = d_active d"
  "d_lastSector (UpdateLast ticks s d) = s"
  by (simp_all add: UpdateLast_def Let_def split: prod.splits)

lemma Lseek_sector:
  assumes "0 \<le> s" "s < NumSectors"
  shows "Lseek (int SectorSize * s + int MagicSize) 0 f = Inr (f\<lparr>uf_pos := MagicSize + nat s * SectorSize\<rparr>)"
  using assms by (auto simp: Lseek_def disk_defs nat_add_distrib nat_mult_distrib)

lemma latency_pos: "0 \<le> ticks \<Longrightarrow> 0 \<le> s \<Longrightarrow> s < NumSectors \<Longrightarrow> disk_ok d \<Longrightarrow> 0 < ComputeLatency ticks s writing d"
  using ComputeLatency_spec [of ticks s d writing] by (simp add: RotationTime_def)

text \<open>On an idle disk both requests succeed, with the effect on the sectors one expects.\<close>

lemma sector_pos [simp]: "sector (d\<lparr>d_file := (d_file d)\<lparr>uf_pos := p\<rparr>, d_active := b\<rparr>) t = sector d t"
  by (simp add: sector_def)

lemma sector_UpdateLast [simp]: "sector (UpdateLast ticks s d) t = sector d t"
  by (simp add: sector_def)

lemma ReadRequest_ok:
  assumes "disk_ok d" "\<not> d_active d" "0 \<le> s" "s < NumSectors" "int_ok st" "0 \<le> now st"
  obtains l d' where "ReadRequest h a s d st = Inr (sector d (nat s), d', st\<lparr>stats := (stats st)\<lparr>numDiskReads := numDiskReads (stats st) + 1\<rparr>, pending := l\<rparr>)"
    "disk_ok d'" "d_active d'" "sector d' = sector d" "List_inv l"
    "List_elems l = sorted_ins (now st + ComputeLatency (now st) s False d)
       (PendingInterrupt_new h a (now st + ComputeLatency (now st) s False d) DiskInt) (List_elems (pending st))"
proof -
  let ?st = "st\<lparr>stats := (stats st)\<lparr>numDiskReads := numDiskReads (stats st) + 1\<rparr>\<rparr>" and ?t = "ComputeLatency (now st) s False d"
  have ok: "int_ok ?st" using assms(5) by (simp add: int_ok_def)
  obtain l where l: "Schedule h a ?t DiskInt ?st = Inr (?st\<lparr>pending := l\<rparr>)" "List_inv l"
    "List_elems l = sorted_ins (now st + ?t) (PendingInterrupt_new h a (now st + ?t) DiskInt) (List_elems (pending st))"
    using Schedule_ok [OF ok latency_pos [OF assms(6,3,4,1), of False], of h a DiskInt] by auto
  have len: "length (sector d (nat s)) = SectorSize" using length_sector [OF assms(1)] assms(3,4) by simp
  define f where "f = (d_file d)\<lparr>uf_pos := MagicSize + nat s * SectorSize + SectorSize\<rparr>"
  have "Host_Read SectorSize ((d_file d)\<lparr>uf_pos := MagicSize + nat s * SectorSize\<rparr>) = Inr (sector d (nat s), f)"
    using len by (simp add: Host_Read_def ReadPartial_def Let_def sector_def f_def)
  then show thesis
    using that [of "UpdateLast (now st) s (d\<lparr>d_file := f, d_active := True\<rparr>)" l] assms l Lseek_sector [OF assms(3,4), of "d_file d"]
    by (simp add: ReadRequest_def Let_def disk_ok_def f_def fun_eq_iff)
qed

lemma WriteRequest_ok:
  assumes "disk_ok d" "\<not> d_active d" "0 \<le> s" "s < NumSectors" "length bs = SectorSize" "int_ok st" "0 \<le> now st"
  obtains l d' where "WriteRequest h a s bs d st = Inr (d', st\<lparr>stats := (stats st)\<lparr>numDiskWrites := numDiskWrites (stats st) + 1\<rparr>, pending := l\<rparr>)"
    "disk_ok d'" "d_active d'" "\<forall>t. t < nat NumSectors \<longrightarrow> sector d' t = (if t = nat s then bs else sector d t)" "List_inv l"
    "List_elems l = sorted_ins (now st + ComputeLatency (now st) s True d)
       (PendingInterrupt_new h a (now st + ComputeLatency (now st) s True d) DiskInt) (List_elems (pending st))"
proof -
  let ?st = "st\<lparr>stats := (stats st)\<lparr>numDiskWrites := numDiskWrites (stats st) + 1\<rparr>\<rparr>" and ?t = "ComputeLatency (now st) s True d"
  have ok: "int_ok ?st" using assms(6) by (simp add: int_ok_def)
  obtain l where l: "Schedule h a ?t DiskInt ?st = Inr (?st\<lparr>pending := l\<rparr>)" "List_inv l"
    "List_elems l = sorted_ins (now st + ?t) (PendingInterrupt_new h a (now st + ?t) DiskInt) (List_elems (pending st))"
    using Schedule_ok [OF ok latency_pos [OF assms(7,3,4,1), of True], of h a DiskInt] by auto
  define f where "f = WriteFile bs ((d_file d)\<lparr>uf_pos := MagicSize + nat s * SectorSize\<rparr>)"
  define d' where "d' = UpdateLast (now st) s (d\<lparr>d_file := f, d_active := True\<rparr>)"
  have n: "nat s < nat NumSectors" using assms(3,4) by simp
  have "WriteRequest h a s bs d st = Inr (d', ?st\<lparr>pending := l\<rparr>)"
    using assms(2-5) l(1) Lseek_sector [OF assms(3,4), of "d_file d"] by (simp add: WriteRequest_def Let_def f_def d'_def)
  moreover have "disk_ok d'"
    using assms(1,3-5) sector_fits [OF n] by (simp add: disk_ok_def d'_def f_def WriteFile_def length_overwrite)
  moreover have "sector d' t = (if t = nat s then bs else sector d t)" if "t < nat NumSectors" for t
  proof -
    have "sector d' t = sector (d\<lparr>d_file := f\<rparr>) t" by (simp add: d'_def sector_def)
    then show ?thesis using sector_write [OF assms(1) n that assms(5)] by (simp add: f_def)
  qed
  ultimately show thesis using that [of d' l] l by (simp add: d'_def)
qed

end
