(* ===== verification/SynchDisk.thy ===== *)
theory SynchDisk
  imports Disk Synch
begin

text \<open>
  The synchronous disk, \<^verbatim>\<open>filesys/synchdisk.cc\<close>: a request waits on a semaphore for
  the disk's interrupt. The theory composes the disk, the interrupt simulation, semaphores,
  locks and the scheduler. The interpretation \<^verbatim>\<open>devices\<close> shows that the handlers of the
  disk and the timer meet the contract of the interrupt simulation; the interpretation
  \<^verbatim>\<open>synch_disk\<close> that the synchronous disk is a store of sectors, which is all the file
  system uses of it.
\<close>

section \<open>The machine with its devices\<close>

text \<open>
  The state of the kernel with the disk, the timer and the fields of \<^verbatim>\<open>SynchDisk\<close>.
  \<open>rand\<close> is the value the host's random number generator returns. A handler is one of the two
  functions that devices pass to \<^verbatim>\<open>Schedule\<close>; their object argument is the only
  device of its kind.
\<close>

datatype device = DiskDone | TimerHandler

record 'c DiskSys = "('c, device) Sim" +
  sd_disk :: Disk
  sd_semaphore :: Semaphore
  sd_lock :: Lock
  sd_timer :: Timer
  rand :: int

definition SynchDisk_new :: "bool \<Rightarrow> byte list option \<Rightarrow> nat option \<Rightarrow> ('c, 'z) DiskSys_scheme \<Rightarrow> (('c, 'z) DiskSys_scheme) res" where
  "SynchDisk_new be existing junk st = bindE (Disk_new be existing) (\<lambda>d.
     Inr (st\<lparr>sd_disk := d, sd_semaphore := Semaphore_new ''synch disk'' 0, sd_lock := Lock_new junk ''synch disk lock''\<rparr>))"

definition SynchDisk_destroy :: "('c, 'z) DiskSys_scheme \<Rightarrow> unit res" where
  "SynchDisk_destroy st = bindE (Lock_destroy (sd_lock st)) (\<lambda>_. Semaphore_destroy (sd_semaphore st))"

definition SynchDisk_RequestDone :: "('c, 'z) DiskSys_scheme \<Rightarrow> (('c, 'z) DiskSys_scheme) res" where
  "SynchDisk_RequestDone st = bindE (Semaphore_V (sd_semaphore st) st) (\<lambda>(s, st). Inr (st\<lparr>sd_semaphore := s\<rparr>))"

definition DiskRequestDone :: "int \<Rightarrow> ('c, 'z) DiskSys_scheme \<Rightarrow> (('c, 'z) DiskSys_scheme) res" where
  "DiskRequestDone arg st = SynchDisk_RequestDone st"

text \<open>What calling a handler does: \<^verbatim>\<open>Disk::HandleInterrupt\<close> calls \<^verbatim>\<open>DiskRequestDone\<close>.\<close>

definition dispatch :: "device \<Rightarrow> int \<Rightarrow> ('c, 'z) DiskSys_scheme \<Rightarrow> (('c, 'z) DiskSys_scheme) res" where
  "dispatch h arg st = (case h of
     DiskDone \<Rightarrow> DiskRequestDone arg (st\<lparr>sd_disk := Disk_HandleInterrupt (sd_disk st)\<rparr>)
   | TimerHandler \<Rightarrow> TimerExpired TimerHandler arg (rand st) (sd_timer st) st)"

text \<open>
  The bound on the interrupts a sleeping thread waits for. A disk request takes less than 33000
  ticks, and every interrupt of an idle machine advances the clock by at least one.
\<close>

definition WaitFuel :: nat where "WaitFuel = 33000"

definition sd_idle :: "('c, 'z) DiskSys_scheme \<Rightarrow> (('c, 'z) DiskSys_scheme) res" where
  "sd_idle st = Interrupt_Idle WaitFuel dispatch st"

section \<open>Synchronous requests\<close>

text \<open>
  \<^verbatim>\<open>semaphore->P()\<close> on the semaphore of the disk, which the interrupt handler changes
  while the thread sleeps. The operations below follow the thread \<open>me\<close> that calls them, whose
  continuation is \<open>k\<close>, and are suspended when another thread is switched to.
\<close>

fun SD_P_loop :: "nat \<Rightarrow> 'c \<Rightarrow> nat \<Rightarrow> ('c, 'z) DiskSys_scheme \<Rightarrow> (('c, 'z) DiskSys_scheme) res" where
  "SD_P_loop 0 k me st = Inl OutOfFuel"
| "SD_P_loop (Suc n) k me st =
     (let s = sd_semaphore st in
      if sem_value s = 0 then
        bindE (List_Append (currentThread st) (sem_queue s)) (\<lambda>q.
        bindE (Thread_Sleep WaitFuel sd_idle k (st\<lparr>sd_semaphore := s\<lparr>sem_queue := q\<rparr>\<rparr>)) (\<lambda>st.
        if currentThread st = me then SD_P_loop n k me st else Inl Suspended))
      else bindE (restore st) (\<lambda>st. Inr (st\<lparr>sd_semaphore := s\<lparr>sem_value := sem_value s - 1\<rparr>\<rparr>)))"

definition SD_P :: "'c \<Rightarrow> ('c, 'z) DiskSys_scheme \<Rightarrow> (('c, 'z) DiskSys_scheme) res" where
  "SD_P k st = bindE (disable st) (SD_P_loop WaitFuel k (currentThread st))"

definition SD_Acquire :: "'c \<Rightarrow> ('c, 'z) DiskSys_scheme \<Rightarrow> (('c, 'z) DiskSys_scheme) res" where
  "SD_Acquire k st = bindE (Lock_Acquire WaitFuel sd_idle k k (sd_lock st) st) (\<lambda>(l, st').
     if currentThread st' = currentThread st \<and> lock_holder l = Some (currentThread st) then Inr (st'\<lparr>sd_lock := l\<rparr>) else Inl Suspended)"

definition SD_Release :: "('c, 'z) DiskSys_scheme \<Rightarrow> (('c, 'z) DiskSys_scheme) res" where
  "SD_Release st = bindE (Lock_Release (sd_lock st) st) (\<lambda>(l, st). Inr (st\<lparr>sd_lock := l\<rparr>))"

definition cont_of :: "('c, 'z) Nachos_scheme \<Rightarrow> 'c res" where
  "cont_of st = bindE (get_thread (currentThread st) st) (\<lambda>th. Inr (th_cont th))"

definition ReadSector :: "int \<Rightarrow> ('c, 'z) DiskSys_scheme \<Rightarrow> (byte list \<times> ('c, 'z) DiskSys_scheme) res" where
  "ReadSector sectorNumber st =
     bindE (cont_of st) (\<lambda>k.
     bindE (SD_Acquire k st) (\<lambda>st.
     bindE (ReadRequest DiskDone 0 sectorNumber (sd_disk st) st) (\<lambda>(bs, d, st).
     bindE (SD_P k (st\<lparr>sd_disk := d\<rparr>)) (\<lambda>st.
     bindE (SD_Release st) (\<lambda>st. Inr (bs, st))))))"

definition WriteSector :: "int \<Rightarrow> byte list \<Rightarrow> ('c, 'z) DiskSys_scheme \<Rightarrow> (('c, 'z) DiskSys_scheme) res" where
  "WriteSector sectorNumber bs st =
     bindE (cont_of st) (\<lambda>k.
     bindE (SD_Acquire k st) (\<lambda>st.
     bindE (WriteRequest DiskDone 0 sectorNumber bs (sd_disk st) st) (\<lambda>(d, st).
     bindE (SD_P k (st\<lparr>sd_disk := d\<rparr>)) SD_Release)))"

section \<open>Handlers\<close>

text \<open>What the handlers need: the threads that wait for the disk exist.\<close>

definition dev_ok :: "('c, 'z) DiskSys_scheme \<Rightarrow> bool" where
  "dev_ok st \<longleftrightarrow> List_inv (sem_queue (sd_semaphore st)) \<and> (\<forall>t \<in> set (List_items (sem_queue (sd_semaphore st))). threads st t \<noteq> None)
     \<and> List_inv (readyList st) \<and> threads st (currentThread st) \<noteq> None"

text \<open>\<^verbatim>\<open>V\<close> in the handler makes the first waiting thread ready.\<close>

lemma RequestDone_wakes:
  assumes "List_inv (sem_queue (sd_semaphore st))" "List_items (sem_queue (sd_semaphore st)) = t # ts" "List_inv (readyList st)"
    "threads st (currentThread st) = Some c" "threads st t = Some th"
  obtains l q where "SynchDisk_RequestDone st = Inr (st\<lparr>threads := (threads st)(t \<mapsto> th\<lparr>th_status := READY\<rparr>), readyList := l,
      sd_semaphore := (sd_semaphore st)\<lparr>sem_queue := q, sem_value := sem_value (sd_semaphore st) + 1\<rparr>\<rparr>)"
    "List_inv l" "List_items l = ready st @ [t]" "List_inv q" "List_items q = ts"
proof -
  obtain q where q: "List_Remove (sem_queue (sd_semaphore st)) = Inr (Some t, q)" "List_inv q" "List_items q = ts"
    using list_fifo.deq_ok [OF assms(1,2)] by auto
  define s1 where "s1 = st\<lparr>threads := (threads st)(currentThread st \<mapsto> c\<lparr>th_levels := level st # th_levels c\<rparr>), level := IntOff\<rparr>"
  have d: "disable st = Inr s1" using assms(4) by (simp add: disable_def s1_def)
  have t1: "threads s1 t = Some (if t = currentThread st then th\<lparr>th_levels := level st # th_levels th\<rparr> else th)"
    using assms(4,5) by (auto simp: s1_def)
  have inv1: "List_inv (readyList s1)" "ready s1 = ready st" using assms(3) by (simp_all add: s1_def ready_def)
  obtain l where l: "ReadyToRun t s1 = Inr (s1\<lparr>threads := (threads s1)(t \<mapsto> (the (threads s1 t))\<lparr>th_status := READY\<rparr>), readyList := l\<rparr>)"
      "List_inv l" "List_items l = ready st @ [t]"
    using ReadyToRun_spec [OF inv1(1) t1] inv1(2) t1 by (metis option.sel)
  define s2 where "s2 = s1\<lparr>threads := (threads s1)(t \<mapsto> (the (threads s1 t))\<lparr>th_status := READY\<rparr>), readyList := l\<rparr>"
  have "restore s2 = Inr (st\<lparr>threads := (threads st)(t \<mapsto> th\<lparr>th_status := READY\<rparr>), readyList := l\<rparr>)"
  proof (cases "t = currentThread st")
    case True
    then show ?thesis using assms(4,5) t1 by (cases st, cases th) (simp add: restore_def s2_def s1_def)
  next
    case False
    then have "(threads st)(currentThread st \<mapsto> c, t \<mapsto> th\<lparr>th_status := READY\<rparr>) = (threads st)(t \<mapsto> th\<lparr>th_status := READY\<rparr>)"
      using assms(4) by (auto simp: fun_eq_iff)
    then show ?thesis using False assms(4,5) t1 by (cases st, cases c) (simp add: restore_def s2_def s1_def fun_upd_twist)
  qed
  then show thesis
    using that [of q l] q d l by (simp add: SynchDisk_RequestDone_def Semaphore_V_def wake_removed_def s2_def [symmetric])
qed

text \<open>The handlers of the devices satisfy the contract of the interrupt simulation.\<close>

lemma RequestDone_empty:
  assumes "List_inv (sem_queue (sd_semaphore st))" "List_items (sem_queue (sd_semaphore st)) = []" "threads st (currentThread st) = Some c"
  shows "SynchDisk_RequestDone st = Inr (st\<lparr>sd_semaphore := (sd_semaphore st)\<lparr>sem_value := sem_value (sd_semaphore st) + 1\<rparr>\<rparr>)"
proof -
  have "List_Remove (sem_queue (sd_semaphore st)) = Inr (None, sem_queue (sd_semaphore st))"
    by (rule list_fifo.deq_empty [OF assms(1,2)])
  moreover have "bindE (disable st) restore = Inr st"
    using assms(3) by (cases st, cases c) (simp add: disable_def restore_def fun_upd_idem)
  then obtain s where "disable st = Inr s" "restore s = Inr st" by (auto simp: bindE_eq_Inr)
  ultimately show ?thesis by (simp add: SynchDisk_RequestDone_def Semaphore_V_def wake_removed_def)
qed

lemma dispatch_disk:
  assumes "dev_ok st"
  shows "\<exists>st'. dispatch DiskDone a st = Inr st' \<and> dev_ok st' \<and> pending st' = pending st \<and> stats st' = stats st \<and> level st' = level st \<and> kmem st' = kmem st"
proof -
  let ?s = "st\<lparr>sd_disk := Disk_HandleInterrupt (sd_disk st)\<rparr>"
  obtain c where c: "threads st (currentThread st) = Some c" using assms by (auto simp: dev_ok_def)
  have q: "List_inv (sem_queue (sd_semaphore ?s))" "List_inv (readyList ?s)" using assms by (simp_all add: dev_ok_def)
  show ?thesis
  proof (cases "List_items (sem_queue (sd_semaphore st))")
    case Nil
    then show ?thesis
      using assms c RequestDone_empty [OF q(1), of c] by (simp add: dispatch_def DiskRequestDone_def dev_ok_def)
  next
    case (Cons t ts)
    obtain th where th: "threads st t = Some th" using assms Cons by (auto simp: dev_ok_def)
    show ?thesis
      by (rule RequestDone_wakes [OF q(1) _ q(2), of t ts c th])
        (use Cons c th assms in \<open>auto simp: dispatch_def DiskRequestDone_def dev_ok_def\<close>)
  qed
qed

lemma dispatch_timer:
  assumes "int_ok st" "dev_ok st" "inHandler st"
  obtains l y p where "dispatch TimerHandler a st = Inr (st\<lparr>pending := l, yieldOnReturn := y\<rparr>)" "List_inv l"
    "List_elems l = sorted_ins (pi_when p) p (List_elems (pending st))" "now st < pi_when p"
proof -
  let ?n = "TimeOfNextInterrupt (rand st) (sd_timer st)"
  have "0 \<le> rand st mod 200" by simp
  then have pos: "0 < ?n" unfolding TimeOfNextInterrupt_def TimerTicks_def by (simp add: add_pos_nonneg)
  obtain l where l: "Schedule TimerHandler a ?n TimerInt st = Inr (st\<lparr>pending := l\<rparr>)" "List_inv l"
     "List_elems l = sorted_ins (now st + ?n) (PendingInterrupt_new TimerHandler a (now st + ?n) TimerInt) (List_elems (pending st))"
    by (rule Schedule_ok [OF assms(1) pos])
  show thesis
  proof (cases "status st = IdleMode")
    case True
    then show thesis
      using that [where y = "yieldOnReturn st" and p = "PendingInterrupt_new TimerHandler a (now st + ?n) TimerInt"] l pos
      by (simp add: dispatch_def TimerExpired_def TimerInterruptHandler_def PendingInterrupt_new_def)
  next
    case False
    then show thesis
      using that [where y = True and p = "PendingInterrupt_new TimerHandler a (now st + ?n) TimerInt"] l pos assms(3)
      by (simp add: dispatch_def TimerExpired_def TimerInterruptHandler_def YieldOnReturn_def PendingInterrupt_new_def)
  qed
qed

interpretation devices: interrupt_handlers dispatch dev_ok
proof
  fix st :: "('a, 'b) DiskSys_scheme" and h a
  assume a: "int_ok st" "dev_ok st" "level st = IntOff" "inHandler st"
  let ?P = "\<lambda>st' new. dispatch h a st = Inr st' \<and> dev_ok st' \<and> List_inv (pending st')
    \<and> List_elems (pending st') = fold (\<lambda>(k, x). sorted_ins k x) new (List_elems (pending st))
    \<and> (\<forall>(k, p) \<in> set new. now st < k \<and> k = pi_when p) \<and> now st' = now st \<and> level st' = IntOff
    \<and> registers (mach st') LoadReg = registers (mach st) LoadReg"
  show "\<exists>st' new. ?P st' new"
  proof (cases h)
    case DiskDone
    then obtain st' where "dispatch h a st = Inr st'" "dev_ok st'" "pending st' = pending st" "stats st' = stats st" "level st' = level st" "kmem st' = kmem st"
      using dispatch_disk [OF a(2), of a] by auto
    then have "?P st' []" using a(1,3) by (simp add: int_ok_def)
    then show ?thesis by blast
  next
    case TimerHandler
    obtain l y p where l: "dispatch TimerHandler a st = Inr (st\<lparr>pending := l, yieldOnReturn := y\<rparr>)" "List_inv l"
        "List_elems l = sorted_ins (pi_when p) p (List_elems (pending st))" "now st < pi_when p"
      by (rule dispatch_timer [OF a(1,2,4)])
    then have "?P (st\<lparr>pending := l, yieldOnReturn := y\<rparr>) [(pi_when p, p)]" using a TimerHandler by (simp add: dev_ok_def)
    then show ?thesis by blast
  qed
next
  fix st :: "('a, 'b) DiskSys_scheme" and km lv l b y s x
  show "dev_ok (st\<lparr>kmem := km, level := lv, pending := l, inHandler := b, yieldOnReturn := y, status := s, stats := x\<rparr>) = dev_ok st"
    by (simp add: dev_ok_def)
qed

section \<open>Waiting for the disk\<close>

text \<open>A thread that sleeps alone is switched back to itself once an interrupt has made it ready.\<close>

lemma Scheduler_Run_self:
  assumes "threads st (currentThread st) = Some th" "th_stack th \<in> {None, Some STACK_FENCEPOST}" "\<not> th_fresh th"
    "\<And>a. th_space th = Some a \<Longrightarrow> spaces st a \<noteq> None" "threadToBeDestroyed st = None"
  obtains m u where "Scheduler_Run (currentThread st) st = Inr (st\<lparr>kmem := (kmem st)\<lparr>km_machine := m\<rparr>,
      threads := (threads st)(currentThread st \<mapsto> th\<lparr>userRegisters := u, th_status := RUNNING\<rparr>)\<rparr>)"
    "hostBigEndian m = hostBigEndian (mach st)" "registers m LoadReg = registers (mach st) LoadReg"
proof (cases "th_space th")
  case None
  have "CheckOverflow (currentThread st) st = Inr ()" using assms(1,2) by (auto simp: CheckOverflow_def assertE_def)
  then show thesis
    using that [where m = "mach st" and u = "userRegisters th"] assms None
    by (simp add: Scheduler_Run_def run_before_switch_def run_after_switch_def setStatus_def Let_def)
next
  case (Some a)
  obtain s where s: "spaces st a = Some s" using assms(4) Some by blast
  define u where "u = (\<lambda>i. if i < NumTotalRegs then registers (mach st) i else userRegisters th i)"
  let ?th = "th\<lparr>userRegisters := u, th_status := RUNNING\<rparr>"
  define s1 where "s1 = st\<lparr>threads := (threads st)(currentThread st \<mapsto> ?th)\<rparr>"
  have b: "run_before_switch (currentThread st) st = Inr s1"
    using assms(1,2) Some SaveUserState_spec [OF assms(1)]
    by (auto simp: run_before_switch_def CheckOverflow_def setStatus_def assertE_def Let_def u_def s1_def)
  have t1: "threads s1 (currentThread s1) = Some ?th" by (simp add: s1_def)
  let ?m = "AddrSpace_RestoreState s ((mach st)\<lparr>registers := (\<lambda>i. if i < NumTotalRegs then u i else registers (mach st) i)\<rparr>)"
  have "run_after_switch s1 = Inr (s1\<lparr>kmem := (kmem s1)\<lparr>km_machine := ?m\<rparr>\<rparr>)"
    using RestoreUserState_spec [OF t1] assms(3,5) Some s
    by (simp add: run_after_switch_def get_space_def s1_def cong: if_cong)
  then have "Scheduler_Run (currentThread st) st = Inr (st\<lparr>kmem := (kmem st)\<lparr>km_machine := ?m\<rparr>,
      threads := (threads st)(currentThread st \<mapsto> ?th)\<rparr>)"
    using b by (simp add: Scheduler_Run_def s1_def)
  then show thesis
    using that [where m = ?m and u = u] by (simp add: AddrSpace_RestoreState_def u_def reg_defs NumTotalRegs_def)
qed

lemma WaitFuel_Suc: obtains n where "WaitFuel = Suc (Suc n)"
  using that [of 32998] by (simp add: WaitFuel_def)

text \<open>The state of a thread that waits for the disk, which is the only thread.\<close>

definition awaiting :: "('c, 'z) DiskSys_scheme \<Rightarrow> bool" where
  "awaiting st \<longleftrightarrow> int_ok st \<and> level st = IntOff \<and> List_inv (readyList st) \<and> ready st = []
     \<and> map (\<lambda>(k, p). (pi_handler p, pi_type p)) (List_elems (pending st)) = [(DiskDone, DiskInt)]
     \<and> List_inv (sem_queue (sd_semaphore st)) \<and> List_items (sem_queue (sd_semaphore st)) = [currentThread st] \<and> sem_value (sd_semaphore st) = 0"

lemma idle_wakes:
  assumes "awaiting st" "threads st (currentThread st) = Some th"
  obtains m l l2 q x where "sd_idle st = Inr (st\<lparr>kmem := (kmem st)\<lparr>km_machine := m\<rparr>, threads := (threads st)(currentThread st \<mapsto> th\<lparr>th_status := READY\<rparr>),
      readyList := l, pending := l2, inHandler := False, yieldOnReturn := False, status := SystemMode, stats := x,
      sd_disk := Disk_HandleInterrupt (sd_disk st), sd_semaphore := (sd_semaphore st)\<lparr>sem_queue := q, sem_value := 1\<rparr>\<rparr>)"
    "hostBigEndian m = hostBigEndian (mach st)" "registers m LoadReg = 0" "List_inv l" "List_items l = [currentThread st]"
    "List_inv l2" "List_elems l2 = []" "List_inv q" "List_items q = []" "now st \<le> totalTicks x"
proof -
  obtain w p where e: "List_elems (pending st) = [(w, p)]" "pi_handler p = DiskDone" "pi_type p = DiskInt"
    using assms(1) by (auto simp: awaiting_def map_eq_Cons_conv)
  obtain l2 where l2: "List_SortedRemove (pending st) = Inr (Some (w, p), l2)" "List_inv l2" "List_elems l2 = []"
    using list_sorted.rem_ok [OF _ e(1)] assms(1) by (auto simp: awaiting_def int_ok_def)
  define x where "x = (if w > now st then (stats st)\<lparr>idleTicks := idleTicks (stats st) + (w - now st), totalTicks := w\<rparr> else stats st)"
  obtain m where m: "DelayedLoad 0 0 (mach st) = Inr m" "registers m LoadReg = 0" "hostBigEndian m = hostBigEndian (mach st)"
    using assms(1) by (auto simp: awaiting_def int_ok_def DelayedLoad_def Let_def reg_defs)
  define s1 where "s1 = st\<lparr>kmem := (kmem st)\<lparr>km_machine := m\<rparr>, pending := l2, inHandler := True, status := SystemMode, stats := x,
     sd_disk := Disk_HandleInterrupt (sd_disk st)\<rparr>"
  have s1: "List_inv (sem_queue (sd_semaphore s1))" "List_items (sem_queue (sd_semaphore s1)) = [currentThread s1]" "List_inv (readyList s1)"
      "threads s1 (currentThread s1) = Some th" "ready s1 = []" "sem_value (sd_semaphore s1) = 0"
    using assms by (simp_all add: awaiting_def s1_def ready_def)
  obtain l q where v: "SynchDisk_RequestDone s1 = Inr (s1\<lparr>threads := (threads s1)(currentThread s1 \<mapsto> th\<lparr>th_status := READY\<rparr>), readyList := l,
      sd_semaphore := (sd_semaphore s1)\<lparr>sem_queue := q, sem_value := sem_value (sd_semaphore s1) + 1\<rparr>\<rparr>)"
    "List_inv l" "List_items l = ready s1 @ [currentThread s1]" "List_inv q" "List_items q = []"
    by (rule RequestDone_wakes [OF s1(1,2,3,4,4)])
  define s2 where "s2 = st\<lparr>kmem := (kmem st)\<lparr>km_machine := m\<rparr>, threads := (threads st)(currentThread st \<mapsto> th\<lparr>th_status := READY\<rparr>),
      readyList := l, pending := l2, inHandler := False, status := IdleMode, stats := x,
      sd_disk := Disk_HandleInterrupt (sd_disk st), sd_semaphore := (sd_semaphore st)\<lparr>sem_queue := q, sem_value := 1\<rparr>\<rparr>"
  have lv: "level st = IntOff" using assms(1) by (simp add: awaiting_def)
  have c: "CheckIfDue dispatch True (st\<lparr>status := IdleMode\<rparr>) = bindE (invoke dispatch p (st\<lparr>pending := l2, status := IdleMode, stats := x\<rparr>)) (\<lambda>st. Inr (True, st))"
    using l2(1) lv e(3) by (cases st) (auto simp: CheckIfDue_def Let_def x_def)
  have "invoke dispatch p (st\<lparr>pending := l2, status := IdleMode, stats := x\<rparr>)
      = bindE (SynchDisk_RequestDone s1) (\<lambda>st. Inr (st\<lparr>inHandler := False, status := IdleMode\<rparr>))"
    using m(1) e(2) by (cases st) (simp add: invoke_def Let_def dispatch_def DiskRequestDone_def s1_def)
  also have "\<dots> = Inr s2" unfolding v(1) using s1(6) by (cases st) (simp add: s1_def s2_def)
  finally have i: "CheckIfDue dispatch True (st\<lparr>status := IdleMode\<rparr>) = Inr (True, s2)" using c by simp
  have "List_SortedRemove l2 = Inr (None, l2)" by (rule list_sorted.rem_empty [OF l2(2,3)])
  then have "CheckIfDue dispatch False s2 = Inr (False, s2)"
    using lv by (cases st) (simp add: CheckIfDue_def s2_def)
  moreover obtain n where "WaitFuel = Suc (Suc n)" by (rule WaitFuel_Suc)
  ultimately have "due_loop WaitFuel dispatch s2 = Inr s2" unfolding \<open>WaitFuel = Suc (Suc n)\<close> by (subst due_loop.simps) simp
  then have "sd_idle st = Inr (s2\<lparr>yieldOnReturn := False, status := SystemMode\<rparr>)"
    using i by (simp add: sd_idle_def Interrupt_Idle_def)
  then show thesis
    using that [where m = m and l = l and ?l2.0 = l2 and x = x and q = q] m l2 v s1(5) by (simp add: s2_def s1_def x_def)
qed

text \<open>The running thread of a one-thread system.\<close>

definition sole_thread :: "('c, 'z) Nachos_scheme \<Rightarrow> 'c Thread \<Rightarrow> bool" where
  "sole_thread st th \<longleftrightarrow> threads st (currentThread st) = Some th \<and> th_stack th \<in> {None, Some STACK_FENCEPOST} \<and> \<not> th_fresh th
     \<and> (\<forall>a. th_space th = Some a \<longrightarrow> spaces st a \<noteq> None) \<and> threadToBeDestroyed st = None \<and> List_inv (readyList st) \<and> ready st = []"

lemma disk_sleep:
  assumes "awaiting st" "sole_thread st th"
  obtains m u l l2 q x where "Thread_Sleep WaitFuel sd_idle k st = Inr (st\<lparr>kmem := (kmem st)\<lparr>km_machine := m\<rparr>,
      threads := (threads st)(currentThread st \<mapsto> th\<lparr>th_status := RUNNING, userRegisters := u, th_cont := k\<rparr>),
      readyList := l, pending := l2, inHandler := False, yieldOnReturn := False, status := SystemMode, stats := x,
      sd_disk := Disk_HandleInterrupt (sd_disk st), sd_semaphore := (sd_semaphore st)\<lparr>sem_queue := q, sem_value := 1\<rparr>\<rparr>)"
    "hostBigEndian m = hostBigEndian (mach st)" "registers m LoadReg = 0" "List_inv l" "List_items l = []"
    "List_inv l2" "List_elems l2 = []" "List_inv q" "List_items q = []" "now st \<le> totalTicks x"
proof -
  let ?c = "currentThread st"
  have th: "threads st ?c = Some th" "th_stack th \<in> {None, Some STACK_FENCEPOST}" "\<not> th_fresh th" "\<forall>a. th_space th = Some a \<longrightarrow> spaces st a \<noteq> None"
      "threadToBeDestroyed st = None"
    using assms(2) by (simp_all add: sole_thread_def)
  define s1 where "s1 = st\<lparr>threads := (threads st)(?c \<mapsto> th\<lparr>th_status := BLOCKED, th_cont := k\<rparr>)\<rparr>"
  have a1: "awaiting s1" "threads s1 (currentThread s1) = Some (th\<lparr>th_status := BLOCKED, th_cont := k\<rparr>)"
    using assms(1) by (simp_all add: awaiting_def s1_def int_ok_def ready_def)
  obtain m l1 l2 q x where i: "sd_idle s1 = Inr (s1\<lparr>kmem := (kmem s1)\<lparr>km_machine := m\<rparr>,
      threads := (threads s1)(currentThread s1 \<mapsto> th\<lparr>th_status := BLOCKED, th_cont := k\<rparr>\<lparr>th_status := READY\<rparr>),
      readyList := l1, pending := l2, inHandler := False, yieldOnReturn := False, status := SystemMode, stats := x,
      sd_disk := Disk_HandleInterrupt (sd_disk s1), sd_semaphore := (sd_semaphore s1)\<lparr>sem_queue := q, sem_value := 1\<rparr>\<rparr>)"
    and r: "hostBigEndian m = hostBigEndian (mach s1)" "registers m LoadReg = 0" "List_inv l1" "List_items l1 = [currentThread s1]"
      "List_inv l2" "List_elems l2 = []" "List_inv q" "List_items q = []" "now s1 \<le> totalTicks x"
    by (rule idle_wakes [OF a1])
  obtain l where l: "List_Remove l1 = Inr (Some ?c, l)" "List_inv l" "List_items l = []"
    using list_fifo.deq_ok [OF r(3,4)] by (auto simp: s1_def)
  define s2 where "s2 = st\<lparr>kmem := (kmem st)\<lparr>km_machine := m\<rparr>, threads := (threads st)(?c \<mapsto> th\<lparr>th_status := READY, th_cont := k\<rparr>),
      readyList := l1, pending := l2, inHandler := False, yieldOnReturn := False, status := SystemMode, stats := x,
      sd_disk := Disk_HandleInterrupt (sd_disk st), sd_semaphore := (sd_semaphore st)\<lparr>sem_queue := q, sem_value := 1\<rparr>\<rparr>"
  have i2: "sd_idle s1 = Inr s2" unfolding i by (cases st, cases th) (simp add: s1_def s2_def)
  define s3 where "s3 = s2\<lparr>readyList := l\<rparr>"
  have t3: "threads s3 (currentThread s3) = Some (th\<lparr>th_status := READY, th_cont := k\<rparr>)" "currentThread s3 = ?c" "spaces s3 = spaces st"
      "threadToBeDestroyed s3 = None" "mach s3 = m"
    using th(5) by (simp_all add: s3_def s2_def)
  obtain m' u where run: "Scheduler_Run (currentThread s3) s3 = Inr (s3\<lparr>kmem := (kmem s3)\<lparr>km_machine := m'\<rparr>,
      threads := (threads s3)(currentThread s3 \<mapsto> th\<lparr>th_status := READY, th_cont := k\<rparr>\<lparr>userRegisters := u, th_status := RUNNING\<rparr>)\<rparr>)"
    and m': "hostBigEndian m' = hostBigEndian (mach s3)" "registers m' LoadReg = registers (mach s3) LoadReg"
    by (rule Scheduler_Run_self [OF t3(1)]) (use th t3 in auto)
  have "List_Remove (readyList s1) = Inr (None, readyList s1)"
    by (rule list_fifo.deq_empty) (use assms(2) in \<open>simp_all add: sole_thread_def s1_def ready_def\<close>)
  then have f1: "FindNextToRun s1 = Inr (None, s1)" by (simp add: FindNextToRun_def)
  have f2: "FindNextToRun s2 = Inr (Some ?c, s3)" using l(1) by (simp add: FindNextToRun_def s2_def s3_def)
  obtain n where n: "WaitFuel = Suc (Suc n)" by (rule WaitFuel_Suc)
  have "Sleep_loop WaitFuel sd_idle s1 = Scheduler_Run ?c s3"
    unfolding n using f1 f2 i2 by simp
  moreover have "Thread_Sleep WaitFuel sd_idle k st = Sleep_loop WaitFuel sd_idle s1"
    using assms(1) th(1) by (simp add: Thread_Sleep_def setStatus_def set_cont_def awaiting_def s1_def)
  moreover have "Scheduler_Run ?c s3 = Inr (st\<lparr>kmem := (kmem st)\<lparr>km_machine := m'\<rparr>,
      threads := (threads st)(currentThread st \<mapsto> th\<lparr>th_status := RUNNING, userRegisters := u, th_cont := k\<rparr>),
      readyList := l, pending := l2, inHandler := False, yieldOnReturn := False, status := SystemMode, stats := x,
      sd_disk := Disk_HandleInterrupt (sd_disk st), sd_semaphore := (sd_semaphore st)\<lparr>sem_queue := q, sem_value := 1\<rparr>\<rparr>)"
    using run t3(2) by (cases st, cases th) (simp add: s3_def s2_def)
  ultimately show thesis
    using that [where m = m' and u = u and l = l and ?l2.0 = l2 and q = q and x = x] r l m' t3(5)
    by (simp add: s1_def)
qed

lemma disk_wait:
  assumes "int_ok st" "level st = IntOn" "sole_thread st th" "th_cont th = k"
    "map (\<lambda>(k, p). (pi_handler p, pi_type p)) (List_elems (pending st)) = [(DiskDone, DiskInt)]"
    "List_inv (sem_queue (sd_semaphore st))" "List_items (sem_queue (sd_semaphore st)) = []" "sem_value (sd_semaphore st) = 0"
  obtains m u l l2 q x where "SD_P k st = Inr (st\<lparr>kmem := (kmem st)\<lparr>km_machine := m\<rparr>,
      threads := (threads st)(currentThread st \<mapsto> th\<lparr>th_status := RUNNING, userRegisters := u\<rparr>),
      readyList := l, pending := l2, inHandler := False, yieldOnReturn := False, status := SystemMode, stats := x,
      sd_disk := Disk_HandleInterrupt (sd_disk st), sd_semaphore := (sd_semaphore st)\<lparr>sem_queue := q, sem_value := 0\<rparr>\<rparr>)"
    "hostBigEndian m = hostBigEndian (mach st)" "registers m LoadReg = 0" "List_inv l" "List_items l = []"
    "List_inv l2" "List_elems l2 = []" "List_inv q" "List_items q = []" "now st \<le> totalTicks x"
proof -
  let ?c = "currentThread st"
  have th: "threads st ?c = Some th" using assms(3) by (simp add: sole_thread_def)
  obtain q0 where q0: "List_Append ?c (sem_queue (sd_semaphore st)) = Inr q0" "List_inv q0" "List_items q0 = [?c]"
    using list_fifo.enq_ok [OF assms(6), of ?c] assms(7) by auto
  define t1 where "t1 = th\<lparr>th_levels := IntOn # th_levels th\<rparr>"
  define s0 where "s0 = st\<lparr>threads := (threads st)(?c \<mapsto> t1), level := IntOff\<rparr>"
  define s1 where "s1 = s0\<lparr>sd_semaphore := (sd_semaphore st)\<lparr>sem_queue := q0\<rparr>\<rparr>"
  have d: "disable st = Inr s0" using th assms(2) by (simp add: disable_def s0_def t1_def)
  have "awaiting s1" "sole_thread s1 t1"
    using assms q0 by (simp_all add: awaiting_def sole_thread_def s1_def s0_def int_ok_def ready_def t1_def)
  then obtain m u l l2 q x where sl: "Thread_Sleep WaitFuel sd_idle k s1 = Inr (s1\<lparr>kmem := (kmem s1)\<lparr>km_machine := m\<rparr>,
      threads := (threads s1)(currentThread s1 \<mapsto> t1\<lparr>th_status := RUNNING, userRegisters := u, th_cont := k\<rparr>),
      readyList := l, pending := l2, inHandler := False, yieldOnReturn := False, status := SystemMode, stats := x,
      sd_disk := Disk_HandleInterrupt (sd_disk s1), sd_semaphore := (sd_semaphore s1)\<lparr>sem_queue := q, sem_value := 1\<rparr>\<rparr>)" (is "_ = Inr ?s2")
    and r: "hostBigEndian m = hostBigEndian (mach s1)" "registers m LoadReg = 0" "List_inv l" "List_items l = []"
      "List_inv l2" "List_elems l2 = []" "List_inv q" "List_items q = []" "now s1 \<le> totalTicks x"
    by (rule disk_sleep)
  define s2 where "s2 = ?s2"
  define s3 where "s3 = st\<lparr>kmem := (kmem st)\<lparr>km_machine := m\<rparr>,
      threads := (threads st)(?c \<mapsto> th\<lparr>th_status := RUNNING, userRegisters := u\<rparr>),
      readyList := l, pending := l2, inHandler := False, yieldOnReturn := False, status := SystemMode, stats := x,
      sd_disk := Disk_HandleInterrupt (sd_disk st), sd_semaphore := (sd_semaphore st)\<lparr>sem_queue := q, sem_value := 1\<rparr>\<rparr>"
  have rs: "restore s2 = Inr s3"
    using assms(2,4) by (cases st, cases th) (simp add: restore_def s2_def s3_def s1_def s0_def t1_def)
  have v: "sem_value (sd_semaphore s2) = 1" "sem_value (sd_semaphore s0) = 0" "currentThread s2 = ?c" "currentThread s0 = ?c"
      "sd_semaphore s0 = sd_semaphore st" "sd_semaphore s2 = (sd_semaphore st)\<lparr>sem_queue := q, sem_value := 1\<rparr>"
    using assms(8) by (simp_all add: s2_def s1_def s0_def)
  obtain n where n: "WaitFuel = Suc (Suc n)" by (rule WaitFuel_Suc)
  have "SD_P_loop (Suc n) k ?c s2 = Inr (s3\<lparr>sd_semaphore := (sd_semaphore st)\<lparr>sem_queue := q, sem_value := 0\<rparr>\<rparr>)"
    using rs v by simp
  then have "SD_P_loop (Suc (Suc n)) k ?c s0 = Inr (s3\<lparr>sd_semaphore := (sd_semaphore st)\<lparr>sem_queue := q, sem_value := 0\<rparr>\<rparr>)"
    using q0(1) sl v(2-5) unfolding SD_P_loop.simps(2) [of "Suc n"] s1_def [symmetric] s2_def [symmetric] by (simp add: Let_def s1_def [symmetric])
  then have "SD_P k st = Inr (s3\<lparr>sd_semaphore := (sd_semaphore st)\<lparr>sem_queue := q, sem_value := 0\<rparr>\<rparr>)"
    using d n by (simp add: SD_P_def)
  then show thesis
    using that [where m = m and u = u and l = l and ?l2.0 = l2 and q = q and x = x] r by (simp add: s3_def s1_def s0_def)
qed

section \<open>Synchronous reads and writes\<close>

text \<open>
  The system between two synchronous requests of its only thread: no interrupt is pending, the
  disk is idle, the semaphore is zero and the lock is free.
\<close>

definition disk_quiet :: "('c, 'z) DiskSys_scheme \<Rightarrow> bool" where
  "disk_quiet st \<longleftrightarrow> (\<exists>th. sole_thread st th \<and> th_status th = RUNNING) \<and> level st = IntOn \<and> int_ok st \<and> List_elems (pending st) = [] \<and> 0 \<le> now st
     \<and> List_inv (sem_queue (sd_semaphore st)) \<and> List_items (sem_queue (sd_semaphore st)) = [] \<and> sem_value (sd_semaphore st) = 0
     \<and> lock_free (sd_lock st) \<and> List_inv (lock_queue (sd_lock st)) \<and> List_items (lock_queue (sd_lock st)) = []
     \<and> disk_ok (sd_disk st) \<and> \<not> d_active (sd_disk st)"

lemma disable_restore:
  "threads st (currentThread st) = Some th \<Longrightarrow> \<exists>s. disable st = Inr s \<and> restore s = Inr st \<and> currentThread s = currentThread st
     \<and> threads s = (threads st)(currentThread st \<mapsto> th\<lparr>th_levels := level st # th_levels th\<rparr>)"
  by (cases st, cases th) (simp add: disable_def restore_def fun_upd_idem)

lemma SD_Acquire_free:
  assumes "sole_thread st th" "lock_free (sd_lock st)"
  shows "SD_Acquire (th_cont th) st = Inr (st\<lparr>sd_lock := (sd_lock st)\<lparr>lock_free := False, lock_holder := Some (currentThread st)\<rparr>\<rparr>)"
proof -
  have th: "threads st (currentThread st) = Some th" using assms(1) by (simp add: sole_thread_def)
  obtain s where s: "disable st = Inr s" "restore s = Inr st" "currentThread s = currentThread st" using disable_restore [OF th] by blast
  have "set_cont (th_cont th) st = Inr st" using th by (simp add: set_cont_def fun_upd_idem)
  then show ?thesis using s assms(2) by (simp add: SD_Acquire_def Lock_Acquire_def Lock_Acquire_loop_def)
qed

lemma SD_Release_held:
  assumes "sole_thread st th" "lock_holder (sd_lock st) = Some (currentThread st)" "List_inv (lock_queue (sd_lock st))" "List_items (lock_queue (sd_lock st)) = []"
  shows "SD_Release st = Inr (st\<lparr>sd_lock := (sd_lock st)\<lparr>lock_free := True\<rparr>\<rparr>)"
proof -
  have th: "threads st (currentThread st) = Some th" using assms(1) by (simp add: sole_thread_def)
  obtain s where "disable st = Inr s" "restore s = Inr st" "currentThread s = currentThread st" using disable_restore [OF th] by blast
  then show ?thesis
    using assms(2) list_fifo.deq_empty [OF assms(3,4)] by (simp add: SD_Release_def Lock_Release_def wake_removed_def)
qed

text \<open>Waiting for a request that has been made, and letting go of the lock.\<close>

lemma request_completes:
  assumes "disk_quiet st" "sole_thread st th" "disk_ok d" "totalTicks x = now st" "List_inv l"
    "List_elems l = sorted_ins w (PendingInterrupt_new DiskDone a w DiskInt) []"
  shows "\<exists>st'. bindE (SD_P (th_cont th) (st\<lparr>sd_lock := (sd_lock st)\<lparr>lock_free := False, lock_holder := Some (currentThread st)\<rparr>,
       stats := x, pending := l, sd_disk := d\<rparr>)) SD_Release = Inr st'
     \<and> disk_quiet st' \<and> sd_disk st' = d\<lparr>d_active := False\<rparr> \<and> hostBigEndian (mach st') = hostBigEndian (mach st)"
proof -
  let ?l = "(sd_lock st)\<lparr>lock_free := False, lock_holder := Some (currentThread st)\<rparr>"
  define s1 where "s1 = st\<lparr>sd_lock := ?l, stats := x, pending := l, sd_disk := d\<rparr>"
  have q: "level st = IntOn" "int_ok st" "0 \<le> now st" "List_inv (sem_queue (sd_semaphore st))" "List_items (sem_queue (sd_semaphore st)) = []"
      "sem_value (sd_semaphore st) = 0" "List_inv (lock_queue (sd_lock st))" "List_items (lock_queue (sd_lock st)) = []" "lock_free (sd_lock st)"
    using assms(1) by (simp_all add: disk_quiet_def)
  have s1: "int_ok s1" "level s1 = IntOn" "sole_thread s1 th" "th_cont th = th_cont th"
      "map (\<lambda>(k, p). (pi_handler p, pi_type p)) (List_elems (pending s1)) = [(DiskDone, DiskInt)]"
      "List_inv (sem_queue (sd_semaphore s1))" "List_items (sem_queue (sd_semaphore s1)) = []" "sem_value (sd_semaphore s1) = 0"
    using q assms by (simp_all add: s1_def int_ok_def sole_thread_def ready_def sorted_ins_def PendingInterrupt_new_def)
  obtain m u r l2 qu y where p: "SD_P (th_cont th) s1 = Inr (s1\<lparr>kmem := (kmem s1)\<lparr>km_machine := m\<rparr>,
      threads := (threads s1)(currentThread s1 \<mapsto> th\<lparr>th_status := RUNNING, userRegisters := u\<rparr>),
      readyList := r, pending := l2, inHandler := False, yieldOnReturn := False, status := SystemMode, stats := y,
      sd_disk := Disk_HandleInterrupt (sd_disk s1), sd_semaphore := (sd_semaphore s1)\<lparr>sem_queue := qu, sem_value := 0\<rparr>\<rparr>)" (is "_ = Inr ?s2")
    and f: "hostBigEndian m = hostBigEndian (mach s1)" "registers m LoadReg = 0" "List_inv r" "List_items r = []"
      "List_inv l2" "List_elems l2 = []" "List_inv qu" "List_items qu = []" "now s1 \<le> totalTicks y"
    by (rule disk_wait [OF s1])
  define s2 where "s2 = ?s2"
  let ?t = "th\<lparr>th_status := RUNNING, userRegisters := u\<rparr>"
  have t2: "sole_thread s2 ?t" using s1(3) f(3,4) by (simp add: sole_thread_def s2_def ready_def)
  have l2: "sd_lock s2 = ?l" "currentThread s2 = currentThread st" by (simp_all add: s2_def s1_def)
  have "SD_Release s2 = Inr (s2\<lparr>sd_lock := ?l\<lparr>lock_free := True\<rparr>\<rparr>)"
    using SD_Release_held [OF t2] q(7,8) l2 by simp
  moreover have "disk_quiet (s2\<lparr>sd_lock := ?l\<lparr>lock_free := True\<rparr>\<rparr>)"
  proof -
    have "sole_thread (s2\<lparr>sd_lock := ?l\<lparr>lock_free := True\<rparr>\<rparr>) ?t" using t2 by (simp add: sole_thread_def ready_def)
    moreover have "int_ok (s2\<lparr>sd_lock := ?l\<lparr>lock_free := True\<rparr>\<rparr>)" using f by (simp add: int_ok_def s2_def NumTotalRegs_def)
    ultimately show ?thesis
      using q f assms(3,4) unfolding disk_quiet_def by (auto simp: s2_def s1_def Disk_HandleInterrupt_def disk_ok_def)
  qed
  ultimately show ?thesis
    using p f(1) unfolding s1_def [symmetric] s2_def [symmetric] by (simp add: s2_def s1_def Disk_HandleInterrupt_def)
qed

section \<open>The disk as a store of sectors\<close>

text \<open>
  What the file system uses of the synchronous disk: an array of sectors that can be read and
  written. The locale also gives reading and writing a sequence of sectors.
\<close>

fun rd_list :: "(int \<Rightarrow> 's \<Rightarrow> (byte list \<times> 's) res) \<Rightarrow> int list \<Rightarrow> 's \<Rightarrow> (byte list \<times> 's) res" where
  "rd_list rd [] s = Inr ([], s)"
| "rd_list rd (n # ns) s = bindE (rd n s) (\<lambda>(bs, s). bindE (rd_list rd ns s) (\<lambda>(cs, s). Inr (bs @ cs, s)))"

fun wr_list :: "(int \<Rightarrow> byte list \<Rightarrow> 's \<Rightarrow> 's res) \<Rightarrow> int list \<Rightarrow> byte list \<Rightarrow> 's \<Rightarrow> 's res" where
  "wr_list wr [] bs s = Inr s"
| "wr_list wr (n # ns) bs s = bindE (wr n (take SectorSize bs) s) (wr_list wr ns (drop SectorSize bs))"

definition in_disk :: "int \<Rightarrow> bool" where
  "in_disk n \<longleftrightarrow> 0 \<le> n \<and> n < NumSectors"

locale sector_device =
  fixes inv :: "'s \<Rightarrow> bool" and sec :: "'s \<Rightarrow> nat \<Rightarrow> byte list" and big :: "'s \<Rightarrow> bool"
    and rd :: "int \<Rightarrow> 's \<Rightarrow> (byte list \<times> 's) res" and wr :: "int \<Rightarrow> byte list \<Rightarrow> 's \<Rightarrow> 's res"
  assumes sec_length: "inv s \<Longrightarrow> in_disk n \<Longrightarrow> length (sec s (nat n)) = SectorSize"
    and rd_ok: "inv s \<Longrightarrow> in_disk n \<Longrightarrow> \<exists>s'. rd n s = Inr (sec s (nat n), s') \<and> inv s' \<and> sec s' = sec s \<and> big s' = big s"
    and wr_ok: "inv s \<Longrightarrow> in_disk n \<Longrightarrow> length bs = SectorSize \<Longrightarrow>
        \<exists>s'. wr n bs s = Inr s' \<and> inv s' \<and> sec s' = (sec s)(nat n := bs) \<and> big s' = big s"
begin

lemma rd_list_ok:
  assumes "inv s" "\<forall>n \<in> set ns. in_disk n"
  shows "\<exists>s'. rd_list rd ns s = Inr (concat (map (\<lambda>n. sec s (nat n)) ns), s') \<and> inv s' \<and> sec s' = sec s \<and> big s' = big s"
  using assms
proof (induction ns arbitrary: s)
  case (Cons n ns)
  obtain s1 where s1: "rd n s = Inr (sec s (nat n), s1)" "inv s1" "sec s1 = sec s" "big s1 = big s"
    using rd_ok [OF Cons.prems(1), of n] Cons.prems(2) by auto
  obtain s2 where "rd_list rd ns s1 = Inr (concat (map (\<lambda>n. sec s1 (nat n)) ns), s2)" "inv s2" "sec s2 = sec s1" "big s2 = big s1"
    using Cons.IH [OF s1(2)] Cons.prems(2) by auto
  then show ?case using s1 by simp
qed simp

lemma wr_list_ok:
  assumes "inv s" "\<forall>n \<in> set ns. in_disk n" "distinct ns" "length bs = length ns * SectorSize"
  shows "\<exists>s'. wr_list wr ns bs s = Inr s' \<and> inv s' \<and> concat (map (\<lambda>n. sec s' (nat n)) ns) = bs
    \<and> (\<forall>t. t \<notin> nat ` set ns \<longrightarrow> sec s' t = sec s t) \<and> big s' = big s"
  using assms
proof (induction ns arbitrary: bs s)
  case (Cons n ns)
  have l: "length (take SectorSize bs) = SectorSize" "length (drop SectorSize bs) = length ns * SectorSize" using Cons.prems(4) by simp_all
  obtain s1 where s1: "wr n (take SectorSize bs) s = Inr s1" "inv s1" "sec s1 = (sec s)(nat n := take SectorSize bs)" "big s1 = big s"
    using wr_ok [OF Cons.prems(1) _ l(1), of n] Cons.prems(2) by auto
  obtain s2 where s2: "wr_list wr ns (drop SectorSize bs) s1 = Inr s2" "inv s2" "concat (map (\<lambda>n. sec s2 (nat n)) ns) = drop SectorSize bs"
      "\<forall>t. t \<notin> nat ` set ns \<longrightarrow> sec s2 t = sec s1 t" "big s2 = big s1"
    using Cons.IH [OF s1(2) _ _ l(2)] Cons.prems(2,3) by auto
  have "nat n \<notin> nat ` set ns"
    using Cons.prems(2,3) by (auto simp: in_disk_def eq_nat_nat_iff)
  then have "sec s2 (nat n) = take SectorSize bs" using s1(3) s2(4) by simp
  then show ?case using s1 s2 by auto
qed simp

end

definition sectors :: "('c, 'z) DiskSys_scheme \<Rightarrow> nat \<Rightarrow> byte list" where
  "sectors st t = (if t < nat NumSectors then sector (sd_disk st) t else [])"

definition host_big :: "('c, 'z) Nachos_scheme \<Rightarrow> bool" where
  "host_big st = hostBigEndian (mach st)"

text \<open>The state after the lock has been taken.\<close>

lemma quiet_locked:
  assumes "disk_quiet st" "s1 = st\<lparr>sd_lock := (sd_lock st)\<lparr>lock_free := False, lock_holder := Some (currentThread st)\<rparr>\<rparr>"
  obtains th where "sole_thread st th" "cont_of st = Inr (th_cont th)" "SD_Acquire (th_cont th) st = Inr s1" "disk_ok (sd_disk s1)"
    "\<not> d_active (sd_disk s1)" "int_ok s1" "0 \<le> now s1" "List_elems (pending s1) = []"
proof -
  obtain th where "sole_thread st th" using assms(1) by (auto simp: disk_quiet_def)
  then show thesis
    using that [of th] assms SD_Acquire_free [of st th] by (simp add: disk_quiet_def cont_of_def sole_thread_def int_ok_def)
qed

lemma ReadSector_ok:
  assumes "disk_quiet st" "in_disk n"
  shows "\<exists>st'. ReadSector n st = Inr (sectors st (nat n), st') \<and> disk_quiet st' \<and> sectors st' = sectors st \<and> host_big st' = host_big st"
proof -
  define s1 where "s1 = st\<lparr>sd_lock := (sd_lock st)\<lparr>lock_free := False, lock_holder := Some (currentThread st)\<rparr>\<rparr>"
  obtain th where th: "sole_thread st th" "cont_of st = Inr (th_cont th)" "SD_Acquire (th_cont th) st = Inr s1" and q: "disk_ok (sd_disk s1)"
    "\<not> d_active (sd_disk s1)" "int_ok s1" "0 \<le> now s1" "List_elems (pending s1) = []"
    by (rule quiet_locked [OF assms(1) s1_def])
  have n: "0 \<le> n" "n < NumSectors" using assms(2) by (simp_all add: in_disk_def)
  obtain l d where r: "ReadRequest DiskDone 0 n (sd_disk s1) s1 = Inr (sector (sd_disk s1) (nat n), d,
      s1\<lparr>stats := (stats s1)\<lparr>numDiskReads := numDiskReads (stats s1) + 1\<rparr>, pending := l\<rparr>)"
    and d: "disk_ok d" "d_active d" "sector d = sector (sd_disk s1)" "List_inv l"
    "List_elems l = sorted_ins (now s1 + ComputeLatency (now s1) n False (sd_disk s1))
       (PendingInterrupt_new DiskDone 0 (now s1 + ComputeLatency (now s1) n False (sd_disk s1)) DiskInt) (List_elems (pending s1))"
    by (rule ReadRequest_ok [OF q(1,2) n q(3,4)])
  define x where "x = (stats st)\<lparr>numDiskReads := numDiskReads (stats st) + 1\<rparr>"
  obtain st' where st': "bindE (SD_P (th_cont th) (s1\<lparr>stats := x, pending := l, sd_disk := d\<rparr>)) SD_Release = Inr st'"
     "disk_quiet st'" "sd_disk st' = d\<lparr>d_active := False\<rparr>" "hostBigEndian (mach st') = hostBigEndian (mach st)"
    using request_completes [OF assms(1) th(1) d(1) _ d(4) d(5) [unfolded q(5)], of x] by (auto simp: x_def s1_def)
  then have "ReadSector n st = Inr (sector (sd_disk s1) (nat n), st')"
    using th r by (auto simp: ReadSector_def x_def s1_def bindE_eq_Inr)
  then show ?thesis
    using st' d(3) n by (auto simp: sectors_def host_big_def s1_def sector_def fun_eq_iff)
qed

lemma WriteSector_ok:
  assumes "disk_quiet st" "in_disk n" "length bs = SectorSize"
  shows "\<exists>st'. WriteSector n bs st = Inr st' \<and> disk_quiet st' \<and> sectors st' = (sectors st)(nat n := bs) \<and> host_big st' = host_big st"
proof -
  define s1 where "s1 = st\<lparr>sd_lock := (sd_lock st)\<lparr>lock_free := False, lock_holder := Some (currentThread st)\<rparr>\<rparr>"
  obtain th where th: "sole_thread st th" "cont_of st = Inr (th_cont th)" "SD_Acquire (th_cont th) st = Inr s1" and q: "disk_ok (sd_disk s1)"
    "\<not> d_active (sd_disk s1)" "int_ok s1" "0 \<le> now s1" "List_elems (pending s1) = []"
    by (rule quiet_locked [OF assms(1) s1_def])
  have n: "0 \<le> n" "n < NumSectors" using assms(2) by (simp_all add: in_disk_def)
  obtain l d where r: "WriteRequest DiskDone 0 n bs (sd_disk s1) s1 = Inr (d,
      s1\<lparr>stats := (stats s1)\<lparr>numDiskWrites := numDiskWrites (stats s1) + 1\<rparr>, pending := l\<rparr>)"
    and d: "disk_ok d" "d_active d" "\<forall>t. t < nat NumSectors \<longrightarrow> sector d t = (if t = nat n then bs else sector (sd_disk s1) t)" "List_inv l"
    "List_elems l = sorted_ins (now s1 + ComputeLatency (now s1) n True (sd_disk s1))
       (PendingInterrupt_new DiskDone 0 (now s1 + ComputeLatency (now s1) n True (sd_disk s1)) DiskInt) (List_elems (pending s1))"
    by (rule WriteRequest_ok [OF q(1,2) n assms(3) q(3,4)])
  define x where "x = (stats st)\<lparr>numDiskWrites := numDiskWrites (stats st) + 1\<rparr>"
  obtain st' where st': "bindE (SD_P (th_cont th) (s1\<lparr>stats := x, pending := l, sd_disk := d\<rparr>)) SD_Release = Inr st'"
     "disk_quiet st'" "sd_disk st' = d\<lparr>d_active := False\<rparr>" "hostBigEndian (mach st') = hostBigEndian (mach st)"
    using request_completes [OF assms(1) th(1) d(1) _ d(4) d(5) [unfolded q(5)], of x] by (auto simp: x_def s1_def)
  then have "WriteSector n bs st = Inr st'"
    using th r by (simp add: WriteSector_def x_def s1_def)
  moreover have "sectors st' = (sectors st)(nat n := bs)"
    using st'(3) d(3) n by (auto simp: sectors_def s1_def sector_def fun_eq_iff)
  ultimately show ?thesis using st'(2,4) by (simp add: host_big_def)
qed

lemma length_sectors: "disk_quiet st \<Longrightarrow> in_disk n \<Longrightarrow> length (sectors st (nat n)) = SectorSize"
  using length_sector [of "sd_disk st" "nat n"] by (auto simp: sectors_def disk_quiet_def in_disk_def)

interpretation synch_disk: sector_device disk_quiet sectors host_big ReadSector WriteSector
  by unfold_locales (simp_all add: length_sectors ReadSector_ok WriteSector_ok)

section \<open>Properties\<close>

text \<open>A system with one kernel thread and a blank disk.\<close>

definition blank_disk :: Disk where
  "blank_disk = \<lparr>d_file = \<lparr>uf_bytes = replicate DiskSize 0, uf_pos = 0\<rparr>, d_active = False, d_lastSector = 0, d_bufferInit = 0\<rparr>"

definition example_sys :: "nat DiskSys" where
  "example_sys = \<lparr>kmem = example_kmem,
     threads = [0 \<mapsto> \<lparr>th_name = ''main'', th_stack = None, th_status = RUNNING, userRegisters = (\<lambda>_. 0), th_space = None, th_cont = 0, th_fresh = False, th_levels = []\<rparr>],
     readyList = List_new, currentThread = 0, threadToBeDestroyed = None, level = IntOn, spaces = Map.empty, pcbs = Map.empty,
     processManager = processManager example_nachos, next_obj = 1, pending = List_new, inHandler = False, yieldOnReturn = False, status = SystemMode,
     stats = Statistics_new, sd_disk = blank_disk, sd_semaphore = Semaphore_new ''synch disk'' 0, sd_lock = Lock_new None ''synch disk lock'',
     sd_timer = \<lparr>randomize = False\<rparr>, rand = 0\<rparr>"

lemma blank_disk_ok: "disk_ok blank_disk" "\<not> d_active blank_disk" "t < nat NumSectors \<Longrightarrow> sector blank_disk t = replicate SectorSize 0"
  using sector_fits [of t] by (auto simp: blank_disk_def disk_ok_def sector_def NumSectors_def SectorsPerTrack_def NumTracks_def)

lemma List_new_inv [simp]: "List_inv List_new" "List_elems List_new = []" "List_items List_new = []"
  by (simp_all add: List_items_def)

lemma example_sys_quiet: "disk_quiet example_sys"
proof -
  have "sole_thread example_sys (the (threads example_sys 0))" by (simp add: sole_thread_def example_sys_def ready_def)
  moreover have "int_ok example_sys" by (simp add: int_ok_def example_sys_def example_kmem_def NumTotalRegs_def)
  ultimately show ?thesis
    using blank_disk_ok by (auto simp: disk_quiet_def example_sys_def Statistics_new_def Semaphore_new_def Lock_new_def)
qed

text \<open>C7: The synchronous disk is a store of sectors. When the disk is idle and its caller is the only
  thread, writing a sector and reading it back returns the bytes written, both calls return, and every other sector keeps its
  contents. The waiting in between is the whole path through the semaphore, the scheduler, the idle loop,
  the clock and the interrupt handler, which leaves the disk idle again.\<close>

theorem synch_disk_store:
  assumes "disk_quiet st" "in_disk n" "length bs = SectorSize"
  shows "\<exists>st' st''. WriteSector n bs st = Inr st' \<and> ReadSector n st' = Inr (bs, st'') \<and> disk_quiet st''
    \<and> (\<forall>m. in_disk m \<and> m \<noteq> n \<longrightarrow> (\<exists>st3. ReadSector m st'' = Inr (sectors st (nat m), st3)))"
proof -
  obtain st' where w: "WriteSector n bs st = Inr st'" "disk_quiet st'" "sectors st' = (sectors st)(nat n := bs)"
    using WriteSector_ok [OF assms] by blast
  obtain st'' where r: "ReadSector n st' = Inr (bs, st'')" "disk_quiet st''" "sectors st'' = sectors st'"
    using ReadSector_ok [OF w(2) assms(2)] w(3) by auto
  have "\<exists>st3. ReadSector m st'' = Inr (sectors st (nat m), st3)" if "in_disk m" "m \<noteq> n" for m
  proof -
    have "nat m \<noteq> nat n" using that assms(2) by (auto simp: in_disk_def eq_nat_nat_iff)
    then show ?thesis using ReadSector_ok [OF r(2) that(1)] r(3) w(3) by auto
  qed
  then show ?thesis using w(1) r by blast
qed

theorem synch_disk_store_witness:
  "\<exists>st' st''. WriteSector 7 (replicate SectorSize 5) example_sys = Inr st' \<and> ReadSector 7 st' = Inr (replicate SectorSize 5, st'')"
proof -
  have "in_disk 7" by (simp add: in_disk_def NumSectors_def SectorsPerTrack_def NumTracks_def)
  then show ?thesis using synch_disk_store [OF example_sys_quiet, of 7 "replicate SectorSize 5"] by auto
qed

text \<open>The same system with one interrupt pending.\<close>

definition with_pending :: "device \<Rightarrow> int \<Rightarrow> IntType \<Rightarrow> nat DiskSys" where
  "with_pending h w ty = example_sys\<lparr>level := IntOff, pending := \<lparr>l_cells = [Some \<lparr>le_next = None, le_key = w, le_item = PendingInterrupt_new h 0 w ty\<rparr>],
     l_first = Some 0, l_last = Some 0\<rparr>\<rparr>"

lemma with_pending_list:
  "List_elems (pending (with_pending h w ty)) = [(w, PendingInterrupt_new h 0 w ty)]" "List_inv (pending (with_pending h w ty))"
  by (simp_all add: with_pending_def List_inv_def List_chain_def List_addrs_def List_elems_def cell_at_def elem_of_def)

lemma with_pending_ok: "int_ok (with_pending h w ty)" "dev_ok (with_pending h w ty)"
  using with_pending_list [of h w ty]
  by (simp_all add: int_ok_def dev_ok_def PendingInterrupt_new_def)
    (simp_all add: with_pending_def example_sys_def example_kmem_def NumTotalRegs_def Semaphore_new_def)

text \<open>C9: When the clock ticks, exactly the interrupts that are due fire, each once, in the order of
  their times, and the loop that looks for them ends. The effect of the loop in OneTick is that of
  calling the handlers of the due interrupts one after the other; interrupts that
  handlers schedule meanwhile wait for a later tick, and afterwards no pending interrupt is
  due.\<close>

theorem interrupts_fire_in_order:
  assumes "int_ok st" "dev_ok st" "level st = IntOff" "status st \<noteq> IdleMode" "length (due st) < fuel"
  shows "\<exists>st' l. foldE (fire dispatch) (due st) st = Inr st' \<and> due_loop fuel dispatch st = Inr (st'\<lparr>pending := l\<rparr>)
    \<and> int_ok (st'\<lparr>pending := l\<rparr>) \<and> dev_ok (st'\<lparr>pending := l\<rparr>) \<and> mset (List_elems l) = mset (List_elems (pending st'))
    \<and> due (st'\<lparr>pending := l\<rparr>) = [] \<and> now st' = now st"
  using devices.due_loop_fires [OF assms] by blast

theorem interrupts_fire_in_order_witness:
  "length (due (with_pending TimerHandler 0 TimerInt)) = 1
     \<and> (\<exists>st' l. due_loop 2 dispatch (with_pending TimerHandler 0 TimerInt) = Inr (st'\<lparr>pending := l\<rparr>) \<and> due (st'\<lparr>pending := l\<rparr>) = [])"
proof -
  let ?s = "with_pending TimerHandler 0 TimerInt"
  have "status ?s \<noteq> IdleMode" "level ?s = IntOff" "length (due ?s) = 1"
    using with_pending_list(1) [of TimerHandler 0 TimerInt] by (simp_all add: due_def with_pending_def example_sys_def Statistics_new_def)
  then show ?thesis using interrupts_fire_in_order [OF with_pending_ok, of TimerHandler 0 TimerInt 2] by auto
qed

text \<open>The effect of handlers on the disk: each interrupt of the disk makes it inactive and increments the semaphore once.\<close>

definition disk_ints :: "device PendingInterrupt list \<Rightarrow> nat" where
  "disk_ints ps = length (filter (\<lambda>p. pi_handler p = DiskDone) ps)"

lemma thread_ops_disk:
  "upd_thread t f st = Inr st' \<Longrightarrow> sd_disk st' = sd_disk st \<and> sd_semaphore st' = sd_semaphore st"
  "disable st = Inr st' \<Longrightarrow> sd_disk st' = sd_disk st \<and> sd_semaphore st' = sd_semaphore st"
  "restore st = Inr st' \<Longrightarrow> sd_disk st' = sd_disk st \<and> sd_semaphore st' = sd_semaphore st"
  "ReadyToRun t st = Inr st' \<Longrightarrow> sd_disk st' = sd_disk st \<and> sd_semaphore st' = sd_semaphore st"
proof -
  show u: "sd_disk st' = sd_disk st \<and> sd_semaphore st' = sd_semaphore st" if "upd_thread t f st = Inr st'" for t f st st'
    using that by (auto simp: upd_thread_def bindE_def split: sum.splits)
  show "disable st = Inr st' \<Longrightarrow> sd_disk st' = sd_disk st \<and> sd_semaphore st' = sd_semaphore st"
    by (auto simp: disable_def bindE_def split: sum.splits dest: u)
  show "restore st = Inr st' \<Longrightarrow> sd_disk st' = sd_disk st \<and> sd_semaphore st' = sd_semaphore st"
    by (auto simp: restore_def bindE_def split: sum.splits list.splits dest: u)
  show "ReadyToRun t st = Inr st' \<Longrightarrow> sd_disk st' = sd_disk st \<and> sd_semaphore st' = sd_semaphore st"
    by (auto simp: ReadyToRun_def setStatus_def bindE_def split: sum.splits dest: u)
qed

lemma V_value:
  assumes "Semaphore_V s st = Inr (s', st')"
  shows "sem_value s' = sem_value s + 1 \<and> sd_disk st' = sd_disk st"
proof -
  obtain s1 r q s2 where o: "disable st = Inr s1" "wake_removed r s1 = Inr s2" "restore s2 = Inr st'" "s' = s\<lparr>sem_queue := q, sem_value := sem_value s + 1\<rparr>"
    using assms by (auto simp: Semaphore_V_def bindE_def split: sum.splits prod.splits)
  have "sd_disk s2 = sd_disk s1" using o(2) thread_ops_disk(4) by (auto simp: wake_removed_def split: option.splits)
  then show ?thesis using o(4) thread_ops_disk(2) [OF o(1)] thread_ops_disk(3) [OF o(3)] by simp
qed

lemma dispatch_effect:
  assumes "dispatch h a st = Inr st'"
  shows "sem_value (sd_semaphore st') = sem_value (sd_semaphore st) + of_bool (h = DiskDone) \<and> d_active (sd_disk st') = (d_active (sd_disk st) \<and> h \<noteq> DiskDone)"
proof (cases h)
  case DiskDone
  then obtain s s1 where "Semaphore_V (sd_semaphore st) (st\<lparr>sd_disk := Disk_HandleInterrupt (sd_disk st)\<rparr>) = Inr (s, s1)" "st' = s1\<lparr>sd_semaphore := s\<rparr>"
    using assms by (auto simp: dispatch_def DiskRequestDone_def SynchDisk_RequestDone_def bindE_def split: sum.splits)
  then show ?thesis using V_value DiskDone by (fastforce simp: Disk_HandleInterrupt_def)
next
  case TimerHandler
  then obtain s1 where "Schedule TimerHandler a (TimeOfNextInterrupt (rand st) (sd_timer st)) TimerInt st = Inr s1" "TimerInterruptHandler s1 = Inr st'"
    using assms by (auto simp: dispatch_def TimerExpired_def bindE_def split: sum.splits)
  then show ?thesis using TimerHandler
    by (auto simp: TimerInterruptHandler_def YieldOnReturn_def Schedule_def Let_def bindE_def split: sum.splits if_splits)
qed

lemma fire_effect:
  assumes "fire dispatch p st = Inr st'"
  shows "sem_value (sd_semaphore st') = sem_value (sd_semaphore st) + of_bool (pi_handler p = DiskDone)
    \<and> d_active (sd_disk st') = (d_active (sd_disk st) \<and> pi_handler p \<noteq> DiskDone)"
proof -
  obtain l m s2 where "dispatch (pi_handler p) (pi_arg p) (st\<lparr>pending := l, kmem := (kmem st)\<lparr>km_machine := m\<rparr>, inHandler := True, status := SystemMode\<rparr>) = Inr s2"
      "st' = s2\<lparr>inHandler := False, status := status st\<rparr>"
    using assms by (auto simp: fire_def invoke_def Let_def bindE_def split: sum.splits prod.splits)
  from dispatch_effect [OF this(1)] this(2) show ?thesis by simp
qed

lemma fires_effect:
  "foldE (fire dispatch) ps st = Inr st' \<Longrightarrow> sem_value (sd_semaphore st') = sem_value (sd_semaphore st) + int (disk_ints ps)
    \<and> d_active (sd_disk st') = (d_active (sd_disk st) \<and> disk_ints ps = 0)"
proof (induction ps arbitrary: st)
  case (Cons p ps)
  then obtain s1 where s1: "fire dispatch p st = Inr s1" "foldE (fire dispatch) ps s1 = Inr st'" by (auto simp: bindE_def split: sum.splits)
  then show ?case using Cons.IH [OF s1(2)] fire_effect [OF s1(1)] by (auto simp: disk_ints_def)
qed (simp add: disk_ints_def)

text \<open>C28: An idle machine waits for the next interrupt. When no interrupt, or only the one of the timer, is pending, Idle halts the machine.
  Otherwise it moves the clock to the time of the first pending interrupt, if that is not past, and calls the handlers of that one and of all others
  that are then due, in order; only a last interrupt of the timer stays when nothing else is pending. Each interrupt of the
  disk among them increments the semaphore of the disk by one and ends the request.\<close>

theorem Idle_waits_or_halts:
  assumes "int_ok st" "dev_ok st" "level st = IntOff" "length (List_elems (pending st)) < fuel"
  shows "if map (pi_type \<circ> snd) (List_elems (pending st)) \<in> {[], [TimerInt]} then Interrupt_Idle fuel dispatch st = Inl Halted
    else \<exists>k p ps left st1 l st'. hd (List_elems (pending st)) = (k, p) \<and> due (idle_until k st) = p # ps @ left
      \<and> foldE (fire dispatch) (p # ps) (idle_until k st) = Inr st1
      \<and> Interrupt_Idle fuel dispatch st = Inr st' \<and> st' = st1\<lparr>pending := l, yieldOnReturn := False, status := SystemMode\<rparr>
      \<and> mset (List_elems l) = mset (List_elems (pending st1)) \<and> (left \<noteq> [] \<longrightarrow> map (pi_type \<circ> snd) (List_elems l) = [TimerInt])
      \<and> sem_value (sd_semaphore st') = sem_value (sd_semaphore st) + int (disk_ints (p # ps)) \<and> d_active (sd_disk st') = (d_active (sd_disk st) \<and> disk_ints (p # ps) = 0)
      \<and> int_ok st' \<and> dev_ok st' \<and> level st' = IntOff \<and> now st' = max (now st) k"
proof (cases "map (pi_type \<circ> snd) (List_elems (pending st)) \<in> {[], [TimerInt]}")
  case True
  then show ?thesis using devices.Idle_halts [OF assms(1,3)] by simp
next
  case False
  then obtain k p es where e: "List_elems (pending st) = (k, p) # es" "es \<noteq> [] \<or> pi_type p \<noteq> TimerInt"
    by (cases "List_elems (pending st)") auto
  have "length es < fuel" using assms(4) e(1) by simp
  from devices.Idle_fires [OF assms(1-3) e this] obtain ps qs st1 l where i: "due (idle_until k st) = p # ps @ qs" "foldE (fire dispatch) (p # ps) (idle_until k st) = Inr st1"
      "Interrupt_Idle fuel dispatch st = Inr (st1\<lparr>pending := l, yieldOnReturn := False, status := SystemMode\<rparr>)"
      "mset (List_elems l) = mset (List_elems (pending st1))" "qs \<noteq> [] \<longrightarrow> map (pi_type \<circ> snd) (List_elems l) = [TimerInt]"
      "int_ok (st1\<lparr>pending := l, yieldOnReturn := False, status := SystemMode\<rparr>)" "dev_ok (st1\<lparr>pending := l, yieldOnReturn := False, status := SystemMode\<rparr>)"
      "now st1 = max (now st) k" "level st1 = IntOff"
    by (elim exE conjE) (rule that; assumption)
  note f = fires_effect [OF i(2)]
  have "sd_semaphore (idle_until k st) = sd_semaphore st" "sd_disk (idle_until k st) = sd_disk st" by (simp_all add: idle_until_def)
  then show ?thesis
    unfolding if_not_P [OF False] using e(1) i f
    by - (rule exI [of _ k], rule exI [of _ p], rule exI [of _ ps], rule exI [of _ qs], rule exI [of _ st1], rule exI [of _ l],
        rule exI [of _ "st1\<lparr>pending := l, yieldOnReturn := False, status := SystemMode\<rparr>"], intro conjI, simp_all del: foldE.simps add: comp_def)
qed

theorem Idle_waits_or_halts_witness:
  "(\<exists>st'. Interrupt_Idle 2 dispatch (with_pending DiskDone 40 DiskInt) = Inr st' \<and> now st' = 40 \<and> sem_value (sd_semaphore st') = 1)
     \<and> Interrupt_Idle 2 dispatch (with_pending TimerHandler 40 TimerInt) = Inl Halted"
proof -
  have w: "level (with_pending h w ty) = IntOff" "now (with_pending h w ty) = 0" "sem_value (sd_semaphore (with_pending h w ty)) = 0" for h w ty
    by (simp_all add: with_pending_def example_sys_def Statistics_new_def Semaphore_new_def)
  have "due (idle_until 40 (with_pending DiskDone 40 DiskInt)) = [PendingInterrupt_new DiskDone 0 40 DiskInt]"
    using with_pending_list(1) [of DiskDone 40 DiskInt] by (simp add: due_def idle_until_def)
  then show ?thesis
    using Idle_waits_or_halts [OF with_pending_ok, of DiskDone 40 DiskInt 2] Idle_waits_or_halts [OF with_pending_ok, of TimerHandler 40 TimerInt 2] w
    by (auto simp: with_pending_list(1) PendingInterrupt_new_def disk_ints_def simp del: foldE.simps)
qed

end
