(* ===== verification/OpenFile.thy ===== *)
theory OpenFile
  imports SynchDisk
begin

text \<open>
  File headers and open files, \<^verbatim>\<open>filesys/filehdr.cc\<close> and
  \<^verbatim>\<open>filesys/openfile.cc\<close> (the build with \<^verbatim>\<open>FILESYS\<close>), on the sectors of the
  synchronous disk. The abstraction \<^verbatim>\<open>content\<close> of a file is its sequence of bytes; reading
  and writing through an open file are reading and replacing bytes of that sequence.
\<close>

section \<open>File headers\<close>

definition NumDirect :: nat where "NumDirect = (SectorSize - 2 * 4) div 4"
definition MaxFileSize :: nat where "MaxFileSize = NumDirect * SectorSize"

text \<open>A file header fills one sector. Its array of sector numbers has \<open>NumDirect\<close> elements.\<close>

record FileHeader =
  numBytes :: int
  numSectors :: int
  dataSectors :: "int list"

definition set_sector :: "int \<Rightarrow> int \<Rightarrow> FileHeader \<Rightarrow> FileHeader res" where
  "set_sector i s h = (if 0 \<le> i then bindE (arr_set (dataSectors h) (nat i) s) (\<lambda>d. Inr (h\<lparr>dataSectors := d\<rparr>)) else Inl OutOfBounds)"

definition get_sector :: "int \<Rightarrow> FileHeader \<Rightarrow> int res" where
  "get_sector i h = (if 0 \<le> i then arr_get (dataSectors h) (nat i) else Inl OutOfBounds)"

definition FileHeader_Allocate :: "BitMap \<Rightarrow> int \<Rightarrow> FileHeader \<Rightarrow> (bool \<times> BitMap \<times> FileHeader) res" where
  "FileHeader_Allocate freeMap fileSize h =
     (let h = h\<lparr>numBytes := fileSize, numSectors := divRoundUp fileSize (int SectorSize)\<rparr> in
      bindE (BitMap_NumClear freeMap) (\<lambda>n.
      if n < numSectors h then Inr (False, freeMap, h)
      else bindE (foldE (\<lambda>i (b, h). bindE (BitMap_Find b) (\<lambda>(s, b). bindE (set_sector (int i) s h) (\<lambda>h. Inr (b, h))))
             [0..<nat (numSectors h)] (freeMap, h)) (\<lambda>(b, h). Inr (True, b, h))))"

definition FileHeader_Deallocate :: "BitMap \<Rightarrow> FileHeader \<Rightarrow> BitMap res" where
  "FileHeader_Deallocate freeMap h =
     foldE (\<lambda>i b. bindE (get_sector (int i) h) (\<lambda>s. bindE (BitMap_Test s b) (\<lambda>t. bindE (assertE t) (\<lambda>_. BitMap_Clear s b))))
       [0..<nat (numSectors h)] freeMap"

text \<open>The header in the memory of the host, which is what is written to its sector.\<close>

definition hdr_bytes :: "bool \<Rightarrow> FileHeader \<Rightarrow> byte list" where
  "hdr_bytes be h = concat (map (\<lambda>i. int_bytes be (word_of_int i)) (numBytes h # numSectors h # dataSectors h))"

fun ints_of :: "bool \<Rightarrow> nat \<Rightarrow> byte list \<Rightarrow> int list" where
  "ints_of be 0 bs = []"
| "ints_of be (Suc n) bs = sint (bytes_int be (take 4 bs)) # ints_of be n (drop 4 bs)"

definition hdr_of_bytes :: "bool \<Rightarrow> byte list \<Rightarrow> FileHeader" where
  "hdr_of_bytes be bs = (case ints_of be (NumDirect + 2) bs of
     a # b # is \<Rightarrow> \<lparr>numBytes = a, numSectors = b, dataSectors = is\<rparr> | _ \<Rightarrow> \<lparr>numBytes = 0, numSectors = 0, dataSectors = []\<rparr>)"

definition FileHeader_FetchFrom :: "int \<Rightarrow> ('c, 'z) DiskSys_scheme \<Rightarrow> (FileHeader \<times> ('c, 'z) DiskSys_scheme) res" where
  "FileHeader_FetchFrom sec st = bindE (ReadSector sec st) (\<lambda>(bs, st). Inr (hdr_of_bytes (host_big st) bs, st))"

definition FileHeader_WriteBack :: "int \<Rightarrow> FileHeader \<Rightarrow> ('c, 'z) DiskSys_scheme \<Rightarrow> (('c, 'z) DiskSys_scheme) res" where
  "FileHeader_WriteBack sec h st = WriteSector sec (hdr_bytes (host_big st) h) st"

definition ByteToSector :: "int \<Rightarrow> FileHeader \<Rightarrow> int res" where
  "ByteToSector offset h = get_sector (offset sdiv int SectorSize) h"

definition FileLength :: "FileHeader \<Rightarrow> int" where
  "FileLength h = numBytes h"

text \<open>\<^verbatim>\<open>Print\<close> shows the header and the bytes of the file; the model returns them.\<close>

fun hdr_print_loop :: "int list \<Rightarrow> int \<Rightarrow> ('c, 'z) DiskSys_scheme \<Rightarrow> (byte list list \<times> ('c, 'z) DiskSys_scheme) res" where
  "hdr_print_loop [] left st = Inr ([], st)"
| "hdr_print_loop (s # ss) left st = bindE (ReadSector s st) (\<lambda>(bs, st).
     let line = take (nat left) bs in
     bindE (hdr_print_loop ss (left - int (length line)) st) (\<lambda>(out, st). Inr (line # out, st)))"

definition FileHeader_Print :: "FileHeader \<Rightarrow> ('c, 'z) DiskSys_scheme \<Rightarrow> ((int \<times> int list \<times> byte list list) \<times> ('c, 'z) DiskSys_scheme) res" where
  "FileHeader_Print h st =
     (if nat (numSectors h) \<le> length (dataSectors h) then
        let ss = take (nat (numSectors h)) (dataSectors h) in
        bindE (hdr_print_loop ss (numBytes h) st) (\<lambda>(out, st). Inr ((numBytes h, ss, out), st))
      else Inl OutOfBounds)"

section \<open>Open files\<close>

record OpenFile =
  of_hdr :: FileHeader
  seekPosition :: int

definition OpenFile_new :: "int \<Rightarrow> ('c, 'z) DiskSys_scheme \<Rightarrow> (OpenFile \<times> ('c, 'z) DiskSys_scheme) res" where
  "OpenFile_new sec st = bindE (FileHeader_FetchFrom sec st) (\<lambda>(h, st). Inr (\<lparr>of_hdr = h, seekPosition = 0\<rparr>, st))"

definition Seek :: "int \<Rightarrow> OpenFile \<Rightarrow> OpenFile" where
  "Seek position f = f\<lparr>seekPosition := position\<rparr>"

text \<open>The loops over the sectors from \<^verbatim>\<open>firstSector\<close> to \<^verbatim>\<open>lastSector\<close>.\<close>

fun read_sectors :: "FileHeader \<Rightarrow> int list \<Rightarrow> ('c, 'z) DiskSys_scheme \<Rightarrow> (byte list \<times> ('c, 'z) DiskSys_scheme) res" where
  "read_sectors h [] st = Inr ([], st)"
| "read_sectors h (i # is) st = bindE (ByteToSector (i * int SectorSize) h) (\<lambda>s. bindE (ReadSector s st) (\<lambda>(bs, st).
     bindE (read_sectors h is st) (\<lambda>(cs, st). Inr (bs @ cs, st))))"

fun write_sectors :: "FileHeader \<Rightarrow> int list \<Rightarrow> byte list \<Rightarrow> ('c, 'z) DiskSys_scheme \<Rightarrow> (('c, 'z) DiskSys_scheme) res" where
  "write_sectors h [] buf st = Inr st"
| "write_sectors h (i # is) buf st = bindE (ByteToSector (i * int SectorSize) h) (\<lambda>s. bindE (WriteSector s (take SectorSize buf) st)
     (write_sectors h is (drop SectorSize buf)))"

text \<open>
  The number of bytes that a request transfers. Sums of two \<^verbatim>\<open>int\<close>s are 32 bits wide: a request whose end does not fit
  wraps around to a negative number and is not cut to the length of the file.
\<close>

definition c_int :: "int \<Rightarrow> int" where
  "c_int i = sint (word_of_int i :: 32 word)"

definition clip :: "int \<Rightarrow> int \<Rightarrow> int \<Rightarrow> int" where
  "clip fileLength n position = (if c_int (position + n) > fileLength then c_int (fileLength - position) else n)"

definition ReadAt :: "int \<Rightarrow> int \<Rightarrow> OpenFile \<Rightarrow> ('c, 'z) DiskSys_scheme \<Rightarrow> (byte list \<times> ('c, 'z) DiskSys_scheme) res" where
  "ReadAt n position f st =
     (let fileLength = FileLength (of_hdr f) in
      if n \<le> 0 \<or> position \<ge> fileLength then Inr ([], st)
      else
        let n = clip fileLength n position;
            firstSector = divRoundDown position (int SectorSize);
            lastSector = divRoundDown (c_int (position + n - 1)) (int SectorSize);
            off = position - firstSector * int SectorSize in
        bindE (read_sectors (of_hdr f) [firstSector..lastSector] st) (\<lambda>(buf, st).
        if off < 0 then Inl OutOfBounds else Inr (take (nat n) (drop (nat off) buf), st)))"

text \<open>
  \<^verbatim>\<open>WriteAt\<close> fills a fresh buffer, whose bytes are arbitrary, with the sectors that are
  changed in part, copies the data over them and writes them back.
\<close>

definition fill_buf :: "nat \<Rightarrow> byte list \<Rightarrow> byte list \<Rightarrow> byte list" where
  "fill_buf p bs buf = take p buf @ bs @ drop (p + length bs) buf"

definition partial_reads :: "int \<Rightarrow> int \<Rightarrow> bool \<Rightarrow> bool \<Rightarrow> OpenFile \<Rightarrow> byte list \<Rightarrow> ('c, 'z) DiskSys_scheme \<Rightarrow> (byte list \<times> ('c, 'z) DiskSys_scheme) res" where
  "partial_reads firstSector lastSector firstAligned lastAligned f buf st =
     bindE (if \<not> firstAligned then bindE (ReadAt (int SectorSize) (firstSector * int SectorSize) f st) (\<lambda>(bs, st). Inr (fill_buf 0 bs buf, st))
            else Inr (buf, st)) (\<lambda>(buf, st).
     if \<not> lastAligned \<and> (firstSector \<noteq> lastSector \<or> firstAligned)
     then bindE (ReadAt (int SectorSize) (lastSector * int SectorSize) f st) (\<lambda>(bs, st).
            Inr (fill_buf (nat (lastSector - firstSector) * SectorSize) bs buf, st))
     else Inr (buf, st))"

definition WriteAt :: "byte list \<Rightarrow> int \<Rightarrow> int \<Rightarrow> OpenFile \<Rightarrow> ('c, 'z) DiskSys_scheme \<Rightarrow> (int \<times> ('c, 'z) DiskSys_scheme) res" where
  "WriteAt from n position f st =
     (let fileLength = FileLength (of_hdr f) in
      if n \<le> 0 \<or> position \<ge> fileLength then Inr (0, st)
      else
        let n = clip fileLength n position;
            firstSector = divRoundDown position (int SectorSize);
            lastSector = divRoundDown (c_int (position + n - 1)) (int SectorSize);
            count = 1 + lastSector - firstSector;
            off = position - firstSector * int SectorSize;
            buf = map (km_junkb (kmem st)) [0..<nat count * SectorSize];
            firstAligned = (position = firstSector * int SectorSize);
            lastAligned = (c_int (position + n) = c_int ((lastSector + 1) * int SectorSize)) in
        bindE (partial_reads firstSector lastSector firstAligned lastAligned f buf st) (\<lambda>(buf, st).
        if off < 0 \<or> int (length from) < n then Inl OutOfBounds
        else bindE (write_sectors (of_hdr f) [firstSector..lastSector] (fill_buf (nat off) (take (nat n) from) buf) st) (\<lambda>st. Inr (n, st))))"

definition OpenFile_Read :: "int \<Rightarrow> OpenFile \<Rightarrow> ('c, 'z) DiskSys_scheme \<Rightarrow> (byte list \<times> OpenFile \<times> ('c, 'z) DiskSys_scheme) res" where
  "OpenFile_Read n f st = bindE (ReadAt n (seekPosition f) f st) (\<lambda>(bs, st).
     Inr (bs, f\<lparr>seekPosition := seekPosition f + int (length bs)\<rparr>, st))"

definition OpenFile_Write :: "byte list \<Rightarrow> int \<Rightarrow> OpenFile \<Rightarrow> ('c, 'z) DiskSys_scheme \<Rightarrow> (int \<times> OpenFile \<times> ('c, 'z) DiskSys_scheme) res" where
  "OpenFile_Write from n f st = bindE (WriteAt from n (seekPosition f) f st) (\<lambda>(r, st).
     Inr (r, f\<lparr>seekPosition := seekPosition f + r\<rparr>, st))"

definition OpenFile_Length :: "OpenFile \<Rightarrow> int" where
  "OpenFile_Length f = FileLength (of_hdr f)"

section \<open>Headers on disk\<close>

definition int32 :: "int \<Rightarrow> bool" where
  "int32 i \<longleftrightarrow> - (2 ^ 31) \<le> i \<and> i < 2 ^ 31"

lemma sint_word_of_int: "int32 i \<Longrightarrow> sint (word_of_int i :: 32 word) = i"
  by (simp add: int32_def sint_sbintrunc' signed_take_bit_int_eq_self)

lemma c_int_id: "int32 i \<Longrightarrow> c_int i = i"
  by (simp add: c_int_def sint_word_of_int)

lemma int32_sint: "int32 (sint (w :: 32 word))"
  using sint_range_size [of w] by (simp add: int32_def word_size)

lemma ints_of_bytes:
  "\<forall>i \<in> set is. int32 i \<Longrightarrow> ints_of be (length is) (concat (map (\<lambda>i. int_bytes be (word_of_int i)) is) @ rest) = is"
  by (induction "is") (simp_all add: sint_word_of_int)

definition hdr_wf :: "FileHeader \<Rightarrow> bool" where
  "hdr_wf h \<longleftrightarrow> length (dataSectors h) = NumDirect \<and> (\<forall>i \<in> set (numBytes h # numSectors h # dataSectors h). int32 i)"

lemma length_hdr_bytes: "hdr_wf h \<Longrightarrow> length (hdr_bytes be h) = SectorSize"
  by (simp add: hdr_bytes_def hdr_wf_def length_concat comp_def sum_list_triv NumDirect_def SectorSize_def)

lemma hdr_roundtrip:
  assumes "hdr_wf h"
  shows "hdr_of_bytes be (hdr_bytes be h) = h"
proof -
  have "ints_of be (length (numBytes h # numSectors h # dataSectors h)) (hdr_bytes be h @ []) = numBytes h # numSectors h # dataSectors h"
    unfolding hdr_bytes_def using assms by (intro ints_of_bytes) (simp add: hdr_wf_def)
  then show ?thesis using assms by (simp add: hdr_of_bytes_def hdr_wf_def)
qed

lemma length_ints_of [simp]: "length (ints_of be n bs) = n"
  by (induction n arbitrary: bs) simp_all

lemma int32_ints_of: "i \<in> set (ints_of be n bs) \<Longrightarrow> int32 i"
  by (induction n arbitrary: bs) (auto simp: int32_sint)

lemma hdr_wf_of_bytes: "hdr_wf (hdr_of_bytes be bs)"
proof -
  obtain a b i where e: "ints_of be (NumDirect + 2) bs = a # b # i" "length i = NumDirect"
    using length_ints_of [of be "NumDirect + 2" bs] by (auto simp: Suc_length_conv)
  have "\<forall>x \<in> set (a # b # i). int32 x" using int32_ints_of [of _ be "NumDirect + 2" bs] e(1) by metis
  then show ?thesis unfolding hdr_of_bytes_def e(1) using e(2) by (simp add: hdr_wf_def)
qed

section \<open>The contents of a file\<close>

text \<open>
  The sectors of a file and its contents. A header is in order when it has the sectors its size
  needs, all on the disk and distinct.
\<close>

definition file_sectors :: "FileHeader \<Rightarrow> int list" where
  "file_sectors h = take (nat (numSectors h)) (dataSectors h)"

definition hdr_ok :: "FileHeader \<Rightarrow> bool" where
  "hdr_ok h \<longleftrightarrow> hdr_wf h \<and> 0 \<le> numBytes h \<and> numSectors h = divRoundUp (numBytes h) (int SectorSize) \<and> nat (numSectors h) \<le> NumDirect
     \<and> (\<forall>s \<in> set (file_sectors h). in_disk s) \<and> distinct (file_sectors h)"

definition raw :: "('c, 'z) DiskSys_scheme \<Rightarrow> FileHeader \<Rightarrow> byte list" where
  "raw st h = concat (map (\<lambda>s. sectors st (nat s)) (file_sectors h))"

definition content :: "('c, 'z) DiskSys_scheme \<Rightarrow> FileHeader \<Rightarrow> byte list" where
  "content st h = take (nat (numBytes h)) (raw st h)"

lemma length_concat_blocks: "\<forall>xs \<in> set xss. length xs = n \<Longrightarrow> length (concat xss) = length xss * n"
  by (induction xss) simp_all

lemma concat_take_blocks: "\<forall>xs \<in> set xss. length xs = n \<Longrightarrow> concat (take m xss) = take (m * n) (concat xss)"
proof (induction xss arbitrary: m)
  case (Cons xs xss)
  then show ?case by (cases m) simp_all
qed simp

lemma concat_drop_blocks: "\<forall>xs \<in> set xss. length xs = n \<Longrightarrow> concat (drop m xss) = drop (m * n) (concat xss)"
proof (induction xss arbitrary: m)
  case (Cons xs xss)
  then show ?case by (cases m) simp_all
qed simp

lemma length_file_sectors: "hdr_ok h \<Longrightarrow> length (file_sectors h) = nat (numSectors h)"
  by (auto simp: file_sectors_def hdr_ok_def hdr_wf_def)

lemma sectors_blocks: "disk_quiet st \<Longrightarrow> hdr_ok h \<Longrightarrow> \<forall>xs \<in> set (map (\<lambda>s. sectors st (nat s)) (file_sectors h)). length xs = SectorSize"
  by (auto simp: hdr_ok_def length_sectors)

lemma length_raw: "disk_quiet st \<Longrightarrow> hdr_ok h \<Longrightarrow> length (raw st h) = nat (numSectors h) * SectorSize"
  using length_concat_blocks [OF sectors_blocks] by (simp add: raw_def length_file_sectors)

lemma size_fits: "hdr_ok h \<Longrightarrow> nat (numBytes h) \<le> nat (numSectors h) * SectorSize"
  using divRoundUp_covers(1,3) [of "numBytes h" "int SectorSize"] by (auto simp: hdr_ok_def nat_le_iff SectorSize_def)

lemma length_content: "disk_quiet st \<Longrightarrow> hdr_ok h \<Longrightarrow> length (content st h) = nat (numBytes h)"
  using size_fits [of h] by (simp add: content_def length_raw)

lemma upto_slice:
  assumes "0 \<le> a" "b < int (length xs)"
  shows "map (\<lambda>i. xs ! nat i) [a..b] = take (nat (b - a + 1)) (drop (nat a) xs)"
proof (rule nth_equalityI)
  show "length (map (\<lambda>i. xs ! nat i) [a..b]) = length (take (nat (b - a + 1)) (drop (nat a) xs))"
    using assms by auto
  fix i assume "i < length (map (\<lambda>i. xs ! nat i) [a..b])"
  then have i: "i < nat (b - a + 1)" by simp
  then have "a + int i \<le> b" by linarith
  then show "map (\<lambda>i. xs ! nat i) [a..b] ! i = take (nat (b - a + 1)) (drop (nat a) xs) ! i"
    using i assms by (simp add: nat_add_distrib)
qed

section \<open>Reading\<close>

lemma ByteToSector_ok:
  "0 \<le> i \<Longrightarrow> i < int (length (dataSectors h)) \<Longrightarrow> ByteToSector (i * int SectorSize) h = Inr (dataSectors h ! nat i)"
  by (simp add: ByteToSector_def get_sector_def sdiv_nonneg SectorSize_def)

lemma read_sectors_list:
  "\<forall>i \<in> set is. 0 \<le> i \<and> i < int (length (dataSectors h)) \<Longrightarrow>
     read_sectors h is st = rd_list ReadSector (map (\<lambda>i. dataSectors h ! nat i) is) st"
  by (induction "is" arbitrary: st) (simp_all add: ByteToSector_ok)

lemma write_sectors_list:
  "\<forall>i \<in> set is. 0 \<le> i \<and> i < int (length (dataSectors h)) \<Longrightarrow>
     write_sectors h is buf st = wr_list WriteSector (map (\<lambda>i. dataSectors h ! nat i) is) buf st"
  by (induction "is" arbitrary: buf st) (simp_all add: ByteToSector_ok fun_eq_iff bindE_def split: sum.splits)

text \<open>The sector numbers of a range of blocks of the file.\<close>

lemma block_range:
  assumes "hdr_ok h" "0 \<le> a" "b < numSectors h"
  shows "map (\<lambda>i. dataSectors h ! nat i) [a..b] = take (nat (b - a + 1)) (drop (nat a) (file_sectors h))"
    and "\<forall>i \<in> set [a..b]. 0 \<le> i \<and> i < int (length (dataSectors h))"
proof -
  have n: "numSectors h \<le> int (length (dataSectors h))" using assms(1) by (auto simp: hdr_ok_def hdr_wf_def)
  have "map (\<lambda>i. dataSectors h ! nat i) [a..b] = map (\<lambda>i. file_sectors h ! nat i) [a..b]"
    using assms(2,3) n by (auto simp: file_sectors_def)
  also have "\<dots> = take (nat (b - a + 1)) (drop (nat a) (file_sectors h))"
    using assms(2,3) length_file_sectors [OF assms(1)] by (intro upto_slice) auto
  finally show "map (\<lambda>i. dataSectors h ! nat i) [a..b] = take (nat (b - a + 1)) (drop (nat a) (file_sectors h))" .
  show "\<forall>i \<in> set [a..b]. 0 \<le> i \<and> i < int (length (dataSectors h))" using assms(2,3) n by auto
qed

lemma read_range:
  assumes "disk_quiet st" "hdr_ok h" "0 \<le> a" "b < numSectors h"
  shows "\<exists>st'. read_sectors h [a..b] st = Inr (take (nat (b - a + 1) * SectorSize) (drop (nat a * SectorSize) (raw st h)), st')
    \<and> disk_quiet st' \<and> sectors st' = sectors st \<and> host_big st' = host_big st"
proof -
  let ?ss = "take (nat (b - a + 1)) (drop (nat a) (file_sectors h))"
  have "\<forall>s \<in> set ?ss. in_disk s" using assms(2) by (auto simp: hdr_ok_def dest: in_set_takeD in_set_dropD)
  then obtain st' where st': "rd_list ReadSector ?ss st = Inr (concat (map (\<lambda>s. sectors st (nat s)) ?ss), st')" "disk_quiet st'"
      "sectors st' = sectors st" "host_big st' = host_big st"
    using synch_disk.rd_list_ok [OF assms(1)] by blast
  let ?bs = "map (\<lambda>s. sectors st (nat s)) (file_sectors h)"
  have b: "\<forall>xs \<in> set ?bs. length xs = SectorSize" by (rule sectors_blocks [OF assms(1,2)])
  then have b': "\<forall>xs \<in> set (drop (nat a) ?bs). length xs = SectorSize" using in_set_dropD by fast
  have "concat (map (\<lambda>s. sectors st (nat s)) ?ss) = take (nat (b - a + 1) * SectorSize) (drop (nat a * SectorSize) (raw st h))"
    unfolding raw_def concat_drop_blocks [OF b, symmetric] concat_take_blocks [OF b', symmetric] by (simp add: take_map drop_map)
  then show ?thesis
    using st' read_sectors_list [OF block_range(2) [OF assms(2-4)], of st] block_range(1) [OF assms(2-4)] by simp
qed

lemma div_bounds:
  fixes x s :: int
  assumes "0 < s"
  shows "x div s * s \<le> x \<and> x < (x div s + 1) * s"
proof -
  have "x div s * s + x mod s = x" by (rule div_mult_mod_eq)
  moreover have "0 \<le> x mod s" "x mod s < s" using assms by simp_all
  moreover have "(x div s + 1) * s = x div s * s + s" by (simp add: distrib_right)
  ultimately show ?thesis by linarith
qed

text \<open>The first and last block of a request inside the file.\<close>

lemma request_blocks:
  assumes "hdr_ok h" "0 \<le> p" "0 < n" "p + n \<le> numBytes h"
  defines "a \<equiv> divRoundDown p (int SectorSize)" and "b \<equiv> divRoundDown (p + n - 1) (int SectorSize)"
  shows "0 \<le> a" "a \<le> b" "b < numSectors h" "a * int SectorSize \<le> p" "p < (a + 1) * int SectorSize" "b * int SectorSize < p + n" "p + n \<le> (b + 1) * int SectorSize"
proof -
  have e: "a = p div int SectorSize" "b = (p + n - 1) div int SectorSize" using assms(2,3) by (simp_all add: a_def b_def SectorSize_def)
  show "0 \<le> a" using assms(2) by (simp add: e pos_imp_zdiv_nonneg_iff SectorSize_def)
  show "a \<le> b" using assms(3) unfolding e by (intro zdiv_mono1) (simp_all add: SectorSize_def)
  have "(p + n - 1) div int SectorSize < divRoundUp (numBytes h) (int SectorSize)"
    using assms(2-4) by (intro div_less_divRoundUp) (simp_all add: SectorSize_def)
  then show "b < numSectors h" using assms(1) by (simp add: e hdr_ok_def)
  show "a * int SectorSize \<le> p" "p < (a + 1) * int SectorSize" "b * int SectorSize < p + n" "p + n \<le> (b + 1) * int SectorSize"
    using div_bounds [of "int SectorSize" p] div_bounds [of "int SectorSize" "p + n - 1"] by (simp_all add: e SectorSize_def)
qed

text \<open>Reading at a position that is not negative yields the bytes of the file there.\<close>

lemma hdr_size_small: "hdr_ok h \<Longrightarrow> numBytes h \<le> int MaxFileSize" "hdr_ok h \<Longrightarrow> numSectors h \<le> int NumDirect"
proof -
  assume h: "hdr_ok h"
  have n: "numSectors h = divRoundUp (numBytes h) 128" "nat (numSectors h) \<le> 30" "0 \<le> numBytes h"
    using h [unfolded hdr_ok_def SectorSize_def NumDirect_def] by auto
  from n show "numBytes h \<le> int MaxFileSize" "numSectors h \<le> int NumDirect"
    using divRoundUp_covers(1) [of "numBytes h" 128] by (simp_all add: MaxFileSize_def NumDirect_def SectorSize_def)
qed

lemma clip_ok:
  assumes "hdr_ok h" "0 \<le> p" "0 < n" "p < numBytes h" "p + n < 2 ^ 31"
  shows "clip (numBytes h) n p = min n (numBytes h - p)" "c_int (p + min n (numBytes h - p) - 1) = p + min n (numBytes h - p) - 1"
    "c_int (p + min n (numBytes h - p)) = p + min n (numBytes h - p)"
  using assms hdr_size_small(1) [OF assms(1)]
  by (auto simp: clip_def c_int_id int32_def MaxFileSize_def NumDirect_def SectorSize_def min_def)

lemma ReadAt_content:
  assumes "disk_quiet st" "hdr_ok (of_hdr f)" "0 \<le> p" "p < numBytes (of_hdr f) \<longrightarrow> p + n < 2 ^ 31"
  shows "\<exists>st'. ReadAt n p f st = Inr (take (nat n) (drop (nat p) (content st (of_hdr f))), st') \<and> disk_quiet st' \<and> sectors st' = sectors st \<and> host_big st' = host_big st"
proof -
  let ?h = "of_hdr f"
  have len: "length (content st ?h) = nat (numBytes ?h)" by (rule length_content [OF assms(1,2)])
  show ?thesis
  proof (cases "n \<le> 0 \<or> p \<ge> numBytes ?h")
    case True
    then have "take (nat n) (drop (nat p) (content st ?h)) = []" using len by auto
    then show ?thesis using True assms(1) by (simp add: ReadAt_def FileLength_def)
  next
    case False
    define k where "k = clip (numBytes ?h) n p"
    have c: "k = min n (numBytes ?h - p)" "c_int (p + k - 1) = p + k - 1"
      using clip_ok [OF assms(2,3), of n] False assms(4) by (simp_all add: k_def)
    then have k: "0 < k" "p + k \<le> numBytes ?h" "k = min n (numBytes ?h - p)" using False by auto
    define a where "a = divRoundDown p (int SectorSize)"
    define b where "b = divRoundDown (p + k - 1) (int SectorSize)"
    note r = request_blocks [OF assms(2,3) k(1,2), folded a_def b_def]
    obtain st' where st': "read_sectors ?h [a..b] st = Inr (take (nat (b - a + 1) * SectorSize) (drop (nat a * SectorSize) (raw st ?h)), st')"
        "disk_quiet st'" "sectors st' = sectors st" "host_big st' = host_big st"
      using read_range [OF assms(1,2) r(1,3)] by blast
    define off where "off = p - a * int SectorSize"
    have off: "0 \<le> off" "nat a * SectorSize + nat off = nat p" using r(1,4) assms(3)
      by (simp_all add: off_def nat_diff_distrib nat_mult_distrib le_nat_iff)
    have room: "nat k \<le> nat (b - a + 1) * SectorSize - nat off"
    proof -
      have "int (nat off + nat k) \<le> int (nat (b - a + 1) * SectorSize)"
        using r(2,7) off(1) k(1) by (simp add: off_def algebra_simps)
      then show ?thesis by linarith
    qed
    have "ReadAt n p f st = Inr (take (nat k) (drop (nat off) (take (nat (b - a + 1) * SectorSize) (drop (nat a * SectorSize) (raw st ?h)))), st')"
      using False st'(1) off(1) by (simp add: ReadAt_def FileLength_def k_def [symmetric] c(2) a_def [symmetric] b_def [symmetric] Let_def) (simp add: off_def)
    also have "take (nat k) (drop (nat off) (take (nat (b - a + 1) * SectorSize) (drop (nat a * SectorSize) (raw st ?h)))) = take (nat k) (drop (nat p) (raw st ?h))"
      using room off(2) by (simp add: drop_take add.commute min.absorb1)
    also have "\<dots> = take (nat n) (drop (nat p) (content st ?h))"
    proof -
      have "nat k = min (nat n) (nat (numBytes ?h) - nat p)" using k(3) assms(3) by (simp add: min_def nat_diff_distrib nat_le_iff le_nat_iff) linarith
      then show ?thesis by (simp add: content_def drop_take)
    qed
    finally show ?thesis using st' by blast
  qed
qed

section \<open>Writing\<close>

lemma nat_in_disk: "in_disk s \<Longrightarrow> in_disk t \<Longrightarrow> nat s = nat t \<longleftrightarrow> s = t"
  by (auto simp: in_disk_def eq_nat_nat_iff)

text \<open>Writing a range of blocks replaces that part of the raw contents and no other sector.\<close>

lemma write_range:
  assumes "disk_quiet st" "hdr_ok h" "0 \<le> a" "a \<le> b" "b < numSectors h" "length buf = nat (b - a + 1) * SectorSize"
  shows "\<exists>st'. write_sectors h [a..b] buf st = Inr st' \<and> disk_quiet st' \<and> host_big st' = host_big st
    \<and> raw st' h = take (nat a * SectorSize) (raw st h) @ buf @ drop (nat (b + 1) * SectorSize) (raw st h)
    \<and> (\<forall>t. t \<notin> nat ` set (file_sectors h) \<longrightarrow> sectors st' t = sectors st t)"
proof -
  define pre mid post where "pre = take (nat a) (file_sectors h)" and "mid = take (nat (b - a + 1)) (drop (nat a) (file_sectors h))"
    and "post = drop (nat (b + 1)) (file_sectors h)"
  have n: "nat (b - a + 1) + nat a = nat (b + 1)" using assms(3,4) by simp
  have split: "file_sectors h = pre @ mid @ post"
    by (simp add: pre_def mid_def post_def n [symmetric] drop_drop [symmetric] del: drop_drop)
  have len: "length mid = nat (b - a + 1)" using assms(3-5) length_file_sectors [OF assms(2)] by (auto simp: mid_def)
  have d: "\<forall>s \<in> set (pre @ mid @ post). in_disk s" "distinct (pre @ mid @ post)" using assms(2) split by (simp_all add: hdr_ok_def)
  obtain st' where st': "wr_list WriteSector mid buf st = Inr st'" "disk_quiet st'" "concat (map (\<lambda>n. sectors st' (nat n)) mid) = buf"
      "\<forall>t. t \<notin> nat ` set mid \<longrightarrow> sectors st' t = sectors st t" "host_big st' = host_big st"
    using synch_disk.wr_list_ok [OF assms(1), of mid buf] d assms(6) len by auto
  have other: "map (\<lambda>s. sectors st' (nat s)) xs = map (\<lambda>s. sectors st (nat s)) xs" if "set xs \<subseteq> set pre \<union> set post" for xs
  proof (rule map_cong [OF refl])
    fix s assume "s \<in> set xs"
    then have "s \<notin> set mid" "in_disk s" using that d by auto
    then have "nat s \<notin> nat ` set mid" using d(1) nat_in_disk by auto
    then show "sectors st' (nat s) = sectors st (nat s)" using st'(4) by blast
  qed
  note blocks = sectors_blocks [OF assms(1,2)]
  have "raw st' h = concat (map (\<lambda>s. sectors st (nat s)) pre) @ buf @ concat (map (\<lambda>s. sectors st (nat s)) post)"
    unfolding raw_def split map_append concat_append st'(3) other [of pre, OF Un_upper1] other [of post, OF Un_upper2] by simp
  also have "\<dots> = take (nat a * SectorSize) (raw st h) @ buf @ drop (nat (b + 1) * SectorSize) (raw st h)"
    by (simp add: raw_def pre_def post_def concat_take_blocks [OF blocks, symmetric] concat_drop_blocks [OF blocks, symmetric] take_map drop_map)
  finally have raw': "raw st' h = take (nat a * SectorSize) (raw st h) @ buf @ drop (nat (b + 1) * SectorSize) (raw st h)" .
  have "write_sectors h [a..b] buf st = Inr st'"
    using st'(1) write_sectors_list [OF block_range(2) [OF assms(2,3,5)], of buf st] block_range(1) [OF assms(2,3,5)] by (simp add: mid_def)
  then show ?thesis using st' raw' split by auto
qed

lemma fill_overwrite: "p + length bs \<le> length buf \<Longrightarrow> fill_buf p bs buf = overwrite p bs buf"
  by (simp add: fill_buf_def overwrite_inside)

text \<open>Reading a block into the buffer.\<close>

lemma block_fill:
  assumes "disk_quiet st" "hdr_ok (of_hdr f)" "0 \<le> i" "Suc k * SectorSize \<le> length buf"
  obtains bs st1 where "ReadAt (int SectorSize) (i * int SectorSize) f st = Inr (bs, st1)" "disk_quiet st1" "sectors st1 = sectors st" "host_big st1 = host_big st"
    "length (fill_buf (k * SectorSize) bs buf) = length buf"
    "\<forall>j < length buf. fill_buf (k * SectorSize) bs buf ! j = (if k * SectorSize \<le> j \<and> j < Suc k * SectorSize \<and> nat i * SectorSize + (j - k * SectorSize) < nat (numBytes (of_hdr f))
       then raw st (of_hdr f) ! (nat i * SectorSize + (j - k * SectorSize)) else buf ! j)"
proof -
  let ?c = "content st (of_hdr f)" and ?k = "k * SectorSize" and ?i = "nat i * SectorSize"
  define bs where "bs = take SectorSize (drop ?i ?c)"
  have "nat (i * int SectorSize) = ?i" "0 \<le> i * int SectorSize" using assms(3) by (simp_all add: nat_mult_distrib)
  then obtain st1 where st1: "ReadAt (int SectorSize) (i * int SectorSize) f st = Inr (bs, st1)" "disk_quiet st1" "sectors st1 = sectors st" "host_big st1 = host_big st"
    using ReadAt_content [OF assms(1,2), of "i * int SectorSize" "int SectorSize"] hdr_size_small(1) [OF assms(2)]
    by (auto simp: bs_def MaxFileSize_def NumDirect_def SectorSize_def)
  have len: "length bs = min SectorSize (nat (numBytes (of_hdr f)) - ?i)" by (simp add: bs_def length_content [OF assms(1,2)] min.commute)
  then have fits: "?k + length bs \<le> length buf" using assms(4) by simp
  have "fill_buf ?k bs buf ! j = (if ?k \<le> j \<and> j < Suc k * SectorSize \<and> ?i + (j - ?k) < nat (numBytes (of_hdr f)) then raw st (of_hdr f) ! (?i + (j - ?k)) else buf ! j)"
    if "j < length buf" for j
  proof -
    have "?k \<le> j \<and> j < ?k + length bs \<longleftrightarrow> ?k \<le> j \<and> j < Suc k * SectorSize \<and> ?i + (j - ?k) < nat (numBytes (of_hdr f))"
      by (cases "?k \<le> j") (auto simp: len le_iff_add less_diff_conv add.commute)
    moreover have "bs ! (j - ?k) = raw st (of_hdr f) ! (?i + (j - ?k))" if "?k \<le> j" "j < ?k + length bs"
    proof -
      have "j - ?k < length bs" using that by simp
      moreover from this have "?i \<le> length ?c" using len length_content [OF assms(1,2)] by linarith
      ultimately have "bs ! (j - ?k) = ?c ! (?i + (j - ?k))" by (simp add: bs_def)
      then show ?thesis using that len by (simp add: content_def)
    qed
    ultimately show ?thesis using that fits by (auto simp: fill_overwrite nth_overwrite)
  qed
  then show thesis using that st1 fits by (simp add: fill_overwrite length_overwrite)
qed

text \<open>The sectors that are changed in part are read before they are written back.\<close>

lemma partial_blocks:
  assumes "disk_quiet st" "hdr_ok (of_hdr f)" "0 \<le> a" "a \<le> b" "length buf = nat (b - a + 1) * SectorSize"
  shows "\<exists>buf' st'. partial_reads a b fa la f buf st = Inr (buf', st')
     \<and> disk_quiet st' \<and> sectors st' = sectors st \<and> host_big st' = host_big st \<and> length buf' = length buf
     \<and> (\<not> fa \<longrightarrow> (\<forall>j < SectorSize. nat a * SectorSize + j < nat (numBytes (of_hdr f)) \<longrightarrow> buf' ! j = raw st (of_hdr f) ! (nat a * SectorSize + j)))
     \<and> (\<not> la \<longrightarrow> (\<forall>j < SectorSize. nat b * SectorSize + j < nat (numBytes (of_hdr f)) \<longrightarrow> buf' ! (nat (b - a) * SectorSize + j) = raw st (of_hdr f) ! (nat b * SectorSize + j)))"
proof -
  let ?h = "of_hdr f" and ?k = "nat (b - a)" and ?N = "nat (numBytes (of_hdr f))"
  have sz: "Suc ?k * SectorSize \<le> length buf" "Suc 0 * SectorSize \<le> length buf" using assms(4,5) by (simp_all add: nat_add_distrib)
  obtain buf1 st1 where 1: "(if \<not> fa then bindE (ReadAt (int SectorSize) (a * int SectorSize) f st) (\<lambda>(bs, st). Inr (fill_buf 0 bs buf, st)) else Inr (buf, st)) = Inr (buf1, st1)"
      "disk_quiet st1" "sectors st1 = sectors st" "host_big st1 = host_big st" "length buf1 = length buf"
      "\<not> fa \<longrightarrow> (\<forall>j < SectorSize. nat a * SectorSize + j < ?N \<longrightarrow> buf1 ! j = raw st ?h ! (nat a * SectorSize + j))"
  proof (cases fa)
    case True
    then show thesis using that [of buf st] assms(1) by simp
  next
    case False
    obtain bs s where r: "ReadAt (int SectorSize) (a * int SectorSize) f st = Inr (bs, s)" "disk_quiet s" "sectors s = sectors st" "host_big s = host_big st"
      and l: "length (fill_buf (0 * SectorSize) bs buf) = length buf"
      and nth: "\<forall>j < length buf. fill_buf (0 * SectorSize) bs buf ! j = (if 0 * SectorSize \<le> j \<and> j < Suc 0 * SectorSize \<and> nat a * SectorSize + (j - 0 * SectorSize) < ?N
        then raw st ?h ! (nat a * SectorSize + (j - 0 * SectorSize)) else buf ! j)"
      by (rule block_fill [OF assms(1-3) sz(2)])
    show thesis using that [of "fill_buf 0 bs buf" s] r l nth sz(2) False by auto
  qed
  have raw1: "raw st1 ?h = raw st ?h" using 1(3) by (simp add: raw_def)
  show ?thesis
  proof (cases "\<not> la \<and> (a \<noteq> b \<or> fa)")
    case True
    have b0: "0 \<le> b" and sz1: "Suc ?k * SectorSize \<le> length buf1" using assms(3,4) sz(1) 1(5) by simp_all
    obtain bs s where r: "ReadAt (int SectorSize) (b * int SectorSize) f st1 = Inr (bs, s)" "disk_quiet s" "sectors s = sectors st1" "host_big s = host_big st1"
      and l: "length (fill_buf (?k * SectorSize) bs buf1) = length buf1"
      and nth: "\<forall>j < length buf1. fill_buf (?k * SectorSize) bs buf1 ! j = (if ?k * SectorSize \<le> j \<and> j < Suc ?k * SectorSize \<and> nat b * SectorSize + (j - ?k * SectorSize) < ?N
        then raw st1 ?h ! (nat b * SectorSize + (j - ?k * SectorSize)) else buf1 ! j)"
      by (rule block_fill [OF 1(2) assms(2) b0 sz1])
    have first: "fill_buf (?k * SectorSize) bs buf1 ! j = raw st ?h ! (nat a * SectorSize + j)"
      if "\<not> fa" "j < SectorSize" "nat a * SectorSize + j < ?N" for j
    proof -
      have "a \<noteq> b" using True that(1) by blast
      then have "SectorSize \<le> ?k * SectorSize" using assms(4) by (simp add: Suc_le_eq)
      then have "\<not> ?k * SectorSize \<le> j" using that(2) by linarith
      then show ?thesis using nth that 1(5,6) sz(2) by simp
    qed
    have "fill_buf (?k * SectorSize) bs buf1 ! (?k * SectorSize + j) = raw st ?h ! (nat b * SectorSize + j)"
      if "j < SectorSize" "nat b * SectorSize + j < ?N" for j
      using nth that 1(5) sz(1) raw1 by simp
    then show ?thesis using 1 r l first True by (auto simp: partial_reads_def)
  next
    case False
    have "\<forall>j < SectorSize. nat b * SectorSize + j < ?N \<longrightarrow> buf1 ! (?k * SectorSize + j) = raw st ?h ! (nat b * SectorSize + j)" if "\<not> la"
      using that False 1(6) by simp
    then show ?thesis using 1 False by (auto simp: partial_reads_def)
  qed
qed

text \<open>Replacing the blocks of a request by the buffer replaces exactly the bytes of the request.\<close>

lemma patched_content:
  fixes A B P K :: nat
  assumes "A \<le> P" "P + K \<le> B" "length buf = B - A" "length data = K" "N \<le> length old" "P + K \<le> N" "B \<le> length old"
    and "\<And>i. A \<le> i \<Longrightarrow> i < P \<Longrightarrow> buf ! (i - A) = old ! i"
    and "\<And>i. P + K \<le> i \<Longrightarrow> i < B \<Longrightarrow> i < N \<Longrightarrow> buf ! (i - A) = old ! i"
  shows "take N (take A old @ fill_buf (P - A) data buf @ drop B old) = fill_buf P data (take N old)"
proof (rule nth_equalityI)
  let ?b = "fill_buf (P - A) data buf"
  have fb: "?b = overwrite (P - A) data buf" "length ?b = B - A" using assms(1-4) by (simp_all add: fill_overwrite length_overwrite)
  have fo: "fill_buf P data (take N old) = overwrite P data (take N old)" using assms(4-6) by (intro fill_overwrite) simp
  have len: "length (take A old @ ?b @ drop B old) = length old" using fb(2) assms(1,2,7) by simp
  show "length (take N (take A old @ ?b @ drop B old)) = length (fill_buf P data (take N old))"
    unfolding fo length_take len using assms(4-6) by (simp add: length_overwrite)
  fix i assume "i < length (take N (take A old @ ?b @ drop B old))"
  then have i: "i < N" "i < length old" unfolding length_take len using assms(5) by simp_all
  have new: "fill_buf P data (take N old) ! i = (if P \<le> i \<and> i < P + K then data ! (i - P) else old ! i)"
    unfolding fo using i assms(4-6) by (simp add: nth_overwrite)
  consider "i < A" | "A \<le> i" "i < B" | "B \<le> i" by linarith
  then have "(take A old @ ?b @ drop B old) ! i = (if P \<le> i \<and> i < P + K then data ! (i - P) else old ! i)"
  proof cases
    case 1
    then show ?thesis using assms(1,2,7) i by (simp add: nth_append)
  next
    case 2
    then have "(take A old @ ?b @ drop B old) ! i = ?b ! (i - A)" using assms(1,2,7) fb(2) i by (auto simp: nth_append)
    also have "\<dots> = (if P - A \<le> i - A \<and> i - A < P - A + K then data ! (i - A - (P - A)) else buf ! (i - A))"
      unfolding fb(1) using 2 assms(1-4) by (subst nth_overwrite) auto
    also have "\<dots> = (if P \<le> i \<and> i < P + K then data ! (i - P) else old ! i)"
      using 2 assms(1,8,9) i(1) by (cases "i < P") auto
    finally show ?thesis .
  next
    case 3
    then show ?thesis using assms(1,2,7) fb(2) i by (auto simp: nth_append)
  qed
  then show "take N (take A old @ ?b @ drop B old) ! i = fill_buf P data (take N old) ! i" by (simp only: nth_take [OF i(1)] new)
qed

text \<open>Writing at a position that is not negative replaces the bytes there, up to the end of the file.\<close>

lemma WriteAt_content:
  assumes "disk_quiet st" "hdr_ok (of_hdr f)" "0 \<le> p" "n \<le> int (length from)" "p < numBytes (of_hdr f) \<longrightarrow> p + n < 2 ^ 31"
  defines "r \<equiv> max 0 (min n (numBytes (of_hdr f) - p))"
  shows "\<exists>st'. WriteAt from n p f st = Inr (r, st') \<and> disk_quiet st' \<and> host_big st' = host_big st
    \<and> content st' (of_hdr f) = fill_buf (nat p) (take (nat r) from) (content st (of_hdr f))
    \<and> (\<forall>t. t \<notin> nat ` set (file_sectors (of_hdr f)) \<longrightarrow> sectors st' t = sectors st t)"
proof (cases "n \<le> 0 \<or> p \<ge> numBytes (of_hdr f)")
  case True
  then have "r = 0" by (auto simp: r_def)
  then show ?thesis using True assms(1) by (simp add: WriteAt_def FileLength_def fill_buf_def)
next
  case False
  let ?h = "of_hdr f"
  have rm: "r = min n (numBytes ?h - p)" using False by (auto simp: r_def)
  have c: "r = clip (numBytes ?h) n p" "c_int (p + r - 1) = p + r - 1" "c_int (p + r) = p + r"
    using clip_ok [OF assms(2,3), of n] False assms(5) by (simp_all add: rm)
  have r: "r = clip (numBytes ?h) n p" "0 < r" "p + r \<le> numBytes ?h" "r \<le> n" using False c(1) rm by auto
  define a where "a = divRoundDown p (int SectorSize)"
  define b where "b = divRoundDown (p + r - 1) (int SectorSize)"
  note q = request_blocks [OF assms(2,3) r(2,3), folded a_def b_def]
  have cb: "c_int ((b + 1) * int SectorSize) = (b + 1) * int SectorSize"
  proof -
    have "(b + 1) * int SectorSize \<le> int NumDirect * int SectorSize"
      using q(3) hdr_size_small(2) [OF assms(2)] by (intro mult_right_mono) simp_all
    then show ?thesis using q(1,2) by (intro c_int_id) (simp add: int32_def NumDirect_def SectorSize_def)
  qed
  define buf where "buf = map (km_junkb (kmem st)) [0..<nat (1 + b - a) * SectorSize]"
  have cnt: "1 + b - a = b - a + 1" by simp
  have lb: "length buf = nat (b - a + 1) * SectorSize" by (simp add: buf_def cnt)
  obtain buf2 st2 where p2: "partial_reads a b (p = a * int SectorSize) (p + r = (b + 1) * int SectorSize) f buf st = Inr (buf2, st2)"
     and s2: "disk_quiet st2" "sectors st2 = sectors st" "host_big st2 = host_big st" "length buf2 = length buf"
     and f2: "p \<noteq> a * int SectorSize \<longrightarrow> (\<forall>j < SectorSize. nat a * SectorSize + j < nat (numBytes ?h) \<longrightarrow> buf2 ! j = raw st ?h ! (nat a * SectorSize + j))"
       "p + r \<noteq> (b + 1) * int SectorSize \<longrightarrow> (\<forall>j < SectorSize. nat b * SectorSize + j < nat (numBytes ?h) \<longrightarrow> buf2 ! (nat (b - a) * SectorSize + j) = raw st ?h ! (nat b * SectorSize + j))"
    using partial_blocks [OF assms(1,2) q(1,2) lb, of "p = a * int SectorSize" "p + r = (b + 1) * int SectorSize"] by auto
  define data where "data = take (nat r) from"
  have ld: "length data = nat r" using r(4) assms(4) by (simp add: data_def)
  define off where "off = p - a * int SectorSize"
  have nb: "nat b = nat a + nat (b - a)" using q(1,2) by simp
  have nb1: "nat (b - a + 1) = nat (b + 1) - nat a" using q(1,2) by simp
  have n: "nat off = nat p - nat a * SectorSize" "nat (b + 1) * SectorSize = nat b * SectorSize + SectorSize" "0 \<le> off"
    using q(1,2,4) by (simp_all add: off_def nat_diff_distrib nat_mult_distrib nat_add_distrib)
  have n3: "nat b * SectorSize = nat a * SectorSize + nat (b - a) * SectorSize" "nat (b - a + 1) * SectorSize = nat (b + 1) * SectorSize - nat a * SectorSize"
    by (metis nb distrib_right) (metis nb1 diff_mult_distrib)
  have A: "nat a * SectorSize \<le> nat p" "nat p < nat a * SectorSize + SectorSize" "nat b * SectorSize < nat p + nat r" "nat p + nat r \<le> nat (b + 1) * SectorSize"
  proof -
    have I: "int (nat a * SectorSize) = a * int SectorSize" "int (nat b * SectorSize) = b * int SectorSize"
        "int (nat (b + 1) * SectorSize) = (b + 1) * int SectorSize" "int (nat p) = p" "int (nat r) = r"
      using q(1,2) assms(3) r(2) by simp_all
    have "int (nat a * SectorSize) \<le> int (nat p)" "int (nat p) < int (nat a * SectorSize + SectorSize)"
        "int (nat b * SectorSize) < int (nat p + nat r)" "int (nat p + nat r) \<le> int (nat (b + 1) * SectorSize)"
      unfolding of_nat_add I using q(4-7) by (simp_all add: distrib_right)
    then show "nat a * SectorSize \<le> nat p" "nat p < nat a * SectorSize + SectorSize" "nat b * SectorSize < nat p + nat r" "nat p + nat r \<le> nat (b + 1) * SectorSize"
      by (simp_all only: of_nat_le_iff of_nat_less_iff)
  qed
  have B: "nat (b + 1) * SectorSize \<le> length (raw st ?h)"
    using q(3) unfolding length_raw [OF assms(1,2)] by (intro mult_le_mono1) simp
  have raw2: "raw st2 ?h = raw st ?h" using s2(2) by (simp add: raw_def)
  have lb2: "length (fill_buf (nat off) data buf2) = nat (b - a + 1) * SectorSize"
  proof -
    have "nat off + length data \<le> length buf2" using A n(1) n3(2) ld lb s2(4) by linarith
    then show ?thesis using lb s2(4) by (simp add: fill_overwrite length_overwrite)
  qed
  obtain st' where st': "write_sectors ?h [a..b] (fill_buf (nat off) data buf2) st2 = Inr st'" "disk_quiet st'" "host_big st' = host_big st2"
      "raw st' ?h = take (nat a * SectorSize) (raw st ?h) @ fill_buf (nat p - nat a * SectorSize) data buf2 @ drop (nat (b + 1) * SectorSize) (raw st ?h)"
      "\<forall>t. t \<notin> nat ` set (file_sectors ?h) \<longrightarrow> sectors st' t = sectors st t"
    using write_range [OF s2(1) assms(2) q(1,2,3) lb2] n(1) s2(2) raw2 by auto
  have before: "buf2 ! (i - nat a * SectorSize) = raw st ?h ! i" if "nat a * SectorSize \<le> i" "i < nat p" for i
  proof -
    have "p \<noteq> a * int SectorSize" using that q(1) by (auto simp: nat_mult_distrib)
    moreover have "i - nat a * SectorSize < SectorSize" "i < nat (numBytes ?h)" using that A(2) r(2,3) assms(3) by linarith+
    ultimately show ?thesis using f2(1) that(1) by simp
  qed
  have behind: "buf2 ! (i - nat a * SectorSize) = raw st ?h ! i" if "nat p + nat r \<le> i" "i < nat (b + 1) * SectorSize" "i < nat (numBytes ?h)" for i
  proof -
    have "p + r \<noteq> (b + 1) * int SectorSize"
    proof
      assume "p + r = (b + 1) * int SectorSize"
      then have "nat p + nat r = nat (b + 1) * SectorSize" using assms(3) r(2) q(1,2) by (metis add_increasing int_nat_eq nat_add_distrib nat_int nat_mult_distrib order.strict_implies_order order_trans zero_le_one)
      then show False using that by simp
    qed
    moreover define j where "j = i - nat b * SectorSize"
    have "i = nat b * SectorSize + j" "j < SectorSize" using that A(3) n(2) unfolding j_def by linarith+
    moreover have "i - nat a * SectorSize = nat (b - a) * SectorSize + j" using \<open>i = nat b * SectorSize + j\<close> n3(1) by simp
    ultimately show ?thesis using f2(2) that(3) by simp
  qed
  have "content st' ?h = fill_buf (nat p) data (content st ?h)"
  proof -
    have l2: "length buf2 = nat (b + 1) * SectorSize - nat a * SectorSize" using lb s2(4) n3(2) by simp
    have N: "nat (numBytes ?h) \<le> length (raw st ?h)" using size_fits [OF assms(2)] length_raw [OF assms(1,2)] by simp
    have "nat p + nat r \<le> nat (numBytes ?h)" using r(2,3) assms(3) by linarith
    then show ?thesis
      unfolding content_def st'(4) by (rule patched_content [OF A(1,4) l2 ld N _ B before behind])
  qed
  moreover have "WriteAt from n p f st = Inr (r, st')"
    using False p2 st'(1) n(3) ld r(4) assms(4)
    unfolding WriteAt_def FileLength_def Let_def r(1) [symmetric] c(2,3) a_def [symmetric] b_def [symmetric] cb buf_def [symmetric] off_def [symmetric]
      data_def [symmetric]
    by simp
  ultimately show ?thesis using st' s2(3) by (simp add: data_def)
qed

section \<open>Whole files\<close>

text \<open>A table that fills its file is read and written as a whole.\<close>

lemma fill_whole: "length bs = length buf \<Longrightarrow> fill_buf 0 bs buf = bs"
  by (simp add: fill_buf_def)

lemma read_whole:
  assumes "disk_quiet st" "hdr_ok (of_hdr f)" "content st (of_hdr f) = bs" "n = int (length bs)"
  shows "\<exists>st'. ReadAt n 0 f st = Inr (bs, st') \<and> disk_quiet st' \<and> sectors st' = sectors st \<and> host_big st' = host_big st"
proof -
  have "n \<le> int MaxFileSize" using length_content [OF assms(1,2)] hdr_size_small(1) [OF assms(2)] assms(2,3,4) by (simp add: hdr_ok_def)
  then show ?thesis using ReadAt_content [OF assms(1,2), of 0 n] assms(3,4) by (simp add: MaxFileSize_def NumDirect_def SectorSize_def)
qed

lemma write_whole:
  assumes "disk_quiet st" "hdr_ok (of_hdr f)" "n = int (length bs)" "numBytes (of_hdr f) = n"
  shows "\<exists>r st'. WriteAt bs n 0 f st = Inr (r, st') \<and> disk_quiet st' \<and> host_big st' = host_big st \<and> content st' (of_hdr f) = bs
    \<and> (\<forall>t. t \<notin> nat ` set (file_sectors (of_hdr f)) \<longrightarrow> sectors st' t = sectors st t)"
proof -
  have "length (content st (of_hdr f)) = length bs" using length_content [OF assms(1,2)] assms(3,4) by simp
  moreover have "n < 2 ^ 31" using hdr_size_small(1) [OF assms(2)] assms(4) by (simp add: MaxFileSize_def NumDirect_def SectorSize_def)
  ultimately show ?thesis using WriteAt_content [OF assms(1,2), of 0 n bs] assms(3,4) by (auto simp: fill_whole)
qed

section \<open>Properties\<close>

definition example_file :: OpenFile where
  "example_file = \<lparr>of_hdr = \<lparr>numBytes = 200, numSectors = 2, dataSectors = [5, 9] @ replicate 28 0\<rparr>, seekPosition = 0\<rparr>"

lemma example_file_ok: "hdr_ok (of_hdr example_file)"
  by (simp add: example_file_def hdr_ok_def hdr_wf_def NumDirect_def SectorSize_def int32_def file_sectors_def in_disk_def
      NumSectors_def SectorsPerTrack_def NumTracks_def divRoundUp_nonneg)

lemma example_file_blank: "content example_sys (of_hdr example_file) = replicate 200 0"
proof -
  have "sectors example_sys 5 = replicate SectorSize 0" "sectors example_sys 9 = replicate SectorSize 0"
    using blank_disk_ok(3) by (simp_all add: example_sys_def sectors_def NumSectors_def SectorsPerTrack_def NumTracks_def)
  then show ?thesis by (simp add: content_def raw_def example_file_def file_sectors_def SectorSize_def replicate_add [symmetric])
qed

text \<open>C6: An open file is a sequence of bytes of fixed length. When the disk is idle and the end of the request is a number of 31 bits, WriteAt returns the number
  of bytes that fit between the position and the end of the file, replaces exactly those bytes of
  the sequence, whatever sectors they span and however the request is aligned, and changes no sector outside the file; a ReadAt
  that follows returns the bytes of the new sequence.\<close>

theorem file_refines_bytes:
  assumes "disk_quiet st" "hdr_ok (of_hdr f)" "0 \<le> p" "0 \<le> q" "n \<le> int (length data)" "p + n < 2 ^ 31" "q + m < 2 ^ 31"
  shows "\<exists>r st' st''. WriteAt data n p f st = Inr (r, st') \<and> r = max 0 (min n (OpenFile_Length f - p))
    \<and> content st' (of_hdr f) = fill_buf (nat p) (take (nat r) data) (content st (of_hdr f))
    \<and> (\<forall>t. t \<notin> nat ` set (file_sectors (of_hdr f)) \<longrightarrow> sectors st' t = sectors st t)
    \<and> ReadAt m q f st' = Inr (take (nat m) (drop (nat q) (content st' (of_hdr f))), st'')
    \<and> disk_quiet st'' \<and> sectors st'' = sectors st'"
proof -
  obtain r st' where w: "WriteAt data n p f st = Inr (r, st')" "r = max 0 (min n (OpenFile_Length f - p))" "disk_quiet st'"
      "content st' (of_hdr f) = fill_buf (nat p) (take (nat r) data) (content st (of_hdr f))"
      "\<forall>t. t \<notin> nat ` set (file_sectors (of_hdr f)) \<longrightarrow> sectors st' t = sectors st t"
    using WriteAt_content [OF assms(1,2,3,5)] assms(6) by (auto simp: OpenFile_Length_def FileLength_def)
  with ReadAt_content [OF w(3) assms(2,4), of m] assms(7) show ?thesis by blast
qed

theorem file_refines_bytes_witness:
  "\<exists>st' st''. WriteAt [1, 2, 3] 3 127 example_file example_sys = Inr (3, st') \<and> ReadAt 5 126 example_file st' = Inr ([0, 1, 2, 3, 0], st'')"
proof -
  have "\<exists>r st' st''. WriteAt [1, 2, 3] 3 127 example_file example_sys = Inr (r, st') \<and> r = max 0 (min 3 (OpenFile_Length example_file - 127))
    \<and> content st' (of_hdr example_file) = fill_buf (nat 127) (take (nat r) [1, 2, 3]) (content example_sys (of_hdr example_file))
    \<and> (\<forall>t. t \<notin> nat ` set (file_sectors (of_hdr example_file)) \<longrightarrow> sectors st' t = sectors example_sys t)
    \<and> ReadAt 5 126 example_file st' = Inr (take (nat 5) (drop (nat 126) (content st' (of_hdr example_file))), st'')
    \<and> disk_quiet st'' \<and> sectors st'' = sectors st'"
    by (rule file_refines_bytes [OF example_sys_quiet example_file_ok]) simp_all
  moreover have "OpenFile_Length example_file = 200" by (simp add: OpenFile_Length_def FileLength_def example_file_def)
  moreover have "take 5 (drop 126 (fill_buf 127 [1, 2, 3] (replicate 200 (0 :: byte)))) = [0, 1, 2, 3, 0]"
    by (simp add: fill_buf_def)
  ultimately show ?thesis by (auto simp: example_file_blank)
qed

end
