(* ===== verification/Directory.thy ===== *)
theory Directory
  imports OpenFile
begin

text \<open>
  Directories, \<^verbatim>\<open>filesys/directory.cc\<close>: a table of entries with names of nine bytes,
  which is stored in a file as it lies in the memory of the host. The table implements a finite
  map from names to the sectors of file headers; the locale \<^verbatim>\<open>name_table\<close> states this as the interface of
  a directory, which the file system relies on.
\<close>

section \<open>Directories\<close>

text \<open>
  A C string argument is the list of its bytes without the terminating zero byte.
  \<^verbatim>\<open>strncpy\<close> and \<^verbatim>\<open>strncmp\<close> (compared with zero) as the code uses them: the array of a
  directory entry on one side, a string on the other.
\<close>

type_synonym cstring = "byte list"

definition FileNameMaxLen :: nat where "FileNameMaxLen = 9"

definition strncpy :: "byte list \<Rightarrow> cstring \<Rightarrow> nat \<Rightarrow> byte list" where
  "strncpy dst src n = take n (src @ replicate n 0) @ drop n dst"

fun strncmp_eq :: "byte list \<Rightarrow> byte list \<Rightarrow> nat \<Rightarrow> bool" where
  "strncmp_eq s t 0 = True"
| "strncmp_eq (x # xs) (y # ys) (Suc n) = (x = y \<and> (x = 0 \<or> strncmp_eq xs ys n))"
| "strncmp_eq _ _ (Suc n) = False"

text \<open>A directory entry; the compiler pads it to 20 bytes, and the padding goes to disk with it.\<close>

record DirectoryEntry =
  inUse :: bool
  de_pad :: "byte list"
  de_sector :: int
  de_name :: "byte list"
  de_pad2 :: "byte list"

definition sizeof_entry :: nat where "sizeof_entry = 20"

record Directory =
  tableSize :: int
  dir_table :: "DirectoryEntry list"

definition entry_bytes :: "bool \<Rightarrow> DirectoryEntry \<Rightarrow> byte list" where
  "entry_bytes be e = (if inUse e then 1 else 0) # de_pad e @ int_bytes be (word_of_int (de_sector e)) @ de_name e @ de_pad2 e"

definition entry_of_bytes :: "bool \<Rightarrow> byte list \<Rightarrow> DirectoryEntry" where
  "entry_of_bytes be bs = \<lparr>inUse = (hd bs \<noteq> 0), de_pad = take 3 (drop 1 bs), de_sector = sint (bytes_int be (take 4 (drop 4 bs))),
     de_name = take 10 (drop 8 bs), de_pad2 = take 2 (drop 18 bs)\<rparr>"

fun entries_of_bytes :: "bool \<Rightarrow> nat \<Rightarrow> byte list \<Rightarrow> DirectoryEntry list" where
  "entries_of_bytes be 0 bs = []"
| "entries_of_bytes be (Suc n) bs = entry_of_bytes be (take sizeof_entry bs) # entries_of_bytes be n (drop sizeof_entry bs)"

definition table_bytes :: "bool \<Rightarrow> Directory \<Rightarrow> byte list" where
  "table_bytes be d = concat (map (entry_bytes be) (dir_table d))"

text \<open>The constructor allocates the table uninitialised, from the bytes \<open>junk\<close>.\<close>

definition Directory_new :: "bool \<Rightarrow> (nat \<Rightarrow> byte) \<Rightarrow> int \<Rightarrow> Directory" where
  "Directory_new be junk sz = \<lparr>tableSize = sz,
     dir_table = map (\<lambda>e. e\<lparr>inUse := False\<rparr>) (entries_of_bytes be (nat sz) (map junk [0..<nat sz * sizeof_entry]))\<rparr>"

definition Directory_FetchFrom :: "OpenFile \<Rightarrow> Directory \<Rightarrow> ('c, 'z) DiskSys_scheme \<Rightarrow> (Directory \<times> ('c, 'z) DiskSys_scheme) res" where
  "Directory_FetchFrom f d st = bindE (ReadAt (tableSize d * int sizeof_entry) 0 f st) (\<lambda>(bs, st).
     Inr (d\<lparr>dir_table := entries_of_bytes (host_big st) (length (dir_table d)) (fill_buf 0 bs (table_bytes (host_big st) d))\<rparr>, st))"

definition Directory_WriteBack :: "OpenFile \<Rightarrow> Directory \<Rightarrow> ('c, 'z) DiskSys_scheme \<Rightarrow> (('c, 'z) DiskSys_scheme) res" where
  "Directory_WriteBack f d st = bindE (WriteAt (table_bytes (host_big st) d) (tableSize d * int sizeof_entry) 0 f st) (\<lambda>(_, st). Inr st)"

fun FindIndex_loop :: "cstring \<Rightarrow> int \<Rightarrow> DirectoryEntry list \<Rightarrow> int" where
  "FindIndex_loop name i [] = -1"
| "FindIndex_loop name i (e # es) = (if inUse e \<and> strncmp_eq (de_name e) (name @ [0]) FileNameMaxLen then i else FindIndex_loop name (i + 1) es)"

definition FindIndex :: "cstring \<Rightarrow> Directory \<Rightarrow> int" where
  "FindIndex name d = FindIndex_loop name 0 (dir_table d)"

definition Directory_Find :: "cstring \<Rightarrow> Directory \<Rightarrow> int" where
  "Directory_Find name d = (let i = FindIndex name d in if i \<noteq> -1 then de_sector (dir_table d ! nat i) else -1)"

fun Add_loop :: "cstring \<Rightarrow> int \<Rightarrow> DirectoryEntry list \<Rightarrow> DirectoryEntry list option" where
  "Add_loop name newSector [] = None"
| "Add_loop name newSector (e # es) =
     (if \<not> inUse e then Some (e\<lparr>inUse := True, de_name := strncpy (de_name e) name FileNameMaxLen, de_sector := newSector\<rparr> # es)
      else map_option (\<lambda>es. e # es) (Add_loop name newSector es))"

definition Directory_Add :: "cstring \<Rightarrow> int \<Rightarrow> Directory \<Rightarrow> bool \<times> Directory" where
  "Directory_Add name newSector d =
     (if FindIndex name d \<noteq> -1 then (False, d)
      else case Add_loop name newSector (dir_table d) of
        None \<Rightarrow> (False, d) | Some t \<Rightarrow> (True, d\<lparr>dir_table := t\<rparr>))"

definition Directory_Remove :: "cstring \<Rightarrow> Directory \<Rightarrow> bool \<times> Directory" where
  "Directory_Remove name d =
     (let i = FindIndex name d in
      if i = -1 then (False, d)
      else (True, d\<lparr>dir_table := (dir_table d)[nat i := (dir_table d ! nat i)\<lparr>inUse := False\<rparr>]\<rparr>))"

text \<open>
  \<^verbatim>\<open>printf\<close> with \<^verbatim>\<open>%s\<close> reads the memory from the name array on to the first zero
  byte: through the rest of the table when the array has none, and past it when there is none at all.
\<close>

definition c_string :: "byte list \<Rightarrow> cstring res" where
  "c_string bs = (if 0 \<in> set bs then Inr (takeWhile (\<lambda>b. b \<noteq> 0) bs) else Inl OutOfBounds)"

definition printed_name :: "bool \<Rightarrow> DirectoryEntry \<Rightarrow> DirectoryEntry list \<Rightarrow> cstring res" where
  "printed_name be e es = c_string (de_name e @ de_pad2 e @ concat (map (entry_bytes be) es))"

fun List_loop :: "bool \<Rightarrow> DirectoryEntry list \<Rightarrow> (cstring list) res" where
  "List_loop be [] = Inr []"
| "List_loop be (e # es) =
     (if inUse e then bindE (printed_name be e es) (\<lambda>n. bindE (List_loop be es) (\<lambda>ns. Inr (n # ns))) else List_loop be es)"

definition Directory_List :: "bool \<Rightarrow> Directory \<Rightarrow> (cstring list) res" where
  "Directory_List be d = List_loop be (dir_table d)"

fun dir_print_loop :: "DirectoryEntry list \<Rightarrow> ('c, 'z) DiskSys_scheme
    \<Rightarrow> ((cstring \<times> int \<times> int \<times> int list \<times> byte list list) list \<times> ('c, 'z) DiskSys_scheme) res" where
  "dir_print_loop [] st = Inr ([], st)"
| "dir_print_loop (e # es) st =
     (if inUse e then
        bindE (printed_name (host_big st) e es) (\<lambda>n.
        bindE (FileHeader_FetchFrom (de_sector e) st) (\<lambda>(h, st). bindE (FileHeader_Print h st) (\<lambda>(p, st).
        bindE (dir_print_loop es st) (\<lambda>(out, st). Inr ((n, de_sector e, p) # out, st)))))
      else dir_print_loop es st)"

definition Directory_Print :: "Directory \<Rightarrow> ('c, 'z) DiskSys_scheme
    \<Rightarrow> ((cstring \<times> int \<times> int \<times> int list \<times> byte list list) list \<times> ('c, 'z) DiskSys_scheme) res" where
  "Directory_Print d st = dir_print_loop (dir_table d) st"


section \<open>The table on disk\<close>

definition entry_wf :: "DirectoryEntry \<Rightarrow> bool" where
  "entry_wf e \<longleftrightarrow> length (de_pad e) = 3 \<and> length (de_name e) = Suc FileNameMaxLen \<and> length (de_pad2 e) = 2 \<and> int32 (de_sector e)"

lemma length_entry_bytes: "entry_wf e \<Longrightarrow> length (entry_bytes be e) = sizeof_entry"
  by (simp add: entry_wf_def entry_bytes_def sizeof_entry_def FileNameMaxLen_def)

lemma entry_roundtrip:
  assumes "entry_wf e"
  shows "entry_of_bytes be (entry_bytes be e) = e"
  using assms by (cases e) (simp add: entry_of_bytes_def entry_bytes_def entry_wf_def FileNameMaxLen_def sint_word_of_int)

lemma entry_of_bytes_wf: "length bs = sizeof_entry \<Longrightarrow> entry_wf (entry_of_bytes be bs)"
  by (simp add: entry_wf_def entry_of_bytes_def sizeof_entry_def FileNameMaxLen_def int32_sint)

lemma length_entries_of_bytes [simp]: "length (entries_of_bytes be n bs) = n"
  by (induction n arbitrary: bs) simp_all

lemma entries_of_bytes_wf: "n * sizeof_entry \<le> length bs \<Longrightarrow> e \<in> set (entries_of_bytes be n bs) \<Longrightarrow> entry_wf e"
proof (induction n arbitrary: bs)
  case (Suc n)
  have "n * sizeof_entry \<le> length (drop sizeof_entry bs)" "length (take sizeof_entry bs) = sizeof_entry" using Suc.prems(1) by simp_all
  then show ?case using Suc.IH [of "drop sizeof_entry bs"] Suc.prems(2) entry_of_bytes_wf [of "take sizeof_entry bs" be] by auto
qed simp

lemma entries_roundtrip:
  "\<forall>e \<in> set es. entry_wf e \<Longrightarrow> entries_of_bytes be (length es) (concat (map (entry_bytes be) es)) = es"
  by (induction es) (simp_all add: length_entry_bytes entry_roundtrip)

lemma length_table_bytes: "\<forall>e \<in> set (dir_table d). entry_wf e \<Longrightarrow> length (table_bytes be d) = length (dir_table d) * sizeof_entry"
  unfolding table_bytes_def by (subst length_concat_blocks [where n = sizeof_entry]) (auto simp: length_entry_bytes)

section \<open>The directory as a map\<close>

text \<open>
  A name in a directory is significant up to its first \<open>FileNameMaxLen\<close> bytes. The directory is a
  map from such names to sectors.
\<close>

definition name_key :: "cstring \<Rightarrow> cstring" where
  "name_key name = take FileNameMaxLen name"

definition entry_key :: "DirectoryEntry \<Rightarrow> cstring" where
  "entry_key e = takeWhile (\<lambda>b. b \<noteq> 0) (take FileNameMaxLen (de_name e))"

definition used :: "Directory \<Rightarrow> DirectoryEntry list" where
  "used d = filter inUse (dir_table d)"

definition dir_files :: "Directory \<Rightarrow> cstring \<rightharpoonup> int" where
  "dir_files d = map_of (map (\<lambda>e. (entry_key e, de_sector e)) (used d))"

definition dir_wf :: "Directory \<Rightarrow> bool" where
  "dir_wf d \<longleftrightarrow> tableSize d = int (length (dir_table d)) \<and> (\<forall>e \<in> set (dir_table d). entry_wf e)
     \<and> distinct (map entry_key (used d)) \<and> (\<forall>e \<in> set (used d). 0 \<le> de_sector e)"

definition cstring_ok :: "cstring \<Rightarrow> bool" where
  "cstring_ok name \<longleftrightarrow> 0 \<notin> set name"

lemma strncmp_takeWhile:
  "n \<le> length s \<Longrightarrow> 0 \<notin> set t \<Longrightarrow> strncmp_eq s (t @ [0]) n \<longleftrightarrow> takeWhile (\<lambda>b. b \<noteq> 0) (take n s) = take n t"
proof (induction n arbitrary: s t)
  case (Suc n)
  then obtain x xs where s: "s = x # xs" "n \<le> length xs" by (cases s) auto
  show ?case
  proof (cases t)
    case Nil
    then show ?thesis using s by auto
  next
    case (Cons y ys)
    then show ?thesis using s Suc.IH [OF s(2), of ys] Suc.prems(2) by auto
  qed
qed simp

lemma strncmp_key: "entry_wf e \<Longrightarrow> cstring_ok name \<Longrightarrow> strncmp_eq (de_name e) (name @ [0]) FileNameMaxLen \<longleftrightarrow> entry_key e = name_key name"
  by (simp add: strncmp_takeWhile entry_wf_def cstring_ok_def entry_key_def name_key_def)

lemma strncpy_key:
  assumes "length dst = Suc FileNameMaxLen" "cstring_ok name"
  shows "length (strncpy dst name FileNameMaxLen) = Suc FileNameMaxLen"
    and "takeWhile (\<lambda>b. b \<noteq> 0) (take FileNameMaxLen (strncpy dst name FileNameMaxLen)) = name_key name"
proof -
  have nz: "b \<noteq> 0" if "b \<in> set (take n name)" for b n
    using that assms(2) by (auto simp: cstring_ok_def dest: in_set_takeD)
  show "length (strncpy dst name FileNameMaxLen) = Suc FileNameMaxLen" using assms(1) by (simp add: strncpy_def)
  have "take FileNameMaxLen (strncpy dst name FileNameMaxLen) = take FileNameMaxLen name @ replicate (FileNameMaxLen - length name) 0"
    by (simp add: strncpy_def)
  then show "takeWhile (\<lambda>b. b \<noteq> 0) (take FileNameMaxLen (strncpy dst name FileNameMaxLen)) = name_key name"
    using nz by (simp add: takeWhile_append name_key_def takeWhile_replicate)
qed

text \<open>Searching the table.\<close>

lemma FindIndex_loop_spec:
  assumes "\<forall>e \<in> set es. entry_wf e" "cstring_ok name" "0 \<le> i"
  shows "(FindIndex_loop name i es = -1 \<and> (\<forall>e \<in> set es. inUse e \<longrightarrow> entry_key e \<noteq> name_key name))
    \<or> (\<exists>xs e ys. es = xs @ e # ys \<and> FindIndex_loop name i es = i + int (length xs) \<and> inUse e \<and> entry_key e = name_key name)"
  using assms
proof (induction es arbitrary: i)
  case (Cons a es)
  show ?case
  proof (cases "inUse a \<and> entry_key a = name_key name")
    case True
    then show ?thesis using Cons.prems strncmp_key [of a name] by (intro disjI2 exI [of _ "[]"]) auto
  next
    case False
    then have step: "FindIndex_loop name i (a # es) = FindIndex_loop name (i + 1) es" using Cons.prems strncmp_key [of a name] by auto
    from Cons.IH [of "i + 1"] Cons.prems have "(FindIndex_loop name (i + 1) es = -1 \<and> (\<forall>e \<in> set es. inUse e \<longrightarrow> entry_key e \<noteq> name_key name))
      \<or> (\<exists>xs e ys. es = xs @ e # ys \<and> FindIndex_loop name (i + 1) es = i + 1 + int (length xs) \<and> inUse e \<and> entry_key e = name_key name)" by simp
    then show ?thesis
    proof
      assume "FindIndex_loop name (i + 1) es = -1 \<and> (\<forall>e \<in> set es. inUse e \<longrightarrow> entry_key e \<noteq> name_key name)"
      then show ?thesis using False step by auto
    next
      assume "\<exists>xs e ys. es = xs @ e # ys \<and> FindIndex_loop name (i + 1) es = i + 1 + int (length xs) \<and> inUse e \<and> entry_key e = name_key name"
      then obtain xs e ys where "es = xs @ e # ys" "FindIndex_loop name (i + 1) es = i + 1 + int (length xs)" "inUse e" "entry_key e = name_key name" by blast
      then show ?thesis using step by (intro disjI2 exI [of _ "a # xs"] exI [of _ e] exI [of _ ys]) simp
    qed
  qed
qed simp

lemma dir_lookup:
  assumes "dir_wf d" "cstring_ok name"
  obtains "FindIndex name d = -1" "dir_files d (name_key name) = None"
  | xs e ys where "dir_table d = xs @ e # ys" "FindIndex name d = int (length xs)" "inUse e" "entry_key e = name_key name"
      "dir_files d (name_key name) = Some (de_sector e)"
proof -
  from FindIndex_loop_spec [of "dir_table d" name 0] assms
  consider "FindIndex name d = -1" "\<forall>e \<in> set (dir_table d). inUse e \<longrightarrow> entry_key e \<noteq> name_key name"
    | xs e ys where "dir_table d = xs @ e # ys" "FindIndex name d = int (length xs)" "inUse e" "entry_key e = name_key name"
    by (auto simp: FindIndex_def dir_wf_def)
  then show thesis
  proof cases
    case 1
    then have "dir_files d (name_key name) = None" by (auto simp: dir_files_def map_of_eq_None_iff used_def)
    then show thesis using 1(1) that(1) by blast
  next
    case 2
    have "(entry_key e, de_sector e) \<in> set (map (\<lambda>e. (entry_key e, de_sector e)) (used d))"
      using 2(1,3) by (auto simp: used_def)
    moreover have "distinct (map fst (map (\<lambda>e. (entry_key e, de_sector e)) (used d)))" using assms(1) by (simp add: dir_wf_def comp_def)
    ultimately have "dir_files d (name_key name) = Some (de_sector e)"
      using 2(4) unfolding dir_files_def by (metis map_of_is_SomeI)
    then show thesis using 2 that(2) by blast
  qed
qed

lemma Find_ok:
  assumes "dir_wf d" "cstring_ok name"
  shows "Directory_Find name d = (case dir_files d (name_key name) of None \<Rightarrow> -1 | Some s \<Rightarrow> s)"
  using assms by (rule dir_lookup) (auto simp: Directory_Find_def Let_def nth_append)

definition dir_room :: "Directory \<Rightarrow> bool" where
  "dir_room d \<longleftrightarrow> card (dom (dir_files d)) < length (dir_table d)"

lemma dom_dir_files: "dom (dir_files d) = entry_key ` set (used d)"
  by (simp add: dir_files_def dom_map_of_conv_image_fst image_image)

lemma card_dir_files: "dir_wf d \<Longrightarrow> card (dom (dir_files d)) = length (used d)"
  by (simp add: dom_dir_files dir_wf_def distinct_card flip: set_map)

lemma dir_room_iff:
  assumes "dir_wf d"
  shows "dir_room d \<longleftrightarrow> (\<exists>e \<in> set (dir_table d). \<not> inUse e)"
proof -
  have "length (used d) < length (dir_table d) \<longleftrightarrow> (\<exists>e \<in> set (dir_table d). \<not> inUse e)"
    unfolding used_def by (metis length_filter_less length_filter_le filter_True order_less_irrefl)
  then show ?thesis using card_dir_files [OF assms] by (simp add: dir_room_def)
qed

lemma Add_loop_spec:
  "Add_loop name s es = None \<and> (\<forall>e \<in> set es. inUse e)
   \<or> (\<exists>xs e ys. es = xs @ e # ys \<and> \<not> inUse e
        \<and> Add_loop name s es = Some (xs @ e\<lparr>inUse := True, de_name := strncpy (de_name e) name FileNameMaxLen, de_sector := s\<rparr> # ys))"
proof (induction es)
  case (Cons a es)
  show ?case
  proof (cases "inUse a")
    case False
    then show ?thesis by (intro disjI2 exI [of _ "[]"]) auto
  next
    case True
    from Cons.IH show ?thesis
    proof
      assume "Add_loop name s es = None \<and> (\<forall>e \<in> set es. inUse e)"
      then show ?thesis using True by simp
    next
      assume "\<exists>xs e ys. es = xs @ e # ys \<and> \<not> inUse e
        \<and> Add_loop name s es = Some (xs @ e\<lparr>inUse := True, de_name := strncpy (de_name e) name FileNameMaxLen, de_sector := s\<rparr> # ys)"
      then obtain xs e ys where h: "es = xs @ e # ys" "\<not> inUse e"
        "Add_loop name s es = Some (xs @ e\<lparr>inUse := True, de_name := strncpy (de_name e) name FileNameMaxLen, de_sector := s\<rparr> # ys)" by blast
      show ?thesis using h True by (intro disjI2 exI [of _ "a # xs"] exI [of _ e] exI [of _ ys]) simp
    qed
  qed
qed simp

lemma map_of_insert_middle:
  assumes "k \<notin> fst ` set xs"
  shows "map_of (xs @ (k, v) # ys) = (map_of (xs @ ys))(k \<mapsto> v)"
  using assms by (induction xs) (auto simp: fun_eq_iff)

lemma map_of_delete_middle:
  assumes "distinct (map fst (xs @ (k, v) # ys))"
  shows "map_of (xs @ ys) = (map_of (xs @ (k, v) # ys))(k := None)"
  using assms by (induction xs) (auto simp: fun_eq_iff map_of_eq_None_iff image_iff)

lemma Add_ok:
  assumes "dir_wf d" "cstring_ok name" "0 \<le> s" "int32 s"
  shows "\<exists>ok d'. Directory_Add name s d = (ok, d') \<and> ok = (dir_files d (name_key name) = None \<and> dir_room d) \<and> dir_wf d'
    \<and> dir_files d' = (if ok then (dir_files d)(name_key name \<mapsto> s) else dir_files d) \<and> length (dir_table d') = length (dir_table d)"
proof (cases "dir_files d (name_key name) = None \<and> dir_room d")
  case False
  have "Directory_Add name s d = (False, d)"
    using assms(1,2)
  proof (rule dir_lookup)
    assume h: "FindIndex name d = -1" "dir_files d (name_key name) = None"
    then have "\<forall>e \<in> set (dir_table d). inUse e" using False dir_room_iff [OF assms(1)] by blast
    then have "Add_loop name s (dir_table d) = None" using Add_loop_spec [of name s "dir_table d"] by fastforce
    then show ?thesis using h by (simp add: Directory_Add_def)
  qed (simp add: Directory_Add_def)
  then show ?thesis using False assms(1) by auto
next
  case True
  then have new: "FindIndex name d = -1" using assms(1,2) by (auto elim: dir_lookup)
  from True dir_room_iff [OF assms(1)] have "\<not> (\<forall>e \<in> set (dir_table d). inUse e)" by blast
  then obtain xs e ys where t: "dir_table d = xs @ e # ys" "\<not> inUse e"
      "Add_loop name s (dir_table d) = Some (xs @ e\<lparr>inUse := True, de_name := strncpy (de_name e) name FileNameMaxLen, de_sector := s\<rparr> # ys)"
    using Add_loop_spec [of name s "dir_table d"] by blast
  define e' where "e' = e\<lparr>inUse := True, de_name := strncpy (de_name e) name FileNameMaxLen, de_sector := s\<rparr>"
  let ?d = "d\<lparr>dir_table := xs @ e' # ys\<rparr>"
  have wf: "entry_wf e" using assms(1) t(1) by (simp add: dir_wf_def)
  then have e': "inUse e'" "entry_key e' = name_key name" "de_sector e' = s" "entry_wf e'"
    using strncpy_key [of "de_name e" name] assms(2,4) by (simp_all add: e'_def entry_key_def entry_wf_def)
  have u: "used d = filter inUse xs @ filter inUse ys" "used ?d = filter inUse xs @ e' # filter inUse ys"
    using t e'(1) by (simp_all add: used_def)
  have fresh: "name_key name \<notin> entry_key ` set (used d)" using True dom_dir_files [of d] by (metis domIff)
  then have "dir_wf ?d" using assms(1,3) t(1) e' u by (auto simp: dir_wf_def)
  moreover have "name_key name \<notin> fst ` set (map (\<lambda>e. (entry_key e, de_sector e)) (filter inUse xs))"
    using fresh unfolding u(1) by (auto simp: image_image)
  from map_of_insert_middle [OF this, of s] have "dir_files ?d = (dir_files d)(name_key name \<mapsto> s)"
    unfolding dir_files_def u by (simp add: e')
  ultimately show ?thesis using True new t by (auto simp: Directory_Add_def e'_def [symmetric])
qed

lemma Remove_ok:
  assumes "dir_wf d" "cstring_ok name"
  shows "\<exists>ok d'. Directory_Remove name d = (ok, d') \<and> ok = (dir_files d (name_key name) \<noteq> None) \<and> dir_wf d'
    \<and> dir_files d' = (dir_files d)(name_key name := None) \<and> length (dir_table d') = length (dir_table d)"
  using assms
proof (rule dir_lookup)
  assume "FindIndex name d = -1" "dir_files d (name_key name) = None"
  then show ?thesis using assms(1) by (auto simp: Directory_Remove_def Let_def)
next
  fix xs e ys
  assume h: "dir_table d = xs @ e # ys" "FindIndex name d = int (length xs)" "inUse e" "entry_key e = name_key name"
    "dir_files d (name_key name) = Some (de_sector e)"
  let ?d = "d\<lparr>dir_table := xs @ e\<lparr>inUse := False\<rparr> # ys\<rparr>"
  have u: "used d = filter inUse xs @ e # filter inUse ys" "used ?d = filter inUse xs @ filter inUse ys" using h(1,3) by (simp_all add: used_def)
  have "distinct (map entry_key (filter inUse xs @ e # filter inUse ys))" using assms(1) u(1) by (simp add: dir_wf_def)
  then have "distinct (map fst (map (\<lambda>e. (entry_key e, de_sector e)) (filter inUse xs) @ (entry_key e, de_sector e)
      # map (\<lambda>e. (entry_key e, de_sector e)) (filter inUse ys)))" by (simp add: comp_def)
  from map_of_delete_middle [OF this] have "dir_files ?d = (dir_files d)(name_key name := None)"
    unfolding dir_files_def u h(4) [symmetric] by simp
  moreover have "entry_wf (e\<lparr>inUse := False\<rparr>)" using assms(1) h(1) by (simp add: dir_wf_def entry_wf_def)
  then have "dir_wf ?d" using assms(1) h(1) u by (auto simp: dir_wf_def)
  moreover have "Directory_Remove name d = (True, ?d)" using h(1,2) by (simp add: Directory_Remove_def Let_def nth_append)
  ultimately show ?thesis using h(1,5) by auto
qed

lemma dir_files_nonneg: "dir_wf d \<Longrightarrow> dir_files d k = Some s \<Longrightarrow> 0 \<le> s"
  unfolding dir_files_def dir_wf_def by (drule map_of_SomeD) auto

section \<open>The interface of a directory\<close>

text \<open>
  What the file system uses of a directory: a finite map of names that can be searched, extended
  while there is room, and reduced.
\<close>

locale name_table =
  fixes wf :: "'d \<Rightarrow> bool"
    and files :: "'d \<Rightarrow> cstring \<rightharpoonup> int"
    and room :: "'d \<Rightarrow> bool"
    and find :: "cstring \<Rightarrow> 'd \<Rightarrow> int"
    and add :: "cstring \<Rightarrow> int \<Rightarrow> 'd \<Rightarrow> bool \<times> 'd"
    and remove :: "cstring \<Rightarrow> 'd \<Rightarrow> bool \<times> 'd"
  assumes sectors_nonneg: "wf d \<Longrightarrow> files d k = Some s \<Longrightarrow> 0 \<le> s"
    and find_ok: "wf d \<Longrightarrow> cstring_ok n \<Longrightarrow> find n d = (case files d (name_key n) of None \<Rightarrow> -1 | Some s \<Rightarrow> s)"
    and add_ok: "wf d \<Longrightarrow> cstring_ok n \<Longrightarrow> 0 \<le> s \<Longrightarrow> int32 s \<Longrightarrow>
      \<exists>ok d'. add n s d = (ok, d') \<and> ok = (files d (name_key n) = None \<and> room d) \<and> wf d'
        \<and> files d' = (if ok then (files d)(name_key n \<mapsto> s) else files d)"
    and remove_ok: "wf d \<Longrightarrow> cstring_ok n \<Longrightarrow>
      \<exists>ok d'. remove n d = (ok, d') \<and> ok = (files d (name_key n) \<noteq> None) \<and> wf d' \<and> files d' = (files d)(name_key n := None)"
begin

lemma find_absent: "wf d \<Longrightarrow> cstring_ok n \<Longrightarrow> find n d = -1 \<longleftrightarrow> files d (name_key n) = None"
  using sectors_nonneg [of d "name_key n"] by (force simp: find_ok split: option.splits)

lemma find_present: "wf d \<Longrightarrow> cstring_ok n \<Longrightarrow> 0 \<le> find n d \<longleftrightarrow> files d (name_key n) \<noteq> None"
  using sectors_nonneg [of d "name_key n"] by (auto simp: find_ok split: option.splits)

lemma find_after_add:
  assumes "wf d" "cstring_ok n" "cstring_ok m" "0 \<le> s" "int32 s" "add n s d = (True, d')"
  shows "find m d' = (if name_key m = name_key n then s else find m d)"
  using add_ok [OF assms(1,2,4,5)] assms(1,3,6) by (auto simp: find_ok)

lemma find_after_remove:
  assumes "wf d" "cstring_ok n" "cstring_ok m" "remove n d = (ok, d')"
  shows "find m d' = (if name_key m = name_key n then -1 else find m d)"
  using remove_ok [OF assms(1,2)] assms(1,3,4) by (auto simp: find_ok)

lemma add_remove:
  assumes "wf d" "cstring_ok n" "0 \<le> s" "int32 s" "add n s d = (True, d')"
  shows "\<exists>d''. remove n d' = (True, d'') \<and> files d'' = files d"
  using add_ok [OF assms(1-4)] assms(2,5) remove_ok [of d' n] by (auto simp: fun_upd_idem)

end

interpretation directory: name_table dir_wf dir_files dir_room Directory_Find Directory_Add Directory_Remove
proof unfold_locales
  fix d k s n
  show "dir_wf d \<Longrightarrow> dir_files d k = Some s \<Longrightarrow> 0 \<le> s" by (rule dir_files_nonneg)
  show "dir_wf d \<Longrightarrow> cstring_ok n \<Longrightarrow> Directory_Find n d = (case dir_files d (name_key n) of None \<Rightarrow> -1 | Some s \<Rightarrow> s)" by (rule Find_ok)
  show "dir_wf d \<Longrightarrow> cstring_ok n \<Longrightarrow> 0 \<le> s \<Longrightarrow> int32 s \<Longrightarrow>
      \<exists>ok d'. Directory_Add n s d = (ok, d') \<and> ok = (dir_files d (name_key n) = None \<and> dir_room d) \<and> dir_wf d'
        \<and> dir_files d' = (if ok then (dir_files d)(name_key n \<mapsto> s) else dir_files d)"
    using Add_ok [of d n s] by blast
  show "dir_wf d \<Longrightarrow> cstring_ok n \<Longrightarrow>
      \<exists>ok d'. Directory_Remove n d = (ok, d') \<and> ok = (dir_files d (name_key n) \<noteq> None) \<and> dir_wf d' \<and> dir_files d' = (dir_files d)(name_key n := None)"
    using Remove_ok [of d n] by blast
qed

section \<open>The table on disk\<close>

definition table_ok :: "Directory \<Rightarrow> bool" where
  "table_ok d \<longleftrightarrow> tableSize d = int (length (dir_table d)) \<and> (\<forall>e \<in> set (dir_table d). entry_wf e)"

lemma dir_wf_table: "dir_wf d \<Longrightarrow> table_ok d"
  by (simp add: dir_wf_def table_ok_def)

lemma table_ok_length: "table_ok d \<Longrightarrow> int (length (table_bytes be d)) = tableSize d * int sizeof_entry"
  by (simp add: table_ok_def length_table_bytes)

lemma Directory_WriteBack_ok:
  assumes "disk_quiet st" "hdr_ok (of_hdr f)" "numBytes (of_hdr f) = tableSize d * int sizeof_entry" "table_ok d"
  shows "\<exists>st'. Directory_WriteBack f d st = Inr st' \<and> disk_quiet st' \<and> host_big st' = host_big st \<and> content st' (of_hdr f) = table_bytes (host_big st) d
    \<and> (\<forall>t. t \<notin> nat ` set (file_sectors (of_hdr f)) \<longrightarrow> sectors st' t = sectors st t)"
  using write_whole [OF assms(1,2) table_ok_length [OF assms(4), symmetric, of "host_big st"] assms(3)] by (auto simp: Directory_WriteBack_def)

lemma Directory_FetchFrom_ok:
  assumes "disk_quiet st" "hdr_ok (of_hdr f)" "content st (of_hdr f) = table_bytes (host_big st) d"
    and "table_ok d" "table_ok d0" "tableSize d0 = tableSize d"
  shows "\<exists>st'. Directory_FetchFrom f d0 st = Inr (d, st') \<and> disk_quiet st' \<and> sectors st' = sectors st \<and> host_big st' = host_big st"
proof -
  obtain st' where r: "ReadAt (tableSize d0 * int sizeof_entry) 0 f st = Inr (table_bytes (host_big st) d, st')" "disk_quiet st'" "sectors st' = sectors st" "host_big st' = host_big st"
    using read_whole [OF assms(1-3), of "tableSize d0 * int sizeof_entry"] table_ok_length [OF assms(4)] assms(6) by auto
  have l: "length (dir_table d0) = length (dir_table d)" using assms(4-6) by (simp add: table_ok_def)
  have "entries_of_bytes be (length (dir_table d0)) (table_bytes be d) = dir_table d" for be
    using entries_roundtrip [of "dir_table d" be] assms(4) l by (simp add: table_bytes_def table_ok_def)
  moreover have "length (table_bytes be d) = length (table_bytes be d0)" for be
    using assms(4,5) l by (simp add: length_table_bytes table_ok_def)
  ultimately have "d0\<lparr>dir_table := entries_of_bytes (host_big st') (length (dir_table d0)) (fill_buf 0 (table_bytes (host_big st) d) (table_bytes (host_big st') d0))\<rparr> = d"
    using assms(6) r(4) by (cases d0, cases d) (simp add: fill_whole)
  then show ?thesis using r by (simp add: Directory_FetchFrom_def)
qed

section \<open>Properties\<close>

text \<open>C8: A directory is a map from names, cut to nine bytes, to sectors. Find looks a name up; Add succeeds
  exactly when the name is not there and an entry is free, and then adds exactly that name; Remove succeeds
  exactly when the name is there and takes exactly that name away; the table stays well-formed. WriteBack to a file
  of the size of the table, on an idle disk, changes no sector outside the file, and FetchFrom the file into any
  directory object of that size then gives the same table back.\<close>

theorem directory_is_map:
  assumes "dir_wf d" "cstring_ok name" "0 \<le> s" "int32 s"
    and "disk_quiet st" "hdr_ok (of_hdr f)" "numBytes (of_hdr f) = tableSize d * int sizeof_entry" "table_ok d0" "tableSize d0 = tableSize d"
  shows "Directory_Find name d = (case dir_files d (name_key name) of None \<Rightarrow> -1 | Some s \<Rightarrow> s)
    \<and> (\<exists>ok d'. Directory_Add name s d = (ok, d') \<and> ok = (dir_files d (name_key name) = None \<and> card (dom (dir_files d)) < nat (tableSize d))
        \<and> dir_wf d' \<and> dir_files d' = (if ok then (dir_files d)(name_key name \<mapsto> s) else dir_files d))
    \<and> (\<exists>ok d'. Directory_Remove name d = (ok, d') \<and> ok = (dir_files d (name_key name) \<noteq> None)
        \<and> dir_wf d' \<and> dir_files d' = (dir_files d)(name_key name := None))
    \<and> (\<exists>st' st''. Directory_WriteBack f d st = Inr st' \<and> (\<forall>t. t \<notin> nat ` set (file_sectors (of_hdr f)) \<longrightarrow> sectors st' t = sectors st t)
        \<and> Directory_FetchFrom f d0 st' = Inr (d, st'') \<and> sectors st'' = sectors st' \<and> disk_quiet st'')"
proof -
  note t = dir_wf_table [OF assms(1)]
  obtain st' where w: "Directory_WriteBack f d st = Inr st'" "disk_quiet st'" "host_big st' = host_big st" "content st' (of_hdr f) = table_bytes (host_big st) d"
      "\<forall>t. t \<notin> nat ` set (file_sectors (of_hdr f)) \<longrightarrow> sectors st' t = sectors st t"
    using Directory_WriteBack_ok [OF assms(5-7) t] by blast
  then obtain st'' where "Directory_FetchFrom f d0 st' = Inr (d, st'')" "disk_quiet st''" "sectors st'' = sectors st'"
    using Directory_FetchFrom_ok [OF w(2) assms(6) _ t assms(8,9)] by auto
  moreover have "nat (tableSize d) = length (dir_table d)" using t by (simp add: table_ok_def)
  ultimately show ?thesis
    using w(1,5) directory.find_ok [OF assms(1,2)] directory.add_ok [OF assms(1-4)] directory.remove_ok [OF assms(1,2)]
    by (simp add: dir_room_def)
qed

theorem directory_is_map_witness:
  "\<exists>d' st' st''. Directory_Add [102, 111, 111] 7 (Directory_new True (\<lambda>i. 1) 10) = (True, d') \<and> dir_files d' = [[102, 111, 111] \<mapsto> 7]
     \<and> Directory_WriteBack example_file (Directory_new True (\<lambda>i. 1) 10) example_sys = Inr st'
     \<and> Directory_FetchFrom example_file (Directory_new False (\<lambda>i. 2) 10) st' = Inr (Directory_new True (\<lambda>i. 1) 10, st'')"
proof -
  let ?d = "Directory_new True (\<lambda>i. 1) 10" and ?e = "Directory_new False (\<lambda>i. 2) 10"
  have "used ?d = []" by (simp add: used_def Directory_new_def filter_map comp_def)
  moreover have t: "table_ok (Directory_new b g 10)" for b g
    by (auto simp: table_ok_def Directory_new_def entry_wf_def dest!: entries_of_bytes_wf [rotated])
  ultimately have "dir_wf ?d" "dir_files ?d = Map.empty" using t [of True "\<lambda>i. 1"] by (simp_all add: dir_wf_def table_ok_def dir_files_def)
  moreover have "cstring_ok [102, 111, 111]" "int32 7" "name_key [102, 111, 111] = [102, 111, 111]"
    by (simp_all add: cstring_ok_def int32_def name_key_def FileNameMaxLen_def)
  moreover have "tableSize ?d = 10" "tableSize ?e = 10" "numBytes (of_hdr example_file) = 10 * int sizeof_entry"
    by (simp_all add: Directory_new_def example_file_def sizeof_entry_def)
  ultimately show ?thesis
    using directory_is_map [of ?d "[102, 111, 111]" 7 example_sys example_file ?e] example_sys_quiet example_file_ok t [of False "\<lambda>i. 2"] by auto
qed

end
