(* ===== verification/FileSys.thy ===== *)
theory FileSys
  imports Directory
begin

text \<open>
  The file system, \<^verbatim>\<open>filesys/filesys.cc\<close>, with the bitmap of free sectors in a file
  (\<^verbatim>\<open>userprog/bitmap.cc\<close>, the build with \<^verbatim>\<open>FILESYS\<close>). The theory has the operations and
  the representation of a set of files on the disk: the predicate \<^verbatim>\<open>fs_rep\<close> says that a state holds a bitmap and a
  directory, that no two files share a sector and that the bitmap marks exactly the sectors in
  use.
\<close>

section \<open>The bitmap on disk\<close>

definition map_bytes :: "bool \<Rightarrow> BitMap \<Rightarrow> byte list" where
  "map_bytes be b = concat (map (int_bytes be) (bm_map b))"

fun words_of :: "bool \<Rightarrow> nat \<Rightarrow> byte list \<Rightarrow> 32 word list" where
  "words_of be 0 bs = []"
| "words_of be (Suc n) bs = bytes_int be (take 4 bs) # words_of be n (drop 4 bs)"

definition BitMap_FetchFrom :: "OpenFile \<Rightarrow> BitMap \<Rightarrow> ('c, 'z) DiskSys_scheme \<Rightarrow> (BitMap \<times> ('c, 'z) DiskSys_scheme) res" where
  "BitMap_FetchFrom f b st = bindE (ReadAt (numWords b * 4) 0 f st) (\<lambda>(bs, st).
     Inr (b\<lparr>bm_map := words_of (host_big st) (length (bm_map b)) (fill_buf 0 bs (map_bytes (host_big st) b))\<rparr>, st))"

definition BitMap_WriteBack :: "OpenFile \<Rightarrow> BitMap \<Rightarrow> ('c, 'z) DiskSys_scheme \<Rightarrow> (('c, 'z) DiskSys_scheme) res" where
  "BitMap_WriteBack f b st = bindE (WriteAt (map_bytes (host_big st) b) (numWords b * 4) 0 f st) (\<lambda>(_, st). Inr st)"

section \<open>The file system\<close>

definition FreeMapSector :: int where "FreeMapSector = 0"
definition DirectorySector :: int where "DirectorySector = 1"
definition BitsInByte :: int where "BitsInByte = 8"
definition FreeMapFileSize :: int where "FreeMapFileSize = NumSectors sdiv BitsInByte"
definition NumDirEntries :: int where "NumDirEntries = 10"
definition DirectoryFileSize :: int where "DirectoryFileSize = int sizeof_entry * NumDirEntries"

record FileSystem =
  freeMapFile :: OpenFile
  directoryFile :: OpenFile

text \<open>Objects that are created uninitialised take their bytes from \<open>km_junkb\<close>.\<close>

definition FileHeader_new :: "('c, 'z) DiskSys_scheme \<Rightarrow> FileHeader" where
  "FileHeader_new st = hdr_of_bytes (host_big st) (map (km_junkb (kmem st)) [0..<SectorSize])"

definition new_BitMap :: "('c, 'z) DiskSys_scheme \<Rightarrow> BitMap res" where
  "new_BitMap st = BitMap_new (\<lambda>i. ucast (km_junkb (kmem st) i)) NumSectors"

definition new_Directory :: "('c, 'z) DiskSys_scheme \<Rightarrow> Directory" where
  "new_Directory st = Directory_new (host_big st) (km_junkb (kmem st)) NumDirEntries"

definition format_disk :: "('c, 'z) DiskSys_scheme \<Rightarrow> (FileSystem \<times> ('c, 'z) DiskSys_scheme) res" where
  "format_disk st =
     bindE (new_BitMap st) (\<lambda>freeMap.
     bindE (BitMap_Mark FreeMapSector freeMap) (\<lambda>freeMap.
     bindE (BitMap_Mark DirectorySector freeMap) (\<lambda>freeMap.
     bindE (FileHeader_Allocate freeMap FreeMapFileSize (FileHeader_new st)) (\<lambda>(ok, freeMap, mapHdr). bindE (assertE ok) (\<lambda>_.
     bindE (FileHeader_Allocate freeMap DirectoryFileSize (FileHeader_new st)) (\<lambda>(ok, freeMap, dirHdr). bindE (assertE ok) (\<lambda>_.
     let directory = new_Directory st in
     bindE (FileHeader_WriteBack FreeMapSector mapHdr st) (\<lambda>st.
     bindE (FileHeader_WriteBack DirectorySector dirHdr st) (\<lambda>st.
     bindE (OpenFile_new FreeMapSector st) (\<lambda>(mf, st).
     bindE (OpenFile_new DirectorySector st) (\<lambda>(df, st).
     bindE (BitMap_WriteBack mf freeMap st) (\<lambda>st.
     bindE (Directory_WriteBack df directory st) (\<lambda>st.
     Inr (\<lparr>freeMapFile = mf, directoryFile = df\<rparr>, st))))))))))))))"

definition FileSystem_new :: "bool \<Rightarrow> ('c, 'z) DiskSys_scheme \<Rightarrow> (FileSystem \<times> ('c, 'z) DiskSys_scheme) res" where
  "FileSystem_new format st =
     (if format then format_disk st
      else bindE (OpenFile_new FreeMapSector st) (\<lambda>(mf, st). bindE (OpenFile_new DirectorySector st) (\<lambda>(df, st).
        Inr (\<lparr>freeMapFile = mf, directoryFile = df\<rparr>, st))))"

definition FileSystem_Create :: "cstring \<Rightarrow> int \<Rightarrow> FileSystem \<Rightarrow> ('c, 'z) DiskSys_scheme \<Rightarrow> (bool \<times> ('c, 'z) DiskSys_scheme) res" where
  "FileSystem_Create name initialSize fs st =
     bindE (Directory_FetchFrom (directoryFile fs) (new_Directory st) st) (\<lambda>(directory, st).
     if Directory_Find name directory \<noteq> -1 then Inr (False, st)
     else
       bindE (new_BitMap st) (\<lambda>freeMap.
       bindE (BitMap_FetchFrom (freeMapFile fs) freeMap st) (\<lambda>(freeMap, st).
       bindE (BitMap_Find freeMap) (\<lambda>(sec, freeMap).
       if sec = -1 then Inr (False, st)
       else
         let (added, directory) = Directory_Add name sec directory in
         if \<not> added then Inr (False, st)
         else
           bindE (FileHeader_Allocate freeMap initialSize (FileHeader_new st)) (\<lambda>(ok, freeMap, hdr).
           if \<not> ok then Inr (False, st)
           else
             bindE (FileHeader_WriteBack sec hdr st) (\<lambda>st.
             bindE (Directory_WriteBack (directoryFile fs) directory st) (\<lambda>st.
             bindE (BitMap_WriteBack (freeMapFile fs) freeMap st) (\<lambda>st.
             Inr (True, st))))))))) "

definition FileSystem_Open :: "cstring \<Rightarrow> FileSystem \<Rightarrow> ('c, 'z) DiskSys_scheme \<Rightarrow> (OpenFile option \<times> ('c, 'z) DiskSys_scheme) res" where
  "FileSystem_Open name fs st =
     bindE (Directory_FetchFrom (directoryFile fs) (new_Directory st) st) (\<lambda>(directory, st).
     let sec = Directory_Find name directory in
     if sec \<ge> 0 then bindE (OpenFile_new sec st) (\<lambda>(f, st). Inr (Some f, st)) else Inr (None, st))"

definition FileSystem_Remove :: "cstring \<Rightarrow> FileSystem \<Rightarrow> ('c, 'z) DiskSys_scheme \<Rightarrow> (bool \<times> ('c, 'z) DiskSys_scheme) res" where
  "FileSystem_Remove name fs st =
     bindE (Directory_FetchFrom (directoryFile fs) (new_Directory st) st) (\<lambda>(directory, st).
     let sec = Directory_Find name directory in
     if sec = -1 then Inr (False, st)
     else
       bindE (FileHeader_FetchFrom sec st) (\<lambda>(fileHdr, st).
       bindE (new_BitMap st) (\<lambda>freeMap.
       bindE (BitMap_FetchFrom (freeMapFile fs) freeMap st) (\<lambda>(freeMap, st).
       bindE (FileHeader_Deallocate freeMap fileHdr) (\<lambda>freeMap.
       bindE (BitMap_Clear sec freeMap) (\<lambda>freeMap.
       let (_, directory) = Directory_Remove name directory in
       bindE (BitMap_WriteBack (freeMapFile fs) freeMap st) (\<lambda>st.
       bindE (Directory_WriteBack (directoryFile fs) directory st) (\<lambda>st.
       Inr (True, st)))))))))"

definition FileSystem_List :: "FileSystem \<Rightarrow> ('c, 'z) DiskSys_scheme \<Rightarrow> (cstring list \<times> ('c, 'z) DiskSys_scheme) res" where
  "FileSystem_List fs st = bindE (Directory_FetchFrom (directoryFile fs) (new_Directory st) st) (\<lambda>(directory, st).
     bindE (Directory_List (host_big st) directory) (\<lambda>names. Inr (names, st)))"

definition FileSystem_Print :: "FileSystem \<Rightarrow> ('c, 'z) DiskSys_scheme
    \<Rightarrow> (((int \<times> int list \<times> byte list list) \<times> (int \<times> int list \<times> byte list list) \<times> int list \<times> (byte list \<times> int \<times> int \<times> int list \<times> byte list list) list)
        \<times> ('c, 'z) DiskSys_scheme) res" where
  "FileSystem_Print fs st =
     bindE (FileHeader_FetchFrom FreeMapSector st) (\<lambda>(bitHdr, st). bindE (FileHeader_Print bitHdr st) (\<lambda>(p1, st).
     bindE (FileHeader_FetchFrom DirectorySector st) (\<lambda>(dirHdr, st). bindE (FileHeader_Print dirHdr st) (\<lambda>(p2, st).
     bindE (new_BitMap st) (\<lambda>freeMap.
     bindE (BitMap_FetchFrom (freeMapFile fs) freeMap st) (\<lambda>(freeMap, st).
     bindE (BitMap_Print freeMap) (\<lambda>bits.
     bindE (Directory_FetchFrom (directoryFile fs) (new_Directory st) st) (\<lambda>(directory, st).
     bindE (Directory_Print directory st) (\<lambda>(files, st). Inr ((p1, p2, bits, files), st))))))))))"

section \<open>Allocating the sectors of a file\<close>

lemma NumSectors_eq: "NumSectors = 1024"
  by (simp add: NumSectors_def SectorsPerTrack_def NumTracks_def)

lemma nat_in_image: "0 \<le> s \<Longrightarrow> \<forall>x \<in> A. 0 \<le> x \<Longrightarrow> nat s \<in> nat ` A \<longleftrightarrow> s \<in> A"
  by (auto simp: eq_nat_nat_iff)

text \<open>A loop that finds free sectors one after the other and stores them in the header.\<close>

definition alloc_step :: "nat \<Rightarrow> BitMap \<times> FileHeader \<Rightarrow> (BitMap \<times> FileHeader) res" where
  "alloc_step i = (\<lambda>(b, h). bindE (BitMap_Find b) (\<lambda>(s, b). bindE (set_sector (int i) s h) (\<lambda>h. Inr (b, h))))"

definition alloc_inv :: "BitMap \<Rightarrow> FileHeader \<Rightarrow> nat \<Rightarrow> BitMap \<times> FileHeader \<Rightarrow> bool" where
  "alloc_inv B h0 i = (\<lambda>(b, h). BitMap_inv b \<and> BitMap_size b = BitMap_size B \<and> numBytes h = numBytes h0 \<and> numSectors h = numSectors h0
     \<and> length (dataSectors h) = NumDirect \<and> set (dataSectors h) \<subseteq> set (dataSectors h0) \<union> {0..<int (BitMap_size B)}
     \<and> set (take i (dataSectors h)) \<subseteq> {0..<int (BitMap_size B)} \<and> distinct (take i (dataSectors h))
     \<and> nat ` set (take i (dataSectors h)) \<inter> BitMap_bits B = {} \<and> BitMap_bits b = BitMap_bits B \<union> nat ` set (take i (dataSectors h))
     \<and> card (BitMap_bits b) = card (BitMap_bits B) + i)"

lemma alloc_invD:
  assumes "alloc_inv B h0 i (b, h)"
  shows "BitMap_inv b" "BitMap_size b = BitMap_size B" "numBytes h = numBytes h0" "numSectors h = numSectors h0" "length (dataSectors h) = NumDirect"
    and "set (dataSectors h) \<subseteq> set (dataSectors h0) \<union> {0..<int (BitMap_size B)}" "set (take i (dataSectors h)) \<subseteq> {0..<int (BitMap_size B)}"
    and "distinct (take i (dataSectors h))" "nat ` set (take i (dataSectors h)) \<inter> BitMap_bits B = {}"
    and "BitMap_bits b = BitMap_bits B \<union> nat ` set (take i (dataSectors h))" "card (BitMap_bits b) = card (BitMap_bits B) + i"
  using assms unfolding alloc_inv_def prod.case by blast+

lemma alloc_step_ok:
  assumes "alloc_inv B h0 i t" "i < NumDirect" "i < BitMap_size B - card (BitMap_bits B)"
  shows "\<exists>t'. alloc_step i t = Inr t' \<and> alloc_inv B h0 (Suc i) t'"
proof -
  obtain b h where t: "t = (b, h)" by (cases t)
  note inv = alloc_invD [OF assms(1) [unfolded t]]
  have "card (BitMap_bits b) < BitMap_size b" using inv(2,11) assms(3) by linarith
  with inv(1) obtain j b' where j: "BitMap_Find b = Inr (int j, b')" "BitMap_inv b'" "BitMap_size b' = BitMap_size b" "j < BitMap_size b" "j \<notin> BitMap_bits b"
      "BitMap_bits b' = insert j (BitMap_bits b)" "card (BitMap_bits b') = Suc (card (BitMap_bits b))"
    by (rule bitmap.find_step)
  define h' where "h' = h\<lparr>dataSectors := (dataSectors h)[i := int j]\<rparr>"
  have "alloc_step i t = Inr (b', h')" using j(1) inv(5) assms(2) by (simp add: t alloc_step_def set_sector_def h'_def)
  moreover have "alloc_inv B h0 (Suc i) (b', h')"
    unfolding alloc_inv_def prod.case
  proof (intro conjI)
    have s: "take (Suc i) (dataSectors h') = take i (dataSectors h) @ [int j]"
      using inv(5) assms(2) by (simp add: h'_def take_Suc_conv_app_nth)
    have jB: "j < BitMap_size B" using j(4) inv(2) by simp
    have "int j \<notin> set (take i (dataSectors h))" using j(5) inv(10) by (metis UnI2 image_eqI nat_int)
    then show "distinct (take (Suc i) (dataSectors h'))" using inv(8) by (simp add: s)
    have "set (dataSectors h') \<subseteq> insert (int j) (set (dataSectors h))" by (simp add: h'_def set_update_subset_insert)
    then show "set (dataSectors h') \<subseteq> set (dataSectors h0) \<union> {0..<int (BitMap_size B)}" using inv(6) jB by auto
    show "set (take (Suc i) (dataSectors h')) \<subseteq> {0..<int (BitMap_size B)}" using inv(7) jB by (auto simp: s)
    show "nat ` set (take (Suc i) (dataSectors h')) \<inter> BitMap_bits B = {}" using inv(9,10) j(5) by (auto simp: s)
    show "BitMap_bits b' = BitMap_bits B \<union> nat ` set (take (Suc i) (dataSectors h'))" using inv(10) j(6) by (auto simp: s)
    show "card (BitMap_bits b') = card (BitMap_bits B) + Suc i" using inv(11) j(7) by simp
  qed (use inv(1-5) j(2,3) in \<open>simp_all add: h'_def\<close>)
  ultimately show ?thesis by blast
qed

lemma FileHeader_Allocate_unfold:
  assumes "BitMap_inv B" "h1 = h\<lparr>numBytes := fileSize, numSectors := divRoundUp fileSize (int SectorSize)\<rparr>"
  shows "FileHeader_Allocate B fileSize h =
    (if int (BitMap_size B - card (BitMap_bits B)) < numSectors h1 then Inr (False, B, h1)
     else bindE (foldE alloc_step [0..<nat (numSectors h1)] (B, h1)) (\<lambda>(b, h). Inr (True, b, h)))"
  by (simp add: FileHeader_Allocate_def BitMap_NumClear_spec [OF assms(1)] assms(2) Let_def alloc_step_def [abs_def])

definition sectors_needed :: "int \<Rightarrow> nat" where
  "sectors_needed fileSize = nat (divRoundUp fileSize (int SectorSize))"

definition clear_count :: "BitMap \<Rightarrow> nat" where
  "clear_count B = BitMap_size B - card (BitMap_bits B)"

lemma Allocate_refused:
  assumes "BitMap_inv B" "clear_count B < sectors_needed fileSize"
  shows "\<exists>h'. FileHeader_Allocate B fileSize h = Inr (False, B, h')"
  unfolding FileHeader_Allocate_unfold [OF assms(1) refl] using assms(2) by (auto simp: sectors_needed_def clear_count_def)

lemma alloc_inv_0: "BitMap_inv B \<Longrightarrow> length (dataSectors h) = NumDirect \<Longrightarrow> alloc_inv B h 0 (B, h)"
  by (simp add: alloc_inv_def)

lemma Allocate_ok:
  assumes "BitMap_inv B" "BitMap_size B = nat NumSectors" "hdr_wf h" "int32 fileSize" "0 \<le> fileSize"
    and "sectors_needed fileSize \<le> clear_count B" "sectors_needed fileSize \<le> NumDirect"
  shows "\<exists>B' h'. FileHeader_Allocate B fileSize h = Inr (True, B', h') \<and> hdr_ok h' \<and> numBytes h' = fileSize
    \<and> BitMap_inv B' \<and> BitMap_size B' = BitMap_size B \<and> nat ` set (file_sectors h') \<inter> BitMap_bits B = {}
    \<and> BitMap_bits B' = BitMap_bits B \<union> nat ` set (file_sectors h')"
proof -
  define h1 where "h1 = h\<lparr>numBytes := fileSize, numSectors := divRoundUp fileSize (int SectorSize)\<rparr>"
  let ?n = "sectors_needed fileSize"
  have pos: "0 \<le> numSectors h1" "numSectors h1 \<le> 30"
    using divRoundUp_covers(3) [OF assms(5), of "int SectorSize"] assms(7) by (simp_all add: h1_def sectors_needed_def NumDirect_def SectorSize_def)
  have n: "?n = nat (numSectors h1)" by (simp add: h1_def sectors_needed_def)
  have h1: "length (dataSectors h1) = NumDirect" "\<forall>s \<in> set (dataSectors h1). int32 s" "numBytes h1 = fileSize"
    using assms(3) by (simp_all add: h1_def hdr_wf_def)
  have "\<exists>t. foldE alloc_step [0..<?n] (B, h1) = Inr t \<and> alloc_inv B h1 ?n t"
    using alloc_inv_0 [OF assms(1) h1(1)]
  proof (rule foldE_upt_induct)
    fix i t assume "i < ?n" "alloc_inv B h1 i t"
    then show "\<exists>t'. alloc_step i t = Inr t' \<and> alloc_inv B h1 (Suc i) t'"
      using assms(6,7) by (intro alloc_step_ok) (simp_all add: clear_count_def)
  qed
  then obtain B' h' where f: "foldE alloc_step [0..<?n] (B, h1) = Inr (B', h')" "alloc_inv B h1 ?n (B', h')" by auto
  note inv = alloc_invD [OF f(2)]
  have fs: "file_sectors h' = take ?n (dataSectors h')" using inv(4) by (simp add: file_sectors_def n)
  have small: "int32 s" if "s \<in> {0..<int (BitMap_size B)}" for s
    using that assms(2) by (simp add: int32_def NumSectors_def SectorsPerTrack_def NumTracks_def)
  have "\<forall>s \<in> set (dataSectors h'). int32 s" using subsetD [OF inv(6)] h1(2) small by blast
  moreover have "int32 (numSectors h')" using pos inv(4) by (simp add: int32_def)
  ultimately have "hdr_wf h'" using inv(3,5) h1(3) assms(4) by (simp add: hdr_wf_def)
  moreover have "\<forall>s \<in> set (file_sectors h'). in_disk s" using inv(7) assms(2) unfolding fs in_disk_def by (auto simp: NumSectors_eq)
  ultimately have "hdr_ok h'" using inv(3,4,8) assms(5,7) n h1(3) unfolding hdr_ok_def fs by (simp add: h1_def)
  moreover have "FileHeader_Allocate B fileSize h = Inr (True, B', h')"
    unfolding FileHeader_Allocate_unfold [OF assms(1) h1_def] using f(1) assms(6) pos(1) by (simp add: n clear_count_def)
  ultimately show ?thesis using inv(1,2,3,9,10) h1(3) by (intro exI [of _ B'] exI [of _ h'] conjI) (simp_all only: fs)
qed

text \<open>The loop runs past the end of the array when a file needs more than \<open>NumDirect\<close> sectors.\<close>

lemma Allocate_overruns:
  assumes "BitMap_inv B" "hdr_wf h" "0 \<le> fileSize" "sectors_needed fileSize \<le> clear_count B" "NumDirect < sectors_needed fileSize"
  shows "FileHeader_Allocate B fileSize h = Inl OutOfBounds"
proof -
  define h1 where "h1 = h\<lparr>numBytes := fileSize, numSectors := divRoundUp fileSize (int SectorSize)\<rparr>"
  let ?n = "sectors_needed fileSize"
  have n: "?n = nat (numSectors h1)" by (simp add: h1_def sectors_needed_def)
  have "alloc_inv B h1 0 (B, h1)" using assms(1,2) by (simp add: alloc_inv_0 h1_def hdr_wf_def)
  then have "\<exists>t. foldE alloc_step [0..<NumDirect] (B, h1) = Inr t \<and> alloc_inv B h1 NumDirect t"
  proof (rule foldE_upt_induct)
    fix i t assume "i < NumDirect" "alloc_inv B h1 i t"
    then show "\<exists>t'. alloc_step i t = Inr t' \<and> alloc_inv B h1 (Suc i) t'"
      using assms(4,5) by (intro alloc_step_ok) (simp_all add: clear_count_def)
  qed
  then obtain b h' where f: "foldE alloc_step [0..<NumDirect] (B, h1) = Inr (b, h')" "alloc_inv B h1 NumDirect (b, h')" by auto
  note inv = alloc_invD [OF f(2)]
  have "card (BitMap_bits b) < BitMap_size b" using inv(2,11) assms(4,5) unfolding clear_count_def by linarith
  with inv(1) obtain j b' where "BitMap_Find b = Inr (int j, b')" by (rule bitmap.find_step)
  then have "alloc_step NumDirect (b, h') = Inl OutOfBounds" using inv(5) by (simp add: alloc_step_def set_sector_def arr_set_def)
  then have "foldE alloc_step [0..<?n] (B, h1) = Inl OutOfBounds"
    using upt_split [OF assms(5)] f(1) by (simp add: foldE_append)
  then show ?thesis
    unfolding FileHeader_Allocate_unfold [OF assms(1) h1_def] using assms(4) by (simp add: n clear_count_def)
qed

lemma Deallocate_ok:
  assumes "BitMap_inv B" "BitMap_size B = nat NumSectors" "hdr_ok h" "nat ` set (file_sectors h) \<subseteq> BitMap_bits B"
  shows "\<exists>B'. FileHeader_Deallocate B h = Inr B' \<and> BitMap_inv B' \<and> BitMap_size B' = BitMap_size B
    \<and> BitMap_bits B' = BitMap_bits B - nat ` set (file_sectors h)"
proof -
  let ?n = "nat (numSectors h)" and ?P = "\<lambda>i b. BitMap_inv b \<and> BitMap_size b = BitMap_size B \<and> BitMap_bits b = BitMap_bits B - nat ` set (take i (file_sectors h))"
  let ?f = "\<lambda>i b. bindE (get_sector (int i) h) (\<lambda>s. bindE (BitMap_Test s b) (\<lambda>t. bindE (assertE t) (\<lambda>_. BitMap_Clear s b)))"
  have h: "length (dataSectors h) = NumDirect" "?n \<le> NumDirect" "\<forall>s \<in> set (file_sectors h). in_disk s" "distinct (file_sectors h)"
    using assms(3) unfolding hdr_ok_def hdr_wf_def by blast+
  have "?P 0 B" using assms(1) by simp
  then have "\<exists>t. foldE ?f [0..<?n] B = Inr t \<and> ?P ?n t"
  proof (rule foldE_upt_induct)
    fix i b assume i: "i < ?n" and P: "?P i b"
    define s where "s = file_sectors h ! i"
    have len: "i < length (file_sectors h)" using i h(1,2) by (simp add: file_sectors_def)
    then have get: "get_sector (int i) h = Inr s" using i h(1,2) by (simp add: get_sector_def s_def file_sectors_def)
    have s: "s \<in> set (file_sectors h)" "0 \<le> s" "s < int (BitMap_size b)"
      using nth_mem [OF len] h(3) assms(2) P unfolding s_def in_disk_def by auto
    have "s \<notin> set (take i (file_sectors h))" using distinct_take [OF h(4), of "Suc i"] len by (simp add: s_def take_Suc_conv_app_nth)
    then have "nat s \<notin> nat ` set (take i (file_sectors h))" 
      using h(3) s(2) by (subst nat_in_image) (auto simp: in_disk_def dest: in_set_takeD)
    then have "BitMap_Test s b = Inr True" using s P assms(4) by (auto simp: BitMap_Test_spec)
    moreover obtain b' where "BitMap_Clear s b = Inr b'" "BitMap_inv b'" "BitMap_size b' = BitMap_size b" "BitMap_bits b' = BitMap_bits b - {nat s}"
      using BitMap_Clear_spec [of b s] s P by blast
    moreover have "set (take (Suc i) (file_sectors h)) = insert s (set (take i (file_sectors h)))"
      using len by (simp add: s_def take_Suc_conv_app_nth)
    ultimately show "\<exists>t'. ?f i b = Inr t' \<and> ?P (Suc i) t'" using get P by auto
  qed
  then show ?thesis by (auto simp: FileHeader_Deallocate_def file_sectors_def)
qed

section \<open>The bitmap and the root directory in their files\<close>

lemma length_map_bytes [simp]: "length (map_bytes be b) = length (bm_map b) * 4"
  unfolding map_bytes_def by (subst length_concat_blocks [where n = 4]) auto

lemma words_roundtrip: "words_of be (length ws) (concat (map (int_bytes be) ws)) = ws"
  by (induction ws) simp_all

definition disk_map :: "BitMap \<Rightarrow> bool" where
  "disk_map b \<longleftrightarrow> BitMap_inv b \<and> BitMap_size b = nat NumSectors"

lemma disk_map_dims:
  assumes "disk_map b"
  shows "numBits b = 1024 \<and> numWords b = 32 \<and> length (bm_map b) = 32"
proof -
  have "0 \<le> numBits b" "nat (numBits b) = 1024" using assms by (simp_all add: disk_map_def BitMap_inv_def BitMap_size_def NumSectors_eq)
  then have "numBits b = 1024" by linarith
  then show ?thesis using assms by (simp add: disk_map_def BitMap_inv_def BitsInWord_def divRoundUp_nonneg)
qed

lemma BitMap_FetchFrom_ok:
  assumes "disk_quiet st" "hdr_ok (of_hdr f)" "content st (of_hdr f) = map_bytes (host_big st) b" "disk_map b" "disk_map b0"
  shows "\<exists>st'. BitMap_FetchFrom f b0 st = Inr (b, st') \<and> disk_quiet st' \<and> sectors st' = sectors st \<and> host_big st' = host_big st"
proof -
  note d = disk_map_dims [OF assms(4)] disk_map_dims [OF assms(5)]
  obtain st' where r: "ReadAt (numWords b0 * 4) 0 f st = Inr (map_bytes (host_big st) b, st')" "disk_quiet st'" "sectors st' = sectors st" "host_big st' = host_big st"
    using read_whole [OF assms(1-3), of "numWords b0 * 4"] d by auto
  have "words_of be (length (bm_map b0)) (map_bytes be b) = bm_map b" for be
    using words_roundtrip [of be "bm_map b"] d by (simp add: map_bytes_def)
  then have "b0\<lparr>bm_map := words_of (host_big st') (length (bm_map b0)) (fill_buf 0 (map_bytes (host_big st) b) (map_bytes (host_big st') b0))\<rparr> = b"
    using d r(4) by (cases b0, cases b) (simp add: fill_whole)
  then show ?thesis using r by (simp add: BitMap_FetchFrom_def)
qed

lemma BitMap_WriteBack_ok:
  assumes "disk_quiet st" "hdr_ok (of_hdr f)" "numBytes (of_hdr f) = FreeMapFileSize" "disk_map b"
  shows "\<exists>st'. BitMap_WriteBack f b st = Inr st' \<and> disk_quiet st' \<and> host_big st' = host_big st \<and> content st' (of_hdr f) = map_bytes (host_big st) b
    \<and> (\<forall>t. t \<notin> nat ` set (file_sectors (of_hdr f)) \<longrightarrow> sectors st' t = sectors st t)"
  using write_whole [OF assms(1,2), of "numWords b * 4" "map_bytes (host_big st) b"] disk_map_dims [OF assms(4)] assms(3)
  by (auto simp: BitMap_WriteBack_def FreeMapFileSize_def NumSectors_eq BitsInByte_def)

definition root_dir :: "Directory \<Rightarrow> bool" where
  "root_dir d \<longleftrightarrow> dir_wf d \<and> tableSize d = NumDirEntries"

lemma root_dirD:
  assumes "root_dir d"
  shows "dir_wf d" "table_ok d" "tableSize d = NumDirEntries" "length (dir_table d) = nat NumDirEntries" "tableSize d * int sizeof_entry = DirectoryFileSize"
  using assms dir_wf_table [of d] by (auto simp: root_dir_def table_ok_def DirectoryFileSize_def)

text \<open>Fresh objects have the right shape, whatever bytes they are made of.\<close>

lemma new_BitMap_ok: "\<exists>b. new_BitMap st = Inr b \<and> disk_map b \<and> BitMap_bits b = {}"
  using BitMap_new_spec [of NumSectors] by (auto simp: new_BitMap_def disk_map_def NumSectors_eq)

lemma new_Directory_ok: "root_dir (new_Directory st)" "dir_files (new_Directory st) = Map.empty"
proof -
  let ?d = "new_Directory st"
  have u: "used ?d = []" by (simp add: used_def new_Directory_def Directory_new_def filter_map comp_def)
  moreover have "\<forall>e \<in> set (dir_table ?d). entry_wf e"
    by (auto simp: new_Directory_def Directory_new_def entry_wf_def dest!: entries_of_bytes_wf [rotated])
  ultimately show "root_dir ?d"
    by (simp add: root_dir_def dir_wf_def) (simp add: new_Directory_def Directory_new_def NumDirEntries_def)
  show "dir_files ?d = Map.empty" using u by (simp add: dir_files_def)
qed

lemma FileHeader_new_ok: "hdr_wf (FileHeader_new st)"
  by (simp add: FileHeader_new_def hdr_wf_of_bytes)

section \<open>File headers on the disk\<close>

definition hdr_at :: "('c, 'z) DiskSys_scheme \<Rightarrow> int \<Rightarrow> FileHeader" where
  "hdr_at st s = hdr_of_bytes (host_big st) (sectors st (nat s))"

definition own :: "('c, 'z) DiskSys_scheme \<Rightarrow> int \<Rightarrow> nat set" where
  "own st s = insert (nat s) (nat ` set (file_sectors (hdr_at st s)))"

lemma FileHeader_FetchFrom_ok:
  assumes "disk_quiet st" "in_disk s"
  shows "\<exists>st'. FileHeader_FetchFrom s st = Inr (hdr_at st s, st') \<and> disk_quiet st' \<and> sectors st' = sectors st \<and> host_big st' = host_big st"
  using ReadSector_ok [OF assms] by (auto simp: FileHeader_FetchFrom_def hdr_at_def)

lemma FileHeader_WriteBack_ok:
  assumes "disk_quiet st" "in_disk s" "hdr_wf h"
  shows "\<exists>st'. FileHeader_WriteBack s h st = Inr st' \<and> disk_quiet st' \<and> host_big st' = host_big st \<and> hdr_at st' s = h
    \<and> (\<forall>t. t \<noteq> nat s \<longrightarrow> sectors st' t = sectors st t)"
  using WriteSector_ok [OF assms(1,2) length_hdr_bytes [OF assms(3)], of "host_big st"]
  by (auto simp: FileHeader_WriteBack_def hdr_at_def hdr_roundtrip [OF assms(3)])

lemma OpenFile_new_ok:
  assumes "disk_quiet st" "in_disk s"
  shows "\<exists>st'. OpenFile_new s st = Inr (\<lparr>of_hdr = hdr_at st s, seekPosition = 0\<rparr>, st') \<and> disk_quiet st' \<and> sectors st' = sectors st \<and> host_big st' = host_big st"
  using FileHeader_FetchFrom_ok [OF assms] by (auto simp: OpenFile_new_def)

text \<open>What does not touch the sectors of a file leaves its header and contents alone.\<close>

lemma hdr_at_cong: "sectors st' (nat s) = sectors st (nat s) \<Longrightarrow> host_big st' = host_big st \<Longrightarrow> hdr_at st' s = hdr_at st s"
  by (simp add: hdr_at_def)

lemma content_cong:
  assumes "\<forall>t \<in> nat ` set (file_sectors h). sectors st' t = sectors st t"
  shows "content st' h = content st h"
  using assms by (simp add: content_def raw_def cong: map_cong)

lemma same_sectors: "sectors st' = sectors st \<Longrightarrow> host_big st' = host_big st \<Longrightarrow> hdr_at st' = hdr_at st \<and> own st' = own st \<and> content st' = content st"
  by (auto simp: fun_eq_iff hdr_at_def own_def content_def raw_def)

section \<open>The file system on disk\<close>

text \<open>
  The files of the disk are identified by the sectors of their headers: the bitmap, the directory
  and the files of the directory. Each owns its header sector and its data sectors.
\<close>

definition heads :: "Directory \<Rightarrow> int set" where
  "heads D = {FreeMapSector, DirectorySector} \<union> ran (dir_files D)"

definition head_ok :: "('c, 'z) DiskSys_scheme \<Rightarrow> int \<Rightarrow> bool" where
  "head_ok st s \<longleftrightarrow> in_disk s \<and> hdr_ok (hdr_at st s) \<and> nat s \<notin> nat ` set (file_sectors (hdr_at st s))"

definition heads_ok :: "('c, 'z) DiskSys_scheme \<Rightarrow> int set \<Rightarrow> bool" where
  "heads_ok st H \<longleftrightarrow> (\<forall>s \<in> H. head_ok st s) \<and> (\<forall>s \<in> H. \<forall>s' \<in> H. s \<noteq> s' \<longrightarrow> own st s \<inter> own st s' = {})"

text \<open>
  The state of the disk represents a bitmap and a directory: both are in the files that the file system keeps
  open, no two files share a sector, and exactly the sectors that a file owns are marked in the bitmap.
\<close>

definition fs_rep :: "FileSystem \<Rightarrow> BitMap \<Rightarrow> Directory \<Rightarrow> ('c, 'z) DiskSys_scheme \<Rightarrow> bool" where
  "fs_rep fs B D st \<longleftrightarrow> disk_quiet st
     \<and> of_hdr (freeMapFile fs) = hdr_at st FreeMapSector \<and> of_hdr (directoryFile fs) = hdr_at st DirectorySector
     \<and> numBytes (hdr_at st FreeMapSector) = FreeMapFileSize \<and> numBytes (hdr_at st DirectorySector) = DirectoryFileSize
     \<and> disk_map B \<and> content st (hdr_at st FreeMapSector) = map_bytes (host_big st) B
     \<and> root_dir D \<and> content st (hdr_at st DirectorySector) = table_bytes (host_big st) D
     \<and> FreeMapSector \<notin> ran (dir_files D) \<and> DirectorySector \<notin> ran (dir_files D) \<and> inj_on (dir_files D) (dom (dir_files D))
     \<and> heads_ok st (heads D) \<and> BitMap_bits B = (\<Union>s \<in> heads D. own st s)"

lemma fs_repD:
  assumes "fs_rep fs B D st"
  shows "disk_quiet st" "of_hdr (freeMapFile fs) = hdr_at st FreeMapSector" "of_hdr (directoryFile fs) = hdr_at st DirectorySector"
    and "numBytes (hdr_at st FreeMapSector) = FreeMapFileSize" "numBytes (hdr_at st DirectorySector) = DirectoryFileSize"
    and "disk_map B" "content st (hdr_at st FreeMapSector) = map_bytes (host_big st) B"
    and "root_dir D" "content st (hdr_at st DirectorySector) = table_bytes (host_big st) D"
    and "FreeMapSector \<notin> ran (dir_files D)" "DirectorySector \<notin> ran (dir_files D)" "inj_on (dir_files D) (dom (dir_files D))"
    and "heads_ok st (heads D)" "BitMap_bits B = (\<Union>s \<in> heads D. own st s)"
  using assms unfolding fs_rep_def by blast+

text \<open>The files: the contents of every name of the directory.\<close>

definition files_of :: "('c, 'z) DiskSys_scheme \<Rightarrow> Directory \<Rightarrow> cstring \<rightharpoonup> byte list" where
  "files_of st D = (\<lambda>k. map_option (\<lambda>s. content st (hdr_at st s)) (dir_files D k))"

definition fs_holds :: "FileSystem \<Rightarrow> (cstring \<rightharpoonup> byte list) \<Rightarrow> ('c, 'z) DiskSys_scheme \<Rightarrow> bool" where
  "fs_holds fs F st \<longleftrightarrow> (\<exists>B D. fs_rep fs B D st \<and> F = files_of st D)"

text \<open>The sectors that are free when the disk holds the given files.\<close>

definition fs_free :: "(cstring \<rightharpoonup> byte list) \<Rightarrow> nat" where
  "fs_free F = 1019 - (\<Sum>k \<in> dom F. Suc (sectors_needed (int (length (the (F k))))))"

lemma dom_files_of [simp]: "dom (files_of st D) = dom (dir_files D)"
  by (auto simp: files_of_def dom_def)

lemma heads_okD:
  assumes "heads_ok st H" "s \<in> H"
  shows "in_disk s" "hdr_ok (hdr_at st s)" "nat s \<notin> nat ` set (file_sectors (hdr_at st s))" "s' \<in> H \<Longrightarrow> s \<noteq> s' \<Longrightarrow> own st s \<inter> own st s' = {}"
  using assms unfolding heads_ok_def head_ok_def by blast+

lemma heads_ok_subset: "heads_ok st H \<Longrightarrow> H' \<subseteq> H \<Longrightarrow> heads_ok st H'"
  unfolding heads_ok_def by (meson subsetD)

lemma heads_ok_insert:
  assumes "heads_ok st H" "head_ok st s" "own st s \<inter> (\<Union>s \<in> H. own st s) = {}"
  shows "heads_ok st (insert s H)"
  using assms unfolding heads_ok_def by blast

lemma heads_ok_cong:
  assumes "\<forall>s \<in> H. hdr_at st' s = hdr_at st s"
  shows "heads_ok st' H = heads_ok st H"
proof -
  have "own st' s = own st s" "head_ok st' s = head_ok st s" if "s \<in> H" for s using assms that by (simp_all add: own_def head_ok_def)
  then show ?thesis by (simp add: heads_ok_def)
qed

lemma in_heads [simp]: "FreeMapSector \<in> heads D" "DirectorySector \<in> heads D"
  by (simp_all add: heads_def)

lemma system_sectors [simp]: "in_disk FreeMapSector" "in_disk DirectorySector" "FreeMapSector \<noteq> DirectorySector" "nat FreeMapSector \<noteq> nat DirectorySector"
  by (simp_all add: FreeMapSector_def DirectorySector_def in_disk_def NumSectors_eq)

lemma head_own: "heads_ok st H \<Longrightarrow> s \<in> H \<Longrightarrow> nat s \<in> own st s"
  by (simp add: own_def)

text \<open>The number of marked sectors follows from the lengths of the files.\<close>

lemma card_own:
  assumes "head_ok st s"
  shows "card (own st s) = Suc (sectors_needed (numBytes (hdr_at st s)))"
proof -
  let ?h = "hdr_at st s"
  have h: "hdr_ok ?h" "nat s \<notin> nat ` set (file_sectors ?h)" using assms by (simp_all add: head_ok_def)
  have "inj_on nat (set (file_sectors ?h))" using h(1) by (auto simp: hdr_ok_def in_disk_def inj_on_def eq_nat_nat_iff)
  moreover have "distinct (file_sectors ?h)" "length (file_sectors ?h) = sectors_needed (numBytes ?h)"
    using h(1) length_file_sectors [OF h(1)] unfolding hdr_ok_def sectors_needed_def by metis+
  ultimately have "card (nat ` set (file_sectors ?h)) = sectors_needed (numBytes ?h)" by (simp add: card_image distinct_card)
  then show ?thesis using h(2) by (simp add: own_def)
qed

lemma finite_dir_files: "finite (dom (dir_files D))"
  by (simp add: dir_files_def finite_dom_map_of)

lemma clear_count_files:
  assumes "fs_rep fs B D st"
  shows "clear_count B = fs_free (files_of st D)"
proof -
  note r = fs_repD [OF assms]
  let ?g = "\<lambda>s. Suc (sectors_needed (numBytes (hdr_at st s)))" and ?F = "dir_files D"
  have ok: "head_ok st s" if "s \<in> heads D" for s using r(13) that by (simp add: heads_ok_def)
  have fin: "finite (heads D)" using finite_dir_files [of D] by (simp add: heads_def finite_ran)
  have "card (BitMap_bits B) = (\<Sum>s \<in> heads D. card (own st s))"
    unfolding r(14) by (rule card_UN_disjoint) (use fin r(13) in \<open>auto simp: own_def heads_ok_def\<close>)
  also have "\<dots> = (\<Sum>s \<in> heads D. ?g s)" by (intro sum.cong refl card_own ok)
  also have "\<dots> = ?g FreeMapSector + ?g DirectorySector + (\<Sum>s \<in> ran ?F. ?g s)"
    using r(10,11) finite_ran [OF finite_dir_files, of D] by (simp add: heads_def)
  also have "\<dots> = 5 + (\<Sum>s \<in> ran ?F. ?g s)"
    by (simp_all add: r(4,5) sectors_needed_def FreeMapFileSize_def DirectoryFileSize_def NumSectors_eq BitsInByte_def NumDirEntries_def
        sizeof_entry_def SectorSize_def divRoundUp_nonneg)
  also have "(\<Sum>s \<in> ran ?F. ?g s) = (\<Sum>k \<in> dom ?F. ?g (the (?F k)))"
  proof -
    have "ran ?F = (\<lambda>k. the (?F k)) ` dom ?F" by (force simp: ran_def dom_def)
    moreover have "inj_on (\<lambda>k. the (?F k)) (dom ?F)" using r(12) by (auto simp: inj_on_def dom_def)
    ultimately show ?thesis by (simp add: sum.reindex comp_def)
  qed
  also have "\<dots> = (\<Sum>k \<in> dom ?F. Suc (sectors_needed (int (length (the (files_of st D k))))))"
  proof (rule sum.cong)
    fix k assume "k \<in> dom ?F"
    then obtain s where s: "?F k = Some s" "s \<in> heads D" by (auto simp: heads_def ran_def)
    have h: "hdr_ok (hdr_at st s)" using ok [OF s(2)] by (simp add: head_ok_def)
    then have "0 \<le> numBytes (hdr_at st s)" by (simp add: hdr_ok_def)
    then show "?g (the (?F k)) = Suc (sectors_needed (int (length (the (files_of st D k)))))"
      using length_content [OF r(1) h] s(1) by (simp add: files_of_def)
  qed simp
  finally show ?thesis using r(6) by (simp add: clear_count_def fs_free_def disk_map_def NumSectors_eq)
qed

end
