(* ===== verification/FileSysOps.thy ===== *)
theory FileSysOps
  imports FileSys
begin

text \<open>
  The operations of the file system implement a map from names to byte sequences: each of them
  keeps the representation of the disk and has the effect of its abstract counterpart. The locale
  \<^verbatim>\<open>call_service\<close> lifts this to sequences of calls.
\<close>

section \<open>Reading and flushing the bitmap and the directory\<close>

definition unchanged :: "('c, 'z) DiskSys_scheme \<Rightarrow> ('c, 'z) DiskSys_scheme \<Rightarrow> bool" where
  "unchanged st st' \<longleftrightarrow> disk_quiet st' \<and> sectors st' = sectors st \<and> host_big st' = host_big st"

lemma unchanged_trans: "unchanged st st' \<Longrightarrow> unchanged st' st'' \<Longrightarrow> unchanged st st''"
  by (simp add: unchanged_def)

lemma unchanged_rep:
  assumes "fs_rep fs B D st" "unchanged st st'"
  shows "fs_rep fs B D st'" "files_of st' D = files_of st D"
proof -
  have e: "hdr_at st' = hdr_at st" "own st' = own st" "content st' = content st" "host_big st' = host_big st" "disk_quiet st'"
    using assms(2) same_sectors [of st' st] by (auto simp: unchanged_def)
  have "heads_ok st' H = heads_ok st H" for H by (rule heads_ok_cong) (simp add: e)
  then show "fs_rep fs B D st'" using assms(1) e(5) by (simp add: fs_rep_def e(1-4))
  show "files_of st' D = files_of st D" by (simp add: files_of_def e)
qed

lemma fetch_dir:
  assumes "fs_rep fs B D st"
  shows "\<exists>st'. Directory_FetchFrom (directoryFile fs) (new_Directory s0) st = Inr (D, st') \<and> unchanged st st'"
proof -
  note r = fs_repD [OF assms]
  have "hdr_ok (of_hdr (directoryFile fs))" using heads_okD(2) [OF r(13)] r(3) by simp
  then show ?thesis
    using Directory_FetchFrom_ok [of st "directoryFile fs" D "new_Directory s0"] r(1,3,9) root_dirD(2,3) [OF r(8)] root_dirD(2,3) [OF new_Directory_ok(1), of s0]
    by (auto simp: unchanged_def)
qed

lemma fetch_map:
  assumes "fs_rep fs B D st" "disk_map b"
  shows "\<exists>st'. BitMap_FetchFrom (freeMapFile fs) b st = Inr (B, st') \<and> unchanged st st'"
proof -
  note r = fs_repD [OF assms(1)]
  have "hdr_ok (of_hdr (freeMapFile fs))" using heads_okD(2) [OF r(13)] r(2) by simp
  then show ?thesis using BitMap_FetchFrom_ok [of st "freeMapFile fs" B b] r(1,2,6,7) assms(2) by (auto simp: unchanged_def)
qed

definition data_of :: "OpenFile \<Rightarrow> nat set" where
  "data_of f = nat ` set (file_sectors (of_hdr f))"

definition sys_files :: "FileSystem \<Rightarrow> bool" where
  "sys_files fs \<longleftrightarrow> hdr_ok (of_hdr (freeMapFile fs)) \<and> hdr_ok (of_hdr (directoryFile fs))
     \<and> numBytes (of_hdr (freeMapFile fs)) = FreeMapFileSize \<and> numBytes (of_hdr (directoryFile fs)) = DirectoryFileSize
     \<and> data_of (freeMapFile fs) \<inter> data_of (directoryFile fs) = {}"

lemma fs_rep_sys_files:
  assumes "fs_rep fs B D st"
  shows "sys_files fs"
proof -
  note r = fs_repD [OF assms]
  have "own st FreeMapSector \<inter> own st DirectorySector = {}" using heads_okD(4) [OF r(13)] by simp
  then show ?thesis using heads_okD(2) [OF r(13)] r(2-5) by (auto simp: sys_files_def data_of_def own_def)
qed

text \<open>What both orders of writing the bitmap and the directory achieve.\<close>

definition flushed :: "FileSystem \<Rightarrow> BitMap \<Rightarrow> Directory \<Rightarrow> ('c, 'z) DiskSys_scheme \<Rightarrow> ('c, 'z) DiskSys_scheme \<Rightarrow> bool" where
  "flushed fs B D st st' \<longleftrightarrow> disk_quiet st' \<and> host_big st' = host_big st
     \<and> content st' (of_hdr (freeMapFile fs)) = map_bytes (host_big st) B \<and> content st' (of_hdr (directoryFile fs)) = table_bytes (host_big st) D
     \<and> (\<forall>t. t \<notin> data_of (freeMapFile fs) \<union> data_of (directoryFile fs) \<longrightarrow> sectors st' t = sectors st t)"

lemma flush_dir_map:
  assumes "sys_files fs" "disk_quiet st" "disk_map B" "root_dir D"
  obtains st1 st2 where "Directory_WriteBack (directoryFile fs) D st = Inr st1" "BitMap_WriteBack (freeMapFile fs) B st1 = Inr st2" "flushed fs B D st st2"
proof -
  note s = assms(1) [unfolded sys_files_def]
  obtain st1 where 1: "Directory_WriteBack (directoryFile fs) D st = Inr st1" "disk_quiet st1" "host_big st1 = host_big st"
      "content st1 (of_hdr (directoryFile fs)) = table_bytes (host_big st) D" "\<forall>t. t \<notin> data_of (directoryFile fs) \<longrightarrow> sectors st1 t = sectors st t"
    using Directory_WriteBack_ok [OF assms(2) _ _ root_dirD(2) [OF assms(4)], of "directoryFile fs"] s root_dirD(5) [OF assms(4)] by (auto simp: data_of_def)
  obtain st2 where 2: "BitMap_WriteBack (freeMapFile fs) B st1 = Inr st2" "disk_quiet st2" "host_big st2 = host_big st1"
      "content st2 (of_hdr (freeMapFile fs)) = map_bytes (host_big st1) B" "\<forall>t. t \<notin> data_of (freeMapFile fs) \<longrightarrow> sectors st2 t = sectors st1 t"
    using BitMap_WriteBack_ok [OF 1(2) _ _ assms(3), of "freeMapFile fs"] s by (auto simp: data_of_def)
  have "content st2 (of_hdr (directoryFile fs)) = content st1 (of_hdr (directoryFile fs))"
    using 2(5) s by (intro content_cong) (auto simp: data_of_def)
  then show thesis using that 1 2 by (simp add: flushed_def)
qed

lemma flush_map_dir:
  assumes "sys_files fs" "disk_quiet st" "disk_map B" "root_dir D"
  obtains st1 st2 where "BitMap_WriteBack (freeMapFile fs) B st = Inr st1" "Directory_WriteBack (directoryFile fs) D st1 = Inr st2" "flushed fs B D st st2"
proof -
  note s = assms(1) [unfolded sys_files_def]
  obtain st1 where 1: "BitMap_WriteBack (freeMapFile fs) B st = Inr st1" "disk_quiet st1" "host_big st1 = host_big st"
      "content st1 (of_hdr (freeMapFile fs)) = map_bytes (host_big st) B" "\<forall>t. t \<notin> data_of (freeMapFile fs) \<longrightarrow> sectors st1 t = sectors st t"
    using BitMap_WriteBack_ok [OF assms(2) _ _ assms(3), of "freeMapFile fs"] s by (auto simp: data_of_def)
  obtain st2 where 2: "Directory_WriteBack (directoryFile fs) D st1 = Inr st2" "disk_quiet st2" "host_big st2 = host_big st1"
      "content st2 (of_hdr (directoryFile fs)) = table_bytes (host_big st1) D" "\<forall>t. t \<notin> data_of (directoryFile fs) \<longrightarrow> sectors st2 t = sectors st1 t"
    using Directory_WriteBack_ok [OF 1(2) _ _ root_dirD(2) [OF assms(4)], of "directoryFile fs"] s root_dirD(5) [OF assms(4)] by (auto simp: data_of_def)
  have "content st2 (of_hdr (freeMapFile fs)) = content st1 (of_hdr (freeMapFile fs))"
    using 2(5) s by (intro content_cong) (auto simp: data_of_def)
  then show thesis using that 1 2 by (simp add: flushed_def)
qed

text \<open>Flushing, and writing sectors that were free, changes no header and no file of the directory.\<close>

lemma flush_frame:
  assumes "fs_rep fs B D st" "host_big st' = host_big st" "X \<inter> BitMap_bits B = {}"
    and "\<forall>t. t \<notin> X \<union> data_of (freeMapFile fs) \<union> data_of (directoryFile fs) \<longrightarrow> sectors st' t = sectors st t"
  shows "s \<in> heads D \<Longrightarrow> hdr_at st' s = hdr_at st s"
    and "s \<in> ran (dir_files D) \<Longrightarrow> content st' (hdr_at st s) = content st (hdr_at st s)"
proof -
  note r = fs_repD [OF assms(1)]
  have data: "data_of (freeMapFile fs) \<subseteq> own st FreeMapSector" "data_of (directoryFile fs) \<subseteq> own st DirectorySector"
    by (auto simp: data_of_def own_def r(2,3))
  have X: "own st s \<inter> X = {}" if "s \<in> heads D" for s using that assms(3) r(14) by blast
  show "hdr_at st' s = hdr_at st s" if s: "s \<in> heads D"
  proof -
    have "nat s \<notin> data_of (freeMapFile fs)"
      using data(1) heads_okD(4) [OF r(13) s, of FreeMapSector] heads_okD(3) [OF r(13) s] head_own [OF r(13) s] r(2) by (cases "s = FreeMapSector") (auto simp: data_of_def)
    moreover have "nat s \<notin> data_of (directoryFile fs)"
      using data(2) heads_okD(4) [OF r(13) s, of DirectorySector] heads_okD(3) [OF r(13) s] head_own [OF r(13) s] r(3) by (cases "s = DirectorySector") (auto simp: data_of_def)
    moreover have "nat s \<notin> X" using X [OF s] head_own [OF r(13) s] by blast
    ultimately show ?thesis using assms(2,4) by (intro hdr_at_cong) simp_all
  qed
  show "content st' (hdr_at st s) = content st (hdr_at st s)" if s: "s \<in> ran (dir_files D)"
  proof (rule content_cong)
    have h: "s \<in> heads D" "s \<noteq> FreeMapSector" "s \<noteq> DirectorySector" using s r(10,11) by (auto simp: heads_def)
    have "own st s \<inter> (X \<union> data_of (freeMapFile fs) \<union> data_of (directoryFile fs)) = {}"
      using X [OF h(1)] data heads_okD(4) [OF r(13) h(1), of FreeMapSector] heads_okD(4) [OF r(13) h(1), of DirectorySector] h(2,3) by auto
    then show "\<forall>t \<in> nat ` set (file_sectors (hdr_at st s)). sectors st' t = sectors st t"
      using assms(4) unfolding own_def by blast
  qed
qed

lemma flushed_rep:
  assumes "fs_rep fs B D st" "flushed fs B' D' st1 st'" "host_big st1 = host_big st" "\<forall>s \<in> heads D. hdr_at st' s = hdr_at st s"
    and "disk_map B'" "root_dir D'" "FreeMapSector \<notin> ran (dir_files D')" "DirectorySector \<notin> ran (dir_files D')"
    and "inj_on (dir_files D') (dom (dir_files D'))" "heads_ok st' (heads D')" "BitMap_bits B' = (\<Union>s \<in> heads D'. own st' s)"
  shows "fs_rep fs B' D' st'"
  using assms(2,3,5-11) fs_repD(2-5) [OF assms(1)] assms(4) unfolding fs_rep_def flushed_def by simp

section \<open>The operations of the file system\<close>

lemma disk_map_bits: "disk_map B \<Longrightarrow> BitMap_bits B \<subseteq> {..<nat NumSectors}"
  using BitMap_bits_subset [of B] by (simp add: disk_map_def)

lemma clear_count_0:
  assumes "disk_map B" "clear_count B = 0"
  shows "BitMap_bits B = {..<BitMap_size B}"
proof (rule card_subset_eq)
  show "card (BitMap_bits B) = card {..<BitMap_size B}" using assms bitmap.card_bits [of B] by (simp add: clear_count_def disk_map_def)
qed (use BitMap_bits_subset in auto)

lemma fs_holdsI: "fs_rep fs B D st \<Longrightarrow> F = files_of st D \<Longrightarrow> fs_holds fs F st"
  unfolding fs_holds_def by blast

text \<open>Adding a file: its header goes to a free sector, its data to other free sectors.\<close>

lemma new_file_rep:
  assumes rep: "fs_rep fs B D st" and key: "dir_files D k = None"
    and new: "in_disk s" "nat s \<notin> BitMap_bits B" "hdr_ok h" "nat ` set (file_sectors h) \<inter> insert (nat s) (BitMap_bits B) = {}"
    and D': "root_dir D'" "dir_files D' = (dir_files D)(k \<mapsto> s)"
    and B': "disk_map B'" "BitMap_bits B' = BitMap_bits B \<union> insert (nat s) (nat ` set (file_sectors h))"
    and st1: "host_big st1 = host_big st" "hdr_at st1 s = h" "\<forall>t. t \<noteq> nat s \<longrightarrow> sectors st1 t = sectors st t"
    and st2: "flushed fs B' D' st1 st2"
  shows "fs_rep fs B' D' st2 \<and> files_of st2 D' = (files_of st D)(k \<mapsto> content st2 h)"
proof -
  note r = fs_repD [OF rep]
  have same: "\<forall>t. t \<notin> {nat s} \<union> data_of (freeMapFile fs) \<union> data_of (directoryFile fs) \<longrightarrow> sectors st2 t = sectors st t"
    using st1(3) st2 by (simp add: flushed_def)
  have big: "host_big st2 = host_big st" using st1(1) st2 by (simp add: flushed_def)
  note frame = flush_frame [OF rep big _ same]
  have old: "hdr_at st2 s' = hdr_at st s'" if "s' \<in> heads D" for s' using frame(1) that new(2) by simp
  have "data_of (freeMapFile fs) \<subseteq> BitMap_bits B" "data_of (directoryFile fs) \<subseteq> BitMap_bits B"
    using r(14) by (auto simp: data_of_def r(2,3) own_def intro: in_heads)
  then have hs: "hdr_at st2 s = h" using st1(2) st2 new(2) hdr_at_cong [of st2 s st1] by (auto simp: flushed_def)
  have own: "own st2 s' = own st s'" if "s' \<in> heads D" for s' using old [OF that] by (simp add: own_def)
  have fresh: "s \<notin> heads D" using new(2) r(14) by (auto simp: own_def)
  have heads: "heads D' = insert s (heads D)" using key by (auto simp: heads_def D'(2) ran_map_upd)
  have "head_ok st2 s" using new by (auto simp: head_ok_def hs)
  moreover have "own st2 s \<inter> (\<Union>s' \<in> heads D. own st2 s') = {}"
    using new(2,4) r(14) own by (auto simp: own_def [of st2 s] hs)
  ultimately have hok: "heads_ok st2 (heads D')"
    unfolding heads using heads_ok_insert heads_ok_cong [of "heads D" st2 st] old r(13) by blast
  have bits: "BitMap_bits B' = (\<Union>s' \<in> heads D'. own st2 s')" using own r(14) by (simp add: B'(2) heads hs own_def [of st2 s] Un_commute)
  have inj: "inj_on (dir_files D') (dom (dir_files D'))" using r(12) fresh by (auto simp: D'(2) inj_on_def heads_def ran_def)
  have "fs_rep fs B' D' st2"
    using flushed_rep [OF rep st2 st1(1) _ B'(1) D'(1) _ _ inj hok bits] old fresh r(10,11) key by (auto simp: D'(2) ran_map_upd heads_def)
  moreover have "files_of st2 D' k' = ((files_of st D)(k \<mapsto> content st2 h)) k'" for k'
  proof (cases "k' = k \<or> dir_files D k' = None")
    case False
    then obtain s' where s': "dir_files D k' = Some s'" "s' \<in> ran (dir_files D)" by (auto simp: ran_def)
    then have "content st2 (hdr_at st s') = content st (hdr_at st s')" using frame(2) new(2) by simp
    then show ?thesis using False s' old [of s'] by (simp add: files_of_def D'(2) heads_def)
  qed (auto simp: files_of_def D'(2) hs)
  ultimately show ?thesis by (simp add: fun_eq_iff)
qed

text \<open>The part of \<^verbatim>\<open>Create\<close> after a sector for the header and an entry of the directory have been found.\<close>

definition finish_create :: "FileSystem \<Rightarrow> int \<Rightarrow> int \<Rightarrow> Directory \<Rightarrow> BitMap \<Rightarrow> ('c, 'z) DiskSys_scheme \<Rightarrow> (bool \<times> ('c, 'z) DiskSys_scheme) res" where
  "finish_create fs initialSize s directory freeMap st =
     bindE (FileHeader_Allocate freeMap initialSize (FileHeader_new st)) (\<lambda>(ok, freeMap, hdr).
     if \<not> ok then Inr (False, st)
     else bindE (FileHeader_WriteBack s hdr st) (\<lambda>st. bindE (Directory_WriteBack (directoryFile fs) directory st) (\<lambda>st.
       bindE (BitMap_WriteBack (freeMapFile fs) freeMap st) (\<lambda>st. Inr (True, st)))))"

lemma finish_create_stores:
  assumes rep: "fs_rep fs B D st" "dir_files D k = None" "in_disk s" "nat s \<notin> BitMap_bits B"
    and D': "root_dir D'" "dir_files D' = (dir_files D)(k \<mapsto> s)"
    and B1: "disk_map B1" "BitMap_bits B1 = insert (nat s) (BitMap_bits B)"
    and sz: "0 \<le> initialSize" "int32 initialSize" "sectors_needed initialSize \<le> clear_count B1" "sectors_needed initialSize \<le> NumDirect"
  shows "\<exists>st' bs. finish_create fs initialSize s D' B1 st = Inr (True, st') \<and> length bs = nat initialSize \<and> fs_holds fs ((files_of st D)(k \<mapsto> bs)) st'"
proof -
  obtain B2 h where A: "FileHeader_Allocate B1 initialSize (FileHeader_new st) = Inr (True, B2, h)" "hdr_ok h" "numBytes h = initialSize"
      "BitMap_inv B2" "BitMap_size B2 = BitMap_size B1" "nat ` set (file_sectors h) \<inter> BitMap_bits B1 = {}" "BitMap_bits B2 = BitMap_bits B1 \<union> nat ` set (file_sectors h)"
    using Allocate_ok [OF _ _ FileHeader_new_ok [of st] sz(2,1,3,4)] B1(1) by (auto simp: disk_map_def)
  have B2: "disk_map B2" using A(4,5) B1(1) by (simp add: disk_map_def)
  have "hdr_wf h" using A(2) by (simp add: hdr_ok_def)
  from FileHeader_WriteBack_ok [OF fs_repD(1) [OF rep(1)] rep(3) this]
  obtain st1 where w1: "FileHeader_WriteBack s h st = Inr st1" "disk_quiet st1" "host_big st1 = host_big st" "hdr_at st1 s = h" "\<forall>t. t \<noteq> nat s \<longrightarrow> sectors st1 t = sectors st t" by blast
  obtain st2 st3 where w2: "Directory_WriteBack (directoryFile fs) D' st1 = Inr st2" "BitMap_WriteBack (freeMapFile fs) B2 st2 = Inr st3" "flushed fs B2 D' st1 st3"
    by (rule flush_dir_map [OF fs_rep_sys_files [OF rep(1)] w1(2) B2 D'(1)])
  have bits: "BitMap_bits B2 = BitMap_bits B \<union> insert (nat s) (nat ` set (file_sectors h))" using A(7) B1(2) by blast
  have "fs_rep fs B2 D' st3 \<and> files_of st3 D' = (files_of st D)(k \<mapsto> content st3 h)"
    using new_file_rep [OF rep A(2) _ D' B2 bits w1(3,4,5) w2(3)] A(6) B1(2) by simp
  then have "fs_holds fs ((files_of st D)(k \<mapsto> content st3 h)) st3" using fs_holdsI by metis
  moreover have "length (content st3 h) = nat initialSize" using length_content [OF _ A(2), of st3] w2(3) A(3) by (simp add: flushed_def)
  moreover have "finish_create fs initialSize s D' B1 st = Inr (True, st3)" using A(1) w1(1) w2(1,2) by (simp add: finish_create_def)
  ultimately show ?thesis by blast
qed

lemma finish_create_fails:
  assumes "disk_map B1" "0 \<le> initialSize"
  shows "clear_count B1 < sectors_needed initialSize \<Longrightarrow> finish_create fs initialSize s D' B1 st = Inr (False, st)"
    and "sectors_needed initialSize \<le> clear_count B1 \<Longrightarrow> NumDirect < sectors_needed initialSize \<Longrightarrow> finish_create fs initialSize s D' B1 st = Inl OutOfBounds"
  using Allocate_refused [of B1 initialSize "FileHeader_new st"] Allocate_overruns [of B1 "FileHeader_new st" initialSize] FileHeader_new_ok [of st] assms
  by (auto simp: finish_create_def disk_map_def)

definition create_spec :: "cstring \<Rightarrow> int \<Rightarrow> FileSystem \<Rightarrow> (cstring \<rightharpoonup> byte list) \<Rightarrow> (bool \<times> ('c, 'z) DiskSys_scheme) res \<Rightarrow> bool" where
  "create_spec k initialSize fs F r =
    (if F k = None \<and> card (dom F) < nat NumDirEntries \<and> Suc (sectors_needed initialSize) \<le> fs_free F
     then if sectors_needed initialSize \<le> NumDirect
       then \<exists>st' bs. r = Inr (True, st') \<and> length bs = nat initialSize \<and> fs_holds fs (F(k \<mapsto> bs)) st'
       else r = Inl OutOfBounds
     else \<exists>st'. r = Inr (False, st') \<and> fs_holds fs F st')"

lemma create_in_sector:
  assumes "fs_rep fs B D st" "F = files_of st D" "cstring_ok name" "0 \<le> initialSize" "int32 initialSize" "F (name_key name) = None"
    and j: "j < BitMap_size B" "j \<notin> BitMap_bits B" "disk_map B1" "BitMap_bits B1 = insert j (BitMap_bits B)" "Suc (clear_count B1) = fs_free F"
  shows "create_spec (name_key name) initialSize fs F
     (let (added, directory) = Directory_Add name (int j) D in
      if \<not> added then Inr (False, st) else finish_create fs initialSize (int j) directory B1 st)"
proof -
  let ?k = "name_key name" and ?n = "sectors_needed initialSize"
  note r = fs_repD [OF assms(1)]
  have D: "dir_wf D" "length (dir_table D) = nat NumDirEntries" "tableSize D = NumDirEntries" by (rule root_dirD [OF r(8)])+
  have holds: "fs_holds fs F st" using fs_holdsI [OF assms(1,2)] .
  have j': "in_disk (int j)" "int32 (int j)" "nat (int j) \<notin> BitMap_bits B" "BitMap_bits B1 = insert (nat (int j)) (BitMap_bits B)"
    using j(1,2,4) r(6) by (simp_all add: in_disk_def int32_def disk_map_def NumSectors_eq)
  obtain ok D' where a: "Directory_Add name (int j) D = (ok, D')" "ok = (dir_files D ?k = None \<and> dir_room D)" "dir_wf D'"
      "dir_files D' = (if ok then (dir_files D)(?k \<mapsto> int j) else dir_files D)" "length (dir_table D') = length (dir_table D)"
    using Add_ok [OF D(1) assms(3) _ j'(2)] by auto
  have new: "dir_files D ?k = None" using assms(2,6) by (simp add: files_of_def)
  have okr: "ok \<longleftrightarrow> card (dom F) < nat NumDirEntries" using a(2) new D(2) by (simp add: dir_room_def assms(2))
  have D': "root_dir D'" using a(3,5) D(1,3) by (auto simp: root_dir_def dir_wf_def)
  consider "\<not> ok \<or> clear_count B1 < ?n" | "ok" "?n \<le> clear_count B1" "?n \<le> NumDirect" | "ok" "?n \<le> clear_count B1" "NumDirect < ?n" by linarith
  then show ?thesis
  proof cases
    case 1
    then show ?thesis using holds okr a(1) j(5) finish_create_fails(1) [OF j(3) assms(4), of fs "int j" D' st] by (auto simp: create_spec_def)
  next
    case 2
    have "dir_files D' = (dir_files D)(?k \<mapsto> int j)" using a(4) 2(1) by simp
    from finish_create_stores [OF assms(1) new j'(1,3) D' this j(3) j'(4) assms(4,5) 2(2,3)]
    show ?thesis using 2 okr a(1) j(5) assms(2,6) by (auto simp: create_spec_def)
  next
    case 3
    then show ?thesis using okr a(1) j(5) assms(6) finish_create_fails(2) [OF j(3) assms(4), of fs "int j" D' st] by (auto simp: create_spec_def)
  qed
qed

lemma Create_ok:
  assumes "fs_holds fs F st" "cstring_ok name" "0 \<le> initialSize" "int32 initialSize"
  shows "create_spec (name_key name) initialSize fs F (FileSystem_Create name initialSize fs st)"
proof -
  let ?k = "name_key name"
  obtain B D where rep: "fs_rep fs B D st" and F: "F = files_of st D" using assms(1) by (auto simp: fs_holds_def)
  obtain st1 where f1: "Directory_FetchFrom (directoryFile fs) (new_Directory st) st = Inr (D, st1)" "unchanged st st1" using fetch_dir [OF rep] by blast
  obtain b0 where b0: "new_BitMap st1 = Inr b0" "disk_map b0" using new_BitMap_ok [of st1] by blast
  obtain st2 where f2: "BitMap_FetchFrom (freeMapFile fs) b0 st1 = Inr (B, st2)" "unchanged st1 st2" using fetch_map [OF unchanged_rep(1) [OF rep f1(2)] b0(2)] by blast
  have u1: "fs_rep fs B D st1" "files_of st1 D = F" using unchanged_rep [OF rep f1(2)] F by simp_all
  have u2: "fs_rep fs B D st2" "files_of st2 D = F" using unchanged_rep [OF u1(1) f2(2)] u1(2) by simp_all
  note r = fs_repD [OF u2(1)]
  have D: "dir_wf D" using r(8) by (simp add: root_dir_def)
  have find: "Directory_Find name D = -1 \<longleftrightarrow> F ?k = None" using directory.find_absent [OF D assms(2)] by (simp add: F files_of_def)
  have clear: "clear_count B = fs_free F" using clear_count_files [OF u2(1)] u2(2) by simp
  have holds: "fs_holds fs F st1" "fs_holds fs F st2" using fs_holdsI [OF u1(1)] fs_holdsI [OF u2(1)] u1(2) u2(2) by simp_all
  consider "F ?k \<noteq> None" | "F ?k = None" "fs_free F = 0" | "F ?k = None" "fs_free F \<noteq> 0" by blast
  then show ?thesis
  proof cases
    case 1
    then have "FileSystem_Create name initialSize fs st = Inr (False, st1)" using f1(1) find by (simp add: FileSystem_Create_def)
    then show ?thesis using 1 holds(1) by (auto simp: create_spec_def)
  next
    case 2
    then have "BitMap_Find B = Inr (-1, B)" using clear clear_count_0 [OF r(6)] BitMap_Find_full [of B] r(6) by (simp add: disk_map_def)
    then have "FileSystem_Create name initialSize fs st = Inr (False, st2)" using 2 f1(1) f2(1) b0(1) find by (simp add: FileSystem_Create_def)
    then show ?thesis using 2 holds(2) by (auto simp: create_spec_def)
  next
    case 3
    have "BitMap_inv B" "card (BitMap_bits B) < BitMap_size B" using 3(2) clear r(6) by (simp_all add: clear_count_def disk_map_def)
    then obtain j B1 where j: "BitMap_Find B = Inr (int j, B1)" "BitMap_inv B1" "BitMap_size B1 = BitMap_size B" "j < BitMap_size B" "j \<notin> BitMap_bits B"
        "BitMap_bits B1 = insert j (BitMap_bits B)" "card (BitMap_bits B1) = Suc (card (BitMap_bits B))"
      by (rule bitmap.find_step)
    have "disk_map B1" "Suc (clear_count B1) = fs_free F" using clear 3(2) j(2,3,7) r(6) by (simp_all add: clear_count_def disk_map_def)
    from create_in_sector [OF u2(1) u2(2) [symmetric] assms(2-4) 3(1) j(4,5) this(1) j(6) this(2)] show ?thesis
      using 3(1) f1(1) f2(1) b0(1) find j(1) unfolding finish_create_def Let_def by (simp add: FileSystem_Create_def)
  qed
qed

lemma ran_remove:
  assumes "inj_on m (dom m)" "m k = Some v"
  shows "ran (m(k := None)) = ran m - {v}"
proof (intro set_eqI iffI)
  fix x assume "x \<in> ran (m(k := None))"
  then obtain k' where k': "k' \<noteq> k" "m k' = Some x" by (auto simp: ran_def split: if_splits)
  then have "x \<noteq> v" using inj_onD [OF assms(1), of k' k] assms(2) by auto
  then show "x \<in> ran m - {v}" using k' by (auto simp: ran_def)
next
  fix x assume "x \<in> ran m - {v}"
  then obtain k' where "m k' = Some x" "x \<noteq> v" by (auto simp: ran_def)
  moreover from this have "k' \<noteq> k" using assms(2) by auto
  ultimately show "x \<in> ran (m(k := None))" by (auto simp: ran_def)
qed

text \<open>Removing a file gives its sectors back.\<close>

lemma removed_file_rep:
  assumes rep: "fs_rep fs B D st" and key: "dir_files D k = Some s"
    and D': "root_dir D'" "dir_files D' = (dir_files D)(k := None)" and B': "disk_map B'" "BitMap_bits B' = BitMap_bits B - own st s"
    and st': "flushed fs B' D' st st'"
  shows "fs_rep fs B' D' st' \<and> files_of st' D' = (files_of st D)(k := None)"
proof -
  note r = fs_repD [OF rep]
  have same: "\<forall>t. t \<notin> {} \<union> data_of (freeMapFile fs) \<union> data_of (directoryFile fs) \<longrightarrow> sectors st' t = sectors st t" and big: "host_big st' = host_big st"
    using st' by (simp_all add: flushed_def)
  note frame = flush_frame [OF rep big _ same]
  have old: "hdr_at st' s' = hdr_at st s'" if "s' \<in> heads D" for s' using frame(1) that by simp
  have own: "own st' s' = own st s'" if "s' \<in> heads D" for s' using old [OF that] by (simp add: own_def)
  have inh: "s \<in> heads D" using key by (auto simp: heads_def ran_def)
  have ran: "ran (dir_files D') = ran (dir_files D) - {s}" unfolding D'(2) by (rule ran_remove [OF r(12) key])
  then have heads: "heads D' = heads D - {s}" using key r(10,11) by (auto simp: heads_def ran_def)
  have "\<forall>s' \<in> heads D. hdr_at st' s' = hdr_at st s'" using old by blast
  then have "heads_ok st' (heads D)" using heads_ok_cong r(13) by blast
  then have hok: "heads_ok st' (heads D')" by (rule heads_ok_subset) (simp add: heads)
  have bits: "BitMap_bits B' = (\<Union>s' \<in> heads D'. own st' s')"
  proof -
    have "own st s' \<inter> own st s = {}" if "s' \<in> heads D'" for s' using heads_okD(4) [OF r(13), of s' s] that inh by (simp add: heads)
    then have "BitMap_bits B - own st s = (\<Union>s' \<in> heads D'. own st s')" using r(14) by (auto simp: heads)
    then show ?thesis using own B'(2) by (simp add: heads)
  qed
  have inj: "inj_on (dir_files D') (dom (dir_files D'))" using r(12) by (auto simp: D'(2) inj_on_def)
  have "fs_rep fs B' D' st'"
    using flushed_rep [OF rep st' refl _ B'(1) D'(1) _ _ inj hok bits] old r(10,11) ran by auto
  moreover have "files_of st' D' k' = ((files_of st D)(k := None)) k'" for k'
  proof (cases "k' = k \<or> dir_files D k' = None")
    case False
    then obtain s' where s': "dir_files D k' = Some s'" "s' \<in> ran (dir_files D)" by (auto simp: ran_def)
    then have "content st' (hdr_at st s') = content st (hdr_at st s')" using frame(2) by simp
    then show ?thesis using False s' old [of s'] by (simp add: files_of_def D'(2) heads_def)
  qed (auto simp: files_of_def D'(2))
  ultimately show ?thesis by (simp add: fun_eq_iff)
qed

lemma Remove_absent:
  assumes "fs_holds fs F st" "cstring_ok name" "F (name_key name) = None"
  shows "\<exists>st'. FileSystem_Remove name fs st = Inr (False, st') \<and> fs_holds fs F st'"
proof -
  obtain B D where rep: "fs_rep fs B D st" and F: "F = files_of st D" using assms(1) by (auto simp: fs_holds_def)
  obtain st1 where f1: "Directory_FetchFrom (directoryFile fs) (new_Directory st) st = Inr (D, st1)" "unchanged st st1" using fetch_dir [OF rep] by blast
  have "dir_wf D" using fs_repD(8) [OF rep] by (simp add: root_dir_def)
  then have "Directory_Find name D = -1" using directory.find_absent [of D name] assms(2,3) by (simp add: F files_of_def)
  then have "FileSystem_Remove name fs st = Inr (False, st1)" using f1(1) by (simp add: FileSystem_Remove_def)
  then show ?thesis using fs_holdsI [OF unchanged_rep(1) [OF rep f1(2)]] unchanged_rep(2) [OF rep f1(2)] F by simp
qed

lemma Remove_present:
  assumes "fs_holds fs F st" "cstring_ok name" "F (name_key name) \<noteq> None"
  shows "\<exists>st'. FileSystem_Remove name fs st = Inr (True, st') \<and> fs_holds fs (F(name_key name := None)) st'"
proof -
  let ?k = "name_key name"
  obtain B D where rep: "fs_rep fs B D st" and F: "F = files_of st D" using assms(1) by (auto simp: fs_holds_def)
  obtain s where s: "dir_files D ?k = Some s" using assms(3) by (auto simp: F files_of_def)
  obtain st1 where f1: "Directory_FetchFrom (directoryFile fs) (new_Directory st) st = Inr (D, st1)" "unchanged st st1" using fetch_dir [OF rep] by blast
  note rep1 = unchanged_rep(1) [OF rep f1(2)]
  have D: "dir_wf D" using fs_repD(8) [OF rep] by (simp add: root_dir_def)
  have find: "Directory_Find name D = s" "s \<noteq> -1" using Find_ok [OF D assms(2)] s dir_files_nonneg [OF D s] by simp_all
  have inh: "s \<in> heads D" using s by (auto simp: heads_def ran_def)
  obtain st2 where f2: "FileHeader_FetchFrom s st1 = Inr (hdr_at st1 s, st2)" "unchanged st1 st2"
    using FileHeader_FetchFrom_ok [OF fs_repD(1) [OF rep1], of s] heads_okD(1) [OF fs_repD(13) [OF rep1] inh] by (auto simp: unchanged_def)
  note rep2 = unchanged_rep(1) [OF rep1 f2(2)]
  obtain b0 where b0: "new_BitMap st2 = Inr b0" "disk_map b0" using new_BitMap_ok [of st2] by blast
  obtain st3 where f3: "BitMap_FetchFrom (freeMapFile fs) b0 st2 = Inr (B, st3)" "unchanged st2 st3" using fetch_map [OF rep2 b0(2)] by blast
  note rep3 = unchanged_rep(1) [OF rep2 f3(2)]
  note r = fs_repD [OF rep3] and h = heads_okD [OF fs_repD(13) [OF rep3] inh]
  have hdr: "hdr_at st1 s = hdr_at st3 s" using f2(2) f3(2) by (simp add: hdr_at_def unchanged_def)
  have sub: "own st3 s \<subseteq> BitMap_bits B" using r(14) inh by blast
  then obtain B1 where B1: "FileHeader_Deallocate B (hdr_at st1 s) = Inr B1" "BitMap_inv B1" "BitMap_size B1 = BitMap_size B"
      "BitMap_bits B1 = BitMap_bits B - nat ` set (file_sectors (hdr_at st3 s))"
    using Deallocate_ok [of B "hdr_at st3 s"] r(6) h(2) hdr by (auto simp: disk_map_def own_def)
  obtain B2 where B2: "BitMap_Clear s B1 = Inr B2" "BitMap_inv B2" "BitMap_size B2 = BitMap_size B1" "BitMap_bits B2 = BitMap_bits B1 - {nat s}"
    using BitMap_Clear_spec [OF B1(2), of s] h(1) B1(3) r(6) by (auto simp: in_disk_def disk_map_def NumSectors_eq)
  have dm: "disk_map B2" "BitMap_bits B2 = BitMap_bits B - own st3 s" using B1(3,4) B2(2-4) r(6) by (auto simp: disk_map_def own_def)
  obtain ok D' where D': "Directory_Remove name D = (ok, D')" "dir_wf D'" "dir_files D' = (dir_files D)(?k := None)" "length (dir_table D') = length (dir_table D)"
    using Remove_ok [OF D assms(2)] by blast
  have rd: "root_dir D'" using D' D fs_repD(8) [OF rep] by (auto simp: root_dir_def dir_wf_def)
  obtain st4 st5 where w: "BitMap_WriteBack (freeMapFile fs) B2 st3 = Inr st4" "Directory_WriteBack (directoryFile fs) D' st4 = Inr st5" "flushed fs B2 D' st3 st5"
    by (rule flush_map_dir [OF fs_rep_sys_files [OF rep] r(1) dm(1) rd])
  have "fs_rep fs B2 D' st5" "files_of st5 D' = F(?k := None)"
    using removed_file_rep [OF rep3 s rd D'(3) dm w(3)] unchanged_rep(2) [OF rep f1(2)] unchanged_rep(2) [OF rep1 f2(2)] unchanged_rep(2) [OF rep2 f3(2)] F by auto
  moreover have "FileSystem_Remove name fs st = Inr (True, st5)"
    using f1(1) find f2(1) b0(1) f3(1) B1(1) B2(1) D'(1) w(1,2) by (simp add: FileSystem_Remove_def)
  ultimately show ?thesis using fs_holdsI by metis
qed

lemma Open_ok:
  assumes "fs_holds fs F st" "cstring_ok name"
  shows "case F (name_key name) of
     None \<Rightarrow> \<exists>st'. FileSystem_Open name fs st = Inr (None, st') \<and> fs_holds fs F st'
   | Some bs \<Rightarrow> \<exists>f st' B D s. FileSystem_Open name fs st = Inr (Some f, st') \<and> fs_rep fs B D st' \<and> F = files_of st' D
       \<and> dir_files D (name_key name) = Some s \<and> of_hdr f = hdr_at st' s \<and> seekPosition f = 0"
proof -
  obtain B D where rep: "fs_rep fs B D st" and F: "F = files_of st D" using assms(1) by (auto simp: fs_holds_def)
  obtain st1 where f1: "Directory_FetchFrom (directoryFile fs) (new_Directory st) st = Inr (D, st1)" "unchanged st st1" using fetch_dir [OF rep] by blast
  note rep1 = unchanged_rep [OF rep f1(2)]
  have D: "dir_wf D" using fs_repD(8) [OF rep] by (simp add: root_dir_def)
  show ?thesis
  proof (cases "dir_files D (name_key name)")
    case None
    then have "FileSystem_Open name fs st = Inr (None, st1)" using f1(1) Find_ok [OF D assms(2)] by (simp add: FileSystem_Open_def)
    moreover have "F (name_key name) = None" using None by (simp add: F files_of_def)
    ultimately show ?thesis using fs_holdsI [OF rep1(1)] rep1(2) F by simp
  next
    case (Some s)
    have "in_disk s" using heads_okD(1) [OF fs_repD(13) [OF rep1(1)], of s] Some by (auto simp: heads_def ran_def)
    then obtain st2 where o: "OpenFile_new s st1 = Inr (\<lparr>of_hdr = hdr_at st1 s, seekPosition = 0\<rparr>, st2)" "unchanged st1 st2"
      using OpenFile_new_ok [OF fs_repD(1) [OF rep1(1)], of s] by (auto simp: unchanged_def)
    note rep2 = unchanged_rep [OF rep1(1) o(2)]
    have "FileSystem_Open name fs st = Inr (Some \<lparr>of_hdr = hdr_at st1 s, seekPosition = 0\<rparr>, st2)"
      using f1(1) Find_ok [OF D assms(2)] Some dir_files_nonneg [OF D Some] o(1) by (simp add: FileSystem_Open_def)
    moreover have "hdr_at st1 s = hdr_at st2 s" using o(2) by (simp add: hdr_at_def unchanged_def)
    moreover have "F (name_key name) = Some (content st (hdr_at st s))" using Some by (simp add: F files_of_def)
    moreover have "F = files_of st2 D" using rep1(2) rep2(2) F by simp
    ultimately show ?thesis using rep2(1) Some by auto
  qed
qed

text \<open>Writing through an open file changes that file alone.\<close>

lemma write_file_rep:
  assumes rep: "fs_rep fs B D st" and key: "dir_files D k = Some s" and h: "of_hdr f = hdr_at st s"
    and p: "0 \<le> p" "n \<le> int (length data)" "p < numBytes (of_hdr f) \<longrightarrow> p + n < 2 ^ 31"
  shows "\<exists>r st'. WriteAt data n p f st = Inr (r, st') \<and> r = max 0 (min n (numBytes (of_hdr f) - p)) \<and> fs_rep fs B D st'
    \<and> files_of st' D = (files_of st D)(k \<mapsto> fill_buf (nat p) (take (nat r) data) (content st (of_hdr f))) \<and> hdr_at st' s = hdr_at st s"
proof -
  note r = fs_repD [OF rep]
  have inh: "s \<in> heads D" "s \<noteq> FreeMapSector" "s \<noteq> DirectorySector" using key r(10,11) by (auto simp: heads_def ran_def)
  note hs = heads_okD [OF r(13) inh(1)]
  obtain q st' where w: "WriteAt data n p f st = Inr (q, st')" "q = max 0 (min n (numBytes (of_hdr f) - p))" "disk_quiet st'" "host_big st' = host_big st"
      "content st' (of_hdr f) = fill_buf (nat p) (take (nat q) data) (content st (of_hdr f))"
      "\<forall>t. t \<notin> nat ` set (file_sectors (of_hdr f)) \<longrightarrow> sectors st' t = sectors st t"
    using WriteAt_content [OF r(1) _ p] hs(2) h by auto
  have other: "own st s' \<inter> nat ` set (file_sectors (of_hdr f)) = {}" if "s' \<in> heads D" "s' \<noteq> s" for s'
    using heads_okD(4) [OF r(13) that(1) inh(1) that(2)] h by (auto simp: own_def)
  have hdr: "hdr_at st' s' = hdr_at st s'" if "s' \<in> heads D" for s'
  proof (rule hdr_at_cong)
    have "nat s' \<notin> nat ` set (file_sectors (of_hdr f))" using other [OF that] head_own [OF r(13) that] hs(3) h by (cases "s' = s") auto
    then show "sectors st' (nat s') = sectors st (nat s')" using w(6) by blast
  qed (rule w(4))
  have cont: "content st' (hdr_at st s') = content st (hdr_at st s')" if "s' \<in> heads D" "s' \<noteq> s" for s'
    using other [OF that] w(6) by (intro content_cong) (auto simp: own_def)
  have own: "own st' s' = own st s'" if "s' \<in> heads D" for s' using hdr [OF that] by (simp add: own_def)
  have "heads_ok st' (heads D)" using heads_ok_cong [of "heads D" st' st] hdr r(13) by blast
  then have "fs_rep fs B D st'"
    using r w(3,4) hdr cont inh own unfolding fs_rep_def by simp
  moreover have "files_of st' D k' = ((files_of st D)(k \<mapsto> content st' (of_hdr f))) k'" for k'
  proof (cases "k' = k")
    case True
    then show ?thesis using key hdr [OF inh(1)] h by (simp add: files_of_def)
  next
    case False
    have "s' \<noteq> s \<and> s' \<in> heads D" if "dir_files D k' = Some s'" for s'
      using that False key r(12) by (auto simp: inj_on_def dom_def heads_def ran_def)
    then show ?thesis using False hdr cont by (cases "dir_files D k'") (auto simp: files_of_def)
  qed
  ultimately show ?thesis using w(1,2,5) hdr [OF inh(1)] by (auto simp: fun_eq_iff)
qed

section \<open>Formatting and mounting the disk\<close>

lemma system_sizes: "sectors_needed FreeMapFileSize = 1" "sectors_needed DirectoryFileSize = 2" "0 \<le> FreeMapFileSize" "0 \<le> DirectoryFileSize"
    "int32 FreeMapFileSize" "int32 DirectoryFileSize"
  by (simp_all add: sectors_needed_def FreeMapFileSize_def DirectoryFileSize_def NumSectors_eq BitsInByte_def NumDirEntries_def
      sizeof_entry_def SectorSize_def divRoundUp_nonneg int32_def)

text \<open>The bitmap of a formatted disk, before the bitmap and the directory get their data sectors.\<close>

lemma format_marks:
  obtains b0 b1 b2 where "new_BitMap st = Inr b0" "BitMap_Mark FreeMapSector b0 = Inr b1" "BitMap_Mark DirectorySector b1 = Inr b2"
    "disk_map b2" "BitMap_bits b2 = {nat FreeMapSector, nat DirectorySector}" "clear_count b2 = 1022"
proof -
  obtain b0 where b0: "new_BitMap st = Inr b0" "disk_map b0" "BitMap_bits b0 = {}" using new_BitMap_ok [of st] by blast
  obtain b1 where b1: "BitMap_Mark FreeMapSector b0 = Inr b1" "disk_map b1" "BitMap_bits b1 = {nat FreeMapSector}"
    using BitMap_Mark_spec [of b0 FreeMapSector] b0(2,3) by (auto simp: disk_map_def FreeMapSector_def NumSectors_eq)
  obtain b2 where b2: "BitMap_Mark DirectorySector b1 = Inr b2" "disk_map b2" "BitMap_bits b2 = {nat FreeMapSector, nat DirectorySector}"
    using BitMap_Mark_spec [of b1 DirectorySector] b1(2,3) by (auto simp: disk_map_def DirectorySector_def NumSectors_eq)
  moreover have "clear_count b2 = 1022" using b2(2,3) by (simp add: clear_count_def disk_map_def NumSectors_eq)
  ultimately show thesis using that b0(1) b1(1) by blast
qed

lemma format_headers:
  assumes "disk_map b" "clear_count b = 1022" "hdr_wf h1" "hdr_wf h2"
  obtains b' mh b'' dh where "FileHeader_Allocate b FreeMapFileSize h1 = Inr (True, b', mh)" "FileHeader_Allocate b' DirectoryFileSize h2 = Inr (True, b'', dh)"
    "hdr_ok mh" "hdr_ok dh" "numBytes mh = FreeMapFileSize" "numBytes dh = DirectoryFileSize" "disk_map b''"
    "nat ` set (file_sectors mh) \<inter> BitMap_bits b = {}" "nat ` set (file_sectors dh) \<inter> (BitMap_bits b \<union> nat ` set (file_sectors mh)) = {}"
    "BitMap_bits b'' = BitMap_bits b \<union> nat ` set (file_sectors mh) \<union> nat ` set (file_sectors dh)"
proof -
  obtain b' mh where m: "FileHeader_Allocate b FreeMapFileSize h1 = Inr (True, b', mh)" "hdr_ok mh" "numBytes mh = FreeMapFileSize" "BitMap_inv b'"
      "BitMap_size b' = BitMap_size b" "nat ` set (file_sectors mh) \<inter> BitMap_bits b = {}" "BitMap_bits b' = BitMap_bits b \<union> nat ` set (file_sectors mh)"
    using Allocate_ok [OF _ _ assms(3) system_sizes(5,3), of b] assms(1,2) system_sizes(1) by (auto simp: disk_map_def NumDirect_def SectorSize_def)
  have "length (file_sectors mh) = 1" using length_file_sectors [OF m(2)] m(2,3) system_sizes(1) by (simp add: hdr_ok_def sectors_needed_def)
  then have "card (BitMap_bits b') \<le> card (BitMap_bits b) + 1"
    unfolding m(7) by (intro order.trans [OF card_Un_le]) (metis add_left_mono card_image_le card_length finite_set order.trans)
  then have "2 \<le> clear_count b'" using assms(2) m(5) by (simp add: clear_count_def)
  then obtain b'' dh where "FileHeader_Allocate b' DirectoryFileSize h2 = Inr (True, b'', dh)" "hdr_ok dh" "numBytes dh = DirectoryFileSize" "BitMap_inv b''"
      "BitMap_size b'' = BitMap_size b'" "nat ` set (file_sectors dh) \<inter> BitMap_bits b' = {}" "BitMap_bits b'' = BitMap_bits b' \<union> nat ` set (file_sectors dh)"
    using Allocate_ok [OF m(4) _ assms(4) system_sizes(6,4)] m(5) assms(1) system_sizes(2) by (auto simp: disk_map_def NumDirect_def SectorSize_def)
  then show thesis using that [of b' mh b'' dh] m assms(1) by (simp add: disk_map_def)
qed

lemma format_ok:
  assumes "disk_quiet st"
  shows "\<exists>fs st'. FileSystem_new True st = Inr (fs, st') \<and> fs_holds fs Map.empty st'"
proof -
  obtain b0 b1 b2 where b: "new_BitMap st = Inr b0" "BitMap_Mark FreeMapSector b0 = Inr b1" "BitMap_Mark DirectorySector b1 = Inr b2"
      "disk_map b2" "BitMap_bits b2 = {nat FreeMapSector, nat DirectorySector}" "clear_count b2 = 1022" by (rule format_marks)
  obtain b3 mh b4 dh where h: "FileHeader_Allocate b2 FreeMapFileSize (FileHeader_new st) = Inr (True, b3, mh)" "FileHeader_Allocate b3 DirectoryFileSize (FileHeader_new st) = Inr (True, b4, dh)"
      "hdr_ok mh" "hdr_ok dh" "numBytes mh = FreeMapFileSize" "numBytes dh = DirectoryFileSize" "disk_map b4"
      "nat ` set (file_sectors mh) \<inter> BitMap_bits b2 = {}" "nat ` set (file_sectors dh) \<inter> (BitMap_bits b2 \<union> nat ` set (file_sectors mh)) = {}"
      "BitMap_bits b4 = BitMap_bits b2 \<union> nat ` set (file_sectors mh) \<union> nat ` set (file_sectors dh)"
    by (rule format_headers [OF b(4,6) FileHeader_new_ok FileHeader_new_ok])
  have wf: "hdr_wf mh" "hdr_wf dh" using h(3,4) by (simp_all add: hdr_ok_def)
  obtain st1 where s1: "FileHeader_WriteBack FreeMapSector mh st = Inr st1" "disk_quiet st1" "hdr_at st1 FreeMapSector = mh"
    using FileHeader_WriteBack_ok [OF assms system_sectors(1) wf(1)] by blast
  obtain st2 where s2: "FileHeader_WriteBack DirectorySector dh st1 = Inr st2" "disk_quiet st2" "host_big st2 = host_big st1" "hdr_at st2 DirectorySector = dh"
      "\<forall>t. t \<noteq> nat DirectorySector \<longrightarrow> sectors st2 t = sectors st1 t"
    using FileHeader_WriteBack_ok [OF s1(2) system_sectors(2) wf(2)] by blast
  have m2: "hdr_at st2 FreeMapSector = mh" using s1(3) s2(3,5) hdr_at_cong [of st2 FreeMapSector st1] by simp
  obtain st3 where s3: "OpenFile_new FreeMapSector st2 = Inr (\<lparr>of_hdr = mh, seekPosition = 0\<rparr>, st3)" "unchanged st2 st3"
    using OpenFile_new_ok [OF s2(2) system_sectors(1)] m2 by (auto simp: unchanged_def)
  have d3: "hdr_at st3 DirectorySector = dh" "hdr_at st3 FreeMapSector = mh" "disk_quiet st3" using s2(4) m2 s3(2) by (simp_all add: hdr_at_def unchanged_def)
  obtain st4 where s4: "OpenFile_new DirectorySector st3 = Inr (\<lparr>of_hdr = dh, seekPosition = 0\<rparr>, st4)" "unchanged st3 st4"
    using OpenFile_new_ok [OF d3(3) system_sectors(2)] d3(1) by (auto simp: unchanged_def)
  define fs where "fs = \<lparr>freeMapFile = \<lparr>of_hdr = mh, seekPosition = 0\<rparr>, directoryFile = \<lparr>of_hdr = dh, seekPosition = 0\<rparr>\<rparr>"
  define D where "D = new_Directory st"
  note D = new_Directory_ok [of st, folded D_def]
  have sf: "sys_files fs" using h(3-6,9) by (auto simp: sys_files_def fs_def data_of_def)
  obtain st5 st6 where s6: "BitMap_WriteBack (freeMapFile fs) b4 st4 = Inr st5" "Directory_WriteBack (directoryFile fs) D st5 = Inr st6" "flushed fs b4 D st4 st6"
    using flush_map_dir [OF sf _ h(7) D(1), of st4] s4(2) by (auto simp: unchanged_def)
  have out: "nat FreeMapSector \<notin> data_of (freeMapFile fs) \<union> data_of (directoryFile fs)" "nat DirectorySector \<notin> data_of (freeMapFile fs) \<union> data_of (directoryFile fs)"
    using h(8,9) b(5) by (auto simp: fs_def data_of_def)
  have hd: "hdr_at st6 FreeMapSector = mh" "hdr_at st6 DirectorySector = dh"
    using out s6(3) d3(1,2) s4(2) by (simp_all add: hdr_at_def flushed_def unchanged_def)
  have hs: "heads D = {FreeMapSector, DirectorySector}" by (simp add: heads_def D(2))
  have "head_ok st6 FreeMapSector" "head_ok st6 DirectorySector" using out h(3,4) hd by (simp_all add: head_ok_def fs_def data_of_def)
  moreover have "own st6 FreeMapSector \<inter> own st6 DirectorySector = {}" using out h(9) b(5) hd by (auto simp: own_def fs_def data_of_def)
  ultimately have "heads_ok st6 (heads D)" by (auto simp: heads_ok_def hs)
  moreover have "BitMap_bits b4 = (\<Union>s \<in> heads D. own st6 s)" using h(10) b(5) hd by (auto simp: hs own_def)
  ultimately have "fs_rep fs b4 D st6" using s6(3) hd h(5,6,7) D by (simp add: fs_rep_def fs_def flushed_def)
  moreover have "files_of st6 D = Map.empty" by (simp add: files_of_def D(2))
  moreover have "FileSystem_new True st = Inr (fs, st6)"
    using b(1-3) h(1,2) s1(1) s2(1) s3(1) s4(1) s6(1,2) by (simp add: FileSystem_new_def format_disk_def fs_def D_def)
  ultimately show ?thesis using fs_holdsI by metis
qed

lemma mount_ok:
  assumes "fs_holds fs F st"
  shows "\<exists>fs' st'. FileSystem_new False st = Inr (fs', st') \<and> fs_holds fs' F st'"
proof -
  obtain B D where rep: "fs_rep fs B D st" and F: "F = files_of st D" using assms by (auto simp: fs_holds_def)
  obtain st1 where s1: "OpenFile_new FreeMapSector st = Inr (\<lparr>of_hdr = hdr_at st FreeMapSector, seekPosition = 0\<rparr>, st1)" "unchanged st st1"
    using OpenFile_new_ok [OF fs_repD(1) [OF rep] system_sectors(1)] by (auto simp: unchanged_def)
  obtain st2 where s2: "OpenFile_new DirectorySector st1 = Inr (\<lparr>of_hdr = hdr_at st1 DirectorySector, seekPosition = 0\<rparr>, st2)" "unchanged st1 st2"
    using OpenFile_new_ok [of st1 DirectorySector] s1(2) by (auto simp: unchanged_def)
  let ?fs = "\<lparr>freeMapFile = \<lparr>of_hdr = hdr_at st FreeMapSector, seekPosition = 0\<rparr>, directoryFile = \<lparr>of_hdr = hdr_at st1 DirectorySector, seekPosition = 0\<rparr>\<rparr>"
  have u: "unchanged st st2" using s1(2) s2(2) by (rule unchanged_trans)
  have "hdr_at st1 = hdr_at st" "hdr_at st2 = hdr_at st" using same_sectors [of st1 st] same_sectors [of st2 st] s1(2) u by (simp_all add: unchanged_def)
  then have "fs_rep ?fs B D st2" using unchanged_rep(1) [OF rep u] by (simp add: fs_rep_def)
  moreover have "FileSystem_new False st = Inr (?fs, st2)" using s1(1) s2(1) by (simp add: FileSystem_new_def)
  ultimately show ?thesis using fs_holdsI [of ?fs B D st2] F unchanged_rep(2) [OF rep u] by auto
qed

section \<open>Sequences of calls\<close>

text \<open>
  What a client does with a file system, and what it may expect: the abstract state is the map of
  file names to contents. A new file has the requested length and arbitrary bytes.
\<close>

datatype fs_call = CreateCall cstring int | RemoveCall cstring | WriteCall cstring int "byte list" | ReadCall cstring int int

datatype fs_result = Done bool | Count "int option" | Bytes "byte list option"

definition do_call :: "FileSystem \<Rightarrow> fs_call \<Rightarrow> ('c, 'z) DiskSys_scheme \<Rightarrow> (fs_result \<times> ('c, 'z) DiskSys_scheme) res" where
  "do_call fs c st = (case c of
     CreateCall name n \<Rightarrow> bindE (FileSystem_Create name n fs st) (\<lambda>(b, st). Inr (Done b, st))
   | RemoveCall name \<Rightarrow> bindE (FileSystem_Remove name fs st) (\<lambda>(b, st). Inr (Done b, st))
   | WriteCall name p data \<Rightarrow> bindE (FileSystem_Open name fs st) (\<lambda>(fo, st). case fo of
        None \<Rightarrow> Inr (Count None, st)
      | Some f \<Rightarrow> bindE (WriteAt data (int (length data)) p f st) (\<lambda>(r, st). Inr (Count (Some r), st)))
   | ReadCall name p n \<Rightarrow> bindE (FileSystem_Open name fs st) (\<lambda>(fo, st). case fo of
        None \<Rightarrow> Inr (Bytes None, st)
      | Some f \<Rightarrow> bindE (ReadAt n p f st) (\<lambda>(bs, st). Inr (Bytes (Some bs), st))))"

definition can_create :: "(cstring \<rightharpoonup> byte list) \<Rightarrow> cstring \<Rightarrow> int \<Rightarrow> bool" where
  "can_create F k n \<longleftrightarrow> F k = None \<and> card (dom F) < nat NumDirEntries \<and> Suc (sectors_needed n) \<le> fs_free F"

inductive fs_spec :: "fs_call \<Rightarrow> (cstring \<rightharpoonup> byte list) \<Rightarrow> fs_result \<Rightarrow> (cstring \<rightharpoonup> byte list) \<Rightarrow> bool" where
  create: "can_create F (name_key name) n \<Longrightarrow> length bs = nat n \<Longrightarrow> fs_spec (CreateCall name n) F (Done True) (F(name_key name \<mapsto> bs))"
| no_create: "\<not> can_create F (name_key name) n \<Longrightarrow> fs_spec (CreateCall name n) F (Done False) F"
| remove: "fs_spec (RemoveCall name) F (Done (F (name_key name) \<noteq> None)) (F(name_key name := None))"
| wrote: "F (name_key name) = Some bs \<Longrightarrow> r = max 0 (min (int (length data)) (int (length bs) - p)) \<Longrightarrow>
    fs_spec (WriteCall name p data) F (Count (Some r)) (F(name_key name \<mapsto> fill_buf (nat p) (take (nat r) data) bs))"
| no_write: "F (name_key name) = None \<Longrightarrow> fs_spec (WriteCall name p data) F (Count None) F"
| read_back: "F (name_key name) = Some bs \<Longrightarrow> fs_spec (ReadCall name p n) F (Bytes (Some (take (nat n) (drop (nat p) bs)))) F"
| no_read: "F (name_key name) = None \<Longrightarrow> fs_spec (ReadCall name p n) F (Bytes None) F"

inductive_cases create_specE: "fs_spec (CreateCall name n) F r F'"
inductive_cases write_specE: "fs_spec (WriteCall name p data) F r F'"
inductive_cases read_specE: "fs_spec (ReadCall name p n) F r F'"

fun call_ok :: "fs_call \<Rightarrow> bool" where
  "call_ok (CreateCall name n) = (cstring_ok name \<and> 0 \<le> n \<and> n \<le> int MaxFileSize)"
| "call_ok (RemoveCall name) = cstring_ok name"
| "call_ok (WriteCall name p data) = (cstring_ok name \<and> 0 \<le> p \<and> p + int (length data) < 2 ^ 31)"
| "call_ok (ReadCall name p n) = (cstring_ok name \<and> 0 \<le> p \<and> p + n < 2 ^ 31)"

lemma small_size: "0 \<le> n \<Longrightarrow> n \<le> int MaxFileSize \<Longrightarrow> int32 n \<and> sectors_needed n \<le> NumDirect"
  using divRoundUp_covers(2) [of n 128] by (simp add: int32_def MaxFileSize_def NumDirect_def SectorSize_def sectors_needed_def)

lemma open_file:
  assumes "fs_holds fs F st" "cstring_ok name" "F (name_key name) = Some bs"
  obtains f st' B D s where "FileSystem_Open name fs st = Inr (Some f, st')" "fs_rep fs B D st'" "F = files_of st' D"
    "dir_files D (name_key name) = Some s" "of_hdr f = hdr_at st' s" "content st' (of_hdr f) = bs" "hdr_ok (of_hdr f)" "numBytes (of_hdr f) = int (length bs)"
proof -
  obtain f st' B D s where o: "FileSystem_Open name fs st = Inr (Some f, st')" "fs_rep fs B D st'" "F = files_of st' D"
      "dir_files D (name_key name) = Some s" "of_hdr f = hdr_at st' s"
    using Open_ok [OF assms(1,2)] assms(3) by auto
  have "s \<in> heads D" using o(4) by (auto simp: heads_def ran_def)
  then have h: "hdr_ok (of_hdr f)" using heads_okD(2) [OF fs_repD(13) [OF o(2)]] o(5) by simp
  moreover have "content st' (of_hdr f) = bs" using assms(3) o(3,4,5) by (simp add: files_of_def)
  moreover from this have "numBytes (of_hdr f) = int (length bs)" using length_content [OF fs_repD(1) [OF o(2)] h] h by (simp add: hdr_ok_def)
  ultimately show thesis using that o by blast
qed

lemma open_absent:
  assumes "fs_holds fs F st" "cstring_ok name" "F (name_key name) = None"
  shows "\<exists>st'. FileSystem_Open name fs st = Inr (None, st') \<and> fs_holds fs F st'"
  using Open_ok [OF assms(1,2)] assms(3) by simp

lemma do_call_refines:
  assumes "fs_holds fs F st" "call_ok c"
  shows "\<exists>r F' st'. do_call fs c st = Inr (r, st') \<and> fs_spec c F r F' \<and> fs_holds fs F' st'"
proof (cases c)
  case (CreateCall name n)
  then have c: "cstring_ok name" "0 \<le> n" "int32 n" "sectors_needed n \<le> NumDirect" using assms(2) small_size [of n] by simp_all
  from Create_ok [OF assms(1) c(1-3)] c(4) show ?thesis unfolding CreateCall
    by (cases "can_create F (name_key name) n") (fastforce simp: create_spec_def can_create_def do_call_def intro: fs_spec.intros)+
next
  case (RemoveCall name)
  then show ?thesis
    using Remove_absent [OF assms(1), of name] Remove_present [OF assms(1), of name] fs_spec.remove [of name F] assms(2)
    by (cases "F (name_key name)") (fastforce simp: do_call_def fun_upd_idem)+
next
  case (WriteCall name p data)
  then have c: "cstring_ok name" "0 \<le> p" "p + int (length data) < 2 ^ 31" using assms(2) by simp_all
  show ?thesis
  proof (cases "F (name_key name)")
    case None
    then show ?thesis using open_absent [OF assms(1) c(1)] WriteCall by (fastforce simp: do_call_def intro: fs_spec.intros)
  next
    case (Some bs)
    obtain f st' B D s where o: "FileSystem_Open name fs st = Inr (Some f, st')" "fs_rep fs B D st'" "F = files_of st' D" "dir_files D (name_key name) = Some s"
        "of_hdr f = hdr_at st' s" "content st' (of_hdr f) = bs" "hdr_ok (of_hdr f)" "numBytes (of_hdr f) = int (length bs)"
      by (rule open_file [OF assms(1) c(1) Some])
    from write_file_rep [OF o(2,4,5) c(2) order.refl, of data] c(3) obtain r st'' where w: "WriteAt data (int (length data)) p f st' = Inr (r, st'')"
        "r = max 0 (min (int (length data)) (int (length bs) - p))" "fs_rep fs B D st''" "files_of st'' D = F(name_key name \<mapsto> fill_buf (nat p) (take (nat r) data) bs)"
      using o(3,6,8) by auto
    have "fs_spec c F (Count (Some r)) (files_of st'' D)" unfolding WriteCall w(4) using Some w(2) by (rule fs_spec.wrote)
    then show ?thesis using WriteCall o(1) w(1) fs_holdsI [OF w(3) refl] by (auto simp: do_call_def)
  qed
next
  case (ReadCall name p n)
  then have c: "cstring_ok name" "0 \<le> p" "p + n < 2 ^ 31" using assms(2) by simp_all
  show ?thesis
  proof (cases "F (name_key name)")
    case None
    then show ?thesis using open_absent [OF assms(1) c(1)] ReadCall by (fastforce simp: do_call_def intro: fs_spec.intros)
  next
    case (Some bs)
    obtain f st' B D s where o: "FileSystem_Open name fs st = Inr (Some f, st')" "fs_rep fs B D st'" "F = files_of st' D" "dir_files D (name_key name) = Some s"
        "of_hdr f = hdr_at st' s" "content st' (of_hdr f) = bs" "hdr_ok (of_hdr f)" "numBytes (of_hdr f) = int (length bs)"
      by (rule open_file [OF assms(1) c(1) Some])
    obtain st'' where r: "ReadAt n p f st' = Inr (take (nat n) (drop (nat p) bs), st'')" "unchanged st' st''"
      using ReadAt_content [OF fs_repD(1) [OF o(2)] o(7) c(2), of n] c(3) o(6) by (auto simp: unchanged_def)
    have "fs_holds fs F st''" using fs_holdsI [OF unchanged_rep(1) [OF o(2) r(2)]] unchanged_rep(2) [OF o(2) r(2)] o(3) by simp
    then show ?thesis using ReadCall o(1) r(1) fs_spec.read_back [of F name bs p n] Some by (auto simp: do_call_def)
  qed
qed

text \<open>A service that refines a specification call by call refines it along every sequence of calls.\<close>

fun run_all :: "('call \<Rightarrow> 's \<Rightarrow> ('r \<times> 's) res) \<Rightarrow> 'call list \<Rightarrow> 's \<Rightarrow> ('r list \<times> 's) res" where
  "run_all exec [] s = Inr ([], s)"
| "run_all exec (c # cs) s = bindE (exec c s) (\<lambda>(r, s). bindE (run_all exec cs s) (\<lambda>(rs, s). Inr (r # rs, s)))"

inductive spec_trace :: "('call \<Rightarrow> 'f \<Rightarrow> 'r \<Rightarrow> 'f \<Rightarrow> bool) \<Rightarrow> 'call list \<Rightarrow> 'f \<Rightarrow> 'r list \<Rightarrow> 'f \<Rightarrow> bool" for spec where
  Nil: "spec_trace spec [] F [] F"
| Cons: "spec c F r F' \<Longrightarrow> spec_trace spec cs F' rs F'' \<Longrightarrow> spec_trace spec (c # cs) F (r # rs) F''"

inductive_cases spec_trace_ConsE: "spec_trace spec (c # cs) F rs F'"
inductive_cases spec_trace_NilE: "spec_trace spec [] F rs F'"

locale call_service =
  fixes holds :: "'f \<Rightarrow> 's \<Rightarrow> bool"
    and spec :: "'call \<Rightarrow> 'f \<Rightarrow> 'r \<Rightarrow> 'f \<Rightarrow> bool"
    and ok :: "'call \<Rightarrow> bool"
    and exec :: "'call \<Rightarrow> 's \<Rightarrow> ('r \<times> 's) res"
  assumes exec_refines: "holds F s \<Longrightarrow> ok c \<Longrightarrow> \<exists>r F' s'. exec c s = Inr (r, s') \<and> spec c F r F' \<and> holds F' s'"
begin

lemma run_refines:
  assumes "holds F s" "\<forall>c \<in> set cs. ok c"
  shows "\<exists>rs F' s'. run_all exec cs s = Inr (rs, s') \<and> spec_trace spec cs F rs F' \<and> holds F' s'"
  using assms
proof (induction cs arbitrary: F s)
  case Nil
  then show ?case by (auto intro: spec_trace.Nil)
next
  case (Cons c cs)
  then obtain r F1 s1 where 1: "exec c s = Inr (r, s1)" "spec c F r F1" "holds F1 s1" using exec_refines [of F s c] by auto
  with Cons.IH [OF 1(3)] Cons.prems(2) obtain rs F' s' where "run_all exec cs s1 = Inr (rs, s')" "spec_trace spec cs F1 rs F'" "holds F' s'" by auto
  with 1 show ?case by (auto intro: spec_trace.Cons)
qed

end

interpretation file_system: call_service "fs_holds fs" fs_spec call_ok "do_call fs" for fs
  by unfold_locales (rule do_call_refines)

section \<open>Properties\<close>

text \<open>C5: The file system is a map from names to byte sequences. On a freshly formatted disk, any sequence of
  calls that create files of at most \<open>MaxFileSize\<close> bytes, remove, write and read files, at positions that are not negative and whose end is a number of
  31 bits (\<open>call_ok\<close>), runs without failure, and its results are those of the
  abstract map: Create succeeds exactly when the name is new, the directory has an entry left and the
  disk has room for header and data, writes and reads see one sequence of bytes per file, and no
  operation changes another file. Mounting the disk afterwards finds the same files.\<close>

theorem file_system_refines_map:
  assumes "disk_quiet st" "\<forall>c \<in> set cs. call_ok c"
  shows "\<exists>fs st1 rs F st2 fs' st3. FileSystem_new True st = Inr (fs, st1) \<and> run_all (do_call fs) cs st1 = Inr (rs, st2)
    \<and> spec_trace fs_spec cs Map.empty rs F \<and> fs_holds fs F st2
    \<and> FileSystem_new False st2 = Inr (fs', st3) \<and> fs_holds fs' F st3"
proof -
  obtain fs st1 where f: "FileSystem_new True st = Inr (fs, st1)" "fs_holds fs Map.empty st1" using format_ok [OF assms(1)] by blast
  obtain rs F st2 where r: "run_all (do_call fs) cs st1 = Inr (rs, st2)" "spec_trace fs_spec cs Map.empty rs F" "fs_holds fs F st2"
    using file_system.run_refines [OF f(2) assms(2)] by blast
  from f(1) r mount_ok [OF r(3)] show ?thesis by blast
qed

lemma one_file_free: "Suc (sectors_needed 3) \<le> fs_free Map.empty"
  by (simp add: fs_free_def sectors_needed_def SectorSize_def divRoundUp_nonneg)

theorem file_system_refines_map_witness:
  "\<exists>fs st1 st2. FileSystem_new True example_sys = Inr (fs, st1)
    \<and> run_all (do_call fs) [CreateCall [97] 3, WriteCall [97] 1 [7, 8, 9], ReadCall [97] 1 5] st1
      = Inr ([Done True, Count (Some 2), Bytes (Some [7, 8])], st2)"
proof -
  let ?cs = "[CreateCall [97] 3, WriteCall [97] 1 [7, 8, 9], ReadCall [97] 1 5]"
  have "\<forall>c \<in> set ?cs. call_ok c" by (simp add: cstring_ok_def MaxFileSize_def NumDirect_def SectorSize_def)
  from file_system_refines_map [OF example_sys_quiet this]
  obtain fs st1 rs F st2 where h: "FileSystem_new True example_sys = Inr (fs, st1)" "run_all (do_call fs) ?cs st1 = Inr (rs, st2)" "spec_trace fs_spec ?cs Map.empty rs F" by blast
  from h(3) obtain r1 F1 r2 F2 r3 where 1: "fs_spec (CreateCall [97] 3) Map.empty r1 F1" and 2: "fs_spec (WriteCall [97] 1 [7, 8, 9]) F1 r2 F2"
      and 3: "fs_spec (ReadCall [97] 1 5) F2 r3 F" and rs: "rs = [r1, r2, r3]"
    by (elim spec_trace_ConsE spec_trace_NilE) simp
  have key: "name_key [97] = [97]" by (simp add: name_key_def FileNameMaxLen_def)
  have "can_create Map.empty [97] 3" using one_file_free by (simp add: can_create_def NumDirEntries_def)
  then obtain bs where bs: "r1 = Done True" "F1 = [[97] \<mapsto> bs]" "length bs = 3" using 1 by (auto elim: create_specE simp: key)
  from 2 bs have w: "r2 = Count (Some 2)" "F2 = [[97] \<mapsto> fill_buf 1 [7, 8] bs]" by (auto elim!: write_specE simp: key)
  obtain a b c where "bs = [a, b, c]" using bs(3) by (auto simp: length_Suc_conv numeral_3_eq_3)
  with w(2) have "F2 = [[97] \<mapsto> [a, 7, 8]]" by (simp add: fill_buf_def)
  with 3 have "r3 = Bytes (Some [7, 8])" by (auto elim!: read_specE simp: key)
  then show ?thesis using h(1,2) rs bs(1) w(1) by auto
qed

text \<open>C38: A file of more than thirty sectors overruns the header. When the name is new, the directory has an entry
  left and the disk has room, but the size is above MaxFileSize, Create does not refuse: Allocate
  stores the thirty-first sector number behind the end of the array of the header.\<close>

theorem create_overruns_header:
  assumes "fs_holds fs F st" "cstring_ok name" "int32 n" "int MaxFileSize < n"
    and "F (name_key name) = None" "card (dom F) < nat NumDirEntries" "Suc (sectors_needed n) \<le> fs_free F"
  shows "FileSystem_Create name n fs st = Inl OutOfBounds"
proof -
  have "NumDirect < sectors_needed n"
    using divRoundUp_covers(1) [of n 128] assms(4) by (simp add: sectors_needed_def NumDirect_def SectorSize_def MaxFileSize_def)
  then show ?thesis using Create_ok [OF assms(1,2) _ assms(3)] assms(4-7) by (simp add: create_spec_def)
qed

theorem create_overruns_header_witness:
  "\<exists>fs st. FileSystem_new True example_sys = Inr (fs, st) \<and> FileSystem_Create [97] 3841 fs st = Inl OutOfBounds"
proof -
  obtain fs st where f: "FileSystem_new True example_sys = Inr (fs, st)" "fs_holds fs Map.empty st" using format_ok [OF example_sys_quiet] by blast
  have "cstring_ok [97]" "int32 3841" "int MaxFileSize < 3841" by (simp_all add: cstring_ok_def int32_def MaxFileSize_def NumDirect_def SectorSize_def)
  moreover have "Suc (sectors_needed 3841) \<le> fs_free Map.empty" by (simp add: fs_free_def sectors_needed_def SectorSize_def divRoundUp_nonneg)
  ultimately have "FileSystem_Create [97] 3841 fs st = Inl OutOfBounds"
    using create_overruns_header [OF f(2), of "[97]" 3841] by (simp add: NumDirEntries_def)
  then show ?thesis using f(1) by blast
qed

end
