(* ===== verification/FsTest.thy ===== *)
theory FsTest
  imports FileSysOps
begin

text \<open>
  The routines of \<^verbatim>\<open>filesys/fstest.cc\<close> on the file system: \<^verbatim>\<open>Copy\<close> of a UNIX file, \<^verbatim>\<open>Print\<close>, and the performance test. Instead of printing they
  return what they print.
\<close>

section \<open>The program\<close>


text \<open>What the routines print instead of doing their work.\<close>

datatype complaint = CouldntOpenInput | CouldntCreateOutput | UnableToOpen | UnableToCreate | UnableToWrite | UnableToRead | UnableToRemove





text \<open>The performance test writes, reads and removes a file.\<close>

definition TestFile :: cstring where
  "TestFile = map of_char ''TestFile''"

definition Contents :: "byte list" where
  "Contents = map of_char ''1234567890''"

fun FileWrite_loop :: "nat \<Rightarrow> OpenFile \<Rightarrow> ('c, 'z) DiskSys_scheme \<Rightarrow> (complaint option \<times> ('c, 'z) DiskSys_scheme) res" where
  "FileWrite_loop 0 f st = Inr (None, st)"
| "FileWrite_loop (Suc n) f st =
     bindE (OpenFile_Write Contents (int (length Contents)) f st) (\<lambda>(numBytes, f, st).
     if numBytes < 10 then Inr (Some UnableToWrite, st) else FileWrite_loop n f st)"

definition FileWrite :: "FileSystem \<Rightarrow> ('c, 'z) DiskSys_scheme \<Rightarrow> (complaint option \<times> ('c, 'z) DiskSys_scheme) res" where
  "FileWrite fs st =
     bindE (FileSystem_Create TestFile 0 fs st) (\<lambda>(created, st).
     if \<not> created then Inr (Some UnableToCreate, st)
     else bindE (FileSystem_Open TestFile fs st) (\<lambda>(openFile, st). case openFile of
            None \<Rightarrow> Inr (Some UnableToOpen, st)
          | Some f \<Rightarrow> FileWrite_loop 5000 f st))"

text \<open>\<^verbatim>\<open>Contents\<close> has no zero, so \<^verbatim>\<open>strncmp\<close> compares all of it.\<close>

fun FileRead_loop :: "nat \<Rightarrow> OpenFile \<Rightarrow> ('c, 'z) DiskSys_scheme \<Rightarrow> (complaint option \<times> ('c, 'z) DiskSys_scheme) res" where
  "FileRead_loop 0 f st = Inr (None, st)"
| "FileRead_loop (Suc n) f st =
     bindE (OpenFile_Read (int (length Contents)) f st) (\<lambda>(buffer, f, st).
     if length buffer < 10 \<or> buffer \<noteq> Contents then Inr (Some UnableToRead, st) else FileRead_loop n f st)"

definition FileRead :: "FileSystem \<Rightarrow> ('c, 'z) DiskSys_scheme \<Rightarrow> (complaint option \<times> ('c, 'z) DiskSys_scheme) res" where
  "FileRead fs st =
     bindE (FileSystem_Open TestFile fs st) (\<lambda>(openFile, st). case openFile of
       None \<Rightarrow> Inr (Some UnableToOpen, st)
     | Some f \<Rightarrow> FileRead_loop 5000 f st)"

definition PerformanceTest :: "FileSystem \<Rightarrow> ('c, 'z) DiskSys_scheme \<Rightarrow> (complaint option list \<times> ('c, 'z) DiskSys_scheme) res" where
  "PerformanceTest fs st =
     bindE (FileWrite fs st) (\<lambda>(w, st).
     bindE (FileRead fs st) (\<lambda>(r, st).
     bindE (FileSystem_Remove TestFile fs st) (\<lambda>(removed, st).
     Inr ([w, r, if removed then None else Some UnableToRemove], st))))"

section \<open>Copying and printing\<close>

lemma open_size:
  assumes "fs_rep fs B D st" "dir_files D k = Some s" "of_hdr f = hdr_at st s"
  shows "hdr_ok (of_hdr f)" "numBytes (of_hdr f) = int (length (content st (of_hdr f)))" "files_of st D k = Some (content st (of_hdr f))"
proof -
  have "s \<in> heads D" using assms(2) by (auto simp: heads_def ran_def)
  then show h: "hdr_ok (of_hdr f)" using heads_okD(2) [OF fs_repD(13) [OF assms(1)]] assms(3) by simp
  then show "numBytes (of_hdr f) = int (length (content st (of_hdr f)))" using length_content [OF fs_repD(1) [OF assms(1)] h] by (simp add: hdr_ok_def)
  show "files_of st D k = Some (content st (of_hdr f))" using assms(2,3) by (simp add: files_of_def)
qed


lemma Read_ok:
  assumes "fs_rep fs B D st" "dir_files D k = Some s" "of_hdr f = hdr_at st s" "seekPosition f = int p" "n \<le> 10"
  obtains st' where "OpenFile_Read (int n) f st = Inr (take n (drop p (content st (of_hdr f))), f\<lparr>seekPosition := int (p + length (take n (drop p (content st (of_hdr f)))))\<rparr>, st')"
    "unchanged st st'"
proof -
  have "int p < numBytes (of_hdr f) \<longrightarrow> int p + int n < 2 ^ 31"
    using hdr_size_small(1) [OF open_size(1) [OF assms(1-3)]] assms(5) by (simp add: MaxFileSize_def NumDirect_def SectorSize_def)
  from ReadAt_content [OF fs_repD(1) [OF assms(1)] open_size(1) [OF assms(1-3)] _ this] show thesis
    using that assms(4) by (auto simp: OpenFile_Read_def unchanged_def)
qed



lemma open_at_start:
  assumes "fs_holds fs F st" "cstring_ok name" "F (name_key name) = Some bs"
  obtains f st' B D s where "FileSystem_Open name fs st = Inr (Some f, st')" "fs_rep fs B D st'" "F = files_of st' D" "dir_files D (name_key name) = Some s"
    "of_hdr f = hdr_at st' s" "seekPosition f = int 0" "content st' (of_hdr f) = bs"
proof -
  obtain f st' B D s where o: "FileSystem_Open name fs st = Inr (Some f, st')" "fs_rep fs B D st'" "F = files_of st' D" "dir_files D (name_key name) = Some s"
      "of_hdr f = hdr_at st' s" "seekPosition f = 0"
    using Open_ok [OF assms(1,2)] assms(3) by auto
  then show thesis using that [of f st' B D s] open_size(3) [OF o(2,4,5)] assms(3) by simp
qed






section \<open>The performance test\<close>

text \<open>
  A file cannot grow, so the performance test, which creates an empty file, fails to write and to read it, as the comment at the top of
  \<^verbatim>\<open>fstest.cc\<close> says of the baseline system; the file is removed again and all others are as before.
\<close>

lemma TestFile_ok: "cstring_ok TestFile" "length Contents = 10"
  by code_simp+

lemma empty_file:
  assumes "fs_holds fs F st" "F (name_key TestFile) = Some []"
  obtains f st' where "FileSystem_Open TestFile fs st = Inr (Some f, st')"
    "\<exists>st''. FileWrite_loop (Suc n) f st' = Inr (Some UnableToWrite, st'') \<and> fs_holds fs F st''"
    "\<exists>st''. FileRead_loop (Suc n) f st' = Inr (Some UnableToRead, st'') \<and> fs_holds fs F st''"
proof -
  let ?k = "name_key TestFile"
  obtain f st1 B D s where o: "FileSystem_Open TestFile fs st = Inr (Some f, st1)" "fs_rep fs B D st1" "F = files_of st1 D" "dir_files D ?k = Some s"
      "of_hdr f = hdr_at st1 s" "seekPosition f = int 0" "content st1 (of_hdr f) = []"
    by (rule open_at_start [OF assms(1) TestFile_ok(1) assms(2)])
  have z: "numBytes (of_hdr f) = 0" using open_size(2) [OF o(2,4,5)] o(7) by simp
  obtain st2 where w: "WriteAt Contents 10 0 f st1 = Inr (0, st2)" "fs_rep fs B D st2" "files_of st2 D = (files_of st1 D)(?k \<mapsto> [])"
    using write_file_rep [OF o(2,4,5), of 0 10 Contents] z o(7) TestFile_ok(2) by (auto simp: fill_buf_def)
  have "files_of st2 D = F" using w(3) o(3) assms(2) by (simp add: fun_upd_idem)
  then have hw: "fs_holds fs F st2" using fs_holdsI [OF w(2)] by metis
  obtain st3 where r: "OpenFile_Read (int 10) f st1 = Inr ([], f\<lparr>seekPosition := int 0\<rparr>, st3)" "unchanged st1 st3"
    using Read_ok [OF o(2,4-6), of 10] o(7) by auto
  have hr: "fs_holds fs F st3" using fs_holdsI [OF unchanged_rep(1) [OF o(2) r(2)]] unchanged_rep(2) [OF o(2) r(2)] o(3) by simp
  show thesis by (rule that [OF o(1)]) (use w(1) hw r(1) hr o(6) TestFile_ok(2) in \<open>auto simp: OpenFile_Write_def\<close>)
qed

lemma performance_test_baseline:
  assumes "fs_holds fs F st" "can_create F (name_key TestFile) 0"
  shows "\<exists>st'. PerformanceTest fs st = Inr ([Some UnableToWrite, Some UnableToRead, None], st') \<and> fs_holds fs F st'"
proof -
  let ?k = "name_key TestFile"
  have "\<exists>st1 bs. FileSystem_Create TestFile 0 fs st = Inr (True, st1) \<and> length bs = nat 0 \<and> fs_holds fs (F(?k \<mapsto> bs)) st1"
    using Create_ok [OF assms(1) TestFile_ok(1), of 0] assms(2) small_size [of 0] by (auto simp: create_spec_def can_create_def)
  then obtain st1 where c: "FileSystem_Create TestFile 0 fs st = Inr (True, st1)" "fs_holds fs (F(?k \<mapsto> [])) st1" by auto
  obtain f st2 where o: "FileSystem_Open TestFile fs st1 = Inr (Some f, st2)" "\<exists>st''. FileWrite_loop (Suc 4999) f st2 = Inr (Some UnableToWrite, st'') \<and> fs_holds fs (F(?k \<mapsto> [])) st''"
    by (rule empty_file [OF c(2), of 4999]) simp_all
  then obtain st3 where w: "FileWrite fs st = Inr (Some UnableToWrite, st3)" "fs_holds fs (F(?k \<mapsto> [])) st3"
    using c(1) by (auto simp: FileWrite_def simp del: FileWrite_loop.simps)
  obtain f' st4 where o': "FileSystem_Open TestFile fs st3 = Inr (Some f', st4)" "\<exists>st''. FileRead_loop (Suc 4999) f' st4 = Inr (Some UnableToRead, st'') \<and> fs_holds fs (F(?k \<mapsto> [])) st''"
    by (rule empty_file [OF w(2), of 4999]) simp_all
  then obtain st5 where r: "FileRead fs st3 = Inr (Some UnableToRead, st5)" "fs_holds fs (F(?k \<mapsto> [])) st5"
    by (auto simp: FileRead_def simp del: FileRead_loop.simps)
  obtain st6 where "FileSystem_Remove TestFile fs st5 = Inr (True, st6)" "fs_holds fs (F(?k \<mapsto> [], ?k := None)) st6"
    using Remove_present [OF r(2) TestFile_ok(1)] by auto
  moreover have "F(?k \<mapsto> [], ?k := None) = F" using assms(2) by (auto simp: can_create_def fun_eq_iff)
  ultimately show ?thesis using w(1) r(1) by (simp add: PerformanceTest_def)
qed

end
