(* ===== verification/ElevatorProg.thy ===== *)
theory ElevatorProg
  imports NachosPrelude
begin

text \<open>
  The elevator of \<^verbatim>\<open>threads/elevator.cc\<close>: a manager thread moves the elevator, and every passenger is a
  thread that presses a button, waits on a condition variable until the elevator stops, gets in and
  gets out. What a thread does between taking and giving up the elevator lock, or one of the
  semaphores, is one operation here; the lock excludes the others meanwhile. The step relation
  \<^verbatim>\<open>elev_step\<close> has all interleavings of these operations.
\<close>

section \<open>State\<close>

text \<open>
  A passenger is a thread that runs \<^verbatim>\<open>Person\<close>. Its stage is where it is in that function: before it
  has pressed the button, on its way to the condition variable, asleep there, woken by a broadcast,
  and gone.
\<close>

datatype stage = PNew | PReady | PAsleep | PWoken | PLeft

record PersonThread =
  p_id :: int
  atFloor :: int
  toFloor :: int
  p_in :: bool
  p_stage :: stage

definition goingUp :: "PersonThread \<Rightarrow> bool" where
  "goingUp p \<longleftrightarrow> toFloor p \<ge> atFloor p"

text \<open>
  The manager thread: not started, holding the elevator lock, at a floor with the doors open, or
  stopped. At a floor it works with one of four pairs of queues.
\<close>

datatype queues = UpDownTo | DownUpTo | UpUpTo | DownDownTo

datatype manager = MStart | MHold | MDoors queues int bool bool | MDone

record Elev =
  numFloors :: int
  currentFloor :: int
  numPeopleIn :: int
  movingUp :: bool
  upQueue :: "int list"
  upToQueue :: "int list"
  downQueue :: "int list"
  downToQueue :: "int list"
  ev_id :: int
  ev_count :: int
  c_free :: bool
  manager :: manager
  people :: "PersonThread list"

section \<open>Operations\<close>

text \<open>\<^verbatim>\<open>Elevator\<close> allocates the queues without initialising them, from the values \<open>junk\<close>.\<close>

definition Elevator :: "(nat \<Rightarrow> nat \<Rightarrow> int) \<Rightarrow> int \<Rightarrow> Elev \<Rightarrow> Elev" where
  "Elevator junk n st =
     (if n \<le> 0 then st
      else let new = (\<lambda>k. map (junk k) [0..<nat (n + 1)]) in
        st\<lparr>numFloors := n, currentFloor := 1, numPeopleIn := 0, upQueue := new 0, upToQueue := new 1, downQueue := new 2, downToQueue := new 3,
          manager := MStart\<rparr>)"

definition generateID :: "Elev \<Rightarrow> int \<times> Elev" where
  "generateID st = (ev_id st + 1, st\<lparr>ev_id := ev_id st + 1\<rparr>)"

definition ArrivingGoingFromTo :: "int \<Rightarrow> int \<Rightarrow> Elev \<Rightarrow> Elev" where
  "ArrivingGoingFromTo a t st = (let (i, st) = generateID st in
     st\<lparr>people := people st @ [\<lparr>p_id = i, atFloor = a, toFloor = t, p_in = False, p_stage = PNew\<rparr>]\<rparr>)"

definition add_at :: "int \<Rightarrow> int \<Rightarrow> int list \<Rightarrow> (int list) res" where
  "add_at f d qs = (if 0 \<le> f then bindE (arr_get qs (nat f)) (\<lambda>v. arr_set qs (nat f) (v + d)) else Inl OutOfBounds)"

definition get_at :: "int \<Rightarrow> int list \<Rightarrow> int res" where
  "get_at f qs = (if 0 \<le> f then arr_get qs (nat f) else Inl OutOfBounds)"

definition set_person :: "nat \<Rightarrow> PersonThread \<Rightarrow> Elev \<Rightarrow> Elev" where
  "set_person i p st = st\<lparr>people := (people st)[i := p]\<rparr>"

text \<open>The parts of \<^verbatim>\<open>Person\<close>: pressing the button, one round of the loop after
  \<^verbatim>\<open>Wait\<close> has returned, and the end after the loop has been left.\<close>

definition Person_press :: "nat \<Rightarrow> Elev \<Rightarrow> Elev res" where
  "Person_press i st =
     (let p = people st ! i in
      bindE (if goingUp p then bindE (add_at (atFloor p) 1 (upQueue st)) (\<lambda>u. Inr (st\<lparr>upQueue := u\<rparr>))
             else bindE (add_at (atFloor p) 1 (downQueue st)) (\<lambda>d. Inr (st\<lparr>downQueue := d\<rparr>))) (\<lambda>st.
      Inr (set_person i (p\<lparr>p_stage := PReady\<rparr>) st)))"

definition Person_done :: "nat \<Rightarrow> PersonThread \<Rightarrow> Elev \<Rightarrow> Elev" where
  "Person_done i p st = set_person i (p\<lparr>p_in := False, p_stage := PLeft\<rparr>) (st\<lparr>ev_count := ev_count st + 1\<rparr>)"

definition Person_turn :: "nat \<Rightarrow> Elev \<Rightarrow> Elev res" where
  "Person_turn i st =
     (let p = people st ! i;
          readyEnter = (currentFloor st = atFloor p);
          readyLeave = (currentFloor st = toFloor p);
          capacity = (numPeopleIn st < 5);
          direction = (goingUp p \<and> movingUp st \<or> \<not> goingUp p \<and> \<not> movingUp st) in
      if atFloor p = toFloor p \<and> readyEnter then
        bindE (add_at (atFloor p) (-1) (upQueue st)) (\<lambda>u. Inr (Person_done i p (st\<lparr>upQueue := u\<rparr>)))
      else if \<not> p_in p \<and> readyEnter \<and> direction \<and> capacity then
        bindE (if goingUp p
               then bindE (add_at (toFloor p) 1 (upToQueue st)) (\<lambda>t. bindE (add_at (atFloor p) (-1) (upQueue st)) (\<lambda>u.
                 Inr (st\<lparr>upToQueue := t, upQueue := u\<rparr>)))
               else bindE (add_at (toFloor p) 1 (downToQueue st)) (\<lambda>t. bindE (add_at (atFloor p) (-1) (downQueue st)) (\<lambda>d.
                 Inr (st\<lparr>downToQueue := t, downQueue := d\<rparr>)))) (\<lambda>st.
        Inr (set_person i (p\<lparr>p_in := True, p_stage := PReady\<rparr>) (st\<lparr>numPeopleIn := numPeopleIn st + 1\<rparr>)))
      else if p_in p \<and> readyLeave then
        bindE (if goingUp p then bindE (add_at (toFloor p) (-1) (upToQueue st)) (\<lambda>t. Inr (st\<lparr>upToQueue := t\<rparr>))
               else bindE (add_at (toFloor p) (-1) (downToQueue st)) (\<lambda>t. Inr (st\<lparr>downToQueue := t\<rparr>))) (\<lambda>st.
        Inr (Person_done i p (st\<lparr>numPeopleIn := numPeopleIn st - 1\<rparr>)))
      else Inr (set_person i (p\<lparr>p_stage := PReady\<rparr>) st))"

text \<open>The parts of \<^verbatim>\<open>Manager\<close> and \<^verbatim>\<open>ManagerHelper\<close>: looking at the queues of a floor, one round
  with the doors open, which ends in a broadcast, and moving on.\<close>

fun in_queue :: "queues \<Rightarrow> Elev \<Rightarrow> int list" where
  "in_queue UpDownTo st = upQueue st" | "in_queue DownUpTo st = downQueue st" | "in_queue UpUpTo st = upQueue st" | "in_queue DownDownTo st = downQueue st"

fun out_queue :: "queues \<Rightarrow> Elev \<Rightarrow> int list" where
  "out_queue UpDownTo st = downToQueue st" | "out_queue DownUpTo st = upToQueue st" | "out_queue UpUpTo st = upToQueue st" | "out_queue DownDownTo st = downToQueue st"

definition check_floor :: "queues \<Rightarrow> int \<Rightarrow> Elev \<Rightarrow> Elev res" where
  "check_floor qs f st = bindE (get_at f (in_queue qs st)) (\<lambda>i. bindE (get_at f (out_queue qs st)) (\<lambda>out.
     Inr (st\<lparr>manager := MDoors qs f (i > 0 \<and> numPeopleIn st < 5) (out > 0)\<rparr>)))"

definition Manager_turn :: "Elev \<Rightarrow> Elev res" where
  "Manager_turn st =
     (let f = currentFloor st in
      if f = 1 then check_floor UpDownTo f (st\<lparr>movingUp := True\<rparr>)
      else if f = numFloors st then check_floor DownUpTo f (st\<lparr>movingUp := False\<rparr>)
      else if movingUp st then check_floor UpUpTo f st
      else check_floor DownDownTo f st)"

definition Broadcast_people :: "Elev \<Rightarrow> Elev" where
  "Broadcast_people st = st\<lparr>people := map (\<lambda>p. if p_stage p = PAsleep then p\<lparr>p_stage := PWoken\<rparr> else p) (people st)\<rparr>"

definition Doors_turn :: "queues \<Rightarrow> int \<Rightarrow> Elev \<Rightarrow> Elev res" where
  "Doors_turn qs f st = bindE (check_floor qs f st) (\<lambda>st. Inr (Broadcast_people st))"

definition Manager_move :: "Elev \<Rightarrow> Elev" where
  "Manager_move st =
     (let st = st\<lparr>currentFloor := (if movingUp st then currentFloor st + 1 else currentFloor st - 1)\<rparr> in
      if ev_id st = ev_count st then st\<lparr>c_free := False, manager := MDone\<rparr> else st\<lparr>manager := MHold\<rparr>)"

text \<open>
  The interleavings of manager and passengers. Each step is one of the sections above, which run
  under the elevator lock and the semaphores; a passenger needs the elevator lock, which the manager
  keeps while it is in \<open>MHold\<close>, and the semaphore \<open>c\<close> to count and to be counted.
\<close>

inductive elev_step :: "Elev \<Rightarrow> Elev \<Rightarrow> bool" where
  arrive: "c_free st \<Longrightarrow> 1 \<le> a \<Longrightarrow> a \<le> numFloors st \<Longrightarrow> 1 \<le> t \<Longrightarrow> t \<le> numFloors st \<Longrightarrow> elev_step st (ArrivingGoingFromTo a t st)"
| press: "i < length (people st) \<Longrightarrow> p_stage (people st ! i) = PNew \<Longrightarrow> Person_press i st = Inr st' \<Longrightarrow> elev_step st st'"
| wait: "i < length (people st) \<Longrightarrow> p_stage (people st ! i) = PReady \<Longrightarrow> manager st \<noteq> MHold \<Longrightarrow>
    elev_step st (set_person i ((people st ! i)\<lparr>p_stage := PAsleep\<rparr>) st)"
| turn: "i < length (people st) \<Longrightarrow> p_stage (people st ! i) = PWoken \<Longrightarrow> manager st \<noteq> MHold \<Longrightarrow> c_free st \<Longrightarrow>
    Person_turn i st = Inr st' \<Longrightarrow> elev_step st st'"
| start: "manager st = MStart \<Longrightarrow> elev_step st (st\<lparr>manager := MHold\<rparr>)"
| look: "manager st = MHold \<Longrightarrow> Manager_turn st = Inr st' \<Longrightarrow> elev_step st st'"
| doors: "manager st = MDoors qs f i out \<Longrightarrow> i \<or> out \<Longrightarrow> Doors_turn qs f st = Inr st' \<Longrightarrow> elev_step st st'"
| move: "manager st = MDoors qs f False False \<Longrightarrow> c_free st \<Longrightarrow> elev_step st (Manager_move st)"

inductive_cases elev_stepE: "elev_step st st'"

section \<open>Counting\<close>

definition people_num :: "(PersonThread \<Rightarrow> bool) \<Rightarrow> Elev \<Rightarrow> int" where
  "people_num P st = int (length (filter P (people st)))"

lemma length_filter_middle: "length (filter P (xs @ x # ys)) = length (filter P xs) + of_bool (P x) + length (filter P ys)"
  by simp

lemma people_num_set:
  assumes "i < length (people st)"
  shows "people_num P (set_person i p st) = people_num P st - of_bool (P (people st ! i)) + of_bool (P p)"
proof -
  let ?xs = "people st"
  have "length (filter P ?xs) = length (filter P (take i ?xs @ ?xs ! i # drop (Suc i) ?xs))"
    by (rule arg_cong [OF id_take_nth_drop [OF assms]])
  then show ?thesis
    by (simp only: people_num_def set_person_def Elev.select_convs Elev.update_convs upd_conv_take_nth_drop [OF assms] length_filter_middle) simp
qed

definition waits_at :: "bool \<Rightarrow> int \<Rightarrow> PersonThread \<Rightarrow> bool" where
  "waits_at up f p \<longleftrightarrow> p_stage p \<notin> {PNew, PLeft} \<and> \<not> p_in p \<and> goingUp p = up \<and> atFloor p = f"

definition rides_to :: "bool \<Rightarrow> int \<Rightarrow> PersonThread \<Rightarrow> bool" where
  "rides_to up f p \<longleftrightarrow> p_in p \<and> goingUp p = up \<and> toFloor p = f"

section \<open>The invariant\<close>

definition on_floors :: "Elev \<Rightarrow> int \<Rightarrow> bool" where
  "on_floors st f \<longleftrightarrow> 1 \<le> f \<and> f \<le> numFloors st"

definition shape_ok :: "Elev \<Rightarrow> bool" where
  "shape_ok st \<longleftrightarrow> 2 \<le> numFloors st \<and> on_floors st (currentFloor st)
     \<and> (\<forall>qs \<in> {upQueue st, upToQueue st, downQueue st, downToQueue st}. length qs = nat (numFloors st + 1))"

definition person_ok :: "Elev \<Rightarrow> PersonThread \<Rightarrow> bool" where
  "person_ok st p \<longleftrightarrow> on_floors st (atFloor p) \<and> on_floors st (toFloor p)
     \<and> (p_in p \<longrightarrow> p_stage p \<notin> {PNew, PLeft} \<and> atFloor p \<noteq> toFloor p)"

text \<open>The queues count the passengers who wait at a floor and who ride to a floor, in each direction, from the values \<open>J\<close> they start with.\<close>

definition queues_ok :: "(nat \<Rightarrow> nat \<Rightarrow> int) \<Rightarrow> Elev \<Rightarrow> bool" where
  "queues_ok J st \<longleftrightarrow> (\<forall>f. on_floors st f \<longrightarrow>
     upQueue st ! nat f = J 0 (nat f) + people_num (waits_at True f) st \<and> downQueue st ! nat f = J 2 (nat f) + people_num (waits_at False f) st
     \<and> upToQueue st ! nat f = J 1 (nat f) + people_num (rides_to True f) st \<and> downToQueue st ! nat f = J 3 (nat f) + people_num (rides_to False f) st)"

text \<open>Values that never make the manager overlook a passenger who wants to leave: the queues of destinations start with no negative value.\<close>

definition calm :: "(nat \<Rightarrow> nat \<Rightarrow> int) \<Rightarrow> bool" where
  "calm J \<longleftrightarrow> (\<forall>i. 0 \<le> J 1 i \<and> 0 \<le> J 3 i)"

definition counts_ok :: "Elev \<Rightarrow> bool" where
  "counts_ok st \<longleftrightarrow> numPeopleIn st = people_num p_in st \<and> numPeopleIn st \<le> 5 \<and> ev_id st = int (length (people st))
     \<and> ev_count st = people_num (\<lambda>p. p_stage p = PLeft) st"

text \<open>Nobody in the elevator has been carried past his floor, or in the wrong direction.\<close>

definition ride_ok :: "Elev \<Rightarrow> PersonThread \<Rightarrow> bool" where
  "ride_ok st p \<longleftrightarrow> (if goingUp p then currentFloor st \<le> toFloor p \<and> (movingUp st \<or> currentFloor st = numFloors st)
     else toFloor p \<le> currentFloor st \<and> (\<not> movingUp st \<or> currentFloor st = 1))"

definition queues_at :: "Elev \<Rightarrow> queues" where
  "queues_at st = (if currentFloor st = 1 then UpDownTo else if currentFloor st = numFloors st then DownUpTo else if movingUp st then UpUpTo else DownDownTo)"

definition manager_ok :: "(nat \<Rightarrow> nat \<Rightarrow> int) \<Rightarrow> Elev \<Rightarrow> bool" where
  "manager_ok J st \<longleftrightarrow> (c_free st \<longleftrightarrow> manager st \<noteq> MDone) \<and> (case manager st of
     MDoors qs f i out \<Rightarrow> f = currentFloor st \<and> qs = queues_at st \<and> (f = 1 \<longrightarrow> movingUp st) \<and> (f = numFloors st \<longrightarrow> \<not> movingUp st)
       \<and> (calm J \<longrightarrow> \<not> out \<longrightarrow> (\<forall>p \<in> set (people st). p_in p \<longrightarrow> toFloor p \<noteq> f))
   | MDone \<Rightarrow> ev_id st = ev_count st
   | _ \<Rightarrow> True)"

definition elev_inv :: "(nat \<Rightarrow> nat \<Rightarrow> int) \<Rightarrow> Elev \<Rightarrow> bool" where
  "elev_inv J st \<longleftrightarrow> shape_ok st \<and> (\<forall>p \<in> set (people st). person_ok st p \<and> (p_in p \<longrightarrow> calm J \<longrightarrow> ride_ok st p)) \<and> queues_ok J st \<and> counts_ok st \<and> manager_ok J st"

lemma elev_invD:
  assumes "elev_inv J st"
  shows "shape_ok st" "p \<in> set (people st) \<Longrightarrow> person_ok st p" "p \<in> set (people st) \<Longrightarrow> p_in p \<Longrightarrow> calm J \<Longrightarrow> ride_ok st p" "queues_ok J st" "counts_ok st" "manager_ok J st"
  using assms by (simp_all add: elev_inv_def)

lemma people_num_update [simp]:
  "people_num P (upQueue_update g st) = people_num P st" "people_num P (downQueue_update g st) = people_num P st"
  "people_num P (upToQueue_update g st) = people_num P st" "people_num P (downToQueue_update g st) = people_num P st"
  "people_num P (numPeopleIn_update h st) = people_num P st" "people_num P (ev_count_update h st) = people_num P st"
  "people_num P (ev_id_update h st) = people_num P st" "people_num P (movingUp_update b st) = people_num P st"
  "people_num P (currentFloor_update h st) = people_num P st" "people_num P (manager_update m st) = people_num P st" "people_num P (c_free_update b st) = people_num P st"
  by (simp_all add: people_num_def)

lemma set_person_fields [simp]:
  "numFloors (set_person i p st) = numFloors st" "currentFloor (set_person i p st) = currentFloor st" "numPeopleIn (set_person i p st) = numPeopleIn st"
  "movingUp (set_person i p st) = movingUp st" "upQueue (set_person i p st) = upQueue st" "upToQueue (set_person i p st) = upToQueue st"
  "downQueue (set_person i p st) = downQueue st" "downToQueue (set_person i p st) = downToQueue st" "ev_id (set_person i p st) = ev_id st"
  "ev_count (set_person i p st) = ev_count st" "c_free (set_person i p st) = c_free st" "manager (set_person i p st) = manager st"
  "people (set_person i p st) = (people st)[i := p]"
  by (simp_all add: set_person_def)

definition bump :: "int \<Rightarrow> int \<Rightarrow> int list \<Rightarrow> int list" where
  "bump f d qs = qs[nat f := qs ! nat f + d]"

lemma add_at_ok: "0 \<le> f \<Longrightarrow> nat f < length qs \<Longrightarrow> add_at f d qs = Inr (bump f d qs)"
  by (simp add: add_at_def bump_def)

lemma length_bump [simp]: "length (bump f d qs) = length qs"
  by (simp add: bump_def)

lemma nth_bump: "0 \<le> f \<Longrightarrow> nat f < length qs \<Longrightarrow> 0 \<le> g \<Longrightarrow> nat g < length qs \<Longrightarrow> bump f d qs ! nat g = qs ! nat g + (if g = f then d else 0)"
  by (simp add: bump_def nth_list_update eq_nat_nat_iff)

lemma floor_index:
  assumes "shape_ok st" "on_floors st f"
  shows "0 \<le> f" "nat f < length (upQueue st)" "nat f < length (upToQueue st)" "nat f < length (downQueue st)" "nat f < length (downToQueue st)"
  using assms by (auto simp: shape_ok_def on_floors_def)

lemma add_floor:
  assumes "shape_ok st" "on_floors st f"
  shows "add_at f d (upQueue st) = Inr (bump f d (upQueue st))" "add_at f d (upToQueue st) = Inr (bump f d (upToQueue st))"
    and "add_at f d (downQueue st) = Inr (bump f d (downQueue st))" "add_at f d (downToQueue st) = Inr (bump f d (downToQueue st))"
  using floor_index [OF assms] by (simp_all add: add_at_ok)

lemma nth_bump_floor:
  assumes "shape_ok st" "on_floors st f" "on_floors st g"
  shows "bump f d (upQueue st) ! nat g = upQueue st ! nat g + (if g = f then d else 0)" "bump f d (upToQueue st) ! nat g = upToQueue st ! nat g + (if g = f then d else 0)"
    and "bump f d (downQueue st) ! nat g = downQueue st ! nat g + (if g = f then d else 0)" "bump f d (downToQueue st) ! nat g = downToQueue st ! nat g + (if g = f then d else 0)"
  using floor_index [OF assms(1,2)] floor_index [OF assms(1,3)] by (simp_all add: nth_bump)

text \<open>A step of one passenger, who changes to \<open>p'\<close>, with the queues and counters adjusted accordingly.\<close>

definition passenger_step :: "nat \<Rightarrow> PersonThread \<Rightarrow> Elev \<Rightarrow> Elev \<Rightarrow> bool" where
  "passenger_step i p' st st' \<longleftrightarrow> i < length (people st) \<and> people st' = (people st)[i := p'] \<and> numFloors st' = numFloors st \<and> currentFloor st' = currentFloor st
     \<and> movingUp st' = movingUp st \<and> ev_id st' = ev_id st \<and> c_free st' = c_free st \<and> manager st' = manager st
     \<and> atFloor p' = atFloor (people st ! i) \<and> toFloor p' = toFloor (people st ! i)
     \<and> length (upQueue st') = length (upQueue st) \<and> length (upToQueue st') = length (upToQueue st)
     \<and> length (downQueue st') = length (downQueue st) \<and> length (downToQueue st') = length (downToQueue st)
     \<and> numPeopleIn st' = numPeopleIn st - of_bool (p_in (people st ! i)) + of_bool (p_in p')
     \<and> ev_count st' = ev_count st - of_bool (p_stage (people st ! i) = PLeft) + of_bool (p_stage p' = PLeft)
     \<and> (\<forall>f. on_floors st f \<longrightarrow>
          upQueue st' ! nat f = upQueue st ! nat f - of_bool (waits_at True f (people st ! i)) + of_bool (waits_at True f p')
        \<and> downQueue st' ! nat f = downQueue st ! nat f - of_bool (waits_at False f (people st ! i)) + of_bool (waits_at False f p')
        \<and> upToQueue st' ! nat f = upToQueue st ! nat f - of_bool (rides_to True f (people st ! i)) + of_bool (rides_to True f p')
        \<and> downToQueue st' ! nat f = downToQueue st ! nat f - of_bool (rides_to False f (people st ! i)) + of_bool (rides_to False f p'))"

lemma people_num_step: "passenger_step i p' st st' \<Longrightarrow> people_num P st' = people_num P st - of_bool (P (people st ! i)) + of_bool (P p')"
  using people_num_set [of i st P p'] by (simp add: passenger_step_def people_num_def)

lemma passenger_step_inv:
  assumes inv: "elev_inv J st" and step: "passenger_step i p' st st'"
    and p': "p_in p' \<longrightarrow> p_stage p' \<notin> {PNew, PLeft} \<and> atFloor p' \<noteq> toFloor p' \<and> (calm J \<longrightarrow> ride_ok st p') \<and> (p_in (people st ! i) \<or> toFloor p' \<noteq> currentFloor st)"
    and room: "p_in p' \<longrightarrow> p_in (people st ! i) \<or> numPeopleIn st < 5" and c: "p_stage (people st ! i) \<noteq> PLeft" "p_stage p' \<noteq> PLeft \<or> c_free st"
  shows "elev_inv J st'"
proof -
  note d = elev_invD [OF inv] and s = step [unfolded passenger_step_def] and n = people_num_step [OF step]
  have i: "people st ! i \<in> set (people st)" using s by simp
  have floors: "on_floors st' f = on_floors st f" for f using s by (simp add: on_floors_def)
  have set': "set (people st') \<subseteq> insert p' (set (people st))" using s by (simp add: set_update_subset_insert)
  have same: "person_ok st' p = person_ok st p" "ride_ok st' p = ride_ok st p" for p using s floors by (simp_all add: person_ok_def ride_ok_def)
  have new: "person_ok st p'" "p_in p' \<longrightarrow> calm J \<longrightarrow> ride_ok st p'" using p' d(2) [OF i] s by (auto simp: person_ok_def)
  have "shape_ok st'" using d(1) s floors by (auto simp: shape_ok_def)
  moreover have "\<forall>p \<in> set (people st'). person_ok st' p \<and> (p_in p \<longrightarrow> calm J \<longrightarrow> ride_ok st' p)" using set' new d(2,3) same by auto
  moreover have "queues_ok J st'" using d(4) s unfolding queues_ok_def floors n by simp
  moreover have "counts_ok st'" using d(5) s room unfolding counts_ok_def n by auto
  moreover have "manager_ok J st'"
  proof (cases "manager st")
    case (MDoors qs f a b)
    have "p_in p' \<longrightarrow> toFloor p' \<noteq> f" if "\<not> b" "calm J"
      using that p' d(6) s i MDoors by (auto simp: manager_ok_def)
    then show ?thesis using d(6) s set' MDoors by (auto simp: manager_ok_def queues_at_def)
  qed (use d(6) s c in \<open>auto simp: manager_ok_def split: if_splits\<close>)
  ultimately show ?thesis by (simp add: elev_inv_def)
qed

section \<open>The steps keep the invariant\<close>

lemma press_step:
  assumes inv: "elev_inv J st" and i: "i < length (people st)" "p_stage (people st ! i) = PNew"
  shows "\<exists>st'. Person_press i st = Inr st' \<and> elev_inv J st'"
proof -
  let ?p = "people st ! i" and ?p' = "(people st ! i)\<lparr>p_stage := PReady\<rparr>"
  note d = elev_invD [OF inv]
  have p: "on_floors st (atFloor ?p)" "\<not> p_in ?p" using d(2) [of ?p] i by (auto simp: person_ok_def)
  note idx = add_floor [OF d(1) p(1)] and nth = nth_bump_floor [OF d(1) p(1)]
  define st' where "st' = set_person i ?p' (if goingUp ?p then st\<lparr>upQueue := bump (atFloor ?p) 1 (upQueue st)\<rparr> else st\<lparr>downQueue := bump (atFloor ?p) 1 (downQueue st)\<rparr>)"
  have "Person_press i st = Inr st'" by (simp add: Person_press_def st'_def idx Let_def)
  moreover have "passenger_step i ?p' st st'"
    using i p by (auto simp: passenger_step_def st'_def waits_at_def rides_to_def goingUp_def nth)
  then have "elev_inv J st'" by (rule passenger_step_inv [OF inv]) (use p i in auto)
  ultimately show ?thesis by blast
qed

lemma wait_step:
  assumes inv: "elev_inv J st" and i: "i < length (people st)" "p_stage (people st ! i) = PReady"
  shows "elev_inv J (set_person i ((people st ! i)\<lparr>p_stage := PAsleep\<rparr>) st)"
proof (rule passenger_step_inv [OF inv])
  let ?p = "people st ! i"
  have "p_in ?p \<longrightarrow> atFloor ?p \<noteq> toFloor ?p \<and> (calm J \<longrightarrow> ride_ok st ?p)" using elev_invD(2,3) [OF inv, of ?p] i by (auto simp: person_ok_def)
  then show "p_in (?p\<lparr>p_stage := PAsleep\<rparr>) \<longrightarrow> p_stage (?p\<lparr>p_stage := PAsleep\<rparr>) \<notin> {PNew, PLeft} \<and> atFloor (?p\<lparr>p_stage := PAsleep\<rparr>) \<noteq> toFloor (?p\<lparr>p_stage := PAsleep\<rparr>)
      \<and> (calm J \<longrightarrow> ride_ok st (?p\<lparr>p_stage := PAsleep\<rparr>)) \<and> (p_in ?p \<or> toFloor (?p\<lparr>p_stage := PAsleep\<rparr>) \<noteq> currentFloor st)"
    by (auto simp: ride_ok_def goingUp_def)
qed (use i in \<open>auto simp: passenger_step_def waits_at_def rides_to_def goingUp_def\<close>)

text \<open>The four outcomes of a round of a passenger.\<close>

lemma turn_facts:
  assumes inv: "elev_inv J st" and i: "i < length (people st)"
  shows "on_floors st (atFloor (people st ! i))" "on_floors st (toFloor (people st ! i))"
    "p_in (people st ! i) \<longrightarrow> atFloor (people st ! i) \<noteq> toFloor (people st ! i) \<and> (calm J \<longrightarrow> ride_ok st (people st ! i))"
  using elev_invD(2,3) [OF inv, of "people st ! i"] i by (auto simp: person_ok_def)

lemma turn_same_floor:
  assumes inv: "elev_inv J st" and i: "i < length (people st)" "p_stage (people st ! i) = PWoken" "c_free st"
    and here: "atFloor (people st ! i) = toFloor (people st ! i)" "currentFloor st = atFloor (people st ! i)"
  shows "\<exists>st'. Person_turn i st = Inr st' \<and> elev_inv J st'"
proof -
  let ?p = "people st ! i"
  note p = turn_facts [OF inv i(1)] and d = elev_invD [OF inv]
  define st1 where "st1 = st\<lparr>upQueue := bump (atFloor ?p) (-1) (upQueue st)\<rparr>"
  have up: "goingUp ?p" "\<not> p_in ?p" using here p(3) by (auto simp: goingUp_def)
  have "Person_turn i st = Inr (Person_done i ?p st1)" using here add_floor [OF d(1) p(1)] by (simp add: Person_turn_def st1_def Let_def)
  moreover have "passenger_step i (?p\<lparr>p_in := False, p_stage := PLeft\<rparr>) st (Person_done i ?p st1)"
    using i up by (auto simp: passenger_step_def Person_done_def st1_def waits_at_def rides_to_def goingUp_def nth_bump_floor [OF d(1) p(1)])
  then have "elev_inv J (Person_done i ?p st1)" by (rule passenger_step_inv [OF inv]) (use i in auto)
  ultimately show ?thesis by blast
qed

lemma turn_enter:
  assumes inv: "elev_inv J st" and i: "i < length (people st)" "p_stage (people st ! i) = PWoken"
    and here: "atFloor (people st ! i) \<noteq> toFloor (people st ! i)" "currentFloor st = atFloor (people st ! i)" "\<not> p_in (people st ! i)"
    and dir: "goingUp (people st ! i) = movingUp st" "numPeopleIn st < 5"
  shows "\<exists>st'. Person_turn i st = Inr st' \<and> elev_inv J st'"
proof -
  let ?p = "people st ! i" and ?p' = "(people st ! i)\<lparr>p_in := True, p_stage := PReady\<rparr>"
  note p = turn_facts [OF inv i(1)] and d = elev_invD [OF inv]
  note idx = add_floor [OF d(1) p(1)] add_floor [OF d(1) p(2)] and nth = nth_bump_floor [OF d(1) p(1)] nth_bump_floor [OF d(1) p(2)]
  define st2 where "st2 = (if goingUp ?p then st\<lparr>upToQueue := bump (toFloor ?p) 1 (upToQueue st), upQueue := bump (atFloor ?p) (-1) (upQueue st)\<rparr>
     else st\<lparr>downToQueue := bump (toFloor ?p) 1 (downToQueue st), downQueue := bump (atFloor ?p) (-1) (downQueue st)\<rparr>)\<lparr>numPeopleIn := numPeopleIn st + 1\<rparr>"
  have "Person_turn i st = Inr (set_person i ?p' st2)" using here dir by (auto simp: Person_turn_def st2_def Let_def idx)
  moreover have "passenger_step i ?p' st (set_person i ?p' st2)"
    using i here dir by (auto simp: passenger_step_def st2_def waits_at_def rides_to_def goingUp_def nth)
  then have "elev_inv J (set_person i ?p' st2)"
  proof (rule passenger_step_inv [OF inv])
    have "ride_ok st ?p'" using here dir p by (auto simp: ride_ok_def goingUp_def on_floors_def)
    then show "p_in ?p' \<longrightarrow> p_stage ?p' \<notin> {PNew, PLeft} \<and> atFloor ?p' \<noteq> toFloor ?p' \<and> (calm J \<longrightarrow> ride_ok st ?p') \<and> (p_in ?p \<or> toFloor ?p' \<noteq> currentFloor st)"
      using here by auto
  qed (use dir i in auto)
  ultimately show ?thesis by blast
qed

lemma turn_leave:
  assumes inv: "elev_inv J st" and i: "i < length (people st)" "p_stage (people st ! i) = PWoken" "c_free st"
    and here: "p_in (people st ! i)" "currentFloor st = toFloor (people st ! i)"
  shows "\<exists>st'. Person_turn i st = Inr st' \<and> elev_inv J st'"
proof -
  let ?p = "people st ! i"
  note p = turn_facts [OF inv i(1)] and d = elev_invD [OF inv]
  define st3 where "st3 = (if goingUp ?p then st\<lparr>upToQueue := bump (toFloor ?p) (-1) (upToQueue st)\<rparr>
     else st\<lparr>downToQueue := bump (toFloor ?p) (-1) (downToQueue st)\<rparr>)\<lparr>numPeopleIn := numPeopleIn st - 1\<rparr>"
  have "Person_turn i st = Inr (Person_done i ?p st3)" using here p(3) by (auto simp: Person_turn_def st3_def Let_def add_floor [OF d(1) p(2)])
  moreover have "passenger_step i (?p\<lparr>p_in := False, p_stage := PLeft\<rparr>) st (Person_done i ?p st3)"
    using i here by (auto simp: passenger_step_def Person_done_def st3_def waits_at_def rides_to_def goingUp_def nth_bump_floor [OF d(1) p(2)])
  then have "elev_inv J (Person_done i ?p st3)" by (rule passenger_step_inv [OF inv]) (use i in auto)
  ultimately show ?thesis by blast
qed

lemma turn_step:
  assumes inv: "elev_inv J st" and i: "i < length (people st)" "p_stage (people st ! i) = PWoken" "c_free st"
  shows "\<exists>st'. Person_turn i st = Inr st' \<and> elev_inv J st'"
proof -
  let ?p = "people st ! i" and ?p' = "(people st ! i)\<lparr>p_stage := PReady\<rparr>"
  consider "atFloor ?p = toFloor ?p" "currentFloor st = atFloor ?p"
    | "atFloor ?p \<noteq> toFloor ?p" "currentFloor st = atFloor ?p" "\<not> p_in ?p" "goingUp ?p = movingUp st" "numPeopleIn st < 5"
    | "p_in ?p" "currentFloor st = toFloor ?p"
    | "\<not> (atFloor ?p = toFloor ?p \<and> currentFloor st = atFloor ?p)" "\<not> (\<not> p_in ?p \<and> currentFloor st = atFloor ?p \<and> goingUp ?p = movingUp st \<and> numPeopleIn st < 5)"
      "\<not> (p_in ?p \<and> currentFloor st = toFloor ?p)" by blast
  then show ?thesis
  proof cases
    case 4
    have "(goingUp ?p \<and> movingUp st \<or> \<not> goingUp ?p \<and> \<not> movingUp st) = (goingUp ?p = movingUp st)" by blast
    then have "Person_turn i st = Inr (set_person i ?p' st)" unfolding Person_turn_def Let_def by (simp only: 4 if_False)
    moreover have "passenger_step i ?p' st (set_person i ?p' st)"
      using i by (auto simp: passenger_step_def waits_at_def rides_to_def goingUp_def)
    then have "elev_inv J (set_person i ?p' st)"
      by (rule passenger_step_inv [OF inv]) (use turn_facts(3) [OF inv i(1)] i in \<open>auto simp: ride_ok_def goingUp_def\<close>)
    ultimately show ?thesis by blast
  qed (use turn_same_floor [OF inv i] turn_enter [OF inv i(1,2)] turn_leave [OF inv i] in blast)+
qed

lemma arrive_step:
  assumes inv: "elev_inv J st" and "c_free st" "on_floors st a" "on_floors st t"
  shows "elev_inv J (ArrivingGoingFromTo a t st)"
proof -
  note d = elev_invD [OF inv]
  let ?st = "ArrivingGoingFromTo a t st" and ?p = "\<lparr>p_id = ev_id st + 1, atFloor = a, toFloor = t, p_in = False, p_stage = PNew\<rparr>"
  have e: "?st = st\<lparr>ev_id := ev_id st + 1, people := people st @ [?p]\<rparr>" by (simp add: ArrivingGoingFromTo_def generateID_def)
  have n: "people_num P ?st = people_num P st + of_bool (P ?p)" for P by (simp add: e people_num_def)
  have floors: "on_floors ?st f = on_floors st f" for f by (simp add: e on_floors_def)
  have same: "person_ok ?st p = person_ok st p" "ride_ok ?st p = ride_ok st p" for p using floors by (simp_all add: person_ok_def ride_ok_def e)
  have "shape_ok ?st" using d(1) floors by (simp add: shape_ok_def e)
  moreover have "\<forall>p \<in> set (people ?st). person_ok ?st p \<and> (p_in p \<longrightarrow> calm J \<longrightarrow> ride_ok ?st p)"
    unfolding same using d(2,3) assms(3,4) by (auto simp: e person_ok_def)
  moreover have "queues_ok J ?st" using d(4) unfolding queues_ok_def floors n by (simp add: e waits_at_def rides_to_def)
  moreover have "counts_ok ?st" using d(5) unfolding counts_ok_def n by (simp add: e)
  moreover have "manager_ok J ?st" using d(6) assms(2) by (auto simp: manager_ok_def e queues_at_def split: manager.splits)
  ultimately show ?thesis by (simp add: elev_inv_def)
qed

lemma people_num_none: "\<not> people_num P st > 0 \<Longrightarrow> p \<in> set (people st) \<Longrightarrow> \<not> P p"
  by (auto simp: people_num_def filter_empty_conv)

lemma manager_update_simps [simp]:
  "shape_ok (st\<lparr>manager := m\<rparr>) = shape_ok st" "person_ok (st\<lparr>manager := m\<rparr>) p = person_ok st p" "ride_ok (st\<lparr>manager := m\<rparr>) p = ride_ok st p"
  "queues_ok J (st\<lparr>manager := m\<rparr>) = queues_ok J st" "counts_ok (st\<lparr>manager := m\<rparr>) = counts_ok st"
  "shape_ok (st\<lparr>c_free := b\<rparr>) = shape_ok st" "person_ok (st\<lparr>c_free := b\<rparr>) p = person_ok st p" "ride_ok (st\<lparr>c_free := b\<rparr>) p = ride_ok st p"
  "queues_ok J (st\<lparr>c_free := b\<rparr>) = queues_ok J st" "counts_ok (st\<lparr>c_free := b\<rparr>) = counts_ok st"
  by (simp_all add: shape_ok_def on_floors_def person_ok_def ride_ok_def queues_ok_def counts_ok_def)

lemma set_manager_inv: "elev_inv J st \<Longrightarrow> manager_ok J (st\<lparr>manager := m\<rparr>) \<Longrightarrow> elev_inv J (st\<lparr>manager := m\<rparr>)"
  by (simp add: elev_inv_def)

text \<open>The direction in which the riders who want to leave at the current floor have come.\<close>

lemma leaver_direction:
  assumes "elev_inv J st" "p \<in> set (people st)" "p_in p" "toFloor p = currentFloor st" "calm J"
  shows "goingUp p \<longleftrightarrow> queues_at st \<in> {DownUpTo, UpUpTo}"
  using elev_invD(1) [OF assms(1)] elev_invD(2,3) [OF assms(1,2)] assms(3-5)
  by (auto simp: shape_ok_def person_ok_def ride_ok_def queues_at_def on_floors_def goingUp_def split: if_splits)

lemma check_floor_inv:
  assumes inv: "elev_inv J st" and m: "c_free st" "currentFloor st = 1 \<longrightarrow> movingUp st" "currentFloor st = numFloors st \<longrightarrow> \<not> movingUp st"
  shows "\<exists>i out. check_floor (queues_at st) (currentFloor st) st = Inr (st\<lparr>manager := MDoors (queues_at st) (currentFloor st) i out\<rparr>)
    \<and> elev_inv J (st\<lparr>manager := MDoors (queues_at st) (currentFloor st) i out\<rparr>)"
proof -
  let ?f = "currentFloor st" and ?qs = "queues_at st"
  note d = elev_invD [OF inv]
  have f: "on_floors st ?f" using d(1) by (simp add: shape_ok_def)
  define out where "out \<longleftrightarrow> out_queue ?qs st ! nat ?f > 0"
  define i where "i \<longleftrightarrow> in_queue ?qs st ! nat ?f > 0 \<and> numPeopleIn st < 5"
  have "get_at ?f (in_queue ?qs st) = Inr (in_queue ?qs st ! nat ?f)" "get_at ?f (out_queue ?qs st) = Inr (out_queue ?qs st ! nat ?f)"
    using floor_index [OF d(1) f] by (cases ?qs; simp add: get_at_def)+
  then have check: "check_floor ?qs ?f st = Inr (st\<lparr>manager := MDoors ?qs ?f i out\<rparr>)" by (simp add: check_floor_def out_def i_def)
  have "toFloor p \<noteq> ?f" if p: "\<not> out" "p \<in> set (people st)" "p_in p" "calm J" for p
  proof
    assume to: "toFloor p = ?f"
    have "out_queue ?qs st ! nat ?f \<ge> people_num (rides_to (?qs \<in> {DownUpTo, UpUpTo}) ?f) st"
      using d(4) f p(4) by (cases ?qs) (simp_all add: queues_ok_def calm_def)
    then have none: "\<not> people_num (rides_to (?qs \<in> {DownUpTo, UpUpTo}) ?f) st > 0" using p(1) by (simp add: out_def)
    have "\<not> rides_to (?qs \<in> {DownUpTo, UpUpTo}) ?f p" by (rule people_num_none [OF none p(2)])
    then show False using leaver_direction [OF inv p(2,3) to p(4)] p(3) to by (simp add: rides_to_def)
  qed
  then have "manager_ok J (st\<lparr>manager := MDoors ?qs ?f i out\<rparr>)" using m by (auto simp: manager_ok_def queues_at_def)
  then show ?thesis using check set_manager_inv [OF inv] by blast
qed

lemma set_direction_inv:
  assumes "elev_inv J st" "manager st = MHold" "up \<and> currentFloor st = 1 \<or> \<not> up \<and> currentFloor st = numFloors st"
  shows "elev_inv J (st\<lparr>movingUp := up\<rparr>)"
proof -
  note d = elev_invD [OF assms(1)]
  have "ride_ok (st\<lparr>movingUp := up\<rparr>) p" if "p \<in> set (people st)" "p_in p" "calm J" for p
    using d(1) d(2,3) [OF that(1)] that(2,3) assms(3) by (auto simp: ride_ok_def shape_ok_def person_ok_def on_floors_def goingUp_def split: if_splits)
  then show ?thesis
    using assms(1,2) by (auto simp: elev_inv_def shape_ok_def on_floors_def person_ok_def queues_ok_def counts_ok_def manager_ok_def)
qed

lemma look_step:
  assumes inv: "elev_inv J st" and m: "manager st = MHold"
  shows "\<exists>st'. Manager_turn st = Inr st' \<and> elev_inv J st'"
proof -
  have two: "2 \<le> numFloors st" using elev_invD(1) [OF inv] by (simp add: shape_ok_def)
  have c: "c_free st" using elev_invD(6) [OF inv] m by (simp add: manager_ok_def)
  define up where "up = (if currentFloor st = 1 then True else if currentFloor st = numFloors st then False else movingUp st)"
  let ?st = "st\<lparr>movingUp := up\<rparr>"
  have "elev_inv J ?st"
  proof (cases "currentFloor st = 1 \<or> currentFloor st = numFloors st")
    case True
    then show ?thesis using set_direction_inv [OF inv m, of up] by (auto simp: up_def)
  next
    case False
    then have "?st = st" by (simp add: up_def)
    then show ?thesis using inv by simp
  qed
  from check_floor_inv [OF this] c two obtain i out where
      "check_floor (queues_at ?st) (currentFloor st) ?st = Inr (?st\<lparr>manager := MDoors (queues_at ?st) (currentFloor st) i out\<rparr>)"
      "elev_inv J (?st\<lparr>manager := MDoors (queues_at ?st) (currentFloor st) i out\<rparr>)"
    by (auto simp: up_def)
  moreover have "Manager_turn st = check_floor (queues_at ?st) (currentFloor st) ?st"
    by (auto simp: Manager_turn_def Let_def queues_at_def up_def)
  ultimately show ?thesis by auto
qed

lemma broadcast_inv:
  assumes "elev_inv J st"
  shows "elev_inv J (Broadcast_people st)"
proof -
  let ?w = "\<lambda>p. if p_stage p = PAsleep then p\<lparr>p_stage := PWoken\<rparr> else p"
  note d = elev_invD [OF assms]
  have n: "people_num P (Broadcast_people st) = people_num P st" if "\<And>p. P (?w p) = P p" for P
  proof -
    have "(P \<circ> ?w) = P" using that by (simp add: fun_eq_iff)
    then show ?thesis by (simp add: people_num_def Broadcast_people_def filter_map)
  qed
  have "people_num (waits_at up f) (Broadcast_people st) = people_num (waits_at up f) st" "people_num (rides_to up f) (Broadcast_people st) = people_num (rides_to up f) st"
      "people_num p_in (Broadcast_people st) = people_num p_in st" "people_num (\<lambda>p. p_stage p = PLeft) (Broadcast_people st) = people_num (\<lambda>p. p_stage p = PLeft) st" for up f
    by (rule n; simp add: waits_at_def rides_to_def goingUp_def)+
  then have "queues_ok J (Broadcast_people st)" "counts_ok (Broadcast_people st)"
    using d(4,5) by (simp_all add: queues_ok_def counts_ok_def on_floors_def) (simp_all add: Broadcast_people_def)
  moreover have "shape_ok (Broadcast_people st)" using d(1) by (simp add: shape_ok_def on_floors_def Broadcast_people_def)
  moreover have "manager_ok J (Broadcast_people st)" using d(6) by (auto simp: manager_ok_def queues_at_def Broadcast_people_def split: manager.splits)
  moreover have "person_ok (Broadcast_people st) p \<and> (p_in p \<longrightarrow> calm J \<longrightarrow> ride_ok (Broadcast_people st) p)" if "p \<in> set (people (Broadcast_people st))" for p
  proof -
    have "p \<in> ?w ` set (people st)" using that by (simp add: Broadcast_people_def)
    then obtain p0 where p0: "p = ?w p0" "p0 \<in> set (people st)" by (rule imageE)
    then show ?thesis using d(2) [OF p0(2)] d(3) [OF p0(2)] by (auto simp: person_ok_def ride_ok_def on_floors_def goingUp_def Broadcast_people_def)
  qed
  ultimately show ?thesis by (simp add: elev_inv_def)
qed

lemma doors_step:
  assumes inv: "elev_inv J st" and m: "manager st = MDoors qs f i out"
  shows "\<exists>st'. Doors_turn qs f st = Inr st' \<and> elev_inv J st'"
proof -
  have "c_free st" "f = currentFloor st" "qs = queues_at st" "f = 1 \<longrightarrow> movingUp st" "f = numFloors st \<longrightarrow> \<not> movingUp st"
    using elev_invD(6) [OF inv] m by (simp_all add: manager_ok_def)
  then show ?thesis using check_floor_inv [OF inv] broadcast_inv by (force simp: Doors_turn_def)
qed

lemma move_step:
  assumes inv: "elev_inv J st" and m: "manager st = MDoors qs f False False"
  shows "elev_inv J (Manager_move st)"
proof -
  note d = elev_invD [OF inv]
  have mo: "c_free st" "movingUp st \<longrightarrow> currentFloor st \<noteq> numFloors st" "\<not> movingUp st \<longrightarrow> currentFloor st \<noteq> 1" "calm J \<longrightarrow> (\<forall>p \<in> set (people st). p_in p \<longrightarrow> toFloor p \<noteq> currentFloor st)"
    using d(6) m by (auto simp: manager_ok_def)
  define st1 where "st1 = st\<lparr>currentFloor := (if movingUp st then currentFloor st + 1 else currentFloor st - 1), manager := MHold\<rparr>"
  have ride: "ride_ok st1 p" if "p \<in> set (people st)" "p_in p" "calm J" for p
    using d(1) d(2,3) [OF that(1)] that mo(2-4) by (auto simp: ride_ok_def st1_def shape_ok_def on_floors_def person_ok_def goingUp_def split: if_splits)
  have "shape_ok st1" using d(1) mo(2,3) by (auto simp: shape_ok_def on_floors_def st1_def)
  then have inv1: "elev_inv J st1"
    using inv mo(1) ride by (auto simp: elev_inv_def on_floors_def person_ok_def queues_ok_def counts_ok_def manager_ok_def st1_def people_num_def)
  have "manager_ok J (st1\<lparr>c_free := False, manager := MDone\<rparr>)" if "ev_id st = ev_count st" using that by (simp add: manager_ok_def st1_def)
  then have "elev_inv J (st1\<lparr>c_free := False, manager := MDone\<rparr>)" if "ev_id st = ev_count st"
    using that inv1 by (simp add: elev_inv_def)
  then show ?thesis using inv1 by (simp add: Manager_move_def Let_def st1_def)
qed

lemma elev_step_inv: "elev_step st st' \<Longrightarrow> elev_inv J st \<Longrightarrow> elev_inv J st'"
proof (induction rule: elev_step.induct)
  case (arrive st a t)
  then show ?case by (intro arrive_step) (simp_all add: on_floors_def)
next
  case (press i st st')
  then show ?case using press_step by fastforce
next
  case (wait i st)
  then show ?case using wait_step by blast
next
  case (turn i st st')
  then show ?case using turn_step by fastforce
next
  case (start st)
  then show ?case using elev_invD(6) by (intro set_manager_inv) (auto simp: manager_ok_def)
next
  case (look st st')
  then show ?case using look_step by fastforce
next
  case (doors st qs f i out st')
  then show ?case using doors_step by fastforce
next
  case (move st qs f)
  then show ?case using move_step by blast
qed

lemma elev_reachable_inv: "elev_step\<^sup>*\<^sup>* st st' \<Longrightarrow> elev_inv J st \<Longrightarrow> elev_inv J st'"
  by (induction rule: rtranclp_induct) (auto intro: elev_step_inv)

section \<open>Properties\<close>

text \<open>The global variables at program start.\<close>

definition elev_globals :: Elev where
  "elev_globals = \<lparr>numFloors = 0, currentFloor = 0, numPeopleIn = 0, movingUp = True, upQueue = [], upToQueue = [], downQueue = [], downToQueue = [],
     ev_id = 0, ev_count = 0, c_free = True, manager = MStart, people = []\<rparr>"

lemma Elevator_inv:
  assumes "2 \<le> n"
  shows "elev_inv junk (Elevator junk n elev_globals)"
  using assms by (auto simp: elev_inv_def Elevator_def elev_globals_def shape_ok_def on_floors_def queues_ok_def counts_ok_def manager_ok_def people_num_def
      Let_def nth_map_upt)

lemma stopped_all_left:
  assumes "elev_inv J st" "manager st = MDone" "p \<in> set (people st)"
  shows "p_stage p = PLeft"
proof -
  have "length (filter (\<lambda>p. p_stage p = PLeft) (people st)) = length (people st)"
    using elev_invD(5,6) [OF assms(1)] assms(2) by (simp add: counts_ok_def manager_ok_def people_num_def)
  then show ?thesis using length_filter_less [OF assms(3), of "\<lambda>p. p_stage p = PLeft"] by auto
qed

text \<open>A stopped elevator takes no passengers any more: the manager leaves with the semaphore taken.\<close>

lemma stopped_is_final:
  assumes "elev_inv J st" "manager st = MDone"
  shows "\<not> elev_step st st'"
proof
  assume "elev_step st st'"
  moreover have "\<not> c_free st" using elev_invD(6) [OF assms(1)] assms(2) by (simp add: manager_ok_def)
  moreover have "p_stage (people st ! i) = PLeft" if "i < length (people st)" for i using stopped_all_left [OF assms] that by simp
  ultimately show False using assms(2) by (auto elim!: elev_stepE)
qed

text \<open>C14: The elevator is safe. In every interleaving of the manager and any number of passengers, in a building with at
  least two floors and whatever values the queues start with, the elevator stays between the floors, holds at
  most five passengers, its queues change from their initial values exactly by those who wait and ride, no section of the manager or of a passenger accesses a queue out of bounds, and the
  manager stops only when everybody who arrived has got out. If the queues of destinations start with no negative values, nobody is carried past the floor he wants
  or in the wrong direction. (The code does not initialise the queues. They are modelled without overflow.)\<close>

theorem elevator_safe:
  assumes "2 \<le> n" "elev_step\<^sup>*\<^sup>* (Elevator junk n elev_globals) st"
  shows "1 \<le> currentFloor st \<and> currentFloor st \<le> numFloors st
    \<and> numPeopleIn st = people_num p_in st \<and> numPeopleIn st \<le> 5 \<and> queues_ok junk st
    \<and> ((\<forall>i. 0 \<le> junk 1 i \<and> 0 \<le> junk 3 i) \<longrightarrow>
        (\<forall>p \<in> set (people st). p_in p \<longrightarrow> (if atFloor p < toFloor p then currentFloor st \<le> toFloor p else toFloor p \<le> currentFloor st)))
    \<and> (manager st = MDone \<longrightarrow> (\<forall>p \<in> set (people st). p_stage p = PLeft))
    \<and> (\<forall>i < length (people st). (p_stage (people st ! i) = PNew \<longrightarrow> (\<exists>st'. Person_press i st = Inr st'))
        \<and> (p_stage (people st ! i) = PWoken \<and> c_free st \<longrightarrow> (\<exists>st'. Person_turn i st = Inr st')))
    \<and> (manager st = MHold \<longrightarrow> (\<exists>st'. Manager_turn st = Inr st'))
    \<and> (\<forall>qs f i out. manager st = MDoors qs f i out \<longrightarrow> (\<exists>st'. Doors_turn qs f st = Inr st'))"
proof (intro conjI)
  have inv: "elev_inv junk st" by (rule elev_reachable_inv [OF assms(2) Elevator_inv [OF assms(1)]])
  note d = elev_invD [OF inv]
  show "1 \<le> currentFloor st" "currentFloor st \<le> numFloors st" using d(1) by (simp_all add: shape_ok_def on_floors_def)
  show "numPeopleIn st = people_num p_in st" "numPeopleIn st \<le> 5" using d(5) by (simp_all add: counts_ok_def)
  show "queues_ok junk st" by (rule d(4))
  show "(\<forall>i. 0 \<le> junk 1 i \<and> 0 \<le> junk 3 i) \<longrightarrow>
      (\<forall>p \<in> set (people st). p_in p \<longrightarrow> (if atFloor p < toFloor p then currentFloor st \<le> toFloor p else toFloor p \<le> currentFloor st))"
  proof (intro impI ballI)
    fix p assume "\<forall>i. 0 \<le> junk 1 i \<and> 0 \<le> junk 3 i" "p \<in> set (people st)" "p_in p"
    then show "if atFloor p < toFloor p then currentFloor st \<le> toFloor p else toFloor p \<le> currentFloor st"
      using d(2,3) [of p] by (auto simp: calm_def person_ok_def ride_ok_def goingUp_def split: if_splits)
  qed
  show "manager st = MDone \<longrightarrow> (\<forall>p \<in> set (people st). p_stage p = PLeft)" using stopped_all_left [OF inv] by blast
  show "\<forall>i < length (people st). (p_stage (people st ! i) = PNew \<longrightarrow> (\<exists>st'. Person_press i st = Inr st'))
        \<and> (p_stage (people st ! i) = PWoken \<and> c_free st \<longrightarrow> (\<exists>st'. Person_turn i st = Inr st'))"
    using press_step [OF inv] turn_step [OF inv] by blast
  show "manager st = MHold \<longrightarrow> (\<exists>st'. Manager_turn st = Inr st')" using look_step [OF inv] by blast
  show "\<forall>qs f i out. manager st = MDoors qs f i out \<longrightarrow> (\<exists>st'. Doors_turn qs f st = Inr st')" using doors_step [OF inv] by blast
qed

theorem elevator_safe_witness:
  "\<exists>st'. Person_press 0 (ArrivingGoingFromTo 1 3 (Elevator (\<lambda>_ _. 7) 3 elev_globals)) = Inr st'"
proof -
  let ?st = "ArrivingGoingFromTo 1 3 (Elevator (\<lambda>_ _. 7) 3 elev_globals)"
  have "elev_step (Elevator (\<lambda>_ _. 7) 3 elev_globals) ?st" by (rule elev_step.arrive) (simp_all add: Elevator_def elev_globals_def Let_def)
  then have "elev_step\<^sup>*\<^sup>* (Elevator (\<lambda>_ _. 7) 3 elev_globals) ?st" by blast
  from elevator_safe [OF _ this] have "\<forall>i < length (people ?st). p_stage (people ?st ! i) = PNew \<longrightarrow> (\<exists>st'. Person_press i ?st = Inr st')" by simp
  moreover have "people ?st = [\<lparr>p_id = 1, atFloor = 1, toFloor = 3, p_in = False, p_stage = PNew\<rparr>]"
    by (simp add: ArrivingGoingFromTo_def generateID_def Elevator_def elev_globals_def Let_def)
  ultimately show ?thesis by simp
qed

text \<open>A building with one floor is not handled: Elevator accepts it, but the manager, who takes the only floor for the
  ground floor, moves up while a passenger is outstanding, and then reads the queues out of bounds.\<close>

theorem one_floor_overruns:
  "\<exists>st. elev_step\<^sup>*\<^sup>* (Elevator (\<lambda>_ _. 0) 1 elev_globals) st \<and> manager st = MHold \<and> currentFloor st = 2 \<and> Manager_turn st = Inl OutOfBounds"
proof -
  let ?s0 = "Elevator (\<lambda>_ _. 0) 1 elev_globals"
  define s1 where "s1 = ArrivingGoingFromTo 1 1 ?s0"
  define s2 where "s2 = s1\<lparr>manager := MHold\<rparr>"
  define s3 where "s3 = s2\<lparr>movingUp := True, manager := MDoors UpDownTo 1 False False\<rparr>"
  define s4 where "s4 = Manager_move s3"
  note defs = s4_def s3_def s2_def s1_def Elevator_def elev_globals_def Let_def ArrivingGoingFromTo_def generateID_def
  have "elev_step ?s0 s1" unfolding s1_def by (rule elev_step.arrive) (simp_all add: Elevator_def elev_globals_def Let_def)
  moreover have "elev_step s1 s2" unfolding s2_def by (rule elev_step.start) (simp add: defs)
  moreover have "elev_step s2 s3" by (rule elev_step.look) (simp_all add: defs Manager_turn_def check_floor_def get_at_def arr_get_def nth_map_upt)
  moreover have "elev_step s3 s4" unfolding s4_def by (rule elev_step.move) (simp_all add: defs)
  ultimately have "elev_step\<^sup>*\<^sup>* ?s0 s4" by (meson converse_rtranclp_into_rtranclp r_into_rtranclp)
  moreover have "manager s4 = MHold" "currentFloor s4 = 2" by (simp_all add: defs Manager_move_def)
  moreover have "Manager_turn s4 = Inl OutOfBounds" by (simp add: defs Manager_move_def Manager_turn_def check_floor_def get_at_def arr_get_def)
  ultimately show ?thesis by blast
qed

end
