(* ===== verification/SynchList.thy ===== *)
theory SynchList
  imports Synch
begin

text \<open>
  The synchronized list of \<^verbatim>\<open>threads/synchlist.cc\<close>: a list with a lock and a condition variable, on which a thread that removes
  waits while there is no item. The second half runs any number of threads through it by the step relation
  \<^verbatim>\<open>sl_step\<close>, preemption included, and shows that it is a queue, that no wakeup is lost and that no
  operation fails.
\<close>

section \<open>Operations\<close>

text \<open>
  Each operation is cut where it may be suspended: \<^verbatim>\<open>_lock\<close> is the call of \<^verbatim>\<open>Acquire\<close> it begins with,
  \<^verbatim>\<open>_locked\<close> what it does with the lock and \<^verbatim>\<open>_unlock\<close> the call of \<^verbatim>\<open>Release\<close> it ends with. \<^verbatim>\<open>Append\<close> is also cut
  between \<^verbatim>\<open>Signal\<close> and \<^verbatim>\<open>Release\<close>: \<^verbatim>\<open>Signal\<close> turns interrupts on again, so that the timer may take the processor away there.
  A thread that waits for the lock has continuation
  \<open>wait\<close>, one that has it \<open>got\<close>, and the continuation of the rest is \<open>k\<close>.
\<close>

record 'a SynchList =
  sl_list :: "'a nlist"
  sl_lock :: Lock
  listEmpty :: Condition

definition SynchList_new :: "nat option \<Rightarrow> 'a SynchList" where
  "SynchList_new junk = \<lparr>sl_list = List_new, sl_lock = Lock_new junk ''list lock'', listEmpty = Condition_new ''list empty cond''\<rparr>"

definition SynchList_destroy :: "'a SynchList \<Rightarrow> unit res" where
  "SynchList_destroy sl = bindE (List_destroy (sl_list sl)) (\<lambda>_. bindE (Lock_destroy (sl_lock sl)) (\<lambda>_. Condition_destroy (listEmpty sl)))"

definition SynchList_lock :: "nat \<Rightarrow> (('c, 'z) Nachos_scheme \<Rightarrow> (('c, 'z) Nachos_scheme) res) \<Rightarrow> 'c \<Rightarrow> 'c \<Rightarrow> 'a SynchList \<Rightarrow> ('c, 'z) Nachos_scheme
    \<Rightarrow> ('a SynchList \<times> ('c, 'z) Nachos_scheme) res" where
  "SynchList_lock fuel idle wait got sl st = bindE (Lock_Acquire fuel idle wait got (sl_lock sl) st) (\<lambda>(l, st). Inr (sl\<lparr>sl_lock := l\<rparr>, st))"

definition SynchList_lock_retry :: "nat \<Rightarrow> (('c, 'z) Nachos_scheme \<Rightarrow> (('c, 'z) Nachos_scheme) res) \<Rightarrow> 'c \<Rightarrow> 'c \<Rightarrow> 'a SynchList \<Rightarrow> ('c, 'z) Nachos_scheme
    \<Rightarrow> ('a SynchList \<times> ('c, 'z) Nachos_scheme) res" where
  "SynchList_lock_retry fuel idle wait got sl st = bindE (Lock_Acquire_loop fuel idle wait got (sl_lock sl) st) (\<lambda>(l, st). Inr (sl\<lparr>sl_lock := l\<rparr>, st))"

definition SynchList_unlock :: "'c \<Rightarrow> 'a SynchList \<Rightarrow> ('c, 'z) Nachos_scheme \<Rightarrow> ('a SynchList \<times> ('c, 'z) Nachos_scheme) res" where
  "SynchList_unlock k sl st = bindE (Lock_Release (sl_lock sl) st) (\<lambda>(l, st). bindE (set_cont k st) (\<lambda>st. Inr (sl\<lparr>sl_lock := l\<rparr>, st)))"

definition SynchList_Append_locked :: "'c \<Rightarrow> 'a \<Rightarrow> 'a SynchList \<Rightarrow> ('c, 'z) Nachos_scheme \<Rightarrow> ('a SynchList \<times> ('c, 'z) Nachos_scheme) res" where
  "SynchList_Append_locked k item sl st =
     bindE (List_Append item (sl_list sl)) (\<lambda>xs.
     bindE (Condition_Signal (listEmpty sl) st) (\<lambda>(c, st).
     bindE (set_cont k st) (\<lambda>st. Inr (sl\<lparr>sl_list := xs, listEmpty := c\<rparr>, st))))"

text \<open>
  The loop of \<^verbatim>\<open>Remove\<close>, from the test of its condition: with no item the thread waits with continuation
  \<open>wk\<close>, and there is no result yet. A woken thread takes the lock again
  in \<^verbatim>\<open>SynchList_Remove_woken\<close>, and returns to the test through \<^verbatim>\<open>SynchList_Remove_relocked\<close>.
\<close>

definition SynchList_Remove_locked :: "nat \<Rightarrow> (('c, 'z) Nachos_scheme \<Rightarrow> (('c, 'z) Nachos_scheme) res) \<Rightarrow> 'c \<Rightarrow> 'c \<Rightarrow> 'a SynchList \<Rightarrow> ('c, 'z) Nachos_scheme
    \<Rightarrow> ('a option \<times> 'a SynchList \<times> ('c, 'z) Nachos_scheme) res" where
  "SynchList_Remove_locked fuel idle wk k sl st =
     (if List_IsEmpty (sl_list sl) then
        bindE (Condition_Wait fuel idle wk (listEmpty sl) (sl_lock sl) st) (\<lambda>(c, l, st). Inr (None, sl\<lparr>listEmpty := c, sl_lock := l\<rparr>, st))
      else
        bindE (List_Remove (sl_list sl)) (\<lambda>(item, xs).
        bindE (assertE (item \<noteq> None)) (\<lambda>_.
        bindE (SynchList_unlock k (sl\<lparr>sl_list := xs\<rparr>) st) (\<lambda>(sl, st). Inr (item, sl, st)))))"

definition SynchList_Remove_woken :: "nat \<Rightarrow> (('c, 'z) Nachos_scheme \<Rightarrow> (('c, 'z) Nachos_scheme) res) \<Rightarrow> 'c \<Rightarrow> 'c \<Rightarrow> 'a SynchList \<Rightarrow> ('c, 'z) Nachos_scheme
    \<Rightarrow> ('a SynchList \<times> ('c, 'z) Nachos_scheme) res" where
  "SynchList_Remove_woken fuel idle wait ret sl st = bindE (Condition_Wait_acquire fuel idle wait ret (sl_lock sl) st) (\<lambda>(l, st). Inr (sl\<lparr>sl_lock := l\<rparr>, st))"

definition SynchList_Remove_relocked :: "'c \<Rightarrow> 'a SynchList \<Rightarrow> ('c, 'z) Nachos_scheme \<Rightarrow> ('a SynchList \<times> ('c, 'z) Nachos_scheme) res" where
  "SynchList_Remove_relocked k sl st = bindE (Condition_Wait_return k st) (\<lambda>st. Inr (sl, st))"

definition SynchList_Mapcar_locked :: "'c \<Rightarrow> ('a \<Rightarrow> ('c, 'z) Nachos_scheme \<Rightarrow> (('c, 'z) Nachos_scheme) res) \<Rightarrow> 'a SynchList \<Rightarrow> ('c, 'z) Nachos_scheme
    \<Rightarrow> ('a SynchList \<times> ('c, 'z) Nachos_scheme) res" where
  "SynchList_Mapcar_locked k func sl st = bindE (List_Mapcar func (sl_list sl) st) (SynchList_unlock k sl)"

section \<open>Threads that share a list\<close>

text \<open>
  Where a thread can be that appends to the list and removes from it: outside, waiting for the lock or
  holding it in one of the operations, holding it after \<^verbatim>\<open>Signal\<close>, waiting for an item, woken from that and waiting for the
  lock again or holding it, and preempted.
\<close>

datatype 'a spot = Idle | ALock 'a | AHave 'a | ASignaled | RLock | RHave | RWait | RRelock | RRelocked | Preempted "'a spot"

text \<open>The interleavings of the operations. The state has two histories: the items appended and the
  items that \<^verbatim>\<open>Remove\<close> has returned.\<close>

type_synonym 'a slsys = "'a SynchList \<times> 'a spot Nachos \<times> 'a list \<times> 'a list"

definition spot_of :: "'a spot Nachos \<Rightarrow> nat \<Rightarrow> 'a spot option" where
  "spot_of st t = map_option fst (tview st t)"

text \<open>The timer takes the processor away where interrupts have just been turned on (\<^verbatim>\<open>SetLevel\<close> calls \<^verbatim>\<open>OneTick\<close>): when a thread
  starts, and at the end of \<^verbatim>\<open>Acquire\<close>, \<^verbatim>\<open>Signal\<close>, \<^verbatim>\<open>Release\<close>, \<^verbatim>\<open>Wait\<close> and of an earlier preemption. \<^verbatim>\<open>Wait\<close> calls \<^verbatim>\<open>Release\<close>
  and \<^verbatim>\<open>Acquire\<close> with interrupts off, so that they turn nothing on.\<close>

definition may_yield :: "'a spot \<Rightarrow> bool" where
  "may_yield p \<longleftrightarrow> (case p of Idle \<Rightarrow> True | AHave _ \<Rightarrow> True | ASignaled \<Rightarrow> True | RHave \<Rightarrow> True | _ \<Rightarrow> False)"

inductive sl_step :: "'a slsys \<Rightarrow> 'a slsys \<Rightarrow> bool" where
  append: "spot_of st (currentThread st) = Some Idle \<Longrightarrow> SynchList_lock 1 halt (ALock x) (AHave x) sl st = Inr (sl', st') \<Longrightarrow> sl_step (sl, st, a, r) (sl', st', a, r)"
| append_retry: "spot_of st (currentThread st) = Some (ALock x) \<Longrightarrow> SynchList_lock_retry 1 halt (ALock x) (AHave x) sl st = Inr (sl', st') \<Longrightarrow>
    sl_step (sl, st, a, r) (sl', st', a, r)"
| append_locked: "spot_of st (currentThread st) = Some (AHave x) \<Longrightarrow> SynchList_Append_locked ASignaled x sl st = Inr (sl', st') \<Longrightarrow>
    sl_step (sl, st, a, r) (sl', st', a @ [x], r)"
| append_signaled: "spot_of st (currentThread st) = Some ASignaled \<Longrightarrow> SynchList_unlock Idle sl st = Inr (sl', st') \<Longrightarrow>
    sl_step (sl, st, a, r) (sl', st', a, r)"
| remove: "spot_of st (currentThread st) = Some Idle \<Longrightarrow> SynchList_lock 1 halt RLock RHave sl st = Inr (sl', st') \<Longrightarrow> sl_step (sl, st, a, r) (sl', st', a, r)"
| remove_retry: "spot_of st (currentThread st) = Some RLock \<Longrightarrow> SynchList_lock_retry 1 halt RLock RHave sl st = Inr (sl', st') \<Longrightarrow>
    sl_step (sl, st, a, r) (sl', st', a, r)"
| remove_locked: "spot_of st (currentThread st) = Some RHave \<Longrightarrow> SynchList_Remove_locked 1 halt RWait Idle sl st = Inr (item, sl', st') \<Longrightarrow>
    sl_step (sl, st, a, r) (sl', st', a, r @ (case item of None \<Rightarrow> [] | Some x \<Rightarrow> [x]))"
| remove_woken: "spot_of st (currentThread st) = Some RWait \<Longrightarrow> SynchList_Remove_woken 1 halt RRelock RRelocked sl st = Inr (sl', st') \<Longrightarrow>
    sl_step (sl, st, a, r) (sl', st', a, r)"
| relock_retry: "spot_of st (currentThread st) = Some RRelock \<Longrightarrow> SynchList_lock_retry 1 halt RRelock RRelocked sl st = Inr (sl', st') \<Longrightarrow>
    sl_step (sl, st, a, r) (sl', st', a, r)"
| relocked: "spot_of st (currentThread st) = Some RRelocked \<Longrightarrow> SynchList_Remove_relocked RHave sl st = Inr (sl', st') \<Longrightarrow> sl_step (sl, st, a, r) (sl', st', a, r)"
| preempt: "spot_of st (currentThread st) = Some p \<Longrightarrow> may_yield p \<Longrightarrow> Thread_Yield (Preempted p) st = Inr st' \<Longrightarrow> sl_step (sl, st, a, r) (sl, st', a, r)"
| resume: "spot_of st (currentThread st) = Some (Preempted p) \<Longrightarrow> restore st = Inr st1 \<Longrightarrow> set_cont p st1 = Inr st' \<Longrightarrow> sl_step (sl, st, a, r) (sl, st', a, r)"

inductive_cases sl_stepE: "sl_step s s'"

section \<open>Schedules\<close>

text \<open>The depth of nested calls that have saved an interrupt level, for each spot, and what a thread may do there.\<close>

fun depth :: "'a spot \<Rightarrow> nat" where
  "depth Idle = 0" | "depth (ALock x) = 1" | "depth (AHave x) = 0" | "depth ASignaled = 0" | "depth RLock = 1" | "depth RHave = 0" | "depth RWait = 1"
| "depth RRelock = 2" | "depth RRelocked = 1" | "depth (Preempted p) = Suc (depth p)"

fun lock_spot :: "'a spot \<Rightarrow> bool" where
  "lock_spot (ALock x) = True" | "lock_spot RLock = True" | "lock_spot RRelock = True" | "lock_spot _ = False"

fun holds :: "'a spot \<Rightarrow> bool" where
  "holds (AHave x) = True" | "holds ASignaled = True" | "holds RHave = True" | "holds RRelocked = True" | "holds (Preempted p) = holds p" | "holds _ = False"

fun taker :: "'a spot \<Rightarrow> bool" where
  "taker RWait = True" | "taker RRelock = True" | "taker RRelocked = True" | "taker RHave = True" | "taker (Preempted p) = taker p" | "taker _ = False"

fun wf_spot :: "'a spot \<Rightarrow> bool" where
  "wf_spot (Preempted p) = may_yield p" | "wf_spot _ = True"

abbreviation item_spot :: "'a spot \<Rightarrow> bool" where
  "item_spot k \<equiv> k = RWait"

lemma lock_spotD: "lock_spot k \<Longrightarrow> \<not> item_spot k \<and> wf_spot k"
  by (cases k) auto

lemma may_yieldD: "may_yield p \<Longrightarrow> depth p = 0 \<and> \<not> lock_spot p \<and> wf_spot p"
  by (cases p) (auto simp: may_yield_def)

definition asleep_on :: "('a spot \<Rightarrow> bool) \<Rightarrow> nat nlist \<Rightarrow> 'a spot Nachos \<Rightarrow> bool" where
  "asleep_on P q st \<longleftrightarrow> List_inv q \<and> distinct (List_items q)
     \<and> (\<forall>t \<in> set (List_items q). sleeping st t \<and> (\<exists>k ls. tview st t = Some (k, ls, False) \<and> P k \<and> depth k \<le> length ls))"

definition spot_ok :: "'a spot Nachos \<Rightarrow> nat \<Rightarrow> bool" where
  "spot_ok st t \<longleftrightarrow> (\<exists>k ls f. tview st t = Some (k, ls, f) \<and> depth k \<le> length ls \<and> wf_spot k \<and> (f \<longrightarrow> k = Idle))"

definition sl_pool :: "nat nlist \<Rightarrow> nat nlist \<Rightarrow> 'a spot Nachos \<Rightarrow> bool" where
  "sl_pool lq cq st \<longleftrightarrow> sys_ok st \<and> asleep_on lock_spot lq st \<and> asleep_on item_spot cq st \<and> (\<forall>t \<in> set (ready st). spot_ok st t)"

definition runs_at :: "'a spot \<Rightarrow> IntStatus list \<Rightarrow> 'a spot Nachos \<Rightarrow> bool" where
  "runs_at k ls st \<longleftrightarrow> tview st (currentThread st) = Some (k, ls, False) \<and> depth k \<le> length ls \<and> wf_spot k \<and> (lock_spot k \<longrightarrow> level st = IntOff)"

abbreviation live :: "'a spot Nachos \<Rightarrow> nat list" where
  "live st \<equiv> currentThread st # ready st"

lemma queues_disjoint:
  assumes "asleep_on P q st" "asleep_on Q q' st" "\<And>k. P k \<Longrightarrow> \<not> Q k"
  shows "set (List_items q) \<inter> set (List_items q') = {}"
  using assms by (fastforce simp: asleep_on_def)

lemma pool_distinct:
  assumes "sl_pool lq cq st"
  shows "distinct (live st @ List_items lq)" "distinct (live st @ List_items cq)"
proof -
  have p: "sys_ok st" "asleep_on lock_spot lq st" "asleep_on item_spot cq st" using assms by (simp_all add: sl_pool_def)
  have "distinct (live st)" using nachos_threads.inv_distinct [OF p(1)] by simp
  moreover have "t \<notin> set (live st)" if "t \<in> set (List_items lq) \<union> set (List_items cq)" for t
    using that p(2,3) sleeping_idle [OF p(1), of t] by (auto simp: asleep_on_def)
  ultimately show "distinct (live st @ List_items lq)" "distinct (live st @ List_items cq)"
    using p(2,3) by (auto simp: asleep_on_def)
qed

text \<open>The running thread changes its own record.\<close>

lemma pool_own:
  assumes "sl_pool lq cq st" "same_schedule st st'" "\<forall>t. t \<noteq> currentThread st \<longrightarrow> tview st' t = tview st t"
  shows "sl_pool lq cq st'"
proof -
  have s: "sys_ok st" "sys_ok st'" "ready st' = ready st" "sleeping st' = sleeping st" "currentThread st \<notin> set (ready st)"
    using assms(1,2) nachos_threads.inv_distinct [of st] by (auto simp: same_schedule_def sl_pool_def)
  have "asleep_on P q st'" if "asleep_on P q st" for P q
    using that assms(3) s(1,4) sleeping_idle [OF s(1)] by (auto simp: asleep_on_def)
  moreover have "spot_ok st' t" if "t \<in> set (ready st)" for t
  proof -
    have "t \<noteq> currentThread st" using s(5) that by auto
    moreover have "spot_ok st t" using that assms(1) by (simp add: sl_pool_def)
    ultimately show ?thesis using assms(3) by (simp add: spot_ok_def)
  qed
  ultimately show ?thesis using assms(1) s by (simp add: sl_pool_def)
qed

text \<open>The first thread of a queue becomes ready.\<close>

lemma wake_asleep:
  assumes "sys_ok st" "asleep_on P q st"
  obtains r q' st' where "List_Remove q = Inr (r, q')" "List_items q' = tl (List_items q)" "wake_removed r st = Inr st'" "sys_ok st'"
    "currentThread st' = currentThread st" "ready st' = ready st @ take 1 (List_items q)" "tview st' = tview st" "level st' = level st"
    "asleep_on P q' st'" "\<forall>u. u \<notin> set (List_items q) \<longrightarrow> sleeping st' u = sleeping st u"
proof (cases "List_items q")
  case Nil
  have "List_Remove q = Inr (None, q)" using list_fifo.deq_empty [OF _ Nil] assms(2) by (simp add: asleep_on_def)
  then show thesis using that [of None q st] Nil assms by (simp add: wake_removed_def)
next
  case (Cons t ts)
  have q: "List_inv q" "sleeping st t" "t \<notin> set ts" "distinct ts" using assms(2) Cons by (auto simp: asleep_on_def)
  obtain q' where q': "List_Remove q = Inr (Some t, q')" "List_inv q'" "List_items q' = ts"
    using list_fifo.deq_ok [OF q(1) Cons] by blast
  obtain st' where s: "ReadyToRun t st = Inr st'" "sys_ok st'" "currentThread st' = currentThread st" "ready st' = ready st @ [t]"
      "tview st' = tview st" "level st' = level st" "\<forall>u. u \<noteq> t \<longrightarrow> sleeping st' u = sleeping st u"
    using nachos_threads.wake_ok [OF assms(1) q(2)] by blast
  have "\<forall>u \<in> set ts. u \<noteq> t" using q(3) by auto
  then have "asleep_on P q' st'" using assms(2) Cons q' q(4) s(5,7) by (simp add: asleep_on_def)
  moreover have "\<forall>u. u \<notin> set (List_items q) \<longrightarrow> sleeping st' u = sleeping st u" using s(7) Cons by auto
  moreover have "wake_removed (Some t) st = Inr st'" using s(1) by (simp add: wake_removed_def)
  ultimately show thesis using that [of "Some t" q' st'] q'(1,3) s Cons by simp
qed

lemma asleep_on_other:
  assumes "asleep_on P q st" "asleep_on Q q2 st" "\<And>k. P k \<Longrightarrow> \<not> Q k" "tview st' = tview st"
    "\<forall>u. u \<notin> set (List_items q) \<longrightarrow> sleeping st' u = sleeping st u"
  shows "asleep_on Q q2 st'"
  using assms queues_disjoint [OF assms(1,2,3)] by (auto simp: asleep_on_def)

lemma woken_spot_ok:
  assumes "asleep_on P q st" "\<And>k. P k \<Longrightarrow> wf_spot k" "tview st' = tview st" "t \<in> set (take 1 (List_items q))"
  shows "spot_ok st' t"
proof -
  have "t \<in> set (List_items q)" using assms(4) by (meson in_set_takeD)
  then obtain k ls where "tview st t = Some (k, ls, False)" "P k" "depth k \<le> length ls" using assms(1) by (auto simp: asleep_on_def)
  then show ?thesis using assms(2,3) by (auto simp: spot_ok_def)
qed

lemma wake_lock_queue:
  assumes "sl_pool lq cq st"
  obtains r q' st' where "List_Remove lq = Inr (r, q')" "List_items q' = tl (List_items lq)" "wake_removed r st = Inr st'" "sl_pool q' cq st'"
    "currentThread st' = currentThread st" "ready st' = ready st @ take 1 (List_items lq)" "tview st' = tview st" "level st' = level st"
proof -
  have p: "sys_ok st" "asleep_on lock_spot lq st" "asleep_on item_spot cq st" using assms by (simp_all add: sl_pool_def)
  obtain r q' st' where w: "List_Remove lq = Inr (r, q')" "List_items q' = tl (List_items lq)" "wake_removed r st = Inr st'" "sys_ok st'"
    "currentThread st' = currentThread st" "ready st' = ready st @ take 1 (List_items lq)" "tview st' = tview st" "level st' = level st"
    "asleep_on lock_spot q' st'" "\<forall>u. u \<notin> set (List_items lq) \<longrightarrow> sleeping st' u = sleeping st u"
    by (rule wake_asleep [OF p(1,2)])
  have "asleep_on item_spot cq st'" using asleep_on_other [OF p(2,3) _ w(7,10)] lock_spotD by blast
  moreover have "spot_ok st' t" if "t \<in> set (ready st')" for t
    using that w(6,7) woken_spot_ok [OF p(2) _ w(7), of t] assms lock_spotD by (auto simp: sl_pool_def spot_ok_def)
  ultimately have "sl_pool q' cq st'" using w(4,9) by (simp add: sl_pool_def)
  then show thesis using that w by blast
qed

lemma wake_item_queue:
  assumes "sl_pool lq cq st"
  obtains r q' st' where "List_Remove cq = Inr (r, q')" "List_items q' = tl (List_items cq)" "wake_removed r st = Inr st'" "sl_pool lq q' st'"
    "currentThread st' = currentThread st" "ready st' = ready st @ take 1 (List_items cq)" "tview st' = tview st" "level st' = level st"
proof -
  have p: "sys_ok st" "asleep_on lock_spot lq st" "asleep_on item_spot cq st" using assms by (simp_all add: sl_pool_def)
  obtain r q' st' where w: "List_Remove cq = Inr (r, q')" "List_items q' = tl (List_items cq)" "wake_removed r st = Inr st'" "sys_ok st'"
    "currentThread st' = currentThread st" "ready st' = ready st @ take 1 (List_items cq)" "tview st' = tview st" "level st' = level st"
    "asleep_on item_spot q' st'" "\<forall>u. u \<notin> set (List_items cq) \<longrightarrow> sleeping st' u = sleeping st u"
    by (rule wake_asleep [OF p(1,3)])
  have "asleep_on lock_spot lq st'" using asleep_on_other [OF p(3,2) _ w(7,10)] lock_spotD by blast
  moreover have "spot_ok st' t" if "t \<in> set (ready st')" for t
    using that w(6,7) woken_spot_ok [OF p(3) _ w(7), of t] assms by (auto simp: sl_pool_def spot_ok_def)
  ultimately have "sl_pool lq q' st'" using w(4,9) by (simp add: sl_pool_def)
  then show thesis using that w by blast
qed

text \<open>Entering the kernel, an action that only wakes threads, and leaving it.\<close>

lemma bracket_wake:
  assumes c: "tview st (currentThread st) = Some (k, ls, f)" and p: "sl_pool lq cq st"
    and w: "\<And>s. sl_pool lq cq s \<Longrightarrow> \<exists>r q' s'. List_Remove q = Inr (r, q') \<and> List_items q' = tl (List_items q) \<and> wake_removed r s = Inr s' \<and> R q' s'
      \<and> currentThread s' = currentThread s \<and> ready s' = ready s @ take 1 (List_items q) \<and> tview s' = tview s \<and> level s' = level s"
    and R: "\<And>q' s s'. R q' s \<Longrightarrow> same_schedule s s' \<Longrightarrow> \<forall>t. t \<noteq> currentThread s \<longrightarrow> tview s' t = tview s t \<Longrightarrow> R q' s'"
  obtains s1 r q' s2 st' where "disable st = Inr s1" "currentThread s1 = currentThread st" "List_Remove q = Inr (r, q')" "List_items q' = tl (List_items q)"
    "wake_removed r s1 = Inr s2" "restore s2 = Inr st'" "R q' st'" "currentThread st' = currentThread st"
    "ready st' = ready st @ take 1 (List_items q)" "tview st' = tview st" "level st' = level st"
proof -
  obtain s1 where d: "disable st = Inr s1" "same_schedule st s1" "level s1 = IntOff" "tview s1 = (tview st)(currentThread st \<mapsto> (k, level st # ls, f))"
    by (rule disable_view [OF c])
  have s1: "currentThread s1 = currentThread st" "ready s1 = ready st" using d(2) by (simp_all add: same_schedule_def)
  have "sl_pool lq cq s1" by (rule pool_own [OF p d(2)]) (simp add: d(4))
  then obtain r q' s2 where q: "List_Remove q = Inr (r, q')" "List_items q' = tl (List_items q)" "wake_removed r s1 = Inr s2" "R q' s2"
      "currentThread s2 = currentThread s1" "ready s2 = ready s1 @ take 1 (List_items q)" "tview s2 = tview s1" "level s2 = level s1"
    using w by blast
  have "tview s2 (currentThread s2) = Some (k, level st # ls, f)" using q(5,7) d(4) s1(1) by simp
  then obtain s3 where r: "restore s2 = Inr s3" "same_schedule s2 s3" "level s3 = level st" "tview s3 = (tview s2)(currentThread s2 \<mapsto> (k, ls, f))"
    by (rule restore_view)
  have "R q' s3" by (rule R [OF q(4) r(2)]) (simp add: r(4))
  moreover have "tview s3 = tview st" using r(4) q(5,7) d(4) s1(1) c by (auto simp: fun_eq_iff)
  ultimately show thesis
    using that [OF d(1) s1(1) q(1,2,3) r(1)] r(2,3) q(5,6) s1 by (simp add: same_schedule_def)
qed

lemma Release_wakes:
  assumes "sl_pool (lock_queue l) cq st" "tview st (currentThread st) = Some (k, ls, f)" "lock_holder l = Some (currentThread st)"
  obtains q' st' where "Lock_Release l st = Inr (l\<lparr>lock_queue := q', lock_free := True\<rparr>, st')" "sl_pool q' cq st'" "currentThread st' = currentThread st"
    "ready st' = ready st @ take 1 (List_items (lock_queue l))" "tview st' = tview st" "level st' = level st" "List_items q' = tl (List_items (lock_queue l))"
proof -
  obtain s1 r q' s2 st' where b: "disable st = Inr s1" "currentThread s1 = currentThread st" "List_Remove (lock_queue l) = Inr (r, q')"
    "List_items q' = tl (List_items (lock_queue l))" "wake_removed r s1 = Inr s2" "restore s2 = Inr st'" "sl_pool q' cq st'" "currentThread st' = currentThread st"
    "ready st' = ready st @ take 1 (List_items (lock_queue l))" "tview st' = tview st" "level st' = level st"
    by (rule bracket_wake [OF assms(2,1), where q = "lock_queue l" and R = "\<lambda>q'. sl_pool q' cq"]) (metis wake_lock_queue, metis pool_own)
  have "Lock_Release l st = Inr (l\<lparr>lock_queue := q', lock_free := True\<rparr>, st')"
    using b(1-3,5,6) assms(3) by (simp add: Lock_Release_def)
  then show thesis using that b by blast
qed

lemma Signal_wakes:
  assumes "sl_pool lq (cond_queue c) st" "tview st (currentThread st) = Some (k, ls, f)"
  obtains q' st' where "Condition_Signal c st = Inr (c\<lparr>cond_queue := q'\<rparr>, st')" "sl_pool lq q' st'" "currentThread st' = currentThread st"
    "ready st' = ready st @ take 1 (List_items (cond_queue c))" "tview st' = tview st" "level st' = level st" "List_items q' = tl (List_items (cond_queue c))"
proof -
  obtain s1 r q' s2 st' where b: "disable st = Inr s1" "currentThread s1 = currentThread st" "List_Remove (cond_queue c) = Inr (r, q')"
    "List_items q' = tl (List_items (cond_queue c))" "wake_removed r s1 = Inr s2" "restore s2 = Inr st'" "sl_pool lq q' st'" "currentThread st' = currentThread st"
    "ready st' = ready st @ take 1 (List_items (cond_queue c))" "tview st' = tview st" "level st' = level st"
    by (rule bracket_wake [OF assms(2,1), where q = "cond_queue c" and R = "sl_pool lq"]) (metis wake_item_queue, metis pool_own)
  have "Condition_Signal c st = Inr (c\<lparr>cond_queue := q'\<rparr>, st')" using b(1,3,5,6) by (simp add: Condition_Signal_def)
  then show thesis using that b by blast
qed

text \<open>The running thread goes to sleep on a queue; the next ready thread runs.\<close>

lemma sleep_asleep:
  assumes "sl_pool lq cq st" "level st = IntOff" "tview st (currentThread st) = Some (k, ls, False)" "ready st = n # ts"
    and w: "depth w \<le> length ls" "P w" and q: "asleep_on P q st"
  obtains q' st' kn lsn where "List_Append (currentThread st) q = Inr q'" "List_items q' = List_items q @ [currentThread st]"
    "Thread_Sleep 1 halt w st = Inr st'" "sys_ok st'" "live st' = n # ts" "asleep_on P q' st'" "runs_at kn lsn st'"
    "spot_of st' = (spot_of st)(currentThread st \<mapsto> w)" "\<forall>t. t \<notin> {currentThread st, n} \<longrightarrow> tview st' t = tview st t" "\<forall>u. sleeping st u \<longrightarrow> sleeping st' u"
proof -
  let ?c = "currentThread st"
  have p: "sys_ok st" "spot_ok st n" "List_inv q" using assms(1,4) q by (simp_all add: sl_pool_def asleep_on_def)
  obtain kn lsn fn where n: "tview st n = Some (kn, lsn, fn)" "depth kn \<le> length lsn" "wf_spot kn" "fn \<longrightarrow> kn = Idle" using p(2) by (auto simp: spot_ok_def)
  obtain q' where q': "List_Append ?c q = Inr q'" "List_inv q'" "List_items q' = List_items q @ [?c]" using list_fifo.enq_ok [OF p(3)] by blast
  obtain st' where s: "Thread_Sleep 1 halt w st = Inr st'" "sys_ok st'" "currentThread st' = n" "ready st' = ts"
      "tview st' = (tview st)(?c \<mapsto> (w, ls, False), n \<mapsto> (kn, lsn, False))" "level st' = (if fn then IntOn else IntOff)"
      "sleeping st' ?c" "\<forall>u. sleeping st u \<longrightarrow> sleeping st' u"
    using nachos_threads.block_ok [OF p(1) assms(2,4,3) n(1), where k = w and fuel = 0 and idle = halt] by auto
  have ne: "n \<noteq> ?c" using nachos_threads.inv_distinct [OF p(1)] assms(4) by auto
  have idle: "u \<noteq> ?c \<and> u \<noteq> n" if "u \<in> set (List_items q)" for u
    using that q sleeping_idle [OF p(1), of u] assms(4) by (auto simp: asleep_on_def)
  have "asleep_on P q' st'"
    unfolding asleep_on_def
  proof (intro conjI ballI)
    show "List_inv q'" by (rule q'(2))
    show "distinct (List_items q')" using q idle q'(3) by (auto simp: asleep_on_def)
    fix t assume "t \<in> set (List_items q')"
    then have t: "t = ?c \<or> t \<in> set (List_items q)" using q'(3) by auto
    show "sleeping st' t" "\<exists>k ls. tview st' t = Some (k, ls, False) \<and> P k \<and> depth k \<le> length ls"
      using t idle [of t] q s(5,7,8) w ne by (auto simp: asleep_on_def)
  qed
  moreover have "runs_at kn lsn st'" using n s(3,5,6) by (auto simp: runs_at_def)
  moreover have "spot_of st' = (spot_of st)(?c \<mapsto> w)" using s(5) n(1) ne by (auto simp: spot_of_def fun_eq_iff)
  ultimately show thesis using that [OF q'(1,3) s(1,2)] s(3,4,5,8) by simp
qed

lemma sleep_alone_halts:
  assumes "sl_pool lq cq st" "level st = IntOff" "tview st (currentThread st) = Some (k, ls, f)" "ready st = []"
  shows "Thread_Sleep 1 halt w st = Inl Halted"
proof -
  have c: "List_inv (readyList st)" using assms(1) by (auto simp: sl_pool_def sys_ok_def sched_ok_def)
  obtain th where th: "threads st (currentThread st) = Some th" using assms(3) by (auto simp: tview_def)
  have "FindNextToRun s' = Inr (None, s')" if "readyList s' = readyList st" for s' :: "'a spot Nachos"
    using FindNextToRun_spec [of s'] that c assms(4) by (simp add: ready_def)
  then show ?thesis using assms(2) th by (simp add: Thread_Sleep_def setStatus_def set_cont_def halt_def)
qed

lemma pool_after_sleep:
  assumes "sl_pool lq cq st" "ready st = n # ts" "sys_ok st'" "live st' = n # ts" "\<forall>t. t \<notin> {currentThread st, n} \<longrightarrow> tview st' t = tview st t"
    "\<forall>u. sleeping st u \<longrightarrow> sleeping st' u"
  shows "asleep_on lock_spot lq st' \<and> asleep_on item_spot cq st' \<and> (\<forall>t \<in> set (ready st'). spot_ok st' t)"
proof -
  have p: "sys_ok st" "asleep_on lock_spot lq st" "asleep_on item_spot cq st" using assms(1) by (simp_all add: sl_pool_def)
  have "asleep_on P q st'" if "asleep_on P q st" for P q
    using that assms(2,5,6) sleeping_idle [OF p(1)] by (auto simp: asleep_on_def)
  moreover have "\<forall>t \<in> set ts. t \<notin> {currentThread st, n}" using nachos_threads.inv_distinct [OF p(1)] assms(2) by auto
  then have "\<forall>t \<in> set ts. spot_ok st' t" using assms(1,2,5) by (simp add: sl_pool_def spot_ok_def)
  ultimately show ?thesis using p assms(4) by auto
qed

section \<open>Outcomes of the operations\<close>

text \<open>Taking the lock: the thread gets it, or sleeps, or finds nobody else to run.\<close>

lemma lock_retry_outcome:
  assumes p: "sl_pool (lock_queue (sl_lock sl)) cq st" "level st = IntOff" "tview st (currentThread st) = Some (k, lv # ls, False)"
    and w: "lock_spot wait" "depth wait \<le> Suc (length ls)" and h: "depth got \<le> length ls" "wf_spot got" "\<not> lock_spot got"
  obtains (takes) st' where "SynchList_lock_retry 1 halt wait got sl st = Inr (sl\<lparr>sl_lock := (sl_lock sl)\<lparr>lock_free := False, lock_holder := Some (currentThread st)\<rparr>\<rparr>, st')"
      "lock_free (sl_lock sl)" "sl_pool (lock_queue (sl_lock sl)) cq st'" "live st' = live st" "spot_of st' = (spot_of st)(currentThread st \<mapsto> got)" "runs_at got ls st'"
  | (sleeps) q' st' kn lsn where "SynchList_lock_retry 1 halt wait got sl st = Inr (sl\<lparr>sl_lock := (sl_lock sl)\<lparr>lock_queue := q'\<rparr>\<rparr>, st')"
      "\<not> lock_free (sl_lock sl)" "sl_pool q' cq st'" "live st' = ready st" "spot_of st' = (spot_of st)(currentThread st \<mapsto> wait)" "runs_at kn lsn st'"
      "List_items q' = List_items (lock_queue (sl_lock sl)) @ [currentThread st]"
  | (halts) "\<not> lock_free (sl_lock sl)" "ready st = []"
proof (cases "lock_free (sl_lock sl)")
  case True
  let ?c = "currentThread st"
  obtain s1 where r: "restore st = Inr s1" "same_schedule st s1" "level s1 = lv" "tview s1 = (tview st)(?c \<mapsto> (k, ls, False))"
    by (rule restore_view [OF p(3)])
  have c1: "currentThread s1 = ?c" using r(2) by (simp add: same_schedule_def)
  then have "tview s1 (currentThread s1) = Some (k, ls, False)" using r(4) by simp
  then obtain s2 where s: "set_cont got s1 = Inr s2" "same_schedule s1 s2" "level s2 = level s1" "tview s2 = (tview s1)(currentThread s1 \<mapsto> (got, ls, False))"
    by (rule set_cont_view)
  have ss: "same_schedule st s2" and tv: "tview s2 = (tview st)(?c \<mapsto> (got, ls, False))"
    using same_schedule_trans [OF r(2) s(2)] r(4) s(4) c1 by auto
  have "sl_pool (lock_queue (sl_lock sl)) cq s2" by (rule pool_own [OF p(1) ss]) (simp add: tv)
  moreover have "live s2 = live st" "runs_at got ls s2" "spot_of s2 = (spot_of st)(?c \<mapsto> got)"
    using ss tv h by (auto simp: same_schedule_def runs_at_def spot_of_def fun_eq_iff)
  ultimately show thesis using takes r(1) s(1) True by (simp add: SynchList_lock_retry_def Lock_Acquire_loop_def)
next
  case False
  show thesis
  proof (cases "ready st")
    case Nil
    then show thesis using halts False by blast
  next
    case (Cons n ts)
    have q: "asleep_on lock_spot (lock_queue (sl_lock sl)) st" using p(1) by (simp add: sl_pool_def)
    have d: "depth wait \<le> length (lv # ls)" using w(2) by simp
    obtain q' st' kn lsn where s: "List_Append (currentThread st) (lock_queue (sl_lock sl)) = Inr q'" "List_items q' = List_items (lock_queue (sl_lock sl)) @ [currentThread st]"
      "Thread_Sleep 1 halt wait st = Inr st'" "sys_ok st'" "live st' = n # ts" "asleep_on lock_spot q' st'" "runs_at kn lsn st'"
      "spot_of st' = (spot_of st)(currentThread st \<mapsto> wait)" "\<forall>t. t \<notin> {currentThread st, n} \<longrightarrow> tview st' t = tview st t" "\<forall>u. sleeping st u \<longrightarrow> sleeping st' u"
      by (rule sleep_asleep [OF p Cons d, of lock_spot]) (use w(1) q in auto)
    have "sl_pool q' cq st'" using pool_after_sleep [OF p(1) Cons s(4,5,9,10)] s(4,6) by (simp add: sl_pool_def)
    moreover have "SynchList_lock_retry 1 halt wait got sl st = Inr (sl\<lparr>sl_lock := (sl_lock sl)\<lparr>lock_queue := q'\<rparr>\<rparr>, st')"
      using False s(1,3) by (simp add: SynchList_lock_retry_def Lock_Acquire_loop_def)
    ultimately show thesis using sleeps False s Cons by simp
  qed
qed

lemma lock_outcome:
  assumes p: "sl_pool (lock_queue (sl_lock sl)) cq st" "tview st (currentThread st) = Some (k, ls, False)"
    and w: "lock_spot wait" "depth wait \<le> Suc (length ls)" and h: "depth got \<le> length ls" "wf_spot got" "\<not> lock_spot got"
  obtains (takes) st' where "SynchList_lock 1 halt wait got sl st = Inr (sl\<lparr>sl_lock := (sl_lock sl)\<lparr>lock_free := False, lock_holder := Some (currentThread st)\<rparr>\<rparr>, st')"
      "lock_free (sl_lock sl)" "sl_pool (lock_queue (sl_lock sl)) cq st'" "live st' = live st" "spot_of st' = (spot_of st)(currentThread st \<mapsto> got)" "runs_at got ls st'"
  | (sleeps) q' st' kn lsn where "SynchList_lock 1 halt wait got sl st = Inr (sl\<lparr>sl_lock := (sl_lock sl)\<lparr>lock_queue := q'\<rparr>\<rparr>, st')"
      "\<not> lock_free (sl_lock sl)" "sl_pool q' cq st'" "live st' = ready st" "spot_of st' = (spot_of st)(currentThread st \<mapsto> wait)" "runs_at kn lsn st'"
      "List_items q' = List_items (lock_queue (sl_lock sl)) @ [currentThread st]"
  | (halts) "\<not> lock_free (sl_lock sl)" "ready st = []"
proof -
  obtain s1 where d: "disable st = Inr s1" "same_schedule st s1" "level s1 = IntOff" "tview s1 = (tview st)(currentThread st \<mapsto> (k, level st # ls, False))"
    by (rule disable_view [OF p(2)])
  have s1: "currentThread s1 = currentThread st" "ready s1 = ready st" using d(2) by (simp_all add: same_schedule_def)
  have p1: "sl_pool (lock_queue (sl_lock sl)) cq s1" by (rule pool_own [OF p(1) d(2)]) (simp add: d(4))
  have c1: "tview s1 (currentThread s1) = Some (k, level st # ls, False)" using d(4) s1(1) by simp
  have eq: "SynchList_lock 1 halt wait got sl st = SynchList_lock_retry 1 halt wait got sl s1"
    using d(1) by (simp add: SynchList_lock_def SynchList_lock_retry_def Lock_Acquire_def)
  have sp: "(spot_of s1)(currentThread st \<mapsto> x) = (spot_of st)(currentThread st \<mapsto> x)" for x using d(4) by (auto simp: spot_of_def fun_eq_iff)
  show thesis
  proof (rule lock_retry_outcome [OF p1 d(3) c1 w h])
    fix s' assume "SynchList_lock_retry 1 halt wait got sl s1 = Inr (sl\<lparr>sl_lock := (sl_lock sl)\<lparr>lock_free := False, lock_holder := Some (currentThread s1)\<rparr>\<rparr>, s')"
      "lock_free (sl_lock sl)" "sl_pool (lock_queue (sl_lock sl)) cq s'" "live s' = live s1" "spot_of s' = (spot_of s1)(currentThread s1 \<mapsto> got)" "runs_at got ls s'"
    then show thesis using takes [of s'] eq s1 sp by simp
  next
    fix q' s' kn lsn assume "SynchList_lock_retry 1 halt wait got sl s1 = Inr (sl\<lparr>sl_lock := (sl_lock sl)\<lparr>lock_queue := q'\<rparr>\<rparr>, s')"
      "\<not> lock_free (sl_lock sl)" "sl_pool q' cq s'" "live s' = ready s1" "spot_of s' = (spot_of s1)(currentThread s1 \<mapsto> wait)" "runs_at kn lsn s'"
      "List_items q' = List_items (lock_queue (sl_lock sl)) @ [currentThread s1]"
    then show thesis using sleeps [of q' s' kn lsn] eq s1 sp by simp
  next
    assume "\<not> lock_free (sl_lock sl)" "ready s1 = []"
    then show thesis using halts s1 by simp
  qed
qed

text \<open>Giving the lock up and leaving.\<close>

lemma unlock_outcome:
  assumes "sl_pool (lock_queue (sl_lock sl)) cq st" "tview st (currentThread st) = Some (k0, ls, False)" "lock_holder (sl_lock sl) = Some (currentThread st)"
  obtains q' st' where "SynchList_unlock Idle sl st = Inr (sl\<lparr>sl_lock := (sl_lock sl)\<lparr>lock_queue := q', lock_free := True\<rparr>\<rparr>, st')" "sl_pool q' cq st'"
    "live st' = live st @ take 1 (List_items (lock_queue (sl_lock sl)))" "spot_of st' = (spot_of st)(currentThread st \<mapsto> Idle)" "runs_at Idle ls st'"
    "List_items q' = tl (List_items (lock_queue (sl_lock sl)))"
proof -
  obtain q' s1 where r: "Lock_Release (sl_lock sl) st = Inr ((sl_lock sl)\<lparr>lock_queue := q', lock_free := True\<rparr>, s1)" "sl_pool q' cq s1" "currentThread s1 = currentThread st"
    "ready s1 = ready st @ take 1 (List_items (lock_queue (sl_lock sl)))" "tview s1 = tview st" "level s1 = level st" "List_items q' = tl (List_items (lock_queue (sl_lock sl)))"
    by (rule Release_wakes [OF assms])
  have "tview s1 (currentThread s1) = Some (k0, ls, False)" using r(3,5) assms(2) by simp
  then obtain s2 where s: "set_cont Idle s1 = Inr s2" "same_schedule s1 s2" "level s2 = level s1" "tview s2 = (tview s1)(currentThread s1 \<mapsto> (Idle, ls, False))"
    by (rule set_cont_view)
  have "sl_pool q' cq s2" by (rule pool_own [OF r(2) s(2)]) (simp add: s(4))
  moreover have "live s2 = live st @ take 1 (List_items (lock_queue (sl_lock sl)))" "spot_of s2 = (spot_of st)(currentThread st \<mapsto> Idle)" "runs_at Idle ls s2"
    using s(2,4) r(3,4,5) by (auto simp: same_schedule_def spot_of_def runs_at_def fun_eq_iff)
  ultimately show thesis using that r(1,7) s(1) by (simp add: SynchList_unlock_def)
qed

lemma Append_outcome:
  assumes "sl_pool (lock_queue (sl_lock sl)) (cond_queue (listEmpty sl)) st" "tview st (currentThread st) = Some (k0, ls, False)"
    "List_inv (sl_list sl)"
  obtains xs cq st' where "SynchList_Append_locked ASignaled x sl st = Inr (sl\<lparr>sl_list := xs, listEmpty := (listEmpty sl)\<lparr>cond_queue := cq\<rparr>\<rparr>, st')"
    "sl_pool (lock_queue (sl_lock sl)) cq st'" "List_inv xs" "List_items xs = List_items (sl_list sl) @ [x]"
    "live st' = live st @ take 1 (List_items (cond_queue (listEmpty sl)))"
    "spot_of st' = (spot_of st)(currentThread st \<mapsto> ASignaled)" "runs_at ASignaled ls st'"
    "List_items cq = tl (List_items (cond_queue (listEmpty sl)))"
proof -
  obtain xs where x: "List_Append x (sl_list sl) = Inr xs" "List_inv xs" "List_items xs = List_items (sl_list sl) @ [x]"
    using list_fifo.enq_ok [OF assms(3)] by blast
  obtain cq s1 where c: "Condition_Signal (listEmpty sl) st = Inr ((listEmpty sl)\<lparr>cond_queue := cq\<rparr>, s1)" "sl_pool (lock_queue (sl_lock sl)) cq s1"
    "currentThread s1 = currentThread st" "ready s1 = ready st @ take 1 (List_items (cond_queue (listEmpty sl)))" "tview s1 = tview st" "level s1 = level st"
    "List_items cq = tl (List_items (cond_queue (listEmpty sl)))"
    by (rule Signal_wakes [OF assms(1,2)])
  have "tview s1 (currentThread s1) = Some (k0, ls, False)" using c(3,5) assms(2) by simp
  then obtain s2 where s: "set_cont ASignaled s1 = Inr s2" "same_schedule s1 s2" "level s2 = level s1" "tview s2 = (tview s1)(currentThread s1 \<mapsto> (ASignaled, ls, False))"
    by (rule set_cont_view)
  have "sl_pool (lock_queue (sl_lock sl)) cq s2" by (rule pool_own [OF c(2) s(2)]) (simp add: s(4))
  moreover have "live s2 = live st @ take 1 (List_items (cond_queue (listEmpty sl)))" "spot_of s2 = (spot_of st)(currentThread st \<mapsto> ASignaled)" "runs_at ASignaled ls s2"
    using s(2,4) c(3,4,5) by (auto simp: same_schedule_def spot_of_def runs_at_def fun_eq_iff)
  ultimately show thesis using that [where xs = xs and cq = cq and st' = s2] x c(1,7) s(1) by (simp add: SynchList_Append_locked_def)
qed

lemma Remove_outcome:
  assumes p: "sl_pool (lock_queue (sl_lock sl)) (cond_queue (listEmpty sl)) st" "tview st (currentThread st) = Some (k0, ls, False)"
    "lock_holder (sl_lock sl) = Some (currentThread st)" "List_inv (sl_list sl)"
  obtains (item) x xs lq st' where "SynchList_Remove_locked 1 halt RWait Idle sl st = Inr (Some x, sl\<lparr>sl_list := xs, sl_lock := (sl_lock sl)\<lparr>lock_queue := lq, lock_free := True\<rparr>\<rparr>, st')"
      "List_items (sl_list sl) = x # List_items xs" "List_inv xs" "sl_pool lq (cond_queue (listEmpty sl)) st'"
      "live st' = live st @ take 1 (List_items (lock_queue (sl_lock sl)))" "spot_of st' = (spot_of st)(currentThread st \<mapsto> Idle)" "runs_at Idle ls st'"
      "List_items lq = tl (List_items (lock_queue (sl_lock sl)))"
  | (waits) lq cq st' kn lsn where "SynchList_Remove_locked 1 halt RWait Idle sl st = Inr (None, sl\<lparr>listEmpty := (listEmpty sl)\<lparr>cond_queue := cq\<rparr>,
        sl_lock := (sl_lock sl)\<lparr>lock_queue := lq, lock_free := True\<rparr>\<rparr>, st')" "List_items (sl_list sl) = []" "sl_pool lq cq st'"
      "live st' = ready st @ take 1 (List_items (lock_queue (sl_lock sl)))" "spot_of st' = (spot_of st)(currentThread st \<mapsto> RWait)" "runs_at kn lsn st'"
      "List_items lq = tl (List_items (lock_queue (sl_lock sl)))" "List_items cq = List_items (cond_queue (listEmpty sl)) @ [currentThread st]"
  | (halts) "SynchList_Remove_locked 1 halt RWait Idle sl st = Inl Halted" "List_items (sl_list sl) = []" "ready st = []" "List_items (lock_queue (sl_lock sl)) = []"
proof (cases "List_items (sl_list sl)")
  case (Cons x rest)
  have ne: "\<not> List_IsEmpty (sl_list sl)" using Cons assms(4) List_empty_iff [of "sl_list sl"] by (auto simp: List_inv_def List_items_def List_elems_def)
  obtain xs where x: "List_Remove (sl_list sl) = Inr (Some x, xs)" "List_inv xs" "List_items xs = rest"
    using list_fifo.deq_ok [OF assms(4) Cons] by blast
  let ?sl = "sl\<lparr>sl_list := xs\<rparr>"
  have a: "sl_pool (lock_queue (sl_lock ?sl)) (cond_queue (listEmpty sl)) st" "lock_holder (sl_lock ?sl) = Some (currentThread st)" using p by simp_all
  obtain lq s2 where "SynchList_unlock Idle ?sl st = Inr (?sl\<lparr>sl_lock := (sl_lock ?sl)\<lparr>lock_queue := lq, lock_free := True\<rparr>\<rparr>, s2)" "sl_pool lq (cond_queue (listEmpty sl)) s2"
    "live s2 = live st @ take 1 (List_items (lock_queue (sl_lock ?sl)))" "spot_of s2 = (spot_of st)(currentThread st \<mapsto> Idle)" "runs_at Idle ls s2"
    "List_items lq = tl (List_items (lock_queue (sl_lock ?sl)))"
    by (rule unlock_outcome [OF a(1) p(2) a(2)])
  then show thesis using item [where x = x and xs = xs and lq = lq and st' = s2] ne x Cons by (simp add: SynchList_Remove_locked_def)
next
  case Nil
  have e: "List_IsEmpty (sl_list sl)" using Nil assms(4) List_empty_iff [of "sl_list sl"] by (auto simp: List_inv_def List_items_def List_elems_def)
  obtain s1 where d: "disable st = Inr s1" "same_schedule st s1" "level s1 = IntOff" "tview s1 = (tview st)(currentThread st \<mapsto> (k0, level st # ls, False))"
    by (rule disable_view [OF p(2)])
  have s1: "currentThread s1 = currentThread st" "ready s1 = ready st" using d(2) by (simp_all add: same_schedule_def)
  have p1: "sl_pool (lock_queue (sl_lock sl)) (cond_queue (listEmpty sl)) s1" by (rule pool_own [OF p(1) d(2)]) (simp add: d(4))
  have c1: "tview s1 (currentThread s1) = Some (k0, level st # ls, False)" "lock_holder (sl_lock sl) = Some (currentThread s1)" using d(4) s1(1) p(3) by simp_all
  obtain lq s2 where r: "Lock_Release (sl_lock sl) s1 = Inr ((sl_lock sl)\<lparr>lock_queue := lq, lock_free := True\<rparr>, s2)" "sl_pool lq (cond_queue (listEmpty sl)) s2"
    "currentThread s2 = currentThread s1" "ready s2 = ready s1 @ take 1 (List_items (lock_queue (sl_lock sl)))" "tview s2 = tview s1" "level s2 = level s1"
    "List_items lq = tl (List_items (lock_queue (sl_lock sl)))"
    by (rule Release_wakes [OF p1 c1])
  have c2: "level s2 = IntOff" "tview s2 (currentThread s2) = Some (k0, level st # ls, False)" using r(3,5,6) d(3) c1 by simp_all
  have q: "asleep_on item_spot (cond_queue (listEmpty sl)) s2" using r(2) by (simp add: sl_pool_def)
  show thesis
  proof (cases "ready s2")
    case Nil2: Nil
    have qi: "List_inv (cond_queue (listEmpty sl))" using q by (simp add: asleep_on_def)
    obtain cq where "List_Append (currentThread s2) (cond_queue (listEmpty sl)) = Inr cq" using list_fifo.enq_ok [OF qi] by blast
    then have "SynchList_Remove_locked 1 halt RWait Idle sl st = Inl Halted"
      using e d(1) r(1) sleep_alone_halts [OF r(2) c2 Nil2] by (simp add: SynchList_Remove_locked_def Condition_Wait_def)
    moreover have "ready st = []" "List_items (lock_queue (sl_lock sl)) = []" using Nil2 r(4) s1(2) by (cases "List_items (lock_queue (sl_lock sl))"; simp)+
    ultimately show thesis using halts Nil by blast
  next
    case (Cons n ts)
    have dp: "depth RWait \<le> length (level st # ls)" by simp
    obtain cq st' kn lsn where s: "List_Append (currentThread s2) (cond_queue (listEmpty sl)) = Inr cq" "List_items cq = List_items (cond_queue (listEmpty sl)) @ [currentThread s2]"
      "Thread_Sleep 1 halt RWait s2 = Inr st'" "sys_ok st'" "live st' = n # ts" "asleep_on item_spot cq st'" "runs_at kn lsn st'"
      "spot_of st' = (spot_of s2)(currentThread s2 \<mapsto> RWait)" "\<forall>t. t \<notin> {currentThread s2, n} \<longrightarrow> tview st' t = tview s2 t" "\<forall>u. sleeping s2 u \<longrightarrow> sleeping st' u"
      by (rule sleep_asleep [OF r(2) c2 Cons dp, of item_spot]) (use q in auto)
    have "sl_pool lq cq st'" using pool_after_sleep [OF r(2) Cons s(4,5,9,10)] s(4,6) by (simp add: sl_pool_def)
    moreover have "SynchList_Remove_locked 1 halt RWait Idle sl st = Inr (None, sl\<lparr>listEmpty := (listEmpty sl)\<lparr>cond_queue := cq\<rparr>,
        sl_lock := (sl_lock sl)\<lparr>lock_queue := lq, lock_free := True\<rparr>\<rparr>, st')"
      using e d(1) r(1) s(1,3) by (simp add: SynchList_Remove_locked_def Condition_Wait_def)
    moreover have "spot_of st' = (spot_of st)(currentThread st \<mapsto> RWait)" using s(8) r(3,5) d(4) s1(1) by (auto simp: spot_of_def fun_eq_iff)
    ultimately show thesis using waits [where cq = cq and lq = lq and st' = st'] Nil s(2,5,7) r(3,4,7) s1 Cons by simp
  qed
qed

text \<open>\<^verbatim>\<open>Mapcar\<close> calls the function on the items in the order of the queue, and then gives up the lock.\<close>

lemma Mapcar_in_order:
  assumes "List_inv (sl_list sl)"
  shows "SynchList_Mapcar_locked k func sl st = bindE (foldE func (List_items (sl_list sl)) st) (SynchList_unlock k sl)"
  using assms by (simp add: SynchList_Mapcar_locked_def List_Mapcar_spec List_inv_def)

text \<open>Returning from a nested call, and being preempted.\<close>

lemma leave_outcome:
  assumes "sl_pool lq cq st" "tview st (currentThread st) = Some (k, lv # ls, False)" "depth p \<le> length ls" "wf_spot p" "\<not> lock_spot p"
  obtains s1 st' where "restore st = Inr s1" "set_cont p s1 = Inr st'" "sl_pool lq cq st'" "live st' = live st" "spot_of st' = (spot_of st)(currentThread st \<mapsto> p)"
    "runs_at p ls st'"
proof -
  let ?c = "currentThread st"
  obtain s1 where r: "restore st = Inr s1" "same_schedule st s1" "level s1 = lv" "tview s1 = (tview st)(?c \<mapsto> (k, ls, False))"
    by (rule restore_view [OF assms(2)])
  have c1: "currentThread s1 = ?c" using r(2) by (simp add: same_schedule_def)
  then have "tview s1 (currentThread s1) = Some (k, ls, False)" using r(4) by simp
  then obtain s2 where s: "set_cont p s1 = Inr s2" "same_schedule s1 s2" "level s2 = level s1" "tview s2 = (tview s1)(currentThread s1 \<mapsto> (p, ls, False))"
    by (rule set_cont_view)
  have ss: "same_schedule st s2" and tv: "tview s2 = (tview st)(?c \<mapsto> (p, ls, False))"
    using same_schedule_trans [OF r(2) s(2)] r(4) s(4) c1 by auto
  have "sl_pool lq cq s2" by (rule pool_own [OF assms(1) ss]) (simp add: tv)
  moreover have "live s2 = live st" "runs_at p ls s2" "spot_of s2 = (spot_of st)(?c \<mapsto> p)"
    using ss tv assms(3-5) by (auto simp: same_schedule_def runs_at_def spot_of_def fun_eq_iff)
  ultimately show thesis using that r(1) s(1) by blast
qed

lemma preempt_outcome:
  assumes p: "sl_pool lq cq st" and c: "tview st (currentThread st) = Some (p, ls, False)" and y: "may_yield p"
  obtains st' kn lsn where "Thread_Yield (Preempted p) st = Inr st'" "sl_pool lq cq st'" "live st' = rotate1 (live st)"
    "spot_of st' = (spot_of st)(currentThread st \<mapsto> Preempted p)" "runs_at kn lsn st'"
proof -
  let ?c = "currentThread st"
  have sy: "sys_ok st" using p by (simp add: sl_pool_def)
  have d: "distinct (live st)" using nachos_threads.inv_distinct [OF sy] by simp
  obtain st' where v: "Thread_Yield (Preempted p) st = Inr st'" "sys_ok st'" "live st' = rotate1 (live st)"
    "tview st' = (case ready st of [] \<Rightarrow> (tview st)(?c \<mapsto> (Preempted p, level st # ls, False))
        | n # _ \<Rightarrow> (tview st)(?c \<mapsto> (Preempted p, level st # ls, False), n \<mapsto> (\<lambda>(kn, lsn, fn). (kn, lsn, False)) (the (tview st n))))"
    "level st' = (case ready st of [] \<Rightarrow> IntOff | n # _ \<Rightarrow> (\<lambda>(kn, lsn, fn). if fn then IntOn else IntOff) (the (tview st n)))"
    "\<forall>u. sleeping st u \<longrightarrow> sleeping st' u"
    using Thread_Yield_view [OF sy c, of "Preempted p"] by auto
  have dp: "depth (Preempted p) \<le> length (level st # ls)" "wf_spot (Preempted p)" using may_yieldD [OF y] y by simp_all
  have rd: "\<exists>k ls f. tview st t = Some (k, ls, f) \<and> depth k \<le> length ls \<and> wf_spot k \<and> (f \<longrightarrow> k = Idle)" if "t \<in> set (ready st)" for t
    using that p by (auto simp: sl_pool_def spot_ok_def)
  have tv: "tview st' t = (if t = ?c then Some (Preempted p, level st # ls, False)
      else if t \<in> set (take 1 (ready st)) then map_option (\<lambda>(k, ls, f). (k, ls, False)) (tview st t) else tview st t)" for t
  proof (cases "ready st")
    case (Cons n ts)
    then obtain kn lsn fn where "tview st n = Some (kn, lsn, fn)" using rd [of n] by auto
    then show ?thesis using v(4) Cons d by simp
  qed (use v(4) in simp)
  have sp: "spot_of st' = (spot_of st)(?c \<mapsto> Preempted p)" by (auto simp: spot_of_def tv fun_eq_iff option.map_comp comp_def case_prod_beta)
  have sl: "asleep_on P q st'" if q: "asleep_on P q st" for P q
  proof -
    have "tview st' t = tview st t \<and> sleeping st' t" if "t \<in> set (List_items q)" for t
      using that q v(6) sleeping_idle [OF sy, of t] by (auto simp: asleep_on_def tv dest: in_set_takeD)
    then show ?thesis using q by (simp add: asleep_on_def)
  qed
  have ok: "spot_ok st' t" if t: "t \<in> set (live st)" for t
  proof (cases "t = ?c")
    case True
    then show ?thesis using tv dp by (auto simp: spot_ok_def)
  next
    case False
    then obtain k2 ls2 f2 where "tview st t = Some (k2, ls2, f2)" "depth k2 \<le> length ls2" "wf_spot k2" "f2 \<longrightarrow> k2 = Idle" using rd [of t] t by auto
    then show ?thesis using False by (auto simp: spot_ok_def tv)
  qed
  have "set (ready st') \<subseteq> set (live st)" using v(3) by (metis set_rotate1 set_subset_Cons)
  then have "sl_pool lq cq st'" using p sl ok v(2) by (auto simp: sl_pool_def)
  moreover have "\<exists>kn lsn. runs_at kn lsn st'"
  proof (cases "ready st")
    case Nil
    then show ?thesis using v(3,4,5) dp by (auto simp: runs_at_def)
  next
    case (Cons n ts)
    then obtain kn lsn fn where n: "tview st n = Some (kn, lsn, fn)" "depth kn \<le> length lsn" "wf_spot kn" "fn \<longrightarrow> kn = Idle" using rd [of n] by auto
    have "currentThread st' = n" using v(3) Cons by simp
    then show ?thesis using n Cons v(4,5) by (auto simp: runs_at_def)
  qed
  ultimately show thesis using that v(1,3) sp by blast
qed

section \<open>The invariant\<close>

definition takers_in :: "(nat \<Rightarrow> 'a spot option) \<Rightarrow> nat list \<Rightarrow> nat" where
  "takers_in sp xs = length (filter (\<lambda>t. case sp t of None \<Rightarrow> False | Some p \<Rightarrow> taker p) xs)"

lemma takers_in_simps [simp]:
  "takers_in sp [] = 0" "takers_in sp (xs @ ys) = takers_in sp xs + takers_in sp ys"
  "takers_in sp (t # xs) = (case sp t of None \<Rightarrow> 0 | Some p \<Rightarrow> of_bool (taker p)) + takers_in sp xs"
  by (simp_all add: takers_in_def split: option.split)

lemma takers_in_upd [simp]: "t \<notin> set xs \<Longrightarrow> takers_in (sp(t \<mapsto> p)) xs = takers_in sp xs"
  unfolding takers_in_def by (rule arg_cong [where f = length], rule filter_cong) auto

lemma takers_in_split: "takers_in sp (take 1 xs) + takers_in sp (tl xs) = takers_in sp xs"
  by (cases xs) auto

definition holder_at :: "'a spot Nachos \<Rightarrow> nat \<Rightarrow> bool" where
  "holder_at st t \<longleftrightarrow> (case spot_of st t of None \<Rightarrow> False | Some p \<Rightarrow> holds p)"

definition holders_ok :: "'a SynchList \<Rightarrow> 'a spot Nachos \<Rightarrow> bool" where
  "holders_ok sl st \<longleftrightarrow> (\<forall>t. holder_at st t \<longrightarrow> \<not> lock_free (sl_lock sl) \<and> lock_holder (sl_lock sl) = Some t)
     \<and> (\<not> lock_free (sl_lock sl) \<longrightarrow> (\<exists>t \<in> set (live st). lock_holder (sl_lock sl) = Some t \<and> holder_at st t))"

lemma holder_at_upd: "spot_of st' = (spot_of st)(c \<mapsto> p) \<Longrightarrow> holder_at st' t = (if t = c then holds p else holder_at st t)"
  by (simp add: holder_at_def)

lemma holders_same:
  assumes "holders_ok sl st" "spot_of st c = Some p" "spot_of st' = (spot_of st)(c \<mapsto> p')" "holds p' = holds p" "\<forall>t \<in> set (live st). t \<in> set (live st') \<or> t = c \<and> \<not> holds p"
    "lock_free (sl_lock sl') = lock_free (sl_lock sl)" "lock_holder (sl_lock sl') = lock_holder (sl_lock sl)"
  shows "holders_ok sl' st'"
proof -
  have c: "holder_at st c = holds p" using assms(2) by (simp add: holder_at_def)
  then have "holder_at st' t = holder_at st t" for t using holder_at_upd [OF assms(3), of t] assms(4) by simp
  then show ?thesis using assms(1,5-7) c unfolding holders_ok_def by metis
qed

lemma holders_take:
  assumes "holders_ok sl st" "lock_free (sl_lock sl)" "spot_of st' = (spot_of st)(c \<mapsto> p)" "holds p" "c \<in> set (live st')"
    "\<not> lock_free (sl_lock sl')" "lock_holder (sl_lock sl') = Some c"
  shows "holders_ok sl' st'"
  using assms holder_at_upd [OF assms(3)] by (auto simp: holders_ok_def)

lemma holders_release:
  assumes "holders_ok sl st" "lock_holder (sl_lock sl) = Some c" "spot_of st' = (spot_of st)(c \<mapsto> p)" "\<not> holds p" "lock_free (sl_lock sl')"
  shows "holders_ok sl' st'"
  using assms holder_at_upd [OF assms(3)] by (auto simp: holders_ok_def)

text \<open>While a thread waits for an item, there are no more items than threads that have been woken and will take one.\<close>

definition signals_ok :: "'a SynchList \<Rightarrow> 'a spot Nachos \<Rightarrow> bool" where
  "signals_ok sl st \<longleftrightarrow> (List_items (cond_queue (listEmpty sl)) \<noteq> [] \<longrightarrow>
     length (List_items (sl_list sl)) \<le> takers_in (spot_of st) (live st @ List_items (lock_queue (sl_lock sl))))"

definition sl_inv :: "'a slsys \<Rightarrow> bool" where
  "sl_inv = (\<lambda>(sl, st, a, r). sl_pool (lock_queue (sl_lock sl)) (cond_queue (listEmpty sl)) st \<and> (\<exists>k ls. runs_at k ls st) \<and> List_inv (sl_list sl)
     \<and> a = r @ List_items (sl_list sl) \<and> holders_ok sl st \<and> signals_ok sl st)"

lemma sl_invD:
  assumes "sl_inv (sl, st, a, r)"
  shows "sl_pool (lock_queue (sl_lock sl)) (cond_queue (listEmpty sl)) st" "List_inv (sl_list sl)" "a = r @ List_items (sl_list sl)" "holders_ok sl st" "signals_ok sl st"
    "currentThread st \<notin> set (ready st)" "currentThread st \<notin> set (List_items (lock_queue (sl_lock sl)))"
    "distinct (ready st @ List_items (lock_queue (sl_lock sl)))" "currentThread st \<notin> set (List_items (cond_queue (listEmpty sl)))"
  using assms pool_distinct [of "lock_queue (sl_lock sl)" "cond_queue (listEmpty sl)" st] by (auto simp: sl_inv_def)

lemma sl_inv_runs:
  assumes "sl_inv (sl, st, a, r)" "spot_of st (currentThread st) = Some k"
  obtains ls where "runs_at k ls st"
  using assms by (auto simp: sl_inv_def runs_at_def spot_of_def)

text \<open>Taking the lock from a spot outside keeps the invariant; it cannot leave the machine without a thread to run.\<close>

lemma lock_kept:
  assumes inv: "sl_inv (sl, st, a, r)" and k: "spot_of st (currentThread st) = Some k" "\<not> holds k"
    and w: "\<not> holds wait" "taker k \<longrightarrow> taker wait" "taker wait \<longrightarrow> taker got"
  shows "ready st = [] \<Longrightarrow> lock_free (sl_lock sl)"
    "lock_free (sl_lock sl) \<Longrightarrow> sl_pool (lock_queue (sl_lock sl)) (cond_queue (listEmpty sl)) st' \<Longrightarrow> live st' = live st \<Longrightarrow>
      spot_of st' = (spot_of st)(currentThread st \<mapsto> got) \<Longrightarrow> runs_at got ls st' \<Longrightarrow> holds got \<Longrightarrow>
      sl_inv (sl\<lparr>sl_lock := (sl_lock sl)\<lparr>lock_free := False, lock_holder := Some (currentThread st)\<rparr>\<rparr>, st', a, r)"
    "\<not> lock_free (sl_lock sl) \<Longrightarrow> sl_pool q' (cond_queue (listEmpty sl)) st' \<Longrightarrow> live st' = ready st \<Longrightarrow>
      spot_of st' = (spot_of st)(currentThread st \<mapsto> wait) \<Longrightarrow> runs_at kn lsn st' \<Longrightarrow> List_items q' = List_items (lock_queue (sl_lock sl)) @ [currentThread st] \<Longrightarrow>
      sl_inv (sl\<lparr>sl_lock := (sl_lock sl)\<lparr>lock_queue := q'\<rparr>\<rparr>, st', a, r)"
proof -
  note d = sl_invD [OF inv]
  show "ready st = [] \<Longrightarrow> lock_free (sl_lock sl)" using d(4) k by (auto simp: holders_ok_def holder_at_def)
  show "sl_inv (sl\<lparr>sl_lock := (sl_lock sl)\<lparr>lock_free := False, lock_holder := Some (currentThread st)\<rparr>\<rparr>, st', a, r)"
    if "lock_free (sl_lock sl)" "sl_pool (lock_queue (sl_lock sl)) (cond_queue (listEmpty sl)) st'" "live st' = live st"
      "spot_of st' = (spot_of st)(currentThread st \<mapsto> got)" "runs_at got ls st'" "holds got"
  proof -
    let ?sl = "sl\<lparr>sl_lock := (sl_lock sl)\<lparr>lock_free := False, lock_holder := Some (currentThread st)\<rparr>\<rparr>"
    have "holders_ok ?sl st'" by (rule holders_take [OF d(4) that(1,4,6)]) (use that(3) in auto)
    moreover have "signals_ok ?sl st'" using d(5,6,7) that(3,4) k w by (auto simp: signals_ok_def of_bool_def split: if_splits)
    ultimately show ?thesis using d(2,3) that by (auto simp: sl_inv_def)
  qed
  show "sl_inv (sl\<lparr>sl_lock := (sl_lock sl)\<lparr>lock_queue := q'\<rparr>\<rparr>, st', a, r)"
    if "\<not> lock_free (sl_lock sl)" "sl_pool q' (cond_queue (listEmpty sl)) st'" "live st' = ready st"
      "spot_of st' = (spot_of st)(currentThread st \<mapsto> wait)" "runs_at kn lsn st'" "List_items q' = List_items (lock_queue (sl_lock sl)) @ [currentThread st]"
  proof -
    let ?sl = "sl\<lparr>sl_lock := (sl_lock sl)\<lparr>lock_queue := q'\<rparr>\<rparr>"
    have "holders_ok ?sl st'" by (rule holders_same [OF d(4) k(1) that(4)]) (use that(3) k w(1) in auto)
    moreover have "signals_ok ?sl st'" using d(5,6,7) that(3,4,6) k w by (auto simp: signals_ok_def of_bool_def split: if_splits)
    ultimately show ?thesis using d(2,3) that by (auto simp: sl_inv_def)
  qed
qed

text \<open>The outcome of one step of the relation, from a state that satisfies the invariant.\<close>

lemma lock_step_ok:
  assumes inv: "sl_inv (sl, st, a, r)" and k: "spot_of st (currentThread st) = Some k" "depth k = 0 \<or> k = RWait" "\<not> holds k"
    and w: "lock_spot wait" "depth wait = Suc (depth k)" "\<not> holds wait" "taker k \<longrightarrow> taker wait" "taker wait \<longrightarrow> taker got"
    and h: "depth got = depth k" "wf_spot got" "\<not> lock_spot got" "holds got"
  shows "\<exists>sl' st'. SynchList_lock 1 halt wait got sl st = Inr (sl', st') \<and> sl_inv (sl', st', a, r)"
proof -
  obtain ls where rn: "runs_at k ls st" by (rule sl_inv_runs [OF inv k(1)])
  have v: "tview st (currentThread st) = Some (k, ls, False)" "depth wait \<le> Suc (length ls)" "depth got \<le> length ls" using rn w(2) h(1) by (simp_all add: runs_at_def)
  note kept = lock_kept [OF inv k(1,3) w(3,4,5)]
  show ?thesis by (rule lock_outcome [OF sl_invD(1) [OF inv] v(1) w(1) v(2,3) h(2,3)]) (use kept h(4) in blast)+
qed

lemma retry_step_ok:
  assumes inv: "sl_inv (sl, st, a, r)" and k: "spot_of st (currentThread st) = Some wait"
    and w: "lock_spot wait" "depth wait = Suc (depth got)" "\<not> holds wait" "taker wait \<longrightarrow> taker got"
    and h: "wf_spot got" "\<not> lock_spot got" "holds got"
  shows "\<exists>sl' st'. SynchList_lock_retry 1 halt wait got sl st = Inr (sl', st') \<and> sl_inv (sl', st', a, r)"
proof -
  obtain ls0 where rn: "runs_at wait ls0 st" by (rule sl_inv_runs [OF inv k(1)])
  then obtain lv ls where ls: "ls0 = lv # ls" using w(2) by (cases ls0) (auto simp: runs_at_def)
  have v: "tview st (currentThread st) = Some (wait, lv # ls, False)" "depth wait \<le> Suc (length ls)" "depth got \<le> length ls" "level st = IntOff"
    using rn w(1,2) ls by (simp_all add: runs_at_def)
  note kept = lock_kept [OF inv k w(3) w(3) _ w(4)]
  show ?thesis by (rule lock_retry_outcome [OF sl_invD(1) [OF inv] v(4,1) w(1) v(2,3) h(1,2)]) (use kept h(3) in blast)+
qed

lemma append_step_ok:
  assumes inv: "sl_inv (sl, st, a, r)" and k: "spot_of st (currentThread st) = Some (AHave x)"
  shows "\<exists>sl' st'. SynchList_Append_locked ASignaled x sl st = Inr (sl', st') \<and> sl_inv (sl', st', a @ [x], r)"
proof -
  note d = sl_invD [OF inv]
  obtain ls where "runs_at (AHave x) ls st" by (rule sl_inv_runs [OF inv k])
  then have v: "tview st (currentThread st) = Some (AHave x, ls, False)" by (simp add: runs_at_def)
  obtain xs cq st' where o: "SynchList_Append_locked ASignaled x sl st = Inr (sl\<lparr>sl_list := xs, listEmpty := (listEmpty sl)\<lparr>cond_queue := cq\<rparr>\<rparr>, st')"
    "sl_pool (lock_queue (sl_lock sl)) cq st'" "List_inv xs" "List_items xs = List_items (sl_list sl) @ [x]"
    "live st' = live st @ take 1 (List_items (cond_queue (listEmpty sl)))"
    "spot_of st' = (spot_of st)(currentThread st \<mapsto> ASignaled)" "runs_at ASignaled ls st'" "List_items cq = tl (List_items (cond_queue (listEmpty sl)))"
    by (rule Append_outcome [OF d(1) v d(2)])
  let ?sl = "sl\<lparr>sl_list := xs, listEmpty := (listEmpty sl)\<lparr>cond_queue := cq\<rparr>\<rparr>"
  have "holders_ok ?sl st'" by (rule holders_same [OF d(4) k o(6)]) (use o(5) in auto)
  moreover have "signals_ok ?sl st'"
  proof (cases "List_items (cond_queue (listEmpty sl))")
    case (Cons t ts)
    have t: "spot_of st t = Some RWait" "t \<noteq> currentThread st"
      using d(1,9) Cons by (auto simp: sl_pool_def asleep_on_def spot_of_def)
    have "takers_in (spot_of st') (live st' @ List_items (lock_queue (sl_lock sl))) = Suc (takers_in (spot_of st) (live st @ List_items (lock_queue (sl_lock sl))))"
      using d(6,7) t Cons o(5,6) k by simp
    then show ?thesis using d(5) Cons o(4) by (simp add: signals_ok_def)
  qed (simp add: signals_ok_def o(8))
  ultimately have "sl_inv (?sl, st', a @ [x], r)" using d(3) o by (auto simp: sl_inv_def)
  then show ?thesis using o(1) by blast
qed

lemma signaled_step_ok:
  assumes inv: "sl_inv (sl, st, a, r)" and k: "spot_of st (currentThread st) = Some ASignaled"
  shows "\<exists>sl' st'. SynchList_unlock Idle sl st = Inr (sl', st') \<and> sl_inv (sl', st', a, r)"
proof -
  note d = sl_invD [OF inv]
  obtain ls where "runs_at ASignaled ls st" by (rule sl_inv_runs [OF inv k])
  then have v: "tview st (currentThread st) = Some (ASignaled, ls, False)" by (simp add: runs_at_def)
  have h: "lock_holder (sl_lock sl) = Some (currentThread st)" using d(4) k by (auto simp: holders_ok_def holder_at_def)
  obtain lq st' where o: "SynchList_unlock Idle sl st = Inr (sl\<lparr>sl_lock := (sl_lock sl)\<lparr>lock_queue := lq, lock_free := True\<rparr>\<rparr>, st')"
    "sl_pool lq (cond_queue (listEmpty sl)) st'" "live st' = live st @ take 1 (List_items (lock_queue (sl_lock sl)))"
    "spot_of st' = (spot_of st)(currentThread st \<mapsto> Idle)" "runs_at Idle ls st'" "List_items lq = tl (List_items (lock_queue (sl_lock sl)))"
    by (rule unlock_outcome [OF d(1) v h])
  let ?sl = "sl\<lparr>sl_lock := (sl_lock sl)\<lparr>lock_queue := lq, lock_free := True\<rparr>\<rparr>"
  have "holders_ok ?sl st'" by (rule holders_release [OF d(4) h o(4)]) simp_all
  moreover have "takers_in (spot_of st') (live st' @ List_items lq) = takers_in (spot_of st) (live st @ List_items (lock_queue (sl_lock sl)))"
    using d(6,7) o(3,4,6) k by (cases "List_items (lock_queue (sl_lock sl))") auto
  then have "signals_ok ?sl st'" using d(5) by (simp add: signals_ok_def)
  ultimately have "sl_inv (?sl, st', a, r)" using d(2,3) o by (auto simp: sl_inv_def)
  then show ?thesis using o(1) by blast
qed

lemma remove_step_ok:
  assumes inv: "sl_inv (sl, st, a, r)" and k: "spot_of st (currentThread st) = Some RHave"
  shows "(\<exists>item sl' st'. SynchList_Remove_locked 1 halt RWait Idle sl st = Inr (item, sl', st') \<and> sl_inv (sl', st', a, r @ (case item of None \<Rightarrow> [] | Some x \<Rightarrow> [x])))
    \<or> SynchList_Remove_locked 1 halt RWait Idle sl st = Inl Halted \<and> List_items (sl_list sl) = [] \<and> ready st = [] \<and> List_items (lock_queue (sl_lock sl)) = []"
proof -
  note d = sl_invD [OF inv]
  obtain ls where "runs_at RHave ls st" by (rule sl_inv_runs [OF inv k])
  then have v: "tview st (currentThread st) = Some (RHave, ls, False)" by (simp add: runs_at_def)
  have h: "lock_holder (sl_lock sl) = Some (currentThread st)" using d(4) k by (auto simp: holders_ok_def holder_at_def)
  show ?thesis
  proof (rule Remove_outcome [OF d(1) v h d(2)])
    fix x xs lq st'
    assume o: "SynchList_Remove_locked 1 halt RWait Idle sl st = Inr (Some x, sl\<lparr>sl_list := xs, sl_lock := (sl_lock sl)\<lparr>lock_queue := lq, lock_free := True\<rparr>\<rparr>, st')"
      "List_items (sl_list sl) = x # List_items xs" "List_inv xs" "sl_pool lq (cond_queue (listEmpty sl)) st'"
      "live st' = live st @ take 1 (List_items (lock_queue (sl_lock sl)))" "spot_of st' = (spot_of st)(currentThread st \<mapsto> Idle)" "runs_at Idle ls st'"
      "List_items lq = tl (List_items (lock_queue (sl_lock sl)))"
    let ?sl = "sl\<lparr>sl_list := xs, sl_lock := (sl_lock sl)\<lparr>lock_queue := lq, lock_free := True\<rparr>\<rparr>"
    have "holders_ok ?sl st'" by (rule holders_release [OF d(4) h o(6)]) simp_all
    moreover have "signals_ok ?sl st'"
    proof -
      have "takers_in (spot_of st) (live st @ List_items (lock_queue (sl_lock sl))) = Suc (takers_in (spot_of st') (live st' @ List_items lq))"
        using d(6,7) o(5,6,8) k by (cases "List_items (lock_queue (sl_lock sl))") auto
      then show ?thesis using d(5) o(2) by (simp add: signals_ok_def)
    qed
    ultimately have "sl_inv (?sl, st', a, r @ [x])" using d(3) o by (auto simp: sl_inv_def)
    then show ?thesis using o(1) by auto
  next
    fix lq cq st' kn lsn
    assume o: "SynchList_Remove_locked 1 halt RWait Idle sl st = Inr (None, sl\<lparr>listEmpty := (listEmpty sl)\<lparr>cond_queue := cq\<rparr>,
        sl_lock := (sl_lock sl)\<lparr>lock_queue := lq, lock_free := True\<rparr>\<rparr>, st')" "List_items (sl_list sl) = []" "sl_pool lq cq st'"
      "live st' = ready st @ take 1 (List_items (lock_queue (sl_lock sl)))" "spot_of st' = (spot_of st)(currentThread st \<mapsto> RWait)" "runs_at kn lsn st'"
    let ?sl = "sl\<lparr>listEmpty := (listEmpty sl)\<lparr>cond_queue := cq\<rparr>, sl_lock := (sl_lock sl)\<lparr>lock_queue := lq, lock_free := True\<rparr>\<rparr>"
    have "holders_ok ?sl st'" by (rule holders_release [OF d(4) h o(5)]) simp_all
    moreover have "signals_ok ?sl st'" using o(2) by (simp add: signals_ok_def)
    ultimately have "sl_inv (?sl, st', a, r)" using d(2,3) o by (auto simp: sl_inv_def)
    then show ?thesis using o(1) by auto
  qed blast
qed

lemma leave_step_ok:
  assumes inv: "sl_inv (sl, st, a, r)" and k: "spot_of st (currentThread st) = Some k" "depth k = Suc (depth p)"
    and p: "holds p = holds k" "taker p = taker k" "wf_spot p" "\<not> lock_spot p"
  shows "\<exists>s1 st'. restore st = Inr s1 \<and> set_cont p s1 = Inr st' \<and> sl_inv (sl, st', a, r)"
proof -
  note d = sl_invD [OF inv]
  obtain ls0 where rn: "runs_at k ls0 st" by (rule sl_inv_runs [OF inv k(1)])
  then obtain lv ls where ls: "ls0 = lv # ls" using k(2) by (cases ls0) (auto simp: runs_at_def)
  have v: "tview st (currentThread st) = Some (k, lv # ls, False)" "depth p \<le> length ls" using rn ls k(2) by (simp_all add: runs_at_def)
  obtain s1 st' where o: "restore st = Inr s1" "set_cont p s1 = Inr st'" "sl_pool (lock_queue (sl_lock sl)) (cond_queue (listEmpty sl)) st'" "live st' = live st"
    "spot_of st' = (spot_of st)(currentThread st \<mapsto> p)" "runs_at p ls st'"
    by (rule leave_outcome [OF d(1) v p(3,4)])
  have "holders_ok sl st'" by (rule holders_same [OF d(4) k(1) o(5) p(1)]) (use o(4) in auto)
  moreover have "signals_ok sl st'" using d(5,6,7) o(4,5) k(1) p(2) by (auto simp: signals_ok_def)
  ultimately show ?thesis using d(2,3) o by (auto simp: sl_inv_def)
qed

lemma preempt_step_ok:
  assumes inv: "sl_inv (sl, st, a, r)" and k: "spot_of st (currentThread st) = Some p" "may_yield p"
  shows "\<exists>st'. Thread_Yield (Preempted p) st = Inr st' \<and> sl_inv (sl, st', a, r)"
proof -
  note d = sl_invD [OF inv]
  obtain ls where "runs_at p ls st" by (rule sl_inv_runs [OF inv k(1)])
  then have v: "tview st (currentThread st) = Some (p, ls, False)" by (simp add: runs_at_def)
  obtain st' kn lsn where o: "Thread_Yield (Preempted p) st = Inr st'" "sl_pool (lock_queue (sl_lock sl)) (cond_queue (listEmpty sl)) st'" "live st' = rotate1 (live st)"
    "spot_of st' = (spot_of st)(currentThread st \<mapsto> Preempted p)" "runs_at kn lsn st'"
    by (rule preempt_outcome [OF d(1) v k(2)])
  have "set (live st') = set (live st)" using o(3) by simp
  then have "holders_ok sl st'" using holders_same [OF d(4) k(1) o(4)] by simp
  moreover have "signals_ok sl st'" using d(5,6,7) o(3,4) k(1) unfolding signals_ok_def by (cases "ready st") auto
  ultimately show ?thesis using d(2,3) o by (auto simp: sl_inv_def)
qed

section \<open>What a synchronized list promises\<close>

lemma relocked_step_ok:
  assumes "sl_inv (sl, st, a, r)" "spot_of st (currentThread st) = Some RRelocked"
  shows "\<exists>st'. SynchList_Remove_relocked RHave sl st = Inr (sl, st') \<and> sl_inv (sl, st', a, r)"
  using leave_step_ok [OF assms, of RHave] by (auto simp: SynchList_Remove_relocked_def Condition_Wait_return_def)

lemma resume_step_ok:
  assumes "sl_inv (sl, st, a, r)" "spot_of st (currentThread st) = Some (Preempted p)"
  shows "\<exists>s1 st'. restore st = Inr s1 \<and> set_cont p s1 = Inr st' \<and> sl_inv (sl, st', a, r)"
proof -
  obtain ls where "runs_at (Preempted p) ls st" by (rule sl_inv_runs [OF assms])
  then have "may_yield p" by (simp add: runs_at_def)
  then show ?thesis using leave_step_ok [OF assms, of p] may_yieldD [of p] by simp
qed

lemma woken_step_ok:
  assumes "sl_inv (sl, st, a, r)" "spot_of st (currentThread st) = Some RWait"
  shows "\<exists>sl' st'. SynchList_Remove_woken 1 halt RRelock RRelocked sl st = Inr (sl', st') \<and> sl_inv (sl', st', a, r)"
  using lock_step_ok [OF assms, of RRelock RRelocked] by (simp add: SynchList_Remove_woken_def Condition_Wait_acquire_def SynchList_lock_def)

lemmas lock_steps = lock_step_ok [where k = Idle and wait = "ALock x" and got = "AHave x" for x, simplified]
  lock_step_ok [where k = Idle and wait = RLock and got = RHave, simplified]
  retry_step_ok [where wait = "ALock x" and got = "AHave x" for x, simplified]
  retry_step_ok [where wait = RLock and got = RHave, simplified]
  retry_step_ok [where wait = RRelock and got = RRelocked, simplified]

lemma sl_step_inv:
  assumes "sl_step s s'" "sl_inv s"
  shows "sl_inv s'"
  using assms
proof (induction rule: sl_step.induct)
  case (append st x sl sl' st' a r)
  then show ?case using lock_steps(1) [of sl st a r x] by auto
next
  case (append_retry st x sl sl' st' a r)
  then show ?case using lock_steps(3) [of sl st a r x] by auto
next
  case (remove st sl sl' st' a r)
  then show ?case using lock_steps(2) [of sl st a r] by auto
next
  case (remove_retry st sl sl' st' a r)
  then show ?case using lock_steps(4) [of sl st a r] by auto
next
  case (relock_retry st sl sl' st' a r)
  then show ?case using lock_steps(5) [of sl st a r] by auto
next
  case (append_locked st x sl sl' st' a r)
  then show ?case using append_step_ok [of sl st a r x] by auto
next
  case (append_signaled st sl sl' st' a r)
  then show ?case using signaled_step_ok [of sl st a r] by auto
next
  case (remove_locked st sl item sl' st' a r)
  then show ?case using remove_step_ok [of sl st a r] by fastforce
next
  case (remove_woken st sl sl' st' a r)
  then show ?case using woken_step_ok [of sl st a r] by auto
next
  case (relocked st sl sl' st' a r)
  then show ?case using relocked_step_ok [of sl st a r] by auto
next
  case (preempt st p st' sl a r)
  then show ?case using preempt_step_ok [of sl st a r p] by auto
next
  case (resume st p st1 st' sl a r)
  then show ?case using resume_step_ok [of sl st a r p] by auto
qed

lemma sl_reachable_inv: "sl_step\<^sup>*\<^sup>* s s' \<Longrightarrow> sl_inv s \<Longrightarrow> sl_inv s'"
  by (induction rule: rtranclp_induct) (auto intro: sl_step_inv)

text \<open>A system of threads that have not used the list yet.\<close>

definition sl_start :: "'a spot Nachos \<Rightarrow> bool" where
  "sl_start st \<longleftrightarrow> sys_ok st \<and> (\<forall>t p. spot_of st t = Some p \<longrightarrow> p = Idle) \<and> (\<exists>ls. tview st (currentThread st) = Some (Idle, ls, False))"

lemma sl_start_inv:
  assumes "sl_start st"
  shows "sl_inv (SynchList_new junk, st, [], [])"
proof -
  have s: "sys_ok st" "\<And>t p. spot_of st t = Some p \<Longrightarrow> p = Idle" using assms by (auto simp: sl_start_def)
  have "spot_ok st t" if "t \<in> set (ready st)" for t
  proof -
    have "tview st t \<noteq> None" by (rule nachos_threads.inv_view [OF s(1)]) (simp add: that)
    then obtain k ls f where v: "tview st t = Some (k, ls, f)" by auto
    then have "k = Idle" using s(2) [of t k] by (simp add: spot_of_def)
    then show ?thesis using v by (simp add: spot_ok_def)
  qed
  moreover have "\<not> holder_at st t" for t using s(2) [of t] by (auto simp: holder_at_def split: option.split)
  ultimately show ?thesis
    using assms by (auto simp: sl_inv_def sl_start_def sl_pool_def asleep_on_def SynchList_new_def Lock_new_def Condition_new_def List_items_def
        runs_at_def holders_ok_def signals_ok_def)
qed

text \<open>What the running thread does next, where a thread outside appends the item \<open>ch\<close> or, with none, removes.\<close>

definition void :: "'b res \<Rightarrow> unit res" where
  "void r = bindE r (\<lambda>_. Inr ())"

definition next_op :: "'a option \<Rightarrow> 'a SynchList \<Rightarrow> 'a spot Nachos \<Rightarrow> unit res" where
  "next_op ch sl st = (case spot_of st (currentThread st) of None \<Rightarrow> Inl NullDeref | Some k \<Rightarrow> (case k of
     Idle \<Rightarrow> (case ch of Some x \<Rightarrow> void (SynchList_lock 1 halt (ALock x) (AHave x) sl st) | None \<Rightarrow> void (SynchList_lock 1 halt RLock RHave sl st))
   | ALock x \<Rightarrow> void (SynchList_lock_retry 1 halt (ALock x) (AHave x) sl st)
   | AHave x \<Rightarrow> void (SynchList_Append_locked ASignaled x sl st)
   | ASignaled \<Rightarrow> void (SynchList_unlock Idle sl st)
   | RLock \<Rightarrow> void (SynchList_lock_retry 1 halt RLock RHave sl st)
   | RHave \<Rightarrow> void (SynchList_Remove_locked 1 halt RWait Idle sl st)
   | RWait \<Rightarrow> void (SynchList_Remove_woken 1 halt RRelock RRelocked sl st)
   | RRelock \<Rightarrow> void (SynchList_lock_retry 1 halt RRelock RRelocked sl st)
   | RRelocked \<Rightarrow> void (SynchList_Remove_relocked RHave sl st)
   | Preempted p \<Rightarrow> void (bindE (restore st) (set_cont p))))"

lemma next_op_ok:
  assumes inv: "sl_inv (sl, st, a, r)"
  shows "next_op ch sl st = Inr () \<or> next_op ch sl st = Inl Halted \<and> List_items (sl_list sl) = [] \<and> ready st = [] \<and> List_items (lock_queue (sl_lock sl)) = []"
proof -
  obtain k where k: "spot_of st (currentThread st) = Some k" using inv by (auto simp: sl_inv_def runs_at_def spot_of_def)
  show ?thesis
  proof (cases k)
    case Idle
    show ?thesis
    proof (cases ch)
      case None
      then show ?thesis using Idle k lock_steps(2) [OF inv] by (auto simp: next_op_def void_def)
    next
      case (Some x)
      then show ?thesis using Idle k lock_steps(1) [OF inv, of x] by (auto simp: next_op_def void_def)
    qed
  next
    case (ALock x)
    then show ?thesis using k lock_steps(3) [OF inv] by (auto simp: next_op_def void_def)
  next
    case (AHave x)
    then show ?thesis using k append_step_ok [OF inv, of x] by (auto simp: next_op_def void_def)
  next
    case ASignaled
    then show ?thesis using k signaled_step_ok [OF inv] by (auto simp: next_op_def void_def)
  next
    case RLock
    then show ?thesis using k lock_steps(4) [OF inv] by (auto simp: next_op_def void_def)
  next
    case RHave
    then show ?thesis using k remove_step_ok [OF inv] by (auto simp: next_op_def void_def)
  next
    case RWait
    then show ?thesis using k woken_step_ok [OF inv] by (auto simp: next_op_def void_def)
  next
    case RRelock
    then show ?thesis using k lock_steps(5) [OF inv] by (auto simp: next_op_def void_def)
  next
    case RRelocked
    then show ?thesis using k relocked_step_ok [OF inv] by (auto simp: next_op_def void_def)
  next
    case (Preempted p)
    then show ?thesis using k resume_step_ok [OF inv, of p] by (auto simp: next_op_def void_def)
  qed
qed

text \<open>C11: A synchronized list is a queue for every interleaving of threads that append and remove, with preemption by the timer wherever
  interrupts are turned on, between Signal and Release too: what has been
  removed is a prefix of what has been appended, in that order, and the rest is in the list; at most one thread is inside;
  while a thread waits for an item there are no more items than threads that are on their
  way to take one, so no wakeup is lost; and no operation ever fails, except that the machine halts when the last
  runnable thread waits for an item of an empty list.\<close>

theorem synch_list_is_queue:
  assumes "sl_start st0" "sl_step\<^sup>*\<^sup>* (SynchList_new junk, st0, [], []) (sl, st, appended, removed)"
  shows "appended = removed @ List_items (sl_list sl)
    \<and> (\<forall>t t'. holder_at st t \<and> holder_at st t' \<longrightarrow> t = t')
    \<and> (List_items (cond_queue (listEmpty sl)) \<noteq> [] \<longrightarrow>
        length (List_items (sl_list sl)) \<le> takers_in (spot_of st) (live st @ List_items (lock_queue (sl_lock sl))))
    \<and> (\<forall>ch. next_op ch sl st = Inr ()
        \<or> next_op ch sl st = Inl Halted \<and> List_items (sl_list sl) = [] \<and> ready st = [] \<and> List_items (lock_queue (sl_lock sl)) = [])"
proof -
  have inv: "sl_inv (sl, st, appended, removed)" by (rule sl_reachable_inv [OF assms(2) sl_start_inv [OF assms(1)]])
  have "t = t'" if "holder_at st t" "holder_at st t'" for t t' using sl_invD(4) [OF inv] that unfolding holders_ok_def by (metis option.inject)
  then show ?thesis using sl_invD(3,5) [OF inv] next_op_ok [OF inv] by (auto simp: signals_ok_def)
qed

definition two_threads :: "nat spot Nachos" where
  "two_threads = \<lparr>kmem = example_kmem,
     threads = [0 \<mapsto> \<lparr>th_name = ''a'', th_stack = Some STACK_FENCEPOST, th_status = RUNNING, userRegisters = (\<lambda>_. 0), th_space = None,
         th_cont = Idle, th_fresh = False, th_levels = []\<rparr>,
       1 \<mapsto> \<lparr>th_name = ''b'', th_stack = Some STACK_FENCEPOST, th_status = READY, userRegisters = (\<lambda>_. 0), th_space = None,
         th_cont = Idle, th_fresh = True, th_levels = []\<rparr>],
     readyList = \<lparr>l_cells = [Some \<lparr>le_next = None, le_key = 0, le_item = 1\<rparr>], l_first = Some 0, l_last = Some 0\<rparr>,
     currentThread = 0, threadToBeDestroyed = None, level = IntOn, spaces = Map.empty, pcbs = Map.empty,
     processManager = \<lparr>pm_map = \<lparr>numBits = 0, numWords = 0, bm_map = []\<rparr>, pcbTable = []\<rparr>, next_obj = 2\<rparr>"

lemma two_threads_start: "sl_start two_threads"
proof -
  have r: "List_inv (readyList two_threads)" "ready two_threads = [1]"
    by (simp_all add: two_threads_def ready_def List_inv_def List_chain_def List_addrs_def List_items_def List_elems_def cell_at_def elem_of_def)
  then have "sched_ok two_threads" by (simp add: sched_ok_def runnable_ok_def) (simp add: two_threads_def)
  then show ?thesis by (auto simp: sl_start_def sys_ok_def two_threads_def spot_of_def tview_def)
qed

theorem synch_list_is_queue_witness:
  "\<exists>sl st sl' st'. sl_step\<^sup>*\<^sup>* (SynchList_new None, two_threads, [], []) (sl, st, [], []) \<and> spot_of st 0 = Some (AHave 7)
    \<and> sl_step (sl, st, [], []) (sl', st', [7], []) \<and> List_items (sl_list sl') = [7]"
proof -
  have inv: "sl_inv (SynchList_new None, two_threads, [], [])" by (rule sl_start_inv [OF two_threads_start])
  let ?s0 = "SynchList_new None :: nat SynchList"
  have c: "spot_of two_threads (currentThread two_threads) = Some Idle" "tview two_threads (currentThread two_threads) = Some (Idle, [], False)" "currentThread two_threads = 0"
    by (simp_all add: two_threads_def spot_of_def tview_def)
  have f: "lock_free (sl_lock ?s0)" by (simp add: SynchList_new_def Lock_new_def)
  obtain sl st where s: "SynchList_lock 1 halt (ALock 7) (AHave 7) ?s0 two_threads = Inr (sl, st)" "spot_of st 0 = Some (AHave 7)" "live st = live two_threads"
    by (rule lock_outcome [OF sl_invD(1) [OF inv] c(2), of "ALock 7" "AHave 7"]) (use f c(3) in simp_all)
  have s1: "sl_step (?s0, two_threads, [], []) (sl, st, [], [])" by (rule sl_step.append [OF c(1) s(1)])
  then have r1: "sl_step\<^sup>*\<^sup>* (?s0, two_threads, [], []) (sl, st, [], [])" by blast
  have i1: "sl_inv (sl, st, [], [])" by (rule sl_step_inv [OF s1 inv])
  have c1: "currentThread st = 0" using s(3) c(3) by simp
  obtain sl' st' where a: "SynchList_Append_locked ASignaled 7 sl st = Inr (sl', st')" using append_step_ok [OF i1, of 7] s(2) c1 by auto
  have s2: "sl_step (sl, st, [], []) (sl', st', [7], [])" using sl_step.append_locked [of st 7 sl sl' st' "[]" "[]"] a s(2) c1 by simp
  then have "sl_step\<^sup>*\<^sup>* (?s0, two_threads, [], []) (sl', st', [7], [])" using r1 by (rule rtranclp.rtrancl_into_rtrancl [rotated])
  from synch_list_is_queue [OF two_threads_start this] have "List_items (sl_list sl') = [7]" by simp
  then show ?thesis using r1 s(2) s2 by blast
qed

end
