(* ===== verification/NetworkDev.thy ===== *)
theory NetworkDev
  imports Disk Complex_Main
begin

text \<open>
  The network device of \<^verbatim>\<open>machine/network.cc\<close> and the sockets of \<^verbatim>\<open>machine/sysdep.cc\<close> it uses: packet headers and their layout on the wire, the names of
  sockets, sending with a chance of loss, and polling for packets. An interrupt that the device schedules is recorded; when interrupts fire is
  the subject of the theories \<^verbatim>\<open>Interrupt\<close> and \<^verbatim>\<open>SynchDisk\<close>, and here they may fire at any time.
\<close>

section \<open>Packets\<close>

text \<open>Addresses are \<^verbatim>\<open>int\<close>, lengths \<^verbatim>\<open>unsigned\<close>. A header is laid out as three words in the byte order of the host.\<close>

record PacketHeader =
  pkt_to :: "32 word"
  pkt_from :: "32 word"
  pkt_length :: "32 word"

definition MaxWireSize :: nat where "MaxWireSize = 64"
definition PacketHeaderSize :: nat where "PacketHeaderSize = 12"
definition MaxPacketSize :: nat where "MaxPacketSize = MaxWireSize - PacketHeaderSize"

definition pkt_bytes :: "bool \<Rightarrow> PacketHeader \<Rightarrow> byte list" where
  "pkt_bytes be h = int_bytes be (pkt_to h) @ int_bytes be (pkt_from h) @ int_bytes be (pkt_length h)"

definition pkt_of_bytes :: "bool \<Rightarrow> byte list \<Rightarrow> PacketHeader" where
  "pkt_of_bytes be bs = \<lparr>pkt_to = bytes_int be (take 4 bs), pkt_from = bytes_int be (take 4 (drop 4 bs)), pkt_length = bytes_int be (take 4 (drop 8 bs))\<rparr>"

text \<open>\<^verbatim>\<open>bcopy\<close> of \<open>n\<close> bytes into an array, at an offset; both arrays have to be long enough.\<close>

definition copy_bytes :: "byte list \<Rightarrow> nat \<Rightarrow> nat \<Rightarrow> byte list \<Rightarrow> (byte list) res" where
  "copy_bytes src n off dst = (if n \<le> length src \<and> off + n \<le> length dst then Inr (take off dst @ take n src @ drop (off + n) dst) else Inl OutOfBounds)"

text \<open>\<^verbatim>\<open>new char[n]\<close>: the bytes are whatever the memory holds.\<close>

definition new_chars :: "(nat \<Rightarrow> byte) \<Rightarrow> nat \<Rightarrow> byte list" where
  "new_chars junk n = map junk [0..<n]"

section \<open>Sockets\<close>

text \<open>
  The datagram sockets of the host: the queue of datagrams for each name that is bound. \<^verbatim>\<open>sprintf\<close> with \<^verbatim>\<open>%d\<close>
  writes an address in decimal.
\<close>

type_synonym sockets = "string \<Rightarrow> byte list list option"

definition digit :: "nat \<Rightarrow> char" where
  "digit n = char_of (48 + n)"

fun decimal :: "nat \<Rightarrow> string" where
  "decimal n = (if n < 10 then [digit n] else decimal (n div 10) @ [digit (n mod 10)])"

declare decimal.simps [simp del]

definition socket_name :: "32 word \<Rightarrow> string" where
  "socket_name a = ''SOCKET_'' @ (if sint a < 0 then ''-'' @ decimal (nat (- sint a)) else decimal (nat (sint a)))"

definition AssignNameToSocket :: "string \<Rightarrow> sockets \<Rightarrow> sockets" where
  "AssignNameToSocket name socks = socks(name \<mapsto> [])"

definition DeAssignNameToSocket :: "string \<Rightarrow> sockets \<Rightarrow> sockets" where
  "DeAssignNameToSocket name socks = socks(name := None)"

definition PollSocket :: "string \<Rightarrow> sockets \<Rightarrow> bool" where
  "PollSocket name socks = (case socks name of None \<Rightarrow> False | Some q \<Rightarrow> q \<noteq> [])"

text \<open>\<^verbatim>\<open>recvfrom\<close> cuts a datagram that is longer than the buffer; a shorter one fails the assertion.\<close>

definition ReadFromSocket :: "string \<Rightarrow> nat \<Rightarrow> sockets \<Rightarrow> (byte list \<times> sockets) res" where
  "ReadFromSocket name packetSize socks = (case socks name of
     Some (p # q) \<Rightarrow> bindE (assertE (length (take packetSize p) = packetSize)) (\<lambda>_. Inr (take packetSize p, socks(name \<mapsto> q)))
   | _ \<Rightarrow> Inl AssertFail)"

definition SendToSocket :: "byte list \<Rightarrow> nat \<Rightarrow> string \<Rightarrow> sockets \<Rightarrow> sockets res" where
  "SendToSocket buffer packetSize toName socks = (case socks toName of
     Some q \<Rightarrow> (if packetSize \<le> length buffer then Inr (socks(toName \<mapsto> q @ [take packetSize buffer])) else Inl OutOfBounds)
   | None \<Rightarrow> Inl AssertFail)"

section \<open>The network device\<close>

text \<open>
  The fields of \<^verbatim>\<open>Network\<close>, with the interrupts it has scheduled, its two counters in the statistics, and what
  its handlers signal: \<open>readAvail\<close> and \<open>writeDone\<close> count the calls of the handlers given to the constructor.
  \<^verbatim>\<open>chanceToWork\<close> is a \<^verbatim>\<open>double\<close>; \<open>fl\<close> rounds the exact product of the multiplication to a
  \<^verbatim>\<open>double\<close>. \<open>rnd\<close> is what the host's \<^verbatim>\<open>Random\<close> returns, a number that is not negative.
\<close>

datatype net_int = NetworkReadPoll | NetworkSendDone

record Network =
  ident :: "32 word"
  chanceToWork :: rat
  sockName :: string
  sendBusy :: bool
  inHdr :: PacketHeader
  inbox :: "byte list"
  net_pending :: "net_int list"
  net_sent :: nat
  net_recvd :: nat
  readAvail :: nat
  writeDone :: nat

definition Network_Schedule :: "net_int \<Rightarrow> Network \<Rightarrow> Network" where
  "Network_Schedule i n = n\<lparr>net_pending := net_pending n @ [i]\<rparr>"

definition Network_new :: "(nat \<Rightarrow> byte) \<Rightarrow> PacketHeader \<Rightarrow> 32 word \<Rightarrow> rat \<Rightarrow> sockets \<Rightarrow> Network \<times> sockets" where
  "Network_new junk hdr addr reliability socks =
     (let n = \<lparr>ident = addr, chanceToWork = (if reliability < 0 then 0 else if reliability > 1 then 1 else reliability), sockName = socket_name addr,
           sendBusy = False, inHdr = hdr\<lparr>pkt_length := 0\<rparr>, inbox = new_chars junk MaxPacketSize, net_pending = [], net_sent = 0, net_recvd = 0,
           readAvail = 0, writeDone = 0\<rparr>
      in (Network_Schedule NetworkReadPoll n, AssignNameToSocket (socket_name addr) socks))"

definition Network_destroy :: "Network \<Rightarrow> sockets \<Rightarrow> sockets" where
  "Network_destroy n socks = DeAssignNameToSocket (sockName n) socks"

definition CheckPktAvail :: "bool \<Rightarrow> Network \<Rightarrow> sockets \<Rightarrow> (Network \<times> sockets) res" where
  "CheckPktAvail be n socks =
     (let n = Network_Schedule NetworkReadPoll n in
      if pkt_length (inHdr n) \<noteq> 0 then Inr (n, socks)
      else if \<not> PollSocket (sockName n) socks then Inr (n, socks)
      else
        bindE (ReadFromSocket (sockName n) MaxWireSize socks) (\<lambda>(buffer, socks).
        let hdr = pkt_of_bytes be (take PacketHeaderSize buffer) in
        bindE (assertE (pkt_to hdr = ident n \<and> unat (pkt_length hdr) \<le> MaxPacketSize)) (\<lambda>_.
        bindE (copy_bytes (drop PacketHeaderSize buffer) (unat (pkt_length hdr)) 0 (inbox n)) (\<lambda>ib.
        Inr (n\<lparr>inHdr := hdr, inbox := ib, net_recvd := net_recvd n + 1, readAvail := readAvail n + 1\<rparr>, socks)))))"

definition SendDone :: "Network \<Rightarrow> Network" where
  "SendDone n = n\<lparr>sendBusy := False, net_sent := net_sent n + 1, writeDone := writeDone n + 1\<rparr>"

definition Network_Send :: "bool \<Rightarrow> (rat \<Rightarrow> rat) \<Rightarrow> int \<Rightarrow> (nat \<Rightarrow> byte) \<Rightarrow> PacketHeader \<Rightarrow> byte list \<Rightarrow> Network \<Rightarrow> sockets \<Rightarrow> (Network \<times> sockets) res" where
  "Network_Send be fl rnd junk hdr data n socks =
     bindE (assertE (sendBusy n = False \<and> 0 < pkt_length hdr \<and> unat (pkt_length hdr) \<le> MaxPacketSize \<and> pkt_from hdr = ident n)) (\<lambda>_.
     let n = Network_Schedule NetworkSendDone n in
     if of_int (rnd mod 100) \<ge> fl (chanceToWork n * 100) then Inr (n, socks)
     else
       bindE (copy_bytes (pkt_bytes be hdr) PacketHeaderSize 0 (new_chars junk MaxWireSize)) (\<lambda>buffer.
       bindE (copy_bytes data (unat (pkt_length hdr)) PacketHeaderSize buffer) (\<lambda>buffer.
       bindE (SendToSocket buffer MaxWireSize (socket_name (pkt_to hdr)) socks) (\<lambda>socks. Inr (n, socks)))))"

definition Network_Receive :: "byte list \<Rightarrow> Network \<Rightarrow> (PacketHeader \<times> byte list \<times> Network) res" where
  "Network_Receive data n =
     (let hdr = inHdr n; n' = n\<lparr>inHdr := hdr\<lparr>pkt_length := 0\<rparr>\<rparr> in
      if pkt_length hdr \<noteq> 0 then bindE (copy_bytes (inbox n) (unat (pkt_length hdr)) 0 data) (\<lambda>data. Inr (hdr, data, n'))
      else Inr (hdr, data, n'))"

section \<open>Names and formats\<close>

lemmas size_defs = MaxWireSize_def PacketHeaderSize_def MaxPacketSize_def

lemma pkt_roundtrip: "pkt_of_bytes be (pkt_bytes be h) = h"
  by (simp add: pkt_of_bytes_def pkt_bytes_def)

lemma length_pkt_bytes [simp]: "length (pkt_bytes be h) = 12"
  by (simp add: pkt_bytes_def)

lemma length_new_chars [simp]: "length (new_chars junk n) = n"
  by (simp add: new_chars_def)

lemma copy_bytes_ok: "n \<le> length src \<Longrightarrow> off + n \<le> length dst \<Longrightarrow> copy_bytes src n off dst = Inr (take off dst @ take n src @ drop (off + n) dst)"
  by (simp add: copy_bytes_def)

definition digit_val :: "char \<Rightarrow> nat" where
  "digit_val c = of_char c - 48"

definition decimal_val :: "string \<Rightarrow> nat" where
  "decimal_val s = foldl (\<lambda>v c. 10 * v + digit_val c) 0 s"

lemma digit_val_digit: "n < 10 \<Longrightarrow> digit_val (digit n) = n"
  by (simp add: digit_val_def digit_def)

lemma decimal_val: "decimal_val (decimal n) = n"
proof (induction n rule: decimal.induct)
  case (1 n)
  then show ?case by (subst decimal.simps) (auto simp: decimal_val_def digit_val_digit)
qed

lemma decimal_inj: "decimal m = decimal n \<longleftrightarrow> m = n"
  by (metis decimal_val)

lemma digit_not_minus: "n < 10 \<Longrightarrow> digit n \<noteq> CHR ''-''"
proof
  assume n: "n < 10" and e: "digit n = CHR ''-''"
  have "of_char (digit n) = 48 + n" using n by (simp add: digit_def)
  moreover have "of_char (digit n) = (45 :: nat)" unfolding e by simp
  ultimately show False by simp
qed

lemma hd_decimal: "hd (decimal n) \<noteq> CHR ''-'' \<and> decimal n \<noteq> []"
proof (induction n rule: decimal.induct)
  case (1 n)
  then show ?case by (subst (1 2) decimal.simps) (auto simp: digit_not_minus)
qed

lemma socket_name_inj: "socket_name a = socket_name b \<longleftrightarrow> a = b"
proof
  assume eq: "socket_name a = socket_name b"
  have "(sint a < 0) = (sint b < 0)"
    using eq hd_decimal [of "nat (sint a)"] hd_decimal [of "nat (sint b)"] by (auto simp: socket_name_def split: if_splits) (metis list.sel(1))+
  then have "sint a = sint b" using eq by (auto simp: socket_name_def decimal_inj split: if_splits)
  then show "a = b" by (rule signed_word_eqI)
qed simp

end
