(* ===== verification/Post.thy ===== *)
theory Post
  imports NetworkDev "HOL-Library.Sublist"
begin

text \<open>
  The post office of \<^verbatim>\<open>network/post.cc\<close>: messages, mailboxes, sending, the postal worker and receiving. The operations are cut where
  a thread may wait for a semaphore or a lock, and the step relation \<^verbatim>\<open>net_step\<close> runs them and the network interrupts on any number of machines in any
  order. Its invariant gives ordered, unreliable delivery without corruption, and that nothing gets stuck.

  Locks and condition variables are those of \<^verbatim>\<open>threads/synch.cc\<close> with \<^verbatim>\<open>THREADS\<close> and \<^verbatim>\<open>CHANGED\<close>, as in the ``bare bones'' definitions of \<^verbatim>\<open>network/Makefile\<close>: \<^verbatim>\<open>sendLock\<close>
  excludes a second sender, and \<^verbatim>\<open>SynchList::Remove\<close> waits. The definitions that are active there leave out \<^verbatim>\<open>THREADS\<close>, and then
  locks do nothing and \<^verbatim>\<open>Condition::Wait\<close> is \<^verbatim>\<open>ASSERT(FALSE)\<close>; \<^verbatim>\<open>MailBox_Get_stub\<close> and \<^verbatim>\<open>PostOffice_Receive_stub\<close> are the operations of that build.
\<close>

section \<open>Messages and mailboxes\<close>

record MailHeader =
  mail_to :: "32 word"
  mail_from :: "32 word"
  mail_length :: "32 word"

definition MailHeaderSize :: nat where "MailHeaderSize = 12"
definition MaxMailSize :: nat where "MaxMailSize = MaxPacketSize - MailHeaderSize"

definition mail_bytes :: "bool \<Rightarrow> MailHeader \<Rightarrow> byte list" where
  "mail_bytes be h = int_bytes be (mail_to h) @ int_bytes be (mail_from h) @ int_bytes be (mail_length h)"

definition mail_of_bytes :: "bool \<Rightarrow> byte list \<Rightarrow> MailHeader" where
  "mail_of_bytes be bs = \<lparr>mail_to = bytes_int be (take 4 bs), mail_from = bytes_int be (take 4 (drop 4 bs)), mail_length = bytes_int be (take 4 (drop 8 bs))\<rparr>"

record Mail =
  m_pktHdr :: PacketHeader
  m_mailHdr :: MailHeader
  m_data :: "byte list"

definition Mail_new :: "(nat \<Rightarrow> byte) \<Rightarrow> PacketHeader \<Rightarrow> MailHeader \<Rightarrow> byte list \<Rightarrow> Mail res" where
  "Mail_new junk pktH mailH msgData =
     bindE (assertE (unat (mail_length mailH) \<le> MaxMailSize)) (\<lambda>_.
     bindE (copy_bytes msgData (unat (mail_length mailH)) 0 (new_chars junk MaxMailSize)) (\<lambda>d.
     Inr \<lparr>m_pktHdr = pktH, m_mailHdr = mailH, m_data = d\<rparr>))"

text \<open>
  A mailbox holds its messages in a synchronized list. Here it is the list of theory \<^verbatim>\<open>NachosList\<close>
  inside it; that appending and removing take effect one at a time, and that a thread waits while there is no message, is
  shown in theory \<^verbatim>\<open>SynchList\<close>.
\<close>

definition MailBox_new :: "Mail nlist" where
  "MailBox_new = List_new"

definition MailBox_Put :: "(nat \<Rightarrow> byte) \<Rightarrow> PacketHeader \<Rightarrow> MailHeader \<Rightarrow> byte list \<Rightarrow> Mail nlist \<Rightarrow> (Mail nlist) res" where
  "MailBox_Put junk pktHdr mailHdr data messages = bindE (Mail_new junk pktHdr mailHdr data) (\<lambda>mail. List_Append mail messages)"

text \<open>\<^verbatim>\<open>Get\<close>, once there is a message: the headers, and the bytes it copies into the caller's buffer.\<close>

definition MailBox_Get :: "Mail nlist \<Rightarrow> (PacketHeader \<times> MailHeader \<times> byte list \<times> Mail nlist) res" where
  "MailBox_Get messages = bindE (List_Remove messages) (\<lambda>(r, messages). case r of
       None \<Rightarrow> Inl Suspended
     | Some mail \<Rightarrow> if unat (mail_length (m_mailHdr mail)) \<le> length (m_data mail)
         then Inr (m_pktHdr mail, m_mailHdr mail, take (unat (mail_length (m_mailHdr mail))) (m_data mail), messages) else Inl OutOfBounds)"

text \<open>The same without \<^verbatim>\<open>THREADS\<close>: on an empty list, \<^verbatim>\<open>SynchList::Remove\<close> calls \<^verbatim>\<open>Condition::Wait\<close>, which aborts.\<close>

definition MailBox_Get_stub :: "Mail nlist \<Rightarrow> (PacketHeader \<times> MailHeader \<times> byte list \<times> Mail nlist) res" where
  "MailBox_Get_stub messages = (if List_IsEmpty messages then Inl AssertFail else MailBox_Get messages)"

section \<open>The post office\<close>

text \<open>
  The fields of \<^verbatim>\<open>PostOffice\<close>. The values of the semaphores \<^verbatim>\<open>messageAvailable\<close> and \<^verbatim>\<open>messageSent\<close> are kept as the counters
  of the handlers that signal them, \<^verbatim>\<open>readAvail\<close> and \<^verbatim>\<open>writeDone\<close> of the network; \<open>sendFree\<close> says that nobody holds \<^verbatim>\<open>sendLock\<close>.
  \<open>po_buffer\<close> is the buffer of the postal worker.
\<close>

record PostOffice =
  network :: Network
  netAddr :: "32 word"
  boxes :: "Mail nlist list"
  numBoxes :: int
  sendFree :: bool
  po_buffer :: "byte list"

definition PostOffice_new :: "(nat \<Rightarrow> byte) \<Rightarrow> PacketHeader \<Rightarrow> 32 word \<Rightarrow> rat \<Rightarrow> nat \<Rightarrow> sockets \<Rightarrow> PostOffice \<times> sockets" where
  "PostOffice_new junk hdr addr reliability nBoxes socks =
     (let (n, socks) = Network_new junk hdr addr reliability socks in
      (\<lparr>network = n, netAddr = addr, boxes = replicate nBoxes MailBox_new, numBoxes = int nBoxes, sendFree = True, po_buffer = new_chars junk MaxPacketSize\<rparr>, socks))"

definition PostOffice_destroy :: "PostOffice \<Rightarrow> sockets \<Rightarrow> sockets" where
  "PostOffice_destroy po socks = Network_destroy (network po) socks"

text \<open>\<^verbatim>\<open>Send\<close> up to the call of the network, and its end when \<^verbatim>\<open>messageSent->P()\<close> has returned.\<close>

definition PostOffice_Send :: "bool \<Rightarrow> (rat \<Rightarrow> rat) \<Rightarrow> int \<Rightarrow> (nat \<Rightarrow> byte) \<Rightarrow> PacketHeader \<Rightarrow> MailHeader \<Rightarrow> byte list \<Rightarrow> PostOffice \<Rightarrow> sockets \<Rightarrow> (PostOffice \<times> sockets) res" where
  "PostOffice_Send be fl rnd junk pktHdr mailHdr data po socks =
     bindE (assertE (unat (mail_length mailHdr) \<le> MaxMailSize)) (\<lambda>_.
     bindE (assertE (0 \<le> sint (mail_to mailHdr) \<and> sint (mail_to mailHdr) < numBoxes po)) (\<lambda>_.
     let pktHdr = pktHdr\<lparr>pkt_from := netAddr po, pkt_length := mail_length mailHdr + of_nat MailHeaderSize\<rparr> in
     bindE (copy_bytes (mail_bytes be mailHdr) MailHeaderSize 0 (new_chars junk MaxPacketSize)) (\<lambda>buffer.
     bindE (copy_bytes data (unat (mail_length mailHdr)) MailHeaderSize buffer) (\<lambda>buffer.
     if \<not> sendFree po then Inl Suspended
     else bindE (Network_Send be fl rnd junk pktHdr buffer (network po) socks) (\<lambda>(n, socks).
       Inr (po\<lparr>network := n, sendFree := False\<rparr>, socks))))))"

definition PostOffice_Send_finish :: "PostOffice \<Rightarrow> PostOffice res" where
  "PostOffice_Send_finish po =
     (if writeDone (network po) = 0 then Inl Suspended
      else Inr (po\<lparr>network := (network po)\<lparr>writeDone := writeDone (network po) - 1\<rparr>, sendFree := True\<rparr>))"

definition PostOffice_Receive :: "int \<Rightarrow> PostOffice \<Rightarrow> (PacketHeader \<times> MailHeader \<times> byte list \<times> PostOffice) res" where
  "PostOffice_Receive box po =
     bindE (assertE (box \<ge> 0 \<and> box < numBoxes po)) (\<lambda>_.
     bindE (arr_get (boxes po) (nat box)) (\<lambda>messages.
     bindE (MailBox_Get messages) (\<lambda>(pktHdr, mailHdr, data, messages).
     bindE (assertE (unat (mail_length mailHdr) \<le> MaxMailSize)) (\<lambda>_.
     Inr (pktHdr, mailHdr, data, po\<lparr>boxes := (boxes po)[nat box := messages]\<rparr>)))))"

definition PostOffice_Receive_stub :: "int \<Rightarrow> PostOffice \<Rightarrow> (PacketHeader \<times> MailHeader \<times> byte list \<times> PostOffice) res" where
  "PostOffice_Receive_stub box po =
     bindE (assertE (box \<ge> 0 \<and> box < numBoxes po)) (\<lambda>_.
     bindE (arr_get (boxes po) (nat box)) (\<lambda>messages.
     bindE (MailBox_Get_stub messages) (\<lambda>(pktHdr, mailHdr, data, messages).
     bindE (assertE (unat (mail_length mailHdr) \<le> MaxMailSize)) (\<lambda>_.
     Inr (pktHdr, mailHdr, data, po\<lparr>boxes := (boxes po)[nat box := messages]\<rparr>)))))"

text \<open>One round of the loop of \<^verbatim>\<open>PostalDelivery\<close>.\<close>

definition PostalDelivery :: "bool \<Rightarrow> (nat \<Rightarrow> byte) \<Rightarrow> PostOffice \<Rightarrow> PostOffice res" where
  "PostalDelivery be junk po =
     (if readAvail (network po) = 0 then Inl Suspended
      else
        bindE (Network_Receive (po_buffer po) ((network po)\<lparr>readAvail := readAvail (network po) - 1\<rparr>)) (\<lambda>(pktHdr, buffer, n).
        let mailHdr = mail_of_bytes be (take MailHeaderSize buffer) in
        bindE (assertE (0 \<le> sint (mail_to mailHdr) \<and> sint (mail_to mailHdr) < numBoxes po)) (\<lambda>_.
        bindE (assertE (unat (mail_length mailHdr) \<le> MaxMailSize)) (\<lambda>_.
        bindE (arr_get (boxes po) (nat (sint (mail_to mailHdr)))) (\<lambda>messages.
        bindE (MailBox_Put junk pktHdr mailHdr (drop MailHeaderSize buffer) messages) (\<lambda>messages.
        Inr (po\<lparr>network := n, po_buffer := buffer, boxes := (boxes po)[nat (sint (mail_to mailHdr)) := messages]\<rparr>)))))))"

text \<open>An interrupt of the network device: \<^verbatim>\<open>NetworkReadPoll\<close> or \<^verbatim>\<open>NetworkSendDone\<close>, whose handlers call
  \<^verbatim>\<open>IncomingPacket\<close> and \<^verbatim>\<open>PacketSent\<close> of the post office.\<close>

definition network_interrupt :: "bool \<Rightarrow> net_int \<Rightarrow> PostOffice \<Rightarrow> sockets \<Rightarrow> (PostOffice \<times> sockets) res" where
  "network_interrupt be i po socks =
     (let n = (network po)\<lparr>net_pending := remove1 i (net_pending (network po))\<rparr> in
      case i of NetworkReadPoll \<Rightarrow> bindE (CheckPktAvail be n socks) (\<lambda>(n, socks). Inr (po\<lparr>network := n\<rparr>, socks))
      | NetworkSendDone \<Rightarrow> Inr (po\<lparr>network := SendDone n\<rparr>, socks))"

section \<open>A network of machines\<close>

text \<open>
  Machines with their post offices around the sockets of one host. The histories are ghosts: \<open>w_sent\<close> has the messages given to the network,
  with the headers that \<^verbatim>\<open>Send\<close> has filled in, and \<open>w_got\<close> the machine, the box and the message of every receipt.
\<close>

type_synonym msg = "PacketHeader \<times> MailHeader \<times> byte list"

record World =
  w_socks :: sockets
  w_offices :: "32 word \<Rightarrow> PostOffice option"
  w_sent :: "msg list"
  w_got :: "(32 word \<times> int \<times> msg) list"

definition put_office :: "32 word \<Rightarrow> PostOffice \<Rightarrow> World \<Rightarrow> World" where
  "put_office a po w = w\<lparr>w_offices := (w_offices w)(a \<mapsto> po)\<rparr>"

definition filled :: "PostOffice \<Rightarrow> PacketHeader \<Rightarrow> MailHeader \<Rightarrow> PacketHeader" where
  "filled po pktHdr mailHdr = pktHdr\<lparr>pkt_from := netAddr po, pkt_length := mail_length mailHdr + of_nat MailHeaderSize\<rparr>"

inductive net_step :: "bool \<Rightarrow> (rat \<Rightarrow> rat) \<Rightarrow> World \<Rightarrow> World \<Rightarrow> bool" for be fl where
  send: "w_offices w a = Some po \<Longrightarrow> w_offices w (pkt_to pktHdr) \<noteq> None \<Longrightarrow> 0 \<le> rnd \<Longrightarrow> PostOffice_Send be fl rnd junk pktHdr mailHdr data po (w_socks w) = Inr (po', socks') \<Longrightarrow>
    net_step be fl w ((put_office a po' w)\<lparr>w_socks := socks', w_sent := w_sent w @ [(filled po pktHdr mailHdr, mailHdr, take (unat (mail_length mailHdr)) data)]\<rparr>)"
| send_finish: "w_offices w a = Some po \<Longrightarrow> PostOffice_Send_finish po = Inr po' \<Longrightarrow> net_step be fl w (put_office a po' w)"
| interrupt: "w_offices w a = Some po \<Longrightarrow> i \<in> set (net_pending (network po)) \<Longrightarrow> network_interrupt be i po (w_socks w) = Inr (po', socks') \<Longrightarrow>
    net_step be fl w ((put_office a po' w)\<lparr>w_socks := socks'\<rparr>)"
| deliver: "w_offices w a = Some po \<Longrightarrow> PostalDelivery be junk po = Inr po' \<Longrightarrow> net_step be fl w (put_office a po' w)"
| receive: "w_offices w a = Some po \<Longrightarrow> PostOffice_Receive box po = Inr (pktHdr, mailHdr, data, po') \<Longrightarrow>
    net_step be fl w ((put_office a po' w)\<lparr>w_got := w_got w @ [(a, box, pktHdr, mailHdr, data)]\<rparr>)"

inductive_cases net_stepE: "net_step be fl w w'"

section \<open>Formats\<close>

lemmas mail_sizes = size_defs MailHeaderSize_def MaxMailSize_def

lemma mail_roundtrip: "mail_of_bytes be (mail_bytes be h) = h"
  by (simp add: mail_of_bytes_def mail_bytes_def)

lemma length_mail_bytes [simp]: "length (mail_bytes be h) = 12"
  by (simp add: mail_bytes_def)

text \<open>The message in a packet on the wire, in the payload of a packet whose header has been taken off, and in a mailbox.\<close>

definition payload_msg :: "bool \<Rightarrow> PacketHeader \<Rightarrow> byte list \<Rightarrow> msg" where
  "payload_msg be hdr bs = (let mh = mail_of_bytes be (take MailHeaderSize bs) in (hdr, mh, take (unat (mail_length mh)) (drop MailHeaderSize bs)))"

definition wire_msg :: "bool \<Rightarrow> byte list \<Rightarrow> msg" where
  "wire_msg be p = payload_msg be (pkt_of_bytes be (take PacketHeaderSize p)) (drop PacketHeaderSize p)"

definition mail_msg :: "Mail \<Rightarrow> msg" where
  "mail_msg m = (m_pktHdr m, m_mailHdr m, take (unat (mail_length (m_mailHdr m))) (m_data m))"

text \<open>A message of a machine with address \<open>a\<close>, in a network where every post office has \<open>nb\<close> boxes.\<close>

definition msg_ok :: "int \<Rightarrow> 32 word \<Rightarrow> msg \<Rightarrow> bool" where
  "msg_ok nb a = (\<lambda>(ph, mh, data). pkt_to ph = a \<and> pkt_length ph = mail_length mh + of_nat MailHeaderSize \<and> unat (mail_length mh) \<le> MaxMailSize
     \<and> 0 \<le> sint (mail_to mh) \<and> sint (mail_to mh) < nb)"

lemma unat_packet_length: "unat (mail_length mh) \<le> MaxMailSize \<Longrightarrow> unat (mail_length mh + of_nat MailHeaderSize) = unat (mail_length mh) + 12"
  by (simp add: mail_sizes unat_word_ariths)

lemma payload_msg_layout: "length d = unat (mail_length mh) \<Longrightarrow> payload_msg be ph (mail_bytes be mh @ d @ rest) = (ph, mh, d)"
  by (simp add: payload_msg_def MailHeaderSize_def mail_roundtrip)

lemma payload_msg_take:
  assumes "msg_ok nb a (payload_msg be ph bs)" "length bs = MaxPacketSize" "take (unat (pkt_length ph)) bs' = take (unat (pkt_length ph)) bs" "length bs' = MaxPacketSize"
  shows "payload_msg be ph bs' = payload_msg be ph bs"
proof -
  let ?n = "unat (pkt_length ph)" and ?mh = "mail_of_bytes be (take MailHeaderSize bs)"
  have n: "?n = unat (mail_length ?mh) + 12" using assms(1) unat_packet_length [of ?mh] by (auto simp: msg_ok_def payload_msg_def Let_def)
  have h: "take 12 bs' = take 12 bs" using arg_cong [OF assms(3), of "take 12"] n by (simp add: min_def)
  have "drop 12 (take ?n bs') = drop 12 (take ?n bs)" using assms(3) by simp
  then have "take (unat (mail_length ?mh)) (drop 12 bs') = take (unat (mail_length ?mh)) (drop 12 bs)" using n by (simp add: drop_take)
  then show ?thesis using h by (simp add: payload_msg_def MailHeaderSize_def)
qed

section \<open>The invariant of a post office\<close>

definition office_ok :: "bool \<Rightarrow> int \<Rightarrow> 32 word \<Rightarrow> PostOffice \<Rightarrow> bool" where
  "office_ok be nb a po \<longleftrightarrow> netAddr po = a \<and> ident (network po) = a \<and> sockName (network po) = socket_name a \<and> \<not> sendBusy (network po)
     \<and> numBoxes po = nb \<and> int (length (boxes po)) = nb \<and> (\<forall>box \<in> set (boxes po). List_inv box \<and> (\<forall>m \<in> set (List_items box). msg_ok nb a (mail_msg m) \<and> length (m_data m) = MaxMailSize))
     \<and> length (inbox (network po)) = MaxPacketSize \<and> length (po_buffer po) = MaxPacketSize
     \<and> (pkt_length (inHdr (network po)) \<noteq> 0 \<longrightarrow> msg_ok nb a (payload_msg be (inHdr (network po)) (inbox (network po))))
     \<and> readAvail (network po) = of_bool (pkt_length (inHdr (network po)) \<noteq> 0) \<and> count_list (net_pending (network po)) NetworkReadPoll = 1
     \<and> writeDone (network po) + count_list (net_pending (network po)) NetworkSendDone = (if sendFree po then 0 else 1)"

definition queue_ok :: "bool \<Rightarrow> int \<Rightarrow> 32 word \<Rightarrow> sockets \<Rightarrow> bool" where
  "queue_ok be nb a socks \<longleftrightarrow> (case socks (socket_name a) of None \<Rightarrow> False | Some q \<Rightarrow> (\<forall>p \<in> set q. length p = MaxWireSize \<and> msg_ok nb a (wire_msg be p)))"

text \<open>The messages on their way to a machine: the one in the network device, and those in its socket.\<close>

definition buffered :: "bool \<Rightarrow> PostOffice \<Rightarrow> msg list" where
  "buffered be po = (if pkt_length (inHdr (network po)) \<noteq> 0 then [payload_msg be (inHdr (network po)) (inbox (network po))] else [])"

definition queued :: "bool \<Rightarrow> 32 word \<Rightarrow> sockets \<Rightarrow> msg list" where
  "queued be a socks = (case socks (socket_name a) of None \<Rightarrow> [] | Some q \<Rightarrow> map (wire_msg be) q)"

text \<open>Building the packet: the message on the wire is the one given to \<^verbatim>\<open>Send\<close>.\<close>

lemma packet_built:
  assumes "unat (mail_length mh) \<le> MaxMailSize" "unat (mail_length mh) \<le> length data" "pkt_length ph = mail_length mh + of_nat MailHeaderSize"
  obtains payload wire where "copy_bytes (mail_bytes be mh) MailHeaderSize 0 (new_chars junk MaxPacketSize) = Inr (mail_bytes be mh @ drop 12 (new_chars junk MaxPacketSize))"
    "copy_bytes data (unat (mail_length mh)) MailHeaderSize (mail_bytes be mh @ drop 12 (new_chars junk MaxPacketSize)) = Inr payload"
    "copy_bytes (pkt_bytes be ph) PacketHeaderSize 0 (new_chars junk' MaxWireSize) = Inr (pkt_bytes be ph @ drop 12 (new_chars junk' MaxWireSize))"
    "copy_bytes payload (unat (pkt_length ph)) PacketHeaderSize (pkt_bytes be ph @ drop 12 (new_chars junk' MaxWireSize)) = Inr wire"
    "length wire = MaxWireSize" "wire_msg be wire = (ph, mh, take (unat (mail_length mh)) data)"
proof -
  let ?n = "unat (mail_length mh)"
  define pl where "pl = mail_bytes be mh @ take ?n data @ drop (12 + ?n) (new_chars junk MaxPacketSize)"
  define wr where "wr = pkt_bytes be ph @ (mail_bytes be mh @ take ?n data) @ drop (24 + ?n) (new_chars junk' MaxWireSize)"
  have len: "unat (pkt_length ph) = ?n + 12" using assms(1,3) unat_packet_length by simp
  have n40: "?n \<le> 40" using assms(1) by (simp add: mail_sizes)
  have "copy_bytes (mail_bytes be mh) MailHeaderSize 0 (new_chars junk MaxPacketSize) = Inr (mail_bytes be mh @ drop 12 (new_chars junk MaxPacketSize))"
    by (simp add: copy_bytes_def mail_sizes)
  moreover have "copy_bytes data ?n MailHeaderSize (mail_bytes be mh @ drop 12 (new_chars junk MaxPacketSize)) = Inr pl"
    using n40 assms(2) by (simp add: copy_bytes_def mail_sizes pl_def add.commute)
  moreover have "copy_bytes (pkt_bytes be ph) PacketHeaderSize 0 (new_chars junk' MaxWireSize) = Inr (pkt_bytes be ph @ drop 12 (new_chars junk' MaxWireSize))"
    by (simp add: copy_bytes_def mail_sizes)
  moreover have "copy_bytes pl (unat (pkt_length ph)) PacketHeaderSize (pkt_bytes be ph @ drop 12 (new_chars junk' MaxWireSize)) = Inr wr"
    using n40 assms(2) len by (simp add: copy_bytes_def mail_sizes pl_def wr_def add.commute)
  moreover have "length wr = MaxWireSize" using n40 assms(2) by (simp add: wr_def mail_sizes)
  moreover have "wire_msg be wr = (ph, mh, take ?n data)"
    using payload_msg_layout [of "take ?n data" mh be ph] assms(2) by (simp add: wire_msg_def wr_def PacketHeaderSize_def pkt_roundtrip)
  ultimately show thesis using that by blast
qed

section \<open>Operations of a post office\<close>

lemma Send_requires:
  assumes "PostOffice_Send be fl rnd junk ph mh data po socks = Inr r"
  shows "unat (mail_length mh) \<le> MaxMailSize" "0 \<le> sint (mail_to mh)" "sint (mail_to mh) < numBoxes po" "unat (mail_length mh) \<le> length data" "sendFree po"
  using assms by (auto simp: PostOffice_Send_def bindE_eq_Inr assertE_eq_Inr copy_bytes_def Let_def split: if_splits)

definition after_send :: "PostOffice \<Rightarrow> PostOffice" where
  "after_send po = po\<lparr>network := Network_Schedule NetworkSendDone (network po), sendFree := False\<rparr>"

lemma Send_outcome:
  assumes ok: "office_ok be nb a po" "unat (mail_length mh) \<le> MaxMailSize" "unat (mail_length mh) \<le> length data" "0 \<le> sint (mail_to mh)" "sint (mail_to mh) < nb"
    and s: "socks (socket_name (pkt_to ph)) = Some q" "sendFree po"
  obtains (lost) "PostOffice_Send be fl rnd junk ph mh data po socks = Inr (after_send po, socks)" "fl (chanceToWork (network po) * 100) \<le> of_int (rnd mod 100)"
  | (put) wire where "PostOffice_Send be fl rnd junk ph mh data po socks = Inr (after_send po, socks(socket_name (pkt_to ph) \<mapsto> q @ [wire]))"
      "length wire = MaxWireSize" "wire_msg be wire = (filled po ph mh, mh, take (unat (mail_length mh)) data)"
proof -
  let ?ph = "filled po ph mh"
  have len: "pkt_length ?ph = mail_length mh + of_nat MailHeaderSize" "pkt_from ?ph = netAddr po" "pkt_to ?ph = pkt_to ph" by (simp_all add: filled_def)
  obtain payload wire where b: "copy_bytes (mail_bytes be mh) MailHeaderSize 0 (new_chars junk MaxPacketSize) = Inr (mail_bytes be mh @ drop 12 (new_chars junk MaxPacketSize))"
    "copy_bytes data (unat (mail_length mh)) MailHeaderSize (mail_bytes be mh @ drop 12 (new_chars junk MaxPacketSize)) = Inr payload"
    "copy_bytes (pkt_bytes be ?ph) PacketHeaderSize 0 (new_chars junk MaxWireSize) = Inr (pkt_bytes be ?ph @ drop 12 (new_chars junk MaxWireSize))"
    "copy_bytes payload (unat (pkt_length ?ph)) PacketHeaderSize (pkt_bytes be ?ph @ drop 12 (new_chars junk MaxWireSize)) = Inr wire"
    "length wire = MaxWireSize" "wire_msg be wire = (?ph, mh, take (unat (mail_length mh)) data)"
    by (rule packet_built [OF ok(2,3) len(1)])
  have un: "unat (pkt_length ?ph) = unat (mail_length mh) + 12" using len(1) unat_packet_length [OF ok(2)] by simp
  then have pos: "0 < pkt_length ?ph" "unat (pkt_length ?ph) \<le> MaxPacketSize" using ok(2) by (auto simp: mail_sizes word_less_nat_alt)
  have n: "\<not> sendBusy (network po)" "ident (network po) = netAddr po" "numBoxes po = nb" using ok(1) by (simp_all add: office_ok_def)
  have "PostOffice_Send be fl rnd junk ph mh data po socks
      = bindE (Network_Send be fl rnd junk ?ph payload (network po) socks) (\<lambda>(n, socks). Inr (po\<lparr>network := n, sendFree := False\<rparr>, socks))"
    using ok(2,4,5) n(3) s(2) b(1,2) by (simp add: PostOffice_Send_def filled_def)
  moreover have "Network_Send be fl rnd junk ?ph payload (network po) socks
      = (let n = Network_Schedule NetworkSendDone (network po) in if fl (chanceToWork n * 100) \<le> of_int (rnd mod 100) then Inr (n, socks)
         else Inr (n, socks(socket_name (pkt_to ph) \<mapsto> q @ [wire])))"
    using n pos len(2,3) b(3,4,5) s(1) by (simp add: Network_Send_def SendToSocket_def Let_def)
  ultimately show thesis
    using lost put [OF _ b(5,6)] by (auto simp: after_send_def Network_Schedule_def Let_def split: if_splits)
qed

lemma office_ok_after_send: "office_ok be nb a po \<Longrightarrow> sendFree po \<Longrightarrow> office_ok be nb a (after_send po)"
  by (simp add: office_ok_def after_send_def Network_Schedule_def)

lemma after_send_simps [simp]: "boxes (after_send po) = boxes po" "buffered be (after_send po) = buffered be po" "chanceToWork (network (after_send po)) = chanceToWork (network po)"
  by (simp_all add: after_send_def buffered_def Network_Schedule_def)

lemma finish_outcome:
  assumes "office_ok be nb a po" "PostOffice_Send_finish po = Inr po'"
  shows "office_ok be nb a po' \<and> boxes po' = boxes po \<and> buffered be po' = buffered be po \<and> chanceToWork (network po') = chanceToWork (network po)"
  using assms by (auto simp: PostOffice_Send_finish_def office_ok_def buffered_def split: if_splits)

text \<open>Polling the socket: the next message moves into the device, if there is room.\<close>

lemma poll_outcome:
  assumes ok: "office_ok be nb a po" "queue_ok be nb a socks" "NetworkReadPoll \<in> set (net_pending (network po))"
  obtains po' socks' where "network_interrupt be NetworkReadPoll po socks = Inr (po', socks')" "office_ok be nb a po'" "queue_ok be nb a socks'"
    "boxes po' = boxes po" "buffered be po' @ queued be a socks' = buffered be po @ queued be a socks" "chanceToWork (network po') = chanceToWork (network po)"
    "\<forall>x. x \<noteq> socket_name a \<longrightarrow> socks' x = socks x" "buffered be po' = take 1 (buffered be po @ queued be a socks)"
proof -
  define n where "n = Network_Schedule NetworkReadPoll ((network po)\<lparr>net_pending := remove1 NetworkReadPoll (net_pending (network po))\<rparr>)"
  obtain q where q: "socks (socket_name a) = Some q" "\<forall>p \<in> set q. length p = MaxWireSize \<and> msg_ok nb a (wire_msg be p)"
    using ok(2) by (auto simp: queue_ok_def split: option.splits)
  have c: "count_list (net_pending n) NetworkReadPoll = 1" "count_list (net_pending n) NetworkSendDone = count_list (net_pending (network po)) NetworkSendDone"
    using ok(1,3) by (simp_all add: n_def Network_Schedule_def office_ok_def count_remove1)
  have n: "ident n = a" "sockName n = socket_name a" "inHdr n = inHdr (network po)" "inbox n = inbox (network po)" "length (inbox n) = MaxPacketSize"
    using ok(1) by (simp_all add: n_def Network_Schedule_def office_ok_def)
  have same: "office_ok be nb a (po\<lparr>network := n\<rparr>)" using ok(1) c unfolding office_ok_def by (auto simp: n_def Network_Schedule_def)
  have i: "network_interrupt be NetworkReadPoll po socks = bindE (CheckPktAvail be ((network po)\<lparr>net_pending := remove1 NetworkReadPoll (net_pending (network po))\<rparr>) socks)
      (\<lambda>(n, socks). Inr (po\<lparr>network := n\<rparr>, socks))" by (simp add: network_interrupt_def)
  show thesis
  proof (cases "pkt_length (inHdr n) \<noteq> 0 \<or> q = []")
    case True
    then have "network_interrupt be NetworkReadPoll po socks = Inr (po\<lparr>network := n\<rparr>, socks)"
      unfolding i using q(1) n(2) by (auto simp: CheckPktAvail_def n_def [symmetric] Let_def PollSocket_def)
    moreover have "buffered be (po\<lparr>network := n\<rparr>) = buffered be po" by (simp add: buffered_def n)
    moreover have "buffered be po = take 1 (buffered be po @ queued be a socks)" using True q(1) n(3) by (auto simp: buffered_def queued_def)
    ultimately show thesis using that [of "po\<lparr>network := n\<rparr>" socks] same ok(2) by (simp add: n_def Network_Schedule_def)
  next
    case False
    then obtain p ps where ps: "q = p # ps" "pkt_length (inHdr n) = 0" by (cases q) auto
    define hdr where "hdr = pkt_of_bytes be (take PacketHeaderSize p)"
    define ib where "ib = take (unat (pkt_length hdr)) (drop PacketHeaderSize p) @ drop (unat (pkt_length hdr)) (inbox n)"
    define n' where "n' = n\<lparr>inHdr := hdr, inbox := ib, net_recvd := net_recvd n + 1, readAvail := readAvail n + 1\<rparr>"
    have p: "length p = 64" "msg_ok nb a (wire_msg be p)" using q(2) ps(1) by (simp_all add: MaxWireSize_def)
    have h: "pkt_to hdr = a" "unat (pkt_length hdr) \<le> MaxPacketSize" "pkt_length hdr \<noteq> 0"
      using p(2) unat_packet_length [of "mail_of_bytes be (take MailHeaderSize (drop PacketHeaderSize p))"]
      by (auto simp: msg_ok_def wire_msg_def payload_msg_def Let_def hdr_def mail_sizes unat_eq_0)
    have lp: "length (drop PacketHeaderSize p) = MaxPacketSize" using p(1) by (simp add: mail_sizes)
    have "CheckPktAvail be ((network po)\<lparr>net_pending := remove1 NetworkReadPoll (net_pending (network po))\<rparr>) socks = Inr (n', socks(socket_name a \<mapsto> ps))"
      using ps q(1) n p(1) h lp by (simp add: CheckPktAvail_def n_def [symmetric] Let_def PollSocket_def ReadFromSocket_def MaxWireSize_def hdr_def [symmetric]
          copy_bytes_def n'_def ib_def)
    then have step: "network_interrupt be NetworkReadPoll po socks = Inr (po\<lparr>network := n'\<rparr>, socks(socket_name a \<mapsto> ps))" by (simp add: i)
    have w: "wire_msg be p = payload_msg be hdr (drop PacketHeaderSize p)" by (simp add: wire_msg_def hdr_def)
    have li: "length ib = MaxPacketSize" using h(2) n(5) lp by (simp add: ib_def)
    have pm: "payload_msg be hdr ib = wire_msg be p"
      unfolding w by (rule payload_msg_take [of nb a]) (use p(2) w lp li h(2) in \<open>simp_all add: ib_def\<close>)
    have "office_ok be nb a (po\<lparr>network := n'\<rparr>)"
      using same ps(2) li pm p(2) h(3) by (simp add: office_ok_def n'_def)
    moreover have "queue_ok be nb a (socks(socket_name a \<mapsto> ps))" using q(2) ps(1) by (simp add: queue_ok_def)
    moreover have "buffered be (po\<lparr>network := n'\<rparr>) = [wire_msg be p]" "buffered be po = []" using h(3) pm ps(2) n(3) by (simp_all add: buffered_def n'_def)
    moreover have "queued be a socks = wire_msg be p # queued be a (socks(socket_name a \<mapsto> ps))" using q(1) ps(1) by (simp add: queued_def)
    moreover have "chanceToWork n' = chanceToWork (network po)" by (simp add: n'_def n_def Network_Schedule_def)
    ultimately show thesis using that [OF step] by simp
  qed
qed

lemma sent_outcome:
  assumes "office_ok be nb a po" "NetworkSendDone \<in> set (net_pending (network po))"
  shows "\<exists>po'. network_interrupt be NetworkSendDone po socks = Inr (po', socks) \<and> office_ok be nb a po' \<and> boxes po' = boxes po \<and> buffered be po' = buffered be po
    \<and> chanceToWork (network po') = chanceToWork (network po)"
proof -
  have "0 < count_list (net_pending (network po)) NetworkSendDone" using assms(2) by (metis count_list_0_iff gr0I)
  then show ?thesis using assms by (auto simp: network_interrupt_def SendDone_def office_ok_def buffered_def count_remove1)
qed

text \<open>The postal worker: the buffered message goes to the end of its box.\<close>

abbreviation box_of :: "msg \<Rightarrow> int" where
  "box_of m \<equiv> sint (mail_to (fst (snd m)))"

lemma deliver_outcome:
  assumes ok: "office_ok be nb a po" "buffered be po = [m]"
  obtains po' mail box' where "PostalDelivery be junk po = Inr po'" "office_ok be nb a po'" "buffered be po' = []" "mail_msg mail = m" "0 \<le> box_of m" "box_of m < nb"
    "boxes po' = (boxes po)[nat (box_of m) := box']" "List_items box' = List_items (boxes po ! nat (box_of m)) @ [mail]" "chanceToWork (network po') = chanceToWork (network po)"
proof -
  let ?hdr = "inHdr (network po)" and ?ib = "inbox (network po)"
  define buf where "buf = take (unat (pkt_length ?hdr)) ?ib @ drop (unat (pkt_length ?hdr)) (po_buffer po)"
  have f: "pkt_length ?hdr \<noteq> 0" "m = payload_msg be ?hdr ?ib" using ok(2) by (auto simp: buffered_def split: if_splits)
  have o: "length ?ib = MaxPacketSize" "length (po_buffer po) = MaxPacketSize" "msg_ok nb a m" "readAvail (network po) = 1" "numBoxes po = nb" "int (length (boxes po)) = nb"
    "\<forall>box \<in> set (boxes po). List_inv box" using ok(1) f by (simp_all add: office_ok_def)
  define mh where "mh = fst (snd m)"
  have m: "m = (?hdr, mh, snd (snd m))" using f(2) by (simp add: mh_def payload_msg_def Let_def)
  have mok: "msg_ok nb a (?hdr, mh, snd (snd m))" by (rule subst [OF m, of "msg_ok nb a", OF o(3)])
  have mo: "pkt_length ?hdr = mail_length mh + of_nat MailHeaderSize" "unat (mail_length mh) \<le> MaxMailSize" "0 \<le> sint (mail_to mh)" "sint (mail_to mh) < nb"
    using mok by (simp_all add: msg_ok_def)
  have len: "unat (pkt_length ?hdr) = unat (mail_length mh) + 12" using mo(1) unat_packet_length [OF mo(2)] by simp
  have le: "unat (pkt_length ?hdr) \<le> MaxPacketSize" using len mo(2) by (simp add: mail_sizes)
  have lb: "length buf = MaxPacketSize" using le o(1,2) by (simp add: buf_def)
  have pm: "payload_msg be ?hdr buf = m"
    unfolding f(2) by (rule payload_msg_take [of nb a]) (use o f(2) lb le in \<open>simp_all add: buf_def\<close>)
  have h: "mail_of_bytes be (take MailHeaderSize buf) = mh" using pm by (auto simp: mh_def payload_msg_def Let_def)
  define n where "n = (network po)\<lparr>readAvail := 0, inHdr := ?hdr\<lparr>pkt_length := 0\<rparr>\<rparr>"
  have r: "Network_Receive (po_buffer po) ((network po)\<lparr>readAvail := readAvail (network po) - 1\<rparr>) = Inr (?hdr, buf, n)"
    using f(1) le o(1,2,4) by (simp add: Network_Receive_def Let_def copy_bytes_def buf_def n_def)
  let ?b = "nat (sint (mail_to mh))"
  have b: "?b < length (boxes po)" using mo(3,4) o(6) by simp
  define mail where "mail = \<lparr>m_pktHdr = ?hdr, m_mailHdr = mh, m_data = take (unat (mail_length mh)) (drop MailHeaderSize buf) @ drop (unat (mail_length mh)) (new_chars junk MaxMailSize)\<rparr>"
  have new: "Mail_new junk ?hdr mh (drop MailHeaderSize buf) = Inr mail" using mo(2) lb by (simp add: Mail_new_def copy_bytes_def mail_def mail_sizes)
  have mm: "mail_msg mail = m" using pm mo(2) lb h by (auto simp: mail_msg_def mail_def payload_msg_def Let_def mail_sizes)
  have dl: "length (m_data mail) = MaxMailSize" using mo(2) lb by (simp add: mail_def mail_sizes)
  obtain box' where box: "List_Append mail (boxes po ! ?b) = Inr box'" "List_inv box'" "List_items box' = List_items (boxes po ! ?b) @ [mail]"
    using list_fifo.enq_ok [of "boxes po ! ?b" mail] o(7) b by auto
  define po' where "po' = po\<lparr>network := n, po_buffer := buf, boxes := (boxes po)[?b := box']\<rparr>"
  have "PostalDelivery be junk po = Inr po'"
    using o(4,5) r h mo b new box(1) by (simp add: PostalDelivery_def Let_def MailBox_Put_def arr_get_def po'_def)
  moreover have "office_ok be nb a po'"
  proof -
    have "List_inv x \<and> (\<forall>m \<in> set (List_items x). msg_ok nb a (mail_msg m) \<and> length (m_data m) = MaxMailSize)" if x: "x \<in> set ((boxes po)[?b := box'])" for x
    proof (cases "x = box'")
      case True
      then show ?thesis using ok(1) box(2,3) mm o(3) b dl nth_mem [OF b] by (auto simp: office_ok_def)
    next
      case False
      then have "x \<in> set (boxes po)" using x set_update_subset_insert by fastforce
      then show ?thesis using ok(1) by (auto simp: office_ok_def)
    qed
    then show ?thesis using ok(1) lb unfolding office_ok_def po'_def n_def by simp
  qed
  moreover have "buffered be po' = []" "chanceToWork (network po') = chanceToWork (network po)" by (simp_all add: po'_def n_def buffered_def)
  moreover have "boxes po' = (boxes po)[?b := box']" by (simp add: po'_def)
  ultimately show thesis using that [of po' mail box'] mm mo(3,4) box(3) by (simp add: mh_def)
qed

lemma deliver_suspended: "office_ok be nb a po \<Longrightarrow> buffered be po = [] \<Longrightarrow> PostalDelivery be junk po = Inl Suspended"
  by (auto simp: PostalDelivery_def office_ok_def buffered_def split: if_splits)

text \<open>Receiving: the first message of the box.\<close>

lemma receive_outcome:
  assumes ok: "office_ok be nb a po" "0 \<le> box" "box < nb" "List_items (boxes po ! nat box) = mail # rest"
  obtains po' box' where "PostOffice_Receive box po = Inr (fst (mail_msg mail), fst (snd (mail_msg mail)), snd (snd (mail_msg mail)), po')" "office_ok be nb a po'"
    "buffered be po' = buffered be po" "boxes po' = (boxes po)[nat box := box']" "List_items box' = rest" "chanceToWork (network po') = chanceToWork (network po)"
proof -
  have b: "nat box < length (boxes po)" "numBoxes po = nb" using ok(1-3) by (auto simp: office_ok_def)
  have bx: "List_inv (boxes po ! nat box)" "msg_ok nb a (mail_msg mail)" "length (m_data mail) = MaxMailSize" "\<forall>m \<in> set rest. msg_ok nb a (mail_msg m) \<and> length (m_data m) = MaxMailSize"
    using ok(1,4) nth_mem [OF b(1)] by (auto simp: office_ok_def)
  obtain box' where r: "List_Remove (boxes po ! nat box) = Inr (Some mail, box')" "List_inv box'" "List_items box' = rest"
    using list_fifo.deq_ok [OF bx(1) ok(4)] by blast
  have l: "unat (mail_length (m_mailHdr mail)) \<le> MaxMailSize" using bx(2) by (simp add: msg_ok_def mail_msg_def)
  define po' where "po' = po\<lparr>boxes := (boxes po)[nat box := box']\<rparr>"
  have "PostOffice_Receive box po = Inr (fst (mail_msg mail), fst (snd (mail_msg mail)), snd (snd (mail_msg mail)), po')"
    using ok(2,3) b r(1) l bx(3) by (simp add: PostOffice_Receive_def arr_get_def MailBox_Get_def mail_msg_def po'_def)
  moreover have "office_ok be nb a po'"
  proof -
    have "List_inv x \<and> (\<forall>m \<in> set (List_items x). msg_ok nb a (mail_msg m) \<and> length (m_data m) = MaxMailSize)" if x: "x \<in> set ((boxes po)[nat box := box'])" for x
    proof (cases "x = box'")
      case True
      then show ?thesis using r(2,3) bx(4) by simp
    next
      case False
      then have "x \<in> set (boxes po)" using x set_update_subset_insert by fastforce
      then show ?thesis using ok(1) by (auto simp: office_ok_def)
    qed
    then show ?thesis using ok(1) unfolding office_ok_def po'_def by simp
  qed
  ultimately show thesis using that [of po' box'] r(3) by (simp add: po'_def buffered_def)
qed

lemma receive_suspended:
  assumes "office_ok be nb a po" "0 \<le> box" "box < nb" "List_items (boxes po ! nat box) = []"
  shows "PostOffice_Receive box po = Inl Suspended"
proof -
  have b: "nat box < length (boxes po)" "numBoxes po = nb" using assms(1-3) by (auto simp: office_ok_def)
  have "List_inv (boxes po ! nat box)" using assms(1) nth_mem [OF b(1)] by (auto simp: office_ok_def)
  then have "List_Remove (boxes po ! nat box) = Inr (None, boxes po ! nat box)" by (rule list_fifo.deq_empty [OF _ assms(4)])
  then show ?thesis using assms(2,3) b by (simp add: PostOffice_Receive_def arr_get_def MailBox_Get_def)
qed

section \<open>The invariant of the network\<close>

definition got_from :: "World \<Rightarrow> 32 word \<Rightarrow> int \<Rightarrow> msg list" where
  "got_from w a b = map (\<lambda>(x, y, m). m) (filter (\<lambda>(x, y, m). x = a \<and> y = b) (w_got w))"

definition sent_to :: "World \<Rightarrow> 32 word \<Rightarrow> msg list" where
  "sent_to w a = filter (\<lambda>m. pkt_to (fst m) = a) (w_sent w)"

text \<open>
  \<open>D\<close> are the messages that the postal worker has delivered: split by box they are what has been received and what waits in the
  boxes, and followed by the messages on their way they are a subsequence of the messages sent, in a network
  that loses nothing all of them.
\<close>

definition machine_inv :: "bool \<Rightarrow> (rat \<Rightarrow> rat) \<Rightarrow> int \<Rightarrow> bool \<Rightarrow> World \<Rightarrow> msg list \<Rightarrow> 32 word \<Rightarrow> PostOffice \<Rightarrow> bool" where
  "machine_inv be fl nb rel w D a po \<longleftrightarrow> office_ok be nb a po \<and> queue_ok be nb a (w_socks w)
     \<and> (\<forall>b. 0 \<le> b \<and> b < nb \<longrightarrow> filter (\<lambda>m. box_of m = b) D = got_from w a b @ map mail_msg (List_items (boxes po ! nat b)))
     \<and> subseq (D @ buffered be po @ queued be a (w_socks w)) (sent_to w a)
     \<and> (rel \<longrightarrow> D @ buffered be po @ queued be a (w_socks w) = sent_to w a \<and> 100 \<le> fl (chanceToWork (network po) * 100))"

definition net_inv :: "bool \<Rightarrow> (rat \<Rightarrow> rat) \<Rightarrow> int \<Rightarrow> bool \<Rightarrow> World \<Rightarrow> bool" where
  "net_inv be fl nb rel w \<longleftrightarrow> (\<exists>D. \<forall>a po. w_offices w a = Some po \<longrightarrow> machine_inv be fl nb rel w (D a) a po)"

lemma net_invI: "(\<And>a po. w_offices w a = Some po \<Longrightarrow> machine_inv be fl nb rel w (D a) a po) \<Longrightarrow> net_inv be fl nb rel w"
  by (auto simp: net_inv_def)

lemma put_office_simps [simp]: "w_offices (put_office a po w) = (w_offices w)(a \<mapsto> po)" "w_socks (put_office a po w) = w_socks w" "w_sent (put_office a po w) = w_sent w"
  "w_got (put_office a po w) = w_got w"
  by (simp_all add: put_office_def)

lemma history_simps [simp]: "got_from (w\<lparr>w_socks := s, w_sent := t\<rparr>) a b = got_from w a b" "got_from (w\<lparr>w_socks := s\<rparr>) a b = got_from w a b"
  "got_from (put_office c po w) a b = got_from w a b" "sent_to (w\<lparr>w_socks := s\<rparr>) a = sent_to w a" "sent_to (put_office c po w) a = sent_to w a"
  "sent_to (w\<lparr>w_got := g\<rparr>) a = sent_to w a"
  by (simp_all add: got_from_def sent_to_def)

lemma queue_elsewhere:
  assumes "\<forall>x. x \<noteq> socket_name a \<longrightarrow> socks' x = socks x" "c \<noteq> a"
  shows "queue_ok be nb c socks' = queue_ok be nb c socks" "queued be c socks' = queued be c socks"
  using assms socket_name_inj by (auto simp: queue_ok_def queued_def)

text \<open>A step of one machine that leaves the histories alone.\<close>

lemma office_step_inv:
  assumes D: "\<And>c p. w_offices w c = Some p \<Longrightarrow> machine_inv be fl nb rel w (D c) c p" and a: "w_offices w a = Some po"
    and ok: "office_ok be nb a po'" "queue_ok be nb a socks'" "\<forall>x. x \<noteq> socket_name a \<longrightarrow> socks' x = w_socks w x" "chanceToWork (network po') = chanceToWork (network po)"
    and new: "new @ buffered be po' @ queued be a socks' = buffered be po @ queued be a (w_socks w)"
      "\<forall>b. 0 \<le> b \<and> b < nb \<longrightarrow> map mail_msg (List_items (boxes po' ! nat b)) = map mail_msg (List_items (boxes po ! nat b)) @ filter (\<lambda>m. box_of m = b) new"
  shows "net_inv be fl nb rel ((put_office a po' w)\<lparr>w_socks := socks'\<rparr>)"
proof (rule net_invI [where D = "D(a := D a @ new)"])
  fix c p assume c: "w_offices ((put_office a po' w)\<lparr>w_socks := socks'\<rparr>) c = Some p"
  show "machine_inv be fl nb rel ((put_office a po' w)\<lparr>w_socks := socks'\<rparr>) ((D(a := D a @ new)) c) c p"
  proof (cases "c = a")
    case True
    then show ?thesis using c D [OF a] ok new by (simp add: machine_inv_def)
  next
    case False
    then show ?thesis using c D [of c p] queue_elsewhere [OF ok(3) False] by (simp add: machine_inv_def)
  qed
qed

lemma same_socks: "(put_office a po w)\<lparr>w_socks := w_socks w\<rparr> = put_office a po w"
  by (simp add: put_office_def)

lemma deliver_step_inv:
  assumes D: "\<And>c p. w_offices w c = Some p \<Longrightarrow> machine_inv be fl nb rel w (D c) c p" and a: "w_offices w a = Some po" "PostalDelivery be junk po = Inr po'"
  shows "net_inv be fl nb rel (put_office a po' w)"
proof -
  have ok: "office_ok be nb a po" "queue_ok be nb a (w_socks w)" using D [OF a(1)] by (simp_all add: machine_inv_def)
  have "buffered be po \<noteq> []" using deliver_suspended [OF ok(1)] a(2) by auto
  then obtain m where m: "buffered be po = [m]" by (auto simp: buffered_def split: if_splits)
  obtain po2 mail box' where d: "PostalDelivery be junk po = Inr po2" "office_ok be nb a po2" "buffered be po2 = []" "mail_msg mail = m" "0 \<le> box_of m" "box_of m < nb"
    "boxes po2 = (boxes po)[nat (box_of m) := box']" "List_items box' = List_items (boxes po ! nat (box_of m)) @ [mail]" "chanceToWork (network po2) = chanceToWork (network po)"
    by (rule deliver_outcome [OF ok(1) m])
  have len: "int (length (boxes po)) = nb" using ok(1) by (simp add: office_ok_def)
  have "net_inv be fl nb rel ((put_office a po2 w)\<lparr>w_socks := w_socks w\<rparr>)"
  proof (rule office_step_inv [OF D a(1) d(2) ok(2) _ d(9), where new = "[m]"])
    show "\<forall>b. 0 \<le> b \<and> b < nb \<longrightarrow> map mail_msg (List_items (boxes po2 ! nat b)) = map mail_msg (List_items (boxes po ! nat b)) @ filter (\<lambda>m. box_of m = b) [m]"
    proof (intro allI impI)
      fix b assume b: "0 \<le> b \<and> b < nb"
      then have "nat b < length (boxes po)" using len by linarith
      moreover have "(nat (box_of m) = nat b) = (box_of m = b)" using d(5) b by auto
      ultimately show "map mail_msg (List_items (boxes po2 ! nat b)) = map mail_msg (List_items (boxes po ! nat b)) @ filter (\<lambda>m. box_of m = b) [m]"
        using d(4,7,8) by (simp add: nth_list_update)
    qed
  qed (simp_all add: m d(3))
  moreover have "po2 = po'" using d(1) a(2) by simp
  ultimately show ?thesis by (simp add: same_socks)
qed

lemma interrupt_step_inv:
  assumes D: "\<And>c p. w_offices w c = Some p \<Longrightarrow> machine_inv be fl nb rel w (D c) c p" and a: "w_offices w a = Some po" "i \<in> set (net_pending (network po))"
    "network_interrupt be i po (w_socks w) = Inr (po', socks')"
  shows "net_inv be fl nb rel ((put_office a po' w)\<lparr>w_socks := socks'\<rparr>)"
proof -
  have ok: "office_ok be nb a po" "queue_ok be nb a (w_socks w)" using D [OF a(1)] by (simp_all add: machine_inv_def)
  show ?thesis
  proof (cases i)
    case NetworkReadPoll
    obtain po2 socks2 where p: "network_interrupt be NetworkReadPoll po (w_socks w) = Inr (po2, socks2)" "office_ok be nb a po2" "queue_ok be nb a socks2"
      "boxes po2 = boxes po" "buffered be po2 @ queued be a socks2 = buffered be po @ queued be a (w_socks w)" "chanceToWork (network po2) = chanceToWork (network po)"
      "\<forall>x. x \<noteq> socket_name a \<longrightarrow> socks2 x = w_socks w x"
      by (rule poll_outcome [OF ok]) (use a(2) NetworkReadPoll in blast)+
    have "net_inv be fl nb rel ((put_office a po2 w)\<lparr>w_socks := socks2\<rparr>)"
      by (rule office_step_inv [OF D a(1) p(2,3,7,6), where new = "[]"]) (simp_all add: p(4,5))
    then show ?thesis using p(1) a(3) NetworkReadPoll by simp
  next
    case NetworkSendDone
    obtain po2 where p: "network_interrupt be NetworkSendDone po (w_socks w) = Inr (po2, w_socks w)" "office_ok be nb a po2" "boxes po2 = boxes po" "buffered be po2 = buffered be po"
      "chanceToWork (network po2) = chanceToWork (network po)"
      using sent_outcome [OF ok(1), of "w_socks w"] a(2) NetworkSendDone by auto
    have "net_inv be fl nb rel ((put_office a po2 w)\<lparr>w_socks := w_socks w\<rparr>)"
      by (rule office_step_inv [OF D a(1) p(2) ok(2) _ p(5), where new = "[]"]) (simp_all add: p(3,4))
    then show ?thesis using p(1) a(3) NetworkSendDone by simp
  qed
qed

lemma finish_step_inv:
  assumes D: "\<And>c p. w_offices w c = Some p \<Longrightarrow> machine_inv be fl nb rel w (D c) c p" and a: "w_offices w a = Some po" "PostOffice_Send_finish po = Inr po'"
  shows "net_inv be fl nb rel (put_office a po' w)"
proof -
  have ok: "office_ok be nb a po" "queue_ok be nb a (w_socks w)" using D [OF a(1)] by (simp_all add: machine_inv_def)
  have f: "office_ok be nb a po'" "boxes po' = boxes po" "buffered be po' = buffered be po" "chanceToWork (network po') = chanceToWork (network po)"
    using finish_outcome [OF ok(1) a(2)] by simp_all
  have "net_inv be fl nb rel ((put_office a po' w)\<lparr>w_socks := w_socks w\<rparr>)"
    by (rule office_step_inv [OF D a(1) f(1) ok(2) _ f(4), where new = "[]"]) (simp_all add: f(2,3))
  then show ?thesis by (simp add: same_socks)
qed

lemma Receive_requires:
  assumes "PostOffice_Receive box po = Inr r"
  shows "0 \<le> box" "box < numBoxes po"
  using assms by (auto simp: PostOffice_Receive_def bindE_eq_Inr assertE_eq_Inr)

lemma receive_step_inv:
  assumes D: "\<And>c p. w_offices w c = Some p \<Longrightarrow> machine_inv be fl nb rel w (D c) c p" and a: "w_offices w a = Some po" "PostOffice_Receive box po = Inr (ph, mh, data, po')"
  shows "net_inv be fl nb rel ((put_office a po' w)\<lparr>w_got := w_got w @ [(a, box, ph, mh, data)]\<rparr>)"
proof -
  let ?w = "(put_office a po' w)\<lparr>w_got := w_got w @ [(a, box, ph, mh, data)]\<rparr>"
  have ok: "office_ok be nb a po" using D [OF a(1)] by (simp add: machine_inv_def)
  have len: "int (length (boxes po)) = nb" "numBoxes po = nb" using ok by (simp_all add: office_ok_def)
  have b: "0 \<le> box" "box < nb" using Receive_requires [OF a(2)] len by simp_all
  have "List_items (boxes po ! nat box) \<noteq> []" using receive_suspended [OF ok b] a(2) by auto
  then obtain mail rest where mr: "List_items (boxes po ! nat box) = mail # rest" by (cases "List_items (boxes po ! nat box)") auto
  obtain po2 box' where r: "PostOffice_Receive box po = Inr (fst (mail_msg mail), fst (snd (mail_msg mail)), snd (snd (mail_msg mail)), po2)" "office_ok be nb a po2"
    "buffered be po2 = buffered be po" "boxes po2 = (boxes po)[nat box := box']" "List_items box' = rest" "chanceToWork (network po2) = chanceToWork (network po)"
    by (rule receive_outcome [OF ok b mr])
  have e: "po2 = po'" "(ph, mh, data) = mail_msg mail" using r(1) a(2) by simp_all
  have got: "got_from ?w c b2 = got_from w c b2 @ (if c = a \<and> b2 = box then [mail_msg mail] else [])" for c b2
    using e(2) by (auto simp: got_from_def)
  show ?thesis
  proof (rule net_invI [where D = D])
    fix c p assume c: "w_offices ?w c = Some p"
    show "machine_inv be fl nb rel ?w (D c) c p"
    proof (cases "c = a")
      case True
      have "filter (\<lambda>m. box_of m = b2) (D a) = got_from ?w a b2 @ map mail_msg (List_items (boxes po' ! nat b2))" if b2: "0 \<le> b2 \<and> b2 < nb" for b2
      proof -
        have "nat b2 < length (boxes po)" "(nat box = nat b2) = (box = b2)" using b2 b len by auto
        then show ?thesis using D [OF a(1)] b2 mr r(4,5) e(1) unfolding got by (auto simp: machine_inv_def nth_list_update)
      qed
      then show ?thesis using c True D [OF a(1)] r(2,3,6) e(1) by (simp add: machine_inv_def)
    next
      case False
      then show ?thesis using c D [of c p] unfolding machine_inv_def got by simp
    qed
  qed
qed

lemma send_step_inv:
  assumes D: "\<And>c p. w_offices w c = Some p \<Longrightarrow> machine_inv be fl nb rel w (D c) c p" and a: "w_offices w a = Some po" "w_offices w (pkt_to ph) \<noteq> None" "0 \<le> rnd"
    "PostOffice_Send be fl rnd junk ph mh data po (w_socks w) = Inr (po', socks')"
  shows "net_inv be fl nb rel ((put_office a po' w)\<lparr>w_socks := socks', w_sent := w_sent w @ [(filled po ph mh, mh, take (unat (mail_length mh)) data)]\<rparr>)"
proof -
  let ?m = "(filled po ph mh, mh, take (unat (mail_length mh)) data)" and ?d = "pkt_to ph"
  let ?w = "(put_office a po' w)\<lparr>w_socks := socks', w_sent := w_sent w @ [?m]\<rparr>"
  have ok: "office_ok be nb a po" "rel \<longrightarrow> 100 \<le> fl (chanceToWork (network po) * 100)" using D [OF a(1)] by (simp_all add: machine_inv_def)
  note rq = Send_requires [OF a(4)]
  have nb: "sint (mail_to mh) < nb" using rq(3) ok(1) by (simp add: office_ok_def)
  obtain pd where "w_offices w ?d = Some pd" using a(2) by auto
  then have "queue_ok be nb ?d (w_socks w)" using D by (auto simp: machine_inv_def)
  then obtain q where q: "w_socks w (socket_name ?d) = Some q" "\<forall>p \<in> set q. length p = MaxWireSize \<and> msg_ok nb ?d (wire_msg be p)"
    by (auto simp: queue_ok_def split: option.splits)
  have mok: "msg_ok nb ?d ?m" using rq nb by (simp add: msg_ok_def filled_def)
  have sent: "sent_to ?w c = sent_to w c @ (if c = ?d then [?m] else [])" for c by (simp add: sent_to_def filled_def)
  obtain ms where e: "po' = after_send po" "\<And>c. queued be c socks' = queued be c (w_socks w) @ (if c = ?d then ms else [])" "ms = [] \<and> \<not> rel \<or> ms = [?m]"
    "\<And>c. queue_ok be nb c (w_socks w) \<Longrightarrow> queue_ok be nb c socks'"
  proof (rule Send_outcome [where socks = "w_socks w" and ph = ph and q = q and fl = fl and rnd = rnd and junk = junk, OF ok(1) rq(1,4,2) nb q(1) rq(5)])
    assume l: "PostOffice_Send be fl rnd junk ph mh data po (w_socks w) = Inr (after_send po, w_socks w)" "fl (chanceToWork (network po) * 100) \<le> of_int (rnd mod 100)"
    have "rnd mod 100 < 100" by simp
    then have "of_int (rnd mod 100) < (100 :: rat)" by linarith
    then have "\<not> rel" using l(2) ok(2) by linarith
    then show thesis using that [of "[]"] l(1) a(4) by simp
  next
    fix wire assume p: "PostOffice_Send be fl rnd junk ph mh data po (w_socks w) = Inr (after_send po, (w_socks w)(socket_name ?d \<mapsto> q @ [wire]))"
      "length wire = MaxWireSize" "wire_msg be wire = ?m"
    then have s: "socks' = (w_socks w)(socket_name ?d \<mapsto> q @ [wire])" "po' = after_send po" using a(4) by simp_all
    have "queue_ok be nb c socks'" if "queue_ok be nb c (w_socks w)" for c
      using that p(2,3) q mok s(1) by (auto simp: queue_ok_def socket_name_inj split: if_splits)
    moreover have "queued be c socks' = queued be c (w_socks w) @ (if c = ?d then [?m] else [])" for c
      using s(1) p(3) q(1) by (simp add: queued_def socket_name_inj)
    ultimately show thesis using that [of "[?m]"] s(2) by simp
  qed
  show ?thesis
  proof (rule net_invI [where D = D])
    fix c p assume c: "w_offices ?w c = Some p"
    obtain p0 where p0: "w_offices w c = Some p0" "p = (if c = a then after_send p0 else p0)" "c = a \<Longrightarrow> p0 = po" using c a(1) e(1) by (auto split: if_splits)
    have same: "boxes p = boxes p0" "buffered be p = buffered be p0" "chanceToWork (network p) = chanceToWork (network p0)" by (simp_all add: p0(2))
    note i = D [OF p0(1), unfolded machine_inv_def]
    have "office_ok be nb c p" using i p0(2,3) office_ok_after_send rq(5) by auto
    moreover have "subseq (D c @ buffered be p @ queued be c socks') (sent_to ?w c)"
      unfolding sent e(2) same(2)
      using i e(3) list_emb_append_mono [of "(=)" "D c @ buffered be p0 @ queued be c (w_socks w)" "sent_to w c" "if c = ?d then ms else []" "if c = ?d then [?m] else []"]
      by (auto split: if_splits)
    moreover have "rel \<longrightarrow> D c @ buffered be p @ queued be c socks' = sent_to ?w c \<and> 100 \<le> fl (chanceToWork (network p) * 100)"
      unfolding sent e(2) same using i e(3) by (auto simp flip: append_assoc)
    ultimately show "machine_inv be fl nb rel ?w (D c) c p" unfolding machine_inv_def using i e(4) same(1) by (auto simp: got_from_def)
  qed
qed

lemma net_step_inv: "net_step be fl w w' \<Longrightarrow> net_inv be fl nb rel w \<Longrightarrow> net_inv be fl nb rel w'"
proof (induction rule: net_step.induct)
  case (send w a po pktHdr rnd junk mailHdr data po' socks')
  then show ?case unfolding net_inv_def by (metis (no_types, lifting) send_step_inv net_inv_def)
next
  case (send_finish w a po po')
  then show ?case using finish_step_inv unfolding net_inv_def by metis
next
  case (interrupt w a po i po' socks')
  then show ?case using interrupt_step_inv unfolding net_inv_def by metis
next
  case (deliver w a po junk po')
  then show ?case using deliver_step_inv unfolding net_inv_def by metis
next
  case (receive w a po box pktHdr mailHdr data po')
  then show ?case using receive_step_inv unfolding net_inv_def by metis
qed

lemma net_reachable_inv: "(net_step be fl)\<^sup>*\<^sup>* w w' \<Longrightarrow> net_inv be fl nb rel w \<Longrightarrow> net_inv be fl nb rel w'"
  by (induction rule: rtranclp_induct) (auto intro: net_step_inv)

section \<open>What the post office promises\<close>

text \<open>Machines are started one after the other, each with a reliability, and with \<open>nb\<close> boxes each.\<close>

definition boot :: "(nat \<Rightarrow> byte) \<Rightarrow> PacketHeader \<Rightarrow> nat \<Rightarrow> 32 word \<times> rat \<Rightarrow> World \<Rightarrow> World" where
  "boot junk hdr nb = (\<lambda>(a, r) w. let (po, socks) = PostOffice_new junk hdr a r nb (w_socks w) in (put_office a po w)\<lparr>w_socks := socks\<rparr>)"

definition start_world :: "(nat \<Rightarrow> byte) \<Rightarrow> PacketHeader \<Rightarrow> nat \<Rightarrow> (32 word \<times> rat) list \<Rightarrow> World" where
  "start_world junk hdr nb ms = fold (boot junk hdr nb) ms \<lparr>w_socks = Map.empty, w_offices = Map.empty, w_sent = [], w_got = []\<rparr>"

definition fresh_world :: "bool \<Rightarrow> (rat \<Rightarrow> rat) \<Rightarrow> int \<Rightarrow> bool \<Rightarrow> World \<Rightarrow> bool" where
  "fresh_world be fl nb rel w \<longleftrightarrow> w_sent w = [] \<and> w_got w = [] \<and> (\<forall>a po. w_offices w a = Some po \<longrightarrow> machine_inv be fl nb rel w [] a po)"

lemma boot_fresh:
  assumes w: "fresh_world be fl (int nb) rel w" and r: "rel \<longrightarrow> 1 \<le> r \<and> fl 100 = 100"
  shows "fresh_world be fl (int nb) rel (boot junk hdr nb (a, r) w)"
proof -
  obtain po socks where p: "PostOffice_new junk hdr a r nb (w_socks w) = (po, socks)" by fastforce
  have s: "socks = (w_socks w)(socket_name a \<mapsto> [])" and ok: "office_ok be (int nb) a po" and b: "buffered be po = []" "\<forall>i < nb. List_items (boxes po ! i) = []"
    and c: "1 \<le> r \<Longrightarrow> chanceToWork (network po) = 1"
    using p by (auto simp: PostOffice_new_def Network_new_def Network_Schedule_def AssignNameToSocket_def Let_def office_ok_def buffered_def MailBox_new_def
        List_items_def)
  have e: "boot junk hdr nb (a, r) w = (put_office a po w)\<lparr>w_socks := socks\<rparr>" using p by (simp add: boot_def)
  have "machine_inv be fl (int nb) rel ((put_office a po w)\<lparr>w_socks := socks\<rparr>) [] x q" if x: "((w_offices w)(a \<mapsto> po)) x = Some q" for x q
  proof (cases "x = a")
    case True
    have "queue_ok be (int nb) a socks" "queued be a socks = []" by (simp_all add: s queue_ok_def queued_def)
    moreover have "\<forall>b. 0 \<le> b \<and> b < int nb \<longrightarrow> List_items (boxes po ! nat b) = []" using b(2) by (simp add: nat_less_iff)
    ultimately show ?thesis using x True ok b(1) r c w by (simp add: machine_inv_def fresh_world_def got_from_def sent_to_def)
  next
    case False
    then have "machine_inv be fl (int nb) rel w [] x q" using x w by (simp add: fresh_world_def)
    then show ?thesis using queue_elsewhere [of a socks "w_socks w" x] False s by (simp add: machine_inv_def)
  qed
  then show ?thesis using w e by (simp add: fresh_world_def)
qed

lemma start_inv:
  assumes "rel \<longrightarrow> (\<forall>(a, r) \<in> set ms. 1 \<le> r) \<and> fl 100 = 100"
  shows "net_inv be fl (int nb) rel (start_world junk hdr nb ms)"
proof -
  have "fresh_world be fl (int nb) rel (fold (boot junk hdr nb) ms w)" if "fresh_world be fl (int nb) rel w" for w
    using that assms
  proof (induction ms arbitrary: w)
    case (Cons m ms)
    obtain a r where m: "m = (a, r)" by fastforce
    then have "fresh_world be fl (int nb) rel (boot junk hdr nb m w)" using boot_fresh [OF Cons.prems(1), of r junk hdr a] Cons.prems(2) by auto
    then show ?case using Cons.IH Cons.prems(2) by auto
  qed simp
  moreover have "fresh_world be fl (int nb) rel \<lparr>w_socks = Map.empty, w_offices = Map.empty, w_sent = [], w_got = []\<rparr>" by (simp add: fresh_world_def)
  ultimately have "fresh_world be fl (int nb) rel (start_world junk hdr nb ms)" by (simp add: start_world_def)
  then show ?thesis by (auto simp: fresh_world_def intro: net_invI [where D = "\<lambda>_. []"])
qed

text \<open>C12: The post office delivers unreliably but in order, and never corrupts a message. In every run of a network of machines, the messages that have been received
  from a box, followed by those that wait in it, are a subsequence of the messages sent to that box, in the order in which they were
  given to the network, with headers and data unchanged. In a network with reliability 1 no message is lost: the rest of them is on its way.\<close>

theorem mail_in_order:
  assumes "(net_step be fl)\<^sup>*\<^sup>* (start_world junk hdr nb ms) w" "w_offices w a = Some po" "0 \<le> b" "b < int nb"
  shows "subseq (got_from w a b @ map mail_msg (List_items (boxes po ! nat b))) (filter (\<lambda>m. box_of m = b) (sent_to w a))
    \<and> ((\<forall>(a, r) \<in> set ms. 1 \<le> r) \<and> fl 100 = 100 \<longrightarrow>
        got_from w a b @ map mail_msg (List_items (boxes po ! nat b)) @ filter (\<lambda>m. box_of m = b) (buffered be po @ queued be a (w_socks w))
        = filter (\<lambda>m. box_of m = b) (sent_to w a))"
proof -
  define rel where "rel \<longleftrightarrow> (\<forall>(a, r) \<in> set ms. 1 \<le> r) \<and> fl 100 = 100"
  have "net_inv be fl (int nb) rel w" by (rule net_reachable_inv [OF assms(1) start_inv]) (simp add: rel_def)
  then obtain D where "machine_inv be fl (int nb) rel w D a po" using assms(2) by (auto simp: net_inv_def)
  then have m: "filter (\<lambda>m. box_of m = b) D = got_from w a b @ map mail_msg (List_items (boxes po ! nat b))"
      "subseq (D @ buffered be po @ queued be a (w_socks w)) (sent_to w a)" "rel \<longrightarrow> D @ buffered be po @ queued be a (w_socks w) = sent_to w a"
    using assms(3,4) by (auto simp: machine_inv_def)
  have "subseq D (D @ buffered be po @ queued be a (w_socks w))" by (rule prefix_imp_subseq) simp
  then have "subseq D (sent_to w a)" using m(2) by (rule subseq_order.trans)
  then have "subseq (filter (\<lambda>m. box_of m = b) D) (filter (\<lambda>m. box_of m = b) (sent_to w a))" by (rule subseq_filter)
  moreover have "filter (\<lambda>m. box_of m = b) D @ filter (\<lambda>m. box_of m = b) (buffered be po @ queued be a (w_socks w)) = filter (\<lambda>m. box_of m = b) (sent_to w a)" if rel
    using m(3) that by (metis filter_append)
  ultimately show ?thesis using m(1) by (simp add: rel_def)
qed

lemma two_offices:
  assumes "a1 \<noteq> a2"
  shows "\<exists>po1 po2. w_offices (start_world junk hdr nb [(a1, r1), (a2, r2)]) a1 = Some po1 \<and> w_offices (start_world junk hdr nb [(a1, r1), (a2, r2)]) a2 = Some po2
    \<and> sendFree po1 \<and> numBoxes po1 = int nb \<and> netAddr po1 = a1"
  using assms by (simp add: start_world_def boot_def PostOffice_new_def Network_new_def Let_def)

definition hello :: "MailHeader" where
  "hello = \<lparr>mail_to = 0, mail_from = 1, mail_length = 2\<rparr>"

theorem mail_in_order_witness:
  "\<exists>w po m. (net_step False id)\<^sup>*\<^sup>* (start_world (\<lambda>_. 0) \<lparr>pkt_to = 0, pkt_from = 0, pkt_length = 0\<rparr> 10 [(0, 1), (1, 1)]) w \<and> w_offices w 1 = Some po \<and> sent_to w 1 = [m]
    \<and> fst (snd m) = hello \<and> snd (snd m) = [72, 105]
    \<and> got_from w 1 0 @ map mail_msg (List_items (boxes po ! 0)) @ filter (\<lambda>m. box_of m = 0) (buffered False po @ queued False 1 (w_socks w)) = [m]"
proof -
  let ?h = "\<lparr>pkt_to = 0, pkt_from = 0, pkt_length = 0\<rparr> :: PacketHeader" and ?ph = "\<lparr>pkt_to = 1, pkt_from = 0, pkt_length = 0\<rparr> :: PacketHeader"
  let ?ms = "[(0, 1), (1, 1)] :: (32 word \<times> rat) list"
  let ?start = "start_world (\<lambda>_. 0) ?h 10 ?ms"
  obtain po1 po2 where p: "w_offices ?start 0 = Some po1" "w_offices ?start 1 = Some po2" "sendFree po1" "numBoxes po1 = 10" "netAddr po1 = 0"
    using two_offices [of 0 1 "\<lambda>_. 0" ?h 10 1 1] by auto
  have inv: "net_inv False id (int 10) True ?start" by (rule start_inv) simp
  have ok: "office_ok False 10 0 po1" "queue_ok False 10 1 (w_socks ?start)" using inv p(1,2) by (auto simp: net_inv_def machine_inv_def)
  obtain q where q: "w_socks ?start (socket_name (pkt_to ?ph)) = Some q" using ok(2) by (auto simp: queue_ok_def split: option.splits)
  have sz: "unat (mail_length hello) \<le> MaxMailSize" "unat (mail_length hello) \<le> length [72, 105 :: byte]" "0 \<le> sint (mail_to hello)" "sint (mail_to hello) < 10"
    by (simp_all add: hello_def mail_sizes)
  obtain po' socks' where s: "PostOffice_Send False id 0 (\<lambda>_. 0) ?ph hello [72, 105] po1 (w_socks ?start) = Inr (po', socks')"
    by (rule Send_outcome [where socks = "w_socks ?start" and ph = ?ph and q = q and fl = id and rnd = 0 and junk = "\<lambda>_. 0", OF ok(1) sz q p(3)]) blast+
  define m where "m = (filled po1 ?ph hello, hello, [72, 105 :: byte])"
  let ?w = "(put_office 0 po' ?start)\<lparr>w_socks := socks', w_sent := w_sent ?start @ [(filled po1 ?ph hello, hello, take (unat (mail_length hello)) [72, 105])]\<rparr>"
  have "net_step False id ?start ?w" by (rule net_step.send [OF p(1) _ _ s]) (simp_all add: p(2))
  then have r: "(net_step False id)\<^sup>*\<^sup>* ?start ?w" by (rule r_into_rtranclp)
  have o: "w_offices ?w 1 = Some po2" using p(2) by simp
  have "w_sent ?start = []" by (simp add: start_world_def boot_def PostOffice_new_def Network_new_def Let_def)
  then have st: "sent_to ?w 1 = [m]" by (simp add: sent_to_def m_def filled_def hello_def)
  have "got_from ?w 1 0 @ map mail_msg (List_items (boxes po2 ! 0)) @ filter (\<lambda>m. box_of m = 0) (buffered False po2 @ queued False 1 (w_socks ?w)) = [m]"
    using mail_in_order [OF r o, of 0] st by (simp add: m_def hello_def)
  then show ?thesis using r o st by (intro exI [of _ ?w] exI [of _ po2] exI [of _ m]) (simp add: m_def)
qed

text \<open>Receiving in the two builds.\<close>

lemma Receive_stub_outcome:
  assumes "office_ok be nb a po" "0 \<le> box" "box < nb"
  shows "PostOffice_Receive_stub box po = (if List_items (boxes po ! nat box) = [] then Inl AssertFail else PostOffice_Receive box po)"
proof -
  have l: "nat box < length (boxes po)" "numBoxes po = nb" using assms by (auto simp: office_ok_def)
  then have "List_inv (boxes po ! nat box)" using assms(1) by (auto simp: office_ok_def)
  then have "List_IsEmpty (boxes po ! nat box) \<longleftrightarrow> List_items (boxes po ! nat box) = []" by (simp add: List_IsEmpty_iff List_items_def)
  then show ?thesis using l assms(2,3) by (simp add: PostOffice_Receive_stub_def PostOffice_Receive_def MailBox_Get_stub_def arr_get_def)
qed

text \<open>C13: No message gets stuck. Whatever a network of machines with working locks has done, every scheduled network interrupt is handled without failure, polling is always scheduled and
  takes the next waiting packet into an empty device, the postal worker is signalled exactly when the device holds a packet and then delivers it, a sender that holds the send
  lock has its interrupt scheduled or can go on, a waiting message is received, a receiver of an empty box waits, and a post office whose send lock is free accepts every message of legal size
  for a box of a running machine. Without \<^verbatim>\<open>THREADS\<close>, Receive does the same with a waiting message, but on an empty box it fails an assertion.\<close>

theorem mail_moves_on:
  assumes "(net_step be fl)\<^sup>*\<^sup>* (start_world junk hdr nb ms) w" "w_offices w a = Some po"
  shows "(\<forall>i \<in> set (net_pending (network po)). \<exists>r. network_interrupt be i po (w_socks w) = Inr r) \<and> NetworkReadPoll \<in> set (net_pending (network po))
    \<and> (buffered be po = [] \<longrightarrow> (\<exists>po' socks'. network_interrupt be NetworkReadPoll po (w_socks w) = Inr (po', socks') \<and> buffered be po' = take 1 (queued be a (w_socks w))))
    \<and> (buffered be po \<noteq> [] \<longrightarrow> (\<forall>junk. \<exists>po'. PostalDelivery be junk po = Inr po' \<and> buffered be po' = []))
    \<and> (\<not> sendFree po \<longrightarrow> NetworkSendDone \<in> set (net_pending (network po)) \<or> (\<exists>po'. PostOffice_Send_finish po = Inr po'))
    \<and> (\<forall>b. 0 \<le> b \<and> b < int nb \<longrightarrow> (if List_items (boxes po ! nat b) \<noteq> [] then (\<exists>r. PostOffice_Receive b po = Inr r \<and> PostOffice_Receive_stub b po = Inr r)
        else PostOffice_Receive b po = Inl Suspended \<and> PostOffice_Receive_stub b po = Inl AssertFail))
    \<and> (sendFree po \<longrightarrow> (\<forall>rnd junk ph mh data. w_offices w (pkt_to ph) \<noteq> None \<and> unat (mail_length mh) \<le> MaxMailSize \<and> unat (mail_length mh) \<le> length data
        \<and> 0 \<le> sint (mail_to mh) \<and> sint (mail_to mh) < int nb \<longrightarrow> (\<exists>r. PostOffice_Send be fl rnd junk ph mh data po (w_socks w) = Inr r)))"
    (is "?int \<and> ?poll \<and> ?take \<and> ?deliver \<and> ?finish \<and> ?receive \<and> ?send")
proof (intro conjI)
  have inv: "net_inv be fl (int nb) False w" by (rule net_reachable_inv [OF assms(1) start_inv]) simp
  then have all: "office_ok be (int nb) c p \<and> queue_ok be (int nb) c (w_socks w)" if "w_offices w c = Some p" for c p
    using that by (auto simp: net_inv_def machine_inv_def)
  have ok: "office_ok be (int nb) a po" "queue_ok be (int nb) a (w_socks w)" using all [OF assms(2)] by simp_all
  show poll: ?poll using ok(1) count_list_0_iff [of "net_pending (network po)" NetworkReadPoll] by (auto simp: office_ok_def)
  have pi: "\<exists>po' socks'. network_interrupt be NetworkReadPoll po (w_socks w) = Inr (po', socks') \<and> buffered be po' = take 1 (buffered be po @ queued be a (w_socks w))"
    by (rule poll_outcome [OF ok poll]) blast
  then show ?take by auto
  show ?int
  proof
    fix i assume i: "i \<in> set (net_pending (network po))"
    show "\<exists>r. network_interrupt be i po (w_socks w) = Inr r"
    proof (cases i)
      case NetworkReadPoll
      then show ?thesis using pi by blast
    next
      case NetworkSendDone
      then show ?thesis using sent_outcome [OF ok(1), of "w_socks w"] i by blast
    qed
  qed
  show ?deliver
  proof (intro impI allI)
    fix junk assume "buffered be po \<noteq> []"
    then obtain m where "buffered be po = [m]" by (auto simp: buffered_def split: if_splits)
    then show "\<exists>po'. PostalDelivery be junk po = Inr po' \<and> buffered be po' = []" by (rule deliver_outcome [OF ok(1)]) blast
  qed
  show ?finish using ok(1) count_list_0_iff [of "net_pending (network po)" NetworkSendDone] by (auto simp: office_ok_def PostOffice_Send_finish_def)
  show ?receive
  proof (intro allI impI, elim conjE)
    fix b assume bb: "0 \<le> b" "b < int nb"
    note stub = Receive_stub_outcome [OF ok(1) bb]
    show "if List_items (boxes po ! nat b) \<noteq> [] then (\<exists>r. PostOffice_Receive b po = Inr r \<and> PostOffice_Receive_stub b po = Inr r)
        else PostOffice_Receive b po = Inl Suspended \<and> PostOffice_Receive_stub b po = Inl AssertFail"
    proof (cases "List_items (boxes po ! nat b)")
      case Nil
      then show ?thesis using receive_suspended [OF ok(1) bb Nil] stub by simp
    next
      case (Cons mail rest)
      have "\<exists>r. PostOffice_Receive b po = Inr r" by (rule receive_outcome [OF ok(1) bb Cons]) blast
      then show ?thesis using Cons stub by simp
    qed
  qed
  show ?send
  proof (intro impI allI, elim conjE)
    fix rnd junk and ph :: PacketHeader and mh :: MailHeader and data :: "byte list"
    assume s: "sendFree po" "w_offices w (pkt_to ph) \<noteq> None" "unat (mail_length mh) \<le> MaxMailSize" "unat (mail_length mh) \<le> length data" "0 \<le> sint (mail_to mh)" "sint (mail_to mh) < int nb"
    have "queue_ok be (int nb) (pkt_to ph) (w_socks w)" using s(2) all by blast
    then obtain q where q: "w_socks w (socket_name (pkt_to ph)) = Some q" by (auto simp: queue_ok_def split: option.splits)
    show "\<exists>r. PostOffice_Send be fl rnd junk ph mh data po (w_socks w) = Inr r"
      by (rule Send_outcome [where socks = "w_socks w" and ph = ph and q = q and fl = fl and rnd = rnd and junk = junk, OF ok(1) s(3-6) q s(1)]) blast+
  qed
qed

theorem mail_moves_on_witness:
  "\<exists>po. w_offices (start_world (\<lambda>_. 0) \<lparr>pkt_to = 0, pkt_from = 0, pkt_length = 0\<rparr> 10 [(0, 1), (1, 1)]) 0 = Some po \<and> NetworkReadPoll \<in> set (net_pending (network po))"
proof -
  let ?w = "start_world (\<lambda>_. 0) \<lparr>pkt_to = 0, pkt_from = 0, pkt_length = 0\<rparr> 10 [(0, 1), (1, 1)]"
  obtain po where p: "w_offices ?w 0 = Some po" using two_offices [of 0 1 "\<lambda>_. 0" "\<lparr>pkt_to = 0, pkt_from = 0, pkt_length = 0\<rparr>" 10 1 1] by auto
  have "(net_step False id)\<^sup>*\<^sup>* ?w ?w" by simp
  then show ?thesis using mail_moves_on [OF _ p, of False id] p by blast
qed

end
