(* ===== verification/Coff.thy ===== *)
theory Coff
  imports AddrSpace Disk
begin

text \<open>
  The converters of object files, \<^verbatim>\<open>bin/coff2noff.c\<close> and \<^verbatim>\<open>bin/coff2flat.c\<close>, on the bytes of their input and output. The output of \<^verbatim>\<open>coff2noff\<close> is what the kernel loads
  (theory \<^verbatim>\<open>AddrSpace\<close>): the main theorem composes the two.
\<close>

section \<open>Object files\<close>

text \<open>
  The structures of \<^verbatim>\<open>bin/coff.h\<close> with the layout of a 32-bit host, where \<^verbatim>\<open>long\<close> has four bytes and nothing is padded. A structure is read
  in the byte order of the host; the fields the programs use are then converted from the byte order of the simulated machine.
\<close>

record filehdr =
  f_magic :: "16 word"
  f_nscns :: "16 word"
  f_timdat :: "32 word"
  f_symptr :: "32 word"
  f_nsyms :: "32 word"
  f_opthdr :: "16 word"
  f_flags :: "16 word"

record aouthdr =
  aout_magic :: "16 word"
  vstamp :: "16 word"
  aout_rest :: "32 word list"

record scnhdr =
  s_name :: "byte list"
  s_paddr :: "32 word"
  s_vaddr :: "32 word"
  s_size :: "32 word"
  s_scnptr :: "32 word"
  s_relptr :: "32 word"
  s_lnnoptr :: "32 word"
  s_nreloc :: "16 word"
  s_nlnno :: "16 word"
  s_flags :: "32 word"

definition MIPSELMAGIC :: "16 word" where "MIPSELMAGIC = 0x0162"
definition OMAGIC :: "16 word" where "OMAGIC = 0x107"

definition read_filehdr :: "bool \<Rightarrow> byte list \<Rightarrow> filehdr" where
  "read_filehdr big bs = \<lparr>f_magic = host_read2 big ((!) bs) 0, f_nscns = host_read2 big ((!) bs) 2, f_timdat = host_read4 big ((!) bs) 4,
     f_symptr = host_read4 big ((!) bs) 8, f_nsyms = host_read4 big ((!) bs) 12, f_opthdr = host_read2 big ((!) bs) 16, f_flags = host_read2 big ((!) bs) 18\<rparr>"

definition read_aouthdr :: "bool \<Rightarrow> byte list \<Rightarrow> aouthdr" where
  "read_aouthdr big bs = \<lparr>aout_magic = host_read2 big ((!) bs) 0, vstamp = host_read2 big ((!) bs) 2, aout_rest = map (\<lambda>k. host_read4 big ((!) bs) (4 + 4 * k)) [0..<13]\<rparr>"

definition read_scnhdr :: "bool \<Rightarrow> byte list \<Rightarrow> scnhdr" where
  "read_scnhdr big bs = \<lparr>s_name = take 8 bs, s_paddr = host_read4 big ((!) bs) 8, s_vaddr = host_read4 big ((!) bs) 12, s_size = host_read4 big ((!) bs) 16,
     s_scnptr = host_read4 big ((!) bs) 20, s_relptr = host_read4 big ((!) bs) 24, s_lnnoptr = host_read4 big ((!) bs) 28,
     s_nreloc = host_read2 big ((!) bs) 32, s_nlnno = host_read2 big ((!) bs) 34, s_flags = host_read4 big ((!) bs) 36\<rparr>"

section \<open>coff2noff\<close>

text \<open>The ways in which the program ends with \<^verbatim>\<open>exit(1)\<close>. \<open>BadSize\<close> stands for a section size above \<^verbatim>\<open>INT_MAX\<close>, for which the result of \<^verbatim>\<open>read\<close> is unspecified.\<close>

datatype coff_error = TooShort | NotMipsel | NotOmagic | BothData | BothBss | UnknownSegment | BadSize

definition bindC :: "coff_error + 'a \<Rightarrow> ('a \<Rightarrow> coff_error + 'b) \<Rightarrow> coff_error + 'b" where
  "bindC r f = (case r of Inl e \<Rightarrow> Inl e | Inr x \<Rightarrow> f x)"

definition coff_Read :: "nat \<Rightarrow> UnixFile \<Rightarrow> coff_error + (byte list \<times> UnixFile)" where
  "coff_Read n f = (let (bs, f') = ReadPartial n f in if length bs \<noteq> n then Inl TooShort else Inr (bs, f'))"

text \<open>\<^verbatim>\<open>lseek\<close> from the beginning of the file; the programs ignore that it fails for a negative position.\<close>

definition coff_lseek :: "32 word \<Rightarrow> UnixFile \<Rightarrow> UnixFile" where
  "coff_lseek off f = (if off <s 0 then f else f\<lparr>uf_pos := unat off\<rparr>)"

text \<open>\<^verbatim>\<open>strcmp\<close> of a section name with a name of less than eight characters.\<close>

definition is_name :: "scnhdr \<Rightarrow> string \<Rightarrow> bool" where
  "is_name s name \<longleftrightarrow> takeWhile (\<lambda>c. c \<noteq> 0) (s_name s) = map (\<lambda>c. word_of_nat (of_char c)) name"

definition convert_scnhdr :: "bool \<Rightarrow> scnhdr \<Rightarrow> scnhdr" where
  "convert_scnhdr big s = s\<lparr>s_paddr := WordToHost big (s_paddr s), s_size := WordToHost big (s_size s), s_scnptr := WordToHost big (s_scnptr s)\<rparr>"

fun split_every :: "nat \<Rightarrow> nat \<Rightarrow> byte list \<Rightarrow> byte list list" where
  "split_every n 0 bs = []"
| "split_every n (Suc k) bs = take n bs # split_every n k (drop n bs)"

text \<open>The first half of \<^verbatim>\<open>main\<close>: the headers, with their magic numbers, and the section headers.\<close>

definition coff_headers :: "bool \<Rightarrow> UnixFile \<Rightarrow> coff_error + (scnhdr list \<times> UnixFile)" where
  "coff_headers big fdIn =
     bindC (coff_Read 20 fdIn) (\<lambda>(bs, fdIn).
     let fileh = read_filehdr big bs;
         fileh = fileh\<lparr>f_magic := ShortToHost big (f_magic fileh), f_nscns := ShortToHost big (f_nscns fileh)\<rparr> in
     if f_magic fileh \<noteq> MIPSELMAGIC then Inl NotMipsel
     else
       bindC (coff_Read 56 fdIn) (\<lambda>(bs, fdIn).
       let systemh = read_aouthdr big bs in
       if ShortToHost big (aout_magic systemh) \<noteq> OMAGIC then Inl NotOmagic
       else
         let numsections = unat (f_nscns fileh) in
         bindC (coff_Read (numsections * 40) fdIn) (\<lambda>(bs, fdIn).
         Inr (map (\<lambda>b. convert_scnhdr big (read_scnhdr big b)) (split_every 40 numsections bs), fdIn))))"

record Conv =
  noffH :: NoffHeader
  inNoffFile :: "32 word"
  fdIn :: UnixFile
  fdOut :: UnixFile

text \<open>Copying the contents of a section to the end of the output.\<close>

definition copy_contents :: "scnhdr \<Rightarrow> Conv \<Rightarrow> coff_error + Conv" where
  "copy_contents s c =
     (if s_size s <s 0 then Inl BadSize
      else bindC (coff_Read (unat (s_size s)) (coff_lseek (s_scnptr s) (fdIn c))) (\<lambda>(buffer, f).
        Inr (c\<lparr>fdIn := f, fdOut := WriteFile buffer (fdOut c), inNoffFile := inNoffFile c + s_size s\<rparr>)))"

definition new_segment :: "scnhdr \<Rightarrow> Conv \<Rightarrow> Segment" where
  "new_segment s c = \<lparr>virtualAddr = s_paddr s, inFileAddr = inNoffFile c, seg_size = s_size s\<rparr>"

definition copy_section :: "scnhdr \<Rightarrow> Conv \<Rightarrow> coff_error + Conv" where
  "copy_section s c =
     (if s_size s = 0 then Inr c
      else if is_name s ''.text'' then
        copy_contents s (c\<lparr>noffH := (noffH c)\<lparr>code_seg := new_segment s c\<rparr>\<rparr>)
      else if is_name s ''.data'' \<or> is_name s ''.rdata'' then
        (if seg_size (initData (noffH c)) \<noteq> 0 then Inl BothData
         else copy_contents s (c\<lparr>noffH := (noffH c)\<lparr>initData := new_segment s c\<rparr>\<rparr>))
      else if is_name s ''.bss'' \<or> is_name s ''.sbss'' then
        (let u = uninitData (noffH c) in
         if seg_size u \<noteq> 0 then
           (if s_paddr s = virtualAddr u + seg_size u then Inl BothBss
            else Inr (c\<lparr>noffH := (noffH c)\<lparr>uninitData := u\<lparr>seg_size := seg_size u + s_size s\<rparr>\<rparr>\<rparr>))
         else Inr (c\<lparr>noffH := (noffH c)\<lparr>uninitData := u\<lparr>virtualAddr := s_paddr s, seg_size := s_size s\<rparr>\<rparr>\<rparr>))
      else Inl UnknownSegment)"

fun copy_sections :: "scnhdr list \<Rightarrow> Conv \<Rightarrow> coff_error + Conv" where
  "copy_sections [] c = Inr c"
| "copy_sections (s # ss) c = bindC (copy_section s c) (copy_sections ss)"

definition seg_bytes :: "bool \<Rightarrow> Segment \<Rightarrow> byte list" where
  "seg_bytes big s = int_bytes big (virtualAddr s) @ int_bytes big (inFileAddr s) @ int_bytes big (seg_size s)"

definition noff_bytes :: "bool \<Rightarrow> NoffHeader \<Rightarrow> byte list" where
  "noff_bytes big h = int_bytes big (noffMagic h) @ seg_bytes big (code_seg h) @ seg_bytes big (initData h) @ seg_bytes big (uninitData h)"

text \<open>The fields of the header that \<^verbatim>\<open>main\<close> does not initialise come from \<open>junk\<close>.\<close>

definition blank_noff :: "NoffHeader \<Rightarrow> NoffHeader" where
  "blank_noff junk = junk\<lparr>noffMagic := NOFFMAGIC, code_seg := (code_seg junk)\<lparr>seg_size := 0\<rparr>, initData := (initData junk)\<lparr>seg_size := 0\<rparr>,
     uninitData := (uninitData junk)\<lparr>seg_size := 0\<rparr>\<rparr>"

definition coff2noff :: "bool \<Rightarrow> NoffHeader \<Rightarrow> byte list \<Rightarrow> coff_error + byte list" where
  "coff2noff big junk file =
     bindC (coff_headers big \<lparr>uf_bytes = file, uf_pos = 0\<rparr>) (\<lambda>(sections, f).
     bindC (copy_sections sections \<lparr>noffH = blank_noff junk, inNoffFile = 40, fdIn = f, fdOut = \<lparr>uf_bytes = [], uf_pos = 40\<rparr>\<rparr>) (\<lambda>c.
     Inr (uf_bytes (WriteFile (noff_bytes big (noffH c)) (coff_lseek 0 (fdOut c))))))"

section \<open>The converted file\<close>

lemma bindC_simps [simp]: "bindC (Inr x) f = f x" "bindC (Inl e) f = Inl e"
  by (simp_all add: bindC_def)

definition sec_bytes :: "byte list \<Rightarrow> scnhdr \<Rightarrow> byte list" where
  "sec_bytes file s = take (unat (s_size s)) (drop (unat (s_scnptr s)) file)"

definition text_sec :: "scnhdr \<Rightarrow> bool" where
  "text_sec s \<longleftrightarrow> s_size s \<noteq> 0 \<and> is_name s ''.text''"

definition data_sec :: "scnhdr \<Rightarrow> bool" where
  "data_sec s \<longleftrightarrow> s_size s \<noteq> 0 \<and> (is_name s ''.data'' \<or> is_name s ''.rdata'')"

definition bss_sec :: "scnhdr \<Rightarrow> bool" where
  "bss_sec s \<longleftrightarrow> s_size s \<noteq> 0 \<and> (is_name s ''.bss'' \<or> is_name s ''.sbss'')"

lemma kinds_exclusive: "text_sec s \<Longrightarrow> \<not> data_sec s" "text_sec s \<Longrightarrow> \<not> bss_sec s" "data_sec s \<Longrightarrow> \<not> bss_sec s"
  by (auto simp: text_sec_def data_sec_def bss_sec_def is_name_def)

text \<open>A section that can be converted: it has a known name, and what is to be copied lies in the file.\<close>

definition sec_ok :: "byte list \<Rightarrow> scnhdr \<Rightarrow> bool" where
  "sec_ok file s \<longleftrightarrow> s_size s = 0 \<or> bss_sec s
     \<or> (text_sec s \<or> data_sec s) \<and> 0 \<le>s s_size s \<and> 0 \<le>s s_scnptr s \<and> unat (s_scnptr s) + unat (s_size s) \<le> length file"

abbreviation loaded :: "scnhdr \<Rightarrow> bool" where
  "loaded s \<equiv> text_sec s \<or> data_sec s"

definition payload :: "byte list \<Rightarrow> scnhdr list \<Rightarrow> byte list" where
  "payload file ss = concat (map (sec_bytes file) (filter loaded ss))"

lemma length_sec_bytes: "sec_ok file s \<Longrightarrow> loaded s \<Longrightarrow> length (sec_bytes file s) = unat (s_size s)"
  using kinds_exclusive [of s] by (auto simp: sec_ok_def sec_bytes_def text_sec_def data_sec_def)

text \<open>A segment of the output that stands for the sections of one kind, if there is at most one.\<close>

definition seg_for :: "byte list \<Rightarrow> byte list \<Rightarrow> scnhdr list \<Rightarrow> (scnhdr \<Rightarrow> bool) \<Rightarrow> Segment \<Rightarrow> bool" where
  "seg_for file pl ss P g \<longleftrightarrow> (case filter P ss of
     [] \<Rightarrow> seg_size g = 0
   | s # _ \<Rightarrow> virtualAddr g = s_paddr s \<and> seg_size g = s_size s \<and> 40 \<le> unat (inFileAddr g) \<and> unat (inFileAddr g) + unat (s_size s) \<le> 40 + length pl
       \<and> take (unat (s_size s)) (drop (unat (inFileAddr g) - 40) pl) = sec_bytes file s)"

definition bss_for :: "scnhdr list \<Rightarrow> Segment \<Rightarrow> bool" where
  "bss_for ss g \<longleftrightarrow> (case filter bss_sec ss of [] \<Rightarrow> seg_size g = 0 | s # _ \<Rightarrow> virtualAddr g = s_paddr s \<and> seg_size g = s_size s)"

definition conv_inv :: "byte list \<Rightarrow> scnhdr list \<Rightarrow> Conv \<Rightarrow> bool" where
  "conv_inv file ss c \<longleftrightarrow> uf_bytes (fdIn c) = file \<and> uf_pos (fdOut c) = 40 + length (payload file ss)
     \<and> uf_bytes (fdOut c) = (if payload file ss = [] then [] else replicate 40 0 @ payload file ss) \<and> unat (inNoffFile c) = 40 + length (payload file ss)
     \<and> noffMagic (noffH c) = NOFFMAGIC \<and> seg_for file (payload file ss) ss text_sec (code_seg (noffH c)) \<and> seg_for file (payload file ss) ss data_sec (initData (noffH c))
     \<and> bss_for ss (uninitData (noffH c))"

lemma bss_for_other [simp]: "\<not> bss_sec s \<Longrightarrow> bss_for (ss @ [s]) g = bss_for ss g"
  by (simp add: bss_for_def)

lemma seg_for_other:
  assumes "seg_for file pl ss P g" "\<not> P s"
  shows "seg_for file (pl @ rest) (ss @ [s]) P g"
proof (cases "filter P ss")
  case Nil
  then show ?thesis using assms by (simp add: seg_for_def)
next
  case (Cons t ts)
  then have "unat (inFileAddr g) - 40 + unat (s_size t) \<le> length pl" using assms(1) by (auto simp: seg_for_def)
  then show ?thesis using assms Cons by (auto simp: seg_for_def)
qed

lemma seg_for_new:
  assumes "filter P ss = []" "P s" "unat a = 40 + length pl" "length (sec_bytes file s) = unat (s_size s)"
  shows "seg_for file (pl @ sec_bytes file s) (ss @ [s]) P \<lparr>virtualAddr = s_paddr s, inFileAddr = a, seg_size = s_size s\<rparr>"
  using assms by (simp add: seg_for_def)

lemma write_at_end:
  assumes "uf_pos f = 40 + length pl" "uf_bytes f = (if pl = [] then [] else replicate 40 0 @ pl)" "bs \<noteq> []"
  shows "uf_bytes (WriteFile bs f) = replicate 40 0 @ pl @ bs" "uf_pos (WriteFile bs f) = 40 + length (pl @ bs)"
  using assms by (auto simp: WriteFile_def overwrite_def)

lemma copy_contents_ok:
  assumes ok: "sec_ok file s" "loaded s" and c: "uf_bytes (fdIn c) = file" "uf_pos (fdOut c) = 40 + length pl"
      "uf_bytes (fdOut c) = (if pl = [] then [] else replicate 40 0 @ pl)" "unat (inNoffFile c) = 40 + length pl" and fit: "40 + length pl + unat (s_size s) < 2 ^ 31"
  obtains c' where "copy_contents s c = Inr c'" "noffH c' = noffH c" "uf_bytes (fdIn c') = file" "uf_pos (fdOut c') = 40 + length (pl @ sec_bytes file s)"
    "uf_bytes (fdOut c') = replicate 40 0 @ pl @ sec_bytes file s" "unat (inNoffFile c') = 40 + length (pl @ sec_bytes file s)"
proof -
  have s: "0 \<le>s s_size s" "0 \<le>s s_scnptr s" "s_size s \<noteq> 0" using ok kinds_exclusive [of s] by (auto simp: sec_ok_def text_sec_def data_sec_def)
  have ns: "\<not> s_size s <s 0" "\<not> s_scnptr s <s 0" using s(1,2) by (simp_all add: word_sle_eq word_sless_alt)
  have len: "length (sec_bytes file s) = unat (s_size s)" by (rule length_sec_bytes [OF ok])
  define f where "f = (fdIn c)\<lparr>uf_pos := unat (s_scnptr s) + unat (s_size s)\<rparr>"
  define c' where "c' = c\<lparr>fdIn := f, fdOut := WriteFile (sec_bytes file s) (fdOut c), inNoffFile := inNoffFile c + s_size s\<rparr>"
  have "coff_Read (unat (s_size s)) (coff_lseek (s_scnptr s) (fdIn c)) = Inr (sec_bytes file s, f)"
    using ns(2) len c(1) by (simp add: coff_Read_def coff_lseek_def ReadPartial_def Let_def f_def sec_bytes_def)
  then have "copy_contents s c = Inr c'" using ns(1) by (simp add: copy_contents_def c'_def)
  moreover have "sec_bytes file s \<noteq> []" using len s(3) by (metis length_0_conv unat_eq_0)
  moreover have "unat (inNoffFile c + s_size s) = unat (inNoffFile c) + unat (s_size s)"
    using fit c(4) by (intro unat_add_lem [THEN iffD1]) simp
  ultimately show thesis using that [of c'] c write_at_end [OF c(2,3)] len by (simp add: c'_def f_def)
qed

lemma payload_snoc: "payload file (ss @ [s]) = payload file ss @ (if loaded s then sec_bytes file s else [])"
  by (simp add: payload_def)

lemma conv_section:
  assumes inv: "conv_inv file ss c" and ok: "sec_ok file s" and one: "text_sec s \<Longrightarrow> filter text_sec ss = []" "data_sec s \<Longrightarrow> filter data_sec ss = []" "bss_sec s \<Longrightarrow> filter bss_sec ss = []"
    and fit: "40 + length (payload file ss) + unat (s_size s) < 2 ^ 31"
  shows "\<exists>c'. copy_section s c = Inr c' \<and> conv_inv file (ss @ [s]) c'"
proof -
  let ?pl = "payload file ss"
  note i = inv [unfolded conv_inv_def]
  consider (code) "text_sec s" | (idata) "data_sec s" | (bss) "bss_sec s" | (none) "s_size s = 0" using ok by (auto simp: sec_ok_def)
  then show ?thesis
  proof cases
    case code
    have k: "\<not> data_sec s" "\<not> bss_sec s" using kinds_exclusive code by blast+
    let ?c = "c\<lparr>noffH := (noffH c)\<lparr>code_seg := new_segment s c\<rparr>\<rparr>"
    obtain c' where c': "copy_contents s ?c = Inr c'" "noffH c' = noffH ?c" "uf_bytes (fdIn c') = file" "uf_pos (fdOut c') = 40 + length (?pl @ sec_bytes file s)"
      "uf_bytes (fdOut c') = replicate 40 0 @ ?pl @ sec_bytes file s" "unat (inNoffFile c') = 40 + length (?pl @ sec_bytes file s)"
      by (rule copy_contents_ok [OF ok _ _ _ _ _ fit, of ?c]) (use code i in simp_all)
    have len: "length (sec_bytes file s) = unat (s_size s)" "sec_bytes file s \<noteq> []"
      using length_sec_bytes [OF ok] code by (auto simp: text_sec_def unat_eq_0)
    have "copy_section s c = Inr c'" using code c'(1) by (simp add: copy_section_def text_sec_def)
    moreover have "conv_inv file (ss @ [s]) c'"
      using i c' len code k seg_for_other [of "file" "?pl" ss data_sec "initData (noffH c)" s "sec_bytes file s"] seg_for_new [OF one(1) [OF code] code, of "inNoffFile c" "?pl" "file"]
      by (simp add: conv_inv_def payload_snoc new_segment_def)
    ultimately show ?thesis by blast
  next
    case idata
    have k: "\<not> text_sec s" "\<not> bss_sec s" using kinds_exclusive idata by blast+
    let ?c = "c\<lparr>noffH := (noffH c)\<lparr>initData := new_segment s c\<rparr>\<rparr>"
    obtain c' where c': "copy_contents s ?c = Inr c'" "noffH c' = noffH ?c" "uf_bytes (fdIn c') = file" "uf_pos (fdOut c') = 40 + length (?pl @ sec_bytes file s)"
      "uf_bytes (fdOut c') = replicate 40 0 @ ?pl @ sec_bytes file s" "unat (inNoffFile c') = 40 + length (?pl @ sec_bytes file s)"
      by (rule copy_contents_ok [OF ok _ _ _ _ _ fit, of ?c]) (use idata i in simp_all)
    have len: "length (sec_bytes file s) = unat (s_size s)" "sec_bytes file s \<noteq> []"
      using length_sec_bytes [OF ok] idata by (auto simp: data_sec_def unat_eq_0)
    have "seg_size (initData (noffH c)) = 0" using i one(2) [OF idata] by (simp add: seg_for_def)
    then have "copy_section s c = Inr c'" using idata k(1) c'(1) by (simp add: copy_section_def data_sec_def text_sec_def)
    moreover have "conv_inv file (ss @ [s]) c'"
      using i c' len idata k seg_for_other [of "file" "?pl" ss text_sec "code_seg (noffH c)" s "sec_bytes file s"] seg_for_new [OF one(2) [OF idata] idata, of "inNoffFile c" "?pl" "file"]
      by (simp add: conv_inv_def payload_snoc new_segment_def)
    ultimately show ?thesis by blast
  next
    case bss
    have k: "\<not> text_sec s" "\<not> data_sec s" using kinds_exclusive bss by blast+
    have "seg_size (uninitData (noffH c)) = 0" using i one(3) [OF bss] by (simp add: bss_for_def)
    then show ?thesis
      using i bss k one(3) [OF bss] seg_for_other [of "file" "?pl" ss text_sec "code_seg (noffH c)" s "[]"] seg_for_other [of "file" "?pl" ss data_sec "initData (noffH c)" s "[]"]
      by (auto simp: copy_section_def bss_sec_def text_sec_def data_sec_def conv_inv_def payload_snoc bss_for_def)
  next
    case none
    have k: "\<not> text_sec s" "\<not> data_sec s" "\<not> bss_sec s" using none by (simp_all add: text_sec_def data_sec_def bss_sec_def)
    then show ?thesis
      using i none seg_for_other [of "file" "?pl" ss text_sec "code_seg (noffH c)" s "[]"] seg_for_other [of "file" "?pl" ss data_sec "initData (noffH c)" s "[]"]
      by (simp add: copy_section_def conv_inv_def payload_snoc)
  qed
qed

definition at_most_one :: "(scnhdr \<Rightarrow> bool) \<Rightarrow> scnhdr list \<Rightarrow> bool" where
  "at_most_one P ss \<longleftrightarrow> length (filter P ss) \<le> 1"

text \<open>A file that the converter accepts: sections that can be converted, at most one of each kind, and not too long.\<close>

definition coff_ok :: "byte list \<Rightarrow> scnhdr list \<Rightarrow> bool" where
  "coff_ok file ss \<longleftrightarrow> (\<forall>s \<in> set ss. sec_ok file s) \<and> at_most_one text_sec ss \<and> at_most_one data_sec ss \<and> at_most_one bss_sec ss
     \<and> 40 + (\<Sum>s \<leftarrow> ss. unat (s_size s)) < 2 ^ 31"

lemma length_payload: "\<forall>s \<in> set ss. sec_ok file s \<Longrightarrow> length (payload file ss) \<le> (\<Sum>s \<leftarrow> ss. unat (s_size s))"
  by (induction ss) (auto simp: payload_def length_sec_bytes)

lemma at_most_one_next: "at_most_one P (done @ s # ss) \<Longrightarrow> P s \<Longrightarrow> filter P done = []"
  by (simp add: at_most_one_def)

lemma conv_sections:
  assumes "coff_ok file (prev @ ss)" "conv_inv file prev c"
  shows "\<exists>c'. copy_sections ss c = Inr c' \<and> conv_inv file (prev @ ss) c'"
  using assms
proof (induction ss arbitrary: prev c)
  case (Cons s ss)
  have ok: "sec_ok file s" "\<forall>t \<in> set prev. sec_ok file t" using Cons.prems(1) by (simp_all add: coff_ok_def)
  have "40 + length (payload file prev) + unat (s_size s) < 2 ^ 31"
    using length_payload [OF ok(2)] Cons.prems(1) by (simp add: coff_ok_def)
  then obtain c1 where c1: "copy_section s c = Inr c1" "conv_inv file (prev @ [s]) c1"
    using conv_section [OF Cons.prems(2) ok(1)] Cons.prems(1) at_most_one_next unfolding coff_ok_def by metis
  then show ?case using Cons.IH [of "prev @ [s]" c1] Cons.prems(1) by simp
qed simp

section \<open>Loading the converted file\<close>

lemma host_read4_int_bytes:
  assumes "length pre = k"
  shows "host_read4 big ((!) (pre @ int_bytes big w @ post)) k = w"
  using assms join4_byte_of [of w] by (auto simp: host_read4_def int_bytes_def Let_def nth_append numeral_2_eq_2 numeral_3_eq_3)

lemma length_noff_bytes [simp]: "length (noff_bytes big h) = 40"
  by (simp add: noff_bytes_def seg_bytes_def)

lemma read_Segment_bytes: "length pre = k \<Longrightarrow> read_Segment big (pre @ seg_bytes big s @ post) k = s"
  using host_read4_int_bytes [of pre k big "virtualAddr s" "int_bytes big (inFileAddr s) @ int_bytes big (seg_size s) @ post"]
    host_read4_int_bytes [of "pre @ int_bytes big (virtualAddr s)" "k + 4" big "inFileAddr s" "int_bytes big (seg_size s) @ post"]
    host_read4_int_bytes [of "pre @ int_bytes big (virtualAddr s) @ int_bytes big (inFileAddr s)" "k + 8" big "seg_size s" post]
  by (simp add: read_Segment_def seg_bytes_def)

lemma read_noff_bytes: "read_NoffHeader big (noff_bytes big h) = h"
  using host_read4_int_bytes [of "[]" 0 big "noffMagic h" "seg_bytes big (code_seg h) @ seg_bytes big (initData h) @ seg_bytes big (uninitData h)"]
    read_Segment_bytes [of "int_bytes big (noffMagic h)" 4 big "code_seg h" "seg_bytes big (initData h) @ seg_bytes big (uninitData h)"]
    read_Segment_bytes [of "int_bytes big (noffMagic h) @ seg_bytes big (code_seg h)" 16 big "initData h" "seg_bytes big (uninitData h)"]
    read_Segment_bytes [of "int_bytes big (noffMagic h) @ seg_bytes big (code_seg h) @ seg_bytes big (initData h)" 28 big "uninitData h" "[]"]
  by (simp add: read_NoffHeader_def noff_bytes_def seg_bytes_def)

lemma load_noff:
  assumes "noffMagic h = NOFFMAGIC" "hostBigEndian (km_machine km) = big"
  shows "load_header (noff_bytes big h @ pl) km = Inr h"
proof -
  have "map (\<lambda>k. if unat (0 :: 32 word) + k < length (noff_bytes big h @ pl) then (noff_bytes big h @ pl) ! (unat (0 :: 32 word) + k) else km_junkb km k) [0..<40] = noff_bytes big h"
    by (rule nth_equalityI) (simp_all add: nth_append)
  then have "stub_ReadAt (km_junkb km) (noff_bytes big h @ pl) 40 0 = Inr (noff_bytes big h)" unfolding stub_ReadAt_def by simp
  then show ?thesis using assms by (simp add: load_header_def Let_def read_noff_bytes)
qed

definition segment_holds :: "byte list \<Rightarrow> Segment \<Rightarrow> 32 word \<Rightarrow> byte list \<Rightarrow> bool" where
  "segment_holds out g a bs \<longleftrightarrow> virtualAddr g = a \<and> unat (seg_size g) = length bs \<and> unat (inFileAddr g) + length bs \<le> length out
     \<and> take (length bs) (drop (unat (inFileAddr g)) out) = bs"

lemma seg_for_holds:
  assumes "seg_for file pl ss P g" "filter P ss = s # rest" "length (sec_bytes file s) = unat (s_size s)" "length hdr = 40"
  shows "segment_holds (hdr @ pl) g (s_paddr s) (sec_bytes file s)"
  using assms by (auto simp: seg_for_def segment_holds_def)

lemma coff2noff_layout:
  assumes "coff_headers big \<lparr>uf_bytes = file, uf_pos = 0\<rparr> = Inr (ss, f)" "coff_ok file ss"
  obtains c where "coff2noff big junk file = Inr (noff_bytes big (noffH c) @ payload file ss)" "conv_inv file ss c"
proof -
  let ?c = "\<lparr>noffH = blank_noff junk, inNoffFile = 40, fdIn = f, fdOut = \<lparr>uf_bytes = [], uf_pos = 40\<rparr>\<rparr>"
  have "uf_bytes f = file" using assms(1) by (auto simp: coff_headers_def bindC_def coff_Read_def ReadPartial_def Let_def split: sum.splits if_splits prod.splits)
  then have "conv_inv file [] ?c" by (simp add: conv_inv_def payload_def seg_for_def bss_for_def blank_noff_def)
  then obtain c where c: "copy_sections ss ?c = Inr c" "conv_inv file ss c" using conv_sections [of "file" "[]" ss ?c] assms(2) by auto
  have "uf_bytes (WriteFile (noff_bytes big (noffH c)) (coff_lseek 0 (fdOut c))) = noff_bytes big (noffH c) @ payload file ss"
    using c(2) by (auto simp: WriteFile_def coff_lseek_def overwrite_def conv_inv_def)
  then show thesis using that c assms(1) by (simp add: coff2noff_def)
qed

text \<open>C15: The converter and the loader agree. A COFF file with known sections, at most one of each kind, is converted, and the kernel reads from the result a header whose code and
  data segments have the addresses and the exact contents of the sections of the COFF file and whose uninitialised segment has address and size of the bss section, on hosts of
  either byte order.\<close>

theorem coff2noff_loads:
  assumes "coff_headers big \<lparr>uf_bytes = file, uf_pos = 0\<rparr> = Inr (ss, f)" "coff_ok file ss" "hostBigEndian (km_machine km) = big"
  shows "\<exists>out h. coff2noff big junk file = Inr out \<and> load_header out km = Inr h
    \<and> (case filter text_sec ss of [] \<Rightarrow> seg_size (code_seg h) = 0 | s # _ \<Rightarrow> segment_holds out (code_seg h) (s_paddr s) (sec_bytes file s))
    \<and> (case filter data_sec ss of [] \<Rightarrow> seg_size (initData h) = 0 | s # _ \<Rightarrow> segment_holds out (initData h) (s_paddr s) (sec_bytes file s))
    \<and> (case filter bss_sec ss of [] \<Rightarrow> seg_size (uninitData h) = 0 | s # _ \<Rightarrow> virtualAddr (uninitData h) = s_paddr s \<and> seg_size (uninitData h) = s_size s)"
proof -
  obtain c where c: "coff2noff big junk file = Inr (noff_bytes big (noffH c) @ payload file ss)" "conv_inv file ss c" by (rule coff2noff_layout [OF assms(1,2)])
  note i = c(2) [unfolded conv_inv_def]
  let ?out = "noff_bytes big (noffH c) @ payload file ss"
  have l: "load_header ?out km = Inr (noffH c)" using load_noff [OF _ assms(3)] i by simp
  have ok: "length (sec_bytes file s) = unat (s_size s)" if "s \<in> set (filter P ss)" "\<And>t. P t \<Longrightarrow> loaded t" for s P
    using that assms(2) length_sec_bytes by (auto simp: coff_ok_def)
  have seg: "case filter P ss of [] \<Rightarrow> seg_size g = 0 | s # _ \<Rightarrow> segment_holds ?out g (s_paddr s) (sec_bytes file s)"
    if "seg_for file (payload file ss) ss P g" "\<And>t. P t \<Longrightarrow> loaded t" for P g
  proof (cases "filter P ss")
    case Nil
    then show ?thesis using that(1) by (simp add: seg_for_def)
  next
    case (Cons s rest)
    then show ?thesis using seg_for_holds [OF that(1) Cons ok [of s P], of "noff_bytes big (noffH c)"] that(2) by simp
  qed
  show ?thesis using c(1) l seg [of text_sec "code_seg (noffH c)"] seg [of data_sec "initData (noffH c)"] i by (auto simp: bss_for_def)
qed

text \<open>Two adjacent bss sections are refused, although the comment in the program asks for exactly that.\<close>

lemma adjacent_bss_refused:
  assumes "bss_sec s" "\<not> text_sec s" "\<not> data_sec s" "seg_size (uninitData (noffH c)) \<noteq> 0" "s_paddr s = virtualAddr (uninitData (noffH c)) + seg_size (uninitData (noffH c))"
  shows "copy_section s c = Inl BothBss"
  using assms by (auto simp: copy_section_def bss_sec_def text_sec_def data_sec_def)

definition example_coff :: "byte list" where
  "example_coff = [0x62, 1, 1, 0] @ replicate 16 0 @ [7, 1] @ replicate 54 0
     @ [46, 116, 101, 120, 116, 0, 0, 0] @ replicate 8 0 @ [4, 0, 0, 0, 116, 0, 0, 0] @ replicate 16 0 @ [10, 20, 30, 40]"

lemma example_coff_headers:
  obtains s f where "coff_headers False \<lparr>uf_bytes = example_coff, uf_pos = 0\<rparr> = Inr ([s], f)" "s_name s = [46, 116, 101, 120, 116, 0, 0, 0]" "s_paddr s = 0" "s_size s = 4" "s_scnptr s = 116"
proof -
  have "case coff_headers False \<lparr>uf_bytes = example_coff, uf_pos = 0\<rparr> of Inr (ss, f) \<Rightarrow>
     map (\<lambda>s. (s_name s, s_paddr s, s_size s, s_scnptr s)) ss = [([46, 116, 101, 120, 116, 0, 0, 0], 0, 4, 116)] | Inl e \<Rightarrow> False"
    by code_simp
  then show thesis using that by (auto split: sum.splits)
qed

theorem coff2noff_loads_witness:
  "\<exists>out h. coff2noff False \<lparr>noffMagic = 0, code_seg = \<lparr>virtualAddr = 0, inFileAddr = 0, seg_size = 0\<rparr>, initData = \<lparr>virtualAddr = 0, inFileAddr = 0, seg_size = 0\<rparr>,
      uninitData = \<lparr>virtualAddr = 0, inFileAddr = 0, seg_size = 0\<rparr>\<rparr> example_coff = Inr out
    \<and> load_header out example_kmem = Inr h \<and> segment_holds out (code_seg h) 0 [10, 20, 30, 40]"
proof -
  obtain s f where s: "coff_headers False \<lparr>uf_bytes = example_coff, uf_pos = 0\<rparr> = Inr ([s], f)" "s_name s = [46, 116, 101, 120, 116, 0, 0, 0]" "s_paddr s = 0" "s_size s = 4" "s_scnptr s = 116"
    by (rule example_coff_headers)
  have t: "text_sec s" using s(2,4) by (simp add: text_sec_def is_name_def)
  then have k: "\<not> data_sec s" "\<not> bss_sec s" using kinds_exclusive by blast+
  have b: "sec_bytes example_coff s = [10, 20, 30, 40]" using s(4,5) by (simp add: sec_bytes_def example_coff_def)
  have "coff_ok example_coff [s]" using t k s(4,5) by (simp add: coff_ok_def sec_ok_def at_most_one_def example_coff_def word_sle_eq)
  from coff2noff_loads [OF s(1) this, of example_kmem] show ?thesis using t b s(3) by (fastforce simp: example_kmem_def)
qed

section \<open>coff2flat\<close>

text \<open>The older converter writes a memory image. It reads the headers without converting the byte order, from structures
  of the system's headers, for which those of \<^verbatim>\<open>bin/coff.h\<close> are used here.\<close>

definition StackSize :: "32 word" where "StackSize = 1024"

definition flat_headers :: "bool \<Rightarrow> UnixFile \<Rightarrow> coff_error + (scnhdr list \<times> UnixFile)" where
  "flat_headers big f =
     bindC (coff_Read 20 f) (\<lambda>(bs, f).
     let fileh = read_filehdr big bs in
     if f_magic fileh \<noteq> MIPSELMAGIC then Inl NotMipsel
     else
       bindC (coff_Read 56 f) (\<lambda>(bs, f).
       if aout_magic (read_aouthdr big bs) \<noteq> OMAGIC then Inl NotOmagic
       else
         bindC (coff_Read (unat (f_nscns fileh) * 40) f) (\<lambda>(bs, f).
         Inr (map (read_scnhdr big) (split_every 40 (unat (f_nscns fileh)) bs), f))))"

record Flat =
  fl_top :: "32 word"
  fl_in :: UnixFile
  fl_out :: UnixFile

definition flat_section :: "scnhdr \<Rightarrow> Flat \<Rightarrow> coff_error + Flat" where
  "flat_section s c =
     (let c = (if fl_top c <s s_paddr s + s_size s then c\<lparr>fl_top := s_paddr s + s_size s\<rparr> else c) in
      if \<not> is_name s ''.bss'' \<and> \<not> is_name s ''.sbss'' then
        (if s_size s <s 0 then Inl BadSize
         else bindC (coff_Read (unat (s_size s)) (coff_lseek (s_scnptr s) (fl_in c))) (\<lambda>(buffer, f).
           Inr (c\<lparr>fl_in := f, fl_out := WriteFile buffer (fl_out c)\<rparr>)))
      else Inr c)"

fun flat_sections :: "scnhdr list \<Rightarrow> Flat \<Rightarrow> coff_error + Flat" where
  "flat_sections [] c = Inr c"
| "flat_sections (s # ss) c = bindC (flat_section s c) (flat_sections ss)"

definition coff2flat :: "bool \<Rightarrow> byte list \<Rightarrow> coff_error + byte list" where
  "coff2flat big file =
     bindC (flat_headers big \<lparr>uf_bytes = file, uf_pos = 0\<rparr>) (\<lambda>(sections, f).
     bindC (flat_sections sections \<lparr>fl_top = 0, fl_in = f, fl_out = \<lparr>uf_bytes = [], uf_pos = 0\<rparr>\<rparr>) (\<lambda>c.
     Inr (uf_bytes (WriteFile (int_bytes big 0) (coff_lseek (fl_top c + StackSize - 4) (fl_out c))))))"

definition copied :: "scnhdr \<Rightarrow> bool" where
  "copied s \<longleftrightarrow> \<not> is_name s ''.bss'' \<and> \<not> is_name s ''.sbss''"

definition flat_ok :: "byte list \<Rightarrow> scnhdr \<Rightarrow> bool" where
  "flat_ok file s \<longleftrightarrow> (copied s \<longrightarrow> 0 \<le>s s_size s \<and> 0 \<le>s s_scnptr s \<and> unat (s_scnptr s) + unat (s_size s) \<le> length file)"

definition packed :: "byte list \<Rightarrow> scnhdr list \<Rightarrow> byte list" where
  "packed file ss = concat (map (sec_bytes file) (filter copied ss))"

definition flat_top :: "scnhdr list \<Rightarrow> 32 word \<Rightarrow> 32 word" where
  "flat_top ss t = fold (\<lambda>s t. if t <s s_paddr s + s_size s then s_paddr s + s_size s else t) ss t"

lemma flat_section_ok:
  assumes "flat_ok file s" "uf_bytes (fl_in c) = file" "uf_bytes (fl_out c) = pl" "uf_pos (fl_out c) = length pl"
  shows "\<exists>c'. flat_section s c = Inr c' \<and> uf_bytes (fl_in c') = file \<and> uf_bytes (fl_out c') = pl @ packed file [s] \<and> uf_pos (fl_out c') = length (pl @ packed file [s])
    \<and> fl_top c' = flat_top [s] (fl_top c)"
proof (cases "copied s")
  case True
  then have ns: "\<not> s_size s <s 0" "\<not> s_scnptr s <s 0" using assms(1) by (simp_all add: flat_ok_def word_sle_eq word_sless_alt)
  have len: "length (sec_bytes file s) = unat (s_size s)" using assms(1) True by (auto simp: flat_ok_def sec_bytes_def)
  then have rd: "coff_Read (unat (s_size s)) (coff_lseek (s_scnptr s) (fl_in c)) = Inr (sec_bytes file s, (fl_in c)\<lparr>uf_pos := unat (s_scnptr s) + unat (s_size s)\<rparr>)"
    using ns(2) assms(2) by (simp add: coff_Read_def coff_lseek_def ReadPartial_def Let_def sec_bytes_def)
  have n: "\<not> is_name s ''.bss''" "\<not> is_name s ''.sbss''" "packed file [s] = sec_bytes file s" using True by (simp_all add: copied_def packed_def)
  show ?thesis using rd n ns(1) assms(2-4) by (simp add: flat_section_def WriteFile_def overwrite_def flat_top_def Let_def)
next
  case False
  then have n: "is_name s ''.bss'' \<or> is_name s ''.sbss''" "packed file [s] = []" by (auto simp: copied_def packed_def)
  then have "flat_section s c = Inr (if fl_top c <s s_paddr s + s_size s then c\<lparr>fl_top := s_paddr s + s_size s\<rparr> else c)" by (auto simp: flat_section_def Let_def)
  then show ?thesis using n(2) assms(2-4) by (simp add: flat_top_def)
qed

lemma flat_sections_ok:
  assumes "\<forall>s \<in> set ss. flat_ok file s" "uf_bytes (fl_in c) = file" "uf_bytes (fl_out c) = pl" "uf_pos (fl_out c) = length pl"
  shows "\<exists>c'. flat_sections ss c = Inr c' \<and> uf_bytes (fl_out c') = pl @ packed file ss \<and> fl_top c' = flat_top ss (fl_top c)"
  using assms
proof (induction ss arbitrary: c pl)
  case (Cons s ss)
  obtain c1 where c1: "flat_section s c = Inr c1" "uf_bytes (fl_in c1) = file" "uf_bytes (fl_out c1) = pl @ packed file [s]" "uf_pos (fl_out c1) = length (pl @ packed file [s])"
    "fl_top c1 = flat_top [s] (fl_top c)" using flat_section_ok [of "file" s c pl] Cons.prems by auto
  have "packed file [s] @ packed file ss = packed file (s # ss)" "flat_top ss (flat_top [s] t) = flat_top (s # ss) t" for t by (simp_all add: packed_def flat_top_def)
  then show ?case using Cons.IH [OF _ c1(2,3,4)] Cons.prems(1) c1(1,5) by auto
qed (simp add: packed_def flat_top_def)

text \<open>The image has the sections one after the other, whatever their addresses; the addresses only determine where it ends.\<close>

lemma coff2flat_packs:
  assumes "flat_headers big \<lparr>uf_bytes = file, uf_pos = 0\<rparr> = Inr (ss, f)" "\<forall>s \<in> set ss. flat_ok file s" "0 \<le>s flat_top ss 0 + StackSize - 4"
  shows "coff2flat big file = Inr (overwrite (unat (flat_top ss 0 + StackSize - 4)) (int_bytes big 0) (packed file ss))"
proof -
  have f: "uf_bytes f = file" using assms(1) by (auto simp: flat_headers_def bindC_def coff_Read_def ReadPartial_def Let_def split: sum.splits if_splits prod.splits)
  have ns: "\<not> flat_top ss 0 + StackSize - 4 <s 0" using assms(3) by (simp add: word_sle_eq word_sless_alt)
  obtain c where c: "flat_sections ss \<lparr>fl_top = 0, fl_in = f, fl_out = \<lparr>uf_bytes = [], uf_pos = 0\<rparr>\<rparr> = Inr c" "uf_bytes (fl_out c) = packed file ss" "fl_top c = flat_top ss 0"
    using flat_sections_ok [OF assms(2), of "\<lparr>fl_top = 0, fl_in = f, fl_out = \<lparr>uf_bytes = [], uf_pos = 0\<rparr>\<rparr>" "[]"] f by auto
  then show ?thesis using assms(1) ns by (simp add: coff2flat_def coff_lseek_def WriteFile_def)
qed

end
