(* ===== verification/ConsoleDev.thy ===== *)
theory ConsoleDev
  imports Disk
begin

text \<open>
  The console device of machine/console.cc and console.h, and \<^verbatim>\<open>ConsoleTest\<close> of userprog/progtest.cc, which echoes the keyboard on the display. The test and
  the device's interrupts interleave in any order; the last part shows that the echo is exact and that the test ends at the first q.
\<close>

section \<open>The console device\<close>

text \<open>
  A \<^verbatim>\<open>char\<close> is a byte; \<^verbatim>\<open>EOF\<close>, which is -1, is the byte 255 in it. The keyboard and the display are open UNIX files. \<open>avail\<close> is what
  \<^verbatim>\<open>PollFile\<close> answers for the keyboard. As for the network, a scheduled interrupt is recorded, and the two semaphores of the test program are the counters that the handlers increment.
\<close>

definition char_EOF :: byte where "char_EOF = 255"

datatype con_int = ConsoleReadPoll | ConsoleWriteDone

record Console =
  readFile :: UnixFile
  writeFile :: UnixFile
  putBusy :: bool
  incoming :: byte
  con_pending :: "con_int list"
  charsRead :: nat
  charsWritten :: nat
  con_readAvail :: nat
  con_writeDone :: nat

definition Console_new :: "byte list \<Rightarrow> Console" where
  "Console_new input = \<lparr>readFile = \<lparr>uf_bytes = input, uf_pos = 0\<rparr>, writeFile = \<lparr>uf_bytes = [], uf_pos = 0\<rparr>, putBusy = False, incoming = char_EOF,
     con_pending = [ConsoleReadPoll], charsRead = 0, charsWritten = 0, con_readAvail = 0, con_writeDone = 0\<rparr>"

definition CheckCharAvail :: "bool \<Rightarrow> Console \<Rightarrow> Console res" where
  "CheckCharAvail avail con =
     (let con = con\<lparr>con_pending := con_pending con @ [ConsoleReadPoll]\<rparr> in
      if incoming con \<noteq> char_EOF \<or> \<not> avail then Inr con
      else bindE (Host_Read 1 (readFile con)) (\<lambda>(bs, f).
        Inr (con\<lparr>readFile := f, incoming := hd bs, charsRead := charsRead con + 1, con_readAvail := con_readAvail con + 1\<rparr>)))"

definition Console_WriteDone :: "Console \<Rightarrow> Console" where
  "Console_WriteDone con = con\<lparr>putBusy := False, charsWritten := charsWritten con + 1, con_writeDone := con_writeDone con + 1\<rparr>"

definition GetChar :: "Console \<Rightarrow> byte \<times> Console" where
  "GetChar con = (incoming con, con\<lparr>incoming := char_EOF\<rparr>)"

definition PutChar :: "byte \<Rightarrow> Console \<Rightarrow> Console res" where
  "PutChar ch con =
     bindE (assertE (putBusy con = False)) (\<lambda>_.
     Inr (con\<lparr>writeFile := WriteFile [ch] (writeFile con), putBusy := True, con_pending := con_pending con @ [ConsoleWriteDone]\<rparr>))"

definition console_interrupt :: "bool \<Rightarrow> con_int \<Rightarrow> Console \<Rightarrow> Console res" where
  "console_interrupt avail i con =
     (let con = con\<lparr>con_pending := remove1 i (con_pending con)\<rparr> in
      case i of ConsoleReadPoll \<Rightarrow> CheckCharAvail avail con | ConsoleWriteDone \<Rightarrow> Inr (Console_WriteDone con))"

section \<open>The console test\<close>

text \<open>Where \<^verbatim>\<open>ConsoleTest\<close> is: waiting for a character, waiting until the character has been written, or returned.\<close>

datatype test_at = AwaitRead | AwaitWrite byte | Returned

definition echo_char :: "Console \<Rightarrow> (test_at \<times> Console) res" where
  "echo_char con =
     (if con_readAvail con = 0 then Inl Suspended
      else let (ch, con) = GetChar (con\<lparr>con_readAvail := con_readAvail con - 1\<rparr>) in
        bindE (PutChar ch con) (\<lambda>con. Inr (AwaitWrite ch, con)))"

definition echo_done :: "byte \<Rightarrow> Console \<Rightarrow> (test_at \<times> Console) res" where
  "echo_done ch con =
     (if con_writeDone con = 0 then Inl Suspended
      else Inr (if ch = 113 then Returned else AwaitRead, con\<lparr>con_writeDone := con_writeDone con - 1\<rparr>))"

text \<open>The test with the interrupts of the device. \<^verbatim>\<open>PollFile\<close> may give any answer at any poll: a typist may be slow, and \<^verbatim>\<open>select\<close> also
  answers yes at the end of an input file.\<close>

inductive echo_step :: "test_at \<times> Console \<Rightarrow> test_at \<times> Console \<Rightarrow> bool" where
  interrupt: "i \<in> set (con_pending con) \<Longrightarrow> console_interrupt avail i con = Inr con' \<Longrightarrow>
    echo_step (t, con) (t, con')"
| echo: "echo_char con = Inr (t', con') \<Longrightarrow> echo_step (AwaitRead, con) (t', con')"
| written: "echo_done ch con = Inr (t', con') \<Longrightarrow> echo_step (AwaitWrite ch, con) (t', con')"

section \<open>The echo\<close>

text \<open>Every character read has been written, except one that is waiting in the device; the counters of the semaphores and the
  interrupts follow the state of the device.\<close>

fun phase_ok :: "test_at \<Rightarrow> bool \<Rightarrow> nat \<Rightarrow> byte list \<Rightarrow> bool" where
  "phase_ok AwaitRead busy done_count display = (\<not> busy \<and> done_count = 0 \<and> 113 \<notin> set display)"
| "phase_ok (AwaitWrite ch) busy done_count display = (done_count = of_bool (\<not> busy) \<and> (\<exists>out. display = out @ [ch] \<and> 113 \<notin> set out))"
| "phase_ok Returned busy done_count display = (\<not> busy \<and> done_count = 0 \<and> (\<exists>out. display = out @ [113] \<and> 113 \<notin> set out))"

definition echo_inv :: "byte list \<Rightarrow> test_at \<times> Console \<Rightarrow> bool" where
  "echo_inv input = (\<lambda>(t, con). uf_bytes (readFile con) = input \<and> uf_pos (readFile con) \<le> length input
     \<and> take (uf_pos (readFile con)) input = uf_bytes (writeFile con) @ (if incoming con = char_EOF then [] else [incoming con])
     \<and> uf_pos (writeFile con) = length (uf_bytes (writeFile con)) \<and> con_readAvail con = of_bool (incoming con \<noteq> char_EOF)
     \<and> count_list (con_pending con) ConsoleReadPoll = 1 \<and> count_list (con_pending con) ConsoleWriteDone = of_bool (putBusy con)
     \<and> phase_ok t (putBusy con) (con_writeDone con) (uf_bytes (writeFile con)))"

lemma pending_write: "echo_inv input (t, con) \<Longrightarrow> ConsoleWriteDone \<in> set (con_pending con) \<longleftrightarrow> putBusy con"
  using count_list_0_iff [of "con_pending con" ConsoleWriteDone] by (auto simp: echo_inv_def)

lemma pending_poll: "echo_inv input (t, con) \<Longrightarrow> ConsoleReadPoll \<in> set (con_pending con)"
  using count_list_0_iff [of "con_pending con" ConsoleReadPoll] by (auto simp: echo_inv_def)

lemma append_at_end: "uf_pos f = length (uf_bytes f) \<Longrightarrow> WriteFile bs f = f\<lparr>uf_bytes := uf_bytes f @ bs, uf_pos := length (uf_bytes f @ bs)\<rparr>"
  by (simp add: WriteFile_def overwrite_def)

text \<open>The two interrupt handlers. The poll aborts in \<^verbatim>\<open>Read\<close> exactly when \<^verbatim>\<open>PollFile\<close> answers yes at the end of the input and the buffer is empty.\<close>

lemma end_of_input_aborts:
  assumes "echo_inv input (t, con)" "avail" "incoming con = char_EOF" "uf_pos (readFile con) = length input"
  shows "console_interrupt avail ConsoleReadPoll con = Inl AssertFail"
  using assms by (simp add: echo_inv_def console_interrupt_def CheckCharAvail_def Host_Read_def ReadPartial_def assertE_def)

lemma poll_inv:
  assumes inv: "echo_inv input (t, con)" and eof: "char_EOF \<notin> set input" and avail: "avail \<and> incoming con = char_EOF \<longrightarrow> uf_pos (readFile con) \<noteq> length input"
  obtains con' where "console_interrupt avail ConsoleReadPoll con = Inr con'" "echo_inv input (t, con')" "writeFile con' = writeFile con" "putBusy con' = putBusy con"
    "incoming con' \<noteq> char_EOF \<longleftrightarrow> incoming con \<noteq> char_EOF \<or> avail"
proof (cases "incoming con \<noteq> char_EOF \<or> \<not> avail")
  case True
  then show thesis using inv pending_poll [OF inv] by (intro that [of "con\<lparr>con_pending := remove1 ConsoleReadPoll (con_pending con) @ [ConsoleReadPoll]\<rparr>"])
      (auto simp: console_interrupt_def CheckCharAvail_def Let_def echo_inv_def count_remove1)
next
  case False
  let ?p = "uf_pos (readFile con)" and ?c = "input ! uf_pos (readFile con)"
  have p: "?p < length input" "incoming con = char_EOF" "uf_bytes (readFile con) = input" using False avail inv by (auto simp: echo_inv_def)
  have c: "?c \<noteq> char_EOF" using p(1) eof by (metis nth_mem)
  have r: "Host_Read 1 (readFile con) = Inr ([?c], (readFile con)\<lparr>uf_pos := ?p + 1\<rparr>)"
    using p by (simp add: Host_Read_def ReadPartial_def take_Suc hd_drop_conv_nth assertE_def)
  have t: "take (Suc ?p) input = take ?p input @ [?c]" using p(1) by (rule take_Suc_conv_app_nth)
  show thesis using False inv pending_poll [OF inv] r c t p
    by (intro that [of "con\<lparr>con_pending := remove1 ConsoleReadPoll (con_pending con) @ [ConsoleReadPoll], readFile := (readFile con)\<lparr>uf_pos := ?p + 1\<rparr>,
          incoming := ?c, charsRead := charsRead con + 1, con_readAvail := con_readAvail con + 1\<rparr>"])
      (auto simp: console_interrupt_def CheckCharAvail_def Let_def echo_inv_def count_remove1)
qed

lemma write_done_inv:
  assumes "echo_inv input (t, con)" "putBusy con"
  obtains con' ch where "console_interrupt avail ConsoleWriteDone con = Inr con'" "echo_inv input (t, con')" "writeFile con' = writeFile con" "\<not> putBusy con'"
    "t = AwaitWrite ch"
  using assms pending_write [OF assms(1)]
  by (intro that [of "Console_WriteDone (con\<lparr>con_pending := remove1 ConsoleWriteDone (con_pending con)\<rparr>)" "case t of AwaitWrite ch \<Rightarrow> ch | _ \<Rightarrow> 0"])
    (auto simp: console_interrupt_def Console_WriteDone_def echo_inv_def count_remove1 elim!: phase_ok.elims)

text \<open>The two halves of the loop.\<close>

lemma echo_char_inv:
  assumes "echo_inv input (AwaitRead, con)" "incoming con \<noteq> char_EOF"
  obtains con' where "echo_char con = Inr (AwaitWrite (incoming con), con')" "echo_inv input (AwaitWrite (incoming con), con')"
    "length (uf_bytes (writeFile con')) = Suc (length (uf_bytes (writeFile con)))"
  using assms by (intro that [of "con\<lparr>con_readAvail := 0, incoming := char_EOF, writeFile := WriteFile [incoming con] (writeFile con), putBusy := True,
        con_pending := con_pending con @ [ConsoleWriteDone]\<rparr>"])
    (auto simp: echo_char_def GetChar_def PutChar_def assertE_def echo_inv_def append_at_end)

lemma echo_done_inv:
  assumes "echo_inv input (AwaitWrite ch, con)" "\<not> putBusy con"
  obtains con' where "echo_done ch con = Inr (if ch = 113 then Returned else AwaitRead, con')" "echo_inv input (if ch = 113 then Returned else AwaitRead, con')"
    "writeFile con' = writeFile con"
  using assms by (intro that [of "con\<lparr>con_writeDone := 0\<rparr>"]) (auto simp: echo_done_def echo_inv_def)

lemma echo_waits: "echo_inv input (AwaitRead, con) \<Longrightarrow> incoming con = char_EOF \<Longrightarrow> echo_char con = Inl Suspended"
  "echo_inv input (AwaitWrite ch, con) \<Longrightarrow> putBusy con \<Longrightarrow> echo_done ch con = Inl Suspended"
  by (auto simp: echo_inv_def echo_char_def echo_done_def)

lemma echo_inv_step:
  assumes "echo_step s s'" "echo_inv input s" "char_EOF \<notin> set input"
  shows "echo_inv input s'"
  using assms(1)
proof (cases rule: echo_step.cases)
  case (interrupt i con avail con' t)
  then have inv: "echo_inv input (t, con)" using assms(2) by simp
  then show ?thesis
  proof (cases i)
    case ConsoleReadPoll
    have returns: "console_interrupt avail ConsoleReadPoll con = Inr con'" and s': "s' = (t, con')" using interrupt ConsoleReadPoll by simp_all
    have av: "avail \<and> incoming con = char_EOF \<longrightarrow> uf_pos (readFile con) \<noteq> length input"
      using returns end_of_input_aborts [OF inv, of avail] by (metis sum.distinct(1))
    show ?thesis by (rule poll_inv [OF inv assms(3) av]) (simp add: returns s')
  next
    case ConsoleWriteDone
    then have "putBusy con" using interrupt pending_write [OF inv] by simp
    then show ?thesis using interrupt ConsoleWriteDone write_done_inv [OF inv, of avail] by auto
  qed
next
  case (echo con t' con')
  then have inv: "echo_inv input (AwaitRead, con)" using assms(2) by simp
  then have "incoming con \<noteq> char_EOF" using echo echo_waits(1) [OF inv] by auto
  then show ?thesis using echo echo_char_inv [OF inv] by auto
next
  case (written ch con t' con')
  then have inv: "echo_inv input (AwaitWrite ch, con)" using assms(2) by simp
  then have "\<not> putBusy con" using written echo_waits(2) [OF inv] by auto
  then show ?thesis using written echo_done_inv [OF inv] by (metis sum.inject(2) prod.inject)
qed

lemma echo_inv_start: "echo_inv input (AwaitRead, Console_new input)"
  by (simp add: echo_inv_def Console_new_def)

lemma echo_inv_reach:
  assumes "echo_step\<^sup>*\<^sup>* (AwaitRead, Console_new input) s" "char_EOF \<notin> set input"
  shows "echo_inv input s"
  using assms(1) by (induction rule: rtranclp_induct) (auto intro: echo_inv_start echo_inv_step [OF _ _ assms(2)])

text \<open>What the next step must do, and how far the test is from its end.\<close>

fun echo_left :: "byte list \<Rightarrow> test_at \<times> Console \<Rightarrow> nat" where
  "echo_left input (t, con) = 4 * (length input - length (uf_bytes (writeFile con)))
     + (case t of AwaitRead \<Rightarrow> 1 + of_bool (incoming con = char_EOF) | AwaitWrite _ \<Rightarrow> 3 + of_bool (putBusy con) | Returned \<Rightarrow> 0)"

lemma echo_progress:
  assumes inv: "echo_inv input (t, con)" and eof: "char_EOF \<notin> set input" and q: "113 \<in> set input" and t: "t \<noteq> Returned"
  obtains s' where "echo_step (t, con) s'" "echo_left input s' < echo_left input (t, con)"
proof (cases t)
  case AwaitRead
  show thesis
  proof (cases "incoming con = char_EOF")
    case True
    let ?p = "uf_pos (readFile con)"
    have bytes: "uf_bytes (readFile con) = input" using inv by (simp add: echo_inv_def)
    have "113 \<notin> set (take ?p input)" using inv True AwaitRead by (simp add: echo_inv_def)
    then have p: "?p < length input" using q by (metis not_le take_all)
    obtain con' where "console_interrupt True ConsoleReadPoll con = Inr con'" "writeFile con' = writeFile con" "incoming con' \<noteq> char_EOF"
      using poll_inv [OF inv eof, of True] p by auto
    then show thesis using AwaitRead True pending_poll [OF inv] p bytes by (intro that [of "(t, con')"]) (auto intro: echo_step.interrupt [where avail = True])
  next
    case False
    have inv': "echo_inv input (AwaitRead, con)" using inv AwaitRead by simp
    have "length (uf_bytes (writeFile con)) < length (take (uf_pos (readFile con)) input)" using inv False by (simp add: echo_inv_def)
    then have "length (uf_bytes (writeFile con)) < length input" by simp
    moreover obtain con' where "echo_char con = Inr (AwaitWrite (incoming con), con')" "length (uf_bytes (writeFile con')) = Suc (length (uf_bytes (writeFile con)))"
      using echo_char_inv [OF inv' False] by blast
    ultimately show thesis using AwaitRead False by (intro that [of "(AwaitWrite (incoming con), con')"]) (auto intro: echo_step.echo)
  qed
next
  case (AwaitWrite ch)
  show thesis
  proof (cases "putBusy con")
    case True
    then obtain con' where "console_interrupt False ConsoleWriteDone con = Inr con'" "writeFile con' = writeFile con" "\<not> putBusy con'"
      using write_done_inv [OF inv] by metis
    then show thesis using AwaitWrite True pending_write [OF inv] by (intro that [of "(t, con')"]) (auto intro: echo_step.interrupt [where avail = False])
  next
    case False
    have inv': "echo_inv input (AwaitWrite ch, con)" using inv AwaitWrite by simp
    obtain con' where e: "echo_done ch con = Inr (if ch = 113 then Returned else AwaitRead, con')" "writeFile con' = writeFile con" using echo_done_inv [OF inv' False] by blast
    have "echo_left input (if ch = 113 then Returned else AwaitRead, con') < echo_left input (AwaitWrite ch, con)" using e(2) False by auto
    then show thesis using AwaitWrite echo_step.written [OF e(1)] by (intro that [of "(if ch = 113 then Returned else AwaitRead, con')"]) simp_all
  qed
qed (use t in simp)

lemma echo_finishes:
  assumes "echo_inv input s" "char_EOF \<notin> set input" "113 \<in> set input"
  shows "\<exists>con'. echo_step\<^sup>*\<^sup>* s (Returned, con')"
  using assms(1)
proof (induction "echo_left input s" arbitrary: s rule: less_induct)
  case less
  obtain t con where s: "s = (t, con)" by (cases s)
  show ?case
  proof (cases "t = Returned")
    case False
    then obtain s' where s': "echo_step s s'" "echo_left input s' < echo_left input s" using echo_progress [OF less.prems [unfolded s] assms(2,3)] s by metis
    show ?thesis using less.hyps [OF s'(2) echo_inv_step [OF s'(1) less.prems assms(2)]] converse_rtranclp_into_rtranclp [of echo_step, OF s'(1)] by blast
  qed (use s in blast)
qed

lemma first_q:
  assumes "take n input = out @ 113 # rest" "(113 :: byte) \<notin> set out"
  shows "takeWhile (\<lambda>c. c \<noteq> 113) input = out"
proof -
  have "takeWhile (\<lambda>c. c \<noteq> 113) (out @ 113 # (rest @ drop n input)) = out" using assms(2) by (subst takeWhile_append2) auto
  moreover have "out @ 113 # (rest @ drop n input) = input" using append_take_drop_id [of n input] unfolding assms(1) by simp
  ultimately show ?thesis by simp
qed

text \<open>The byte 255 is taken for the empty buffer: the handler announces a character, and \<^verbatim>\<open>GetChar\<close> finds none.\<close>

lemma typed_255_is_EOF:
  assumes "incoming con = char_EOF" "readFile con = \<lparr>uf_bytes = 255 # rest, uf_pos = 0\<rparr>"
  shows "\<exists>con'. CheckCharAvail True con = Inr con' \<and> con_readAvail con' = con_readAvail con + 1 \<and> incoming con' = char_EOF"
  using assms by (simp add: CheckCharAvail_def Host_Read_def ReadPartial_def assertE_def char_EOF_def)

text \<open>C18: The console test echoes (\<^verbatim>\<open>ConsoleTest\<close>, userprog/progtest.cc, over machine/console.cc). Whatever the order of keyboard polls, output interrupts and turns
  of the test, and whatever \<^verbatim>\<open>PollFile\<close> answers at each poll, for an input free of the byte 255, which the device takes for \<^verbatim>\<open>EOF\<close>: (1) what is on the display, followed by the
  character held in the device if there is one, is what has been read from the keyboard, so no character is lost, doubled or reordered; (2) an interrupt handler fails in exactly one case, the
  poll that finds the buffer empty and the input at its end while \<^verbatim>\<open>PollFile\<close> answers yes (\<^verbatim>\<open>Read\<close> asserts that it got its byte), and every other handler returns; (3) a turn of the test can
  only be suspended or go through, so the assertion in \<^verbatim>\<open>PutChar\<close> never fires; (4) when the test has returned, the display holds the input up to its first q; (5) while the input holds a q
  the test can go on to its return.\<close>

theorem console_echo:
  assumes "echo_step\<^sup>*\<^sup>* (AwaitRead, Console_new input) (t, con)" "char_EOF \<notin> set input"
  shows "uf_bytes (writeFile con) @ (if incoming con = char_EOF then [] else [incoming con]) = take (uf_pos (readFile con)) input
    \<and> (\<forall>i \<in> set (con_pending con). \<forall>avail. if i = ConsoleReadPoll \<and> avail \<and> incoming con = char_EOF \<and> uf_pos (readFile con) = length input
       then console_interrupt avail i con = Inl AssertFail else \<exists>con'. console_interrupt avail i con = Inr con')
    \<and> (case t of AwaitRead \<Rightarrow> echo_char con = Inl Suspended \<or> (\<exists>r. echo_char con = Inr r)
       | AwaitWrite ch \<Rightarrow> echo_done ch con = Inl Suspended \<or> (\<exists>r. echo_done ch con = Inr r)
       | Returned \<Rightarrow> uf_bytes (writeFile con) = takeWhile (\<lambda>c. c \<noteq> 113) input @ [113])
    \<and> (113 \<in> set input \<longrightarrow> (\<exists>con'. echo_step\<^sup>*\<^sup>* (t, con) (Returned, con')))"
proof (intro conjI ballI allI impI)
  have inv: "echo_inv input (t, con)" by (rule echo_inv_reach [OF assms])
  show shown: "uf_bytes (writeFile con) @ (if incoming con = char_EOF then [] else [incoming con]) = take (uf_pos (readFile con)) input"
    using inv by (simp add: echo_inv_def)
  show "if i = ConsoleReadPoll \<and> avail \<and> incoming con = char_EOF \<and> uf_pos (readFile con) = length input
       then console_interrupt avail i con = Inl AssertFail else \<exists>con'. console_interrupt avail i con = Inr con'" if "i \<in> set (con_pending con)" for i avail
  proof (cases i)
    case ConsoleReadPoll
    then show ?thesis using end_of_input_aborts [OF inv, of avail] poll_inv [OF inv assms(2), of avail] by (metis (full_types))
  next
    case ConsoleWriteDone
    then have "putBusy con" using that pending_write [OF inv] by simp
    then show ?thesis using ConsoleWriteDone write_done_inv [OF inv, of avail] by (metis con_int.distinct(1))
  qed
  show "case t of AwaitRead \<Rightarrow> echo_char con = Inl Suspended \<or> (\<exists>r. echo_char con = Inr r)
       | AwaitWrite ch \<Rightarrow> echo_done ch con = Inl Suspended \<or> (\<exists>r. echo_done ch con = Inr r)
       | Returned \<Rightarrow> uf_bytes (writeFile con) = takeWhile (\<lambda>c. c \<noteq> 113) input @ [113]"
  proof (cases t)
    case AwaitRead
    then show ?thesis using inv echo_waits(1) [of input con] echo_char_inv [of input con] by auto
  next
    case (AwaitWrite ch)
    then show ?thesis using inv echo_waits(2) [of input ch con] echo_done_inv [of input ch con] by (cases "putBusy con") auto
  next
    case Returned
    then obtain out where out: "uf_bytes (writeFile con) = out @ [113]" "113 \<notin> set out" using inv by (auto simp: echo_inv_def)
    have "take (uf_pos (readFile con)) input = out @ 113 # (if incoming con = char_EOF then [] else [incoming con])" using shown out(1) by simp
    then show ?thesis using first_q [OF _ out(2)] out(1) Returned by simp
  qed
  show "\<exists>con'. echo_step\<^sup>*\<^sup>* (t, con) (Returned, con')" if "113 \<in> set input" by (rule echo_finishes [OF inv assms(2) that])
qed

definition echo_first :: Console where
  "echo_first = (Console_new [104, 113, 33])\<lparr>readFile := \<lparr>uf_bytes = [104, 113, 33], uf_pos = 1\<rparr>, incoming := 104, charsRead := 1, con_readAvail := 1\<rparr>"

lemma echo_first_step: "echo_step (AwaitRead, Console_new [104, 113, 33]) (AwaitRead, echo_first)"
  by (rule echo_step.interrupt [where i = ConsoleReadPoll and avail = True])
    (simp_all add: echo_first_def Console_new_def console_interrupt_def CheckCharAvail_def Host_Read_def ReadPartial_def assertE_def char_EOF_def)

theorem console_echo_witness:
  "(\<exists>con'. echo_step\<^sup>*\<^sup>* (AwaitRead, echo_first) (Returned, con')) \<and> uf_bytes (writeFile echo_first) @ [104] = take 1 [104, 113, 33]
   \<and> (\<exists>r. echo_char echo_first = Inr r)"
proof -
  have run: "echo_step\<^sup>*\<^sup>* (AwaitRead, Console_new [104, 113, 33]) (AwaitRead, echo_first)" using echo_first_step by blast
  have eof: "char_EOF \<notin> set [104, 113, 33]" by (simp add: char_EOF_def)
  have "echo_char echo_first \<noteq> Inl Suspended" by (simp add: echo_char_def echo_first_def GetChar_def PutChar_def Console_new_def assertE_def)
  then show ?thesis using console_echo [OF run eof] by (simp add: echo_first_def char_EOF_def)
qed

end
