(* ===== verification/KernelInv.thy ===== *)
theory KernelInv
  imports Syscalls
begin

text \<open>
  The invariant of the whole user-program kernel: the scheduler, the threads, the address spaces with their page tables and frames, the memory
  manager, the process table and the PCBs, and how they point to each other. Every system call, every continuation of a system call after a
  context switch, every user instruction and every preemption between instructions keeps it, or ends the simulation in a way the code foresees.
  The only gap is \<^verbatim>\<open>List::RemoveElement\<close>, which can leave a list with a wrong last pointer: \<open>lists_intact\<close> says that
  it has not. Preemption inside the kernel, where a system call turns interrupts back on, is not part of the step.
\<close>

section \<open>The invariant of the whole kernel\<close>

text \<open>The address space a thread runs in.\<close>

definition space_of :: "('c, 'z) Nachos_scheme \<Rightarrow> nat \<Rightarrow> nat option" where
  "space_of st t = (case threads st t of None \<Rightarrow> None | Some th \<Rightarrow> th_space th)"

abbreviation run_queue :: "('c, 'z) Nachos_scheme \<Rightarrow> nat list" where
  "run_queue st \<equiv> currentThread st # ready st"

text \<open>The scheduler, without the promise that the last pointer of the ready list is valid.\<close>

definition queue_inv :: "('c, 'z) Nachos_scheme \<Rightarrow> bool" where
  "queue_inv st \<longleftrightarrow> List_chain (readyList st) \<and> distinct (run_queue st)
     \<and> runnable_ok st (currentThread st) RUNNING \<and> (\<forall>t \<in> set (ready st). runnable_ok st t READY)
     \<and> (\<forall>d. threadToBeDestroyed st = Some d \<longrightarrow> d \<notin> set (run_queue st) \<and> threads st d \<noteq> None)"

text \<open>Every address space is in order, and no two share a table or a frame.\<close>

definition apart :: "KMem \<Rightarrow> AddrSpace \<Rightarrow> AddrSpace \<Rightarrow> bool" where
  "apart km a a' \<longleftrightarrow> as_pageTable a \<noteq> as_pageTable a' \<and> as_frames km a \<inter> as_frames km a' = {}"

definition spaces_inv :: "KMem \<Rightarrow> (nat \<Rightarrow> AddrSpace option) \<Rightarrow> bool" where
  "spaces_inv km S \<longleftrightarrow> km_ok km \<and> tlb (km_machine km) = None \<and> (\<forall>sp a. S sp = Some a \<longrightarrow> as_ok km a)
     \<and> (\<forall>sp sp' a a'. S sp = Some a \<longrightarrow> S sp' = Some a' \<longrightarrow> sp \<noteq> sp' \<longrightarrow> apart km a a')"

lemma spaces_invI:
  "km_ok km \<Longrightarrow> tlb (km_machine km) = None \<Longrightarrow> (\<And>sp a. S sp = Some a \<Longrightarrow> as_ok km a) \<Longrightarrow>
     (\<And>sp sp' a a'. S sp = Some a \<Longrightarrow> S sp' = Some a' \<Longrightarrow> sp \<noteq> sp' \<Longrightarrow> apart km a a') \<Longrightarrow> spaces_inv km S"
  unfolding spaces_inv_def by blast

lemma spaces_invD:
  assumes "spaces_inv km S"
  shows "km_ok km" "tlb (km_machine km) = None" "S sp = Some a \<Longrightarrow> as_ok km a"
    "S sp = Some a \<Longrightarrow> S sp' = Some a' \<Longrightarrow> sp \<noteq> sp' \<Longrightarrow> apart km a a'"
  using assms unfolding spaces_inv_def by blast+

lemma apart_sym: "apart km a a' \<Longrightarrow> apart km a' a"
  by (auto simp: apart_def)

lemma apart_frames: "apart km a a' \<Longrightarrow> as_frames km' a = as_frames km a \<Longrightarrow> as_frames km' a' = as_frames km a' \<Longrightarrow> apart km' a a'"
  by (simp add: apart_def)

text \<open>Runnable threads, their address spaces and the PCBs correspond to each other.\<close>

definition links_inv :: "(nat \<Rightarrow> nat option) \<Rightarrow> (nat \<Rightarrow> AddrSpace option) \<Rightarrow> (nat \<Rightarrow> PCB option) \<Rightarrow> nat set \<Rightarrow> bool" where
  "links_inv W S P Q \<longleftrightarrow> (\<forall>t \<in> Q. \<exists>sp a p b. W t = Some sp \<and> S sp = Some a \<and> as_pcb a = Some p \<and> P p = Some b \<and> processThread b = t)
     \<and> (\<forall>p b. P p = Some b \<longrightarrow> processThread b \<in> Q \<and> (\<exists>sp a. W (processThread b) = Some sp \<and> S sp = Some a \<and> as_pcb a = Some p))"

text \<open>The process table lists exactly the PCBs, and parents and children agree; a parent is older than its children.\<close>

definition families_inv :: "(nat \<Rightarrow> PCB option) \<Rightarrow> (int \<Rightarrow> nat option) \<Rightarrow> bool" where
  "families_inv P L \<longleftrightarrow> (\<forall>p b. P p = Some b \<longrightarrow> L (processID b) = Some p \<and> List_chain (pcb_children b) \<and> distinct (List_items (pcb_children b))
       \<and> (\<forall>q. q \<in> set (List_items (pcb_children b)) \<longleftrightarrow> (\<exists>c cb. q = Some c \<and> P c = Some cb \<and> parent_process cb = Some p))
       \<and> (\<forall>q. parent_process b = Some q \<longrightarrow> q < p \<and> P q \<noteq> None))
     \<and> (\<forall>pid p. L pid = Some p \<longrightarrow> (\<exists>b. P p = Some b \<and> processID b = pid))"

text \<open>A thread can continue where it is: it has saved an interrupt level if it is to restore one, and it waits for an identifier inside the process table.\<close>

fun cont_ok :: "nat \<Rightarrow> ucont \<Rightarrow> IntStatus list \<Rightarrow> bool" where
  "cont_ok n User ls = True"
| "cont_ok n AfterYield ls = (ls \<noteq> [])"
| "cont_ok n (JoinLoop pid) ls = (ls \<noteq> [] \<and> 0 \<le> pid \<and> pid < int n)"
| "cont_ok n Dummy ls = True"
| "cont_ok n Finished ls = False"
| "cont_ok n Preempted ls = (ls \<noteq> [])"

abbreviation load_ok :: "(nat \<Rightarrow> 32 word) \<Rightarrow> bool" where
  "load_ok R \<equiv> unat (R LoadReg) < NumGPRegs"

definition waiting_ok :: "nat \<Rightarrow> ucont Thread \<Rightarrow> bool" where
  "waiting_ok n th \<longleftrightarrow> cont_ok n (th_cont th) (th_levels th) \<and> (th_fresh th \<longrightarrow> th_cont th = Dummy) \<and> load_ok (userRegisters th)"

definition num_pids :: "('c, 'z) Nachos_scheme \<Rightarrow> nat" where
  "num_pids st = length (pcbTable (processManager st))"

text \<open>The machine runs the given address space.\<close>

definition on_cpu :: "KMem \<Rightarrow> AddrSpace \<Rightarrow> bool" where
  "on_cpu km a \<longleftrightarrow> pageTable (km_machine km) = Some (as_pageTable a) \<and> pageTableSize (km_machine km) = numPages a \<and> load_ok (registers (km_machine km))"

definition current_ok :: "kst \<Rightarrow> bool" where
  "current_ok st \<longleftrightarrow> (\<forall>th. threads st (currentThread st) = Some th \<longrightarrow> cont_ok (num_pids st) (th_cont th) (th_levels th) \<and> \<not> th_fresh th
     \<and> (if th_cont th = Dummy then load_ok (userRegisters th) else \<forall>sp a. th_space th = Some sp \<longrightarrow> spaces st sp = Some a \<longrightarrow> on_cpu (kmem st) a))"

definition kernel_inv :: "kst \<Rightarrow> bool" where
  "kernel_inv st \<longleftrightarrow> queue_inv st \<and> objects_ok st \<and> pm_inv (processManager st) \<and> spaces_inv (kmem st) (spaces st)
     \<and> links_inv (space_of st) (spaces st) (pcbs st) (set (run_queue st)) \<and> families_inv (pcbs st) (pm_live (processManager st))
     \<and> (\<forall>t \<in> set (ready st). \<forall>th. threads st t = Some th \<longrightarrow> waiting_ok (num_pids st) th) \<and> current_ok st"

text \<open>The condition on the lists that \<^verbatim>\<open>List::RemoveElement\<close> can break.\<close>

definition lists_intact :: "('c, 'z) Nachos_scheme \<Rightarrow> bool" where
  "lists_intact st \<longleftrightarrow> List_inv (readyList st) \<and> (\<forall>p b. pcbs st p = Some b \<longrightarrow> List_inv (pcb_children b))"

section \<open>The running process\<close>

lemma sched_of_inv: "kernel_inv st \<Longrightarrow> lists_intact st \<Longrightarrow> sched_ok st"
  by (auto simp: kernel_inv_def queue_inv_def lists_intact_def sched_ok_def split: option.splits)

lemma kernel_of_inv: "kernel_inv st \<Longrightarrow> lists_intact st \<Longrightarrow> kernel_ok st"
  using sched_of_inv by (auto simp: kernel_ok_def kernel_inv_def spaces_inv_def)

lemma space_of_Some: "space_of st t = Some sp \<longleftrightarrow> (\<exists>th. threads st t = Some th \<and> th_space th = Some sp)"
  by (auto simp: space_of_def split: option.splits)

lemma running_process:
  assumes "kernel_inv st" "t \<in> set (run_queue st)"
  obtains th sp a p b where "threads st t = Some th" "th_space th = Some sp" "spaces st sp = Some a" "as_ok (kmem st) a"
    "as_pcb a = Some p" "pcbs st p = Some b" "processThread b = t" "pm_live (processManager st) (processID b) = Some p" "List_chain (pcb_children b)"
proof -
  obtain sp a p b where "space_of st t = Some sp" "spaces st sp = Some a" "as_pcb a = Some p" "pcbs st p = Some b" "processThread b = t"
    using assms by (auto simp: kernel_inv_def links_inv_def)
  moreover have "as_ok (kmem st) a" using assms(1) \<open>spaces st sp = Some a\<close> by (auto simp: kernel_inv_def spaces_inv_def)
  moreover have "pm_live (processManager st) (processID b) = Some p" "List_chain (pcb_children b)"
    using assms(1) \<open>pcbs st p = Some b\<close> unfolding kernel_inv_def families_inv_def by blast+
  ultimately show thesis using that unfolding space_of_Some by blast
qed

lemma running_in_process:
  assumes "kernel_inv st" "lists_intact st"
  obtains sp a cp b where "in_process st sp a cp b" "processThread b = currentThread st" "pm_live (processManager st) (processID b) = Some cp"
proof -
  obtain th sp a p b where "threads st (currentThread st) = Some th" "th_space th = Some sp" "spaces st sp = Some a" "as_ok (kmem st) a"
    "as_pcb a = Some p" "pcbs st p = Some b" "processThread b = currentThread st" "pm_live (processManager st) (processID b) = Some p"
    by (rule running_process [OF assms(1), of "currentThread st"]) auto
  moreover have "List_inv (pcb_children b)" using assms(2) \<open>pcbs st p = Some b\<close> by (simp add: lists_intact_def)
  ultimately show thesis using that [of sp a p b] by (auto simp: in_process_def)
qed

text \<open>Two runnable threads do not share an address space.\<close>

lemma links_inj:
  assumes "links_inv W S P Q" "t \<in> Q" "t' \<in> Q" "W t = Some sp" "W t' = Some sp"
  shows "t = t'"
  using assms unfolding links_inv_def by (metis option.inject)

text \<open>What the invariant says of one PCB.\<close>

lemma families_pcb:
  assumes "families_inv P L" "P p = Some b"
  shows "L (processID b) = Some p" "List_chain (pcb_children b)" "distinct (List_items (pcb_children b))"
    "q \<in> set (List_items (pcb_children b)) \<longleftrightarrow> (\<exists>c cb. q = Some c \<and> P c = Some cb \<and> parent_process cb = Some p)"
    "parent_process b = Some par \<Longrightarrow> par < p \<and> (\<exists>pb. P par = Some pb)"
  using assms unfolding families_inv_def by blast+

lemma families_live: "families_inv P L \<Longrightarrow> L pid = Some p \<Longrightarrow> \<exists>b. P p = Some b \<and> processID b = pid"
  unfolding families_inv_def by blast

lemma links_thread:
  assumes "links_inv W S P Q" "t \<in> Q"
  obtains sp a p b where "W t = Some sp" "S sp = Some a" "as_pcb a = Some p" "P p = Some b" "processThread b = t"
  using assms unfolding links_inv_def by blast

lemma links_pcb:
  assumes "links_inv W S P Q" "P p = Some b"
  obtains sp a where "processThread b \<in> Q" "W (processThread b) = Some sp" "S sp = Some a" "as_pcb a = Some p"
  using assms unfolding links_inv_def by blast

text \<open>Dropping one process from the families.\<close>

lemma orphaned_Some:
  "orphaned kids P q = Some b \<longleftrightarrow> (\<exists>b0. P q = Some b0 \<and> b = (if Some q \<in> set kids then b0\<lparr>parent_process := None\<rparr> else b0))"
  by (auto simp: orphaned_def)

lemma remove_item_items: "map snd (remove_item x es) = remove1 x (map snd es)"
  by (induction es) auto

text \<open>The PCB of a process that stays, after another one has left.\<close>

definition stays :: "nat \<Rightarrow> PCB \<Rightarrow> nat \<Rightarrow> PCB \<Rightarrow> PCB \<Rightarrow> bool" where
  "stays p b q b0 b' \<longleftrightarrow> processID b' = processID b0 \<and> processThread b' = processThread b0
     \<and> parent_process b' = (if parent_process b0 = Some p then None else parent_process b0) \<and> List_chain (pcb_children b')
     \<and> List_items (pcb_children b') = (if parent_process b = Some q then remove1 (Some p) (List_items (pcb_children b0)) else List_items (pcb_children b0))"

lemma left_stays:
  assumes fam: "families_inv P L" and b: "P p = Some b" and left: "left_family p f b P P'" and q: "q \<noteq> p"
  shows "P' q = None \<and> P q = None \<or> (\<exists>b0 b'. P q = Some b0 \<and> P' q = Some b' \<and> stays p b q b0 b')"
proof (cases "P q")
  case None
  have "parent_process b \<noteq> Some q" using families_pcb(5) [OF fam b] None by force
  then show ?thesis using left q None by (auto simp: left_family_def orphaned_def)
next
  case (Some b0)
  have kid: "Some q \<in> set (List_items (pcb_children b)) \<longleftrightarrow> parent_process b0 = Some p" using families_pcb(4) [OF fam b] Some by simp
  have ch: "List_chain (pcb_children b0)" by (rule families_pcb(2) [OF fam Some])
  show ?thesis
  proof (cases "parent_process b = Some q")
    case True
    then obtain pb l where pb: "orphaned (List_items (pcb_children b)) P q = Some pb" "P' q = Some (pb\<lparr>pcb_children := l, childExitValue := f pb\<rparr>)"
        "List_chain l" "List_elems l = remove_item (Some p) (List_elems (pcb_children pb))"
      using left by (auto simp: left_family_def)
    have "List_items l = remove1 (Some p) (List_items (pcb_children b0))"
      using pb(1,4) Some by (auto simp: List_items_def remove_item_items orphaned_Some)
    then show ?thesis using pb Some kid True by (auto simp: stays_def orphaned_Some)
  next
    case False
    then have "P' q = orphaned (List_items (pcb_children b)) P q" using left q by (auto simp: left_family_def)
    then show ?thesis using Some kid ch False by (auto simp: stays_def orphaned_def)
  qed
qed

lemma left_cases:
  assumes "families_inv P L" "P p = Some b" "left_family p f b P P'"
  shows "P' q = Some b' \<Longrightarrow> q \<noteq> p \<and> (\<exists>b0. P q = Some b0 \<and> stays p b q b0 b')"
    "P q = Some b0 \<Longrightarrow> q \<noteq> p \<Longrightarrow> \<exists>b'. P' q = Some b' \<and> stays p b q b0 b'"
proof -
  show "q \<noteq> p \<and> (\<exists>b0. P q = Some b0 \<and> stays p b q b0 b')" if "P' q = Some b'"
  proof -
    have "q \<noteq> p" using that assms(3) by (auto simp: left_family_def)
    then show ?thesis using left_stays [OF assms, of q] that by auto
  qed
  show "\<exists>b'. P' q = Some b' \<and> stays p b q b0 b'" if "P q = Some b0" "q \<noteq> p"
    using left_stays [OF assms that(2)] that(1) by auto
qed

lemma families_left:
  assumes fam: "families_inv P L" and b: "P p = Some b" and left: "left_family p f b P P'"
  shows "families_inv P' (L(processID b := None))"
proof -
  note c = left_cases [OF assms]
  have Lb: "L (processID b) = Some p" by (rule families_pcb(1) [OF fam b])
  have one: "(L(processID b := None)) (processID b') = Some q \<and> List_chain (pcb_children b') \<and> distinct (List_items (pcb_children b'))
       \<and> (\<forall>r. r \<in> set (List_items (pcb_children b')) \<longleftrightarrow> (\<exists>c cb. r = Some c \<and> P' c = Some cb \<and> parent_process cb = Some q))
       \<and> (\<forall>r. parent_process b' = Some r \<longrightarrow> r < q \<and> P' r \<noteq> None)" if q: "P' q = Some b'" for q b'
  proof -
    obtain b0 where b0: "q \<noteq> p" "P q = Some b0" "stays p b q b0 b'" using c(1) [OF q] by blast
    note f0 = families_pcb(1,3-5) [OF fam b0(2)]
    have set_eq: "r \<in> set (List_items (pcb_children b')) \<longleftrightarrow> r \<in> set (List_items (pcb_children b0)) \<and> r \<noteq> Some p" for r
    proof (cases "parent_process b = Some q")
      case False
      then have "Some p \<notin> set (List_items (pcb_children b0))" using f0(3) b by auto
      then show ?thesis using b0(3) False by (auto simp: stays_def)
    qed (use b0(3) f0(2) in \<open>auto simp: stays_def\<close>)
    have kids: "(\<exists>cb. P' c = Some cb \<and> parent_process cb = Some q) \<longleftrightarrow> c \<noteq> p \<and> (\<exists>cb. P c = Some cb \<and> parent_process cb = Some q)" for c'' c
    proof
      assume "\<exists>cb. P' c = Some cb \<and> parent_process cb = Some q"
      then obtain cb where cb: "P' c = Some cb" "parent_process cb = Some q" by blast
      then show "c \<noteq> p \<and> (\<exists>cb. P c = Some cb \<and> parent_process cb = Some q)" using c(1) [OF cb(1)] by (auto simp: stays_def split: if_splits)
    next
      assume "c \<noteq> p \<and> (\<exists>cb. P c = Some cb \<and> parent_process cb = Some q)"
      then obtain cb where cb: "c \<noteq> p" "P c = Some cb" "parent_process cb = Some q" by blast
      then show "\<exists>cb. P' c = Some cb \<and> parent_process cb = Some q" using c(2) [OF cb(2,1)] b0(1) by (auto simp: stays_def)
    qed
    have par: "r < q \<and> P' r \<noteq> None" if "parent_process b' = Some r" for r
    proof -
      have r: "parent_process b0 = Some r" "r \<noteq> p" using that b0(3) by (auto simp: stays_def split: if_splits)
      then obtain rb where "P r = Some rb" "r < q" using f0(4) by blast
      then show ?thesis using c(2) [of r rb] r(2) by auto
    qed
    have "r \<in> set (List_items (pcb_children b')) \<longleftrightarrow> (\<exists>c cb. r = Some c \<and> P' c = Some cb \<and> parent_process cb = Some q)" for r
      unfolding set_eq f0(3) using kids by blast
    moreover have "processID b' = processID b0" "List_chain (pcb_children b')" "distinct (List_items (pcb_children b'))"
      using b0(3) f0(2) by (auto simp: stays_def)
    moreover have "processID b0 \<noteq> processID b" using f0(1) Lb b0(1) by auto
    ultimately show ?thesis using f0(1) par by auto
  qed
  have "\<exists>b'. P' q = Some b' \<and> processID b' = pid" if "(L(processID b := None)) pid = Some q" for pid q
  proof -
    have L: "L pid = Some q" "pid \<noteq> processID b" using that by (auto split: if_splits)
    then obtain b0 where b0: "P q = Some b0" "processID b0 = pid" using families_live [OF fam] by blast
    then have "q \<noteq> p" using b L by auto
    then show ?thesis using c(2) [OF b0(1)] b0(2) by (auto simp: stays_def)
  qed
  then show ?thesis using one unfolding families_inv_def by blast
qed

lemma links_left:
  assumes "families_inv P L" "P p = Some b" "left_family p f b P P'" "links_inv W S P Q" "S sp = Some a" "as_pcb a = Some p" "W (processThread b) = Some sp"
  shows "links_inv W (S(sp := None)) P' (Q - {processThread b})"
proof -
  note c = left_cases [OF assms(1-3)]
  have "\<exists>sp' a' p' b'. W t = Some sp' \<and> (S(sp := None)) sp' = Some a' \<and> as_pcb a' = Some p' \<and> P' p' = Some b' \<and> processThread b' = t"
    if t: "t \<in> Q" "t \<noteq> processThread b" for t
  proof -
    obtain sp' a' p' b0 where x: "W t = Some sp'" "S sp' = Some a'" "as_pcb a' = Some p'" "P p' = Some b0" "processThread b0 = t"
      by (rule links_thread [OF assms(4) t(1)])
    have p': "p' \<noteq> p" using x(4,5) assms(2) t(2) by auto
    then obtain b' where "P' p' = Some b'" "stays p b p' b0 b'" using c(2) [OF x(4)] by blast
    moreover have "sp' \<noteq> sp" using x(2,3) assms(5,6) p' by auto
    ultimately show ?thesis using x by (auto simp: stays_def)
  qed
  moreover have "processThread b' \<in> Q - {processThread b} \<and> (\<exists>sp' a'. W (processThread b') = Some sp' \<and> (S(sp := None)) sp' = Some a' \<and> as_pcb a' = Some q)"
    if q: "P' q = Some b'" for q b'
  proof -
    obtain b0 where b0: "q \<noteq> p" "P q = Some b0" "stays p b q b0 b'" using c(1) [OF q] by blast
    then have t: "processThread b' = processThread b0" by (simp add: stays_def)
    obtain sp' a' where x: "processThread b0 \<in> Q" "W (processThread b0) = Some sp'" "S sp' = Some a'" "as_pcb a' = Some q"
      by (rule links_pcb [OF assms(4) b0(2)])
    have "sp' \<noteq> sp" using x(3,4) assms(5,6) b0(1) by auto
    then show ?thesis using x t assms(7) by auto
  qed
  ultimately show ?thesis unfolding links_inv_def by blast
qed

section \<open>Memory of all processes\<close>

text \<open>Two machines with the same tables up to the use and dirty bits.\<close>

definition same_heap :: "Machine \<Rightarrow> Machine \<Rightarrow> bool" where
  "same_heap m m' \<longleftrightarrow> tlb m' = tlb m \<and> (\<forall>x. map_option (map te_core) (te_heap m' x) = map_option (map te_core) (te_heap m x))"

lemma same_heap_of_map: "same_map m m' \<Longrightarrow> same_heap m m'"
  by (simp add: same_heap_def same_map_def)

lemma same_heap_refl [simp]: "same_heap m m" "same_heap m (m\<lparr>registers := R\<rparr>)" "same_heap m (AddrSpace_RestoreState a m)"
    "same_heap m (AddrSpace_RestoreState a (m\<lparr>registers := R\<rparr>))"
  by (simp_all add: same_heap_def AddrSpace_RestoreState_def)

lemma frames_core: "map te_core t' = map te_core t \<Longrightarrow> frames_of t' = frames_of t \<and> map valid t' = map valid t"
proof -
  have "frames_of u = map (\<lambda>(v, p, ok, r). unat p) (map te_core u)" "map valid u = map (\<lambda>(v, p, ok, r). ok) (map te_core u)" for u
    by (simp_all add: frames_of_def te_core_def)
  then show "map te_core t' = map te_core t \<Longrightarrow> ?thesis" by metis
qed

lemma same_heap_space:
  assumes "same_heap (km_machine km) m'" "as_ok km c"
  obtains t t' where "table_of km c = Some t" "table_of (km\<lparr>km_machine := m'\<rparr>) c = Some t'" "map te_core t' = map te_core t"
    "length t = unat (numPages c)" "as_ok (km\<lparr>km_machine := m'\<rparr>) c" "as_frames (km\<lparr>km_machine := m'\<rparr>) c = as_frames km c"
proof -
  obtain t where t: "table_of km c = Some t" "length t = unat (numPages c)" "\<forall>e \<in> set t. valid e"
      "distinct (frames_of t)" "set (frames_of t) \<subseteq> mm_used (km_mm km)"
    by (rule as_okE [OF assms(2)])
  have "map_option (map te_core) (te_heap m' (as_pageTable c)) = Some (map te_core t)" using assms(1) t(1) by (simp add: same_heap_def table_of_def)
  then obtain t' where t': "table_of (km\<lparr>km_machine := m'\<rparr>) c = Some t'" "map te_core t' = map te_core t" by (auto simp: table_of_def)
  have fr: "frames_of t' = frames_of t" "map valid t' = map valid t" using frames_core [OF t'(2)] by auto
  have "\<forall>e \<in> set t'. valid e" using t(3) fr(2) by (metis (no_types, lifting) in_set_conv_nth length_map nth_map)
  then show thesis using that [OF t(1) t' t(2)] t t' fr map_te_core_length [OF t'(2)] by (simp add: as_ok_def as_frames_def)
qed

lemma spaces_same_heap:
  assumes "spaces_inv km S" "same_heap (km_machine km) m'"
  shows "spaces_inv (km\<lparr>km_machine := m'\<rparr>) S" "S sp = Some a \<Longrightarrow> as_frames (km\<lparr>km_machine := m'\<rparr>) a = as_frames km a"
proof -
  have all: "as_ok (km\<lparr>km_machine := m'\<rparr>) a \<and> as_frames (km\<lparr>km_machine := m'\<rparr>) a = as_frames km a" if "S sp = Some a" for sp a
  proof -
    have "as_ok km a" using assms(1) that by (auto simp: spaces_inv_def)
    then show ?thesis by (rule same_heap_space [OF assms(2)]) simp
  qed
  then show "S sp = Some a \<Longrightarrow> as_frames (km\<lparr>km_machine := m'\<rparr>) a = as_frames km a" by blast
  have "te_heap m' x = None" if "te_heap (km_machine km) x = None" for x
  proof -
    have "map_option (map te_core) (te_heap m' x) = None" using assms(2) that by (simp add: same_heap_def)
    then show ?thesis by simp
  qed
  then have "km_ok (km\<lparr>km_machine := m'\<rparr>)" "tlb m' = None" using assms by (auto simp: spaces_inv_def km_ok_def same_heap_def)
  then show "spaces_inv (km\<lparr>km_machine := m'\<rparr>) S"
    using all by (intro spaces_invI) (auto intro: apart_frames [OF spaces_invD(4) [OF assms(1)]])
qed

lemma left_memory_other:
  assumes "as_ok km c" "as_pageTable c \<noteq> as_pageTable a" "as_frames km a \<inter> as_frames km c = {}" "mm_used mm = mm_used (km_mm km) - as_frames km a"
  shows "as_ok (left_memory km a mm) c" "as_frames (left_memory km a mm) c = as_frames km c"
proof -
  obtain t where t: "table_of km c = Some t" "length t = unat (numPages c)" "\<forall>e \<in> set t. valid e" "distinct (frames_of t)" "set (frames_of t) \<subseteq> mm_used (km_mm km)"
    by (rule as_okE [OF assms(1)])
  have "table_of (left_memory km a mm) c = Some t" using t(1) assms(2) by (simp add: table_of_def left_memory_def)
  then show "as_ok (left_memory km a mm) c" "as_frames (left_memory km a mm) c = as_frames km c"
    using t assms(3,4) by (auto simp: as_ok_def as_frames_def) (auto simp: left_memory_def)
qed

lemma spaces_drop:
  assumes "spaces_inv km S" "S sp = Some a" "mm_inv mm" "mm_size mm = NumPhysPages" "mm_used mm = mm_used (km_mm km) - as_frames km a"
  shows "spaces_inv (left_memory km a mm) (S(sp := None))"
    "\<And>sp' c. S sp' = Some c \<Longrightarrow> sp' \<noteq> sp \<Longrightarrow> as_ok (left_memory km a mm) c \<and> as_frames (left_memory km a mm) c = as_frames km c"
proof -
  show other: "as_ok (left_memory km a mm) c \<and> as_frames (left_memory km a mm) c = as_frames km c" if "S sp' = Some c" "sp' \<noteq> sp" for sp' c
  proof -
    have "as_ok km c" "apart km a c" using spaces_invD(3) [OF assms(1) that(1)] spaces_invD(4) [OF assms(1,2) that(1)] that(2) by auto
    then have "as_ok km c" "as_pageTable c \<noteq> as_pageTable a" "as_frames km a \<inter> as_frames km c = {}" by (auto simp: apart_def)
    then show ?thesis using left_memory_other [OF _ _ _ assms(5)] by blast
  qed
  have "km_ok (left_memory km a mm)" "tlb (km_machine (left_memory km a mm)) = None"
    using assms(1,3,4) by (auto simp: spaces_inv_def km_ok_def left_memory_def)
  then show "spaces_inv (left_memory km a mm) (S(sp := None))"
    using other by (intro spaces_invI) (auto intro: apart_frames [OF spaces_invD(4) [OF assms(1)]] split: if_splits)
qed

text \<open>An address space is added in frames that were free.\<close>

lemma spaces_add:
  assumes "spaces_inv km S" "S sp = None" "km_ok km'" "tlb (km_machine km') = None" "as_ok km' b" "as_pageTable b = km_next km" "as_frames km' b \<inter> mm_used (km_mm km) = {}"
    "\<And>c. as_ok km c \<Longrightarrow> as_ok km' c \<and> as_frames km' c = as_frames km c"
  shows "spaces_inv km' (S(sp \<mapsto> b))"
proof -
  have old: "as_ok km' c" "as_frames km' c = as_frames km c" "apart km' b c" if "S x = Some c" for x c
  proof -
    have c: "as_ok km c" by (rule spaces_invD(3) [OF assms(1) that])
    then show ok: "as_ok km' c" "as_frames km' c = as_frames km c" using assms(8) by auto
    obtain t where t: "table_of km c = Some t" "set (frames_of t) \<subseteq> mm_used (km_mm km)" using as_okE [OF c] by metis
    have "as_pageTable c \<noteq> as_pageTable b" using table_not_next [OF spaces_invD(1) [OF assms(1)] t(1)] assms(6) by simp
    moreover have "as_frames km c \<inter> as_frames km' b = {}" using t assms(7) by (auto simp: as_frames_def)
    ultimately show "apart km' b c" using ok(2) by (auto simp: apart_def)
  qed
  show ?thesis
  proof (rule spaces_invI [OF assms(3,4)])
    fix x y c d assume S: "(S(sp \<mapsto> b)) x = Some c" "(S(sp \<mapsto> b)) y = Some d" "x \<noteq> y"
    show "apart km' c d"
    proof (cases "x = sp \<or> y = sp")
      case True
      then show ?thesis using S old(3) [of y d] old(3) [of x c] apart_sym [of km' b c] by (cases "x = sp") simp_all
    next
      case False
      then have S': "S x = Some c" "S y = Some d" using S by simp_all
      show ?thesis by (rule apart_frames [OF spaces_invD(4) [OF assms(1) S' S(3)] old(2) [OF S'(1)] old(2) [OF S'(2)]])
    qed
  next
    fix x c assume "(S(sp \<mapsto> b)) x = Some c"
    then show "as_ok km' c" using old(1) [of x c] assms(5) by (cases "x = sp") simp_all
  qed
qed

section \<open>Steps of the machine and of the running thread\<close>

lemma kernel_invI:
  "queue_inv st \<Longrightarrow> objects_ok st \<Longrightarrow> pm_inv (processManager st) \<Longrightarrow> spaces_inv (kmem st) (spaces st) \<Longrightarrow>
    links_inv (space_of st) (spaces st) (pcbs st) (set (run_queue st)) \<Longrightarrow> families_inv (pcbs st) (pm_live (processManager st)) \<Longrightarrow>
    (\<And>t th. t \<in> set (ready st) \<Longrightarrow> threads st t = Some th \<Longrightarrow> waiting_ok (num_pids st) th) \<Longrightarrow> current_ok st \<Longrightarrow> kernel_inv st"
  unfolding kernel_inv_def by blast

lemma kernel_invD:
  assumes "kernel_inv st"
  shows "queue_inv st" "objects_ok st" "pm_inv (processManager st)" "spaces_inv (kmem st) (spaces st)"
    "links_inv (space_of st) (spaces st) (pcbs st) (set (run_queue st))" "families_inv (pcbs st) (pm_live (processManager st))"
    "t \<in> set (ready st) \<Longrightarrow> threads st t = Some th \<Longrightarrow> waiting_ok (num_pids st) th" "current_ok st"
  using assms unfolding kernel_inv_def by blast+

lemma queue_invD:
  assumes "queue_inv st"
  shows "List_chain (readyList st)" "distinct (run_queue st)" "runnable_ok st (currentThread st) RUNNING" "t \<in> set (ready st) \<Longrightarrow> runnable_ok st t READY"
    "threadToBeDestroyed st = Some d \<Longrightarrow> d \<notin> set (run_queue st) \<and> threads st d \<noteq> None"
  using assms unfolding queue_inv_def by blast+

lemma queue_of_sched: "sched_ok st \<Longrightarrow> queue_inv st"
  unfolding sched_ok_def queue_inv_def by (auto simp: List_inv_def split: option.splits)

lemma runnable_mono:
  assumes "runnable_ok st t x" "threads st' t = threads st t" "\<And>a th. threads st t = Some th \<Longrightarrow> th_space th = Some a \<Longrightarrow> spaces st a \<noteq> None \<Longrightarrow> spaces st' a \<noteq> None"
  shows "runnable_ok st' t x"
  using assms by (auto simp: runnable_ok_def split: option.splits)

lemma links_cong:
  assumes "links_inv W S P Q" "\<And>t. t \<in> Q \<Longrightarrow> W' t = W t"
  shows "links_inv W' S P Q"
proof -
  have "\<exists>sp a p b. W' t = Some sp \<and> S sp = Some a \<and> as_pcb a = Some p \<and> P p = Some b \<and> processThread b = t" if t: "t \<in> Q" for t
    using links_thread [OF assms(1) t] assms(2) [OF t] by metis
  moreover have "processThread b \<in> Q \<and> (\<exists>sp a. W' (processThread b) = Some sp \<and> S sp = Some a \<and> as_pcb a = Some p)" if b: "P p = Some b" for p b
    using links_pcb [OF assms(1) b] assms(2) by metis
  ultimately show ?thesis unfolding links_inv_def by blast
qed

lemma links_more_spaces:
  assumes "links_inv W S P Q" "\<And>sp a. S sp = Some a \<Longrightarrow> S' sp = Some a"
  shows "links_inv W S' P Q"
proof -
  have "\<exists>sp a p b. W t = Some sp \<and> S' sp = Some a \<and> as_pcb a = Some p \<and> P p = Some b \<and> processThread b = t" if t: "t \<in> Q" for t
    using links_thread [OF assms(1) t] assms(2) by metis
  moreover have "processThread b \<in> Q \<and> (\<exists>sp a. W (processThread b) = Some sp \<and> S' sp = Some a \<and> as_pcb a = Some p)" if b: "P p = Some b" for p b
    using links_pcb [OF assms(1) b] assms(2) by metis
  ultimately show ?thesis unfolding links_inv_def by blast
qed

lemma currentE:
  assumes "kernel_inv st"
  obtains th sp a where "threads st (currentThread st) = Some th" "th_space th = Some sp" "spaces st sp = Some a"
    "cont_ok (num_pids st) (th_cont th) (th_levels th)" "\<not> th_fresh th" "th_status th = RUNNING" "th_stack th \<in> {None, Some STACK_FENCEPOST}"
    "th_cont th = Dummy \<Longrightarrow> load_ok (userRegisters th)" "th_cont th \<noteq> Dummy \<Longrightarrow> on_cpu (kmem st) a"
proof -
  obtain th sp a p b where x: "threads st (currentThread st) = Some th" "th_space th = Some sp" "spaces st sp = Some a"
    by (rule running_process [OF assms, of "currentThread st"]) auto
  have "runnable_ok st (currentThread st) RUNNING" by (rule queue_invD(3) [OF kernel_invD(1) [OF assms]])
  then have y: "th_status th = RUNNING" "th_stack th \<in> {None, Some STACK_FENCEPOST}" using x(1) by (auto simp: runnable_ok_def)
  have "current_ok st" by (rule kernel_invD(8) [OF assms])
  then have "cont_ok (num_pids st) (th_cont th) (th_levels th)" "\<not> th_fresh th" "th_cont th = Dummy \<Longrightarrow> load_ok (userRegisters th)"
      "th_cont th \<noteq> Dummy \<Longrightarrow> on_cpu (kmem st) a"
    using x unfolding current_ok_def by (auto split: if_splits)
  then show thesis using that x y by blast
qed

text \<open>The machine changes, the tables only in their use and dirty bits.\<close>

lemma inv_put_machine:
  assumes "kernel_inv st" "same_map (mach st) m'" "load_ok (registers m')"
  shows "kernel_inv (put_machine m' st)"
proof (rule kernel_invI)
  note D = kernel_invD [OF assms(1)]
  show "queue_inv (put_machine m' st)" using D(1) unfolding queue_inv_def by (simp add: ready_def runnable_ok_def cong: option.case_cong)
  show "objects_ok (put_machine m' st)" using D(2) unfolding objects_ok_def by simp
  show "spaces_inv (kmem (put_machine m' st)) (spaces (put_machine m' st))"
    using spaces_same_heap(1) [OF D(4) same_heap_of_map [OF assms(2)]] by (simp add: put_machine_def)
  have "space_of (put_machine m' st) = space_of st" by (simp add: space_of_def fun_eq_iff)
  then show "links_inv (space_of (put_machine m' st)) (spaces (put_machine m' st)) (pcbs (put_machine m' st)) (set (run_queue (put_machine m' st)))"
    using D(5) by (simp add: ready_def)
  show "current_ok (put_machine m' st)" using D(8) assms(2,3) unfolding current_ok_def on_cpu_def num_pids_def
    by (auto simp: same_map_def split: if_splits)
qed (use kernel_invD [OF assms(1)] in \<open>auto simp: ready_def num_pids_def\<close>)

lemma inv_put_regs: "kernel_inv st \<Longrightarrow> load_ok R \<Longrightarrow> kernel_inv (put_regs R st)"
  unfolding put_regs_def by (rule inv_put_machine) (simp_all add: same_map_def)

lemma intact_put_machine [simp]: "lists_intact (put_machine m st) = lists_intact st" "lists_intact (put_regs R st) = lists_intact st"
  by (simp_all add: lists_intact_def)

text \<open>The running thread changes its place, its saved interrupt levels and its saved registers.\<close>

lemma inv_upd_current:
  assumes "kernel_inv st" "threads st (currentThread st) = Some th" "th_status th' = th_status th" "th_stack th' = th_stack th" "th_space th' = th_space th"
    "\<not> th_fresh th'" "cont_ok (num_pids st) (th_cont th') (th_levels th')" "th_cont th' \<noteq> Dummy" "th_cont th \<noteq> Dummy"
  shows "kernel_inv (st\<lparr>threads := (threads st)(currentThread st \<mapsto> th'), level := l\<rparr>)" (is "kernel_inv ?s")
proof (rule kernel_invI)
  note D = kernel_invD [OF assms(1)]
  have run: "runnable_ok ?s t x = runnable_ok st t x" for t x using assms(2-5) by (simp add: runnable_ok_def cong: option.case_cong)
  show "queue_inv ?s" using D(1) unfolding queue_inv_def run by (auto simp: ready_def)
  show "objects_ok ?s" using D(2) objects_lt(1) [OF D(2) assms(2)] unfolding objects_ok_def by auto
  have "space_of ?s = space_of st" using assms(2,5) by (simp add: space_of_def fun_eq_iff)
  then show "links_inv (space_of ?s) (spaces ?s) (pcbs ?s) (set (run_queue ?s))" using D(5) by (simp add: ready_def)
  have "currentThread st \<notin> set (ready st)" using queue_invD(2) [OF D(1)] by simp
  then show "waiting_ok (num_pids ?s) u" if "t \<in> set (ready ?s)" "threads ?s t = Some u" for t u
    using that D(7) [of t u] by (auto simp: ready_def num_pids_def split: if_splits)
  show "current_ok ?s" using D(8) assms(2,5-9) unfolding current_ok_def num_pids_def by (auto split: if_splits)
qed (use kernel_invD [OF assms(1)] in simp_all)

text \<open>After a context switch the machine is ready for the thread that is switched to.\<close>

lemma switched_ok:
  assumes "spaces_inv km (spaces st')" "threads st' (currentThread st') = Some (nt\<lparr>th_status := RUNNING, th_fresh := False\<rparr>)"
    "waiting_ok (num_pids st') nt" "th_space nt = Some sp" "spaces st' sp = Some a"
    "kmem st' = (if th_fresh nt then km else km\<lparr>km_machine := resumed_machine nt a (km_machine km)\<rparr>)"
  shows "spaces_inv (kmem st') (spaces st')" "current_ok st'"
proof -
  show "spaces_inv (kmem st') (spaces st')"
    using assms(1,6) spaces_same_heap(1) [OF assms(1), of "resumed_machine nt a (km_machine km)"] by (simp add: resumed_machine_def)
  have "LoadReg < NumTotalRegs" by (simp add: reg_defs)
  then have "on_cpu (kmem st') a" if "\<not> th_fresh nt"
    using that assms(3,6) by (simp add: on_cpu_def resumed_machine_def AddrSpace_RestoreState_def waiting_ok_def)
  then show "current_ok st'" using assms(2-5) unfolding current_ok_def waiting_ok_def by auto
qed

section \<open>Yielding\<close>

lemma Thread_Yield_detail:
  assumes ok: "sched_ok st" and r: "ready st = n # ts" and th: "threads st (currentThread st) = Some th" and nt: "threads st n = Some nt"
  obtains st' where "Thread_Yield k st = Inr st'" "sched_ok st'" "currentThread st' = n" "ready st' = ts @ [currentThread st]"
    "threads st' n = Some (nt\<lparr>th_status := RUNNING, th_fresh := False\<rparr>)"
    "threads st' (currentThread st) = Some (saved st ((yielding k st th)\<lparr>th_status := READY\<rparr>))"
    "\<And>t. t \<in> set ts \<Longrightarrow> threads st' t = threads st t" "\<And>x. threads st x = None \<Longrightarrow> threads st' x = None"
    "kmem st' = switch_kmem st nt" "spaces st' = spaces st" "pcbs st' = pcbs st" "processManager st' = processManager st" "next_obj st' = next_obj st"
proof -
  let ?c = "currentThread st"
  have dist: "distinct (?c # n # ts)" and rdy: "\<And>t. t \<in> set (n # ts) \<Longrightarrow> runnable_ok st t READY"
    and dest: "\<And>d. threadToBeDestroyed st = Some d \<Longrightarrow> d \<notin> set (?c # n # ts) \<and> threads st d \<noteq> None"
    using ok r by (auto simp: sched_ok_def split: option.splits)
  have stk: "th_stack th \<in> {None, Some STACK_FENCEPOST}" using ok th by (auto simp: sched_ok_def runnable_ok_def)
  have sp: "\<And>a. th_space nt = Some a \<Longrightarrow> spaces st a \<noteq> None" using rdy [of n] nt by (auto simp: runnable_ok_def)
  obtain l s1 where y: "Thread_Yield k st = Scheduler_Run n s1" "List_inv l" "List_items l = ts @ [?c]"
    "s1 = st\<lparr>threads := (threads st)(?c \<mapsto> (yielding k st th)\<lparr>th_status := READY\<rparr>), level := IntOff, readyList := l\<rparr>"
    by (rule Thread_Yield_switch [OF ok r th nt])
  define c' where "c' = (yielding k st th)\<lparr>th_status := READY\<rparr>"
  have run: "Scheduler_Run n s1 = Inr (s1\<lparr>currentThread := n, threads := switch_threads s1 c' n nt, kmem := switch_kmem s1 nt,
     threadToBeDestroyed := (if th_fresh nt then threadToBeDestroyed s1 else None),
     level := (if th_fresh nt then IntOn else level s1)\<rparr>)" (is "_ = Inr ?s2")
    using th nt dist dest stk sp by (intro Scheduler_Run_spec) (auto simp: y(4) c'_def yielding_def)
  have y_ok: "Thread_Yield k st = Inr ?s2" using y(1) run by simp
  have s1: "currentThread s1 = ?c" "threadToBeDestroyed s1 = threadToBeDestroyed st" "threads s1 = (threads st)(?c \<mapsto> c')" by (simp_all add: y(4) c'_def)
  have "saved s1 c' = saved st c'" by (simp add: saved_def y(4) cong: if_cong)
  show thesis
  proof (rule that [of ?s2, OF y_ok])
    show "sched_ok ?s2" using Thread_Yield_ok [OF ok, of k] y_ok by simp
    show "threads ?s2 n = Some (nt\<lparr>th_status := RUNNING, th_fresh := False\<rparr>)" using switch_threads_new [of s1 n c' nt] dest s1(2) by auto
    show "threads ?s2 ?c = Some (saved st ((yielding k st th)\<lparr>th_status := READY\<rparr>))"
      using switch_threads_old [of n s1 c' nt] dist dest s1 \<open>saved s1 c' = saved st c'\<close> by (auto simp: c'_def)
    show "threads ?s2 t = threads st t" if "t \<in> set ts" for t
      using switch_threads_other [of t n s1 nt c'] that dist dest s1 by auto
    show "threads ?s2 x = None" if x: "threads st x = None" for x
    proof -
      have "x \<noteq> n" "x \<noteq> ?c" using x th nt by auto
      moreover have "threadToBeDestroyed s1 \<noteq> Some x" using dest [of x] x s1(2) by auto
      ultimately show ?thesis using x s1(1,3) switch_threads_other [of x n s1 nt c'] by auto
    qed
    show "kmem ?s2 = switch_kmem st nt" by (simp add: switch_kmem_def y(4) cong: option.case_cong)
  qed (use y in \<open>simp_all add: ready_def\<close>)
qed

lemma inv_yield:
  assumes inv: "kernel_inv st" "lists_intact st" and k: "\<And>l ls. cont_ok (num_pids st) k (l # ls)" "k \<noteq> Dummy"
    and user: "\<And>th. threads st (currentThread st) = Some th \<Longrightarrow> th_cont th \<noteq> Dummy"
  shows "\<exists>st'. Thread_Yield k st = Inr st' \<and> kernel_inv st' \<and> lists_intact st'"
proof -
  let ?c = "currentThread st"
  note D = kernel_invD [OF inv(1)] and sch = sched_of_inv [OF inv]
  obtain th sp a where th: "threads st ?c = Some th" "th_space th = Some sp" "spaces st sp = Some a" "\<not> th_fresh th" "th_cont th \<noteq> Dummy \<Longrightarrow> on_cpu (kmem st) a"
    using currentE [OF inv(1)] by metis
  have cpu: "on_cpu (kmem st) a" using th(1,5) user by simp
  show ?thesis
  proof (cases "ready st")
    case Nil
    have "kernel_inv (st\<lparr>threads := (threads st)(?c \<mapsto> yielding k st th), level := IntOff\<rparr>)"
      by (rule inv_upd_current [OF inv(1) th(1)]) (use th k user in \<open>simp_all add: yielding_def\<close>)
    then show ?thesis using Thread_Yield_alone [OF sch Nil th(1), of k] inv(2) by (simp add: lists_intact_def)
  next
    case (Cons n ts)
    obtain nt spn an where nt: "threads st n = Some nt" "th_space nt = Some spn" "spaces st spn = Some an"
      using running_process [OF inv(1), of n] Cons by (metis list.set_intros(1,2))
    obtain st' where y: "Thread_Yield k st = Inr st'" "sched_ok st'" "currentThread st' = n" "ready st' = ts @ [?c]"
        "threads st' n = Some (nt\<lparr>th_status := RUNNING, th_fresh := False\<rparr>)" "threads st' ?c = Some (saved st ((yielding k st th)\<lparr>th_status := READY\<rparr>))"
        "\<And>t. t \<in> set ts \<Longrightarrow> threads st' t = threads st t" "\<And>x. threads st x = None \<Longrightarrow> threads st' x = None"
        "kmem st' = switch_kmem st nt" "spaces st' = spaces st" "pcbs st' = pcbs st" "processManager st' = processManager st" "next_obj st' = next_obj st"
      by (rule Thread_Yield_detail [OF sch Cons th(1) nt(1), where k = k]) blast
    have N: "num_pids st' = num_pids st" by (simp add: num_pids_def y(12))
    have wn: "waiting_ok (num_pids st) nt" using D(7) [OF _ nt(1)] Cons by simp
    have cur: "spaces_inv (kmem st') (spaces st')" "current_ok st'"
    proof -
      have "kmem st' = (if th_fresh nt then kmem st else (kmem st)\<lparr>km_machine := resumed_machine nt an (mach st)\<rparr>)" using nt(2,3) by (simp add: y(9) switch_kmem_def)
      then show "spaces_inv (kmem st') (spaces st')" "current_ok st'"
        using switched_ok [of "kmem st" st' nt spn an] D(4) y(3,5,10) wn N nt by simp_all
    qed
    have w: "waiting_ok (num_pids st') (saved st ((yielding k st th)\<lparr>th_status := READY\<rparr>))"
      using th(2,4) k(1) cpu N by (simp add: waiting_ok_def saved_def yielding_def on_cpu_def) (simp add: reg_defs)
    have "space_of st' t = space_of st t" if t: "t \<in> set (run_queue st)" for t
    proof -
      consider "t = n" | "t = ?c" | "t \<in> set ts" using t Cons by auto
      then show ?thesis using y(5-7) th(1) nt(1) by cases (simp_all add: space_of_def saved_def yielding_def)
    qed
    moreover have Q: "set (run_queue st') = set (run_queue st)" using Cons y(3,4) by auto
    ultimately have links: "links_inv (space_of st') (spaces st') (pcbs st') (set (run_queue st'))"
      unfolding Q y(10,11) using links_cong [OF D(5)] by blast
    have "kernel_inv st'"
    proof (rule kernel_invI [OF queue_of_sched [OF y(2)] _ _ cur(1) links _ _ cur(2)])
      show "objects_ok st'" using D(2) y(8) unfolding objects_ok_def y(10,11,13) by blast
      show "waiting_ok (num_pids st') u" if "t \<in> set (ready st')" "threads st' t = Some u" for t u
        using that y(4,6,7) w D(7) [of t u] N Cons by auto
    qed (use D y in simp_all)
    moreover have "lists_intact st'" using y(2,11) inv(2) by (simp add: lists_intact_def sched_ok_def)
    ultimately show ?thesis using y(1) by blast
  qed
qed

section \<open>Returning from system calls and continuing after a switch\<close>

lemma load_advanced [simp]: "load_ok (advanced (R(2 := v))) = load_ok R" "load_ok (advanced R) = load_ok R"
  by (simp_all add: advanced_def reg_defs)

definition in_user :: "kst \<Rightarrow> bool" where
  "in_user st \<longleftrightarrow> (\<forall>th. threads st (currentThread st) = Some th \<longrightarrow> th_cont th = User)"

definition good :: "kst \<Rightarrow> bool" where
  "good st \<longleftrightarrow> kernel_inv st \<and> lists_intact st \<and> in_user st"

lemma goodD: "good st \<Longrightarrow> kernel_inv st" "good st \<Longrightarrow> lists_intact st" "good st \<Longrightarrow> threads st (currentThread st) = Some th \<Longrightarrow> th_cont th = User"
  by (auto simp: good_def in_user_def)

lemma good_cpu:
  assumes "good st"
  obtains th sp a where "threads st (currentThread st) = Some th" "th_space th = Some sp" "spaces st sp = Some a" "on_cpu (kmem st) a" "\<not> th_fresh th"
    "th_cont th = User"
proof -
  obtain th sp a where x: "threads st (currentThread st) = Some th" "th_space th = Some sp" "spaces st sp = Some a" "\<not> th_fresh th"
      "th_cont th \<noteq> Dummy \<Longrightarrow> on_cpu (kmem st) a"
    using currentE [OF goodD(1) [OF assms]] by metis
  then show thesis using that goodD(3) [OF assms] by simp
qed

lemma good_load: "good st \<Longrightarrow> load_ok (registers (mach st))"
  by (erule good_cpu) (simp add: on_cpu_def)

lemma inv_put_regs_good: "good st \<Longrightarrow> load_ok R \<Longrightarrow> good (put_regs R st)"
  using inv_put_regs [OF goodD(1)] by (simp add: good_def in_user_def)

lemma inv_return:
  assumes "good st"
  shows "\<exists>st'. return_value v st = Inr st' \<and> good st'"
proof -
  have "load_ok (advanced ((registers (mach st))(2 := v)))" using good_load [OF assms] by (simp add: advanced_def) (simp add: reg_defs)
  then show ?thesis using inv_put_regs_good [OF assms] by (simp add: return_value_spec)
qed

text \<open>The running thread pops its saved interrupt level and is in user code again.\<close>

lemma restore_spec:
  assumes "threads st (currentThread st) = Some th" "th_levels th = l # ls"
  shows "restore st = Inr (st\<lparr>threads := (threads st)(currentThread st \<mapsto> th\<lparr>th_levels := ls\<rparr>), level := l\<rparr>)"
  using assms by (simp add: restore_def)

definition resumed :: "kst \<Rightarrow> ucont Thread \<Rightarrow> kst" where
  "resumed st th = st\<lparr>threads := (threads st)(currentThread st \<mapsto> th\<lparr>th_levels := tl (th_levels th), th_cont := User\<rparr>), level := hd (th_levels th)\<rparr>"

lemma resumed_good:
  assumes "kernel_inv st" "lists_intact st" "threads st (currentThread st) = Some th" "th_cont th \<noteq> Dummy"
  shows "good (resumed st th)"
proof -
  have "\<not> th_fresh th" using currentE [OF assms(1)] assms(3) by (metis option.inject)
  then have "kernel_inv (resumed st th)" unfolding resumed_def using assms(4) by (intro inv_upd_current [OF assms(1,3)]) simp_all
  then show ?thesis using assms(2) by (simp add: good_def in_user_def resumed_def lists_intact_def)
qed

lemma set_cont_upd: "set_cont k (st\<lparr>threads := (threads st)(currentThread st \<mapsto> th), level := l\<rparr>)
    = Inr (st\<lparr>threads := (threads st)(currentThread st \<mapsto> th\<lparr>th_cont := k\<rparr>), level := l\<rparr>)"
  by (simp add: set_cont_def)

lemma inv_preempted:
  assumes "kernel_inv st" "lists_intact st" "threads st (currentThread st) = Some th" "th_cont th = Preempted"
  shows "\<exists>st'. bindE (restore st) (set_cont User) = Inr st' \<and> good st'"
proof -
  have "th_levels th \<noteq> []" using currentE [OF assms(1)] assms(3,4) by (metis cont_ok.simps(6) option.inject)
  then obtain l ls where l: "th_levels th = l # ls" by (cases "th_levels th") auto
  have "bindE (restore st) (set_cont User) = Inr (resumed st th)" using restore_spec [OF assms(3) l] l by (simp add: set_cont_upd resumed_def)
  then show ?thesis using resumed_good [OF assms(1-3)] assms(4) by simp
qed

lemma inv_after_yield:
  assumes "kernel_inv st" "lists_intact st" "threads st (currentThread st) = Some th" "th_cont th = AfterYield"
  shows "\<exists>st'. after_yield st = Inr st' \<and> good st'"
proof -
  have "th_levels th \<noteq> []" using currentE [OF assms(1)] assms(3,4) by (metis cont_ok.simps(2) option.inject)
  then obtain l ls where l: "th_levels th = l # ls" by (cases "th_levels th") auto
  have g: "good (resumed st th)" using resumed_good [OF assms(1-3)] assms(4) by simp
  have "after_yield st = Inr (put_regs (advanced (registers (mach (resumed st th)))) (resumed st th))"
    using restore_spec [OF assms(3) l] l by (simp add: after_yield_def update_spec set_cont_def put_regs_def put_machine_def resumed_def)
  then show ?thesis using inv_put_regs_good [OF g] good_load [OF g] by simp
qed

text \<open>The loop of Join.\<close>

lemma yield_cont:
  assumes "threads st (currentThread st) = Some th"
  shows "Thread_Yield k (st\<lparr>threads := (threads st)(currentThread st \<mapsto> th\<lparr>th_cont := j\<rparr>)\<rparr>) = Thread_Yield k st"
  using assms by (simp add: Thread_Yield_def disable_def set_cont_def)

lemma inv_join_test:
  assumes "good st" "0 \<le> pid" "pid < int (num_pids st)"
  shows "\<exists>st'. join_test pid st = Inr st' \<and> kernel_inv st' \<and> lists_intact st'"
proof -
  have gp: "getProcess pid (processManager st) = Inr (pm_live (processManager st) pid)"
    using getProcess_spec [OF kernel_invD(3) [OF goodD(1) [OF assms(1)]], of pid] assms(2,3) by (simp add: num_pids_def)
  obtain th sp a where th: "threads st (currentThread st) = Some th" "th_cont th = User" by (rule good_cpu [OF assms(1)])
  show ?thesis
  proof (cases "pm_live (processManager st) pid")
    case None
    obtain sp a cp b where ip: "in_process st sp a cp b" by (rule running_in_process [OF goodD(1) [OF assms(1)] goodD(2) [OF assms(1)]])
    obtain st' where st': "return_value (of_int (PCB_getCode b)) st = Inr st'" "good st'" using inv_return [OF assms(1)] by blast
    obtain th' sp' a' where th': "threads st' (currentThread st') = Some th'" "th_cont th' = User" by (rule good_cpu [OF st'(2)])
    have "th'\<lparr>th_cont := User\<rparr> = th'" using th'(2) by (cases th') simp
    then have "set_cont User st' = Inr st'" using th'(1) by (simp add: set_cont_def fun_upd_idem)
    then show ?thesis using None gp cur_pcb_ok [OF ip] st' goodD by (auto simp: join_test_def)
  next
    case (Some p)
    then have "join_test pid st = Thread_Yield (JoinLoop pid) st" using gp by (simp add: join_test_def)
    then show ?thesis using inv_yield [OF goodD(1) [OF assms(1)] goodD(2) [OF assms(1)], of "JoinLoop pid"] assms th by simp
  qed
qed

lemma inv_join_loop:
  assumes "kernel_inv st" "lists_intact st" "threads st (currentThread st) = Some th" "th_cont th = JoinLoop pid"
  shows "\<exists>st'. join_loop pid st = Inr st' \<and> kernel_inv st' \<and> lists_intact st'"
proof -
  have c: "th_levels th \<noteq> [] \<and> 0 \<le> pid \<and> pid < int (num_pids st)" using currentE [OF assms(1)] assms(3,4) by (metis cont_ok.simps(3) option.inject)
  then obtain l ls where l: "th_levels th = l # ls" by (cases "th_levels th") auto
  have g: "good (resumed st th)" using resumed_good [OF assms(1-3)] assms(4) by simp
  define s where "s = st\<lparr>threads := (threads st)(currentThread st \<mapsto> th\<lparr>th_levels := ls\<rparr>), level := l\<rparr>"
  have s: "threads s (currentThread s) = Some (th\<lparr>th_levels := ls\<rparr>)" "resumed st th = s\<lparr>threads := (threads s)(currentThread s \<mapsto> th\<lparr>th_levels := ls, th_cont := User\<rparr>)\<rparr>"
    using l by (simp_all add: s_def resumed_def)
  have "Thread_Yield (JoinLoop pid) (resumed st th) = Thread_Yield (JoinLoop pid) s" using yield_cont [OF s(1), of "JoinLoop pid" User] by (simp add: s(2))
  moreover have "bindE (cur_pcb s) (\<lambda>(_, b). bindE (return_value (of_int (PCB_getCode b)) s) (set_cont User))
      = bindE (cur_pcb (resumed st th)) (\<lambda>(_, b). bindE (return_value (of_int (PCB_getCode b)) (resumed st th)) (set_cont User))"
    using s(1) unfolding s(2) by (simp add: cur_pcb_def cur_space_def get_space_def get_pcb_def return_value_spec set_cont_def put_regs_def put_machine_def
        split: option.splits)
  ultimately have "join_test pid s = join_test pid (resumed st th)" by (simp add: join_test_def s(2) cong: if_cong)
  moreover have "join_loop pid st = join_test pid s" using restore_spec [OF assms(3) l] by (simp add: join_loop_def s_def)
  ultimately show ?thesis using inv_join_test [OF g] c by (simp add: num_pids_def resumed_def)
qed

text \<open>The first step of a new process.\<close>

lemma inv_dummy:
  assumes inv: "kernel_inv st" "lists_intact st" and th: "threads st (currentThread st) = Some th" "th_cont th = Dummy"
  shows "\<exists>st'. dummy st = Inr st' \<and> good st'"
proof -
  let ?c = "currentThread st"
  note D = kernel_invD [OF inv(1)]
  obtain sp a where a: "th_space th = Some sp" "spaces st sp = Some a" "\<not> th_fresh th" "load_ok (userRegisters th)"
    using currentE [OF inv(1)] th by (metis option.inject)
  define m where "m = AddrSpace_RestoreState a ((mach st)\<lparr>registers := (\<lambda>i. if i < NumTotalRegs then userRegisters th i else registers (mach st) i)\<rparr>)"
  define s where "s = (put_machine m st)\<lparr>threads := (threads st)(?c \<mapsto> th\<lparr>th_cont := User\<rparr>)\<rparr>"
  have "dummy st = Inr s"
    using th a by (simp add: dummy_def RestoreUserState_spec cur_space_def get_space_def set_cont_def put_machine_def s_def m_def)
  moreover have "kernel_inv s"
  proof (rule kernel_invI)
    have run: "runnable_ok s t x = runnable_ok st t x" for t x using th by (simp add: runnable_ok_def s_def cong: option.case_cong)
    show "queue_inv s" using D(1) th unfolding queue_inv_def run by (auto simp: ready_def s_def)
    show "objects_ok s" using D(2) objects_lt(1) [OF D(2) th(1)] unfolding objects_ok_def s_def by auto
    have "same_heap (mach st) m" by (simp add: m_def)
    then show "spaces_inv (kmem s) (spaces s)" using spaces_same_heap(1) [OF D(4)] by (simp add: s_def put_machine_def)
    have "space_of s = space_of st" using th by (simp add: space_of_def fun_eq_iff s_def)
    then show "links_inv (space_of s) (spaces s) (pcbs s) (set (run_queue s))" using D(5) by (simp add: ready_def s_def)
    have "?c \<notin> set (ready st)" using queue_invD(2) [OF D(1)] by simp
    then show "waiting_ok (num_pids s) u" if "t \<in> set (ready s)" "threads s t = Some u" for t u
      using that D(7) [of t u] by (auto simp: ready_def num_pids_def s_def split: if_splits)
    have "LoadReg < NumTotalRegs" by (simp add: reg_defs)
    then have "on_cpu (kmem s) a" using a(4) by (simp add: on_cpu_def s_def m_def AddrSpace_RestoreState_def)
    then show "current_ok s" using a unfolding current_ok_def by (simp add: s_def)
  qed (use D in \<open>simp_all add: s_def\<close>)
  ultimately show ?thesis using inv(2) by (simp add: good_def in_user_def lists_intact_def s_def)
qed

section \<open>Fork\<close>

lemma families_add:
  assumes fam: "families_inv P L" and b: "P cp = Some b" and fresh: "P n = None" "cp < n" and pid: "L pid = None"
    and nb: "processID nb = pid" "parent_process nb = Some cp" "pcb_children nb = List_new"
    and kids: "List_chain kids" "List_items kids = List_items (pcb_children b) @ [Some n]"
  shows "families_inv (P(n \<mapsto> nb, cp \<mapsto> b\<lparr>pcb_children := kids\<rparr>)) (L(pid \<mapsto> n))" (is "families_inv ?P ?L")
proof -
  have noparent: "parent_process cb \<noteq> Some n" if "P c = Some cb" for c cb using families_pcb(5) [OF fam that] fresh(1) by fastforce
  have kid1: "(\<exists>cb. ?P c = Some cb \<and> parent_process cb = Some x) \<longleftrightarrow> (\<exists>cb. P c = Some cb \<and> parent_process cb = Some x) \<or> c = n \<and> x = cp" for c x
    using b fresh nb(2) by (cases "c = n"; cases "c = cp") auto
  have kid: "(\<exists>c cb. q = Some c \<and> ?P c = Some cb \<and> parent_process cb = Some x) \<longleftrightarrow>
      (\<exists>c cb. q = Some c \<and> P c = Some cb \<and> parent_process cb = Some x) \<or> q = Some n \<and> x = cp" for q x
    using kid1 [of _ x] by (cases q) simp_all
  have other: "?L (processID c) = Some x" if "P x = Some c" for x c
    using families_pcb(1) [OF fam that] pid by (cases "processID c = pid") auto
  have par: "y < x \<and> ?P y \<noteq> None" if "P x = Some c" "parent_process c = Some y" for x y c
    using families_pcb(5) [OF fam that] by auto
  have "?L (processID c) = Some x \<and> List_chain (pcb_children c) \<and> distinct (List_items (pcb_children c))
       \<and> (\<forall>q. q \<in> set (List_items (pcb_children c)) \<longleftrightarrow> (\<exists>d db. q = Some d \<and> ?P d = Some db \<and> parent_process db = Some x))
       \<and> (\<forall>q. parent_process c = Some q \<longrightarrow> q < x \<and> ?P q \<noteq> None)" if c: "?P x = Some c" for x c
  proof -
    consider "x = n" "c = nb" | "x = cp" "c = b\<lparr>pcb_children := kids\<rparr>" | "x \<noteq> n" "x \<noteq> cp" "P x = Some c"
      using c fresh(2) by (auto split: if_splits)
    then show ?thesis
    proof cases
      case 1
      have "\<nexists>c cb. q = Some c \<and> P c = Some cb \<and> parent_process cb = Some n" for q using noparent by blast
      then show ?thesis unfolding kid using 1 nb fresh(2) b List_new_ok by (auto simp: List_items_def List_inv_def)
    next
      case 2
      have "Some n \<notin> set (List_items (pcb_children b))" using families_pcb(4) [OF fam b] fresh(1) by auto
      then show ?thesis unfolding kid using 2 kids families_pcb(3,4) [OF fam b] other [OF b] par [OF b] by auto
    next
      case 3
      then show ?thesis unfolding kid using families_pcb(2-4) [OF fam 3(3)] other [OF 3(3)] par [OF 3(3)] by auto
    qed
  qed
  moreover have "\<exists>c. ?P x = Some c \<and> processID c = q" if Lq: "?L q = Some x" for q x
  proof (cases "q = pid")
    case False
    then obtain c where "P x = Some c" "processID c = q" using families_live [OF fam, of q x] Lq by auto
    then show ?thesis using fresh b by auto
  qed (use Lq nb(1) fresh(2) in auto)
  ultimately show ?thesis unfolding families_inv_def by blast
qed

lemma links_add:
  assumes "links_inv W S P Q" "\<And>x. x \<in> Q \<Longrightarrow> W' x = W x" "W' t = Some sp" "S sp = None" "as_pcb a = Some n" "P n = None" "processThread nb = t"
    "P cp = Some b" "processThread b' = processThread b" "cp \<noteq> n"
  shows "links_inv W' (S(sp \<mapsto> a)) (P(n \<mapsto> nb, cp \<mapsto> b')) (insert t Q)" (is "links_inv W' ?S ?P _")
proof -
  have "\<exists>sp a p b. W' x = Some sp \<and> ?S sp = Some a \<and> as_pcb a = Some p \<and> ?P p = Some b \<and> processThread b = x" if x: "x \<in> insert t Q" for x
  proof (cases "x \<in> Q")
    case True
    obtain s c p d where y: "W x = Some s" "S s = Some c" "as_pcb c = Some p" "P p = Some d" "processThread d = x"
      by (rule links_thread [OF assms(1) True])
    then have "s \<noteq> sp" "p \<noteq> n" using assms(4,6) by auto
    then show ?thesis using y assms(2) [OF True] assms(8,9) by (cases "p = cp") auto
  next
    case False
    then show ?thesis using x assms by auto
  qed
  moreover have "processThread d \<in> insert t Q \<and> (\<exists>s c. W' (processThread d) = Some s \<and> ?S s = Some c \<and> as_pcb c = Some p)" if d: "?P p = Some d" for p d
  proof (cases "p = n")
    case True
    then show ?thesis using d assms by auto
  next
    case False
    obtain d0 where d0: "P p = Some d0" "processThread d0 = processThread d" using d False assms(8,9) by (cases "p = cp") auto
    obtain s c where y: "processThread d0 \<in> Q" "W (processThread d0) = Some s" "S s = Some c" "as_pcb c = Some p" by (rule links_pcb [OF assms(1) d0(1)])
    then have "s \<noteq> sp" using assms(4) by auto
    then show ?thesis using y assms(2) [OF y(1)] d0(2) by auto
  qed
  ultimately show ?thesis unfolding links_inv_def by blast
qed

text \<open>What copying an address space leaves alone.\<close>

definition cpu_state :: "Machine \<Rightarrow> (nat \<Rightarrow> 32 word) \<times> nat option \<times> nat option \<times> 32 word" where
  "cpu_state m = (registers m, tlb m, pageTable m, pageTableSize m)"

lemma AddrSpace_copy_cpu:
  assumes "AddrSpace_copy a km = Inr (r, km')"
  shows "cpu_state (km_machine km') = cpu_state (km_machine km)"
proof -
  let ?g = "\<lambda>km. cpu_state (km_machine km)"
  have step: "?g t' = ?g t" if "page_step pt mk (\<lambda>i f m. bindE (get_entry q i m) (\<lambda>e. bcopy (u e) (v f) n m)) i t = Inr t'" for pt mk q u v n i t t'
    using that by (auto simp: page_step_def bindE_eq_Inr set_entry_def bcopy_def Let_def cpu_state_def split: if_splits option.splits)
  have new: "?g (snd (AddrSpace_new k km)) = ?g km" for k
    by (simp add: AddrSpace_new_def new_table_def Let_def cpu_state_def)
  show ?thesis
    using assms new [of "numPages a"]
    by (auto simp: AddrSpace_copy_def bindE_eq_Inr Let_def split: if_splits prod.splits dest!: foldE_keeps [where g = ?g, OF _ step])
qed

lemma cpu_state_eqD: "cpu_state m' = cpu_state m \<Longrightarrow> registers m' = registers m" "cpu_state m' = cpu_state m \<Longrightarrow> tlb m' = tlb m"
    "cpu_state m' = cpu_state m \<Longrightarrow> on_cpu (km\<lparr>km_machine := m'\<rparr>) a = on_cpu (km\<lparr>km_machine := m\<rparr>) a"
  by (simp_all add: cpu_state_def on_cpu_def)

text \<open>The three ways in which Fork ends.\<close>

lemma inv_save_regs:
  assumes "good st" "threads st (currentThread st) = Some th"
  shows "good (st\<lparr>threads := (threads st)(currentThread st \<mapsto> saved_regs st th)\<rparr>)"
proof -
  have c: "th_cont th = User" "\<not> th_fresh th" using good_cpu [OF assms(1)] assms(2) by (metis option.inject)+
  have "kernel_inv (st\<lparr>threads := (threads st)(currentThread st \<mapsto> saved_regs st th), level := level st\<rparr>)"
    using c by (intro inv_upd_current [OF goodD(1) [OF assms(1)] assms(2)]) (simp_all add: saved_regs_def)
  then show ?thesis using assms c by (simp add: good_def in_user_def lists_intact_def saved_regs_def)
qed

lemma fork_no_memory:
  assumes "good st" "in_process st sp a cp b" "mm_free (km_mm (kmem st)) < unat (numPages a)"
  shows "\<exists>st'. sys_fork junk st = Inr st' \<and> good st'"
proof -
  obtain th where th: "threads st (currentThread st) = Some th" "th_space th = Some sp" "spaces st sp = Some a" using in_processE [OF assms(2)] by metis
  have km: "km_ok (kmem st)" using spaces_invD(1) [OF kernel_invD(4) [OF goodD(1) [OF assms(1)]]] .
  have "sys_fork junk st = return_value (-1) (st\<lparr>threads := (threads st)(currentThread st \<mapsto> saved_regs st th)\<rparr>)"
    using th cur_pcb_ok [OF assms(2)] AddrSpace_copy_refused [OF km assms(3)]
    by (simp add: sys_fork_def SaveUserState_spec [OF th(1)] cur_space_def get_space_def Let_def saved_regs_def)
  then show ?thesis using inv_return [OF inv_save_regs [OF assms(1) th(1)]] by simp
qed

text \<open>A copied address space that no runnable thread uses may be added.\<close>

lemma copied_spaces:
  assumes "spaces_inv km S" "S sp = Some a" "unat (numPages a) \<le> mm_free (km_mm km)"
  obtains a' km' where "AddrSpace_copy a km = Inr (Some a', km')" "cpu_state (km_machine km') = cpu_state (km_machine km)"
    "\<And>n q. S n = None \<Longrightarrow> spaces_inv km' (S(n \<mapsto> a'\<lparr>as_pcb := q\<rparr>))" "spaces_inv km' S"
proof -
  obtain a' km' where copy: "AddrSpace_copy a km = Inr (Some a', km')" "km_ok km'" "as_ok km' a'" "numPages a' = numPages a" "as_pageTable a' = km_next km"
      "as_frames km' a' \<inter> mm_used (km_mm km) = {}" "\<And>c. as_ok km c \<Longrightarrow> as_same km km' c"
    by (rule AddrSpace_copy_granted [OF spaces_invD(1) [OF assms(1)] spaces_invD(3) [OF assms(1,2)] assms(3)]) blast
  note cpu = AddrSpace_copy_cpu [OF copy(1)]
  have tlb: "tlb (km_machine km') = None" using cpu_state_eqD(2) [OF cpu] spaces_invD(2) [OF assms(1)] by simp
  have same: "as_ok km' c \<and> as_frames km' c = as_frames km c" if "as_ok km c" for c using copy(7) [OF that] by (simp add: as_same_def)
  show thesis
  proof (rule that [OF copy(1) cpu])
    show "spaces_inv km' (S(n \<mapsto> a'\<lparr>as_pcb := q\<rparr>))" if "S n = None" for n q
      by (rule spaces_add [OF assms(1) that copy(2) tlb]) (use copy same in simp_all)
    show "spaces_inv km' S"
      using copy(2) tlb same spaces_invD(3) [OF assms(1)] by (intro spaces_invI) (auto intro: apart_frames [OF spaces_invD(4) [OF assms(1)]])
  qed
qed

lemma fork_no_pid:
  assumes good: "good st" and ip: "in_process st sp a cp b" and free: "unat (numPages a) \<le> mm_free (km_mm (kmem st))"
    and full: "BitMap_bits (pm_map (processManager st)) = {..<BitMap_size (pm_map (processManager st))}"
  shows "\<exists>st'. sys_fork junk st = Inr st' \<and> good st'"
proof -
  let ?n = "next_obj st" and ?c = "currentThread st"
  note D = kernel_invD [OF goodD(1) [OF good]]
  obtain th where th: "threads st ?c = Some th" "th_space th = Some sp" "spaces st sp = Some a" using in_processE [OF ip] by metis
  have new: "threads st (Suc ?n) = None" "spaces st ?n = None" using D(2) by (simp_all add: objects_ok_def)
  have lt: "?c < ?n" "sp < ?n" using objects_lt [OF D(2)] th by blast+
  obtain a' km' where copy: "AddrSpace_copy a (kmem st) = Inr (Some a', km')" "cpu_state (km_machine km') = cpu_state (mach st)"
      "\<And>n q. spaces st n = None \<Longrightarrow> spaces_inv km' ((spaces st)(n \<mapsto> a'\<lparr>as_pcb := q\<rparr>))"
    using copied_spaces [OF D(4) th(3) free] by metis
  define s where "s = (st\<lparr>threads := (threads st)(?c \<mapsto> saved_regs st th)\<rparr>)"
  define s' where "s' = s\<lparr>kmem := km', next_obj := ?n + 2, threads := (threads s)(Suc ?n \<mapsto> forked_thread junk ?n), spaces := (spaces st)(?n \<mapsto> a')\<rparr>"
  have call: "sys_fork junk st = return_value (-1) s'"
    using lt th copy(1) cur_pcb_ok [OF ip] getPID_full [OF D(3) full]
    by (simp add: sys_fork_def SaveUserState_spec [OF th(1)] cur_space_def get_space_def new_space_def Thread_new_def Let_def s'_def s_def saved_regs_def
        forked_thread_def) (intro arg_cong2 [where f = return_value] refl, cases st, simp)
  have gs: "good s" unfolding s_def by (rule inv_save_regs [OF good th(1)])
  note E = kernel_invD [OF goodD(1) [OF gs]]
  have at: "threads s' t = threads s t" if "t \<noteq> Suc ?n" for t using that by (simp add: s'_def)
  have old: "t \<noteq> Suc ?n" if t: "t \<in> set (run_queue s)" for t
  proof -
    obtain u where "threads s t = Some u" by (rule running_process [OF goodD(1) [OF gs] t])
    then have "threads st t \<noteq> None" using th(1) by (auto simp: s_def split: if_splits)
    then show ?thesis using new(1) by metis
  qed
  have rq: "run_queue s' = run_queue s" "set (ready s) \<subseteq> set (run_queue s)" by (auto simp: s'_def ready_def)
  have run: "runnable_ok s' t x" if "runnable_ok s t x" "t \<noteq> Suc ?n" for t x
    by (rule runnable_mono [OF that(1) at [OF that(2)]]) (simp add: s'_def s_def)
  have "kernel_inv s'"
  proof (rule kernel_invI)
    have "d \<noteq> Suc ?n" if "threads s d \<noteq> None" for d using that new(1) lt by (auto simp: s_def split: if_splits)
    then have "threadToBeDestroyed s' = Some d \<longrightarrow> d \<notin> set (run_queue s') \<and> threads s' d \<noteq> None" for d
      using queue_invD(5) [OF E(1), of d] at [of d] unfolding rq by (simp add: s'_def)
    moreover have "runnable_ok s' (currentThread s') RUNNING" "\<forall>t \<in> set (ready s'). runnable_ok s' t READY"
      using run queue_invD(3,4) [OF E(1)] old rq by (auto simp: s'_def ready_def)
    ultimately show "queue_inv s'" using queue_invD(1,2) [OF E(1)] unfolding queue_inv_def rq by (simp add: s'_def)
    show "objects_ok s'" using E(2) unfolding objects_ok_def by (auto simp: s'_def s_def)
    have "a'\<lparr>as_pcb := as_pcb a'\<rparr> = a'" by simp
    then show "spaces_inv (kmem s') (spaces s')" using copy(3) [OF new(2), of "as_pcb a'"] by (simp add: s'_def)
    have "links_inv (space_of s) ((spaces st)(?n \<mapsto> a')) (pcbs s) (set (run_queue s))"
      by (rule links_more_spaces [OF E(5)]) (use new(2) in \<open>auto simp: s_def\<close>)
    then have "links_inv (space_of s') ((spaces st)(?n \<mapsto> a')) (pcbs s) (set (run_queue s))"
      by (rule links_cong) (use old at in \<open>simp add: space_of_def\<close>)
    then show "links_inv (space_of s') (spaces s') (pcbs s') (set (run_queue s'))" by (simp add: rq) (simp add: s'_def)
    show "waiting_ok (num_pids s') u" if "t \<in> set (ready s')" "threads s' t = Some u" for t u
      using that old rq(2) at [of t] E(7) [of t u] by (auto simp: s'_def ready_def num_pids_def)
    have cpu: "on_cpu km' x = on_cpu (kmem st) x" for x using copy(2) by (simp add: on_cpu_def cpu_state_def)
    have "?c \<noteq> Suc ?n" "sp \<noteq> ?n" using lt by simp_all
    then show "current_ok s'" using E(8) th cpu unfolding current_ok_def num_pids_def by (auto simp: s'_def s_def saved_regs_def split: if_splits)
  qed (use E in \<open>simp_all add: s'_def\<close>)
  moreover have "lists_intact s'" "in_user s'" using gs lt by (auto simp: good_def lists_intact_def in_user_def s'_def s_def)
  ultimately show ?thesis using inv_return [of s'] call by (simp add: good_def)
qed

lemma pids_kept: "getPID pm = Inr (pid, pm1) \<Longrightarrow> addPCB p b pm1 = Inr pm2 \<Longrightarrow> length (pcbTable pm2) = length (pcbTable pm)"
  by (auto simp: getPID_def addPCB_def table_set_def arr_set_def bindE_eq_Inr split: if_splits)

lemma fork_result_inv:
  assumes good: "good st" and ip: "in_process st sp a cp b" and th: "threads st (currentThread st) = Some th"
    and copy: "cpu_state (km_machine km') = cpu_state (mach st)" "\<And>n q. spaces st n = None \<Longrightarrow> spaces_inv km' ((spaces st)(n \<mapsto> a'\<lparr>as_pcb := q\<rparr>))"
    and pm: "pm_inv pm2" "pm_live pm2 = (pm_live (processManager st))(pid \<mapsto> next_obj st + 2)" "pm_live (processManager st) pid = None"
      "length (pcbTable pm2) = num_pids st"
    and kids: "b' = b\<lparr>pcb_children := kids\<rparr>" "List_inv kids" "List_items kids = List_items (pcb_children b) @ [Some (next_obj st + 2)]"
    and l: "List_inv l" "List_items l = ready st @ [Suc (next_obj st)]"
  shows "good (fork_result junk st th a' km' pid pm2 cp b' l)" (is "good ?s")
proof -
  let ?n = "next_obj st" and ?c = "currentThread st" and ?R = "registers (mach st)"
  note D = kernel_invD [OF goodD(1) [OF good]]
  obtain x where "threads st ?c = Some x" "th_space x = Some sp" "spaces st sp = Some a" "as_pcb a = Some cp" "pcbs st cp = Some b"
    by (rule in_processE [OF ip])
  then have p: "th_space th = Some sp" "spaces st sp = Some a" "as_pcb a = Some cp" "pcbs st cp = Some b" using th by auto
  have lt: "?c < ?n" "sp < ?n" "cp < ?n" using objects_lt [OF D(2)] th p by blast+
  have new: "threads st (Suc ?n) = None" "spaces st ?n = None" "pcbs st (?n + 2) = None" using D(2) by (simp_all add: objects_ok_def)
  define child where "child = (forked_thread (\<lambda>i. if i < NumTotalRegs then child_regs ?R i else junk i) ?n)
     \<lparr>th_stack := Some STACK_FENCEPOST, th_cont := Dummy, th_fresh := True, th_status := READY\<rparr>"
  have sel: "currentThread ?s = ?c" "ready ?s = ready st @ [Suc ?n]" "processManager ?s = pm2" "spaces ?s = (spaces st)(?n \<mapsto> a'\<lparr>as_pcb := Some (?n + 2)\<rparr>)"
    "pcbs ?s = (pcbs st)(?n + 2 \<mapsto> fork_pcb junk pid cp (Suc ?n), cp \<mapsto> b')" "threads ?s = (threads st)(?c \<mapsto> saved_regs st th, Suc ?n \<mapsto> child)"
    "kmem ?s = km'\<lparr>km_machine := (km_machine km')\<lparr>registers := advanced (?R(2 := of_int pid))\<rparr>\<rparr>" "readyList ?s = l"
    using l(2) by (simp_all add: fork_result_def forked_def Let_def ready_def child_def put_regs_def put_machine_def)
  obtain user: "th_cont th = User" "\<not> th_fresh th" "on_cpu (kmem st) a" using good_cpu [OF good] th p(1,2) by (metis option.inject)
  have sp_km': "spaces_inv km' (spaces ?s)" unfolding sel(4) by (rule copy(2) [OF new(2)])
  have kok: "kernel_ok ?s"
    using th p l spaces_invD(1) [OF sp_km'] pm(1) lt(3) by (intro fork_result_kernel_ok [OF kernel_of_inv [OF goodD(1) [OF good] goodD(2) [OF good]]]) auto
  have "load_ok (child_regs ?R)" using user(3) by (simp add: child_regs_def on_cpu_def) (simp add: reg_defs)
  then have child: "waiting_ok (num_pids ?s) child" "th_space child = Some ?n" by (simp_all add: child_def waiting_ok_def forked_thread_def reg_defs)
  have "kernel_inv ?s"
  proof (rule kernel_invI)
    show "queue_inv ?s" "objects_ok ?s" "pm_inv (processManager ?s)" using kok queue_of_sched [of ?s] by (simp_all add: kernel_ok_def)
    show "spaces_inv (kmem ?s) (spaces ?s)" unfolding sel(7) by (rule spaces_same_heap(1) [OF sp_km']) simp
    have "space_of ?s t = space_of st t" if t: "t \<in> set (run_queue st)" for t
    proof -
      obtain u where "threads st t = Some u" by (rule running_process [OF goodD(1) [OF good] t])
      then have "t \<noteq> Suc ?n" using new(1) by auto
      then show ?thesis using th by (simp add: space_of_def sel(6) saved_regs_def)
    qed
    moreover have "space_of ?s (Suc ?n) = Some ?n" using child(2) by (simp add: space_of_def sel(6))
    ultimately have "links_inv (space_of ?s) (spaces ?s) (pcbs ?s) (insert (Suc ?n) (set (run_queue st)))"
      unfolding sel(4,5) using lt(3) p(4) new kids(1)
      by (intro links_add [OF D(5)]) (simp_all add: fork_pcb_def PCB_set_def PCB_new_def)
    moreover have "set (run_queue ?s) = insert (Suc ?n) (set (run_queue st))" using sel(1,2) by auto
    ultimately show "links_inv (space_of ?s) (spaces ?s) (pcbs ?s) (set (run_queue ?s))" by simp
    show "families_inv (pcbs ?s) (pm_live (processManager ?s))"
      unfolding sel(3,5) pm(2) using lt(3) new(3) pm(3) kids(2,3)
      by (subst kids(1), intro families_add [OF D(6) p(4)]) (simp_all add: fork_pcb_def PCB_set_def PCB_new_def List_inv_def)
    show "waiting_ok (num_pids ?s) u" if t: "t \<in> set (ready ?s)" "threads ?s t = Some u" for t u
    proof (cases "t = Suc ?n")
      case False
      have "t \<noteq> ?c" using t(1) False queue_invD(2) [OF D(1)] sel(2) by auto
      then show ?thesis using t False D(7) [of t u] pm(4) by (auto simp: sel(2,3,6) num_pids_def)
    qed (use t child in \<open>simp add: sel(6)\<close>)
    have "on_cpu (kmem ?s) a" using user(3) copy(1) load_advanced(1) [of ?R] unfolding sel(7) by (simp add: on_cpu_def cpu_state_def)
    then show "current_ok ?s" using lt user p th unfolding current_ok_def sel(1,4,6) by (simp add: saved_regs_def)
  qed
  moreover have "lists_intact ?s" using goodD(2) [OF good] l(1) kids unfolding lists_intact_def sel(5,8)
    by (auto simp: fork_pcb_def PCB_set_def PCB_new_def split: if_splits)
  moreover have "in_user ?s" using user(1) lt by (simp add: in_user_def sel(1,6) saved_regs_def)
  ultimately show ?thesis by (simp add: good_def)
qed

lemma inv_fork:
  assumes good: "good st"
  shows "\<exists>st'. sys_fork junk st = Inr st' \<and> good st'"
proof -
  let ?n = "next_obj st" and ?pm = "processManager st"
  note D = kernel_invD [OF goodD(1) [OF good]]
  obtain sp a cp b where ip: "in_process st sp a cp b" by (rule running_in_process [OF goodD(1) [OF good] goodD(2) [OF good]])
  obtain th where th: "threads st (currentThread st) = Some th" "spaces st sp = Some a" "List_inv (pcb_children b)" using in_processE [OF ip] by metis
  consider "mm_free (km_mm (kmem st)) < unat (numPages a)" | "unat (numPages a) \<le> mm_free (km_mm (kmem st))" "BitMap_bits (pm_map ?pm) = {..<BitMap_size (pm_map ?pm)}"
    | "unat (numPages a) \<le> mm_free (km_mm (kmem st))" "BitMap_bits (pm_map ?pm) \<noteq> {..<BitMap_size (pm_map ?pm)}" by linarith
  then show ?thesis
  proof cases
    case 3
    obtain a' km' where copy: "AddrSpace_copy a (kmem st) = Inr (Some a', km')" "cpu_state (km_machine km') = cpu_state (mach st)"
        "\<And>n q. spaces st n = None \<Longrightarrow> spaces_inv km' ((spaces st)(n \<mapsto> a'\<lparr>as_pcb := q\<rparr>))"
      using copied_spaces [OF D(4) th(2) 3(1)] by metis
    obtain pid pm1 where pid: "getPID ?pm = Inr (pid, pm1)" "pid \<ge> 0" by (rule getPID_free [OF D(3) 3(2)])
    have unused: "pm_live ?pm pid = None" by (rule getPID_spec [OF D(3) pid]) (simp add: pm_live_def)
    obtain pm2 where add: "addPCB (?n + 2) (fork_pcb junk pid cp (Suc ?n)) pm1 = Inr pm2" "pm_inv pm2" "pm_live pm2 = (pm_live ?pm)(pid \<mapsto> ?n + 2)"
      by (rule addPCB_after_getPID [OF D(3) pid fork_pcb_id])
    obtain kids where kids: "List_Append (Some (?n + 2)) (pcb_children b) = Inr kids" "List_inv kids"
        "List_items kids = List_items (pcb_children b) @ [Some (?n + 2)]"
      using List_Append_spec [OF th(3), of "Some (?n + 2)"] by (auto simp: List_items_def)
    have ch: "PCB_addChild (Some (?n + 2)) b = Inr (True, b\<lparr>pcb_children := kids\<rparr>)" using kids(1) by (simp add: PCB_addChild_def)
    have rl: "List_inv (readyList st)" using goodD(2) [OF good] by (simp add: lists_intact_def)
    obtain l where l: "sys_fork junk st = Inr (fork_result junk st th a' km' pid pm2 cp (b\<lparr>pcb_children := kids\<rparr>) l)" "List_inv l" "List_items l = ready st @ [Suc ?n]"
      by (rule sys_fork_spec [OF ip D(2) th(1) copy(1) pid ch add(1) rl])
    show ?thesis using l(1) fork_result_inv [OF good ip th(1) copy(2,3) add(2,3) unused _ refl kids(2,3) l(2,3)] pids_kept [OF pid(1) add(1)] by (simp add: num_pids_def)
  qed (use fork_no_memory [OF good ip] fork_no_pid [OF good ip] in blast)+
qed

section \<open>Exit\<close>

lemma family_of_inv:
  assumes "families_inv P L" "P cp = Some b" "pcbs st = P"
  shows "family_ok st cp b"
  unfolding family_ok_def
proof (intro conjI ballI allI impI)
  fix q assume "q \<in> set (List_items (pcb_children b))"
  then obtain c cb where c: "q = Some c" "P c = Some cb" "parent_process cb = Some cp" using families_pcb(4) [OF assms(1,2)] by blast
  then show "\<exists>c. q = Some c \<and> c \<noteq> cp \<and> pcbs st c \<noteq> None" using families_pcb(5) [OF assms(1) c(2,3)] assms(3) by auto
next
  fix par assume par: "parent_process b = Some par"
  obtain pb where pb: "par < cp" "P par = Some pb" using families_pcb(5) [OF assms(1,2) par] by blast
  show "par \<noteq> cp" using pb(1) by simp
  show "\<exists>pb. pcbs st par = Some pb \<and> List_chain (pcb_children pb)" using pb(2) families_pcb(2) [OF assms(1) pb(2)] assms(3) by auto
qed

text \<open>What a process that leaves does to the invariants of processes and memory.\<close>

lemma leave_inv:
  assumes inv: "kernel_inv st" and b: "pcbs st p = Some b" and left: "left_family p f b (pcbs st) P"
    and sp: "space_of st (processThread b) = Some sp" "spaces st sp = Some a" "as_pcb a = Some p"
    and pm: "pm_live pm = (pm_live (processManager st))(processID b := None)"
    and mm: "mm_inv mm" "mm_size mm = NumPhysPages" "mm_used mm = mm_used (km_mm (kmem st)) - as_frames (kmem st) a"
  shows "families_inv P (pm_live pm)" "links_inv (space_of st) ((spaces st)(sp := None)) P (set (run_queue st) - {processThread b})"
    "spaces_inv (left_memory (kmem st) a mm) ((spaces st)(sp := None))"
    "\<And>t th x. t \<in> set (run_queue st) - {processThread b} \<Longrightarrow> threads st t = Some th \<Longrightarrow> th_space th = Some x \<Longrightarrow> x \<noteq> sp"
    "\<And>x. pcbs st x = None \<Longrightarrow> P x = None"
proof -
  note D = kernel_invD [OF inv]
  show "families_inv P (pm_live pm)" unfolding pm by (rule families_left [OF D(6) b left])
  show "links_inv (space_of st) ((spaces st)(sp := None)) P (set (run_queue st) - {processThread b})" by (rule links_left [OF D(6) b left D(5) sp(2,3,1)])
  show "spaces_inv (left_memory (kmem st) a mm) ((spaces st)(sp := None))" by (rule spaces_drop(1) [OF D(4) sp(2) mm])
  have t: "processThread b \<in> set (run_queue st)" using links_pcb [OF D(5) b] by metis
  show "x \<noteq> sp" if "u \<in> set (run_queue st) - {processThread b}" "threads st u = Some th" "th_space th = Some x" for u th x
    using links_inj [OF D(5) _ t, of u sp] that sp(1) by (auto simp: space_of_Some)
  show "P x = None" if "pcbs st x = None" for x
    using left_stays [OF D(6) b left, of x] that left by (cases "x = p") (auto simp: left_family_def)
qed

lemma finish_alone:
  assumes "List_inv (readyList st)" "ready st = []" "threads st (currentThread st) = Some th"
  shows "Thread_Finish (Suc fuel) (\<lambda>_. Inl Halted) k st = Inl Halted"
proof -
  have "FindNextToRun s = Inr (None, s)" if "readyList s = readyList st" for s :: "('a, 'b) Nachos_scheme"
    using FindNextToRun_spec [of s] that assms(1,2) by (simp add: ready_def)
  then show ?thesis using assms(3) by (simp add: Thread_Finish_def Thread_Sleep_def disable_def setStatus_def set_cont_def)
qed

text \<open>What \<^verbatim>\<open>Thread::Finish\<close> leaves when another thread is ready.\<close>

lemma Thread_Finish_detail:
  assumes q: "List_inv (readyList s)" "ready s = n # ts" "distinct (currentThread s # ready s)"
    and th: "threads s (currentThread s) = Some th" "th_stack th \<in> {None, Some STACK_FENCEPOST}"
    and nt: "threads s n = Some nt" "th_space nt = Some spn" "spaces s spn = Some an"
  obtains s2 where "Thread_Finish (Suc fuel) idle k s = Inr s2" "currentThread s2 = n" "ready s2 = ts" "List_inv (readyList s2)"
    "threads s2 n = Some (nt\<lparr>th_status := RUNNING, th_fresh := False\<rparr>)" "\<And>t. t \<in> set ts \<Longrightarrow> threads s2 t = threads s t"
    "\<And>x. threads s x = None \<Longrightarrow> threads s2 x = None"
    "\<And>d. threadToBeDestroyed s2 = Some d \<Longrightarrow> d = currentThread s \<and> threads s2 d \<noteq> None"
    "spaces s2 = spaces s" "pcbs s2 = pcbs s" "processManager s2 = processManager s" "next_obj s2 = next_obj s"
    "kmem s2 = (if th_fresh nt then kmem s else (kmem s)\<lparr>km_machine := resumed_machine nt an (mach s)\<rparr>)"
proof -
  obtain s1 l where f: "Thread_Finish (Suc fuel) idle k s = Inr (s1\<lparr>currentThread := n, threads := switch_threads s1 (the (threads s1 (currentThread s))) n nt,
      kmem := switch_kmem s1 nt, threadToBeDestroyed := (if th_fresh nt then Some (currentThread s) else None),
      level := (if th_fresh nt then IntOn else IntOff)\<rparr>)" (is "_ = Inr ?s2")
    and s1: "s1 = s\<lparr>level := IntOff, threadToBeDestroyed := Some (currentThread s), threads := (threads s)(currentThread s \<mapsto> finishing k s th), readyList := l\<rparr>"
    and l: "List_inv l" "List_items l = ts"
  proof (rule Thread_Finish_spec)
    show "List_inv (readyList s)" "ready s = n # ts" "threads s (currentThread s) = Some th" "threads s n = Some nt" "n \<noteq> currentThread s"
      "\<forall>a. th_space nt = Some a \<longrightarrow> spaces s a \<noteq> None" "th_stack th \<in> {None, Some STACK_FENCEPOST}" using q th nt by auto
  qed blast
  show thesis
  proof (rule that [OF f])
    show "threads ?s2 n = Some (nt\<lparr>th_status := RUNNING, th_fresh := False\<rparr>)" using q(2,3) by (simp, intro switch_threads_new) (auto simp: s1)
    show "threads ?s2 t = threads s t" if "t \<in> set ts" for t using that q(2,3) switch_threads_other [of t n s1 nt] by (auto simp: s1)
    show "threads ?s2 x = None" if "threads s x = None" for x using that th(1) nt(1) by (auto simp: switch_threads_def Let_def s1)
    show "d = currentThread s \<and> threads ?s2 d \<noteq> None" if "threadToBeDestroyed ?s2 = Some d" for d
      using that q(2,3) by (auto simp: switch_threads_def s1 split: if_splits)
    show "kmem ?s2 = (if th_fresh nt then kmem s else (kmem s)\<lparr>km_machine := resumed_machine nt an (mach s)\<rparr>)"
      using nt(2,3) by (simp add: switch_kmem_def s1)
  qed (use l in \<open>simp_all add: s1 ready_def\<close>)
qed

lemma exit_switch_inv:
  assumes inv: "kernel_inv st" "lists_intact st" and th: "threads st (currentThread st) = Some th" and rdy: "ready st = n # ts"
    and s: "s = st\<lparr>processManager := pm, pcbs := P, kmem := km, spaces := (spaces st)(sp := None)\<rparr>"
    and pm: "pm_inv pm" "length (pcbTable pm) = length (pcbTable (processManager st))"
    and L: "families_inv P (pm_live pm)" "links_inv (space_of st) ((spaces st)(sp := None)) P (set (run_queue st) - {currentThread st})"
      "spaces_inv km ((spaces st)(sp := None))"
      "\<And>t th x. t \<in> set (run_queue st) - {currentThread st} \<Longrightarrow> threads st t = Some th \<Longrightarrow> th_space th = Some x \<Longrightarrow> x \<noteq> sp"
      "\<And>x. pcbs st x = None \<Longrightarrow> P x = None"
  shows "\<exists>st'. Thread_Finish (Suc fuel) idle k s = Inr st' \<and> kernel_inv st'"
proof -
  note D = kernel_invD [OF inv(1)]
  have q: "List_inv (readyList st)" "distinct (currentThread st # ready st)" using inv(2) queue_invD(2) [OF D(1)] by (simp_all add: lists_intact_def)
  have Q: "set (run_queue st) - {currentThread st} = set (n # ts)" using q(2) rdy by auto
  note L4 = L(4) [unfolded Q]
  have run: "runnable_ok s t READY" if t: "t \<in> set (n # ts)" for t
  proof (rule runnable_mono [OF queue_invD(4) [OF D(1)]])
    show "spaces s x \<noteq> None" if "threads st t = Some v" "th_space v = Some x" "spaces st x \<noteq> None" for x v
      using L4 [OF t that(1,2)] that(3) by (simp add: s)
  qed (use t rdy in \<open>simp_all add: s\<close>)
  obtain nt spn an where nt: "threads st n = Some nt" "th_space nt = Some spn" "spaces st spn = Some an"
    using running_process [OF inv(1), of n] rdy by (metis list.set_intros(1,2))
  have spn: "spaces s spn = Some an" using L4 [of n nt spn] nt by (simp add: s)
  have wn: "waiting_ok (num_pids st) nt" using D(7) [OF _ nt(1)] rdy by simp
  have fence: "th_stack th \<in> {None, Some STACK_FENCEPOST}" using queue_invD(3) [OF D(1)] th by (auto simp: runnable_ok_def)
  obtain s2 where f: "Thread_Finish (Suc fuel) idle k s = Inr s2" "currentThread s2 = n" "ready s2 = ts" "List_inv (readyList s2)"
      "threads s2 n = Some (nt\<lparr>th_status := RUNNING, th_fresh := False\<rparr>)" "\<And>t. t \<in> set ts \<Longrightarrow> threads s2 t = threads s t"
      "\<And>x. threads s x = None \<Longrightarrow> threads s2 x = None" "\<And>d. threadToBeDestroyed s2 = Some d \<Longrightarrow> d = currentThread s \<and> threads s2 d \<noteq> None"
      "spaces s2 = spaces s" "pcbs s2 = pcbs s" "processManager s2 = processManager s" "next_obj s2 = next_obj s"
      "kmem s2 = (if th_fresh nt then kmem s else (kmem s)\<lparr>km_machine := resumed_machine nt an (mach s)\<rparr>)"
  proof (rule Thread_Finish_detail)
    show "List_inv (readyList s)" "ready s = n # ts" "distinct (currentThread s # ready s)" "threads s (currentThread s) = Some th" "threads s n = Some nt"
      using q rdy th nt(1) by (simp_all add: s ready_def)
  qed (use fence nt(2) spn in blast)+
  have sel: "num_pids s2 = num_pids st" "kmem s = km" "spaces s2 = (spaces st)(sp := None)" "pcbs s2 = P" "processManager s2 = pm" "next_obj s2 = next_obj st" "threads s = threads st"
      "currentThread s = currentThread st"
    using f(9-12) pm(2) by (simp_all add: num_pids_def) (simp_all add: s)
  have cur: "spaces_inv (kmem s2) (spaces s2)" "current_ok s2"
    using switched_ok [of km s2 nt spn an] L(3) f(2,5,13) wn nt(2) spn sel by (simp_all add: s)
  have "kernel_inv s2"
  proof (rule kernel_invI [OF _ _ _ cur(1) _ _ _ cur(2)])
    have "runnable_ok s2 n RUNNING" using run [of n] f(5,9) nt(1) sel(7) unfolding runnable_ok_def by (auto split: option.splits)
    moreover have "runnable_ok s2 t READY" if "t \<in> set ts" for t
      by (rule runnable_mono [OF run [of t]]) (use that f(6,9) in simp_all)
    ultimately show "queue_inv s2" unfolding queue_inv_def f(2,3) using f(4,8) q(2) rdy sel(8) by (auto simp: List_inv_def)
    show "objects_ok s2" using D(2) f(7) L(5) unfolding objects_ok_def sel by simp
    have "space_of s2 t = space_of st t" if "t \<in> set (n # ts)" for t
      using that f(5,6) nt(1) sel(7) by (cases "t = n") (simp_all add: space_of_def)
    then have "links_inv (space_of s2) ((spaces st)(sp := None)) P (set (n # ts))" using links_cong [OF L(2)] unfolding Q by blast
    then show "links_inv (space_of s2) (spaces s2) (pcbs s2) (set (run_queue s2))" unfolding sel f(2,3) .
    show "waiting_ok (num_pids s2) u" if "t \<in> set (ready s2)" "threads s2 t = Some u" for t u
      using that f(3) f(6) [of t] D(7) [of t u] rdy sel by simp
  qed (use L(1) pm(1) sel in simp_all)
  then show ?thesis using f(1) by blast
qed

lemma inv_exit:
  assumes good: "good st"
  shows "sys_exit (Suc fuel) (\<lambda>_. Inl Halted) st = Inl Halted \<or> (\<exists>st'. sys_exit (Suc fuel) (\<lambda>_. Inl Halted) st = Inr st' \<and> kernel_inv st')"
proof -
  let ?c = "currentThread st" and ?idle = "\<lambda>_. Inl Halted"
  note inv = goodD(1) [OF good] goodD(2) [OF good] and D = kernel_invD [OF goodD(1) [OF good]]
  obtain sp a cp b where ip: "in_process st sp a cp b" "processThread b = ?c" "pm_live (processManager st) (processID b) = Some cp"
    by (rule running_in_process [OF inv])
  obtain th where th: "threads st ?c = Some th" "th_space th = Some sp" "spaces st sp = Some a" "as_pcb a = Some cp" "pcbs st cp = Some b"
    by (rule in_processE [OF ip(1)])
  have fam: "family_ok st cp b" by (rule family_of_inv [OF D(6) th(5) refl])
  have live: "pm_live (processManager st) (PCB_getID b) = Some cp" using ip(3) by (simp add: PCB_getID_def)
  obtain P pm mm where e: "sys_exit (Suc fuel) ?idle st = Thread_Finish (Suc fuel) ?idle Finished
       (st\<lparr>processManager := pm, pcbs := P, kmem := left_memory (kmem st) a mm, spaces := (spaces st)(sp := None)\<rparr>)"
    "left_family cp (\<lambda>_. sint (registers (mach st) 4)) b (pcbs st) P" "pm_inv pm" "pm_live pm = (pm_live (processManager st))(PCB_getID b := None)"
    "length (pcbTable pm) = length (pcbTable (processManager st))" "km_ok (left_memory (kmem st) a mm)" "mm_inv mm" "mm_size mm = NumPhysPages"
    "mm_used mm = mm_used (km_mm (kmem st)) - as_frames (kmem st) a"
    by (rule sys_exit_prefix [OF kernel_of_inv [OF inv] ip(1) fam live, of "Suc fuel" ?idle]) blast
  define s where "s = st\<lparr>processManager := pm, pcbs := P, kmem := left_memory (kmem st) a mm, spaces := (spaces st)(sp := None)\<rparr>"
  have W: "space_of st ?c = Some sp" using th(1,2) by (simp add: space_of_def)
  note L = leave_inv [OF inv(1) th(5) e(2) W [folded ip(2)] th(3,4) e(4) [unfolded PCB_getID_def] e(7-9), unfolded ip(2)]
  have "List_inv (readyList st)" using inv(2) by (simp add: lists_intact_def)
  show ?thesis
  proof (cases "ready st")
    case Nil
    have "Thread_Finish (Suc fuel) ?idle Finished s = Inl Halted"
      by (rule finish_alone [where th = th]) (use Nil \<open>List_inv (readyList st)\<close> th(1) in \<open>simp_all add: s_def ready_def\<close>)
    then show ?thesis using e(1) by (simp add: s_def)
  next
    case (Cons n ts)
    show ?thesis using exit_switch_inv [OF inv th(1) Cons s_def e(3,5) L, where idle = ?idle and k = Finished and fuel = fuel] e(1) by (simp add: s_def)
  qed
qed

section \<open>Kill\<close>

lemma kill_other:
  assumes good: "good st" and ip: "in_process st sp a cp b" and kp: "pm_live (processManager st) killID = Some p" "p \<noteq> cp" "killID \<noteq> processID b"
    and r4: "sint (registers (mach st) 4) = killID"
  obtains kb spk ak P pm mm l where "pcbs st p = Some kb" "processID kb = killID" "processThread kb \<in> set (ready st)" "space_of st (processThread kb) = Some spk"
    "spaces st spk = Some ak" "as_pcb ak = Some p" "left_family p childExitValue kb (pcbs st) P" "pm_inv pm" "pm_live pm = (pm_live (processManager st))(processID kb := None)"
    "length (pcbTable pm) = length (pcbTable (processManager st))" "mm_inv mm" "mm_size mm = NumPhysPages" "mm_used mm = mm_used (km_mm (kmem st)) - as_frames (kmem st) ak"
    "List_chain l" "List_items l = remove1 (processThread kb) (ready st)"
    "sys_kill fuel idle st = return_value 0 (st\<lparr>processManager := pm, pcbs := P, kmem := left_memory (kmem st) ak mm, spaces := (spaces st)(spk := None),
       readyList := l, threadToBeDestroyed := Some (processThread kb)\<rparr>)"
proof -
  note D = kernel_invD [OF goodD(1) [OF good]]
  obtain kb where kb: "pcbs st p = Some kb" "processID kb = killID" using families_live [OF D(6) kp(1)] by blast
  obtain spk ak where k: "processThread kb \<in> set (run_queue st)" "space_of st (processThread kb) = Some spk" "spaces st spk = Some ak" "as_pcb ak = Some p"
    by (rule links_pcb [OF D(5) kb(1)])
  have ne: "processThread kb \<noteq> currentThread st" using ip k kp(2) by (auto simp: in_process_def space_of_def)
  obtain kt where kt: "threads st (processThread kb) = Some kt" "th_space kt = Some spk" using k(2) by (auto simp: space_of_Some)
  have fam: "family_ok st p kb" by (rule family_of_inv [OF D(6) kb(1) refl])
  have chl: "List_inv (pcb_children kb)" using goodD(2) [OF good] kb(1) by (simp add: lists_intact_def)
  have as: "as_ok (kmem st) ak" by (rule spaces_invD(3) [OF D(4) k(3)])
  define P1 where "P1 = orphaned (List_items (pcb_children kb)) (pcbs st)"
  have "Some p \<notin> set (List_items (pcb_children kb))" using fam by (auto simp: family_ok_def)
  then have p1: "P1 p = Some kb" using kb(1) by (simp add: P1_def orphaned_def)
  have orph: "orphan_children kb st = Inr (st\<lparr>pcbs := P1\<rparr>)"
    unfolding P1_def using fam by (intro orphan_children_spec [OF chl]) (auto simp: family_ok_def)
  obtain P2 where P2: "(case PCB_getParent kb of None \<Rightarrow> Inr (st\<lparr>pcbs := P1\<rparr>)
            | Some par \<Rightarrow> bindE (get_pcb (Some par) (st\<lparr>pcbs := P1\<rparr>)) (\<lambda>pb. bindE (PCB_removeChild (Some p) pb) (\<lambda>(_, pb).
                Inr (put_pcb par pb (st\<lparr>pcbs := P1\<rparr>))))) = Inr (st\<lparr>pcbs := P1, pcbs := P2\<rparr>)"
      "P2 p = P1 p" "left_family p childExitValue kb (pcbs st) (P2(p := None))"
    by (rule tell_parent [OF fam P1_def, of "st\<lparr>pcbs := P1\<rparr>" "\<lambda>pb. pb" childExitValue]) simp_all
  obtain pm where pm: "drop_pid killID (st\<lparr>pcbs := P2\<rparr>) = Inr (st\<lparr>pcbs := P2, processManager := pm\<rparr>)" "pm_inv pm"
      "pm_live pm = (pm_live (processManager st))(killID := None)" "length (pcbTable pm) = length (pcbTable (processManager st))"
    using drop_pid_spec [of "st\<lparr>pcbs := P2\<rparr>" killID p] D(3) kp(1) by auto
  define s0 where "s0 = st\<lparr>pcbs := P2, processManager := pm\<rparr>"
  have s0: "kmem s0 = kmem st" "spaces s0 = spaces st" by (simp_all add: s0_def)
  obtain mm where rel: "release_space (Some spk) s0 = Inr (s0\<lparr>kmem := (kmem st)\<lparr>km_mm := mm\<rparr>\<rparr>)"
      "\<And>s :: kst. kmem s = (kmem st)\<lparr>km_mm := mm\<rparr> \<Longrightarrow> spaces s = spaces st \<Longrightarrow>
         delete_space (Some spk) s = Inr (s\<lparr>kmem := left_memory (kmem st) ak mm, spaces := (spaces st)(spk := None)\<rparr>)"
      "mm_inv mm" "mm_size mm = NumPhysPages" "mm_used mm = mm_used (km_mm (kmem st)) - as_frames (kmem st) ak"
    using release_delete_space [of s0 ak spk] spaces_invD(1) [OF D(4)] as k(3) unfolding s0 by metis
  obtain kids where destr: "List_destroy (pcb_children kb) = Inr kids" using List_destroy_spec [OF chl] by blast
  obtain r l where l: "List_RemoveElement (processThread kb) (readyList st) = Inr (r, l)" "List_chain l" "List_elems l = remove_item (processThread kb) (List_elems (readyList st))"
    using List_RemoveElement_spec [OF queue_invD(1) [OF D(1)], of "processThread kb"] by blast
  have items: "List_items l = remove1 (processThread kb) (ready st)" using l(3) by (simp add: List_items_def remove_item_items ready_def)
  have "0 \<le> killID \<and> killID < int (length (pcbTable (processManager st)))"
  proof -
    have "0 \<le> killID" "nat killID \<in> BitMap_bits (pm_map (processManager st))" using kp(1) by (auto simp: pm_live_def split: if_splits)
    then show ?thesis using BitMap_bits_subset [of "pm_map (processManager st)"] D(3) by (auto simp: pm_inv_def)
  qed
  then have gp: "getProcess killID (processManager st) = Inr (Some p)" using getProcess_spec [OF D(3), of killID] kp(1) by simp
  have sl: "currentThread st \<noteq> processThread kb" using ne by simp
  have "sys_kill fuel idle st = return_value 0 (st\<lparr>processManager := pm, pcbs := P2(p := None), kmem := left_memory (kmem st) ak mm, spaces := (spaces st)(spk := None),
       readyList := l, threadToBeDestroyed := Some (processThread kb)\<rparr>)"
    using cur_pcb_ok [OF ip] r4 gp kp(3) kb(1) orph p1 P2(1,2) pm(1) kt rel(1) destr l(1)
    by (simp add: sys_kill_def PCB_getID_def Let_def get_pcb_def PCB_getThread_def s0_def delete_pcb_def PCB_destroy_def rel(2) Scheduler_Remove_def)
  then show thesis using that [OF kb _ k(2-4) P2(3) pm(2) _ pm(4) rel(3-5) l(2) items] k(1) ne kb(2) pm(3) by simp
qed

lemma kill_other_inv:
  assumes inv: "kernel_inv st" "in_user st" and kb: "pcbs st p = Some kb" "processThread kb \<in> set (ready st)" "space_of st (processThread kb) = Some spk"
      "spaces st spk = Some ak" "as_pcb ak = Some p" "left_family p f kb (pcbs st) P" "pm_inv pm" "pm_live pm = (pm_live (processManager st))(processID kb := None)"
      "length (pcbTable pm) = length (pcbTable (processManager st))" "mm_inv mm" "mm_size mm = NumPhysPages" "mm_used mm = mm_used (km_mm (kmem st)) - as_frames (kmem st) ak"
      "List_chain l" "List_items l = remove1 (processThread kb) (ready st)"
    and s: "s = st\<lparr>processManager := pm, pcbs := P, kmem := left_memory (kmem st) ak mm, spaces := (spaces st)(spk := None), readyList := l, threadToBeDestroyed := Some (processThread kb)\<rparr>"
  shows "kernel_inv s" "load_ok (registers (mach s))"
proof -
  let ?t = "processThread kb"
  note D = kernel_invD [OF inv(1)] and L = leave_inv [OF inv(1) kb(1,6,3-5,8,10-12)]
  have q: "distinct (run_queue st)" by (rule queue_invD(2) [OF D(1)])
  have rdy: "ready s = remove1 ?t (ready st)" "currentThread s = currentThread st" using kb(14) by (simp_all add: s ready_def)
  have Q: "set (run_queue s) = set (run_queue st) - {?t}" unfolding rdy using q kb(2) by auto
  have keep: "runnable_ok s t x" if "runnable_ok st t x" "t \<in> set (run_queue s)" for t x
  proof (rule runnable_mono [OF that(1)])
    show "spaces s y \<noteq> None" if "threads st t = Some v" "th_space v = Some y" "spaces st y \<noteq> None" for y v
      using L(4) [OF _ that(1,2)] \<open>t \<in> set (run_queue s)\<close> that(3) unfolding Q by (simp add: s)
  qed (simp add: s)
  obtain th sp a where th: "threads st (currentThread st) = Some th" "th_space th = Some sp" "spaces st sp = Some a" "\<not> th_fresh th" "th_cont th \<noteq> Dummy \<Longrightarrow> on_cpu (kmem st) a"
    using currentE [OF inv(1)] by metis
  have user: "th_cont th = User" using inv(2) th(1) by (simp add: in_user_def)
  have cpu: "on_cpu (kmem s) a" using th(5) user by (simp add: on_cpu_def s left_memory_def)
  then show "load_ok (registers (mach s))" by (simp add: on_cpu_def)
  have c: "currentThread st \<in> set (run_queue st) - {?t}" using q kb(2) by auto
  have sp: "sp \<noteq> spk" using L(4) [OF c th(1,2)] .
  show "kernel_inv s"
  proof (rule kernel_invI)
    have "\<exists>kt. threads st ?t = Some kt" using kb(3) by (auto simp: space_of_Some)
    moreover have "runnable_ok s (currentThread s) RUNNING" "\<forall>t \<in> set (ready s). runnable_ok s t READY"
      using keep queue_invD(3,4) [OF D(1)] Q rdy by (auto dest: notin_set_remove1)
    moreover have "distinct (run_queue s)" "?t \<notin> set (run_queue s)" using q Q rdy by (auto dest: notin_set_remove1)
    ultimately show "queue_inv s" unfolding queue_inv_def using kb(13) by (auto simp: s)
    show "objects_ok s" using D(2) L(5) unfolding objects_ok_def by (simp add: s)
    show "spaces_inv (kmem s) (spaces s)" using L(3) by (simp add: s)
    have "space_of s = space_of st" by (simp add: space_of_def fun_eq_iff s)
    then show "links_inv (space_of s) (spaces s) (pcbs s) (set (run_queue s))" unfolding Q using L(2) by (simp add: s)
    show "families_inv (pcbs s) (pm_live (processManager s))" using L(1) by (simp add: s)
    have N: "num_pids s = num_pids st" using kb(9) by (simp add: num_pids_def s)
    show "waiting_ok (num_pids s) u" if "t \<in> set (ready s)" "threads s t = Some u" for t u
      using that D(7) [of t u] rdy(1) N by (auto simp: s dest: notin_set_remove1)
    show "current_ok s" using th(1-4) user cpu sp unfolding current_ok_def by (simp add: s)
  qed (use kb(7) in \<open>simp add: s\<close>)
qed

lemma inv_kill:
  assumes good: "good st"
  shows "sys_kill (Suc fuel) (\<lambda>_. Inl Halted) st \<in> {Inl Halted, Inl AssertFail} \<or> (\<exists>st'. sys_kill (Suc fuel) (\<lambda>_. Inl Halted) st = Inr st' \<and> kernel_inv st')"
proof -
  let ?id = "sint (registers (mach st) 4)" and ?idle = "\<lambda>_. Inl Halted"
  note D = kernel_invD [OF goodD(1) [OF good]]
  obtain sp a cp b where ip: "in_process st sp a cp b" "processThread b = currentThread st" "pm_live (processManager st) (processID b) = Some cp"
    by (rule running_in_process [OF goodD(1) [OF good] goodD(2) [OF good]])
  have b: "pcbs st cp = Some b" using ip(1) by (simp add: in_process_def)
  have call: "sys_kill (Suc fuel) ?idle st = bindE (getProcess ?id (processManager st)) (\<lambda>kp. if kp = None then return_value (-1) st
      else if ?id = processID b then sys_exit (Suc fuel) ?idle st else sys_kill (Suc fuel) ?idle st)"
    using cur_pcb_ok [OF ip(1)] by (cases "getProcess ?id (processManager st)") (auto simp: sys_kill_def PCB_getID_def Let_def)
  show ?thesis
  proof (cases "0 \<le> ?id \<and> ?id < int (length (pcbTable (processManager st)))")
    case False
    then show ?thesis using getProcess_spec [OF D(3), of ?id] call by auto
  next
    case True
    then have gp: "getProcess ?id (processManager st) = Inr (pm_live (processManager st) ?id)" using getProcess_spec [OF D(3), of ?id] by auto
    consider "pm_live (processManager st) ?id = None" | "?id = processID b" "pm_live (processManager st) ?id \<noteq> None" | p where "pm_live (processManager st) ?id = Some p" "?id \<noteq> processID b"
      by fastforce
    then show ?thesis
    proof cases
      case 1
      then show ?thesis using call gp inv_return [OF good, of "-1"] goodD(1) by auto
    next
      case 2
      then show ?thesis using call gp inv_exit [OF good, of fuel] by auto
    next
      case (3 p)
      have ne: "p \<noteq> cp" using families_live [OF D(6) 3(1)] b 3(2) by auto
      show ?thesis
      proof (rule kill_other [OF good ip(1) 3(1) ne 3(2) refl, where fuel = "Suc fuel" and idle = ?idle])
        fix kb spk ak P pm mm l
        assume k: "pcbs st p = Some kb" "processID kb = ?id" "processThread kb \<in> set (ready st)" "space_of st (processThread kb) = Some spk"
          "spaces st spk = Some ak" "as_pcb ak = Some p" "left_family p childExitValue kb (pcbs st) P" "pm_inv pm" "pm_live pm = (pm_live (processManager st))(processID kb := None)"
          "length (pcbTable pm) = length (pcbTable (processManager st))" "mm_inv mm" "mm_size mm = NumPhysPages" "mm_used mm = mm_used (km_mm (kmem st)) - as_frames (kmem st) ak"
          "List_chain l" "List_items l = remove1 (processThread kb) (ready st)"
          "sys_kill (Suc fuel) ?idle st = return_value 0 (st\<lparr>processManager := pm, pcbs := P, kmem := left_memory (kmem st) ak mm, spaces := (spaces st)(spk := None),
             readyList := l, threadToBeDestroyed := Some (processThread kb)\<rparr>)" (is "_ = return_value 0 ?s")
        have u: "in_user st" using good by (simp add: good_def)
        note K = kill_other_inv [OF goodD(1) [OF good] u k(1,3-15) refl]
        have "load_ok (advanced ((registers (mach ?s))(2 := 0)))" using K(2) by (simp add: advanced_def) (simp add: reg_defs)
        then show ?thesis using k(16) inv_put_regs [OF K(1)] unfolding return_value_spec by blast
      qed
    qed
  qed
qed

section \<open>Exec\<close>

text \<open>Reading a file name and loading a segment change memory and use bits, whatever the file and the addresses.\<close>

definition tame :: "Machine \<Rightarrow> Machine \<Rightarrow> bool" where
  "tame m m' \<longleftrightarrow> same_map m m' \<and> registers m' = registers m"

lemma tame_refl [simp]: "tame m m"
  by (simp add: tame_def)

lemma tame_trans: "tame m m' \<Longrightarrow> tame m' m'' \<Longrightarrow> tame m m''"
  using same_map_trans by (auto simp: tame_def)

definition has_table :: "AddrSpace \<Rightarrow> Machine \<Rightarrow> bool" where
  "has_table a m \<longleftrightarrow> (\<exists>t. te_heap m (as_pageTable a) = Some t \<and> length t = unat (numPages a))"

lemma has_table_tame: "has_table a m \<Longrightarrow> tame m m' \<Longrightarrow> has_table a m'"
proof -
  assume "has_table a m" "tame m m'"
  then obtain t where t: "te_heap m (as_pageTable a) = Some t" "length t = unat (numPages a)" "same_map m m'" by (auto simp: has_table_def tame_def)
  obtain t' where t': "te_heap m' (as_pageTable a) = Some t'" "map te_core t' = map te_core t" by (rule same_map_heap [OF t(3,1)])
  show ?thesis using t(2) t'(1) map_te_core_length [OF t'(2)] by (simp add: has_table_def)
qed

lemma has_table_ok: "as_ok km a \<Longrightarrow> has_table a (km_machine km)"
  by (auto simp: as_ok_def has_table_def table_of_def split: option.splits)

lemma Translate_tame:
  assumes "has_table a m"
  obtains p m' where "AddrSpace_Translate v a m = Inr (p, m')" "tame m m'" "v < 0 \<Longrightarrow> p < 0"
proof -
  obtain t where t: "te_heap m (as_pageTable a) = Some t" "length t = unat (numPages a)" using assms by (auto simp: has_table_def)
  let ?i = "nat (v div int PageSize)"
  show thesis
  proof (cases "v < 0 \<or> unat (numPages a) \<le> ?i \<or> \<not> valid (t ! ?i)")
    case True
    then have "AddrSpace_Translate v a m = Inr (-1, m)" using t by (auto simp: AddrSpace_Translate_def get_entry_def read_table_def Let_def)
    then show thesis using that by simp
  next
    case False
    then have i: "?i < length t" using t(2) by simp
    have "te_core ((t ! ?i)\<lparr>use_bit := True\<rparr>) = te_core (t ! ?i)" by (simp add: te_core_def)
    then have "tame m (m\<lparr>te_heap := (te_heap m)(as_pageTable a \<mapsto> t[?i := (t ! ?i)\<lparr>use_bit := True\<rparr>])\<rparr>)"
      using same_map_set_bits [OF t(1) i] by (simp add: tame_def)
    then show thesis using that False t i by (simp add: AddrSpace_Translate_def get_entry_def set_entry_def read_table_def Let_def)
  qed
qed

lemma ReadFileName_tame:
  "has_table a m \<Longrightarrow> case ReadFileName_loop n v a name m of Inl e \<Rightarrow> e = OutOfBounds | Inr (r, nm, m') \<Rightarrow> tame m m'"
proof (induction n arbitrary: v name m)
  case (Suc n)
  obtain p m1 where t: "AddrSpace_Translate v a m = Inr (p, m1)" "tame m m1" by (rule Translate_tame [OF Suc.prems, where v = v])
  note IH = Suc.IH [OF has_table_tame [OF Suc.prems t(2)]]
  show ?case using t IH [of "v + 1" "name @ [mainMemory m1 (nat p)]"]
    by (cases "ReadFileName_loop n (v + 1) a (name @ [mainMemory m1 (nat p)]) m1") (auto simp: Let_def dest: tame_trans)
qed simp

lemma bcopy_in_tame: "bcopy_in buffer k p n m = Inr m' \<Longrightarrow> tame m m'"
  by (auto simp: bcopy_in_def tame_def same_map_def split: if_splits)

lemma ReadFile_tame:
  "has_table a m \<Longrightarrow> nat left < fuel \<Longrightarrow> case ReadFile_loop fuel buffer a v k left m of Inl e \<Rightarrow> e = AssertFail \<or> e = OutOfBounds | Inr (r, m') \<Rightarrow> tame m m'"
proof (induction fuel arbitrary: v k left m)
  case (Suc n)
  show ?case
  proof (cases "left > 0")
    case True
    define rs where "rs = (if left < int PageSize then left else int PageSize - v smod int PageSize)"
    obtain p m1 where t: "AddrSpace_Translate v a m = Inr (p, m1)" "tame m m1" "v < 0 \<Longrightarrow> p < 0" by (rule Translate_tame [OF Suc.prems(1), where v = v]) blast
    have call: "ReadFile_loop (Suc n) buffer a v k left m = bindE (assertE (p \<ge> 0)) (\<lambda>_. bindE (bcopy_in buffer k (nat p) (nat rs) m1) (\<lambda>m2.
        ReadFile_loop n buffer a (v + rs) (k + nat rs) (left - rs) m2))" using True t(1) by (simp add: rs_def Let_def)
    consider "p < 0" | e where "0 \<le> p" "bcopy_in buffer k (nat p) (nat rs) m1 = Inl e" | m2 where "0 \<le> p" "bcopy_in buffer k (nat p) (nat rs) m1 = Inr m2"
      by (cases "bcopy_in buffer k (nat p) (nat rs) m1"; cases "p < 0") auto
    then show ?thesis
    proof cases
      case 1
      then show ?thesis using call by (simp add: assertE_def)
    next
      case (2 e)
      then show ?thesis using call by (auto simp: assertE_def bcopy_in_def split: if_splits)
    next
      case (3 m2)
      have v: "0 \<le> v" using t(3) 3(1) by linarith
      have md: "v mod int PageSize < int PageSize" by (rule pos_mod_bound) simp
      have "1 \<le> rs"
      proof (cases "left < int PageSize")
        case False
        then have "rs = int PageSize - v mod int PageSize" using smod_nonneg [OF v, of "int PageSize"] by (simp add: rs_def)
        then show ?thesis using md by linarith
      qed (use True in \<open>simp add: rs_def\<close>)
      then have "nat (left - rs) < n" using True Suc.prems(2) by linarith
      moreover have m2: "tame m m2" using t(2) bcopy_in_tame [OF 3(2)] tame_trans by blast
      ultimately show ?thesis using Suc.IH [OF has_table_tame [OF Suc.prems(1) m2], of "left - rs" "v + rs" "k + nat rs"] 3 call
        by (cases "ReadFile_loop n buffer a (v + rs) (k + nat rs) (left - rs) m2") (auto simp: assertE_def simp del: ReadFile_loop.simps dest: tame_trans)
    qed
  qed simp
qed simp

lemma load_segment_tame:
  assumes "has_table a (km_machine km)"
  shows "case load_segment sg file a km of Inl e \<Rightarrow> e = AssertFail \<or> e = OutOfBounds | Inr km' \<Rightarrow> (\<exists>m'. km' = km\<lparr>km_machine := m'\<rparr> \<and> tame (km_machine km) m')"
proof -
  have "case AddrSpace_ReadFile va file sz fa a km of Inl e \<Rightarrow> e = AssertFail \<or> e = OutOfBounds
      | Inr (r, km') \<Rightarrow> \<exists>m'. km' = km\<lparr>km_machine := m'\<rparr> \<and> tame (km_machine km) m'" for va sz fa
  proof (cases "fa <s 0")
    case False
    define buffer where "buffer = map (\<lambda>k. if unat fa + k < length file then file ! (unat fa + k) else km_junkb km k) [0..<nat (sint sz)]"
    have "AddrSpace_ReadFile va file sz fa a km = bindE (ReadFile_loop (Suc (nat (sint sz))) buffer a (sint va) 0 (sint sz) (km_machine km)) (\<lambda>(n, m). Inr (n, km\<lparr>km_machine := m\<rparr>))"
      using False by (simp add: AddrSpace_ReadFile_def stub_ReadAt_def buffer_def del: ReadFile_loop.simps)
    then show ?thesis using ReadFile_tame [OF assms, of "sint sz" "Suc (nat (sint sz))" buffer "sint va" 0]
      by (cases "ReadFile_loop (Suc (nat (sint sz))) buffer a (sint va) 0 (sint sz) (km_machine km)") (auto simp del: ReadFile_loop.simps)
  qed (simp add: AddrSpace_ReadFile_def stub_ReadAt_def)
  from this [of "virtualAddr sg" "seg_size sg" "inFileAddr sg"] show ?thesis
    by (cases "AddrSpace_ReadFile (virtualAddr sg) file (seg_size sg) (inFileAddr sg) a km") (auto simp: load_segment_def intro: exI [of _ "km_machine km"])
qed

lemma mm_free_released:
  assumes "km_ok km" "as_ok km a" "mm_size mm = NumPhysPages" "mm_used mm = mm_used (km_mm km) - as_frames km a"
  shows "mm_free mm = mm_free (km_mm km) + unat (numPages a)"
proof -
  have mm: "mm_inv (km_mm km)" "mm_size (km_mm km) = NumPhysPages" using assms(1) by (auto simp: km_ok_def)
  have sub: "as_frames km a \<subseteq> mm_used (km_mm km)" using as_okE [OF assms(2)] by (metis as_frames_def option.case(2))
  have "card (mm_used mm) = card (mm_used (km_mm km)) - unat (numPages a)"
    using sub assms(4) as_frames_card [OF assms(2)] mm_used_finite [OF mm(1)] by (simp add: card_Diff_subset finite_subset)
  moreover have "card (as_frames km a) \<le> card (mm_used (km_mm km))" by (rule card_mono [OF mm_used_finite [OF mm(1)] sub])
  moreover have "card (mm_used (km_mm km)) \<le> NumPhysPages" using card_mono [OF _ mm_used_bounds [OF mm(1)]] mm(2) by simp
  ultimately show ?thesis using mm(2) assms(3) as_frames_card [OF assms(2)] by (simp add: mm_free_def)
qed

text \<open>A new table whose pages are taken from the memory manager.\<close>

lemma fresh_space:
  assumes "spaces_inv km S" "S sp = None" "unat n \<le> mm_free (km_mm km)" "new_table (unat n) km = (pt, km1)" "as_pageTable a = pt" "numPages a = n"
  obtains km2 where "InitializePageTable a km1 = Inr km2" "spaces_inv km2 (S(sp \<mapsto> a))" "cpu_state (km_machine km2) = cpu_state (km_machine km)"
proof -
  have km: "km_ok km" by (rule spaces_invD(1) [OF assms(1)])
  note nt = new_table_ok [OF km assms(4)]
  have T: "table_of km1 a = Some (map (km_junk km) [0..<unat n])" using nt(2) assms(5) by (simp add: table_of_def)
  obtain fs mm where i: "InitializePageTable a km1 = Inr (after_pages km1 (as_pageTable a) fresh_entry (\<lambda>_ _. 0) (map (km_junk km) [0..<unat n]) fs mm)"
      "pages_given km1 fs mm" "length fs = unat (numPages a)"
    by (rule InitializePageTable_spec [OF nt(1) T]) (use assms(3,6) nt(4) in simp_all)
  define km2 where "km2 = after_pages km1 pt fresh_entry (\<lambda>_ _. 0) (map (km_junk km) [0..<unat n]) fs mm"
  have next1: "pt < km_next km1" using assms(4) by (auto simp: new_table_def)
  have new: "km_ok km2" "as_ok km2 a" "as_frames km2 a = set fs"
    using after_pages_new [OF i(2) _ nt(1) assms(5) _ _ next1 km2_def] i(3) assms(6) by (simp_all add: fresh_entry_def)
  have old: "as_ok km2 c \<and> as_frames km2 c = as_frames km c" if c: "as_ok km c" for c
  proof -
    obtain tc where tc: "table_of km c = Some tc" using as_okE [OF c] by metis
    have ne: "as_pageTable c \<noteq> pt" using table_not_next [OF km tc] nt(3) by simp
    have "as_ok km1 c" "as_frames km1 c = as_frames km c" using c tc nt(4) nt(6) [OF ne] by (simp_all add: as_ok_def as_frames_def table_of_def)
    then show ?thesis using after_pages_others(1) [OF i(2) _ ne] unfolding km2_def by (simp add: as_same_def)
  qed
  have cpu: "cpu_state (km_machine km2) = cpu_state (km_machine km)" using assms(4) by (auto simp: km2_def after_pages_def new_table_def cpu_state_def)
  have "spaces_inv km2 (S(sp \<mapsto> a))"
  proof (rule spaces_add [OF assms(1,2) new(1) _ new(2)])
    show "tlb (km_machine km2) = None" using cpu_state_eqD(2) [OF cpu] spaces_invD(2) [OF assms(1)] by simp
    show "as_pageTable a = km_next km" using assms(5) nt(3) by simp
    show "as_frames km2 a \<inter> mm_used (km_mm km) = {}" using new(3) i(2) nt(4) by (simp add: pages_given_def)
  qed (use old in blast)
  then show thesis using that i(1) cpu by (simp add: km2_def assms(5))
qed

lemma tame_spaces: "spaces_inv km S \<Longrightarrow> tame (km_machine km) m' \<Longrightarrow> spaces_inv (km\<lparr>km_machine := m'\<rparr>) S"
  by (rule spaces_same_heap(1)) (auto simp: tame_def same_heap_of_map)

lemma load_header_outcome: "load_header file km = Inl AssertFail \<or> (\<exists>h. load_header file km = Inr h)"
  by (auto simp: load_header_def stub_ReadAt_def assertE_def Let_def)

lemma load_two_tame:
  assumes "spaces_inv km S" "S sp = Some a"
  shows "case bindE (load_segment s1 img a km) (load_segment s2 img a) of Inl e \<Rightarrow> e = AssertFail \<or> e = OutOfBounds
    | Inr km' \<Rightarrow> \<exists>m'. km' = km\<lparr>km_machine := m'\<rparr> \<and> tame (km_machine km) m'"
proof -
  have T: "has_table a (km_machine km)" by (rule has_table_ok [OF spaces_invD(3) [OF assms]])
  show ?thesis
  proof (cases "load_segment s1 img a km")
    case (Inl e)
    then show ?thesis using load_segment_tame [OF T, of s1 img] by simp
  next
    case (Inr km1)
    then obtain m1 where m1: "km1 = km\<lparr>km_machine := m1\<rparr>" "tame (km_machine km) m1" using load_segment_tame [OF T, of s1 img] by auto
    have "has_table a (km_machine km1)" using has_table_tame [OF T m1(2)] m1(1) by simp
    from load_segment_tame [OF this, of s2 img] show ?thesis using Inr m1 by (cases "load_segment s2 img a km1") (auto dest: tame_trans)
  qed
qed

definition replaced_ok :: "KMem \<Rightarrow> (nat \<Rightarrow> AddrSpace option) \<Rightarrow> nat \<Rightarrow> AddrSpace \<Rightarrow> AddrSpace \<Rightarrow> KMem \<Rightarrow> bool" where
  "replaced_ok km S sp a a' km' \<longleftrightarrow> spaces_inv km' (S(sp \<mapsto> a')) \<and> as_pcb a' = as_pcb a \<and> (on_cpu km a \<longrightarrow> on_cpu km' a')"

lemma Replace_new:
  assumes S: "spaces_inv km S" "S sp = Some a" and n: "\<not> of_nat (mm_free (km_mm km)) < n - numPages a"
  shows "case bindE (ReleasePhysicalMemory a km) (\<lambda>km1. bindE (delete_table (as_pageTable a) km1) (\<lambda>km2.
           let (pt, km3) = new_table (unat n) km2; a' = a\<lparr>numPages := n, as_pageTable := pt\<rparr> in
           bindE (InitializePageTable a' km3) (\<lambda>km4.
           bindE (load_segment s1 img a' km4) (\<lambda>km5.
           bindE (load_segment s2 img a' km5) (\<lambda>km6.
           bindE (AddrSpace_InitRegisters a' (km_machine km6)) (\<lambda>m7.
           Inr (True, a', km6\<lparr>km_machine := AddrSpace_RestoreState a' m7\<rparr>))))))) of
      Inl e \<Rightarrow> e = AssertFail \<or> e = OutOfBounds | Inr (ok, a', km') \<Rightarrow> replaced_ok km S sp a a' km'"
proof -
  note km = spaces_invD(1) [OF S(1)] and a = spaces_invD(3) [OF S]
  have mi: "mm_inv (km_mm km)" using km by (simp add: km_ok_def)
  obtain mm where rel: "ReleasePhysicalMemory a km = Inr (km\<lparr>km_mm := mm\<rparr>)" "mm_inv mm" "mm_size mm = NumPhysPages" "mm_used mm = mm_used (km_mm km) - as_frames km a"
    by (rule ReleasePhysicalMemory_spec [OF km a])
  obtain t where "table_of km a = Some t" using as_okE [OF a] by metis
  then have del: "delete_table (as_pageTable a) (km\<lparr>km_mm := mm\<rparr>) = Inr (left_memory km a mm)" by (simp add: delete_table_def read_table_def table_of_def left_memory_def)
  have S2: "spaces_inv (left_memory km a mm) (S(sp := None))" by (rule spaces_drop(1) [OF S rel(2-4)])
  have "unat (n - numPages a) \<le> mm_free (km_mm km)" using n unat_mm_free [OF mi] by (simp add: word_less_nat_alt)
  moreover have "unat (n - numPages a) = unat n - unat (numPages a)" if "numPages a \<le> n" using that by (simp add: unat_sub)
  moreover have "unat n < unat (numPages a)" if "\<not> numPages a \<le> n" using that by (simp add: word_le_nat_alt)
  ultimately have "unat n \<le> mm_free (km_mm km) + unat (numPages a)" by (cases "numPages a \<le> n") auto
  then have free: "unat n \<le> mm_free (km_mm (left_memory km a mm))" using mm_free_released [OF km a rel(3,4)] by (simp add: left_memory_def)
  obtain pt km3 where nt: "new_table (unat n) (left_memory km a mm) = (pt, km3)" by fastforce
  define a' where "a' = a\<lparr>numPages := n, as_pageTable := pt\<rparr>"
  obtain km4 where i: "InitializePageTable a' km3 = Inr km4" "spaces_inv km4 (S(sp := None, sp \<mapsto> a'))"
    by (rule fresh_space [OF S2 _ free nt, of sp a']) (simp_all add: a'_def)
  have S4: "spaces_inv km4 (S(sp \<mapsto> a'))" using i(2) by simp
  have seg: "case bindE (load_segment s1 img a' km4) (load_segment s2 img a') of Inl e \<Rightarrow> e = AssertFail \<or> e = OutOfBounds
      | Inr km' \<Rightarrow> \<exists>m'. km' = km4\<lparr>km_machine := m'\<rparr> \<and> tame (km_machine km4) m'"
    by (rule load_two_tame [OF S4, of sp]) simp
  have fin: "replaced_ok km S sp a a' (km4\<lparr>km_machine := AddrSpace_RestoreState a' (m'\<lparr>registers := R\<rparr>)\<rparr>)" if "tame (km_machine km4) m'" "load_ok R" for m' R
  proof -
    have "same_heap (km_machine (km4\<lparr>km_machine := m'\<rparr>)) (AddrSpace_RestoreState a' (m'\<lparr>registers := R\<rparr>))" by simp
    from spaces_same_heap(1) [OF tame_spaces [OF S4 that(1)] this] show ?thesis using that(2)
      by (simp add: replaced_ok_def on_cpu_def AddrSpace_RestoreState_def a'_def)
  qed
  have load0: "load_ok ((\<lambda>i. if i < NumTotalRegs then 0 else Q i)(PCReg := 0, NextPCReg := 4, StackReg := x))" for Q x by (simp add: reg_defs)
  have call: "bindE (ReleasePhysicalMemory a km) (\<lambda>km1. bindE (delete_table (as_pageTable a) km1) (\<lambda>km2.
           let (pt, km3) = new_table (unat n) km2; a' = a\<lparr>numPages := n, as_pageTable := pt\<rparr> in
           bindE (InitializePageTable a' km3) (\<lambda>km4.
           bindE (load_segment s1 img a' km4) (\<lambda>km5.
           bindE (load_segment s2 img a' km5) (\<lambda>km6.
           bindE (AddrSpace_InitRegisters a' (km_machine km6)) (\<lambda>m7.
           Inr (True, a', km6\<lparr>km_machine := AddrSpace_RestoreState a' m7\<rparr>)))))))
      = bindE (bindE (load_segment s1 img a' km4) (load_segment s2 img a')) (\<lambda>km6. bindE (AddrSpace_InitRegisters a' (km_machine km6)) (\<lambda>m7.
           Inr (True, a', km6\<lparr>km_machine := AddrSpace_RestoreState a' m7\<rparr>)))"
    using rel(1) del nt i(1) by (simp add: a'_def bindE_assoc Let_def)
  show ?thesis unfolding call using seg fin load0
    by (cases "bindE (load_segment s1 img a' km4) (load_segment s2 img a')") (auto simp: InitRegisters_spec)
qed

lemma c_string_outcome: "c_string n j s = Inl OutOfBounds \<or> (\<exists>f. c_string n j s = Inr f)"
  by (simp add: c_string_def Let_def)

lemma Replace_call:
  "ReadFileName v 128 a (km_machine km) = Inr (x, name, m) \<Longrightarrow> km1 = km\<lparr>km_machine := m\<rparr> \<Longrightarrow> mm_inv (km_mm km1) \<Longrightarrow>
   AddrSpace_Replace fs_Open v a km = bindE (c_string 128 (km_junkb km1) name) (\<lambda>fileName.
     case fs_Open fileName of
       None \<Rightarrow> Inr (False, a, km1)
     | Some executable \<Rightarrow>
         bindE (load_header executable km1) (\<lambda>h.
         if of_nat (mm_free (km_mm km1)) < pages_of h - numPages a then Inr (False, a, km1)
         else
           bindE (ReleasePhysicalMemory a km1) (\<lambda>km1.
           bindE (delete_table (as_pageTable a) km1) (\<lambda>km2.
           let (pt, km3) = new_table (unat (pages_of h)) km2;
               a' = a\<lparr>numPages := pages_of h, as_pageTable := pt\<rparr> in
           bindE (InitializePageTable a' km3) (\<lambda>km4.
           bindE (load_segment (code_seg h) executable a' km4) (\<lambda>km5.
           bindE (load_segment (initData h) executable a' km5) (\<lambda>km6.
           bindE (AddrSpace_InitRegisters a' (km_machine km6)) (\<lambda>m7.
           Inr (True, a', km6\<lparr>km_machine := AddrSpace_RestoreState a' m7\<rparr>)))))))))"
  by (simp add: AddrSpace_Replace_def MemoryManager_getFree_spec Let_def cong: option.case_cong if_cong)

lemma Replace_outcome:
  assumes "spaces_inv km S" "S sp = Some a"
  shows "case AddrSpace_Replace fs_Open v a km of Inl e \<Rightarrow> e = AssertFail \<or> e = OutOfBounds | Inr (ok, a', km') \<Rightarrow> replaced_ok km S sp a a' km'"
proof -
  have T: "has_table a (km_machine km)" by (rule has_table_ok [OF spaces_invD(3) [OF assms]])
  show ?thesis
  proof (cases "ReadFileName v 128 a (km_machine km)")
    case (Inl e)
    then show ?thesis using ReadFileName_tame [OF T, of 128 v "[]"] by (simp add: AddrSpace_Replace_def ReadFileName_def)
  next
    case (Inr r)
    obtain x name m where r: "r = (x, name, m)" by (cases r)
    have m: "tame (km_machine km) m" using ReadFileName_tame [OF T, of 128 v "[]"] Inr r by (simp add: ReadFileName_def)
    define km1 where "km1 = km\<lparr>km_machine := m\<rparr>"
    have S1: "spaces_inv km1 S" unfolding km1_def by (rule tame_spaces [OF assms(1) m])
    have S_same: "S(sp \<mapsto> a) = S" using assms(2) by (simp add: fun_upd_idem)
    have cpu: "on_cpu km x \<longleftrightarrow> on_cpu km1 x" for x using m by (auto simp: on_cpu_def km1_def tame_def same_map_def)
    have same: "replaced_ok km S sp a a km1" using S1 S_same cpu by (simp add: replaced_ok_def)
    have carry: "replaced_ok km S sp a a' km'" if "replaced_ok km1 S sp a a' km'" for a' km' using that cpu by (simp add: replaced_ok_def)
    have mi: "mm_inv (km_mm km1)" using spaces_invD(1) [OF S1] by (simp add: km_ok_def)
    note call = Replace_call [OF Inr [unfolded r] km1_def mi]
    consider "c_string 128 (km_junkb km1) name = Inl OutOfBounds" | fileName where "c_string 128 (km_junkb km1) name = Inr fileName"
      using c_string_outcome by blast
    then show ?thesis
    proof cases
      case (2 fileName)
      show ?thesis
      proof (cases "fs_Open fileName")
        case (Some executable)
        consider "load_header executable km1 = Inl AssertFail" | h where "load_header executable km1 = Inr h" using load_header_outcome by blast
        then show ?thesis
        proof cases
          case h: (2 h)
          show ?thesis
          proof (cases "of_nat (mm_free (km_mm km1)) < pages_of h - numPages a")
            case False
            have "case AddrSpace_Replace fs_Open v a km of Inl e \<Rightarrow> e = AssertFail \<or> e = OutOfBounds | Inr (ok, a', km') \<Rightarrow> replaced_ok km1 S sp a a' km'"
              unfolding call using Replace_new [OF S1 assms(2) False, of "code_seg h" executable "initData h"] 2 Some h False by simp
            then show ?thesis using carry by (auto split: sum.splits)
          qed (simp add: call 2 Some h same)
        qed (simp add: call 2 Some)
      qed (simp add: call 2 same)
    qed (simp add: call)
  qed
qed

section \<open>Every step of the kernel\<close>

text \<open>A call either stops the simulation in one of the ways the code foresees, \<^verbatim>\<open>Halt\<close> or a failed \<^verbatim>\<open>ASSERT\<close>, or returns a state in order.\<close>

definition stops :: "nachos_error \<Rightarrow> bool" where
  "stops e \<longleftrightarrow> e = Halted \<or> e = AssertFail"

definition safe :: "kst res \<Rightarrow> bool" where
  "safe r = (case r of Inl e \<Rightarrow> stops e | Inr st \<Rightarrow> kernel_inv st)"

lemma stops_simps [simp]: "stops Halted" "stops AssertFail" "\<not> stops OutOfBounds" "\<not> stops NullDeref" "\<not> stops DanglingPointer" "\<not> stops OutOfFuel" "\<not> stops Suspended"
  by (simp_all add: stops_def)

lemma safe_simps [simp]: "safe (Inl e) = stops e" "safe (Inr st) = kernel_inv st"
  by (simp_all add: safe_def)

lemma safeI: "\<exists>st'. r = Inr st' \<and> good st' \<Longrightarrow> safe r" "\<exists>st'. r = Inr st' \<and> kernel_inv st' \<and> lists_intact st' \<Longrightarrow> safe r"
  by (auto dest: goodD(1))

lemma safe_return: "good st \<Longrightarrow> safe (return_value v st)"
  by (rule safeI(1) [OF inv_return])

text \<open>Exec. It is the only call that may leave an array: the code bounds neither the file name nor the segments it copies.\<close>

lemma links_replace:
  assumes "links_inv W S P Q" "S sp = Some a" "as_pcb a' = as_pcb a"
  shows "links_inv W (S(sp \<mapsto> a')) P Q"
proof -
  have keep: "\<exists>c'. (S(sp \<mapsto> a')) x = Some c' \<and> as_pcb c' = as_pcb c" if "S x = Some c" for x c using that assms(2,3) by auto
  have "\<exists>sp' c p b. W t = Some sp' \<and> (S(sp \<mapsto> a')) sp' = Some c \<and> as_pcb c = Some p \<and> P p = Some b \<and> processThread b = t" if t: "t \<in> Q" for t
    using links_thread [OF assms(1) t] keep by metis
  moreover have "processThread b \<in> Q \<and> (\<exists>sp' c. W (processThread b) = Some sp' \<and> (S(sp \<mapsto> a')) sp' = Some c \<and> as_pcb c = Some p)" if b: "P p = Some b" for p b
    using links_pcb [OF assms(1) b] keep by metis
  ultimately show ?thesis unfolding links_inv_def by blast
qed

lemma replaced_good:
  assumes "good st" "threads st (currentThread st) = Some th" "th_space th = Some sp" "spaces st sp = Some a"
    "replaced_ok (kmem st) (spaces st) sp a a' km'"
  shows "good (st\<lparr>kmem := km', spaces := (spaces st)(sp \<mapsto> a')\<rparr>)" (is "good ?s")
proof -
  note D = kernel_invD [OF goodD(1) [OF assms(1)]]
  note R = assms(5) [unfolded replaced_ok_def]
  have cpu: "on_cpu (kmem st) a" by (rule good_cpu [OF assms(1)]) (use assms(2-4) in simp)
  have "kernel_inv ?s"
  proof (rule kernel_invI)
    have run: "runnable_ok ?s t x" if "runnable_ok st t x" for t x by (rule runnable_mono [OF that]) auto
    show "queue_inv ?s" using D(1) run unfolding queue_inv_def by (auto simp: ready_def)
    show "objects_ok ?s" using D(2) objects_lt(2) [OF D(2) assms(4)] unfolding objects_ok_def by auto
    have "space_of ?s = space_of st" by (simp add: space_of_def fun_eq_iff)
    then show "links_inv (space_of ?s) (spaces ?s) (pcbs ?s) (set (run_queue ?s))" using links_replace [OF D(5) assms(4)] R by (simp add: ready_def)
    show "waiting_ok (num_pids ?s) u" if "t \<in> set (ready ?s)" "threads ?s t = Some u" for t u
      using that D(7) [of t u] by (simp add: ready_def num_pids_def)
    show "current_ok ?s" using D(8) R cpu assms(2,3) goodD(3) [OF assms(1,2)] unfolding current_ok_def num_pids_def by auto
  qed (use D R in simp_all)
  then show ?thesis using goodD [OF assms(1)] by (simp add: good_def in_user_def lists_intact_def)
qed

lemma inv_exec:
  assumes "good st"
  shows "sys_exec fs_Open st = Inl OutOfBounds \<or> safe (sys_exec fs_Open st)"
proof -
  note D = kernel_invD [OF goodD(1) [OF assms]]
  obtain sp a cp b where ip: "in_process st sp a cp b" by (rule running_in_process [OF goodD(1) [OF assms] goodD(2) [OF assms]])
  obtain th where th: "threads st (currentThread st) = Some th" "th_space th = Some sp" "spaces st sp = Some a" by (rule in_processE [OF ip])
  let ?r = "AddrSpace_Replace fs_Open (sint (registers (mach st) 4)) a (kmem st)"
  note out = Replace_outcome [OF D(4) th(3), of fs_Open "sint (registers (mach st) 4)"]
  show ?thesis
  proof (cases ?r)
    case (Inl e)
    then show ?thesis using out cur_pcb_ok [OF ip] cur_space_ok [OF ip] by (auto simp: sys_exec_def stops_def)
  next
    case (Inr r)
    obtain ok a' km' where r: "r = (ok, a', km')" by (cases r)
    let ?s = "st\<lparr>kmem := km', spaces := (spaces st)(sp \<mapsto> a')\<rparr>"
    have g: "good ?s" using replaced_good [OF assms th] out Inr r by simp
    have "sys_exec fs_Open st = return_value (if ok then 1 else -1) ?s"
      using Inr r cur_pcb_ok [OF ip] cur_space_ok [OF ip] by (simp add: sys_exec_def return_value_def)
    then show ?thesis using safe_return [OF g] by simp
  qed
qed

text \<open>Join.\<close>

lemma inv_join:
  assumes "good st"
  shows "safe (sys_join st)"
proof -
  let ?pid = "sint (registers (mach st) 4)"
  note D = kernel_invD [OF goodD(1) [OF assms]]
  obtain sp a cp b where ip: "in_process st sp a cp b" by (rule running_in_process [OF goodD(1) [OF assms] goodD(2) [OF assms]])
  obtain th where "List_inv (pcb_children b)" by (rule in_processE [OF ip])
  then have "List_chain (pcb_children b)" by (simp add: List_inv_def)
  note child = List_Search_spec [OF this]
  have "safe (join_test ?pid st)" if "0 \<le> ?pid" "?pid < int (length (pcbTable (processManager st)))"
    using inv_join_test [OF assms, of ?pid] that by (auto simp: num_pids_def)
  then show ?thesis using safe_return [OF assms] cur_pcb_ok [OF ip] getProcess_spec [OF D(3), of ?pid]
    by (simp add: sys_join_def PCB_isChild_def child Let_def)
qed

text \<open>The exception handler and a step of the running thread.\<close>

lemma inv_sys_yield:
  assumes "good st"
  shows "safe (sys_yield st)"
proof -
  obtain sp a cp b where ip: "in_process st sp a cp b" by (rule running_in_process [OF goodD(1) [OF assms] goodD(2) [OF assms]])
  have "safe (Thread_Yield AfterYield st)" by (rule safeI(2) [OF inv_yield [OF goodD(1) [OF assms] goodD(2) [OF assms]]]) (auto dest: goodD(3) [OF assms])
  then show ?thesis using cur_pcb_ok [OF ip] by (simp add: sys_yield_def)
qed

lemma handler_safe:
  assumes "good st"
  shows "safe (ExceptionHandler junk fs_Open (Suc fuel) (\<lambda>_. Inl Halted) which st)
    \<or> ExceptionHandler junk fs_Open (Suc fuel) (\<lambda>_. Inl Halted) which st = Inl OutOfBounds \<and> which = SyscallException \<and> sint (registers (mach st) 2) = SC_Exec"
proof -
  have "safe (sys_fork junk st)" by (rule safeI(1) [OF inv_fork [OF assms]])
  moreover have "safe (sys_exit (Suc fuel) (\<lambda>_. Inl Halted) st)" "safe (sys_kill (Suc fuel) (\<lambda>_. Inl Halted) st)"
    using inv_exit [OF assms, of fuel] inv_kill [OF assms, of fuel] by auto
  ultimately show ?thesis using inv_sys_yield [OF assms] inv_exec [OF assms, of fs_Open] inv_join [OF assms] goodD(1) [OF assms]
    by (auto simp: ExceptionHandler_def Let_def)
qed

lemma good_cpu_inv: "good st \<Longrightarrow> cpu_inv (mach st)"
proof -
  assume good: "good st"
  note S = kernel_invD(4) [OF goodD(1) [OF good]]
  obtain th sp a where a: "spaces st sp = Some a" "on_cpu (kmem st) a" by (rule good_cpu [OF good])
  have "has_table a (mach st)" by (rule has_table_ok [OF spaces_invD(3) [OF S a(1)]])
  then show ?thesis using a(2) spaces_invD(2) [OF S] by (auto simp: cpu_inv_def tables_ok_def on_cpu_def has_table_def)
qed

lemma bindE_Inr_right: "bindE m Inr = m"
  by (cases m) simp_all

text \<open>The next instruction of the user program is the system call Exec.\<close>

definition calls_exec :: "kst \<Rightarrow> bool" where
  "calls_exec st \<longleftrightarrow> map_option th_cont (threads st (currentThread st)) = Some User
     \<and> (case OneInstruction (mach st) of Inr (Some (which, _), m) \<Rightarrow> which = SyscallException \<and> sint (registers m 2) = SC_Exec | _ \<Rightarrow> False)"

definition safe_but_exec :: "kst \<Rightarrow> kst res \<Rightarrow> bool" where
  "safe_but_exec st r \<longleftrightarrow> safe r \<or> r = Inl OutOfBounds \<and> calls_exec st"

lemma user_step_safe:
  assumes "good st"
  shows "safe_but_exec st (Run_step mach put_machine (ExceptionHandler junk fs_Open (Suc fuel) (\<lambda>_. Inl Halted)) Inr st)"
proof (cases "OneInstruction (mach st)")
  case (Inl e)
  then show ?thesis using OneInstruction_outcome [OF good_cpu_inv [OF assms]] by (simp add: Run_step_def safe_but_exec_def)
next
  case (Inr r)
  obtain t m where r: "r = (t, m)" by (cases r)
  have m: "cpu_inv m" "same_map (mach st) m" using OneInstruction_outcome [OF good_cpu_inv [OF assms]] Inr r by (auto simp: confined_def)
  have "good (put_machine m st)" using inv_put_machine [OF goodD(1) [OF assms] m(2)] m(1) goodD [OF assms] by (simp add: good_def in_user_def cpu_inv_def)
  then have g: "good (put_machine m st)" .
  show ?thesis
  proof (cases t)
    case None
    then show ?thesis using Inr r goodD(1) [OF g] by (simp add: Run_step_def safe_but_exec_def)
  next
    case (Some x)
    obtain which v where x: "x = (which, v)" by (cases x)
    obtain th where "threads st (currentThread st) = Some th" "th_cont th = User" by (rule good_cpu [OF assms])
    then show ?thesis using Inr r Some x handler_safe [OF g, of junk fs_Open fuel which]
      by (auto simp: Run_step_def bindE_Inr_right safe_but_exec_def calls_exec_def put_machine_def)
  qed
qed

lemma thread_step_safe:
  assumes "kernel_inv st" "lists_intact st"
  shows "safe_but_exec st (thread_step junk fs_Open (Suc fuel) (\<lambda>_. Inl Halted) st)"
proof -
  obtain th where th: "threads st (currentThread st) = Some th" "cont_ok (num_pids st) (th_cont th) (th_levels th)" using currentE [OF assms(1)] by metis
  have get: "get_thread (currentThread st) st = Inr th" using th(1) by (simp add: get_thread_def)
  show ?thesis
  proof (cases "th_cont th")
    case User
    then have "good st" using assms th(1) by (simp add: good_def in_user_def)
    then show ?thesis using User get user_step_safe by (simp add: thread_step_def)
  next
    case AfterYield
    then show ?thesis using safeI(1) [OF inv_after_yield [OF assms th(1)]] get by (simp add: thread_step_def safe_but_exec_def)
  next
    case (JoinLoop pid)
    then show ?thesis using safeI(2) [OF inv_join_loop [OF assms th(1)]] get by (simp add: thread_step_def safe_but_exec_def)
  next
    case Dummy
    then show ?thesis using safeI(1) [OF inv_dummy [OF assms th(1)]] get by (simp add: thread_step_def safe_but_exec_def)
  next
    case Finished
    then show ?thesis using th(2) by simp
  next
    case Preempted
    then show ?thesis using safeI(1) [OF inv_preempted [OF assms th(1)]] get by (simp add: thread_step_def safe_but_exec_def)
  qed
qed

end
