(* ===== verification/Startup.thy ===== *)
theory Startup
  imports KernelInv
begin

text \<open>
  Start-up: the command line as \<^verbatim>\<open>threads/main.cc\<close> and \<^verbatim>\<open>Initialize\<close> of \<^verbatim>\<open>threads/system.cc\<close> read it, the debugging
  flags of \<^verbatim>\<open>threads/utility.cc\<close>, the construction of the kernel, the first process, and the runs of the kernel from there.
\<close>

section \<open>The command line\<close>

text \<open>The preprocessor symbols that select the parts of the kernel, and the kernels the makefiles build.\<close>

record Build =
  THREADS :: bool
  HW1_ELEVATOR :: bool
  USER_PROGRAM :: bool
  FILESYS_NEEDED :: bool
  FILESYS :: bool
  NETWORK :: bool

definition userprog_build :: Build where
  "userprog_build = \<lparr>THREADS = False, HW1_ELEVATOR = False, USER_PROGRAM = True, FILESYS_NEEDED = True, FILESYS = False, NETWORK = False\<rparr>"

definition filesys_build :: Build where
  "filesys_build = \<lparr>THREADS = True, HW1_ELEVATOR = False, USER_PROGRAM = True, FILESYS_NEEDED = True, FILESYS = True, NETWORK = False\<rparr>"

definition network_build :: Build where
  "network_build = \<lparr>THREADS = False, HW1_ELEVATOR = False, USER_PROGRAM = True, FILESYS_NEEDED = True, FILESYS = True, NETWORK = True\<rparr>"

text \<open>\<^verbatim>\<open>atoi\<close> of the C library: blanks, a sign, and the digits up to the first other character.\<close>

definition is_digit :: "char \<Rightarrow> bool" where
  "is_digit c \<longleftrightarrow> of_char CHR ''0'' \<le> (of_char c :: nat) \<and> (of_char c :: nat) \<le> of_char CHR ''9''"

definition leading_number :: "string \<Rightarrow> int" where
  "leading_number s = foldl (\<lambda>n c. 10 * n + (of_char c - of_char CHR ''0'')) 0 (takeWhile is_digit s)"

definition is_blank :: "char \<Rightarrow> bool" where
  "is_blank c \<longleftrightarrow> (of_char c :: nat) \<in> {9, 10, 11, 12, 13, 32}"

definition atoi :: "string \<Rightarrow> int" where
  "atoi s = (case dropWhile is_blank s of
     [] \<Rightarrow> 0
   | c # s' \<Rightarrow> if c = CHR ''-'' then - leading_number s' else if c = CHR ''+'' then leading_number s' else leading_number (c # s'))"

text \<open>What \<^verbatim>\<open>Initialize\<close> reads from the command line; \<open>seed\<close> is the argument of \<^verbatim>\<open>RandomInit\<close>, \<open>rely\<close> the text given to \<^verbatim>\<open>atof\<close>.\<close>

record Options =
  debugArgs :: string
  randomYield :: bool
  seed :: "int option"
  debugUserProg :: bool
  format :: bool
  rely :: "string option"
  netname :: int

definition no_options :: Options where
  "no_options = \<lparr>debugArgs = [], randomYield = False, seed = None, debugUserProg = False, format = False, rely = None, netname = 0\<rparr>"

text \<open>The argument after a flag that needs one.\<close>

definition operand :: "string list \<Rightarrow> string res" where
  "operand rest = bindE (assertE (rest \<noteq> [])) (\<lambda>_. Inr (hd rest))"

fun Initialize_args :: "Build \<Rightarrow> string list \<Rightarrow> Options \<Rightarrow> Options res" where
  "Initialize_args b [] opts = Inr opts"
| "Initialize_args b (arg # rest) opts =
     bindE (if arg = ''-d'' then Inr (case rest of [] \<Rightarrow> (opts\<lparr>debugArgs := ''+''\<rparr>, 1) | v # _ \<Rightarrow> (opts\<lparr>debugArgs := v\<rparr>, 2))
            else if arg = ''-rs'' then bindE (operand rest) (\<lambda>v. Inr (opts\<lparr>seed := Some (atoi v), randomYield := True\<rparr>, 2))
            else Inr (opts, 1)) (\<lambda>(opts, argCount :: nat).
     let opts = (if USER_PROGRAM b \<and> arg = ''-s'' then opts\<lparr>debugUserProg := True\<rparr> else opts);
         opts = (if FILESYS_NEEDED b \<and> arg = ''-f'' then opts\<lparr>format := True\<rparr> else opts) in
     bindE (if NETWORK b \<and> arg = ''-l'' then bindE (operand rest) (\<lambda>v. Inr (opts\<lparr>rely := Some v\<rparr>, 2))
            else if NETWORK b \<and> arg = ''-m'' then bindE (operand rest) (\<lambda>v. Inr (opts\<lparr>netname := atoi v\<rparr>, 2))
            else Inr (opts, argCount)) (\<lambda>(opts, argCount).
     Initialize_args b (drop (argCount - 1) rest) opts))"

text \<open>\<^verbatim>\<open>DebugIsEnabled\<close>; \<^verbatim>\<open>strchr\<close> also finds the end of the string.\<close>

definition DebugIsEnabled :: "string option \<Rightarrow> char \<Rightarrow> bool" where
  "DebugIsEnabled enableFlags flag = (case enableFlags of
     Some flags \<Rightarrow> flag \<in> set flags \<or> flag = CHR 0x00 \<or> CHR ''+'' \<in> set flags
   | None \<Rightarrow> False)"

text \<open>The calls \<^verbatim>\<open>main\<close> makes, in order, as long as each of them returns; \<open>Abort\<close> is a failed assertion.\<close>

datatype call = CopyrightNotice | StartProcess_call string | ConsoleTest_call "string option" "string option" | Halt_call | Copy_call string string
  | Print_call string | Remove_call string | List_call | PrintFS_call | PerformanceTest_call | Delay_call int | MailTest_call int
  | ThreadTest_call int | Elevator_call int | Arriving_call int int | Finish_call | Abort

fun main_loop :: "Build \<Rightarrow> string list \<Rightarrow> call list" where
  "main_loop b [] = [Finish_call]"
| "main_loop b (arg # rest) =
     (let z = (if arg = ''-z'' then [CopyrightNotice] else []);
          (user, argCount) =
            (if \<not> USER_PROGRAM b then ([], 1 :: nat)
             else if arg = ''-x'' then (case rest of [] \<Rightarrow> ([Abort], 1) | v # _ \<Rightarrow> ([StartProcess_call v], 2))
             else if arg = ''-c'' then
               (case rest of [] \<Rightarrow> ([ConsoleTest_call None None, Halt_call], 1)
                | [_] \<Rightarrow> ([Abort], 1)
                | v # w # _ \<Rightarrow> ([ConsoleTest_call (Some v) (Some w), Halt_call], 3))
             else ([], 1));
          (files, argCount) =
            (if \<not> FILESYS b then ([], argCount)
             else if arg = ''-cp'' then (case rest of v # w # _ \<Rightarrow> ([Copy_call v w], 3) | _ \<Rightarrow> ([Abort], argCount))
             else if arg = ''-p'' then (case rest of [] \<Rightarrow> ([Abort], argCount) | v # _ \<Rightarrow> ([Print_call v], 2))
             else if arg = ''-r'' then (case rest of [] \<Rightarrow> ([Abort], argCount) | v # _ \<Rightarrow> ([Remove_call v], 2))
             else if arg = ''-l'' then ([List_call], argCount)
             else if arg = ''-D'' then ([PrintFS_call], argCount)
             else if arg = ''-t'' then ([PerformanceTest_call], argCount)
             else ([], argCount));
          (net, argCount) =
            (if NETWORK b \<and> arg = ''-o'' then (case rest of [] \<Rightarrow> ([Abort], argCount) | v # _ \<Rightarrow> ([Delay_call 2, MailTest_call (atoi v)], 2))
             else ([], argCount))
      in z @ user @ files @ net @ main_loop b (drop (argCount - 1) rest))"

text \<open>The loop over the arguments of a kernel with the thread assignment, which sets \<^verbatim>\<open>testnum\<close>.\<close>

fun testnum_loop :: "string list \<Rightarrow> int \<Rightarrow> int res" where
  "testnum_loop [] testnum = Inr testnum"
| "testnum_loop (arg # rest) testnum =
     (if arg = [] then Inl OutOfBounds
      else if 1 < length arg \<and> arg ! 1 = CHR ''q''
      then (case rest of [] \<Rightarrow> Inl NullDeref | v # rest' \<Rightarrow> testnum_loop rest' (atoi v))
      else testnum_loop rest 1)"

definition elevator_riders :: "(int \<times> int) list" where
  "elevator_riders = [(1,3), (9,8), (5,10), (3,2), (8,7), (7,3), (10,1), (5,10), (4,4), (2,10), (3,2), (1,4), (2,5), (9,2), (6,1), (8,10),
     (4,8), (10,2), (4,5), (4,10), (8,1), (2,8), (1,4), (10,7), (6,6)]"

definition main_calls :: "Build \<Rightarrow> string list \<Rightarrow> (call list) res" where
  "main_calls b args =
     bindE (Initialize_args b args no_options) (\<lambda>_.
     if THREADS b then
       bindE (testnum_loop args 1) (\<lambda>testnum.
       Inr ((if HW1_ELEVATOR b then Elevator_call 10 # map (\<lambda>(at_floor, to_floor). Arriving_call at_floor to_floor) elevator_riders
             else [ThreadTest_call 4]) @ main_loop b []))
     else Inr (main_loop b args))"

text \<open>Options of \<^verbatim>\<open>Initialize\<close> as a user means them, how they are written, and what they set.\<close>

datatype setting = Debugging string | Seed string | SingleStep | Formatting | Reliability string | Machine_id string

fun written :: "setting \<Rightarrow> string list" where
  "written (Debugging v) = [''-d'', v]"
| "written (Seed v) = [''-rs'', v]"
| "written SingleStep = [''-s'']"
| "written Formatting = [''-f'']"
| "written (Reliability v) = [''-l'', v]"
| "written (Machine_id v) = [''-m'', v]"

fun meant :: "setting \<Rightarrow> Options \<Rightarrow> Options" where
  "meant (Debugging v) opts = opts\<lparr>debugArgs := v\<rparr>"
| "meant (Seed v) opts = opts\<lparr>seed := Some (atoi v), randomYield := True\<rparr>"
| "meant SingleStep opts = opts\<lparr>debugUserProg := True\<rparr>"
| "meant Formatting opts = opts\<lparr>format := True\<rparr>"
| "meant (Reliability v) opts = opts\<lparr>rely := Some v\<rparr>"
| "meant (Machine_id v) opts = opts\<lparr>netname := atoi v\<rparr>"

lemma network_build_simps [simp]: "USER_PROGRAM network_build" "FILESYS_NEEDED network_build" "NETWORK network_build"
  by (simp_all add: network_build_def)

lemma Initialize_reads_options: "Initialize_args network_build (concat (map written settings)) opts = Inr (fold meant settings opts)"
proof (induction settings arbitrary: opts)
  case (Cons s settings)
  then show ?case by (cases s) (simp_all add: operand_def assertE_def)
qed simp

text \<open>A kernel with both the thread assignment and the file system runs the thread test and none of the commands of the command line:
  the first loop over the arguments leaves none for the second.\<close>

lemma filesys_build_ignores_commands: "main_calls filesys_build args = Inr calls \<Longrightarrow> calls = [ThreadTest_call 4, Finish_call]"
  by (auto simp: main_calls_def filesys_build_def bindE_eq_Inr)

text \<open>The flag for the network reliability that the usage text documents has no effect, and the listing of a directory needs an operand.\<close>

lemma reliability_flag: "Initialize_args network_build [''-n'', v] opts = Initialize_args network_build [v] opts"
    "Initialize_args network_build [''-l''] opts = Inl AssertFail"
  by (simp_all add: operand_def assertE_def)

section \<open>Start-up\<close>

text \<open>
  \<^verbatim>\<open>Initialize\<close> of \<^verbatim>\<open>threads/system.cc\<close> for a kernel with user programs and without a TLB, after the command line was
  read. \<open>st\<close> is the memory before, \<open>big\<close> the byte order of the host, \<open>junk\<close> and \<open>table\<close> what is found in newly allocated memory.
  The main thread has no place in user code yet.
\<close>

definition Initialize_kernel :: "bool \<Rightarrow> (nat \<Rightarrow> 32 word) \<Rightarrow> (nat \<Rightarrow> nat option) \<Rightarrow> kst \<Rightarrow> kst res" where
  "Initialize_kernel big junk table st =
     (let st = st\<lparr>level := IntOff\<rparr>;
          st = st\<lparr>readyList := List_new\<rparr>;
          st = st\<lparr>threadToBeDestroyed := None\<rparr>;
          (t, st) = Thread_new junk Finished ''main'' st;
          st = st\<lparr>currentThread := t\<rparr> in
      bindE (setStatus t RUNNING st) (\<lambda>st.
      let st = st\<lparr>level := IntOn\<rparr> in
      bindE (Machine_new big False (km_junk (kmem st))) (\<lambda>m.
      let st = put_machine m st in
      bindE (MemoryManager_new junk 32) (\<lambda>mm.
      let st = st\<lparr>kmem := (kmem st)\<lparr>km_mm := mm\<rparr>\<rparr> in
      bindE (ProcessManager_new junk table 10) (\<lambda>pm.
      Inr (st\<lparr>processManager := pm\<rparr>))))))"

text \<open>No object exists before.\<close>

definition no_objects :: "kst \<Rightarrow> bool" where
  "no_objects st \<longleftrightarrow> threads st = Map.empty \<and> spaces st = Map.empty \<and> pcbs st = Map.empty"

definition main_thread :: "(nat \<Rightarrow> 32 word) \<Rightarrow> ucont Thread" where
  "main_thread junk = \<lparr>th_name = ''main'', th_stack = None, th_status = RUNNING, userRegisters = junk, th_space = None, th_cont = Finished, th_fresh = False, th_levels = []\<rparr>"

definition booted :: "(nat \<Rightarrow> 32 word) \<Rightarrow> kst \<Rightarrow> bool" where
  "booted junk st \<longleftrightarrow> threads st = [currentThread st \<mapsto> main_thread junk] \<and> spaces st = Map.empty \<and> pcbs st = Map.empty \<and> currentThread st < next_obj st
     \<and> readyList st = List_new \<and> threadToBeDestroyed st = None \<and> pm_inv (processManager st) \<and> BitMap_bits (pm_map (processManager st)) = {}
     \<and> num_pids st = 10 \<and> spaces_inv (kmem st) Map.empty \<and> km_machine (kmem st) = \<lparr>registers = \<lambda>_. 0, mainMemory = \<lambda>_. 0, te_heap = Map.empty,
       tlb = None, pageTable = None, pageTableSize = 0, hostBigEndian = hostBigEndian (mach st)\<rparr> \<and> mm_used (km_mm (kmem st)) = {}"

lemma Initialize_kernel_spec:
  assumes "no_objects st"
  obtains st' where "Initialize_kernel big junk table st = Inr st'" "booted junk st'" "hostBigEndian (mach st') = big"
proof -
  obtain mm where mm: "MemoryManager_new junk 32 = Inr mm" "mm_inv mm" "mm_size mm = NumPhysPages" "mm_used mm = {}"
    using MemoryManager_new_spec [of 32 junk] by (auto simp: NumPhysPages_def)
  obtain b where b: "BitMap_new junk 10 = Inr b" "BitMap_inv b" "BitMap_size b = 10" "BitMap_bits b = {}"
    using BitMap_new_spec [of 10 junk] by auto
  have pm: "ProcessManager_new junk table 10 = Inr \<lparr>pm_map = b, pcbTable = map table [0..<10]\<rparr>" using b(1) by (simp add: ProcessManager_new_def)
  show thesis
    by (rule that, simp add: Initialize_kernel_def Let_def Thread_new_def setStatus_def upd_thread_def get_thread_def Machine_new_def mm(1) pm put_machine_def)
      (use assms mm b in \<open>simp_all add: booted_def no_objects_def main_thread_def num_pids_def pm_inv_def spaces_inv_def km_ok_def\<close>)
qed

text \<open>Loading the first program.\<close>

lemma spaces_pcb: "spaces_inv km (S(sp \<mapsto> a)) \<Longrightarrow> spaces_inv km (S(sp \<mapsto> a\<lparr>as_pcb := q\<rparr>))"
proof -
  assume S: "spaces_inv km (S(sp \<mapsto> a))"
  have a: "as_ok km (a\<lparr>as_pcb := q\<rparr>) = as_ok km a" "as_frames km (a\<lparr>as_pcb := q\<rparr>) = as_frames km a" "as_pageTable (a\<lparr>as_pcb := q\<rparr>) = as_pageTable a"
    by (simp_all add: as_ok_def as_frames_def table_of_def cong: option.case_cong)
  show ?thesis
  proof (rule spaces_invI)
    show "as_ok km c" if "(S(sp \<mapsto> a\<lparr>as_pcb := q\<rparr>)) s = Some c" for s c
      using that a(1) spaces_invD(3) [OF S, of s] by (auto split: if_splits)
    show "apart km c c'" if c: "(S(sp \<mapsto> a\<lparr>as_pcb := q\<rparr>)) s = Some c" "(S(sp \<mapsto> a\<lparr>as_pcb := q\<rparr>)) s' = Some c'" "s \<noteq> s'" for s s' c c'
    proof -
      obtain d d' where d: "(S(sp \<mapsto> a)) s = Some d" "(S(sp \<mapsto> a)) s' = Some d'" "as_pageTable c = as_pageTable d" "as_pageTable c' = as_pageTable d'"
          "as_frames km c = as_frames km d" "as_frames km c' = as_frames km d'"
        using c a(2,3) by (auto split: if_splits)
      show ?thesis using spaces_invD(4) [OF S d(1,2) c(3)] d(3-6) by (simp add: apart_def)
    qed
  qed (use spaces_invD(1,2) [OF S] in auto)
qed

lemma AddrSpace_load_outcome:
  assumes "spaces_inv km S" "S sp = None"
  shows "case AddrSpace_load img km of Inl e \<Rightarrow> e = AssertFail \<or> e = OutOfBounds
    | Inr (a, km') \<Rightarrow> spaces_inv km' (S(sp \<mapsto> a)) \<and> cpu_state (km_machine km') = cpu_state (km_machine km)"
proof -
  have mi: "mm_inv (km_mm km)" using spaces_invD(1) [OF assms(1)] by (simp add: km_ok_def)
  consider "load_header img km = Inl AssertFail" | h where "load_header img km = Inr h" using load_header_outcome by blast
  then show ?thesis
  proof cases
    case (2 h)
    let ?n = "pages_of h"
    show ?thesis
    proof (cases "?n \<le> of_nat (mm_free (km_mm km))")
      case True
      then have n: "unat ?n \<le> mm_free (km_mm km)" using unat_mm_free [OF mi] by (simp add: word_le_nat_alt)
      obtain pt km1 where nt: "new_table (unat ?n) km = (pt, km1)" by fastforce
      define a where "a = \<lparr>as_pageTable = pt, numPages = ?n, as_pcb = None\<rparr>"
      obtain km2 where i: "InitializePageTable a km1 = Inr km2" "spaces_inv km2 (S(sp \<mapsto> a))" "cpu_state (km_machine km2) = cpu_state (km_machine km)"
        by (rule fresh_space [OF assms n nt, of a]) (simp_all add: a_def)
      have call: "AddrSpace_load img km = bindE (bindE (load_segment (code_seg h) img a km2) (load_segment (initData h) img a)) (\<lambda>km4. Inr (a, km4))"
        using 2 True nt i(1) MemoryManager_getFree_spec [OF mi] by (simp add: AddrSpace_load_def a_def assertE_def bindE_assoc Let_def)
      have seg: "case bindE (load_segment (code_seg h) img a km2) (load_segment (initData h) img a) of Inl e \<Rightarrow> e = AssertFail \<or> e = OutOfBounds
          | Inr km' \<Rightarrow> \<exists>m'. km' = km2\<lparr>km_machine := m'\<rparr> \<and> tame (km_machine km2) m'"
        by (rule load_two_tame [OF i(2), of sp]) simp
      show ?thesis
      proof (cases "bindE (load_segment (code_seg h) img a km2) (load_segment (initData h) img a)")
        case (Inr km')
        then obtain m' where m': "km' = km2\<lparr>km_machine := m'\<rparr>" "tame (km_machine km2) m'" using seg by auto
        have "cpu_state m' = cpu_state (km_machine km2)" using m'(2) by (simp add: cpu_state_def tame_def same_map_def)
        then show ?thesis using call Inr tame_spaces [OF i(2) m'(2)] i(3) m'(1) by simp
      qed (use seg call in simp)
    qed (use 2 MemoryManager_getFree_spec [OF mi] in \<open>simp add: AddrSpace_load_def assertE_def Let_def\<close>)
  qed (simp add: AddrSpace_load_def)
qed

text \<open>The kernel when the first program is about to run.\<close>

definition first_pcb :: "(nat \<Rightarrow> 32 word) \<Rightarrow> int \<Rightarrow> nat \<Rightarrow> PCB" where
  "first_pcb junk pid t = PCB_set pid None (PCB_new (sint (junk 0)) None (sint (junk 1)) t)"

definition first_regs :: "AddrSpace \<Rightarrow> (nat \<Rightarrow> 32 word) \<Rightarrow> nat \<Rightarrow> 32 word" where
  "first_regs a R = (\<lambda>i. if i < NumTotalRegs then 0 else R i)(PCReg := 0, NextPCReg := 4, StackReg := numPages a * of_nat PageSize - 16)"

definition started :: "(nat \<Rightarrow> 32 word) \<Rightarrow> (nat \<Rightarrow> 32 word) \<Rightarrow> kst \<Rightarrow> int \<Rightarrow> ProcessManager \<Rightarrow> AddrSpace \<Rightarrow> KMem \<Rightarrow> kst" where
  "started junk regs st pid pm a km = st\<lparr>next_obj := next_obj st + 2, pcbs := [next_obj st \<mapsto> first_pcb junk pid (currentThread st)], processManager := pm,
     kmem := km\<lparr>km_machine := AddrSpace_RestoreState a ((km_machine km)\<lparr>registers := first_regs a (registers (km_machine km))\<rparr>)\<rparr>,
     spaces := [Suc (next_obj st) \<mapsto> a\<lparr>as_pcb := Some (next_obj st)\<rparr>],
     threads := [currentThread st \<mapsto> (main_thread regs)\<lparr>th_space := Some (Suc (next_obj st)), th_cont := User\<rparr>]\<rparr>"

lemma started_good:
  assumes st: "booted regs st" and pm: "pm_inv pm" "pm_live pm = [pid \<mapsto> next_obj st]" "length (pcbTable pm) = 10"
    and a: "spaces_inv km [Suc (next_obj st) \<mapsto> a]"
  shows "good (started junk regs st pid pm a km)" (is "good ?s")
proof -
  let ?n = "next_obj st" and ?c = "currentThread st"
  let ?m = "AddrSpace_RestoreState a ((km_machine km)\<lparr>registers := first_regs a (registers (km_machine km))\<rparr>)"
  have sel: "threads ?s = [?c \<mapsto> (main_thread regs)\<lparr>th_space := Some (Suc ?n), th_cont := User\<rparr>]" "spaces ?s = [Suc ?n \<mapsto> a\<lparr>as_pcb := Some ?n\<rparr>]"
      "pcbs ?s = [?n \<mapsto> first_pcb junk pid ?c]" "processManager ?s = pm" "kmem ?s = km\<lparr>km_machine := ?m\<rparr>" "currentThread ?s = ?c" "next_obj ?s = ?n + 2"
      "readyList ?s = List_new" "threadToBeDestroyed ?s = None" "ready ?s = []"
    using st List_new_ok by (simp_all add: started_def booted_def ready_def List_items_def)
  have b: "processThread (first_pcb junk pid ?c) = ?c" "processID (first_pcb junk pid ?c) = pid" "pcb_children (first_pcb junk pid ?c) = List_new"
      "parent_process (first_pcb junk pid ?c) = None" by (simp_all add: first_pcb_def PCB_set_def PCB_new_def)
  have new: "List_inv (List_new :: nat nlist)" "List_inv (List_new :: nat option nlist)" "List_items (List_new :: nat option nlist) = []"
    using List_new_ok by (simp_all add: List_items_def)
  have "kernel_inv ?s"
  proof (rule kernel_invI)
    show "queue_inv ?s" unfolding queue_inv_def sel using new(1) by (simp add: runnable_ok_def sel main_thread_def List_inv_def)
    have "?c < ?n" using st by (simp add: booted_def)
    then show "objects_ok ?s" by (simp add: objects_ok_def sel)
    show "pm_inv (processManager ?s)" using pm(1) by (simp add: sel)
    have "same_heap (km_machine km) ?m" by simp
    from spaces_same_heap(1) [OF spaces_pcb [OF a] this] show "spaces_inv (kmem ?s) (spaces ?s)" by (simp add: sel)
    show "links_inv (space_of ?s) (spaces ?s) (pcbs ?s) (set (run_queue ?s))" by (simp add: links_inv_def sel space_of_def b)
    show "families_inv (pcbs ?s) (pm_live (processManager ?s))"
      using new(2) by (auto simp: families_inv_def sel pm(2) b new(3) List_inv_def split: if_splits)
    show "current_ok ?s" by (simp add: current_ok_def sel main_thread_def on_cpu_def AddrSpace_RestoreState_def first_regs_def) (simp add: reg_defs)
  qed (simp add: sel)
  moreover have "lists_intact ?s" using new(1,2) b(3) by (simp add: lists_intact_def sel)
  ultimately show ?thesis by (simp add: good_def in_user_def sel)
qed

lemma StartProcess_outcome:
  assumes st: "booted regs st" and f: "fs_Open filename = Some img"
  obtains pid pm where "pm_inv pm" "pm_live pm = [pid \<mapsto> next_obj st]" "length (pcbTable pm) = 10"
    "StartProcess junk fs_Open filename st = bindE (AddrSpace_load img (kmem st)) (\<lambda>(a, km). Inr (started junk regs st pid pm a km))"
proof -
  let ?n = "next_obj st" and ?pm = "processManager st" and ?c = "currentThread st"
  have pm: "pm_inv ?pm" "BitMap_bits (pm_map ?pm) = {}" "length (pcbTable ?pm) = 10" using st by (simp_all add: booted_def num_pids_def)
  then have "BitMap_bits (pm_map ?pm) \<noteq> {..<BitMap_size (pm_map ?pm)}" using lessThan_empty_iff [of "10 :: nat"] by (auto simp: pm_inv_def)
  then obtain pid pm1 where pid: "getPID ?pm = Inr (pid, pm1)" "pid \<ge> 0" by (rule getPID_free [OF pm(1)])
  have id: "PCB_getID (first_pcb junk pid ?c) = pid" by (simp add: first_pcb_def PCB_set_def PCB_getID_def)
  obtain pm2 where add: "addPCB ?n (first_pcb junk pid ?c) pm1 = Inr pm2" "pm_inv pm2" "pm_live pm2 = (pm_live ?pm)(pid \<mapsto> ?n)"
    by (rule addPCB_after_getPID [OF pm(1) pid id])
  have live: "pm_live ?pm = Map.empty" using pm(2) by (simp add: pm_live_def fun_eq_iff)
  have th: "threads st ?c = Some (main_thread regs)" "spaces st = Map.empty" "pcbs st = Map.empty" "threads st = [?c \<mapsto> main_thread regs]" using st by (simp_all add: booted_def)
  show thesis
  proof (rule that [OF add(2)])
    show "StartProcess junk fs_Open filename st = bindE (AddrSpace_load img (kmem st)) (\<lambda>(a, km). Inr (started junk regs st pid pm2 a km))"
      using f pid add(1) th
      by (simp add: StartProcess_def new_pcb_def get_pcb_def new_space_def upd_thread_def get_thread_def InitRegisters_spec set_cont_def put_machine_def
          first_pcb_def started_def first_regs_def Let_def split_beta cong: if_cong)
        (cases "AddrSpace_load img (kmem st)", simp, cases st, simp add: AddrSpace_RestoreState_def split: prod.split)
  qed (use add(3) live pm(3) pids_kept [OF pid(1) add(1)] in simp_all)
qed

lemma start_good:
  assumes "booted regs st" "fs_Open filename = Some img"
  shows "case StartProcess junk fs_Open filename st of Inl e \<Rightarrow> e = AssertFail \<or> e = OutOfBounds | Inr st' \<Rightarrow> good st'"
proof -
  obtain pid pm where r: "pm_inv pm" "pm_live pm = [pid \<mapsto> next_obj st]" "length (pcbTable pm) = 10"
    "StartProcess junk fs_Open filename st = bindE (AddrSpace_load img (kmem st)) (\<lambda>(a, km). Inr (started junk regs st pid pm a km))"
    by (rule StartProcess_outcome [OF assms(1), of fs_Open filename img junk]) (use assms(2) in blast)+
  have "spaces_inv (kmem st) Map.empty" using assms(1) by (simp add: booted_def)
  then show ?thesis using AddrSpace_load_outcome [of "kmem st" Map.empty "Suc (next_obj st)" img] r(4) started_good [OF assms(1) r(1-3)]
    by (cases "AddrSpace_load img (kmem st)") auto
qed

section \<open>Runs of the kernel\<close>

text \<open>
  A step of the kernel: the thread that has the processor continues, or, between two of its instructions, the timer takes the processor
  away from it (\<^verbatim>\<open>Interrupt::OneTick\<close>, which has turned interrupts on). If no thread is left the simulation halts.
\<close>

inductive kernel_step :: "(byte list \<Rightarrow> byte list option) \<Rightarrow> kst \<Rightarrow> kst \<Rightarrow> bool" for fs_Open where
  continues: "thread_step junk fs_Open (Suc fuel) (\<lambda>_. Inl Halted) st = Inr st' \<Longrightarrow> kernel_step fs_Open st st'"
| preempted: "threads st (currentThread st) = Some th \<Longrightarrow> th_cont th = User \<Longrightarrow> Thread_Yield Preempted (st\<lparr>level := IntOn\<rparr>) = Inr st' \<Longrightarrow>
    kernel_step fs_Open st st'"

text \<open>A run goes on as long as the lists are intact.\<close>

inductive kernel_run :: "(byte list \<Rightarrow> byte list option) \<Rightarrow> kst \<Rightarrow> kst \<Rightarrow> bool" for fs_Open st0 where
  starts: "kernel_run fs_Open st0 st0"
| goes_on: "kernel_run fs_Open st0 st \<Longrightarrow> lists_intact st \<Longrightarrow> kernel_step fs_Open st st' \<Longrightarrow> kernel_run fs_Open st0 st'"

lemma inv_level: "kernel_inv st \<Longrightarrow> threads st (currentThread st) = Some th \<Longrightarrow> th_cont th \<noteq> Dummy \<Longrightarrow> kernel_inv (st\<lparr>level := l\<rparr>)"
proof -
  assume a: "kernel_inv st" "threads st (currentThread st) = Some th" "th_cont th \<noteq> Dummy"
  have "\<not> th_fresh th" "cont_ok (num_pids st) (th_cont th) (th_levels th)" using currentE [OF a(1)] a(2) by (metis option.inject)+
  from inv_upd_current [OF a(1,2) refl refl refl this a(3,3), of l] show ?thesis using a(2) by (simp add: fun_upd_idem)
qed

lemma preemption_safe:
  assumes "kernel_inv st" "lists_intact st" "threads st (currentThread st) = Some th" "th_cont th = User"
  shows "safe (Thread_Yield Preempted (st\<lparr>level := IntOn\<rparr>))"
proof (rule safeI(2) [OF inv_yield])
  show "kernel_inv (st\<lparr>level := IntOn\<rparr>)" by (rule inv_level [OF assms(1,3)]) (simp add: assms(4))
qed (use assms in \<open>simp_all add: lists_intact_def\<close>)

lemma kernel_step_inv: "kernel_step fs_Open st st' \<Longrightarrow> kernel_inv st \<Longrightarrow> lists_intact st \<Longrightarrow> kernel_inv st'"
proof (induction rule: kernel_step.induct)
  case (continues junk fuel st st')
  then show ?case using thread_step_safe [of st junk fs_Open fuel] by (simp add: safe_but_exec_def)
next
  case (preempted st th st')
  then show ?case using preemption_safe [of st th] by simp
qed

lemma kernel_run_inv: "kernel_run fs_Open st0 st \<Longrightarrow> kernel_inv st0 \<Longrightarrow> kernel_inv st"
  by (induction rule: kernel_run.induct) (auto dest: kernel_step_inv)

text \<open>C2: The kernel as a whole is safe. Start the kernel, load any program and let any user programs run, with any interleaving that the system
  calls, and the timer between user instructions, produce: as long as no list was broken by \<^verbatim>\<open>List::RemoveElement\<close>, every state reached satisfies the
  invariant of all components (the threads on the ready list, their address spaces, the page tables, the memory manager, the PCBs and the process
  table correspond to each other, and parents and children agree), different address spaces have different page tables and no frame in common,
  and the next step of the running thread ends in such a state, halts the machine or fails an assertion of the code; the one exception
  is a user program's Exec, which may leave the bounds of an array, since neither the file name nor the copied segments are bounded.
  No step reads or writes an object through a null or a dangling pointer (after Exit, \<^verbatim>\<open>Scheduler::Run\<close> calls \<^verbatim>\<open>SaveState\<close>, whose body is
  empty, of the deleted address space), and no loop inside a step runs forever.\<close>

theorem kernel_safe:
  assumes "no_objects raw" "Initialize_kernel big junk table raw = Inr st1" "fs_Open filename = Some img"
    "StartProcess junk fs_Open filename st1 = Inr st0" "kernel_run fs_Open st0 st"
  shows "kernel_inv st
    \<and> (\<forall>sp sp' a a'. spaces st sp = Some a \<and> spaces st sp' = Some a' \<and> sp \<noteq> sp' \<longrightarrow>
         as_pageTable a \<noteq> as_pageTable a' \<and> as_frames (kmem st) a \<inter> as_frames (kmem st) a' = {})
    \<and> (lists_intact st \<longrightarrow> (case thread_step any fs_Open (Suc fuel) (\<lambda>_. Inl Halted) st of
         Inl e \<Rightarrow> e = Halted \<or> e = AssertFail \<or> e = OutOfBounds \<and> calls_exec st
       | Inr st' \<Rightarrow> kernel_inv st'))"
proof -
  obtain st2 where "Initialize_kernel big junk table raw = Inr st2" "booted junk st2" by (rule Initialize_kernel_spec [OF assms(1)])
  then have "booted junk st1" using assms(2) by simp
  then have "good st0" using start_good [of junk st1 fs_Open filename img junk] assms(3,4) by simp
  then have inv: "kernel_inv st" using kernel_run_inv [OF assms(5)] goodD(1) by blast
  moreover have "as_pageTable a \<noteq> as_pageTable a' \<and> as_frames (kmem st) a \<inter> as_frames (kmem st) a' = {}"
    if "spaces st sp = Some a" "spaces st sp' = Some a'" "sp \<noteq> sp'" for sp sp' a a'
    using spaces_invD(4) [OF kernel_invD(4) [OF inv] that] by (simp add: apart_def)
  moreover have "case thread_step any fs_Open (Suc fuel) (\<lambda>_. Inl Halted) st of
      Inl e \<Rightarrow> e = Halted \<or> e = AssertFail \<or> e = OutOfBounds \<and> calls_exec st | Inr st' \<Rightarrow> kernel_inv st'"
    if "lists_intact st"
    using thread_step_safe [OF inv that, of any fs_Open fuel] by (auto simp: safe_but_exec_def safe_def stops_def split: sum.splits)
  ultimately show ?thesis by blast
qed

text \<open>A small program on a kernel that was just started.\<close>

definition raw_kernel :: kst where
  "raw_kernel = (example_kernel 10)\<lparr>threads := Map.empty, spaces := Map.empty, pcbs := Map.empty\<rparr>"

lemma small_program_starts:
  assumes "booted regs st" "\<not> hostBigEndian (mach st)"
  obtains st0 where "StartProcess junk (\<lambda>_. Some empty_executable) filename st = Inr st0" "good st0"
proof -
  obtain pid pm where r: "pm_inv pm" "pm_live pm = [pid \<mapsto> next_obj st]" "length (pcbTable pm) = 10"
    "StartProcess junk (\<lambda>_. Some empty_executable) filename st = bindE (AddrSpace_load empty_executable (kmem st)) (\<lambda>(a, km). Inr (started junk regs st pid pm a km))"
    by (rule StartProcess_outcome [OF assms(1), of "\<lambda>_. Some empty_executable" filename empty_executable junk]) simp_all
  have "case load_header empty_executable example_kmem of Inr h \<Rightarrow> pages_of h = 8 \<and> \<not> 0 <s seg_size (code_seg h) \<and> \<not> 0 <s seg_size (initData h) | Inl _ \<Rightarrow> False"
    by code_simp
  moreover have "load_header empty_executable (kmem st) = load_header empty_executable example_kmem"
    using assms(2) by (simp add: load_header_def example_kmem_def stub_ReadAt_def empty_executable_def numeral_eq_Suc)
  ultimately obtain h where h: "load_header empty_executable (kmem st) = Inr h" "pages_of h = 8" "\<not> 0 <s seg_size (code_seg h)" "\<not> 0 <s seg_size (initData h)"
    by (auto split: sum.splits)
  have S: "spaces_inv (kmem st) Map.empty" "mm_used (km_mm (kmem st)) = {}" using assms(1) by (simp_all add: booted_def)
  have mi: "mm_inv (km_mm (kmem st))" "mm_size (km_mm (kmem st)) = NumPhysPages" using spaces_invD(1) [OF S(1)] by (simp_all add: km_ok_def)
  have free: "mm_free (km_mm (kmem st)) = 32" using S(2) mi(2) by (simp add: mm_free_def NumPhysPages_def)
  obtain pt km1 where nt: "new_table (unat (8 :: 32 word)) (kmem st) = (pt, km1)" by fastforce
  define a where "a = \<lparr>as_pageTable = pt, numPages = 8, as_pcb = None\<rparr>"
  obtain km2 where i: "InitializePageTable a km1 = Inr km2"
    by (rule fresh_space [OF S(1) _ _ nt, where sp = 0 and a = a]) (simp_all add: a_def free)
  have "AddrSpace_load empty_executable (kmem st) = Inr (a, km2)"
    using h nt i MemoryManager_getFree_spec [OF mi(1)] free by (simp add: AddrSpace_load_def assertE_def load_segment_def a_def Let_def)
  then have "StartProcess junk (\<lambda>_. Some empty_executable) filename st = Inr (started junk regs st pid pm a km2)" using r(4) by simp
  moreover from this have "good (started junk regs st pid pm a km2)"
    using start_good [OF assms(1), of "\<lambda>_. Some empty_executable" filename empty_executable junk] by simp
  ultimately show thesis using that by blast
qed

theorem kernel_safe_witness:
  "\<exists>st1 st0 st. Initialize_kernel False (\<lambda>_. 7) (\<lambda>_. Some 99) raw_kernel = Inr st1
     \<and> StartProcess (\<lambda>_. 7) (\<lambda>_. Some empty_executable) [] st1 = Inr st0
     \<and> kernel_step (\<lambda>_. Some empty_executable) st0 st \<and> kernel_inv st"
proof -
  let ?fs = "\<lambda>_. Some empty_executable"
  have raw: "no_objects raw_kernel" by (simp add: no_objects_def raw_kernel_def)
  obtain st1 where st1: "Initialize_kernel False (\<lambda>_. 7) (\<lambda>_. Some 99) raw_kernel = Inr st1" "booted (\<lambda>_. 7) st1" "\<not> hostBigEndian (mach st1)"
    by (rule Initialize_kernel_spec [OF raw, of False "\<lambda>_. 7" "\<lambda>_. Some 99"]) simp
  obtain st0 where st0: "StartProcess (\<lambda>_. 7) ?fs [] st1 = Inr st0" "good st0" by (rule small_program_starts [OF st1(2,3)])
  obtain th where th: "threads st0 (currentThread st0) = Some th" "th_cont th = User" by (rule good_cpu [OF st0(2)])
  have "kernel_inv (st0\<lparr>level := IntOn\<rparr>)" by (rule inv_level [OF goodD(1) [OF st0(2)] th(1)]) (simp add: th(2))
  then obtain st where st: "Thread_Yield Preempted (st0\<lparr>level := IntOn\<rparr>) = Inr st"
    using inv_yield [of "st0\<lparr>level := IntOn\<rparr>" Preempted] goodD(2) [OF st0(2)] th by (auto simp: lists_intact_def)
  have step: "kernel_step ?fs st0 st" by (rule kernel_step.preempted [OF th st])
  have "kernel_run ?fs st0 st" by (rule kernel_run.goes_on [OF kernel_run.starts goodD(2) [OF st0(2)] step])
  then have "kernel_inv st" using kernel_safe [OF raw st1(1) _ st0(1), of empty_executable st] by blast
  then show ?thesis using st1(1) st0(1) step by blast
qed

end
