(* ===== verification/ThreadTest.thy ===== *)
theory ThreadTest
  imports NachosPrelude
begin

text \<open>
  The tests of \<^verbatim>\<open>threads/threadtest.cc\<close>, with semaphores and a barrier, with locks, and without synchronization. A step is one statement of
  one thread, and a schedule, a list of thread numbers, chooses them; a semaphore is its value and a lock whether it is free, as theory
  \<^verbatim>\<open>Synch\<close> shows for the primitives. What the threads print is the value they return.
\<close>

section \<open>Sums over threads\<close>

lemma sum_upd:
  fixes f :: "'p \<Rightarrow> int"
  assumes "finite A" "t \<in> A"
  shows "(\<Sum>i\<in>A. f ((g(t := x)) i)) = (\<Sum>i\<in>A. f (g i)) - f (g t) + f x"
proof -
  have "(\<Sum>i\<in>A - {t}. f ((g(t := x)) i)) = (\<Sum>i\<in>A - {t}. f (g i))" by (rule sum.cong) auto
  then show ?thesis using sum.remove [OF assms, of "\<lambda>i. f ((g(t := x)) i)"] sum.remove [OF assms, of "\<lambda>i. f (g i)"] by simp
qed

lemma sum_two:
  fixes f :: "'p \<Rightarrow> int"
  assumes "finite A" "t \<in> A" "u \<in> A" "t \<noteq> u" "\<And>x. 0 \<le> f x"
  shows "f (g t) + f (g u) \<le> (\<Sum>i\<in>A. f (g i))"
proof -
  have "(\<Sum>i\<in>{t, u}. f (g i)) \<le> (\<Sum>i\<in>A. f (g i))" using assms by (intro sum_mono2) auto
  then show ?thesis using assms(4) by simp
qed

lemma sum_one:
  fixes f :: "'p \<Rightarrow> int"
  assumes "finite A" "t \<in> A" "\<And>x. 0 \<le> f x"
  shows "f (g t) \<le> (\<Sum>i\<in>A. f (g i))"
  using member_le_sum [OF assms(2), of "\<lambda>i. f (g i)"] assms by simp

section \<open>The test with semaphores\<close>

text \<open>
  Where a thread is in \<^verbatim>\<open>SimpleThread\<close>: about to lower the semaphore, to read the shared variable, to write it, to raise the semaphore, to count
  itself, to open the barrier, to wait at it, to let the next thread pass, to read the final value, or returned with it.
\<close>

datatype sem_spot = Want nat | Read nat | Write nat int | Signal nat | Count | Open | Wait | Pass | Final | Done int

record SemTest =
  SharedVariable :: int
  semaphore :: int
  barrier :: int
  counted :: int
  numThreads :: int
  at :: "nat \<Rightarrow> sem_spot"

definition sem_move :: "nat \<Rightarrow> sem_spot \<Rightarrow> SemTest \<Rightarrow> SemTest" where
  "sem_move t p st = st\<lparr>at := (at st)(t := p)\<rparr>"

text \<open>One statement of thread \<open>t\<close>; \<open>None\<close> if it waits at a semaphore or has returned.\<close>

definition SimpleThread_sem :: "nat \<Rightarrow> SemTest \<Rightarrow> SemTest option" where
  "SimpleThread_sem t st = (case at st t of
     Want num \<Rightarrow> if semaphore st = 0 then None else Some (sem_move t (Read num) (st\<lparr>semaphore := semaphore st - 1\<rparr>))
   | Read num \<Rightarrow> Some (sem_move t (Write num (SharedVariable st)) st)
   | Write num val \<Rightarrow> Some (sem_move t (Signal num) (st\<lparr>SharedVariable := val + 1\<rparr>))
   | Signal num \<Rightarrow> Some (sem_move t (if Suc num < 5 then Want (Suc num) else Count) (st\<lparr>semaphore := semaphore st + 1\<rparr>))
   | Count \<Rightarrow> if counted st < numThreads st then Some (sem_move t Wait (st\<lparr>counted := counted st + 1\<rparr>)) else Some (sem_move t Open st)
   | Open \<Rightarrow> Some (sem_move t Wait (st\<lparr>barrier := barrier st + 1\<rparr>))
   | Wait \<Rightarrow> if barrier st = 0 then None else Some (sem_move t Pass (st\<lparr>barrier := barrier st - 1\<rparr>))
   | Pass \<Rightarrow> Some (sem_move t Final (st\<lparr>barrier := barrier st + 1\<rparr>))
   | Final \<Rightarrow> Some (sem_move t (Done (SharedVariable st)) st)
   | Done val \<Rightarrow> None)"

text \<open>\<^verbatim>\<open>ThreadTest\<close> forks \<open>n\<close> threads and becomes the thread 0.\<close>

definition ThreadTest_sem :: "nat \<Rightarrow> SemTest" where
  "ThreadTest_sem n = \<lparr>SharedVariable = 0, semaphore = 1, barrier = 0, counted = 0, numThreads = int n, at = \<lambda>_. Want 0\<rparr>"

text \<open>The scheduler chooses a thread for every statement.\<close>

fun sem_run :: "nat list \<Rightarrow> SemTest \<Rightarrow> SemTest option" where
  "sem_run [] st = Some st"
| "sem_run (t # ts) st = (case SimpleThread_sem t st of None \<Rightarrow> None | Some st' \<Rightarrow> sem_run ts st')"

text \<open>Whether a thread is between the two semaphore operations, how many times it has written, whether it is counted, whether it holds the
  right to pass the barrier, and how many statements it still executes.\<close>

fun inside :: "sem_spot \<Rightarrow> int" where
  "inside (Read _) = 1" | "inside (Write _ _) = 1" | "inside (Signal _) = 1" | "inside _ = 0"

fun written_times :: "sem_spot \<Rightarrow> int" where
  "written_times (Want k) = int k" | "written_times (Read k) = int k" | "written_times (Write k _) = int k" | "written_times (Signal k) = int k + 1"
| "written_times _ = 5"

fun past :: "sem_spot \<Rightarrow> int" where
  "past (Want _) = 0" | "past (Read _) = 0" | "past (Write _ _) = 0" | "past (Signal _) = 0" | "past Count = 0" | "past _ = 1"

fun holds :: "sem_spot \<Rightarrow> int" where
  "holds Open = 1" | "holds Pass = 1" | "holds _ = 0"

fun left :: "sem_spot \<Rightarrow> int" where
  "left (Want k) = 4 * (5 - int k) + 5" | "left (Read k) = 4 * (5 - int k) + 4" | "left (Write k _) = 4 * (5 - int k) + 3" | "left (Signal k) = 4 * (5 - int k) + 2"
| "left Count = 5" | "left Open = 4" | "left Wait = 3" | "left Pass = 2" | "left Final = 1" | "left (Done _) = 0"

fun spot_ok :: "int \<Rightarrow> int \<Rightarrow> int \<Rightarrow> sem_spot \<Rightarrow> bool" where
  "spot_ok n shared p (Want k) = (k < 5)" | "spot_ok n shared p (Read k) = (k < 5)" | "spot_ok n shared p (Write k v) = (k < 5 \<and> v = shared)"
| "spot_ok n shared p (Signal k) = (k < 5)" | "spot_ok n shared p Final = (p = n + 1)" | "spot_ok n shared p (Done v) = (p = n + 1 \<and> v = 5 * (n + 1))"
| "spot_ok n shared p _ = True"

definition summed :: "(sem_spot \<Rightarrow> int) \<Rightarrow> SemTest \<Rightarrow> int" where
  "summed f st = (\<Sum>t\<in>{0..nat (numThreads st)}. f (at st t))"

definition sem_inv :: "SemTest \<Rightarrow> bool" where
  "sem_inv st \<longleftrightarrow> 0 \<le> numThreads st \<and> 0 \<le> semaphore st \<and> semaphore st + summed inside st = 1 \<and> SharedVariable st = summed written_times st
     \<and> counted st = min (numThreads st) (summed past st) \<and> 0 \<le> barrier st \<and> barrier st + summed holds st = (if summed past st = numThreads st + 1 then 1 else 0)
     \<and> (\<forall>t \<le> nat (numThreads st). spot_ok (numThreads st) (SharedVariable st) (summed past st) (at st t))"

lemma weights: "0 \<le> inside x" "0 \<le> past x" "past x \<le> 1" "0 \<le> holds x" "holds x \<le> past x" "past x = 1 \<Longrightarrow> written_times x = 5"
  by (cases x; simp)+

lemma sem_move_sel [simp]: "at (sem_move t p st) = (at st)(t := p)" "SharedVariable (sem_move t p st) = SharedVariable st" "semaphore (sem_move t p st) = semaphore st"
    "barrier (sem_move t p st) = barrier st" "counted (sem_move t p st) = counted st" "numThreads (sem_move t p st) = numThreads st"
  by (simp_all add: sem_move_def)

lemma summed_upd [simp]: "summed f (st\<lparr>SharedVariable := a\<rparr>) = summed f st" "summed f (st\<lparr>semaphore := b\<rparr>) = summed f st" "summed f (st\<lparr>barrier := c\<rparr>) = summed f st"
    "summed f (st\<lparr>counted := d\<rparr>) = summed f st"
  by (simp_all add: summed_def)

lemma summed_move: "t \<le> nat (numThreads st) \<Longrightarrow> summed f (sem_move t p st) = summed f st - f (at st t) + f p"
  by (simp only: summed_def sem_move_sel, rule sum_upd) auto

lemma summed_past:
  assumes "0 \<le> numThreads st"
  shows "summed past st \<le> numThreads st + 1" "t \<le> nat (numThreads st) \<Longrightarrow> past (at st t) = 0 \<Longrightarrow> summed past st \<le> numThreads st"
proof -
  have "summed past st \<le> (\<Sum>t\<in>{0..nat (numThreads st)}. 1)" unfolding summed_def by (intro sum_mono) (simp add: weights(3))
  then show "summed past st \<le> numThreads st + 1" using assms by simp
  assume t: "t \<le> nat (numThreads st)" "past (at st t) = 0"
  have "summed past st = past (at st t) + (\<Sum>i\<in>{0..nat (numThreads st)} - {t}. past (at st i))" unfolding summed_def using t(1) by (intro sum.remove) auto
  moreover have "(\<Sum>i\<in>{0..nat (numThreads st)} - {t}. past (at st i)) \<le> (\<Sum>i\<in>{0..nat (numThreads st)} - {t}. 1)" by (intro sum_mono) (simp add: weights(3))
  ultimately show "summed past st \<le> numThreads st" using t assms by simp
qed

lemma all_past:
  assumes "0 \<le> numThreads st" "summed past st = numThreads st + 1"
  shows "t \<le> nat (numThreads st) \<Longrightarrow> past (at st t) = 1" "summed written_times st = 5 * (numThreads st + 1)"
proof -
  show one: "past (at st t) = 1" if "t \<le> nat (numThreads st)" for t
    using summed_past(2) [OF assms(1) that] assms(2) weights(2,3) [of "at st t"] by linarith
  have "summed written_times st = (\<Sum>t\<in>{0..nat (numThreads st)}. 5)" unfolding summed_def by (rule sum.cong) (auto simp: one weights(6))
  then show "summed written_times st = 5 * (numThreads st + 1)" using assms(1) by simp
qed

lemma alone_inside:
  assumes "summed inside st \<le> 1" "t \<le> nat (numThreads st)" "u \<le> nat (numThreads st)" "inside (at st t) = 1" "t \<noteq> u"
  shows "inside (at st u) = 0"
proof -
  have "inside (at st t) + inside (at st u) \<le> summed inside st"
    unfolding summed_def using assms(2,3,5) weights(1) by (intro sum_two) auto
  then show ?thesis using assms(1,4) weights(1) [of "at st u"] by linarith
qed

lemma spot_okD: "spot_ok n s p x \<Longrightarrow> (\<And>k v. x \<noteq> Write k v) \<Longrightarrow> (p = n + 1 \<Longrightarrow> p' = n + 1) \<Longrightarrow> spot_ok n s' p' x"
    "spot_ok n s p x \<Longrightarrow> (p = n + 1 \<Longrightarrow> p' = n + 1) \<Longrightarrow> spot_ok n s p' x"
  by (cases x; auto)+

text \<open>The invariant of a thread that moves, from the changes of the sums.\<close>

lemma sem_invI:
  assumes inv: "sem_inv st" and t: "t \<le> nat (numThreads st)" and n: "numThreads st' = numThreads st" and at: "at st' = at st"
    and tot: "\<And>f. summed f st' = summed f st" and sem: "0 \<le> semaphore st'" "semaphore st' + summed inside st - inside (at st t) + inside p = 1"
    and sh: "SharedVariable st' = summed written_times st - written_times (at st t) + written_times p"
    and cnt: "counted st' = min (numThreads st) (summed past st - past (at st t) + past p)"
    and bar: "0 \<le> barrier st'" "barrier st' + summed holds st - holds (at st t) + holds p = (if summed past st - past (at st t) + past p = numThreads st + 1 then 1 else 0)"
    and spot: "spot_ok (numThreads st) (SharedVariable st') (summed past st - past (at st t) + past p) p"
    and mono: "summed past st = numThreads st + 1 \<Longrightarrow> past p = past (at st t)"
    and alone: "SharedVariable st' = SharedVariable st \<or> inside (at st t) = 1"
  shows "sem_inv (sem_move t p st')"
proof -
  note I = inv [unfolded sem_inv_def]
  have "spot_ok (numThreads st) (SharedVariable st') (summed past st - past (at st t) + past p) (at st u)" if u: "u \<le> nat (numThreads st)" "u \<noteq> t" for u
  proof (cases "SharedVariable st' = SharedVariable st")
    case True
    have "spot_ok (numThreads st) (SharedVariable st) (summed past st) (at st u)" using I u by blast
    then have "spot_ok (numThreads st) (SharedVariable st) (summed past st - past (at st t) + past p) (at st u)" by (rule spot_okD(2)) (simp add: mono)
    then show ?thesis unfolding True .
  next
    case False
    then have "inside (at st u) = 0" using alone I t u by (intro alone_inside [where t = t]) auto
    moreover have "spot_ok (numThreads st) (SharedVariable st) (summed past st) (at st u)" using I u by blast
    ultimately show ?thesis by - (rule spot_okD(1), assumption, auto simp: mono)
  qed
  then show ?thesis using I t n at tot sem sh cnt bar spot by (simp add: sem_inv_def summed_move)
qed

lemma SimpleThread_sem_inv:
  assumes inv: "sem_inv st" and t: "t \<le> nat (numThreads st)" and step: "SimpleThread_sem t st = Some st'"
  shows "sem_inv st' \<and> numThreads st' = numThreads st \<and> summed left st' \<le> summed left st - 1"
proof -
  note I = inv [unfolded sem_inv_def]
  have ok: "spot_ok (numThreads st) (SharedVariable st) (summed past st) (at st t)" using I t by blast
  have hp: "holds (at st t) \<le> summed holds st" unfolding summed_def using t weights(4) by (intro sum_one) auto
  have p: "summed past st \<le> numThreads st + 1" "past (at st t) = 0 \<Longrightarrow> summed past st \<le> numThreads st" using summed_past [of st] I t by auto
  show ?thesis
  proof (cases "at st t")
    case (Want k)
    have "sem_inv (sem_move t (Read k) (st\<lparr>semaphore := semaphore st - 1\<rparr>))"
      by (rule sem_invI [OF inv t]) (use Want I ok step in \<open>auto simp: SimpleThread_sem_def split: if_splits\<close>)
    then show ?thesis using Want t step by (auto simp: SimpleThread_sem_def summed_move split: if_splits)
  next
    case (Read k)
    have "sem_inv (sem_move t (Write k (SharedVariable st)) st)" by (rule sem_invI [OF inv t]) (use Read I ok in auto)
    then show ?thesis using Read t step by (auto simp: SimpleThread_sem_def summed_move)
  next
    case (Write k v)
    have "sem_inv (sem_move t (Signal k) (st\<lparr>SharedVariable := v + 1\<rparr>))" by (rule sem_invI [OF inv t]) (use Write I ok in auto)
    then show ?thesis using Write t step by (auto simp: SimpleThread_sem_def summed_move)
  next
    case (Signal k)
    have "sem_inv (sem_move t (if Suc k < 5 then Want (Suc k) else Count) (st\<lparr>semaphore := semaphore st + 1\<rparr>))"
      by (rule sem_invI [OF inv t]) (use Signal I ok in auto)
    then show ?thesis using Signal t ok step by (auto simp: SimpleThread_sem_def summed_move)
  next
    case Count
    have le: "summed past st \<le> numThreads st" using p(2) Count by simp
    show ?thesis
    proof (cases "counted st < numThreads st")
      case True
      have "sem_inv (sem_move t Wait (st\<lparr>counted := counted st + 1\<rparr>))" by (rule sem_invI [OF inv t]) (use Count I True in auto)
      then show ?thesis using Count True t step by (auto simp: SimpleThread_sem_def summed_move)
    next
      case False
      have "sem_inv (sem_move t Open st)" by (rule sem_invI [OF inv t]) (use Count I le False in auto)
      then show ?thesis using Count False t step by (auto simp: SimpleThread_sem_def summed_move)
    qed
  next
    case Open
    have "sem_inv (sem_move t Wait (st\<lparr>barrier := barrier st + 1\<rparr>))" by (rule sem_invI [OF inv t]) (use Open I in auto)
    then show ?thesis using Open t step by (auto simp: SimpleThread_sem_def summed_move)
  next
    case Wait
    have "sem_inv (sem_move t Pass (st\<lparr>barrier := barrier st - 1\<rparr>))"
      by (rule sem_invI [OF inv t]) (use Wait I step in \<open>auto simp: SimpleThread_sem_def split: if_splits\<close>)
    then show ?thesis using Wait t step by (auto simp: SimpleThread_sem_def summed_move split: if_splits)
  next
    case Pass
    have "summed past st = numThreads st + 1" using I hp Pass by (auto split: if_splits)
    then have "sem_inv (sem_move t Final (st\<lparr>barrier := barrier st + 1\<rparr>))" by (intro sem_invI [OF inv t]) (use Pass I in auto)
    then show ?thesis using Pass t step by (auto simp: SimpleThread_sem_def summed_move)
  next
    case Final
    have all: "summed past st = numThreads st + 1" using ok Final by simp
    then have "SharedVariable st = 5 * (numThreads st + 1)" using all_past(2) [of st] I by simp
    then have "sem_inv (sem_move t (Done (SharedVariable st)) st)" by (intro sem_invI [OF inv t]) (use Final I all in auto)
    then show ?thesis using Final t step by (auto simp: SimpleThread_sem_def summed_move)
  next
    case (Done v)
    then show ?thesis using step by (simp add: SimpleThread_sem_def)
  qed
qed

lemma ThreadTest_sem_inv: "sem_inv (ThreadTest_sem n)"
  by (simp add: sem_inv_def ThreadTest_sem_def summed_def)

lemma sem_run_inv:
  "sem_run ts st = Some st' \<Longrightarrow> sem_inv st \<Longrightarrow> set ts \<subseteq> {0..nat (numThreads st)} \<Longrightarrow>
     sem_inv st' \<and> numThreads st' = numThreads st \<and> summed left st' \<le> summed left st - int (length ts)"
proof (induction ts arbitrary: st)
  case (Cons t ts)
  then obtain s where s: "SimpleThread_sem t st = Some s" "sem_run ts s = Some st'" by (auto split: option.splits)
  have "sem_inv s \<and> numThreads s = numThreads st \<and> summed left s \<le> summed left st - 1" using Cons.prems by (intro SimpleThread_sem_inv [OF _ _ s(1)]) auto
  then show ?case using Cons.IH [OF s(2)] Cons.prems(3) by simp
qed simp

lemma sem_not_stuck:
  assumes inv: "sem_inv st" and stuck: "\<And>t. t \<le> nat (numThreads st) \<Longrightarrow> SimpleThread_sem t st = None"
  shows "t \<le> nat (numThreads st) \<Longrightarrow> at st t = Done (5 * (numThreads st + 1))"
proof -
  note I = inv [unfolded sem_inv_def]
  have at: "(\<exists>k. at st t = Want k \<and> semaphore st = 0) \<or> at st t = Wait \<and> barrier st = 0 \<or> (\<exists>v. at st t = Done v)" if "t \<le> nat (numThreads st)" for t
    using stuck [OF that] by (auto simp: SimpleThread_sem_def split: sem_spot.splits if_splits)
  have "summed inside st = 0" "summed holds st = 0" unfolding summed_def using at by (fastforce intro: sum.neutral)+
  then have sem: "semaphore st = 1" and bar: "barrier st = (if summed past st = numThreads st + 1 then 1 else 0)" using I by auto
  have past: "past (at st t) = 1" if "t \<le> nat (numThreads st)" for t using at [OF that] sem by auto
  then have "summed past st = numThreads st + 1" using I by (simp add: summed_def)
  then show "at st t = Done (5 * (numThreads st + 1))" if "t \<le> nat (numThreads st)" using at [OF that] sem bar I that by fastforce
qed

lemma left_bounds: "spot_ok n s p x \<Longrightarrow> 0 \<le> left x"
  by (cases x) auto

text \<open>C17: The test of the semaphores counts right in every interleaving. However the statements of the \<open>n + 1\<close> threads are interleaved, every thread that
  has returned has seen the final value \<open>5 (n + 1)\<close>, so no increment is lost and nobody passes the barrier early; the threads never
  deadlock, since if no thread can go on all of them have returned; and no run is longer than \<open>25 (n + 1)\<close> statements.\<close>

theorem semaphore_test_final:
  assumes "sem_run ts (ThreadTest_sem n) = Some st" "set ts \<subseteq> {0..n}"
  shows "(\<forall>t v. t \<le> n \<and> at st t = Done v \<longrightarrow> v = 5 * (int n + 1))
    \<and> ((\<forall>t \<le> n. SimpleThread_sem t st = None) \<longrightarrow> (\<forall>t \<le> n. at st t = Done (5 * (int n + 1))))
    \<and> length ts \<le> 25 * (n + 1)"
proof -
  have n0: "numThreads (ThreadTest_sem n) = int n" "summed left (ThreadTest_sem n) = 25 * (int n + 1)" by (simp_all add: ThreadTest_sem_def summed_def)
  have run: "sem_inv st" "numThreads st = int n" "summed left st \<le> 25 * (int n + 1) - int (length ts)"
    using sem_run_inv [OF assms(1) ThreadTest_sem_inv] assms(2) n0 by simp_all
  have ok: "spot_ok (int n) (SharedVariable st) (summed past st) (at st t)" if "t \<le> n" for t using run(1,2) that unfolding sem_inv_def by (metis nat_int)
  have "0 \<le> left (at st t)" if "t \<le> n" for t by (rule left_bounds [OF ok [OF that]])
  then have "0 \<le> summed left st" unfolding summed_def run(2) by (intro sum_nonneg) simp
  then have "length ts \<le> 25 * (n + 1)" using run(3) by simp
  moreover have "v = 5 * (int n + 1)" if "t \<le> n" "at st t = Done v" for t v using ok [OF that(1)] that(2) by simp
  moreover have "at st t = Done (5 * (int n + 1))" if "\<forall>t \<le> n. SimpleThread_sem t st = None" "t \<le> n" for t
    using sem_not_stuck [OF run(1)] that run(2) by simp
  ultimately show ?thesis by blast
qed

text \<open>Two threads, first one and then the other.\<close>

theorem semaphore_test_final_witness:
  "\<exists>st. sem_run (replicate 21 0 @ replicate 25 1 @ replicate 3 0) (ThreadTest_sem 1) = Some st \<and> at st 0 = Done 10 \<and> at st 1 = Done 10"
proof -
  have "case sem_run (replicate 21 0 @ replicate 25 1 @ replicate 3 0) (ThreadTest_sem 1) of None \<Rightarrow> False | Some st \<Rightarrow> (\<forall>t \<in> {0, 1}. SimpleThread_sem t st = None)"
    by code_simp
  then obtain st where st: "sem_run (replicate 21 0 @ replicate 25 1 @ replicate 3 0) (ThreadTest_sem 1) = Some st" "\<forall>t \<in> {0, 1}. SimpleThread_sem t st = None"
    by (auto split: option.splits)
  then have "\<forall>t \<le> 1. SimpleThread_sem t st = None" by (auto simp: le_Suc_eq)
  moreover have "set (replicate 21 0 @ replicate 25 1 @ replicate 3 0) \<subseteq> {0..1 :: nat}" by auto
  ultimately have "\<forall>t \<le> 1. at st t = Done (5 * (int 1 + 1))" using semaphore_test_final [OF st(1)] by blast
  then show ?thesis using st(1) by simp
qed

section \<open>The test with locks\<close>

datatype lspot = BAcquire | BCount | BRelease | LAcquire nat | LRead nat | LWrite nat int | LRelease nat | LSpin | LDone int

record LockTest =
  lt_shared :: int
  lt_count :: int
  l_free :: bool
  b_free :: bool
  lt_at :: "nat \<Rightarrow> lspot"

definition lock_move :: "nat \<Rightarrow> lspot \<Rightarrow> LockTest \<Rightarrow> LockTest" where
  "lock_move t p st = st\<lparr>lt_at := (lt_at st)(t := p)\<rparr>"

text \<open>One statement of thread \<open>t\<close>; the last loop leaves and reads the variable without a point where another thread can run.\<close>

definition SimpleThread_lock :: "nat \<Rightarrow> LockTest \<Rightarrow> LockTest option" where
  "SimpleThread_lock t st = (case lt_at st t of
     BAcquire \<Rightarrow> if b_free st then Some (lock_move t BCount (st\<lparr>b_free := False\<rparr>)) else None
   | BCount \<Rightarrow> Some (lock_move t BRelease (st\<lparr>lt_count := lt_count st + 1\<rparr>))
   | BRelease \<Rightarrow> Some (lock_move t (LAcquire 0) (st\<lparr>b_free := True\<rparr>))
   | LAcquire num \<Rightarrow> if l_free st then Some (lock_move t (LRead num) (st\<lparr>l_free := False\<rparr>)) else None
   | LRead num \<Rightarrow> Some (lock_move t (LWrite num (lt_shared st)) st)
   | LWrite num val \<Rightarrow> Some (lock_move t (LRelease num) (st\<lparr>lt_shared := val + 1\<rparr>))
   | LRelease num \<Rightarrow> Some (lock_move t (if Suc num < 5 then LAcquire (Suc num) else LSpin) (st\<lparr>l_free := True\<rparr>))
   | LSpin \<Rightarrow> if lt_shared st < 5 * lt_count st then Some st else Some (lock_move t (LDone (lt_shared st)) st)
   | LDone val \<Rightarrow> None)"

definition ThreadTest_lock :: "nat \<Rightarrow> LockTest" where
  "ThreadTest_lock n = \<lparr>lt_shared = 0, lt_count = 0, l_free = True, b_free = True, lt_at = \<lambda>_. BAcquire\<rparr>"

fun lock_run :: "nat list \<Rightarrow> LockTest \<Rightarrow> LockTest option" where
  "lock_run [] st = Some st"
| "lock_run (t # ts) st = (case SimpleThread_lock t st of None \<Rightarrow> None | Some st' \<Rightarrow> lock_run ts st')"

fun in_l :: "lspot \<Rightarrow> int" where
  "in_l (LRead _) = 1" | "in_l (LWrite _ _) = 1" | "in_l (LRelease _) = 1" | "in_l _ = 0"

fun in_b :: "lspot \<Rightarrow> int" where
  "in_b BCount = 1" | "in_b BRelease = 1" | "in_b _ = 0"

fun begun :: "lspot \<Rightarrow> int" where
  "begun BAcquire = 0" | "begun BCount = 0" | "begun _ = 1"

fun wrote :: "lspot \<Rightarrow> int" where
  "wrote (LAcquire k) = int k" | "wrote (LRead k) = int k" | "wrote (LWrite k _) = int k" | "wrote (LRelease k) = int k + 1" | "wrote LSpin = 5" | "wrote (LDone _) = 5"
| "wrote _ = 0"

fun lspot_ok :: "int \<Rightarrow> int \<Rightarrow> lspot \<Rightarrow> bool" where
  "lspot_ok n shared (LAcquire k) = (k < 5)" | "lspot_ok n shared (LRead k) = (k < 5)" | "lspot_ok n shared (LWrite k v) = (k < 5 \<and> v = shared)"
| "lspot_ok n shared (LRelease k) = (k < 5)" | "lspot_ok n shared (LDone v) = (\<exists>m. 1 \<le> m \<and> m \<le> n + 1 \<and> v = 5 * m)" | "lspot_ok n shared _ = True"

definition lsum :: "nat \<Rightarrow> (lspot \<Rightarrow> int) \<Rightarrow> LockTest \<Rightarrow> int" where
  "lsum n f st = (\<Sum>t\<in>{0..n}. f (lt_at st t))"

definition lock_inv :: "nat \<Rightarrow> LockTest \<Rightarrow> bool" where
  "lock_inv n st \<longleftrightarrow> of_bool (l_free st) + lsum n in_l st = 1 \<and> of_bool (b_free st) + lsum n in_b st = 1 \<and> lt_shared st = lsum n wrote st
     \<and> lt_count st = lsum n begun st \<and> (\<forall>t \<le> n. lspot_ok (int n) (lt_shared st) (lt_at st t))"

lemma lweights: "0 \<le> in_l x" "0 \<le> in_b x" "0 \<le> begun x" "begun x \<le> 1" "lspot_ok n s x \<Longrightarrow> wrote x \<le> 5 * begun x"
  by (cases x; auto)+

lemma lock_move_sel [simp]: "lt_at (lock_move t p st) = (lt_at st)(t := p)" "lt_shared (lock_move t p st) = lt_shared st" "lt_count (lock_move t p st) = lt_count st"
    "l_free (lock_move t p st) = l_free st" "b_free (lock_move t p st) = b_free st"
  by (simp_all add: lock_move_def)

lemma lsum_upd [simp]: "lsum n f (st\<lparr>lt_shared := a\<rparr>) = lsum n f st" "lsum n f (st\<lparr>lt_count := b\<rparr>) = lsum n f st" "lsum n f (st\<lparr>l_free := c\<rparr>) = lsum n f st"
    "lsum n f (st\<lparr>b_free := c\<rparr>) = lsum n f st"
  by (simp_all add: lsum_def)

lemma lsum_move: "t \<le> n \<Longrightarrow> lsum n f (lock_move t p st) = lsum n f st - f (lt_at st t) + f p"
  by (simp only: lsum_def lock_move_sel, rule sum_upd) auto

lemma lspot_okD: "lspot_ok n s x \<Longrightarrow> (\<And>k v. x \<noteq> LWrite k v) \<Longrightarrow> lspot_ok n s' x"
  by (cases x) auto

lemma lock_invI:
  assumes inv: "lock_inv n st" and t: "t \<le> n" and at: "lt_at st' = lt_at st" and tot: "\<And>f. lsum n f st' = lsum n f st"
    and l: "of_bool (l_free st') + lsum n in_l st - in_l (lt_at st t) + in_l p = 1"
    and b: "of_bool (b_free st') + lsum n in_b st - in_b (lt_at st t) + in_b p = 1"
    and sh: "lt_shared st' = lsum n wrote st - wrote (lt_at st t) + wrote p" and cnt: "lt_count st' = lsum n begun st - begun (lt_at st t) + begun p"
    and spot: "lspot_ok (int n) (lt_shared st') p" and alone: "lt_shared st' = lt_shared st \<or> in_l (lt_at st t) = 1"
  shows "lock_inv n (lock_move t p st')"
proof -
  note I = inv [unfolded lock_inv_def]
  have "lspot_ok (int n) (lt_shared st') (lt_at st u)" if u: "u \<le> n" "u \<noteq> t" for u
  proof (cases "lt_shared st' = lt_shared st")
    case True
    then show ?thesis using I u by metis
  next
    case False
    have "in_l (lt_at st t) + in_l (lt_at st u) \<le> lsum n in_l st" unfolding lsum_def using t u lweights(1) by (intro sum_two) auto
    then have "in_l (lt_at st u) = 0" using I alone False lweights(1) [of "lt_at st u"] by (auto simp: of_bool_def split: if_splits)
    moreover have "lspot_ok (int n) (lt_shared st) (lt_at st u)" using I u by blast
    ultimately show ?thesis by - (rule lspot_okD, assumption, auto)
  qed
  then show ?thesis using t at tot l b sh cnt spot by (simp add: lock_inv_def lsum_move)
qed

lemma lock_counts:
  assumes "lock_inv n st"
  shows "lt_shared st \<le> 5 * lt_count st" "0 \<le> lt_count st" "lt_count st \<le> int n + 1"
proof -
  note I = assms [unfolded lock_inv_def]
  have ok: "lspot_ok (int n) (lt_shared st) (lt_at st t)" if "t \<le> n" for t using I that by blast
  have "lsum n wrote st \<le> (\<Sum>t\<in>{0..n}. 5 * begun (lt_at st t))" unfolding lsum_def using ok lweights(5) by (intro sum_mono) auto
  then show "lt_shared st \<le> 5 * lt_count st" using I by (simp add: lsum_def sum_distrib_left)
  have "lsum n begun st \<le> (\<Sum>t\<in>{0..n}. 1)" unfolding lsum_def by (intro sum_mono) (simp add: lweights(4))
  then show "lt_count st \<le> int n + 1" using I by simp
  show "0 \<le> lt_count st" using I lweights(3) by (simp add: lsum_def sum_nonneg)
qed

lemma lock_free_cases: "of_bool c + (x :: int) = 1 \<Longrightarrow> \<not> c \<longleftrightarrow> x = 1" "of_bool c + (x :: int) = 1 \<Longrightarrow> c \<longleftrightarrow> x = 0"
  by (cases c; simp)+

lemma SimpleThread_lock_inv:
  assumes inv: "lock_inv n st" and t: "t \<le> n" and step: "SimpleThread_lock t st = Some st'"
  shows "lock_inv n st'"
proof -
  note I = inv [unfolded lock_inv_def] and K = lock_invI [OF inv t]
  have ok: "lspot_ok (int n) (lt_shared st) (lt_at st t)" using I t by blast
  have one: "in_l (lt_at st t) \<le> lsum n in_l st" "in_b (lt_at st t) \<le> lsum n in_b st" "begun (lt_at st t) \<le> lsum n begun st"
    unfolding lsum_def using t lweights(1-3) by (intro sum_one; auto)+
  have held: "\<not> l_free st" if "in_l (lt_at st t) = 1" using I one(1) that by (cases "l_free st") auto
  have heldb: "\<not> b_free st" if "in_b (lt_at st t) = 1" using I one(2) that by (cases "b_free st") auto
  show ?thesis
  proof (cases "lt_at st t")
    case BAcquire
    have "lock_inv n (lock_move t BCount (st\<lparr>b_free := False\<rparr>))" if "b_free st" by (rule K) (use BAcquire I that in auto)
    then show ?thesis using BAcquire step by (auto simp: SimpleThread_lock_def split: if_splits)
  next
    case BCount
    have "lock_inv n (lock_move t BRelease (st\<lparr>lt_count := lt_count st + 1\<rparr>))" by (rule K) (use BCount I in auto)
    then show ?thesis using BCount step by (auto simp: SimpleThread_lock_def)
  next
    case BRelease
    have "lock_inv n (lock_move t (LAcquire 0) (st\<lparr>b_free := True\<rparr>))" by (rule K) (use BRelease I heldb in auto)
    then show ?thesis using BRelease step by (auto simp: SimpleThread_lock_def)
  next
    case (LAcquire k)
    have "lock_inv n (lock_move t (LRead k) (st\<lparr>l_free := False\<rparr>))" if "l_free st" by (rule K) (use LAcquire I ok that in auto)
    then show ?thesis using LAcquire step by (auto simp: SimpleThread_lock_def split: if_splits)
  next
    case (LRead k)
    have "lock_inv n (lock_move t (LWrite k (lt_shared st)) st)" by (rule K) (use LRead I ok in auto)
    then show ?thesis using LRead step by (auto simp: SimpleThread_lock_def)
  next
    case (LWrite k v)
    have "lock_inv n (lock_move t (LRelease k) (st\<lparr>lt_shared := v + 1\<rparr>))" by (rule K) (use LWrite I ok in auto)
    then show ?thesis using LWrite step by (auto simp: SimpleThread_lock_def)
  next
    case (LRelease k)
    have "lock_inv n (lock_move t (if Suc k < 5 then LAcquire (Suc k) else LSpin) (st\<lparr>l_free := True\<rparr>))" by (rule K) (use LRelease I ok held in auto)
    then show ?thesis using LRelease step by (auto simp: SimpleThread_lock_def)
  next
    case LSpin
    have c: "1 \<le> lt_count st" "lt_count st \<le> int n + 1" "lt_shared st \<le> 5 * lt_count st" using lock_counts [OF inv] one(3) I LSpin by auto
    have "lock_inv n (lock_move t (LDone (lt_shared st)) st)" if "\<not> lt_shared st < 5 * lt_count st"
      by (rule K) (use LSpin I c that in auto)
    then show ?thesis using LSpin step inv by (auto simp: SimpleThread_lock_def split: if_splits)
  next
    case (LDone v)
    then show ?thesis using step by (simp add: SimpleThread_lock_def)
  qed
qed

lemma lock_run_inv: "lock_run ts st = Some st' \<Longrightarrow> lock_inv n st \<Longrightarrow> set ts \<subseteq> {0..n} \<Longrightarrow> lock_inv n st'"
proof (induction ts arbitrary: st)
  case (Cons t ts)
  then obtain s where s: "SimpleThread_lock t st = Some s" "lock_run ts s = Some st'" by (auto split: option.splits)
  then show ?case using Cons.IH [OF s(2)] SimpleThread_lock_inv [of n st t s] Cons.prems by simp
qed simp

text \<open>With locks, a thread sees five increments for every thread that was counted when it left the last loop. If no thread can do more than spin, all have
  returned and no increment is lost.\<close>

lemma lock_test_final:
  assumes "lock_run ts (ThreadTest_lock n) = Some st" "set ts \<subseteq> {0..n}"
  shows "t \<le> n \<Longrightarrow> lt_at st t = LDone v \<Longrightarrow> \<exists>m. 1 \<le> m \<and> m \<le> int n + 1 \<and> v = 5 * m"
    "\<forall>t \<le> n. SimpleThread_lock t st \<in> {None, Some st} \<Longrightarrow> (\<forall>t \<le> n. \<exists>v. lt_at st t = LDone v) \<and> lt_shared st = 5 * (int n + 1)"
proof -
  have "lock_inv n (ThreadTest_lock n)" by (simp add: lock_inv_def ThreadTest_lock_def lsum_def)
  then have inv: "lock_inv n st" using lock_run_inv [OF assms(1)] assms(2) by blast
  note I = inv [unfolded lock_inv_def]
  show "\<exists>m. 1 \<le> m \<and> m \<le> int n + 1 \<and> v = 5 * m" if "t \<le> n" "lt_at st t = LDone v" using I that by force
  assume stuck: "\<forall>t \<le> n. SimpleThread_lock t st \<in> {None, Some st}"
  have ne: "lock_move t p s \<noteq> st" if "p \<noteq> lt_at st t" for t p s using that by (metis fun_upd_same lock_move_sel(1))
  have at: "lt_at st t = BAcquire \<and> \<not> b_free st \<or> (\<exists>k. lt_at st t = LAcquire k) \<and> \<not> l_free st \<or> lt_at st t = LSpin \<and> lt_shared st < 5 * lt_count st \<or> (\<exists>v. lt_at st t = LDone v)"
    if t: "t \<le> n" for t
  proof -
    have "SimpleThread_lock t st \<in> {None, Some st}" using stuck t by blast
    then show ?thesis using ne [of _ t] by (cases "lt_at st t") (auto simp: SimpleThread_lock_def split: if_splits)
  qed
  have "lsum n in_l st = 0" "lsum n in_b st = 0" unfolding lsum_def using at by (fastforce intro: sum.neutral)+
  then have free: "l_free st" "b_free st" using I by (auto simp: of_bool_def split: if_splits)
  have at2: "lt_at st t = LSpin \<and> lt_shared st < 5 * lt_count st \<or> (\<exists>v. lt_at st t = LDone v)" if "t \<le> n" for t using at [OF that] free by blast
  have "lsum n wrote st = (\<Sum>t\<in>{0..n}. 5)" "lsum n begun st = (\<Sum>t\<in>{0..n}. 1)" unfolding lsum_def using at2 by (fastforce intro: sum.cong)+
  then have "lt_shared st = 5 * (int n + 1)" "lt_count st = int n + 1" using I by simp_all
  then show "(\<forall>t \<le> n. \<exists>v. lt_at st t = LDone v) \<and> lt_shared st = 5 * (int n + 1)" using at2 by auto
qed

section \<open>The test without synchronization\<close>

datatype pspot = PRead nat | PWrite nat int | PFinal | PDone int

record PlainTest =
  pt_shared :: int
  pt_at :: "nat \<Rightarrow> pspot"

definition SimpleThread_plain :: "nat \<Rightarrow> PlainTest \<Rightarrow> PlainTest option" where
  "SimpleThread_plain t st = (case pt_at st t of
     PRead num \<Rightarrow> Some (st\<lparr>pt_at := (pt_at st)(t := PWrite num (pt_shared st))\<rparr>)
   | PWrite num val \<Rightarrow> Some (st\<lparr>pt_shared := val + 1, pt_at := (pt_at st)(t := if Suc num < 5 then PRead (Suc num) else PFinal)\<rparr>)
   | PFinal \<Rightarrow> Some (st\<lparr>pt_at := (pt_at st)(t := PDone (pt_shared st))\<rparr>)
   | PDone val \<Rightarrow> None)"

definition ThreadTest_plain :: "nat \<Rightarrow> PlainTest" where
  "ThreadTest_plain n = \<lparr>pt_shared = 0, pt_at = \<lambda>_. PRead 0\<rparr>"

fun plain_run :: "nat list \<Rightarrow> PlainTest \<Rightarrow> PlainTest option" where
  "plain_run [] st = Some st"
| "plain_run (t # ts) st = (case SimpleThread_plain t st of None \<Rightarrow> None | Some st' \<Rightarrow> plain_run ts st')"

text \<open>Round robin, as the scheduler runs it, loses every increment but those of one thread.\<close>

lemma plain_test_loses_updates:
  "\<exists>st. plain_run (concat (replicate 11 [0, 1, 2, 3, 4])) (ThreadTest_plain 4) = Some st \<and> (\<forall>t \<in> {0, 1, 2, 3, 4}. pt_at st t = PDone 5)"
proof -
  have "case plain_run (concat (replicate 11 [0, 1, 2, 3, 4])) (ThreadTest_plain 4) of None \<Rightarrow> False | Some st \<Rightarrow> \<forall>t \<in> {0, 1, 2, 3, 4}. pt_at st t = PDone 5"
    by code_simp
  then show ?thesis by (auto split: option.splits)
qed

end
