(* ===== verification/CppStack.thy ===== *)
theory CppStack
  imports NachosPrelude
begin

text \<open>
  The stacks of \<^verbatim>\<open>c++example\<close>: \<^verbatim>\<open>stack.cc\<close>, \<^verbatim>\<open>templatestack.cc\<close> and \<^verbatim>\<open>inheritstack.cc\<close> with the list of \<^verbatim>\<open>list.cc\<close>. The abstract class
  is the locale \<^verbatim>\<open>stack_class\<close>, in which the self test is verified once; the array and the list interpret it. The stack of the
  template and of \<^verbatim>\<open>stack.cc\<close> is the array stack at another type.
\<close>

section \<open>The abstract class\<close>

text \<open>What the self test prints.\<close>

datatype 'a event = Pushing 'a | Popping 'a

text \<open>
  \<^verbatim>\<open>Stack::SelfTest\<close> of \<^verbatim>\<open>inheritstack.cc\<close>, which calls the virtual functions of the object. The loop that empties the stack
  has fuel.
\<close>

fun push_loop :: "('a::len word \<Rightarrow> 's \<Rightarrow> 's res) \<Rightarrow> ('s \<Rightarrow> bool) \<Rightarrow> nat \<Rightarrow> 'a word \<Rightarrow> 's \<Rightarrow> ('a word event list \<times> 's) res" where
  "push_loop push is_full 0 num s = Inr ([], s)"
| "push_loop push is_full (Suc n) num s =
     bindE (assertE (\<not> is_full s)) (\<lambda>_.
     bindE (push num s) (\<lambda>s'.
     bindE (push_loop push is_full n (num + 1) s') (\<lambda>(out, s'').
     Inr (Pushing num # out, s''))))"

fun pop_loop :: "('s \<Rightarrow> ('a \<times> 's) res) \<Rightarrow> ('s \<Rightarrow> bool) \<Rightarrow> nat \<Rightarrow> 's \<Rightarrow> ('a event list \<times> 's) res" where
  "pop_loop pop is_empty 0 s = Inl OutOfFuel"
| "pop_loop pop is_empty (Suc fuel) s =
     (if is_empty s then Inr ([], s)
      else bindE (pop s) (\<lambda>(v, s'). bindE (pop_loop pop is_empty fuel s') (\<lambda>(out, s''). Inr (Popping v # out, s''))))"

definition SelfTest :: "('a::len word \<Rightarrow> 's \<Rightarrow> 's res) \<Rightarrow> ('s \<Rightarrow> ('a word \<times> 's) res) \<Rightarrow> ('s \<Rightarrow> bool) \<Rightarrow> ('s \<Rightarrow> bool) \<Rightarrow> nat \<Rightarrow> int \<Rightarrow> 's
    \<Rightarrow> ('a word event list \<times> 's) res" where
  "SelfTest push pop is_full is_empty fuel numToPush s =
     bindE (push_loop push is_full (nat numToPush) 17 s) (\<lambda>(out, s).
     bindE (pop_loop pop is_empty fuel s) (\<lambda>(out', s).
     Inr (out @ out', s)))"

text \<open>\<^verbatim>\<open>SelfTest\<close> of \<^verbatim>\<open>stack.cc\<close> and \<^verbatim>\<open>templatestack.cc\<close> fills the stack.\<close>

fun fill_loop :: "('a::len word \<Rightarrow> 's \<Rightarrow> 's res) \<Rightarrow> ('s \<Rightarrow> bool) \<Rightarrow> nat \<Rightarrow> 'a word \<Rightarrow> 's \<Rightarrow> ('a word event list \<times> 's) res" where
  "fill_loop push is_full 0 num s = Inl OutOfFuel"
| "fill_loop push is_full (Suc fuel) num s =
     (if is_full s then Inr ([], s)
      else bindE (push num s) (\<lambda>s'. bindE (fill_loop push is_full fuel (num + 1) s') (\<lambda>(out, s''). Inr (Pushing num # out, s''))))"

definition SelfTest_fill :: "('a::len word \<Rightarrow> 's \<Rightarrow> 's res) \<Rightarrow> ('s \<Rightarrow> ('a word \<times> 's) res) \<Rightarrow> ('s \<Rightarrow> bool) \<Rightarrow> ('s \<Rightarrow> bool) \<Rightarrow> nat \<Rightarrow> 'a word \<Rightarrow> 's
    \<Rightarrow> ('a word event list \<times> 's) res" where
  "SelfTest_fill push pop is_full is_empty fuel start s =
     bindE (fill_loop push is_full fuel start s) (\<lambda>(out, s).
     bindE (pop_loop pop is_empty fuel s) (\<lambda>(out', s).
     Inr (out @ out', s)))"

section \<open>The implementation as an array\<close>

record 'a ArrayStack =
  size_of :: int
  top_index :: int
  stack :: "'a list"

definition ArrayStack_new :: "(nat \<Rightarrow> 'a) \<Rightarrow> int \<Rightarrow> 'a ArrayStack res" where
  "ArrayStack_new junk sz = bindE (assertE (1 \<le> sz)) (\<lambda>_. Inr \<lparr>size_of = sz, top_index = 0, stack = map junk [0..<nat sz]\<rparr>)"

definition ArrayStack_Full :: "'a ArrayStack \<Rightarrow> bool" where
  "ArrayStack_Full s \<longleftrightarrow> top_index s = size_of s"

definition ArrayStack_Empty :: "'a ArrayStack \<Rightarrow> bool" where
  "ArrayStack_Empty s \<longleftrightarrow> top_index s = 0"

definition ArrayStack_Push :: "'a \<Rightarrow> 'a ArrayStack \<Rightarrow> 'a ArrayStack res" where
  "ArrayStack_Push value s =
     bindE (assertE (\<not> ArrayStack_Full s)) (\<lambda>_.
     if top_index s < 0 then Inl OutOfBounds
     else bindE (arr_set (stack s) (nat (top_index s)) value) (\<lambda>a. Inr (s\<lparr>stack := a, top_index := top_index s + 1\<rparr>)))"

definition ArrayStack_Pop :: "'a ArrayStack \<Rightarrow> ('a \<times> 'a ArrayStack) res" where
  "ArrayStack_Pop s =
     bindE (assertE (\<not> ArrayStack_Empty s)) (\<lambda>_.
     let t = top_index s - 1 in
     if t < 0 then Inl OutOfBounds
     else bindE (arr_get (stack s) (nat t)) (\<lambda>v. Inr (v, s\<lparr>top_index := t\<rparr>)))"

section \<open>The implementation as a list\<close>

record 'a Cell =
  next_cell :: "nat option"
  item :: 'a

record 'a CellList =
  cells :: "'a Cell option list"
  first :: "nat option"
  last_cell :: "nat option"

definition CellList_new :: "'a CellList" where
  "CellList_new = \<lparr>cells = [], first = None, last_cell = None\<rparr>"

definition CellList_Empty :: "'a CellList \<Rightarrow> bool" where
  "CellList_Empty l \<longleftrightarrow> first l = None"

definition load_cell :: "'a Cell option list \<Rightarrow> nat option \<Rightarrow> 'a Cell res" where
  "load_cell cs p = (case p of None \<Rightarrow> Inl NullDeref
     | Some a \<Rightarrow> if a < length cs then (case cs ! a of None \<Rightarrow> Inl DanglingPointer | Some c \<Rightarrow> Inr c) else Inl DanglingPointer)"

definition CellList_Prepend :: "'a \<Rightarrow> 'a CellList \<Rightarrow> 'a CellList res" where
  "CellList_Prepend value l =
     (let element = length (cells l); c = \<lparr>next_cell = None, item = value\<rparr> in
      if CellList_Empty l then Inr \<lparr>cells = cells l @ [Some c], first = Some element, last_cell = Some element\<rparr>
      else Inr (l\<lparr>cells := cells l @ [Some (c\<lparr>next_cell := first l\<rparr>)], first := Some element\<rparr>))"

definition CellList_Remove :: "'a CellList \<Rightarrow> ('a \<times> 'a CellList) res" where
  "CellList_Remove l =
     bindE (assertE (\<not> CellList_Empty l)) (\<lambda>_.
     bindE (load_cell (cells l) (first l)) (\<lambda>c.
     let l' = (if first l = last_cell l then l\<lparr>first := None, last_cell := None\<rparr> else l\<lparr>first := next_cell c\<rparr>) in
     Inr (item c, l'\<lparr>cells := (cells l)[the (first l) := None]\<rparr>)))"

text \<open>The destructor.\<close>

fun CellList_destroy :: "nat \<Rightarrow> 'a CellList \<Rightarrow> 'a CellList res" where
  "CellList_destroy 0 l = Inl OutOfFuel"
| "CellList_destroy (Suc fuel) l = (if CellList_Empty l then Inr l else bindE (CellList_Remove l) (\<lambda>(_, l'). CellList_destroy fuel l'))"

type_synonym 'a ListStack = "'a CellList"

definition ListStack_new :: "'a ListStack" where
  "ListStack_new = CellList_new"

definition ListStack_Push :: "'a \<Rightarrow> 'a ListStack \<Rightarrow> 'a ListStack res" where
  "ListStack_Push value s = CellList_Prepend value s"

definition ListStack_Empty :: "'a ListStack \<Rightarrow> bool" where
  "ListStack_Empty s = CellList_Empty s"

definition ListStack_Pop :: "'a ListStack \<Rightarrow> ('a \<times> 'a ListStack) res" where
  "ListStack_Pop s = bindE (assertE (\<not> ListStack_Empty s)) (\<lambda>_. CellList_Remove s)"

definition ListStack_Full :: "'a ListStack \<Rightarrow> bool" where
  "ListStack_Full s = False"

section \<open>The main programs\<close>

definition inheritstack_main :: "(nat \<Rightarrow> 32 word) \<Rightarrow> nat \<Rightarrow> (32 word event list \<times> 32 word event list) res" where
  "inheritstack_main junk fuel =
     bindE (ArrayStack_new junk 10) (\<lambda>s1.
     bindE (SelfTest ArrayStack_Push ArrayStack_Pop ArrayStack_Full ArrayStack_Empty fuel 10 s1) (\<lambda>(out1, _).
     bindE (SelfTest ListStack_Push ListStack_Pop ListStack_Full ListStack_Empty fuel 10 ListStack_new) (\<lambda>(out2, s2).
     bindE (CellList_destroy fuel s2) (\<lambda>_.
     Inr (out1, out2)))))"

definition stack_main :: "(nat \<Rightarrow> 32 word) \<Rightarrow> nat \<Rightarrow> (32 word event list) res" where
  "stack_main junk fuel =
     bindE (ArrayStack_new junk 10) (\<lambda>s.
     bindE (SelfTest_fill ArrayStack_Push ArrayStack_Pop ArrayStack_Full ArrayStack_Empty fuel 17 s) (\<lambda>(out, _). Inr out))"

definition templatestack_main :: "(nat \<Rightarrow> 32 word) \<Rightarrow> (nat \<Rightarrow> 8 word) \<Rightarrow> nat \<Rightarrow> (32 word event list \<times> 8 word event list) res" where
  "templatestack_main junk1 junk2 fuel =
     bindE (ArrayStack_new junk1 10) (\<lambda>s1.
     bindE (ArrayStack_new junk2 10) (\<lambda>s2.
     bindE (SelfTest_fill ArrayStack_Push ArrayStack_Pop ArrayStack_Full ArrayStack_Empty fuel 17 s1) (\<lambda>(out1, _).
     bindE (SelfTest_fill ArrayStack_Push ArrayStack_Pop ArrayStack_Full ArrayStack_Empty fuel (of_char CHR ''a'') s2) (\<lambda>(out2, _).
     Inr (out1, out2)))))"

text \<open>What the self test prints for \<open>n\<close> numbers from \<open>k\<close>: the numbers as they are pushed, and then the same numbers backwards.\<close>

definition printed :: "nat \<Rightarrow> 'a::len word \<Rightarrow> 'a word event list" where
  "printed n k = map (\<lambda>i. Pushing (k + of_nat i)) [0..<n] @ map Popping (rev (map (\<lambda>i. k + of_nat i) [0..<n]))"

lemma number_shift: "map (\<lambda>i. f (k + of_nat i)) [0..<Suc n] = f k # map (\<lambda>i. f (k + 1 + of_nat i)) [0..<n]" for k :: "'a::len word"
  unfolding upt_conv_Cons [OF zero_less_Suc] by (simp add: map_Suc_upt [symmetric] comp_def ac_simps del: upt_Suc)

section \<open>The contract of a stack\<close>

text \<open>
  What the abstract class promises: an object in order holds a sequence, its top first, and a capacity, \<open>None\<close> if it cannot overflow.
\<close>

locale stack_class =
  fixes good_stack :: "'s \<Rightarrow> bool" and contents :: "'s \<Rightarrow> 'a list" and capacity :: "'s \<Rightarrow> nat option"
    and push :: "'a \<Rightarrow> 's \<Rightarrow> 's res" and pop :: "'s \<Rightarrow> ('a \<times> 's) res" and is_full :: "'s \<Rightarrow> bool" and is_empty :: "'s \<Rightarrow> bool"
  assumes push_law: "good_stack s \<Longrightarrow> \<not> is_full s \<Longrightarrow> \<exists>s'. push v s = Inr s' \<and> good_stack s' \<and> contents s' = v # contents s \<and> capacity s' = capacity s"
    and pop_law: "good_stack s \<Longrightarrow> contents s = v # vs \<Longrightarrow> \<exists>s'. pop s = Inr (v, s') \<and> good_stack s' \<and> contents s' = vs \<and> capacity s' = capacity s"
    and full_law: "good_stack s \<Longrightarrow> is_full s \<longleftrightarrow> capacity s = Some (length (contents s))"
    and empty_law: "good_stack s \<Longrightarrow> is_empty s \<longleftrightarrow> contents s = []"
    and fits: "good_stack s \<Longrightarrow> capacity s = Some n \<Longrightarrow> length (contents s) \<le> n"
begin

lemma pop_all:
  assumes "good_stack s" "length (contents s) < fuel"
  shows "\<exists>s'. pop_loop pop is_empty fuel s = Inr (map Popping (contents s), s') \<and> good_stack s' \<and> contents s' = [] \<and> capacity s' = capacity s"
  using assms
proof (induction fuel arbitrary: s)
  case (Suc fuel)
  show ?case
  proof (cases "contents s")
    case Nil
    then show ?thesis using Suc.prems empty_law by simp
  next
    case (Cons v vs)
    obtain s' where s': "pop s = Inr (v, s')" "good_stack s'" "contents s' = vs" "capacity s' = capacity s" using pop_law [OF Suc.prems(1) Cons] by blast
    then obtain s'' where "pop_loop pop is_empty fuel s' = Inr (map Popping vs, s'')" "good_stack s''" "contents s'' = []" "capacity s'' = capacity s"
      using Suc.IH [of s'] Suc.prems(2) Cons by auto
    then show ?thesis using s' Cons empty_law [OF Suc.prems(1)] by simp
  qed
qed simp

end

text \<open>A stack of numbers, with the self test.\<close>

locale number_stack = stack_class good_stack contents capacity push pop is_full is_empty
  for good_stack :: "'s \<Rightarrow> bool" and contents :: "'s \<Rightarrow> ('a::len word) list" and capacity :: "'s \<Rightarrow> nat option"
    and push :: "'a word \<Rightarrow> 's \<Rightarrow> 's res" and pop :: "'s \<Rightarrow> ('a word \<times> 's) res" and is_full :: "'s \<Rightarrow> bool" and is_empty :: "'s \<Rightarrow> bool"
begin

lemma push_some:
  assumes "good_stack s" "\<forall>c. capacity s = Some c \<longrightarrow> length (contents s) + n \<le> c"
  shows "\<exists>s'. push_loop push is_full n k s = Inr (map (\<lambda>i. Pushing (k + of_nat i)) [0..<n], s') \<and> good_stack s'
    \<and> contents s' = rev (map (\<lambda>i. k + of_nat i) [0..<n]) @ contents s \<and> capacity s' = capacity s"
  using assms
proof (induction n arbitrary: k s)
  case (Suc n)
  have nf: "\<not> is_full s" using full_law [OF Suc.prems(1)] Suc.prems(2) by auto
  obtain s1 where s1: "push k s = Inr s1" "good_stack s1" "contents s1 = k # contents s" "capacity s1 = capacity s" using push_law [OF Suc.prems(1) nf] by blast
  obtain s2 where s2: "push_loop push is_full n (k + 1) s1 = Inr (map (\<lambda>i. Pushing (k + 1 + of_nat i)) [0..<n], s2)" "good_stack s2"
      "contents s2 = rev (map (\<lambda>i. k + 1 + of_nat i) [0..<n]) @ contents s1" "capacity s2 = capacity s"
    using Suc.IH [OF s1(2), of "k + 1"] s1(3,4) Suc.prems(2) by auto
  show ?case using nf s1 s2 number_shift [of Pushing k n] number_shift [of "\<lambda>x. x" k n] by (simp add: assertE_def del: upt_Suc)
qed simp

lemma self_test:
  assumes "good_stack s" "contents s = []" "\<forall>c. capacity s = Some c \<longrightarrow> nat n \<le> c" "nat n < fuel"
  shows "\<exists>s'. SelfTest push pop is_full is_empty fuel n s = Inr (printed (nat n) 17, s') \<and> good_stack s' \<and> contents s' = []"
proof -
  obtain s1 where s1: "push_loop push is_full (nat n) 17 s = Inr (map (\<lambda>i. Pushing (17 + of_nat i)) [0..<nat n], s1)" "good_stack s1"
      "contents s1 = rev (map (\<lambda>i. 17 + of_nat i) [0..<nat n])"
    using push_some [OF assms(1), of "nat n" 17] assms(2,3) by auto
  obtain s2 where "pop_loop pop is_empty fuel s1 = Inr (map Popping (contents s1), s2)" "good_stack s2" "contents s2 = []"
    using pop_all [OF s1(2), of fuel] s1(3) assms(4) by auto
  then show ?thesis using s1 by (simp add: SelfTest_def printed_def)
qed

lemma fill:
  assumes "good_stack s" "capacity s = Some c" "c - length (contents s) < fuel"
  shows "\<exists>s'. fill_loop push is_full fuel k s = Inr (map (\<lambda>i. Pushing (k + of_nat i)) [0..<c - length (contents s)], s') \<and> good_stack s'
    \<and> contents s' = rev (map (\<lambda>i. k + of_nat i) [0..<c - length (contents s)]) @ contents s \<and> capacity s' = capacity s"
  using assms
proof (induction fuel arbitrary: k s)
  case (Suc fuel)
  show ?case
  proof (cases "is_full s")
    case True
    then show ?thesis using full_law [OF Suc.prems(1)] Suc.prems(1,2) by simp
  next
    case False
    have lt: "length (contents s) < c" using full_law [OF Suc.prems(1)] fits [OF Suc.prems(1,2)] False Suc.prems(2) by simp
    then obtain n where n: "c - length (contents s) = Suc n" by (metis Suc_diff_Suc)
    obtain s1 where s1: "push k s = Inr s1" "good_stack s1" "contents s1 = k # contents s" "capacity s1 = capacity s" using push_law [OF Suc.prems(1) False] by blast
    have n1: "c - length (contents s1) = n" using n s1(3) by simp
    obtain s2 where s2: "fill_loop push is_full fuel (k + 1) s1 = Inr (map (\<lambda>i. Pushing (k + 1 + of_nat i)) [0..<n], s2)" "good_stack s2"
        "contents s2 = rev (map (\<lambda>i. k + 1 + of_nat i) [0..<n]) @ contents s1" "capacity s2 = capacity s"
      using Suc.IH [OF s1(2), of "k + 1"] s1(4) Suc.prems(2,3) n n1 by auto
    show ?thesis unfolding n using False s1 s2 number_shift [of Pushing k n] number_shift [of "\<lambda>x. x" k n] by (simp del: upt_Suc)
  qed
qed simp

lemma self_test_fill:
  assumes "good_stack s" "contents s = []" "capacity s = Some c" "c < fuel"
  shows "\<exists>s'. SelfTest_fill push pop is_full is_empty fuel k s = Inr (printed c k, s') \<and> good_stack s' \<and> contents s' = []"
proof -
  obtain s1 where s1: "fill_loop push is_full fuel k s = Inr (map (\<lambda>i. Pushing (k + of_nat i)) [0..<c], s1)" "good_stack s1" "contents s1 = rev (map (\<lambda>i. k + of_nat i) [0..<c])"
    using fill [OF assms(1,3), of fuel k] assms(2,4) by auto
  obtain s2 where "pop_loop pop is_empty fuel s1 = Inr (map Popping (contents s1), s2)" "good_stack s2" "contents s2 = []"
    using pop_all [OF s1(2), of fuel] s1(3) assms(4) by auto
  then show ?thesis using s1 by (simp add: SelfTest_fill_def printed_def)
qed

end

section \<open>Both implementations meet the contract\<close>

definition array_good :: "'a ArrayStack \<Rightarrow> bool" where
  "array_good s \<longleftrightarrow> 0 \<le> top_index s \<and> top_index s \<le> size_of s \<and> length (stack s) = nat (size_of s)"

definition array_contents :: "'a ArrayStack \<Rightarrow> 'a list" where
  "array_contents s = rev (take (nat (top_index s)) (stack s))"

definition array_capacity :: "'a ArrayStack \<Rightarrow> nat option" where
  "array_capacity s = Some (nat (size_of s))"

lemma ArrayStack_Push_ok:
  assumes "array_good s" "\<not> ArrayStack_Full s"
  shows "\<exists>s'. ArrayStack_Push v s = Inr s' \<and> array_good s' \<and> array_contents s' = v # array_contents s \<and> array_capacity s' = array_capacity s"
proof -
  have i: "nat (top_index s) < length (stack s)" "nat (top_index s + 1) = Suc (nat (top_index s))"
    using assms by (auto simp: array_good_def ArrayStack_Full_def)
  then show ?thesis
    using assms by (simp add: ArrayStack_Push_def assertE_def arr_set_def array_good_def array_contents_def array_capacity_def ArrayStack_Full_def take_Suc_conv_app_nth)
qed

lemma ArrayStack_Pop_ok:
  assumes "array_good s" "array_contents s = v # vs"
  shows "\<exists>s'. ArrayStack_Pop s = Inr (v, s') \<and> array_good s' \<and> array_contents s' = vs \<and> array_capacity s' = array_capacity s"
proof -
  obtain n where n: "nat (top_index s) = Suc n" using assms(2) by (cases "nat (top_index s)") (auto simp: array_contents_def)
  then have i: "n < length (stack s)" "nat (top_index s - 1) = n" "0 < top_index s" using assms(1) by (auto simp: array_good_def)
  then have "v = stack s ! n" "vs = rev (take n (stack s))" using assms(2) n by (simp_all add: array_contents_def take_Suc_conv_app_nth)
  then show ?thesis using i assms(1)
    by (simp add: ArrayStack_Pop_def assertE_def arr_get_def array_good_def array_contents_def array_capacity_def ArrayStack_Empty_def Let_def)
qed

lemma array_laws:
  assumes "array_good s"
  shows "ArrayStack_Full s \<longleftrightarrow> array_capacity s = Some (length (array_contents s))" "ArrayStack_Empty s \<longleftrightarrow> array_contents s = []"
    "array_capacity s = Some n \<Longrightarrow> length (array_contents s) \<le> n"
  using assms by (auto simp: array_good_def ArrayStack_Full_def ArrayStack_Empty_def array_capacity_def array_contents_def)

interpretation array_stack: stack_class array_good array_contents array_capacity ArrayStack_Push ArrayStack_Pop ArrayStack_Full ArrayStack_Empty
  by unfold_locales (rule ArrayStack_Push_ok ArrayStack_Pop_ok array_laws, assumption+)+

text \<open>The cells that are reached from a pointer.\<close>

fun linked :: "'a Cell option list \<Rightarrow> nat option \<Rightarrow> nat list \<Rightarrow> 'a list \<Rightarrow> bool" where
  "linked cs p [] vs = (p = None \<and> vs = [])"
| "linked cs p (a # as) vs = (p = Some a \<and> a < length cs \<and> (\<exists>c. cs ! a = Some c \<and> (\<exists>ws. vs = item c # ws \<and> linked cs (next_cell c) as ws)))"

definition cells_of :: "'a CellList \<Rightarrow> nat list \<Rightarrow> 'a list \<Rightarrow> bool" where
  "cells_of l as vs \<longleftrightarrow> linked (cells l) (first l) as vs \<and> distinct as \<and> last_cell l = (if as = [] then None else Some (last as))"

definition list_good :: "'a CellList \<Rightarrow> bool" where
  "list_good l \<longleftrightarrow> (\<exists>as vs. cells_of l as vs)"

fun walk :: "nat \<Rightarrow> 'a Cell option list \<Rightarrow> nat option \<Rightarrow> 'a list" where
  "walk 0 cs p = []"
| "walk (Suc n) cs p = (case load_cell cs p of Inl _ \<Rightarrow> [] | Inr c \<Rightarrow> item c # walk n cs (next_cell c))"

definition list_contents :: "'a CellList \<Rightarrow> 'a list" where
  "list_contents l = walk (length (cells l)) (cells l) (first l)"

lemma linked_bound: "linked cs p as vs \<Longrightarrow> set as \<subseteq> {..<length cs}"
  by (induction as arbitrary: p vs) auto

lemma linked_walk: "linked cs p as vs \<Longrightarrow> length as \<le> n \<Longrightarrow> walk n cs p = vs"
proof (induction as arbitrary: p vs n)
  case Nil
  then show ?case by (cases n) (auto simp: load_cell_def)
next
  case (Cons a as)
  then show ?case by (cases n) (auto simp: load_cell_def)
qed

lemma linked_cong: "linked cs p as vs \<Longrightarrow> length cs \<le> length cs' \<Longrightarrow> \<forall>a \<in> set as. cs' ! a = cs ! a \<Longrightarrow> linked cs' p as vs"
  by (induction as arbitrary: p vs) auto

lemma cells_contents: "cells_of l as vs \<Longrightarrow> list_contents l = vs"
proof -
  assume l: "cells_of l as vs"
  have "length as \<le> length (cells l)"
    using card_mono [OF _ linked_bound] l by (metis cells_of_def card_lessThan distinct_card finite_lessThan)
  then show ?thesis using l linked_walk by (auto simp: cells_of_def list_contents_def)
qed

lemma cells_good: "cells_of l as vs \<Longrightarrow> list_good l \<and> list_contents l = vs"
  using cells_contents by (auto simp: list_good_def)

lemma list_goodE:
  assumes "list_good l"
  obtains as where "cells_of l as (list_contents l)"
  using assms cells_contents by (auto simp: list_good_def)

lemma CellList_Prepend_ok:
  assumes "list_good l"
  shows "\<exists>l'. CellList_Prepend v l = Inr l' \<and> list_good l' \<and> list_contents l' = v # list_contents l"
proof -
  obtain as where l: "cells_of l as (list_contents l)" by (rule list_goodE [OF assms])
  let ?n = "length (cells l)"
  let ?l = "\<lparr>cells = cells l @ [Some \<lparr>next_cell = first l, item = v\<rparr>], first = Some ?n, last_cell = (if as = [] then Some ?n else last_cell l)\<rparr>"
  have e: "first l = None \<longleftrightarrow> as = []" using l by (cases as) (auto simp: cells_of_def)
  have as: "set as \<subseteq> {..<?n}" using linked_bound [of "cells l" "first l" as "list_contents l"] l by (simp add: cells_of_def)
  have "linked (cells ?l) (first l) as (list_contents l)"
    by (rule linked_cong [of "cells l"]) (use l as in \<open>auto simp: cells_of_def nth_append\<close>)
  then have "cells_of ?l (?n # as) (v # list_contents l)" using l as by (auto simp: cells_of_def)
  moreover have "CellList_Prepend v l = Inr ?l" using e l by (auto simp: CellList_Prepend_def CellList_Empty_def Let_def cells_of_def)
  ultimately show ?thesis using cells_good by blast
qed

lemma CellList_Remove_ok:
  assumes "list_good l" "list_contents l = v # vs"
  shows "\<exists>l'. CellList_Remove l = Inr (v, l') \<and> list_good l' \<and> list_contents l' = vs"
proof -
  obtain bs where l: "cells_of l bs (v # vs)" using list_goodE [OF assms(1)] assms(2) by metis
  then obtain a as where bs: "bs = a # as" by (cases bs) (auto simp: cells_of_def)
  obtain c where c: "first l = Some a" "a < length (cells l)" "cells l ! a = Some c" "v = item c" "linked (cells l) (next_cell c) as vs" "a \<notin> set as" "distinct as"
      "last_cell l = Some (last (a # as))"
    using l by (auto simp: cells_of_def bs)
  have one: "first l = last_cell l \<longleftrightarrow> as = []" using c(1,6,8) by auto
  have nil: "as = [] \<Longrightarrow> next_cell c = None" using c(5) by simp
  let ?l = "\<lparr>cells = (cells l)[a := None], first = next_cell c, last_cell = (if as = [] then None else last_cell l)\<rparr>"
  have "linked (cells ?l) (next_cell c) as vs" by (rule linked_cong [OF c(5)]) (use c(6) in \<open>auto intro: nth_list_update_neq\<close>)
  then have "cells_of ?l as vs" using c by (auto simp: cells_of_def)
  moreover have "CellList_Remove l = Inr (v, ?l)"
    using c(1-4) one nil by (simp add: CellList_Remove_def CellList_Empty_def load_cell_def assertE_def Let_def)
  ultimately show ?thesis using cells_good by blast
qed

lemma CellList_Empty_iff: "list_good l \<Longrightarrow> CellList_Empty l \<longleftrightarrow> list_contents l = []"
proof -
  assume "list_good l"
  then obtain as where "cells_of l as (list_contents l)" by (rule list_goodE)
  then show ?thesis by (cases as) (auto simp: cells_of_def CellList_Empty_def)
qed

lemma CellList_new_ok [simp]: "list_good CellList_new" "list_contents CellList_new = []"
proof -
  have "cells_of CellList_new [] []" by (simp add: cells_of_def CellList_new_def)
  then show "list_good CellList_new" "list_contents CellList_new = []" using cells_good by blast+
qed

interpretation list_stack: stack_class list_good list_contents "\<lambda>_. None" ListStack_Push ListStack_Pop ListStack_Full ListStack_Empty
proof
  show "\<exists>s'. ListStack_Pop s = Inr (v, s') \<and> list_good s' \<and> list_contents s' = vs \<and> None = (None :: nat option)"
    if "list_good s" "list_contents s = v # vs" for s :: "'a ListStack" and v vs
    using CellList_Remove_ok [OF that] CellList_Empty_iff [OF that(1)] that(2) by (simp add: ListStack_Pop_def ListStack_Empty_def assertE_def)
qed (simp_all add: CellList_Prepend_ok CellList_Empty_iff ListStack_Push_def ListStack_Full_def ListStack_Empty_def)

interpretation array_numbers: number_stack array_good array_contents array_capacity ArrayStack_Push ArrayStack_Pop ArrayStack_Full ArrayStack_Empty
  by unfold_locales

interpretation list_numbers: number_stack list_good list_contents "\<lambda>_. None" ListStack_Push ListStack_Pop ListStack_Full ListStack_Empty
  by unfold_locales

section \<open>The programs\<close>

lemma ArrayStack_new_ok:
  assumes "1 \<le> sz"
  obtains s where "ArrayStack_new junk sz = Inr s" "array_good s" "array_contents s = []" "array_capacity s = Some (nat sz)"
  using assms that by (simp add: ArrayStack_new_def assertE_def array_good_def array_contents_def array_capacity_def)

lemma CellList_destroy_ok: "list_good l \<Longrightarrow> length (list_contents l) < fuel \<Longrightarrow> \<exists>l'. CellList_destroy fuel l = Inr l' \<and> list_contents l' = []"
proof (induction fuel arbitrary: l)
  case (Suc fuel)
  show ?case
  proof (cases "list_contents l")
    case (Cons v vs)
    then obtain l' where "CellList_Remove l = Inr (v, l')" "list_good l'" "list_contents l' = vs" using CellList_Remove_ok [OF Suc.prems(1)] by blast
    then show ?thesis using Suc.IH [of l'] Suc.prems Cons CellList_Empty_iff [OF Suc.prems(1)] by auto
  qed (use CellList_Empty_iff [OF Suc.prems(1)] in auto)
qed simp

text \<open>C24: The two implementations of the abstract class cannot be told apart. A new array stack of any size and a new list stack print the same in
  the self test: the numbers from 17 as they are pushed and then the same numbers backwards, for every number of elements that fits
  the array; both are empty at the end.\<close>

theorem stacks_print_the_same:
  fixes junk :: "nat \<Rightarrow> 32 word"
  assumes "1 \<le> sz" "n \<le> sz" "nat n < fuel" "ArrayStack_new junk sz = Inr s"
  shows "\<exists>s1 s2. SelfTest ArrayStack_Push ArrayStack_Pop ArrayStack_Full ArrayStack_Empty fuel n s = Inr (printed (nat n) 17, s1)
    \<and> SelfTest ListStack_Push ListStack_Pop ListStack_Full ListStack_Empty fuel n ListStack_new = Inr (printed (nat n) (17 :: 32 word), s2)
    \<and> ArrayStack_Empty s1 \<and> ListStack_Empty s2"
proof -
  obtain s' where "ArrayStack_new junk sz = Inr s'" "array_good s'" "array_contents s' = []" "array_capacity s' = Some (nat sz)"
    by (rule ArrayStack_new_ok [OF assms(1)])
  then have s: "array_good s" "array_contents s = []" "array_capacity s = Some (nat sz)" using assms(4) by simp_all
  obtain s1 where s1: "SelfTest ArrayStack_Push ArrayStack_Pop ArrayStack_Full ArrayStack_Empty fuel n s = Inr (printed (nat n) 17, s1)" "array_good s1" "array_contents s1 = []"
    using array_numbers.self_test [OF s(1,2) _ assms(3)] s(3) nat_mono [OF assms(2)] by auto
  obtain s2 :: "32 word ListStack" where s2: "SelfTest ListStack_Push ListStack_Pop ListStack_Full ListStack_Empty fuel n ListStack_new = Inr (printed (nat n) 17, s2)"
      "list_good s2" "list_contents s2 = []"
    using list_numbers.self_test [of ListStack_new n fuel] assms(3) by (auto simp: ListStack_new_def)
  show ?thesis using s1 s2 array_stack.empty_law list_stack.empty_law by blast
qed

theorem stacks_print_the_same_witness:
  "\<exists>s s1 s2. ArrayStack_new (\<lambda>_. 5) 10 = Inr s
    \<and> SelfTest ArrayStack_Push ArrayStack_Pop ArrayStack_Full ArrayStack_Empty 11 10 s = Inr (printed 10 (17 :: 32 word), s1)
    \<and> SelfTest ListStack_Push ListStack_Pop ListStack_Full ListStack_Empty 11 10 ListStack_new = Inr (printed 10 (17 :: 32 word), s2)"
proof -
  obtain s :: "32 word ArrayStack" where s: "ArrayStack_new (\<lambda>_. 5) 10 = Inr s" by (rule ArrayStack_new_ok [of 10 "\<lambda>_. 5"]) simp_all
  show ?thesis using stacks_print_the_same [of 10 10 11 "\<lambda>_. 5" s] s by auto
qed

text \<open>The main programs return, and print what their comments say.\<close>

lemma mains_print:
  assumes "10 < fuel"
  shows "inheritstack_main junk fuel = Inr (printed 10 17, printed 10 17)" "stack_main junk fuel = Inr (printed 10 17)"
    "templatestack_main junk junk' fuel = Inr (printed 10 17, printed 10 (of_char CHR ''a''))"
proof -
  obtain s :: "32 word ArrayStack" where s: "ArrayStack_new junk 10 = Inr s" "array_good s" "array_contents s = []" "array_capacity s = Some 10"
    by (rule ArrayStack_new_ok [of 10 junk]) simp_all
  obtain t :: "8 word ArrayStack" where t: "ArrayStack_new junk' 10 = Inr t" "array_good t" "array_contents t = []" "array_capacity t = Some 10"
    by (rule ArrayStack_new_ok [of 10 junk']) simp_all
  have a: "\<exists>s1. SelfTest ArrayStack_Push ArrayStack_Pop ArrayStack_Full ArrayStack_Empty fuel 10 s = Inr (printed 10 17, s1)"
    using array_numbers.self_test [OF s(2,3), of 10 fuel] s(4) assms by auto
  have l: "\<exists>s2 :: 32 word ListStack. SelfTest ListStack_Push ListStack_Pop ListStack_Full ListStack_Empty fuel 10 ListStack_new = Inr (printed 10 17, s2) \<and> list_good s2 \<and> list_contents s2 = []"
    using list_numbers.self_test [of "ListStack_new :: 32 word ListStack" 10 fuel] assms by (simp add: ListStack_new_def)
  show "inheritstack_main junk fuel = Inr (printed 10 17, printed 10 17)"
    using s(1) a l CellList_destroy_ok [where fuel = fuel] assms by (fastforce simp: inheritstack_main_def)
  have f: "\<exists>s1. SelfTest_fill ArrayStack_Push ArrayStack_Pop ArrayStack_Full ArrayStack_Empty fuel 17 s = Inr (printed 10 17, s1)"
    "\<exists>t1. SelfTest_fill ArrayStack_Push ArrayStack_Pop ArrayStack_Full ArrayStack_Empty fuel (of_char CHR ''a'') t = Inr (printed 10 (of_char CHR ''a''), t1)"
    using array_numbers.self_test_fill [OF s(2-4)] array_numbers.self_test_fill [OF t(2-4)] assms by blast+
  show "stack_main junk fuel = Inr (printed 10 17)" using s(1) f(1) by (auto simp: stack_main_def)
  show "templatestack_main junk junk' fuel = Inr (printed 10 17, printed 10 (of_char CHR ''a''))" using s(1) t(1) f by (auto simp: templatestack_main_def)
qed

end
