(* ===== verification/MipsExec.thy ===== *)
theory MipsExec
  imports Mipssim
begin

text \<open>
  The stand-alone MIPS interpreter under \<^verbatim>\<open>bin/\<close>: the instruction macros (\<^verbatim>\<open>instr.h\<close>, \<^verbatim>\<open>encode.h\<close>,
  \<^verbatim>\<open>int.h\<close>) and the loop of \<^verbatim>\<open>runprogram\<close> (\<^verbatim>\<open>execute.c\<close>) with the system calls it hands to the host
  (\<^verbatim>\<open>system.c\<close>). The lemmas relate one step of the interpreter to one step of the kernel's simulator of theory
  \<open>Mipssim\<close>, state where the interpreter departs from the architecture, and prove the bit count \<^verbatim>\<open>ilog2\<close>.
  Registers are \<^verbatim>\<open>int\<close> here: comparisons and \<^verbatim>\<open>>>\<close> are signed unless the source casts. \<^verbatim>\<open>char\<close> is signed.
  The tracing output is left out.
\<close>

section \<open>Instruction fields\<close>

text \<open>The macros of \<^verbatim>\<open>instr.h\<close> on a signed 32-bit instruction word: \<^verbatim>\<open>>>\<close> copies the sign bit.\<close>

definition f_rd :: "32 word \<Rightarrow> nat" where "f_rd i = unat (signed_drop_bit 11 i AND 0x1f)"
definition f_rt :: "32 word \<Rightarrow> nat" where "f_rt i = unat (signed_drop_bit 16 i AND 0x1f)"
definition f_rs :: "32 word \<Rightarrow> nat" where "f_rs i = unat (signed_drop_bit 21 i AND 0x1f)"
definition shamt :: "32 word \<Rightarrow> nat" where "shamt i = unat (signed_drop_bit 6 i AND 0x1f)"

definition immed :: "32 word \<Rightarrow> 32 word" where
  "immed i = (if i AND 0x8000 \<noteq> 0 then i OR (- 0x8000) else i AND 0x7fff)"

definition off26 :: "32 word \<Rightarrow> 32 word" where "off26 i = push_bit 2 (i AND (push_bit 26 1 - 1))"
definition top4 :: "32 word \<Rightarrow> 32 word" where "top4 i = i AND NOT (push_bit 28 1 - 1)"
definition off16 :: "32 word \<Rightarrow> 32 word" where "off16 i = push_bit 2 (immed i)"

text \<open>The two fields that select the instruction, and the codes of \<^verbatim>\<open>encode.h\<close>.\<close>

definition f_op :: "32 word \<Rightarrow> nat" where "f_op i = unat (signed_drop_bit 26 i AND 0x3f)"
definition f_func :: "32 word \<Rightarrow> nat" where "f_func i = unat (i AND 0x3f)"

abbreviation (input) "I_SPECIAL \<equiv> (0 :: nat)"
abbreviation (input) "I_BCOND \<equiv> (1 :: nat)"
abbreviation (input) "I_J \<equiv> (2 :: nat)"
abbreviation (input) "I_JAL \<equiv> (3 :: nat)"
abbreviation (input) "I_BEQ \<equiv> (4 :: nat)"
abbreviation (input) "I_BNE \<equiv> (5 :: nat)"
abbreviation (input) "I_BLEZ \<equiv> (6 :: nat)"
abbreviation (input) "I_BGTZ \<equiv> (7 :: nat)"
abbreviation (input) "I_ADDI \<equiv> (8 :: nat)"
abbreviation (input) "I_ADDIU \<equiv> (9 :: nat)"
abbreviation (input) "I_SLTI \<equiv> (10 :: nat)"
abbreviation (input) "I_SLTIU \<equiv> (11 :: nat)"
abbreviation (input) "I_ANDI \<equiv> (12 :: nat)"
abbreviation (input) "I_ORI \<equiv> (13 :: nat)"
abbreviation (input) "I_XORI \<equiv> (14 :: nat)"
abbreviation (input) "I_LUI \<equiv> (15 :: nat)"
abbreviation (input) "I_COP0 \<equiv> (16 :: nat)"
abbreviation (input) "I_COP1 \<equiv> (17 :: nat)"
abbreviation (input) "I_COP2 \<equiv> (18 :: nat)"
abbreviation (input) "I_COP3 \<equiv> (19 :: nat)"
abbreviation (input) "I_LB \<equiv> (32 :: nat)"
abbreviation (input) "I_LH \<equiv> (33 :: nat)"
abbreviation (input) "I_LWL \<equiv> (34 :: nat)"
abbreviation (input) "I_LW \<equiv> (35 :: nat)"
abbreviation (input) "I_LBU \<equiv> (36 :: nat)"
abbreviation (input) "I_LHU \<equiv> (37 :: nat)"
abbreviation (input) "I_LWR \<equiv> (38 :: nat)"
abbreviation (input) "I_SB \<equiv> (40 :: nat)"
abbreviation (input) "I_SH \<equiv> (41 :: nat)"
abbreviation (input) "I_SWL \<equiv> (42 :: nat)"
abbreviation (input) "I_SW \<equiv> (43 :: nat)"
abbreviation (input) "I_SWR \<equiv> (46 :: nat)"
abbreviation (input) "I_LWC0 \<equiv> (48 :: nat)"
abbreviation (input) "I_LWC3 \<equiv> (51 :: nat)"
abbreviation (input) "I_SWC0 \<equiv> (56 :: nat)"
abbreviation (input) "I_SWC3 \<equiv> (59 :: nat)"

abbreviation (input) "I_SLL \<equiv> (0 :: nat)"
abbreviation (input) "I_SRL \<equiv> (2 :: nat)"
abbreviation (input) "I_SRA \<equiv> (3 :: nat)"
abbreviation (input) "I_SLLV \<equiv> (4 :: nat)"
abbreviation (input) "I_SRLV \<equiv> (6 :: nat)"
abbreviation (input) "I_SRAV \<equiv> (7 :: nat)"
abbreviation (input) "I_JR \<equiv> (8 :: nat)"
abbreviation (input) "I_JALR \<equiv> (9 :: nat)"
abbreviation (input) "I_SYSCALL \<equiv> (12 :: nat)"
abbreviation (input) "I_BREAK \<equiv> (13 :: nat)"
abbreviation (input) "I_MFHI \<equiv> (16 :: nat)"
abbreviation (input) "I_MTHI \<equiv> (17 :: nat)"
abbreviation (input) "I_MFLO \<equiv> (18 :: nat)"
abbreviation (input) "I_MTLO \<equiv> (19 :: nat)"
abbreviation (input) "I_MULT \<equiv> (24 :: nat)"
abbreviation (input) "I_MULTU \<equiv> (25 :: nat)"
abbreviation (input) "I_DIV \<equiv> (26 :: nat)"
abbreviation (input) "I_DIVU \<equiv> (27 :: nat)"
abbreviation (input) "I_ADD \<equiv> (32 :: nat)"
abbreviation (input) "I_ADDU \<equiv> (33 :: nat)"
abbreviation (input) "I_SUB \<equiv> (34 :: nat)"
abbreviation (input) "I_SUBU \<equiv> (35 :: nat)"
abbreviation (input) "I_AND \<equiv> (36 :: nat)"
abbreviation (input) "I_OR \<equiv> (37 :: nat)"
abbreviation (input) "I_XOR \<equiv> (38 :: nat)"
abbreviation (input) "I_NOR \<equiv> (39 :: nat)"
abbreviation (input) "I_SLT \<equiv> (42 :: nat)"
abbreviation (input) "I_SLTU \<equiv> (43 :: nat)"

abbreviation (input) "I_BLTZ \<equiv> (0 :: nat)"
abbreviation (input) "I_BGEZ \<equiv> (1 :: nat)"
abbreviation (input) "I_BLTZAL \<equiv> (16 :: nat)"
abbreviation (input) "I_BGEZAL \<equiv> (17 :: nat)"

abbreviation (input) "I_NOP \<equiv> (0 :: 32 word)"

section \<open>State, memory and failures\<close>

text \<open>
  How a run of the interpreter stops: \<open>Exit\<close> is \<^verbatim>\<open>exit\<close> with its status; \<open>Fault\<close> is an
  access outside the array \<^verbatim>\<open>mem\<close>; \<open>Undefined\<close> is a C operation without a value (a shift by
  more than the width, a division by zero, the quotient that does not fit).
\<close>

datatype stop = Exit nat | Fault | Undefined

type_synonym 'a run = "stop + 'a"

definition bindS :: "'a run \<Rightarrow> ('a \<Rightarrow> 'b run) \<Rightarrow> 'b run" where
  "bindS m f = (case m of Inl e \<Rightarrow> Inl e | Inr x \<Rightarrow> f x)"

lemma bindS_simps [simp]: "bindS (Inr x) f = f x" "bindS (Inl e) f = Inl e"
  by (simp_all add: bindS_def)

text \<open>The globals and the two program counters of \<^verbatim>\<open>runprogram\<close>; \<open>ios\<close> is the operating system of the host.\<close>

record 'h Interp =
  Reg :: "nat \<Rightarrow> 32 word"
  HI :: "32 word"
  LO :: "32 word"
  ipc :: "32 word"
  inpc :: "32 word"
  imem :: "nat \<Rightarrow> byte"
  ios :: 'h

definition MEMSIZE :: nat where "MEMSIZE = 2 ^ 24"
definition memoffset :: "32 word" where "memoffset = 0x10000000"

text \<open>The index into \<^verbatim>\<open>mem\<close> of an address, and whether \<open>n\<close> bytes from there lie in the array.\<close>

definition mem_off :: "32 word \<Rightarrow> nat" where "mem_off a = unat (a - memoffset)"
definition mem_ok :: "32 word \<Rightarrow> nat \<Rightarrow> bool" where "mem_ok a n \<longleftrightarrow> mem_off a + n \<le> MEMSIZE"

definition fetch :: "bool \<Rightarrow> 32 word \<Rightarrow> 'h Interp \<Rightarrow> 32 word run" where
  "fetch big a s = (if mem_ok a 4 then Inr (host_read4 big (imem s) (mem_off a)) else Inl Fault)"

definition sfetch :: "bool \<Rightarrow> 32 word \<Rightarrow> 'h Interp \<Rightarrow> 32 word run" where
  "sfetch big a s = (if mem_ok a 2 then Inr (scast (host_read2 big (imem s) (mem_off a))) else Inl Fault)"

definition usfetch :: "bool \<Rightarrow> 32 word \<Rightarrow> 'h Interp \<Rightarrow> 32 word run" where
  "usfetch big a s = (if mem_ok a 2 then Inr (ucast (host_read2 big (imem s) (mem_off a))) else Inl Fault)"

definition cfetch :: "32 word \<Rightarrow> 'h Interp \<Rightarrow> 32 word run" where
  "cfetch a s = (if mem_ok a 1 then Inr (scast (imem s (mem_off a))) else Inl Fault)"

definition ucfetch :: "32 word \<Rightarrow> 'h Interp \<Rightarrow> 32 word run" where
  "ucfetch a s = (if mem_ok a 1 then Inr (ucast (imem s (mem_off a))) else Inl Fault)"

definition store :: "bool \<Rightarrow> 32 word \<Rightarrow> 32 word \<Rightarrow> 'h Interp \<Rightarrow> 'h Interp run" where
  "store big a v s = (if mem_ok a 4 then Inr (s\<lparr>imem := host_write4 big (imem s) (mem_off a) v\<rparr>) else Inl Fault)"

definition sstore :: "bool \<Rightarrow> 32 word \<Rightarrow> 32 word \<Rightarrow> 'h Interp \<Rightarrow> 'h Interp run" where
  "sstore big a v s = (if mem_ok a 2 then Inr (s\<lparr>imem := host_write2 big (imem s) (mem_off a) (ucast v)\<rparr>) else Inl Fault)"

definition cstore :: "32 word \<Rightarrow> 32 word \<Rightarrow> 'h Interp \<Rightarrow> 'h Interp run" where
  "cstore a v s = (if mem_ok a 1 then Inr (s\<lparr>imem := (imem s)(mem_off a := ucast v)\<rparr>) else Inl Fault)"

section \<open>System calls of the interpreted program\<close>

text \<open>
  The calls that \<^verbatim>\<open>system_trap\<close> hands to the host. A pointer is given as its distance from the
  start of \<^verbatim>\<open>mem\<close> (\<^verbatim>\<open>u_to_int_addr\<close>), except in \<^verbatim>\<open>fstat\<close>, which passes the program's number on.
  The host is a parameter: it sees the call, the array and its own state.
\<close>

datatype oscall = Os_read "32 word" "32 word" "32 word" | Os_write "32 word" "32 word" "32 word"
  | Os_open "32 word" "32 word" "32 word" | Os_lseek "32 word" "32 word" "32 word"
  | Os_ioctl "32 word" "32 word" "32 word" | Os_fstat "32 word" "32 word" | Os_getpagesize

type_synonym 'h os = "oscall \<Rightarrow> (nat \<Rightarrow> byte) \<Rightarrow> 'h \<Rightarrow> 32 word \<times> (nat \<Rightarrow> byte) \<times> 'h"

definition u_to_int_addr :: "32 word \<Rightarrow> 32 word" where "u_to_int_addr p = p - memoffset"
definition u_to_int_fd :: "32 word \<Rightarrow> 32 word" where "u_to_int_fd fd = fd"

definition setR :: "nat \<Rightarrow> 32 word \<Rightarrow> 'h Interp \<Rightarrow> 'h Interp" where
  "setR r v s = s\<lparr>Reg := (Reg s)(r := v)\<rparr>"

definition host_call :: "'h os \<Rightarrow> oscall \<Rightarrow> 'h Interp \<Rightarrow> 'h Interp" where
  "host_call os c s = (let (r, m, h) = os c (imem s) (ios s) in setR 1 r (s\<lparr>imem := m, ios := h\<rparr>))"

definition ioctl_request :: "32 word \<Rightarrow> 32 word" where
  "ioctl_request o1 = (let size = signed_drop_bit 16 o1 AND 0x7f; ioctl_group = signed_drop_bit 8 o1 AND 0xff in
     if ioctl_group = 0x74 \<and> size = 8 then (o1 AND NOT (push_bit 16 0x7f)) OR push_bit 16 6 else o1)"

definition system_trap :: "'h os \<Rightarrow> 'h Interp \<Rightarrow> 'h Interp run" where
  "system_trap os s =
     (let syscallno = Reg s 2; o0 = Reg s 4; o1 = Reg s 5; o2 = Reg s 6 in
      if syscallno = 1 then Inl (Exit 0)
      else if syscallno = 3 then Inr (host_call os (Os_read (u_to_int_fd o0) (u_to_int_addr o1) o2) s)
      else if syscallno = 4 then Inr (host_call os (Os_write (u_to_int_fd o0) (u_to_int_addr o1) o2) s)
      else if syscallno = 5 then Inr (host_call os (Os_open (u_to_int_addr o0) o1 o2) s)
      else if syscallno = 6 then Inr (setR 1 0 s)
      else if syscallno = 17 then Inr (setR 1 ((word_of_int (sint o0 sdiv 8192) + 1) * 8192) s)
      else if syscallno = 19 then Inr (host_call os (Os_lseek (u_to_int_fd o0) o1 o2) s)
      else if syscallno = 54 then
        Inr (setR 1 0 (host_call os (Os_ioctl (u_to_int_fd o0) (ioctl_request o1) (u_to_int_addr o2)) s))
      else if syscallno = 62 then Inr (host_call os (Os_fstat o1 o2) s)
      else if syscallno = 64 then Inr (host_call os Os_getpagesize s)
      else Inl (Exit 2))"

definition system_break :: "'h os \<Rightarrow> 'h Interp \<Rightarrow> 'h Interp run" where
  "system_break os s = system_trap os s"

section \<open>The instructions\<close>

abbreviation (input) set_npc :: "32 word \<Rightarrow> 'h Interp \<Rightarrow> 'h Interp" where
  "set_npc a s \<equiv> s\<lparr>inpc := a\<rparr>"

definition branch :: "bool \<Rightarrow> 32 word \<Rightarrow> 32 word \<Rightarrow> 'h Interp \<Rightarrow> 'h Interp run" where
  "branch c w xpc s = Inr (if c then set_npc (xpc + 4 + push_bit 2 (immed w)) s else s)"

definition shift_by :: "(nat \<Rightarrow> 32 word \<Rightarrow> 32 word) \<Rightarrow> 32 word \<Rightarrow> 32 word \<Rightarrow> nat \<Rightarrow> 'h Interp \<Rightarrow> 'h Interp run" where
  "shift_by f a b r s = (if unat a < 32 then Inr (setR r (f (unat a) b) s) else Inl Undefined)"

text \<open>Lines 104 to 133: shifts, register jumps, traps.\<close>

definition special_shift_jump :: "'h os \<Rightarrow> 32 word \<Rightarrow> 32 word \<Rightarrow> 'h Interp \<Rightarrow> 'h Interp run option" where
  "special_shift_jump os w xpc s =
     (let f = f_func w; a = Reg s (f_rs w); b = Reg s (f_rt w); rd = f_rd w in
      if f = I_SLL then Some (Inr (setR rd (push_bit (shamt w) b) s))
      else if f = I_SRL then Some (Inr (setR rd (drop_bit (shamt w) b) s))
      else if f = I_SRA then Some (Inr (setR rd (signed_drop_bit (shamt w) b) s))
      else if f = I_SLLV then Some (shift_by push_bit a b rd s)
      else if f = I_SRLV then Some (shift_by drop_bit a b rd s)
      else if f = I_SRAV then Some (shift_by signed_drop_bit a b rd s)
      else if f = I_JR then Some (Inr (set_npc a s))
      else if f = I_JALR then Some (Inr (setR rd (xpc + 8) (set_npc a s)))
      else if f = I_SYSCALL then Some (system_trap os s)
      else if f = I_BREAK then Some (system_break os s)
      else None)"

text \<open>
  Lines 140 to 177: the products. The upper half is put together from the partial products of
  16-bit halves, each an \<^verbatim>\<open>int\<close> that is shifted with its sign.
\<close>

definition product_hi :: "32 word \<Rightarrow> 32 word \<Rightarrow> 32 word" where
  "product_hi t1 t2 =
     (let t1l = t1 AND 0xffff; t1h = signed_drop_bit 16 t1 AND 0xffff;
          t2l = t2 AND 0xffff; t2h = signed_drop_bit 16 t2 AND 0xffff
      in t1h * t2h + signed_drop_bit 16 (t1h * t2l) + signed_drop_bit 16 (t2h * t1l))"

definition mult_signed :: "32 word \<Rightarrow> 32 word \<Rightarrow> 32 word \<times> 32 word" where
  "mult_signed a b =
     (let neg = (a <s 0) \<noteq> (b <s 0);
          t1 = (if a <s 0 then - a else a); t2 = (if b <s 0 then - b else b);
          lo = t1 * t2; hi = product_hi t1 t2
      in if neg then let lo' = NOT lo + 1 in (if lo' = 0 then NOT hi + 1 else NOT hi, lo') else (hi, lo))"

definition setHL :: "32 word \<times> 32 word \<Rightarrow> 'h Interp \<Rightarrow> 'h Interp" where
  "setHL p s = s\<lparr>HI := fst p, LO := snd p\<rparr>"

text \<open>Lines 135 to 187: HI and LO. A signed quotient that does not fit, and any quotient by zero, has no value.\<close>

definition special_hilo :: "32 word \<Rightarrow> 'h Interp \<Rightarrow> 'h Interp run option" where
  "special_hilo w s =
     (let f = f_func w; a = Reg s (f_rs w); b = Reg s (f_rt w) in
      if f = I_MFHI then Some (Inr (setR (f_rd w) (HI s) s))
      else if f = I_MTHI then Some (Inr (s\<lparr>HI := a\<rparr>))
      else if f = I_MFLO then Some (Inr (setR (f_rd w) (LO s) s))
      else if f = I_MTLO then Some (Inr (s\<lparr>LO := a\<rparr>))
      else if f = I_MULT then Some (Inr (setHL (mult_signed a b) s))
      else if f = I_MULTU then Some (Inr (setHL (product_hi a b, a * b) s))
      else if f = I_DIV then Some (if b = 0 \<or> a = 0x80000000 \<and> b = - 1 then Inl Undefined
        else Inr (setHL (word_of_int (sint a smod sint b), word_of_int (sint a sdiv sint b)) s))
      else if f = I_DIVU then Some (if b = 0 then Inl Undefined else Inr (setHL (a mod b, a div b) s))
      else None)"

text \<open>Lines 189 to 217: arithmetic, logic, comparisons. \<^verbatim>\<open>ADD\<close> and \<^verbatim>\<open>SUB\<close> do not trap.\<close>

definition special_alu :: "32 word \<Rightarrow> 'h Interp \<Rightarrow> 'h Interp run option" where
  "special_alu w s =
     (let f = f_func w; a = Reg s (f_rs w); b = Reg s (f_rt w); set = (\<lambda>v. Some (Inr (setR (f_rd w) v s))) in
      if f = I_ADD \<or> f = I_ADDU then set (a + b)
      else if f = I_SUB \<or> f = I_SUBU then set (a - b)
      else if f = I_AND then set (a AND b)
      else if f = I_OR then set (a OR b)
      else if f = I_XOR then set (a XOR b)
      else if f = I_NOR then set (NOT (a OR b))
      else if f = I_SLT then set (of_bool (a <s b))
      else if f = I_SLTU then set (of_bool (a < b))
      else None)"

definition exec_special :: "'h os \<Rightarrow> 32 word \<Rightarrow> 32 word \<Rightarrow> 'h Interp \<Rightarrow> 'h Interp run" where
  "exec_special os w xpc s =
     (case or_else (special_shift_jump os w xpc s) (or_else (special_hilo w s) (special_alu w s)) of
        Some r \<Rightarrow> r | None \<Rightarrow> Inl (Exit 2))"

definition exec_bcond :: "32 word \<Rightarrow> 32 word \<Rightarrow> 'h Interp \<Rightarrow> 'h Interp run" where
  "exec_bcond w xpc s =
     (let c = f_rt w; s' = setR 31 (xpc + 8) s in
      if c = I_BLTZ then branch (Reg s (f_rs w) <s 0) w xpc s
      else if c = I_BGEZ then branch (0 \<le>s Reg s (f_rs w)) w xpc s
      else if c = I_BLTZAL then branch (Reg s' (f_rs w) <s 0) w xpc s'
      else if c = I_BGEZAL then branch (0 \<le>s Reg s' (f_rs w)) w xpc s'
      else Inl (Exit 2))"

text \<open>Lines 250 to 297: jumps, branches, operations with an immediate operand.\<close>

definition exec_branch_imm :: "32 word \<Rightarrow> 32 word \<Rightarrow> 'h Interp \<Rightarrow> 'h Interp run option" where
  "exec_branch_imm w xpc s =
     (let f = f_op w; a = Reg s (f_rs w); b = Reg s (f_rt w); im = immed w;
          set = (\<lambda>v. Some (Inr (setR (f_rt w) v s)));
          target = (xpc AND 0xf0000000) OR push_bit 2 (w AND 0x03ffffff) in
      if f = I_J then Some (Inr (set_npc target s))
      else if f = I_JAL then Some (Inr (set_npc target (setR 31 (xpc + 8) s)))
      else if f = I_BEQ then Some (branch (a = b) w xpc s)
      else if f = I_BNE then Some (branch (a \<noteq> b) w xpc s)
      else if f = I_BLEZ then Some (branch (a \<le>s 0) w xpc s)
      else if f = I_BGTZ then Some (branch (0 <s a) w xpc s)
      else if f = I_ADDI \<or> f = I_ADDIU then set (a + im)
      else if f = I_SLTI then set (of_bool (a <s im))
      else if f = I_SLTIU then set (of_bool (a < im))
      else if f = I_ANDI then set (a AND im)
      else if f = I_ORI then set (a OR im)
      else if f = I_XORI then set (a XOR im)
      else if f = I_LUI then set (push_bit 16 w)
      else None)"

text \<open>Lines 299 to 326: loads. The value reaches its register at once, without a delay slot.\<close>

definition load_into :: "nat \<Rightarrow> 32 word run \<Rightarrow> 'h Interp \<Rightarrow> 'h Interp run" where
  "load_into r v s = bindS v (\<lambda>x. Inr (setR r x s))"

definition interp_load :: "bool \<Rightarrow> 32 word \<Rightarrow> 'h Interp \<Rightarrow> 'h Interp run option" where
  "interp_load big w s =
     (let f = f_op w; rt = f_rt w; i = Reg s (f_rs w) + immed w in
      if f = I_LB then Some (load_into rt (cfetch i s) s)
      else if f = I_LH then Some (load_into rt (sfetch big i s) s)
      else if f = I_LWL then Some (
        let s1 = setR rt (Reg s rt AND signed_drop_bit (8 * unat (- i AND 3)) (- 1)) s in
        bindS (fetch big (i AND 0xfffffffc) s1) (\<lambda>v.
          Inr (setR rt (Reg s1 rt OR push_bit (8 * unat (i AND 3)) v) s1)))
      else if f = I_LW then Some (load_into rt (fetch big i s) s)
      else if f = I_LBU then Some (load_into rt (ucfetch i s) s)
      else if f = I_LHU then Some (load_into rt (usfetch big i s) s)
      else if f = I_LWR then Some (
        let s1 = setR rt (Reg s rt AND push_bit (8 * unat (i AND 3)) (- 1)) s;
            s2 = (if i AND 3 = 0 then setR rt 0 s1 else s1) in
        bindS (fetch big (i AND 0xfffffffc) s2) (\<lambda>v.
          Inr (setR rt (Reg s2 rt OR signed_drop_bit (8 * unat (- i AND 3)) v) s2)))
      else None)"

text \<open>Lines 328 to 357: stores, and the instructions that end the run with status 2.\<close>

definition interp_store :: "bool \<Rightarrow> 32 word \<Rightarrow> 'h Interp \<Rightarrow> 'h Interp run" where
  "interp_store big w s =
     (let f = f_op w; i = Reg s (f_rs w) + immed w; b = Reg s (f_rt w) in
      if f = I_SB then cstore i b s
      else if f = I_SH then sstore big i b s
      else if f = I_SW then store big i b s
      else Inl (Exit 2))"

definition exec_instr :: "'h os \<Rightarrow> bool \<Rightarrow> 32 word \<Rightarrow> 32 word \<Rightarrow> 'h Interp \<Rightarrow> 'h Interp run" where
  "exec_instr os big w xpc s =
     (if f_op w = I_SPECIAL then exec_special os w xpc s
      else if f_op w = I_BCOND then exec_bcond w xpc s
      else case or_else (exec_branch_imm w xpc s) (interp_load big w s) of
        Some r \<Rightarrow> r | None \<Rightarrow> interp_store big w s)"

text \<open>One iteration of the loop of \<^verbatim>\<open>runprogram\<close>, and its first \<open>n\<close> iterations: the loop itself has no end.\<close>

definition interp_step :: "'h os \<Rightarrow> bool \<Rightarrow> 'h Interp \<Rightarrow> 'h Interp run" where
  "interp_step os big s =
     (let xpc = ipc s; s1 = s\<lparr>ipc := inpc s, inpc := inpc s + 4\<rparr> in
      bindS (fetch big xpc s1) (\<lambda>instr.
        let s2 = setR 0 0 s1 in
        if instr \<noteq> I_NOP then exec_instr os big instr xpc s2 else Inr s2))"

fun interp_n :: "nat \<Rightarrow> 'h os \<Rightarrow> bool \<Rightarrow> 'h Interp \<Rightarrow> 'h Interp run" where
  "interp_n 0 os big s = Inr s"
| "interp_n (Suc n) os big s = bindS (interp_step os big s) (interp_n n os big)"

section \<open>Agreement with the simulator of the kernel\<close>

lemma sdrop_mask: "signed_drop_bit n w AND mask k = drop_bit n w AND mask k" if "n + k \<le> 32" for w :: "32 word"
  using that by (auto intro!: bit_word_eqI simp: bit_simps split: if_splits)

lemma field_masks: "(0x1f :: 32 word) = mask 5" "(0x3f :: 32 word) = mask 6" "(0xffff :: 32 word) = mask 16"
  by (simp_all add: mask_eq_exp_minus_1)

lemma fields_unsigned:
  "f_rd w = unat (drop_bit 11 w AND 0x1f)" "f_rt w = unat (drop_bit 16 w AND 0x1f)"
  "f_rs w = unat (drop_bit 21 w AND 0x1f)" "shamt w = unat (drop_bit 6 w AND 0x1f)"
  "f_op w = unat (drop_bit 26 w AND 0x3f)"
  by (simp_all add: f_rd_def f_rt_def f_rs_def shamt_def f_op_def field_masks sdrop_mask)

lemma field_bounds [simp]: "f_rd w < 32" "f_rt w < 32" "f_rs w < 32" "shamt w < 32" "f_op w < 64" "f_func w < 64"
  by (simp_all add: fields_unsigned f_func_def unat_and_less)

lemma immed_extra: "immed w = (let e = w AND 0xffff in if e AND 0x8000 \<noteq> 0 then e OR 0xffff0000 else e)"
proof -
  have m: "(0x8000 :: 32 word) = 2 ^ 15" "(0xffff :: 32 word) = mask 16" "(0x7fff :: 32 word) = mask 15"
      "- (2 ^ 15) = NOT (mask 15 :: 32 word)" "(0xffff0000 :: 32 word) = NOT (mask 16)"
    by (simp_all add: mask_eq_exp_minus_1)
  have n: "n < 16 \<longleftrightarrow> n < 15 \<or> n = 15" for n :: nat by arith
  show ?thesis
    unfolding immed_def Let_def m and_exp_eq_0_iff_not_bit
    by (auto simp: bit_simps n intro!: bit_word_eqI)
qed

lemma bcond_field: "w AND 0x1f0000 = push_bit 16 (of_nat (f_rt w))" for w :: "32 word"
proof -
  have m: "(0x1f0000 :: 32 word) = push_bit 16 (mask 5)" by (simp add: mask_eq_exp_minus_1)
  have "w AND 0x1f0000 = push_bit 16 (drop_bit 16 w AND mask 5)"
    unfolding m by (rule bit_word_eqI) (auto simp: bit_simps)
  then show ?thesis by (simp add: fields_unsigned field_masks)
qed

lemma of_nat_32_eq: "j < 2 ^ 32 \<Longrightarrow> k < 2 ^ 32 \<Longrightarrow> ((of_nat j :: 32 word) = of_nat k) = (j = k)"
  by (simp add: word_of_nat_eq_iff take_bit_nat_eq_self)

text \<open>The simulator's decoder in terms of the fields.\<close>

definition bcond_op :: "nat \<Rightarrow> opcode" where
  "bcond_op k = (if k = 0 then OP_BLTZ else if k = 1 then OP_BGEZ else if k = 16 then OP_BLTZAL
     else if k = 17 then OP_BGEZAL else OP_UNIMP)"

definition decoded_extra :: "32 word \<Rightarrow> 32 word" where
  "decoded_extra w = (case snd (opTable ! f_op w) of IFMT \<Rightarrow> immed w | RFMT \<Rightarrow> of_nat (shamt w) | JFMT \<Rightarrow> w AND 0x3ffffff)"

lemma opTable_special: "k < 64 \<Longrightarrow> (fst (opTable ! k) = SPECIAL) = (k = 0) \<and> (fst (opTable ! k) = BCOND) = (k = 1)"
proof -
  have "\<forall>k \<in> set [0..<64]. (fst (opTable ! k) = SPECIAL) = (k = 0) \<and> (fst (opTable ! k) = BCOND) = (k = 1)"
    by code_simp
  then show "k < 64 \<Longrightarrow> ?thesis" by simp
qed

lemma push16_inj: "(push_bit 16 (of_nat j :: 32 word) = push_bit 16 (of_nat k)) = (j = k)" if "j < 32" "k < 32"
proof -
  have "push_bit 16 (of_nat j :: 32 word) = of_nat (j * 65536)" for j by (simp add: push_bit_eq_mult)
  then show ?thesis using that by (simp add: of_nat_32_eq del: of_nat_mult)
qed

lemma decode_fields:
  "Instruction_Decode w = Inr \<lparr>opCode = (if f_op w = 0 then specialTable ! f_func w else if f_op w = 1 then bcond_op (f_rt w)
      else fst (opTable ! f_op w)), rs = f_rs w, rt = f_rt w, rd = f_rd w, extra = decoded_extra w\<rparr>"
proof -
  obtain opc fmt where op: "opTable ! f_op w = (opc, fmt)" by fastforce
  have get: "arr_get opTable (unat (drop_bit 26 w AND 0x3f)) = Inr (opc, fmt)"
    by (simp add: fields_unsigned(5) [symmetric] op opTable_length)
  have sp: "arr_get specialTable (unat (w AND 0x3f)) = Inr (specialTable ! f_func w)"
    by (simp add: f_func_def [symmetric] opTable_length)
  have bc: "(if w AND 0x1f0000 = 0 then OP_BLTZ else if w AND 0x1f0000 = 0x10000 then OP_BGEZ
      else if w AND 0x1f0000 = 0x100000 then OP_BLTZAL else if w AND 0x1f0000 = 0x110000 then OP_BGEZAL else OP_UNIMP) = bcond_op (f_rt w)"
    using push16_inj [of "f_rt w" 0] push16_inj [of "f_rt w" 1] push16_inj [of "f_rt w" 16] push16_inj [of "f_rt w" 17]
    by (simp add: bcond_field bcond_op_def)
  have opc: "(opc = SPECIAL) = (f_op w = 0)" "(opc = BCOND) = (f_op w = 1)"
    using opTable_special [of "f_op w"] op by auto
  have ex: "(case fmt of
           IFMT \<Rightarrow> let e = w AND 0xffff in if e AND 0x8000 \<noteq> 0 then e OR 0xffff0000 else e
         | RFMT \<Rightarrow> drop_bit 6 w AND 0x1f
         | JFMT \<Rightarrow> w AND 0x3ffffff) = decoded_extra w"
    by (simp add: decoded_extra_def op immed_extra fields_unsigned(4) split: format.split)
  show ?thesis
    unfolding Instruction_Decode_def get Let_def [where f = "\<lambda>ex. bindE _ _"] bindE_Inr prod.case ex
    by (simp add: sp opc bc fields_unsigned(1,2,3) Let_def op)
qed

text \<open>
  The instructions on which the two interpreters agree, with the operands for which they do. The
  excluded operands are those where one of the two departs from the architecture: unsigned comparisons, signed
  logical shifts and the logical or of \<^verbatim>\<open>mipssim.cc\<close>; sign-extended logical immediates, the upper half of
  products and overflow without a trap in \<^verbatim>\<open>execute.c\<close>.
\<close>

definition agreed_special :: "bool \<Rightarrow> 32 word \<Rightarrow> 'h Interp \<Rightarrow> bool" where
  "agreed_special seq w s =
     (let f = f_func w; a = Reg s (f_rs w); b = Reg s (f_rt w) in
      f \<in> {I_SLL, I_JR, I_MFHI, I_MTHI, I_MFLO, I_MTLO, I_ADDU, I_SUBU, I_AND, I_XOR, I_NOR, I_SLTU}
      \<or> f \<in> {I_SRL, I_SRA} \<and> \<not> b <s 0
      \<or> f = I_SLLV \<and> unat a < 32
      \<or> f \<in> {I_SRLV, I_SRAV} \<and> unat a < 32 \<and> \<not> b <s 0
      \<or> f = I_JALR \<and> f_rs w \<noteq> f_rd w \<and> seq
      \<or> f \<in> {I_MULT, I_MULTU} \<and> unat a < 2 ^ 16 \<and> unat b < 2 ^ 16
      \<or> f = I_DIV \<and> b \<noteq> 0 \<and> \<not> a <s 0 \<and> \<not> b <s 0
      \<or> f = I_DIVU \<and> b \<noteq> 0
      \<or> f = I_ADD \<and> signed_range (sint a + sint b)
      \<or> f = I_SUB \<and> signed_range (sint a - sint b)
      \<or> f = I_OR \<and> a OR b = a
      \<or> f = I_SLT \<and> (a <s 0) = (b <s 0))"

definition agreed_bcond :: "bool \<Rightarrow> 32 word \<Rightarrow> bool" where
  "agreed_bcond seq w \<longleftrightarrow> seq \<and> f_rt w \<in> {I_BLTZ, I_BGEZ, I_BLTZAL, I_BGEZAL}"

definition agreed_imm :: "bool \<Rightarrow> 32 word \<Rightarrow> 32 word \<Rightarrow> 'h Interp \<Rightarrow> bool" where
  "agreed_imm seq w xpc s =
     (let f = f_op w; a = Reg s (f_rs w); im = immed w in
      f \<in> {I_J, I_JAL} \<and> seq \<and> (xpc + 8) AND 0xf0000000 = xpc AND 0xf0000000
      \<or> f \<in> {I_BEQ, I_BNE} \<and> seq
      \<or> f \<in> {I_BLEZ, I_BGTZ} \<and> seq \<and> \<not> a <s 0
      \<or> f = I_ADDI \<and> signed_range (sint a + sint im)
      \<or> f \<in> {I_ADDIU, I_SLTIU, I_LUI}
      \<or> f = I_SLTI \<and> (a <s 0) = (im <s 0)
      \<or> f \<in> {I_ANDI, I_ORI, I_XORI} \<and> \<not> im <s 0)"

definition agreed :: "bool \<Rightarrow> 32 word \<Rightarrow> 32 word \<Rightarrow> 'h Interp \<Rightarrow> bool" where
  "agreed seq w xpc s = (if f_op w = I_SPECIAL then agreed_special seq w s
     else if f_op w = I_BCOND then agreed_bcond seq w else agreed_imm seq w xpc s)"

definition same_regs :: "Machine \<Rightarrow> 'h Interp \<Rightarrow> bool" where
  "same_regs m s \<longleftrightarrow> (\<forall>r < 32. registers m r = Reg s r) \<and> registers m HiReg = HI s \<and> registers m LoReg = LO s"

definition same_end :: "Machine \<Rightarrow> 'h Interp \<Rightarrow> (exec \<times> Machine) res \<Rightarrow> 'h Interp run \<Rightarrow> bool" where
  "same_end m s x y \<longleftrightarrow> (\<exists>m' s'. x = Inr (Done (inpc s') 0 0, m') \<and> y = Inr s' \<and> same_regs m' s'
     \<and> ipc s' = ipc s \<and> (\<forall>r \<ge> 34. registers m' r = registers m r))"

lemma same_endI:
  "x = Inr (Done (inpc s') 0 0, m') \<Longrightarrow> y = Inr s' \<Longrightarrow> same_regs m' s' \<Longrightarrow> ipc s' = ipc s
     \<Longrightarrow> (\<And>r. 34 \<le> r \<Longrightarrow> registers m' r = registers m r) \<Longrightarrow> same_end m s x y"
  by (auto simp: same_end_def)

lemma same_regs_upd: "same_regs m s \<Longrightarrow> r < 32 \<Longrightarrow> same_regs (upd r v m) (setR r v s)"
  by (auto simp: same_regs_def upd_def setR_def reg_defs)

lemma same_end_set: "same_regs m s \<Longrightarrow> inpc s = next_pc m \<Longrightarrow> r < 32 \<Longrightarrow> v = v' \<Longrightarrow> same_end m s (set_reg r v m) (Inr (setR r v' s))"
  by (rule same_endI [where s' = "setR r v s" and m' = "upd r v m"])
    (auto simp: set_reg_def same_regs_upd, auto simp: setR_def upd_def)

lemma same_end_hilo:
  assumes "same_regs m s" "inpc s = next_pc m"
  shows "same_end m s (set_reg HiReg v m) (Inr (s\<lparr>HI := v\<rparr>))" "same_end m s (set_reg LoReg v m) (Inr (s\<lparr>LO := v\<rparr>))"
    "fst p = h \<Longrightarrow> snd p = l \<Longrightarrow> same_end m s (set_reg HiReg h (upd LoReg l m)) (Inr (setHL p s))"
    "fst p = h \<Longrightarrow> snd p = l \<Longrightarrow> same_end m s (set_reg LoReg l (upd HiReg h m)) (Inr (setHL p s))"
  using assms by (auto simp: same_end_def set_reg_def setHL_def same_regs_def upd_def reg_defs)

lemma same_end_branch:
  assumes "same_regs m s" "inpc s = next_pc m" "c = c'" "registers m NextPCReg = xpc + 4" "extra i = immed w"
  shows "same_end m s (branch_if c i m) (branch c' w xpc s)"
  using assms by (auto simp: same_end_def branch_if_def branch_def same_regs_def IndexToAddr_def)

lemma same_end_jump:
  "same_regs m s \<Longrightarrow> p = p' \<Longrightarrow> same_end m s (Inr (Done p 0 0, m)) (Inr (set_npc p' s))"
  by (auto simp: same_end_def same_regs_def)

lemma same_end_link:
  assumes "same_end (upd r v m) (setR r v s) x y" "r < 32"
  shows "same_end m s x y"
  using assms by (auto simp: same_end_def setR_def upd_def)

lemma sdrop_nonneg: "\<not> b <s 0 \<Longrightarrow> signed_drop_bit n b = drop_bit n b" for b :: "32 word"
  by (rule bit_word_eqI) (auto simp: bit_simps sless_0_iff dest: bit_imp_le_length)

lemma sign_tests: "(a AND SIGN_BIT = 0) = (\<not> a <s 0)" "0 \<le>s a \<longleftrightarrow> \<not> a <s 0" for a :: "32 word"
proof -
  show "(a AND SIGN_BIT = 0) = (\<not> a <s 0)" by (simp only: SIGN_BIT_def top_bit sless_0_iff)
  show "0 \<le>s a \<longleftrightarrow> \<not> a <s 0" by (simp add: word_sle_eq word_sless_alt not_less)
qed

lemma sless_same_sign: "(a <s 0) = (b <s 0) \<Longrightarrow> (a <s b) = (a < b)" for a b :: "32 word"
  using uint_range32 [of a] uint_range32 [of b]
  by (auto simp: sless_0_iff word_sless_alt sint_uint32 word_less_def)

lemma nonneg_tests: "\<not> a <s 0 \<Longrightarrow> (0 <s a) = (0 < a)" "\<not> a <s 0 \<Longrightarrow> (a \<le>s 0) = (a \<le> 0)" for a :: "32 word"
  using uint_range32 [of a]
  by (auto simp: sless_0_iff word_sless_alt word_sle_eq sint_uint32 word_less_def word_le_def)

lemma signed_div_nonneg:
  fixes a b :: "32 word"
  assumes "\<not> a <s 0" "\<not> b <s 0" "b \<noteq> 0"
  shows "word_of_int (sint a sdiv sint b) = a div b" "word_of_int (sint a smod sint b) = a mod b"
proof -
  have u: "sint a = uint a" "sint b = uint b" using assms by (simp_all add: sless_0_iff sint_uint32)
  have p: "0 < uint b" using assms(3) uint_range32(1) [of b] by (simp add: less_le uint_0_iff)
  show "word_of_int (sint a sdiv sint b) = a div b" "word_of_int (sint a smod sint b) = a mod b"
    by (simp_all add: u sdiv_nonneg smod_nonneg p word_div_def word_mod_def)
qed

lemma small_uint: "unat a < 2 ^ 16 \<Longrightarrow> uint a < 0x10000" for a :: "32 word"
proof -
  assume "unat a < 2 ^ 16"
  then have "int (unat a) < int (2 ^ 16)" by (simp only: of_nat_less_iff)
  then show ?thesis by simp
qed

lemma small_nonneg: "unat a < 2 ^ 16 \<Longrightarrow> \<not> a <s 0" for a :: "32 word"
proof -
  assume "unat a < 2 ^ 16"
  from small_uint [OF this] have "uint a < 0x80000000" by linarith
  then show ?thesis by (simp only: sless_0_iff bit31_uint not_le)
qed

lemma small_halves: "signed_drop_bit 16 a = 0" if "unat a < 2 ^ 16" for a :: "32 word"
proof -
  have "drop_bit 16 a = 0" using that by (simp add: drop_bit_eq_div unat_eq_zero [symmetric] unat_div del: unat_eq_zero)
  then show ?thesis using small_nonneg [OF that] by (simp add: sdrop_nonneg)
qed

lemma product_hi_small: "unat a < 2 ^ 16 \<Longrightarrow> unat b < 2 ^ 16 \<Longrightarrow> product_hi a b = 0"
  by (simp add: product_hi_def Let_def small_halves)

lemma mult_signed_small: "unat a < 2 ^ 16 \<Longrightarrow> unat b < 2 ^ 16 \<Longrightarrow> mult_signed a b = (0, a * b)"
  by (simp add: mult_signed_def Let_def small_nonneg product_hi_small)

lemma dword_small:
  assumes "dword (hi, lo) = ucast b * ucast a" "unat a < 2 ^ 16" "unat b < 2 ^ 16"
  shows "hi = 0 \<and> lo = a * b"
proof -
  have u: "uint a < 0x10000" "uint b < 0x10000" by (rule small_uint, rule assms)+
  have ab: "uint a * uint b < 0x10000 * 0x10000" 
    by (rule mult_strict_mono [OF u]) simp_all
  have "uint (dword (hi, lo)) = uint hi * 0x100000000 + uint lo"
    using uint_range32 [of hi] uint_range32 [of lo]
    by (simp add: dword_def two32_def uint_word_ariths uint_up_ucast is_up mod_pos_pos_trivial)
  moreover have "uint (ucast b * ucast a :: 64 word) = uint b * uint a"
    using ab by (simp add: uint_word_ariths uint_up_ucast is_up mod_pos_pos_trivial mult.commute)
  ultimately have e: "uint hi * 0x100000000 + uint lo = uint a * uint b"
    using assms(1) by (simp add: mult.commute)
  then have "uint hi = 0" using ab uint_range32 [of hi] uint_range32 [of lo] by linarith
  moreover from this e have "uint lo = uint (a * b)"
    using ab by (simp add: uint_word_ariths mod_pos_pos_trivial)
  ultimately show ?thesis by (simp add: word_uint_eq_iff)
qed

lemma Mult_small:
  assumes "unat a < 2 ^ 16" "unat b < 2 ^ 16"
  shows "Mult a b sg = (0, a * b)"
proof -
  obtain hi lo where l: "Mult_loop 32 a 0 b 0 0 = (hi, lo)" by fastforce
  have "hi = 0 \<and> lo = a * b" using dword_small [OF _ assms] Mult_loop_32 [of a b] l by simp
  then show ?thesis using l assms by (auto simp: Mult_def Let_def small_nonneg)
qed

lemmas groups = exec_switch_def or_else_def exec_add_branch_def exec_div_jump_def exec_load_def exec_load_part_def
  exec_mult_or_def exec_store_shift_def exec_store_part_def

lemma same_reg: "same_regs m s \<Longrightarrow> r < 32 \<Longrightarrow> registers m r = Reg s r"
  by (simp add: same_regs_def)

lemma special_table:
  "specialTable ! 0 = OP_SLL" "specialTable ! 2 = OP_SRL" "specialTable ! 3 = OP_SRA" "specialTable ! 4 = OP_SLLV"
  "specialTable ! 6 = OP_SRLV" "specialTable ! 7 = OP_SRAV" "specialTable ! 8 = OP_JR" "specialTable ! 9 = OP_JALR"
  "specialTable ! 16 = OP_MFHI" "specialTable ! 17 = OP_MTHI" "specialTable ! 18 = OP_MFLO" "specialTable ! 19 = OP_MTLO"
  "specialTable ! 24 = OP_MULT" "specialTable ! 25 = OP_MULTU" "specialTable ! 26 = OP_DIV" "specialTable ! 27 = OP_DIVU"
  "specialTable ! 32 = OP_ADD" "specialTable ! 33 = OP_ADDU" "specialTable ! 34 = OP_SUB" "specialTable ! 35 = OP_SUBU"
  "specialTable ! 36 = OP_AND" "specialTable ! 37 = OP_OR" "specialTable ! 38 = OP_XOR" "specialTable ! 39 = OP_NOR"
  "specialTable ! 42 = OP_SLT" "specialTable ! 43 = OP_SLTU"
  by code_simp+

lemma op_table:
  "opTable ! 0 = (SPECIAL, RFMT)" "opTable ! Suc 0 = (BCOND, IFMT)" "opTable ! 2 = (OP_J, JFMT)" "opTable ! 3 = (OP_JAL, JFMT)"
  "opTable ! 4 = (OP_BEQ, IFMT)" "opTable ! 5 = (OP_BNE, IFMT)" "opTable ! 6 = (OP_BLEZ, IFMT)" "opTable ! 7 = (OP_BGTZ, IFMT)"
  "opTable ! 8 = (OP_ADDI, IFMT)" "opTable ! 9 = (OP_ADDIU, IFMT)" "opTable ! 10 = (OP_SLTI, IFMT)"
  "opTable ! 11 = (OP_SLTIU, IFMT)" "opTable ! 12 = (OP_ANDI, IFMT)" "opTable ! 13 = (OP_ORI, IFMT)"
  "opTable ! 14 = (OP_XORI, IFMT)" "opTable ! 15 = (OP_LUI, IFMT)"
  by code_simp+

abbreviation decode_word :: "32 word \<Rightarrow> Instruction" where
  "decode_word w \<equiv> \<lparr>opCode = (if f_op w = 0 then specialTable ! f_func w else if f_op w = 1 then bcond_op (f_rt w)
      else fst (opTable ! f_op w)), rs = f_rs w, rt = f_rt w, rd = f_rd w, extra = decoded_extra w\<rparr>"

lemma unat_amount: "unat a < 32 \<Longrightarrow> unat (a AND 0x1f) = unat a" for a :: "32 word"
  by (simp add: field_masks take_bit_eq_mask [symmetric] unsigned_take_bit_eq take_bit_nat_eq_self)


lemma add_no_overflow:
  "signed_range (sint a + sint b) \<Longrightarrow> \<not> ((a XOR b) AND SIGN_BIT = 0 \<and> (a XOR (a + b)) AND SIGN_BIT \<noteq> 0)"
  "signed_range (sint a + sint b) \<Longrightarrow> \<not> ((a XOR b) AND SIGN_BIT = 0 \<and> (b XOR (a + b)) AND SIGN_BIT \<noteq> 0)"
  "signed_range (sint a - sint b) \<Longrightarrow> \<not> ((a XOR b) AND SIGN_BIT \<noteq> 0 \<and> (a XOR (a - b)) AND SIGN_BIT \<noteq> 0)"
  for a b :: "32 word"
  using add_overflow [of a b] sub_overflow [of a b] by (auto simp: sign_xor)

lemma special_agrees:
  assumes s: "same_regs m s" "inpc s = next_pc m" and "f_op w = 0" "agreed_special seq w s"
    and seq: "seq \<Longrightarrow> registers m NextPCReg = xpc + 4"
  shows "same_end m s (exec_switch (decode_word w) m) (exec_special os w xpc s)"
proof -
  note r [simp] = same_reg [OF s(1)]
  have hl [simp]: "registers m HiReg = HI s" "registers m LoReg = LO s" using s by (simp_all add: same_regs_def)
  have sh: "unat (of_nat (shamt w) :: 32 word) = shamt w"
    by (simp add: unat_of_nat) (rule mod_less, rule less_trans [OF field_bounds(4)], simp)
  note fs = assms(3) special_table op_table groups Let_def exec_special_def special_shift_jump_def special_hilo_def special_alu_def
    decoded_extra_def sh shift_by_def
  note intros = same_end_set [OF s] same_end_hilo [OF s] same_end_jump [OF s(1)]
  from assms(4) show ?thesis unfolding agreed_special_def Let_def
  proof (elim disjE conjE, goal_cases)
    case 1
    then show ?thesis by (elim insertE emptyE) (simp_all add: fs intros)
  next
    case 2
    then show ?thesis by (elim insertE emptyE) (simp_all add: fs sdrop_nonneg intros)
  next
    case 3
    then show ?thesis by (simp add: fs unat_amount intros)
  next
    case 4
    then show ?thesis by (elim insertE emptyE) (simp_all add: fs unat_amount sdrop_nonneg intros)
  next
    case 5
    have n: "next_pc m = xpc + 8" using seq [OF 5(3)] by simp
    have l: "same_regs (upd (f_rd w) (xpc + 8) m) (setR (f_rd w) (xpc + 8) s)" by (rule same_regs_upd [OF s(1)]) simp
    have c: "registers (upd (f_rd w) (xpc + 8) m) (f_rs w) = Reg s (f_rs w)"
        "setR (f_rd w) (xpc + 8) (set_npc a s) = set_npc a (setR (f_rd w) (xpc + 8) s)" for a
      using 5(2) by (simp_all add: upd_def setR_def)
    show ?thesis using 5(1) by (simp add: fs n c) (rule same_end_link [OF same_end_jump [OF l refl]], simp)
  next
    case 6
    then show ?thesis by (elim insertE emptyE) (simp_all add: fs Mult_small mult_signed_small product_hi_small intros)
  next
    case 7
    moreover have "Reg s (f_rs w) \<noteq> 0x80000000" using 7(3) by (auto simp: sless_0_iff bit31_uint)
    moreover have "registers (upd LoReg v m) (f_rs w) = Reg s (f_rs w)" "registers (upd LoReg v m) (f_rt w) = Reg s (f_rt w)" for v
      using field_bounds [of w] by (auto simp: upd_def reg_defs simp del: field_bounds)
    ultimately show ?thesis by (simp add: fs signed_div_nonneg intros)
  next
    case 8
    then show ?thesis by (simp add: fs intros)
  next
    case 9
    then show ?thesis using add_no_overflow(1) by (auto simp: fs intro!: intros)
  next
    case 10
    then show ?thesis using add_no_overflow(3) by (auto simp: fs intro!: intros)
  next
    case 11
    then show ?thesis by (simp add: fs intros)
  next
    case 12
    then show ?thesis by (simp add: fs sless_same_sign intros)
  qed
qed

lemma bcond_agrees:
  assumes s: "same_regs m s" "inpc s = next_pc m" and w: "f_op w = 1" "agreed_bcond seq w"
    and seq: "seq \<Longrightarrow> registers m NextPCReg = xpc + 4"
  shows "same_end m s (exec_switch (decode_word w) m) (exec_bcond w xpc s)"
proof -
  have n: "registers m NextPCReg = xpc + 4" using w(2) seq by (simp add: agreed_bcond_def)
  have n8: "next_pc m = xpc + 8" using n by simp
  note r [simp] = same_reg [OF s(1)]
  note fs = w(1) op_table groups Let_def exec_bcond_def decoded_extra_def bcond_op_def sign_tests R31_def
  have l: "same_regs (upd 31 (xpc + 8) m) (setR 31 (xpc + 8) s)" by (rule same_regs_upd [OF s(1)]) simp
  have l': "registers (upd 31 (xpc + 8) m) (f_rs w) = Reg (setR 31 (xpc + 8) s) (f_rs w)"
    by (rule same_reg [OF l]) simp
  have n': "inpc (setR 31 (xpc + 8) s) = next_pc (upd 31 (xpc + 8) m)" "registers (upd 31 (xpc + 8) m) NextPCReg = xpc + 4"
    using s n by (simp_all add: upd_def setR_def reg_defs)
  note link = same_end_link [OF same_end_branch [OF l n'(1) _ n'(2)], of _ _ _ _, simplified]
  from w(2) consider "f_rt w = I_BLTZ" | "f_rt w = I_BGEZ" | "f_rt w = I_BLTZAL" | "f_rt w = I_BGEZAL"
    by (auto simp: agreed_bcond_def)
  then show ?thesis
  proof cases
    case 1
    then show ?thesis by (auto simp: fs intro!: same_end_branch [OF s _ n])
  next
    case 2
    then show ?thesis by (auto simp: fs intro!: same_end_branch [OF s _ n])
  next
    case 3
    then show ?thesis by (simp add: fs n8 l' link)
  next
    case 4
    then show ?thesis by (simp add: fs n8 l' link)
  qed
qed

lemma immed_nonneg: "\<not> immed w <s 0 \<Longrightarrow> immed w AND 0xffff = immed w"
proof -
  have "immed w AND 0xffff = immed w" if "w AND 0x8000 = 0"
    using that by (simp add: immed_def and.assoc)
  moreover have "immed w <s 0" if "w AND 0x8000 \<noteq> 0"
    using that by (simp add: immed_def sless_0_iff bit_simps)
  ultimately show "\<not> immed w <s 0 \<Longrightarrow> ?thesis" by blast
qed

lemma push16_immed: "push_bit 16 (immed w) = push_bit 16 w"
proof -
  have m: "(- 0x8000 :: 32 word) = NOT (mask 15)" "(0x7fff :: 32 word) = mask 15" by (simp_all add: mask_eq_exp_minus_1)
  have b: "(w AND 0x8000 \<noteq> 0) = bit w 15" using and_exp_eq_0_iff_not_bit [of w 15] by simp
  have "bit (immed w) k = bit w k" if "k < 16" for k
  proof (cases "k = 15")
    case True
    then show ?thesis unfolding immed_def b m by (simp add: bit_or_iff bit_and_iff bit_not_iff bit_mask_iff del: mask_numeral)
  next
    case False
    then have "k < 15" using that by simp
    then show ?thesis unfolding immed_def b m by (simp add: bit_or_iff bit_and_iff bit_not_iff bit_mask_iff del: mask_numeral)
  qed
  then show ?thesis by (auto simp: bit_push_bit_iff intro!: bit_word_eqI)
qed

lemma imm_agrees:
  assumes s: "same_regs m s" "inpc s = next_pc m" and w: "f_op w \<noteq> 0" "f_op w \<noteq> 1" "agreed_imm seq w xpc s"
    and seq: "seq \<Longrightarrow> registers m NextPCReg = xpc + 4"
  shows "same_end m s (exec_switch (decode_word w) m) (exec_instr os big w xpc s)"
proof -
  note r [simp] = same_reg [OF s(1)]
  note fs = op_table groups Let_def exec_instr_def exec_branch_imm_def decoded_extra_def
  note intros = same_end_set [OF s]
  show ?thesis using w(3) unfolding agreed_imm_def Let_def
  proof (elim disjE conjE, goal_cases)
    case 1
    have l: "same_regs (upd 31 (xpc + 8) m) (setR 31 (xpc + 8) s)" by (rule same_regs_upd [OF s(1)]) simp
    note link = same_end_link [OF same_end_jump [OF l], simplified]
    have n: "next_pc m = xpc + 8" using seq [OF 1(2)] by simp
    note t = fs IndexToAddr_def R31_def n 1(3)
    from 1(1) consider "f_op w = 2" | "f_op w = 3" by blast
    then show ?thesis
    proof cases
      case 1
      show ?thesis by (simp add: t 1) (rule same_end_jump [OF s(1) refl])
    next
      case 2
      show ?thesis by (simp add: t 2) (rule link, simp)
    qed
  next
    case 2
    note b = same_end_branch [OF s _ seq [OF 2(2)]]
    show ?thesis using 2(1) by (elim insertE emptyE) (simp_all add: fs b)
  next
    case 3
    note b = same_end_branch [OF s _ seq [OF 3(2)]]
    show ?thesis using 3(1,3) by (elim insertE emptyE) (simp_all add: fs nonneg_tests b del: word_le_0_iff word_neq_0_conv)
  next
    case 4
    then show ?thesis using add_no_overflow(2) by (auto simp: fs intro!: intros)
  next
    case 5
    then show ?thesis by (elim insertE emptyE) (simp_all add: fs push16_immed intros)
  next
    case 6
    then show ?thesis by (simp add: fs sless_same_sign intros)
  next
    case 7
    then show ?thesis by (elim insertE emptyE) (simp_all add: fs immed_nonneg intros)
  qed
qed

lemma switch_agrees:
  assumes "same_regs m s" "inpc s = next_pc m" "agreed seq w xpc s" "seq \<Longrightarrow> registers m NextPCReg = xpc + 4"
  shows "same_end m s (exec_switch (decode_word w) m) (exec_instr os big w xpc s)"
proof (cases "f_op w = 0")
  case True
  then show ?thesis using special_agrees [OF assms(1,2) True _ assms(4)] assms(3) by (simp add: agreed_def exec_instr_def)
next
  case F: False
  show ?thesis
  proof (cases "f_op w = 1")
    case True
    then show ?thesis using bcond_agrees [OF assms(1,2) True _ assms(4)] assms(3) by (simp add: agreed_def exec_instr_def)
  next
    case False
    then show ?thesis using imm_agrees [OF assms(1,2) F False _ assms(4)] F assms(3) by (simp add: agreed_def)
  qed
qed

text \<open>
  The states between two instructions correspond: equal general registers (register 0 of the interpreter is only reset when the
  next instruction starts), products and program counters, and no load pending in the simulator.
\<close>

definition in_step :: "Machine \<Rightarrow> 'h Interp \<Rightarrow> bool" where
  "in_step m s \<longleftrightarrow> (\<forall>r. 0 < r \<and> r < 32 \<longrightarrow> registers m r = Reg s r) \<and> registers m 0 = 0
     \<and> registers m HiReg = HI s \<and> registers m LoReg = LO s
     \<and> registers m PCReg = ipc s \<and> registers m NextPCReg = inpc s \<and> registers m LoadReg = 0"

lemma nop_agreed: "agreed seq 0 xpc s"
  by (simp add: agreed_def f_op_def agreed_special_def f_func_def Let_def)

lemma exec_nop: "setR 0 0 s = s \<Longrightarrow> exec_instr os big 0 xpc s = Inr s"
proof -
  assume z: "setR 0 0 s = s"
  then have "Reg s 0 = 0" by (metis Interp.select_convs(1) Interp.surjective Interp.update_convs(1) fun_upd_same setR_def)
  with z show ?thesis
    by (simp add: exec_instr_def f_op_def exec_special_def special_shift_jump_def f_func_def Let_def or_else_def shamt_def
        f_rt_def f_rd_def)
qed

lemma same_after_fetch:
  assumes "in_step m s" "registers m1 = registers m"
  shows "same_regs m1 (setR 0 0 (s\<lparr>ipc := inpc s, inpc := inpc s + 4\<rparr>))"
  using assms by (auto simp: in_step_def same_regs_def setR_def)

lemma agreed_cong: "Reg s' = Reg s \<Longrightarrow> agreed seq w xpc s' = agreed seq w xpc s"
  unfolding agreed_def agreed_special_def agreed_imm_def by simp

text \<open>C20: The two MIPS interpreters of the repository agree. From corresponding states, with the same instruction
  word at the program counter, an instruction and operands of the set \<open>agreed\<close> (all of the arithmetic, logic,
  shift, jump and branch instructions, outside the listed operands, and branches and links outside a delay slot) are
  executed by the simulator of the kernel without a trap and by the stand-alone interpreter without stopping, and
  the states correspond again.\<close>

theorem interpreters_agree:
  assumes "tables_ok m" "in_step m s" "ReadMem (registers m PCReg) 4 m = Inr (Inr w, m1)" "fetch big (ipc s) s = Inr w"
    and "agreed (inpc s = ipc s + 4) w (ipc s) (setR 0 0 s)"
  shows "\<exists>m' s'. OneInstruction m = Inr (None, m') \<and> interp_step os big s = Inr s' \<and> in_step m' s'"
proof -
  let ?s = "setR 0 0 (s\<lparr>ipc := inpc s, inpc := inpc s + 4\<rparr>)"
  have r1: "registers m1 = registers m"
    by (rule ReadMem_outcome [OF assms(1), of 4 "registers m PCReg"]) (use assms(3) in auto)
  have a: "agreed (inpc s = ipc s + 4) w (ipc s) ?s"
    using assms(5) agreed_cong [of ?s "setR 0 0 s"] by (simp add: setR_def)
  have n: "inpc ?s = next_pc m1" using assms(2) r1 by (simp add: in_step_def setR_def)
  have e: "same_end m1 ?s (exec_switch (decode_word w) m1) (exec_instr os big w (ipc s) ?s)"
    by (rule switch_agrees [OF same_after_fetch [OF assms(2) r1] n a]) (use assms(2) r1 in \<open>simp add: in_step_def\<close>)
  have f: "fetch big (ipc s) (s\<lparr>ipc := inpc s, inpc := inpc s + 4\<rparr>) = Inr w"
    using assms(4) by (simp add: fetch_def split: if_splits)
  have nop: "exec_instr os big 0 (ipc s) ?s = Inr ?s" by (rule exec_nop) (simp add: setR_def)
  have "interp_step os big s = (if w \<noteq> 0 then exec_instr os big w (ipc s) ?s else Inr ?s)"
    using f by (simp add: interp_step_def Let_def)
  also have "\<dots> = exec_instr os big w (ipc s) ?s" using nop by simp
  finally have i: "interp_step os big s = exec_instr os big w (ipc s) ?s" .
  obtain m2 s' where x: "exec_switch (decode_word w) m1 = Inr (Done (inpc s') 0 0, m2)" "exec_instr os big w (ipc s) ?s = Inr s'"
      "same_regs m2 s'" "ipc s' = ipc ?s" "\<forall>r \<ge> 34. registers m2 r = registers m1 r"
    using e by (auto simp: same_end_def)
  have l: "registers m2 LoadReg = 0" "registers m2 NextPCReg = inpc s"
    using x(5) r1 assms(2) by (simp_all add: in_step_def reg_defs)
  have "OneInstruction m = bindE (DelayedLoad 0 0 m2) (\<lambda>m3. Inr (None, advance_pc (inpc s') m3))"
    using x(1) by (simp add: OneInstruction_def assms(3) decode_fields)
  then have "OneInstruction m = Inr (None, m2\<lparr>registers := (registers m2)(0 := registers m2 LoadValueReg, LoadReg := 0,
      LoadValueReg := 0, 0 := 0, PrevPCReg := registers m2 PCReg, PCReg := inpc s, NextPCReg := inpc s')\<rparr>)"
    using l by (simp add: DelayedLoad_ok advance_pc_eq reg_defs)
  moreover have "in_step (m2\<lparr>registers := (registers m2)(0 := registers m2 LoadValueReg, LoadReg := 0,
      LoadValueReg := 0, 0 := 0, PrevPCReg := registers m2 PCReg, PCReg := inpc s, NextPCReg := inpc s')\<rparr>) s'"
    using x(3,4) by (simp add: in_step_def same_regs_def reg_defs setR_def)
  ultimately show ?thesis using i x(2) by metis
qed

text \<open>A concrete instance: \<^verbatim>\<open>ADDU r3,r1,r2\<close> at the start of the program.\<close>

definition addu_entry :: TranslationEntry where
  "addu_entry = \<lparr>virtualPage = 0x200000, physicalPage = 0, valid = True, readOnly = False, use_bit = False, dirty = False\<rparr>"

definition addu_machine :: Machine where
  "addu_machine = \<lparr>registers = (\<lambda>_. 0)(1 := 5, 2 := 7, PCReg := 0x10000000, NextPCReg := 0x10000004),
     mainMemory = (\<lambda>_. 0)(0 := 0x21, 1 := 0x18, 2 := 0x22), te_heap = [0 \<mapsto> [addu_entry, addu_entry, addu_entry, addu_entry]], tlb = Some 0, pageTable = None,
     pageTableSize = 0, hostBigEndian = False\<rparr>"

definition addu_interp :: "unit Interp" where
  "addu_interp = \<lparr>Reg = (\<lambda>_. 0)(1 := 5, 2 := 7), HI = 0, LO = 0, ipc = 0x10000000, inpc = 0x10000004,
     imem = (\<lambda>_. 0)(0 := 0x21, 1 := 0x18, 2 := 0x22), ios = ()\<rparr>"

lemma addu_read: "\<exists>m1. ReadMem (registers addu_machine PCReg) 4 addu_machine = Inr (Inr 0x00221821, m1)"
  by (simp add: ReadMem_def Machine_Translate_def misaligned_def find_entry_def read_table_def addu_machine_def addu_entry_def
      size_defs reg_defs Let_def upt_rec host_read4_def join4_def WordToHost_def)

theorem interpreters_agree_witness:
  "\<exists>m' s'. OneInstruction addu_machine = Inr (None, m') \<and> interp_step (\<lambda>c m h. (0, m, h)) False addu_interp = Inr s' \<and> in_step m' s'"
proof -
  obtain m1 where m1: "ReadMem (registers addu_machine PCReg) 4 addu_machine = Inr (Inr 0x00221821, m1)"
    using addu_read by blast
  have f: "fetch False (ipc addu_interp) addu_interp = Inr 0x00221821"
    by (simp add: fetch_def addu_interp_def mem_ok_def mem_off_def memoffset_def MEMSIZE_def host_read4_def join4_def)
  show ?thesis
    by (rule interpreters_agree [OF _ _ m1 f])
      (simp_all add: tables_ok_def addu_machine_def addu_interp_def TLBSize_def in_step_def reg_defs agreed_def fields_unsigned f_func_def
        agreed_special_def)
qed

section \<open>Where the interpreter departs from the MIPS architecture\<close>

lemma immed_upper: "w AND 0x8000 \<noteq> 0 \<Longrightarrow> bit (immed w) 31"
  by (simp add: immed_def bit_simps)

lemma ORI_sets_upper_half:
  assumes "f_op w = I_ORI" "w AND 0x8000 \<noteq> 0"
  shows "\<exists>v. exec_instr os big w xpc s = Inr (setR (f_rt w) v s) \<and> bit v 31"
  using assms immed_upper [OF assms(2)] by (auto simp: exec_instr_def exec_branch_imm_def or_else_def Let_def bit_simps)

lemma product_hi_wrong: "product_hi 0xffffffff 0xffffffff = 0xfffdfffd" "dword (0xfffffffe, 1) = ucast (0xffffffff :: 32 word) * ucast (0xffffffff :: 32 word)"
proof -
  have h: "signed_drop_bit 16 (0xffffffff :: 32 word) AND 0xffff = 0xffff"
    by (simp add: field_masks sdrop_mask)
  have p: "signed_drop_bit 16 (0xfffe0001 :: 32 word) = 0xfffffffe"
    by (simp add: word_eq_iff_signed sint_signed_drop_bit_eq)
  show "product_hi 0xffffffff 0xffffffff = 0xfffdfffd" by (simp add: product_hi_def Let_def h p)
  show "dword (0xfffffffe, 1) = ucast (0xffffffff :: 32 word) * ucast (0xffffffff :: 32 word)"
    by (simp add: dword_def two32_def)
qed

lemma LWL_keeps_old_bits:
  assumes "f_op w = I_LWL" "exec_instr os big w xpc s = Inr s'" "bit (Reg s (f_rt w)) k"
  shows "bit (Reg s' (f_rt w)) k"
  using assms by (auto simp: exec_instr_def exec_branch_imm_def or_else_def Let_def interp_load_def bindS_def setR_def bit_simps
      split: sum.splits dest: bit_imp_le_length)

section \<open>The number of significant bits\<close>

definition ilog2_stage :: "32 word \<Rightarrow> nat \<Rightarrow> 32 word \<times> nat \<Rightarrow> 32 word \<times> nat" where
  "ilog2_stage msk a il = (let j = fst il AND msk in if j \<noteq> 0 then (j, snd il + a) else il)"

definition ilog2 :: "32 word \<Rightarrow> nat" where
  "ilog2 i = (if i = 0 then 0 else
     snd (ilog2_stage 0xaaaaaaaa 1 (ilog2_stage 0xcccccccc 2 (ilog2_stage 0xf0f0f0f0 4
       (ilog2_stage 0xff00ff00 8 (ilog2_stage 0xffff0000 16 (i, 1)))))))"

text \<open>After the stages above \<open>2 ^ k\<close> the word keeps its highest bit \<open>p\<close> and only bits that agree with it above \<open>k\<close>.\<close>

definition ilog2_inv :: "nat \<Rightarrow> nat \<Rightarrow> 32 word \<times> nat \<Rightarrow> bool" where
  "ilog2_inv p k il \<longleftrightarrow> bit (fst il) p \<and> (\<forall>n. bit (fst il) n \<longrightarrow> n \<le> p \<and> n div 2 ^ k = p div 2 ^ k)
     \<and> snd il = 2 ^ k * (p div 2 ^ k) + 1"

lemma ilog2_stage_inv:
  assumes "ilog2_inv p (Suc k) il" "\<And>n. n < 32 \<Longrightarrow> bit msk n = odd (n div 2 ^ k)"
  shows "ilog2_inv p k (ilog2_stage msk (2 ^ k) il)"
proof -
  obtain i l where il [simp]: "il = (i, l)" by fastforce
  have d: "n div 2 ^ Suc k = n div 2 ^ k div 2" for n :: nat by (simp only: power_Suc2 div_mult2_eq)
  note inv = assms(1) [unfolded ilog2_inv_def il fst_conv snd_conv]
  have p: "bit i p" "l = 2 ^ Suc k * (p div 2 ^ Suc k) + 1" using inv by blast+
  have n: "n \<le> p" "n div 2 ^ k div 2 = p div 2 ^ k div 2" if "bit i n" for n
    using inv [unfolded d] that by blast+
  have m: "bit (i AND msk) n \<longleftrightarrow> bit i n \<and> odd (n div 2 ^ k)" for n
    using assms(2) bit_imp_le_length [of i n] by (auto simp: bit_and_iff)
  have same: "n div 2 ^ k = p div 2 ^ k" if "bit i n" "odd (n div 2 ^ k) = odd (p div 2 ^ k)" for n
    using n(2) [OF that(1)] that(2) by (metis bit_eq_rec even_iff_mod_2_eq_zero odd_iff_mod_2_eq_one div_mult_mod_eq)
  have l: "l = 2 ^ k * (2 * (p div 2 ^ k div 2)) + 1" using p(2) unfolding d by simp
  show ?thesis
  proof (cases "odd (p div 2 ^ k)")
    case True
    then have nz: "i AND msk \<noteq> 0" using m [of p] p(1) by (metis bit_0_eq bot_apply bot_bool_def)
    have h: "p div 2 ^ k = 2 * (p div 2 ^ k div 2) + 1" using True by simp
    have "l + 2 ^ k = 2 ^ k * (p div 2 ^ k) + 1" using l by (subst h) (simp only: add_mult_distrib2 mult_1_right)
    moreover have "bit (i AND msk) p" using m p(1) True by blast
    moreover have "n \<le> p \<and> n div 2 ^ k = p div 2 ^ k" if "bit (i AND msk) n" for n
      using m [of n] n(1) [of n] same [of n] that True by blast
    ultimately show ?thesis
      unfolding ilog2_inv_def ilog2_stage_def Let_def il fst_conv snd_conv if_P [OF nz] by blast
  next
    case False
    have lp: "l = 2 ^ k * (p div 2 ^ k) + 1" using l False by simp
    have ev: "\<not> odd (n div 2 ^ k)" if b: "bit i n" for n
    proof
      assume o: "odd (n div 2 ^ k)"
      have "n div 2 ^ k = 2 * (p div 2 ^ k div 2) + 1" "p div 2 ^ k = 2 * (p div 2 ^ k div 2)"
        using o False n(2) [OF b] by (metis odd_two_times_div_two_succ, metis even_two_times_div_two)
      then have "p div 2 ^ k < n div 2 ^ k" by linarith
      then show False using div_le_mono [OF n(1) [OF b], of "2 ^ k"] by simp
    qed
    have z: "i AND msk = 0" using m ev by (auto intro!: bit_word_eqI)
    have "n \<le> p \<and> n div 2 ^ k = p div 2 ^ k" if "bit i n" for n
      using n(1) [of n] same [of n] ev [of n] that False by blast
    then show ?thesis
      using p(1) lp unfolding ilog2_inv_def ilog2_stage_def Let_def il fst_conv snd_conv z simp_thms if_False by blast
  qed
qed

lemma ilog2_masks:
  "n < 32 \<Longrightarrow> bit (0xffff0000 :: 32 word) n = odd (n div 2 ^ 4)" "n < 32 \<Longrightarrow> bit (0xff00ff00 :: 32 word) n = odd (n div 2 ^ 3)"
  "n < 32 \<Longrightarrow> bit (0xf0f0f0f0 :: 32 word) n = odd (n div 2 ^ 2)" "n < 32 \<Longrightarrow> bit (0xcccccccc :: 32 word) n = odd (n div 2 ^ 1)"
  "n < 32 \<Longrightarrow> bit (0xaaaaaaaa :: 32 word) n = odd (n div 2 ^ 0)"
proof -
  have "\<forall>n \<in> set [0..<32]. bit (0xffff0000 :: 32 word) n = odd (n div 16) \<and> bit (0xff00ff00 :: 32 word) n = odd (n div 8)
      \<and> bit (0xf0f0f0f0 :: 32 word) n = odd (n div 4) \<and> bit (0xcccccccc :: 32 word) n = odd (n div 2)
      \<and> bit (0xaaaaaaaa :: 32 word) n = odd n"
    by code_simp
  then show "n < 32 \<Longrightarrow> bit (0xffff0000 :: 32 word) n = odd (n div 2 ^ 4)" "n < 32 \<Longrightarrow> bit (0xff00ff00 :: 32 word) n = odd (n div 2 ^ 3)"
    "n < 32 \<Longrightarrow> bit (0xf0f0f0f0 :: 32 word) n = odd (n div 2 ^ 2)" "n < 32 \<Longrightarrow> bit (0xcccccccc :: 32 word) n = odd (n div 2 ^ 1)"
    "n < 32 \<Longrightarrow> bit (0xaaaaaaaa :: 32 word) n = odd (n div 2 ^ 0)"
    by simp_all
qed

text \<open>The five stages compute one more than the position of the highest bit, so that 2 gives 2 and not 1 as the comment says.\<close>

lemma ilog2_highest_bit:
  assumes "bit i p" "\<And>n. bit i n \<Longrightarrow> n \<le> p"
  shows "ilog2 i = p + 1"
proof -
  have p: "p < 32" using assms(1) bit_imp_le_length by fastforce
  have "ilog2_inv p 5 (i, 1)"
    using assms p by (auto simp: ilog2_inv_def dest!: assms(2))
  then have "ilog2_inv p (Suc 4) (i, 1)" by simp
  from ilog2_stage_inv [OF this ilog2_masks(1)] have "ilog2_inv p (Suc 3) (ilog2_stage 0xffff0000 16 (i, 1))" by simp
  from ilog2_stage_inv [OF this ilog2_masks(2)]
  have "ilog2_inv p (Suc 2) (ilog2_stage 0xff00ff00 8 (ilog2_stage 0xffff0000 16 (i, 1)))" by simp
  from ilog2_stage_inv [OF this ilog2_masks(3)]
  have "ilog2_inv p 2 (ilog2_stage 0xf0f0f0f0 4 (ilog2_stage 0xff00ff00 8 (ilog2_stage 0xffff0000 16 (i, 1))))" by simp
  then have "ilog2_inv p (Suc 1) (ilog2_stage 0xf0f0f0f0 4 (ilog2_stage 0xff00ff00 8 (ilog2_stage 0xffff0000 16 (i, 1))))" by (simp only: Suc_1)
  from ilog2_stage_inv [OF this ilog2_masks(4)]
  have "ilog2_inv p (Suc 0) (ilog2_stage 0xcccccccc 2 (ilog2_stage 0xf0f0f0f0 4 (ilog2_stage 0xff00ff00 8 (ilog2_stage 0xffff0000 16 (i, 1)))))" by simp
  from ilog2_stage_inv [OF this ilog2_masks(5)]
  have "snd (ilog2_stage 0xaaaaaaaa 1 (ilog2_stage 0xcccccccc 2 (ilog2_stage 0xf0f0f0f0 4 (ilog2_stage 0xff00ff00 8
      (ilog2_stage 0xffff0000 16 (i, 1)))))) = p + 1"
    unfolding ilog2_inv_def by simp
  moreover have "i \<noteq> 0" using assms(1) by auto
  ultimately show ?thesis by (simp add: ilog2_def)
qed

lemma ilog2_of_two: "ilog2 2 = 2"
  by (simp add: ilog2_def ilog2_stage_def)

end
