(* ===== verification/MipsStart.thy ===== *)
theory MipsStart
  imports MipsExec
begin

text \<open>
  How the stand-alone tools under \<^verbatim>\<open>bin/\<close> bring a program into memory: the argument vector that \<^verbatim>\<open>runprogram\<close>
  (\<^verbatim>\<open>execute.c\<close>) builds on the stack, and the loaders of the interpreter (\<^verbatim>\<open>main.c\<close>) and of the disassembler
  (\<^verbatim>\<open>disasm.c\<close>). The theorems: a program finds its arguments, and what the two loaders do with a section.
\<close>

section \<open>Start of a program\<close>

definition write_bytes :: "nat \<Rightarrow> byte list \<Rightarrow> (nat \<Rightarrow> byte) \<Rightarrow> nat \<Rightarrow> byte" where
  "write_bytes p bs m = (\<lambda>q. if p \<le> q \<and> q < p + length bs then bs ! (q - p) else m q)"

text \<open>\<^verbatim>\<open>strcpy\<close> of an argument, given without its final zero byte.\<close>

definition strcpy_mem :: "32 word \<Rightarrow> byte list \<Rightarrow> 'h Interp \<Rightarrow> 'h Interp run" where
  "strcpy_mem a bs s = (if mem_ok a (length bs + 1)
     then Inr (s\<lparr>imem := write_bytes (mem_off a) (bs @ [0]) (imem s)\<rparr>) else Inl Fault)"

fun push_args :: "bool \<Rightarrow> byte list list \<Rightarrow> 32 word \<Rightarrow> 32 word \<Rightarrow> 'h Interp \<Rightarrow> 'h Interp run" where
  "push_args big [] aci ai s = Inr s"
| "push_args big (a # argv) aci ai s =
     bindS (strcpy_mem ai a s) (\<lambda>s. bindS (store big aci ai s)
       (push_args big argv (aci + 4) (ai + of_nat (length a) + 1)))"

definition initial_sp :: "32 word" where
  "initial_sp = of_nat MEMSIZE - 1024 + memoffset"

definition runprogram_start :: "bool \<Rightarrow> 32 word \<Rightarrow> byte list list \<Rightarrow> 'h Interp \<Rightarrow> 'h Interp run" where
  "runprogram_start big startpc argv s =
     (let i = initial_sp; s1 = setR 29 i (s\<lparr>ipc := startpc, inpc := startpc + 4\<rparr>) in
      bindS (store big i (of_nat (length argv)) s1) (push_args big argv (i + 4) (i + 4 + 32)))"

section \<open>Loading a program\<close>

text \<open>
  The section headers and the object file come from the \<^verbatim>\<open>ldfcn\<close> library: \<open>ld\<close> gives the header of
  a named section, \<open>seek\<close> positions the stream and \<open>getc\<close> is \<^verbatim>\<open>getc\<close>.
\<close>

record SCNHDR =
  s_vaddr :: "32 word"
  s_size :: "32 word"
  s_scnptr :: "32 word"

type_synonym 'f reader = "(32 word \<Rightarrow> 'f \<Rightarrow> 'f) \<times> ('f \<Rightarrow> byte \<times> 'f)"

fun load_loop :: "('f \<Rightarrow> byte \<times> 'f) \<Rightarrow> nat \<Rightarrow> 32 word \<Rightarrow> 'f \<Rightarrow> (nat \<Rightarrow> byte) \<Rightarrow> (32 word \<times> 'f \<times> (nat \<Rightarrow> byte)) run" where
  "load_loop getc 0 pc f m = Inr (pc, f, m)"
| "load_loop getc (Suc k) pc f m =
     (let (b, f') = getc f in
      if mem_ok pc 1 then load_loop getc k (pc + 1) f' (m(mem_off pc := b)) else Inl Fault)"

text \<open>\<^verbatim>\<open>LOADSECTION\<close> of the interpreter (\<^verbatim>\<open>main.c\<close>) checks the size after its loop,\<close>

definition LOADSECTION :: "'f reader \<Rightarrow> SCNHDR \<Rightarrow> 'f \<times> (nat \<Rightarrow> byte) \<Rightarrow> ('f \<times> (nat \<Rightarrow> byte)) run" where
  "LOADSECTION rdr sh fm =
     (if s_scnptr sh \<noteq> 0 then
        bindS (load_loop (snd rdr) (nat (sint (s_size sh))) (s_vaddr sh) (fst rdr (s_scnptr sh) (fst fm)) (snd fm))
          (\<lambda>(pc, f, m). if of_nat MEMSIZE \<le>s pc - memoffset then Inl (Exit 1) else Inr (f, m))
      else Inr fm)"

text \<open>and \<^verbatim>\<open>load_section\<close> of the disassembler (\<^verbatim>\<open>disasm.c\<close>) before each byte.\<close>

fun load_section_loop :: "('f \<Rightarrow> byte \<times> 'f) \<Rightarrow> nat \<Rightarrow> 32 word \<Rightarrow> 'f \<Rightarrow> (nat \<Rightarrow> byte) \<Rightarrow> (32 word \<times> 'f \<times> (nat \<Rightarrow> byte)) run" where
  "load_section_loop getc 0 pc f m = Inr (pc, f, m)"
| "load_section_loop getc (Suc k) pc f m =
     (if of_nat MEMSIZE \<le>s pc - memoffset then Inl (Exit 1)
      else let (b, f') = getc f in
        if mem_ok pc 1 then load_section_loop getc k (pc + 1) f' (m(mem_off pc := b)) else Inl Fault)"

definition load_section :: "'f reader \<Rightarrow> SCNHDR \<Rightarrow> 'f \<times> (nat \<Rightarrow> byte) \<Rightarrow> ('f \<times> (nat \<Rightarrow> byte)) run" where
  "load_section rdr sh fm =
     (if s_scnptr sh \<noteq> 0 then
        bindS (load_section_loop (snd rdr) (nat (sint (s_size sh))) (s_vaddr sh) (fst rdr (s_scnptr sh) (fst fm)) (snd fm))
          (\<lambda>(pc, f, m). Inr (f, m))
      else Inr fm)"

definition section_names :: "string list" where
  "section_names = [''.text'', ''.rdata'', ''.data'', ''.sdata'', ''.sbss'', ''.bss'']"

fun load_sections :: "(SCNHDR \<Rightarrow> 's \<Rightarrow> 's run) \<Rightarrow> (string \<Rightarrow> SCNHDR option) \<Rightarrow> string list \<Rightarrow> 's \<Rightarrow> 's run" where
  "load_sections load ld [] fm = Inr fm"
| "load_sections load ld (nm # names) fm =
     bindS (case ld nm of None \<Rightarrow> Inr fm | Some sh \<Rightarrow> load sh fm) (load_sections load ld names)"

text \<open>\<open>obj\<close> is what \<^verbatim>\<open>ldopen\<close> returns: the type of the object file and its headers.\<close>

definition load_program :: "(SCNHDR \<Rightarrow> 's \<Rightarrow> 's run) \<Rightarrow> (32 word \<times> (string \<Rightarrow> SCNHDR option)) option \<Rightarrow> 's \<Rightarrow> 's run" where
  "load_program load obj fm = (case obj of
     None \<Rightarrow> Inl (Exit 0)
   | Some (ty, ld) \<Rightarrow> if ty \<noteq> 0x162 then Inl (Exit 0) else load_sections load ld section_names fm)"

section \<open>The arguments of a program\<close>

lemma mem_off_at [simp]: "p \<le> MEMSIZE \<Longrightarrow> mem_off (memoffset + of_nat p) = p"
  by (simp add: mem_off_def unat_of_nat MEMSIZE_def)

lemma mem_ok_at: "p \<le> MEMSIZE \<Longrightarrow> mem_ok (memoffset + of_nat p) n = (p + n \<le> MEMSIZE)"
  by (simp add: mem_ok_def)

lemma host_read4_write4: "host_read4 big (host_write4 big m p w) p = w"
  using join4_byte_of [of w] by (simp add: host_read4_def host_write4_def)

lemma host_write4_outside: "q < p \<or> p + 4 \<le> q \<Longrightarrow> host_write4 big m p w q = m q"
  by (auto simp: host_write4_def)

lemma host_read4_cong: "(\<And>q. p \<le> q \<Longrightarrow> q < p + 4 \<Longrightarrow> m' q = m q) \<Longrightarrow> host_read4 big m' p = host_read4 big m p"
  by (simp add: host_read4_def)

abbreviation arg_size :: "byte list list \<Rightarrow> nat" where
  "arg_size argv \<equiv> sum_list (map (\<lambda>a. length a + 1) argv)"

text \<open>What the argument vector must look like: pointers from \<open>A\<close> on to the strings that follow each other from \<open>B\<close> on.\<close>

definition args_at :: "bool \<Rightarrow> byte list list \<Rightarrow> nat \<Rightarrow> nat \<Rightarrow> (nat \<Rightarrow> byte) \<Rightarrow> bool" where
  "args_at big argv A B m \<longleftrightarrow> (\<forall>j < length argv.
     host_read4 big m (A + 4 * j) = memoffset + of_nat (B + arg_size (take j argv))
     \<and> (\<forall>k \<le> length (argv ! j). m (B + arg_size (take j argv) + k) = (argv ! j @ [0]) ! k))"

lemma args_at_Cons:
  assumes "args_at big argv (A + 4) (B + (length a + 1)) m" "host_read4 big m A = memoffset + of_nat B"
    "\<And>k. k \<le> length a \<Longrightarrow> m (B + k) = (a @ [0]) ! k"
  shows "args_at big (a # argv) A B m"
  unfolding args_at_def
proof (intro allI impI)
  fix j assume j: "j < length (a # argv)"
  show "host_read4 big m (A + 4 * j) = memoffset + of_nat (B + arg_size (take j (a # argv)))
     \<and> (\<forall>k \<le> length ((a # argv) ! j). m (B + arg_size (take j (a # argv)) + k) = ((a # argv) ! j @ [0]) ! k)"
  proof (cases j)
    case 0
    then show ?thesis using assms(2,3) by simp
  next
    case (Suc i)
    then show ?thesis using assms(1) j by (auto simp: args_at_def add.assoc)
  qed
qed

lemma push_args_ok:
  assumes "A + 4 * length argv \<le> B" "B + arg_size argv \<le> MEMSIZE"
  shows "\<exists>m'. push_args big argv (memoffset + of_nat A) (memoffset + of_nat B) s = Inr (s\<lparr>imem := m'\<rparr>)
    \<and> (\<forall>q. q < A \<or> A + 4 * length argv \<le> q \<and> q < B \<longrightarrow> m' q = imem s q) \<and> args_at big argv A B m'"
  using assms
proof (induction argv arbitrary: A B s)
  case Nil
  then show ?case by (intro exI [of _ "imem s"]) (simp add: args_at_def)
next
  case (Cons a argv)
  let ?m1 = "write_bytes B (a @ [0]) (imem s)"
  let ?m2 = "host_write4 big ?m1 A (memoffset + of_nat B)"
  let ?s2 = "s\<lparr>imem := ?m2\<rparr>"
  have le: "A + 4 + 4 * length argv \<le> B + (length a + 1)" "B + (length a + 1) + arg_size argv \<le> MEMSIZE"
    "A \<le> MEMSIZE" "B \<le> MEMSIZE" "A + 4 \<le> MEMSIZE" "B + (length a + 1) \<le> MEMSIZE" "A + 4 \<le> B"
    using Cons.prems by simp_all
  have addr: "memoffset + of_nat A + 4 = memoffset + of_nat (A + 4)"
    "memoffset + of_nat B + of_nat (length a) + 1 = memoffset + of_nat (B + (length a + 1))"
    by simp_all
  obtain m' where m': "push_args big argv (memoffset + of_nat (A + 4)) (memoffset + of_nat (B + (length a + 1))) ?s2 = Inr (?s2\<lparr>imem := m'\<rparr>)"
      "\<forall>q. q < A + 4 \<or> A + 4 + 4 * length argv \<le> q \<and> q < B + (length a + 1) \<longrightarrow> m' q = ?m2 q"
      "args_at big argv (A + 4) (B + (length a + 1)) m'"
    using Cons.IH [OF le(1,2), of ?s2] by auto
  have "push_args big (a # argv) (memoffset + of_nat A) (memoffset + of_nat B) s = Inr (s\<lparr>imem := m'\<rparr>)"
    unfolding push_args.simps strcpy_mem_def store_def mem_ok_at [OF le(3)] mem_ok_at [OF le(4)] addr
    using m'(1) le by (simp add: mem_off_at [OF le(3)] mem_off_at [OF le(4)] del: of_nat_add)
  moreover have "m' q = imem s q" if "q < A \<or> A + 4 * length (a # argv) \<le> q \<and> q < B" for q
  proof -
    have "m' q = ?m2 q" using m'(2) that by auto
    also have "\<dots> = ?m1 q" using that le(7) by (intro host_write4_outside) auto
    also have "\<dots> = imem s q" using that le(7) by (auto simp: write_bytes_def)
    finally show ?thesis .
  qed
  moreover have "args_at big (a # argv) A B m'"
  proof (rule args_at_Cons [OF m'(3)])
    show "host_read4 big m' A = memoffset + of_nat B"
      using host_read4_cong [of A m' ?m2 big] m'(2) by (simp add: host_read4_write4)
    fix k assume k: "k \<le> length a"
    have "m' (B + k) = ?m2 (B + k)" using m'(2) k Cons.prems(1) by simp
    also have "\<dots> = ?m1 (B + k)" using le(7) by (intro host_write4_outside) simp
    also have "\<dots> = (a @ [0]) ! k" using k by (simp add: write_bytes_def)
    finally show "m' (B + k) = (a @ [0]) ! k" .
  qed
  ultimately show ?case by blast
qed

lemma initial_sp_at: "initial_sp = memoffset + of_nat (MEMSIZE - 1024)" "mem_off initial_sp = MEMSIZE - 1024" "mem_ok initial_sp 4"
  by (simp_all add: initial_sp_def MEMSIZE_def mem_ok_def mem_off_def)

text \<open>C31: A program finds its arguments. With at most eight arguments that fit above the initial stack pointer, the start of
  \<^verbatim>\<open>runprogram\<close> stores no byte outside the array, and leaves the argument count at the stack pointer, after it
  the pointers, and at each pointer the bytes of the argument with their final zero.\<close>

theorem arguments_on_stack:
  assumes "length argv \<le> 8" "sum_list (map (\<lambda>a. length a + 1) argv) \<le> 988"
  shows "\<exists>s'. runprogram_start big startpc argv s = Inr s' \<and> ipc s' = startpc \<and> inpc s' = startpc + 4 \<and> Reg s' 29 = initial_sp
    \<and> fetch big initial_sp s' = Inr (of_nat (length argv))
    \<and> (\<forall>j < length argv. \<exists>p. fetch big (initial_sp + 4 + 4 * of_nat j) s' = Inr p
        \<and> (\<forall>k \<le> length (argv ! j). ucfetch (p + of_nat k) s' = Inr (ucast ((argv ! j @ [0]) ! k))))"
proof -
  let ?A = "MEMSIZE - 1020" and ?B = "MEMSIZE - 988" and ?P = "MEMSIZE - 1024"
  let ?s0 = "setR 29 initial_sp (s\<lparr>ipc := startpc, inpc := startpc + 4\<rparr>)"
  let ?s1 = "?s0\<lparr>imem := host_write4 big (imem s) ?P (of_nat (length argv))\<rparr>"
  have M: "1024 \<le> MEMSIZE" by (simp add: MEMSIZE_def)
  have le: "?A + 4 * length argv \<le> ?B" "?B + arg_size argv \<le> MEMSIZE" using assms M by simp_all
  obtain m' where m': "push_args big argv (memoffset + of_nat ?A) (memoffset + of_nat ?B) ?s1 = Inr (?s1\<lparr>imem := m'\<rparr>)"
      "\<forall>q. q < ?A \<or> ?A + 4 * length argv \<le> q \<and> q < ?B \<longrightarrow> m' q = imem ?s1 q" "args_at big argv ?A ?B m'"
    using push_args_ok [OF le, of big ?s1] by blast
  have a: "initial_sp + 4 = memoffset + of_nat ?A" "initial_sp + 4 + 32 = memoffset + of_nat ?B"
    by (simp_all add: initial_sp_at(1) MEMSIZE_def)
  have st: "store big initial_sp (of_nat (length argv)) ?s0 = Inr ?s1"
    by (simp add: store_def initial_sp_at(2,3) setR_def)
  have run: "runprogram_start big startpc argv s = Inr (?s1\<lparr>imem := m'\<rparr>)"
    unfolding runprogram_start_def Let_def st bindS_simps a(2) unfolding a(1) by (subst m'(1)) simp
  have c: "host_read4 big m' ?P = of_nat (length argv)"
    using host_read4_cong [of ?P m' "imem ?s1" big] m'(2) M by (simp add: host_read4_write4)
  have p: "fetch big (initial_sp + 4 + 4 * of_nat j) (?s1\<lparr>imem := m'\<rparr>) = Inr (memoffset + of_nat (?B + arg_size (take j argv)))
      \<and> (\<forall>k \<le> length (argv ! j). ucfetch (memoffset + of_nat (?B + arg_size (take j argv)) + of_nat k) (?s1\<lparr>imem := m'\<rparr>)
            = Inr (ucast ((argv ! j @ [0]) ! k)))" if j: "j < length argv" for j
  proof -
    have aj: "initial_sp + 4 + 4 * of_nat j = memoffset + of_nat (?A + 4 * j)" unfolding a by simp
    have lj: "?A + 4 * j + 4 \<le> MEMSIZE" using j assms(1) M by simp
    have "arg_size (take (Suc j) argv) \<le> arg_size argv"
      by (metis append_take_drop_id le_add1 map_append sum_list_append)
    then have sj: "?B + arg_size (take j argv) + k < MEMSIZE" if "k \<le> length (argv ! j)" for k
      using j that le(2) by (simp add: take_Suc_conv_app_nth)
    have uc: "ucfetch (memoffset + of_nat (?B + arg_size (take j argv)) + of_nat k) (?s1\<lparr>imem := m'\<rparr>)
        = Inr (ucast (m' (?B + arg_size (take j argv) + k)))" if "k \<le> length (argv ! j)" for k
      using sj [OF that] mem_ok_at [of "?B + arg_size (take j argv) + k" 1] mem_off_at [of "?B + arg_size (take j argv) + k"]
      by (simp add: ucfetch_def add.assoc)
    show ?thesis
      using m'(3) j lj uc mem_ok_at [of "?A + 4 * j" 4] mem_off_at [of "?A + 4 * j"]
      by (auto simp: args_at_def fetch_def aj simp del: of_nat_add)
  qed
  show ?thesis
    using run c p M by (intro exI [of _ "?s1\<lparr>imem := m'\<rparr>"]) (auto simp: setR_def fetch_def initial_sp_at(2,3))
qed

theorem arguments_on_stack_witness:
  "\<exists>s'. runprogram_start False memoffset [[0x61], [0x62, 0x63]] addu_interp = Inr s'
    \<and> fetch False initial_sp s' = Inr 2"
  using arguments_on_stack [of "[[0x61], [0x62, 0x63]]" False memoffset addu_interp] by auto

section \<open>The two loaders\<close>

fun getcs :: "('f \<Rightarrow> byte \<times> 'f) \<Rightarrow> nat \<Rightarrow> 'f \<Rightarrow> byte list \<times> 'f" where
  "getcs getc 0 f = ([], f)"
| "getcs getc (Suc k) f = (let (b, f') = getc f; (bs, f'') = getcs getc k f' in (b # bs, f''))"

lemma getcs_length: "length (fst (getcs getc k f)) = k"
proof (induction k arbitrary: f)
  case (Suc k)
  then show ?case by (auto simp: Let_def split: prod.splits) (metis fst_conv)
qed simp

lemma mem_off_less_iff: "p \<le> MEMSIZE \<Longrightarrow> (of_nat MEMSIZE \<le>s (of_nat p :: 32 word)) = (MEMSIZE \<le> p)"
proof -
  assume p: "p \<le> MEMSIZE"
  have s: "sint (of_nat q :: 32 word) = int q" if "q \<le> MEMSIZE" for q
  proof -
    have "unat (of_nat q :: 32 word) = q" using that by (simp add: MEMSIZE_def unat_of_nat)
    then show ?thesis
      using that by (simp add: sint_uint32 bit31_uint uint_nat MEMSIZE_def del: of_nat_unat)
  qed
  show ?thesis using s [OF p] s [of MEMSIZE] by (simp add: word_sle_eq)
qed

lemma write_bytes_Cons: "write_bytes (Suc p) bs (m(p := b)) = write_bytes p (b # bs) m"
  by (rule ext) (auto simp: write_bytes_def nth_Cons' Suc_diff_Suc)

lemma write_bytes_Nil [simp]: "write_bytes p [] m = m"
  by (rule ext) (auto simp: write_bytes_def)

lemma step_addr: "memoffset + of_nat p + 1 = memoffset + of_nat (Suc p)"
  by simp

lemma load_loop_result:
  assumes "p \<le> MEMSIZE"
  shows "load_loop getc k (memoffset + of_nat p) f m = (if p + k \<le> MEMSIZE
    then Inr (memoffset + of_nat (p + k), snd (getcs getc k f), write_bytes p (fst (getcs getc k f)) m) else Inl Fault)"
  using assms
proof (induction k arbitrary: p f m)
  case 0
  then show ?case by simp
next
  case (Suc k)
  show ?case
  proof (cases "p < MEMSIZE")
    case True
    then show ?thesis using Suc.IH [of "Suc p"] Suc.prems
      by (simp add: Let_def mem_ok_at step_addr write_bytes_Cons split: prod.splits del: of_nat_Suc)
  next
    case False
    then show ?thesis using Suc.prems by (simp add: Let_def mem_ok_at split: prod.splits)
  qed
qed

lemma load_section_loop_result:
  assumes "p \<le> MEMSIZE"
  shows "load_section_loop getc k (memoffset + of_nat p) f m = (if p + k \<le> MEMSIZE
    then Inr (memoffset + of_nat (p + k), snd (getcs getc k f), write_bytes p (fst (getcs getc k f)) m) else Inl (Exit 1))"
  using assms
proof (induction k arbitrary: p f m)
  case 0
  then show ?case by simp
next
  case (Suc k)
  show ?case
  proof (cases "p < MEMSIZE")
    case True
    then show ?thesis using Suc.IH [of "Suc p"] Suc.prems
      by (simp add: Let_def mem_ok_at mem_off_less_iff step_addr write_bytes_Cons split: prod.splits del: of_nat_Suc)
  next
    case False
    then show ?thesis using Suc.prems by (simp add: mem_off_less_iff)
  qed
qed

text \<open>The two loaders of the stand-alone tools on a section that starts inside the memory array. When it ends before the
  end of the array both leave the bytes of the file at its addresses and change nothing else. The disassembler
  also loads a section that ends with the array, and refuses a longer one before it stores outside; the
  interpreter refuses the former and stores outside the array for the latter, because it checks after its loop.\<close>

lemma loaders_compared:
  assumes "s_scnptr sh \<noteq> 0" "s_vaddr sh = memoffset + of_nat p" "p \<le> MEMSIZE" "n = nat (sint (s_size sh))"
    and "getcs getc n (seek (s_scnptr sh) f) = (bs, f')"
  shows "length bs = n
    \<and> load_section (seek, getc) sh (f, m) = (if p + n \<le> MEMSIZE then Inr (f', write_bytes p bs m) else Inl (Exit 1))
    \<and> LOADSECTION (seek, getc) sh (f, m) = (if p + n < MEMSIZE then Inr (f', write_bytes p bs m)
        else if p + n = MEMSIZE then Inl (Exit 1) else Inl Fault)"
proof (intro conjI)
  note r = load_loop_result [OF assms(3), of getc n "seek (s_scnptr sh) f" m]
    load_section_loop_result [OF assms(3), of getc n "seek (s_scnptr sh) f" m]
  show "length bs = n" using getcs_length [of getc n "seek (s_scnptr sh) f"] assms(5) by simp
  show "load_section (seek, getc) sh (f, m) = (if p + n \<le> MEMSIZE then Inr (f', write_bytes p bs m) else Inl (Exit 1))"
    using r(2) assms by (simp add: load_section_def)
  show "LOADSECTION (seek, getc) sh (f, m) = (if p + n < MEMSIZE then Inr (f', write_bytes p bs m)
        else if p + n = MEMSIZE then Inl (Exit 1) else Inl Fault)"
    using r(1) assms mem_off_less_iff [of "p + n"] by (auto simp: LOADSECTION_def)
qed

lemma getcs_two: "getcs getc 2 f = (let (b, f1) = getc f; (c, f2) = getc f1 in ([b, c], f2))"
  by (simp add: numeral_2_eq_2 split: prod.splits)

lemma loaders_compared_instance:
  "let sh = \<lparr>s_vaddr = memoffset, s_size = 2, s_scnptr = 1\<rparr>; getc = (\<lambda>k. (of_nat k, Suc k)); seek = (\<lambda>p k. unat p) in
   load_section (seek, getc) sh (0, \<lambda>_. 0) = Inr (3, write_bytes 0 [1, 2] (\<lambda>_. 0))
   \<and> LOADSECTION (seek, getc) sh (0, \<lambda>_. 0) = Inr (3, write_bytes 0 [1, 2] (\<lambda>_. 0))"
proof -
  let ?sh = "\<lparr>s_vaddr = memoffset, s_size = 2, s_scnptr = 1\<rparr>"
  have a: "s_scnptr ?sh \<noteq> 0" "s_vaddr ?sh = memoffset + of_nat 0" "0 \<le> MEMSIZE" "2 = nat (sint (s_size ?sh))"
    by simp_all
  have g: "getcs (\<lambda>k. (of_nat k, Suc k)) 2 ((\<lambda>p k. unat p) (s_scnptr ?sh) 0) = ([1, 2], 3)"
    by (simp add: getcs_two)
  show ?thesis
    using loaders_compared [where seek = "\<lambda>p k. unat p" and f = "0 :: nat" and m = "\<lambda>_. 0", OF a g] by (simp add: Let_def MEMSIZE_def)
qed

end
