(* ===== verification/Disasm.thy ===== *)
theory Disasm
  imports MipsStart NetworkDev
begin

text \<open>
  The disassembler and the object file lister under \<^verbatim>\<open>bin/\<close>: the printed form of an instruction (\<^verbatim>\<open>d.c\<close> with the
  tables of \<^verbatim>\<open>opstrings.c\<close>), the loop over a text section (\<^verbatim>\<open>disasm.c\<close>), and the listing of a section with its
  relocations (\<^verbatim>\<open>out.c\<close>). The theorem relates the printed branch targets to the interpreter of theory \<open>MipsExec\<close>; the
  lemmas show that the lister's column is that of its output and where a relocation is printed.
\<close>

section \<open>Formatted numbers\<close>

text \<open>The conversions \<^verbatim>\<open>%x\<close>, \<^verbatim>\<open>%08x\<close> and \<^verbatim>\<open>%d\<close> of \<^verbatim>\<open>printf\<close>.\<close>

definition hexdigit :: "nat \<Rightarrow> char" where
  "hexdigit n = ''0123456789abcdef'' ! n"

fun hex :: "nat \<Rightarrow> string" where
  "hex n = (if n < 16 then [hexdigit n] else hex (n div 16) @ [hexdigit (n mod 16)])"

declare hex.simps [simp del]

definition fmt_x :: "32 word \<Rightarrow> string" where
  "fmt_x w = hex (unat w)"

definition fmt_08x :: "32 word \<Rightarrow> string" where
  "fmt_08x w = replicate (8 - length (hex (unat w))) CHR ''0'' @ hex (unat w)"

definition fmt_d :: "32 word \<Rightarrow> string" where
  "fmt_d w = (if sint w < 0 then ''-'' @ decimal (nat (- sint w)) else decimal (nat (sint w)))"

section \<open>Tables\<close>

definition normalops :: "string list" where
  "normalops = [''special'', ''bcond'', ''j'', ''jal'', ''beq'', ''bne'', ''blez'', ''bgtz'',
    ''addi'', ''addiu'', ''slti'', ''sltiu'', ''andi'', ''ori'', ''xori'', ''lui'',
    ''cop0'', ''cop1'', ''cop2'', ''cop3'', ''024'', ''025'', ''026'', ''027'',
    ''030'', ''031'', ''032'', ''033'', ''034'', ''035'', ''036'', ''037'',
    ''lb'', ''lh'', ''lwl'', ''lw'', ''lbu'', ''lhu'', ''lwr'', ''047'',
    ''sb'', ''sh'', ''swl'', ''sw'', ''054'', ''055'', ''swr'', ''057'',
    ''lwc0'', ''lwc1'', ''lwc2'', ''lwc3'', ''064'', ''065'', ''066'', ''067'',
    ''swc0'', ''swc1'', ''swc2'', ''swc3'', ''074'', ''075'', ''076'', ''077'']"

definition specialops :: "string list" where
  "specialops = [''sll'', ''001'', ''srl'', ''sra'', ''sllv'', ''005'', ''srlv'', ''srav'',
    ''jr'', ''jalr'', ''012'', ''013'', ''syscall'', ''break'', ''016'', ''017'',
    ''mfhi'', ''mthi'', ''mflo'', ''mtlo'', ''024'', ''025'', ''026'', ''027'',
    ''mult'', ''multu'', ''div'', ''divu'', ''034'', ''035'', ''036'', ''037'',
    ''add'', ''addu'', ''sub'', ''subu'', ''and'', ''or'', ''xor'', ''nor'',
    ''050'', ''051'', ''slt'', ''sltu'', ''054'', ''055'', ''056'', ''057'',
    ''060'', ''061'', ''062'', ''063'', ''064'', ''065'', ''066'', ''067'',
    ''070'', ''071'', ''072'', ''073'', ''074'', ''075'', ''076'', ''077'']"

definition regstrings :: "string list" where
  "regstrings = [''0'', ''r1'', ''r2'', ''r3'', ''r4'', ''r5'', ''r6'', ''r7'', ''r8'', ''r9'',
    ''r10'', ''r11'', ''r12'', ''r13'', ''r14'', ''r15'', ''r16'', ''r17'', ''r18'', ''r19'',
    ''r20'', ''r21'', ''r22'', ''r23'', ''r24'', ''r25'', ''r26'', ''r27'', ''gp'', ''sp'',
    ''r30'', ''r31'']"

section \<open>One instruction\<close>

text \<open>
  Each element of the result of \<open>dump_ascii\<close> is what one call of \<^verbatim>\<open>printf\<close> prints, in order.
\<close>

abbreviation regname :: "nat \<Rightarrow> string" where
  "regname i \<equiv> regstrings ! i"

definition tab :: string where "tab = [CHR 9]"
definition newline :: string where "newline = [CHR 10]"

definition special_operands :: "32 word \<Rightarrow> string list" where
  "special_operands w =
     (let f = f_func w; rd = regname (f_rd w); rs = regname (f_rs w); rt = regname (f_rt w) in
      if f \<in> {I_SLL, I_SRL, I_SRA} then [rd @ '','' @ rt @ '',0x'' @ hex (shamt w)]
      else if f \<in> {I_SLLV, I_SRLV, I_SRAV} then [rd @ '','' @ rt @ '','' @ rs]
      else if f \<in> {I_JR, I_JALR, I_MFLO, I_MTLO} then [rs]
      else if f \<in> {I_SYSCALL, I_BREAK} then []
      else if f \<in> {I_MFHI, I_MTHI} then [rd]
      else if f \<in> {I_MULT, I_MULTU, I_DIV, I_DIVU} then [rs @ '','' @ rt]
      else if f \<in> {I_ADD, I_ADDU, I_SUB, I_SUBU, I_AND, I_OR, I_XOR, I_NOR, I_SLT, I_SLTU}
        then [rd @ '','' @ rs @ '','' @ rt]
      else [])"

definition bcond_text :: "32 word \<Rightarrow> 32 word \<Rightarrow> string list" where
  "bcond_text w pc =
     [if f_rt w = I_BLTZ then ''bltz'' else if f_rt w = I_BGEZ then ''bgez'' else if f_rt w = I_BLTZAL then ''bltzal''
      else if f_rt w = I_BGEZAL then ''bgezal'' else ''BCOND'',
      tab @ regname (f_rs w) @ '','' @ fmt_08x (off16 w + pc + 4)]"

definition normal_operands :: "nat \<Rightarrow> 32 word \<Rightarrow> 32 word \<Rightarrow> string list" where
  "normal_operands opcode w pc =
     (let rs = regname (f_rs w); rt = regname (f_rt w) in
      if opcode \<in> {I_J, I_JAL} then [fmt_08x (top4 pc OR off26 w)]
      else if opcode \<in> {I_BEQ, I_BNE} then [rt @ '','' @ rs @ '','' @ fmt_08x (off16 w + pc + 4)]
      else if opcode \<in> {I_ADDI, I_ADDIU, I_SLTI, I_SLTIU, I_ANDI, I_ORI, I_XORI}
        then [rt @ '','' @ rs @ '',0x'' @ fmt_x (immed w)]
      else if opcode = I_LUI then [rt @ '',0x'' @ fmt_x (immed w)]
      else if opcode \<in> {I_COP0, I_COP1, I_COP2, I_COP3} then []
      else if opcode \<in> {I_LB, I_LH, I_LWL, I_LW, I_LBU, I_LHU, I_LWR, I_SB, I_SH, I_SWL, I_SW, I_SWR}
          \<or> I_LWC0 \<le> opcode \<and> opcode \<le> I_LWC3 \<or> I_SWC0 \<le> opcode \<and> opcode \<le> I_SWC3
        then [rt @ '',0x'' @ fmt_x (immed w) @ ''('' @ rs @ '')'']
      else [])"

definition dump_ascii :: "bool \<Rightarrow> 32 word \<Rightarrow> 32 word \<Rightarrow> string list" where
  "dump_ascii longdis w pc =
     (let opcode = unat (drop_bit 26 w) in
      (if longdis then [fmt_08x pc @ '': '' @ fmt_08x w @ ''  ''] else []) @ [tab] @
      (if w = I_NOP then [''nop'']
       else if opcode = I_SPECIAL then (specialops ! f_func w @ tab) # special_operands w
       else if opcode = I_BCOND then bcond_text w pc
       else (normalops ! opcode @ tab) # normal_operands opcode w pc))"

text \<open>\<^verbatim>\<open>dis1\<close> and \<^verbatim>\<open>disasm\<close>: the text section, one line for each word; \<open>n\<close> is the number of words left.\<close>

definition dis1 :: "bool \<Rightarrow> 32 word \<Rightarrow> (nat \<Rightarrow> byte) \<Rightarrow> string run" where
  "dis1 big pc m = (if mem_ok pc 4
     then Inr (concat (dump_ascii True (host_read4 big m (mem_off pc)) pc) @ newline) else Inl Fault)"

fun disasm_loop :: "bool \<Rightarrow> nat \<Rightarrow> 32 word \<Rightarrow> (nat \<Rightarrow> byte) \<Rightarrow> string run" where
  "disasm_loop big 0 pc m = Inr []"
| "disasm_loop big (Suc n) pc m =
     bindS (dis1 big pc m) (\<lambda>l. bindS (disasm_loop big n (pc + 4) m) (\<lambda>ls. Inr (l @ ls)))"

definition disasm :: "bool \<Rightarrow> SCNHDR \<Rightarrow> (nat \<Rightarrow> byte) \<Rightarrow> string run" where
  "disasm big texthead m = disasm_loop big (nat ((sint (s_size texthead) + 3) div 4)) memoffset m"

section \<open>The object file lister\<close>

text \<open>
  The output of \<^verbatim>\<open>out.c\<close>: the text and the column that \<^verbatim>\<open>myprintf\<close> keeps. \<^verbatim>\<open>myprintf\<close> formats into a buffer of
  100 bytes, so a longer text is written outside it.
\<close>

record Out =
  outtext :: string
  column :: nat

definition next_column :: "nat \<Rightarrow> char \<Rightarrow> nat" where
  "next_column c ch = (if ch = CHR 10 then 1 else if ch = CHR 9 then 8 * ((c + 7) div 8) + 1 else c + 1)"

definition myprintf :: "string \<Rightarrow> Out \<Rightarrow> Out res" where
  "myprintf s o1 = (if length s < 100 then Inr (o1\<lparr>outtext := outtext o1 @ s, column := foldl next_column (column o1) s\<rparr>)
     else Inl OutOfBounds)"

function mytab :: "nat \<Rightarrow> Out \<Rightarrow> Out" where
  "mytab n o1 = (if column o1 < n then mytab n (o1\<lparr>outtext := outtext o1 @ '' '', column := column o1 + 1\<rparr>) else o1)"
  by pat_completeness auto
termination by (relation "measure (\<lambda>(n, o1). n - column o1)") auto

declare mytab.simps [simp del]

record reloc =
  r_vaddr :: "32 word"
  r_symndx :: nat
  r_extern :: bool
  r_type :: nat

record out_section =
  s_name :: string
  sec_head :: SCNHDR
  words :: "32 word list"
  relocs :: "reloc list"

text \<open>The symbol table and the string space with the names of the symbols.\<close>

record SYMR =
  sym_iss :: nat
  sym_value :: "32 word"
  sym_st :: nat
  sym_sc :: nat

record Symbols =
  symbols :: "SYMR list"
  sspace :: string

definition MAXSYMS :: nat where "MAXSYMS = 300"

definition section_name :: "string list" where
  "section_name = [''(null)'', ''.text'', ''.rdata'', ''.data'', ''.sdata'', ''.sbss'', ''.bss'', ''.init'', ''.lit8'', ''.lit4'']"

definition reloc_type :: "string list" where
  "reloc_type = [''abs'', ''16'', ''32'', ''26'', ''hi16'', ''lo16'', ''gpdata'', ''gplit'']"

definition string_at :: "nat \<Rightarrow> string \<Rightarrow> string res" where
  "string_at i s = (if i < length s then Inr (takeWhile (\<lambda>c. c \<noteq> CHR 0x00) (drop i s)) else Inl OutOfBounds)"

definition reloc_target :: "Symbols \<Rightarrow> reloc \<Rightarrow> string res" where
  "reloc_target sy rp =
     (if r_extern rp then
        if MAXSYMS \<le> r_symndx rp then Inr (''sym $'' @ decimal (r_symndx rp))
        else bindE (arr_get (symbols sy) (r_symndx rp)) (\<lambda>sr. bindE (string_at (sym_iss sr) (sspace sy)) (\<lambda>s. Inr ([CHR 34] @ s @ [CHR 34])))
      else arr_get section_name (r_symndx rp))"

fun print_reloc :: "Symbols \<Rightarrow> 32 word \<Rightarrow> reloc list \<Rightarrow> Out \<Rightarrow> Out res" where
  "print_reloc sy vaddr [] o1 = myprintf newline o1"
| "print_reloc sy vaddr (rp # rps) o1 =
     (if vaddr = r_vaddr rp then
        bindE (reloc_target sy rp) (\<lambda>t. bindE (myprintf t (mytab 57 o1)) (\<lambda>o2.
        bindE (arr_get reloc_type (r_type rp)) (\<lambda>ty. bindE (myprintf ('' '' @ ty) o2) (myprintf newline))))
      else print_reloc sy vaddr rps o1)"

definition char_at :: "bool \<Rightarrow> 32 word \<Rightarrow> nat \<Rightarrow> string" where
  "char_at big w k = (let c = byte_of w (if big then 3 - k else k) in
     if 32 \<le>s c \<and> c <s 127 then [char_of (unat c)] else ''.'')"

definition word_pieces :: "bool \<Rightarrow> bool \<Rightarrow> 32 word \<Rightarrow> 32 word \<Rightarrow> string list" where
  "word_pieces big is_text w pc = (if is_text then dump_ascii True w pc
     else [fmt_08x pc @ '': '' @ fmt_08x w @ ''  ''] @ map (char_at big w) [0..<4] @ [tab @ fmt_d w])"

fun print_words :: "bool \<Rightarrow> Symbols \<Rightarrow> bool \<Rightarrow> reloc list \<Rightarrow> 32 word \<Rightarrow> 32 word list \<Rightarrow> Out \<Rightarrow> Out res" where
  "print_words big sy is_text rps pc [] o1 = Inr o1"
| "print_words big sy is_text rps pc (w # ws) o1 =
     bindE (foldE myprintf (word_pieces big is_text w pc) o1) (\<lambda>o2.
     bindE (print_reloc sy pc rps o2) (print_words big sy is_text rps (pc + 4) ws))"

definition print_section :: "bool \<Rightarrow> Symbols \<Rightarrow> out_section \<Rightarrow> Out \<Rightarrow> Out res" where
  "print_section big sy sec o1 =
     bindE (myprintf (''Section: '' @ s_name sec @ tab @ fmt_d (s_size (sec_head sec)) @ ''/'' @ decimal (length (relocs sec)) @ newline) o1)
       (print_words big sy (take 5 (s_name sec) = ''.text'') (relocs sec) (s_vaddr (sec_head sec)) (words sec))"

definition symbol_type :: "string list" where
  "symbol_type = [''Nil'', ''Global'', ''Static'', ''Param'', ''Local'', ''Label'', ''Proc'', ''Block'',
    ''End'', ''Member'', ''Type'', ''File'', ''Register'', ''Forward'', ''StaticProc'', ''Constant'']"

definition storage_class :: "string list" where
  "storage_class = [''Nil'', ''Text'', ''Data'', ''Bss'', ''Register'', ''Abs'', ''Undefined'', ''CdbLocal'',
    ''Bits'', ''CdbSystem'', ''RegImage'', ''Info'', ''UserStruct'', ''SData'', ''SBss'',
    ''RData'', ''Var'', ''Common'', ''SCommon'', ''VarRegister'', ''Variant'', ''SUndefined'', ''Init'']"

text \<open>The loop over the external symbols at the end of \<^verbatim>\<open>main\<close>; \<^verbatim>\<open>scUndefined\<close> is 6.\<close>

definition print_symbol :: "string \<Rightarrow> SYMR \<Rightarrow> Out \<Rightarrow> Out res" where
  "print_symbol strings sr o1 =
     bindE (myprintf (if sym_sc sr = 6 then tab @ '' '' else fmt_08x (sym_value sr) @ '' '') o1) (\<lambda>o2.
     bindE (arr_get symbol_type (sym_st sr)) (\<lambda>ty. bindE (myprintf ty o2) (\<lambda>o3.
     bindE (arr_get storage_class (sym_sc sr)) (\<lambda>cl. bindE (myprintf cl (mytab 25 o3)) (\<lambda>o4.
     bindE (string_at (sym_iss sr) strings) (\<lambda>s. myprintf (s @ newline) (mytab 41 o4)))))))"

definition print_symbols :: "Symbols \<Rightarrow> nat \<Rightarrow> Out \<Rightarrow> Out res" where
  "print_symbols sy iextMax o1 = foldE (print_symbol (sspace sy)) (take (min MAXSYMS iextMax) (symbols sy)) o1"

section \<open>What is printed\<close>

lemma hex_digits: "n < 16 ^ k \<Longrightarrow> 0 < k \<Longrightarrow> length (hex n) \<le> k"
proof (induction n arbitrary: k rule: hex.induct)
  case (1 n)
  show ?case
  proof (cases "n < 16")
    case True
    then show ?thesis using 1(3) by (subst hex.simps) simp
  next
    case False
    obtain j where j: "k = Suc j" using 1(3) by (cases k) auto
    have j0: "0 < j"
    proof (rule gr0I)
      assume "j = 0"
      then show False using 1(2) False j by simp
    qed
    have "n div 16 < 16 ^ j" using 1(2) j by (simp add: less_mult_imp_div_less mult.commute)
    then have "length (hex (n div 16)) \<le> j" using 1(1) False j0 by blast
    then show ?thesis using False j by (subst hex.simps) simp
  qed
qed

definition hexdigit_val :: "char \<Rightarrow> nat" where
  "hexdigit_val c = (if of_char c < (58 :: nat) then of_char c - 48 else of_char c - 87)"

definition hex_val :: "string \<Rightarrow> nat" where
  "hex_val s = foldl (\<lambda>v c. 16 * v + hexdigit_val c) 0 s"

lemma hexdigit_val: "n < 16 \<Longrightarrow> hexdigit_val (hexdigit n) = n"
proof -
  have "\<forall>n \<in> set [0..<16]. hexdigit_val (hexdigit n) = n" by code_simp
  then show "n < 16 \<Longrightarrow> ?thesis" by simp
qed

lemma hex_val_hex: "foldl (\<lambda>v c. 16 * v + hexdigit_val c) 0 (hex n) = n"
proof (induction n rule: hex.induct)
  case (1 n)
  then show ?case by (subst hex.simps) (auto simp: hexdigit_val)
qed

lemma hex_val_zeros: "foldl (\<lambda>v c. 16 * v + hexdigit_val c) 0 (replicate k CHR ''0'') = 0"
  by (induction k) (simp_all add: hexdigit_val_def)

lemma fmt_08x_length [simp]: "length (fmt_08x w) = 8"
proof -
  have "unat w < 16 ^ 8" using unsigned_less [of w] by simp
  then have "length (hex (unat w)) \<le> 8" by (rule hex_digits) simp
  then show ?thesis by (simp add: fmt_08x_def)
qed

lemma fmt_08x_val: "hex_val (fmt_08x w) = unat w"
  by (simp add: hex_val_def fmt_08x_def hex_val_zeros hex_val_hex)

text \<open>The target that the disassembler prints is the one that the interpreter computes.\<close>

lemma masks28: "(0xf0000000 :: 32 word) = NOT (push_bit 28 1 - 1)" "(0x03ffffff :: 32 word) = push_bit 26 1 - 1"
  by simp_all

lemma jump_target: "(xpc AND 0xf0000000) OR push_bit 2 (w AND 0x03ffffff) = top4 xpc OR off26 w"
  by (simp only: top4_def off26_def masks28)

lemma branch_taken: "branch c w xpc s = Inr s' \<Longrightarrow> inpc s' \<noteq> inpc s \<Longrightarrow> inpc s' = off16 w + xpc + 4"
  by (auto simp: branch_def off16_def split: if_splits)

definition prints_target :: "32 word \<Rightarrow> bool" where
  "prints_target w \<longleftrightarrow> f_op w \<in> {I_J, I_JAL, I_BEQ, I_BNE} \<or> f_op w = I_BCOND \<and> f_rt w \<in> {I_BLTZ, I_BGEZ, I_BLTZAL, I_BGEZAL}"

lemma last_piece_target:
  assumes "prints_target w"
  shows "\<exists>pre. concat (dump_ascii ld w pc) = pre @ fmt_08x (if f_op w \<in> {I_J, I_JAL} then top4 pc OR off26 w else off16 w + pc + 4)"
proof -
  have op: "unat (drop_bit 26 w) = f_op w"
  proof -
    have "drop_bit 26 w AND mask 6 = drop_bit 26 w" by (rule bit_word_eqI) (auto simp: bit_simps dest: bit_imp_le_length)
    then show ?thesis by (simp add: fields_unsigned(5) field_masks)
  qed
  have nz: "w \<noteq> 0" using assms by (auto simp: prints_target_def f_op_def)
  let ?ld = "concat (if ld then [fmt_08x pc @ '': '' @ fmt_08x w @ ''  ''] else [])"
  from assms consider "f_op w \<in> {I_J, I_JAL}" | "f_op w \<in> {I_BEQ, I_BNE}" | "f_op w = I_BCOND"
    unfolding prints_target_def by blast
  then show ?thesis
  proof cases
    case 1
    then show ?thesis using nz op
      by (intro exI [of _ "?ld @ tab @ normalops ! f_op w @ tab"]) (auto simp: dump_ascii_def normal_operands_def Let_def)
  next
    case 2
    then show ?thesis using nz op
      by (intro exI [of _ "?ld @ tab @ normalops ! f_op w @ tab @ regname (f_rt w) @ '','' @ regname (f_rs w) @ '',''"])
        (auto simp: dump_ascii_def normal_operands_def Let_def)
  next
    case 3
    then show ?thesis using nz op
      by (intro exI [of _ "?ld @ tab @ hd (bcond_text w pc) @ tab @ regname (f_rs w) @ '',''"])
        (auto simp: dump_ascii_def bcond_text_def Let_def)
  qed
qed

lemma target_taken:
  assumes "prints_target w" "exec_instr os big w pc s = Inr s'" "inpc s' \<noteq> inpc s"
  shows "inpc s' = (if f_op w \<in> {I_J, I_JAL} then top4 pc OR off26 w else off16 w + pc + 4)"
proof -
  from assms(1) consider "f_op w \<in> {I_J, I_JAL}" | "f_op w \<in> {I_BEQ, I_BNE}" | "f_op w = I_BCOND"
    unfolding prints_target_def by blast
  then show ?thesis
  proof cases
    case 1
    then show ?thesis using assms(2) jump_target [of pc w]
      by (elim insertE emptyE) (auto simp: exec_instr_def exec_branch_imm_def or_else_def Let_def)
  next
    case 2
    then show ?thesis using assms(2,3) branch_taken
      by (elim insertE emptyE) (auto simp: exec_instr_def exec_branch_imm_def or_else_def Let_def)
  next
    case 3
    then have "f_rt w \<in> {I_BLTZ, I_BGEZ, I_BLTZAL, I_BGEZAL}" using assms(1) by (auto simp: prints_target_def)
    then have "\<exists>c s0. exec_instr os big w pc s = branch c w pc s0 \<and> (s0 = s \<or> s0 = setR 31 (pc + 8) s)"
      using 3 by (elim insertE emptyE) (simp_all add: exec_instr_def exec_bcond_def Let_def, blast+)
    then obtain c s0 where b: "branch c w pc s0 = Inr s'" "inpc s0 = inpc s" using assms(2) by (auto simp: setR_def)
    then have "inpc s' = off16 w + pc + 4" using branch_taken [OF b(1)] assms(3) by simp
    then show ?thesis using 3 by simp
  qed
qed

text \<open>C32: The disassembler prints where the interpreter goes. When a jump or a branch that the disassembler prints with a
  target is executed by the interpreter and taken, the last eight characters of its line, read as a hexadecimal
  number, are the address of the next instruction but one.\<close>

theorem disassembled_target:
  assumes "prints_target w" "exec_instr os big w pc s = Inr s'" "inpc s' \<noteq> inpc s"
  shows "hex_val (rev (take 8 (rev (concat (dump_ascii longdis w pc))))) = unat (inpc s')"
proof -
  obtain pre where p: "concat (dump_ascii longdis w pc) = pre @ fmt_08x (inpc s')"
    unfolding target_taken [OF assms] using last_piece_target [OF assms(1)] by blast
  show ?thesis unfolding p by (simp add: fmt_08x_val)
qed

text \<open>\<^verbatim>\<open>BEQ r0,r0,-1\<close> loops; the state is any whose next counter is elsewhere.\<close>

theorem disassembled_target_witness:
  "hex_val (rev (take 8 (rev (concat (dump_ascii True 0x1000ffff 0x10000000))))) = 0x10000000"
proof -
  have f: "f_op 0x1000ffff = 4" "f_rs 0x1000ffff = 0" "f_rt 0x1000ffff = 0" "immed 0x1000ffff = 0xffffffff"
    by (simp_all add: fields_unsigned immed_def)
  have e: "exec_instr (\<lambda>c m h. (0, m, h)) False 0x1000ffff 0x10000000 addu_interp
      = Inr (addu_interp\<lparr>inpc := 0x10000000\<rparr>)"
    by (simp add: exec_instr_def exec_branch_imm_def or_else_def Let_def branch_def f)
  show ?thesis
    using disassembled_target [OF _ e, of True] by (simp add: prints_target_def f addu_interp_def)
qed

text \<open>The column that \<^verbatim>\<open>myprintf\<close> and \<^verbatim>\<open>mytab\<close> keep is the column of the text printed so far.\<close>

definition column_ok :: "Out \<Rightarrow> bool" where
  "column_ok o1 \<longleftrightarrow> column o1 = foldl next_column 1 (outtext o1)"

lemma myprintf_column: "myprintf s o1 = Inr o2 \<Longrightarrow> column_ok o1 \<Longrightarrow> column_ok o2"
  by (auto simp: myprintf_def column_ok_def split: if_splits)

lemma mytab_result: "mytab n o1 = o1\<lparr>outtext := outtext o1 @ replicate (n - column o1) CHR '' '', column := max n (column o1)\<rparr>"
proof (induction n o1 rule: mytab.induct)
  case (1 n o1)
  show ?case
  proof (cases "column o1 < n")
    case True
    then have "n - column o1 = Suc (n - (column o1 + 1))" by simp
    then show ?thesis using 1 [OF True] True by (subst mytab.simps) (simp add: max_def)
  next
    case False
    then show ?thesis by (subst mytab.simps) simp
  qed
qed

lemma spaces_column: "foldl next_column c (replicate k CHR '' '') = c + k"
  by (induction k arbitrary: c) (simp_all add: next_column_def)

lemma mytab_column: "column_ok o1 \<Longrightarrow> column_ok (mytab n o1)"
  by (simp add: mytab_result column_ok_def spaces_column max_def)

lemma foldE_myprintf_column: "foldE myprintf ps o1 = Inr o2 \<Longrightarrow> column_ok o1 \<Longrightarrow> column_ok o2"
  by (induction ps arbitrary: o1) (auto simp: bindE_eq_Inr dest: myprintf_column)

lemma print_reloc_column: "print_reloc sy v rps o1 = Inr o2 \<Longrightarrow> column_ok o1 \<Longrightarrow> column_ok o2"
proof (induction rps)
  case Nil
  then show ?case by (simp add: myprintf_column)
next
  case (Cons rp rps)
  show ?case
  proof (cases "v = r_vaddr rp")
    case True
    then obtain t ty a b where "myprintf t (mytab 57 o1) = Inr a" "myprintf ('' '' @ ty) a = Inr b" "myprintf newline b = Inr o2"
      using Cons.prems(1) by (auto simp: bindE_eq_Inr)
    then show ?thesis using mytab_column [OF Cons.prems(2)] myprintf_column by blast
  next
    case False
    then show ?thesis using Cons by simp
  qed
qed

lemma print_words_column: "print_words big sy tx rps pc ws o1 = Inr o2 \<Longrightarrow> column_ok o1 \<Longrightarrow> column_ok o2"
  by (induction ws arbitrary: pc o1) (auto simp: bindE_eq_Inr dest!: foldE_myprintf_column print_reloc_column)

lemma print_section_column: "print_section big sy sec o1 = Inr o2 \<Longrightarrow> column_ok o1 \<Longrightarrow> column_ok o2"
  by (auto simp: print_section_def bindE_eq_Inr dest: myprintf_column print_words_column)

lemma print_symbol_column: "print_symbol strs sr o1 = Inr o2 \<Longrightarrow> column_ok o1 \<Longrightarrow> column_ok o2"
proof -
  assume p: "print_symbol strs sr o1 = Inr o2" and ok: "column_ok o1"
  from p obtain a b c s t u v where "myprintf a o1 = Inr u" "myprintf b u = Inr v" "myprintf c (mytab 25 v) = Inr s"
      "myprintf t (mytab 41 s) = Inr o2"
    unfolding print_symbol_def by (auto simp: bindE_eq_Inr)
  then show ?thesis using ok mytab_column myprintf_column by metis
qed

lemma print_symbols_column: "print_symbols sy n o1 = Inr o2 \<Longrightarrow> column_ok o1 \<Longrightarrow> column_ok o2"
proof -
  have "foldE (print_symbol strs) ss o1 = Inr o2 \<Longrightarrow> column_ok o1 \<Longrightarrow> column_ok o2" for strs ss
    by (induction ss arbitrary: o1) (auto simp: bindE_eq_Inr dest: print_symbol_column)
  then show "print_symbols sy n o1 = Inr o2 \<Longrightarrow> column_ok o1 \<Longrightarrow> column_ok o2" by (simp add: print_symbols_def)
qed

text \<open>A relocation that fits is printed from column 57 on, and only the first one at an address.\<close>

lemma print_reloc_aligned:
  assumes "vaddr = r_vaddr rp" "reloc_target sy rp = Inr t" "arr_get reloc_type (r_type rp) = Inr ty" "column o1 \<le> 57" "length t < 100"
  shows "\<exists>o2. print_reloc sy vaddr (rp # rps) o1 = Inr o2
    \<and> outtext o2 = outtext o1 @ replicate (57 - column o1) CHR '' '' @ t @ '' '' @ ty @ newline"
proof -
  have ty: "ty \<in> set reloc_type" using assms(3) by (auto simp: arr_get_def split: if_splits)
  then have "length ty < 99" by (auto simp: reloc_type_def)
  then show ?thesis using assms by (simp add: myprintf_def mytab_result newline_def)
qed

text \<open>A name of 98 characters or more does not fit the buffer.\<close>

lemma long_symbol_overruns:
  assumes "vaddr = r_vaddr rp" "reloc_target sy rp = Inr t" "100 \<le> length t"
  shows "print_reloc sy vaddr (rp # rps) o1 = Inl OutOfBounds"
  using assms by (simp add: myprintf_def)

end
