(* ===== verification/Spec2Isabelle.thy ===== *)
theory Spec2Isabelle
  imports NachosPrelude NachosList Bitmap Machine Mipssim Managers AddrSpace Threads ThreadInterface Synch Syscalls Interrupt Disk SynchDisk OpenFile Directory FileSys FileSysOps FsTest ElevatorProg SynchList NetworkDev Post Coff ConsoleDev KernelInv Startup ThreadTest CppStack MipsExec MipsStart Disasm
begin

text \<open>
  A verification development of the Nachos 3.4 instructional operating system, the code under
  \<^verbatim>\<open>src/nachos-3.4/code\<close>.

  \<^bold>\<open>The program.\<close> Nachos is a kernel that runs on a simulated machine in one UNIX process. The
  simulation (\<^verbatim>\<open>machine/\<close>) has a MIPS processor with paged memory, a clock with pending interrupts, a timer,
  a disk, a console and a network. The kernel has threads, a scheduler and synchronization (\<^verbatim>\<open>threads/\<close>), processes with address
  spaces and system calls (\<^verbatim>\<open>userprog/\<close>), a file system (\<^verbatim>\<open>filesys/\<close>) and
  mailboxes over the network (\<^verbatim>\<open>network/\<close>). A user instruction
  (\<^verbatim>\<open>Machine::OneInstruction\<close>) translates its addresses through the page table of the running process and traps
  into \<^verbatim>\<open>ExceptionHandler\<close>, which works on processes, address spaces and threads; devices raise
  interrupts, whose handlers wake threads that sleep on semaphores; the file system reads and writes
  sectors of the disk through such a semaphore.

  \<^bold>\<open>Conventions.\<close> C++ objects are records, and operations are functions that return the new
  object. Every \<^verbatim>\<open>ASSERT\<close>, abort and access outside an array is a value \<open>Inl e\<close> of the result type
  \<open>'a res\<close> (theory \<^verbatim>\<open>NachosPrelude\<close>), so that a theorem that an operation returns \<open>Inr\<close> also says that none of them
  happens. Registers and memory are words of their width; \<^verbatim>\<open>int\<close> variables of the kernel that
  stay small are \<open>int\<close>. Uninitialised memory is read from functions (\<^verbatim>\<open>km_junkb\<close> and others) about which nothing is
  assumed. A loop is a structural recursion, or has fuel that is shown to be enough: the list
  operations use the number of cells, the loops of the idle machine \<open>WaitFuel\<close> = 33000, which is above the time of every
  disk request, since every interrupt of an idle machine moves the clock.

  \<^bold>\<open>The theories.\<close>

  \<^item> \<^verbatim>\<open>NachosPrelude\<close>: results, bounded arrays, loops over results and the macros of \<^verbatim>\<open>threads/utility.h\<close>.
  \<^item> \<^verbatim>\<open>NachosList\<close>: the linked lists of \<^verbatim>\<open>threads/list.cc\<close> as cells in a store, with insertion, removal and sorted
    insertion. An invariant on the cells and the abstraction to a sequence show that they are queues
    and sorted queues (locale and interpretation), and that \<^verbatim>\<open>RemoveElement\<close> leaves a dangling last pointer.
  \<^item> \<^verbatim>\<open>Bitmap\<close>: \<^verbatim>\<open>userprog/bitmap.cc\<close>, as a set of marked numbers; the locale \<^verbatim>\<open>bit_allocator\<close> is the interface on
    which the memory manager, the process manager and the file system rest.
  \<^item> \<^verbatim>\<open>Machine\<close>, \<^verbatim>\<open>Mipssim\<close>: \<^verbatim>\<open>machine/machine.cc\<close>, \<^verbatim>\<open>translate.cc\<close> and \<^verbatim>\<open>mipssim.cc\<close>: registers, memory in either byte
    order, translation by page table or TLB, decoding and every instruction. User code changes
    only memory its tables map, a faulting instruction can be restarted, the multiplication loop is exact.
  \<^item> \<^verbatim>\<open>Managers\<close>, \<^verbatim>\<open>AddrSpace\<close>: the memory manager, the process table with its control blocks, and address
    spaces (\<^verbatim>\<open>userprog/memorymanager.cc\<close>, \<^verbatim>\<open>processmanager.cc\<close>, \<^verbatim>\<open>pcb.cc\<close>, \<^verbatim>\<open>addrspace.cc\<close>): frames are handed out once, copies are equal
    and disjoint, releasing gives back exactly what was taken, loading copies the segments of a program.
  \<^item> \<^verbatim>\<open>Threads\<close>, \<^verbatim>\<open>ThreadInterface\<close>: \<^verbatim>\<open>threads/thread.cc\<close> and \<^verbatim>\<open>scheduler.cc\<close> on the record \<^verbatim>\<open>Nachos\<close> of the kernel state. A thread that is
    not running is represented by what it does when it is switched to, a continuation of type
    \<open>'c\<close> that clients choose. A context switch saves and restores registers and address space; yielding is
    round robin.
  \<^item> \<^verbatim>\<open>Synch\<close>: the semaphores, locks and condition variables of \<^verbatim>\<open>threads/synch.cc\<close>. Programs of any number of
    threads are step relations over their interleavings; invariants by rule induction give mutual exclusion,
    the counting law of semaphores and that no wakeup is lost.
  \<^item> \<^verbatim>\<open>Syscalls\<close>: \<^verbatim>\<open>userprog/exception.cc\<close> and \<^verbatim>\<open>progtest.cc\<close>: fork, exit, join, kill, yield, exec and the dispatch of exceptions, with
    what each call does on every branch. The memory that Fork gives a child is a copy, where the comment of \<^verbatim>\<open>userprog/syscall.h\<close> says the same address space.
  \<^item> \<^verbatim>\<open>KernelInv\<close>: the invariant that ties the scheduler, threads, address spaces, page tables, frames, PCBs and the process table together, and that every
    system call, continuation, user instruction and preemption keeps it.
  \<^item> \<^verbatim>\<open>Startup\<close>: the command line of \<^verbatim>\<open>threads/main.cc\<close> and \<^verbatim>\<open>threads/system.cc\<close>, the construction of the kernel, the first process, and the runs
    of the kernel: while the lists are intact none of them reads or writes through a null or dangling pointer, and only Exec can leave the bounds of an array.
  \<^item> \<^verbatim>\<open>Interrupt\<close>: \<^verbatim>\<open>machine/interrupt.cc\<close>, \<^verbatim>\<open>timer.cc\<close> and \<^verbatim>\<open>stats.cc\<close>: the clock, pending interrupts and the idle loop, over any
    set of handlers that meets the locale \<^verbatim>\<open>interrupt_handlers\<close>.
  \<^item> \<^verbatim>\<open>Disk\<close>, \<^verbatim>\<open>SynchDisk\<close>: \<^verbatim>\<open>machine/disk.cc\<close> over a UNIX file, with its latency, and \<^verbatim>\<open>filesys/synchdisk.cc\<close>, followed from the request through
    semaphore, scheduler, idle loop, clock and handler back to the caller. The locale
    \<^verbatim>\<open>sector_device\<close> is the resulting interface: a store of sectors.
  \<^item> \<^verbatim>\<open>OpenFile\<close>, \<^verbatim>\<open>Directory\<close>, \<^verbatim>\<open>FileSys\<close>, \<^verbatim>\<open>FileSysOps\<close>: \<^verbatim>\<open>filesys/filehdr.cc\<close>, \<^verbatim>\<open>openfile.cc\<close>, \<^verbatim>\<open>directory.cc\<close> and \<^verbatim>\<open>filesys.cc\<close> with their byte layout on disk.
    Open files refine byte sequences (positions and lengths are 32-bit \<^verbatim>\<open>int\<close>s, and requests that end above their range are excluded by hypotheses), directories refine finite maps (locale \<^verbatim>\<open>name_table\<close>), and the file system
    refines a map from names to byte sequences along every sequence of calls (locale \<^verbatim>\<open>call_service\<close>).
  \<^item> \<^verbatim>\<open>ElevatorProg\<close>: the elevator controller of \<^verbatim>\<open>threads/elevator.cc\<close>, as a step relation of its manager and passenger threads, with an
    invariant for every interleaving and every initial value of the uninitialised queues: floors, capacity, queues that count passengers from those values, and, when the destination queues start with no negative values, nobody carried past his floor.
  \<^item> \<^verbatim>\<open>SynchList\<close>: \<^verbatim>\<open>threads/synchlist.cc\<close>, with its lock and condition variable on the thread system, cut at the points where a thread may be
    suspended or preempted, between Signal and Release too: a queue for every interleaving, with no lost wakeup.
  \<^item> \<^verbatim>\<open>NetworkDev\<close>, \<^verbatim>\<open>Post\<close>: \<^verbatim>\<open>machine/network.cc\<close> over sockets and the post office of \<^verbatim>\<open>network/post.cc\<close>, with the byte layout of packets. Any number of machines exchange messages:
    they arrive in order and unchanged, none twice, and all of them on a reliable network. The locks are those of a build with \<^verbatim>\<open>THREADS\<close>; in the build without it, receiving from an empty box fails an assertion.
  \<^item> \<^verbatim>\<open>FsTest\<close>: \<^verbatim>\<open>filesys/fstest.cc\<close>: copying a UNIX file of at most \<^verbatim>\<open>MaxFileSize\<close> bytes into Nachos and printing it is the identity, a larger one overruns the header, and the performance test ends as its comment says.
  \<^item> \<^verbatim>\<open>ThreadTest\<close>: \<^verbatim>\<open>threads/threadtest.cc\<close> with semaphores, with locks and without, in every interleaving of its statements.
  \<^item> \<^verbatim>\<open>CppStack\<close>: the stacks of \<^verbatim>\<open>c++example\<close>; the abstract class is a locale that both implementations interpret.
  \<^item> \<^verbatim>\<open>ConsoleDev\<close>: \<^verbatim>\<open>machine/console.cc\<close> and \<^verbatim>\<open>ConsoleTest\<close>: the echo is exact in every interleaving, whatever \<^verbatim>\<open>PollFile\<close> answers, for input without the byte 255, and ends at the first q; the one failure is a poll that is answered with yes at the end of the input.
  \<^item> \<^verbatim>\<open>Coff\<close>: \<^verbatim>\<open>bin/coff2noff.c\<close> and \<^verbatim>\<open>bin/coff2flat.c\<close>; a converted file is read by the loader of \<^verbatim>\<open>AddrSpace\<close> as the sections of the original.
  \<^item> \<^verbatim>\<open>MipsExec\<close>, \<^verbatim>\<open>MipsStart\<close>: the stand-alone MIPS interpreter of \<^verbatim>\<open>bin/execute.c\<close> and \<^verbatim>\<open>bin/system.c\<close>, its argument vector, and the loaders of \<^verbatim>\<open>bin/main.c\<close> and \<^verbatim>\<open>bin/disasm.c\<close>.
    One step of it agrees with one step of \<^verbatim>\<open>Mipssim\<close> on all instructions that do not access memory, outside listed operands. Its loop does not end; \<^verbatim>\<open>interp_n\<close> is its first \<open>n\<close> iterations.
  \<^item> \<^verbatim>\<open>Disasm\<close>: the disassembler of \<^verbatim>\<open>bin/d.c\<close> and \<^verbatim>\<open>bin/disasm.c\<close> and the lister of \<^verbatim>\<open>bin/out.c\<close>; printed branch targets are those of the interpreter.
  \<^item> This theory: isolation of processes, from the machine up to address spaces.

  \<^bold>\<open>Interrupts.\<close> The theories up to \<^verbatim>\<open>Startup\<close> treat enabling interrupts as setting the level; the clock ticks that it
  causes are the operation \<^verbatim>\<open>OneTick\<close> of the theory \<^verbatim>\<open>Interrupt\<close>, a step of its own, so that
  preemption by the timer appears as a yield between operations (in \<^verbatim>\<open>Startup\<close>, between user instructions). A yield inside a system call is followed only for
  Fork, where it does harm (lemma \<^verbatim>\<open>fork_preempted\<close>). The disk and the file system are
  verified for one kernel thread, as the code asks for in the comment of \<^verbatim>\<open>FileSystem::Create\<close>.

  In \<^verbatim>\<open>ElevatorProg\<close>, \<^verbatim>\<open>Post\<close>, \<^verbatim>\<open>ConsoleDev\<close> and \<^verbatim>\<open>ThreadTest\<close> the steps are statements or whole critical sections: a semaphore is its value, a lock whether it is free, and a scheduled
  interrupt is in a list without its time, to happen at any later moment. What the primitives promise is proved in \<^verbatim>\<open>Synch\<close> and \<^verbatim>\<open>SynchDisk\<close>.

  \<^bold>\<open>Not modelled.\<close> Signals, the terminal and the answer of \<^verbatim>\<open>select\<close> on the host; the assembly of
  \<^verbatim>\<open>SWITCH\<close>; the construction of devices at start-up and \<^verbatim>\<open>Cleanup\<close>; debug output; the command lines of the tools in \<^verbatim>\<open>bin/\<close>, the counters at the end of \<^verbatim>\<open>bin/execute.c\<close> and the reading of
  file headers in \<^verbatim>\<open>bin/out.c\<close>, whose layout is in headers of the host; user programs; the mail test.
\<close>

section \<open>Isolation of processes\<close>

text \<open>The machine runs the given address space: its page table is loaded, there is no TLB.\<close>

definition runs_space :: "KMem \<Rightarrow> AddrSpace \<Rightarrow> bool" where
  "runs_space km a \<longleftrightarrow> as_ok km a \<and> tlb (km_machine km) = None \<and> pageTable (km_machine km) = Some (as_pageTable a)
     \<and> pageTableSize (km_machine km) = numPages a"

text \<open>Executing instructions in user mode, until one traps.\<close>

fun user_steps :: "nat \<Rightarrow> Machine \<Rightarrow> (trap option \<times> Machine) res" where
  "user_steps 0 m = Inr (None, m)"
| "user_steps (Suc n) m = bindE (OneInstruction m) (\<lambda>(t, m'). if t = None then user_steps n m' else Inr (t, m'))"

lemma same_map_space:
  assumes "same_map (km_machine km) m'" "as_ok km c"
    "\<And>q. q div PageSize \<in> as_frames km c \<Longrightarrow> mainMemory m' q = mainMemory (km_machine km) q"
  shows "as_same km (km\<lparr>km_machine := m'\<rparr>) c"
proof -
  obtain t t' where t: "table_of km c = Some t" "table_of (km\<lparr>km_machine := m'\<rparr>) c = Some t'" "map te_core t' = map te_core t"
    "length t = unat (numPages c)" "as_ok (km\<lparr>km_machine := m'\<rparr>) c" "as_frames (km\<lparr>km_machine := m'\<rparr>) c = as_frames km c"
    by (rule same_heap_space [OF same_heap_of_map [OF assms(1)] assms(2)])
  have "as_byte (km\<lparr>km_machine := m'\<rparr>) c i off = as_byte km c i off" if i: "i < unat (numPages c)" "off < PageSize" for i off
  proof -
    have p: "physicalPage (t' ! i) = physicalPage (t ! i)" using map_te_core_nth(3) [OF t(3)] i(1) t(4) by simp
    have "(unat (physicalPage (t ! i)) * PageSize + off) div PageSize \<in> as_frames km c"
      using i t(1,4) by (simp add: as_frames_def frames_of_def)
    then show ?thesis using assms(3) p t(1,2) by (simp add: as_byte_def)
  qed
  then show ?thesis using t(5,6) by (simp add: as_same_def)
qed

lemma runs_space_tables_ok: "runs_space km a \<Longrightarrow> tables_ok (km_machine km)"
  by (auto simp: runs_space_def tables_ok_def as_ok_def table_of_def split: option.splits)

lemma instruction_isolated:
  assumes "runs_space km a" "cpu_inv (km_machine km)" "OneInstruction (km_machine km) = Inr (t, m')"
  shows "runs_space (km\<lparr>km_machine := m'\<rparr>) a" "cpu_inv m'" "as_frames (km\<lparr>km_machine := m'\<rparr>) a = as_frames km a"
    "\<And>c. as_ok km c \<Longrightarrow> as_frames km a \<inter> as_frames km c = {} \<Longrightarrow> as_same km (km\<lparr>km_machine := m'\<rparr>) c"
proof -
  let ?m = "km_machine km"
  have c: "cpu_inv m'" "confined ?m m'" using OneInstruction_outcome [OF assms(2)] assms(3) by auto
  have sm: "same_map ?m m'" using c(2) by (simp add: confined_def)
  have a: "as_ok km a" "pageTable ?m = Some (as_pageTable a)" using assms(1) by (simp_all add: runs_space_def)
  obtain t where t: "te_heap ?m (as_pageTable a) = Some t" "\<forall>e \<in> set t. valid e" "as_frames km a = set (frames_of t)"
    using as_okE [OF a(1)] by (metis as_frames_def option.case(2) table_of_def)
  have "table_frames t = as_frames km a" using t(2,3) by (auto simp: table_frames_def frames_of_def)
  then have mem: "mainMemory m' q = mainMemory ?m q" if "q div PageSize \<notin> as_frames km a" for q
    using c(2) a(2) t(1) that by (auto simp: confined_def)
  show "cpu_inv m'" by (rule c(1))
  show "as_same km (km\<lparr>km_machine := m'\<rparr>) c" if "as_ok km c" "as_frames km a \<inter> as_frames km c = {}" for c
    using mem that(2) by (intro same_map_space [OF sm that(1)]) blast
  have "as_ok (km\<lparr>km_machine := m'\<rparr>) a" "as_frames (km\<lparr>km_machine := m'\<rparr>) a = as_frames km a"
    by (rule same_heap_space [OF same_heap_of_map [OF sm] a(1)], simp)+
  then show "runs_space (km\<lparr>km_machine := m'\<rparr>) a" "as_frames (km\<lparr>km_machine := m'\<rparr>) a = as_frames km a"
    using assms(1) sm by (simp_all add: runs_space_def same_map_def)
qed

text \<open>The instruction about to be executed is one of the four unaligned accesses, with an address on which their
  assertion in \<^verbatim>\<open>Machine::OneInstruction\<close> fails.\<close>

definition alignment_fails :: "Machine \<Rightarrow> bool" where
  "alignment_fails m \<longleftrightarrow> (case fetched m of None \<Rightarrow> False
     | Some i \<Rightarrow> opCode i \<in> {OP_LWL, OP_LWR, OP_SWL, OP_SWR} \<and> (registers m (rs i) + extra i) AND 3 \<noteq> 0)"

text \<open>C1: User programs are isolated from each other. While the machine runs the address space of one
  process, any number of instructions, up to and including one that traps, leaves every
  live address space whose frames are disjoint from it with the same pages and contents;
  the running address space keeps its own frames. A run fails only when it reaches an unaligned-access
  instruction (LWL, LWR, SWL, SWR) whose address fails the alignment assertion.\<close>

theorem user_mode_isolation:
  assumes "runs_space km a" "cpu_inv (km_machine km)"
  shows "case user_steps n (km_machine km) of
      Inl e \<Rightarrow> e = AssertFail \<and> (\<exists>k < n. \<exists>m'. user_steps k (km_machine km) = Inr (None, m') \<and> alignment_fails m')
    | Inr (t, m') \<Rightarrow> runs_space (km\<lparr>km_machine := m'\<rparr>) a \<and> as_frames (km\<lparr>km_machine := m'\<rparr>) a = as_frames km a
        \<and> (\<forall>c. as_ok km c \<longrightarrow> as_frames km a \<inter> as_frames km c = {} \<longrightarrow> as_same km (km\<lparr>km_machine := m'\<rparr>) c)"
  using assms
proof (induction n arbitrary: km)
  case 0
  then show ?case by (simp add: as_same_def)
next
  case (Suc n)
  show ?case
  proof (cases "OneInstruction (km_machine km)")
    case (Inl e)
    then have "e = AssertFail" "alignment_fails (km_machine km)"
      using OneInstruction_outcome [OF Suc.prems(2)] by (auto simp: alignment_fails_def)
    then show ?thesis using Inl by (auto intro!: exI [of _ 0])
  next
    case (Inr r)
    obtain t m1 where r: "r = (t, m1)" by fastforce
    note iso = instruction_isolated [OF Suc.prems Inr [unfolded r]]
    let ?km1 = "km\<lparr>km_machine := m1\<rparr>"
    show ?thesis
    proof (cases t)
      case None
      then have step: "user_steps (Suc k) (km_machine km) = user_steps k m1" for k using Inr r by simp
      have trans: "as_same km km' c" if "as_same km ?km1 c" "as_same ?km1 km' c" for km' c
        using that by (simp add: as_same_def)
      have live: "as_ok ?km1 c \<and> as_frames ?km1 c = as_frames km c" if "as_same km ?km1 c" for c
        using that by (simp add: as_same_def)
      show ?thesis
      proof (cases "user_steps n m1")
        case (Inl e)
        then obtain k m' where "e = AssertFail" "k < n" "user_steps k m1 = Inr (None, m')" "alignment_fails m'"
          using Suc.IH [OF iso(1)] iso(2) by auto
        then show ?thesis using Inl by (auto simp: step simp del: user_steps.simps intro!: exI [of _ "Suc k"])
      next
        case (Inr r')
        then show ?thesis using Suc.IH [OF iso(1)] iso trans live unfolding step by (fastforce split: prod.splits)
      qed
    next
      case (Some x)
      then show ?thesis using iso Inr r by auto
    qed
  qed
qed

text \<open>A process that stores its register 5 in its second page and then makes a system call.\<close>

definition storing_kmem :: KMem where
  "storing_kmem = example_kmem\<lparr>km_machine := (km_machine example_kmem)\<lparr>registers := (\<lambda>_. 0)(5 := 7, NextPCReg := 4),
     mainMemory := (\<lambda>q. if q = 384 then 0x84 else if q = 386 then 0x05 else if q = 387 then 0xAC else if q = 388 then 0x0C else 0)\<rparr>\<rparr>"

definition neighbour_space :: AddrSpace where
  "neighbour_space = \<lparr>as_pageTable = 1, numPages = 1, as_pcb = None\<rparr>"

lemma example_neighbours: "runs_space storing_kmem example_space" "as_ok storing_kmem neighbour_space"
  "as_frames storing_kmem example_space = {3, 9}" "as_frames storing_kmem neighbour_space = {4}"
  using example_bits example_space_ok
  by (simp_all add: runs_space_def as_ok_def as_frames_def table_of_def example_space_def neighbour_space_def
      frames_of_def fresh_entry_def example_kmem_def storing_kmem_def)

lemma storing_run: "case user_steps 2 (km_machine storing_kmem) of Inl e \<Rightarrow> False
    | Inr (t, m') \<Rightarrow> t = Some (SyscallException, 0) \<and> mainMemory m' 1156 = 7"
  by code_simp

theorem user_mode_isolation_witness:
  "\<exists>m'. user_steps 2 (km_machine storing_kmem) = Inr (Some (SyscallException, 0), m') \<and> mainMemory m' 1156 = 7
    \<and> as_same storing_kmem (storing_kmem\<lparr>km_machine := m'\<rparr>) neighbour_space"
proof -
  have "cpu_inv (km_machine storing_kmem)"
    using runs_space_tables_ok [OF example_neighbours(1)] by (simp add: cpu_inv_def storing_kmem_def example_kmem_def reg_defs)
  then show ?thesis
    using user_mode_isolation [OF example_neighbours(1), of 2] example_neighbours storing_run
    by (auto split: sum.splits prod.splits)
qed

end
